(* ===== verification/Prelude.thy ===== *)
theory Prelude
  imports Main "HOL-Library.Word" "HOL-Library.Monad_Syntax"
begin

text \<open>
  Shared vocabulary of the development: the machine integer types of the C sources, the
  way faults are represented, and the generic lemmas on words, lists and options that the
  component theories use.

  Loops of the C code that follow pointers are \<^theory_text>\<open>partial_function (option)\<close>: the value
  \<open>None\<close> stands for a run with no defined result (a dereferenced null pointer or a walk
  that never ends), \<open>Some\<close> for a run that returns.  The generated matcher can also stop
  deliberately (\<^verbatim>\<open>me_trap\<close>, \<^verbatim>\<open>abort\<close>); its results live in the sum type
  \<open>fault + 'a\<close>.
\<close>

type_synonym u64 = "64 word"
type_synonym u32 = "32 word"
type_synonym u8 = "8 word"

text \<open>Addresses of rows.  A C pointer is an \<open>option\<close> of these; \<open>None\<close> is \<open>NULL\<close>.\<close>

type_synonym oref = nat
type_synonym lref = nat

text \<open>
  How a run of the generated matcher can end without returning: undefined behaviour below
  it, \<^verbatim>\<open>me_trap(k)\<close>, or \<^verbatim>\<open>abort()\<close> in the adapter.
\<close>

datatype fault = Undefined | Trap nat | Abort

definition rbind :: "fault + 'a \<Rightarrow> ('a \<Rightarrow> fault + 'b) \<Rightarrow> fault + 'b" where
  "rbind r f = (case r of Inl e \<Rightarrow> Inl e | Inr x \<Rightarrow> f x)"

definition of_option :: "'a option \<Rightarrow> fault + 'a" where
  "of_option r = (case r of None \<Rightarrow> Inl Undefined | Some x \<Rightarrow> Inr x)"

lemma rbind_simps [simp]: "rbind (Inl e) f = Inl e" "rbind (Inr x) f = f x"
  by (simp_all add: rbind_def)

lemma of_option_simps [simp]: "of_option None = Inl Undefined" "of_option (Some x) = Inr x"
  by (simp_all add: of_option_def)

lemma rbind_eq_Inr: "rbind r f = Inr y \<longleftrightarrow> (\<exists>x. r = Inr x \<and> f x = Inr y)"
  by (cases r) simp_all

text \<open>Collections the component theories fill.\<close>

named_theorems code_defs \<open>definitions of C functions, unfolded to run them\<close>
named_theorems rep_defs \<open>representation predicates\<close>

section \<open>Words and counts\<close>

lemma unat_u64: "unat (w :: u64) < 2 ^ 64"
  by (rule order_less_le_trans[OF unsigned_less]) simp

lemma small_count: "n \<le> unat c \<Longrightarrow> unat c < 2 ^ 32 \<Longrightarrow> unat (of_nat n :: u64) = n" for c :: u64
  by (simp add: unat_of_nat)

lemma small_count32: "n \<le> unat c \<Longrightarrow> unat c < 2 ^ 32 \<Longrightarrow> unat (of_nat n :: u32) = n" for c :: u64
  by (simp add: unat_of_nat)

text \<open>Small codes.\<close>

lemma u64_le_1: "x \<le> 1 \<Longrightarrow> x = 0 \<or> x = 1" for x :: u64
proof -
  assume "x \<le> 1"
  then have "unat x = 0 \<or> unat x = 1" by (auto simp: word_le_nat_alt)
  then show ?thesis by (metis unat_0 unat_1 word_unat_eq_iff)
qed

lemma u64_le_3: "x \<le> 3 \<Longrightarrow> x = 0 \<or> x = 1 \<or> x = 2 \<or> x = 3" for x :: u64
proof -
  assume "x \<le> 3"
  then have "unat x \<in> {0, 1, 2, 3}" by (auto simp: word_le_nat_alt)
  moreover have "unat (2 :: u64) = 2" "unat (3 :: u64) = 3" by simp_all
  ultimately show ?thesis by (auto simp: word_unat_eq_iff)
qed

lemma u64_le_4: "x \<le> 4 \<Longrightarrow> x = 0 \<or> x = 1 \<or> x = 2 \<or> x = 3 \<or> x = 4" for x :: u64
proof -
  assume "x \<le> 4"
  then have "unat x \<in> {0, 1, 2, 3, 4}" by (auto simp: word_le_nat_alt)
  then show ?thesis by (auto simp: word_unat_eq_iff)
qed

section \<open>Insertion into sorted lists\<close>

fun ins_by :: "('a \<Rightarrow> 'a \<Rightarrow> bool) \<Rightarrow> 'a \<Rightarrow> 'a list \<Rightarrow> 'a list" where
  "ins_by lt x [] = [x]"
| "ins_by lt x (y # ys) = (if lt x y then x # y # ys else y # ins_by lt x ys)"

lemma length_ins_by [simp]: "length (ins_by lt x xs) = Suc (length xs)"
  by (induction xs) auto

lemma set_ins_by [simp]: "set (ins_by lt x xs) = insert x (set xs)"
  by (induction xs) auto

lemma ins_by_left: "lt x y \<Longrightarrow> ins_by lt x (xs @ y # ys) = ins_by lt x xs @ y # ys"
  by (induction xs) auto

lemma ins_by_right: "(\<forall>z \<in> set xs. \<not> lt x z) \<Longrightarrow> ins_by lt x (xs @ ys) = xs @ ins_by lt x ys"
  by (induction xs) auto

lemma distinct_ins_by [simp]: "distinct (ins_by lt x xs) \<longleftrightarrow> x \<notin> set xs \<and> distinct xs"
  by (induction xs) auto

lemma sorted_map_distinct: "sorted_wrt (<) (map f xs) \<Longrightarrow> distinct xs" for f :: "'a \<Rightarrow> 'b::linorder"
  by (induction xs) auto

lemma sorted_ins_by:
  fixes f :: "'a \<Rightarrow> 'b::linorder"
  assumes "sorted_wrt (<) (map f xs)" and "f x \<notin> f ` set xs"
  shows "sorted_wrt (<) (map f (ins_by (\<lambda>a b. f a < f b) x xs))"
  using assms
proof (induction xs)
  case (Cons y ys)
  then have "f x \<noteq> f y" by auto
  with Cons show ?case by (auto simp: not_less)
qed simp

lemma sorted_wrt_map_remove1: "sorted_wrt R (map f xs) \<Longrightarrow> sorted_wrt R (map f (remove1 x xs))"
  by (induction xs) (auto dest: notin_set_remove1 set_remove1_subset[THEN subsetD])

lemma find_unique:
  "x \<in> set xs \<Longrightarrow> P x \<Longrightarrow> (\<And>y. y \<in> set xs \<Longrightarrow> P y \<Longrightarrow> y = x) \<Longrightarrow> find P xs = Some x"
proof (induction xs)
  case (Cons a xs)
  show ?case
  proof (cases "P a")
    case True
    have "a = x" by (rule Cons.prems(3)) (simp_all add: True)
    then show ?thesis using True by simp
  next
    case False
    then have "x \<in> set xs" using Cons.prems(1,2) by auto
    then have "find P xs = Some x"
      using Cons.prems(2) by (rule Cons.IH) (rule Cons.prems(3), simp_all)
    then show ?thesis using False by simp
  qed
qed simp

end
