(* ===== verification/Machine.thy ===== *)
theory Machine
  imports Prelude
begin

text \<open>
  The data of \<^verbatim>\<open>c/include/matching_engine_gen.h\<close>: the rows \<^verbatim>\<open>Order\<close> and
  \<^verbatim>\<open>PriceLevel\<close> with their intrusive links, the global \<^verbatim>\<open>g_EngineDb\<close>, and the memory the
  rows live in.  A row is addressed by a number; \<open>order_mem\<close> and \<open>level_mem\<close> give its
  contents.  The rest of the memory record describes the C allocator: where the next chunk
  goes, which chunks are allocated, and whether the next call of \<^verbatim>\<open>calloc\<close> or
  \<^verbatim>\<open>realloc\<close> succeeds.

  Reading \<^verbatim>\<open>p->f\<close> is \<open>o_f m p\<close> (or \<open>l_f m p\<close>), writing \<^verbatim>\<open>p->f = v\<close> is
  \<open>set_o_f p v m\<close>.  The lemmas at the end of the theory say how reads see writes, as
  equations between field functions, so that every later proof about one field ignores the
  writes to all others.
\<close>

section \<open>Constants\<close>

definition ORDER_HASH_BUCKETS :: u64 where "ORDER_HASH_BUCKETS = 8388608"
definition ORDER_CHUNK_SIZE :: u64 where "ORDER_CHUNK_SIZE = 5000000"
definition LEVEL_CHUNK_SIZE :: u64 where "LEVEL_CHUNK_SIZE = 500000"

section \<open>Rows\<close>

record Order =
  order_id :: "u64"
  account_id :: "u64"
  side :: "u64"
  stp_mode :: "u64"
  price :: "u64"
  qty :: "u64"
  remaining_qty :: "u64"
  p_price_level :: "lref option"
  orders_next :: "oref option"
  orders_prev :: "oref option"
  orders_inlist :: "bool"
  ind_order_next :: "oref option"
  ind_order_inhash :: "bool"
  order_freenext :: "oref option"

record PriceLevel =
  level_price :: "u64"
  total_qty :: "u64"
  orders_head :: "oref option"
  orders_tail :: "oref option"
  orders_n :: "u32"
  tree_parent :: "lref option"
  tree_left :: "lref option"
  tree_right :: "lref option"
  tree_intree :: "bool"
  level_freenext :: "lref option"

text \<open>Rows as \<^verbatim>\<open>calloc\<close> leaves them: every field zero.\<close>

definition zero_order :: Order where
  "zero_order = \<lparr>order_id = 0, account_id = 0, side = 0, stp_mode = 0, price = 0, qty = 0, remaining_qty = 0, p_price_level = None, orders_next = None, orders_prev = None, orders_inlist = False, ind_order_next = None, ind_order_inhash = False, order_freenext = None\<rparr>"

definition zero_level :: PriceLevel where
  "zero_level = \<lparr>level_price = 0, total_qty = 0, orders_head = None, orders_tail = None, orders_n = 0, tree_parent = None, tree_left = None, tree_right = None, tree_intree = False, level_freenext = None\<rparr>"

section \<open>The database and the memory\<close>

text \<open>
  \<open>ind_order_buckets\<close> is the bucket array behind a pointer that \<^verbatim>\<open>calloc\<close> may have left
  null.  A chunk array is the list of its slots; a slot \<^verbatim>\<open>realloc\<close> has not yet been
  written holds \<open>None\<close>.
\<close>

record EngineDb =
  ind_order_buckets :: "(u32 \<Rightarrow> oref option) option"
  ind_order_n :: u32
  bids_root :: "lref option"
  bids_n :: u32
  asks_root :: "lref option"
  asks_n :: u32
  order_pool_free :: "oref option"
  order_pool_n :: u64
  order_pool_total_allocated :: u64
  level_pool_free :: "lref option"
  level_pool_n :: u64
  level_pool_total_allocated :: u64
  order_chunks :: "oref option list option"
  order_chunks_n :: u32
  order_chunks_cap :: u32
  level_chunks :: "lref option list option"
  level_chunks_n :: u32
  level_chunks_cap :: u32

record machine = EngineDb +
  order_mem :: "oref \<Rightarrow> Order"
  level_mem :: "lref \<Rightarrow> PriceLevel"
  order_brk :: oref
  level_brk :: lref
  order_heap :: "oref list"
  level_heap :: "lref list"
  alloc_ok :: "nat \<Rightarrow> bool"
  alloc_calls :: nat

definition zero_EngineDb :: EngineDb where
  "zero_EngineDb =
     \<lparr>ind_order_buckets = None, ind_order_n = 0, bids_root = None, bids_n = 0,
      asks_root = None, asks_n = 0, order_pool_free = None, order_pool_n = 0,
      order_pool_total_allocated = 0, level_pool_free = None, level_pool_n = 0,
      level_pool_total_allocated = 0, order_chunks = None, order_chunks_n = 0,
      order_chunks_cap = 0, level_chunks = None, level_chunks_n = 0, level_chunks_cap = 0\<rparr>"

section \<open>Reading and writing fields\<close>

definition hupd :: "nat \<Rightarrow> ('r \<Rightarrow> 'r) \<Rightarrow> (nat \<Rightarrow> 'r) \<Rightarrow> nat \<Rightarrow> 'r" where
  "hupd p f h = h(p := f (h p))"

text \<open>One function per field of a row.\<close>

definition ho_id :: "(oref \<Rightarrow> Order) \<Rightarrow> oref \<Rightarrow> u64" where "ho_id h = (\<lambda>p. order_id (h p))"
definition ho_account :: "(oref \<Rightarrow> Order) \<Rightarrow> oref \<Rightarrow> u64" where "ho_account h = (\<lambda>p. account_id (h p))"
definition ho_side :: "(oref \<Rightarrow> Order) \<Rightarrow> oref \<Rightarrow> u64" where "ho_side h = (\<lambda>p. side (h p))"
definition ho_stp :: "(oref \<Rightarrow> Order) \<Rightarrow> oref \<Rightarrow> u64" where "ho_stp h = (\<lambda>p. stp_mode (h p))"
definition ho_price :: "(oref \<Rightarrow> Order) \<Rightarrow> oref \<Rightarrow> u64" where "ho_price h = (\<lambda>p. price (h p))"
definition ho_qty :: "(oref \<Rightarrow> Order) \<Rightarrow> oref \<Rightarrow> u64" where "ho_qty h = (\<lambda>p. qty (h p))"
definition ho_rem :: "(oref \<Rightarrow> Order) \<Rightarrow> oref \<Rightarrow> u64" where "ho_rem h = (\<lambda>p. remaining_qty (h p))"
definition ho_level :: "(oref \<Rightarrow> Order) \<Rightarrow> oref \<Rightarrow> lref option" where "ho_level h = (\<lambda>p. p_price_level (h p))"
definition ho_next :: "(oref \<Rightarrow> Order) \<Rightarrow> oref \<Rightarrow> oref option" where "ho_next h = (\<lambda>p. orders_next (h p))"
definition ho_prev :: "(oref \<Rightarrow> Order) \<Rightarrow> oref \<Rightarrow> oref option" where "ho_prev h = (\<lambda>p. orders_prev (h p))"
definition ho_inlist :: "(oref \<Rightarrow> Order) \<Rightarrow> oref \<Rightarrow> bool" where "ho_inlist h = (\<lambda>p. orders_inlist (h p))"
definition ho_hnext :: "(oref \<Rightarrow> Order) \<Rightarrow> oref \<Rightarrow> oref option" where "ho_hnext h = (\<lambda>p. ind_order_next (h p))"
definition ho_inhash :: "(oref \<Rightarrow> Order) \<Rightarrow> oref \<Rightarrow> bool" where "ho_inhash h = (\<lambda>p. ind_order_inhash (h p))"
definition ho_free :: "(oref \<Rightarrow> Order) \<Rightarrow> oref \<Rightarrow> oref option" where "ho_free h = (\<lambda>p. order_freenext (h p))"
definition hl_price :: "(lref \<Rightarrow> PriceLevel) \<Rightarrow> lref \<Rightarrow> u64" where "hl_price h = (\<lambda>p. level_price (h p))"
definition hl_total :: "(lref \<Rightarrow> PriceLevel) \<Rightarrow> lref \<Rightarrow> u64" where "hl_total h = (\<lambda>p. total_qty (h p))"
definition hl_head :: "(lref \<Rightarrow> PriceLevel) \<Rightarrow> lref \<Rightarrow> oref option" where "hl_head h = (\<lambda>p. orders_head (h p))"
definition hl_tail :: "(lref \<Rightarrow> PriceLevel) \<Rightarrow> lref \<Rightarrow> oref option" where "hl_tail h = (\<lambda>p. orders_tail (h p))"
definition hl_n :: "(lref \<Rightarrow> PriceLevel) \<Rightarrow> lref \<Rightarrow> u32" where "hl_n h = (\<lambda>p. orders_n (h p))"
definition hl_parent :: "(lref \<Rightarrow> PriceLevel) \<Rightarrow> lref \<Rightarrow> lref option" where "hl_parent h = (\<lambda>p. tree_parent (h p))"
definition hl_left :: "(lref \<Rightarrow> PriceLevel) \<Rightarrow> lref \<Rightarrow> lref option" where "hl_left h = (\<lambda>p. tree_left (h p))"
definition hl_right :: "(lref \<Rightarrow> PriceLevel) \<Rightarrow> lref \<Rightarrow> lref option" where "hl_right h = (\<lambda>p. tree_right (h p))"
definition hl_intree :: "(lref \<Rightarrow> PriceLevel) \<Rightarrow> lref \<Rightarrow> bool" where "hl_intree h = (\<lambda>p. tree_intree (h p))"
definition hl_free :: "(lref \<Rightarrow> PriceLevel) \<Rightarrow> lref \<Rightarrow> lref option" where "hl_free h = (\<lambda>p. level_freenext (h p))"

text \<open>Reads through a pointer.\<close>

abbreviation o_id :: "'z machine_scheme \<Rightarrow> oref \<Rightarrow> u64" where "o_id m \<equiv> ho_id (order_mem m)"
abbreviation o_account :: "'z machine_scheme \<Rightarrow> oref \<Rightarrow> u64" where "o_account m \<equiv> ho_account (order_mem m)"
abbreviation o_side :: "'z machine_scheme \<Rightarrow> oref \<Rightarrow> u64" where "o_side m \<equiv> ho_side (order_mem m)"
abbreviation o_stp :: "'z machine_scheme \<Rightarrow> oref \<Rightarrow> u64" where "o_stp m \<equiv> ho_stp (order_mem m)"
abbreviation o_price :: "'z machine_scheme \<Rightarrow> oref \<Rightarrow> u64" where "o_price m \<equiv> ho_price (order_mem m)"
abbreviation o_qty :: "'z machine_scheme \<Rightarrow> oref \<Rightarrow> u64" where "o_qty m \<equiv> ho_qty (order_mem m)"
abbreviation o_rem :: "'z machine_scheme \<Rightarrow> oref \<Rightarrow> u64" where "o_rem m \<equiv> ho_rem (order_mem m)"
abbreviation o_level :: "'z machine_scheme \<Rightarrow> oref \<Rightarrow> lref option" where "o_level m \<equiv> ho_level (order_mem m)"
abbreviation o_next :: "'z machine_scheme \<Rightarrow> oref \<Rightarrow> oref option" where "o_next m \<equiv> ho_next (order_mem m)"
abbreviation o_prev :: "'z machine_scheme \<Rightarrow> oref \<Rightarrow> oref option" where "o_prev m \<equiv> ho_prev (order_mem m)"
abbreviation o_inlist :: "'z machine_scheme \<Rightarrow> oref \<Rightarrow> bool" where "o_inlist m \<equiv> ho_inlist (order_mem m)"
abbreviation o_hnext :: "'z machine_scheme \<Rightarrow> oref \<Rightarrow> oref option" where "o_hnext m \<equiv> ho_hnext (order_mem m)"
abbreviation o_inhash :: "'z machine_scheme \<Rightarrow> oref \<Rightarrow> bool" where "o_inhash m \<equiv> ho_inhash (order_mem m)"
abbreviation o_free :: "'z machine_scheme \<Rightarrow> oref \<Rightarrow> oref option" where "o_free m \<equiv> ho_free (order_mem m)"
abbreviation l_price :: "'z machine_scheme \<Rightarrow> lref \<Rightarrow> u64" where "l_price m \<equiv> hl_price (level_mem m)"
abbreviation l_total :: "'z machine_scheme \<Rightarrow> lref \<Rightarrow> u64" where "l_total m \<equiv> hl_total (level_mem m)"
abbreviation l_head :: "'z machine_scheme \<Rightarrow> lref \<Rightarrow> oref option" where "l_head m \<equiv> hl_head (level_mem m)"
abbreviation l_tail :: "'z machine_scheme \<Rightarrow> lref \<Rightarrow> oref option" where "l_tail m \<equiv> hl_tail (level_mem m)"
abbreviation l_n :: "'z machine_scheme \<Rightarrow> lref \<Rightarrow> u32" where "l_n m \<equiv> hl_n (level_mem m)"
abbreviation l_parent :: "'z machine_scheme \<Rightarrow> lref \<Rightarrow> lref option" where "l_parent m \<equiv> hl_parent (level_mem m)"
abbreviation l_left :: "'z machine_scheme \<Rightarrow> lref \<Rightarrow> lref option" where "l_left m \<equiv> hl_left (level_mem m)"
abbreviation l_right :: "'z machine_scheme \<Rightarrow> lref \<Rightarrow> lref option" where "l_right m \<equiv> hl_right (level_mem m)"
abbreviation l_intree :: "'z machine_scheme \<Rightarrow> lref \<Rightarrow> bool" where "l_intree m \<equiv> hl_intree (level_mem m)"
abbreviation l_free :: "'z machine_scheme \<Rightarrow> lref \<Rightarrow> lref option" where "l_free m \<equiv> hl_free (level_mem m)"

text \<open>Writes through a pointer.\<close>

definition upd_order :: "oref \<Rightarrow> (Order \<Rightarrow> Order) \<Rightarrow> 'z machine_scheme \<Rightarrow> 'z machine_scheme" where
  "upd_order p f m = m\<lparr>order_mem := hupd p f (order_mem m)\<rparr>"

definition upd_level :: "lref \<Rightarrow> (PriceLevel \<Rightarrow> PriceLevel) \<Rightarrow> 'z machine_scheme \<Rightarrow> 'z machine_scheme" where
  "upd_level p f m = m\<lparr>level_mem := hupd p f (level_mem m)\<rparr>"

abbreviation set_o_id :: "oref \<Rightarrow> u64 \<Rightarrow> 'z machine_scheme \<Rightarrow> 'z machine_scheme" where
  "set_o_id p v \<equiv> upd_order p (\<lambda>r. r\<lparr>order_id := v\<rparr>)"
abbreviation set_o_account :: "oref \<Rightarrow> u64 \<Rightarrow> 'z machine_scheme \<Rightarrow> 'z machine_scheme" where
  "set_o_account p v \<equiv> upd_order p (\<lambda>r. r\<lparr>account_id := v\<rparr>)"
abbreviation set_o_side :: "oref \<Rightarrow> u64 \<Rightarrow> 'z machine_scheme \<Rightarrow> 'z machine_scheme" where
  "set_o_side p v \<equiv> upd_order p (\<lambda>r. r\<lparr>side := v\<rparr>)"
abbreviation set_o_stp :: "oref \<Rightarrow> u64 \<Rightarrow> 'z machine_scheme \<Rightarrow> 'z machine_scheme" where
  "set_o_stp p v \<equiv> upd_order p (\<lambda>r. r\<lparr>stp_mode := v\<rparr>)"
abbreviation set_o_price :: "oref \<Rightarrow> u64 \<Rightarrow> 'z machine_scheme \<Rightarrow> 'z machine_scheme" where
  "set_o_price p v \<equiv> upd_order p (\<lambda>r. r\<lparr>price := v\<rparr>)"
abbreviation set_o_qty :: "oref \<Rightarrow> u64 \<Rightarrow> 'z machine_scheme \<Rightarrow> 'z machine_scheme" where
  "set_o_qty p v \<equiv> upd_order p (\<lambda>r. r\<lparr>qty := v\<rparr>)"
abbreviation set_o_rem :: "oref \<Rightarrow> u64 \<Rightarrow> 'z machine_scheme \<Rightarrow> 'z machine_scheme" where
  "set_o_rem p v \<equiv> upd_order p (\<lambda>r. r\<lparr>remaining_qty := v\<rparr>)"
abbreviation set_o_level :: "oref \<Rightarrow> lref option \<Rightarrow> 'z machine_scheme \<Rightarrow> 'z machine_scheme" where
  "set_o_level p v \<equiv> upd_order p (\<lambda>r. r\<lparr>p_price_level := v\<rparr>)"
abbreviation set_o_next :: "oref \<Rightarrow> oref option \<Rightarrow> 'z machine_scheme \<Rightarrow> 'z machine_scheme" where
  "set_o_next p v \<equiv> upd_order p (\<lambda>r. r\<lparr>orders_next := v\<rparr>)"
abbreviation set_o_prev :: "oref \<Rightarrow> oref option \<Rightarrow> 'z machine_scheme \<Rightarrow> 'z machine_scheme" where
  "set_o_prev p v \<equiv> upd_order p (\<lambda>r. r\<lparr>orders_prev := v\<rparr>)"
abbreviation set_o_inlist :: "oref \<Rightarrow> bool \<Rightarrow> 'z machine_scheme \<Rightarrow> 'z machine_scheme" where
  "set_o_inlist p v \<equiv> upd_order p (\<lambda>r. r\<lparr>orders_inlist := v\<rparr>)"
abbreviation set_o_hnext :: "oref \<Rightarrow> oref option \<Rightarrow> 'z machine_scheme \<Rightarrow> 'z machine_scheme" where
  "set_o_hnext p v \<equiv> upd_order p (\<lambda>r. r\<lparr>ind_order_next := v\<rparr>)"
abbreviation set_o_inhash :: "oref \<Rightarrow> bool \<Rightarrow> 'z machine_scheme \<Rightarrow> 'z machine_scheme" where
  "set_o_inhash p v \<equiv> upd_order p (\<lambda>r. r\<lparr>ind_order_inhash := v\<rparr>)"
abbreviation set_o_free :: "oref \<Rightarrow> oref option \<Rightarrow> 'z machine_scheme \<Rightarrow> 'z machine_scheme" where
  "set_o_free p v \<equiv> upd_order p (\<lambda>r. r\<lparr>order_freenext := v\<rparr>)"
abbreviation set_l_price :: "lref \<Rightarrow> u64 \<Rightarrow> 'z machine_scheme \<Rightarrow> 'z machine_scheme" where
  "set_l_price p v \<equiv> upd_level p (\<lambda>r. r\<lparr>level_price := v\<rparr>)"
abbreviation set_l_total :: "lref \<Rightarrow> u64 \<Rightarrow> 'z machine_scheme \<Rightarrow> 'z machine_scheme" where
  "set_l_total p v \<equiv> upd_level p (\<lambda>r. r\<lparr>total_qty := v\<rparr>)"
abbreviation set_l_head :: "lref \<Rightarrow> oref option \<Rightarrow> 'z machine_scheme \<Rightarrow> 'z machine_scheme" where
  "set_l_head p v \<equiv> upd_level p (\<lambda>r. r\<lparr>orders_head := v\<rparr>)"
abbreviation set_l_tail :: "lref \<Rightarrow> oref option \<Rightarrow> 'z machine_scheme \<Rightarrow> 'z machine_scheme" where
  "set_l_tail p v \<equiv> upd_level p (\<lambda>r. r\<lparr>orders_tail := v\<rparr>)"
abbreviation set_l_n :: "lref \<Rightarrow> u32 \<Rightarrow> 'z machine_scheme \<Rightarrow> 'z machine_scheme" where
  "set_l_n p v \<equiv> upd_level p (\<lambda>r. r\<lparr>orders_n := v\<rparr>)"
abbreviation set_l_parent :: "lref \<Rightarrow> lref option \<Rightarrow> 'z machine_scheme \<Rightarrow> 'z machine_scheme" where
  "set_l_parent p v \<equiv> upd_level p (\<lambda>r. r\<lparr>tree_parent := v\<rparr>)"
abbreviation set_l_left :: "lref \<Rightarrow> lref option \<Rightarrow> 'z machine_scheme \<Rightarrow> 'z machine_scheme" where
  "set_l_left p v \<equiv> upd_level p (\<lambda>r. r\<lparr>tree_left := v\<rparr>)"
abbreviation set_l_right :: "lref \<Rightarrow> lref option \<Rightarrow> 'z machine_scheme \<Rightarrow> 'z machine_scheme" where
  "set_l_right p v \<equiv> upd_level p (\<lambda>r. r\<lparr>tree_right := v\<rparr>)"
abbreviation set_l_intree :: "lref \<Rightarrow> bool \<Rightarrow> 'z machine_scheme \<Rightarrow> 'z machine_scheme" where
  "set_l_intree p v \<equiv> upd_level p (\<lambda>r. r\<lparr>tree_intree := v\<rparr>)"
abbreviation set_l_free :: "lref \<Rightarrow> lref option \<Rightarrow> 'z machine_scheme \<Rightarrow> 'z machine_scheme" where
  "set_l_free p v \<equiv> upd_level p (\<lambda>r. r\<lparr>level_freenext := v\<rparr>)"

section \<open>How reads see writes\<close>

lemmas heap_view_defs =
  ho_id_def ho_account_def ho_side_def ho_stp_def ho_price_def ho_qty_def ho_rem_def ho_level_def ho_next_def ho_prev_def ho_inlist_def ho_hnext_def ho_inhash_def ho_free_def hl_price_def hl_total_def hl_head_def hl_tail_def hl_n_def hl_parent_def hl_left_def hl_right_def hl_intree_def hl_free_def

lemma hupd_order_id [simp]:
  "ho_id (hupd p (\<lambda>r. r\<lparr>order_id := v\<rparr>) h) = (ho_id h)(p := v)"
  "ho_account (hupd p (\<lambda>r. r\<lparr>order_id := v\<rparr>) h) = ho_account h"
  "ho_side (hupd p (\<lambda>r. r\<lparr>order_id := v\<rparr>) h) = ho_side h"
  "ho_stp (hupd p (\<lambda>r. r\<lparr>order_id := v\<rparr>) h) = ho_stp h"
  "ho_price (hupd p (\<lambda>r. r\<lparr>order_id := v\<rparr>) h) = ho_price h"
  "ho_qty (hupd p (\<lambda>r. r\<lparr>order_id := v\<rparr>) h) = ho_qty h"
  "ho_rem (hupd p (\<lambda>r. r\<lparr>order_id := v\<rparr>) h) = ho_rem h"
  "ho_level (hupd p (\<lambda>r. r\<lparr>order_id := v\<rparr>) h) = ho_level h"
  "ho_next (hupd p (\<lambda>r. r\<lparr>order_id := v\<rparr>) h) = ho_next h"
  "ho_prev (hupd p (\<lambda>r. r\<lparr>order_id := v\<rparr>) h) = ho_prev h"
  "ho_inlist (hupd p (\<lambda>r. r\<lparr>order_id := v\<rparr>) h) = ho_inlist h"
  "ho_hnext (hupd p (\<lambda>r. r\<lparr>order_id := v\<rparr>) h) = ho_hnext h"
  "ho_inhash (hupd p (\<lambda>r. r\<lparr>order_id := v\<rparr>) h) = ho_inhash h"
  "ho_free (hupd p (\<lambda>r. r\<lparr>order_id := v\<rparr>) h) = ho_free h"
  by (simp_all add: hupd_def heap_view_defs fun_eq_iff)

lemma hupd_account_id [simp]:
  "ho_id (hupd p (\<lambda>r. r\<lparr>account_id := v\<rparr>) h) = ho_id h"
  "ho_account (hupd p (\<lambda>r. r\<lparr>account_id := v\<rparr>) h) = (ho_account h)(p := v)"
  "ho_side (hupd p (\<lambda>r. r\<lparr>account_id := v\<rparr>) h) = ho_side h"
  "ho_stp (hupd p (\<lambda>r. r\<lparr>account_id := v\<rparr>) h) = ho_stp h"
  "ho_price (hupd p (\<lambda>r. r\<lparr>account_id := v\<rparr>) h) = ho_price h"
  "ho_qty (hupd p (\<lambda>r. r\<lparr>account_id := v\<rparr>) h) = ho_qty h"
  "ho_rem (hupd p (\<lambda>r. r\<lparr>account_id := v\<rparr>) h) = ho_rem h"
  "ho_level (hupd p (\<lambda>r. r\<lparr>account_id := v\<rparr>) h) = ho_level h"
  "ho_next (hupd p (\<lambda>r. r\<lparr>account_id := v\<rparr>) h) = ho_next h"
  "ho_prev (hupd p (\<lambda>r. r\<lparr>account_id := v\<rparr>) h) = ho_prev h"
  "ho_inlist (hupd p (\<lambda>r. r\<lparr>account_id := v\<rparr>) h) = ho_inlist h"
  "ho_hnext (hupd p (\<lambda>r. r\<lparr>account_id := v\<rparr>) h) = ho_hnext h"
  "ho_inhash (hupd p (\<lambda>r. r\<lparr>account_id := v\<rparr>) h) = ho_inhash h"
  "ho_free (hupd p (\<lambda>r. r\<lparr>account_id := v\<rparr>) h) = ho_free h"
  by (simp_all add: hupd_def heap_view_defs fun_eq_iff)

lemma hupd_side [simp]:
  "ho_id (hupd p (\<lambda>r. r\<lparr>side := v\<rparr>) h) = ho_id h"
  "ho_account (hupd p (\<lambda>r. r\<lparr>side := v\<rparr>) h) = ho_account h"
  "ho_side (hupd p (\<lambda>r. r\<lparr>side := v\<rparr>) h) = (ho_side h)(p := v)"
  "ho_stp (hupd p (\<lambda>r. r\<lparr>side := v\<rparr>) h) = ho_stp h"
  "ho_price (hupd p (\<lambda>r. r\<lparr>side := v\<rparr>) h) = ho_price h"
  "ho_qty (hupd p (\<lambda>r. r\<lparr>side := v\<rparr>) h) = ho_qty h"
  "ho_rem (hupd p (\<lambda>r. r\<lparr>side := v\<rparr>) h) = ho_rem h"
  "ho_level (hupd p (\<lambda>r. r\<lparr>side := v\<rparr>) h) = ho_level h"
  "ho_next (hupd p (\<lambda>r. r\<lparr>side := v\<rparr>) h) = ho_next h"
  "ho_prev (hupd p (\<lambda>r. r\<lparr>side := v\<rparr>) h) = ho_prev h"
  "ho_inlist (hupd p (\<lambda>r. r\<lparr>side := v\<rparr>) h) = ho_inlist h"
  "ho_hnext (hupd p (\<lambda>r. r\<lparr>side := v\<rparr>) h) = ho_hnext h"
  "ho_inhash (hupd p (\<lambda>r. r\<lparr>side := v\<rparr>) h) = ho_inhash h"
  "ho_free (hupd p (\<lambda>r. r\<lparr>side := v\<rparr>) h) = ho_free h"
  by (simp_all add: hupd_def heap_view_defs fun_eq_iff)

lemma hupd_stp_mode [simp]:
  "ho_id (hupd p (\<lambda>r. r\<lparr>stp_mode := v\<rparr>) h) = ho_id h"
  "ho_account (hupd p (\<lambda>r. r\<lparr>stp_mode := v\<rparr>) h) = ho_account h"
  "ho_side (hupd p (\<lambda>r. r\<lparr>stp_mode := v\<rparr>) h) = ho_side h"
  "ho_stp (hupd p (\<lambda>r. r\<lparr>stp_mode := v\<rparr>) h) = (ho_stp h)(p := v)"
  "ho_price (hupd p (\<lambda>r. r\<lparr>stp_mode := v\<rparr>) h) = ho_price h"
  "ho_qty (hupd p (\<lambda>r. r\<lparr>stp_mode := v\<rparr>) h) = ho_qty h"
  "ho_rem (hupd p (\<lambda>r. r\<lparr>stp_mode := v\<rparr>) h) = ho_rem h"
  "ho_level (hupd p (\<lambda>r. r\<lparr>stp_mode := v\<rparr>) h) = ho_level h"
  "ho_next (hupd p (\<lambda>r. r\<lparr>stp_mode := v\<rparr>) h) = ho_next h"
  "ho_prev (hupd p (\<lambda>r. r\<lparr>stp_mode := v\<rparr>) h) = ho_prev h"
  "ho_inlist (hupd p (\<lambda>r. r\<lparr>stp_mode := v\<rparr>) h) = ho_inlist h"
  "ho_hnext (hupd p (\<lambda>r. r\<lparr>stp_mode := v\<rparr>) h) = ho_hnext h"
  "ho_inhash (hupd p (\<lambda>r. r\<lparr>stp_mode := v\<rparr>) h) = ho_inhash h"
  "ho_free (hupd p (\<lambda>r. r\<lparr>stp_mode := v\<rparr>) h) = ho_free h"
  by (simp_all add: hupd_def heap_view_defs fun_eq_iff)

lemma hupd_price [simp]:
  "ho_id (hupd p (\<lambda>r. r\<lparr>price := v\<rparr>) h) = ho_id h"
  "ho_account (hupd p (\<lambda>r. r\<lparr>price := v\<rparr>) h) = ho_account h"
  "ho_side (hupd p (\<lambda>r. r\<lparr>price := v\<rparr>) h) = ho_side h"
  "ho_stp (hupd p (\<lambda>r. r\<lparr>price := v\<rparr>) h) = ho_stp h"
  "ho_price (hupd p (\<lambda>r. r\<lparr>price := v\<rparr>) h) = (ho_price h)(p := v)"
  "ho_qty (hupd p (\<lambda>r. r\<lparr>price := v\<rparr>) h) = ho_qty h"
  "ho_rem (hupd p (\<lambda>r. r\<lparr>price := v\<rparr>) h) = ho_rem h"
  "ho_level (hupd p (\<lambda>r. r\<lparr>price := v\<rparr>) h) = ho_level h"
  "ho_next (hupd p (\<lambda>r. r\<lparr>price := v\<rparr>) h) = ho_next h"
  "ho_prev (hupd p (\<lambda>r. r\<lparr>price := v\<rparr>) h) = ho_prev h"
  "ho_inlist (hupd p (\<lambda>r. r\<lparr>price := v\<rparr>) h) = ho_inlist h"
  "ho_hnext (hupd p (\<lambda>r. r\<lparr>price := v\<rparr>) h) = ho_hnext h"
  "ho_inhash (hupd p (\<lambda>r. r\<lparr>price := v\<rparr>) h) = ho_inhash h"
  "ho_free (hupd p (\<lambda>r. r\<lparr>price := v\<rparr>) h) = ho_free h"
  by (simp_all add: hupd_def heap_view_defs fun_eq_iff)

lemma hupd_qty [simp]:
  "ho_id (hupd p (\<lambda>r. r\<lparr>qty := v\<rparr>) h) = ho_id h"
  "ho_account (hupd p (\<lambda>r. r\<lparr>qty := v\<rparr>) h) = ho_account h"
  "ho_side (hupd p (\<lambda>r. r\<lparr>qty := v\<rparr>) h) = ho_side h"
  "ho_stp (hupd p (\<lambda>r. r\<lparr>qty := v\<rparr>) h) = ho_stp h"
  "ho_price (hupd p (\<lambda>r. r\<lparr>qty := v\<rparr>) h) = ho_price h"
  "ho_qty (hupd p (\<lambda>r. r\<lparr>qty := v\<rparr>) h) = (ho_qty h)(p := v)"
  "ho_rem (hupd p (\<lambda>r. r\<lparr>qty := v\<rparr>) h) = ho_rem h"
  "ho_level (hupd p (\<lambda>r. r\<lparr>qty := v\<rparr>) h) = ho_level h"
  "ho_next (hupd p (\<lambda>r. r\<lparr>qty := v\<rparr>) h) = ho_next h"
  "ho_prev (hupd p (\<lambda>r. r\<lparr>qty := v\<rparr>) h) = ho_prev h"
  "ho_inlist (hupd p (\<lambda>r. r\<lparr>qty := v\<rparr>) h) = ho_inlist h"
  "ho_hnext (hupd p (\<lambda>r. r\<lparr>qty := v\<rparr>) h) = ho_hnext h"
  "ho_inhash (hupd p (\<lambda>r. r\<lparr>qty := v\<rparr>) h) = ho_inhash h"
  "ho_free (hupd p (\<lambda>r. r\<lparr>qty := v\<rparr>) h) = ho_free h"
  by (simp_all add: hupd_def heap_view_defs fun_eq_iff)

lemma hupd_remaining_qty [simp]:
  "ho_id (hupd p (\<lambda>r. r\<lparr>remaining_qty := v\<rparr>) h) = ho_id h"
  "ho_account (hupd p (\<lambda>r. r\<lparr>remaining_qty := v\<rparr>) h) = ho_account h"
  "ho_side (hupd p (\<lambda>r. r\<lparr>remaining_qty := v\<rparr>) h) = ho_side h"
  "ho_stp (hupd p (\<lambda>r. r\<lparr>remaining_qty := v\<rparr>) h) = ho_stp h"
  "ho_price (hupd p (\<lambda>r. r\<lparr>remaining_qty := v\<rparr>) h) = ho_price h"
  "ho_qty (hupd p (\<lambda>r. r\<lparr>remaining_qty := v\<rparr>) h) = ho_qty h"
  "ho_rem (hupd p (\<lambda>r. r\<lparr>remaining_qty := v\<rparr>) h) = (ho_rem h)(p := v)"
  "ho_level (hupd p (\<lambda>r. r\<lparr>remaining_qty := v\<rparr>) h) = ho_level h"
  "ho_next (hupd p (\<lambda>r. r\<lparr>remaining_qty := v\<rparr>) h) = ho_next h"
  "ho_prev (hupd p (\<lambda>r. r\<lparr>remaining_qty := v\<rparr>) h) = ho_prev h"
  "ho_inlist (hupd p (\<lambda>r. r\<lparr>remaining_qty := v\<rparr>) h) = ho_inlist h"
  "ho_hnext (hupd p (\<lambda>r. r\<lparr>remaining_qty := v\<rparr>) h) = ho_hnext h"
  "ho_inhash (hupd p (\<lambda>r. r\<lparr>remaining_qty := v\<rparr>) h) = ho_inhash h"
  "ho_free (hupd p (\<lambda>r. r\<lparr>remaining_qty := v\<rparr>) h) = ho_free h"
  by (simp_all add: hupd_def heap_view_defs fun_eq_iff)

lemma hupd_p_price_level [simp]:
  "ho_id (hupd p (\<lambda>r. r\<lparr>p_price_level := v\<rparr>) h) = ho_id h"
  "ho_account (hupd p (\<lambda>r. r\<lparr>p_price_level := v\<rparr>) h) = ho_account h"
  "ho_side (hupd p (\<lambda>r. r\<lparr>p_price_level := v\<rparr>) h) = ho_side h"
  "ho_stp (hupd p (\<lambda>r. r\<lparr>p_price_level := v\<rparr>) h) = ho_stp h"
  "ho_price (hupd p (\<lambda>r. r\<lparr>p_price_level := v\<rparr>) h) = ho_price h"
  "ho_qty (hupd p (\<lambda>r. r\<lparr>p_price_level := v\<rparr>) h) = ho_qty h"
  "ho_rem (hupd p (\<lambda>r. r\<lparr>p_price_level := v\<rparr>) h) = ho_rem h"
  "ho_level (hupd p (\<lambda>r. r\<lparr>p_price_level := v\<rparr>) h) = (ho_level h)(p := v)"
  "ho_next (hupd p (\<lambda>r. r\<lparr>p_price_level := v\<rparr>) h) = ho_next h"
  "ho_prev (hupd p (\<lambda>r. r\<lparr>p_price_level := v\<rparr>) h) = ho_prev h"
  "ho_inlist (hupd p (\<lambda>r. r\<lparr>p_price_level := v\<rparr>) h) = ho_inlist h"
  "ho_hnext (hupd p (\<lambda>r. r\<lparr>p_price_level := v\<rparr>) h) = ho_hnext h"
  "ho_inhash (hupd p (\<lambda>r. r\<lparr>p_price_level := v\<rparr>) h) = ho_inhash h"
  "ho_free (hupd p (\<lambda>r. r\<lparr>p_price_level := v\<rparr>) h) = ho_free h"
  by (simp_all add: hupd_def heap_view_defs fun_eq_iff)

lemma hupd_orders_next [simp]:
  "ho_id (hupd p (\<lambda>r. r\<lparr>orders_next := v\<rparr>) h) = ho_id h"
  "ho_account (hupd p (\<lambda>r. r\<lparr>orders_next := v\<rparr>) h) = ho_account h"
  "ho_side (hupd p (\<lambda>r. r\<lparr>orders_next := v\<rparr>) h) = ho_side h"
  "ho_stp (hupd p (\<lambda>r. r\<lparr>orders_next := v\<rparr>) h) = ho_stp h"
  "ho_price (hupd p (\<lambda>r. r\<lparr>orders_next := v\<rparr>) h) = ho_price h"
  "ho_qty (hupd p (\<lambda>r. r\<lparr>orders_next := v\<rparr>) h) = ho_qty h"
  "ho_rem (hupd p (\<lambda>r. r\<lparr>orders_next := v\<rparr>) h) = ho_rem h"
  "ho_level (hupd p (\<lambda>r. r\<lparr>orders_next := v\<rparr>) h) = ho_level h"
  "ho_next (hupd p (\<lambda>r. r\<lparr>orders_next := v\<rparr>) h) = (ho_next h)(p := v)"
  "ho_prev (hupd p (\<lambda>r. r\<lparr>orders_next := v\<rparr>) h) = ho_prev h"
  "ho_inlist (hupd p (\<lambda>r. r\<lparr>orders_next := v\<rparr>) h) = ho_inlist h"
  "ho_hnext (hupd p (\<lambda>r. r\<lparr>orders_next := v\<rparr>) h) = ho_hnext h"
  "ho_inhash (hupd p (\<lambda>r. r\<lparr>orders_next := v\<rparr>) h) = ho_inhash h"
  "ho_free (hupd p (\<lambda>r. r\<lparr>orders_next := v\<rparr>) h) = ho_free h"
  by (simp_all add: hupd_def heap_view_defs fun_eq_iff)

lemma hupd_orders_prev [simp]:
  "ho_id (hupd p (\<lambda>r. r\<lparr>orders_prev := v\<rparr>) h) = ho_id h"
  "ho_account (hupd p (\<lambda>r. r\<lparr>orders_prev := v\<rparr>) h) = ho_account h"
  "ho_side (hupd p (\<lambda>r. r\<lparr>orders_prev := v\<rparr>) h) = ho_side h"
  "ho_stp (hupd p (\<lambda>r. r\<lparr>orders_prev := v\<rparr>) h) = ho_stp h"
  "ho_price (hupd p (\<lambda>r. r\<lparr>orders_prev := v\<rparr>) h) = ho_price h"
  "ho_qty (hupd p (\<lambda>r. r\<lparr>orders_prev := v\<rparr>) h) = ho_qty h"
  "ho_rem (hupd p (\<lambda>r. r\<lparr>orders_prev := v\<rparr>) h) = ho_rem h"
  "ho_level (hupd p (\<lambda>r. r\<lparr>orders_prev := v\<rparr>) h) = ho_level h"
  "ho_next (hupd p (\<lambda>r. r\<lparr>orders_prev := v\<rparr>) h) = ho_next h"
  "ho_prev (hupd p (\<lambda>r. r\<lparr>orders_prev := v\<rparr>) h) = (ho_prev h)(p := v)"
  "ho_inlist (hupd p (\<lambda>r. r\<lparr>orders_prev := v\<rparr>) h) = ho_inlist h"
  "ho_hnext (hupd p (\<lambda>r. r\<lparr>orders_prev := v\<rparr>) h) = ho_hnext h"
  "ho_inhash (hupd p (\<lambda>r. r\<lparr>orders_prev := v\<rparr>) h) = ho_inhash h"
  "ho_free (hupd p (\<lambda>r. r\<lparr>orders_prev := v\<rparr>) h) = ho_free h"
  by (simp_all add: hupd_def heap_view_defs fun_eq_iff)

lemma hupd_orders_inlist [simp]:
  "ho_id (hupd p (\<lambda>r. r\<lparr>orders_inlist := v\<rparr>) h) = ho_id h"
  "ho_account (hupd p (\<lambda>r. r\<lparr>orders_inlist := v\<rparr>) h) = ho_account h"
  "ho_side (hupd p (\<lambda>r. r\<lparr>orders_inlist := v\<rparr>) h) = ho_side h"
  "ho_stp (hupd p (\<lambda>r. r\<lparr>orders_inlist := v\<rparr>) h) = ho_stp h"
  "ho_price (hupd p (\<lambda>r. r\<lparr>orders_inlist := v\<rparr>) h) = ho_price h"
  "ho_qty (hupd p (\<lambda>r. r\<lparr>orders_inlist := v\<rparr>) h) = ho_qty h"
  "ho_rem (hupd p (\<lambda>r. r\<lparr>orders_inlist := v\<rparr>) h) = ho_rem h"
  "ho_level (hupd p (\<lambda>r. r\<lparr>orders_inlist := v\<rparr>) h) = ho_level h"
  "ho_next (hupd p (\<lambda>r. r\<lparr>orders_inlist := v\<rparr>) h) = ho_next h"
  "ho_prev (hupd p (\<lambda>r. r\<lparr>orders_inlist := v\<rparr>) h) = ho_prev h"
  "ho_inlist (hupd p (\<lambda>r. r\<lparr>orders_inlist := v\<rparr>) h) = (ho_inlist h)(p := v)"
  "ho_hnext (hupd p (\<lambda>r. r\<lparr>orders_inlist := v\<rparr>) h) = ho_hnext h"
  "ho_inhash (hupd p (\<lambda>r. r\<lparr>orders_inlist := v\<rparr>) h) = ho_inhash h"
  "ho_free (hupd p (\<lambda>r. r\<lparr>orders_inlist := v\<rparr>) h) = ho_free h"
  by (simp_all add: hupd_def heap_view_defs fun_eq_iff)

lemma hupd_ind_order_next [simp]:
  "ho_id (hupd p (\<lambda>r. r\<lparr>ind_order_next := v\<rparr>) h) = ho_id h"
  "ho_account (hupd p (\<lambda>r. r\<lparr>ind_order_next := v\<rparr>) h) = ho_account h"
  "ho_side (hupd p (\<lambda>r. r\<lparr>ind_order_next := v\<rparr>) h) = ho_side h"
  "ho_stp (hupd p (\<lambda>r. r\<lparr>ind_order_next := v\<rparr>) h) = ho_stp h"
  "ho_price (hupd p (\<lambda>r. r\<lparr>ind_order_next := v\<rparr>) h) = ho_price h"
  "ho_qty (hupd p (\<lambda>r. r\<lparr>ind_order_next := v\<rparr>) h) = ho_qty h"
  "ho_rem (hupd p (\<lambda>r. r\<lparr>ind_order_next := v\<rparr>) h) = ho_rem h"
  "ho_level (hupd p (\<lambda>r. r\<lparr>ind_order_next := v\<rparr>) h) = ho_level h"
  "ho_next (hupd p (\<lambda>r. r\<lparr>ind_order_next := v\<rparr>) h) = ho_next h"
  "ho_prev (hupd p (\<lambda>r. r\<lparr>ind_order_next := v\<rparr>) h) = ho_prev h"
  "ho_inlist (hupd p (\<lambda>r. r\<lparr>ind_order_next := v\<rparr>) h) = ho_inlist h"
  "ho_hnext (hupd p (\<lambda>r. r\<lparr>ind_order_next := v\<rparr>) h) = (ho_hnext h)(p := v)"
  "ho_inhash (hupd p (\<lambda>r. r\<lparr>ind_order_next := v\<rparr>) h) = ho_inhash h"
  "ho_free (hupd p (\<lambda>r. r\<lparr>ind_order_next := v\<rparr>) h) = ho_free h"
  by (simp_all add: hupd_def heap_view_defs fun_eq_iff)

lemma hupd_ind_order_inhash [simp]:
  "ho_id (hupd p (\<lambda>r. r\<lparr>ind_order_inhash := v\<rparr>) h) = ho_id h"
  "ho_account (hupd p (\<lambda>r. r\<lparr>ind_order_inhash := v\<rparr>) h) = ho_account h"
  "ho_side (hupd p (\<lambda>r. r\<lparr>ind_order_inhash := v\<rparr>) h) = ho_side h"
  "ho_stp (hupd p (\<lambda>r. r\<lparr>ind_order_inhash := v\<rparr>) h) = ho_stp h"
  "ho_price (hupd p (\<lambda>r. r\<lparr>ind_order_inhash := v\<rparr>) h) = ho_price h"
  "ho_qty (hupd p (\<lambda>r. r\<lparr>ind_order_inhash := v\<rparr>) h) = ho_qty h"
  "ho_rem (hupd p (\<lambda>r. r\<lparr>ind_order_inhash := v\<rparr>) h) = ho_rem h"
  "ho_level (hupd p (\<lambda>r. r\<lparr>ind_order_inhash := v\<rparr>) h) = ho_level h"
  "ho_next (hupd p (\<lambda>r. r\<lparr>ind_order_inhash := v\<rparr>) h) = ho_next h"
  "ho_prev (hupd p (\<lambda>r. r\<lparr>ind_order_inhash := v\<rparr>) h) = ho_prev h"
  "ho_inlist (hupd p (\<lambda>r. r\<lparr>ind_order_inhash := v\<rparr>) h) = ho_inlist h"
  "ho_hnext (hupd p (\<lambda>r. r\<lparr>ind_order_inhash := v\<rparr>) h) = ho_hnext h"
  "ho_inhash (hupd p (\<lambda>r. r\<lparr>ind_order_inhash := v\<rparr>) h) = (ho_inhash h)(p := v)"
  "ho_free (hupd p (\<lambda>r. r\<lparr>ind_order_inhash := v\<rparr>) h) = ho_free h"
  by (simp_all add: hupd_def heap_view_defs fun_eq_iff)

lemma hupd_order_freenext [simp]:
  "ho_id (hupd p (\<lambda>r. r\<lparr>order_freenext := v\<rparr>) h) = ho_id h"
  "ho_account (hupd p (\<lambda>r. r\<lparr>order_freenext := v\<rparr>) h) = ho_account h"
  "ho_side (hupd p (\<lambda>r. r\<lparr>order_freenext := v\<rparr>) h) = ho_side h"
  "ho_stp (hupd p (\<lambda>r. r\<lparr>order_freenext := v\<rparr>) h) = ho_stp h"
  "ho_price (hupd p (\<lambda>r. r\<lparr>order_freenext := v\<rparr>) h) = ho_price h"
  "ho_qty (hupd p (\<lambda>r. r\<lparr>order_freenext := v\<rparr>) h) = ho_qty h"
  "ho_rem (hupd p (\<lambda>r. r\<lparr>order_freenext := v\<rparr>) h) = ho_rem h"
  "ho_level (hupd p (\<lambda>r. r\<lparr>order_freenext := v\<rparr>) h) = ho_level h"
  "ho_next (hupd p (\<lambda>r. r\<lparr>order_freenext := v\<rparr>) h) = ho_next h"
  "ho_prev (hupd p (\<lambda>r. r\<lparr>order_freenext := v\<rparr>) h) = ho_prev h"
  "ho_inlist (hupd p (\<lambda>r. r\<lparr>order_freenext := v\<rparr>) h) = ho_inlist h"
  "ho_hnext (hupd p (\<lambda>r. r\<lparr>order_freenext := v\<rparr>) h) = ho_hnext h"
  "ho_inhash (hupd p (\<lambda>r. r\<lparr>order_freenext := v\<rparr>) h) = ho_inhash h"
  "ho_free (hupd p (\<lambda>r. r\<lparr>order_freenext := v\<rparr>) h) = (ho_free h)(p := v)"
  by (simp_all add: hupd_def heap_view_defs fun_eq_iff)

lemma hupd_level_price [simp]:
  "hl_price (hupd p (\<lambda>r. r\<lparr>level_price := v\<rparr>) h) = (hl_price h)(p := v)"
  "hl_total (hupd p (\<lambda>r. r\<lparr>level_price := v\<rparr>) h) = hl_total h"
  "hl_head (hupd p (\<lambda>r. r\<lparr>level_price := v\<rparr>) h) = hl_head h"
  "hl_tail (hupd p (\<lambda>r. r\<lparr>level_price := v\<rparr>) h) = hl_tail h"
  "hl_n (hupd p (\<lambda>r. r\<lparr>level_price := v\<rparr>) h) = hl_n h"
  "hl_parent (hupd p (\<lambda>r. r\<lparr>level_price := v\<rparr>) h) = hl_parent h"
  "hl_left (hupd p (\<lambda>r. r\<lparr>level_price := v\<rparr>) h) = hl_left h"
  "hl_right (hupd p (\<lambda>r. r\<lparr>level_price := v\<rparr>) h) = hl_right h"
  "hl_intree (hupd p (\<lambda>r. r\<lparr>level_price := v\<rparr>) h) = hl_intree h"
  "hl_free (hupd p (\<lambda>r. r\<lparr>level_price := v\<rparr>) h) = hl_free h"
  by (simp_all add: hupd_def heap_view_defs fun_eq_iff)

lemma hupd_total_qty [simp]:
  "hl_price (hupd p (\<lambda>r. r\<lparr>total_qty := v\<rparr>) h) = hl_price h"
  "hl_total (hupd p (\<lambda>r. r\<lparr>total_qty := v\<rparr>) h) = (hl_total h)(p := v)"
  "hl_head (hupd p (\<lambda>r. r\<lparr>total_qty := v\<rparr>) h) = hl_head h"
  "hl_tail (hupd p (\<lambda>r. r\<lparr>total_qty := v\<rparr>) h) = hl_tail h"
  "hl_n (hupd p (\<lambda>r. r\<lparr>total_qty := v\<rparr>) h) = hl_n h"
  "hl_parent (hupd p (\<lambda>r. r\<lparr>total_qty := v\<rparr>) h) = hl_parent h"
  "hl_left (hupd p (\<lambda>r. r\<lparr>total_qty := v\<rparr>) h) = hl_left h"
  "hl_right (hupd p (\<lambda>r. r\<lparr>total_qty := v\<rparr>) h) = hl_right h"
  "hl_intree (hupd p (\<lambda>r. r\<lparr>total_qty := v\<rparr>) h) = hl_intree h"
  "hl_free (hupd p (\<lambda>r. r\<lparr>total_qty := v\<rparr>) h) = hl_free h"
  by (simp_all add: hupd_def heap_view_defs fun_eq_iff)

lemma hupd_orders_head [simp]:
  "hl_price (hupd p (\<lambda>r. r\<lparr>orders_head := v\<rparr>) h) = hl_price h"
  "hl_total (hupd p (\<lambda>r. r\<lparr>orders_head := v\<rparr>) h) = hl_total h"
  "hl_head (hupd p (\<lambda>r. r\<lparr>orders_head := v\<rparr>) h) = (hl_head h)(p := v)"
  "hl_tail (hupd p (\<lambda>r. r\<lparr>orders_head := v\<rparr>) h) = hl_tail h"
  "hl_n (hupd p (\<lambda>r. r\<lparr>orders_head := v\<rparr>) h) = hl_n h"
  "hl_parent (hupd p (\<lambda>r. r\<lparr>orders_head := v\<rparr>) h) = hl_parent h"
  "hl_left (hupd p (\<lambda>r. r\<lparr>orders_head := v\<rparr>) h) = hl_left h"
  "hl_right (hupd p (\<lambda>r. r\<lparr>orders_head := v\<rparr>) h) = hl_right h"
  "hl_intree (hupd p (\<lambda>r. r\<lparr>orders_head := v\<rparr>) h) = hl_intree h"
  "hl_free (hupd p (\<lambda>r. r\<lparr>orders_head := v\<rparr>) h) = hl_free h"
  by (simp_all add: hupd_def heap_view_defs fun_eq_iff)

lemma hupd_orders_tail [simp]:
  "hl_price (hupd p (\<lambda>r. r\<lparr>orders_tail := v\<rparr>) h) = hl_price h"
  "hl_total (hupd p (\<lambda>r. r\<lparr>orders_tail := v\<rparr>) h) = hl_total h"
  "hl_head (hupd p (\<lambda>r. r\<lparr>orders_tail := v\<rparr>) h) = hl_head h"
  "hl_tail (hupd p (\<lambda>r. r\<lparr>orders_tail := v\<rparr>) h) = (hl_tail h)(p := v)"
  "hl_n (hupd p (\<lambda>r. r\<lparr>orders_tail := v\<rparr>) h) = hl_n h"
  "hl_parent (hupd p (\<lambda>r. r\<lparr>orders_tail := v\<rparr>) h) = hl_parent h"
  "hl_left (hupd p (\<lambda>r. r\<lparr>orders_tail := v\<rparr>) h) = hl_left h"
  "hl_right (hupd p (\<lambda>r. r\<lparr>orders_tail := v\<rparr>) h) = hl_right h"
  "hl_intree (hupd p (\<lambda>r. r\<lparr>orders_tail := v\<rparr>) h) = hl_intree h"
  "hl_free (hupd p (\<lambda>r. r\<lparr>orders_tail := v\<rparr>) h) = hl_free h"
  by (simp_all add: hupd_def heap_view_defs fun_eq_iff)

lemma hupd_orders_n [simp]:
  "hl_price (hupd p (\<lambda>r. r\<lparr>orders_n := v\<rparr>) h) = hl_price h"
  "hl_total (hupd p (\<lambda>r. r\<lparr>orders_n := v\<rparr>) h) = hl_total h"
  "hl_head (hupd p (\<lambda>r. r\<lparr>orders_n := v\<rparr>) h) = hl_head h"
  "hl_tail (hupd p (\<lambda>r. r\<lparr>orders_n := v\<rparr>) h) = hl_tail h"
  "hl_n (hupd p (\<lambda>r. r\<lparr>orders_n := v\<rparr>) h) = (hl_n h)(p := v)"
  "hl_parent (hupd p (\<lambda>r. r\<lparr>orders_n := v\<rparr>) h) = hl_parent h"
  "hl_left (hupd p (\<lambda>r. r\<lparr>orders_n := v\<rparr>) h) = hl_left h"
  "hl_right (hupd p (\<lambda>r. r\<lparr>orders_n := v\<rparr>) h) = hl_right h"
  "hl_intree (hupd p (\<lambda>r. r\<lparr>orders_n := v\<rparr>) h) = hl_intree h"
  "hl_free (hupd p (\<lambda>r. r\<lparr>orders_n := v\<rparr>) h) = hl_free h"
  by (simp_all add: hupd_def heap_view_defs fun_eq_iff)

lemma hupd_tree_parent [simp]:
  "hl_price (hupd p (\<lambda>r. r\<lparr>tree_parent := v\<rparr>) h) = hl_price h"
  "hl_total (hupd p (\<lambda>r. r\<lparr>tree_parent := v\<rparr>) h) = hl_total h"
  "hl_head (hupd p (\<lambda>r. r\<lparr>tree_parent := v\<rparr>) h) = hl_head h"
  "hl_tail (hupd p (\<lambda>r. r\<lparr>tree_parent := v\<rparr>) h) = hl_tail h"
  "hl_n (hupd p (\<lambda>r. r\<lparr>tree_parent := v\<rparr>) h) = hl_n h"
  "hl_parent (hupd p (\<lambda>r. r\<lparr>tree_parent := v\<rparr>) h) = (hl_parent h)(p := v)"
  "hl_left (hupd p (\<lambda>r. r\<lparr>tree_parent := v\<rparr>) h) = hl_left h"
  "hl_right (hupd p (\<lambda>r. r\<lparr>tree_parent := v\<rparr>) h) = hl_right h"
  "hl_intree (hupd p (\<lambda>r. r\<lparr>tree_parent := v\<rparr>) h) = hl_intree h"
  "hl_free (hupd p (\<lambda>r. r\<lparr>tree_parent := v\<rparr>) h) = hl_free h"
  by (simp_all add: hupd_def heap_view_defs fun_eq_iff)

lemma hupd_tree_left [simp]:
  "hl_price (hupd p (\<lambda>r. r\<lparr>tree_left := v\<rparr>) h) = hl_price h"
  "hl_total (hupd p (\<lambda>r. r\<lparr>tree_left := v\<rparr>) h) = hl_total h"
  "hl_head (hupd p (\<lambda>r. r\<lparr>tree_left := v\<rparr>) h) = hl_head h"
  "hl_tail (hupd p (\<lambda>r. r\<lparr>tree_left := v\<rparr>) h) = hl_tail h"
  "hl_n (hupd p (\<lambda>r. r\<lparr>tree_left := v\<rparr>) h) = hl_n h"
  "hl_parent (hupd p (\<lambda>r. r\<lparr>tree_left := v\<rparr>) h) = hl_parent h"
  "hl_left (hupd p (\<lambda>r. r\<lparr>tree_left := v\<rparr>) h) = (hl_left h)(p := v)"
  "hl_right (hupd p (\<lambda>r. r\<lparr>tree_left := v\<rparr>) h) = hl_right h"
  "hl_intree (hupd p (\<lambda>r. r\<lparr>tree_left := v\<rparr>) h) = hl_intree h"
  "hl_free (hupd p (\<lambda>r. r\<lparr>tree_left := v\<rparr>) h) = hl_free h"
  by (simp_all add: hupd_def heap_view_defs fun_eq_iff)

lemma hupd_tree_right [simp]:
  "hl_price (hupd p (\<lambda>r. r\<lparr>tree_right := v\<rparr>) h) = hl_price h"
  "hl_total (hupd p (\<lambda>r. r\<lparr>tree_right := v\<rparr>) h) = hl_total h"
  "hl_head (hupd p (\<lambda>r. r\<lparr>tree_right := v\<rparr>) h) = hl_head h"
  "hl_tail (hupd p (\<lambda>r. r\<lparr>tree_right := v\<rparr>) h) = hl_tail h"
  "hl_n (hupd p (\<lambda>r. r\<lparr>tree_right := v\<rparr>) h) = hl_n h"
  "hl_parent (hupd p (\<lambda>r. r\<lparr>tree_right := v\<rparr>) h) = hl_parent h"
  "hl_left (hupd p (\<lambda>r. r\<lparr>tree_right := v\<rparr>) h) = hl_left h"
  "hl_right (hupd p (\<lambda>r. r\<lparr>tree_right := v\<rparr>) h) = (hl_right h)(p := v)"
  "hl_intree (hupd p (\<lambda>r. r\<lparr>tree_right := v\<rparr>) h) = hl_intree h"
  "hl_free (hupd p (\<lambda>r. r\<lparr>tree_right := v\<rparr>) h) = hl_free h"
  by (simp_all add: hupd_def heap_view_defs fun_eq_iff)

lemma hupd_tree_intree [simp]:
  "hl_price (hupd p (\<lambda>r. r\<lparr>tree_intree := v\<rparr>) h) = hl_price h"
  "hl_total (hupd p (\<lambda>r. r\<lparr>tree_intree := v\<rparr>) h) = hl_total h"
  "hl_head (hupd p (\<lambda>r. r\<lparr>tree_intree := v\<rparr>) h) = hl_head h"
  "hl_tail (hupd p (\<lambda>r. r\<lparr>tree_intree := v\<rparr>) h) = hl_tail h"
  "hl_n (hupd p (\<lambda>r. r\<lparr>tree_intree := v\<rparr>) h) = hl_n h"
  "hl_parent (hupd p (\<lambda>r. r\<lparr>tree_intree := v\<rparr>) h) = hl_parent h"
  "hl_left (hupd p (\<lambda>r. r\<lparr>tree_intree := v\<rparr>) h) = hl_left h"
  "hl_right (hupd p (\<lambda>r. r\<lparr>tree_intree := v\<rparr>) h) = hl_right h"
  "hl_intree (hupd p (\<lambda>r. r\<lparr>tree_intree := v\<rparr>) h) = (hl_intree h)(p := v)"
  "hl_free (hupd p (\<lambda>r. r\<lparr>tree_intree := v\<rparr>) h) = hl_free h"
  by (simp_all add: hupd_def heap_view_defs fun_eq_iff)

lemma hupd_level_freenext [simp]:
  "hl_price (hupd p (\<lambda>r. r\<lparr>level_freenext := v\<rparr>) h) = hl_price h"
  "hl_total (hupd p (\<lambda>r. r\<lparr>level_freenext := v\<rparr>) h) = hl_total h"
  "hl_head (hupd p (\<lambda>r. r\<lparr>level_freenext := v\<rparr>) h) = hl_head h"
  "hl_tail (hupd p (\<lambda>r. r\<lparr>level_freenext := v\<rparr>) h) = hl_tail h"
  "hl_n (hupd p (\<lambda>r. r\<lparr>level_freenext := v\<rparr>) h) = hl_n h"
  "hl_parent (hupd p (\<lambda>r. r\<lparr>level_freenext := v\<rparr>) h) = hl_parent h"
  "hl_left (hupd p (\<lambda>r. r\<lparr>level_freenext := v\<rparr>) h) = hl_left h"
  "hl_right (hupd p (\<lambda>r. r\<lparr>level_freenext := v\<rparr>) h) = hl_right h"
  "hl_intree (hupd p (\<lambda>r. r\<lparr>level_freenext := v\<rparr>) h) = hl_intree h"
  "hl_free (hupd p (\<lambda>r. r\<lparr>level_freenext := v\<rparr>) h) = (hl_free h)(p := v)"
  by (simp_all add: hupd_def heap_view_defs fun_eq_iff)

lemma upd_order_fields [simp]:
  "ind_order_buckets (upd_order p f m) = ind_order_buckets m"
  "ind_order_n (upd_order p f m) = ind_order_n m"
  "bids_root (upd_order p f m) = bids_root m"
  "bids_n (upd_order p f m) = bids_n m"
  "asks_root (upd_order p f m) = asks_root m"
  "asks_n (upd_order p f m) = asks_n m"
  "order_pool_free (upd_order p f m) = order_pool_free m"
  "order_pool_n (upd_order p f m) = order_pool_n m"
  "order_pool_total_allocated (upd_order p f m) = order_pool_total_allocated m"
  "level_pool_free (upd_order p f m) = level_pool_free m"
  "level_pool_n (upd_order p f m) = level_pool_n m"
  "level_pool_total_allocated (upd_order p f m) = level_pool_total_allocated m"
  "order_chunks (upd_order p f m) = order_chunks m"
  "order_chunks_n (upd_order p f m) = order_chunks_n m"
  "order_chunks_cap (upd_order p f m) = order_chunks_cap m"
  "level_chunks (upd_order p f m) = level_chunks m"
  "level_chunks_n (upd_order p f m) = level_chunks_n m"
  "level_chunks_cap (upd_order p f m) = level_chunks_cap m"
  "order_mem (upd_order p f m) = hupd p f (order_mem m)"
  "level_mem (upd_order p f m) = level_mem m"
  "order_brk (upd_order p f m) = order_brk m"
  "level_brk (upd_order p f m) = level_brk m"
  "order_heap (upd_order p f m) = order_heap m"
  "level_heap (upd_order p f m) = level_heap m"
  "alloc_ok (upd_order p f m) = alloc_ok m"
  "alloc_calls (upd_order p f m) = alloc_calls m"
  "machine.more (upd_order p f m) = machine.more m"
  by (simp_all add: upd_order_def)

lemma upd_level_fields [simp]:
  "ind_order_buckets (upd_level p f m) = ind_order_buckets m"
  "ind_order_n (upd_level p f m) = ind_order_n m"
  "bids_root (upd_level p f m) = bids_root m"
  "bids_n (upd_level p f m) = bids_n m"
  "asks_root (upd_level p f m) = asks_root m"
  "asks_n (upd_level p f m) = asks_n m"
  "order_pool_free (upd_level p f m) = order_pool_free m"
  "order_pool_n (upd_level p f m) = order_pool_n m"
  "order_pool_total_allocated (upd_level p f m) = order_pool_total_allocated m"
  "level_pool_free (upd_level p f m) = level_pool_free m"
  "level_pool_n (upd_level p f m) = level_pool_n m"
  "level_pool_total_allocated (upd_level p f m) = level_pool_total_allocated m"
  "order_chunks (upd_level p f m) = order_chunks m"
  "order_chunks_n (upd_level p f m) = order_chunks_n m"
  "order_chunks_cap (upd_level p f m) = order_chunks_cap m"
  "level_chunks (upd_level p f m) = level_chunks m"
  "level_chunks_n (upd_level p f m) = level_chunks_n m"
  "level_chunks_cap (upd_level p f m) = level_chunks_cap m"
  "order_mem (upd_level p f m) = order_mem m"
  "level_mem (upd_level p f m) = hupd p f (level_mem m)"
  "order_brk (upd_level p f m) = order_brk m"
  "level_brk (upd_level p f m) = level_brk m"
  "order_heap (upd_level p f m) = order_heap m"
  "level_heap (upd_level p f m) = level_heap m"
  "alloc_ok (upd_level p f m) = alloc_ok m"
  "alloc_calls (upd_level p f m) = alloc_calls m"
  "machine.more (upd_level p f m) = machine.more m"
  by (simp_all add: upd_level_def)

text \<open>\<open>mem_only m m'\<close>: the two states differ at most in the contents of rows.\<close>

definition mem_only :: "'z machine_scheme \<Rightarrow> 'z machine_scheme \<Rightarrow> bool" where
  "mem_only m m' \<longleftrightarrow> (\<exists>h k. m' = m\<lparr>order_mem := h, level_mem := k\<rparr>)"

lemma mem_only_refl [simp]: "mem_only m m"
proof -
  have "m = m\<lparr>order_mem := order_mem m, level_mem := level_mem m\<rparr>" by simp
  then show ?thesis unfolding mem_only_def by blast
qed

lemma mem_only_trans: "mem_only m m' \<Longrightarrow> mem_only m' m'' \<Longrightarrow> mem_only m m''"
  unfolding mem_only_def by (elim exE) (simp, blast)

lemma mem_only_upd [simp]:
  "mem_only m m' \<Longrightarrow> mem_only m (upd_order p f m')"
  "mem_only m m' \<Longrightarrow> mem_only m (upd_level p g m')"
proof -
  have "upd_order p f m' = m'\<lparr>order_mem := hupd p f (order_mem m'), level_mem := level_mem m'\<rparr>"
    by (simp add: upd_order_def)
  then have "mem_only m' (upd_order p f m')" unfolding mem_only_def by blast
  then show "mem_only m m' \<Longrightarrow> mem_only m (upd_order p f m')" by (rule mem_only_trans[rotated])
  have "upd_level p g m' = m'\<lparr>order_mem := order_mem m', level_mem := hupd p g (level_mem m')\<rparr>"
    by (simp add: upd_level_def)
  then have "mem_only m' (upd_level p g m')" unfolding mem_only_def by blast
  then show "mem_only m m' \<Longrightarrow> mem_only m (upd_level p g m')" by (rule mem_only_trans[rotated])
qed

lemma mem_only_fields:
  assumes "mem_only m m'"
  shows
  "ind_order_buckets m' = ind_order_buckets m"
  "ind_order_n m' = ind_order_n m"
  "bids_root m' = bids_root m"
  "bids_n m' = bids_n m"
  "asks_root m' = asks_root m"
  "asks_n m' = asks_n m"
  "order_pool_free m' = order_pool_free m"
  "order_pool_n m' = order_pool_n m"
  "order_pool_total_allocated m' = order_pool_total_allocated m"
  "level_pool_free m' = level_pool_free m"
  "level_pool_n m' = level_pool_n m"
  "level_pool_total_allocated m' = level_pool_total_allocated m"
  "order_chunks m' = order_chunks m"
  "order_chunks_n m' = order_chunks_n m"
  "order_chunks_cap m' = order_chunks_cap m"
  "level_chunks m' = level_chunks m"
  "level_chunks_n m' = level_chunks_n m"
  "level_chunks_cap m' = level_chunks_cap m"
  "order_brk m' = order_brk m"
  "level_brk m' = level_brk m"
  "order_heap m' = order_heap m"
  "level_heap m' = level_heap m"
  "alloc_ok m' = alloc_ok m"
  "alloc_calls m' = alloc_calls m"
  "machine.more m' = machine.more m"
  using assms by (auto simp: mem_only_def)

section \<open>The fields a client sees\<close>

text \<open>The payload of an order: the fields of \<^verbatim>\<open>Order\<close> that are not links.\<close>

record order_row =
  r_id :: u64
  r_account :: u64
  r_side :: u64
  r_stp :: u64
  r_price :: u64
  r_qty :: u64
  r_rem :: u64

definition hrow :: "(oref \<Rightarrow> Order) \<Rightarrow> oref \<Rightarrow> order_row" where
  "hrow h = (\<lambda>p.
     \<lparr>r_id = ho_id h p, r_account = ho_account h p, r_side = ho_side h p, r_stp = ho_stp h p,
      r_price = ho_price h p, r_qty = ho_qty h p, r_rem = ho_rem h p\<rparr>)"

abbreviation row_at :: "'z machine_scheme \<Rightarrow> oref \<Rightarrow> order_row" where
  "row_at m \<equiv> hrow (order_mem m)"

lemma row_at_sel [simp]:
  "r_id (hrow h p) = ho_id h p"
  "r_account (hrow h p) = ho_account h p"
  "r_side (hrow h p) = ho_side h p"
  "r_stp (hrow h p) = ho_stp h p"
  "r_price (hrow h p) = ho_price h p"
  "r_qty (hrow h p) = ho_qty h p"
  "r_rem (hrow h p) = ho_rem h p"
  by (simp_all add: hrow_def)

lemma row_at_write [simp]:
  "hrow (hupd p (\<lambda>r. r\<lparr>order_id := v\<rparr>) h) = (hrow h)(p := (hrow h p)\<lparr>r_id := v\<rparr>)"
  "hrow (hupd p (\<lambda>r. r\<lparr>account_id := v\<rparr>) h) = (hrow h)(p := (hrow h p)\<lparr>r_account := v\<rparr>)"
  "hrow (hupd p (\<lambda>r. r\<lparr>side := v\<rparr>) h) = (hrow h)(p := (hrow h p)\<lparr>r_side := v\<rparr>)"
  "hrow (hupd p (\<lambda>r. r\<lparr>stp_mode := v\<rparr>) h) = (hrow h)(p := (hrow h p)\<lparr>r_stp := v\<rparr>)"
  "hrow (hupd p (\<lambda>r. r\<lparr>price := v\<rparr>) h) = (hrow h)(p := (hrow h p)\<lparr>r_price := v\<rparr>)"
  "hrow (hupd p (\<lambda>r. r\<lparr>qty := v\<rparr>) h) = (hrow h)(p := (hrow h p)\<lparr>r_qty := v\<rparr>)"
  "hrow (hupd p (\<lambda>r. r\<lparr>remaining_qty := v\<rparr>) h) = (hrow h)(p := (hrow h p)\<lparr>r_rem := v\<rparr>)"
  "hrow (hupd p (\<lambda>r. r\<lparr>p_price_level := w_p_price_level\<rparr>) h) = hrow h"
  "hrow (hupd p (\<lambda>r. r\<lparr>orders_next := w_orders_next\<rparr>) h) = hrow h"
  "hrow (hupd p (\<lambda>r. r\<lparr>orders_prev := w_orders_prev\<rparr>) h) = hrow h"
  "hrow (hupd p (\<lambda>r. r\<lparr>orders_inlist := w_orders_inlist\<rparr>) h) = hrow h"
  "hrow (hupd p (\<lambda>r. r\<lparr>ind_order_next := w_ind_order_next\<rparr>) h) = hrow h"
  "hrow (hupd p (\<lambda>r. r\<lparr>ind_order_inhash := w_ind_order_inhash\<rparr>) h) = hrow h"
  "hrow (hupd p (\<lambda>r. r\<lparr>order_freenext := w_order_freenext\<rparr>) h) = hrow h"
  by (simp_all add: hrow_def fun_eq_iff)

end
