(* ===== verification/Linked.thy ===== *)
theory Linked
  imports Prelude
begin

text \<open>
  Linked structures over field functions, independent of any record: a singly linked
  chain ending in null (free lists, hash buckets) and a doubly linked segment (the order
  queue of a price level).  A structure is related to the list of its nodes; an update of
  a field outside that list leaves it alone.
\<close>

section \<open>Singly linked chains\<close>

primrec chain :: "(nat \<Rightarrow> nat option) \<Rightarrow> nat option \<Rightarrow> nat list \<Rightarrow> bool" where
  "chain nx p [] \<longleftrightarrow> p = None"
| "chain nx p (x # xs) \<longleftrightarrow> p = Some x \<and> chain nx (nx x) xs"

lemma chain_None [simp]: "chain nx None xs \<longleftrightarrow> xs = []"
  by (cases xs) auto

lemma chain_Some: "chain nx (Some x) xs \<longleftrightarrow> (\<exists>ys. xs = x # ys \<and> chain nx (nx x) ys)"
  by (cases xs) auto

lemma chain_upd [simp]: "x \<notin> set xs \<Longrightarrow> chain (nx(x := v)) p xs \<longleftrightarrow> chain nx p xs"
  by (induction xs arbitrary: p) auto

lemma chain_cong: "(\<And>x. x \<in> set xs \<Longrightarrow> nx' x = nx x) \<Longrightarrow> chain nx' p xs \<longleftrightarrow> chain nx p xs"
  by (induction xs arbitrary: p) auto

lemma chain_unique: "chain nx p xs \<Longrightarrow> chain nx p ys \<Longrightarrow> xs = ys"
proof (induction xs arbitrary: p ys)
  case (Cons x xs)
  then show ?case by (cases ys) auto
qed simp

lemma chain_append_tail: "chain nx p (xs @ ys) \<Longrightarrow> \<exists>q. chain nx q ys"
  by (induction xs arbitrary: p) auto

lemma chain_head_notin: "chain nx (nx x) xs \<Longrightarrow> x \<notin> set xs"
proof
  assume c: "chain nx (nx x) xs" and "x \<in> set xs"
  then obtain as bs where xs: "xs = as @ x # bs" by (auto simp: in_set_conv_decomp)
  with c have "\<exists>q. chain nx q (x # bs)" by (auto dest: chain_append_tail)
  then have "chain nx (nx x) bs" by auto
  with c have "xs = bs" by (rule chain_unique)
  with xs show False by simp
qed

lemma chain_distinct: "chain nx p xs \<Longrightarrow> distinct xs"
  by (induction xs arbitrary: p) (auto dest: chain_head_notin)

text \<open>Unlinking an inner node: its predecessor skips it.\<close>

lemma chain_unlink:
  "chain nx p (as @ q # x # bs) \<Longrightarrow>
   (\<And>y. y \<noteq> x \<Longrightarrow> nx' y = (nx(q := nx x)) y) \<Longrightarrow> chain nx' p (as @ q # bs)"
proof (induction as arbitrary: p)
  case Nil
  then have d: "distinct (q # x # bs)"
    using chain_distinct[of nx p "q # x # bs"] by simp
  have c: "chain nx (nx x) bs" and p: "p = Some q" using Nil.prems(1) by auto
  have "nx' y = nx y" if "y \<in> set bs" for y
  proof -
    from that d have "y \<noteq> x" "y \<noteq> q" by auto
    then show ?thesis by (simp add: Nil.prems(2))
  qed
  with c have "chain nx' (nx x) bs" using chain_cong[of bs nx' nx "nx x"] by simp
  moreover have "nx' q = nx x" using d Nil.prems(2) by auto
  ultimately show ?case using p by simp
next
  case (Cons a as)
  then have d: "distinct (a # as @ q # x # bs)"
    using chain_distinct[of nx p "a # as @ q # x # bs"] by simp
  with Cons.prems have "nx' a = nx a" by simp
  with Cons show ?case by simp
qed

section \<open>Doubly linked segments\<close>

text \<open>
  \<open>dll nx pv p a xs b n\<close>: starting at \<open>p\<close>, whose node points back to \<open>a\<close>, the nodes are
  \<open>xs\<close>; the last one is \<open>b\<close> and points on to \<open>n\<close>.
\<close>

primrec dll :: "(nat \<Rightarrow> nat option) \<Rightarrow> (nat \<Rightarrow> nat option) \<Rightarrow> nat option \<Rightarrow> nat option \<Rightarrow> nat list
    \<Rightarrow> nat option \<Rightarrow> nat option \<Rightarrow> bool" where
  "dll nx pv p a [] b n \<longleftrightarrow> p = n \<and> a = b"
| "dll nx pv p a (x # xs) b n \<longleftrightarrow> p = Some x \<and> pv x = a \<and> dll nx pv (nx x) (Some x) xs b n"

lemma dll_append:
  "dll nx pv p a (xs @ ys) b n \<longleftrightarrow> (\<exists>q c. dll nx pv p a xs c q \<and> dll nx pv q c ys b n)"
  by (induction xs arbitrary: p a) auto

lemma dll_cong:
  "(\<And>x. x \<in> set xs \<Longrightarrow> nx' x = nx x \<and> pv' x = pv x) \<Longrightarrow>
   dll nx' pv' p a xs b n \<longleftrightarrow> dll nx pv p a xs b n"
  by (induction xs arbitrary: p a) auto

lemma dll_upd_next [simp]: "x \<notin> set xs \<Longrightarrow> dll (nx(x := v)) pv p a xs b n \<longleftrightarrow> dll nx pv p a xs b n"
  by (rule dll_cong) auto

lemma dll_upd_prev [simp]: "x \<notin> set xs \<Longrightarrow> dll nx (pv(x := v)) p a xs b n \<longleftrightarrow> dll nx pv p a xs b n"
  by (rule dll_cong) auto

lemma dll_chain: "dll nx pv p a xs b None \<Longrightarrow> chain nx p xs"
  by (induction xs arbitrary: p a) auto

lemma dll_distinct: "dll nx pv p a xs b None \<Longrightarrow> distinct xs"
  by (blast intro: chain_distinct dll_chain)

lemma dll_snoc:
  "dll nx pv p a (xs @ [x]) b n \<longleftrightarrow> dll nx pv p a xs (pv x) (Some x) \<and> b = Some x \<and> nx x = n"
  by (auto simp: dll_append)

text \<open>Changing what the first node points back to, and what the last points on to.\<close>

lemma dll_first_prev:
  "distinct (x # xs) \<Longrightarrow> dll nx pv p a (x # xs) b n \<Longrightarrow> dll nx (pv(x := c)) p c (x # xs) b n"
  by auto

lemma dll_last_next:
  "distinct (xs @ [x]) \<Longrightarrow> dll nx pv p a (xs @ [x]) b n \<Longrightarrow>
   dll (nx(x := q)) pv p a (xs @ [x]) b q"
  by (auto simp: dll_snoc)

text \<open>Appending a node at the tail.\<close>

lemma dll_insert_tail_empty:
  "dll (nx(r := None)) (pv(r := None)) (Some r) None [r] (Some r) None"
  by simp

lemma dll_insert_tail:
  assumes "dll nx pv p None (xs @ [t]) (Some t) None" and "r \<notin> set (xs @ [t])"
  shows "dll (nx(r := None, t := Some r)) (pv(r := Some t)) p None ((xs @ [t]) @ [r]) (Some r) None"
proof -
  have d: "distinct (xs @ [t])" using assms(1) by (rule dll_distinct)
  have "dll (nx(t := Some r)) pv p None (xs @ [t]) (Some t) (Some r)"
    using dll_last_next[OF d assms(1)] by (simp add: dll_snoc)
  then have "dll (nx(r := None, t := Some r)) (pv(r := Some t)) p None (xs @ [t]) (Some t) (Some r)"
    using assms(2) by (subst dll_cong[where nx = "nx(t := Some r)" and pv = pv]) auto
  with assms(2) show ?thesis by (auto simp: dll_append)
qed

text \<open>
  Unlinking node \<open>r\<close>.  The four shapes of the neighbourhood are the four paths through
  \<^verbatim>\<open>PriceLevel_orders_Remove\<close>.
\<close>

lemma dll_unlink:
  assumes "dll nx pv p None (as @ r # bs) e None"
    and nx': "nx' = (case pv r of None \<Rightarrow> nx | Some q \<Rightarrow> nx(q := nx r))"
    and pv': "pv' = (case nx r of None \<Rightarrow> pv | Some n \<Rightarrow> pv(n := pv r))"
    and p': "p' = (case pv r of None \<Rightarrow> nx r | Some q \<Rightarrow> p)"
    and e': "e' = (case nx r of None \<Rightarrow> pv r | Some n \<Rightarrow> e)"
  shows "dll (nx'(r := u)) (pv'(r := v)) p' None (as @ bs) e' None"
proof -
  have d: "distinct (as @ r # bs)" using assms(1) by (rule dll_distinct)
  obtain c where as: "dll nx pv p None as c (Some r)" and c: "pv r = c"
    and bs: "dll nx pv (nx r) (Some r) bs e None"
    using assms(1) by (auto simp: dll_append)
  have as': "dll nx' pv p' None as c (nx r)"
  proof (cases as rule: rev_cases)
    case Nil
    with as c show ?thesis by (simp add: p' nx')
  next
    case (snoc ys y)
    with as c have "c = Some y" by (auto simp: dll_snoc)
    with as c d snoc show ?thesis by (auto simp: p' nx' dll_snoc)
  qed
  have bs': "dll nx pv' (nx r) c bs e' None"
  proof (cases bs)
    case Nil
    with bs c show ?thesis by (simp add: e' pv')
  next
    case (Cons y ys)
    with bs c d show ?thesis by (auto simp: e' pv')
  qed
  have 1: "dll (nx'(r := u)) (pv'(r := v)) p' None as c (nx r)"
  proof -
    have "\<And>x. x \<in> set as \<Longrightarrow> pv' x = pv x"
      using d bs by (cases bs) (auto simp: pv' split: option.splits)
    with as' d show ?thesis
      by (subst dll_cong[where nx = nx' and pv = pv]) auto
  qed
  have 2: "dll (nx'(r := u)) (pv'(r := v)) (nx r) c bs e' None"
  proof -
    have "\<And>x. x \<in> set bs \<Longrightarrow> nx' x = nx x"
      using d as c by (cases as rule: rev_cases) (auto simp: nx' dll_snoc split: option.splits)
    with bs' d show ?thesis
      by (subst dll_cong[where nx = nx and pv = pv']) auto
  qed
  from 1 2 show ?thesis by (auto simp: dll_append)
qed

lemma dll_first: "dll nx pv p a xs b None \<Longrightarrow> p = (case xs of [] \<Rightarrow> None | x # _ \<Rightarrow> Some x)"
  by (cases xs) auto

lemma dll_last: "dll nx pv p None xs b None \<Longrightarrow> b = (if xs = [] then None else Some (last xs))"
  by (cases xs rule: rev_cases) (auto simp: dll_snoc)

end
