(* ===== verification/Pools.thy ===== *)
theory Pools
  imports Machine Linked "HOL-Library.Multiset"
begin

text \<open>
  The row pools of \<^verbatim>\<open>c/src/matching_engine_gen.c\<close> (lines 12-116 and 135-198): chunks
  obtained from \<^verbatim>\<open>calloc\<close>, the growing array that records them for teardown, the free
  lists threaded through \<^verbatim>\<open>_freenext\<close>, and \<^verbatim>\<open>EngineDb_Init\<close> / \<^verbatim>\<open>EngineDb_Destroy\<close>.

  The lemmas relate a free list to the list of its rows: reserving pushes the rows of a new
  chunk, allocation pops, freeing pushes; teardown returns every chunk that was recorded.
\<close>

section \<open>The allocator\<close>

text \<open>The outcome of the next call of \<^verbatim>\<open>calloc\<close> or \<^verbatim>\<open>realloc\<close>.\<close>

definition alloc_call :: "'z machine_scheme \<Rightarrow> bool \<times> 'z machine_scheme" where
  "alloc_call m = (alloc_ok m (alloc_calls m), m\<lparr>alloc_calls := Suc (alloc_calls m)\<rparr>)"

text \<open>\<^verbatim>\<open>realloc(arr, new_cap * sizeof(void *))\<close>: the slots that fit are kept.\<close>

definition realloc_slots :: "'a option list option \<Rightarrow> u32 \<Rightarrow> 'a option list" where
  "realloc_slots arr new_cap =
     (let xs = (case arr of None \<Rightarrow> [] | Some xs \<Rightarrow> xs); n = unat new_cap
      in take n xs @ replicate (n - length xs) None)"

text \<open>\<^verbatim>\<open>arr[n] = chunk\<close>; a null array or an index past the end has no defined result.\<close>

definition store_slot :: "'a option list option \<Rightarrow> u32 \<Rightarrow> 'a \<Rightarrow> 'a option list option" where
  "store_slot arr n chunk =
     (case arr of None \<Rightarrow> None
      | Some xs \<Rightarrow> if unat n < length xs then Some (xs[unat n := Some chunk]) else None)"

section \<open>Recording chunks\<close>

definition track_order_chunk :: "oref \<Rightarrow> 'z machine_scheme \<Rightarrow> 'z machine_scheme option" where
  "track_order_chunk chunk m =
     (let put = (\<lambda>m. do {
          xs \<leftarrow> store_slot (order_chunks m) (order_chunks_n m) chunk;
          Some (m\<lparr>order_chunks := Some xs, order_chunks_n := order_chunks_n m + 1\<rparr>)
        })
      in if order_chunks_cap m \<le> order_chunks_n m then
           (let new_cap = (if order_chunks_cap m = 0 then 16 else order_chunks_cap m * 2);
                (ok, m) = alloc_call m
            in if \<not> ok then Some m
               else put (m\<lparr>order_chunks := Some (realloc_slots (order_chunks m) new_cap),
                           order_chunks_cap := new_cap\<rparr>))
         else put m)"

definition track_level_chunk :: "lref \<Rightarrow> 'z machine_scheme \<Rightarrow> 'z machine_scheme option" where
  "track_level_chunk chunk m =
     (let put = (\<lambda>m. do {
          xs \<leftarrow> store_slot (level_chunks m) (level_chunks_n m) chunk;
          Some (m\<lparr>level_chunks := Some xs, level_chunks_n := level_chunks_n m + 1\<rparr>)
        })
      in if level_chunks_cap m \<le> level_chunks_n m then
           (let new_cap = (if level_chunks_cap m = 0 then 16 else level_chunks_cap m * 2);
                (ok, m) = alloc_call m
            in if \<not> ok then Some m
               else put (m\<lparr>level_chunks := Some (realloc_slots (level_chunks m) new_cap),
                           level_chunks_cap := new_cap\<rparr>))
         else put m)"

section \<open>Reserving chunks\<close>

text \<open>\<^verbatim>\<open>calloc(n, sizeof(struct Order))\<close> when it succeeds: \<open>n\<close> zeroed rows at fresh addresses.\<close>

definition order_calloc :: "nat \<Rightarrow> 'z machine_scheme \<Rightarrow> 'z machine_scheme" where
  "order_calloc n m =
     (let base = order_brk m
      in m\<lparr>order_mem := (\<lambda>p. if base \<le> p \<and> p < base + n then zero_order else order_mem m p),
           order_brk := base + n, order_heap := base # order_heap m\<rparr>)"

definition level_calloc :: "nat \<Rightarrow> 'z machine_scheme \<Rightarrow> 'z machine_scheme" where
  "level_calloc n m =
     (let base = level_brk m
      in m\<lparr>level_mem := (\<lambda>p. if base \<le> p \<and> p < base + n then zero_level else level_mem m p),
           level_brk := base + n, level_heap := base # level_heap m\<rparr>)"

text \<open>The body of the linking loop: push row \<open>p\<close>.\<close>

definition push_free_order :: "oref \<Rightarrow> 'z machine_scheme \<Rightarrow> 'z machine_scheme" where
  "push_free_order p m = (set_o_free p (order_pool_free m) m)\<lparr>order_pool_free := Some p\<rparr>"

definition push_free_level :: "lref \<Rightarrow> 'z machine_scheme \<Rightarrow> 'z machine_scheme" where
  "push_free_level p m = (set_l_free p (level_pool_free m) m)\<lparr>level_pool_free := Some p\<rparr>"

definition EngineDb_order_pool_ReserveMem :: "u64 \<Rightarrow> 'z machine_scheme \<Rightarrow> (u64 \<times> 'z machine_scheme) option" where
  "EngineDb_order_pool_ReserveMem n_orders m =
     (if n_orders = 0 then Some (0, m)
      else let (ok, m) = alloc_call m
           in if \<not> ok then Some (0, m)
              else let base = order_brk m; m = order_calloc (unat n_orders) m
                   in do {
                     m \<leftarrow> track_order_chunk base m;
                     let m = fold (\<lambda>i. push_free_order (base + i)) [0..<unat n_orders] m;
                     Some (n_orders,
                       m\<lparr>order_pool_total_allocated := order_pool_total_allocated m + n_orders\<rparr>)
                   })"

definition EngineDb_level_pool_ReserveMem :: "u64 \<Rightarrow> 'z machine_scheme \<Rightarrow> (u64 \<times> 'z machine_scheme) option" where
  "EngineDb_level_pool_ReserveMem n_levels m =
     (if n_levels = 0 then Some (0, m)
      else let (ok, m) = alloc_call m
           in if \<not> ok then Some (0, m)
              else let base = level_brk m; m = level_calloc (unat n_levels) m
                   in do {
                     m \<leftarrow> track_level_chunk base m;
                     let m = fold (\<lambda>i. push_free_level (base + i)) [0..<unat n_levels] m;
                     Some (n_levels,
                       m\<lparr>level_pool_total_allocated := level_pool_total_allocated m + n_levels\<rparr>)
                   })"

section \<open>Teardown and initialisation\<close>

text \<open>
  \<^verbatim>\<open>free(chunks[i])\<close> for each recorded chunk.  Freeing a slot that was never written, or a
  chunk that is not allocated, has no defined result.
\<close>

fun free_order_chunks :: "oref option list \<Rightarrow> 'z machine_scheme \<Rightarrow> 'z machine_scheme option" where
  "free_order_chunks [] m = Some m"
| "free_order_chunks (None # cs) m = None"
| "free_order_chunks (Some c # cs) m =
     (if c \<in> set (order_heap m)
      then free_order_chunks cs (m\<lparr>order_heap := remove1 c (order_heap m)\<rparr>) else None)"

fun free_level_chunks :: "lref option list \<Rightarrow> 'z machine_scheme \<Rightarrow> 'z machine_scheme option" where
  "free_level_chunks [] m = Some m"
| "free_level_chunks (None # cs) m = None"
| "free_level_chunks (Some c # cs) m =
     (if c \<in> set (level_heap m)
      then free_level_chunks cs (m\<lparr>level_heap := remove1 c (level_heap m)\<rparr>) else None)"

text \<open>The first \<open>n\<close> slots of a chunk array, which must have that many.\<close>

definition slots_upto :: "u32 \<Rightarrow> 'a option list \<Rightarrow> 'a option list option" where
  "slots_upto n xs = (if unat n \<le> length xs then Some (take (unat n) xs) else None)"

definition EngineDb_Destroy :: "'z machine_scheme \<Rightarrow> 'z machine_scheme option" where
  "EngineDb_Destroy m = do {
     let m = m\<lparr>ind_order_buckets := None\<rparr>;
     m \<leftarrow> (case order_chunks m of None \<Rightarrow> Some m
          | Some xs \<Rightarrow> do {
              cs \<leftarrow> slots_upto (order_chunks_n m) xs;
              m \<leftarrow> free_order_chunks cs m;
              Some (m\<lparr>order_chunks := None\<rparr>)
            });
     m \<leftarrow> (case level_chunks m of None \<Rightarrow> Some m
          | Some xs \<Rightarrow> do {
              cs \<leftarrow> slots_upto (level_chunks_n m) xs;
              m \<leftarrow> free_level_chunks cs m;
              Some (m\<lparr>level_chunks := None\<rparr>)
            });
     Some (EngineDb.extend zero_EngineDb (EngineDb.more m))
   }"

definition EngineDb_Init :: "'z machine_scheme \<Rightarrow> 'z machine_scheme option" where
  "EngineDb_Init m = do {
     m \<leftarrow> EngineDb_Destroy m;
     let (ok, m) = alloc_call m;
     let m = m\<lparr>ind_order_buckets := (if ok then Some (\<lambda>_. None) else None)\<rparr>;
     (_, m) \<leftarrow> EngineDb_order_pool_ReserveMem ORDER_CHUNK_SIZE m;
     (_, m) \<leftarrow> EngineDb_level_pool_ReserveMem LEVEL_CHUNK_SIZE m;
     Some (m\<lparr>bids_root := None, bids_n := 0, asks_root := None, asks_n := 0, ind_order_n := 0\<rparr>)
   }"

section \<open>Allocation and release of rows\<close>

definition EngineDb_order_pool_Alloc :: "'z machine_scheme \<Rightarrow> oref option \<times> 'z machine_scheme" where
  "EngineDb_order_pool_Alloc m =
     (case order_pool_free m of
        None \<Rightarrow> (None, m)
      | Some p \<Rightarrow>
          let m = m\<lparr>order_pool_free := o_free m p\<rparr>;
              m = set_o_free p None m;
              m = set_o_next p None m;
              m = set_o_prev p None m;
              m = set_o_inlist p False m;
              m = set_o_hnext p None m;
              m = set_o_inhash p False m
          in (Some p, m\<lparr>order_pool_n := order_pool_n m + 1\<rparr>))"

definition EngineDb_order_pool_Free :: "oref option \<Rightarrow> 'z machine_scheme \<Rightarrow> 'z machine_scheme" where
  "EngineDb_order_pool_Free row m =
     (case row of
        None \<Rightarrow> m
      | Some p \<Rightarrow>
          let m = set_o_free p (order_pool_free m) m;
              m = m\<lparr>order_pool_free := Some p\<rparr>
          in if order_pool_n m > 0 then m\<lparr>order_pool_n := order_pool_n m - 1\<rparr> else m)"

definition EngineDb_order_pool_N :: "'z machine_scheme \<Rightarrow> u64" where
  "EngineDb_order_pool_N m = order_pool_n m"

definition EngineDb_level_pool_Alloc :: "'z machine_scheme \<Rightarrow> lref option \<times> 'z machine_scheme" where
  "EngineDb_level_pool_Alloc m =
     (case level_pool_free m of
        None \<Rightarrow> (None, m)
      | Some p \<Rightarrow>
          let m = m\<lparr>level_pool_free := l_free m p\<rparr>;
              m = set_l_free p None m;
              m = set_l_head p None m;
              m = set_l_tail p None m;
              m = set_l_n p 0 m;
              m = set_l_total p 0 m;
              m = set_l_parent p None m;
              m = set_l_left p None m;
              m = set_l_right p None m;
              m = set_l_intree p False m
          in (Some p, m\<lparr>level_pool_n := level_pool_n m + 1\<rparr>))"

definition EngineDb_level_pool_Free :: "lref option \<Rightarrow> 'z machine_scheme \<Rightarrow> 'z machine_scheme" where
  "EngineDb_level_pool_Free row m =
     (case row of
        None \<Rightarrow> m
      | Some p \<Rightarrow>
          let m = set_l_free p (level_pool_free m) m;
              m = m\<lparr>level_pool_free := Some p\<rparr>
          in if level_pool_n m > 0 then m\<lparr>level_pool_n := level_pool_n m - 1\<rparr> else m)"

section \<open>Free lists\<close>

text \<open>
  The free list of a pool, as the list of its rows.  \<open>order_pool_step A m m'\<close>: the states
  differ at most in the pool's head and count and in the links of the rows in \<open>A\<close>, the
  payload of every row being kept.
\<close>

abbreviation order_free_list :: "'z machine_scheme \<Rightarrow> oref list \<Rightarrow> bool" where
  "order_free_list m fs \<equiv> chain (o_free m) (order_pool_free m) fs"

abbreviation level_free_list :: "'z machine_scheme \<Rightarrow> lref list \<Rightarrow> bool" where
  "level_free_list m fs \<equiv> chain (l_free m) (level_pool_free m) fs"

definition order_pool_step :: "oref set \<Rightarrow> 'z machine_scheme \<Rightarrow> 'z machine_scheme \<Rightarrow> bool" where
  "order_pool_step A m m' \<longleftrightarrow>
     mem_only (m\<lparr>order_pool_free := order_pool_free m', order_pool_n := order_pool_n m'\<rparr>) m' \<and>
     level_mem m' = level_mem m \<and> row_at m' = row_at m \<and> o_rem m' = o_rem m \<and> o_id m' = o_id m \<and>
     o_level m' = o_level m \<and>
     (\<forall>x. x \<notin> A \<longrightarrow> o_next m' x = o_next m x \<and> o_prev m' x = o_prev m x \<and>
        o_inlist m' x = o_inlist m x \<and> o_hnext m' x = o_hnext m x \<and> o_inhash m' x = o_inhash m x)"

definition level_pool_step :: "lref set \<Rightarrow> 'z machine_scheme \<Rightarrow> 'z machine_scheme \<Rightarrow> bool" where
  "level_pool_step A m m' \<longleftrightarrow>
     mem_only (m\<lparr>level_pool_free := level_pool_free m', level_pool_n := level_pool_n m'\<rparr>) m' \<and>
     order_mem m' = order_mem m \<and> l_price m' = l_price m \<and>
     (\<forall>x. x \<notin> A \<longrightarrow> l_head m' x = l_head m x \<and> l_tail m' x = l_tail m x \<and> l_n m' x = l_n m x \<and>
        l_total m' x = l_total m x \<and> l_parent m' x = l_parent m x \<and> l_left m' x = l_left m x \<and>
        l_right m' x = l_right m x \<and> l_intree m' x = l_intree m x)"

lemma order_pool_Alloc_empty:
  "order_pool_free m = None \<Longrightarrow> EngineDb_order_pool_Alloc m = (None, m)"
  by (simp add: EngineDb_order_pool_Alloc_def)

lemma level_pool_Alloc_empty:
  "level_pool_free m = None \<Longrightarrow> EngineDb_level_pool_Alloc m = (None, m)"
  by (simp add: EngineDb_level_pool_Alloc_def)

lemma order_pool_Alloc_law:
  assumes "order_free_list m (p # fs)"
  shows "\<exists>m'. EngineDb_order_pool_Alloc m = (Some p, m') \<and> order_free_list m' fs \<and>
    order_pool_n m' = order_pool_n m + 1 \<and> \<not> o_inlist m' p \<and> \<not> o_inhash m' p \<and>
    order_pool_step {p} m m'"
proof -
  have pf: "order_pool_free m = Some p" and fs: "chain (o_free m) (o_free m p) fs" and "p \<notin> set fs"
    using assms by (auto dest: chain_head_notin)
  define m' where "m' = snd (EngineDb_order_pool_Alloc m)"
  have "EngineDb_order_pool_Alloc m = (Some p, m')"
    by (simp add: m'_def EngineDb_order_pool_Alloc_def pf Let_def)
  moreover have "order_pool_free m' = o_free m p" "o_free m' = (o_free m)(p := None)"
      "order_pool_n m' = order_pool_n m + 1" "\<not> o_inlist m' p" "\<not> o_inhash m' p"
    by (simp_all add: m'_def EngineDb_order_pool_Alloc_def pf Let_def)
  moreover from this have "order_free_list m' fs" using fs \<open>p \<notin> set fs\<close> by simp
  moreover have "mem_only (m\<lparr>order_pool_free := order_pool_free m', order_pool_n := order_pool_n m'\<rparr>) m'"
    unfolding mem_only_def
    by (rule exI[of _ "order_mem m'"], rule exI[of _ "level_mem m"])
      (simp add: m'_def EngineDb_order_pool_Alloc_def pf Let_def upd_order_def)
  then have "order_pool_step {p} m m'"
    by (simp add: order_pool_step_def) (simp add: m'_def EngineDb_order_pool_Alloc_def pf Let_def)
  ultimately show ?thesis by blast
qed

lemma order_pool_Free_law:
  assumes "order_free_list m fs" and "p \<notin> set fs" and "order_pool_n m > 0"
    and m': "m' = EngineDb_order_pool_Free (Some p) m"
  shows "order_free_list m' (p # fs)" and "order_pool_n m' = order_pool_n m - 1"
    and "order_pool_step {} m m'" and "o_inlist m' = o_inlist m" and "o_inhash m' = o_inhash m"
proof -
  have "o_free m' = (o_free m)(p := order_pool_free m)" "order_pool_free m' = Some p"
    by (simp_all add: m' EngineDb_order_pool_Free_def Let_def)
  then show "order_free_list m' (p # fs)" using assms(1,2) by simp
  show "order_pool_n m' = order_pool_n m - 1"
    using assms(3) by (simp add: m' EngineDb_order_pool_Free_def Let_def)
  have "mem_only (m\<lparr>order_pool_free := order_pool_free m', order_pool_n := order_pool_n m'\<rparr>) m'"
    unfolding mem_only_def
    by (rule exI[of _ "order_mem m'"], rule exI[of _ "level_mem m"])
      (simp add: m' EngineDb_order_pool_Free_def Let_def upd_order_def)
  then show "order_pool_step {} m m'"
    by (simp add: order_pool_step_def) (simp add: m' EngineDb_order_pool_Free_def Let_def)
qed (simp_all add: m' EngineDb_order_pool_Free_def Let_def)

lemma level_pool_Alloc_law:
  assumes "level_free_list m (p # fs)"
  shows "\<exists>m'. EngineDb_level_pool_Alloc m = (Some p, m') \<and> level_free_list m' fs \<and>
    level_pool_n m' = level_pool_n m + 1 \<and> l_head m' p = None \<and> l_tail m' p = None \<and>
    l_n m' p = 0 \<and> l_total m' p = 0 \<and> \<not> l_intree m' p \<and> level_pool_step {p} m m'"
proof -
  have pf: "level_pool_free m = Some p" and fs: "chain (l_free m) (l_free m p) fs" and "p \<notin> set fs"
    using assms by (auto dest: chain_head_notin)
  define m' where "m' = snd (EngineDb_level_pool_Alloc m)"
  have "EngineDb_level_pool_Alloc m = (Some p, m')"
    by (simp add: m'_def EngineDb_level_pool_Alloc_def pf Let_def)
  moreover have "level_pool_free m' = l_free m p" "l_free m' = (l_free m)(p := None)"
      "level_pool_n m' = level_pool_n m + 1" "l_head m' p = None" "l_tail m' p = None"
      "l_n m' p = 0" "l_total m' p = 0" "\<not> l_intree m' p"
    by (simp_all add: m'_def EngineDb_level_pool_Alloc_def pf Let_def)
  moreover from this have "level_free_list m' fs" using fs \<open>p \<notin> set fs\<close> by simp
  moreover have "mem_only (m\<lparr>level_pool_free := level_pool_free m', level_pool_n := level_pool_n m'\<rparr>) m'"
    unfolding mem_only_def
    by (rule exI[of _ "order_mem m"], rule exI[of _ "level_mem m'"])
      (simp add: m'_def EngineDb_level_pool_Alloc_def pf Let_def upd_level_def)
  then have "level_pool_step {p} m m'"
    by (simp add: level_pool_step_def) (simp add: m'_def EngineDb_level_pool_Alloc_def pf Let_def)
  ultimately show ?thesis by blast
qed

lemma level_pool_Free_law:
  assumes "level_free_list m fs" and "p \<notin> set fs" and "level_pool_n m > 0"
    and m': "m' = EngineDb_level_pool_Free (Some p) m"
  shows "level_free_list m' (p # fs)" and "level_pool_n m' = level_pool_n m - 1"
    and "level_pool_step {} m m'"
proof -
  have "l_free m' = (l_free m)(p := level_pool_free m)" "level_pool_free m' = Some p"
    by (simp_all add: m' EngineDb_level_pool_Free_def Let_def)
  then show "level_free_list m' (p # fs)" using assms(1,2) by simp
  show "level_pool_n m' = level_pool_n m - 1"
    using assms(3) by (simp add: m' EngineDb_level_pool_Free_def Let_def)
  have "mem_only (m\<lparr>level_pool_free := level_pool_free m', level_pool_n := level_pool_n m'\<rparr>) m'"
    unfolding mem_only_def
    by (rule exI[of _ "order_mem m"], rule exI[of _ "level_mem m'"])
      (simp add: m' EngineDb_level_pool_Free_def Let_def upd_level_def)
  then show "level_pool_step {} m m'"
    by (simp add: level_pool_step_def) (simp add: m' EngineDb_level_pool_Free_def Let_def)
qed


section \<open>Reserving a chunk\<close>

text \<open>The rows of a chunk go onto the free list one by one, the last one ending up in front.\<close>

lemma push_free_orders:
  assumes "order_free_list m fs" and "distinct xs" and "set xs \<inter> set fs = {}"
  shows "\<exists>h q. fold push_free_order xs m = m\<lparr>order_mem := h, order_pool_free := q\<rparr> \<and>
    (\<forall>p. p \<notin> set xs \<longrightarrow> h p = order_mem m p) \<and> chain (ho_free h) q (rev xs @ fs)"
  using assms
proof (induction xs arbitrary: m fs)
  case Nil
  have "m = m\<lparr>order_mem := order_mem m, order_pool_free := order_pool_free m\<rparr>" by simp
  with Nil show ?case by (intro exI[of _ "order_mem m"] exI[of _ "order_pool_free m"]) simp
next
  case (Cons x xs)
  let ?m = "push_free_order x m"
  have "order_free_list ?m (x # fs)" using Cons.prems by (simp add: push_free_order_def)
  with Cons.IH[of ?m "x # fs"] Cons.prems obtain h q where
    h: "fold push_free_order xs ?m = ?m\<lparr>order_mem := h, order_pool_free := q\<rparr>"
      "\<forall>p. p \<notin> set xs \<longrightarrow> h p = order_mem ?m p" "chain (ho_free h) q (rev xs @ x # fs)"
    by auto
  have "?m\<lparr>order_mem := h, order_pool_free := q\<rparr> = m\<lparr>order_mem := h, order_pool_free := q\<rparr>"
    by (simp add: push_free_order_def upd_order_def)
  moreover have "order_mem ?m p = order_mem m p" if "p \<noteq> x" for p
    using that by (simp add: push_free_order_def upd_order_def hupd_def)
  ultimately have "fold push_free_order (x # xs) m = m\<lparr>order_mem := h, order_pool_free := q\<rparr>"
      "\<forall>p. p \<notin> set (x # xs) \<longrightarrow> h p = order_mem m p" "chain (ho_free h) q (rev (x # xs) @ fs)"
    using h by auto
  then show ?case by blast
qed

lemma push_free_levels:
  assumes "level_free_list m fs" and "distinct xs" and "set xs \<inter> set fs = {}"
  shows "\<exists>h q. fold push_free_level xs m = m\<lparr>level_mem := h, level_pool_free := q\<rparr> \<and>
    (\<forall>p. p \<notin> set xs \<longrightarrow> h p = level_mem m p) \<and> chain (hl_free h) q (rev xs @ fs)"
  using assms
proof (induction xs arbitrary: m fs)
  case Nil
  have "m = m\<lparr>level_mem := level_mem m, level_pool_free := level_pool_free m\<rparr>" by simp
  with Nil show ?case by (intro exI[of _ "level_mem m"] exI[of _ "level_pool_free m"]) simp
next
  case (Cons x xs)
  let ?m = "push_free_level x m"
  have "level_free_list ?m (x # fs)" using Cons.prems by (simp add: push_free_level_def)
  with Cons.IH[of ?m "x # fs"] Cons.prems obtain h q where
    h: "fold push_free_level xs ?m = ?m\<lparr>level_mem := h, level_pool_free := q\<rparr>"
      "\<forall>p. p \<notin> set xs \<longrightarrow> h p = level_mem ?m p" "chain (hl_free h) q (rev xs @ x # fs)"
    by auto
  have "?m\<lparr>level_mem := h, level_pool_free := q\<rparr> = m\<lparr>level_mem := h, level_pool_free := q\<rparr>"
    by (simp add: push_free_level_def upd_level_def)
  moreover have "level_mem ?m p = level_mem m p" if "p \<noteq> x" for p
    using that by (simp add: push_free_level_def upd_level_def hupd_def)
  ultimately have "fold push_free_level (x # xs) m = m\<lparr>level_mem := h, level_pool_free := q\<rparr>"
      "\<forall>p. p \<notin> set (x # xs) \<longrightarrow> h p = level_mem m p" "chain (hl_free h) q (rev (x # xs) @ fs)"
    using h by auto
  then show ?case by blast
qed

section \<open>Recorded chunks\<close>

text \<open>A chunk array with its two counters holds the chunks \<open>cs\<close>, in order.\<close>

definition chunk_table :: "'a option list option \<Rightarrow> u32 \<Rightarrow> u32 \<Rightarrow> 'a list \<Rightarrow> bool" where
  "chunk_table arr n cap cs \<longleftrightarrow> unat n = length cs \<and> length cs \<le> unat cap \<and>
     (case arr of None \<Rightarrow> cap = 0
      | Some xs \<Rightarrow> length xs = unat cap \<and> take (length cs) xs = map Some cs)"

lemma chunk_table_empty [simp]: "chunk_table None 0 0 cs \<longleftrightarrow> cs = []"
  by (auto simp: chunk_table_def)

lemma chunk_table_slots:
  "chunk_table (Some xs) n cap cs \<Longrightarrow> slots_upto n xs = Some (map Some cs)"
  by (auto simp: chunk_table_def slots_upto_def)

lemma chunk_table_None: "chunk_table None n cap cs \<Longrightarrow> cs = []"
  by (auto simp: chunk_table_def)

lemma store_slot_law:
  assumes "chunk_table (Some xs) n cap cs" and "n < cap"
  shows "store_slot (Some xs) n c = Some (xs[unat n := Some c])"
    and "chunk_table (Some (xs[unat n := Some c])) (n + 1) cap (cs @ [c])"
proof -
  have n: "unat n = length cs" "length xs = unat cap" "take (length cs) xs = map Some cs"
    using assms(1) by (auto simp: chunk_table_def)
  have lt: "length cs < length xs" using assms(2) n by (simp add: word_less_nat_alt)
  have "unat cap < 2 ^ 32" by (rule order_less_le_trans[OF unsigned_less]) simp
  then have "unat (n + 1) = Suc (length cs)"
    using lt n(1,2) by (simp add: unat_word_ariths)
  moreover have "take (Suc (length cs)) (xs[length cs := Some c]) = map Some cs @ [Some c]"
    using lt n(3) by (simp add: take_Suc_conv_app_nth)
  ultimately show "store_slot (Some xs) n c = Some (xs[unat n := Some c])"
    "chunk_table (Some (xs[unat n := Some c])) (n + 1) cap (cs @ [c])"
    using lt n by (auto simp: store_slot_def chunk_table_def)
qed

lemma realloc_slots_law:
  assumes "chunk_table arr n cap cs" and "unat cap \<le> unat cap'"
  shows "chunk_table (Some (realloc_slots arr cap')) n cap' cs"
  using assms by (auto simp: chunk_table_def realloc_slots_def Let_def min_def split: option.splits)

text \<open>
  The array doubles from 16, so its capacity stays a valid 32-bit count as long as fewer
  than \<open>2 ^ 31\<close> chunks were recorded.
\<close>

lemma grow_cap:
  fixes cap :: u32
  assumes "unat cap < 2 ^ 31"
  shows "unat cap < unat (if cap = 0 then 16 else cap * 2)"
proof (cases "cap = 0")
  case False
  then have "unat (cap * 2) = unat cap * 2" using assms by (simp add: unat_word_ariths)
  with False show ?thesis by (simp add: unat_gt_0)
qed simp

lemma track_order_chunk_law:
  assumes t: "chunk_table (order_chunks m) (order_chunks_n m) (order_chunks_cap m) cs"
    and small: "unat (order_chunks_cap m) < 2 ^ 31" and ok: "\<forall>i. alloc_ok m i"
  shows "\<exists>arr n cap k. track_order_chunk c m = Some (m\<lparr>order_chunks := arr, order_chunks_n := n,
      order_chunks_cap := cap, alloc_calls := k\<rparr>) \<and> chunk_table arr n cap (cs @ [c]) \<and>
    unat cap \<le> max 16 (2 * unat (order_chunks_cap m))"
proof (cases "order_chunks_cap m \<le> order_chunks_n m")
  case True
  let ?cap = "if order_chunks_cap m = 0 then 16 else order_chunks_cap m * 2"
  let ?xs = "realloc_slots (order_chunks m) ?cap"
  have cap': "unat ?cap \<le> max 16 (2 * unat (order_chunks_cap m))"
    using small by (simp add: unat_word_ariths le_max_iff_disj)
  have "chunk_table (Some ?xs) (order_chunks_n m) ?cap cs"
    using t less_imp_le[OF grow_cap[OF small]] by (rule realloc_slots_law)
  moreover have "unat (order_chunks_n m) \<le> unat (order_chunks_cap m)" using t by (simp add: chunk_table_def)
  then have "order_chunks_n m < ?cap" using grow_cap[OF small] by (simp add: word_less_nat_alt)
  ultimately have s: "store_slot (Some ?xs) (order_chunks_n m) c = Some (?xs[unat (order_chunks_n m) := Some c])"
    "chunk_table (Some (?xs[unat (order_chunks_n m) := Some c])) (order_chunks_n m + 1) ?cap (cs @ [c])"
    by (rule store_slot_law)+
  have "track_order_chunk c m = Some (m\<lparr>order_chunks := Some (?xs[unat (order_chunks_n m) := Some c]),
      order_chunks_n := order_chunks_n m + 1, order_chunks_cap := ?cap, alloc_calls := Suc (alloc_calls m)\<rparr>)"
    using True ok s(1) by (simp add: track_order_chunk_def alloc_call_def Let_def)
  with s(2) cap' show ?thesis by blast
next
  case False
  then obtain xs where xs: "order_chunks m = Some xs"
    using t by (auto simp: chunk_table_def split: option.splits)
  with t False have s: "store_slot (Some xs) (order_chunks_n m) c = Some (xs[unat (order_chunks_n m) := Some c])"
    "chunk_table (Some (xs[unat (order_chunks_n m) := Some c])) (order_chunks_n m + 1) (order_chunks_cap m) (cs @ [c])"
    using store_slot_law[of xs "order_chunks_n m" "order_chunks_cap m" cs c] by auto
  have "track_order_chunk c m = Some (m\<lparr>order_chunks := Some (xs[unat (order_chunks_n m) := Some c]),
      order_chunks_n := order_chunks_n m + 1, order_chunks_cap := order_chunks_cap m, alloc_calls := alloc_calls m\<rparr>)"
    using False s(1) by (simp add: track_order_chunk_def xs)
  moreover have "unat (order_chunks_cap m) \<le> max 16 (2 * unat (order_chunks_cap m))" by simp
  ultimately show ?thesis using s(2) by blast
qed

lemma track_level_chunk_law:
  assumes t: "chunk_table (level_chunks m) (level_chunks_n m) (level_chunks_cap m) cs"
    and small: "unat (level_chunks_cap m) < 2 ^ 31" and ok: "\<forall>i. alloc_ok m i"
  shows "\<exists>arr n cap k. track_level_chunk c m = Some (m\<lparr>level_chunks := arr, level_chunks_n := n,
      level_chunks_cap := cap, alloc_calls := k\<rparr>) \<and> chunk_table arr n cap (cs @ [c]) \<and>
    unat cap \<le> max 16 (2 * unat (level_chunks_cap m))"
proof (cases "level_chunks_cap m \<le> level_chunks_n m")
  case True
  let ?cap = "if level_chunks_cap m = 0 then 16 else level_chunks_cap m * 2"
  let ?xs = "realloc_slots (level_chunks m) ?cap"
  have cap': "unat ?cap \<le> max 16 (2 * unat (level_chunks_cap m))"
    using small by (simp add: unat_word_ariths le_max_iff_disj)
  have "chunk_table (Some ?xs) (level_chunks_n m) ?cap cs"
    using t less_imp_le[OF grow_cap[OF small]] by (rule realloc_slots_law)
  moreover have "unat (level_chunks_n m) \<le> unat (level_chunks_cap m)" using t by (simp add: chunk_table_def)
  then have "level_chunks_n m < ?cap" using grow_cap[OF small] by (simp add: word_less_nat_alt)
  ultimately have s: "store_slot (Some ?xs) (level_chunks_n m) c = Some (?xs[unat (level_chunks_n m) := Some c])"
    "chunk_table (Some (?xs[unat (level_chunks_n m) := Some c])) (level_chunks_n m + 1) ?cap (cs @ [c])"
    by (rule store_slot_law)+
  have "track_level_chunk c m = Some (m\<lparr>level_chunks := Some (?xs[unat (level_chunks_n m) := Some c]),
      level_chunks_n := level_chunks_n m + 1, level_chunks_cap := ?cap, alloc_calls := Suc (alloc_calls m)\<rparr>)"
    using True ok s(1) by (simp add: track_level_chunk_def alloc_call_def Let_def)
  with s(2) cap' show ?thesis by blast
next
  case False
  then obtain xs where xs: "level_chunks m = Some xs"
    using t by (auto simp: chunk_table_def split: option.splits)
  with t False have s: "store_slot (Some xs) (level_chunks_n m) c = Some (xs[unat (level_chunks_n m) := Some c])"
    "chunk_table (Some (xs[unat (level_chunks_n m) := Some c])) (level_chunks_n m + 1) (level_chunks_cap m) (cs @ [c])"
    using store_slot_law[of xs "level_chunks_n m" "level_chunks_cap m" cs c] by auto
  have "track_level_chunk c m = Some (m\<lparr>level_chunks := Some (xs[unat (level_chunks_n m) := Some c]),
      level_chunks_n := level_chunks_n m + 1, level_chunks_cap := level_chunks_cap m, alloc_calls := alloc_calls m\<rparr>)"
    using False s(1) by (simp add: track_level_chunk_def xs)
  moreover have "unat (level_chunks_cap m) \<le> max 16 (2 * unat (level_chunks_cap m))" by simp
  ultimately show ?thesis using s(2) by blast
qed

section \<open>The laws of \<^verbatim>\<open>ReserveMem\<close>\<close>

lemma order_ReserveMem_law:
  assumes fl: "order_free_list m fs" and below: "\<forall>p \<in> set fs. p < order_brk m"
    and t: "chunk_table (order_chunks m) (order_chunks_n m) (order_chunks_cap m) cs"
    and small: "unat (order_chunks_cap m) < 2 ^ 31" and ok: "\<forall>i. alloc_ok m i" and n: "n \<noteq> 0"
  shows "\<exists>h q arr cn cap k. EngineDb_order_pool_ReserveMem n m = Some (n,
      m\<lparr>order_mem := h, order_pool_free := q, order_chunks := arr, order_chunks_n := cn,
        order_chunks_cap := cap, alloc_calls := k, order_brk := order_brk m + unat n,
        order_heap := order_brk m # order_heap m,
        order_pool_total_allocated := order_pool_total_allocated m + n\<rparr>) \<and>
    chain (ho_free h) q (rev [order_brk m ..< order_brk m + unat n] @ fs) \<and>
    chunk_table arr cn cap (cs @ [order_brk m]) \<and>
    unat cap \<le> max 16 (2 * unat (order_chunks_cap m)) \<and> (\<forall>p < order_brk m. h p = order_mem m p)"
proof -
  let ?rows = "[order_brk m ..< order_brk m + unat n]"
  define m1 where "m1 = order_calloc (unat n) (m\<lparr>alloc_calls := Suc (alloc_calls m)\<rparr>)"
  have t1: "chunk_table (order_chunks m1) (order_chunks_n m1) (order_chunks_cap m1) cs"
    "unat (order_chunks_cap m1) < 2 ^ 31" "\<forall>i. alloc_ok m1 i"
    using t small ok by (simp_all add: m1_def order_calloc_def Let_def)
  obtain arr cn cap k where tr: "track_order_chunk (order_brk m) m1 = Some (m1\<lparr>order_chunks := arr,
      order_chunks_n := cn, order_chunks_cap := cap, alloc_calls := k\<rparr>)"
    and arr: "chunk_table arr cn cap (cs @ [order_brk m])" "unat cap \<le> max 16 (2 * unat (order_chunks_cap m1))"
    using track_order_chunk_law[OF t1] by blast
  let ?m2 = "m1\<lparr>order_chunks := arr, order_chunks_n := cn, order_chunks_cap := cap, alloc_calls := k\<rparr>"
  have "order_mem m1 p = order_mem m p" if "p < order_brk m" for p
    using that by (simp add: m1_def order_calloc_def Let_def)
  note old = this
  have "order_free_list ?m2 fs"
  proof -
    have "chain (o_free m1) (order_pool_free m) fs"
      using fl below old by (subst chain_cong[of fs "o_free m1" "o_free m"]) (auto simp: ho_free_def)
    then show ?thesis by (simp add: m1_def order_calloc_def Let_def)
  qed
  then obtain h q where h: "fold push_free_order ?rows ?m2 = ?m2\<lparr>order_mem := h, order_pool_free := q\<rparr>"
      "\<forall>p. p \<notin> set ?rows \<longrightarrow> h p = order_mem ?m2 p" "chain (ho_free h) q (rev ?rows @ fs)"
    using push_free_orders[of ?m2 fs ?rows] below by fastforce
  have "fold (\<lambda>i. push_free_order (order_brk m + i)) [0..<unat n] ?m2 = fold push_free_order ?rows ?m2"
  proof -
    have "?rows = map (\<lambda>i. order_brk m + i) [0..<unat n]" using map_add_upt[of "order_brk m" "unat n"] by (simp add: add.commute)
    then show ?thesis by (simp only: fold_map comp_def)
  qed
  with tr h(1) n ok have "EngineDb_order_pool_ReserveMem n m = Some (n,
      m\<lparr>order_mem := h, order_pool_free := q, order_chunks := arr, order_chunks_n := cn,
        order_chunks_cap := cap, alloc_calls := k, order_brk := order_brk m + unat n,
        order_heap := order_brk m # order_heap m,
        order_pool_total_allocated := order_pool_total_allocated m + n\<rparr>)"
    by (simp add: EngineDb_order_pool_ReserveMem_def alloc_call_def Let_def flip: m1_def)
      (simp add: m1_def order_calloc_def Let_def)
  moreover have "\<forall>p < order_brk m. h p = order_mem m p" using h(2) old by auto
  moreover have "unat cap \<le> max 16 (2 * unat (order_chunks_cap m))"
    using arr(2) by (simp add: m1_def order_calloc_def Let_def)
  ultimately show ?thesis using h(3) arr(1) by blast
qed

lemma level_ReserveMem_law:
  assumes fl: "level_free_list m fs" and below: "\<forall>p \<in> set fs. p < level_brk m"
    and t: "chunk_table (level_chunks m) (level_chunks_n m) (level_chunks_cap m) cs"
    and small: "unat (level_chunks_cap m) < 2 ^ 31" and ok: "\<forall>i. alloc_ok m i" and n: "n \<noteq> 0"
  shows "\<exists>h q arr cn cap k. EngineDb_level_pool_ReserveMem n m = Some (n,
      m\<lparr>level_mem := h, level_pool_free := q, level_chunks := arr, level_chunks_n := cn,
        level_chunks_cap := cap, alloc_calls := k, level_brk := level_brk m + unat n,
        level_heap := level_brk m # level_heap m,
        level_pool_total_allocated := level_pool_total_allocated m + n\<rparr>) \<and>
    chain (hl_free h) q (rev [level_brk m ..< level_brk m + unat n] @ fs) \<and>
    chunk_table arr cn cap (cs @ [level_brk m]) \<and>
    unat cap \<le> max 16 (2 * unat (level_chunks_cap m)) \<and> (\<forall>p < level_brk m. h p = level_mem m p)"
proof -
  let ?rows = "[level_brk m ..< level_brk m + unat n]"
  define m1 where "m1 = level_calloc (unat n) (m\<lparr>alloc_calls := Suc (alloc_calls m)\<rparr>)"
  have t1: "chunk_table (level_chunks m1) (level_chunks_n m1) (level_chunks_cap m1) cs"
    "unat (level_chunks_cap m1) < 2 ^ 31" "\<forall>i. alloc_ok m1 i"
    using t small ok by (simp_all add: m1_def level_calloc_def Let_def)
  obtain arr cn cap k where tr: "track_level_chunk (level_brk m) m1 = Some (m1\<lparr>level_chunks := arr,
      level_chunks_n := cn, level_chunks_cap := cap, alloc_calls := k\<rparr>)"
    and arr: "chunk_table arr cn cap (cs @ [level_brk m])" "unat cap \<le> max 16 (2 * unat (level_chunks_cap m1))"
    using track_level_chunk_law[OF t1] by blast
  let ?m2 = "m1\<lparr>level_chunks := arr, level_chunks_n := cn, level_chunks_cap := cap, alloc_calls := k\<rparr>"
  have "level_mem m1 p = level_mem m p" if "p < level_brk m" for p
    using that by (simp add: m1_def level_calloc_def Let_def)
  note old = this
  have "level_free_list ?m2 fs"
  proof -
    have "chain (l_free m1) (level_pool_free m) fs"
      using fl below old by (subst chain_cong[of fs "l_free m1" "l_free m"]) (auto simp: hl_free_def)
    then show ?thesis by (simp add: m1_def level_calloc_def Let_def)
  qed
  then obtain h q where h: "fold push_free_level ?rows ?m2 = ?m2\<lparr>level_mem := h, level_pool_free := q\<rparr>"
      "\<forall>p. p \<notin> set ?rows \<longrightarrow> h p = level_mem ?m2 p" "chain (hl_free h) q (rev ?rows @ fs)"
    using push_free_levels[of ?m2 fs ?rows] below by fastforce
  have "fold (\<lambda>i. push_free_level (level_brk m + i)) [0..<unat n] ?m2 = fold push_free_level ?rows ?m2"
  proof -
    have "?rows = map (\<lambda>i. level_brk m + i) [0..<unat n]" using map_add_upt[of "level_brk m" "unat n"] by (simp add: add.commute)
    then show ?thesis by (simp only: fold_map comp_def)
  qed
  with tr h(1) n ok have "EngineDb_level_pool_ReserveMem n m = Some (n,
      m\<lparr>level_mem := h, level_pool_free := q, level_chunks := arr, level_chunks_n := cn,
        level_chunks_cap := cap, alloc_calls := k, level_brk := level_brk m + unat n,
        level_heap := level_brk m # level_heap m,
        level_pool_total_allocated := level_pool_total_allocated m + n\<rparr>)"
    by (simp add: EngineDb_level_pool_ReserveMem_def alloc_call_def Let_def flip: m1_def)
      (simp add: m1_def level_calloc_def Let_def)
  moreover have "\<forall>p < level_brk m. h p = level_mem m p" using h(2) old by auto
  moreover have "unat cap \<le> max 16 (2 * unat (level_chunks_cap m))"
    using arr(2) by (simp add: m1_def level_calloc_def Let_def)
  ultimately show ?thesis using h(3) arr(1) by blast
qed

section \<open>The laws of teardown and initialisation\<close>

lemma free_order_chunks_law:
  "mset cs \<subseteq># mset (order_heap m) \<Longrightarrow>
   \<exists>hp. free_order_chunks (map Some cs) m = Some (m\<lparr>order_heap := hp\<rparr>) \<and>
     mset hp = mset (order_heap m) - mset cs"
proof (induction cs arbitrary: m)
  case Nil
  have "free_order_chunks (map Some []) m = Some (m\<lparr>order_heap := order_heap m\<rparr>)" by simp
  then show ?case by (intro exI[of _ "order_heap m"]) simp
next
  case (Cons c cs)
  let ?m = "m\<lparr>order_heap := remove1 c (order_heap m)\<rparr>"
  have "c \<in> set (order_heap m)" using Cons.prems by (auto dest: mset_subset_eqD simp flip: set_mset_mset)
  moreover have "mset cs \<subseteq># mset (order_heap ?m)" using Cons.prems by (simp add: insert_subset_eq_iff)
  then obtain hp where "free_order_chunks (map Some cs) ?m = Some (?m\<lparr>order_heap := hp\<rparr>)"
    "mset hp = mset (order_heap ?m) - mset cs" using Cons.IH by blast
  ultimately have "free_order_chunks (map Some (c # cs)) m = Some (m\<lparr>order_heap := hp\<rparr>)"
    "mset hp = mset (order_heap m) - mset (c # cs)" by simp_all
  then show ?case by blast
qed

lemma free_level_chunks_law:
  "mset cs \<subseteq># mset (level_heap m) \<Longrightarrow>
   \<exists>hp. free_level_chunks (map Some cs) m = Some (m\<lparr>level_heap := hp\<rparr>) \<and>
     mset hp = mset (level_heap m) - mset cs"
proof (induction cs arbitrary: m)
  case Nil
  have "free_level_chunks (map Some []) m = Some (m\<lparr>level_heap := level_heap m\<rparr>)" by simp
  then show ?case by (intro exI[of _ "level_heap m"]) simp
next
  case (Cons c cs)
  let ?m = "m\<lparr>level_heap := remove1 c (level_heap m)\<rparr>"
  have "c \<in> set (level_heap m)" using Cons.prems by (auto dest: mset_subset_eqD simp flip: set_mset_mset)
  moreover have "mset cs \<subseteq># mset (level_heap ?m)" using Cons.prems by (simp add: insert_subset_eq_iff)
  then obtain hp where "free_level_chunks (map Some cs) ?m = Some (?m\<lparr>level_heap := hp\<rparr>)"
    "mset hp = mset (level_heap ?m) - mset cs" using Cons.IH by blast
  ultimately have "free_level_chunks (map Some (c # cs)) m = Some (m\<lparr>level_heap := hp\<rparr>)"
    "mset hp = mset (level_heap m) - mset (c # cs)" by simp_all
  then show ?case by blast
qed

text \<open>
  \<open>pool_chunks m ocs lcs\<close>: the chunk arrays hold \<open>ocs\<close> and \<open>lcs\<close>, all of them allocated.
\<close>

definition pool_chunks :: "'z machine_scheme \<Rightarrow> oref list \<Rightarrow> lref list \<Rightarrow> bool" where
  "pool_chunks m ocs lcs \<longleftrightarrow>
     chunk_table (order_chunks m) (order_chunks_n m) (order_chunks_cap m) ocs \<and>
     chunk_table (level_chunks m) (level_chunks_n m) (level_chunks_cap m) lcs \<and>
     mset ocs \<subseteq># mset (order_heap m) \<and> mset lcs \<subseteq># mset (level_heap m)"

lemma Destroy_law:
  assumes "pool_chunks m ocs lcs"
  shows "\<exists>oh lh. EngineDb_Destroy m = Some (EngineDb.extend zero_EngineDb
      (EngineDb.more (m\<lparr>order_heap := oh, level_heap := lh\<rparr>))) \<and>
    mset oh = mset (order_heap m) - mset ocs \<and> mset lh = mset (level_heap m) - mset lcs"
proof -
  let ?m1 = "m\<lparr>ind_order_buckets := None\<rparr>"
  obtain oh where oh: "mset oh = mset (order_heap m) - mset ocs"
    and run1: "(case order_chunks ?m1 of None \<Rightarrow> Some ?m1
          | Some xs \<Rightarrow> do {
              cs \<leftarrow> slots_upto (order_chunks_n ?m1) xs;
              m \<leftarrow> free_order_chunks cs ?m1;
              Some (m\<lparr>order_chunks := None\<rparr>)
            }) = Some (?m1\<lparr>order_heap := oh, order_chunks := None\<rparr>)"
  proof (cases "order_chunks m")
    case None
    then have "ocs = []" using assms chunk_table_None by (auto simp: pool_chunks_def)
    moreover have "?m1 = ?m1\<lparr>order_heap := order_heap m, order_chunks := None\<rparr>" using None by simp
    ultimately show thesis using that[of "order_heap m"] None by simp
  next
    case (Some xs)
    have sub: "mset ocs \<subseteq># mset (order_heap ?m1)" using assms by (simp add: pool_chunks_def)
    from free_order_chunks_law[OF sub] obtain hp where
      "free_order_chunks (map Some ocs) ?m1 = Some (?m1\<lparr>order_heap := hp\<rparr>)"
      "mset hp = mset (order_heap m) - mset ocs" by auto
    moreover have "slots_upto (order_chunks_n m) xs = Some (map Some ocs)"
      using assms Some by (auto simp: pool_chunks_def intro: chunk_table_slots)
    ultimately show thesis using that[of hp] Some by simp
  qed
  let ?m2 = "?m1\<lparr>order_heap := oh, order_chunks := None\<rparr>"
  obtain lh where lh: "mset lh = mset (level_heap m) - mset lcs"
    and run2: "(case level_chunks ?m2 of None \<Rightarrow> Some ?m2
          | Some xs \<Rightarrow> do {
              cs \<leftarrow> slots_upto (level_chunks_n ?m2) xs;
              m \<leftarrow> free_level_chunks cs ?m2;
              Some (m\<lparr>level_chunks := None\<rparr>)
            }) = Some (?m2\<lparr>level_heap := lh, level_chunks := None\<rparr>)"
  proof (cases "level_chunks m")
    case None
    then have "lcs = []" using assms chunk_table_None by (auto simp: pool_chunks_def)
    moreover have "?m2 = ?m2\<lparr>level_heap := level_heap m, level_chunks := None\<rparr>" using None by simp
    ultimately show thesis using that[of "level_heap m"] None by simp
  next
    case (Some xs)
    have sub: "mset lcs \<subseteq># mset (level_heap ?m2)" using assms by (simp add: pool_chunks_def)
    from free_level_chunks_law[OF sub] obtain hp where
      "free_level_chunks (map Some lcs) ?m2 = Some (?m2\<lparr>level_heap := hp\<rparr>)"
      "mset hp = mset (level_heap m) - mset lcs" by auto
    moreover have "slots_upto (level_chunks_n m) xs = Some (map Some lcs)"
      using assms Some by (auto simp: pool_chunks_def intro: chunk_table_slots)
    ultimately show thesis using that[of hp] Some by simp
  qed
  have "EngineDb_Destroy m = Some (EngineDb.extend zero_EngineDb
      (EngineDb.more (m\<lparr>order_heap := oh, level_heap := lh\<rparr>)))"
    unfolding EngineDb_Destroy_def Let_def run1 bind.bind_lunit run2
    by (cases m) (simp add: EngineDb.extend_def)
  with oh lh show ?thesis by blast
qed


text \<open>
  \<open>fresh_db m fs ls\<close>: an empty database whose pools hold the free rows \<open>fs\<close> and \<open>ls\<close>.
\<close>

definition fresh_db :: "'z machine_scheme \<Rightarrow> oref list \<Rightarrow> lref list \<Rightarrow> bool" where
  "fresh_db m fs ls \<longleftrightarrow>
     ind_order_buckets m = Some (\<lambda>_. None) \<and> ind_order_n m = 0 \<and>
     bids_root m = None \<and> bids_n m = 0 \<and> asks_root m = None \<and> asks_n m = 0 \<and>
     order_free_list m fs \<and> (\<forall>p \<in> set fs. p < order_brk m) \<and> order_pool_n m = 0 \<and>
     length fs = unat (order_pool_total_allocated m) \<and>
     level_free_list m ls \<and> (\<forall>p \<in> set ls. p < level_brk m) \<and> level_pool_n m = 0 \<and>
     length ls = unat (level_pool_total_allocated m)"

lemma Init_law:
  assumes ch: "pool_chunks m ocs lcs" and ok: "\<forall>i. alloc_ok m i"
  shows "\<exists>m' fs ls. EngineDb_Init m = Some m' \<and> fresh_db m' fs ls \<and>
    order_pool_total_allocated m' = ORDER_CHUNK_SIZE \<and> level_pool_total_allocated m' = LEVEL_CHUNK_SIZE \<and>
    pool_chunks m' [order_brk m] [level_brk m] \<and>
    unat (order_chunks_cap m') \<le> 16 \<and> unat (level_chunks_cap m') \<le> 16 \<and>
    alloc_ok m' = alloc_ok m \<and> machine.more m' = machine.more m"
proof -
  obtain oh lh where d: "EngineDb_Destroy m = Some (EngineDb.extend zero_EngineDb
      (EngineDb.more (m\<lparr>order_heap := oh, level_heap := lh\<rparr>)))" using Destroy_law[OF ch] by blast
  define m1 where "m1 = (EngineDb.extend zero_EngineDb
      (EngineDb.more (m\<lparr>order_heap := oh, level_heap := lh, alloc_calls := Suc (alloc_calls m)\<rparr>)))
      \<lparr>ind_order_buckets := Some (\<lambda>_. None)\<rparr>"
  have m1: "ind_order_buckets m1 = Some (\<lambda>_. None)" "ind_order_n m1 = 0" "bids_root m1 = None" "bids_n m1 = 0"
    "asks_root m1 = None" "asks_n m1 = 0" "order_pool_free m1 = None" "order_pool_n m1 = 0"
    "order_pool_total_allocated m1 = 0" "level_pool_free m1 = None" "level_pool_n m1 = 0"
    "level_pool_total_allocated m1 = 0" "order_chunks m1 = None" "order_chunks_n m1 = 0"
    "order_chunks_cap m1 = 0" "level_chunks m1 = None" "level_chunks_n m1 = 0" "level_chunks_cap m1 = 0"
    "order_brk m1 = order_brk m" "level_brk m1 = level_brk m" "alloc_ok m1 = alloc_ok m"
    "machine.more m1 = machine.more m"
    unfolding m1_def zero_EngineDb_def by (cases m; simp add: EngineDb.extend_def)+
  have "chunk_table (order_chunks m1) (order_chunks_n m1) (order_chunks_cap m1) []" "order_free_list m1 []"
    "\<forall>i. alloc_ok m1 i" "ORDER_CHUNK_SIZE \<noteq> 0"
    using ok by (simp_all add: m1 ORDER_CHUNK_SIZE_def)
  with order_ReserveMem_law[of m1 "[]" "[]" ORDER_CHUNK_SIZE] obtain h q arr cn cap k where
    r1: "EngineDb_order_pool_ReserveMem ORDER_CHUNK_SIZE m1 = Some (ORDER_CHUNK_SIZE,
      m1\<lparr>order_mem := h, order_pool_free := q, order_chunks := arr, order_chunks_n := cn,
        order_chunks_cap := cap, alloc_calls := k, order_brk := order_brk m1 + unat ORDER_CHUNK_SIZE,
        order_heap := order_brk m1 # order_heap m1,
        order_pool_total_allocated := order_pool_total_allocated m1 + ORDER_CHUNK_SIZE\<rparr>)"
    and q: "chain (ho_free h) q (rev [order_brk m1 ..< order_brk m1 + unat ORDER_CHUNK_SIZE] @ [])"
    and arr: "chunk_table arr cn cap ([] @ [order_brk m1])" "unat cap \<le> max 16 (2 * unat (order_chunks_cap m1))"
    by (auto simp: m1(15))
  define m2 where "m2 = m1\<lparr>order_mem := h, order_pool_free := q, order_chunks := arr, order_chunks_n := cn,
        order_chunks_cap := cap, alloc_calls := k, order_brk := order_brk m1 + unat ORDER_CHUNK_SIZE,
        order_heap := order_brk m1 # order_heap m1,
        order_pool_total_allocated := order_pool_total_allocated m1 + ORDER_CHUNK_SIZE\<rparr>"
  have "chunk_table (level_chunks m2) (level_chunks_n m2) (level_chunks_cap m2) []" "level_free_list m2 []"
    "\<forall>i. alloc_ok m2 i" "LEVEL_CHUNK_SIZE \<noteq> 0" "unat (level_chunks_cap m2) < 2 ^ 31"
    using ok by (simp_all add: m1 m2_def LEVEL_CHUNK_SIZE_def)
  with level_ReserveMem_law[of m2 "[]" "[]" LEVEL_CHUNK_SIZE] obtain h' q' arr' cn' cap' k' where
    r2: "EngineDb_level_pool_ReserveMem LEVEL_CHUNK_SIZE m2 = Some (LEVEL_CHUNK_SIZE,
      m2\<lparr>level_mem := h', level_pool_free := q', level_chunks := arr', level_chunks_n := cn',
        level_chunks_cap := cap', alloc_calls := k', level_brk := level_brk m2 + unat LEVEL_CHUNK_SIZE,
        level_heap := level_brk m2 # level_heap m2,
        level_pool_total_allocated := level_pool_total_allocated m2 + LEVEL_CHUNK_SIZE\<rparr>)"
    and q': "chain (hl_free h') q' (rev [level_brk m2 ..< level_brk m2 + unat LEVEL_CHUNK_SIZE] @ [])"
    and arr': "chunk_table arr' cn' cap' ([] @ [level_brk m2])" "unat cap' \<le> max 16 (2 * unat (level_chunks_cap m2))"
    by auto
  define m3 where "m3 = m2\<lparr>level_mem := h', level_pool_free := q', level_chunks := arr', level_chunks_n := cn',
        level_chunks_cap := cap', alloc_calls := k', level_brk := level_brk m2 + unat LEVEL_CHUNK_SIZE,
        level_heap := level_brk m2 # level_heap m2,
        level_pool_total_allocated := level_pool_total_allocated m2 + LEVEL_CHUNK_SIZE\<rparr>"
  have step: "alloc_call (EngineDb.extend zero_EngineDb
      (EngineDb.more (m\<lparr>order_heap := oh, level_heap := lh\<rparr>))) = (True, (EngineDb.extend zero_EngineDb
      (EngineDb.more (m\<lparr>order_heap := oh, level_heap := lh, alloc_calls := Suc (alloc_calls m)\<rparr>))))"
    using ok by (cases m) (simp add: alloc_call_def EngineDb.extend_def)
  have m3: "m3\<lparr>bids_root := None, bids_n := 0, asks_root := None, asks_n := 0, ind_order_n := 0\<rparr> = m3"
    by (simp add: m3_def m2_def m1)
  have "EngineDb_Init m = Some m3"
    using r1 r2 m3 unfolding EngineDb_Init_def d
    by (simp add: step Let_def flip: m1_def m2_def m3_def)
  moreover have "fresh_db m3 (rev [order_brk m1 ..< order_brk m1 + unat ORDER_CHUNK_SIZE])
      (rev [level_brk m2 ..< level_brk m2 + unat LEVEL_CHUNK_SIZE])"
    using q q' by (simp add: fresh_db_def m3_def m2_def m1)
  moreover have "pool_chunks m3 [order_brk m] [level_brk m]" "unat (order_chunks_cap m3) \<le> 16"
      "unat (level_chunks_cap m3) \<le> 16"
    using arr arr' by (simp_all add: pool_chunks_def m3_def m2_def m1)
  moreover have "order_pool_total_allocated m3 = ORDER_CHUNK_SIZE" "level_pool_total_allocated m3 = LEVEL_CHUNK_SIZE"
     "alloc_ok m3 = alloc_ok m" "machine.more m3 = machine.more m"
    by (simp_all add: m3_def m2_def m1)
  ultimately show ?thesis by blast
qed

end
