(* ===== verification/Hash_Index.thy ===== *)
theory Hash_Index
  imports Machine Linked
begin

unbundle bit_operations_syntax

text \<open>
  The order index \<^verbatim>\<open>ind_order\<close> of \<^verbatim>\<open>c/src/matching_engine_gen.c\<close> (lines 169-226): a
  hash table with one singly linked chain per bucket, threaded through
  \<^verbatim>\<open>ind_order_next\<close>.

  \<open>hash_rep\<close> relates the table to the set of orders it holds: every bucket's chain lists
  exactly the orders of the set that hash there.  The lemmas give the result of a lookup,
  an insertion and a removal on a table in that relation, and that they return at all.
\<close>

section \<open>The C functions\<close>

definition hash_order_id :: "u64 \<Rightarrow> u32" where
  "hash_order_id i = ucast (i AND (ORDER_HASH_BUCKETS - 1))"

text \<open>The walk along a bucket's chain in \<^verbatim>\<open>Find\<close>.\<close>

partial_function (option) ind_order_walk ::
  "'z machine_scheme \<Rightarrow> u64 \<Rightarrow> oref option \<Rightarrow> oref option option" where
  [code]: "ind_order_walk m i p =
     (case p of
        None \<Rightarrow> Some None
      | Some x \<Rightarrow> if o_id m x = i then Some (Some x) else ind_order_walk m i (o_hnext m x))"

definition EngineDb_ind_order_Find :: "'z machine_scheme \<Rightarrow> u64 \<Rightarrow> oref option option" where
  "EngineDb_ind_order_Find m i = do {
     buckets \<leftarrow> ind_order_buckets m;
     ind_order_walk m i (buckets (hash_order_id i))
   }"

definition EngineDb_ind_order_InsertMaybe ::
  "oref option \<Rightarrow> 'z machine_scheme \<Rightarrow> (bool \<times> 'z machine_scheme) option" where
  "EngineDb_ind_order_InsertMaybe row m =
     (case row of
        None \<Rightarrow> Some (False, m)
      | Some r \<Rightarrow>
          if o_inhash m r then Some (False, m)
          else do {
            found \<leftarrow> EngineDb_ind_order_Find m (o_id m r);
            if found \<noteq> None then Some (False, m)
            else do {
              let b = hash_order_id (o_id m r);
              buckets \<leftarrow> ind_order_buckets m;
              let m = set_o_hnext r (buckets b) m;
              let m = m\<lparr>ind_order_buckets := Some (buckets(b := Some r))\<rparr>;
              let m = set_o_inhash r True m;
              Some (True, m\<lparr>ind_order_n := ind_order_n m + 1\<rparr>)
            }
          })"

text \<open>
  The search-and-unlink loop of \<^verbatim>\<open>Remove\<close>, with its two cursors \<^verbatim>\<open>cur\<close> and
  \<^verbatim>\<open>prev\<close>.
\<close>

partial_function (option) ind_order_unlink ::
  "u32 \<Rightarrow> oref \<Rightarrow> oref option \<Rightarrow> oref option \<Rightarrow> 'z machine_scheme \<Rightarrow> 'z machine_scheme option" where
  [code]: "ind_order_unlink b row cur prev m =
     (case cur of
        None \<Rightarrow> Some m
      | Some c \<Rightarrow>
          if c = row then do {
            m \<leftarrow> (case prev of
                   Some p \<Rightarrow> Some (set_o_hnext p (o_hnext m c) m)
                 | None \<Rightarrow> do {
                     buckets \<leftarrow> ind_order_buckets m;
                     Some (m\<lparr>ind_order_buckets := Some (buckets(b := o_hnext m c))\<rparr>)
                   });
            let m = set_o_hnext c None m;
            let m = set_o_inhash c False m;
            Some (m\<lparr>ind_order_n := ind_order_n m - 1\<rparr>)
          }
          else ind_order_unlink b row (o_hnext m c) (Some c) m)"

definition EngineDb_ind_order_Remove :: "oref option \<Rightarrow> 'z machine_scheme \<Rightarrow> 'z machine_scheme option" where
  "EngineDb_ind_order_Remove row m =
     (case row of
        None \<Rightarrow> Some m
      | Some r \<Rightarrow>
          if \<not> o_inhash m r then Some m
          else do {
            let b = hash_order_id (o_id m r);
            buckets \<leftarrow> ind_order_buckets m;
            ind_order_unlink b r (buckets b) None m
          })"

definition EngineDb_ind_order_N :: "'z machine_scheme \<Rightarrow> u32" where
  "EngineDb_ind_order_N m = ind_order_n m"

section \<open>The table and the set it holds\<close>

lemma ind_order_walk_simps [simp]:
  "ind_order_walk m i None = Some None"
  "ind_order_walk m i (Some x) =
     (if o_id m x = i then Some (Some x) else ind_order_walk m i (o_hnext m x))"
  by (subst ind_order_walk.simps; simp)+

definition hash_rep :: "'z machine_scheme \<Rightarrow> oref set \<Rightarrow> bool" where
  "hash_rep m S \<longleftrightarrow> finite S \<and> inj_on (o_id m) S \<and> (\<forall>x \<in> S. o_inhash m x) \<and>
     ind_order_n m = of_nat (card S) \<and>
     (\<exists>B. ind_order_buckets m = Some B \<and>
       (\<forall>b. \<exists>xs. chain (o_hnext m) (B b) xs \<and> set xs = {x \<in> S. hash_order_id (o_id m x) = b}))"

text \<open>
  \<open>hash_step A m m'\<close>: the two states differ at most in the table, its count, and the hash
  links of the orders in \<open>A\<close>.
\<close>

definition hash_step :: "oref set \<Rightarrow> 'z machine_scheme \<Rightarrow> 'z machine_scheme \<Rightarrow> bool" where
  "hash_step A m m' \<longleftrightarrow>
     mem_only (m\<lparr>ind_order_buckets := ind_order_buckets m', ind_order_n := ind_order_n m'\<rparr>) m' \<and>
     level_mem m' = level_mem m \<and> row_at m' = row_at m \<and> o_rem m' = o_rem m \<and> o_id m' = o_id m \<and>
     o_next m' = o_next m \<and> o_prev m' = o_prev m \<and> o_inlist m' = o_inlist m \<and>
     o_level m' = o_level m \<and> o_free m' = o_free m \<and>
     (\<forall>x. x \<notin> A \<longrightarrow> o_hnext m' x = o_hnext m x \<and> o_inhash m' x = o_inhash m x)"

text \<open>The bucket index never leaves the array.\<close>

lemma hash_order_id_bound: "unat (hash_order_id i) < unat ORDER_HASH_BUCKETS"
proof -
  have "i AND (ORDER_HASH_BUCKETS - 1) \<le> ORDER_HASH_BUCKETS - 1" by (rule word_and_le1)
  then have "unat (i AND (ORDER_HASH_BUCKETS - 1)) \<le> 8388607"
    by (simp add: ORDER_HASH_BUCKETS_def word_le_nat_alt)
  moreover have "unat (hash_order_id i) = unat (i AND (ORDER_HASH_BUCKETS - 1)) mod 2 ^ 32"
    by (simp add: hash_order_id_def unsigned_ucast_eq take_bit_eq_mod)
  ultimately show ?thesis by (simp add: ORDER_HASH_BUCKETS_def)
qed

section \<open>Lookup\<close>

lemma walk_eq: "chain (o_hnext m) p xs \<Longrightarrow> ind_order_walk m i p = Some (find (\<lambda>x. o_id m x = i) xs)"
  by (induction xs arbitrary: p) auto

lemma ind_order_Find_hit:
  assumes "hash_rep m S" and "x \<in> S" and "o_id m x = i"
  shows "EngineDb_ind_order_Find m i = Some (Some x)"
proof -
  obtain B xs where B: "ind_order_buckets m = Some B" and c: "chain (o_hnext m) (B (hash_order_id i)) xs"
    and xs: "set xs = {x \<in> S. hash_order_id (o_id m x) = hash_order_id i}"
    using assms(1) unfolding hash_rep_def by blast
  have "x \<in> set xs" using xs assms by auto
  moreover have "y = x" if "y \<in> set xs" "o_id m y = i" for y
    using that xs assms by (auto simp: hash_rep_def inj_on_def)
  ultimately have "find (\<lambda>x. o_id m x = i) xs = Some x"
    using assms(3) by (intro find_unique)
  then show ?thesis by (simp add: EngineDb_ind_order_Find_def B walk_eq[OF c])
qed

lemma ind_order_Find_miss:
  assumes "hash_rep m S" and "\<And>x. x \<in> S \<Longrightarrow> o_id m x \<noteq> i"
  shows "EngineDb_ind_order_Find m i = Some None"
proof -
  obtain B xs where B: "ind_order_buckets m = Some B" and c: "chain (o_hnext m) (B (hash_order_id i)) xs"
    and xs: "set xs = {x \<in> S. hash_order_id (o_id m x) = hash_order_id i}"
    using assms(1) unfolding hash_rep_def by blast
  then have "find (\<lambda>x. o_id m x = i) xs = None" using assms(2) by (auto simp: find_None_iff)
  then show ?thesis by (simp add: EngineDb_ind_order_Find_def B walk_eq[OF c])
qed

section \<open>Insertion\<close>

theorem ind_order_InsertMaybe_law:
  assumes h: "hash_rep m S" and x: "x \<notin> S" "\<not> o_inhash m x"
  shows "\<exists>y \<in> S. o_id m y = o_id m x \<Longrightarrow> EngineDb_ind_order_InsertMaybe (Some x) m = Some (False, m)"
    and "\<forall>y \<in> S. o_id m y \<noteq> o_id m x \<Longrightarrow> \<exists>m'. EngineDb_ind_order_InsertMaybe (Some x) m = Some (True, m') \<and>
      hash_rep m' (insert x S) \<and> hash_step {x} m m'"
proof -
  show "EngineDb_ind_order_InsertMaybe (Some x) m = Some (False, m)" if "\<exists>y \<in> S. o_id m y = o_id m x"
    using that x by (auto simp: EngineDb_ind_order_InsertMaybe_def ind_order_Find_hit[OF h])
  assume new: "\<forall>y \<in> S. o_id m y \<noteq> o_id m x"
  let ?b = "hash_order_id (o_id m x)"
  obtain B where B: "ind_order_buckets m = Some B" and
    ch: "\<forall>b. \<exists>xs. chain (o_hnext m) (B b) xs \<and> set xs = {x \<in> S. hash_order_id (o_id m x) = b}"
    using h unfolding hash_rep_def by blast
  define m' where "m' = (set_o_inhash x True ((set_o_hnext x (B ?b) m)
      \<lparr>ind_order_buckets := Some (B(?b := Some x))\<rparr>))\<lparr>ind_order_n := ind_order_n m + 1\<rparr>"
  have run: "EngineDb_ind_order_InsertMaybe (Some x) m = Some (True, m')"
    using x new ind_order_Find_miss[OF h, of "o_id m x"]
    by (auto simp: EngineDb_ind_order_InsertMaybe_def B m'_def Let_def)
  have v: "o_hnext m' = (o_hnext m)(x := B ?b)" "o_inhash m' = (o_inhash m)(x := True)" "o_id m' = o_id m"
    "ind_order_buckets m' = Some (B(?b := Some x))" "ind_order_n m' = ind_order_n m + 1"
    by (simp_all add: m'_def)
  have "\<exists>xs. chain (o_hnext m') ((B(?b := Some x)) b) xs \<and>
      set xs = {y \<in> insert x S. hash_order_id (o_id m y) = b}" for b
  proof -
    obtain xs where xs: "chain (o_hnext m) (B b) xs" "set xs = {x \<in> S. hash_order_id (o_id m x) = b}"
      using ch by blast
    have nx: "x \<notin> set xs" using xs(2) x(1) by simp
    show ?thesis
    proof (cases "b = ?b")
      case True
      with xs nx have "chain (o_hnext m') ((B(?b := Some x)) b) (x # xs)" by (simp add: v)
      moreover have "set (x # xs) = {y \<in> insert x S. hash_order_id (o_id m y) = b}" using xs(2) True by auto
      ultimately show ?thesis by blast
    next
      case False
      with xs nx have "chain (o_hnext m') ((B(?b := Some x)) b) xs" by (simp add: v)
      moreover have "set xs = {y \<in> insert x S. hash_order_id (o_id m y) = b}" using xs(2) False by auto
      ultimately show ?thesis by blast
    qed
  qed
  then have "hash_rep m' (insert x S)"
    using h x new unfolding hash_rep_def v by (auto simp: inj_on_def)
  moreover have "hash_step {x} m m'"
  proof -
    have "mem_only (m\<lparr>ind_order_buckets := ind_order_buckets m', ind_order_n := ind_order_n m'\<rparr>) m'"
      unfolding mem_only_def
      by (rule exI[of _ "order_mem m'"], rule exI[of _ "level_mem m"]) (simp add: m'_def upd_order_def)
    then show ?thesis by (simp add: hash_step_def m'_def)
  qed
  ultimately show "\<exists>m'. EngineDb_ind_order_InsertMaybe (Some x) m = Some (True, m') \<and>
      hash_rep m' (insert x S) \<and> hash_step {x} m m'" using run by blast
qed

section \<open>Removal\<close>

lemma ind_order_unlink_simps [simp]:
  "ind_order_unlink b row None prev m = Some m"
  "c \<noteq> row \<Longrightarrow> ind_order_unlink b row (Some c) prev m = ind_order_unlink b row (o_hnext m c) (Some c) m"
  by (subst ind_order_unlink.simps; simp)+

lemma ind_order_unlink_hit:
  "ind_order_unlink b c (Some c) prev m = do {
     m \<leftarrow> (case prev of
            Some p \<Rightarrow> Some (set_o_hnext p (o_hnext m c) m)
          | None \<Rightarrow> do {
              buckets \<leftarrow> ind_order_buckets m;
              Some (m\<lparr>ind_order_buckets := Some (buckets(b := o_hnext m c))\<rparr>)
            });
     let m = set_o_hnext c None m;
     let m = set_o_inhash c False m;
     Some (m\<lparr>ind_order_n := ind_order_n m - 1\<rparr>)
   }"
  by (subst ind_order_unlink.simps) simp

text \<open>Walking to the node: the cursors of the loop split the chain.\<close>

lemma ind_order_unlink_walk:
  "chain (o_hnext m) cur (mid @ x # suf) \<Longrightarrow> x \<notin> set mid \<Longrightarrow>
   ind_order_unlink b x cur prev m =
   ind_order_unlink b x (Some x) (if mid = [] then prev else Some (last mid)) m"
  by (induction mid arbitrary: cur prev) auto

theorem ind_order_Remove_law:
  assumes h: "hash_rep m S" and x: "x \<in> S"
  shows "\<exists>m'. EngineDb_ind_order_Remove (Some x) m = Some m' \<and> hash_rep m' (S - {x}) \<and>
    hash_step S m m' \<and> \<not> o_inhash m' x"
proof -
  let ?b = "hash_order_id (o_id m x)"
  obtain B where B: "ind_order_buckets m = Some B" and
    ch: "\<forall>b. \<exists>xs. chain (o_hnext m) (B b) xs \<and> set xs = {x \<in> S. hash_order_id (o_id m x) = b}"
    using h unfolding hash_rep_def by blast
  obtain zs where zs: "chain (o_hnext m) (B ?b) zs" "set zs = {y \<in> S. hash_order_id (o_id m y) = ?b}"
    using ch by blast
  then obtain as bs where z: "zs = as @ x # bs" "x \<notin> set as"
    using x split_list_first[of x zs] by auto
  have dz: "distinct zs" using zs(1) by (rule chain_distinct)
  define prev where "prev = (if as = [] then None else Some (last as))"
  define m1 where "m1 = (case prev of Some p \<Rightarrow> set_o_hnext p (o_hnext m x) m
      | None \<Rightarrow> m\<lparr>ind_order_buckets := Some (B(?b := o_hnext m x))\<rparr>)"
  define m' where "m' = (set_o_inhash x False (set_o_hnext x None m1))\<lparr>ind_order_n := ind_order_n m - 1\<rparr>"
  have run: "EngineDb_ind_order_Remove (Some x) m = Some m'"
  proof -
    have "ind_order_unlink ?b x (B ?b) None m = ind_order_unlink ?b x (Some x) prev m"
      using ind_order_unlink_walk[of m "B ?b" as x bs] zs(1) z by (simp add: prev_def)
    then show ?thesis
      using h x by (cases prev)
        (auto simp: EngineDb_ind_order_Remove_def B ind_order_unlink_hit m'_def m1_def hash_rep_def Let_def)
  qed
  have v: "o_id m' = o_id m" "o_inhash m' = (o_inhash m)(x := False)" "ind_order_n m' = ind_order_n m - 1"
    "o_hnext m' = (case prev of None \<Rightarrow> o_hnext m | Some p \<Rightarrow> (o_hnext m)(p := o_hnext m x))(x := None)"
    "ind_order_buckets m' = Some (if prev = None then B(?b := o_hnext m x) else B)"
    by (cases prev; simp add: m'_def m1_def B)+
  have here: "chain (o_hnext m') ((if prev = None then B(?b := o_hnext m x) else B) ?b) (as @ bs)"
  proof (cases as rule: rev_cases)
    case Nil
    with zs(1) z dz show ?thesis by (simp add: v prev_def)
  next
    case (snoc ys y)
    with zs(1) z have "chain (o_hnext m) (B ?b) (ys @ y # x # bs)" by simp
    moreover have "\<And>w. w \<noteq> x \<Longrightarrow> o_hnext m' w = ((o_hnext m)(y := o_hnext m x)) w"
      using snoc by (simp add: v prev_def)
    ultimately have "chain (o_hnext m') (B ?b) (ys @ y # bs)" by (rule chain_unlink)
    with snoc show ?thesis by (simp add: prev_def)
  qed
  have pS: "p \<in> set zs" if "prev = Some p" for p using that z by (auto simp: prev_def split: if_splits)
  have there: "chain (o_hnext m') ((if prev = None then B(?b := o_hnext m x) else B) b) xs"
    if "b \<noteq> ?b" "chain (o_hnext m) (B b) xs" "set xs = {y \<in> S. hash_order_id (o_id m y) = b}" for b xs
    using that pS zs(2) by (subst chain_cong[where nx = "o_hnext m"]) (auto simp: v split: option.splits)
  have "\<exists>xs. chain (o_hnext m') ((if prev = None then B(?b := o_hnext m x) else B) b) xs \<and>
      set xs = {y \<in> S - {x}. hash_order_id (o_id m y) = b}" for b
  proof (cases "b = ?b")
    case True
    moreover have "set (as @ bs) = set zs - {x}" using z dz by auto
    ultimately show ?thesis using here zs(2) by (intro exI[of _ "as @ bs"]) auto
  next
    case False
    then show ?thesis using ch there by fastforce
  qed
  moreover have "ind_order_n m' = of_nat (card (S - {x}))"
  proof -
    have "0 < card S" using h x by (auto simp: hash_rep_def card_gt_0_iff)
    then have "(of_nat (card S) :: u32) - 1 = of_nat (card S - 1)" by (simp add: of_nat_diff)
    with h x show ?thesis by (simp add: v hash_rep_def)
  qed
  ultimately have "hash_rep m' (S - {x})"
    using h unfolding hash_rep_def v by (auto simp: inj_on_def)
  moreover have "hash_step S m m'"
  proof -
    have "mem_only (m\<lparr>ind_order_buckets := ind_order_buckets m', ind_order_n := ind_order_n m'\<rparr>) m'"
      unfolding mem_only_def
      by (rule exI[of _ "order_mem m'"], rule exI[of _ "level_mem m"])
         (cases prev; simp add: m'_def m1_def upd_order_def)
    moreover have "o_hnext m' y = o_hnext m y" if "y \<notin> S" for y
      using that x pS zs(2) by (auto simp: v split: option.splits)
    ultimately show ?thesis using x
      by (cases prev) (auto simp: hash_step_def m'_def m1_def)
  qed
  ultimately show ?thesis using run v(2) by auto
qed

end
