(* ===== verification/Order_Queue.thy ===== *)
theory Order_Queue
  imports Machine Linked
begin

text \<open>
  The FIFO queue of orders of one price level, \<^verbatim>\<open>PriceLevel_orders_*\<close> of
  \<^verbatim>\<open>c/src/matching_engine_gen.c\<close> (lines 231-290): an intrusive doubly linked list with
  head, tail, a 32-bit count and the 64-bit aggregate \<^verbatim>\<open>total_qty\<close>.
\<close>

section \<open>The C functions\<close>

definition PriceLevel_orders_Init :: "lref option \<Rightarrow> 'z machine_scheme \<Rightarrow> 'z machine_scheme" where
  "PriceLevel_orders_Init level m =
     (case level of
        None \<Rightarrow> m
      | Some l \<Rightarrow>
          let m = set_l_head l None m;
              m = set_l_tail l None m;
              m = set_l_n l 0 m
          in set_l_total l 0 m)"

definition PriceLevel_orders_InsertTail ::
  "lref option \<Rightarrow> oref option \<Rightarrow> 'z machine_scheme \<Rightarrow> 'z machine_scheme" where
  "PriceLevel_orders_InsertTail level row m =
     (case (level, row) of
        (Some l, Some r) \<Rightarrow>
          if o_inlist m r then m
          else
            let m = set_o_next r None m;
                m = set_o_prev r (l_tail m l) m;
                m = set_o_level r (Some l) m;
                m = (case l_tail m l of
                       Some t \<Rightarrow> set_o_next t (Some r) m
                     | None \<Rightarrow> set_l_head l (Some r) m);
                m = set_l_tail l (Some r) m;
                m = set_o_inlist r True m;
                m = set_l_n l (l_n m l + 1) m
            in set_l_total l (l_total m l + o_rem m r) m
      | _ \<Rightarrow> m)"

definition PriceLevel_orders_Remove ::
  "lref option \<Rightarrow> oref option \<Rightarrow> 'z machine_scheme \<Rightarrow> 'z machine_scheme" where
  "PriceLevel_orders_Remove level row m =
     (case (level, row) of
        (Some l, Some r) \<Rightarrow>
          if \<not> o_inlist m r then m
          else
            let m = (case o_prev m r of
                       Some p \<Rightarrow> set_o_next p (o_next m r) m
                     | None \<Rightarrow> set_l_head l (o_next m r) m);
                m = (case o_next m r of
                       Some n \<Rightarrow> set_o_prev n (o_prev m r) m
                     | None \<Rightarrow> set_l_tail l (o_prev m r) m);
                m = set_o_next r None m;
                m = set_o_prev r None m;
                m = set_o_inlist r False m;
                m = set_o_level r None m;
                m = (if l_n m l > 0 then set_l_n l (l_n m l - 1) m else m)
            in if l_total m l \<ge> o_rem m r
               then set_l_total l (l_total m l - o_rem m r) m
               else set_l_total l 0 m
      | _ \<Rightarrow> m)"

definition PriceLevel_orders_First :: "'z machine_scheme \<Rightarrow> lref option \<Rightarrow> oref option" where
  "PriceLevel_orders_First m level = (case level of None \<Rightarrow> None | Some l \<Rightarrow> l_head m l)"

definition PriceLevel_orders_Next :: "'z machine_scheme \<Rightarrow> oref option \<Rightarrow> oref option" where
  "PriceLevel_orders_Next m row = (case row of None \<Rightarrow> None | Some r \<Rightarrow> o_next m r)"

section \<open>Queues and the lists they hold\<close>

text \<open>
  \<open>order_queue m l xs\<close>: the links of level \<open>l\<close> are a well-formed queue of the orders \<open>xs\<close>.
  \<open>queue_total m l xs\<close>: its aggregate is the exact sum of the remaining quantities, which
  says in particular that the sum fits in 64 bits.
\<close>

definition order_queue :: "'z machine_scheme \<Rightarrow> lref \<Rightarrow> oref list \<Rightarrow> bool" where
  "order_queue m l xs \<longleftrightarrow>
     dll (o_next m) (o_prev m) (l_head m l) None xs (l_tail m l) None \<and>
     (\<forall>x \<in> set xs. o_inlist m x \<and> o_level m x = Some l) \<and>
     l_n m l = of_nat (length xs)"

definition queue_total :: "'z machine_scheme \<Rightarrow> lref \<Rightarrow> oref list \<Rightarrow> bool" where
  "queue_total m l xs \<longleftrightarrow> unat (l_total m l) = sum_list (map (\<lambda>x. unat (o_rem m x)) xs)"

text \<open>
  \<open>queue_step l A m m'\<close>: the two states differ at most in the queue links of the orders in
  \<open>A\<close> and in the queue fields of level \<open>l\<close>.
\<close>

definition queue_step :: "lref \<Rightarrow> oref set \<Rightarrow> 'z machine_scheme \<Rightarrow> 'z machine_scheme \<Rightarrow> bool" where
  "queue_step l A m m' \<longleftrightarrow>
     mem_only m m' \<and>
     row_at m' = row_at m \<and> o_rem m' = o_rem m \<and> o_id m' = o_id m \<and>
     o_hnext m' = o_hnext m \<and> o_inhash m' = o_inhash m \<and> o_free m' = o_free m \<and>
     l_price m' = l_price m \<and> l_left m' = l_left m \<and> l_right m' = l_right m \<and>
     l_parent m' = l_parent m \<and> l_intree m' = l_intree m \<and> l_free m' = l_free m \<and>
     (\<forall>x. x \<notin> A \<longrightarrow> o_next m' x = o_next m x \<and> o_prev m' x = o_prev m x \<and>
         o_inlist m' x = o_inlist m x \<and> o_level m' x = o_level m x) \<and>
     (\<forall>k. k \<noteq> l \<longrightarrow> l_head m' k = l_head m k \<and> l_tail m' k = l_tail m k \<and>
         l_n m' k = l_n m k \<and> l_total m' k = l_total m k)"

lemma queue_step_other:
  assumes "queue_step l A m m'" and "k \<noteq> l" and "A \<inter> set ys = {}"
  shows "order_queue m' k ys \<longleftrightarrow> order_queue m k ys" and "queue_total m' k ys \<longleftrightarrow> queue_total m k ys"
proof -
  have same: "o_next m' x = o_next m x" "o_prev m' x = o_prev m x" "o_inlist m' x = o_inlist m x"
    "o_level m' x = o_level m x" if "x \<in> set ys" for x
    using assms(1,3) that by (auto simp: queue_step_def)
  have "dll (o_next m') (o_prev m') (l_head m' k) None ys (l_tail m' k) None
      = dll (o_next m) (o_prev m) (l_head m k) None ys (l_tail m k) None"
    using same assms(1,2) by (subst dll_cong[of ys "o_next m'" "o_next m" "o_prev m'" "o_prev m"])
      (auto simp: queue_step_def)
  then show "order_queue m' k ys \<longleftrightarrow> order_queue m k ys"
    using assms(1,2) same by (auto simp: order_queue_def queue_step_def)
  show "queue_total m' k ys \<longleftrightarrow> queue_total m k ys"
    using assms(1,2) by (simp add: queue_total_def queue_step_def)
qed

lemma order_queue_distinct: "order_queue m l xs \<Longrightarrow> distinct xs"
  by (auto simp: order_queue_def dest: dll_distinct)

lemma orders_First_law:
  "order_queue m l xs \<Longrightarrow> PriceLevel_orders_First m (Some l) = (case xs of [] \<Rightarrow> None | x # _ \<Rightarrow> Some x)"
  by (auto simp: order_queue_def PriceLevel_orders_First_def dest: dll_first)

lemma orders_Next_law:
  assumes "order_queue m l (as @ x # bs)"
  shows "PriceLevel_orders_Next m (Some x) = (case bs of [] \<Rightarrow> None | y # _ \<Rightarrow> Some y)"
proof -
  have "o_next m x = (case bs of [] \<Rightarrow> None | y # _ \<Rightarrow> Some y)"
    using assms by (cases bs) (auto simp: order_queue_def dll_append)
  then show ?thesis by (simp add: PriceLevel_orders_Next_def)
qed

section \<open>Insertion\<close>

theorem orders_InsertTail_law:
  assumes q: "order_queue m l xs" and r: "\<not> o_inlist m r" "r \<notin> set xs"
    and m': "m' = PriceLevel_orders_InsertTail (Some l) (Some r) m"
  shows "order_queue m' l (xs @ [r])"
    and "queue_total m l xs \<Longrightarrow> sum_list (map (\<lambda>x. unat (o_rem m x)) (xs @ [r])) < 2 ^ 64 \<Longrightarrow>
         queue_total m' l (xs @ [r])"
    and "queue_step l (insert r (set xs)) m m'"
proof -
  have d: "dll (o_next m) (o_prev m) (l_head m l) None xs (l_tail m l) None"
    using q by (simp add: order_queue_def)
  have nt: "l_n m' l = l_n m l + 1" "l_total m' l = l_total m l + o_rem m r" "o_rem m' = o_rem m"
    "o_inlist m' = (o_inlist m)(r := True)" "o_level m' = (o_level m)(r := Some l)"
    using r by (simp_all add: m' PriceLevel_orders_InsertTail_def Let_def split: option.splits)
  have links: "dll (o_next m') (o_prev m') (l_head m' l) None (xs @ [r]) (l_tail m' l) None"
  proof (cases xs rule: rev_cases)
    case Nil
    with d r show ?thesis by (simp add: m' PriceLevel_orders_InsertTail_def Let_def)
  next
    case (snoc ys t)
    with d have t: "l_tail m l = Some t" by (simp add: dll_snoc)
    with d snoc r have "o_next m' = (o_next m)(r := None, t := Some r)" "o_prev m' = (o_prev m)(r := Some t)"
      "l_head m' l = l_head m l" "l_tail m' l = Some r"
      by (auto simp: m' PriceLevel_orders_InsertTail_def Let_def)
    with dll_insert_tail[of "o_next m" "o_prev m" "l_head m l" ys t r] d t snoc r(2)
    show ?thesis by simp
  qed
  with q nt show "order_queue m' l (xs @ [r])" by (auto simp: order_queue_def)
  show "queue_total m' l (xs @ [r])" if "queue_total m l xs"
      "sum_list (map (\<lambda>x. unat (o_rem m x)) (xs @ [r])) < 2 ^ 64"
    using that by (simp add: queue_total_def nt unat_word_ariths)
  have tl: "l_tail m l = Some t \<Longrightarrow> t \<in> set xs" for t
    using dll_last[OF d] by (auto split: if_splits)
  have "mem_only m m'"
    by (auto simp: m' PriceLevel_orders_InsertTail_def Let_def split: option.splits)
  then show "queue_step l (insert r (set xs)) m m'"
    unfolding queue_step_def using r tl
    by (auto simp: m' PriceLevel_orders_InsertTail_def Let_def fun_eq_iff
        split: option.splits)
qed

section \<open>Removal\<close>

text \<open>The links after the two relinking steps of \<^verbatim>\<open>Remove\<close>, whatever the neighbours.\<close>

lemma orders_Remove_views:
  assumes "o_inlist m r"
    and "m' = PriceLevel_orders_Remove (Some l) (Some r) m"
  shows "o_next m' = (case o_prev m r of None \<Rightarrow> o_next m | Some p \<Rightarrow> (o_next m)(p := o_next m r))(r := None)"
    and "o_prev m r \<noteq> Some r \<Longrightarrow> o_next m r \<noteq> Some r \<Longrightarrow>
      o_prev m' = (case o_next m r of None \<Rightarrow> o_prev m | Some n \<Rightarrow> (o_prev m)(n := o_prev m r))(r := None)"
    and "l_head m' l = (case o_prev m r of None \<Rightarrow> o_next m r | Some p \<Rightarrow> l_head m l)"
    and "o_prev m r \<noteq> Some r \<Longrightarrow>
      l_tail m' l = (case o_next m r of None \<Rightarrow> o_prev m r | Some n \<Rightarrow> l_tail m l)"
    and "l_n m' l = (if l_n m l > 0 then l_n m l - 1 else l_n m l)"
    and "l_total m' l = (if l_total m l \<ge> o_rem m r then l_total m l - o_rem m r else 0)"
    and "o_inlist m' = (o_inlist m)(r := False)" and "o_level m' = (o_level m)(r := None)"
    and "o_rem m' = o_rem m"
  using assms by (simp_all add: PriceLevel_orders_Remove_def Let_def split: option.splits)

theorem orders_Remove_law:
  assumes q: "order_queue m l (as @ r # bs)" and small: "length (as @ r # bs) < 2 ^ 32"
    and m': "m' = PriceLevel_orders_Remove (Some l) (Some r) m"
  shows "order_queue m' l (as @ bs)"
    and "queue_total m l (as @ r # bs) \<Longrightarrow> queue_total m' l (as @ bs)"
    and "queue_step l (set (as @ r # bs)) m m'" and "\<not> o_inlist m' r"
proof -
  have d: "dll (o_next m) (o_prev m) (l_head m l) None (as @ r # bs) (l_tail m l) None"
    and inl: "o_inlist m r" using q by (auto simp: order_queue_def)
  note views = orders_Remove_views[OF inl m']
  have dist: "distinct (as @ r # bs)" using d by (rule dll_distinct)
  have nr: "o_next m r = (case bs of [] \<Rightarrow> None | y # _ \<Rightarrow> Some y)"
    using d by (cases bs) (auto simp: dll_append)
  have pr: "o_prev m r = (if as = [] then None else Some (last as))"
    using d by (cases as rule: rev_cases) (auto simp: dll_append dll_snoc)
  have self: "o_prev m r \<noteq> Some r" "o_next m r \<noteq> Some r"
    using dist by (auto simp: nr pr split: list.splits)
  note views = views(1,3,5-9) views(2)[OF self] views(4)[OF self(1)]
  have "dll (o_next m') (o_prev m') (l_head m' l) None (as @ bs) (l_tail m' l) None"
    using dll_unlink[OF d refl refl refl refl] unfolding views .
  moreover have "l_n m' l = of_nat (length (as @ bs))"
  proof -
    have "l_n m l = of_nat (Suc (length (as @ bs)))" using q by (simp add: order_queue_def)
    moreover have "(of_nat (Suc (length (as @ bs))) :: u32) \<noteq> 0"
      using small by (simp add: word_of_nat_eq_0_iff nat_dvd_not_less del: of_nat_Suc)
    ultimately show ?thesis by (simp add: views word_gt_0)
  qed
  moreover have "\<forall>x \<in> set (as @ bs). o_inlist m' x \<and> o_level m' x = Some l"
    using q dist by (auto simp: order_queue_def views)
  ultimately show "order_queue m' l (as @ bs)" by (simp add: order_queue_def)
  show "queue_total m' l (as @ bs)" if "queue_total m l (as @ r # bs)"
  proof -
    have "o_rem m r \<le> l_total m l" using that by (simp add: queue_total_def word_le_nat_alt)
    then have "unat (l_total m' l) = unat (l_total m l) - unat (o_rem m r)"
      by (simp add: views unat_sub)
    with that show ?thesis by (simp add: queue_total_def views)
  qed
  show "\<not> o_inlist m' r" by (simp add: views)
  have mem: "mem_only m m'"
    by (auto simp: m' PriceLevel_orders_Remove_def Let_def split: option.splits)
  have nb: "x \<in> set (as @ r # bs)" if "o_next m r = Some x \<or> o_prev m r = Some x" for x
    using that by (auto simp: nr pr split: list.splits if_splits)
  show "queue_step l (set (as @ r # bs)) m m'"
    unfolding queue_step_def using inl nb mem
    by (auto simp: m' PriceLevel_orders_Remove_def Let_def fun_eq_iff
        split: option.splits)
qed

end
