(* ===== verification/Linked_Tree.thy ===== *)
theory Linked_Tree
  imports Prelude "HOL-Library.Tree"
begin

text \<open>
  Binary trees in the heap, over the three field functions left, right and parent.
  \<open>tree_at\<close> relates a root pointer to the tree of its nodes.  The main lemma is
  \<open>tree_at_graft\<close>: redirecting the one pointer that leads to a node, and nothing else
  outside that node's subtree, replaces that subtree.
\<close>

primrec tree_at :: "(nat \<Rightarrow> nat option) \<Rightarrow> (nat \<Rightarrow> nat option) \<Rightarrow> (nat \<Rightarrow> nat option)
    \<Rightarrow> nat option \<Rightarrow> nat option \<Rightarrow> nat tree \<Rightarrow> bool" where
  "tree_at L R P p par Leaf \<longleftrightarrow> p = None"
| "tree_at L R P p par (Node l x r) \<longleftrightarrow>
     p = Some x \<and> P x = par \<and> tree_at L R P (L x) (Some x) l \<and> tree_at L R P (R x) (Some x) r"

lemma tree_at_None [simp]: "tree_at L R P None par t \<longleftrightarrow> t = Leaf"
  by (cases t) auto

lemma tree_at_Some: "tree_at L R P (Some x) par t \<longleftrightarrow>
    (\<exists>l r. t = Node l x r \<and> P x = par \<and> tree_at L R P (L x) (Some x) l \<and>
           tree_at L R P (R x) (Some x) r)"
  by (cases t) auto

lemma tree_at_root: "tree_at L R P p par t \<Longrightarrow> p = Some x \<Longrightarrow> x \<in> set_tree t"
  by (cases t) auto

lemma tree_at_cong:
  "(\<And>z. z \<in> set_tree t \<Longrightarrow> L' z = L z \<and> R' z = R z \<and> P' z = P z) \<Longrightarrow>
   tree_at L' R' P' p par t \<longleftrightarrow> tree_at L R P p par t"
  by (induction t arbitrary: p par) auto

lemma tree_at_upd [simp]:
  "z \<notin> set_tree t \<Longrightarrow> tree_at (L(z := v)) R P p par t \<longleftrightarrow> tree_at L R P p par t"
  "z \<notin> set_tree t \<Longrightarrow> tree_at L (R(z := v)) P p par t \<longleftrightarrow> tree_at L R P p par t"
  "z \<notin> set_tree t \<Longrightarrow> tree_at L R (P(z := v)) p par t \<longleftrightarrow> tree_at L R P p par t"
  by (rule tree_at_cong; auto)+

text \<open>Hanging a tree below another parent.\<close>

lemma tree_at_reparent:
  assumes "tree_at L R P p par t" and "distinct (inorder t)"
    and "\<And>z. z \<in> set_tree t \<Longrightarrow> L' z = L z \<and> R' z = R z \<and> P' z = (if p = Some z then par' else P z)"
  shows "tree_at L' R' P' p par' t"
proof (cases t)
  case (Node l x r)
  have "tree_at L' R' P' (L x) (Some x) l = tree_at L R P (L x) (Some x) l"
    using assms Node by (intro tree_at_cong) auto
  moreover have "tree_at L' R' P' (R x) (Some x) r = tree_at L R P (R x) (Some x) r"
    using assms Node by (intro tree_at_cong) auto
  moreover have "P' x = par'" "L' x = L x" "R' x = R x" using assms Node by auto
  ultimately show ?thesis using assms(1) Node by simp
qed (use assms in simp)

section \<open>Replacing a subtree\<close>

text \<open>The subtree rooted at \<open>x\<close>, and the tree with another in its place.\<close>

fun sub_at :: "'a \<Rightarrow> 'a tree \<Rightarrow> 'a tree" where
  "sub_at x Leaf = Leaf"
| "sub_at x (Node l y r) =
     (if x = y then Node l y r else if x \<in> set_tree l then sub_at x l else sub_at x r)"

fun graft :: "'a \<Rightarrow> 'a tree \<Rightarrow> 'a tree \<Rightarrow> 'a tree" where
  "graft x s Leaf = Leaf"
| "graft x s (Node l y r) =
     (if x = y then s
      else if x \<in> set_tree l then Node (graft x s l) y r else Node l y (graft x s r))"

lemma set_sub_at: "set_tree (sub_at x t) \<subseteq> set_tree t"
  by (induction t) auto

lemma sub_at_root: "x \<in> set_tree t \<Longrightarrow> \<exists>l r. sub_at x t = Node l x r"
  by (induction t) auto

lemma in_sub_at: "x \<in> set_tree t \<Longrightarrow> x \<in> set_tree (sub_at x t)"
  using sub_at_root[of x t] by auto

lemma inorder_graft:
  "x \<in> set_tree t \<Longrightarrow>
   \<exists>as bs. inorder t = as @ inorder (sub_at x t) @ bs \<and>
           (\<forall>s. inorder (graft x s t) = as @ inorder s @ bs)"
proof (induction t)
  case (Node l y r)
  show ?case
  proof (cases "x = y")
    case True
    then show ?thesis by (intro exI[of _ "[]"]) simp
  next
    case False
    show ?thesis
    proof (cases "x \<in> set_tree l")
      case True
      with Node.IH(1) obtain as bs where
        "inorder l = as @ inorder (sub_at x l) @ bs"
        "\<forall>s. inorder (graft x s l) = as @ inorder s @ bs" by blast
      with True False show ?thesis
        by (intro exI[of _ as] exI[of _ "bs @ y # inorder r"]) simp
    next
      case F: False
      with False Node.prems have "x \<in> set_tree r" by simp
      with Node.IH(2) obtain as bs where
        "inorder r = as @ inorder (sub_at x r) @ bs"
        "\<forall>s. inorder (graft x s r) = as @ inorder s @ bs" by blast
      with F False show ?thesis
        by (intro exI[of _ "inorder l @ y # as"] exI[of _ bs]) simp
    qed
  qed
qed simp

lemma distinct_sub_at: "distinct (inorder t) \<Longrightarrow> distinct (inorder (sub_at x t))"
  by (induction t) auto

text \<open>Taking \<open>x\<close> out of its subtree takes it out of the tree.\<close>

lemma inorder_graft_remove:
  assumes "x \<in> set_tree t" and "distinct (inorder t)"
    and "inorder (sub_at x t) = is @ x # js" and "inorder s = is @ js"
  shows "inorder (graft x s t) = remove1 x (inorder t)"
proof -
  obtain as bs where a: "inorder t = as @ inorder (sub_at x t) @ bs"
    and b: "inorder (graft x s t) = as @ inorder s @ bs"
    using inorder_graft[OF assms(1)] by blast
  with assms have "x \<notin> set as" "x \<notin> set is" by auto
  with a b assms(3,4) show ?thesis by (simp add: remove1_append)
qed

text \<open>Where the parent of a node that is not the root lies.\<close>

lemma tree_at_parent:
  "tree_at L R P p par t \<Longrightarrow> distinct (inorder t) \<Longrightarrow> x \<in> set_tree t \<Longrightarrow> p \<noteq> Some x \<Longrightarrow>
   \<exists>q. P x = Some q \<and> q \<in> set_tree t \<and> q \<notin> set_tree (sub_at x t) \<and>
       tree_at L R P (Some x) (Some q) (sub_at x t) \<and> (L q = Some x \<or> R q = Some x)"
proof (induction t arbitrary: p par)
  case (Node l y r)
  from Node.prems have y: "p = Some y" "x \<noteq> y" by auto
  show ?case
  proof (cases "x \<in> set_tree l")
    case True
    have l: "tree_at L R P (L y) (Some y) l" "distinct (inorder l)" "y \<notin> set_tree l"
      using Node.prems by auto
    show ?thesis
    proof (cases "L y = Some x")
      case True': True
      with l True have "sub_at x l = l" by (cases l) auto
      with l True True' y show ?thesis by (auto simp: tree_at_Some)
    next
      case False
      with Node.IH(1)[OF l(1,2) True] True y show ?thesis by auto
    qed
  next
    case F: False
    with Node.prems y have xr: "x \<in> set_tree r" by auto
    have r: "tree_at L R P (R y) (Some y) r" "distinct (inorder r)" "y \<notin> set_tree r"
      using Node.prems by auto
    show ?thesis
    proof (cases "R y = Some x")
      case True
      with r xr have "sub_at x r = r" by (cases r) auto
      with r True F xr y show ?thesis by (auto simp: tree_at_Some)
    next
      case False
      with Node.IH(2)[OF r(1,2) xr] F y show ?thesis by auto
    qed
  qed
qed simp

text \<open>The parent of a node of a subtree is in that subtree or just above it.\<close>

lemma tree_at_parent_in:
  assumes "tree_at L R P p par t" "distinct (inorder t)" "x \<in> set_tree t" "P x = Some z"
    and "par \<noteq> Some z \<or> p \<noteq> Some x"
  shows "z \<in> set_tree t"
proof (cases "p = Some x")
  case True
  with assms show ?thesis by (auto simp: tree_at_Some)
next
  case False
  with tree_at_parent[OF assms(1-3)] assms(4) show ?thesis by auto
qed

text \<open>
  One level of the induction: in the child \<open>t\<close> of \<open>y\<close> that holds \<open>x\<close>, the pointer that is
  redirected is the one in \<open>y\<close> (then all of \<open>t\<close> is replaced) or one inside \<open>t\<close>.
\<close>

lemma tree_at_graft_child:
  assumes t: "tree_at L R P p (Some y) t" "distinct (inorder t)" "x \<in> set_tree t" "y \<notin> set_tree t"
    and s: "tree_at L' R' P' c (P x) s"
    and IH: "p \<noteq> Some x \<Longrightarrow> tree_at L' R' P' p (Some y) (graft x s t)"
    and p': "p' = (if P x = Some y then c else p)"
  shows "tree_at L' R' P' p' (Some y) (graft x s t)"
proof (cases "p = Some x")
  case True
  with t obtain a b where "t = Node a x b" "P x = Some y" by (auto simp: tree_at_Some)
  with p' s show ?thesis by simp
next
  case False
  with tree_at_parent_in[OF t(1-3)] t(4) have "P x \<noteq> Some y" by blast
  with p' IH[OF False] show ?thesis by simp
qed

lemma tree_at_graft:
  "tree_at L R P p par t \<Longrightarrow> distinct (inorder t) \<Longrightarrow> x \<in> set_tree t \<Longrightarrow> p \<noteq> Some x \<Longrightarrow>
   (\<And>z. z \<in> set_tree t \<Longrightarrow> z \<notin> set_tree (sub_at x t) \<Longrightarrow>
      P' z = (if p = Some z then par' else P z) \<and>
      L' z = (if P x = Some z \<and> L z = Some x then c else L z) \<and>
      R' z = (if P x = Some z \<and> L z \<noteq> Some x then c else R z)) \<Longrightarrow>
   tree_at L' R' P' c (P x) s \<Longrightarrow> tree_at L' R' P' p par' (graft x s t)"
proof (induction t arbitrary: p par par')
  case (Node l y r)
  from Node.prems have y: "p = Some y" "x \<noteq> y" by auto
  have l: "tree_at L R P (L y) (Some y) l" "distinct (inorder l)"
    and r: "tree_at L R P (R y) (Some y) r" "distinct (inorder r)"
    and d: "y \<notin> set_tree l" "y \<notin> set_tree r" "set_tree l \<inter> set_tree r = {}"
    using Node.prems(1,2) by auto
  have top: "L y = Some x \<longleftrightarrow> x \<in> set_tree l \<and> P x = Some y"
    using tree_at_root[OF l(1)] tree_at_parent_in[OF l] d l(1) by (fastforce simp: tree_at_Some)
  show ?case
  proof (cases "x \<in> set_tree l")
    case True
    then have sub: "sub_at x (Node l y r) = sub_at x l" using y by simp
    then have out: "y \<notin> set_tree (sub_at x (Node l y r))"
        "\<And>z. z \<in> set_tree r \<Longrightarrow> z \<notin> set_tree (sub_at x (Node l y r))"
      using set_sub_at[of x l] d by auto
    have atr: "P x \<noteq> Some z" if "z \<in> set_tree r" for z
      using tree_at_parent_in[OF l True, of z] d that by auto
    have "tree_at L' R' P' (R y) (Some y) r \<longleftrightarrow> tree_at L R P (R y) (Some y) r"
      using Node.prems(5) out(2) atr d y by (intro tree_at_cong) auto
    moreover have "tree_at L' R' P' (L' y) (Some y) (graft x s l)"
    proof (rule tree_at_graft_child[OF l True d(1) Node.prems(6)])
      assume "L y \<noteq> Some x"
      then show "tree_at L' R' P' (L y) (Some y) (graft x s l)"
        using Node.prems(5,6) y d sub l(1)
        by (intro Node.IH(1)[OF l True]) (auto simp: tree_at_Some)
    qed (use Node.prems(5)[of y] out(1) top True in auto)
    ultimately show ?thesis using True y r(1) Node.prems(5)[of y] out(1) top by auto
  next
    case F: False
    with Node.prems y have xr: "x \<in> set_tree r" by auto
    have sub: "sub_at x (Node l y r) = sub_at x r" using y F by simp
    then have out: "y \<notin> set_tree (sub_at x (Node l y r))"
        "\<And>z. z \<in> set_tree l \<Longrightarrow> z \<notin> set_tree (sub_at x (Node l y r))"
      using set_sub_at[of x r] d by auto
    have atl: "P x \<noteq> Some z" if "z \<in> set_tree l" for z
      using tree_at_parent_in[OF r xr, of z] d that by auto
    have "tree_at L' R' P' (L y) (Some y) l \<longleftrightarrow> tree_at L R P (L y) (Some y) l"
      using Node.prems(5) out(2) atl d y by (intro tree_at_cong) auto
    moreover have "tree_at L' R' P' (R' y) (Some y) (graft x s r)"
    proof (rule tree_at_graft_child[OF r xr d(2) Node.prems(6)])
      assume "R y \<noteq> Some x"
      then show "tree_at L' R' P' (R y) (Some y) (graft x s r)"
        using Node.prems(5,6) y d sub r(1)
        by (intro Node.IH(2)[OF r xr]) (auto simp: tree_at_Some)
    qed (use Node.prems(5)[of y] out(1) top F in auto)
    ultimately show ?thesis using F y l(1) Node.prems(5)[of y] out(1) top by auto
  qed
qed simp

text \<open>
  The same for a whole tree, where the node may be the root: its root pointer is then the
  one that is redirected.
\<close>

lemma tree_at_replace:
  assumes t: "tree_at L R P p None t" "distinct (inorder t)" "x \<in> set_tree t"
    and out: "\<And>z. z \<in> set_tree t \<Longrightarrow> z \<notin> set_tree (sub_at x t) \<Longrightarrow>
      P' z = P z \<and>
      L' z = (if P x = Some z \<and> L z = Some x then c else L z) \<and>
      R' z = (if P x = Some z \<and> L z \<noteq> Some x then c else R z)"
    and s: "tree_at L' R' P' c (P x) s"
  shows "tree_at L' R' P' (if P x = None then c else p) None (graft x s t)"
proof (cases "p = Some x")
  case True
  with t obtain l r where "t = Node l x r" "P x = None" by (auto simp: tree_at_Some)
  with s show ?thesis by simp
next
  case False
  with tree_at_parent[OF t] have "P x \<noteq> None" by auto
  moreover have "P' z = (if p = Some z then None else P z) \<and>
      L' z = (if P x = Some z \<and> L z = Some x then c else L z) \<and>
      R' z = (if P x = Some z \<and> L z \<noteq> Some x then c else R z)"
    if "z \<in> set_tree t" "z \<notin> set_tree (sub_at x t)" for z
    using out[OF that] t(1) by (auto simp: tree_at_Some)
  ultimately show ?thesis using tree_at_graft[OF t False _ s] by auto
qed

end
