(* ===== verification/Price_Tree.thy ===== *)
theory Price_Tree
  imports Machine Linked_Tree
begin

text \<open>
  The price trees of \<^verbatim>\<open>c/src/matching_engine_gen.c\<close> (lines 295-434): unbalanced binary
  search trees of price levels with parent pointers, one for bids (best = highest price) and
  one for asks (best = lowest price).
\<close>

section \<open>The C functions\<close>

partial_function (option) tree_find ::
  "'z machine_scheme \<Rightarrow> lref option \<Rightarrow> u64 \<Rightarrow> lref option option" where
  [code]: "tree_find m cur pr =
     (case cur of
        None \<Rightarrow> Some None
      | Some c \<Rightarrow>
          if pr = l_price m c then Some (Some c)
          else if pr < l_price m c then tree_find m (l_left m c) pr
          else tree_find m (l_right m c) pr)"

text \<open>The descent of \<^verbatim>\<open>tree_insert\<close>: the last node seen before falling off the tree.\<close>

partial_function (option) tree_descend ::
  "'z machine_scheme \<Rightarrow> u64 \<Rightarrow> lref option \<Rightarrow> lref option \<Rightarrow> lref option option" where
  [code]: "tree_descend m pr cur parent =
     (case cur of
        None \<Rightarrow> Some parent
      | Some c \<Rightarrow>
          if pr < l_price m c then tree_descend m pr (l_left m c) (Some c)
          else tree_descend m pr (l_right m c) (Some c))"

text \<open>
  The tree functions take the address of the root pointer; here they take its value and
  return the new one.  \<^verbatim>\<open>parent->price\<close> after the loop needs \<^verbatim>\<open>parent\<close> not to be null.
\<close>

definition tree_insert ::
  "lref option \<Rightarrow> lref option \<Rightarrow> 'z machine_scheme \<Rightarrow> (lref option \<times> 'z machine_scheme) option" where
  "tree_insert root node m =
     (case node of
        None \<Rightarrow> Some (root, m)
      | Some x \<Rightarrow>
          let m = set_l_left x None m;
              m = set_l_right x None m;
              m = set_l_parent x None m;
              m = set_l_intree x True m
          in if root = None then Some (Some x, m)
             else do {
               parent \<leftarrow> tree_descend m (l_price m x) root None;
               p \<leftarrow> parent;
               let m = set_l_parent x (Some p) m;
               Some (root, if l_price m x < l_price m p then set_l_left p (Some x) m
                           else set_l_right p (Some x) m)
             })"

text \<open>
  The block that occurs three times in \<^verbatim>\<open>tree_remove\<close>: the parent of \<open>x\<close>, or the root
  pointer, is made to point at \<open>y\<close> instead.
\<close>

definition replace_child ::
  "lref \<Rightarrow> lref option \<Rightarrow> lref option \<times> 'z machine_scheme \<Rightarrow> lref option \<times> 'z machine_scheme" where
  "replace_child x y = (\<lambda>(root, m).
     (case l_parent m x of
        Some p \<Rightarrow> (root, if l_left m p = Some x then set_l_left p y m else set_l_right p y m)
      | None \<Rightarrow> (y, m)))"

text \<open>\<^verbatim>\<open>if (c != NULL) c->tree_parent = v\<close>\<close>

definition set_parent_of :: "lref option \<Rightarrow> lref option \<Rightarrow> 'z machine_scheme \<Rightarrow> 'z machine_scheme" where
  "set_parent_of c v m = (case c of None \<Rightarrow> m | Some x \<Rightarrow> set_l_parent x v m)"

partial_function (option) tree_leftmost :: "'z machine_scheme \<Rightarrow> lref \<Rightarrow> lref option" where
  [code]: "tree_leftmost m s =
     (case l_left m s of None \<Rightarrow> Some s | Some t \<Rightarrow> tree_leftmost m t)"

partial_function (option) tree_rightmost :: "'z machine_scheme \<Rightarrow> lref \<Rightarrow> lref option" where
  [code]: "tree_rightmost m s =
     (case l_right m s of None \<Rightarrow> Some s | Some t \<Rightarrow> tree_rightmost m t)"

text \<open>The block under \<^verbatim>\<open>if (succ->tree_parent != node)\<close> in \<^verbatim>\<open>tree_remove\<close>.\<close>

definition detach_succ :: "lref \<Rightarrow> lref \<Rightarrow> 'z machine_scheme \<Rightarrow> 'z machine_scheme option" where
  "detach_succ x succ m =
     (if l_parent m succ \<noteq> Some x then do {
        sp \<leftarrow> l_parent m succ;
        let m = (if l_left m sp = Some succ
                 then set_l_left sp (l_right m succ) m
                 else set_l_right sp (l_right m succ) m);
        let m = set_parent_of (l_right m succ) (l_parent m succ) m;
        let m = set_l_right succ (l_right m x) m;
        Some (set_parent_of (l_right m succ) (Some succ) m)
      } else Some m)"

text \<open>The removal up to the final clearing of the node's own links.\<close>

definition unlink_node ::
  "lref \<Rightarrow> lref option \<Rightarrow> 'z machine_scheme \<Rightarrow> (lref option \<times> 'z machine_scheme) option" where
  "unlink_node x root m =
     (case (l_left m x, l_right m x) of
        (None, r) \<Rightarrow>
          let (root, m) = replace_child x r (root, m)
          in Some (root, set_parent_of r (l_parent m x) m)
      | (Some l, None) \<Rightarrow>
          let (root, m) = replace_child x (Some l) (root, m)
          in Some (root, set_parent_of (Some l) (l_parent m x) m)
      | (Some l, Some r) \<Rightarrow> do {
          succ \<leftarrow> tree_leftmost m r;
          m \<leftarrow> detach_succ x succ m;
          let (root, m) = replace_child x (Some succ) (root, m);
          let m = set_l_parent succ (l_parent m x) m;
          let m = set_l_left succ (l_left m x) m;
          Some (root, set_parent_of (l_left m succ) (Some succ) m)
        })"

definition tree_remove ::
  "lref option \<Rightarrow> lref option \<Rightarrow> 'z machine_scheme \<Rightarrow> (lref option \<times> 'z machine_scheme) option" where
  "tree_remove root node m =
     (case node of
        None \<Rightarrow> Some (root, m)
      | Some x \<Rightarrow>
          if \<not> l_intree m x then Some (root, m)
          else do {
            (root, m) \<leftarrow> unlink_node x root m;
            let m = set_l_left x None m;
            let m = set_l_right x None m;
            let m = set_l_parent x None m;
            Some (root, set_l_intree x False m)
          })"

section \<open>Bids and asks\<close>

definition EngineDb_bids_Find :: "'z machine_scheme \<Rightarrow> u64 \<Rightarrow> lref option option" where
  "EngineDb_bids_Find m pr = tree_find m (bids_root m) pr"

definition EngineDb_bids_Insert :: "lref option \<Rightarrow> 'z machine_scheme \<Rightarrow> 'z machine_scheme option" where
  "EngineDb_bids_Insert level m = do {
     (root, m) \<leftarrow> tree_insert (bids_root m) level m;
     let m = m\<lparr>bids_root := root\<rparr>;
     Some (m\<lparr>bids_n := bids_n m + 1\<rparr>)
   }"

definition EngineDb_bids_Remove :: "lref option \<Rightarrow> 'z machine_scheme \<Rightarrow> 'z machine_scheme option" where
  "EngineDb_bids_Remove level m = do {
     (root, m) \<leftarrow> tree_remove (bids_root m) level m;
     let m = m\<lparr>bids_root := root\<rparr>;
     Some (if bids_n m > 0 then m\<lparr>bids_n := bids_n m - 1\<rparr> else m)
   }"

definition EngineDb_bids_Best :: "'z machine_scheme \<Rightarrow> lref option option" where
  "EngineDb_bids_Best m =
     (case bids_root m of None \<Rightarrow> Some None | Some r \<Rightarrow> map_option Some (tree_rightmost m r))"

definition EngineDb_asks_Find :: "'z machine_scheme \<Rightarrow> u64 \<Rightarrow> lref option option" where
  "EngineDb_asks_Find m pr = tree_find m (asks_root m) pr"

definition EngineDb_asks_Insert :: "lref option \<Rightarrow> 'z machine_scheme \<Rightarrow> 'z machine_scheme option" where
  "EngineDb_asks_Insert level m = do {
     (root, m) \<leftarrow> tree_insert (asks_root m) level m;
     let m = m\<lparr>asks_root := root\<rparr>;
     Some (m\<lparr>asks_n := asks_n m + 1\<rparr>)
   }"

definition EngineDb_asks_Remove :: "lref option \<Rightarrow> 'z machine_scheme \<Rightarrow> 'z machine_scheme option" where
  "EngineDb_asks_Remove level m = do {
     (root, m) \<leftarrow> tree_remove (asks_root m) level m;
     let m = m\<lparr>asks_root := root\<rparr>;
     Some (if asks_n m > 0 then m\<lparr>asks_n := asks_n m - 1\<rparr> else m)
   }"

definition EngineDb_asks_Best :: "'z machine_scheme \<Rightarrow> lref option option" where
  "EngineDb_asks_Best m =
     (case asks_root m of None \<Rightarrow> Some None | Some r \<Rightarrow> map_option Some (tree_leftmost m r))"


text \<open>One unfolding per shape of the cursor.\<close>

lemma tree_find_simps [simp]:
  "tree_find m None pr = Some None"
  "tree_find m (Some c) pr =
     (if pr = l_price m c then Some (Some c)
      else if pr < l_price m c then tree_find m (l_left m c) pr
      else tree_find m (l_right m c) pr)"
  by (subst tree_find.simps; simp)+

lemma tree_descend_simps [simp]:
  "tree_descend m pr None parent = Some parent"
  "tree_descend m pr (Some c) parent =
     (if pr < l_price m c then tree_descend m pr (l_left m c) (Some c)
      else tree_descend m pr (l_right m c) (Some c))"
  by (subst tree_descend.simps; simp)+

section \<open>Lookup and extremes\<close>

lemma tree_find_eq:
  assumes "tree_at (l_left m) (l_right m) (l_parent m) p par t"
    and "sorted_wrt (<) (map (l_price m) (inorder t))"
  shows "tree_find m p pr = Some (find (\<lambda>l. l_price m l = pr) (inorder t))"
  using assms
proof (induction t arbitrary: p par)
  case Leaf
  then show ?case by simp
next
  case (Node l x r)
  have l: "find (\<lambda>l. l_price m l = pr) (inorder l) = None" if "l_price m x \<le> pr"
    using Node.prems(2) that by (fastforce simp: find_None_iff sorted_wrt_append)
  have r: "find (\<lambda>l. l_price m l = pr) (inorder r) = None" if "pr < l_price m x"
    using Node.prems(2) that by (fastforce simp: find_None_iff sorted_wrt_append)
  have app: "find P (xs @ ys) = (case find P xs of None \<Rightarrow> find P ys | Some z \<Rightarrow> Some z)" for P xs ys
    by (induction xs) auto
  show ?case
    using Node l r by (auto simp: sorted_wrt_append app split: option.splits)
qed

lemma tree_leftmost_eq:
  assumes "tree_at (l_left m) (l_right m) (l_parent m) (Some c) par t"
  shows "tree_leftmost m c = Some (hd (inorder t))"
  using assms
proof (induction t arbitrary: c par)
  case (Node l x r)
  then show ?case
    by (subst tree_leftmost.simps) (cases l; auto simp: hd_append split: option.splits)
qed simp

lemma tree_rightmost_eq:
  assumes "tree_at (l_left m) (l_right m) (l_parent m) (Some c) par t"
  shows "tree_rightmost m c = Some (last (inorder t))"
  using assms
proof (induction t arbitrary: c par)
  case (Node l x r)
  then show ?case
    by (subst tree_rightmost.simps) (cases r; auto split: option.splits)
qed simp

section \<open>Insertion\<close>

fun ins_tree :: "(lref \<Rightarrow> u64) \<Rightarrow> lref \<Rightarrow> lref tree \<Rightarrow> lref tree" where
  "ins_tree pr x Leaf = Node Leaf x Leaf"
| "ins_tree pr x (Node l y r) =
     (if pr x < pr y then Node (ins_tree pr x l) y r else Node l y (ins_tree pr x r))"

lemma inorder_ins_tree:
  "sorted_wrt (<) (map pr (inorder t)) \<Longrightarrow>
   inorder (ins_tree pr x t) = ins_by (\<lambda>a b. pr a < pr b) x (inorder t)"
proof (induction t)
  case (Node l y r)
  then show ?case
  proof (cases "pr x < pr y")
    case True
    with Node show ?thesis by (simp add: ins_by_left sorted_wrt_append)
  next
    case False
    with Node.prems have "\<forall>z \<in> set (inorder l @ [y]). \<not> pr x < pr z"
      by (fastforce simp: sorted_wrt_append)
    with ins_by_right[of "inorder l @ [y]" _ x "inorder r"] False Node
    show ?thesis by (simp add: sorted_wrt_append)
  qed
qed simp

text \<open>\<open>q\<close> is where the new node \<open>x\<close> goes: linking it there yields \<open>ins_tree\<close>.\<close>

definition linked_below :: "'z machine_scheme \<Rightarrow> lref \<Rightarrow> lref \<Rightarrow> lref option \<Rightarrow> lref option \<Rightarrow> lref tree \<Rightarrow> bool" where
  "linked_below m x q p par t \<longleftrightarrow> q \<in> set_tree t \<and>
     tree_at (if l_price m x < l_price m q then (l_left m)(q := Some x) else l_left m)
             (if l_price m x < l_price m q then l_right m else (l_right m)(q := Some x))
             ((l_parent m)(x := Some q)) p par (ins_tree (l_price m) x t)"

lemma tree_descend_eq:
  assumes "tree_at (l_left m) (l_right m) (l_parent m) p par t" and "t \<noteq> Leaf"
    and "x \<notin> set_tree t" and "distinct (inorder t)"
    and "l_left m x = None" and "l_right m x = None"
  shows "\<exists>q. tree_descend m (l_price m x) p parent = Some (Some q) \<and> linked_below m x q p par t"
  using assms
proof (induction t arbitrary: p par parent)
  case (Node l y r)
  then have p: "p = Some y" by simp
  let ?c = "if l_price m x < l_price m y then l else r"
  let ?cp = "if l_price m x < l_price m y then l_left m y else l_right m y"
  have step: "tree_descend m (l_price m x) p parent = tree_descend m (l_price m x) ?cp (Some y)"
    by (simp add: p)
  show ?case
  proof (cases "?c = Leaf")
    case True
    with Node.prems have "linked_below m x y p par (Node l y r)"
      by (auto simp: linked_below_def split: if_splits)
    moreover have "?cp = None" using True Node.prems by (auto split: if_splits)
    ultimately show ?thesis using step by auto
  next
    case False
    have "\<exists>q. tree_descend m (l_price m x) ?cp (Some y) = Some (Some q) \<and>
        linked_below m x q ?cp (Some y) ?c"
      using Node False by (auto split: if_splits)
    then obtain q where q: "tree_descend m (l_price m x) ?cp (Some y) = Some (Some q)"
      "linked_below m x q ?cp (Some y) ?c" by blast
    have "q \<notin> set_tree (if l_price m x < l_price m y then r else l)"
      using q(2) Node.prems by (auto simp: linked_below_def)
    with q have "linked_below m x q p par (Node l y r)"
      using Node.prems by (auto simp: linked_below_def split: if_splits)
    with q(1) step show ?thesis by auto
  qed
qed simp


section \<open>The trees of a database\<close>

text \<open>
  \<open>price_tree m root xs\<close>: the search tree below \<open>root\<close> holds the levels \<open>xs\<close>, by rising price.
\<close>

definition price_tree :: "'z machine_scheme \<Rightarrow> lref option \<Rightarrow> lref list \<Rightarrow> bool" where
  "price_tree m root xs \<longleftrightarrow>
     (\<exists>t. tree_at (l_left m) (l_right m) (l_parent m) root None t \<and> inorder t = xs) \<and>
     (\<forall>x \<in> set xs. l_intree m x) \<and> sorted_wrt (<) (map (l_price m) xs)"

lemma price_tree_distinct: "price_tree m root xs \<Longrightarrow> distinct xs"
  by (auto simp: price_tree_def intro: sorted_map_distinct)

text \<open>
  \<open>tree_step A m m'\<close>: the two states differ at most in the tree links of the levels in \<open>A\<close>.
\<close>

definition tree_step :: "lref set \<Rightarrow> 'z machine_scheme \<Rightarrow> 'z machine_scheme \<Rightarrow> bool" where
  "tree_step A m m' \<longleftrightarrow>
     mem_only m m' \<and> order_mem m' = order_mem m \<and>
     l_price m' = l_price m \<and> l_total m' = l_total m \<and> l_head m' = l_head m \<and>
     l_tail m' = l_tail m \<and> l_n m' = l_n m \<and> l_free m' = l_free m \<and>
     (\<forall>z. z \<notin> A \<longrightarrow> l_left m' z = l_left m z \<and> l_right m' z = l_right m z \<and>
         l_parent m' z = l_parent m z \<and> l_intree m' z = l_intree m z)"

lemma tree_step_refl [simp]: "tree_step A m m"
  by (simp add: tree_step_def)

lemma tree_step_trans:
  assumes "tree_step A m m'" and "tree_step B m' m''" and "A \<subseteq> C" and "B \<subseteq> C"
  shows "tree_step C m m''"
proof -
  have "z \<notin> A \<and> z \<notin> B" if "z \<notin> C" for z using that assms(3,4) by blast
  moreover have "mem_only m m''" using assms(1,2) mem_only_trans unfolding tree_step_def by blast
  ultimately show ?thesis using assms(1,2) unfolding tree_step_def by simp
qed

lemma tree_step_price_tree:
  assumes "tree_step A m m'" and "A \<inter> set xs = {}"
  shows "price_tree m' root xs \<longleftrightarrow> price_tree m root xs"
proof -
  have "tree_at (l_left m') (l_right m') (l_parent m') root None t
      = tree_at (l_left m) (l_right m) (l_parent m) root None t" if "inorder t = xs" for t
    using assms that by (intro tree_at_cong) (auto simp: tree_step_def simp flip: set_inorder)
  moreover have "(\<forall>x \<in> set xs. l_intree m' x) = (\<forall>x \<in> set xs. l_intree m x)"
    using assms by (auto simp: tree_step_def)
  moreover have "l_price m' = l_price m" using assms(1) by (simp add: tree_step_def)
  ultimately show ?thesis unfolding price_tree_def by auto
qed


lemma tree_step_set:
  assumes "tree_step A m m'" and "x \<in> A"
  shows "tree_step A m (set_l_left x v m')" "tree_step A m (set_l_right x v m')"
    "tree_step A m (set_l_parent x v m')" "tree_step A m (set_l_intree x b m')"
  using assms by (auto simp: tree_step_def)

theorem tree_insert_law:
  assumes tr: "price_tree m root xs" and x: "x \<notin> set xs"
    and pr: "l_price m x \<notin> l_price m ` set xs"
  shows "\<exists>root' m'. tree_insert root (Some x) m = Some (root', m') \<and>
    price_tree m' root' (ins_by (\<lambda>a b. l_price m a < l_price m b) x xs) \<and>
    tree_step (insert x (set xs)) m m'"
proof -
  let ?A = "insert x (set xs)"
  let ?ys = "ins_by (\<lambda>a b. l_price m a < l_price m b) x xs"
  define m0 where "m0 = set_l_intree x True (set_l_parent x None (set_l_right x None (set_l_left x None m)))"
  have step0: "tree_step ?A m m0" unfolding m0_def by (intro tree_step_set) auto
  have v0: "l_left m0 = (l_left m)(x := None)" "l_right m0 = (l_right m)(x := None)"
    "l_parent m0 = (l_parent m)(x := None)" "l_intree m0 = (l_intree m)(x := True)"
    "l_price m0 = l_price m" by (simp_all add: m0_def)
  obtain t where t: "tree_at (l_left m) (l_right m) (l_parent m) root None t" "inorder t = xs"
    and flags: "\<forall>x \<in> set xs. l_intree m x" and srt: "sorted_wrt (<) (map (l_price m) xs)"
    using tr by (auto simp: price_tree_def)
  have xt: "x \<notin> set_tree t" using x t(2) by (simp flip: set_inorder)
  have t0: "tree_at (l_left m0) (l_right m0) (l_parent m0) root None t"
    using t(1) xt by (simp add: v0)
  have srt': "sorted_wrt (<) (map (l_price m) ?ys)" using sorted_ins_by[OF srt pr] .
  show ?thesis
  proof (cases root)
    case None
    with t have "xs = []" by simp
    with None have "tree_insert root (Some x) m = Some (Some x, m0)"
      by (simp add: tree_insert_def m0_def)
    moreover have "price_tree m0 (Some x) ?ys"
      unfolding price_tree_def using \<open>xs = []\<close>
      by (auto simp: v0 intro!: exI[of _ "Node Leaf x Leaf"])
    ultimately show ?thesis using step0 by blast
  next
    case (Some c)
    with t have "t \<noteq> Leaf" by auto
    with tree_descend_eq[OF t0 this xt] t(2) tr obtain q where
      q: "tree_descend m0 (l_price m0 x) root None = Some (Some q)" and lb: "linked_below m0 x q root None t"
      by (auto simp: v0 dest: price_tree_distinct)
    define m1 where "m1 = set_l_parent x (Some q) m0"
    define m2 where "m2 = (if l_price m x < l_price m q then set_l_left q (Some x) m1
                           else set_l_right q (Some x) m1)"
    have run: "tree_insert root (Some x) m = Some (root, m2)"
      unfolding tree_insert_def Let_def option.case m0_def[symmetric]
      using Some q by (simp add: m1_def m2_def v0)
    have qA: "q \<in> set xs" using lb t(2) by (auto simp: linked_below_def)
    have step: "tree_step ?A m m2"
      unfolding m2_def m1_def using step0 qA by (auto intro!: tree_step_set)
    have "tree_at (l_left m2) (l_right m2) (l_parent m2) root None (ins_tree (l_price m) x t)"
      using lb by (cases "l_price m x < l_price m q") (simp_all add: linked_below_def m2_def m1_def v0)
    moreover have "inorder (ins_tree (l_price m) x t) = ?ys"
      using inorder_ins_tree[of "l_price m" t x] srt t(2) by simp
    moreover have "l_price m2 = l_price m" "\<forall>z \<in> set ?ys. l_intree m2 z"
      using flags by (auto simp: m2_def m1_def v0)
    ultimately have "price_tree m2 root ?ys" using srt' unfolding price_tree_def by auto
    with run step show ?thesis by blast
  qed
qed


section \<open>Removal\<close>

text \<open>\<open>link_step\<close>: the same without the membership flag.\<close>

definition link_step :: "lref set \<Rightarrow> 'z machine_scheme \<Rightarrow> 'z machine_scheme \<Rightarrow> bool" where
  "link_step A m m' \<longleftrightarrow> tree_step A m m' \<and> l_intree m' = l_intree m"

lemma link_step_refl [simp]: "link_step A m m"
  by (simp add: link_step_def)

lemma link_step_trans: "link_step A m m' \<Longrightarrow> link_step B m' m'' \<Longrightarrow> A \<subseteq> C \<Longrightarrow> B \<subseteq> C \<Longrightarrow> link_step C m m''"
  by (auto simp: link_step_def intro: tree_step_trans)

lemma link_step_set:
  assumes "link_step A m m'" and "x \<in> A"
  shows "link_step A m (set_l_left x v m')" "link_step A m (set_l_right x v m')"
    "link_step A m (set_l_parent x v m')"
  using assms by (auto simp: link_step_def intro: tree_step_set)

lemma link_step_set_parent_of:
  "link_step A m m' \<Longrightarrow> (\<And>x. c = Some x \<Longrightarrow> x \<in> A) \<Longrightarrow> link_step A m (set_parent_of c v m')"
  by (auto simp: set_parent_of_def intro: link_step_set split: option.splits)

lemma link_step_replace_child:
  "link_step A m m' \<Longrightarrow> (\<And>p. l_parent m' x = Some p \<Longrightarrow> p \<in> A) \<Longrightarrow>
   link_step A m (snd (replace_child x y (root, m')))"
  by (auto simp: replace_child_def intro: link_step_set split: option.splits)

lemma root_notin_sub:
  "distinct (inorder (Node l y r)) \<Longrightarrow> x \<noteq> y \<Longrightarrow> y \<notin> set_tree (sub_at x (Node l y r))"
  using set_sub_at[of x l] set_sub_at[of x r] by auto

lemma leftmost_sub:
  assumes "tree_at L R P (Some c) par t" "distinct (inorder t)"
  shows "\<exists>s sr. s = hd (inorder t) \<and> s \<in> set_tree t \<and> sub_at s t = Node Leaf s sr \<and> L s = None \<and>
    (s = c \<or> (\<exists>q. P s = Some q \<and> L q = Some s))"
  using assms
proof (induction t arbitrary: c par)
  case (Node l x r)
  show ?case
  proof (cases l)
    case Leaf
    with Node.prems show ?thesis by auto
  next
    case (Node a y b)
    let ?s = "hd (inorder l)"
    have "tree_at L R P (Some y) (Some c) l" "L c = Some y" "x = c" "distinct (inorder l)"
      using Node.prems Node by auto
    with Node.IH(1) obtain sr where s: "?s \<in> set_tree l" "sub_at ?s l = Node Leaf ?s sr"
      "L ?s = None" "?s = y \<or> (\<exists>q. P ?s = Some q \<and> L q = Some ?s)" by blast
    moreover have "P y = Some c" using Node.prems Node by auto
    moreover have "?s \<noteq> x" using s(1) Node.prems(2) by auto
    moreover have "hd (inorder (Node l x r)) = ?s" by (simp add: Node hd_append)
    ultimately show ?thesis using \<open>L c = Some y\<close> by auto
  qed
qed simp

text \<open>
  After \<^verbatim>\<open>detach_succ\<close> the successor heads the rest of the right subtree.
\<close>

lemma detach_succ_law:
  assumes t: "tree_at (l_left m) (l_right m) (l_parent m) (Some r0) (Some x) t" "distinct (inorder t)"
    and x: "x \<notin> set_tree t" "l_right m x = Some r0"
  shows "\<exists>succ m' r'. tree_leftmost m r0 = Some succ \<and> detach_succ x succ m = Some m' \<and>
    link_step (set_tree t) m m' \<and> inorder t = succ # inorder r' \<and>
    tree_at (l_left m') (l_right m') (l_parent m') (l_right m' succ) (Some succ) r'"
proof -
  define succ where "succ = hd (inorder t)"
  have lm: "tree_leftmost m r0 = Some succ" using tree_leftmost_eq[OF t(1)] by (simp add: succ_def)
  obtain sr where st: "succ \<in> set_tree t" and sub: "sub_at succ t = Node Leaf succ sr"
    and par: "succ = r0 \<or> (\<exists>q. l_parent m succ = Some q \<and> l_left m q = Some succ)"
    and Ls: "l_left m succ = None"
    using leftmost_sub[OF t] unfolding succ_def by blast
  obtain as bs where io: "inorder t = as @ inorder (sub_at succ t) @ bs"
    and gr: "\<forall>s. inorder (graft succ s t) = as @ inorder s @ bs"
    using inorder_graft[OF st] by blast
  have "inorder t = as @ succ # inorder sr @ bs" using io sub by simp
  have as: "as = []"
  proof (cases as)
    case (Cons a as')
    have "hd (inorder t) = hd (as @ succ # inorder sr @ bs)"
      using \<open>inorder t = as @ succ # inorder sr @ bs\<close> by (rule arg_cong)
    with Cons have "succ = a" unfolding succ_def[symmetric] by simp
    with Cons \<open>inorder t = as @ succ # inorder sr @ bs\<close> t(2) show ?thesis by simp
  qed simp
  show ?thesis
  proof (cases "succ = r0")
    case True
    with t(1) have "l_parent m succ = Some x" by (auto simp: tree_at_Some)
    then have "detach_succ x succ m = Some m" by (simp add: detach_succ_def)
    moreover have "t = Node Leaf succ sr" using True sub t(1) by (auto simp: tree_at_Some)
    ultimately show ?thesis using lm t(1) by (auto simp: tree_at_Some)
  next
    case False
    then obtain q where q: "l_parent m succ = Some q" "l_left m q = Some succ" using par by auto
    from False have nr: "Some r0 \<noteq> Some succ" by simp
    obtain q' where "l_parent m succ = Some q'" "q' \<in> set_tree t" "q' \<notin> set_tree (sub_at succ t)"
      "tree_at (l_left m) (l_right m) (l_parent m) (Some succ) (Some q') (sub_at succ t)"
      using tree_at_parent[OF t st nr] by blast
    with q sub have qt: "q \<in> set_tree t" "q \<notin> set_tree sr" "q \<noteq> succ"
      and tsr: "tree_at (l_left m) (l_right m) (l_parent m) (l_right m succ) (Some succ) sr"
      by auto
    have "q \<noteq> x" using qt x(1) by auto
    have r0: "r0 \<notin> set_tree (sub_at succ t)"
      using t False by (auto simp: tree_at_Some dest: root_notin_sub)
    with sub have r0s: "r0 \<notin> set_tree sr" "r0 \<noteq> succ" by auto
    have ss: "succ \<notin> set_tree sr" using distinct_sub_at[OF t(2), of succ] sub by simp
    define m1 where "m1 = set_l_left q (l_right m succ) m"
    define m2 where "m2 = set_parent_of (l_right m succ) (Some q) m1"
    define m3 where "m3 = set_l_right succ (Some r0) m2"
    define m4 where "m4 = set_l_parent r0 (Some succ) m3"
    have det: "detach_succ x succ m = Some m4"
      using q x \<open>q \<noteq> x\<close> \<open>q \<noteq> succ\<close> st
      by (cases "l_right m succ")
         (auto simp: detach_succ_def m4_def m3_def m2_def m1_def set_parent_of_def)
    have v: "l_left m4 = (l_left m)(q := l_right m succ)" "l_right m4 = (l_right m)(succ := Some r0)"
      "l_parent m4 = (case l_right m succ of None \<Rightarrow> l_parent m | Some y \<Rightarrow> (l_parent m)(y := Some q))
         (r0 := Some succ)"
      by (cases "l_right m succ"; simp add: m4_def m3_def m2_def m1_def set_parent_of_def)+
    have rs: "y \<in> set_tree sr" if "l_right m succ = Some y" for y
      using tree_at_root[OF tsr that] .
    have "tree_at (l_left m4) (l_right m4) (l_parent m4) (l_right m succ) (Some q) sr"
      using qt r0s ss distinct_sub_at[OF t(2), of succ] sub
      by (intro tree_at_reparent[OF tsr]) (auto simp: v split: option.splits)
    then have "tree_at (l_left m4) (l_right m4) (l_parent m4) (Some r0) (Some succ) (graft succ sr t)"
      using q qt sub rs
      by (intro tree_at_graft[OF t st nr]) (auto simp: v split: option.splits)
    moreover have "link_step (set_tree t) m m4"
      unfolding m4_def m3_def m2_def m1_def
      using qt st rs sub set_sub_at[of succ t] tree_at_root[OF t(1)]
      by (auto intro!: link_step_set link_step_set_parent_of)
    moreover have "inorder t = succ # inorder (graft succ sr t)"
      using io gr sub as by simp
    ultimately show ?thesis using lm det v(2) by auto
  qed
qed


lemma replace_child_views:
  "fst (replace_child x y (root, m)) = (if l_parent m x = None then y else root)"
  "l_left (snd (replace_child x y (root, m))) =
     (case l_parent m x of None \<Rightarrow> l_left m
      | Some p \<Rightarrow> if l_left m p = Some x then (l_left m)(p := y) else l_left m)"
  "l_right (snd (replace_child x y (root, m))) =
     (case l_parent m x of None \<Rightarrow> l_right m
      | Some p \<Rightarrow> if l_left m p = Some x then l_right m else (l_right m)(p := y))"
  "l_parent (snd (replace_child x y (root, m))) = l_parent m"
  by (simp_all add: replace_child_def split: option.splits)

lemma set_parent_of_views:
  "l_left (set_parent_of c v m) = l_left m"
  "l_right (set_parent_of c v m) = l_right m"
  "l_parent (set_parent_of c v m) = (case c of None \<Rightarrow> l_parent m | Some y \<Rightarrow> (l_parent m)(y := v))"
  by (simp_all add: set_parent_of_def split: option.splits)

lemma tree_at_sub:
  assumes "tree_at L R P p None t" "distinct (inorder t)" "x \<in> set_tree t"
  shows "tree_at L R P (Some x) (P x) (sub_at x t)"
proof (cases "p = Some x")
  case True
  with assms show ?thesis by (auto simp: tree_at_Some)
next
  case False
  with tree_at_parent[OF assms] show ?thesis by auto
qed

text \<open>A node with at most one child is spliced out.\<close>

lemma splice_law:
  assumes t: "tree_at (l_left m) (l_right m) (l_parent m) root None t" "distinct (inorder t)" "x \<in> set_tree t"
    and s: "tree_at (l_left m) (l_right m) (l_parent m) c (Some x) s" "set_tree s \<subseteq> set_tree (sub_at x t)"
      "distinct (inorder s)"
    and m': "m' = set_parent_of c (l_parent m x) (snd (replace_child x c (root, m)))"
  shows "tree_at (l_left m') (l_right m') (l_parent m') (fst (replace_child x c (root, m))) None (graft x s t)"
    and "link_step (set_tree t) m m'"
proof -
  have cs: "y \<in> set_tree s" if "c = Some y" for y using tree_at_root[OF s(1) that] .
  have px: "p \<in> set_tree t \<and> p \<notin> set_tree (sub_at x t)" if "l_parent m x = Some p" for p
    using tree_at_parent[OF t] that t(1) by (cases "root = Some x") (auto simp: tree_at_Some)
  have "tree_at (l_left m') (l_right m') (l_parent m') c (l_parent m x) s"
    using px s(2) s(3)
    by (intro tree_at_reparent[OF s(1)])
       (auto simp: m' replace_child_views set_parent_of_views split: option.splits)
  then show "tree_at (l_left m') (l_right m') (l_parent m') (fst (replace_child x c (root, m))) None (graft x s t)"
    unfolding replace_child_views using cs s(2)
    by (intro tree_at_replace[OF t])
       (auto simp: m' replace_child_views set_parent_of_views split: option.splits)
  show "link_step (set_tree t) m m'"
    unfolding m' using px cs s(2) set_sub_at[of x t]
    by (auto intro!: link_step_set_parent_of link_step_replace_child)
qed


text \<open>
  A node with two children is replaced by its successor.  First over field functions: \<open>L2\<close>,
  \<open>R2\<close>, \<open>P2\<close> are the links after the successor has been detached.
\<close>

lemma tree_at_succ:
  assumes t: "tree_at L R P root None t" "distinct (inorder t)" "x \<in> set_tree t"
    and sub: "sub_at x t = Node l x r" and l: "L x = Some l0"
    and out: "\<And>z. z \<notin> set_tree r \<Longrightarrow> L2 z = L z \<and> R2 z = R z \<and> P2 z = P z"
    and io: "inorder r = succ # inorder r'"
    and tr': "tree_at L2 R2 P2 (R2 succ) (Some succ) r'"
    and L': "L' = (case P x of None \<Rightarrow> L2
      | Some p \<Rightarrow> if L p = Some x then L2(p := Some succ) else L2)(succ := Some l0)"
    and R': "R' = (case P x of None \<Rightarrow> R2
      | Some p \<Rightarrow> if L p = Some x then R2 else R2(p := Some succ))"
    and P': "P' = P2(succ := P x, l0 := Some succ)"
  shows "tree_at L' R' P' (if P x = None then Some succ else root) None (graft x (Node l succ r') t)"
proof (rule tree_at_replace[OF t])
  have d: "distinct (inorder (Node l x r))" using distinct_sub_at[OF t(2), of x] sub by simp
  have sr: "set_tree r = insert succ (set_tree r')" and sd: "succ \<notin> set_tree r'"
    using io d by (auto simp flip: set_inorder)
  have px: "p \<notin> set_tree (Node l x r)" if "P x = Some p" for p
    using tree_at_parent[OF t] that t(1) sub by (cases "root = Some x") (auto simp: tree_at_Some)
  have tl: "tree_at L R P (Some l0) (Some x) l" using tree_at_sub[OF t] sub l by simp
  then have l0: "l0 \<in> set_tree l" using tree_at_root by blast
  show "P' z = P z \<and> L' z = (if P x = Some z \<and> L z = Some x then Some succ else L z) \<and>
      R' z = (if P x = Some z \<and> L z \<noteq> Some x then Some succ else R z)"
    if "z \<in> set_tree t" "z \<notin> set_tree (sub_at x t)" for z
    using that out[of z] sub sr l0 by (auto simp: L' R' P' split: option.splits)
  have "tree_at L' R' P' (Some l0) (Some succ) l"
    using d sr px out
    by (intro tree_at_reparent[OF tl]) (auto simp: L' R' P' split: option.splits)
  moreover have "tree_at L' R' P' (R2 succ) (Some succ) r' = tree_at L2 R2 P2 (R2 succ) (Some succ) r'"
    using d sr sd px l0
    by (intro tree_at_cong) (auto simp: L' R' P' split: option.splits)
  moreover have "R' succ = R2 succ" "P' succ = P x" "L' succ = Some l0"
    using d sr px l0 by (auto simp: L' R' P' split: option.splits)
  ultimately show "tree_at L' R' P' (Some succ) (P x) (Node l succ r')"
    using tr' by simp
qed

lemma succ_law:
  assumes t: "tree_at (l_left m) (l_right m) (l_parent m) root None t" "distinct (inorder t)" "x \<in> set_tree t"
    and sub: "sub_at x t = Node l x r" and l: "l_left m x = Some l0" and r: "l_right m x = Some r0"
  shows "\<exists>succ m2 m' s. tree_leftmost m r0 = Some succ \<and> detach_succ x succ m = Some m2 \<and>
    m' = set_parent_of (Some l0) (Some succ)
           (set_l_left succ (Some l0)
             (set_l_parent succ (l_parent m x) (snd (replace_child x (Some succ) (root, m2))))) \<and>
    l_left (snd (replace_child x (Some succ) (root, m2))) x = Some l0 \<and>
    l_parent (snd (replace_child x (Some succ) (root, m2))) x = l_parent m x \<and> succ \<noteq> x \<and>
    tree_at (l_left m') (l_right m') (l_parent m') (fst (replace_child x (Some succ) (root, m2))) None
      (graft x s t) \<and>
    inorder s = inorder l @ inorder r \<and> link_step (set_tree t) m m'"
proof -
  have d: "distinct (inorder (Node l x r))" using distinct_sub_at[OF t(2), of x] sub by simp
  have ts: "tree_at (l_left m) (l_right m) (l_parent m) (Some x) (l_parent m x) (Node l x r)"
    using tree_at_sub[OF t] sub by simp
  then have tr: "tree_at (l_left m) (l_right m) (l_parent m) (Some r0) (Some x) r"
    and l0: "l0 \<in> set_tree l" using l r tree_at_root by auto
  have xr: "x \<notin> set_tree r" "distinct (inorder r)" using d by auto
  obtain succ m2 r' where lm: "tree_leftmost m r0 = Some succ" and det: "detach_succ x succ m = Some m2"
    and st: "link_step (set_tree r) m m2" and io: "inorder r = succ # inorder r'"
    and tr': "tree_at (l_left m2) (l_right m2) (l_parent m2) (l_right m2 succ) (Some succ) r'"
    using detach_succ_law[OF tr xr(2,1) r] by blast
  have out: "l_left m2 z = l_left m z \<and> l_right m2 z = l_right m z \<and> l_parent m2 z = l_parent m z"
    if "z \<notin> set_tree r" for z using st that by (auto simp: link_step_def tree_step_def)
  have px: "p \<in> set_tree t \<and> p \<notin> set_tree (Node l x r)" if "l_parent m x = Some p" for p
    using tree_at_parent[OF t] that t(1) sub by (cases "root = Some x") (auto simp: tree_at_Some)
  define m3 where "m3 = snd (replace_child x (Some succ) (root, m2))"
  define m' where "m' = set_parent_of (Some l0) (Some succ)
           (set_l_left succ (Some l0) (set_l_parent succ (l_parent m x) m3))"
  have v3: "l_left m3 = (case l_parent m x of None \<Rightarrow> l_left m2
      | Some p \<Rightarrow> if l_left m p = Some x then (l_left m2)(p := Some succ) else l_left m2)"
    "l_right m3 = (case l_parent m x of None \<Rightarrow> l_right m2
      | Some p \<Rightarrow> if l_left m p = Some x then l_right m2 else (l_right m2)(p := Some succ))"
    "l_parent m3 = l_parent m2"
    using xr out px by (auto simp: m3_def replace_child_views split: option.splits)
  have fs: "fst (replace_child x (Some succ) (root, m2)) = (if l_parent m x = None then Some succ else root)"
    using out xr by (simp add: replace_child_views)
  have 1: "tree_at (l_left m') (l_right m') (l_parent m')
      (fst (replace_child x (Some succ) (root, m2))) None (graft x (Node l succ r') t)"
    unfolding fs by (rule tree_at_succ[OF t sub l out io tr'])
       (simp_all add: m'_def set_parent_of_views v3)
  have sr: "succ \<in> set_tree r" using io by (simp flip: set_inorder)
  have 2: "link_step (set_tree t) m m'"
    unfolding m'_def m3_def
    using px set_sub_at[of x t] sub sr l0 out xr
    by (auto intro!: link_step_set link_step_set_parent_of link_step_replace_child
        link_step_trans[OF st link_step_refl])
  have 3: "l_left m3 x = Some l0" "l_parent m3 x = l_parent m x"
    using out xr l px by (auto simp: v3 split: option.splits)
  have 4: "inorder (Node l succ r') = inorder l @ inorder r" by (simp add: io)
  have "succ \<noteq> x" using sr xr by auto
  with lm det 1 2 3 4 show ?thesis unfolding m'_def m3_def by blast
qed


lemma unlink_node_law:
  assumes t: "tree_at (l_left m) (l_right m) (l_parent m) root None t" "distinct (inorder t)" "x \<in> set_tree t"
  shows "\<exists>root' m' s is js. unlink_node x root m = Some (root', m') \<and>
    tree_at (l_left m') (l_right m') (l_parent m') root' None (graft x s t) \<and>
    inorder (sub_at x t) = is @ x # js \<and> inorder s = is @ js \<and> link_step (set_tree t) m m'"
proof -
  obtain l r where sub: "sub_at x t = Node l x r" using sub_at_root[OF t(3)] by blast
  have d: "distinct (inorder (Node l x r))" using distinct_sub_at[OF t(2), of x] sub by simp
  have ts: "tree_at (l_left m) (l_right m) (l_parent m) (l_left m x) (Some x) l"
     "tree_at (l_left m) (l_right m) (l_parent m) (l_right m x) (Some x) r"
    using tree_at_sub[OF t] sub by auto
  have pp: "l_parent (snd (replace_child x c (root, m))) x = l_parent m x" for c
    by (simp add: replace_child_views)
  show ?thesis
  proof (cases "l_left m x")
    case None
    then have "l = Leaf" using ts(1) by simp
    moreover have "unlink_node x root m = Some (fst (replace_child x (l_right m x) (root, m)),
      set_parent_of (l_right m x) (l_parent m x) (snd (replace_child x (l_right m x) (root, m))))"
      using None pp by (simp add: unlink_node_def split_beta Let_def)
    ultimately show ?thesis
      using splice_law[OF t ts(2) _ _ refl] sub d by (intro exI conjI) auto
  next
    case (Some l0)
    show ?thesis
    proof (cases "l_right m x")
      case None
      then have "r = Leaf" using ts(2) by simp
      moreover have "unlink_node x root m = Some (fst (replace_child x (l_left m x) (root, m)),
        set_parent_of (l_left m x) (l_parent m x) (snd (replace_child x (l_left m x) (root, m))))"
        using None Some pp by (simp add: unlink_node_def split_beta Let_def)
      ultimately show ?thesis
        using splice_law[OF t ts(1) _ _ refl] sub d by (intro exI conjI) auto
    next
      case (Some r0)
      from succ_law[OF t sub \<open>l_left m x = Some l0\<close> Some] obtain succ m2 m' s where
        *: "tree_leftmost m r0 = Some succ" "detach_succ x succ m = Some m2"
        "m' = set_parent_of (Some l0) (Some succ)
           (set_l_left succ (Some l0)
             (set_l_parent succ (l_parent m x) (snd (replace_child x (Some succ) (root, m2)))))"
        "l_left (snd (replace_child x (Some succ) (root, m2))) x = Some l0"
        "l_parent (snd (replace_child x (Some succ) (root, m2))) x = l_parent m x" "succ \<noteq> x"
        and **: "tree_at (l_left m') (l_right m') (l_parent m')
            (fst (replace_child x (Some succ) (root, m2))) None (graft x s t)"
        "inorder s = inorder l @ inorder r" "link_step (set_tree t) m m'" by blast
      have "unlink_node x root m = Some (fst (replace_child x (Some succ) (root, m2)), m')"
        using * Some \<open>l_left m x = Some l0\<close> by (simp add: unlink_node_def split_beta Let_def)
      with ** sub show ?thesis by auto
    qed
  qed
qed

theorem tree_remove_law:
  assumes tr: "price_tree m root xs" and x: "x \<in> set xs"
  shows "\<exists>root' m'. tree_remove root (Some x) m = Some (root', m') \<and>
    price_tree m' root' (remove1 x xs) \<and> tree_step (set xs) m m' \<and> \<not> l_intree m' x"
proof -
  obtain t where t: "tree_at (l_left m) (l_right m) (l_parent m) root None t" "inorder t = xs"
    and flags: "\<forall>x \<in> set xs. l_intree m x" and srt: "sorted_wrt (<) (map (l_price m) xs)"
    using tr by (auto simp: price_tree_def)
  have d: "distinct (inorder t)" and xt: "x \<in> set_tree t" and st: "set_tree t = set xs"
    using price_tree_distinct[OF tr] t(2) x by (auto simp flip: set_inorder)
  obtain root' m1 s "is" js where un: "unlink_node x root m = Some (root', m1)"
    and tr1: "tree_at (l_left m1) (l_right m1) (l_parent m1) root' None (graft x s t)"
    and io: "inorder (sub_at x t) = is @ x # js" "inorder s = is @ js" and step: "tree_step (set xs) m m1"
    and it: "l_intree m1 = l_intree m"
    using unlink_node_law[OF t(1) d xt] unfolding st link_step_def by blast
  define m' where "m' = set_l_intree x False (set_l_parent x None (set_l_right x None (set_l_left x None m1)))"
  have run: "tree_remove root (Some x) m = Some (root', m')"
    using flags x un by (simp add: tree_remove_def m'_def)
  have step': "tree_step (set xs) m m'" unfolding m'_def using step x by (intro tree_step_set)
  have ig: "inorder (graft x s t) = remove1 x xs"
    using inorder_graft_remove[OF xt d io] t(2) by simp
  moreover have "x \<notin> set_tree (graft x s t)"
    using ig d t(2) by (simp flip: set_inorder)
  then have "tree_at (l_left m') (l_right m') (l_parent m') root' None (graft x s t)"
    using tr1 by (simp add: m'_def)
  moreover have "l_price m' = l_price m" using step' by (simp add: tree_step_def)
  moreover have "\<forall>z \<in> set (remove1 x xs). l_intree m' z"
    using flags d t(2) by (auto simp: m'_def it)
  moreover have "sorted_wrt (<) (map (l_price m) (remove1 x xs))"
    using srt by (rule sorted_wrt_map_remove1)
  ultimately have "price_tree m' root' (remove1 x xs)" unfolding price_tree_def by auto
  with run step' show ?thesis by (auto simp: m'_def)
qed

section \<open>The best levels\<close>

lemma price_tree_ends:
  assumes "price_tree m (Some c) xs"
  shows "tree_leftmost m c = Some (hd xs)" and "tree_rightmost m c = Some (last xs)" and "xs \<noteq> []"
proof -
  obtain t where t: "tree_at (l_left m) (l_right m) (l_parent m) (Some c) None t" "inorder t = xs"
    using assms by (auto simp: price_tree_def)
  then show "tree_leftmost m c = Some (hd xs)" "tree_rightmost m c = Some (last xs)" "xs \<noteq> []"
    using tree_leftmost_eq[OF t(1)] tree_rightmost_eq[OF t(1)] by (auto simp: tree_at_Some)
qed

lemma price_tree_None: "price_tree m None xs \<longleftrightarrow> xs = []"
  by (auto simp: price_tree_def)

lemma asks_Best_eq:
  "price_tree m (asks_root m) xs \<Longrightarrow> EngineDb_asks_Best m = Some (if xs = [] then None else Some (hd xs))"
  by (cases "asks_root m") (auto simp: EngineDb_asks_Best_def price_tree_None price_tree_ends)

lemma bids_Best_eq:
  "price_tree m (bids_root m) xs \<Longrightarrow> EngineDb_bids_Best m = Some (if xs = [] then None else Some (last xs))"
  by (cases "bids_root m") (auto simp: EngineDb_bids_Best_def price_tree_None price_tree_ends)

lemma tree_find_law:
  "price_tree m root xs \<Longrightarrow> tree_find m root pr = Some (find (\<lambda>l. l_price m l = pr) xs)"
  using tree_find_eq by (auto simp: price_tree_def)

end
