(* ===== verification/Engine_Db.thy ===== *)
theory Engine_Db
  imports Machine
begin

text \<open>
  The contract of \<^verbatim>\<open>c/gen/engine_db.h\<close> between the generated matcher and the data layer
  underneath it.

  \<open>engine_api\<close> is the header itself: a record with one field per declared function, over a
  type \<open>'s\<close> of data-layer states and opaque handles \<open>'o\<close>, \<open>'l\<close>; a handle that may be
  \<^verbatim>\<open>NULL\<close> is an option.  Functions whose implementations contain loops return in
  \<open>fault + _\<close>, so that not returning is visible.

  \<open>store\<close> is what the contract is about: which rows are allocated and what they hold, the
  queue of each level, the hashed orders, the two trees as lists with the best level first,
  and the trades reported so far.  The locales state the laws as a simulation between a
  representation predicate and updates of the store.
\<close>

section \<open>The two books\<close>

datatype book = Bids | Asks

fun opposite :: "book \<Rightarrow> book" where
  "opposite Bids = Asks"
| "opposite Asks = Bids"

text \<open>\<open>better b p q\<close>: price \<open>p\<close> has priority over \<open>q\<close> in book \<open>b\<close>.\<close>

fun better :: "book \<Rightarrow> u64 \<Rightarrow> u64 \<Rightarrow> bool" where
  "better Bids p q \<longleftrightarrow> q < p"
| "better Asks p q \<longleftrightarrow> p < q"

lemma opposite_opposite [simp]: "opposite (opposite b) = b"
  by (cases b) simp_all

lemma opposite_neq [simp]: "opposite b \<noteq> b" "b \<noteq> opposite b"
  by (cases b; simp)+

text \<open>Price priority is a strict total order in either book.\<close>

locale priority =
  fixes above :: "'p \<Rightarrow> 'p \<Rightarrow> bool"
  assumes above_irrefl: "\<not> above p p"
    and above_trans: "above p q \<Longrightarrow> above q r \<Longrightarrow> above p r"
    and above_total: "p \<noteq> q \<Longrightarrow> above p q \<or> above q p"
begin

lemma above_asym: "above p q \<Longrightarrow> \<not> above q p"
  by (metis above_irrefl above_trans)

lemma sorted_distinct: "sorted_wrt above (map f xs) \<Longrightarrow> distinct xs"
  by (induction xs) (auto simp: above_irrefl)

lemma sorted_inj: "sorted_wrt above (map f xs) \<Longrightarrow> inj_on f (set xs)"
proof (induction xs)
  case (Cons x xs)
  then have "f x \<notin> f ` set xs" using above_irrefl by force
  then have "f x \<notin> f ` (set xs - {x})" by blast
  with Cons show ?case by simp
qed simp

lemma sorted_insert:
  assumes "sorted_wrt above (map f xs)" and "f x \<notin> f ` set xs"
  shows "sorted_wrt above (map f (ins_by (\<lambda>a b. above (f a) (f b)) x xs))"
  using assms
proof (induction xs)
  case (Cons y ys)
  then have "f x \<noteq> f y" by auto
  then have "above (f x) (f y) \<or> above (f y) (f x)" by (rule above_total)
  with Cons show ?case by (auto intro: above_trans)
qed simp

text \<open>A strictly sorted list is determined by its elements.\<close>

lemma sorted_unique:
  assumes "sorted_wrt above (map f xs)" and "sorted_wrt above (map f ys)" and "set xs = set ys"
  shows "xs = ys"
  using assms
proof (induction xs arbitrary: ys)
  case (Cons x xs)
  then obtain y zs where ys: "ys = y # zs" by (cases ys) auto
  have "x = y"
  proof (rule ccontr)
    assume "x \<noteq> y"
    with Cons.prems(3) ys have "x \<in> set zs" "y \<in> set xs" by auto
    with Cons.prems ys have "above (f y) (f x)" "above (f x) (f y)" by auto
    then show False by (auto dest: above_asym)
  qed
  moreover have "x \<notin> set xs" "y \<notin> set zs"
    using Cons.prems(1,2) ys above_irrefl by auto
  ultimately have "set xs = set zs" using Cons.prems(3) ys by auto
  with Cons ys \<open>x = y\<close> show ?case by auto
qed simp

end

interpretation prio: priority "better b" for b
  by unfold_locales (cases b; auto)+

section \<open>The header\<close>

record ('s, 'o, 'l) engine_api =
  api_capacity :: "'s \<Rightarrow> u64"
  api_order_count :: "'s \<Rightarrow> u64"
  api_trade_reset :: "'s \<Rightarrow> 's"
  api_trade_emit :: "u64 \<Rightarrow> u64 \<Rightarrow> u64 \<Rightarrow> u64 \<Rightarrow> 's \<Rightarrow> fault + 's"
  api_order_alloc :: "'s \<Rightarrow> 'o option \<times> 's"
  api_order_free :: "'o \<Rightarrow> 's \<Rightarrow> 's"
  api_level_alloc :: "'s \<Rightarrow> 'l option \<times> 's"
  api_level_free :: "'l \<Rightarrow> 's \<Rightarrow> 's"
  api_order_get_id :: "'o \<Rightarrow> 's \<Rightarrow> u64"
  api_order_get_account :: "'o \<Rightarrow> 's \<Rightarrow> u64"
  api_order_get_side :: "'o \<Rightarrow> 's \<Rightarrow> u64"
  api_order_get_stp_mode :: "'o \<Rightarrow> 's \<Rightarrow> u64"
  api_order_get_price :: "'o \<Rightarrow> 's \<Rightarrow> u64"
  api_order_get_qty :: "'o \<Rightarrow> 's \<Rightarrow> u64"
  api_order_get_remaining :: "'o \<Rightarrow> 's \<Rightarrow> u64"
  api_order_set_id :: "'o \<Rightarrow> u64 \<Rightarrow> 's \<Rightarrow> 's"
  api_order_set_account :: "'o \<Rightarrow> u64 \<Rightarrow> 's \<Rightarrow> 's"
  api_order_set_side :: "'o \<Rightarrow> u64 \<Rightarrow> 's \<Rightarrow> 's"
  api_order_set_stp_mode :: "'o \<Rightarrow> u64 \<Rightarrow> 's \<Rightarrow> 's"
  api_order_set_price :: "'o \<Rightarrow> u64 \<Rightarrow> 's \<Rightarrow> 's"
  api_order_set_qty :: "'o \<Rightarrow> u64 \<Rightarrow> 's \<Rightarrow> 's"
  api_order_set_remaining :: "'o \<Rightarrow> u64 \<Rightarrow> 's \<Rightarrow> 's"
  api_level_get_price :: "'l \<Rightarrow> 's \<Rightarrow> u64"
  api_level_get_count :: "'l \<Rightarrow> 's \<Rightarrow> u64"
  api_level_set_price :: "'l \<Rightarrow> u64 \<Rightarrow> 's \<Rightarrow> 's"
  api_hash_find :: "u64 \<Rightarrow> 's \<Rightarrow> fault + 'o option"
  api_hash_insert :: "'o \<Rightarrow> 's \<Rightarrow> fault + (bool \<times> 's)"
  api_hash_remove :: "'o \<Rightarrow> 's \<Rightarrow> fault + 's"
  api_queue_insert_tail :: "'l \<Rightarrow> 'o \<Rightarrow> 's \<Rightarrow> 's"
  api_queue_remove :: "'l \<Rightarrow> 'o \<Rightarrow> 's \<Rightarrow> 's"
  api_queue_first :: "'l \<Rightarrow> 's \<Rightarrow> 'o option"
  api_queue_next :: "'o \<Rightarrow> 's \<Rightarrow> 'o option"
  api_order_owner :: "'o \<Rightarrow> 's \<Rightarrow> 'l option"
  api_bids_find :: "u64 \<Rightarrow> 's \<Rightarrow> fault + 'l option"
  api_bids_insert :: "'l \<Rightarrow> 's \<Rightarrow> fault + 's"
  api_bids_remove :: "'l \<Rightarrow> 's \<Rightarrow> fault + 's"
  api_bids_best :: "'s \<Rightarrow> fault + 'l option"
  api_asks_find :: "u64 \<Rightarrow> 's \<Rightarrow> fault + 'l option"
  api_asks_insert :: "'l \<Rightarrow> 's \<Rightarrow> fault + 's"
  api_asks_remove :: "'l \<Rightarrow> 's \<Rightarrow> fault + 's"
  api_asks_best :: "'s \<Rightarrow> fault + 'l option"

text \<open>The four tree functions of a book.\<close>

fun book_find :: "('s, 'o, 'l) engine_api \<Rightarrow> book \<Rightarrow> u64 \<Rightarrow> 's \<Rightarrow> fault + 'l option" where
  "book_find A Bids = api_bids_find A"
| "book_find A Asks = api_asks_find A"

fun book_insert :: "('s, 'o, 'l) engine_api \<Rightarrow> book \<Rightarrow> 'l \<Rightarrow> 's \<Rightarrow> fault + 's" where
  "book_insert A Bids = api_bids_insert A"
| "book_insert A Asks = api_asks_insert A"

fun book_remove :: "('s, 'o, 'l) engine_api \<Rightarrow> book \<Rightarrow> 'l \<Rightarrow> 's \<Rightarrow> fault + 's" where
  "book_remove A Bids = api_bids_remove A"
| "book_remove A Asks = api_asks_remove A"

fun book_best :: "('s, 'o, 'l) engine_api \<Rightarrow> book \<Rightarrow> 's \<Rightarrow> fault + 'l option" where
  "book_best A Bids = api_bids_best A"
| "book_best A Asks = api_asks_best A"

section \<open>The store the contract speaks about\<close>

record trade =
  t_maker :: u64
  t_taker :: u64
  t_price :: u64
  t_qty :: u64

record ('o, 'l) store =
  s_cap :: u64
  s_orders :: "'o \<rightharpoonup> order_row"
  s_levels :: "'l \<rightharpoonup> u64"
  s_queue :: "'l \<Rightarrow> 'o list"
  s_hash :: "'o set"
  s_tree :: "book \<Rightarrow> 'l list"
  s_trades :: "trade list"

abbreviation orow :: "('o, 'l) store \<Rightarrow> 'o \<Rightarrow> order_row" where
  "orow a x \<equiv> the (s_orders a x)"

abbreviation lprice :: "('o, 'l) store \<Rightarrow> 'l \<Rightarrow> u64" where
  "lprice a l \<equiv> the (s_levels a l)"

definition queued :: "('o, 'l) store \<Rightarrow> 'o set" where
  "queued a = (\<Union>l. set (s_queue a l))"

definition queue_sum :: "('o, 'l) store \<Rightarrow> 'o list \<Rightarrow> nat" where
  "queue_sum a xs = sum_list (map (\<lambda>x. unat (r_rem (orow a x))) xs)"

definition store_wf :: "('o, 'l) store \<Rightarrow> bool" where
  "store_wf a \<longleftrightarrow>
     unat (s_cap a) < 2 ^ 32 \<and>
     finite (dom (s_orders a)) \<and> card (dom (s_orders a)) \<le> unat (s_cap a) \<and>
     finite (dom (s_levels a)) \<and> card (dom (s_levels a)) \<le> unat (s_cap a) \<and>
     length (s_trades a) \<le> Suc (unat (s_cap a)) \<and>
     (\<forall>l. distinct (s_queue a l) \<and> set (s_queue a l) \<subseteq> dom (s_orders a)) \<and>
     (\<forall>l k. l \<noteq> k \<longrightarrow> set (s_queue a l) \<inter> set (s_queue a k) = {}) \<and>
     (\<forall>l. l \<notin> dom (s_levels a) \<longrightarrow> s_queue a l = []) \<and>
     s_hash a \<subseteq> dom (s_orders a) \<and> inj_on (\<lambda>x. r_id (orow a x)) (s_hash a) \<and>
     (\<forall>b. set (s_tree a b) \<subseteq> dom (s_levels a) \<and>
        sorted_wrt (better b) (map (lprice a) (s_tree a b))) \<and>
     set (s_tree a Bids) \<inter> set (s_tree a Asks) = {}"

text \<open>The updates the operations perform.\<close>

definition upd_row :: "'o \<Rightarrow> (order_row \<Rightarrow> order_row) \<Rightarrow> ('o, 'l) store \<Rightarrow> ('o, 'l) store" where
  "upd_row x f a = a\<lparr>s_orders := (s_orders a)(x := map_option f (s_orders a x))\<rparr>"

definition set_queue :: "'l \<Rightarrow> 'o list \<Rightarrow> ('o, 'l) store \<Rightarrow> ('o, 'l) store" where
  "set_queue l xs a = a\<lparr>s_queue := (s_queue a)(l := xs)\<rparr>"

definition set_tree_of :: "book \<Rightarrow> 'l list \<Rightarrow> ('o, 'l) store \<Rightarrow> ('o, 'l) store" where
  "set_tree_of b ls a = a\<lparr>s_tree := (s_tree a)(b := ls)\<rparr>"

definition ins_level :: "('o, 'l) store \<Rightarrow> book \<Rightarrow> 'l \<Rightarrow> 'l list \<Rightarrow> 'l list" where
  "ins_level a b = ins_by (\<lambda>x y. better b (lprice a x) (lprice a y))"

section \<open>Facts about stores\<close>

lemma store_wfD:
  assumes "store_wf a"
  shows "unat (s_cap a) < 2 ^ 32" "finite (dom (s_orders a))" "finite (dom (s_levels a))"
    "card (dom (s_orders a)) \<le> unat (s_cap a)" "card (dom (s_levels a)) \<le> unat (s_cap a)"
    "length (s_trades a) \<le> Suc (unat (s_cap a))"
    "distinct (s_queue a l)" "set (s_queue a l) \<subseteq> dom (s_orders a)"
    "l \<noteq> k \<Longrightarrow> set (s_queue a l) \<inter> set (s_queue a k) = {}"
    "l \<notin> dom (s_levels a) \<Longrightarrow> s_queue a l = []"
    "s_hash a \<subseteq> dom (s_orders a)" "inj_on (\<lambda>x. r_id (orow a x)) (s_hash a)"
    "set (s_tree a b) \<subseteq> dom (s_levels a)" "sorted_wrt (better b) (map (lprice a) (s_tree a b))"
    "queued a \<subseteq> dom (s_orders a)"
  using assms unfolding store_wf_def queued_def by blast+

lemma store_wf_queue_length: "store_wf a \<Longrightarrow> length (s_queue a l) \<le> unat (s_cap a)"
  using store_wfD(2,4,7,8)[of a] card_mono[of "dom (s_orders a)" "set (s_queue a l)"]
  by (metis distinct_card le_trans)

lemma store_wf_tree_length: "store_wf a \<Longrightarrow> length (s_tree a b) \<le> unat (s_cap a)"
  using store_wfD(3,5,13)[of a] prio.sorted_distinct[OF store_wfD(14)[of a b]]
    card_mono[of "dom (s_levels a)" "set (s_tree a b)"]
  by (metis distinct_card le_trans)

lemma queued_simps [simp]:
  "queued (a\<lparr>s_orders := f\<rparr>) = queued a" "queued (a\<lparr>s_levels := g\<rparr>) = queued a"
  "queued (a\<lparr>s_hash := h\<rparr>) = queued a" "queued (a\<lparr>s_tree := t\<rparr>) = queued a"
  "queued (a\<lparr>s_trades := u\<rparr>) = queued a"
  by (simp_all add: queued_def)

lemma upd_row_simps [simp]:
  "s_cap (upd_row x f a) = s_cap a" "dom (s_orders (upd_row x f a)) = dom (s_orders a)"
  "s_levels (upd_row x f a) = s_levels a" "s_queue (upd_row x f a) = s_queue a"
  "s_hash (upd_row x f a) = s_hash a" "s_tree (upd_row x f a) = s_tree a"
  "s_trades (upd_row x f a) = s_trades a" "queued (upd_row x f a) = queued a"
  "y \<noteq> x \<Longrightarrow> s_orders (upd_row x f a) y = s_orders a y"
  "s_orders a x = Some r \<Longrightarrow> s_orders (upd_row x f a) x = Some (f r)"
  by (auto simp: upd_row_def queued_def dom_def)

lemma store_wf_upd_row:
  assumes "store_wf a" and "x \<in> s_hash a \<Longrightarrow> r_id (f (orow a x)) = r_id (orow a x)"
  shows "store_wf (upd_row x f a)"
proof -
  have "r_id (orow (upd_row x f a) y) = r_id (orow a y)" if y: "y \<in> s_hash a" for y
  proof (cases "y = x")
    case True
    obtain r where "s_orders a y = Some r" using y store_wfD(11)[OF assms(1)] by blast
    with True assms(2) y show ?thesis by simp
  qed simp
  then have "inj_on (\<lambda>y. r_id (orow (upd_row x f a) y)) (s_hash a) = inj_on (\<lambda>y. r_id (orow a y)) (s_hash a)"
    by (auto intro!: inj_on_cong)
  then show ?thesis using assms(1) by (simp add: store_wf_def)
qed

lemma set_queue_simps [simp]:
  "s_cap (set_queue l xs a) = s_cap a" "s_orders (set_queue l xs a) = s_orders a"
  "s_levels (set_queue l xs a) = s_levels a" "s_hash (set_queue l xs a) = s_hash a"
  "s_tree (set_queue l xs a) = s_tree a" "s_trades (set_queue l xs a) = s_trades a"
  "s_queue (set_queue l xs a) = (s_queue a)(l := xs)"
  by (simp_all add: set_queue_def)

lemma queued_set_queue: "queued (set_queue l xs a) = set xs \<union> (\<Union>k \<in> - {l}. set (s_queue a k))"
  by (auto simp: queued_def split: if_splits)

lemma queued_others:
  assumes "store_wf a" and "x \<in> set (s_queue a l)"
  shows "x \<notin> (\<Union>k \<in> - {l}. set (s_queue a k))"
  using store_wfD(9)[OF assms(1), of _ l] assms(2) by fastforce

lemma set_tree_of_simps [simp]:
  "s_cap (set_tree_of b ls a) = s_cap a" "s_orders (set_tree_of b ls a) = s_orders a"
  "s_levels (set_tree_of b ls a) = s_levels a" "s_hash (set_tree_of b ls a) = s_hash a"
  "s_queue (set_tree_of b ls a) = s_queue a" "s_trades (set_tree_of b ls a) = s_trades a"
  "s_tree (set_tree_of b ls a) = (s_tree a)(b := ls)" "queued (set_tree_of b ls a) = queued a"
  by (simp_all add: set_tree_of_def)

lemma all_book: "(\<forall>b. P b) \<longleftrightarrow> P Bids \<and> P Asks"
  by (metis book.exhaust)

lemma better_fun: "better Asks = (<)" "better Bids = (\<lambda>p q. q < p)"
  by (simp_all add: fun_eq_iff)

section \<open>The laws\<close>

text \<open>Capacity, trade sink, pools and payload.\<close>

locale row_store =
  fixes A :: "('s, 'o, 'l) engine_api" and rep :: "'s \<Rightarrow> ('o, 'l) store \<Rightarrow> bool"
  assumes rep_wf: "rep s a \<Longrightarrow> store_wf a"
    and capacity: "rep s a \<Longrightarrow> api_capacity A s = s_cap a"
    and order_count: "rep s a \<Longrightarrow> api_order_count A s = of_nat (card (dom (s_orders a)))"
    and trade_reset: "rep s a \<Longrightarrow> rep (api_trade_reset A s) (a\<lparr>s_trades := []\<rparr>)"
    and trade_emit: "rep s a \<Longrightarrow> length (s_trades a) \<le> unat (s_cap a) \<Longrightarrow>
      \<exists>s'. api_trade_emit A m t p q s = Inr s' \<and>
        rep s' (a\<lparr>s_trades := s_trades a @ [\<lparr>t_maker = m, t_taker = t, t_price = p, t_qty = q\<rparr>]\<rparr>)"
    and order_alloc: "rep s a \<Longrightarrow> card (dom (s_orders a)) < unat (s_cap a) \<Longrightarrow>
      \<exists>x r s'. api_order_alloc A s = (Some x, s') \<and> x \<notin> dom (s_orders a) \<and>
        rep s' (a\<lparr>s_orders := (s_orders a)(x \<mapsto> r)\<rparr>)"
    and order_alloc_full: "rep s a \<Longrightarrow> card (dom (s_orders a)) = unat (s_cap a) \<Longrightarrow>
      api_order_alloc A s = (None, s)"
    and order_free: "rep s a \<Longrightarrow> x \<in> dom (s_orders a) \<Longrightarrow> x \<notin> queued a \<Longrightarrow> x \<notin> s_hash a \<Longrightarrow>
      rep (api_order_free A x s) (a\<lparr>s_orders := (s_orders a)(x := None)\<rparr>)"
    and level_alloc: "rep s a \<Longrightarrow> card (dom (s_levels a)) < unat (s_cap a) \<Longrightarrow>
      \<exists>l p s'. api_level_alloc A s = (Some l, s') \<and> l \<notin> dom (s_levels a) \<and>
        rep s' (a\<lparr>s_levels := (s_levels a)(l \<mapsto> p)\<rparr>)"
    and level_alloc_full: "rep s a \<Longrightarrow> card (dom (s_levels a)) = unat (s_cap a) \<Longrightarrow>
      api_level_alloc A s = (None, s)"
    and level_free: "rep s a \<Longrightarrow> l \<in> dom (s_levels a) \<Longrightarrow> s_queue a l = [] \<Longrightarrow>
      (\<forall>b. l \<notin> set (s_tree a b)) \<Longrightarrow>
      rep (api_level_free A l s) (a\<lparr>s_levels := (s_levels a)(l := None)\<rparr>)"
    and order_get: "rep s a \<Longrightarrow> s_orders a x = Some r \<Longrightarrow>
      api_order_get_id A x s = r_id r \<and> api_order_get_account A x s = r_account r \<and>
      api_order_get_side A x s = r_side r \<and> api_order_get_stp_mode A x s = r_stp r \<and>
      api_order_get_price A x s = r_price r \<and> api_order_get_qty A x s = r_qty r \<and>
      api_order_get_remaining A x s = r_rem r"
    and order_set_id: "rep s a \<Longrightarrow> x \<in> dom (s_orders a) \<Longrightarrow> x \<notin> s_hash a \<Longrightarrow>
      rep (api_order_set_id A x v s) (upd_row x (\<lambda>r. r\<lparr>r_id := v\<rparr>) a)"
    and order_set_account: "rep s a \<Longrightarrow> x \<in> dom (s_orders a) \<Longrightarrow>
      rep (api_order_set_account A x v s) (upd_row x (\<lambda>r. r\<lparr>r_account := v\<rparr>) a)"
    and order_set_side: "rep s a \<Longrightarrow> x \<in> dom (s_orders a) \<Longrightarrow>
      rep (api_order_set_side A x v s) (upd_row x (\<lambda>r. r\<lparr>r_side := v\<rparr>) a)"
    and order_set_stp_mode: "rep s a \<Longrightarrow> x \<in> dom (s_orders a) \<Longrightarrow>
      rep (api_order_set_stp_mode A x v s) (upd_row x (\<lambda>r. r\<lparr>r_stp := v\<rparr>) a)"
    and order_set_price: "rep s a \<Longrightarrow> x \<in> dom (s_orders a) \<Longrightarrow>
      rep (api_order_set_price A x v s) (upd_row x (\<lambda>r. r\<lparr>r_price := v\<rparr>) a)"
    and order_set_qty: "rep s a \<Longrightarrow> x \<in> dom (s_orders a) \<Longrightarrow>
      rep (api_order_set_qty A x v s) (upd_row x (\<lambda>r. r\<lparr>r_qty := v\<rparr>) a)"
    and order_set_remaining: "rep s a \<Longrightarrow> x \<in> dom (s_orders a) \<Longrightarrow>
      (x \<in> queued a \<longrightarrow> v \<le> r_rem (orow a x)) \<Longrightarrow>
      rep (api_order_set_remaining A x v s) (upd_row x (\<lambda>r. r\<lparr>r_rem := v\<rparr>) a)"
    and level_get_price: "rep s a \<Longrightarrow> l \<in> dom (s_levels a) \<Longrightarrow> api_level_get_price A l s = lprice a l"
    and level_get_count: "rep s a \<Longrightarrow> l \<in> dom (s_levels a) \<Longrightarrow>
      api_level_get_count A l s = of_nat (length (s_queue a l))"
    and level_set_price: "rep s a \<Longrightarrow> l \<in> dom (s_levels a) \<Longrightarrow> (\<forall>b. l \<notin> set (s_tree a b)) \<Longrightarrow>
      rep (api_level_set_price A l v s) (a\<lparr>s_levels := (s_levels a)(l \<mapsto> v)\<rparr>)"

text \<open>The order-id index.\<close>

locale indexed_store = row_store +
  assumes hash_find_hit: "rep s a \<Longrightarrow> x \<in> s_hash a \<Longrightarrow>
      api_hash_find A (r_id (orow a x)) s = Inr (Some x)"
    and hash_find_miss: "rep s a \<Longrightarrow> (\<forall>x \<in> s_hash a. r_id (orow a x) \<noteq> i) \<Longrightarrow>
      api_hash_find A i s = Inr None"
    and hash_insert_present: "rep s a \<Longrightarrow> x \<in> dom (s_orders a) \<Longrightarrow> x \<notin> s_hash a \<Longrightarrow>
      (\<exists>y \<in> s_hash a. r_id (orow a y) = r_id (orow a x)) \<Longrightarrow> api_hash_insert A x s = Inr (False, s)"
    and hash_insert: "rep s a \<Longrightarrow> x \<in> dom (s_orders a) \<Longrightarrow> x \<notin> s_hash a \<Longrightarrow>
      (\<forall>y \<in> s_hash a. r_id (orow a y) \<noteq> r_id (orow a x)) \<Longrightarrow>
      \<exists>s'. api_hash_insert A x s = Inr (True, s') \<and> rep s' (a\<lparr>s_hash := insert x (s_hash a)\<rparr>)"
    and hash_remove: "rep s a \<Longrightarrow> x \<in> s_hash a \<Longrightarrow>
      \<exists>s'. api_hash_remove A x s = Inr s' \<and> rep s' (a\<lparr>s_hash := s_hash a - {x}\<rparr>)"

text \<open>The queues and the price trees.\<close>

locale engine_db = indexed_store +
  assumes queue_insert_tail: "rep s a \<Longrightarrow> l \<in> dom (s_levels a) \<Longrightarrow> x \<in> dom (s_orders a) \<Longrightarrow>
      x \<notin> queued a \<Longrightarrow> queue_sum a (s_queue a l @ [x]) < 2 ^ 64 \<Longrightarrow>
      rep (api_queue_insert_tail A l x s) (set_queue l (s_queue a l @ [x]) a)"
    and queue_remove: "rep s a \<Longrightarrow> l \<in> dom (s_levels a) \<Longrightarrow> x \<in> set (s_queue a l) \<Longrightarrow>
      rep (api_queue_remove A l x s) (set_queue l (remove1 x (s_queue a l)) a)"
    and queue_first: "rep s a \<Longrightarrow> l \<in> dom (s_levels a) \<Longrightarrow>
      api_queue_first A l s = (case s_queue a l of [] \<Rightarrow> None | x # _ \<Rightarrow> Some x)"
    and queue_next: "rep s a \<Longrightarrow> s_queue a l = xs @ x # ys \<Longrightarrow>
      api_queue_next A x s = (case ys of [] \<Rightarrow> None | y # _ \<Rightarrow> Some y)"
    and order_owner: "rep s a \<Longrightarrow> x \<in> set (s_queue a l) \<Longrightarrow> api_order_owner A x s = Some l"
    and order_owner_none: "rep s a \<Longrightarrow> x \<in> dom (s_orders a) \<Longrightarrow> x \<notin> queued a \<Longrightarrow>
      api_order_owner A x s = None"
    and book_find: "rep s a \<Longrightarrow>
      book_find A b p s = Inr (find (\<lambda>l. lprice a l = p) (s_tree a b))"
    and book_insert: "rep s a \<Longrightarrow> l \<in> dom (s_levels a) \<Longrightarrow> (\<forall>b. l \<notin> set (s_tree a b)) \<Longrightarrow>
      lprice a l \<notin> lprice a ` set (s_tree a b) \<Longrightarrow>
      \<exists>s'. book_insert A b l s = Inr s' \<and> rep s' (set_tree_of b (ins_level a b l (s_tree a b)) a)"
    and book_remove: "rep s a \<Longrightarrow> l \<in> set (s_tree a b) \<Longrightarrow>
      \<exists>s'. book_remove A b l s = Inr s' \<and> rep s' (set_tree_of b (remove1 l (s_tree a b)) a)"
    and book_best: "rep s a \<Longrightarrow>
      book_best A b s = Inr (case s_tree a b of [] \<Rightarrow> None | l # _ \<Rightarrow> Some l)"

end
