(* ===== verification/Store_Rep.thy ===== *)
theory Store_Rep
  imports Pools Hash_Index Order_Queue Price_Tree Engine_Db
begin

text \<open>
  How the handwritten data layer represents the store of the contract: \<open>db_rep m a\<close> says that
  the rows, free lists, hash chains, queues and search trees in the memory of \<open>m\<close> hold exactly
  the store \<open>a\<close>, level totals and counters included.

  For each operation of \<^verbatim>\<open>c/src/matching_engine_gen.c\<close> there is a lemma \<open>db_<operation>\<close>:
  on a represented store it returns, and the result represents the store updated in the way
  the contract asks for.  The adapter's interpretation of the contract and the handwritten
  engine both rest on these lemmas.
\<close>

section \<open>Representation\<close>

definition rows_rep :: "'z machine_scheme \<Rightarrow> (oref, lref) store \<Rightarrow> bool" where
  "rows_rep m a \<longleftrightarrow>
     (\<forall>x \<in> dom (s_orders a). s_orders a x = Some (row_at m x) \<and>
        (o_inlist m x \<longleftrightarrow> x \<in> queued a) \<and> (o_inhash m x \<longleftrightarrow> x \<in> s_hash a)) \<and>
     (\<forall>l \<in> dom (s_levels a). s_levels a l = Some (l_price m l))"

definition pools_rep :: "'z machine_scheme \<Rightarrow> (oref, lref) store \<Rightarrow> bool" where
  "pools_rep m a \<longleftrightarrow>
     (\<exists>fs. order_free_list m fs \<and> set fs \<inter> dom (s_orders a) = {} \<and>
        unat (s_cap a) \<le> card (dom (s_orders a)) + length fs) \<and>
     order_pool_n m = of_nat (card (dom (s_orders a))) \<and>
     (\<exists>fs. level_free_list m fs \<and> set fs \<inter> dom (s_levels a) = {} \<and>
        unat (s_cap a) \<le> card (dom (s_levels a)) + length fs) \<and>
     level_pool_n m = of_nat (card (dom (s_levels a)))"

definition queues_rep :: "'z machine_scheme \<Rightarrow> (oref, lref) store \<Rightarrow> bool" where
  "queues_rep m a \<longleftrightarrow> (\<forall>l \<in> dom (s_levels a).
     order_queue m l (s_queue a l) \<and> queue_total m l (s_queue a l))"

definition trees_rep :: "'z machine_scheme \<Rightarrow> (oref, lref) store \<Rightarrow> bool" where
  "trees_rep m a \<longleftrightarrow>
     price_tree m (bids_root m) (rev (s_tree a Bids)) \<and> bids_n m = of_nat (length (s_tree a Bids)) \<and>
     price_tree m (asks_root m) (s_tree a Asks) \<and> asks_n m = of_nat (length (s_tree a Asks))"

definition db_rep :: "'z machine_scheme \<Rightarrow> (oref, lref) store \<Rightarrow> bool" where
  "db_rep m a \<longleftrightarrow> store_wf a \<and> rows_rep m a \<and> pools_rep m a \<and> hash_rep m (s_hash a) \<and>
     queues_rep m a \<and> trees_rep m a"

lemmas db_rep_parts = rows_rep_def pools_rep_def queues_rep_def trees_rep_def

section \<open>What each part depends on\<close>

lemma hash_rep_cong:
  assumes "hash_rep m S"
    and "\<forall>x \<in> S. o_hnext m' x = o_hnext m x \<and> o_id m' x = o_id m x \<and> o_inhash m' x = o_inhash m x"
    and "ind_order_buckets m' = ind_order_buckets m" "ind_order_n m' = ind_order_n m"
  shows "hash_rep m' S"
proof -
  obtain B where B: "ind_order_buckets m = Some B" and
    ch: "\<forall>b. \<exists>xs. chain (o_hnext m) (B b) xs \<and> set xs = {x \<in> S. hash_order_id (o_id m x) = b}"
    using assms(1) unfolding hash_rep_def by blast
  have "\<exists>xs. chain (o_hnext m') (B b) xs \<and> set xs = {x \<in> S. hash_order_id (o_id m' x) = b}" for b
  proof -
    obtain xs where xs: "chain (o_hnext m) (B b) xs" "set xs = {x \<in> S. hash_order_id (o_id m x) = b}"
      using ch by blast
    then have "chain (o_hnext m') (B b) xs"
      using assms(2) by (subst chain_cong[of xs _ "o_hnext m"]) auto
    moreover have "set xs = {x \<in> S. hash_order_id (o_id m' x) = b}" using xs(2) assms(2) by auto
    ultimately show ?thesis by blast
  qed
  moreover have "inj_on (o_id m') S" using assms(1,2) by (auto simp: hash_rep_def inj_on_def)
  ultimately show ?thesis using assms B by (auto simp: hash_rep_def)
qed

lemma order_queue_cong:
  assumes "order_queue m l xs"
    and "\<forall>x \<in> set xs. o_next m' x = o_next m x \<and> o_prev m' x = o_prev m x \<and>
      o_inlist m' x = o_inlist m x \<and> o_level m' x = o_level m x"
    and "l_head m' l = l_head m l" "l_tail m' l = l_tail m l" "l_n m' l = l_n m l"
  shows "order_queue m' l xs"
proof -
  have "dll (o_next m') (o_prev m') (l_head m l) None xs (l_tail m l) None"
    using assms(1,2) by (subst dll_cong[of xs "o_next m'" "o_next m" "o_prev m'" "o_prev m"])
      (auto simp: order_queue_def)
  then show ?thesis using assms by (simp add: order_queue_def)
qed

lemma queue_total_cong:
  assumes "queue_total m l xs" and "\<forall>x \<in> set xs. o_rem m' x = o_rem m x" and "l_total m' l = l_total m l"
  shows "queue_total m' l xs"
proof -
  have "map (\<lambda>x. unat (o_rem m' x)) xs = map (\<lambda>x. unat (o_rem m x)) xs" using assms(2) by simp
  then show ?thesis using assms(1,3) by (simp only: queue_total_def)
qed

lemma price_tree_cong:
  assumes "price_tree m root xs"
    and "\<forall>x \<in> set xs. l_left m' x = l_left m x \<and> l_right m' x = l_right m x \<and>
      l_parent m' x = l_parent m x \<and> l_intree m' x = l_intree m x \<and> l_price m' x = l_price m x"
  shows "price_tree m' root xs"
proof -
  obtain t where t: "tree_at (l_left m) (l_right m) (l_parent m) root None t" "inorder t = xs"
    using assms(1) by (auto simp: price_tree_def)
  then have "tree_at (l_left m') (l_right m') (l_parent m') root None t"
    using assms(2) by (subst tree_at_cong[of t _ "l_left m" _ "l_right m" _ "l_parent m"])
      (auto simp flip: set_inorder)
  moreover have "map (l_price m') xs = map (l_price m) xs" using assms(2) by simp
  then have "sorted_wrt (<) (map (l_price m') xs)" using assms(1) by (simp only: price_tree_def)
  moreover have "\<forall>x \<in> set xs. l_intree m' x" using assms by (auto simp: price_tree_def)
  ultimately show ?thesis using t(2) unfolding price_tree_def by auto
qed

lemma free_list_cong:
  assumes "chain (o_free m) p fs" and "\<forall>x \<in> set fs. o_free m' x = o_free m x"
  shows "chain (o_free m') p fs"
  using assms by (subst chain_cong[of fs _ "o_free m"]) auto


lemma level_free_list_cong:
  assumes "chain (l_free m) p fs" and "\<forall>x \<in> set fs. l_free m' x = l_free m x"
  shows "chain (l_free m') p fs"
  using assms by (subst chain_cong[of fs _ "l_free m"]) auto

lemma queues_rep_cong:
  assumes "queues_rep m a"
    and "\<forall>x \<in> queued a. o_next m' x = o_next m x \<and> o_prev m' x = o_prev m x \<and>
      o_inlist m' x = o_inlist m x \<and> o_level m' x = o_level m x \<and> o_rem m' x = o_rem m x"
    and "\<forall>l \<in> dom (s_levels a). l_head m' l = l_head m l \<and> l_tail m' l = l_tail m l \<and>
      l_n m' l = l_n m l \<and> l_total m' l = l_total m l"
  shows "queues_rep m' a"
  unfolding queues_rep_def
proof
  fix l assume l: "l \<in> dom (s_levels a)"
  have q: "order_queue m l (s_queue a l)" "queue_total m l (s_queue a l)"
    using assms(1) l by (auto simp: queues_rep_def)
  have x: "x \<in> queued a" if "x \<in> set (s_queue a l)" for x using that by (auto simp: queued_def)
  show "order_queue m' l (s_queue a l) \<and> queue_total m' l (s_queue a l)"
    using order_queue_cong[OF q(1), of m'] queue_total_cong[OF q(2), of m'] x assms(2,3) l by simp
qed

lemma trees_rep_cong:
  assumes "trees_rep m a"
    and "\<forall>b. \<forall>x \<in> set (s_tree a b). l_left m' x = l_left m x \<and> l_right m' x = l_right m x \<and>
      l_parent m' x = l_parent m x \<and> l_intree m' x = l_intree m x \<and> l_price m' x = l_price m x"
    and "bids_root m' = bids_root m" "bids_n m' = bids_n m" "asks_root m' = asks_root m" "asks_n m' = asks_n m"
  shows "trees_rep m' a"
proof -
  have "price_tree m' (bids_root m) (rev (s_tree a Bids))" "price_tree m' (asks_root m) (s_tree a Asks)"
    using assms(1,2) by (auto simp: trees_rep_def intro!: price_tree_cong[of m])
  then show ?thesis using assms by (simp add: trees_rep_def)
qed

section \<open>Pool operations\<close>

lemma rep_simps [simp]:
  "queues_rep m (a\<lparr>s_orders := f\<rparr>) = queues_rep m a" "queues_rep m (a\<lparr>s_hash := h\<rparr>) = queues_rep m a"
  "queues_rep m (a\<lparr>s_tree := t\<rparr>) = queues_rep m a" "queues_rep m (a\<lparr>s_trades := u\<rparr>) = queues_rep m a"
  "trees_rep m (a\<lparr>s_orders := f\<rparr>) = trees_rep m a" "trees_rep m (a\<lparr>s_hash := h\<rparr>) = trees_rep m a"
  "trees_rep m (a\<lparr>s_queue := q\<rparr>) = trees_rep m a" "trees_rep m (a\<lparr>s_trades := u\<rparr>) = trees_rep m a"
  "trees_rep m (a\<lparr>s_levels := g\<rparr>) = trees_rep m a"
  "pools_rep m (a\<lparr>s_hash := h\<rparr>) = pools_rep m a" "pools_rep m (a\<lparr>s_queue := q\<rparr>) = pools_rep m a"
  "pools_rep m (a\<lparr>s_tree := t\<rparr>) = pools_rep m a" "pools_rep m (a\<lparr>s_trades := u\<rparr>) = pools_rep m a"
  by (simp_all add: db_rep_parts)

lemma db_repD:
  assumes "db_rep m a"
  shows "store_wf a" "rows_rep m a" "pools_rep m a" "hash_rep m (s_hash a)" "queues_rep m a" "trees_rep m a"
  using assms by (simp_all add: db_rep_def)

lemma db_rep_trades:
  "db_rep m a \<Longrightarrow> length ts \<le> Suc (unat (s_cap a)) \<Longrightarrow> db_rep m (a\<lparr>s_trades := ts\<rparr>)"
  by (auto simp: db_rep_def db_rep_parts store_wf_def)

lemma db_order_alloc:
  assumes r: "db_rep m a" and room: "card (dom (s_orders a)) < unat (s_cap a)"
  shows "\<exists>x v m'. EngineDb_order_pool_Alloc m = (Some x, m') \<and> x \<notin> dom (s_orders a) \<and>
    machine.more m' = machine.more m \<and> db_rep m' (a\<lparr>s_orders := (s_orders a)(x \<mapsto> v)\<rparr>)"
proof -
  have wf: "store_wf a" using r by (simp add: db_rep_def)
  obtain fs where fs: "order_free_list m fs" "set fs \<inter> dom (s_orders a) = {}"
    "unat (s_cap a) \<le> card (dom (s_orders a)) + length fs"
    using r by (auto simp: db_rep_def pools_rep_def)
  then obtain x gs where x: "fs = x # gs" using room by (cases fs) auto
  then obtain m' where run: "EngineDb_order_pool_Alloc m = (Some x, m')" and free: "order_free_list m' gs"
    and n: "order_pool_n m' = order_pool_n m + 1" and off: "\<not> o_inlist m' x" "\<not> o_inhash m' x"
    and step: "order_pool_step {x} m m'"
    using order_pool_Alloc_law fs(1) by blast
  have new: "x \<notin> dom (s_orders a)" using fs(2) x by auto
  then have nq: "\<forall>y \<in> queued a. y \<noteq> x" "\<forall>y \<in> s_hash a. y \<noteq> x" using store_wfD(11,15)[OF wf] by auto
  have globals: "machine.more m' = machine.more m" "ind_order_buckets m' = ind_order_buckets m"
    "ind_order_n m' = ind_order_n m" "bids_root m' = bids_root m" "bids_n m' = bids_n m"
    "asks_root m' = asks_root m" "asks_n m' = asks_n m" "level_pool_free m' = level_pool_free m"
    "level_pool_n m' = level_pool_n m"
    using step by (auto simp: order_pool_step_def dest: mem_only_fields)
  let ?a = "a\<lparr>s_orders := (s_orders a)(x \<mapsto> row_at m x)\<rparr>"
  have same: "o_next m' y = o_next m y" "o_prev m' y = o_prev m y" "o_inlist m' y = o_inlist m y"
    "o_hnext m' y = o_hnext m y" "o_inhash m' y = o_inhash m y" if "y \<noteq> x" for y
    using step that by (simp_all add: order_pool_step_def)
  have views: "row_at m' = row_at m" "o_rem m' = o_rem m" "o_id m' = o_id m" "o_level m' = o_level m"
    "level_mem m' = level_mem m"
    using step by (simp_all add: order_pool_step_def)
  have "store_wf ?a"
    using wf new nq room by (auto simp: store_wf_def inj_on_def)
  moreover have "rows_rep m' ?a"
    using db_repD(2)[OF r] same views off new nq unfolding rows_rep_def by auto
  moreover have "hash_rep m' (s_hash a)"
    by (rule hash_rep_cong[OF db_repD(4)[OF r]]) (use same nq in \<open>simp_all add: views globals\<close>)
  moreover have "queues_rep m' ?a"
    unfolding rep_simps
    by (rule queues_rep_cong[OF db_repD(5)[OF r]]) (use same nq in \<open>simp_all add: views\<close>)
  moreover have "trees_rep m' ?a"
    unfolding rep_simps by (rule trees_rep_cong[OF db_repD(6)[OF r]]) (simp_all add: views globals)
  moreover have "pools_rep m' ?a"
  proof -
    have "order_pool_n m = of_nat (card (dom (s_orders a)))" using r by (simp add: db_rep_def pools_rep_def)
    then have "order_pool_n m' = of_nat (card (dom (s_orders ?a)))"
      using n new store_wfD(2)[OF wf] by simp
    moreover have "set gs \<inter> dom (s_orders ?a) = {}" using fs(2) x chain_distinct[OF fs(1)] by auto
    moreover have "unat (s_cap ?a) \<le> card (dom (s_orders ?a)) + length gs"
      using fs(3) x new store_wfD(2)[OF wf] by simp
    moreover have "level_mem m' = level_mem m" using step by (simp add: order_pool_step_def)
    ultimately show ?thesis using r free unfolding db_rep_def pools_rep_def by (simp add: globals) blast
  qed
  ultimately show ?thesis using run new globals by (auto simp: db_rep_def)
qed


lemma db_order_free:
  assumes r: "db_rep m a" and x: "x \<in> dom (s_orders a)" "x \<notin> queued a" "x \<notin> s_hash a"
    and m': "m' = EngineDb_order_pool_Free (Some x) m"
  shows "db_rep m' (a\<lparr>s_orders := (s_orders a)(x := None)\<rparr>)" and "machine.more m' = machine.more m"
proof -
  have wf: "store_wf a" using r by (rule db_repD)
  note fin = store_wfD(2)[OF wf]
  obtain fs where fs: "order_free_list m fs" "set fs \<inter> dom (s_orders a) = {}"
    "unat (s_cap a) \<le> card (dom (s_orders a)) + length fs"
    using r by (auto simp: db_rep_def pools_rep_def)
  have pos: "card (dom (s_orders a)) > 0" using x(1) fin card_gt_0_iff by blast
  have n: "order_pool_n m = of_nat (card (dom (s_orders a)))" using r by (simp add: db_rep_def pools_rep_def)
  have "unat (order_pool_n m) = card (dom (s_orders a))"
    unfolding n using store_wfD(4,1)[OF wf] by (rule small_count)
  then have "order_pool_n m > 0" using pos by (simp add: word_less_nat_alt)
  note law = order_pool_Free_law[OF fs(1) _ this m']
  have "x \<notin> set fs" using fs(2) x(1) by blast
  note law = law[OF this]
  have globals: "machine.more m' = machine.more m" "ind_order_buckets m' = ind_order_buckets m"
    "ind_order_n m' = ind_order_n m" "bids_root m' = bids_root m" "bids_n m' = bids_n m"
    "asks_root m' = asks_root m" "asks_n m' = asks_n m" "level_pool_free m' = level_pool_free m"
    "level_pool_n m' = level_pool_n m"
    using law(3) by (auto simp: order_pool_step_def dest: mem_only_fields)
  have views: "row_at m' = row_at m" "o_rem m' = o_rem m" "o_id m' = o_id m" "o_level m' = o_level m"
    "level_mem m' = level_mem m" "o_next m' = o_next m" "o_prev m' = o_prev m" "o_hnext m' = o_hnext m"
    "o_inlist m' = o_inlist m" "o_inhash m' = o_inhash m"
    using law(3) by (auto simp: order_pool_step_def)
  let ?a = "a\<lparr>s_orders := (s_orders a)(x := None)\<rparr>"
  have nq: "\<forall>y \<in> queued a. y \<noteq> x" "\<forall>y \<in> s_hash a. y \<noteq> x" using x by auto
  have "card (dom (s_orders a) - {x}) \<le> unat (s_cap a)"
    using store_wfD(4)[OF wf] by (metis card_Diff1_le le_trans)
  then have "store_wf ?a"
    using wf x fin unfolding store_wf_def by (auto simp: queued_def inj_on_def)
  moreover have "rows_rep m' ?a"
    using db_repD(2)[OF r] unfolding rows_rep_def by (auto simp: views)
  moreover have "hash_rep m' (s_hash a)"
    by (rule hash_rep_cong[OF db_repD(4)[OF r]]) (simp_all add: views globals)
  moreover have "queues_rep m' ?a"
    unfolding rep_simps by (rule queues_rep_cong[OF db_repD(5)[OF r]]) (simp_all add: views)
  moreover have "trees_rep m' ?a"
    unfolding rep_simps by (rule trees_rep_cong[OF db_repD(6)[OF r]]) (simp_all add: views globals)
  moreover have "pools_rep m' ?a"
  proof -
    have c: "card (dom (s_orders ?a)) = card (dom (s_orders a)) - 1" using x(1) fin by simp
    have "order_pool_n m' = of_nat (card (dom (s_orders a)) - 1)"
      using law(2) n pos by (simp add: of_nat_diff)
    then have "order_pool_n m' = of_nat (card (dom (s_orders ?a)))" by (simp only: c)
    moreover have "set (x # fs) \<inter> dom (s_orders ?a) = {}" using fs(2) by auto
    moreover have "unat (s_cap ?a) \<le> card (dom (s_orders ?a)) + length (x # fs)"
      using fs(3) pos unfolding c by simp
    ultimately have "(\<exists>fs. order_free_list m' fs \<and> set fs \<inter> dom (s_orders ?a) = {} \<and>
        unat (s_cap ?a) \<le> card (dom (s_orders ?a)) + length fs) \<and>
        order_pool_n m' = of_nat (card (dom (s_orders ?a)))" using law(1) by blast
    then show ?thesis using db_repD(3)[OF r] unfolding pools_rep_def by (simp add: globals views)
  qed
  ultimately show "db_rep m' ?a" by (simp add: db_rep_def)
  show "machine.more m' = machine.more m" by (rule globals)
qed

lemma db_level_alloc:
  assumes r: "db_rep m a" and room: "card (dom (s_levels a)) < unat (s_cap a)"
  shows "\<exists>x v m'. EngineDb_level_pool_Alloc m = (Some x, m') \<and> x \<notin> dom (s_levels a) \<and>
    machine.more m' = machine.more m \<and> db_rep m' (a\<lparr>s_levels := (s_levels a)(x \<mapsto> v)\<rparr>)"
proof -
  have wf: "store_wf a" using r by (rule db_repD)
  obtain fs where fs: "level_free_list m fs" "set fs \<inter> dom (s_levels a) = {}"
    "unat (s_cap a) \<le> card (dom (s_levels a)) + length fs"
    using r by (auto simp: db_rep_def pools_rep_def)
  then obtain x gs where x: "fs = x # gs" using room by (cases fs) auto
  then obtain m' where run: "EngineDb_level_pool_Alloc m = (Some x, m')" and free: "level_free_list m' gs"
    and n: "level_pool_n m' = level_pool_n m + 1"
    and new_level: "l_head m' x = None" "l_tail m' x = None" "l_n m' x = 0" "l_total m' x = 0"
    and step: "level_pool_step {x} m m'"
    using level_pool_Alloc_law fs(1) by blast
  have new: "x \<notin> dom (s_levels a)" using fs(2) x by auto
  then have nt: "\<forall>l \<in> dom (s_levels a). l \<noteq> x" "\<forall>b. \<forall>y \<in> set (s_tree a b). y \<noteq> x" and qx: "s_queue a x = []"
    using store_wfD(10)[OF wf new] store_wfD(13)[OF wf] by auto
  have globals: "machine.more m' = machine.more m" "ind_order_buckets m' = ind_order_buckets m"
    "ind_order_n m' = ind_order_n m" "bids_root m' = bids_root m" "bids_n m' = bids_n m"
    "asks_root m' = asks_root m" "asks_n m' = asks_n m" "order_pool_free m' = order_pool_free m"
    "order_pool_n m' = order_pool_n m"
    using step by (auto simp: level_pool_step_def dest: mem_only_fields)
  have same: "l_head m' y = l_head m y" "l_tail m' y = l_tail m y" "l_n m' y = l_n m y"
    "l_total m' y = l_total m y" "l_parent m' y = l_parent m y" "l_left m' y = l_left m y"
    "l_right m' y = l_right m y" "l_intree m' y = l_intree m y" if "y \<noteq> x" for y
    using step that by (simp_all add: level_pool_step_def)
  have views: "order_mem m' = order_mem m" "l_price m' = l_price m"
    using step by (simp_all add: level_pool_step_def)
  let ?a = "a\<lparr>s_levels := (s_levels a)(x \<mapsto> l_price m x)\<rparr>"
  have lp: "map (lprice ?a) (s_tree a b) = map (lprice a) (s_tree a b)" for b using nt(2) by simp
  have "store_wf ?a"
    unfolding store_wf_def
    using wf new room qx store_wfD(3)[OF wf] lp unfolding store_wf_def by (auto simp del: map_eq_conv)
  moreover have "rows_rep m' ?a"
    using db_repD(2)[OF r] unfolding rows_rep_def by (auto simp: views)
  moreover have "hash_rep m' (s_hash a)"
    by (rule hash_rep_cong[OF db_repD(4)[OF r]]) (simp_all add: views globals)
  moreover have "queues_rep m' a"
    by (rule queues_rep_cong[OF db_repD(5)[OF r]]) (use same nt in \<open>simp_all add: views\<close>)
  then have "queues_rep m' ?a"
    using new_level qx by (simp add: queues_rep_def order_queue_def queue_total_def)
  moreover have "trees_rep m' ?a"
    unfolding rep_simps by (rule trees_rep_cong[OF db_repD(6)[OF r]]) (use same nt in \<open>simp_all add: views globals\<close>)
  moreover have "pools_rep m' ?a"
  proof -
    have "level_pool_n m = of_nat (card (dom (s_levels a)))" using r by (simp add: db_rep_def pools_rep_def)
    then have "level_pool_n m' = of_nat (card (dom (s_levels ?a)))"
      using n new store_wfD(3)[OF wf] by simp
    moreover have "set gs \<inter> dom (s_levels ?a) = {}" using fs(2) x chain_distinct[OF fs(1)] by auto
    moreover have "unat (s_cap ?a) \<le> card (dom (s_levels ?a)) + length gs"
      using fs(3) x new store_wfD(3)[OF wf] by simp
    ultimately show ?thesis using r free unfolding db_rep_def pools_rep_def by (simp add: globals views) blast
  qed
  ultimately show ?thesis using run new globals by (auto simp: db_rep_def)
qed

lemma db_level_free:
  assumes r: "db_rep m a" and x: "x \<in> dom (s_levels a)" "s_queue a x = []" "\<forall>b. x \<notin> set (s_tree a b)"
    and m': "m' = EngineDb_level_pool_Free (Some x) m"
  shows "db_rep m' (a\<lparr>s_levels := (s_levels a)(x := None)\<rparr>)" and "machine.more m' = machine.more m"
proof -
  have wf: "store_wf a" using r by (rule db_repD)
  note fin = store_wfD(3)[OF wf]
  obtain fs where fs: "level_free_list m fs" "set fs \<inter> dom (s_levels a) = {}"
    "unat (s_cap a) \<le> card (dom (s_levels a)) + length fs"
    using r by (auto simp: db_rep_def pools_rep_def)
  have pos: "card (dom (s_levels a)) > 0" using x(1) fin card_gt_0_iff by blast
  have n: "level_pool_n m = of_nat (card (dom (s_levels a)))" using r by (simp add: db_rep_def pools_rep_def)
  have "unat (level_pool_n m) = card (dom (s_levels a))"
    unfolding n using store_wfD(5,1)[OF wf] by (rule small_count)
  then have "level_pool_n m > 0" using pos by (simp add: word_less_nat_alt)
  note law = level_pool_Free_law[OF fs(1) _ this m']
  have "x \<notin> set fs" using fs(2) x(1) by blast
  note law = law[OF this]
  have globals: "machine.more m' = machine.more m" "ind_order_buckets m' = ind_order_buckets m"
    "ind_order_n m' = ind_order_n m" "bids_root m' = bids_root m" "bids_n m' = bids_n m"
    "asks_root m' = asks_root m" "asks_n m' = asks_n m" "order_pool_free m' = order_pool_free m"
    "order_pool_n m' = order_pool_n m"
    using law(3) by (auto simp: level_pool_step_def dest: mem_only_fields)
  have views: "order_mem m' = order_mem m" "l_price m' = l_price m" "l_head m' = l_head m" "l_tail m' = l_tail m"
    "l_n m' = l_n m" "l_total m' = l_total m" "l_parent m' = l_parent m" "l_left m' = l_left m"
    "l_right m' = l_right m" "l_intree m' = l_intree m"
    using law(3) by (auto simp: level_pool_step_def)
  let ?a = "a\<lparr>s_levels := (s_levels a)(x := None)\<rparr>"
  have lp: "map (lprice ?a) (s_tree a b) = map (lprice a) (s_tree a b)" for b using x(3) by auto
  have "card (dom (s_levels a) - {x}) \<le> unat (s_cap a)"
    using store_wfD(5)[OF wf] by (metis card_Diff1_le le_trans)
  then have "store_wf ?a"
    using wf x fin lp unfolding store_wf_def by (auto simp del: map_eq_conv)
  moreover have "rows_rep m' ?a"
    using db_repD(2)[OF r] unfolding rows_rep_def by (auto simp: views)
  moreover have "hash_rep m' (s_hash a)"
    by (rule hash_rep_cong[OF db_repD(4)[OF r]]) (simp_all add: views globals)
  moreover have "queues_rep m' a"
    by (rule queues_rep_cong[OF db_repD(5)[OF r]]) (simp_all add: views)
  then have "queues_rep m' ?a" by (auto simp: queues_rep_def)
  moreover have "trees_rep m' ?a"
    unfolding rep_simps by (rule trees_rep_cong[OF db_repD(6)[OF r]]) (simp_all add: views globals)
  moreover have "pools_rep m' ?a"
  proof -
    have c: "card (dom (s_levels ?a)) = card (dom (s_levels a)) - 1" using x(1) fin by simp
    have "level_pool_n m' = of_nat (card (dom (s_levels a)) - 1)"
      using law(2) n pos by (simp add: of_nat_diff)
    then have "level_pool_n m' = of_nat (card (dom (s_levels ?a)))" by (simp only: c)
    moreover have "set (x # fs) \<inter> dom (s_levels ?a) = {}" using fs(2) by auto
    moreover have "unat (s_cap ?a) \<le> card (dom (s_levels ?a)) + length (x # fs)"
      using fs(3) pos unfolding c by simp
    ultimately have "(\<exists>fs. level_free_list m' fs \<and> set fs \<inter> dom (s_levels ?a) = {} \<and>
        unat (s_cap ?a) \<le> card (dom (s_levels ?a)) + length fs) \<and>
        level_pool_n m' = of_nat (card (dom (s_levels ?a)))" using law(1) by blast
    then show ?thesis using db_repD(3)[OF r] unfolding pools_rep_def by (simp add: globals views)
  qed
  ultimately show "db_rep m' ?a" by (simp add: db_rep_def)
  show "machine.more m' = machine.more m" by (rule globals)
qed

section \<open>Payload writes\<close>

lemma rows_repD:
  assumes "db_rep m a" and "x \<in> dom (s_orders a)"
  shows "s_orders a x = Some (row_at m x)" "orow a x = row_at m x"
    "o_inlist m x \<longleftrightarrow> x \<in> queued a" "o_inhash m x \<longleftrightarrow> x \<in> s_hash a"
  using db_repD(2)[OF assms(1)] assms(2) by (auto simp: rows_rep_def)

lemma levels_repD:
  assumes "db_rep m a" and "l \<in> dom (s_levels a)"
  shows "s_levels a l = Some (l_price m l)" "lprice a l = l_price m l"
  using db_repD(2)[OF assms(1)] assms(2) by (auto simp: rows_rep_def)

text \<open>A step that rewrites the payload of one order with \<open>f\<close> and leaves the links alone.\<close>

definition row_step :: "oref \<Rightarrow> (order_row \<Rightarrow> order_row) \<Rightarrow> 'z machine_scheme \<Rightarrow> 'z machine_scheme \<Rightarrow> bool" where
  "row_step x f m m' \<longleftrightarrow> mem_only m m' \<and> level_mem m' = level_mem m \<and>
     row_at m' = (row_at m)(x := f (row_at m x)) \<and>
     o_next m' = o_next m \<and> o_prev m' = o_prev m \<and> o_inlist m' = o_inlist m \<and> o_level m' = o_level m \<and>
     o_hnext m' = o_hnext m \<and> o_inhash m' = o_inhash m \<and> o_free m' = o_free m"

lemma pools_rep_upd_row [simp]: "pools_rep m (upd_row x f a) = pools_rep m a"
  by (simp add: pools_rep_def)

lemma trees_rep_upd_row [simp]: "trees_rep m (upd_row x f a) = trees_rep m a"
  by (simp add: trees_rep_def)

lemma queues_rep_upd_row [simp]: "queues_rep m (upd_row x f a) = queues_rep m a"
  by (simp add: queues_rep_def)

lemma row_views: "o_id m = (\<lambda>y. r_id (row_at m y))" "o_rem m = (\<lambda>y. r_rem (row_at m y))"
  by simp_all

lemma db_set_row:
  assumes r: "db_rep m a" and x: "x \<in> dom (s_orders a)" and step: "row_step x f m m'"
    and ident: "x \<in> s_hash a \<longrightarrow> r_id (f (orow a x)) = r_id (orow a x)"
    and same_rem: "x \<in> queued a \<longrightarrow> r_rem (f (orow a x)) = r_rem (orow a x)"
  shows "db_rep m' (upd_row x f a)" and "machine.more m' = machine.more m"
proof -
  note wf = db_repD(1)[OF r]
  have globals: "machine.more m' = machine.more m" "ind_order_buckets m' = ind_order_buckets m"
    "ind_order_n m' = ind_order_n m" "bids_root m' = bids_root m" "bids_n m' = bids_n m"
    "asks_root m' = asks_root m" "asks_n m' = asks_n m" "order_pool_free m' = order_pool_free m"
    "order_pool_n m' = order_pool_n m" "level_pool_free m' = level_pool_free m"
    "level_pool_n m' = level_pool_n m"
    using step by (auto simp: row_step_def dest: mem_only_fields)
  have views: "level_mem m' = level_mem m" "row_at m' = (row_at m)(x := f (row_at m x))"
    "o_next m' = o_next m" "o_prev m' = o_prev m" "o_inlist m' = o_inlist m" "o_level m' = o_level m"
    "o_hnext m' = o_hnext m" "o_inhash m' = o_inhash m" "o_free m' = o_free m"
    using step by (simp_all add: row_step_def)
  have row: "orow a x = row_at m x" using r x by (rule rows_repD)
  have ids: "\<forall>y \<in> s_hash a. o_id m' y = o_id m y"
    using ident unfolding row_views views row by auto
  have rems: "\<forall>y \<in> queued a. o_rem m' y = o_rem m y"
    using same_rem unfolding row_views views row by auto
  have "store_wf (upd_row x f a)" using wf ident by (intro store_wf_upd_row) auto
  moreover have "rows_rep m' (upd_row x f a)"
    unfolding rows_rep_def upd_row_simps(2,3,5,8) views(5,8)
  proof (intro conjI ballI)
    fix y assume y: "y \<in> dom (s_orders a)"
    show "s_orders (upd_row x f a) y = Some (row_at m' y)"
      using rows_repD(1)[OF r y] by (cases "y = x") (simp_all add: views)
    show "o_inlist m y = (y \<in> queued a)" "o_inhash m y = (y \<in> s_hash a)" by (rule rows_repD[OF r y])+
  qed (use levels_repD[OF r] in \<open>simp add: views\<close>)
  moreover have "hash_rep m' (s_hash a)"
    by (rule hash_rep_cong[OF db_repD(4)[OF r]]) (use ids in \<open>simp_all add: views globals\<close>)
  moreover have "queues_rep m' a"
    by (rule queues_rep_cong[OF db_repD(5)[OF r]]) (use rems in \<open>simp_all add: views\<close>)
  moreover have "trees_rep m' a"
    by (rule trees_rep_cong[OF db_repD(6)[OF r]]) (simp_all add: views globals)
  moreover have "pools_rep m' a"
    using db_repD(3)[OF r] unfolding pools_rep_def by (simp add: globals views)
  ultimately show "db_rep m' (upd_row x f a)" by (simp add: db_rep_def)
  show "machine.more m' = machine.more m" by (rule globals)
qed

lemma row_step_writes:
  "row_step x (\<lambda>r. r\<lparr>r_id := v\<rparr>) m (set_o_id x v m)"
  "row_step x (\<lambda>r. r\<lparr>r_account := v\<rparr>) m (set_o_account x v m)"
  "row_step x (\<lambda>r. r\<lparr>r_side := v\<rparr>) m (set_o_side x v m)"
  "row_step x (\<lambda>r. r\<lparr>r_stp := v\<rparr>) m (set_o_stp x v m)"
  "row_step x (\<lambda>r. r\<lparr>r_price := v\<rparr>) m (set_o_price x v m)"
  "row_step x (\<lambda>r. r\<lparr>r_qty := v\<rparr>) m (set_o_qty x v m)"
  "row_step x (\<lambda>r. r\<lparr>r_rem := v\<rparr>) m (set_o_rem x v m)"
  by (simp_all add: row_step_def)

text \<open>Reducing the remaining quantity of a queued order, with its level's total.\<close>

lemma db_reduce:
  assumes r: "db_rep m a" and l: "x \<in> set (s_queue a l)" and v: "v \<le> r_rem (orow a x)"
    and m': "m' = set_o_rem x v (set_l_total l ((l_total m l - o_rem m x) + v) m)"
  shows "db_rep m' (upd_row x (\<lambda>r. r\<lparr>r_rem := v\<rparr>) a)" and "machine.more m' = machine.more m"
proof -
  note wf = db_repD(1)[OF r]
  let ?a = "upd_row x (\<lambda>r. r\<lparr>r_rem := v\<rparr>) a"
  have x: "x \<in> dom (s_orders a)" using l store_wfD(8)[OF wf] by blast
  have ldom: "l \<in> dom (s_levels a)" using l store_wfD(10)[OF wf] by force
  have row: "orow a x = row_at m x" using r x by (rule rows_repD)
  have "mem_only m m'" by (simp add: m')
  note globals = mem_only_fields[OF this]
  have views: "row_at m' = (row_at m)(x := (row_at m x)\<lparr>r_rem := v\<rparr>)" "o_rem m' = (o_rem m)(x := v)"
    "o_id m' = o_id m" "o_next m' = o_next m" "o_prev m' = o_prev m" "o_inlist m' = o_inlist m"
    "o_level m' = o_level m" "o_hnext m' = o_hnext m" "o_inhash m' = o_inhash m" "o_free m' = o_free m"
    "l_total m' = (l_total m)(l := (l_total m l - o_rem m x) + v)" "l_price m' = l_price m"
    "l_head m' = l_head m" "l_tail m' = l_tail m" "l_n m' = l_n m" "l_parent m' = l_parent m"
    "l_left m' = l_left m" "l_right m' = l_right m" "l_intree m' = l_intree m" "l_free m' = l_free m"
    by (simp_all add: m')
  have "store_wf ?a" using wf by (intro store_wf_upd_row) auto
  moreover have "rows_rep m' ?a"
    unfolding rows_rep_def upd_row_simps(2,3,5,8) views(6,9,12)
  proof (intro conjI ballI)
    fix y assume y: "y \<in> dom (s_orders a)"
    show "s_orders ?a y = Some (row_at m' y)"
      using rows_repD(1)[OF r y] by (cases "y = x") (simp_all add: views)
    show "o_inlist m y = (y \<in> queued a)" "o_inhash m y = (y \<in> s_hash a)" by (rule rows_repD[OF r y])+
  qed (use levels_repD[OF r] in simp)
  moreover have "hash_rep m' (s_hash a)"
    by (rule hash_rep_cong[OF db_repD(4)[OF r]]) (simp_all add: views globals)
  moreover have "order_queue m' k (s_queue a k) \<and> queue_total m' k (s_queue a k)" if k: "k \<in> dom (s_levels a)" for k
  proof -
    have q: "order_queue m k (s_queue a k)" "queue_total m k (s_queue a k)"
      using db_repD(5)[OF r] k by (auto simp: queues_rep_def)
    have "order_queue m' k (s_queue a k)" by (rule order_queue_cong[OF q(1)]) (simp_all add: views)
    moreover have "queue_total m' k (s_queue a k)"
    proof (cases "k = l")
      case False
      then have "x \<notin> set (s_queue a k)" using l store_wfD(9)[OF wf, of k l] by blast
      then have "\<forall>y \<in> set (s_queue a k). o_rem m' y = o_rem m y" unfolding views(2) by auto
      then show ?thesis by (rule queue_total_cong[OF q(2)]) (simp add: views(11) False)
    next
      case True
      obtain as bs where s: "s_queue a l = as @ x # bs" using l by (meson split_list)
      have "x \<notin> set as" "x \<notin> set bs" using store_wfD(7)[OF wf, of l] s by auto
      then have "map (\<lambda>y. unat (((o_rem m)(x := v)) y)) as = map (\<lambda>y. unat (o_rem m y)) as"
        "map (\<lambda>y. unat (((o_rem m)(x := v)) y)) bs = map (\<lambda>y. unat (o_rem m y)) bs"
        by (auto intro!: map_cong)
      note same = this[folded views(2)]
      let ?S = "sum_list (map (\<lambda>y. unat (o_rem m y)) as) + sum_list (map (\<lambda>y. unat (o_rem m y)) bs)"
      have tot: "unat (l_total m l) = ?S + unat (o_rem m x)"
        using q(2) unfolding True s queue_total_def by simp
      have vle: "unat v \<le> unat (o_rem m x)" using v by (simp add: row word_le_nat_alt)
      have "unat (l_total m l - o_rem m x) = ?S" using tot by (simp add: unat_sub_if_size word_size)
      moreover have "?S + unat v < 2 ^ 64"
        using tot vle unat_u64[of "l_total m l"] by simp
      ultimately have "unat (l_total m' l) = ?S + unat v"
        by (simp add: views unat_word_ariths)
      moreover have "unat (o_rem m' x) = unat v" by (simp add: views)
      ultimately show ?thesis unfolding True s queue_total_def map_append list.map same by simp
    qed
    ultimately show ?thesis ..
  qed
  then have "queues_rep m' a" by (simp add: queues_rep_def)
  moreover have "trees_rep m' a"
    by (rule trees_rep_cong[OF db_repD(6)[OF r]]) (simp_all add: views globals)
  moreover have "pools_rep m' a"
    using db_repD(3)[OF r] unfolding pools_rep_def by (simp add: globals views)
  ultimately show "db_rep m' ?a" by (simp add: db_rep_def)
  show "machine.more m' = machine.more m" by (rule globals)
qed


lemma db_level_set_price:
  assumes r: "db_rep m a" and l: "l \<in> dom (s_levels a)" "\<forall>b. l \<notin> set (s_tree a b)"
    and m': "m' = set_l_price l v m"
  shows "db_rep m' (a\<lparr>s_levels := (s_levels a)(l \<mapsto> v)\<rparr>)" and "machine.more m' = machine.more m"
proof -
  note wf = db_repD(1)[OF r]
  let ?a = "a\<lparr>s_levels := (s_levels a)(l \<mapsto> v)\<rparr>"
  have "mem_only m m'" by (simp add: m')
  note globals = mem_only_fields[OF this]
  have views: "order_mem m' = order_mem m" "l_price m' = (l_price m)(l := v)" "l_total m' = l_total m"
    "l_head m' = l_head m" "l_tail m' = l_tail m" "l_n m' = l_n m" "l_parent m' = l_parent m"
    "l_left m' = l_left m" "l_right m' = l_right m" "l_intree m' = l_intree m" "l_free m' = l_free m"
    by (simp_all add: m' upd_level_def)
  have d: "dom (s_levels ?a) = dom (s_levels a)" using l(1) by auto
  have lp: "map (lprice ?a) (s_tree a b) = map (lprice a) (s_tree a b)" for b using l(2) by auto
  have "sorted_wrt (better b) (map (lprice ?a) (s_tree a b))" for b
    unfolding lp by (rule store_wfD(14)[OF wf])
  then have "store_wf ?a" using wf unfolding store_wf_def d by simp
  moreover have "rows_rep m' ?a"
    using db_repD(2)[OF r] l(1) unfolding rows_rep_def by (auto simp: views)
  moreover have "hash_rep m' (s_hash a)"
    by (rule hash_rep_cong[OF db_repD(4)[OF r]]) (simp_all add: views globals)
  moreover have "queues_rep m' a"
    by (rule queues_rep_cong[OF db_repD(5)[OF r]]) (simp_all add: views)
  then have "queues_rep m' ?a" unfolding queues_rep_def d by simp
  moreover have "trees_rep m' ?a"
    unfolding rep_simps by (rule trees_rep_cong[OF db_repD(6)[OF r]]) (use l(2) in \<open>auto simp: views globals\<close>)
  moreover have "pools_rep m' ?a"
    using db_repD(3)[OF r] unfolding pools_rep_def d by (simp add: globals views)
  ultimately show "db_rep m' ?a" by (simp add: db_rep_def)
  show "machine.more m' = machine.more m" by (rule globals)
qed

section \<open>The index\<close>

lemma db_hash_ids:
  assumes r: "db_rep m a" and "x \<in> s_hash a"
  shows "r_id (orow a x) = o_id m x"
proof -
  have "x \<in> dom (s_orders a)" using store_wfD(11)[OF db_repD(1)[OF r]] assms(2) by blast
  then show ?thesis using rows_repD(2)[OF r] by simp
qed

lemma db_hash_find_hit:
  assumes r: "db_rep m a" and x: "x \<in> s_hash a"
  shows "EngineDb_ind_order_Find m (r_id (orow a x)) = Some (Some x)"
  using db_repD(4)[OF r] x db_hash_ids[OF r x, symmetric] by (rule ind_order_Find_hit)

lemma db_hash_find_miss:
  assumes r: "db_rep m a" and "\<forall>x \<in> s_hash a. r_id (orow a x) \<noteq> i"
  shows "EngineDb_ind_order_Find m i = Some None"
  using assms(2) db_hash_ids[OF r] by (intro ind_order_Find_miss[OF db_repD(4)[OF r]]) auto

text \<open>A step of the index changes the representation only in the hashed set.\<close>

lemma db_hash_step:
  assumes r: "db_rep m a" and step: "hash_step A m m'" and h: "hash_rep m' H"
    and flags: "\<forall>x \<in> dom (s_orders a). o_inhash m' x \<longleftrightarrow> x \<in> H"
    and H: "H \<subseteq> dom (s_orders a)" "inj_on (\<lambda>x. r_id (orow a x)) H"
  shows "db_rep m' (a\<lparr>s_hash := H\<rparr>)" and "machine.more m' = machine.more m"
proof -
  let ?m = "m\<lparr>ind_order_buckets := ind_order_buckets m', ind_order_n := ind_order_n m'\<rparr>"
  have "mem_only ?m m'" using step by (simp add: hash_step_def)
  note globals = mem_only_fields[OF this, simplified]
  have views: "level_mem m' = level_mem m" "row_at m' = row_at m" "o_rem m' = o_rem m" "o_next m' = o_next m"
    "o_prev m' = o_prev m" "o_inlist m' = o_inlist m" "o_level m' = o_level m" "o_free m' = o_free m"
    using step by (simp_all add: hash_step_def)
  have "store_wf (a\<lparr>s_hash := H\<rparr>)" using db_repD(1)[OF r] H unfolding store_wf_def by simp
  moreover have "rows_rep m' (a\<lparr>s_hash := H\<rparr>)"
    using db_repD(2)[OF r] flags unfolding rows_rep_def by (simp add: views)
  moreover have "queues_rep m' a" by (rule queues_rep_cong[OF db_repD(5)[OF r]]) (simp_all add: views)
  moreover have "trees_rep m' a" by (rule trees_rep_cong[OF db_repD(6)[OF r]]) (simp_all add: views globals)
  moreover have "pools_rep m' a"
    using db_repD(3)[OF r] unfolding pools_rep_def by (simp add: globals views)
  ultimately show "db_rep m' (a\<lparr>s_hash := H\<rparr>)" using h by (simp add: db_rep_def)
  show "machine.more m' = machine.more m" by (rule globals)
qed

lemma db_hash_insert_present:
  assumes r: "db_rep m a" and x: "x \<in> dom (s_orders a)" "x \<notin> s_hash a"
    and "\<exists>y \<in> s_hash a. r_id (orow a y) = r_id (orow a x)"
  shows "EngineDb_ind_order_InsertMaybe (Some x) m = Some (False, m)"
proof (rule ind_order_InsertMaybe_law(1)[OF db_repD(4)[OF r] x(2)])
  show "\<not> o_inhash m x" using rows_repD(4)[OF r x(1)] x(2) by simp
  show "\<exists>y \<in> s_hash a. o_id m y = o_id m x"
    using assms(4) db_hash_ids[OF r] rows_repD(2)[OF r x(1)] by auto
qed

lemma db_hash_insert:
  assumes r: "db_rep m a" and x: "x \<in> dom (s_orders a)" "x \<notin> s_hash a"
    and new: "\<forall>y \<in> s_hash a. r_id (orow a y) \<noteq> r_id (orow a x)"
  shows "\<exists>m'. EngineDb_ind_order_InsertMaybe (Some x) m = Some (True, m') \<and>
    db_rep m' (a\<lparr>s_hash := insert x (s_hash a)\<rparr>) \<and> machine.more m' = machine.more m"
proof -
  have off: "\<not> o_inhash m x" using rows_repD(4)[OF r x(1)] x(2) by simp
  have "\<forall>y \<in> s_hash a. o_id m y \<noteq> o_id m x"
    using new db_hash_ids[OF r] rows_repD(2)[OF r x(1)] by auto
  from ind_order_InsertMaybe_law(2)[OF db_repD(4)[OF r] x(2) off this] obtain m' where
    m': "EngineDb_ind_order_InsertMaybe (Some x) m = Some (True, m')" "hash_rep m' (insert x (s_hash a))"
      "hash_step {x} m m'" by blast
  have "\<forall>y \<in> dom (s_orders a). o_inhash m' y \<longleftrightarrow> y \<in> insert x (s_hash a)"
  proof
    fix y assume y: "y \<in> dom (s_orders a)"
    show "o_inhash m' y \<longleftrightarrow> y \<in> insert x (s_hash a)"
    proof (cases "y = x")
      case True
      then show ?thesis using m'(2) by (simp add: hash_rep_def)
    next
      case False
      then have "o_inhash m' y = o_inhash m y" using m'(3) by (simp add: hash_step_def)
      with False rows_repD(4)[OF r y] show ?thesis by simp
    qed
  qed
  moreover have "insert x (s_hash a) \<subseteq> dom (s_orders a)" "inj_on (\<lambda>x. r_id (orow a x)) (insert x (s_hash a))"
    using store_wfD(11,12)[OF db_repD(1)[OF r]] x new by (auto simp: inj_on_insert)
  ultimately show ?thesis using db_hash_step[OF r m'(3,2)] m'(1) by blast
qed

lemma db_hash_remove:
  assumes r: "db_rep m a" and x: "x \<in> s_hash a"
  shows "\<exists>m'. EngineDb_ind_order_Remove (Some x) m = Some m' \<and>
    db_rep m' (a\<lparr>s_hash := s_hash a - {x}\<rparr>) \<and> machine.more m' = machine.more m"
proof -
  obtain m' where m': "EngineDb_ind_order_Remove (Some x) m = Some m'" "hash_rep m' (s_hash a - {x})"
      "hash_step (s_hash a) m m'" "\<not> o_inhash m' x"
    using ind_order_Remove_law[OF db_repD(4)[OF r] x] by blast
  have "\<forall>y \<in> dom (s_orders a). o_inhash m' y \<longleftrightarrow> y \<in> s_hash a - {x}"
  proof
    fix y assume y: "y \<in> dom (s_orders a)"
    show "o_inhash m' y \<longleftrightarrow> y \<in> s_hash a - {x}"
    proof (cases "y \<in> s_hash a")
      case True
      then show ?thesis using m'(2,4) by (cases "y = x") (auto simp: hash_rep_def)
    next
      case False
      then have "o_inhash m' y = o_inhash m y" using m'(3) by (simp add: hash_step_def)
      with False rows_repD(4)[OF r y] show ?thesis by simp
    qed
  qed
  moreover have "s_hash a - {x} \<subseteq> dom (s_orders a)" "inj_on (\<lambda>x. r_id (orow a x)) (s_hash a - {x})"
    using store_wfD(11,12)[OF db_repD(1)[OF r]] by (auto intro: inj_on_subset)
  ultimately show ?thesis using db_hash_step[OF r m'(3,2)] m'(1) by blast
qed

section \<open>The queues\<close>

lemma db_queue_step:
  assumes r: "db_rep m a" and l: "l \<in> dom (s_levels a)" and step: "queue_step l A m m'"
    and q: "order_queue m' l ys" "queue_total m' l ys"
    and A: "\<forall>k. k \<noteq> l \<longrightarrow> A \<inter> set (s_queue a k) = {}"
    and ys: "distinct ys" "set ys \<subseteq> dom (s_orders a)" "\<forall>k. k \<noteq> l \<longrightarrow> set ys \<inter> set (s_queue a k) = {}"
    and off: "\<forall>x \<in> A - set ys. \<not> o_inlist m' x" and cover: "set (s_queue a l) \<subseteq> A" "set ys \<subseteq> A"
  shows "db_rep m' (set_queue l ys a)" and "machine.more m' = machine.more m"
proof -
  let ?a = "set_queue l ys a"
  note wf = db_repD(1)[OF r]
  have "mem_only m m'" using step by (simp add: queue_step_def)
  note globals = mem_only_fields[OF this]
  have views: "row_at m' = row_at m" "o_rem m' = o_rem m" "o_id m' = o_id m" "o_hnext m' = o_hnext m"
    "o_inhash m' = o_inhash m" "o_free m' = o_free m" "l_price m' = l_price m" "l_left m' = l_left m"
    "l_right m' = l_right m" "l_parent m' = l_parent m" "l_intree m' = l_intree m" "l_free m' = l_free m"
    using step by (simp_all add: queue_step_def)
  have "store_wf ?a" using wf ys l unfolding store_wf_def by auto
  moreover have "o_inlist m' x \<longleftrightarrow> x \<in> queued ?a" if x: "x \<in> dom (s_orders a)" for x
  proof (cases "x \<in> A")
    case True
    then have "x \<notin> (\<Union>k \<in> - {l}. set (s_queue a k))" using A by auto
    moreover have "o_inlist m' x \<longleftrightarrow> x \<in> set ys" using True off q(1) by (auto simp: order_queue_def)
    ultimately show ?thesis by (simp add: queued_set_queue)
  next
    case False
    then have "o_inlist m' x = (x \<in> queued a)"
      using step rows_repD(3)[OF r x] by (simp add: queue_step_def)
    moreover have "x \<notin> set (s_queue a l)" "x \<notin> set ys" using False cover by auto
    ultimately show ?thesis unfolding queued_set_queue by (auto simp: queued_def)
  qed
  then have "rows_rep m' ?a" using db_repD(2)[OF r] unfolding rows_rep_def by (simp add: views)
  moreover have "hash_rep m' (s_hash a)"
    by (rule hash_rep_cong[OF db_repD(4)[OF r]]) (simp_all add: views globals)
  moreover have "order_queue m' k (s_queue ?a k) \<and> queue_total m' k (s_queue ?a k)"
    if k: "k \<in> dom (s_levels a)" for k
  proof (cases "k = l")
    case False
    then have "A \<inter> set (s_queue a k) = {}" using A by blast
    with queue_step_other[OF step False] show ?thesis
      using db_repD(5)[OF r] k False by (auto simp: queues_rep_def)
  qed (use q in simp)
  then have "queues_rep m' ?a" by (simp add: queues_rep_def)
  moreover have "trees_rep m' a" by (rule trees_rep_cong[OF db_repD(6)[OF r]]) (simp_all add: views globals)
  then have "trees_rep m' ?a" by (simp add: trees_rep_def)
  moreover have "pools_rep m' ?a"
    using db_repD(3)[OF r] unfolding pools_rep_def by (simp add: globals views)
  ultimately show "db_rep m' ?a" by (simp add: db_rep_def)
  show "machine.more m' = machine.more m" by (rule globals)
qed

lemma db_queueD:
  "db_rep m a \<Longrightarrow> l \<in> dom (s_levels a) \<Longrightarrow> order_queue m l (s_queue a l)"
  "db_rep m a \<Longrightarrow> l \<in> dom (s_levels a) \<Longrightarrow> queue_total m l (s_queue a l)"
  using db_repD(5) unfolding queues_rep_def by blast+

lemma queue_sum_rep:
  assumes r: "db_rep m a" and "set xs \<subseteq> dom (s_orders a)"
  shows "queue_sum a xs = sum_list (map (\<lambda>x. unat (o_rem m x)) xs)"
proof -
  have "map (\<lambda>x. unat (r_rem (orow a x))) xs = map (\<lambda>x. unat (o_rem m x)) xs"
    using rows_repD(2)[OF r] assms(2) by (intro map_cong refl) (simp add: subset_iff)
  then show ?thesis by (simp only: queue_sum_def)
qed

lemma db_queue_insert_tail:
  assumes r: "db_rep m a" and l: "l \<in> dom (s_levels a)" and x: "x \<in> dom (s_orders a)" "x \<notin> queued a"
    and sum: "queue_sum a (s_queue a l @ [x]) < 2 ^ 64"
    and m': "m' = PriceLevel_orders_InsertTail (Some l) (Some x) m"
  shows "db_rep m' (set_queue l (s_queue a l @ [x]) a)" and "machine.more m' = machine.more m"
proof -
  note wf = db_repD(1)[OF r]
  have q: "order_queue m l (s_queue a l)" "queue_total m l (s_queue a l)"
    using r l by (rule db_queueD)+
  have off: "\<not> o_inlist m x" using rows_repD(3)[OF r x(1)] x(2) by simp
  have xs: "x \<notin> set (s_queue a k)" for k using x(2) by (auto simp: queued_def)
  note law = orders_InsertTail_law[OF q(1) off xs m']
  have "set (s_queue a l @ [x]) \<subseteq> dom (s_orders a)" using store_wfD(8)[OF wf] x(1) by auto
  then have tot: "queue_total m' l (s_queue a l @ [x])"
    using law(2)[OF q(2)] sum queue_sum_rep[OF r] by metis
  have disj: "\<forall>k. k \<noteq> l \<longrightarrow> insert x (set (s_queue a l)) \<inter> set (s_queue a k) = {}"
    using store_wfD(9)[OF wf] xs by auto
  note rule = db_queue_step[OF r l law(3,1) tot]
  show "db_rep m' (set_queue l (s_queue a l @ [x]) a)" "machine.more m' = machine.more m"
    by (rule rule; use disj store_wfD(7,8)[OF wf, of l] xs x in force)+
qed

lemma db_queue_remove:
  assumes r: "db_rep m a" and l: "l \<in> dom (s_levels a)" and x: "x \<in> set (s_queue a l)"
    and m': "m' = PriceLevel_orders_Remove (Some l) (Some x) m"
  shows "db_rep m' (set_queue l (remove1 x (s_queue a l)) a)" and "machine.more m' = machine.more m"
proof -
  note wf = db_repD(1)[OF r]
  obtain as bs where s: "s_queue a l = as @ x # bs" using x by (meson split_list)
  have q: "order_queue m l (as @ x # bs)" "queue_total m l (as @ x # bs)"
    using db_queueD[OF r l] s by simp_all
  have small: "length (as @ x # bs) < 2 ^ 32"
    using store_wf_queue_length[OF wf, of l] store_wfD(1)[OF wf] s by simp
  note law = orders_Remove_law[OF q(1) small m']
  have d: "distinct (as @ x # bs)" using store_wfD(7)[OF wf, of l] s by simp
  then have rm: "remove1 x (s_queue a l) = as @ bs" by (simp add: s remove1_append)
  have disj: "\<forall>k. k \<noteq> l \<longrightarrow> set (as @ x # bs) \<inter> set (s_queue a k) = {}"
    using store_wfD(9)[OF wf, of l] s by auto
  note rule = db_queue_step[OF r l law(3,1) law(2)[OF q(2)]]
  show "db_rep m' (set_queue l (remove1 x (s_queue a l)) a)" "machine.more m' = machine.more m"
    unfolding rm by (rule rule; use disj d law(4) s store_wfD(8)[OF wf, of l] in force)+
qed

lemma db_queue_first:
  assumes r: "db_rep m a" and l: "l \<in> dom (s_levels a)"
  shows "PriceLevel_orders_First m (Some l) = (case s_queue a l of [] \<Rightarrow> None | x # _ \<Rightarrow> Some x)"
  using db_repD(5)[OF r] l by (intro orders_First_law) (auto simp: queues_rep_def)

lemma db_queue_next:
  assumes r: "db_rep m a" and s: "s_queue a l = xs @ x # ys"
  shows "PriceLevel_orders_Next m (Some x) = (case ys of [] \<Rightarrow> None | y # _ \<Rightarrow> Some y)"
proof -
  have "l \<in> dom (s_levels a)" using store_wfD(10)[OF db_repD(1)[OF r], of l] s by force
  from db_queueD(1)[OF r this] show ?thesis unfolding s by (rule orders_Next_law)
qed

lemma db_queue_owner:
  assumes r: "db_rep m a" and x: "x \<in> set (s_queue a l)"
  shows "o_level m x = Some l" and "o_inlist m x"
proof -
  have "l \<in> dom (s_levels a)" using store_wfD(10)[OF db_repD(1)[OF r], of l] x by force
  then have "order_queue m l (s_queue a l)" using db_repD(5)[OF r] by (simp add: queues_rep_def)
  then show "o_level m x = Some l" "o_inlist m x" using x by (auto simp: order_queue_def)
qed

lemma db_queue_count:
  assumes r: "db_rep m a" and l: "l \<in> dom (s_levels a)"
  shows "unat (l_n m l) = length (s_queue a l)"
proof -
  have "l_n m l = of_nat (length (s_queue a l))" using db_repD(5)[OF r] l by (simp add: queues_rep_def order_queue_def)
  then show ?thesis
    using small_count32[OF store_wf_queue_length store_wfD(1)] db_repD(1)[OF r] by simp
qed


section \<open>The price trees\<close>

text \<open>The in-order list of a book's search tree, and its root and count.\<close>

fun tree_order :: "book \<Rightarrow> lref list \<Rightarrow> lref list" where
  "tree_order Bids ls = rev ls"
| "tree_order Asks ls = ls"

fun root_of :: "book \<Rightarrow> 'z machine_scheme \<Rightarrow> lref option" where
  "root_of Bids m = bids_root m"
| "root_of Asks m = asks_root m"

fun count_of :: "book \<Rightarrow> 'z machine_scheme \<Rightarrow> u32" where
  "count_of Bids m = bids_n m"
| "count_of Asks m = asks_n m"

lemma set_tree_order [simp]: "set (tree_order b ls) = set ls"
  by (cases b) simp_all

lemma trees_rep_iff:
  "trees_rep m a \<longleftrightarrow> (\<forall>b. price_tree m (root_of b m) (tree_order b (s_tree a b)) \<and>
     count_of b m = of_nat (length (s_tree a b)))"
  by (simp add: trees_rep_def all_book)

lemma map_lprice:
  assumes r: "db_rep m a" and "set ls \<subseteq> dom (s_levels a)"
  shows "map (lprice a) ls = map (l_price m) ls"
  using levels_repD(2)[OF r] assms(2) by (intro map_cong refl) (simp add: subset_iff)

lemma tree_lprice:
  assumes r: "db_rep m a" and "l \<in> set (s_tree a b)"
  shows "lprice a l = l_price m l"
proof -
  have "l \<in> dom (s_levels a)" using store_wfD(13)[OF db_repD(1)[OF r]] assms(2) by blast
  with r show ?thesis by (rule levels_repD)
qed

text \<open>A step of one tree: the other one is untouched because they share no level.\<close>

lemma db_tree_step:
  assumes r: "db_rep m a" and step: "tree_step A m m1"
    and m': "m' = (case b of Bids \<Rightarrow> m1\<lparr>bids_root := root, bids_n := n\<rparr> | Asks \<Rightarrow> m1\<lparr>asks_root := root, asks_n := n\<rparr>)"
    and tree: "price_tree m1 root (tree_order b ls)" and n: "n = of_nat (length ls)"
    and A: "A \<inter> set (s_tree a (opposite b)) = {}"
    and ls: "set ls \<subseteq> A" "set ls \<subseteq> dom (s_levels a)" "sorted_wrt (better b) (map (lprice a) ls)"
  shows "db_rep m' (set_tree_of b ls a)" and "machine.more m' = machine.more m"
proof -
  let ?a = "set_tree_of b ls a"
  note wf = db_repD(1)[OF r]
  have "mem_only m m1" using step by (simp add: tree_step_def)
  note globals = mem_only_fields[OF this]
  have mem: "order_mem m' = order_mem m" "level_mem m' = level_mem m1"
    using step m' by (cases b; simp add: tree_step_def)+
  have g: "ind_order_buckets m' = ind_order_buckets m" "ind_order_n m' = ind_order_n m"
    "order_pool_free m' = order_pool_free m" "order_pool_n m' = order_pool_n m"
    "level_pool_free m' = level_pool_free m" "level_pool_n m' = level_pool_n m"
    using m' by (cases b; simp add: globals)+
  have views: "l_price m1 = l_price m" "l_total m1 = l_total m" "l_head m1 = l_head m" "l_tail m1 = l_tail m"
    "l_n m1 = l_n m" "l_free m1 = l_free m"
    using step by (simp_all add: tree_step_def)
  have disj: "set ls \<inter> set (s_tree a (opposite b)) = {}" using A ls(1) by blast
  have "set (s_tree ?a Bids) \<inter> set (s_tree ?a Asks) = {}" using disj by (cases b) auto
  then have "store_wf ?a" using wf ls unfolding store_wf_def by simp
  moreover have "rows_rep m' ?a" using db_repD(2)[OF r] unfolding rows_rep_def by (simp add: mem views)
  moreover have "hash_rep m' (s_hash a)"
    by (rule hash_rep_cong[OF db_repD(4)[OF r]]) (simp_all add: mem g)
  moreover have "queues_rep m' a"
    by (rule queues_rep_cong[OF db_repD(5)[OF r]]) (simp_all add: mem views)
  then have "queues_rep m' ?a" by (simp add: queues_rep_def)
  moreover have "pools_rep m' ?a"
    using db_repD(3)[OF r] unfolding pools_rep_def by (simp add: mem g views)
  moreover have "price_tree m' (root_of c m') (tree_order c (s_tree ?a c)) \<and>
      count_of c m' = of_nat (length (s_tree ?a c))" for c
  proof (cases "c = b")
    case True
    have "price_tree m' root (tree_order b ls)"
      by (rule price_tree_cong[OF tree]) (simp add: mem)
    then show ?thesis using True m' n by (cases b) simp_all
  next
    case False
    then have c: "c = opposite b" by (cases b; cases c) simp_all
    have old: "price_tree m (root_of c m) (tree_order c (s_tree a c))" "count_of c m = of_nat (length (s_tree a c))"
      using db_repD(6)[OF r] by (simp_all add: trees_rep_iff)
    have "price_tree m' (root_of c m) (tree_order c (s_tree a c))"
    proof (rule price_tree_cong[OF old(1)])
      have "x \<notin> A" if "x \<in> set (s_tree a c)" for x using that A c by blast
      then show "\<forall>x \<in> set (tree_order c (s_tree a c)). l_left m' x = l_left m x \<and> l_right m' x = l_right m x \<and>
          l_parent m' x = l_parent m x \<and> l_intree m' x = l_intree m x \<and> l_price m' x = l_price m x"
        using step by (simp add: tree_step_def mem)
    qed
    moreover have "root_of c m' = root_of c m" "count_of c m' = count_of c m"
      using m' c by (cases b; simp add: globals)+
    ultimately show ?thesis using False old(2) by simp
  qed
  then have "trees_rep m' ?a" unfolding trees_rep_iff by blast
  ultimately show "db_rep m' ?a" by (simp add: db_rep_def)
  show "machine.more m' = machine.more m" using m' by (cases b; simp add: globals)
qed

fun EngineDb_book_Insert :: "book \<Rightarrow> lref option \<Rightarrow> 'z machine_scheme \<Rightarrow> 'z machine_scheme option" where
  "EngineDb_book_Insert Bids = EngineDb_bids_Insert"
| "EngineDb_book_Insert Asks = EngineDb_asks_Insert"

fun EngineDb_book_Remove :: "book \<Rightarrow> lref option \<Rightarrow> 'z machine_scheme \<Rightarrow> 'z machine_scheme option" where
  "EngineDb_book_Remove Bids = EngineDb_bids_Remove"
| "EngineDb_book_Remove Asks = EngineDb_asks_Remove"

lemma db_tree_insert:
  assumes r: "db_rep m a" and l: "l \<in> dom (s_levels a)" "\<forall>b. l \<notin> set (s_tree a b)"
    and new: "lprice a l \<notin> lprice a ` set (s_tree a b)"
  shows "\<exists>m'. EngineDb_book_Insert b (Some l) m = Some m' \<and>
    db_rep m' (set_tree_of b (ins_level a b l (s_tree a b)) a) \<and> machine.more m' = machine.more m"
proof -
  note wf = db_repD(1)[OF r]
  let ?xs = "tree_order b (s_tree a b)" and ?ls = "ins_level a b l (s_tree a b)"
  have dom: "set (s_tree a b) \<subseteq> dom (s_levels a)" by (rule store_wfD(13)[OF wf])
  have tr: "price_tree m (root_of b m) ?xs" "count_of b m = of_nat (length (s_tree a b))"
    using db_repD(6)[OF r] by (simp_all add: trees_rep_iff)
  have img: "lprice a ` set (s_tree a b) = l_price m ` set (s_tree a b)"
    using tree_lprice[OF r] by (intro image_cong refl)
  have pn: "l_price m l \<notin> l_price m ` set ?xs"
    using new levels_repD(2)[OF r l(1)] img by simp
  have ln: "l \<notin> set ?xs" using l(2) by simp
  obtain root m1 where ins: "tree_insert (root_of b m) (Some l) m = Some (root, m1)"
    and t1: "price_tree m1 root (ins_by (\<lambda>x y. l_price m x < l_price m y) l ?xs)"
    and step: "tree_step (insert l (set ?xs)) m m1"
    using tree_insert_law[OF tr(1) ln pn] by blast
  have prices: "l_price m1 = l_price m" using step by (simp add: tree_step_def)
  have "sorted_wrt (better b) (map (lprice a) ?ls)"
    unfolding ins_level_def by (rule prio.sorted_insert[OF store_wfD(14)[OF wf] new])
  note srt = this
  have sub: "set ?ls \<subseteq> insert l (set ?xs)" "set ?ls \<subseteq> dom (s_levels a)"
    using dom l(1) by (auto simp: ins_level_def)
  have mp: "map (lprice a) ?ls = map (l_price m) ?ls" by (rule map_lprice[OF r sub(2)])
  have "sorted_wrt (<) (map (l_price m) (tree_order b ?ls))"
    using srt unfolding mp by (cases b) (simp_all add: better_fun sorted_wrt_rev flip: rev_map)
  moreover have "sorted_wrt (<) (map (l_price m) (ins_by (\<lambda>x y. l_price m x < l_price m y) l ?xs))"
    using t1 prices by (simp add: price_tree_def)
  ultimately have "ins_by (\<lambda>x y. l_price m x < l_price m y) l ?xs = tree_order b ?ls"
    by (intro prio.sorted_unique[of Asks "l_price m"]) (simp_all add: better_fun ins_level_def)
  with t1 have t2: "price_tree m1 root (tree_order b ?ls)" by simp
  define n where "n = count_of b m1 + 1"
  have "count_of b m1 = count_of b m"
    using step by (cases b) (auto simp: tree_step_def dest: mem_only_fields)
  then have n: "n = of_nat (length ?ls)"
    using tr(2) length_ins_by[of "\<lambda>x y. better b (lprice a x) (lprice a y)"] by (simp add: n_def ins_level_def)
  have disj: "insert l (set ?xs) \<inter> set (s_tree a (opposite b)) = {}"
    using l(2) wf by (cases b) (auto simp: store_wf_def)
  let ?m = "case b of Bids \<Rightarrow> m1\<lparr>bids_root := root, bids_n := n\<rparr> | Asks \<Rightarrow> m1\<lparr>asks_root := root, asks_n := n\<rparr>"
  have "EngineDb_book_Insert b (Some l) m = Some ?m"
    using ins by (cases b) (simp_all add: EngineDb_bids_Insert_def EngineDb_asks_Insert_def n_def)
  with db_tree_step[OF r step refl t2 n disj sub srt] show ?thesis by blast
qed

lemma db_tree_remove:
  assumes r: "db_rep m a" and l: "l \<in> set (s_tree a b)"
  shows "\<exists>m'. EngineDb_book_Remove b (Some l) m = Some m' \<and>
    db_rep m' (set_tree_of b (remove1 l (s_tree a b)) a) \<and> machine.more m' = machine.more m"
proof -
  note wf = db_repD(1)[OF r]
  let ?xs = "tree_order b (s_tree a b)" and ?ls = "remove1 l (s_tree a b)"
  have d: "distinct (s_tree a b)" by (rule prio.sorted_distinct[OF store_wfD(14)[OF wf]])
  have tr: "price_tree m (root_of b m) ?xs" "count_of b m = of_nat (length (s_tree a b))"
    using db_repD(6)[OF r] by (simp_all add: trees_rep_iff)
  have lx: "l \<in> set ?xs" using l by simp
  obtain root m1 where rm: "tree_remove (root_of b m) (Some l) m = Some (root, m1)"
    and t1: "price_tree m1 root (remove1 l ?xs)" and step: "tree_step (set ?xs) m m1"
    using tree_remove_law[OF tr(1) lx] by blast
  have "remove1 l ?xs = tree_order b ?ls"
    using d by (cases b) (simp_all add: distinct_remove1_removeAll removeAll_filter_not_eq rev_filter)
  with t1 have t2: "price_tree m1 root (tree_order b ?ls)" by simp
  define n where "n = (if count_of b m1 > 0 then count_of b m1 - 1 else count_of b m1)"
  have "count_of b m1 = of_nat (length (s_tree a b))"
    using step tr(2) by (cases b) (auto simp: tree_step_def dest: mem_only_fields)
  moreover have "unat (of_nat (length (s_tree a b)) :: u32) = length (s_tree a b)"
    by (rule small_count32[OF store_wf_tree_length store_wfD(1)]) (rule wf)+
  moreover obtain k where "length (s_tree a b) = Suc k" using l by (cases "s_tree a b") auto
  ultimately have n: "n = of_nat (length ?ls)"
    using l by (simp add: n_def length_remove1 word_less_nat_alt)
  have disj: "set ?xs \<inter> set (s_tree a (opposite b)) = {}"
    using wf by (cases b) (auto simp: store_wf_def)
  have sub: "set ?ls \<subseteq> set ?xs" "set ?ls \<subseteq> dom (s_levels a)"
    using set_remove1_subset[of l "s_tree a b"] store_wfD(13)[OF wf, of b] by auto
  have srt: "sorted_wrt (better b) (map (lprice a) ?ls)"
    by (rule sorted_wrt_map_remove1[OF store_wfD(14)[OF wf]])
  let ?m = "case b of Bids \<Rightarrow> m1\<lparr>bids_root := root, bids_n := n\<rparr> | Asks \<Rightarrow> m1\<lparr>asks_root := root, asks_n := n\<rparr>"
  have "EngineDb_book_Remove b (Some l) m = Some ?m"
    using rm by (cases b) (simp_all add: EngineDb_bids_Remove_def EngineDb_asks_Remove_def n_def)
  with db_tree_step[OF r step refl t2 n disj sub srt] show ?thesis by blast
qed

fun EngineDb_book_Find :: "book \<Rightarrow> 'z machine_scheme \<Rightarrow> u64 \<Rightarrow> lref option option" where
  "EngineDb_book_Find Bids = EngineDb_bids_Find"
| "EngineDb_book_Find Asks = EngineDb_asks_Find"

fun EngineDb_book_Best :: "book \<Rightarrow> 'z machine_scheme \<Rightarrow> lref option option" where
  "EngineDb_book_Best Bids = EngineDb_bids_Best"
| "EngineDb_book_Best Asks = EngineDb_asks_Best"

lemma db_tree_find:
  assumes r: "db_rep m a"
  shows "EngineDb_book_Find b m p = Some (find (\<lambda>l. lprice a l = p) (s_tree a b))"
proof -
  note wf = db_repD(1)[OF r]
  have tr: "price_tree m (root_of b m) (tree_order b (s_tree a b))"
    using db_repD(6)[OF r] by (simp add: trees_rep_iff)
  have "EngineDb_book_Find b m p = Some (find (\<lambda>l. l_price m l = p) (tree_order b (s_tree a b)))"
    using tree_find_law[OF tr] by (cases b) (simp_all add: EngineDb_bids_Find_def EngineDb_asks_Find_def)
  also have "find (\<lambda>l. l_price m l = p) (tree_order b (s_tree a b)) = find (\<lambda>l. lprice a l = p) (s_tree a b)"
  proof (cases "\<exists>l \<in> set (s_tree a b). l_price m l = p")
    case True
    then obtain l where l: "l \<in> set (s_tree a b)" "l_price m l = p" by blast
    have uniq: "k = l" if "k \<in> set (s_tree a b)" "lprice a k = p" for k
      using inj_onD[OF prio.sorted_inj[OF store_wfD(14)[OF wf, of b]] _ that(1) l(1)]
        l(2) tree_lprice[OF r l(1)] that(2) by simp
    have uniq': "k = l" if "k \<in> set (tree_order b (s_tree a b))" "l_price m k = p" for k
      using uniq[of k] tree_lprice[OF r, of k b] that by simp
    have "find (\<lambda>l. l_price m l = p) (tree_order b (s_tree a b)) = Some l"
      using l by (intro find_unique[OF _ _ uniq']) simp_all
    moreover have "find (\<lambda>l. lprice a l = p) (s_tree a b) = Some l"
      using l tree_lprice[OF r l(1)] by (intro find_unique[OF _ _ uniq]) simp_all
    ultimately show ?thesis by simp
  next
    case False
    then have "find (\<lambda>l. l_price m l = p) (tree_order b (s_tree a b)) = None"
      "find (\<lambda>l. lprice a l = p) (s_tree a b) = None"
      using tree_lprice[OF r] by (simp_all add: find_None_iff)
    then show ?thesis by simp
  qed
  finally show ?thesis .
qed

lemma db_tree_best:
  assumes r: "db_rep m a"
  shows "EngineDb_book_Best b m = Some (case s_tree a b of [] \<Rightarrow> None | l # _ \<Rightarrow> Some l)"
proof -
  have tr: "price_tree m (root_of b m) (tree_order b (s_tree a b))"
    using db_repD(6)[OF r] by (simp add: trees_rep_iff)
  then show ?thesis
    by (cases b; cases "s_tree a b") (auto simp: asks_Best_eq bids_Best_eq)
qed

end
