(* ===== verification/Book.thy ===== *)
theory Book
  imports Engine_Db "HOL-Library.Multiset"
begin

text \<open>
  What matching an order means, on plain values: a book is a list of price levels, best
  first, each with the rows resting there in time priority.  Nothing here mentions rows in
  memory, handles, pools or hash chains; the refinement theorems show that both the data
  structures and the matcher compute these functions.

  The lemmas are the properties a trading system is judged by: quantity is conserved, trades
  respect the limit and never pair an account with itself, the book stays uncrossed, sorted
  and duplicate free.
\<close>

section \<open>Requests\<close>

text \<open>The seven parameters of \<^verbatim>\<open>gen_process_order\<close>.\<close>

record params =
  q_id :: u64
  q_account :: u64
  q_side :: u64
  q_otype :: u64
  q_stp :: u64
  q_price :: u64
  q_qty :: u64

text \<open>The comparison of a resting price with the incoming limit.\<close>

fun price_ok :: "book \<Rightarrow> u64 \<Rightarrow> u64 \<Rightarrow> bool" where
  "price_ok Asks best limit \<longleftrightarrow> best \<le> limit"
| "price_ok Bids best limit \<longleftrightarrow> limit \<le> best"

section \<open>Matching\<close>

type_synonym levels = "(u64 \<times> order_row list) list"

text \<open>Whether self-trade prevention applies to the resting order \<open>x\<close>.\<close>

definition self_trade :: "params \<Rightarrow> order_row \<Rightarrow> bool" where
  "self_trade q x \<longleftrightarrow> q_account q \<noteq> 0 \<and> q_account q = r_account x \<and> q_stp q \<noteq> 0"

text \<open>
  Matching against one level: the rows that stay, the quantity still to fill, the trades.
\<close>

fun match_queue :: "params \<Rightarrow> u64 \<Rightarrow> order_row list \<Rightarrow> u64 \<Rightarrow> order_row list \<times> u64 \<times> trade list" where
  "match_queue q p [] rem = ([], rem, [])"
| "match_queue q p (x # xs) rem =
     (if rem = 0 then (x # xs, 0, [])
      else if self_trade q x \<and> q_stp q = 1 then (x # xs, 0, [])
      else if self_trade q x \<and> q_stp q = 2 then match_queue q p xs rem
      else if self_trade q x \<and> q_stp q = 3 then (xs, 0, [])
      else
        let f = min rem (r_rem x);
            ts = (if self_trade q x then []
                  else [\<lparr>t_maker = r_id x, t_taker = q_id q, t_price = p, t_qty = f\<rparr>])
        in if r_rem x - f = 0
           then let (ys, r, us) = match_queue q p xs (rem - f) in (ys, r, ts @ us)
           else (x\<lparr>r_rem := r_rem x - f\<rparr> # xs, rem - f, ts))"

text \<open>Matching against the levels of a book, best first, as far as the limit allows.\<close>

fun match_levels :: "params \<Rightarrow> book \<Rightarrow> levels \<Rightarrow> u64 \<Rightarrow> levels \<times> u64 \<times> trade list" where
  "match_levels q b [] rem = ([], rem, [])"
| "match_levels q b ((p, xs) # ls) rem =
     (if rem = 0 \<or> q_otype q \<noteq> 1 \<and> \<not> price_ok b p (q_price q) then ((p, xs) # ls, rem, [])
      else
        let (ys, r, ts) = match_queue q p xs rem
        in if ys = []
           then let (ms, r', us) = match_levels q b ls r in (ms, r', ts @ us)
           else ((p, ys) # ls, r, ts))"

section \<open>Resting an order and cancelling one\<close>

fun add_order :: "book \<Rightarrow> u64 \<Rightarrow> order_row \<Rightarrow> levels \<Rightarrow> levels" where
  "add_order b p x [] = [(p, [x])]"
| "add_order b p x ((p', xs) # ls) =
     (if p = p' then (p', xs @ [x]) # ls
      else if better b p p' then (p, [x]) # (p', xs) # ls
      else (p', xs) # add_order b p x ls)"

definition new_row :: "params \<Rightarrow> u64 \<Rightarrow> order_row" where
  "new_row q rem = \<lparr>r_id = q_id q, r_account = q_account q, r_side = q_side q, r_stp = q_stp q,
     r_price = q_price q, r_qty = q_qty q, r_rem = rem\<rparr>"

text \<open>Both books.\<close>

type_synonym books = "book \<Rightarrow> levels"

definition level_rows :: "levels \<Rightarrow> order_row list" where
  "level_rows ls = concat (map snd ls)"

definition book_rows :: "books \<Rightarrow> order_row list" where
  "book_rows B = level_rows (B Bids) @ level_rows (B Asks)"

definition spec_side :: "book \<Rightarrow> params \<Rightarrow> books \<Rightarrow> u64 \<times> books \<times> trade list" where
  "spec_side b q B =
     (if q_otype q = 3 \<and> B b \<noteq> [] \<and> price_ok b (fst (hd (B b))) (q_price q) then (6, B, [])
      else
        let (ls, r, ts) = match_levels q b (B b) (q_qty q);
            B' = B(b := ls);
            own = opposite b
        in if 0 < r \<and> q_otype q \<noteq> 2 \<and> q_otype q \<noteq> 1
           then (0, B'(own := add_order own (q_price q) (new_row q r) (B' own)), ts)
           else (0, B', ts))"

text \<open>The largest quantity accepted: what a full book of them can sum to fits in 64 bits.\<close>

definition max_qty :: "u64 \<Rightarrow> u64" where
  "max_qty cap = 18446744073709551615 div (cap + 1)"

definition spec_process :: "u64 \<Rightarrow> params \<Rightarrow> books \<Rightarrow> u64 \<times> books \<times> trade list" where
  "spec_process cap q B =
     (if q_otype q > 3 then (2, B, [])
      else if q_side q > 1 \<or> q_stp q > 4 \<or> q_qty q = 0 \<or> q_otype q \<noteq> 1 \<and> q_price q = 0 \<or>
        q_qty q > max_qty cap then (3, B, [])
      else if q_id q \<in> r_id ` set (book_rows B) then (4, B, [])
      else if (q_otype q = 0 \<or> q_otype q = 3) \<and> unat cap \<le> length (book_rows B) then (5, B, [])
      else spec_side (if q_side q = 0 then Asks else Bids) q B)"

definition cancel_level :: "u64 \<Rightarrow> levels \<Rightarrow> levels" where
  "cancel_level i ls =
     filter (\<lambda>l. snd l \<noteq> []) (map (\<lambda>(p, xs). (p, filter (\<lambda>x. r_id x \<noteq> i) xs)) ls)"

definition spec_cancel :: "u64 \<Rightarrow> books \<Rightarrow> u64 \<times> books" where
  "spec_cancel i B =
     (if i \<in> r_id ` set (book_rows B) then (1, \<lambda>b. cancel_level i (B b)) else (7, B))"

section \<open>Well-formed books\<close>

definition side_code :: "book \<Rightarrow> u64" where
  "side_code b = (case b of Bids \<Rightarrow> 0 | Asks \<Rightarrow> 1)"

text \<open>A row that may rest in book \<open>b\<close> at price \<open>p\<close>.\<close>

definition row_ok :: "u64 \<Rightarrow> book \<Rightarrow> u64 \<Rightarrow> order_row \<Rightarrow> bool" where
  "row_ok cap b p x \<longleftrightarrow> r_price x = p \<and> r_side x = side_code b \<and> 0 < r_rem x \<and>
     r_rem x \<le> r_qty x \<and> r_qty x \<le> max_qty cap"

definition levels_ok :: "u64 \<Rightarrow> book \<Rightarrow> levels \<Rightarrow> bool" where
  "levels_ok cap b ls \<longleftrightarrow> sorted_wrt (better b) (map fst ls) \<and>
     (\<forall>(p, xs) \<in> set ls. xs \<noteq> [] \<and> (\<forall>x \<in> set xs. row_ok cap b p x))"

definition uncrossed :: "books \<Rightarrow> bool" where
  "uncrossed B \<longleftrightarrow> (\<forall>(p, xs) \<in> set (B Bids). \<forall>(p', ys) \<in> set (B Asks). p < p')"

definition books_ok :: "u64 \<Rightarrow> books \<Rightarrow> bool" where
  "books_ok cap B \<longleftrightarrow> (\<forall>b. levels_ok cap b (B b)) \<and> uncrossed B \<and>
     distinct (map r_id (book_rows B)) \<and> length (book_rows B) \<le> unat cap"

section \<open>Matching one level\<close>

lemma match_queue_zero [simp]: "match_queue q p xs 0 = (xs, 0, [])"
  by (cases xs) simp_all

definition fill_trade :: "params \<Rightarrow> u64 \<Rightarrow> order_row \<Rightarrow> u64 \<Rightarrow> trade list" where
  "fill_trade q p x f = (if self_trade q x then []
     else [\<lparr>t_maker = r_id x, t_taker = q_id q, t_price = p, t_qty = f\<rparr>])"

text \<open>The five things that can happen to the first row of a level.\<close>

lemma match_queue_ConsE:
  assumes "match_queue q p (x # xs) rem = (ys, r, ts)"
  obtains (stop) "ys = x # xs" "r = 0" "ts = []" "rem = 0 \<or> self_trade q x \<and> q_stp q = 1"
  | (drop) "rem \<noteq> 0" "self_trade q x" "q_stp q = 2" "match_queue q p xs rem = (ys, r, ts)"
  | (both) "rem \<noteq> 0" "self_trade q x" "q_stp q = 3" "ys = xs" "r = 0" "ts = []"
  | (full) us where "rem \<noteq> 0" "self_trade q x \<longrightarrow> q_stp q \<notin> {1, 2, 3}" "r_rem x \<le> rem"
      "match_queue q p xs (rem - r_rem x) = (ys, r, us)" "ts = fill_trade q p x (r_rem x) @ us"
  | (part) "rem \<noteq> 0" "self_trade q x \<longrightarrow> q_stp q \<notin> {1, 2, 3}" "rem < r_rem x"
      "ys = x\<lparr>r_rem := r_rem x - rem\<rparr> # xs" "r = 0" "ts = fill_trade q p x rem"
proof -
  consider "rem = 0 \<or> self_trade q x \<and> q_stp q = 1" | "rem \<noteq> 0" "self_trade q x" "q_stp q = 2"
    | "rem \<noteq> 0" "self_trade q x" "q_stp q = 3"
    | "rem \<noteq> 0" "self_trade q x \<longrightarrow> q_stp q \<notin> {1, 2, 3}" by auto
  then show thesis
  proof cases
    case 1
    with assms stop show thesis by (auto split: if_splits)
  next
    case 2
    with assms drop show thesis by simp
  next
    case 3
    with assms both show thesis by simp
  next
    case 4
    note sel = 4
    show thesis
    proof (cases "r_rem x \<le> rem")
      case True
      then have m: "min rem (r_rem x) = r_rem x" by simp
      obtain ys' r' us where "match_queue q p xs (rem - r_rem x) = (ys', r', us)" by (metis prod_cases3)
      with assms sel m have "match_queue q p xs (rem - r_rem x) = (ys, r, us)"
        "ts = fill_trade q p x (r_rem x) @ us"
        by (auto simp: fill_trade_def Let_def)
      with sel True full show thesis by blast
    next
      case False
      then have m: "min rem (r_rem x) = rem" "r_rem x - rem \<noteq> 0" by auto
      with assms sel have "ys = x\<lparr>r_rem := r_rem x - rem\<rparr> # xs" "r = 0" "ts = fill_trade q p x rem"
        by (auto simp: fill_trade_def Let_def)
      with sel False part show thesis by (simp add: not_le)
    qed
  qed
qed

text \<open>
  The shape of the result: a suffix of the queue stays, its first row possibly reduced; there
  is quantity left over only when the queue was used up.
\<close>

lemma fill_trade_length: "length (fill_trade q p x f) \<le> 1"
  by (simp add: fill_trade_def)

lemma match_queue_left: "match_queue q p xs rem = (ys, r, ts) \<Longrightarrow> ys \<noteq> [] \<Longrightarrow> r = 0"
proof (induction xs arbitrary: rem ts)
  case (Cons x xs)
  from Cons.prems(1) show ?case
    by (cases rule: match_queue_ConsE) (use Cons.IH Cons.prems(2) in blast)+
qed simp

lemma match_queue_le: "match_queue q p xs rem = (ys, r, ts) \<Longrightarrow> r \<le> rem"
proof (induction xs arbitrary: rem ts)
  case (Cons x xs)
  from Cons.prems show ?case
  proof (cases rule: match_queue_ConsE)
    case (full us)
    from Cons.IH[OF full(4)] full(3) show ?thesis using word_sub_le order_trans by blast
  qed (use Cons.IH in auto)
qed simp

lemma match_queue_trades: "match_queue q p xs rem = (ys, r, ts) \<Longrightarrow> length ts \<le> length xs"
proof (induction xs arbitrary: rem ts)
  case (Cons x xs)
  from Cons.prems show ?case
  proof (cases rule: match_queue_ConsE)
    case drop
    from Cons.IH[OF drop(4)] show ?thesis by simp
  next
    case (full us)
    from Cons.IH[OF full(4)] show ?thesis using full(5) fill_trade_length[of q p x "r_rem x"] by simp
  next
    case part
    then show ?thesis using fill_trade_length[of q p x rem] by simp
  qed auto
qed simp

text \<open>Which rows stay, and how they changed.\<close>

definition row_reduced :: "order_row \<Rightarrow> order_row \<Rightarrow> bool" where
  "row_reduced x y \<longleftrightarrow> y = x\<lparr>r_rem := r_rem y\<rparr> \<and> r_rem y \<le> r_rem x \<and> (0 < r_rem x \<longrightarrow> 0 < r_rem y)"

lemma row_reduced_refl [simp]: "row_reduced x x"
  by (simp add: row_reduced_def)

lemma row_reduced_partial: "v < r_rem x \<Longrightarrow> row_reduced x (x\<lparr>r_rem := r_rem x - v\<rparr>)"
  by (auto simp: row_reduced_def word_sub_le word_gt_0)

lemma list_all2_row_reduced_refl: "list_all2 row_reduced xs xs"
  by (simp add: list_all2_refl)

lemma match_queue_suffix:
  "match_queue q p xs rem = (ys, r, ts) \<Longrightarrow> \<exists>k. list_all2 row_reduced (drop k xs) ys"
proof (induction xs arbitrary: rem ts)
  case (Cons x xs)
  have later: "\<exists>k. list_all2 row_reduced (drop k (x # xs)) ys" if "\<exists>k. list_all2 row_reduced (drop k xs) ys"
    using that by (metis drop_Suc_Cons)
  from Cons.prems show ?case
  proof (cases rule: match_queue_ConsE)
    case stop
    then show ?thesis by (intro exI[of _ 0]) (simp add: list_all2_row_reduced_refl)
  next
    case drop
    from Cons.IH[OF drop(4)] show ?thesis by (rule later)
  next
    case both
    then show ?thesis by (intro exI[of _ 1]) (simp add: list_all2_row_reduced_refl)
  next
    case (full us)
    from Cons.IH[OF full(4)] show ?thesis by (rule later)
  next
    case part
    then show ?thesis
      by (intro exI[of _ 0]) (simp add: list_all2_row_reduced_refl row_reduced_partial)
  qed
qed simp

text \<open>Every trade is a real one: a resting row of the level, not of the taker's own account.\<close>

definition trade_ok :: "params \<Rightarrow> u64 \<Rightarrow> order_row list \<Rightarrow> trade \<Rightarrow> bool" where
  "trade_ok q p xs t \<longleftrightarrow> t_taker t = q_id q \<and> t_price t = p \<and>
     (\<exists>x \<in> set xs. t_maker t = r_id x \<and> \<not> self_trade q x \<and> t_qty t \<le> r_rem x \<and>
        (0 < r_rem x \<longrightarrow> 0 < t_qty t))"

lemma fill_trade_ok:
  "t \<in> set (fill_trade q p x f) \<Longrightarrow> f \<le> r_rem x \<Longrightarrow> 0 < f \<or> f = r_rem x \<Longrightarrow> trade_ok q p (x # xs) t"
  by (auto simp: fill_trade_def trade_ok_def split: if_splits)

lemma match_queue_trade_ok:
  "match_queue q p xs rem = (ys, r, ts) \<Longrightarrow> t \<in> set ts \<Longrightarrow> trade_ok q p xs t"
proof (induction xs arbitrary: rem ts)
  case (Cons x xs)
  have later: "trade_ok q p (x # xs) t" if "trade_ok q p xs t" using that by (auto simp: trade_ok_def)
  from Cons.prems(1) show ?case
  proof (cases rule: match_queue_ConsE)
    case drop
    from Cons.IH[OF drop(4) Cons.prems(2)] show ?thesis by (rule later)
  next
    case (full us)
    from Cons.prems(2) full(5) have "t \<in> set (fill_trade q p x (r_rem x)) \<or> t \<in> set us" by auto
    then show ?thesis using Cons.IH[OF full(4)] later fill_trade_ok by blast
  next
    case part
    then show ?thesis using Cons.prems(2) fill_trade_ok[of t q p x rem] by (simp add: word_gt_0)
  qed (use Cons.prems(2) in auto)
qed simp

text \<open>
  Conservation.  Without self-trade prevention, what the taker gives up is what was traded
  and what the resting rows lose.
\<close>

definition rem_sum :: "order_row list \<Rightarrow> nat" where
  "rem_sum xs = sum_list (map (\<lambda>x. unat (r_rem x)) xs)"

definition traded :: "trade list \<Rightarrow> nat" where
  "traded ts = sum_list (map (\<lambda>t. unat (t_qty t)) ts)"

lemma rem_sum_simps [simp]:
  "rem_sum [] = 0" "rem_sum (x # xs) = unat (r_rem x) + rem_sum xs" "rem_sum (xs @ ys) = rem_sum xs + rem_sum ys"
  by (simp_all add: rem_sum_def)

lemma traded_simps [simp]: "traded [] = 0" "traded (ts @ us) = traded ts + traded us"
  by (simp_all add: traded_def)

lemma traded_fill: "\<not> self_trade q x \<Longrightarrow> traded (fill_trade q p x f) = unat f"
  by (simp add: traded_def fill_trade_def)

lemma match_queue_conserves:
  "match_queue q p xs rem = (ys, r, ts) \<Longrightarrow> (\<forall>x \<in> set xs. \<not> self_trade q x) \<Longrightarrow>
   unat rem = unat r + traded ts \<and> rem_sum xs = rem_sum ys + traded ts"
proof (induction xs arbitrary: rem ts)
  case (Cons x xs)
  have ns: "\<not> self_trade q x" "\<forall>x \<in> set xs. \<not> self_trade q x" using Cons.prems(2) by auto
  from Cons.prems(1) show ?case
  proof (cases rule: match_queue_ConsE)
    case (full us)
    have "unat (rem - r_rem x) = unat rem - unat (r_rem x)" using full(3) by (rule unat_sub)
    then show ?thesis using Cons.IH[OF full(4) ns(2)] full(3,5) traded_fill[OF ns(1), of p "r_rem x"]
      by (simp add: word_le_nat_alt)
  next
    case part
    have "unat (r_rem x - rem) = unat (r_rem x) - unat rem" using part(3) by (intro unat_sub) simp
    then show ?thesis using part traded_fill[OF ns(1), of p rem] by (simp add: word_less_nat_alt)
  qed (use ns in auto)
qed simp

section \<open>Matching a book\<close>

lemma match_levels_zero [simp]: "match_levels q b ls 0 = (ls, 0, [])"
  by (cases ls) auto

lemma match_levels_ConsE:
  assumes "match_levels q b ((p, xs) # ls) rem = (ms, r, ts)"
  obtains (stop) "ms = (p, xs) # ls" "r = rem" "ts = []"
      "rem = 0 \<or> q_otype q \<noteq> 1 \<and> \<not> price_ok b p (q_price q)"
  | (clear) r1 ts1 us where "rem \<noteq> 0" "q_otype q = 1 \<or> price_ok b p (q_price q)"
      "match_queue q p xs rem = ([], r1, ts1)" "match_levels q b ls r1 = (ms, r, us)" "ts = ts1 @ us"
  | (keep) ys where "rem \<noteq> 0" "q_otype q = 1 \<or> price_ok b p (q_price q)"
      "match_queue q p xs rem = (ys, r, ts)" "ys \<noteq> []" "r = 0" "ms = (p, ys) # ls"
proof -
  obtain ys r1 ts1 where m: "match_queue q p xs rem = (ys, r1, ts1)" by (metis prod_cases3)
  obtain ms' r2 us where l: "match_levels q b ls r1 = (ms', r2, us)" by (metis prod_cases3)
  show thesis
  proof (cases "rem = 0 \<or> q_otype q \<noteq> 1 \<and> \<not> price_ok b p (q_price q)")
    case True
    with assms stop show thesis by auto
  next
    case sel: False
    show thesis
    proof (cases "ys = []")
      case True
      with assms sel m l clear show thesis by auto
    next
      case False
      with assms sel m keep match_queue_left[OF m False] show thesis by auto
    qed
  qed
qed

text \<open>A suffix of the book stays, except that its first level may have lost rows.\<close>

lemma drop_shift: "\<exists>k. zs = drop k ws \<Longrightarrow> \<exists>k. zs = drop k (vs @ ws)"
proof -
  assume "\<exists>k. zs = drop k ws"
  then obtain k where "zs = drop k ws" ..
  then have "zs = drop (length vs + k) (vs @ ws)" by simp
  then show ?thesis ..
qed

lemma drop_none: "\<exists>k. zs = drop k zs"
  by (rule exI[of _ 0]) simp

lemma level_rows_simps [simp]:
  "level_rows [] = []" "level_rows ((p, xs) # ls) = xs @ level_rows ls"
  by (simp_all add: level_rows_def)

lemma match_levels_prices: "match_levels q b ls rem = (ms, r, ts) \<Longrightarrow> \<exists>k. map fst ms = drop k (map fst ls)"
proof (induction ls arbitrary: rem ts)
  case (Cons l ls)
  obtain p xs where l: "l = (p, xs)" by (cases l)
  note [simp] = l
  from Cons.prems[unfolded l] show ?case
  proof (cases rule: match_levels_ConsE)
    case (clear r1 ts1 us)
    from drop_shift[OF Cons.IH[OF clear(4)], of "[p]"] show ?thesis by simp
  qed (use drop_none in auto)
qed simp

lemma row_reducedE:
  assumes "row_reduced x y"
  obtains v where "y = x\<lparr>r_rem := v\<rparr>" "v \<le> r_rem x" "0 < r_rem x \<Longrightarrow> 0 < v"
  using assms unfolding row_reduced_def by blast

lemma list_all2_ids: "list_all2 row_reduced xs ys \<Longrightarrow> map r_id xs = map r_id ys"
  by (induction rule: list_all2_induct) (auto elim!: row_reducedE)

lemma match_queue_ids: "match_queue q p xs rem = (ys, r, ts) \<Longrightarrow> \<exists>k. map r_id ys = drop k (map r_id xs)"
proof -
  assume "match_queue q p xs rem = (ys, r, ts)"
  then obtain k where k: "list_all2 row_reduced (drop k xs) ys" using match_queue_suffix by blast
  have "map r_id (drop k xs) = map r_id ys"
    using k by (rule list_all2_ids)
  then show ?thesis by (metis drop_map)
qed

lemma match_levels_ids:
  "match_levels q b ls rem = (ms, r, ts) \<Longrightarrow> \<exists>k. map r_id (level_rows ms) = drop k (map r_id (level_rows ls))"
proof (induction ls arbitrary: rem ts)
  case (Cons l ls)
  obtain p xs where l: "l = (p, xs)" by (cases l)
  note [simp] = l
  from Cons.prems[unfolded l] show ?case
  proof (cases rule: match_levels_ConsE)
    case (clear r1 ts1 us)
    from drop_shift[OF Cons.IH[OF clear(4)], of "map r_id xs"] show ?thesis by simp
  next
    case (keep ys)
    obtain k where k: "map r_id ys = drop k (map r_id xs)" using match_queue_ids[OF keep(3)] ..
    have "k \<le> length xs" using k keep(4) by (metis drop_all length_map list.map_disc_iff nat_le_linear)
    with k keep(6) show ?thesis by (intro exI[of _ k]) simp
  next
    case stop
    then show ?thesis by (intro exI[of _ 0]) simp
  qed
qed simp

text \<open>Quantity is left over only when the book has nothing more at an acceptable price.\<close>

lemma match_levels_done:
  "match_levels q b ls rem = (ms, r, ts) \<Longrightarrow> r \<noteq> 0 \<Longrightarrow>
   ms = [] \<or> q_otype q \<noteq> 1 \<and> \<not> price_ok b (fst (hd ms)) (q_price q)"
proof (induction ls arbitrary: rem ts)
  case (Cons l ls)
  obtain p xs where l: "l = (p, xs)" by (cases l)
  note [simp] = l
  from Cons.prems(1)[unfolded l] show ?case
    by (cases rule: match_levels_ConsE) (use Cons.IH Cons.prems(2) in auto)
qed simp

lemma match_levels_le: "match_levels q b ls rem = (ms, r, ts) \<Longrightarrow> r \<le> rem"
proof (induction ls arbitrary: rem ts)
  case (Cons l ls)
  obtain p xs where l: "l = (p, xs)" by (cases l)
  note [simp] = l
  from Cons.prems(1)[unfolded l] show ?case
  proof (cases rule: match_levels_ConsE)
    case (clear r1 ts1 us)
    show ?thesis using Cons.IH[OF clear(4)] match_queue_le[OF clear(3)] by simp
  qed auto
qed simp

lemma match_levels_trades: "match_levels q b ls rem = (ms, r, ts) \<Longrightarrow> length ts \<le> length (level_rows ls)"
proof (induction ls arbitrary: rem ts)
  case (Cons l ls)
  obtain p xs where l: "l = (p, xs)" by (cases l)
  note [simp] = l
  from Cons.prems(1)[unfolded l] show ?case
  proof (cases rule: match_levels_ConsE)
    case (clear r1 ts1 us)
    then show ?thesis using Cons.IH[OF clear(4)] match_queue_trades[OF clear(3)] by simp
  next
    case (keep ys)
    then show ?thesis using match_queue_trades[OF keep(3)] by simp
  qed auto
qed simp

lemma match_levels_trade_ok:
  "match_levels q b ls rem = (ms, r, ts) \<Longrightarrow> t \<in> set ts \<Longrightarrow>
   \<exists>(p, xs) \<in> set ls. trade_ok q p xs t \<and> (q_otype q = 1 \<or> price_ok b p (q_price q))"
proof (induction ls arbitrary: rem ts)
  case (Cons l ls)
  obtain p xs where l: "l = (p, xs)" by (cases l)
  note [simp] = l
  from Cons.prems(1)[unfolded l] show ?case
  proof (cases rule: match_levels_ConsE)
    case (clear r1 ts1 us)
    then show ?thesis using Cons.IH[OF clear(4)] match_queue_trade_ok[OF clear(3)] Cons.prems(2) by auto
  next
    case (keep ys)
    then show ?thesis using match_queue_trade_ok[OF keep(3)] Cons.prems(2) by auto
  qed (use Cons.prems(2) in auto)
qed simp

text \<open>Trades come in price priority.\<close>

lemma sorted_wrt_all: "(\<And>x y. x \<in> set xs \<Longrightarrow> y \<in> set xs \<Longrightarrow> P x y) \<Longrightarrow> sorted_wrt P xs"
  by (induction xs) auto

lemma match_levels_best_first:
  "match_levels q b ls rem = (ms, r, ts) \<Longrightarrow> sorted_wrt (better b) (map fst ls) \<Longrightarrow>
   sorted_wrt (\<lambda>t u. \<not> better b (t_price u) (t_price t)) ts"
proof (induction ls arbitrary: rem ts)
  case (Cons l ls)
  obtain p xs where l: "l = (p, xs)" by (cases l)
  note [simp] = l
  have one: "sorted_wrt (\<lambda>t u. \<not> better b (t_price u) (t_price t)) us"
    if "match_queue q p xs rem = (ys, r', us)" for ys r' us
  proof (rule sorted_wrt_all)
    fix t u assume "t \<in> set us" "u \<in> set us"
    then have "t_price t = p" "t_price u = p" using match_queue_trade_ok[OF that] by (simp_all add: trade_ok_def)
    then show "\<not> better b (t_price u) (t_price t)" using prio.above_irrefl by simp
  qed
  from Cons.prems(1)[unfolded l] show ?case
  proof (cases rule: match_levels_ConsE)
    case (clear r1 ts1 us)
    have "\<not> better b (t_price u) (t_price t)" if t: "t \<in> set ts1" and u: "u \<in> set us" for t u
    proof -
      have "t_price t = p" using match_queue_trade_ok[OF clear(3) t] by (simp add: trade_ok_def)
      moreover obtain p' ys where "(p', ys) \<in> set ls" "t_price u = p'"
        using match_levels_trade_ok[OF clear(4) u] by (auto simp: trade_ok_def)
      moreover from this(1) have "better b p p'" using Cons.prems(2) l by force
      ultimately show ?thesis using prio.above_asym by simp
    qed
    then show ?thesis using Cons.IH[OF clear(4)] Cons.prems(2) l one[OF clear(3)] clear(5)
      by (simp add: sorted_wrt_append)
  next
    case (keep ys)
    then show ?thesis using one by blast
  qed auto
qed simp

lemma match_levels_conserves:
  "match_levels q b ls rem = (ms, r, ts) \<Longrightarrow> (\<forall>x \<in> set (level_rows ls). \<not> self_trade q x) \<Longrightarrow>
   unat rem = unat r + traded ts \<and> rem_sum (level_rows ls) = rem_sum (level_rows ms) + traded ts"
proof (induction ls arbitrary: rem ts)
  case (Cons l ls)
  obtain p xs where l: "l = (p, xs)" by (cases l)
  note [simp] = l
  have ns: "\<forall>x \<in> set xs. \<not> self_trade q x" "\<forall>x \<in> set (level_rows ls). \<not> self_trade q x"
    using Cons.prems(2) l by auto
  from Cons.prems(1)[unfolded l] show ?case
  proof (cases rule: match_levels_ConsE)
    case (clear r1 ts1 us)
    then show ?thesis using Cons.IH[OF clear(4) ns(2)] match_queue_conserves[OF clear(3) ns(1)] by simp
  next
    case (keep ys)
    then show ?thesis using match_queue_conserves[OF keep(3) ns(1)] by simp
  qed auto
qed simp

lemma levels_ok_Cons:
  "levels_ok cap b ((p, xs) # ls) \<longleftrightarrow> (\<forall>(p', ys) \<in> set ls. better b p p') \<and> xs \<noteq> [] \<and>
     (\<forall>x \<in> set xs. row_ok cap b p x) \<and> levels_ok cap b ls"
  by (auto simp: levels_ok_def)

lemma row_ok_reduced: "row_ok cap b p x \<Longrightarrow> row_reduced x y \<Longrightarrow> row_ok cap b p y"
proof -
  assume x: "row_ok cap b p x" and y: "row_reduced x y"
  from y show ?thesis by (rule row_reducedE) (use x in \<open>auto simp: row_ok_def\<close>)
qed

lemma match_queue_rows_ok:
  assumes "match_queue q p xs rem = (ys, r, ts)" and "\<forall>x \<in> set xs. row_ok cap b p x"
  shows "\<forall>y \<in> set ys. row_ok cap b p y"
proof
  fix y assume "y \<in> set ys"
  obtain k where k: "list_all2 row_reduced (drop k xs) ys" using match_queue_suffix[OF assms(1)] ..
  then obtain x where "x \<in> set xs" "row_reduced x y"
    using \<open>y \<in> set ys\<close> by (auto simp: list_all2_conv_all_nth in_set_conv_nth dest: in_set_dropD) (metis add.commute less_diff_conv nth_mem)
  then show "row_ok cap b p y" using assms(2) row_ok_reduced by blast
qed

lemma match_levels_ok:
  "match_levels q b ls rem = (ms, r, ts) \<Longrightarrow> levels_ok cap b ls \<Longrightarrow> levels_ok cap b ms"
proof (induction ls arbitrary: rem ts)
  case (Cons l ls)
  obtain p xs where l: "l = (p, xs)" by (cases l)
  note [simp] = l
  from Cons.prems(1)[unfolded l] show ?case
  proof (cases rule: match_levels_ConsE)
    case (clear r1 ts1 us)
    then show ?thesis using Cons.IH[OF clear(4)] Cons.prems(2) l by (simp add: levels_ok_Cons)
  next
    case (keep ys)
    then show ?thesis using match_queue_rows_ok[OF keep(3)] Cons.prems(2) l by (simp add: levels_ok_Cons)
  qed (use Cons.prems(2) l in simp)
qed simp


section \<open>Resting and cancelling\<close>

lemma add_order_prices: "fst ` set (add_order b p x ls) = insert p (fst ` set ls)"
  by (induction b p x ls rule: add_order.induct) (simp_all add: insert_commute)

lemma add_order_rows: "mset (level_rows (add_order b p x ls)) = add_mset x (mset (level_rows ls))"
  by (induction b p x ls rule: add_order.induct) simp_all

lemma add_order_ok:
  assumes "levels_ok cap b ls" and "row_ok cap b p x"
  shows "levels_ok cap b (add_order b p x ls)"
  using assms(1)
proof (induction ls)
  case Nil
  then show ?case using assms(2) by (simp add: levels_ok_def)
next
  case (Cons l ls)
  obtain p' xs where l: "l = (p', xs)" by (cases l)
  have ok: "levels_ok cap b ((p', xs) # ls)" using Cons.prems l by simp
  consider "p = p'" | "p \<noteq> p'" "better b p p'" | "p \<noteq> p'" "\<not> better b p p'" by blast
  then show ?case
  proof cases
    case 1
    then show ?thesis using ok assms(2) l by (auto simp: levels_ok_Cons)
  next
    case 2
    have "better b p q" if "(q, ys) \<in> set ls" for q ys
      using ok that 2(2) prio.above_trans by (auto simp: levels_ok_Cons)
    with 2 show ?thesis using ok assms(2) l by (auto simp: levels_ok_Cons)
  next
    case 3
    then have "better b p' p" using prio.above_total by blast
    moreover have "better b p' q" if "(q, ys) \<in> set (add_order b p x ls)" for q ys
    proof -
      have "q \<in> insert p (fst ` set ls)"
        using that add_order_prices[of b p x ls] by (metis fst_conv image_eqI)
      then show ?thesis using ok \<open>better b p' p\<close> by (auto simp: levels_ok_Cons)
    qed
    ultimately show ?thesis using 3 ok Cons.IH l by (auto simp: levels_ok_Cons)
  qed
qed

lemma cancel_level_rows: "level_rows (cancel_level i ls) = filter (\<lambda>x. r_id x \<noteq> i) (level_rows ls)"
  by (induction ls) (auto simp: cancel_level_def split: if_splits)

lemma cancel_level_set:
  "(p, ys) \<in> set (cancel_level i ls) \<longleftrightarrow>
   ys \<noteq> [] \<and> (\<exists>xs. (p, xs) \<in> set ls \<and> ys = filter (\<lambda>x. r_id x \<noteq> i) xs)"
  unfolding cancel_level_def by (auto simp: image_iff) force

lemma cancel_level_ok: "levels_ok cap b ls \<Longrightarrow> levels_ok cap b (cancel_level i ls)"
proof -
  assume ok: "levels_ok cap b ls"
  have "sorted_wrt (better b) (map fst (cancel_level i ls))"
    using ok unfolding levels_ok_def cancel_level_def
    by (induction ls) auto
  moreover have "ys \<noteq> [] \<and> (\<forall>x \<in> set ys. row_ok cap b p x)" if "(p, ys) \<in> set (cancel_level i ls)" for p ys
    using that ok unfolding cancel_level_set levels_ok_def by fastforce
  ultimately show ?thesis unfolding levels_ok_def by blast
qed

section \<open>The invariant is kept\<close>

lemma uncrossed_iff:
  "uncrossed B \<longleftrightarrow> (\<forall>(p, xs) \<in> set (B b). \<forall>(p', ys) \<in> set (B (opposite b)). \<not> price_ok b p p')"
  by (cases b) (auto simp: uncrossed_def not_le)

lemma price_ok_worse: "\<not> price_ok b p lim \<Longrightarrow> better b p p' \<Longrightarrow> \<not> price_ok b p' lim"
  by (cases b) auto

lemma levels_ok_worse:
  assumes "levels_ok cap b ls" and "ls = [] \<or> \<not> price_ok b (fst (hd ls)) lim"
  shows "\<forall>(p, xs) \<in> set ls. \<not> price_ok b p lim"
proof (cases ls)
  case (Cons l ms)
  obtain p xs where l: "l = (p, xs)" by (cases l)
  then show ?thesis using assms price_ok_worse unfolding Cons l by (auto simp: levels_ok_Cons)
qed simp

lemma mset_book_rows: "mset (book_rows B) = mset (level_rows (B b)) + mset (level_rows (B (opposite b)))"
  by (cases b) (simp_all add: book_rows_def)

lemma book_rows_ids:
  "distinct (map r_id (book_rows B)) \<longleftrightarrow>
   distinct (map r_id (level_rows (B b))) \<and> distinct (map r_id (level_rows (B (opposite b)))) \<and>
   r_id ` set (level_rows (B b)) \<inter> r_id ` set (level_rows (B (opposite b))) = {}"
  by (cases b) (auto simp: book_rows_def)

lemma length_book_rows: "length (book_rows B) = length (level_rows (B b)) + length (level_rows (B (opposite b)))"
  by (cases b) (simp_all add: book_rows_def)

lemma set_book_rows: "set (book_rows B) = set (level_rows (B b)) \<union> set (level_rows (B (opposite b)))"
  by (cases b) (auto simp: book_rows_def)

lemma all_books: "(\<forall>c. P c) \<longleftrightarrow> P b \<and> P (opposite b)"
  by (metis book.exhaust opposite.simps)

text \<open>Matching alone, as a change of one book.\<close>

lemma match_books_ok:
  assumes ok: "books_ok cap B" and m: "match_levels q b (B b) rem = (ms, r, ts)"
  shows "books_ok cap (B(b := ms))"
    and "r_id ` set (book_rows (B(b := ms))) \<subseteq> r_id ` set (book_rows B)"
    and "length (book_rows (B(b := ms))) \<le> length (book_rows B)"
proof -
  obtain k where k: "map r_id (level_rows ms) = drop k (map r_id (level_rows (B b)))"
    using match_levels_ids[OF m] ..
  obtain j where j: "map fst ms = drop j (map fst (B b))" using match_levels_prices[OF m] ..
  have ids: "r_id ` set (level_rows ms) \<subseteq> r_id ` set (level_rows (B b))"
    using k set_drop_subset[of k "map r_id (level_rows (B b))"] by (metis list.set_map)
  have len: "length (level_rows ms) \<le> length (level_rows (B b))" using k by (metis length_drop length_map diff_le_self)
  show ids': "r_id ` set (book_rows (B(b := ms))) \<subseteq> r_id ` set (book_rows B)"
    using ids unfolding set_book_rows[of _ b] by auto
  show len': "length (book_rows (B(b := ms))) \<le> length (book_rows B)"
    using len unfolding length_book_rows[of _ b] by simp
  have "fst ` set ms \<subseteq> fst ` set (B b)"
    using j set_drop_subset[of j "map fst (B b)"] by (metis list.set_map)
  then have "uncrossed (B(b := ms))"
    using ok unfolding books_ok_def uncrossed_iff[of _ b] by fastforce
  moreover have "distinct (map r_id (level_rows ms))"
    using ok k unfolding books_ok_def book_rows_ids[of _ b] by simp
  then have "distinct (map r_id (book_rows (B(b := ms))))"
    using ok ids unfolding books_ok_def book_rows_ids[of _ b] by auto
  moreover have "levels_ok cap b ms" using match_levels_ok[OF m] ok by (simp add: books_ok_def)
  ultimately show "books_ok cap (B(b := ms))"
    using ok len' unfolding books_ok_def by simp
qed

lemma add_books_ok:
  assumes ok: "books_ok cap B" and new: "r_id x \<notin> r_id ` set (book_rows B)"
    and room: "length (book_rows B) < unat cap" and row: "row_ok cap b p x"
    and apart: "\<forall>(p', ys) \<in> set (B (opposite b)). \<not> price_ok (opposite b) p' p"
  shows "books_ok cap (B(b := add_order b p x (B b)))" (is "books_ok cap ?B")
proof -
  have rows: "mset (book_rows ?B) = add_mset x (mset (book_rows B))"
    unfolding mset_book_rows[of _ b] by (simp add: add_order_rows)
  have "length (book_rows ?B) = Suc (length (book_rows B))" using arg_cong[OF rows, of size] by simp
  moreover have "distinct (map r_id (book_rows ?B))"
  proof -
    have "mset (map r_id (book_rows ?B)) = mset (r_id x # map r_id (book_rows B))" by (simp add: rows)
    moreover have "distinct (r_id x # map r_id (book_rows B))" using ok new by (simp add: books_ok_def)
    ultimately show ?thesis by (metis mset_eq_imp_distinct_iff)
  qed
  moreover have "levels_ok cap b (add_order b p x (B b))"
    using ok row by (intro add_order_ok) (simp_all add: books_ok_def)
  moreover have "uncrossed ?B"
  proof -
    have "\<not> price_ok (opposite b) p' p''" if "(p', ys) \<in> set (B (opposite b))" "(p'', zs) \<in> set (add_order b p x (B b))" for p' ys p'' zs
    proof -
      have "p'' \<in> insert p (fst ` set (B b))"
        using that(2) add_order_prices[of b p x "B b"] by (metis fst_conv image_eqI)
      then show ?thesis
        using that(1) apart ok unfolding books_ok_def uncrossed_iff[of _ "opposite b"] by fastforce
    qed
    then show ?thesis unfolding uncrossed_iff[of _ "opposite b"] by auto
  qed
  ultimately show ?thesis using ok room unfolding books_ok_def by simp
qed

lemma spec_side_ok:
  assumes ok: "books_ok cap B" and s: "spec_side b q B = (code, B', ts)"
    and new: "q_id q \<notin> r_id ` set (book_rows B)"
    and room: "q_otype q = 0 \<or> q_otype q = 3 \<Longrightarrow> length (book_rows B) < unat cap"
    and q: "q_side q = side_code (opposite b)" "0 < q_qty q" "q_qty q \<le> max_qty cap" "q_otype q \<le> 3"
  shows "books_ok cap B'"
proof -
  obtain ms r us where m: "match_levels q b (B b) (q_qty q) = (ms, r, us)" by (metis prod_cases3)
  note mb = match_books_ok[OF ok m]
  show ?thesis
  proof (cases "q_otype q = 3 \<and> B b \<noteq> [] \<and> price_ok b (fst (hd (B b))) (q_price q)")
    case True
    with s ok show ?thesis by (simp add: spec_side_def)
  next
    case sel: False
    show ?thesis
    proof (cases "0 < r \<and> q_otype q \<noteq> 2 \<and> q_otype q \<noteq> 1")
      case False
      then have "B' = B(b := ms)" using s m sel by (auto simp: spec_side_def)
      then show ?thesis using mb(1) by simp
    next
      case True
      have limit: "q_otype q = 0 \<or> q_otype q = 3" using True u64_le_3[OF q(4)] by auto
      let ?B = "B(b := ms)" and ?x = "new_row q r"
      have B': "B' = ?B(opposite b := add_order (opposite b) (q_price q) ?x (?B (opposite b)))"
        using s m sel True by (auto simp: spec_side_def Let_def)
      show ?thesis unfolding B'
      proof (rule add_books_ok[OF mb(1)])
        show "r_id ?x \<notin> r_id ` set (book_rows ?B)" using new mb(2) by (auto simp: new_row_def)
        show "length (book_rows ?B) < unat cap" using room[OF limit] mb(3) by simp
        have "r \<le> q_qty q" by (rule match_levels_le[OF m])
        then show "row_ok cap (opposite b) (q_price q) ?x" using q True by (simp add: row_ok_def new_row_def)
        have "ms = [] \<or> \<not> price_ok b (fst (hd ms)) (q_price q)" using match_levels_done[OF m] True by auto
        moreover have "levels_ok cap b ms" using mb(1) unfolding books_ok_def by (metis fun_upd_same)
        ultimately show "\<forall>(p', ys) \<in> set (?B (opposite (opposite b))).
            \<not> price_ok (opposite (opposite b)) p' (q_price q)"
          using levels_ok_worse by fastforce
      qed
    qed
  qed
qed


lemma side_code_simps [simp]: "side_code Bids = 0" "side_code Asks = 1"
  by (simp_all add: side_code_def)

lemma spec_process_ok:
  assumes ok: "books_ok cap B" and s: "spec_process cap q B = (code, B', ts)"
  shows "books_ok cap B'"
proof (cases "q_otype q > 3 \<or> q_side q > 1 \<or> q_stp q > 4 \<or> q_qty q = 0 \<or> q_otype q \<noteq> 1 \<and> q_price q = 0 \<or>
    q_qty q > max_qty cap \<or> q_id q \<in> r_id ` set (book_rows B) \<or>
    (q_otype q = 0 \<or> q_otype q = 3) \<and> unat cap \<le> length (book_rows B)")
  case True
  then show ?thesis using s ok by (auto simp: spec_process_def split: if_splits)
next
  case False
  let ?b = "if q_side q = 0 then Asks else Bids"
  have s': "spec_side ?b q B = (code, B', ts)" using s False by (auto simp: spec_process_def split: if_splits)
  have "q_side q \<le> 1" using False by (simp add: not_less)
  then have "q_side q = side_code (opposite ?b)" using u64_le_1 by auto
  then show ?thesis using False
    by (intro spec_side_ok[OF ok s']) (auto simp: not_less word_gt_0)
qed

lemma spec_cancel_ok:
  assumes ok: "books_ok cap B" and s: "spec_cancel i B = (code, B')"
  shows "books_ok cap B'"
proof (cases "i \<in> r_id ` set (book_rows B)")
  case True
  then have B': "B' = (\<lambda>b. cancel_level i (B b))" using s by (simp add: spec_cancel_def)
  have rows: "book_rows B' = filter (\<lambda>x. r_id x \<noteq> i) (book_rows B)"
    by (simp add: B' book_rows_def cancel_level_rows)
  have "\<forall>b. levels_ok cap b (B' b)" using ok cancel_level_ok by (simp add: books_ok_def B')
  moreover have "uncrossed B'"
    using ok unfolding books_ok_def uncrossed_def B' by (fastforce simp: cancel_level_set)
  moreover have "length (book_rows B') \<le> unat cap"
    using ok length_filter_le[of "\<lambda>x. r_id x \<noteq> i" "book_rows B"] unfolding rows books_ok_def by linarith
  ultimately show ?thesis using ok unfolding books_ok_def rows by (simp add: distinct_map_filter)
next
  case False
  with s ok show ?thesis by (simp add: spec_cancel_def)
qed

lemma books_ok_empty: "books_ok cap (\<lambda>_. [])"
  by (simp add: books_ok_def levels_ok_def uncrossed_def book_rows_def)

end
