(* ===== verification/Gen_Matcher.thy ===== *)
theory Gen_Matcher
  imports Book
begin

text \<open>
  The generated matcher \<^verbatim>\<open>c/gen/matcher.c\<close>, over any data layer \<open>A\<close> of the contract.

  The buy and the sell procedure of the file are the same text with the two books and the
  price comparison exchanged; here they are one group of definitions with the opposing book
  \<open>b\<close> as an argument.  The bounded loops
  \<^verbatim>\<open>for (k = 0, n = cap + 1;; k++) { if (!c) break; if (k == n) me_trap(2); ... }\<close>
  are \<open>for_loop (n - k)\<close>.
\<close>

section \<open>State and the checked primitives\<close>

text \<open>The matcher's static counter, beside the data layer it runs on.\<close>

record 's matcher =
  db :: 's
  me_ntrades :: u64

definition me_add :: "u64 \<Rightarrow> u64 \<Rightarrow> fault + u64" where
  "me_add a b = (if unat a + unat b < 2 ^ 64 then Inr (a + b) else Inl (Trap 1))"

definition me_sub :: "u64 \<Rightarrow> u64 \<Rightarrow> fault + u64" where
  "me_sub a b = (if b \<le> a then Inr (a - b) else Inl (Trap 1))"

definition me_mul :: "u64 \<Rightarrow> u64 \<Rightarrow> fault + u64" where
  "me_mul a b = (if unat a * unat b < 2 ^ 64 then Inr (a * b) else Inl (Trap 1))"

definition me_div :: "u64 \<Rightarrow> u64 \<Rightarrow> fault + u64" where
  "me_div a b = (if b = 0 then Inl (Trap 1) else Inr (a div b))"

definition me_emit ::
  "('s, 'o, 'l) engine_api \<Rightarrow> u64 \<Rightarrow> u64 \<Rightarrow> u64 \<Rightarrow> u64 \<Rightarrow> 's matcher \<Rightarrow> fault + 's matcher" where
  "me_emit A m t p q st =
     rbind (me_add (api_capacity A (db st)) 1) (\<lambda>n.
     if n \<le> me_ntrades st then Inl (Trap 3)
     else rbind (api_trade_emit A m t p q (db st)) (\<lambda>s.
       Inr (st\<lparr>db := s, me_ntrades := me_ntrades st + 1\<rparr>)))"

definition gen_min_u64 :: "u64 \<Rightarrow> u64 \<Rightarrow> u64" where
  "gen_min_u64 a b = (if a < b then a else b)"

fun for_loop :: "nat \<Rightarrow> ('v \<Rightarrow> bool) \<Rightarrow> ('v \<Rightarrow> fault + 'v) \<Rightarrow> 'v \<Rightarrow> fault + 'v" where
  "for_loop 0 c f v = (if c v then Inl (Trap 2) else Inr v)"
| "for_loop (Suc n) c f v = (if c v then rbind (f v) (for_loop n c f) else Inr v)"

section \<open>Matching\<close>

text \<open>\<^verbatim>\<open>ME_queue_remove(best, o); ME_hash_remove(o); ME_order_free(o);\<close>\<close>

definition gen_unlink ::
  "('s, 'o, 'l) engine_api \<Rightarrow> 'l \<Rightarrow> 'o \<Rightarrow> 's matcher \<Rightarrow> fault + 's matcher" where
  "gen_unlink A best x st =
     rbind (api_hash_remove A x (api_queue_remove A best x (db st))) (\<lambda>s.
     Inr (st\<lparr>db := api_order_free A x s\<rparr>))"

text \<open>
  The fill of one resting order; \<open>report\<close> is whether the trade is emitted (it is not in the
  decrement branch of self-trade prevention).
\<close>

definition gen_fill ::
  "('s, 'o, 'l) engine_api \<Rightarrow> params \<Rightarrow> 'l \<Rightarrow> bool \<Rightarrow> u64 \<Rightarrow> 'o \<Rightarrow> 's matcher \<Rightarrow>
   fault + (u64 \<times> 'o option \<times> 's matcher)" where
  "gen_fill A q best report rem passive st =
     (let fill = gen_min_u64 rem (api_order_get_remaining A passive (db st)) in
      rbind (me_sub rem fill) (\<lambda>rem.
      rbind (me_sub (api_order_get_remaining A passive (db st)) fill) (\<lambda>prem.
      let st = st\<lparr>db := api_order_set_remaining A passive prem (db st)\<rparr> in
      rbind (if report
             then me_emit A (api_order_get_id A passive (db st)) (q_id q)
                    (api_level_get_price A best (db st)) fill st
             else Inr st) (\<lambda>st.
      let nextp = api_queue_next A passive (db st) in
      rbind (if prem = 0 then gen_unlink A best passive st else Inr st) (\<lambda>st.
      Inr (rem, nextp, st))))))"

text \<open>The body of the inner loop.\<close>

definition gen_match_order ::
  "('s, 'o, 'l) engine_api \<Rightarrow> params \<Rightarrow> 'l \<Rightarrow> u64 \<Rightarrow> 'o \<Rightarrow> 's matcher \<Rightarrow>
   fault + (u64 \<times> 'o option \<times> 's matcher)" where
  "gen_match_order A q best rem passive st =
     (if q_account q \<noteq> 0 \<and> q_account q = api_order_get_account A passive (db st) \<and> q_stp q \<noteq> 0
      then if q_stp q = 1 then Inr (0, Some passive, st)
      else if q_stp q = 2 \<or> q_stp q = 3
      then let victim = passive; nextp = api_queue_next A passive (db st) in
           rbind (gen_unlink A best victim st) (\<lambda>st.
           Inr (if q_stp q = 3 then 0 else rem, nextp, st))
      else gen_fill A q best False rem passive st
      else gen_fill A q best True rem passive st)"

definition gen_match_queue ::
  "('s, 'o, 'l) engine_api \<Rightarrow> params \<Rightarrow> 'l \<Rightarrow> nat \<Rightarrow> u64 \<times> 'o option \<times> 's matcher \<Rightarrow>
   fault + (u64 \<times> 'o option \<times> 's matcher)" where
  "gen_match_queue A q best n =
     for_loop n (\<lambda>(rem, passive, st). passive \<noteq> None \<and> 0 < rem)
       (\<lambda>(rem, passive, st). case passive of
            None \<Rightarrow> Inl Undefined
          | Some x \<Rightarrow> gen_match_order A q best rem x st)"

text \<open>The body of the outer loop, over \<^verbatim>\<open>rem\<close>, \<^verbatim>\<open>stop\<close> and the state.\<close>

definition gen_match_level ::
  "('s, 'o, 'l) engine_api \<Rightarrow> params \<Rightarrow> book \<Rightarrow> u64 \<times> bool \<times> 's matcher \<Rightarrow>
   fault + (u64 \<times> bool \<times> 's matcher)" where
  "gen_match_level A q b = (\<lambda>(rem, stop, st).
     rbind (book_best A b (db st)) (\<lambda>best.
     case best of
       None \<Rightarrow> Inr (rem, True, st)
     | Some best \<Rightarrow>
         if q_otype q \<noteq> 1 \<and> \<not> price_ok b (api_level_get_price A best (db st)) (q_price q)
         then Inr (rem, True, st)
         else
           rbind (me_add (api_capacity A (db st)) 1) (\<lambda>n.
           rbind (gen_match_queue A q best (unat n) (rem, api_queue_first A best (db st), st))
             (\<lambda>(rem, passive, st).
           if api_level_get_count A best (db st) = 0
           then rbind (book_remove A b best (db st)) (\<lambda>s.
                Inr (rem, stop, st\<lparr>db := api_level_free A best s\<rparr>))
           else Inr (rem, stop, st)))))"

definition gen_match_levels ::
  "('s, 'o, 'l) engine_api \<Rightarrow> params \<Rightarrow> book \<Rightarrow> nat \<Rightarrow> u64 \<times> bool \<times> 's matcher \<Rightarrow>
   fault + (u64 \<times> bool \<times> 's matcher)" where
  "gen_match_levels A q b n =
     for_loop n (\<lambda>(rem, stop, st). 0 < rem \<and> \<not> stop) (gen_match_level A q b)"

section \<open>Resting the remainder\<close>

text \<open>The seven \<^verbatim>\<open>ME_order_set_*\<close> calls.\<close>

definition gen_fill_row ::
  "('s, 'o, 'l) engine_api \<Rightarrow> params \<Rightarrow> u64 \<Rightarrow> 'o \<Rightarrow> 's \<Rightarrow> 's" where
  "gen_fill_row A q rem x s =
     (let s = api_order_set_id A x (q_id q) s;
          s = api_order_set_account A x (q_account q) s;
          s = api_order_set_side A x (q_side q) s;
          s = api_order_set_stp_mode A x (q_stp q) s;
          s = api_order_set_price A x (q_price q) s;
          s = api_order_set_qty A x (q_qty q) s
      in api_order_set_remaining A x rem s)"

text \<open>
  Inserting the order into the level and the index, with the roll-back when the id is
  already hashed.
\<close>

definition gen_enqueue ::
  "('s, 'o, 'l) engine_api \<Rightarrow> book \<Rightarrow> bool \<Rightarrow> 'l \<Rightarrow> 'o \<Rightarrow> 's matcher \<Rightarrow> fault + (u64 \<times> 's matcher)" where
  "gen_enqueue A own isnew lvl ord st =
     rbind (api_hash_insert A ord (api_queue_insert_tail A lvl ord (db st))) (\<lambda>(ok, s).
     if ok then Inr (0, st\<lparr>db := s\<rparr>)
     else let s = api_queue_remove A lvl ord s in
       rbind (if isnew \<and> api_level_get_count A lvl s = 0
              then rbind (book_remove A own lvl s) (\<lambda>s. Inr (api_level_free A lvl s))
              else Inr s) (\<lambda>s.
       Inr (4, st\<lparr>db := api_order_free A ord s\<rparr>)))"

definition gen_rest ::
  "('s, 'o, 'l) engine_api \<Rightarrow> params \<Rightarrow> book \<Rightarrow> u64 \<Rightarrow> 's matcher \<Rightarrow> fault + (u64 \<times> 's matcher)" where
  "gen_rest A q own rem st =
     (case api_order_alloc A (db st) of
        (None, s) \<Rightarrow> Inr (5, st\<lparr>db := s\<rparr>)
      | (Some ord, s) \<Rightarrow>
          let s = gen_fill_row A q rem ord s in
          rbind (book_find A own (q_price q) s) (\<lambda>found.
          case found of
            Some lvl \<Rightarrow> gen_enqueue A own False lvl ord (st\<lparr>db := s\<rparr>)
          | None \<Rightarrow>
             (case api_level_alloc A s of
                (None, s) \<Rightarrow> Inr (5, st\<lparr>db := api_order_free A ord s\<rparr>)
              | (Some lvl, s) \<Rightarrow>
                  rbind (book_insert A own lvl (api_level_set_price A lvl (q_price q) s)) (\<lambda>s.
                  gen_enqueue A own True lvl ord (st\<lparr>db := s\<rparr>)))))"

section \<open>The procedures\<close>

definition gen_process_side ::
  "('s, 'o, 'l) engine_api \<Rightarrow> book \<Rightarrow> params \<Rightarrow> 's matcher \<Rightarrow> fault + (u64 \<times> 's matcher)" where
  "gen_process_side A b q st =
     rbind (if q_otype q = 3
            then rbind (book_best A b (db st)) (\<lambda>best.
                 case best of
                   None \<Rightarrow> Inr False
                 | Some best \<Rightarrow> Inr (price_ok b (api_level_get_price A best (db st)) (q_price q)))
            else Inr False) (\<lambda>crossed.
     if crossed then Inr (6, st)
     else
       rbind (me_add (api_capacity A (db st)) 1) (\<lambda>n.
       rbind (gen_match_levels A q b (unat n) (q_qty q, False, st)) (\<lambda>(rem, stop, st).
       if 0 < rem \<and> q_otype q \<noteq> 2 \<and> q_otype q \<noteq> 1
       then gen_rest A q (opposite b) rem st
       else Inr (0, st))))"

definition gen_process_buy ::
  "('s, 'o, 'l) engine_api \<Rightarrow> params \<Rightarrow> 's matcher \<Rightarrow> fault + (u64 \<times> 's matcher)" where
  "gen_process_buy A = gen_process_side A Asks"

definition gen_process_sell ::
  "('s, 'o, 'l) engine_api \<Rightarrow> params \<Rightarrow> 's matcher \<Rightarrow> fault + (u64 \<times> 's matcher)" where
  "gen_process_sell A = gen_process_side A Bids"

definition gen_process_order ::
  "('s, 'o, 'l) engine_api \<Rightarrow> params \<Rightarrow> 's matcher \<Rightarrow> fault + (u64 \<times> 's matcher)" where
  "gen_process_order A q st =
     (let st = st\<lparr>me_ntrades := 0, db := api_trade_reset A (db st)\<rparr> in
      if \<not> (q_otype q = 0 \<or> q_otype q = 1 \<or> q_otype q = 2 \<or> q_otype q = 3) then Inr (2, st)
      else if \<not> (q_side q = 0 \<or> q_side q = 1) then Inr (3, st)
      else if \<not> (q_stp q = 0 \<or> q_stp q = 1 \<or> q_stp q = 2 \<or> q_stp q = 3 \<or> q_stp q = 4) then Inr (3, st)
      else if q_qty q = 0 then Inr (3, st)
      else if q_otype q \<noteq> 1 \<and> q_price q = 0 then Inr (3, st)
      else
        rbind (me_add (api_capacity A (db st)) 1) (\<lambda>n.
        rbind (me_div 18446744073709551615 n) (\<lambda>qmax.
        if qmax < q_qty q then Inr (3, st)
        else
          rbind (api_hash_find A (q_id q) (db st)) (\<lambda>dup.
          if dup \<noteq> None then Inr (4, st)
          else if (q_otype q = 0 \<or> q_otype q = 3) \<and> api_capacity A (db st) \<le> api_order_count A (db st)
          then Inr (5, st)
          else if q_side q = 0 then gen_process_buy A q st
          else gen_process_sell A q st))))"

definition gen_cancel_order ::
  "('s, 'o, 'l) engine_api \<Rightarrow> u64 \<Rightarrow> 's matcher \<Rightarrow> fault + (u64 \<times> 's matcher)" where
  "gen_cancel_order A i st =
     (let st = st\<lparr>me_ntrades := 0, db := api_trade_reset A (db st)\<rparr> in
      rbind (api_hash_find A i (db st)) (\<lambda>ord.
      case ord of
        None \<Rightarrow> Inr (7, st)
      | Some ord \<Rightarrow>
         (case api_order_owner A ord (db st) of
            None \<Rightarrow> Inr (7, st)
          | Some lvl \<Rightarrow>
              let side = api_order_get_side A ord (db st) in
              rbind (gen_unlink A lvl ord st) (\<lambda>st.
              if api_level_get_count A lvl (db st) = 0
              then rbind (if side = 0 then api_bids_remove A lvl (db st)
                          else api_asks_remove A lvl (db st)) (\<lambda>s.
                   Inr (1, st\<lparr>db := api_level_free A lvl s\<rparr>))
              else Inr (1, st)))))"

end
