(* ===== verification/Views.thy ===== *)
theory Views
  imports Gen_Matcher
begin

text \<open>
  From the store of the contract to the value-level books: \<open>book_view\<close> reads off prices and
  rows, \<open>tidy\<close> says that nothing is allocated or indexed besides what the books hold.
\<close>

section \<open>The books a store holds\<close>

definition level_view :: "('o, 'l) store \<Rightarrow> 'l \<Rightarrow> u64 \<times> order_row list" where
  "level_view a l = (lprice a l, map (orow a) (s_queue a l))"

definition book_view :: "('o, 'l) store \<Rightarrow> books" where
  "book_view a b = map (level_view a) (s_tree a b)"

text \<open>
  A store is tidy when exactly the queued orders are allocated and hashed, and exactly the
  levels of the two trees are allocated.
\<close>

definition tidy :: "('o, 'l) store \<Rightarrow> bool" where
  "tidy a \<longleftrightarrow> dom (s_orders a) = queued a \<and> s_hash a = queued a \<and>
     dom (s_levels a) = set (s_tree a Bids) \<union> set (s_tree a Asks)"

definition resting :: "('o, 'l) store \<Rightarrow> book \<Rightarrow> 'o list" where
  "resting a b = concat (map (s_queue a) (s_tree a b))"

lemma level_rows_view: "level_rows (book_view a b) = map (orow a) (resting a b)"
  by (simp add: level_rows_def book_view_def level_view_def resting_def map_concat comp_def)

lemma book_rows_view: "book_rows (book_view a) = map (orow a) (resting a Bids @ resting a Asks)"
  by (simp add: book_rows_def level_rows_view)

lemma resting_set: "set (resting a b) = (\<Union>l \<in> set (s_tree a b). set (s_queue a l))"
  by (simp add: resting_def)

lemma distinct_queues:
  assumes "store_wf a" and "distinct ls"
  shows "distinct (concat (map (s_queue a) ls))"
  using assms(2)
proof (induction ls)
  case (Cons l ls)
  then have "set (s_queue a l) \<inter> set (s_queue a k) = {}" if "k \<in> set ls" for k
    using store_wfD(9)[OF assms(1), of l k] that by auto
  then show ?case using Cons store_wfD(7)[OF assms(1)] by auto
qed simp

lemma tree_distinct: "store_wf a \<Longrightarrow> distinct (s_tree a b)"
  by (rule prio.sorted_distinct[OF store_wfD(14)])

lemma resting_distinct:
  assumes "store_wf a"
  shows "distinct (resting a Bids @ resting a Asks)"
proof -
  have "distinct (s_tree a Bids @ s_tree a Asks)"
    using tree_distinct[OF assms] assms by (simp add: store_wf_def)
  from distinct_queues[OF assms this] show ?thesis by (simp add: resting_def)
qed

lemma tidy_resting:
  assumes "store_wf a" and "tidy a"
  shows "set (resting a Bids @ resting a Asks) = queued a"
proof -
  have "queued a = (\<Union>l \<in> dom (s_levels a). set (s_queue a l))"
    using store_wfD(10)[OF assms(1)] unfolding queued_def by fastforce
  then show ?thesis using assms(2) by (auto simp: tidy_def resting_set)
qed

lemma tidy_count:
  assumes "store_wf a" and "tidy a"
  shows "card (dom (s_orders a)) = length (book_rows (book_view a))"
  using distinct_card[OF resting_distinct[OF assms(1)]] tidy_resting[OF assms] assms(2)
  by (simp add: tidy_def book_rows_view)

lemma tidy_ids:
  assumes "store_wf a" and "tidy a"
  shows "r_id ` set (book_rows (book_view a)) = (\<lambda>x. r_id (orow a x)) ` s_hash a"
  using tidy_resting[OF assms] assms(2) by (simp add: tidy_def book_rows_view image_image flip: image_Un)

lemma level_of_order:
  assumes "store_wf a" "tidy a" "x \<in> queued a"
  obtains b l where "l \<in> set (s_tree a b)" "x \<in> set (s_queue a l)" "l \<in> dom (s_levels a)"
proof -
  have "x \<in> set (resting a Bids) \<union> set (resting a Asks)" using tidy_resting[OF assms(1,2)] assms(3) by auto
  then show thesis using that store_wfD(13)[OF assms(1)] unfolding resting_set by blast
qed

text \<open>Every level in a tree has an order, so there are no more levels than orders.\<close>

lemma tidy_level_count:
  assumes wf: "store_wf a" and t: "tidy a" and ne: "\<forall>b. \<forall>l \<in> set (s_tree a b). s_queue a l \<noteq> []"
  shows "card (dom (s_levels a)) \<le> card (dom (s_orders a))"
proof -
  let ?f = "\<lambda>l. hd (s_queue a l)"
  have in_q: "?f l \<in> set (s_queue a l)" if "l \<in> dom (s_levels a)" for l
    using that t ne unfolding tidy_def by (metis UnE hd_in_set)
  have "inj_on ?f (dom (s_levels a))"
  proof (rule inj_onI)
    fix l k assume "l \<in> dom (s_levels a)" "k \<in> dom (s_levels a)" "?f l = ?f k"
    then show "l = k" using in_q[of l] in_q[of k] store_wfD(9)[OF wf, of l k] by auto
  qed
  moreover have "?f ` dom (s_levels a) \<subseteq> dom (s_orders a)"
    using in_q store_wfD(8)[OF wf] by blast
  ultimately show ?thesis using store_wfD(2)[OF wf] by (rule card_inj_on_le)
qed

end
