(* ===== verification/Refinement.thy ===== *)
theory Refinement
  imports Views
begin

text \<open>
  The matcher of \<^verbatim>\<open>c/gen/matcher.c\<close> refines the value-level specification over any data
  layer that satisfies the contract: it never traps and never faults, every bounded loop
  stops before its bound, and the books it leaves are the ones the specification computes.
\<close>

section \<open>Matching one level\<close>

text \<open>The matcher's counter agrees with the trades in the sink.\<close>

definition synced :: "('s \<Rightarrow> ('o, 'l) store \<Rightarrow> bool) \<Rightarrow> 's matcher \<Rightarrow> ('o, 'l) store \<Rightarrow> bool" where
  "synced rep st a \<longleftrightarrow> rep (db st) a \<and> unat (me_ntrades st) = length (s_trades a)"

definition add_trades :: "trade list \<Rightarrow> ('o, 'l) store \<Rightarrow> ('o, 'l) store" where
  "add_trades ts a = a\<lparr>s_trades := s_trades a @ ts\<rparr>"

definition drop_order :: "'l \<Rightarrow> 'o \<Rightarrow> ('o, 'l) store \<Rightarrow> ('o, 'l) store" where
  "drop_order l x a = a\<lparr>s_queue := (s_queue a)(l := remove1 x (s_queue a l)),
     s_hash := s_hash a - {x}, s_orders := (s_orders a)(x := None)\<rparr>"

lemma add_trades_simps [simp]:
  "s_cap (add_trades ts a) = s_cap a" "s_orders (add_trades ts a) = s_orders a"
  "s_levels (add_trades ts a) = s_levels a" "s_queue (add_trades ts a) = s_queue a"
  "s_hash (add_trades ts a) = s_hash a" "s_tree (add_trades ts a) = s_tree a"
  "s_trades (add_trades ts a) = s_trades a @ ts" "queued (add_trades ts a) = queued a"
  "add_trades [] a = a"
  by (simp_all add: add_trades_def)

lemma drop_order_simps [simp]:
  "s_cap (drop_order l x a) = s_cap a" "s_orders (drop_order l x a) = (s_orders a)(x := None)"
  "s_levels (drop_order l x a) = s_levels a" "s_hash (drop_order l x a) = s_hash a - {x}"
  "s_queue (drop_order l x a) = (s_queue a)(l := remove1 x (s_queue a l))"
  "s_tree (drop_order l x a) = s_tree a" "s_trades (drop_order l x a) = s_trades a"
  by (simp_all add: drop_order_def)

lemma drop_order_upd_row: "drop_order l x (upd_row x f a) = drop_order l x a"
  by (simp add: drop_order_def upd_row_def)

lemma drop_order_add_trades: "drop_order l x (add_trades ts a) = add_trades ts (drop_order l x a)"
  by (simp add: drop_order_def add_trades_def)

text \<open>How a store changes while the queue of level \<open>l\<close> is matched down to \<open>zs\<close>.\<close>

definition taken :: "'l \<Rightarrow> 'o list \<Rightarrow> trade list \<Rightarrow> ('o, 'l) store \<Rightarrow> ('o, 'l) store \<Rightarrow> bool" where
  "taken l zs ts a a' \<longleftrightarrow>
     s_cap a' = s_cap a \<and> s_levels a' = s_levels a \<and> s_tree a' = s_tree a \<and>
     s_queue a' = (s_queue a)(l := zs) \<and> s_trades a' = s_trades a @ ts \<and>
     set zs \<subseteq> set (s_queue a l) \<and>
     (\<forall>x. x \<notin> set (s_queue a l) \<longrightarrow> s_orders a' x = s_orders a x) \<and>
     dom (s_orders a') = dom (s_orders a) - (set (s_queue a l) - set zs) \<and>
     s_hash a' = s_hash a - (set (s_queue a l) - set zs)"

lemma taken_refl: "taken l (s_queue a l) [] a a"
  by (simp add: taken_def)

lemma taken_drop:
  assumes "s_queue a l = x # xs" and "distinct (x # xs)"
    and "taken l zs us (add_trades ts (drop_order l x a)) a'"
  shows "taken l zs (ts @ us) a a'"
  using assms unfolding taken_def by auto

definition first_of :: "'o list \<Rightarrow> 'o option" where
  "first_of xs = (case xs of [] \<Rightarrow> None | x # _ \<Rightarrow> Some x)"

lemma first_of_simps [simp]: "first_of [] = None" "first_of (x # xs) = Some x"
  by (simp_all add: first_of_def)

lemma for_loop_stop: "\<not> c v \<Longrightarrow> for_loop n c f v = Inr v"
  by (cases n) simp_all

lemma for_loop_step: "c v \<Longrightarrow> f v = Inr w \<Longrightarrow> for_loop (Suc n) c f v = for_loop n c f w"
  by simp

lemma gen_min_eq: "gen_min_u64 a b = min a b"
  by (auto simp: gen_min_u64_def min_def)

lemma me_sub_ok: "b \<le> a \<Longrightarrow> me_sub a b = Inr (a - b)"
  by (simp add: me_sub_def)

lemma me_add_one: "unat c < 2 ^ 32 \<Longrightarrow> me_add c 1 = Inr (c + 1)" "unat c < 2 ^ 32 \<Longrightarrow> unat (c + 1) = Suc (unat c)"
  by (simp_all add: me_add_def unat_word_ariths)

context engine_db
begin

lemma unlink_law:
  assumes r: "rep (db st) a" and x: "x \<in> set (s_queue a l)" "x \<in> s_hash a"
  shows "\<exists>st'. gen_unlink A l x st = Inr st' \<and> rep (db st') (drop_order l x a) \<and> me_ntrades st' = me_ntrades st"
proof -
  note wf = rep_wf[OF r]
  have l: "l \<in> dom (s_levels a)" using x(1) store_wfD(10)[OF wf, of l] by force
  let ?a1 = "set_queue l (remove1 x (s_queue a l)) a"
  have r1: "rep (api_queue_remove A l x (db st)) ?a1" by (rule queue_remove[OF r l x(1)])
  moreover have "x \<in> s_hash ?a1" using x(2) by simp
  ultimately obtain s2 where run: "api_hash_remove A x (api_queue_remove A l x (db st)) = Inr s2"
    and r2: "rep s2 (?a1\<lparr>s_hash := s_hash a - {x}\<rparr>)" using hash_remove[OF r1, of x] by auto
  let ?a2 = "?a1\<lparr>s_hash := s_hash a - {x}\<rparr>"
  have "x \<notin> queued ?a2"
    using queued_others[OF wf x(1)] store_wfD(7)[OF wf, of l] by (simp add: queued_set_queue)
  moreover have "x \<in> dom (s_orders ?a2)" using x(1) store_wfD(8)[OF wf, of l] by auto
  ultimately have "rep (api_order_free A x s2) (?a2\<lparr>s_orders := (s_orders ?a2)(x := None)\<rparr>)"
    by (intro order_free[OF r2]) simp_all
  then show ?thesis by (simp add: gen_unlink_def run drop_order_def set_queue_def)
qed

lemma emit_law:
  assumes s: "synced rep st a" and room: "length (s_trades a) \<le> unat (s_cap a)"
  shows "\<exists>st'. me_emit A m t p q st = Inr st' \<and>
    synced rep st' (add_trades [\<lparr>t_maker = m, t_taker = t, t_price = p, t_qty = q\<rparr>] a)"
proof -
  have r: "rep (db st) a" and n: "unat (me_ntrades st) = length (s_trades a)" using s by (simp_all add: synced_def)
  note cap = store_wfD(1)[OF rep_wf[OF r]]
  obtain s' where e: "api_trade_emit A m t p q (db st) = Inr s'"
    "rep s' (a\<lparr>s_trades := s_trades a @ [\<lparr>t_maker = m, t_taker = t, t_price = p, t_qty = q\<rparr>]\<rparr>)"
    using trade_emit[OF r room] by blast
  have "\<not> s_cap a + 1 \<le> me_ntrades st" using n room me_add_one(2)[OF cap] by (simp add: word_le_nat_alt)
  moreover have "unat (me_ntrades st + 1) = Suc (unat (me_ntrades st))" using n room cap by (simp add: unat_word_ariths)
  ultimately show ?thesis using e n
    by (simp add: me_emit_def capacity[OF r] me_add_one[OF cap] synced_def add_trades_def)
qed

lemma fill_law:
  assumes s: "synced rep st a" and q: "s_queue a l = x # xs" and h: "x \<in> s_hash a"
    and row: "s_orders a x = Some row" and room: "length (s_trades a) \<le> unat (s_cap a)"
    and report: "report \<longleftrightarrow> \<not> self_trade p row"
  shows "r_rem row \<le> rem \<Longrightarrow> \<exists>st'. gen_fill A p l report rem x st = Inr (rem - r_rem row, first_of xs, st') \<and>
      synced rep st' (add_trades (fill_trade p (lprice a l) row (r_rem row)) (drop_order l x a))" (is "_ \<Longrightarrow> ?full")
    and "rem < r_rem row \<Longrightarrow> \<exists>st'. gen_fill A p l report rem x st = Inr (0, first_of xs, st') \<and>
      synced rep st' (add_trades (fill_trade p (lprice a l) row rem)
        (upd_row x (\<lambda>r. r\<lparr>r_rem := r_rem row - rem\<rparr>) a))" (is "_ \<Longrightarrow> ?part")
proof -
  have r: "rep (db st) a" using s by (simp add: synced_def)
  note wf = rep_wf[OF r]
  have l: "l \<in> dom (s_levels a)" using q store_wfD(10)[OF wf, of l] by force
  have xd: "x \<in> dom (s_orders a)" using row by blast
  define f where "f = min rem (r_rem row)"
  define v where "v = r_rem row - f"
  let ?a1 = "upd_row x (\<lambda>r. r\<lparr>r_rem := v\<rparr>) a" and ?s1 = "api_order_set_remaining A x v (db st)"
  let ?ts = "fill_trade p (lprice a l) row f"
  have get: "api_order_get_remaining A x (db st) = r_rem row" using order_get[OF r row] by simp
  have le: "f \<le> rem" "f \<le> r_rem row" by (simp_all add: f_def)
  have r1: "rep ?s1 ?a1"
    using le(2) row by (intro order_set_remaining[OF r xd]) (simp add: v_def word_sub_le)
  have row1: "s_orders ?a1 x = Some (row\<lparr>r_rem := v\<rparr>)" using row by simp
  have id1: "api_order_get_id A x ?s1 = r_id row" using order_get[OF r1 row1] by simp
  have price1: "api_level_get_price A l ?s1 = lprice a l" using level_get_price[OF r1, of l] l by simp
  obtain st2 where e: "(if report then me_emit A (api_order_get_id A x (db (st\<lparr>db := ?s1\<rparr>))) (q_id p)
      (api_level_get_price A l (db (st\<lparr>db := ?s1\<rparr>))) f (st\<lparr>db := ?s1\<rparr>) else Inr (st\<lparr>db := ?s1\<rparr>)) = Inr st2"
    and s2: "synced rep st2 (add_trades ?ts ?a1)"
  proof (cases report)
    case True
    have "synced rep (st\<lparr>db := ?s1\<rparr>) ?a1" using r1 s by (simp add: synced_def)
    from emit_law[OF this, of "r_id row" "q_id p" "lprice a l" f] room True that report show thesis
      by (auto simp: id1 price1 fill_trade_def)
  next
    case False
    with that[of "st\<lparr>db := ?s1\<rparr>"] r1 s report show thesis by (simp add: synced_def fill_trade_def)
  qed
  have r2: "rep (db st2) (add_trades ?ts ?a1)" using s2 by (simp add: synced_def)
  have nx: "api_queue_next A x (db st2) = first_of xs"
    using queue_next[OF r2, of l "[]" x xs] q by (simp add: first_of_def)
  have run: "gen_fill A p l report rem x st = rbind (if v = 0 then gen_unlink A l x st2 else Inr st2)
      (\<lambda>st. Inr (rem - f, first_of xs, st))"
    by (simp add: gen_fill_def Let_def get gen_min_eq me_sub_ok le e nx split del: if_split flip: f_def v_def)
  show ?full if full: "r_rem row \<le> rem"
  proof -
    have f: "f = r_rem row" "v = 0" using full by (simp_all add: f_def v_def)
    have "x \<in> set (s_queue (add_trades ?ts ?a1) l)" "x \<in> s_hash (add_trades ?ts ?a1)" using q h by simp_all
    from unlink_law[OF r2 this] obtain st3 where "gen_unlink A l x st2 = Inr st3"
      "rep (db st3) (add_trades ?ts (drop_order l x a))" "me_ntrades st3 = me_ntrades st2"
      by (auto simp: drop_order_add_trades drop_order_upd_row)
    then show ?thesis using run s2 f by (simp add: synced_def)
  qed
  show ?part if part: "rem < r_rem row"
  proof -
    have f: "f = rem" "v = r_rem row - rem" "v \<noteq> 0" using part by (auto simp: min_def f_def v_def)
    then show ?thesis using run s2 by simp
  qed
qed

text \<open>
  One iteration of the inner loop, at the head \<open>x\<close> of the queue: either the row stays and the
  loop is over, or the row leaves, at most one trade is reported and the loop goes on with the
  next row.
\<close>

lemma match_order_law:
  assumes s: "synced rep st a" and q: "s_queue a l = x # xs" and h: "x \<in> s_hash a"
    and row: "s_orders a x = Some row" and room: "length (s_trades a) < unat (s_cap a)"
    and rem: "rem \<noteq> 0" and mq: "match_queue p (lprice a l) (row # rows) rem = (ys, r, ts)"
  obtains (stay) p' st' a' row' where "gen_match_order A p l rem x st = Inr (0, p', st')" "synced rep st' a'"
      "taken l (x # xs) ts a a'" "s_orders a' x = Some row'" "\<forall>y. y \<noteq> x \<longrightarrow> s_orders a' y = s_orders a y"
      "ys = row' # rows" "r = 0"
  | (leave) rem' st' t1 us where "gen_match_order A p l rem x st = Inr (rem', first_of xs, st')"
      "synced rep st' (add_trades t1 (drop_order l x a))" "length t1 \<le> 1" "ts = t1 @ us"
      "match_queue p (lprice a l) rows rem' = (ys, r, us)"
proof -
  have r: "rep (db st) a" using s by (simp add: synced_def)
  have cond: "q_account p \<noteq> 0 \<and> q_account p = api_order_get_account A x (db st) \<and> q_stp p \<noteq> 0 \<longleftrightarrow> self_trade p row"
    using order_get[OF r row] by (simp add: self_trade_def)
  obtain st' where u: "gen_unlink A l x st = Inr st'" "synced rep st' (add_trades [] (drop_order l x a))"
    using unlink_law[OF r, of x l] q h s by (auto simp: synced_def)
  have nx: "api_queue_next A x (db st) = first_of xs"
    using queue_next[OF r, of l "[]" x xs] q by (simp add: first_of_def)
  have fill: "gen_match_order A p l rem x st = gen_fill A p l (\<not> self_trade p row) rem x st"
    if "self_trade p row \<longrightarrow> q_stp p \<notin> {1, 2, 3}"
    using that unfolding gen_match_order_def cond by simp
  have room': "length (s_trades a) \<le> unat (s_cap a)" using room by simp
  from mq show thesis
  proof (cases rule: match_queue_ConsE)
    case stop
    have "gen_match_order A p l rem x st = Inr (0, Some x, st)"
      using stop rem unfolding gen_match_order_def cond by simp
    moreover have "taken l (x # xs) ts a a" using taken_refl[of l a] q stop(3) by simp
    ultimately show thesis using stay s row stop by blast
  next
    case drop
    have "gen_match_order A p l rem x st = Inr (rem, first_of xs, st')"
      using drop u(1) unfolding gen_match_order_def cond by (simp add: nx)
    from leave[OF this u(2)] drop(4) show thesis by simp
  next
    case both
    have "gen_match_order A p l rem x st = Inr (0, first_of xs, st')"
      using both u(1) unfolding gen_match_order_def cond by (simp add: nx)
    from leave[OF this u(2), of "[]"] both show thesis by simp
  next
    case (full us)
    from fill_law(1)[OF s q h row room' refl full(3)] fill[OF full(2)] obtain st'' where
      "gen_match_order A p l rem x st = Inr (rem - r_rem row, first_of xs, st'')"
      "synced rep st'' (add_trades (fill_trade p (lprice a l) row (r_rem row)) (drop_order l x a))" by auto
    from leave[OF this fill_trade_length full(5,4)] show thesis .
  next
    case part
    from fill_law(2)[OF s q h row room' refl part(3)] fill[OF part(2)] obtain st'' where
      "gen_match_order A p l rem x st = Inr (0, first_of xs, st'')"
      "synced rep st'' (add_trades ts (upd_row x (\<lambda>r. r\<lparr>r_rem := r_rem row - rem\<rparr>) a))" using part(6) by auto
    moreover have "taken l (x # xs) ts a (add_trades ts (upd_row x (\<lambda>r. r\<lparr>r_rem := r_rem row - rem\<rparr>) a))"
      using q by (auto simp: taken_def)
    ultimately show thesis using stay row part(4,5) by simp
  qed
qed

text \<open>The inner loop computes \<open>match_queue\<close> and never traps.\<close>

lemma match_queue_refines:
  assumes "synced rep st a" and "s_queue a l = xs" and "set xs \<subseteq> s_hash a"
    and "length xs \<le> n" and "length (s_trades a) + length xs \<le> unat (s_cap a)"
    and "match_queue p (lprice a l) (map (orow a) xs) rem = (ys, r, ts)"
  shows "\<exists>p' st' a' zs. gen_match_queue A p l n (rem, first_of xs, st) = Inr (r, p', st') \<and>
    synced rep st' a' \<and> taken l zs ts a a' \<and> map (orow a') zs = ys"
  using assms
proof (induction xs arbitrary: st a n rem ts)
  case Nil
  then have "gen_match_queue A p l n (rem, first_of [], st) = Inr (r, None, st)"
    by (simp add: gen_match_queue_def for_loop_stop)
  moreover have "taken l [] ts a a" using Nil taken_refl[of l a] by simp
  ultimately show ?case using Nil by auto
next
  case (Cons x xs)
  let ?loop = "\<lambda>n. for_loop n (\<lambda>(rem, passive, st). passive \<noteq> None \<and> 0 < rem)
       (\<lambda>(rem, passive, st). case passive of None \<Rightarrow> Inl Undefined
          | Some x \<Rightarrow> gen_match_order A p l rem x st)"
  have r: "rep (db st) a" using Cons.prems(1) by (simp add: synced_def)
  note wf = rep_wf[OF r] and q = Cons.prems(2)
  obtain m where n: "n = Suc m" "length xs \<le> m" using Cons.prems(4) by (cases n) auto
  have h: "x \<in> s_hash a" using Cons.prems(3) by simp
  have "x \<in> dom (s_orders a)" using h store_wfD(11)[OF wf] by blast
  then obtain row where row: "s_orders a x = Some row" by blast
  have d: "distinct (x # xs)" using store_wfD(7)[OF wf, of l] q by simp
  have mq: "match_queue p (lprice a l) (row # map (orow a) xs) rem = (ys, r, ts)"
    using Cons.prems(6) row by simp
  show ?case
  proof (cases "rem = 0")
    case True
    then have "gen_match_queue A p l n (rem, first_of (x # xs), st) = Inr (r, Some x, st)"
      using mq by (simp add: gen_match_queue_def for_loop_stop)
    moreover have "taken l (x # xs) [] a a" using taken_refl[of l a] q by simp
    moreover have "map (orow a) (x # xs) = ys" "ts = []" using True mq row by simp_all
    ultimately show ?thesis using Cons.prems(1) by blast
  next
    case rem: False
    have step: "gen_match_queue A p l n (rem, first_of (x # xs), st) = ?loop m (rem', p', st')"
      if "gen_match_order A p l rem x st = Inr (rem', p', st')" for rem' p' st'
      using that rem by (simp add: gen_match_queue_def n(1) word_gt_0)
    have room: "length (s_trades a) < unat (s_cap a)" using Cons.prems(5) by simp
    from Cons.prems(1) q h row room rem mq show ?thesis
    proof (cases rule: match_order_law)
      case (stay p' st' a' row')
      have "map (orow a') (x # xs) = ys" using stay(4-6) d by auto
      moreover have "gen_match_queue A p l n (rem, first_of (x # xs), st) = Inr (r, p', st')"
        using step[OF stay(1)] stay(7) by (simp add: for_loop_stop)
      ultimately show ?thesis using stay(2,3) by blast
    next
      case (leave rem' st' t1 us)
      let ?a = "add_trades t1 (drop_order l x a)"
      have rows: "map (orow ?a) xs = map (orow a) xs" using d by (intro map_cong) auto
      have "match_queue p (lprice ?a l) (map (orow ?a) xs) rem' = (ys, r, us)" unfolding rows using leave(5) by simp
      moreover have "s_queue ?a l = xs" "set xs \<subseteq> s_hash ?a" "length (s_trades ?a) + length xs \<le> unat (s_cap ?a)"
        using q d Cons.prems(3,5) leave(3) by auto
      ultimately obtain p' st'' a' zs where "gen_match_queue A p l m (rem', first_of xs, st') = Inr (r, p', st'')"
        "synced rep st'' a'" "taken l zs us ?a a'" "map (orow a') zs = ys"
        using Cons.IH[OF leave(2) _ _ n(2)] by blast
      moreover have "gen_match_queue A p l n (rem, first_of (x # xs), st) = gen_match_queue A p l m (rem', first_of xs, st')"
        unfolding step[OF leave(1)] by (simp add: gen_match_queue_def)
      ultimately show ?thesis using taken_drop[OF q d] leave(4) by metis
    qed
  qed
qed

end

section \<open>Matching a book\<close>

lemma taken_others:
  assumes wf: "store_wf a" and t: "taken l zs ts a a'" and k: "k \<noteq> l"
  shows "level_view a' k = level_view a k"
proof -
  have "map (orow a') (s_queue a k) = map (orow a) (s_queue a k)"
  proof (intro map_cong refl)
    fix x assume "x \<in> set (s_queue a k)"
    then have "x \<notin> set (s_queue a l)" using store_wfD(9)[OF wf k] by blast
    then show "orow a' x = orow a x" using t by (simp add: taken_def)
  qed
  then show ?thesis using t k by (simp add: taken_def level_view_def)
qed

lemma taken_tidy:
  assumes wf: "store_wf a" and t: "taken l zs ts a a'" and tidy: "tidy a"
  shows "dom (s_orders a') = queued a'" "s_hash a' = queued a'" "dom (s_levels a') = dom (s_levels a)"
proof -
  have "queued a' = set zs \<union> (\<Union>k \<in> - {l}. set (s_queue a k))"
    using t by (auto simp: taken_def queued_def split: if_splits)
  moreover have "(\<Union>k \<in> - {l}. set (s_queue a k)) = queued a - set (s_queue a l)"
    using store_wfD(9)[OF wf] by (auto simp: queued_def)
  ultimately have "queued a' = queued a - (set (s_queue a l) - set zs)"
    using t by (auto simp: taken_def queued_def)
  then show "dom (s_orders a') = queued a'" "s_hash a' = queued a'"
    using t tidy by (simp_all add: taken_def tidy_def)
  show "dom (s_levels a') = dom (s_levels a)" using t by (simp add: taken_def)
qed

context engine_db
begin

lemma match_level_refines:
  assumes s: "synced rep st a" and tidy: "tidy a" and ls: "s_tree a b = l # ls"
    and cross: "q_otype p = 1 \<or> price_ok b (lprice a l) (q_price p)"
    and room: "length (s_trades a) + length (s_queue a l) \<le> unat (s_cap a)"
    and m: "match_queue p (lprice a l) (map (orow a) (s_queue a l)) rem = (ys, r, ts)"
  shows "\<exists>st' a'. gen_match_level A p b (rem, False, st) = Inr (r, False, st') \<and> synced rep st' a' \<and>
    tidy a' \<and> s_cap a' = s_cap a \<and> s_trades a' = s_trades a @ ts \<and>
    s_tree a' = (s_tree a)(b := if ys = [] then ls else l # ls) \<and>
    book_view a' = (book_view a)
      (b := (if ys = [] then [] else [(lprice a l, ys)]) @ map (level_view a) ls) \<and>
    (\<forall>k \<in> set ls. level_view a' k = level_view a k)"
proof -
  have r: "rep (db st) a" using s by (simp add: synced_def)
  note wf = rep_wf[OF r]
  have l: "l \<in> dom (s_levels a)" using store_wfD(13)[OF wf, of b] ls by auto
  have best: "book_best A b (db st) = Inr (Some l)" using book_best[OF r, of b] ls by simp
  have lp: "api_level_get_price A l (db st) = lprice a l" by (rule level_get_price[OF r l])
  have first: "api_queue_first A l (db st) = first_of (s_queue a l)"
    using queue_first[OF r l] by (simp add: first_of_def)
  have cap: "me_add (api_capacity A (db st)) 1 = Inr (s_cap a + 1)" "unat (s_cap a + 1) = Suc (unat (s_cap a))"
    using me_add_one[OF store_wfD(1)[OF wf]] by (simp_all add: capacity[OF r])
  have hashed: "set (s_queue a l) \<subseteq> s_hash a" using tidy by (auto simp: tidy_def queued_def)
  have fuel: "length (s_queue a l) \<le> unat (s_cap a + 1)" using store_wf_queue_length[OF wf, of l] cap(2) by simp
  obtain p' st1 a1 zs where run: "gen_match_queue A p l (unat (s_cap a + 1)) (rem, first_of (s_queue a l), st)
      = Inr (r, p', st1)" and s1: "synced rep st1 a1" and t: "taken l zs ts a a1" and ys: "map (orow a1) zs = ys"
    using match_queue_refines[OF s refl hashed fuel room m] by blast
  have r1: "rep (db st1) a1" using s1 by (simp add: synced_def)
  note wf1 = rep_wf[OF r1]
  have a1: "s_cap a1 = s_cap a" "s_levels a1 = s_levels a" "s_tree a1 = s_tree a" "s_trades a1 = s_trades a @ ts"
    "s_queue a1 l = zs" using t by (simp_all add: taken_def)
  have count: "api_level_get_count A l (db st1) = of_nat (length zs)"
    using level_get_count[OF r1, of l] l a1 by simp
  have "unat (of_nat (length zs) :: u64) = length zs"
    using small_count[OF store_wf_queue_length[OF wf1, of l] store_wfD(1)[OF wf1]] a1 by simp
  then have empty: "(of_nat (length zs) :: u64) = 0 \<longleftrightarrow> ys = []" using ys by (auto simp: unat_eq_0 simp flip: length_0_conv)
  have lv: "level_view a1 k = level_view a k" if "k \<noteq> l" for k by (rule taken_others[OF wf t that])
  have ll: "l \<notin> set ls" "l \<notin> set (s_tree a (opposite b))"
    using tree_distinct[OF wf, of b] wf ls by (cases b; auto simp: store_wf_def)+
  have ne: "\<forall>k \<in> set ls. k \<noteq> l" "\<forall>k \<in> set (s_tree a (opposite b)). k \<noteq> l" using ll by auto
  have rest: "map (level_view a1) ls = map (level_view a) ls" "\<forall>k \<in> set ls. level_view a1 k = level_view a k"
    "map (level_view a1) (s_tree a (opposite b)) = map (level_view a) (s_tree a (opposite b))"
    using lv ne by simp_all
  have body: "gen_match_level A p b (rem, False, st) =
      (if ys = [] then rbind (book_remove A b l (db st1)) (\<lambda>s. Inr (r, False, st1\<lparr>db := api_level_free A l s\<rparr>))
       else Inr (r, False, st1))"
    using cross by (auto simp add: gen_match_level_def best lp first cap(1) run count empty)
  note td = taken_tidy[OF wf t tidy]
  show ?thesis
  proof (cases "ys = []")
    case False
    have "book_view a1 = (book_view a)(b := (lprice a l, ys) # map (level_view a) ls)"
    proof
      fix c show "book_view a1 c = ((book_view a)(b := (lprice a l, ys) # map (level_view a) ls)) c"
        using rest ls ys a1 by (cases "c = b"; cases b; cases c) (simp_all add: book_view_def level_view_def)
    qed
    moreover have "tidy a1" using td tidy a1 by (simp add: tidy_def)
    moreover have "s_tree a1 = (s_tree a)(b := l # ls)" using a1 ls by auto
    ultimately show ?thesis using body False s1 a1 rest(2) by auto
  next
    case True
    then have zs: "zs = []" using ys by simp
    obtain s2 where rm: "book_remove A b l (db st1) = Inr s2" and r2: "rep s2 (set_tree_of b (remove1 l (s_tree a1 b)) a1)"
      using book_remove[OF r1, of l b] a1 ls by auto
    let ?a2 = "set_tree_of b ls a1"
    have r2': "rep s2 ?a2" using r2 a1 ls by simp
    have "\<forall>c. l \<notin> set (s_tree ?a2 c)" using ll a1 by (cases b) (auto simp: all_book)
    then have r3: "rep (api_level_free A l s2) (?a2\<lparr>s_levels := (s_levels ?a2)(l := None)\<rparr>)"
      using l a1 zs by (intro level_free[OF r2']) simp_all
    let ?a3 = "?a2\<lparr>s_levels := (s_levels ?a2)(l := None)\<rparr>"
    have "level_view ?a3 k = level_view a1 k" if "k \<noteq> l" for k using that by (simp add: level_view_def)
    then have v3: "map (level_view ?a3) ls = map (level_view a) ls"
      "map (level_view ?a3) (s_tree a (opposite b)) = map (level_view a) (s_tree a (opposite b))"
      "\<forall>k \<in> set ls. level_view ?a3 k = level_view a k"
      using rest ne by simp_all
    have "book_view ?a3 = (book_view a)(b := map (level_view a) ls)"
    proof
      fix c show "book_view ?a3 c = ((book_view a)(b := map (level_view a) ls)) c"
        using v3 a1 by (cases "c = b"; cases b; cases c) (simp_all add: book_view_def)
    qed
    moreover have "tidy ?a3"
      using td tidy a1 ls ll tree_distinct[OF wf, of b] by (cases b) (auto simp: tidy_def)
    moreover have "synced rep (st1\<lparr>db := api_level_free A l s2\<rparr>) ?a3" using r3 s1 by (simp add: synced_def)
    moreover have "s_tree ?a3 = (s_tree a)(b := ls)" using a1 by simp
    ultimately show ?thesis using body True rm a1 v3(3) by auto
  qed
qed

end

context engine_db
begin

lemma match_levels_refines:
  assumes "synced rep st a" and "tidy a" and "s_tree a b = ls" and "Suc (length ls) \<le> n"
    and "length (s_trades a) + length (level_rows (map (level_view a) ls)) \<le> unat (s_cap a)"
    and "match_levels p b (map (level_view a) ls) rem = (ms, r, ts)"
  shows "\<exists>stop st' a'. gen_match_levels A p b n (rem, False, st) = Inr (r, stop, st') \<and>
    synced rep st' a' \<and> tidy a' \<and> s_cap a' = s_cap a \<and> s_trades a' = s_trades a @ ts \<and>
    book_view a' = (book_view a)(b := ms)"
  using assms
proof (induction ls arbitrary: st a n rem ts)
  case Nil
  obtain m where n: "n = Suc m" using Nil.prems(4) by (cases n) auto
  have r: "rep (db st) a" using Nil.prems(1) by (simp add: synced_def)
  have "gen_match_level A p b (rem, False, st) = Inr (rem, True, st)"
    using book_best[OF r, of b] Nil.prems(3) by (simp add: gen_match_level_def)
  then have "\<exists>stop. gen_match_levels A p b n (rem, False, st) = Inr (r, stop, st)"
    using Nil.prems(6) by (auto simp: gen_match_levels_def n for_loop_stop)
  moreover have "book_view a = (book_view a)(b := ms)"
    using Nil.prems(3,6) by (auto simp: book_view_def)
  ultimately show ?case using Nil.prems by auto
next
  case (Cons l ls)
  let ?loop = "\<lambda>n. for_loop n (\<lambda>(rem, stop, st). 0 < rem \<and> \<not> stop) (gen_match_level A p b)"
  obtain m where n: "n = Suc m" "Suc (length ls) \<le> m" using Cons.prems(4) by (cases n) auto
  have r: "rep (db st) a" using Cons.prems(1) by (simp add: synced_def)
  note wf = rep_wf[OF r]
  have l: "l \<in> dom (s_levels a)" using store_wfD(13)[OF wf, of b] Cons.prems(3) by auto
  have same: "book_view a = (book_view a)(b := map (level_view a) (l # ls))"
    using Cons.prems(3) by (auto simp: book_view_def)
  have step: "gen_match_levels A p b n (rem, False, st) = ?loop m w"
    if "rem \<noteq> 0" "gen_match_level A p b (rem, False, st) = Inr w" for w
    using that by (simp add: gen_match_levels_def n(1) word_gt_0)
  have room: "length (s_trades a) + length (s_queue a l) \<le> unat (s_cap a)"
    using Cons.prems(5) by (simp add: level_view_def)
  have view: "match_levels p b ((lprice a l, map (orow a) (s_queue a l)) # map (level_view a) ls) rem = (ms, r, ts)"
    using Cons.prems(6) unfolding list.map level_view_def[of a l] .
  from view show ?case
  proof (cases rule: match_levels_ConsE)
    case stop
    have "\<exists>stop. gen_match_levels A p b n (rem, False, st) = Inr (r, stop, st)"
    proof (cases "rem = 0")
      case True
      then show ?thesis using stop by (auto simp: gen_match_levels_def for_loop_stop)
    next
      case False
      then have "gen_match_level A p b (rem, False, st) = Inr (rem, True, st)"
        using stop(4) book_best[OF r, of b] Cons.prems(3) level_get_price[OF r l]
        by (simp add: gen_match_level_def)
      from step[OF False this] show ?thesis using stop by (auto simp: for_loop_stop)
    qed
    moreover have "ms = map (level_view a) (l # ls)" using stop(1) by (simp add: level_view_def)
    ultimately show ?thesis using same Cons.prems(1,2) stop(3) by auto
  next
    case (clear r1 ts1 us)
    from match_level_refines[OF Cons.prems(1-3) clear(2) room clear(3)] obtain st1 a1 where
      run: "gen_match_level A p b (rem, False, st) = Inr (r1, False, st1)" and s1: "synced rep st1 a1"
      and a1: "tidy a1" "s_cap a1 = s_cap a" "s_trades a1 = s_trades a @ ts1" "s_tree a1 = (s_tree a)(b := ls)"
        "book_view a1 = (book_view a)(b := map (level_view a) ls)" "\<forall>k \<in> set ls. level_view a1 k = level_view a k"
      by auto
    have v: "map (level_view a1) ls = map (level_view a) ls" using a1(6) by simp
    have "length (s_trades a1) + length (level_rows (map (level_view a1) ls)) \<le> unat (s_cap a1)"
      unfolding v using a1(2,3) Cons.prems(5) match_queue_trades[OF clear(3)] by (simp add: level_view_def[of a l])
    moreover have "match_levels p b (map (level_view a1) ls) r1 = (ms, r, us)" unfolding v by (rule clear(4))
    moreover have "s_tree a1 b = ls" using a1(4) by simp
    ultimately obtain stop st2 a2 where "gen_match_levels A p b m (r1, False, st1) = Inr (r, stop, st2)"
      "synced rep st2 a2" "tidy a2" "s_cap a2 = s_cap a1" "s_trades a2 = s_trades a1 @ us"
      "book_view a2 = (book_view a1)(b := ms)"
      using Cons.IH[OF s1 a1(1) _ n(2)] by blast
    then show ?thesis using step[OF clear(1) run] a1 clear(5)
      by (intro exI[of _ stop] exI[of _ st2] exI[of _ a2]) (simp add: gen_match_levels_def)
  next
    case (keep ys)
    from match_level_refines[OF Cons.prems(1-3) keep(2) room keep(3)] keep(4) obtain st1 a1 where
      run: "gen_match_level A p b (rem, False, st) = Inr (r, False, st1)" and s1: "synced rep st1 a1"
      and a1: "tidy a1" "s_cap a1 = s_cap a" "s_trades a1 = s_trades a @ ts"
        "book_view a1 = (book_view a)(b := (lprice a l, ys) # map (level_view a) ls)"
      by auto
    have "gen_match_levels A p b n (rem, False, st) = Inr (r, False, st1)"
      using step[OF keep(1) run] keep(5) by (simp add: for_loop_stop)
    then show ?thesis using s1 a1 keep(6)
      by (intro exI[of _ False] exI[of _ st1] exI[of _ a1]) simp
  qed
qed

end

section \<open>Resting the remainder\<close>

lemma add_order_found:
  assumes "sorted_wrt (better b) (map (lprice a) ls)" and "l \<in> set ls" and "lprice a l = p"
  shows "add_order b p x (map (level_view a) ls) =
    map (\<lambda>k. if k = l then (p, map (orow a) (s_queue a l) @ [x]) else level_view a k) ls"
  using assms
proof (induction ls)
  case (Cons k ls)
  show ?case
  proof (cases "k = l")
    case True
    have "l \<notin> set ls" using Cons.prems(1) True prio.above_irrefl by force
    then have "map (\<lambda>k. if k = l then (p, map (orow a) (s_queue a l) @ [x]) else level_view a k) ls
        = map (level_view a) ls" by (intro map_cong) auto
    then show ?thesis using True Cons.prems(3) by (simp add: level_view_def)
  next
    case False
    then have "better b (lprice a k) p" using Cons.prems by auto
    then have "p \<noteq> lprice a k" "\<not> better b p (lprice a k)" using prio.above_irrefl prio.above_asym by metis+
    then show ?thesis using Cons False by (simp add: level_view_def)
  qed
qed simp

lemma add_order_fresh:
  assumes "\<forall>k \<in> set ls. lprice a k \<noteq> p"
    and v: "\<forall>k \<in> set ls. level_view a' k = level_view a k \<and> lprice a' k = lprice a k"
    and "lprice a' l = p" and "level_view a' l = (p, [x])"
  shows "add_order b p x (map (level_view a) ls) = map (level_view a') (ins_level a' b l ls)"
  using assms(1,2)
proof (induction ls)
  case Nil
  then show ?case using assms(4) by (simp add: ins_level_def)
next
  case (Cons k ls)
  have "map (level_view a) ls = map (level_view a') ls" using Cons.prems(2) by auto
  then show ?case using Cons assms(3,4) by (auto simp: ins_level_def level_view_def)
qed

lemma view_levels_ok:
  assumes "books_ok cap (book_view a)" and "l \<in> set (s_tree a b)"
  shows "s_queue a l \<noteq> []" and "x \<in> set (s_queue a l) \<Longrightarrow> row_ok cap b (lprice a l) (orow a x)"
proof -
  have "(lprice a l, map (orow a) (s_queue a l)) \<in> set (book_view a b)"
    using assms(2) by (force simp: book_view_def level_view_def)
  moreover have "levels_ok cap b (book_view a b)" using assms(1) by (simp add: books_ok_def)
  ultimately show "s_queue a l \<noteq> []" "x \<in> set (s_queue a l) \<Longrightarrow> row_ok cap b (lprice a l) (orow a x)"
    by (auto simp: levels_ok_def)
qed

text \<open>No level's quantities can overflow 64 bits: that is what the quantity limit is for.\<close>

lemma unat_max_qty:
  assumes "unat cap < 2 ^ 32"
  shows "unat (max_qty cap) = (2 ^ 64 - 1) div Suc (unat cap)"
proof -
  have "unat (cap + 1) = Suc (unat cap)" using assms by (simp add: unat_word_ariths)
  moreover have "unat (18446744073709551615 :: u64) = 2 ^ 64 - 1" by simp
  ultimately show ?thesis by (simp add: max_qty_def unat_div)
qed

lemma queue_sum_bound:
  assumes "\<forall>x \<in> set xs. r_rem (orow a x) \<le> max_qty cap" and "length xs \<le> unat cap" and "unat cap < 2 ^ 32"
  shows "queue_sum a xs < 2 ^ 64"
proof -
  let ?m = "unat (max_qty cap)"
  have "queue_sum a xs \<le> length xs * ?m"
    using assms(1) unfolding queue_sum_def by (induction xs) (auto simp: word_le_nat_alt intro: add_mono)
  also have "\<dots> \<le> Suc (unat cap) * ?m" using assms(2) by (intro mult_right_mono) auto
  also have "\<dots> \<le> 2 ^ 64 - 1" unfolding unat_max_qty[OF assms(3)] by (rule times_div_less_eq_dividend)
  finally show ?thesis by simp
qed

context engine_db
begin

lemma fill_row_law:
  assumes r: "rep s a" and x: "s_orders a x = Some v" "x \<notin> s_hash a" "x \<notin> queued a"
  shows "rep (gen_fill_row A q rem x s) (a\<lparr>s_orders := (s_orders a)(x \<mapsto> new_row q rem)\<rparr>)"
proof -
  have xd: "x \<in> dom (s_orders a)" using x(1) by blast
  note r = order_set_id[OF r xd x(2), of "q_id q"]
  note r = order_set_account[OF r, of x "q_account q", simplified, OF xd]
  note r = order_set_side[OF r, of x "q_side q", simplified, OF xd]
  note r = order_set_stp_mode[OF r, of x "q_stp q", simplified, OF xd]
  note r = order_set_price[OF r, of x "q_price q", simplified, OF xd]
  note r = order_set_qty[OF r, of x "q_qty q", simplified, OF xd]
  note r = order_set_remaining[OF r, of x rem, simplified, OF xd, simplified, simplified x(3), simplified]
  then show ?thesis using x(1) by (cases v) (simp add: gen_fill_row_def Let_def upd_row_def new_row_def)
qed

lemma enqueue_law:
  assumes r: "rep (db st) a" and l: "l \<in> dom (s_levels a)" and x: "x \<in> dom (s_orders a)" "x \<notin> queued a" "x \<notin> s_hash a"
    and sum: "queue_sum a (s_queue a l @ [x]) < 2 ^ 64" and new: "\<forall>y \<in> s_hash a. r_id (orow a y) \<noteq> r_id (orow a x)"
  shows "\<exists>s'. gen_enqueue A own isnew l x st = Inr (0, st\<lparr>db := s'\<rparr>) \<and>
    rep s' ((set_queue l (s_queue a l @ [x]) a)\<lparr>s_hash := insert x (s_hash a)\<rparr>)"
proof -
  have r1: "rep (api_queue_insert_tail A l x (db st)) (set_queue l (s_queue a l @ [x]) a)"
    by (rule queue_insert_tail[OF r l x(1,2) sum])
  obtain s' where "api_hash_insert A x (api_queue_insert_tail A l x (db st)) = Inr (True, s')"
    "rep s' ((set_queue l (s_queue a l @ [x]) a)\<lparr>s_hash := insert x (s_hash a)\<rparr>)"
    using hash_insert[OF r1, of x] x new by auto
  then show ?thesis by (intro exI[of _ s']) (simp add: gen_enqueue_def)
qed

lemma rest_refines:
  assumes s: "synced rep st a" and tidy: "tidy a" and ok: "books_ok (s_cap a) (book_view a)"
    and new: "q_id p \<notin> r_id ` set (book_rows (book_view a))"
    and room: "length (book_rows (book_view a)) < unat (s_cap a)" and rem: "rem \<le> max_qty (s_cap a)"
  shows "\<exists>st' a'. gen_rest A p own rem st = Inr (0, st') \<and> synced rep st' a' \<and> tidy a' \<and>
    s_cap a' = s_cap a \<and> s_trades a' = s_trades a \<and>
    book_view a' = (book_view a)(own := add_order own (q_price p) (new_row p rem) (book_view a own))"
proof -
  let ?row = "new_row p rem" and ?p = "q_price p"
  have r: "rep (db st) a" using s by (simp add: synced_def)
  note wf = rep_wf[OF r]
  have roomc: "card (dom (s_orders a)) < unat (s_cap a)" using room tidy_count[OF wf tidy] by simp
  from order_alloc[OF r roomc] obtain x v s1 where alloc: "api_order_alloc A (db st) = (Some x, s1)"
    and x: "x \<notin> dom (s_orders a)" and r1: "rep s1 (a\<lparr>s_orders := (s_orders a)(x \<mapsto> v)\<rparr>)" by blast
  have xq: "x \<notin> queued a" "x \<notin> s_hash a" using x store_wfD(11,15)[OF wf] by auto
  let ?a2 = "a\<lparr>s_orders := (s_orders a)(x \<mapsto> ?row)\<rparr>" and ?s2 = "gen_fill_row A p rem x s1"
  have r2: "rep ?s2 ?a2" using fill_row_law[OF r1, of x v p rem] xq by simp
  have found: "book_find A own ?p ?s2 = Inr (find (\<lambda>l. lprice a l = ?p) (s_tree a own))"
    using book_find[OF r2, of own ?p] by simp
  have old: "orow ?a2 y = orow a y" if "y \<in> dom (s_orders a)" for y using that x by auto
  have old_rows: "map (orow ?a2) (s_queue a k) = map (orow a) (s_queue a k)" for k
    using old store_wfD(8)[OF wf, of k] by (intro map_cong refl) blast
  have ids: "r_id (orow a y) \<noteq> q_id p" if "y \<in> s_hash a" for y
    using new that unfolding tidy_ids[OF wf tidy] by (metis imageI)
  \<comment> \<open>the last step, common to a found and a new level\<close>
  have finish: "\<exists>st' a'. gen_enqueue A own isnew l x (st\<lparr>db := s3\<rparr>) = Inr (0, st') \<and> synced rep st' a' \<and>
      tidy a' \<and> s_cap a' = s_cap a \<and> s_trades a' = s_trades a \<and> s_tree a' = s_tree a3 \<and>
      level_view a' l = (?p, map (orow a) (s_queue a l) @ [?row]) \<and>
      (\<forall>k. k \<noteq> l \<longrightarrow> level_view a' k = (lprice a3 k, map (orow a) (s_queue a k))) \<and> s_levels a' = s_levels a3"
    if r3: "rep s3 a3" and a3: "s_orders a3 = s_orders ?a2" "s_queue a3 = s_queue a" "s_hash a3 = s_hash a"
      "s_cap a3 = s_cap a" "s_trades a3 = s_trades a"
      and l: "s_levels a3 l = Some ?p" "dom (s_levels a3) = set (s_tree a3 Bids) \<union> set (s_tree a3 Asks)"
      and rows: "\<forall>y \<in> set (s_queue a l). r_rem (orow a y) \<le> max_qty (s_cap a)" for a3 s3 l isnew
  proof -
    have q3: "queued a3 = queued a" using a3 by (simp add: queued_def)
    have xd: "x \<in> dom (s_orders a3)" "x \<notin> queued a3" "x \<notin> s_hash a3" using xq a3 q3 by auto
    have ld: "l \<in> dom (s_levels a3)" using l(1) by blast
    have "set (s_queue a l) \<subseteq> dom (s_orders a)" by (rule store_wfD(8)[OF wf])
    then have len: "length (s_queue a l) \<le> card (dom (s_orders a))"
      using store_wfD(2,7)[OF wf] by (metis card_mono distinct_card)
    have sum: "queue_sum a3 (s_queue a3 l @ [x]) < 2 ^ 64"
    proof (rule queue_sum_bound)
      show "\<forall>y \<in> set (s_queue a3 l @ [x]). r_rem (orow a3 y) \<le> max_qty (s_cap a)"
        using rows rem old store_wfD(8)[OF wf, of l] a3 by (auto simp: new_row_def)
      show "length (s_queue a3 l @ [x]) \<le> unat (s_cap a)" using len roomc a3 by simp
      show "unat (s_cap a) < 2 ^ 32" by (rule store_wfD(1)[OF wf])
    qed
    have nid: "\<forall>y \<in> s_hash a3. r_id (orow a3 y) \<noteq> r_id (orow a3 x)"
      using ids a3 xq by (auto simp: new_row_def)
    have "rep (db (st\<lparr>db := s3\<rparr>)) a3" using r3 by simp
    from enqueue_law[OF this ld xd sum nid, of own isnew] obtain s4 where
      run: "gen_enqueue A own isnew l x (st\<lparr>db := s3\<rparr>) = Inr (0, st\<lparr>db := s4\<rparr>)"
      and r4: "rep s4 ((set_queue l (s_queue a3 l @ [x]) a3)\<lparr>s_hash := insert x (s_hash a3)\<rparr>)" by auto
    let ?a4 = "(set_queue l (s_queue a3 l @ [x]) a3)\<lparr>s_hash := insert x (s_hash a3)\<rparr>"
    have "queued ?a4 = insert x (queued a)"
      using a3 by (auto simp: queued_set_queue queued_def split: if_splits)
    then have "tidy ?a4" using tidy a3 l(2) by (simp add: tidy_def)
    moreover have "synced rep (st\<lparr>db := s4\<rparr>) ?a4" using r4 s a3 by (simp add: synced_def)
    moreover have "level_view ?a4 l = (?p, map (orow a) (s_queue a l) @ [?row])"
      using l(1) a3 old_rows[of l] by (simp add: level_view_def)
    moreover have "level_view ?a4 k = (lprice a3 k, map (orow a) (s_queue a k))" if "k \<noteq> l" for k
      using that a3 old_rows[of k] by (simp add: level_view_def)
    ultimately show ?thesis using run a3 by (intro exI[of _ "st\<lparr>db := s4\<rparr>"] exI[of _ ?a4]) simp
  qed
  have start: "gen_rest A p own rem st = (case find (\<lambda>l. lprice a l = ?p) (s_tree a own) of
      Some l \<Rightarrow> gen_enqueue A own False l x (st\<lparr>db := ?s2\<rparr>)
    | None \<Rightarrow> (case api_level_alloc A ?s2 of
                (None, s) \<Rightarrow> Inr (5, st\<lparr>db := api_order_free A x s\<rparr>)
              | (Some l, s) \<Rightarrow> rbind (book_insert A own l (api_level_set_price A l ?p s)) (\<lambda>s.
                  gen_enqueue A own True l x (st\<lparr>db := s\<rparr>))))"
    by (simp add: gen_rest_def alloc found Let_def)
  show ?thesis
  proof (cases "find (\<lambda>l. lprice a l = ?p) (s_tree a own)")
    case (Some l)
    then have l: "l \<in> set (s_tree a own)" "lprice a l = ?p" by (auto simp: find_Some_iff)
    have ld: "l \<in> dom (s_levels a)" using l(1) store_wfD(13)[OF wf, of own] by blast
    have rows: "\<forall>y \<in> set (s_queue a l). r_rem (orow a y) \<le> max_qty (s_cap a)"
      using view_levels_ok(2)[OF ok l(1)] by (auto simp: row_ok_def intro: order_trans)
    have lsome: "s_levels ?a2 l = Some ?p" and dl: "dom (s_levels ?a2) = set (s_tree ?a2 Bids) \<union> set (s_tree ?a2 Asks)"
      using domD[OF ld] l(2) tidy by (auto simp: tidy_def)
    obtain st' a' where f: "gen_enqueue A own False l x (st\<lparr>db := ?s2\<rparr>) = Inr (0, st')" "synced rep st' a'"
      "tidy a'" "s_cap a' = s_cap a" "s_trades a' = s_trades a" "s_tree a' = s_tree a"
      "level_view a' l = (?p, map (orow a) (s_queue a l) @ [?row])"
      "\<forall>k. k \<noteq> l \<longrightarrow> level_view a' k = (lprice a k, map (orow a) (s_queue a k))"
      using finish[OF r2 _ _ _ _ _ lsome dl rows, of False] l(2) by auto
    have "book_view a' = (book_view a)(own := add_order own ?p ?row (book_view a own))"
    proof
      fix c
      show "book_view a' c = ((book_view a)(own := add_order own ?p ?row (book_view a own))) c"
      proof (cases "c = own")
        case True
        then show ?thesis
          using add_order_found[OF store_wfD(14)[OF wf] l, of ?row] f(6-8)
          by (simp add: book_view_def level_view_def)
      next
        case False
        then have "l \<notin> set (s_tree a c)" using l(1) wf by (cases c; cases own) (auto simp: store_wf_def)
        then show ?thesis using False f(6,8) by (auto simp: book_view_def level_view_def)
      qed
    qed
    then show ?thesis using start Some f by auto
  next
    case None
    then have fresh: "\<forall>k \<in> set (s_tree a own). lprice a k \<noteq> ?p" by (auto simp: find_None_iff)
    have "card (dom (s_levels a)) \<le> card (dom (s_orders a))"
      using view_levels_ok(1)[OF ok] by (intro tidy_level_count[OF wf tidy]) blast
    then have "card (dom (s_levels ?a2)) < unat (s_cap ?a2)" using roomc by simp
    from level_alloc[OF r2 this] obtain l pr s3 where la: "api_level_alloc A ?s2 = (Some l, s3)"
      and l: "l \<notin> dom (s_levels a)" and r3: "rep s3 (?a2\<lparr>s_levels := (s_levels a)(l \<mapsto> pr)\<rparr>)" by auto
    have nt: "\<forall>b. l \<notin> set (s_tree a b)" using l store_wfD(13)[OF wf] by blast
    let ?a4 = "?a2\<lparr>s_levels := (s_levels a)(l \<mapsto> ?p)\<rparr>"
    have r4: "rep (api_level_set_price A l ?p s3) ?a4"
      using level_set_price[OF r3, of l ?p] nt by simp
    have ne: "\<forall>k \<in> set (s_tree a b). k \<noteq> l" for b using nt by auto
    have "lprice ?a4 l \<notin> lprice ?a4 ` set (s_tree ?a4 own)" using fresh ne[of own] by auto
    then obtain s5 where bi: "book_insert A own l (api_level_set_price A l ?p s3) = Inr s5"
      and r5: "rep s5 (set_tree_of own (ins_level ?a4 own l (s_tree a own)) ?a4)"
      using book_insert[OF r4, of l own] nt by auto
    let ?a5 = "set_tree_of own (ins_level ?a4 own l (s_tree a own)) ?a4"
    have q: "s_queue a l = []" using l by (rule store_wfD(10)[OF wf])
    have "dom (s_levels ?a5) = set (s_tree ?a5 Bids) \<union> set (s_tree ?a5 Asks)"
      using tidy by (cases own) (auto simp: tidy_def ins_level_def)
    then obtain st' a' where f: "gen_enqueue A own True l x (st\<lparr>db := s5\<rparr>) = Inr (0, st')" "synced rep st' a'"
      "tidy a'" "s_cap a' = s_cap a" "s_trades a' = s_trades a" "s_tree a' = s_tree ?a5"
      "level_view a' l = (?p, [?row])" "s_levels a' = s_levels ?a5"
      "\<forall>k. k \<noteq> l \<longrightarrow> level_view a' k = (lprice ?a5 k, map (orow a) (s_queue a k))"
      using finish[OF r5, of l True] q by auto
    have kept: "\<forall>k \<in> set (s_tree a b). level_view a' k = level_view a k \<and> lprice a' k = lprice a k" for b
      using f(8,9) ne[of b] by (simp add: level_view_def)
    have "book_view a' = (book_view a)(own := add_order own ?p ?row (book_view a own))"
    proof
      fix c
      show "book_view a' c = ((book_view a)(own := add_order own ?p ?row (book_view a own))) c"
      proof (cases "c = own")
        case True
        have "add_order own ?p ?row (map (level_view a) (s_tree a own)) =
            map (level_view a') (ins_level a' own l (s_tree a own))"
          by (rule add_order_fresh[OF fresh kept]) (use f(7,8) in simp_all)
        moreover have "ins_level a' own l (s_tree a own) = ins_level ?a4 own l (s_tree a own)"
          using f(8) by (simp add: ins_level_def)
        ultimately show ?thesis using True f(6) by (simp add: book_view_def)
      next
        case False
        then show ?thesis using f(6) kept[of c] by (simp add: book_view_def)
      qed
    qed
    then show ?thesis using start None la bi f by auto
  qed
qed

lemma book_view_hd:
  assumes "rep (db st) a"
  shows "book_view a b = [] \<longleftrightarrow> s_tree a b = []"
    "s_tree a b = l # ls \<Longrightarrow> fst (hd (book_view a b)) = lprice a l"
  by (simp_all add: book_view_def level_view_def)

lemma process_side_refines:
  assumes s: "synced rep st a" and tidy: "tidy a" and none: "s_trades a = []"
    and ok: "books_ok (s_cap a) (book_view a)"
    and new: "q_id p \<notin> r_id ` set (book_rows (book_view a))"
    and room: "q_otype p = 0 \<or> q_otype p = 3 \<Longrightarrow> length (book_rows (book_view a)) < unat (s_cap a)"
    and p: "q_qty p \<le> max_qty (s_cap a)" "q_otype p \<le> 3"
    and spec: "spec_side b p (book_view a) = (code, B', ts)"
  shows "\<exists>st' a'. gen_process_side A b p st = Inr (code, st') \<and> synced rep st' a' \<and> tidy a' \<and>
    s_cap a' = s_cap a \<and> s_trades a' = ts \<and> book_view a' = B'"
proof -
  have r: "rep (db st) a" using s by (simp add: synced_def)
  note wf = rep_wf[OF r]
  note cap = me_add_one[OF store_wfD(1)[OF wf]]
  let ?crossed = "q_otype p = 3 \<and> book_view a b \<noteq> [] \<and> price_ok b (fst (hd (book_view a b))) (q_price p)"
  have check: "(if q_otype p = 3
            then rbind (book_best A b (db st)) (\<lambda>best.
                 case best of
                   None \<Rightarrow> Inr False
                 | Some best \<Rightarrow> Inr (price_ok b (api_level_get_price A best (db st)) (q_price p)))
            else Inr False) = (Inr ?crossed :: fault + bool)"
  proof (cases "s_tree a b")
    case Nil
    then show ?thesis using book_best[OF r, of b] by (simp add: book_view_def)
  next
    case (Cons l ls)
    then have "l \<in> dom (s_levels a)" using store_wfD(13)[OF wf, of b] by auto
    then show ?thesis using Cons book_best[OF r, of b] level_get_price[OF r, of l]
      by (simp add: book_view_def level_view_def)
  qed
  show ?thesis
  proof (cases ?crossed)
    case True
    then have "code = 6" "B' = book_view a" "ts = []" using spec by (auto simp: spec_side_def)
    moreover have "gen_process_side A b p st = Inr (6, st)"
      unfolding gen_process_side_def check using True by simp
    ultimately show ?thesis using s tidy none by auto
  next
    case False
    obtain ms rm us where m: "match_levels p b (book_view a b) (q_qty p) = (ms, rm, us)" by (metis prod_cases3)
    have "length (s_tree a b) \<le> unat (s_cap a)" by (rule store_wf_tree_length[OF wf])
    then have fuel: "Suc (length (s_tree a b)) \<le> unat (s_cap a + 1)" using cap(2) by simp
    have "length (level_rows (book_view a b)) \<le> unat (s_cap a)"
      using ok length_book_rows[of "book_view a" b] by (simp add: books_ok_def)
    then obtain stop st1 a1 where run: "gen_match_levels A p b (unat (s_cap a + 1)) (q_qty p, False, st) = Inr (rm, stop, st1)"
      and s1: "synced rep st1 a1" and a1: "tidy a1" "s_cap a1 = s_cap a" "s_trades a1 = us"
        "book_view a1 = (book_view a)(b := ms)"
      using match_levels_refines[OF s tidy refl fuel _ m[unfolded book_view_def]] none
      by (auto simp: book_view_def)
    have body: "gen_process_side A b p st = (if 0 < rm \<and> q_otype p \<noteq> 2 \<and> q_otype p \<noteq> 1
       then gen_rest A p (opposite b) rm st1 else Inr (0, st1))"
      unfolding gen_process_side_def check using False by (auto simp: capacity[OF r] cap(1) run)
    note mb = match_books_ok[OF ok m]
    show ?thesis
    proof (cases "0 < rm \<and> q_otype p \<noteq> 2 \<and> q_otype p \<noteq> 1")
      case left: True
      have "q_otype p = 0 \<or> q_otype p = 3" using left u64_le_3[OF p(2)] by auto
      note room = room[OF this]
      have "books_ok (s_cap a1) (book_view a1)" using mb(1) a1 by simp
      moreover have "q_id p \<notin> r_id ` set (book_rows (book_view a1))" using new mb(2) a1 by auto
      moreover have "length (book_rows (book_view a1)) < unat (s_cap a1)" using room mb(3) a1 by simp
      moreover have "rm \<le> max_qty (s_cap a1)" using match_levels_le[OF m] p(1) a1(2) by simp
      ultimately obtain st2 a2 where "gen_rest A p (opposite b) rm st1 = Inr (0, st2)" "synced rep st2 a2" "tidy a2"
        "s_cap a2 = s_cap a1" "s_trades a2 = s_trades a1"
        "book_view a2 = (book_view a1)(opposite b := add_order (opposite b) (q_price p) (new_row p rm) (book_view a1 (opposite b)))"
        using rest_refines[OF s1 a1(1)] by blast
      moreover have "code = 0" "ts = us" "B' = ((book_view a)(b := ms))(opposite b :=
          add_order (opposite b) (q_price p) (new_row p rm) (book_view a (opposite b)))"
        using spec m False left by (auto simp: spec_side_def Let_def)
      ultimately show ?thesis using body left a1 by auto
    next
      case settled: False
      then have "code = 0" "ts = us" "B' = (book_view a)(b := ms)"
        using spec m False by (auto simp: spec_side_def Let_def)
      then show ?thesis using body settled s1 a1 by auto
    qed
  qed
qed

end

section \<open>The procedures\<close>

text \<open>
  What the outside sees of a matcher state: the capacity, the books and the trades of the last
  call, over some tidy store that the data layer represents.
\<close>

definition shows_books :: "('s \<Rightarrow> ('o, 'l) store \<Rightarrow> bool) \<Rightarrow> 's \<Rightarrow> u64 \<Rightarrow> books \<Rightarrow> trade list \<Rightarrow> bool" where
  "shows_books rep s cap B ts \<longleftrightarrow>
     (\<exists>a. rep s a \<and> tidy a \<and> s_cap a = cap \<and> book_view a = B \<and> s_trades a = ts)"

lemma otype_codes: "\<not> (x = 0 \<or> x = 1 \<or> x = 2 \<or> x = 3) \<longleftrightarrow> x > 3" for x :: u64
  using u64_le_3[of x] by (auto simp: not_le[symmetric])

lemma side_codes: "\<not> (x = 0 \<or> x = 1) \<longleftrightarrow> x > 1" for x :: u64
  using u64_le_1[of x] by (auto simp: not_le[symmetric])

lemma stp_codes: "\<not> (x = 0 \<or> x = 1 \<or> x = 2 \<or> x = 3 \<or> x = 4) \<longleftrightarrow> x > 4" for x :: u64
  using u64_le_4[of x] by (auto simp: not_le[symmetric])

context engine_db
begin

theorem process_order_refines:
  assumes v: "shows_books rep (db st) cap B ts0" and ok: "books_ok cap B"
    and spec: "spec_process cap p B = (code, B', ts)"
  shows "\<exists>st'. gen_process_order A p st = Inr (code, st') \<and> shows_books rep (db st') cap B' ts \<and>
    unat (me_ntrades st') = length ts"
proof -
  obtain a0 where r0: "rep (db st) a0" and tidy0: "tidy a0" and a0: "s_cap a0 = cap" "book_view a0 = B"
    using v by (auto simp: shows_books_def)
  let ?a = "a0\<lparr>s_trades := []\<rparr>" and ?st = "st\<lparr>me_ntrades := 0, db := api_trade_reset A (db st)\<rparr>"
  have s: "synced rep ?st ?a" using trade_reset[OF r0] by (simp add: synced_def)
  have r: "rep (db ?st) ?a" using s by (simp add: synced_def)
  have tidy: "tidy ?a" using tidy0 by (simp add: tidy_def)
  have view: "book_view ?a = B" using a0(2) by (auto simp: book_view_def level_view_def)
  have cap: "s_cap ?a = cap" using a0 by simp
  note wf = rep_wf[OF r]
  have early: ?thesis if "gen_process_order A p st = Inr (code, ?st)" "B' = B" "ts = []"
    using that s tidy view cap by (auto simp: synced_def shows_books_def)
  note ma = me_add_one[OF store_wfD(1)[OF wf], unfolded cap]
  have "cap + 1 \<noteq> 0" using ma(2) by (metis Zero_not_Suc unat_0)
  then have lim: "me_div 18446744073709551615 (cap + 1) = Inr (max_qty cap)"
    by (simp add: me_div_def max_qty_def)
  have dup: "\<exists>o'. api_hash_find A (q_id p) (db ?st) = Inr o' \<and> (o' \<noteq> None \<longleftrightarrow> q_id p \<in> r_id ` set (book_rows B))"
  proof (cases "q_id p \<in> r_id ` set (book_rows B)")
    case True
    then obtain x where "x \<in> s_hash ?a" "r_id (orow ?a x) = q_id p"
      using tidy_ids[OF wf tidy] view by auto
    then show ?thesis using hash_find_hit[OF r, of x] True by simp
  next
    case False
    then have "\<forall>x \<in> s_hash ?a. r_id (orow ?a x) \<noteq> q_id p"
      using tidy_ids[OF wf tidy] view by (metis image_eqI)
    then show ?thesis using hash_find_miss[OF r, of "q_id p"] False by simp
  qed
  then obtain o' where find: "api_hash_find A (q_id p) (db ?st) = Inr o'"
    and found: "(o' \<noteq> None) = (q_id p \<in> r_id ` set (book_rows B))" by blast
  have "unat (api_order_count A (db ?st)) = length (book_rows B)"
    using order_count[OF r] tidy_count[OF wf tidy] view
      small_count[OF store_wfD(4)[OF wf] store_wfD(1)[OF wf]] by simp
  then have full: "cap \<le> api_order_count A (db ?st) \<longleftrightarrow> unat cap \<le> length (book_rows B)"
    by (simp add: word_le_nat_alt)
  have gen: "gen_process_order A p st =
     (if q_otype p > 3 then Inr (2, ?st)
      else if q_side p > 1 \<or> q_stp p > 4 \<or> q_qty p = 0 \<or> q_otype p \<noteq> 1 \<and> q_price p = 0 \<or> q_qty p > max_qty cap
        then Inr (3, ?st)
      else if q_id p \<in> r_id ` set (book_rows B) then Inr (4, ?st)
      else if (q_otype p = 0 \<or> q_otype p = 3) \<and> unat cap \<le> length (book_rows B) then Inr (5, ?st)
      else gen_process_side A (if q_side p = 0 then Asks else Bids) p ?st)"
    using ma(1) capacity[OF r] cap
    unfolding gen_process_order_def Let_def otype_codes side_codes stp_codes
    by (simp add: lim find[simplified] found[simplified] full[simplified] gen_process_buy_def gen_process_sell_def del: not_less not_le)
  show ?thesis
  proof (cases "q_otype p > 3 \<or> q_side p > 1 \<or> q_stp p > 4 \<or> q_qty p = 0 \<or> q_otype p \<noteq> 1 \<and> q_price p = 0 \<or>
      q_qty p > max_qty cap \<or> q_id p \<in> r_id ` set (book_rows B) \<or>
      (q_otype p = 0 \<or> q_otype p = 3) \<and> unat cap \<le> length (book_rows B)")
    case True
    then have "gen_process_order A p st = Inr (code, ?st)" "B' = B" "ts = []"
      using spec unfolding gen spec_process_def by (auto split: if_splits)
    then show ?thesis by (rule early)
  next
    case False
    let ?b = "if q_side p = 0 then Asks else Bids"
    have side: "spec_side ?b p B = (code, B', ts)"
      using spec False unfolding spec_process_def by (auto split: if_splits)
    have run: "gen_process_order A p st = gen_process_side A ?b p ?st"
      using False unfolding gen by auto
    have "\<exists>st' a'. gen_process_side A ?b p ?st = Inr (code, st') \<and> synced rep st' a' \<and> tidy a' \<and>
        s_cap a' = s_cap ?a \<and> s_trades a' = ts \<and> book_view a' = B'"
      using False side ok view cap
      by (intro process_side_refines[OF s tidy]) (auto simp: not_less not_le)
    then show ?thesis using run cap by (auto simp: shows_books_def synced_def)
  qed
qed

end

section \<open>Cancelling\<close>

lemma cancel_level_Cons:
  "cancel_level i ((p, xs) # ls) =
     (if filter (\<lambda>x. r_id x \<noteq> i) xs = [] then cancel_level i ls
      else (p, filter (\<lambda>x. r_id x \<noteq> i) xs) # cancel_level i ls)"
  by (simp add: cancel_level_def)

lemma cancel_level_absent:
  assumes "\<forall>k \<in> set ls. s_queue a k \<noteq> [] \<and> (\<forall>y \<in> set (s_queue a k). r_id (orow a y) \<noteq> i)"
    and "\<forall>k \<in> set ls. level_view a' k = level_view a k"
  shows "cancel_level i (map (level_view a) ls) = map (level_view a') ls"
  using assms
proof (induction ls)
  case (Cons k ls)
  have "filter (\<lambda>x. r_id x \<noteq> i) (map (orow a) (s_queue a k)) = map (orow a) (s_queue a k)"
    using Cons.prems(1) by (auto intro!: filter_True)
  with Cons show ?case by (auto simp: level_view_def cancel_level_Cons)
qed (simp add: cancel_level_def)

lemma cancel_level_at:
  assumes d: "distinct ls" "l \<in> set ls"
    and others: "\<forall>k \<in> set ls - {l}. s_queue a k \<noteq> [] \<and> (\<forall>y \<in> set (s_queue a k). r_id (orow a y) \<noteq> i)"
    and same: "\<forall>k \<in> set ls - {l}. level_view a' k = level_view a k"
    and l: "level_view a l = (p, xs)" "level_view a' l = (p, filter (\<lambda>x. r_id x \<noteq> i) xs)"
  shows "cancel_level i (map (level_view a) ls) =
    map (level_view a') (if filter (\<lambda>x. r_id x \<noteq> i) xs = [] then remove1 l ls else ls)"
proof -
  obtain as bs where ls: "ls = as @ l # bs" using d(2) by (meson split_list)
  have la: "l \<notin> set as" "l \<notin> set bs" using d(1) ls by auto
  have "cancel_level i (map (level_view a) as) = map (level_view a') as"
    "cancel_level i (map (level_view a) bs) = map (level_view a') bs"
    by (rule cancel_level_absent; use others same la ls in auto)+
  moreover have "cancel_level i (us @ vs) = cancel_level i us @ cancel_level i vs" for us vs
    by (simp add: cancel_level_def)
  ultimately show ?thesis using l la by (simp add: ls cancel_level_Cons remove1_append)
qed

context engine_db
begin

theorem cancel_order_refines:
  assumes v: "shows_books rep (db st) cap B ts0" and ok: "books_ok cap B"
    and spec: "spec_cancel i B = (code, B')"
  shows "\<exists>st'. gen_cancel_order A i st = Inr (code, st') \<and> shows_books rep (db st') cap B' []"
proof -
  obtain a0 where r0: "rep (db st) a0" and tidy0: "tidy a0" and a0: "s_cap a0 = cap" "book_view a0 = B"
    using v by (auto simp: shows_books_def)
  define a where "a = a0\<lparr>s_trades := []\<rparr>"
  let ?st = "st\<lparr>me_ntrades := 0, db := api_trade_reset A (db st)\<rparr>"
  have r: "rep (db ?st) a" using trade_reset[OF r0] by (simp add: a_def)
  have tidy: "tidy a" using tidy0 by (simp add: tidy_def a_def)
  have view: "book_view a = B" using a0(2) by (auto simp: book_view_def level_view_def a_def)
  have cap: "s_cap a = cap" "s_trades a = []" using a0 by (simp_all add: a_def)
  note wf = rep_wf[OF r]
  show ?thesis
  proof (cases "i \<in> r_id ` set (book_rows B)")
    case False
    then have "\<forall>x \<in> s_hash a. r_id (orow a x) \<noteq> i"
      using tidy_ids[OF wf tidy] view by (metis image_eqI)
    then have "api_hash_find A i (db ?st) = Inr None" by (rule hash_find_miss[OF r])
    then have "gen_cancel_order A i st = Inr (7, ?st)" by (simp add: gen_cancel_order_def)
    moreover have "code = 7" "B' = B" using spec False by (simp_all add: spec_cancel_def)
    ultimately show ?thesis using r tidy view cap by (auto simp: shows_books_def)
  next
    case True
    then obtain x where x: "x \<in> s_hash a" and i: "r_id (orow a x) = i"
      using tidy_ids[OF wf tidy] view by auto
    have find: "api_hash_find A i (db ?st) = Inr (Some x)" using hash_find_hit[OF r x] i by simp
    have "x \<in> queued a" using tidy x by (simp add: tidy_def)
    from level_of_order[OF wf tidy this] obtain b l where l: "l \<in> set (s_tree a b)" "x \<in> set (s_queue a l)"
      "l \<in> dom (s_levels a)" by blast
    have owner: "api_order_owner A x (db ?st) = Some l" by (rule order_owner[OF r l(2)])
    have okv: "books_ok cap (book_view a)" using ok view by simp
    have "x \<in> dom (s_orders a)" using x store_wfD(11)[OF wf] by blast
    then obtain row where row: "s_orders a x = Some row" by blast
    have side: "api_order_get_side A x (db ?st) = side_code b"
      using view_levels_ok(2)[OF okv l(1,2)] order_get[OF r row] row by (simp add: row_ok_def)
    obtain st1 where u: "gen_unlink A l x ?st = Inr st1" "rep (db st1) (drop_order l x a)"
      using unlink_law[OF r l(2) x] by blast
    let ?a1 = "drop_order l x a" and ?zs = "remove1 x (s_queue a l)"
    note wf1 = rep_wf[OF u(2)]
    have count: "api_level_get_count A l (db st1) = of_nat (length ?zs)"
      using level_get_count[OF u(2), of l] l(3) by simp
    have "unat (of_nat (length ?zs) :: u64) = length ?zs"
      using small_count[OF store_wf_queue_length[OF wf1, of l] store_wfD(1)[OF wf1]] by simp
    then have empty: "(of_nat (length ?zs) :: u64) = 0 \<longleftrightarrow> ?zs = []"
      by (auto simp: unat_eq_0 simp flip: length_0_conv)
    have dq: "distinct (s_queue a l)" by (rule store_wfD(7)[OF wf])
    have rows: "map (orow ?a1) ?zs = filter (\<lambda>y. r_id y \<noteq> i) (map (orow a) (s_queue a l))"
    proof -
      have uniq: "r_id (orow a y) = i \<longleftrightarrow> y = x" if "y \<in> set (s_queue a l)" for y
      proof -
        have "y \<in> s_hash a" using that tidy by (auto simp: tidy_def queued_def)
        then show ?thesis using inj_onD[OF store_wfD(12)[OF wf], of y x] x i by auto
      qed
      have "filter (\<lambda>y. r_id (orow a y) \<noteq> i) (s_queue a l) = filter (\<lambda>y. y \<noteq> x) (s_queue a l)"
        using uniq by (intro filter_cong) simp_all
      also have "\<dots> = ?zs" using dq by (simp add: distinct_remove1_removeAll removeAll_filter_not_eq eq_commute)
      finally have "filter (\<lambda>y. r_id y \<noteq> i) (map (orow a) (s_queue a l)) = map (orow a) ?zs"
        by (simp add: filter_map comp_def)
      moreover have "map (orow ?a1) ?zs = map (orow a) ?zs" using dq by (intro map_cong) auto
      ultimately show ?thesis by simp
    qed
    have lv1: "level_view ?a1 l = (lprice a l, filter (\<lambda>y. r_id y \<noteq> i) (map (orow a) (s_queue a l)))"
      using rows by (simp add: level_view_def)
    have other: "x \<notin> set (s_queue a k)" if "k \<noteq> l" for k using store_wfD(9)[OF wf that] l(2) by blast
    have lvk: "level_view ?a1 k = level_view a k" if k: "k \<noteq> l" for k
    proof -
      have "map (orow ?a1) (s_queue a k) = map (orow a) (s_queue a k)" using other[OF k] by (intro map_cong) auto
      then show ?thesis using k by (simp add: level_view_def)
    qed
    have ids: "r_id (orow a y) \<noteq> i" if "k \<noteq> l" "y \<in> set (s_queue a k)" for k y
    proof -
      have "y \<in> s_hash a" using that tidy by (auto simp: tidy_def queued_def)
      moreover have "y \<noteq> x" using other[OF that(1)] that(2) by blast
      ultimately show ?thesis using inj_onD[OF store_wfD(12)[OF wf], of y x] x i by auto
    qed
    have ne: "s_queue a k \<noteq> []" if "k \<in> set (s_tree a c)" for k c using view_levels_ok(1)[OF okv that] .
    have lb: "l \<notin> set (s_tree a (opposite b))" using l(1) wf by (cases b) (auto simp: store_wf_def)
    have B': "B' = (\<lambda>c. cancel_level i (book_view a c))" "code = 1"
      using spec True view by (auto simp: spec_cancel_def)
    have views: "book_view a' = B'"
      if t: "s_tree a' = (s_tree a)(b := if ?zs = [] then remove1 l (s_tree a b) else s_tree a b)"
        and v: "\<forall>k. k \<noteq> l \<longrightarrow> level_view a' k = level_view a k"
        and vl: "?zs \<noteq> [] \<Longrightarrow> level_view a' l = level_view ?a1 l" for a'
    proof
      fix c
      have z: "(filter (\<lambda>y. r_id y \<noteq> i) (map (orow a) (s_queue a l)) = []) = (?zs = [])"
        using rows by (metis list.map_disc_iff)
      show "book_view a' c = B' c"
      proof (cases "c = b")
        case True
        have "cancel_level i (map (level_view a) (s_tree a b)) =
            map (level_view ?a1) (if ?zs = [] then remove1 l (s_tree a b) else s_tree a b)"
          unfolding z[symmetric]
          by (rule cancel_level_at[OF tree_distinct[OF wf] l(1)]) (use ids ne lvk lv1 in \<open>auto simp: level_view_def[of a l]\<close>)
        also have "\<dots> = map (level_view a') (if ?zs = [] then remove1 l (s_tree a b) else s_tree a b)"
        proof (intro map_cong refl)
          fix k assume k: "k \<in> set (if ?zs = [] then remove1 l (s_tree a b) else s_tree a b)"
          show "level_view ?a1 k = level_view a' k"
          proof (cases "k = l")
            case True
            then have "?zs \<noteq> []" using k tree_distinct[OF wf, of b] by (auto split: if_splits)
            then show ?thesis using vl True by simp
          qed (use v lvk in simp)
        qed
        finally show ?thesis using True t by (simp add: book_view_def B')
      next
        case False
        then have c: "c = opposite b" by (cases b; cases c) simp_all
        have "\<forall>k \<in> set (s_tree a c). k \<noteq> l" using lb c by auto
        then have "cancel_level i (map (level_view a) (s_tree a c)) = map (level_view a') (s_tree a c)"
          using ids ne v by (intro cancel_level_absent) auto
        then show ?thesis using False t by (simp add: book_view_def B')
      qed
    qed
    have q1: "queued ?a1 = queued a - {x}"
    proof -
      have "queued ?a1 = set ?zs \<union> (\<Union>k \<in> - {l}. set (s_queue a k))" by (auto simp: queued_def split: if_splits)
      moreover have "(\<Union>k \<in> - {l}. set (s_queue a k)) = queued a - set (s_queue a l)"
        using store_wfD(9)[OF wf] by (auto simp: queued_def)
      ultimately show ?thesis using dq l(2) by (auto simp: queued_def)
    qed
    have body: "gen_cancel_order A i st = (if ?zs = []
        then rbind (book_remove A b l (db st1)) (\<lambda>s. Inr (1, st1\<lparr>db := api_level_free A l s\<rparr>)) else Inr (1, st1))"
      using find owner side u(1) count empty
      by (cases b) (simp_all add: gen_cancel_order_def Let_def del: of_nat_eq_0_iff)
    show ?thesis
    proof (cases "?zs = []")
      case False
      have "book_view ?a1 = B'" using False lvk by (intro views) auto
      moreover have "tidy ?a1" using tidy q1 by (simp add: tidy_def)
      ultimately show ?thesis using body False u(2) cap B' by (auto simp: shows_books_def)
    next
      case zs: True
      obtain s2 where rm: "book_remove A b l (db st1) = Inr s2"
        "rep s2 (set_tree_of b (remove1 l (s_tree a b)) ?a1)"
        using book_remove[OF u(2), of l b] l(1) by auto
      let ?a2 = "set_tree_of b (remove1 l (s_tree a b)) ?a1"
      have nt: "\<forall>c. l \<notin> set (s_tree ?a2 c)"
        using lb tree_distinct[OF wf, of b] by (cases b) (auto simp: all_book)
      have r3: "rep (api_level_free A l s2) (?a2\<lparr>s_levels := (s_levels ?a2)(l := None)\<rparr>)"
        using l(3) zs nt by (intro level_free[OF rm(2)]) simp_all
      let ?a3 = "?a2\<lparr>s_levels := (s_levels ?a2)(l := None)\<rparr>"
      have lv3: "level_view ?a3 k = level_view ?a1 k" if "k \<noteq> l" for k using that by (simp add: level_view_def)
      have "book_view ?a3 = B'" using zs lv3 lvk by (intro views) auto
      moreover have "tidy ?a3"
        using tidy q1 lb l(1) tree_distinct[OF wf, of b] by (cases b) (auto simp: tidy_def)
      ultimately show ?thesis using body zs rm(1) r3 cap B' by (auto simp: shows_books_def)
    qed
  qed
qed

end

end
