(* ===== verification/Data_Layer.thy ===== *)
theory Data_Layer
  imports Store_Rep Refinement
begin

text \<open>
  Every matcher that runs on the handwritten data layer sees the contract of
  \<^verbatim>\<open>engine_db.h\<close> through the same thin functions; what differs is where the capacity comes
  from and where trades go.  \<open>layer_api\<close> is the interface with these three left open, and the
  locale \<open>data_layer\<close> shows once that it satisfies the contract.  The adapter of the generated
  matcher and the handwritten engine are its two interpretations.
\<close>

section \<open>The interface over the data layer\<close>

definition ME_order_free :: "oref \<Rightarrow> 'z machine_scheme \<Rightarrow> 'z machine_scheme" where
  "ME_order_free x s = EngineDb_order_pool_Free (Some x) s"

definition ME_level_free :: "lref \<Rightarrow> 'z machine_scheme \<Rightarrow> 'z machine_scheme" where
  "ME_level_free l s = EngineDb_level_pool_Free (Some l) s"

definition ME_order_get_id :: "oref \<Rightarrow> 'z machine_scheme \<Rightarrow> u64" where "ME_order_get_id x s = o_id s x"
definition ME_order_get_account :: "oref \<Rightarrow> 'z machine_scheme \<Rightarrow> u64" where "ME_order_get_account x s = o_account s x"
definition ME_order_get_side :: "oref \<Rightarrow> 'z machine_scheme \<Rightarrow> u64" where "ME_order_get_side x s = o_side s x"
definition ME_order_get_stp_mode :: "oref \<Rightarrow> 'z machine_scheme \<Rightarrow> u64" where "ME_order_get_stp_mode x s = o_stp s x"
definition ME_order_get_price :: "oref \<Rightarrow> 'z machine_scheme \<Rightarrow> u64" where "ME_order_get_price x s = o_price s x"
definition ME_order_get_qty :: "oref \<Rightarrow> 'z machine_scheme \<Rightarrow> u64" where "ME_order_get_qty x s = o_qty s x"
definition ME_order_get_remaining :: "oref \<Rightarrow> 'z machine_scheme \<Rightarrow> u64" where "ME_order_get_remaining x s = o_rem s x"
definition ME_order_set_id :: "oref \<Rightarrow> u64 \<Rightarrow> 'z machine_scheme \<Rightarrow> 'z machine_scheme" where "ME_order_set_id x v s = set_o_id x v s"
definition ME_order_set_account :: "oref \<Rightarrow> u64 \<Rightarrow> 'z machine_scheme \<Rightarrow> 'z machine_scheme" where
  "ME_order_set_account x v s = set_o_account x v s"
definition ME_order_set_side :: "oref \<Rightarrow> u64 \<Rightarrow> 'z machine_scheme \<Rightarrow> 'z machine_scheme" where "ME_order_set_side x v s = set_o_side x v s"
definition ME_order_set_stp_mode :: "oref \<Rightarrow> u64 \<Rightarrow> 'z machine_scheme \<Rightarrow> 'z machine_scheme" where
  "ME_order_set_stp_mode x v s = set_o_stp x v s"
definition ME_order_set_price :: "oref \<Rightarrow> u64 \<Rightarrow> 'z machine_scheme \<Rightarrow> 'z machine_scheme" where "ME_order_set_price x v s = set_o_price x v s"
definition ME_order_set_qty :: "oref \<Rightarrow> u64 \<Rightarrow> 'z machine_scheme \<Rightarrow> 'z machine_scheme" where "ME_order_set_qty x v s = set_o_qty x v s"

text \<open>Changing the remaining quantity adjusts the total of the order's level.\<close>

definition ME_order_set_remaining :: "oref \<Rightarrow> u64 \<Rightarrow> 'z machine_scheme \<Rightarrow> 'z machine_scheme" where
  "ME_order_set_remaining x v s =
     (let s = (case o_level s x of
                 Some l \<Rightarrow> if o_inlist s x then set_l_total l ((l_total s l - o_rem s x) + v) s else s
               | None \<Rightarrow> s)
      in set_o_rem x v s)"

definition ME_level_get_price :: "lref \<Rightarrow> 'z machine_scheme \<Rightarrow> u64" where "ME_level_get_price l s = l_price s l"
definition ME_level_get_count :: "lref \<Rightarrow> 'z machine_scheme \<Rightarrow> u64" where "ME_level_get_count l s = ucast (l_n s l)"
definition ME_level_set_price :: "lref \<Rightarrow> u64 \<Rightarrow> 'z machine_scheme \<Rightarrow> 'z machine_scheme" where "ME_level_set_price l v s = set_l_price l v s"

definition ME_hash_find :: "u64 \<Rightarrow> 'z machine_scheme \<Rightarrow> fault + oref option" where
  "ME_hash_find i s = of_option (EngineDb_ind_order_Find s i)"

definition ME_hash_insert :: "oref \<Rightarrow> 'z machine_scheme \<Rightarrow> fault + (bool \<times> 'z machine_scheme)" where
  "ME_hash_insert x s = of_option (EngineDb_ind_order_InsertMaybe (Some x) s)"

definition ME_hash_remove :: "oref \<Rightarrow> 'z machine_scheme \<Rightarrow> fault + 'z machine_scheme" where
  "ME_hash_remove x s = of_option (EngineDb_ind_order_Remove (Some x) s)"

definition ME_queue_insert_tail :: "lref \<Rightarrow> oref \<Rightarrow> 'z machine_scheme \<Rightarrow> 'z machine_scheme" where
  "ME_queue_insert_tail l x s = PriceLevel_orders_InsertTail (Some l) (Some x) s"

definition ME_queue_remove :: "lref \<Rightarrow> oref \<Rightarrow> 'z machine_scheme \<Rightarrow> 'z machine_scheme" where
  "ME_queue_remove l x s = PriceLevel_orders_Remove (Some l) (Some x) s"

definition ME_queue_first :: "lref \<Rightarrow> 'z machine_scheme \<Rightarrow> oref option" where
  "ME_queue_first l s = PriceLevel_orders_First s (Some l)"

definition ME_queue_next :: "oref \<Rightarrow> 'z machine_scheme \<Rightarrow> oref option" where
  "ME_queue_next x s = PriceLevel_orders_Next s (Some x)"

definition ME_order_owner :: "oref \<Rightarrow> 'z machine_scheme \<Rightarrow> lref option" where
  "ME_order_owner x s = (if o_inlist s x then o_level s x else None)"

definition ME_bids_find :: "u64 \<Rightarrow> 'z machine_scheme \<Rightarrow> fault + lref option" where
  "ME_bids_find p s = of_option (EngineDb_bids_Find s p)"

definition ME_bids_insert :: "lref \<Rightarrow> 'z machine_scheme \<Rightarrow> fault + 'z machine_scheme" where
  "ME_bids_insert l s = of_option (EngineDb_bids_Insert (Some l) s)"

definition ME_bids_remove :: "lref \<Rightarrow> 'z machine_scheme \<Rightarrow> fault + 'z machine_scheme" where
  "ME_bids_remove l s = of_option (EngineDb_bids_Remove (Some l) s)"

definition ME_bids_best :: "'z machine_scheme \<Rightarrow> fault + lref option" where
  "ME_bids_best s = of_option (EngineDb_bids_Best s)"

definition ME_asks_find :: "u64 \<Rightarrow> 'z machine_scheme \<Rightarrow> fault + lref option" where
  "ME_asks_find p s = of_option (EngineDb_asks_Find s p)"

definition ME_asks_insert :: "lref \<Rightarrow> 'z machine_scheme \<Rightarrow> fault + 'z machine_scheme" where
  "ME_asks_insert l s = of_option (EngineDb_asks_Insert (Some l) s)"

definition ME_asks_remove :: "lref \<Rightarrow> 'z machine_scheme \<Rightarrow> fault + 'z machine_scheme" where
  "ME_asks_remove l s = of_option (EngineDb_asks_Remove (Some l) s)"

definition ME_asks_best :: "'z machine_scheme \<Rightarrow> fault + lref option" where
  "ME_asks_best s = of_option (EngineDb_asks_Best s)"

definition layer_api ::
  "('z machine_scheme \<Rightarrow> u64) \<Rightarrow> ('z machine_scheme \<Rightarrow> 'z machine_scheme) \<Rightarrow>
   (u64 \<Rightarrow> u64 \<Rightarrow> u64 \<Rightarrow> u64 \<Rightarrow> 'z machine_scheme \<Rightarrow> fault + 'z machine_scheme) \<Rightarrow>
   ('z machine_scheme, oref, lref) engine_api" where
  "layer_api cap reset emit = \<lparr>
     api_capacity = cap, api_order_count = order_pool_n,
     api_trade_reset = reset, api_trade_emit = emit,
     api_order_alloc = (\<lambda>m. if cap m \<le> order_pool_n m then (None, m) else EngineDb_order_pool_Alloc m), api_order_free = ME_order_free,
     api_level_alloc = (\<lambda>m. if cap m \<le> level_pool_n m then (None, m) else EngineDb_level_pool_Alloc m), api_level_free = ME_level_free,
     api_order_get_id = ME_order_get_id, api_order_get_account = ME_order_get_account,
     api_order_get_side = ME_order_get_side, api_order_get_stp_mode = ME_order_get_stp_mode,
     api_order_get_price = ME_order_get_price, api_order_get_qty = ME_order_get_qty,
     api_order_get_remaining = ME_order_get_remaining,
     api_order_set_id = ME_order_set_id, api_order_set_account = ME_order_set_account,
     api_order_set_side = ME_order_set_side, api_order_set_stp_mode = ME_order_set_stp_mode,
     api_order_set_price = ME_order_set_price, api_order_set_qty = ME_order_set_qty,
     api_order_set_remaining = ME_order_set_remaining,
     api_level_get_price = ME_level_get_price, api_level_get_count = ME_level_get_count,
     api_level_set_price = ME_level_set_price,
     api_hash_find = ME_hash_find, api_hash_insert = ME_hash_insert, api_hash_remove = ME_hash_remove,
     api_queue_insert_tail = ME_queue_insert_tail, api_queue_remove = ME_queue_remove,
     api_queue_first = ME_queue_first, api_queue_next = ME_queue_next, api_order_owner = ME_order_owner,
     api_bids_find = ME_bids_find, api_bids_insert = ME_bids_insert, api_bids_remove = ME_bids_remove,
     api_bids_best = ME_bids_best,
     api_asks_find = ME_asks_find, api_asks_insert = ME_asks_insert, api_asks_remove = ME_asks_remove,
     api_asks_best = ME_asks_best\<rparr>"

text \<open>Its fields.\<close>

lemma layer_api_simps:
  "api_capacity (layer_api cap reset emit) = cap"
  "api_order_count (layer_api cap reset emit) = order_pool_n"
  "api_trade_reset (layer_api cap reset emit) = reset"
  "api_trade_emit (layer_api cap reset emit) = emit"
  "api_order_alloc (layer_api cap reset emit) = (\<lambda>m. if cap m \<le> order_pool_n m then (None, m) else EngineDb_order_pool_Alloc m)"
  "api_order_free (layer_api cap reset emit) = ME_order_free"
  "api_level_alloc (layer_api cap reset emit) = (\<lambda>m. if cap m \<le> level_pool_n m then (None, m) else EngineDb_level_pool_Alloc m)"
  "api_level_free (layer_api cap reset emit) = ME_level_free"
  "api_order_get_id (layer_api cap reset emit) = ME_order_get_id"
  "api_order_get_account (layer_api cap reset emit) = ME_order_get_account"
  "api_order_get_side (layer_api cap reset emit) = ME_order_get_side"
  "api_order_get_stp_mode (layer_api cap reset emit) = ME_order_get_stp_mode"
  "api_order_get_price (layer_api cap reset emit) = ME_order_get_price"
  "api_order_get_qty (layer_api cap reset emit) = ME_order_get_qty"
  "api_order_get_remaining (layer_api cap reset emit) = ME_order_get_remaining"
  "api_order_set_id (layer_api cap reset emit) = ME_order_set_id"
  "api_order_set_account (layer_api cap reset emit) = ME_order_set_account"
  "api_order_set_side (layer_api cap reset emit) = ME_order_set_side"
  "api_order_set_stp_mode (layer_api cap reset emit) = ME_order_set_stp_mode"
  "api_order_set_price (layer_api cap reset emit) = ME_order_set_price"
  "api_order_set_qty (layer_api cap reset emit) = ME_order_set_qty"
  "api_order_set_remaining (layer_api cap reset emit) = ME_order_set_remaining"
  "api_level_get_price (layer_api cap reset emit) = ME_level_get_price"
  "api_level_get_count (layer_api cap reset emit) = ME_level_get_count"
  "api_level_set_price (layer_api cap reset emit) = ME_level_set_price"
  "api_hash_find (layer_api cap reset emit) = ME_hash_find"
  "api_hash_insert (layer_api cap reset emit) = ME_hash_insert"
  "api_hash_remove (layer_api cap reset emit) = ME_hash_remove"
  "api_queue_insert_tail (layer_api cap reset emit) = ME_queue_insert_tail"
  "api_queue_remove (layer_api cap reset emit) = ME_queue_remove"
  "api_queue_first (layer_api cap reset emit) = ME_queue_first"
  "api_queue_next (layer_api cap reset emit) = ME_queue_next"
  "api_order_owner (layer_api cap reset emit) = ME_order_owner"
  "api_bids_find (layer_api cap reset emit) = ME_bids_find"
  "api_bids_insert (layer_api cap reset emit) = ME_bids_insert"
  "api_bids_remove (layer_api cap reset emit) = ME_bids_remove"
  "api_bids_best (layer_api cap reset emit) = ME_bids_best"
  "api_asks_find (layer_api cap reset emit) = ME_asks_find"
  "api_asks_insert (layer_api cap reset emit) = ME_asks_insert"
  "api_asks_remove (layer_api cap reset emit) = ME_asks_remove"
  "api_asks_best (layer_api cap reset emit) = ME_asks_best"
  by (simp_all add: layer_api_def)

section \<open>Representation\<close>

text \<open>\<open>P m c ts\<close> says that the state provides capacity \<open>c\<close> and has recorded the trades \<open>ts\<close>.\<close>

definition layer_rep ::
  "('z machine_scheme \<Rightarrow> u64 \<Rightarrow> trade list \<Rightarrow> bool) \<Rightarrow> 'z machine_scheme \<Rightarrow> (oref, lref) store \<Rightarrow> bool" where
  "layer_rep P m a \<longleftrightarrow> db_rep m a \<and> P m (s_cap a) (s_trades a)"

lemma layer_repD: "layer_rep P s a \<Longrightarrow> db_rep s a" "layer_rep P s a \<Longrightarrow> store_wf a"
  by (simp_all add: layer_rep_def db_rep_def)

locale data_layer =
  fixes cap :: "'z machine_scheme \<Rightarrow> u64" and reset :: "'z machine_scheme \<Rightarrow> 'z machine_scheme"
    and emit :: "u64 \<Rightarrow> u64 \<Rightarrow> u64 \<Rightarrow> u64 \<Rightarrow> 'z machine_scheme \<Rightarrow> fault + 'z machine_scheme"
    and P :: "'z machine_scheme \<Rightarrow> u64 \<Rightarrow> trade list \<Rightarrow> bool"
  assumes P_more: "machine.more m' = machine.more m \<Longrightarrow> P m c ts \<Longrightarrow> P m' c ts"
    and P_cap: "P m c ts \<Longrightarrow> cap m = c"
    and P_reset: "P m c ts \<Longrightarrow> P (reset m) c []"
    and reset_db: "db_rep (reset m) a = db_rep m a"
    and P_emit: "P m c ts \<Longrightarrow> unat c < 2 ^ 32 \<Longrightarrow> length ts \<le> unat c \<Longrightarrow>
      \<exists>m'. emit i j p q m = Inr m' \<and> (\<forall>a. db_rep m' a = db_rep m a) \<and>
        P m' c (ts @ [\<lparr>t_maker = i, t_taker = j, t_price = p, t_qty = q\<rparr>])"
begin

abbreviation A where "A \<equiv> layer_api cap reset emit"
abbreviation rep where "rep \<equiv> layer_rep P"

lemma layer_repI:
  assumes "rep s a" and "db_rep s' a'" and "machine.more s' = machine.more s"
    and "s_cap a' = s_cap a" and "s_trades a' = s_trades a"
  shows "rep s' a'"
  using assms P_more by (simp add: layer_rep_def)

lemma layer_counts:
  assumes "rep s a"
  shows "cap s = s_cap a" "order_pool_n s = of_nat (card (dom (s_orders a)))"
    "level_pool_n s = of_nat (card (dom (s_levels a)))"
    "unat (order_pool_n s) = card (dom (s_orders a))" "unat (level_pool_n s) = card (dom (s_levels a))"
proof -
  note wf = layer_repD(2)[OF assms]
  show "cap s = s_cap a" using assms P_cap unfolding layer_rep_def by blast
  show n: "order_pool_n s = of_nat (card (dom (s_orders a)))" "level_pool_n s = of_nat (card (dom (s_levels a)))"
    using db_repD(3)[OF layer_repD(1)[OF assms]] by (simp_all add: pools_rep_def)
  show "unat (order_pool_n s) = card (dom (s_orders a))" "unat (level_pool_n s) = card (dom (s_levels a))"
    unfolding n using store_wfD(1,4,5)[OF wf] by (simp_all add: small_count)
qed

lemma layer_queue_count:
  assumes "rep s a" and "l \<in> dom (s_levels a)"
  shows "ME_level_get_count l s = of_nat (length (s_queue a l))"
proof -
  have "ME_level_get_count l s = of_nat (unat (l_n s l))" by (simp add: ME_level_get_count_def)
  then show ?thesis by (simp only: db_queue_count[OF layer_repD(1)[OF assms(1)] assms(2)])
qed

section \<open>The contract holds\<close>

lemmas layer_row_defs =
  ME_order_get_id_def ME_order_get_account_def ME_order_get_side_def ME_order_get_stp_mode_def
  ME_order_get_price_def ME_order_get_qty_def ME_order_get_remaining_def

lemma layer_set_row:
  assumes r: "rep s a" and x: "x \<in> dom (s_orders a)" and step: "row_step x f s s'"
    and "x \<in> s_hash a \<longrightarrow> r_id (f (orow a x)) = r_id (orow a x)"
    and "x \<in> queued a \<longrightarrow> r_rem (f (orow a x)) = r_rem (orow a x)"
  shows "rep s' (upd_row x f a)"
  using db_set_row[OF layer_repD(1)[OF r] x step assms(4,5)] by (intro layer_repI[OF r]) simp_all

lemma layer_set_remaining:
  assumes r: "rep s a" and x: "x \<in> dom (s_orders a)"
    and v: "x \<in> queued a \<longrightarrow> v \<le> r_rem (orow a x)"
  shows "rep (ME_order_set_remaining x v s) (upd_row x (\<lambda>r. r\<lparr>r_rem := v\<rparr>) a)"
proof (cases "x \<in> queued a")
  case True
  then obtain l where l: "x \<in> set (s_queue a l)" by (auto simp: queued_def)
  note owner = db_queue_owner[OF layer_repD(1)[OF r] l]
  show ?thesis
    using db_reduce[OF layer_repD(1)[OF r] l v[rule_format, OF True] refl]
    by (intro layer_repI[OF r]) (simp_all add: ME_order_set_remaining_def owner)
next
  case False
  then have "\<not> o_inlist s x" using rows_repD(3)[OF layer_repD(1)[OF r] x] by simp
  then have "ME_order_set_remaining x v s = set_o_rem x v s"
    by (simp add: ME_order_set_remaining_def split: option.split)
  with layer_set_row[OF r x row_step_writes(7)] False show ?thesis by simp
qed

lemma layer_emit:
  assumes r: "rep s a" and room: "length (s_trades a) \<le> unat (s_cap a)"
  shows "\<exists>s'. emit m t p q s = Inr s' \<and>
    rep s' (a\<lparr>s_trades := s_trades a @ [\<lparr>t_maker = m, t_taker = t, t_price = p, t_qty = q\<rparr>]\<rparr>)"
proof -
  let ?e = "\<lparr>t_maker = m, t_taker = t, t_price = p, t_qty = q\<rparr>"
  have P: "P s (s_cap a) (s_trades a)" using r by (simp add: layer_rep_def)
  obtain s' where s': "emit m t p q s = Inr s'" "\<forall>a. db_rep s' a = db_rep s a" "P s' (s_cap a) (s_trades a @ [?e])"
    using P_emit[OF P store_wfD(1)[OF layer_repD(2)[OF r]] room] by blast
  have "db_rep s' (a\<lparr>s_trades := s_trades a @ [?e]\<rparr>)"
    using s'(2) layer_repD(1)[OF r] room by (intro db_rep_trades) simp_all
  with s' show ?thesis by (auto simp: layer_rep_def)
qed

sublocale rows: row_store A rep
proof (unfold_locales, goal_cases)
  case 1 then show ?case by (rule layer_repD)
next
  case 2 then show ?case by (simp add: layer_api_def layer_counts)
next
  case 3 then show ?case by (simp add: layer_api_def layer_counts)
next
  case (4 s a)
  have "db_rep (reset s) (a\<lparr>s_trades := []\<rparr>)"
    using layer_repD(1)[OF 4] by (intro db_rep_trades) (simp_all add: reset_db)
  moreover have "P (reset s) (s_cap a) []" using 4 P_reset unfolding layer_rep_def by blast
  ultimately show ?case by (simp add: layer_api_def layer_rep_def)
next
  case (5 s a) then show ?case by (simp add: layer_api_def layer_emit)
next
  case (6 s a)
  obtain x v s' where "EngineDb_order_pool_Alloc s = (Some x, s')" "x \<notin> dom (s_orders a)"
    "machine.more s' = machine.more s" "db_rep s' (a\<lparr>s_orders := (s_orders a)(x \<mapsto> v)\<rparr>)"
    using db_order_alloc[OF layer_repD(1)[OF 6(1)] 6(2)] by blast
  moreover have "order_pool_n s < cap s"
    using 6 by (simp add: word_less_nat_alt layer_counts(1,4,5))
  moreover from calculation have "rep s' (a\<lparr>s_orders := (s_orders a)(x \<mapsto> v)\<rparr>)"
    by (intro layer_repI[OF 6(1)]) simp_all
  ultimately show ?case by (auto simp: layer_api_def)
next
  case (7 s a)
  then show ?case by (simp add: layer_api_def word_le_nat_alt layer_counts(1,4,5))
next
  case (8 s a x)
  then show ?case using db_order_free[OF layer_repD(1)[OF 8(1)] 8(2-4) refl]
    by (intro layer_repI[OF 8(1)]) (simp_all add: layer_api_def ME_order_free_def)
next
  case (9 s a)
  obtain x v s' where "EngineDb_level_pool_Alloc s = (Some x, s')" "x \<notin> dom (s_levels a)"
    "machine.more s' = machine.more s" "db_rep s' (a\<lparr>s_levels := (s_levels a)(x \<mapsto> v)\<rparr>)"
    using db_level_alloc[OF layer_repD(1)[OF 9(1)] 9(2)] by blast
  moreover have "level_pool_n s < cap s"
    using 9 by (simp add: word_less_nat_alt layer_counts(1,4,5))
  moreover from calculation have "rep s' (a\<lparr>s_levels := (s_levels a)(x \<mapsto> v)\<rparr>)"
    by (intro layer_repI[OF 9(1)]) simp_all
  ultimately show ?case by (auto simp: layer_api_def)
next
  case (10 s a)
  then show ?case by (simp add: layer_api_def word_le_nat_alt layer_counts(1,4,5))
next
  case (11 s a l)
  then show ?case using db_level_free[OF layer_repD(1)[OF 11(1)] 11(2-4) refl]
    by (intro layer_repI[OF 11(1)]) (simp_all add: layer_api_def ME_level_free_def)
next
  case (12 s a x r)
  then have "r = row_at s x" using rows_repD(2)[OF layer_repD(1)[OF 12(1)], of x] by auto
  then show ?case by (simp add: layer_api_def layer_row_defs)
next
  case 13 then show ?case using layer_set_row[OF _ _ row_step_writes(1)]
    by (simp add: layer_api_def ME_order_set_id_def)
next
  case 14 then show ?case using layer_set_row[OF _ _ row_step_writes(2)]
    by (simp add: layer_api_def ME_order_set_account_def)
next
  case 15 then show ?case using layer_set_row[OF _ _ row_step_writes(3)]
    by (simp add: layer_api_def ME_order_set_side_def)
next
  case 16 then show ?case using layer_set_row[OF _ _ row_step_writes(4)]
    by (simp add: layer_api_def ME_order_set_stp_mode_def)
next
  case 17 then show ?case using layer_set_row[OF _ _ row_step_writes(5)]
    by (simp add: layer_api_def ME_order_set_price_def)
next
  case 18 then show ?case using layer_set_row[OF _ _ row_step_writes(6)]
    by (simp add: layer_api_def ME_order_set_qty_def)
next
  case 19 then show ?case by (simp add: layer_api_def layer_set_remaining)
next
  case (20 s a l) then show ?case using levels_repD(2)[OF layer_repD(1)[OF 20(1)]]
    by (simp add: layer_api_def ME_level_get_price_def)
next
  case 21 then show ?case by (simp add: layer_api_def layer_queue_count)
next
  case (22 s a l v)
  then show ?case using db_level_set_price[OF layer_repD(1)[OF 22(1)] 22(2,3) refl]
    by (intro layer_repI[OF 22(1)]) (simp_all add: layer_api_def ME_level_set_price_def)
qed

sublocale index: indexed_store A rep
proof (unfold_locales, goal_cases)
  case (1 s a x) then show ?case using db_hash_find_hit[OF layer_repD(1)[OF 1(1)] 1(2)]
    by (simp add: layer_api_def ME_hash_find_def)
next
  case (2 s a i) then show ?case using db_hash_find_miss[OF layer_repD(1)[OF 2(1)] 2(2)]
    by (simp add: layer_api_def ME_hash_find_def)
next
  case (3 s a x) then show ?case using db_hash_insert_present[OF layer_repD(1)[OF 3(1)] 3(2-4)]
    by (simp add: layer_api_def ME_hash_insert_def)
next
  case (4 s a x)
  obtain s' where s': "EngineDb_ind_order_InsertMaybe (Some x) s = Some (True, s')"
    "db_rep s' (a\<lparr>s_hash := insert x (s_hash a)\<rparr>)" "machine.more s' = machine.more s"
    using db_hash_insert[OF layer_repD(1)[OF 4(1)] 4(2-4)] by blast
  then have "rep s' (a\<lparr>s_hash := insert x (s_hash a)\<rparr>)" by (intro layer_repI[OF 4(1)]) simp_all
  with s'(1) show ?case by (simp add: layer_api_def ME_hash_insert_def)
next
  case (5 s a x)
  obtain s' where s': "EngineDb_ind_order_Remove (Some x) s = Some s'"
    "db_rep s' (a\<lparr>s_hash := s_hash a - {x}\<rparr>)" "machine.more s' = machine.more s"
    using db_hash_remove[OF layer_repD(1)[OF 5(1)] 5(2)] by blast
  then have "rep s' (a\<lparr>s_hash := s_hash a - {x}\<rparr>)" by (intro layer_repI[OF 5(1)]) simp_all
  with s'(1) show ?case by (simp add: layer_api_def ME_hash_remove_def)
qed

lemma layer_book_api:
  "book_find A b p s = of_option (EngineDb_book_Find b s p)"
  "book_insert A b l s = of_option (EngineDb_book_Insert b (Some l) s)"
  "book_remove A b l s = of_option (EngineDb_book_Remove b (Some l) s)"
  "book_best A b s = of_option (EngineDb_book_Best b s)"
  by (cases b; simp add: layer_api_def ME_bids_find_def ME_asks_find_def ME_bids_insert_def ME_asks_insert_def
      ME_bids_remove_def ME_asks_remove_def ME_bids_best_def ME_asks_best_def)+

sublocale engine_db A rep
proof (unfold_locales, goal_cases)
  case (1 s a l x)
  then show ?case using db_queue_insert_tail[OF layer_repD(1)[OF 1(1)] 1(2-5) refl]
    by (intro layer_repI[OF 1(1)]) (simp_all add: layer_api_def ME_queue_insert_tail_def)
next
  case (2 s a l x)
  then show ?case using db_queue_remove[OF layer_repD(1)[OF 2(1)] 2(2,3) refl]
    by (intro layer_repI[OF 2(1)]) (simp_all add: layer_api_def ME_queue_remove_def)
next
  case (3 s a l) then show ?case using db_queue_first[OF layer_repD(1)[OF 3(1)] 3(2)]
    by (simp add: layer_api_def ME_queue_first_def)
next
  case (4 s a l xs x ys) then show ?case using db_queue_next[OF layer_repD(1)[OF 4(1)] 4(2)]
    by (simp add: layer_api_def ME_queue_next_def)
next
  case (5 s a x l) then show ?case using db_queue_owner[OF layer_repD(1)[OF 5(1)] 5(2)]
    by (simp add: layer_api_def ME_order_owner_def)
next
  case (6 s a x) then show ?case using rows_repD(3)[OF layer_repD(1)[OF 6(1)] 6(2)]
    by (simp add: layer_api_def ME_order_owner_def)
next
  case (7 s a b p) then show ?case using db_tree_find[OF layer_repD(1)[OF 7]]
    by (simp add: layer_book_api)
next
  case (8 s a l b)
  obtain s' where s': "EngineDb_book_Insert b (Some l) s = Some s'"
    "db_rep s' (set_tree_of b (ins_level a b l (s_tree a b)) a)" "machine.more s' = machine.more s"
    using db_tree_insert[OF layer_repD(1)[OF 8(1)] 8(2-4)] by blast
  then have "rep s' (set_tree_of b (ins_level a b l (s_tree a b)) a)"
    by (intro layer_repI[OF 8(1)]) simp_all
  with s'(1) show ?case by (simp add: layer_book_api)
next
  case (9 s a l b)
  obtain s' where s': "EngineDb_book_Remove b (Some l) s = Some s'"
    "db_rep s' (set_tree_of b (remove1 l (s_tree a b)) a)" "machine.more s' = machine.more s"
    using db_tree_remove[OF layer_repD(1)[OF 9(1)] 9(2)] by blast
  then have "rep s' (set_tree_of b (remove1 l (s_tree a b)) a)"
    by (intro layer_repI[OF 9(1)]) simp_all
  with s'(1) show ?case by (simp add: layer_book_api)
next
  case (10 s a b) then show ?case using db_tree_best[OF layer_repD(1)[OF 10]]
    by (simp add: layer_book_api)
qed

end

end
