(* ===== verification/Adapter.thy ===== *)
theory Adapter
  imports Data_Layer
begin

text \<open>
  \<^verbatim>\<open>c/gen/engine_db_adapter.c\<close>: the contract implemented on the handwritten data layer.
  The adapter's static variables extend the machine; \<open>adapter_api\<close> collects the functions
  into the record the matcher is parameterised by, and the interpretation at the end proves
  every law of the contract for it.
\<close>

section \<open>The adapter's functions\<close>

record adapter = machine +
  g_cap :: u64
  g_trades :: "trade list"
  g_ntrades :: u64

definition zero_trade :: trade where
  "zero_trade = \<lparr>t_maker = 0, t_taker = 0, t_price = 0, t_qty = 0\<rparr>"

text \<open>
  \<^verbatim>\<open>if (total_allocated < capacity && ReserveMem(capacity - total_allocated) == 0) abort();\<close>
\<close>

definition reserve_orders :: "u64 \<Rightarrow> adapter \<Rightarrow> fault + adapter" where
  "reserve_orders capacity s =
     (if order_pool_total_allocated s < capacity
      then rbind (of_option (EngineDb_order_pool_ReserveMem (capacity - order_pool_total_allocated s) s))
             (\<lambda>(n, s). if n = 0 then Inl Abort else Inr s)
      else Inr s)"

definition reserve_levels :: "u64 \<Rightarrow> adapter \<Rightarrow> fault + adapter" where
  "reserve_levels capacity s =
     (if level_pool_total_allocated s < capacity
      then rbind (of_option (EngineDb_level_pool_ReserveMem (capacity - level_pool_total_allocated s) s))
             (\<lambda>(n, s). if n = 0 then Inl Abort else Inr s)
      else Inr s)"

definition ME_adapter_init :: "u64 \<Rightarrow> adapter \<Rightarrow> fault + adapter" where
  "ME_adapter_init capacity s =
     rbind (of_option (EngineDb_Init s)) (\<lambda>s.
     let s = s\<lparr>g_cap := capacity\<rparr> in
     rbind (reserve_orders capacity s) (\<lambda>s.
     rbind (reserve_levels capacity s) (\<lambda>s.
     let (ok, s) = alloc_call s in
     if ok then Inr (s\<lparr>g_trades := replicate (unat (capacity + 1)) zero_trade, g_ntrades := 0\<rparr>)
     else Inl Abort)))"

definition ME_adapter_trade_count :: "adapter \<Rightarrow> u64" where
  "ME_adapter_trade_count s = g_ntrades s"

definition ME_adapter_trade_get :: "adapter \<Rightarrow> u64 \<Rightarrow> trade option" where
  "ME_adapter_trade_get s i = (if unat i < length (g_trades s) then Some (g_trades s ! unat i) else None)"

definition ME_capacity :: "adapter \<Rightarrow> u64" where
  "ME_capacity s = g_cap s"

definition ME_order_count :: "adapter \<Rightarrow> u64" where
  "ME_order_count s = order_pool_n s"

definition ME_trade_reset :: "adapter \<Rightarrow> adapter" where
  "ME_trade_reset s = s\<lparr>g_ntrades := 0\<rparr>"

definition ME_trade_emit :: "u64 \<Rightarrow> u64 \<Rightarrow> u64 \<Rightarrow> u64 \<Rightarrow> adapter \<Rightarrow> fault + adapter" where
  "ME_trade_emit m t p q s =
     (if g_cap s < g_ntrades s then Inl Abort
      else if length (g_trades s) \<le> unat (g_ntrades s) then Inl Undefined
      else Inr (s\<lparr>g_trades := (g_trades s)[unat (g_ntrades s) :=
                    \<lparr>t_maker = m, t_taker = t, t_price = p, t_qty = q\<rparr>],
                  g_ntrades := g_ntrades s + 1\<rparr>))"

definition ME_order_alloc :: "adapter \<Rightarrow> oref option \<times> adapter" where
  "ME_order_alloc s = (if g_cap s \<le> order_pool_n s then (None, s) else EngineDb_order_pool_Alloc s)"

definition ME_level_alloc :: "adapter \<Rightarrow> lref option \<times> adapter" where
  "ME_level_alloc s = (if g_cap s \<le> level_pool_n s then (None, s) else EngineDb_level_pool_Alloc s)"

definition adapter_api :: "(adapter, oref, lref) engine_api" where
  "adapter_api = \<lparr>
     api_capacity = ME_capacity, api_order_count = ME_order_count,
     api_trade_reset = ME_trade_reset, api_trade_emit = ME_trade_emit,
     api_order_alloc = ME_order_alloc, api_order_free = ME_order_free,
     api_level_alloc = ME_level_alloc, api_level_free = ME_level_free,
     api_order_get_id = ME_order_get_id, api_order_get_account = ME_order_get_account,
     api_order_get_side = ME_order_get_side, api_order_get_stp_mode = ME_order_get_stp_mode,
     api_order_get_price = ME_order_get_price, api_order_get_qty = ME_order_get_qty,
     api_order_get_remaining = ME_order_get_remaining,
     api_order_set_id = ME_order_set_id, api_order_set_account = ME_order_set_account,
     api_order_set_side = ME_order_set_side, api_order_set_stp_mode = ME_order_set_stp_mode,
     api_order_set_price = ME_order_set_price, api_order_set_qty = ME_order_set_qty,
     api_order_set_remaining = ME_order_set_remaining,
     api_level_get_price = ME_level_get_price, api_level_get_count = ME_level_get_count,
     api_level_set_price = ME_level_set_price,
     api_hash_find = ME_hash_find, api_hash_insert = ME_hash_insert, api_hash_remove = ME_hash_remove,
     api_queue_insert_tail = ME_queue_insert_tail, api_queue_remove = ME_queue_remove,
     api_queue_first = ME_queue_first, api_queue_next = ME_queue_next, api_order_owner = ME_order_owner,
     api_bids_find = ME_bids_find, api_bids_insert = ME_bids_insert, api_bids_remove = ME_bids_remove,
     api_bids_best = ME_bids_best,
     api_asks_find = ME_asks_find, api_asks_insert = ME_asks_insert, api_asks_remove = ME_asks_remove,
     api_asks_best = ME_asks_best\<rparr>"

section \<open>The contract holds\<close>

definition sink_rep :: "adapter \<Rightarrow> u64 \<Rightarrow> trade list \<Rightarrow> bool" where
  "sink_rep s c ts \<longleftrightarrow> g_cap s = c \<and> length (g_trades s) = Suc (unat c) \<and>
     unat (g_ntrades s) = length ts \<and> take (length ts) (g_trades s) = ts"

abbreviation adapter_rep :: "adapter \<Rightarrow> (oref, lref) store \<Rightarrow> bool" where
  "adapter_rep \<equiv> layer_rep sink_rep"

lemma adapter_api_layer: "adapter_api = layer_api ME_capacity ME_trade_reset ME_trade_emit"
  by (simp add: adapter_api_def layer_api_def ME_capacity_def ME_order_count_def ME_order_alloc_def
      ME_level_alloc_def fun_eq_iff)

lemma sink_rep_more:
  assumes "machine.more s' = machine.more s"
  shows "sink_rep s' c ts = sink_rep s c ts"
proof -
  have "g_cap s' = g_cap s" "g_trades s' = g_trades s" "g_ntrades s' = g_ntrades s"
    using assms by (cases s; cases s'; simp)+
  then show ?thesis by (simp add: sink_rep_def)
qed

lemma db_rep_sink [simp]: 
  "db_rep (s\<lparr>g_trades := ts\<rparr>) a = db_rep s a" "db_rep (s\<lparr>g_ntrades := n\<rparr>) a = db_rep s a"
  "db_rep (s\<lparr>g_cap := c\<rparr>) a = db_rep s a" for s :: adapter
  by (simp_all add: db_rep_def db_rep_parts hash_rep_def order_queue_def queue_total_def price_tree_def)

lemma sink_emit:
  assumes k: "sink_rep s c ts" and cap: "unat c < 2 ^ 32" "length ts \<le> unat c"
  shows "\<exists>s'. ME_trade_emit m t p q s = Inr s' \<and> (\<forall>a. db_rep s' a = db_rep s a) \<and>
    sink_rep s' c (ts @ [\<lparr>t_maker = m, t_taker = t, t_price = p, t_qty = q\<rparr>])"
proof -
  let ?n = "length ts" and ?e = "\<lparr>t_maker = m, t_taker = t, t_price = p, t_qty = q\<rparr>"
  let ?s = "s\<lparr>g_trades := (g_trades s)[?n := ?e], g_ntrades := g_ntrades s + 1\<rparr>"
  have "ME_trade_emit m t p q s = Inr ?s"
    using assms by (simp add: sink_rep_def ME_trade_emit_def word_less_nat_alt)
  moreover have "unat (g_ntrades s + 1) = Suc ?n"
    using assms by (simp add: sink_rep_def unat_word_ariths)
  moreover have "take (Suc ?n) ((g_trades s)[?n := ?e]) = ts @ [?e]"
    using assms by (simp add: sink_rep_def take_Suc_conv_app_nth)
  ultimately show ?thesis using k by (auto simp: sink_rep_def)
qed

interpretation adapter: data_layer ME_capacity ME_trade_reset ME_trade_emit sink_rep
  rewrites "layer_api ME_capacity ME_trade_reset ME_trade_emit = adapter_api"
proof -
  show "data_layer ME_capacity ME_trade_reset ME_trade_emit sink_rep"
  proof (unfold_locales, goal_cases)
    case (1 m' m c ts) then show ?case using sink_rep_more[of m' m c ts] by simp
  next
    case 2 then show ?case by (simp add: sink_rep_def ME_capacity_def)
  next
    case 3 then show ?case by (simp add: sink_rep_def ME_trade_reset_def)
  next
    case 4 show ?case by (simp add: ME_trade_reset_def)
  next
    case (5 m c ts i j p q) then show ?case by (rule sink_emit)
  qed
qed (simp add: adapter_api_layer)

section \<open>Initialisation\<close>

definition empty_store :: "u64 \<Rightarrow> ('o, 'l) store" where
  "empty_store cap = \<lparr>s_cap = cap, s_orders = Map.empty, s_levels = Map.empty, s_queue = (\<lambda>_. []),
     s_hash = {}, s_tree = (\<lambda>_. []), s_trades = []\<rparr>"

lemma empty_store_simps [simp]:
  "s_cap (empty_store cap) = cap" "s_orders (empty_store cap) = Map.empty"
  "s_levels (empty_store cap) = Map.empty" "s_queue (empty_store cap) l = []"
  "s_hash (empty_store cap) = {}" "s_tree (empty_store cap) b = []" "s_trades (empty_store cap) = []"
  by (simp_all add: empty_store_def)

lemma fresh_db_rep:
  assumes f: "fresh_db m fs ls" and cap: "unat cap < 2 ^ 32" "unat cap \<le> length fs" "unat cap \<le> length ls"
  shows "db_rep m (empty_store cap)"
proof -
  have "store_wf (empty_store cap :: (oref, lref) store)" using cap(1) by (simp add: store_wf_def)
  moreover have "hash_rep m {}" using f by (auto simp: fresh_db_def hash_rep_def intro: exI[of _ "[]"])
  moreover have "trees_rep m (empty_store cap)" using f by (simp add: fresh_db_def trees_rep_def price_tree_None)
  moreover have "pools_rep m (empty_store cap)"
    using f cap(2,3) unfolding fresh_db_def pools_rep_def by auto
  ultimately show ?thesis by (simp add: db_rep_def rows_rep_def queues_rep_def)
qed

text \<open>The state between the steps of the initialisation.\<close>

definition fresh_pools :: "'z machine_scheme \<Rightarrow> oref list \<Rightarrow> lref list \<Rightarrow> bool" where
  "fresh_pools m fs ls \<longleftrightarrow> fresh_db m fs ls \<and> (\<forall>i. alloc_ok m i) \<and>
     (\<exists>cs. chunk_table (order_chunks m) (order_chunks_n m) (order_chunks_cap m) cs) \<and>
     (\<exists>cs. chunk_table (level_chunks m) (level_chunks_n m) (level_chunks_cap m) cs) \<and>
     unat (order_chunks_cap m) < 2 ^ 31 \<and> unat (level_chunks_cap m) < 2 ^ 31"

lemma order_reserve_fresh:
  assumes f: "fresh_pools m fs ls" and n: "n \<noteq> 0" and cap: "unat (order_chunks_cap m) < 2 ^ 30"
    and small: "unat (order_pool_total_allocated m) + unat n < 2 ^ 64"
  shows "\<exists>m' fs'. EngineDb_order_pool_ReserveMem n m = Some (n, m') \<and> fresh_pools m' fs' ls \<and>
    length fs' = length fs + unat n \<and> level_chunks_cap m' = level_chunks_cap m \<and>
    level_pool_total_allocated m' = level_pool_total_allocated m \<and> machine.more m' = machine.more m"
proof -
  obtain cs where t: "chunk_table (order_chunks m) (order_chunks_n m) (order_chunks_cap m) cs"
    using f by (auto simp: fresh_pools_def)
  have p: "order_free_list m fs" "\<forall>p \<in> set fs. p < order_brk m" "unat (order_chunks_cap m) < 2 ^ 31"
    "\<forall>i. alloc_ok m i" using f by (simp_all add: fresh_pools_def fresh_db_def)
  from order_ReserveMem_law[OF p(1,2) t p(3,4) n] obtain h q arr cn c k where
    run: "EngineDb_order_pool_ReserveMem n m = Some (n,
      m\<lparr>order_mem := h, order_pool_free := q, order_chunks := arr, order_chunks_n := cn,
        order_chunks_cap := c, alloc_calls := k, order_brk := order_brk m + unat n,
        order_heap := order_brk m # order_heap m,
        order_pool_total_allocated := order_pool_total_allocated m + n\<rparr>)" (is "_ = Some (n, ?m)")
    and q: "chain (ho_free h) q (rev [order_brk m ..< order_brk m + unat n] @ fs)"
    and tab: "chunk_table arr cn c (cs @ [order_brk m])" "unat c \<le> max 16 (2 * unat (order_chunks_cap m))"
    by blast
  have tot: "unat (order_pool_total_allocated m + n) = unat (order_pool_total_allocated m) + unat n"
    using small by (simp add: unat_word_ariths)
  let ?fs = "rev [order_brk m ..< order_brk m + unat n] @ fs"
  have "fresh_db ?m ?fs ls"
    using f q unfolding fresh_pools_def fresh_db_def by (auto simp: tot)
  moreover have "unat c < 2 ^ 31" using tab(2) cap by simp
  ultimately have "fresh_pools ?m ?fs ls" using f tab(1) unfolding fresh_pools_def by auto
  moreover have "length ?fs = length fs + unat n" by simp
  ultimately show ?thesis using run by (intro exI[of _ ?m] exI[of _ ?fs]) simp
qed

lemma level_reserve_fresh:
  assumes f: "fresh_pools m fs ls" and n: "n \<noteq> 0" and cap: "unat (level_chunks_cap m) < 2 ^ 30"
    and small: "unat (level_pool_total_allocated m) + unat n < 2 ^ 64"
  shows "\<exists>m' ls'. EngineDb_level_pool_ReserveMem n m = Some (n, m') \<and> fresh_pools m' fs ls' \<and>
    length ls' = length ls + unat n \<and> machine.more m' = machine.more m"
proof -
  obtain cs where t: "chunk_table (level_chunks m) (level_chunks_n m) (level_chunks_cap m) cs"
    using f by (auto simp: fresh_pools_def)
  have p: "level_free_list m ls" "\<forall>p \<in> set ls. p < level_brk m" "unat (level_chunks_cap m) < 2 ^ 31"
    "\<forall>i. alloc_ok m i" using f by (simp_all add: fresh_pools_def fresh_db_def)
  from level_ReserveMem_law[OF p(1,2) t p(3,4) n] obtain h q arr cn c k where
    run: "EngineDb_level_pool_ReserveMem n m = Some (n,
      m\<lparr>level_mem := h, level_pool_free := q, level_chunks := arr, level_chunks_n := cn,
        level_chunks_cap := c, alloc_calls := k, level_brk := level_brk m + unat n,
        level_heap := level_brk m # level_heap m,
        level_pool_total_allocated := level_pool_total_allocated m + n\<rparr>)" (is "_ = Some (n, ?m)")
    and q: "chain (hl_free h) q (rev [level_brk m ..< level_brk m + unat n] @ ls)"
    and tab: "chunk_table arr cn c (cs @ [level_brk m])" "unat c \<le> max 16 (2 * unat (level_chunks_cap m))"
    by blast
  have tot: "unat (level_pool_total_allocated m + n) = unat (level_pool_total_allocated m) + unat n"
    using small by (simp add: unat_word_ariths)
  let ?ls = "rev [level_brk m ..< level_brk m + unat n] @ ls"
  have "fresh_db ?m fs ?ls"
    using f q unfolding fresh_pools_def fresh_db_def by (auto simp: tot)
  moreover have "unat c < 2 ^ 31" using tab(2) cap by simp
  ultimately have "fresh_pools ?m fs ?ls" using f tab(1) unfolding fresh_pools_def by auto
  moreover have "length ?ls = length ls + unat n" by simp
  ultimately show ?thesis using run by (intro exI[of _ ?m] exI[of _ ?ls]) simp
qed

lemma reserve_orders_fresh:
  assumes f: "fresh_pools s fs ls" and cap: "unat cap < 2 ^ 32" and c: "unat (order_chunks_cap s) \<le> 16"
  shows "\<exists>s' fs'. reserve_orders cap s = Inr s' \<and> fresh_pools s' fs' ls \<and> unat cap \<le> length fs' \<and>
    level_chunks_cap s' = level_chunks_cap s \<and> machine.more s' = machine.more s"
proof (cases "order_pool_total_allocated s < cap")
  case False
  then have "unat cap \<le> length fs"
    using f by (simp add: fresh_pools_def fresh_db_def not_less word_le_nat_alt)
  with f False show ?thesis by (auto simp: reserve_orders_def)
next
  case True
  let ?n = "cap - order_pool_total_allocated s"
  have n: "unat ?n = unat cap - unat (order_pool_total_allocated s)" using True by (simp add: unat_sub)
  have "?n \<noteq> 0" using True by auto
  moreover have "unat (order_pool_total_allocated s) + unat ?n < 2 ^ 64"
    using n cap True by (simp add: word_less_nat_alt)
  ultimately obtain s' fs' where "EngineDb_order_pool_ReserveMem ?n s = Some (?n, s')"
    "fresh_pools s' fs' ls" "length fs' = length fs + unat ?n" "level_chunks_cap s' = level_chunks_cap s"
    "machine.more s' = machine.more s"
    using order_reserve_fresh[OF f] c by fastforce
  moreover have "length fs = unat (order_pool_total_allocated s)" using f by (simp add: fresh_pools_def fresh_db_def)
  ultimately show ?thesis using True n \<open>?n \<noteq> 0\<close>
    by (auto simp: reserve_orders_def word_less_nat_alt)
qed

lemma reserve_levels_fresh:
  assumes f: "fresh_pools s fs ls" and cap: "unat cap < 2 ^ 32" and c: "unat (level_chunks_cap s) \<le> 16"
  shows "\<exists>s' ls'. reserve_levels cap s = Inr s' \<and> fresh_pools s' fs ls' \<and> unat cap \<le> length ls' \<and>
    machine.more s' = machine.more s"
proof (cases "level_pool_total_allocated s < cap")
  case False
  then have "unat cap \<le> length ls"
    using f by (simp add: fresh_pools_def fresh_db_def not_less word_le_nat_alt)
  with f False show ?thesis by (auto simp: reserve_levels_def)
next
  case True
  let ?n = "cap - level_pool_total_allocated s"
  have n: "unat ?n = unat cap - unat (level_pool_total_allocated s)" using True by (simp add: unat_sub)
  have "?n \<noteq> 0" using True by auto
  moreover have "unat (level_pool_total_allocated s) + unat ?n < 2 ^ 64"
    using n cap True by (simp add: word_less_nat_alt)
  ultimately obtain s' ls' where "EngineDb_level_pool_ReserveMem ?n s = Some (?n, s')"
    "fresh_pools s' fs ls'" "length ls' = length ls + unat ?n" "machine.more s' = machine.more s"
    using level_reserve_fresh[OF f] c by fastforce
  moreover have "length ls = unat (level_pool_total_allocated s)" using f by (simp add: fresh_pools_def fresh_db_def)
  ultimately show ?thesis using True n \<open>?n \<noteq> 0\<close>
    by (auto simp: reserve_levels_def word_less_nat_alt)
qed

text \<open>When every allocation succeeds, initialisation gives an empty store of the capacity.\<close>

lemma adapter_init_law:
  assumes ch: "pool_chunks s ocs lcs" and ok: "\<forall>i. alloc_ok s i" and cap: "unat cap < 2 ^ 32"
  shows "\<exists>s'. ME_adapter_init cap s = Inr s' \<and> adapter_rep s' (empty_store cap)"
proof -
  obtain s1 fs1 ls1 where init: "EngineDb_Init s = Some s1" and f1: "fresh_db s1 fs1 ls1"
    and ch1: "pool_chunks s1 [order_brk s] [level_brk s]"
    and caps: "unat (order_chunks_cap s1) \<le> 16" "unat (level_chunks_cap s1) \<le> 16" and ok1: "alloc_ok s1 = alloc_ok s"
    using Init_law[OF ch ok] by blast
  let ?s1 = "s1\<lparr>g_cap := cap\<rparr>"
  have p1: "fresh_pools ?s1 fs1 ls1"
    using f1 ch1 caps ok ok1 by (auto simp: fresh_pools_def fresh_db_def pool_chunks_def)
  obtain s2 fs where s2: "reserve_orders cap ?s1 = Inr s2" and p2: "fresh_pools s2 fs ls1" and fs: "unat cap \<le> length fs"
    and m2: "level_chunks_cap s2 = level_chunks_cap ?s1" "machine.more s2 = machine.more ?s1"
    using reserve_orders_fresh[OF p1 cap] caps by auto
  obtain s3 ls where s3: "reserve_levels cap s2 = Inr s3" and p3: "fresh_pools s3 fs ls" and ls: "unat cap \<le> length ls"
    and m3: "machine.more s3 = machine.more s2"
    using reserve_levels_fresh[OF p2 cap] caps m2(1) by auto
  let ?s4 = "s3\<lparr>alloc_calls := Suc (alloc_calls s3),
    g_trades := replicate (unat (cap + 1)) zero_trade, g_ntrades := 0\<rparr>"
  have "fresh_db ?s4 fs ls" using p3 by (simp add: fresh_pools_def fresh_db_def)
  then have "db_rep ?s4 (empty_store cap)" using cap fs ls by (rule fresh_db_rep)
  moreover have "g_cap s3 = cap"
  proof -
    have "machine.more s3 = machine.more ?s1" using m2 m3 by simp
    then show ?thesis by (cases s3; cases s1) simp
  qed
  moreover have "unat (cap + 1) = Suc (unat cap)" using cap by (simp add: unat_word_ariths)
  ultimately have "adapter_rep ?s4 (empty_store cap)"
    by (simp add: layer_rep_def sink_rep_def)
  moreover have "alloc_ok s3 (alloc_calls s3)" using p3 by (simp add: fresh_pools_def)
  ultimately show ?thesis using init s2 s3
    by (simp add: ME_adapter_init_def alloc_call_def Let_def)
qed

end
