(* ===== verification/Glue.thy ===== *)
theory Glue
  imports Adapter
begin

text \<open>
  \<^verbatim>\<open>c/gen/matcher_glue.c\<close>: the public functions \<^verbatim>\<open>MatchingEngine_*\<close> over the
  generated matcher and the adapter, with the counters and the trade callback of the engine
  record.  The callback belongs to the caller; it is modelled as a function on the caller's
  data that leaves the engine alone.
\<close>

section \<open>Types of the public header\<close>

record OrderRequest =
  req_id :: u64
  req_account_id :: u64
  req_side :: u8
  req_order_type :: u8
  req_stp_mode :: u8
  req_price :: u64
  req_qty :: u64

record TradeEvent =
  aggressor_id :: u64
  passive_id :: u64
  trade_price :: u64
  trade_qty :: u64

record 'u MatchingEngine =
  total_trades :: u64
  total_volume :: u64
  on_trade :: "(TradeEvent \<Rightarrow> 'u \<Rightarrow> 'u) option"
  user_data :: 'u

section \<open>The functions\<close>

definition ME_GLUE_CAPACITY :: u64 where
  "ME_GLUE_CAPACITY = 1000000"

definition MatchingEngine_Init ::
  "'u MatchingEngine option \<Rightarrow> (TradeEvent \<Rightarrow> 'u \<Rightarrow> 'u) option \<Rightarrow> 'u \<Rightarrow> adapter matcher \<Rightarrow>
   fault + ('u MatchingEngine option \<times> adapter matcher)" where
  "MatchingEngine_Init engine cb ud st =
     rbind (ME_adapter_init ME_GLUE_CAPACITY (db st)) (\<lambda>s.
     Inr (map_option (\<lambda>e. e\<lparr>total_trades := 0, total_volume := 0, on_trade := cb, user_data := ud\<rparr>) engine,
          st\<lparr>db := s\<rparr>))"

text \<open>What the engine record does with one trade.\<close>

definition report_trade :: "TradeEvent \<Rightarrow> 'u MatchingEngine \<Rightarrow> 'u MatchingEngine" where
  "report_trade t e =
     (let e = e\<lparr>total_trades := total_trades e + 1\<rparr>;
          e = e\<lparr>total_volume := total_volume e + trade_qty t\<rparr>
      in case on_trade e of None \<Rightarrow> e | Some f \<Rightarrow> e\<lparr>user_data := f t (user_data e)\<rparr>)"

text \<open>\<^verbatim>\<open>for (uint64_t i = 0; i < n; ++i)\<close>, with \<open>k\<close> iterations left.\<close>

fun glue_reports ::
  "nat \<Rightarrow> u64 \<Rightarrow> adapter \<Rightarrow> 'u MatchingEngine option \<Rightarrow> fault + 'u MatchingEngine option" where
  "glue_reports 0 i s engine = Inr engine"
| "glue_reports (Suc k) i s engine =
     rbind (of_option (ME_adapter_trade_get s i)) (\<lambda>t.
     let ev = \<lparr>aggressor_id = t_taker t, passive_id = t_maker t, trade_price = t_price t, trade_qty = t_qty t\<rparr>
     in glue_reports k (i + 1) s (map_option (report_trade ev) engine))"

definition params_of :: "OrderRequest \<Rightarrow> params" where
  "params_of r = \<lparr>q_id = req_id r, q_account = req_account_id r, q_side = ucast (req_side r),
     q_otype = ucast (req_order_type r), q_stp = ucast (req_stp_mode r), q_price = req_price r,
     q_qty = req_qty r\<rparr>"

definition MatchingEngine_ProcessOrder ::
  "'u MatchingEngine option \<Rightarrow> OrderRequest option \<Rightarrow> adapter matcher \<Rightarrow>
   fault + (bool \<times> 'u MatchingEngine option \<times> adapter matcher)" where
  "MatchingEngine_ProcessOrder engine req st =
     (case req of
        None \<Rightarrow> Inr (False, engine, st)
      | Some r \<Rightarrow>
          rbind (gen_process_order adapter_api (params_of r) st) (\<lambda>(code, st).
          rbind (glue_reports (unat (ME_adapter_trade_count (db st))) 0 (db st) engine) (\<lambda>engine.
          Inr (code = 0, engine, st))))"

definition MatchingEngine_CancelOrder ::
  "'u MatchingEngine option \<Rightarrow> u64 \<Rightarrow> adapter matcher \<Rightarrow> fault + (bool \<times> adapter matcher)" where
  "MatchingEngine_CancelOrder engine i st =
     rbind (gen_cancel_order adapter_api i st) (\<lambda>(code, st). Inr (code = 1, st))"

section \<open>The counters and the callback see exactly the trades\<close>

definition event_of :: "trade \<Rightarrow> TradeEvent" where
  "event_of t = \<lparr>aggressor_id = t_taker t, passive_id = t_maker t, trade_price = t_price t, trade_qty = t_qty t\<rparr>"

definition report_trades :: "trade list \<Rightarrow> 'u MatchingEngine \<Rightarrow> 'u MatchingEngine" where
  "report_trades ts = fold (report_trade \<circ> event_of) ts"

lemma report_trade_counters:
  "total_trades (report_trade t e) = total_trades e + 1"
  "total_volume (report_trade t e) = total_volume e + trade_qty t"
  "on_trade (report_trade t e) = on_trade e"
  "on_trade e = None \<Longrightarrow> user_data (report_trade t e) = user_data e"
  "on_trade e = Some f \<Longrightarrow> user_data (report_trade t e) = f t (user_data e)"
  by (cases "on_trade e"; simp add: report_trade_def Let_def)+

lemma report_trades_simps [simp]:
  "report_trades [] e = e" "report_trades (t # ts) e = report_trades ts (report_trade (event_of t) e)"
  by (simp_all add: report_trades_def)

lemma report_trades_counters:
  "total_trades (report_trades ts e) = total_trades e + of_nat (length ts)"
  "total_volume (report_trades ts e) = total_volume e + of_nat (traded ts)"
  "on_trade (report_trades ts e) = on_trade e"
  "on_trade e = Some f \<Longrightarrow> user_data (report_trades ts e) = fold (f \<circ> event_of) ts (user_data e)"
proof -
  have "total_trades (report_trades ts e) = total_trades e + of_nat (length ts) \<and>
    total_volume (report_trades ts e) = total_volume e + of_nat (traded ts) \<and>
    on_trade (report_trades ts e) = on_trade e \<and>
    (on_trade e = Some f \<longrightarrow> user_data (report_trades ts e) = fold (f \<circ> event_of) ts (user_data e))"
    by (induction ts arbitrary: e)
      (simp_all add: report_trade_counters traded_def event_of_def algebra_simps)
  then show "total_trades (report_trades ts e) = total_trades e + of_nat (length ts)"
    "total_volume (report_trades ts e) = total_volume e + of_nat (traded ts)"
    "on_trade (report_trades ts e) = on_trade e"
    "on_trade e = Some f \<Longrightarrow> user_data (report_trades ts e) = fold (f \<circ> event_of) ts (user_data e)"
    by blast+
qed

lemma glue_reports_run:
  assumes "ts = drop (unat i) us" and "us = take (length us) (g_trades s)" and "length us < 2 ^ 64"
    and "unat i \<le> length us"
  shows "glue_reports (length ts) i s engine = Inr (map_option (report_trades ts) engine)"
  using assms
proof (induction ts arbitrary: i engine)
  case Nil
  then show ?case by (cases engine) simp_all
next
  case (Cons t ts)
  have lt: "unat i < length us" using Cons.prems(1,4) by (metis drop_all leI list.distinct(1))
  have t: "t = us ! unat i" "ts = drop (Suc (unat i)) us"
    using Cons.prems(1) lt by (simp_all add: Cons_nth_drop_Suc[symmetric])
  have gt: "length us \<le> length (g_trades s)" using Cons.prems(2) by (metis length_take min.cobounded1)
  have "g_trades s ! unat i = us ! unat i" using Cons.prems(2) lt by (metis nth_take)
  then have get: "ME_adapter_trade_get s i = Some t"
    using lt gt t(1) by (simp add: ME_adapter_trade_get_def)
  have i1: "unat (i + 1) = Suc (unat i)" using lt Cons.prems(3) by (simp add: unat_word_ariths)
  have "glue_reports (length ts) (i + 1) s (map_option (report_trade (event_of t)) engine) =
    Inr (map_option (report_trades ts) (map_option (report_trade (event_of t)) engine))"
    by (rule Cons.IH) (use t(2) i1 lt Cons.prems in simp_all)
  then show ?case by (simp add: get event_of_def option.map_comp comp_def)
qed

lemma glue_reports_trades:
  assumes "adapter_rep s a"
  shows "glue_reports (unat (ME_adapter_trade_count s)) 0 s engine =
    Inr (map_option (report_trades (s_trades a)) engine)"
proof -
  have k: "take (length (s_trades a)) (g_trades s) = s_trades a" "unat (g_ntrades s) = length (s_trades a)"
    using assms by (simp_all add: layer_rep_def sink_rep_def)
  have "length (s_trades a) < 2 ^ 64" using k(2) unat_u64[of "g_ntrades s"] by simp
  then show ?thesis
    using glue_reports_run[of "s_trades a" 0 "s_trades a" s engine] k
    by (simp add: ME_adapter_trade_count_def)
qed

section \<open>What the public functions do\<close>

abbreviation adapter_books :: "adapter matcher \<Rightarrow> u64 \<Rightarrow> books \<Rightarrow> trade list \<Rightarrow> bool" where
  "adapter_books st \<equiv> shows_books adapter_rep (db st)"

lemma books_empty: "adapter_rep s (empty_store cap) \<Longrightarrow> shows_books adapter_rep s cap (\<lambda>b. []) []"
  unfolding shows_books_def
  by (intro exI[of _ "empty_store cap"])
    (auto simp: empty_store_def tidy_def book_view_def queued_def fun_eq_iff)

lemma Init_refines:
  assumes "pool_chunks (db st) ocs lcs" and "\<forall>i. alloc_ok (db st) i"
  obtains st' where
    "MatchingEngine_Init engine cb ud st = Inr (map_option
       (\<lambda>e. e\<lparr>total_trades := 0, total_volume := 0, on_trade := cb, user_data := ud\<rparr>) engine, st')"
    "adapter_books st' ME_GLUE_CAPACITY (\<lambda>b. []) []"
proof -
  have "unat ME_GLUE_CAPACITY < 2 ^ 32" by (simp add: ME_GLUE_CAPACITY_def)
  from adapter_init_law[OF assms this] obtain s' where
    s': "ME_adapter_init ME_GLUE_CAPACITY (db st) = Inr s'" "adapter_rep s' (empty_store ME_GLUE_CAPACITY)" by blast
  then show thesis using that[of "st\<lparr>db := s'\<rparr>"] books_empty[OF s'(2)]
    by (simp add: MatchingEngine_Init_def)
qed

lemma ProcessOrder_refines:
  assumes "adapter_books st cap B ts0" and "books_ok cap B"
    and "spec_process cap (params_of r) B = (code, B', ts)"
  obtains st' where
    "MatchingEngine_ProcessOrder engine (Some r) st =
       Inr (code = 0, map_option (report_trades ts) engine, st')"
    "adapter_books st' cap B' ts"
proof -
  obtain st' where run: "gen_process_order adapter_api (params_of r) st = Inr (code, st')"
    and v: "adapter_books st' cap B' ts"
    using adapter.process_order_refines[OF assms] by blast
  obtain a where a: "adapter_rep (db st') a" "s_trades a = ts" using v by (auto simp: shows_books_def)
  show thesis using run v glue_reports_trades[OF a(1), of engine] a(2)
    by (intro that[of st']) (simp_all add: MatchingEngine_ProcessOrder_def)
qed

lemma CancelOrder_refines:
  assumes "adapter_books st cap B ts0" and "books_ok cap B" and "spec_cancel i B = (code, B')"
  obtains st' where "MatchingEngine_CancelOrder engine i st = Inr (code = 1, st')"
    "adapter_books st' cap B' []"
  using adapter.cancel_order_refines[OF assms] that by (auto simp: MatchingEngine_CancelOrder_def)

end
