(* ===== verification/System.thy ===== *)
theory System
  imports Glue
begin

text \<open>
  The running program: the states the public functions of \<^verbatim>\<open>matcher_glue.c\<close> can reach from
  zero-initialised static storage, the invariant of all of them, and the library facts the
  program-level properties are read off from.
\<close>

section \<open>Reachable states\<close>

text \<open>
  Static storage before \<^verbatim>\<open>main\<close>: every field zero, no chunk allocated, and an allocator that
  does not run out of memory.
\<close>

definition start_adapter :: adapter where
  "start_adapter =
     \<lparr>ind_order_buckets = None, ind_order_n = 0, bids_root = None, bids_n = 0,
      asks_root = None, asks_n = 0, order_pool_free = None, order_pool_n = 0,
      order_pool_total_allocated = 0, level_pool_free = None, level_pool_n = 0,
      level_pool_total_allocated = 0, order_chunks = None, order_chunks_n = 0,
      order_chunks_cap = 0, level_chunks = None, level_chunks_n = 0, level_chunks_cap = 0,
      order_mem = (\<lambda>_. zero_order), level_mem = (\<lambda>_. zero_level), order_brk = 0, level_brk = 0,
      order_heap = [], level_heap = [], alloc_ok = (\<lambda>_. True), alloc_calls = 0,
      g_cap = 0, g_trades = [], g_ntrades = 0\<rparr>"

definition start_matcher :: "adapter matcher" where
  "start_matcher = \<lparr>db = start_adapter, me_ntrades = 0\<rparr>"

inductive reachable :: "'u MatchingEngine option \<Rightarrow> adapter matcher \<Rightarrow> bool" where
  init: "MatchingEngine_Init engine cb ud start_matcher = Inr (engine', st) \<Longrightarrow> reachable engine' st"
| order: "reachable engine st \<Longrightarrow> MatchingEngine_ProcessOrder engine req st = Inr (ok, engine', st') \<Longrightarrow>
    reachable engine' st'"
| cancel: "reachable engine st \<Longrightarrow> MatchingEngine_CancelOrder engine i st = Inr (ok, st') \<Longrightarrow>
    reachable engine st'"

definition good_state :: "adapter matcher \<Rightarrow> bool" where
  "good_state st \<longleftrightarrow> (\<exists>B ts. adapter_books st ME_GLUE_CAPACITY B ts \<and> books_ok ME_GLUE_CAPACITY B)"

lemma good_stateE:
  assumes "good_state st"
  obtains B ts where "adapter_books st ME_GLUE_CAPACITY B ts" "books_ok ME_GLUE_CAPACITY B"
  using assms by (auto simp: good_state_def)

lemma good_stateI:
  "adapter_books st ME_GLUE_CAPACITY B ts \<Longrightarrow> books_ok ME_GLUE_CAPACITY B \<Longrightarrow> good_state st"
  by (auto simp: good_state_def)

lemma start_chunks: "pool_chunks (db start_matcher) [] []" "\<forall>i. alloc_ok (db start_matcher) i"
  by (simp_all add: start_matcher_def start_adapter_def pool_chunks_def chunk_table_def)

lemma good_init:
  assumes "MatchingEngine_Init engine cb ud start_matcher = Inr (engine', st)"
  shows "good_state st" "adapter_books st ME_GLUE_CAPACITY (\<lambda>b. []) []"
proof -
  obtain st' where "MatchingEngine_Init engine cb ud start_matcher = Inr (map_option
       (\<lambda>e. e\<lparr>total_trades := 0, total_volume := 0, on_trade := cb, user_data := ud\<rparr>) engine, st')"
    "adapter_books st' ME_GLUE_CAPACITY (\<lambda>b. []) []"
    by (rule Init_refines[OF start_chunks])
  with assms show v: "adapter_books st ME_GLUE_CAPACITY (\<lambda>b. []) []" by simp
  show "good_state st" by (rule good_stateI[OF v books_ok_empty])
qed

lemma good_order:
  assumes "good_state st"
  obtains ok engine' st' where "MatchingEngine_ProcessOrder engine req st = Inr (ok, engine', st')"
    "good_state st'"
proof (cases req)
  case None
  then show thesis using that[of False engine st] assms by (simp add: MatchingEngine_ProcessOrder_def)
next
  case (Some r)
  from assms obtain B ts0 where v: "adapter_books st ME_GLUE_CAPACITY B ts0" and ok: "books_ok ME_GLUE_CAPACITY B"
    by (rule good_stateE)
  obtain code B' ts where spec: "spec_process ME_GLUE_CAPACITY (params_of r) B = (code, B', ts)"
    by (metis prod_cases3)
  from v ok spec obtain st' where run: "MatchingEngine_ProcessOrder engine (Some r) st =
      Inr (code = 0, map_option (report_trades ts) engine, st')" and v': "adapter_books st' ME_GLUE_CAPACITY B' ts"
    by (rule ProcessOrder_refines)
  show thesis using that run Some good_stateI[OF v' spec_process_ok[OF ok spec]] by blast
qed

lemma good_cancel:
  assumes "good_state st"
  obtains ok st' where "MatchingEngine_CancelOrder engine i st = Inr (ok, st')" "good_state st'"
proof -
  from assms obtain B ts0 where v: "adapter_books st ME_GLUE_CAPACITY B ts0" and ok: "books_ok ME_GLUE_CAPACITY B"
    by (rule good_stateE)
  obtain code B' where spec: "spec_cancel i B = (code, B')" by (metis prod.exhaust)
  from v ok spec obtain st' where "MatchingEngine_CancelOrder engine i st = Inr (code = 1, st')"
    and v': "adapter_books st' ME_GLUE_CAPACITY B' []"
    by (rule CancelOrder_refines)
  then show thesis using that good_stateI[OF v' spec_cancel_ok[OF ok spec]] by blast
qed

lemma reachable_good: "reachable engine st \<Longrightarrow> good_state st"
proof (induction rule: reachable.induct)
  case (init engine cb ud engine' st)
  then show ?case by (rule good_init)
next
  case (order engine st req ok engine' st')
  then show ?case by (metis good_order Inr_inject prod.inject)
next
  case (cancel engine st i ok st')
  then show ?case by (metis good_cancel Inr_inject prod.inject)
qed

section \<open>What one order reports\<close>

text \<open>The trades \<^verbatim>\<open>ME_adapter_trade_get\<close> returns below \<^verbatim>\<open>ME_adapter_trade_count\<close>.\<close>

definition reported :: "adapter \<Rightarrow> trade list" where
  "reported s = take (unat (g_ntrades s)) (g_trades s)"

lemma reported_books: "adapter_books st cap B ts \<Longrightarrow> reported (db st) = ts"
  by (auto simp: shows_books_def layer_rep_def sink_rep_def reported_def)

text \<open>The book an order is matched against.\<close>

definition contra :: "params \<Rightarrow> book" where
  "contra q = (if q_side q = 0 then Asks else Bids)"

lemma order_runs:
  assumes "adapter_books st cap B ts0" and "books_ok cap B"
    and "gen_process_order adapter_api q st = Inr (code, st')"
  shows "\<exists>B'. spec_process cap q B = (code, B', reported (db st')) \<and>
    adapter_books st' cap B' (reported (db st')) \<and> books_ok cap B'"
proof -
  obtain code' B' ts where spec: "spec_process cap q B = (code', B', ts)" by (metis prod_cases3)
  from adapter.process_order_refines[OF assms(1,2) spec] assms(3)
  have v: "adapter_books st' cap B' ts" and code: "code' = code" by auto
  show ?thesis
    using spec v code reported_books[OF v] spec_process_ok[OF assms(2) spec] by auto
qed

lemma spec_process_trades:
  assumes "spec_process cap q B = (code, B', ts)"
  shows "ts = [] \<or> (\<exists>ms r. match_levels q (contra q) (B (contra q)) (q_qty q) = (ms, r, ts))"
  using assms unfolding spec_process_def spec_side_def contra_def
  by (auto simp: Let_def split: if_splits prod.splits)

lemma spec_trade_ok:
  assumes "spec_process cap q B = (code, B', ts)" and "t \<in> set ts"
  obtains p xs where "(p, xs) \<in> set (B (contra q))" "trade_ok q p xs t"
    "q_otype q = 1 \<or> price_ok (contra q) p (q_price q)"
proof -
  obtain ms r where "match_levels q (contra q) (B (contra q)) (q_qty q) = (ms, r, ts)"
    using spec_process_trades[OF assms(1)] assms(2) by auto
  from match_levels_trade_ok[OF this assms(2)] show thesis using that by auto
qed

end
