(* ===== verification/Samples.thy ===== *)
theory Samples
  imports System
begin

text \<open>
  Concrete orders and the books they leave, on which the witnesses of the program-level
  properties are evaluated.
\<close>

definition buy :: "u64 \<Rightarrow> u64 \<Rightarrow> u64 \<Rightarrow> params" where
  "buy i p n = \<lparr>q_id = i, q_account = 8, q_side = 0, q_otype = 0, q_stp = 0, q_price = p, q_qty = n\<rparr>"

definition sell :: "u64 \<Rightarrow> u64 \<Rightarrow> u64 \<Rightarrow> params" where
  "sell i p n = \<lparr>q_id = i, q_account = 7, q_side = 1, q_otype = 0, q_stp = 0, q_price = p, q_qty = n\<rparr>"

definition one_ask :: books where
  "one_ask = (\<lambda>b. case b of Bids \<Rightarrow> [] | Asks \<Rightarrow> [(100, [new_row (sell 1 100 5) 5])])"

lemma glue_limit: "max_qty ME_GLUE_CAPACITY = 18446725626983" "unat ME_GLUE_CAPACITY = 1000000"
  by (simp_all add: max_qty_def ME_GLUE_CAPACITY_def)

lemmas sample_simps = spec_process_def glue_limit sell_def buy_def book_rows_def level_rows_def
  spec_side_def Let_def one_ask_def new_row_def self_trade_def

lemma sell_rests: "spec_process ME_GLUE_CAPACITY (sell 1 100 5) (\<lambda>b. []) = (0, one_ask, [])"
  by (auto simp: sample_simps fun_eq_iff split: book.split)

definition sold :: trade where
  "sold = \<lparr>t_maker = 1, t_taker = 2, t_price = 100, t_qty = 3\<rparr>"

lemma buy_trades:
  "spec_process ME_GLUE_CAPACITY (buy 2 101 3) one_ask =
     (0, one_ask(Asks := [(100, [new_row (sell 1 100 5) 2])]), [sold])"
  by (simp add: sample_simps min_def sold_def fun_eq_iff split: book.split)

text \<open>A run of the program that has accepted the sell order.\<close>

lemma sample_run:
  obtains engine st where "reachable (engine :: unit MatchingEngine option) st"
    "adapter_books st ME_GLUE_CAPACITY one_ask []" "books_ok ME_GLUE_CAPACITY one_ask"
proof -
  obtain engine st0 where init: "MatchingEngine_Init (None :: unit MatchingEngine option) None () start_matcher = Inr (engine, st0)"
    and v0: "adapter_books st0 ME_GLUE_CAPACITY (\<lambda>b. []) []"
    using Init_refines[OF start_chunks, of "None :: unit MatchingEngine option" None "()"] by blast
  let ?r = "\<lparr>req_id = 1, req_account_id = 7, req_side = 1, req_order_type = 0, req_stp_mode = 0,
    req_price = 100, req_qty = 5\<rparr>"
  have "params_of ?r = sell 1 100 5" by (simp add: params_of_def sell_def)
  then have "spec_process ME_GLUE_CAPACITY (params_of ?r) (\<lambda>b. []) = (0, one_ask, [])"
    by (simp add: sell_rests)
  from v0 books_ok_empty this obtain st1 where "MatchingEngine_ProcessOrder engine (Some ?r) st0 =
      Inr ((0 :: u64) = 0, map_option (report_trades []) engine, st1)"
    and v1: "adapter_books st1 ME_GLUE_CAPACITY one_ask []"
    by (rule ProcessOrder_refines)
  moreover have "reachable engine st0" using init by (rule reachable.init)
  ultimately show thesis
    using that reachable.order v1 spec_process_ok[OF books_ok_empty sell_rests] by blast
qed

text \<open>A run that trades, and one whose order rests.\<close>

lemma sample_trade:
  obtains st st' where "adapter_books st ME_GLUE_CAPACITY one_ask []" "books_ok ME_GLUE_CAPACITY one_ask"
    "gen_process_order adapter_api (buy 2 101 3) st = Inr (0, st')" "reported (db st') = [sold]"
    "adapter_books st' ME_GLUE_CAPACITY (one_ask(Asks := [(100, [new_row (sell 1 100 5) 2])])) [sold]"
proof -
  obtain st where v: "adapter_books st ME_GLUE_CAPACITY one_ask []" "books_ok ME_GLUE_CAPACITY one_ask"
    using sample_run by blast
  obtain st' where run: "gen_process_order adapter_api (buy 2 101 3) st = Inr (0, st')"
    "adapter_books st' ME_GLUE_CAPACITY (one_ask(Asks := [(100, [new_row (sell 1 100 5) 2])])) [sold]"
    using adapter.process_order_refines[OF v buy_trades] by blast
  show thesis using that[OF v run(1) reported_books[OF run(2)] run(2)] .
qed

end
