(* ===== verification/Hand_Engine.thy ===== *)
theory Hand_Engine
  imports Glue
begin

text \<open>
  \<^verbatim>\<open>c/src/matching_engine.c\<close>: the handwritten engine, which works on the data layer directly.
  Its buy and its sell branch are the same text with the two books and the price comparison
  exchanged; here they are one group of definitions with the opposing book \<open>b\<close> as an argument.

  The second half of the theory proves that it agrees with the generated matcher: run on the
  same interface, each of its loop bodies does what the generated one does, so the loops do,
  and the refinement of the generated matcher carries over.
\<close>

section \<open>The C functions\<close>

text \<open>
  The Makefile renames the entry points of this file with the prefix \<^verbatim>\<open>hw_\<close> where both
  engines are linked; the definitions here use those names.  The engine record \<^verbatim>\<open>*engine\<close>, null or not, is part of the state.\<close>

record 'u hand = machine +
  h_engine :: "'u MatchingEngine option"

partial_function (option) c_while :: "('v \<Rightarrow> bool) \<Rightarrow> ('v \<Rightarrow> 'v option) \<Rightarrow> 'v \<Rightarrow> 'v option" where
  [code]: "c_while c f v = (if c v then do { w \<leftarrow> f v; c_while c f w } else Some v)"

definition hw_MatchingEngine_Init ::
  "(TradeEvent \<Rightarrow> 'u \<Rightarrow> 'u) option \<Rightarrow> 'u \<Rightarrow> 'u hand \<Rightarrow> 'u hand option" where
  "hw_MatchingEngine_Init cb ud m = do {
     m \<leftarrow> EngineDb_Init m;
     Some (m\<lparr>h_engine := map_option
       (\<lambda>e. e\<lparr>total_trades := 0, total_volume := 0, on_trade := cb, user_data := ud\<rparr>) (h_engine m)\<rparr>)
   }"

definition min_u64 :: "u64 \<Rightarrow> u64 \<Rightarrow> u64" where
  "min_u64 a b = (if a < b then a else b)"

text \<open>\<^verbatim>\<open>orders_Remove(best, x); ind_order_Remove(x); order_pool_Free(x);\<close>\<close>

definition hand_unlink :: "lref \<Rightarrow> oref \<Rightarrow> 'u hand \<Rightarrow> 'u hand option" where
  "hand_unlink best x m = do {
     let m = PriceLevel_orders_Remove (Some best) (Some x) m;
     m \<leftarrow> EngineDb_ind_order_Remove (Some x) m;
     Some (EngineDb_order_pool_Free (Some x) m)
   }"

text \<open>The counters and the callback, under \<^verbatim>\<open>if (engine)\<close>.\<close>

definition hand_report :: "OrderRequest \<Rightarrow> lref \<Rightarrow> oref \<Rightarrow> u64 \<Rightarrow> 'u hand \<Rightarrow> 'u hand" where
  "hand_report req best passive fill m =
     m\<lparr>h_engine := map_option (report_trade
        \<lparr>aggressor_id = req_id req, passive_id = o_id m passive, trade_price = l_price m best,
         trade_qty = fill\<rparr>) (h_engine m)\<rparr>"

text \<open>
  The reduction of one resting order, with (\<open>report\<close>) or without a trade; the second is the
  decrement policy.
\<close>

definition hand_fill ::
  "bool \<Rightarrow> OrderRequest \<Rightarrow> lref \<Rightarrow> u64 \<Rightarrow> oref \<Rightarrow> 'u hand \<Rightarrow> (u64 \<times> oref option \<times> 'u hand) option" where
  "hand_fill report req best rem passive m = do {
     let fill = min_u64 rem (o_rem m passive);
     let rem = rem - fill;
     let m = set_o_rem passive (o_rem m passive - fill) m;
     let m = set_l_total best (l_total m best - fill) m;
     let m = (if report then hand_report req best passive fill m else m);
     let next_passive = PriceLevel_orders_Next m (Some passive);
     m \<leftarrow> (if o_rem m passive = 0 then hand_unlink best passive m else Some m);
     Some (rem, next_passive, m)
   }"

text \<open>
  The body of the inner loop.  Its \<^verbatim>\<open>break\<close> statements follow an assignment of zero to the
  remaining quantity, which ends the loop as well.
\<close>

definition hand_match_order ::
  "OrderRequest \<Rightarrow> lref \<Rightarrow> u64 \<Rightarrow> oref \<Rightarrow> 'u hand \<Rightarrow> (u64 \<times> oref option \<times> 'u hand) option" where
  "hand_match_order req best rem passive m =
     (if req_account_id req \<noteq> 0 \<and> req_account_id req = o_account m passive \<and> req_stp_mode req = 1
      then Some (0, Some passive, m)
      else if req_account_id req \<noteq> 0 \<and> req_account_id req = o_account m passive \<and>
        (req_stp_mode req = 2 \<or> req_stp_mode req = 3)
      then do {
        let to_cancel = passive;
        let next = PriceLevel_orders_Next m (Some passive);
        m \<leftarrow> hand_unlink best to_cancel m;
        Some (if req_stp_mode req = 3 then 0 else rem, next, m)
      }
      else if req_account_id req \<noteq> 0 \<and> req_account_id req = o_account m passive \<and> req_stp_mode req = 4
      then hand_fill False req best rem passive m
      else hand_fill True req best rem passive m)"

definition hand_match_queue ::
  "OrderRequest \<Rightarrow> lref \<Rightarrow> u64 \<times> oref option \<times> 'u hand \<Rightarrow> (u64 \<times> oref option \<times> 'u hand) option" where
  "hand_match_queue req best =
     c_while (\<lambda>(rem, passive, m). passive \<noteq> None \<and> 0 < rem)
       (\<lambda>(rem, passive, m). case passive of
            None \<Rightarrow> None
          | Some x \<Rightarrow> hand_match_order req best rem x m)"

text \<open>The body of the outer loop; the flag is set where the code breaks out of it.\<close>

definition hand_match_level ::
  "OrderRequest \<Rightarrow> book \<Rightarrow> u64 \<times> bool \<times> 'u hand \<Rightarrow> (u64 \<times> bool \<times> 'u hand) option" where
  "hand_match_level req b = (\<lambda>(rem, brk, m). do {
     best \<leftarrow> EngineDb_book_Best b m;
     case best of
       None \<Rightarrow> Some (rem, True, m)
     | Some best \<Rightarrow>
         if req_order_type req \<noteq> 1 \<and> \<not> price_ok b (l_price m best) (req_price req)
         then Some (rem, True, m)
         else do {
           (rem, _, m) \<leftarrow> hand_match_queue req best (rem, PriceLevel_orders_First m (Some best), m);
           if l_n m best = 0
           then do {
             m \<leftarrow> EngineDb_book_Remove b (Some best) m;
             Some (rem, brk, EngineDb_level_pool_Free (Some best) m)
           }
           else Some (rem, brk, m)
         }
   })"

definition hand_match_levels ::
  "OrderRequest \<Rightarrow> book \<Rightarrow> u64 \<times> bool \<times> 'u hand \<Rightarrow> (u64 \<times> bool \<times> 'u hand) option" where
  "hand_match_levels req b = c_while (\<lambda>(rem, brk, m). 0 < rem \<and> \<not> brk) (hand_match_level req b)"

definition hand_fill_row :: "OrderRequest \<Rightarrow> u64 \<Rightarrow> oref \<Rightarrow> 'u hand \<Rightarrow> 'u hand" where
  "hand_fill_row req rem x m =
     (let m = set_o_id x (req_id req) m;
          m = set_o_account x (req_account_id req) m;
          m = set_o_side x (ucast (req_side req)) m;
          m = set_o_stp x (ucast (req_stp_mode req)) m;
          m = set_o_price x (req_price req) m;
          m = set_o_qty x (req_qty req) m
      in set_o_rem x rem m)"

definition hand_enqueue :: "book \<Rightarrow> bool \<Rightarrow> lref \<Rightarrow> oref \<Rightarrow> 'u hand \<Rightarrow> (bool \<times> 'u hand) option" where
  "hand_enqueue own is_new_lvl lvl ord m = do {
     (ok, m) \<leftarrow> EngineDb_ind_order_InsertMaybe (Some ord)
       (PriceLevel_orders_InsertTail (Some lvl) (Some ord) m);
     if ok then Some (True, m)
     else do {
       let m = PriceLevel_orders_Remove (Some lvl) (Some ord) m;
       m \<leftarrow> (if l_n m lvl = 0 \<and> is_new_lvl
             then do {
               m \<leftarrow> EngineDb_book_Remove own (Some lvl) m;
               Some (EngineDb_level_pool_Free (Some lvl) m)
             }
             else Some m);
       Some (False, EngineDb_order_pool_Free (Some ord) m)
     }
   }"

definition hand_rest :: "OrderRequest \<Rightarrow> book \<Rightarrow> u64 \<Rightarrow> 'u hand \<Rightarrow> (bool \<times> 'u hand) option" where
  "hand_rest req own rem m =
     (case EngineDb_order_pool_Alloc m of
        (None, m) \<Rightarrow> Some (False, m)
      | (Some ord, m) \<Rightarrow> do {
          let m = hand_fill_row req rem ord m;
          found \<leftarrow> EngineDb_book_Find own m (req_price req);
          case found of
            Some lvl \<Rightarrow> hand_enqueue own False lvl ord m
          | None \<Rightarrow>
             (case EngineDb_level_pool_Alloc m of
                (None, m) \<Rightarrow> Some (False, EngineDb_order_pool_Free (Some ord) m)
              | (Some lvl, m) \<Rightarrow> do {
                  m \<leftarrow> EngineDb_book_Insert own (Some lvl) (set_l_price lvl (req_price req) m);
                  hand_enqueue own True lvl ord m
                })
        })"

definition hand_process_side :: "OrderRequest \<Rightarrow> book \<Rightarrow> 'u hand \<Rightarrow> (bool \<times> 'u hand) option" where
  "hand_process_side req b m = do {
     crossed \<leftarrow> (if req_order_type req = 3
        then do {
          best \<leftarrow> EngineDb_book_Best b m;
          Some (case best of None \<Rightarrow> False | Some best \<Rightarrow> price_ok b (l_price m best) (req_price req))
        }
        else Some False);
     if crossed then Some (False, m)
     else do {
       (rem, _, m) \<leftarrow> hand_match_levels req b (req_qty req, False, m);
       if 0 < rem \<and> req_order_type req \<noteq> 2 \<and> req_order_type req \<noteq> 1
       then hand_rest req (opposite b) rem m
       else Some (True, m)
     }
   }"

text \<open>The two branches of the code.\<close>

definition hand_process_buy :: "OrderRequest \<Rightarrow> 'u hand \<Rightarrow> (bool \<times> 'u hand) option" where
  "hand_process_buy req m = hand_process_side req Asks m"

definition hand_process_sell :: "OrderRequest \<Rightarrow> 'u hand \<Rightarrow> (bool \<times> 'u hand) option" where
  "hand_process_sell req m = hand_process_side req Bids m"

definition hw_MatchingEngine_ProcessOrder :: "OrderRequest option \<Rightarrow> 'u hand \<Rightarrow> (bool \<times> 'u hand) option" where
  "hw_MatchingEngine_ProcessOrder req m =
     (case req of
        None \<Rightarrow> Some (False, m)
      | Some r \<Rightarrow>
          if req_qty r = 0 then Some (False, m)
          else if req_side r > 1 \<or> req_order_type r > 3 \<or> req_stp_mode r > 4 then Some (False, m)
          else if req_order_type r \<noteq> 1 \<and> req_price r = 0 then Some (False, m)
          else do {
            dup \<leftarrow> EngineDb_ind_order_Find m (req_id r);
            if dup \<noteq> None then Some (False, m)
            else if req_side r = 0 then hand_process_buy r m
            else hand_process_sell r m
          })"

definition hw_MatchingEngine_CancelOrder :: "u64 \<Rightarrow> 'u hand \<Rightarrow> (bool \<times> 'u hand) option" where
  "hw_MatchingEngine_CancelOrder i m = do {
     ord \<leftarrow> EngineDb_ind_order_Find m i;
     case ord of
       None \<Rightarrow> Some (False, m)
     | Some ord \<Rightarrow>
        (case o_level m ord of
           None \<Rightarrow> Some (False, m)
         | Some lvl \<Rightarrow> do {
             let sd = (ucast (o_side m ord) :: u8);
             m \<leftarrow> hand_unlink lvl ord m;
             if l_n m lvl = 0
             then do {
               m \<leftarrow> (if sd = 0 then EngineDb_bids_Remove (Some lvl) m else EngineDb_asks_Remove (Some lvl) m);
               Some (True, EngineDb_level_pool_Free (Some lvl) m)
             }
             else Some (True, m)
           })
   }"

section \<open>The handwritten engine as a client of the contract\<close>

text \<open>
  What the generated matcher would do on the data layer if its trades went to the engine
  record: the capacity is the number \<open>c\<close> of rows known to be available, and \<open>e\<close> is the engine
  record before the first trade.
\<close>

definition hand_emit :: "u64 \<Rightarrow> u64 \<Rightarrow> u64 \<Rightarrow> u64 \<Rightarrow> 'u hand \<Rightarrow> fault + 'u hand" where
  "hand_emit i j p q m = Inr (m\<lparr>h_engine := map_option (report_trade
     \<lparr>aggressor_id = j, passive_id = i, trade_price = p, trade_qty = q\<rparr>) (h_engine m)\<rparr>)"

abbreviation hand_reset :: "'u MatchingEngine option \<Rightarrow> 'u hand \<Rightarrow> 'u hand" where
  "hand_reset e m \<equiv> m\<lparr>h_engine := e\<rparr>"

definition hand_sink :: "u64 \<Rightarrow> 'u MatchingEngine option \<Rightarrow> 'u hand \<Rightarrow> u64 \<Rightarrow> trade list \<Rightarrow> bool" where
  "hand_sink c e m c' ts \<longleftrightarrow> c' = c \<and> h_engine m = map_option (report_trades ts) e"

abbreviation hand_api :: "u64 \<Rightarrow> 'u MatchingEngine option \<Rightarrow> ('u hand, oref, lref) engine_api" where
  "hand_api c e \<equiv> layer_api (\<lambda>_. c) (hand_reset e) hand_emit"

lemma db_rep_engine [simp]: "db_rep (m\<lparr>h_engine := e\<rparr>) a = db_rep m a" for m :: "'u hand"
  by (simp add: db_rep_def db_rep_parts hash_rep_def order_queue_def queue_total_def price_tree_def)

lemma report_trades_snoc: "report_trades (ts @ [t]) e = report_trade (event_of t) (report_trades ts e)"
  by (simp add: report_trades_def)

interpretation hand: data_layer "\<lambda>_. c" "hand_reset e" hand_emit "hand_sink c e"
  for c :: u64 and e :: "'u MatchingEngine option"
proof (unfold_locales, goal_cases)
  case (1 m' m c' ts)
  then have "h_engine m' = h_engine m" by (cases m; cases m'; simp)
  with 1 show ?case by (simp add: hand_sink_def)
next
  case 2 then show ?case by (simp add: hand_sink_def)
next
  case 3 then show ?case by (cases e) (simp_all add: hand_sink_def)
next
  case 4 show ?case by simp
next
  case (5 m c' ts i j p q)
  then show ?case
    by (cases e) (simp_all add: hand_sink_def hand_emit_def report_trades_snoc event_of_def)
qed

section \<open>Loops in step\<close>

lemma c_while_stop: "\<not> c v \<Longrightarrow> c_while c f v = Some v"
  by (subst c_while.simps) simp

lemma c_while_step: "c v \<Longrightarrow> f v = Some w \<Longrightarrow> c_while c f v = c_while c f w"
  by (subst c_while.simps) simp

text \<open>
  A bounded loop that returns is imitated by an unbounded one whose body does the same on the
  states that occur.
\<close>

lemma while_of_for:
  assumes "for_loop n c f v = Inr w" and "I v"
    and "\<And>v w. I v \<Longrightarrow> c v \<Longrightarrow> f v = Inr w \<Longrightarrow> I w \<and> g (h v) = Some (h w)"
    and "\<And>v. c' (h v) = c v"
  shows "c_while c' g (h v) = Some (h w)"
  using assms(1,2)
proof (induction n arbitrary: v)
  case 0
  then have "\<not> c v" "v = w" by (auto split: if_splits)
  then show ?case using assms(4) by (simp add: c_while_stop)
next
  case (Suc n)
  show ?case
  proof (cases "c v")
    case True
    then obtain u where u: "f v = Inr u" "for_loop n c f u = Inr w"
      using Suc.prems(1) by (auto simp: rbind_eq_Inr)
    with assms(3)[OF Suc.prems(2) True] Suc.IH have "g (h v) = Some (h u)" "c_while c' g (h u) = Some (h w)" by auto
    then show ?thesis using True assms(4) c_while_step by metis
  next
    case False
    then show ?thesis using Suc.prems(1) assms(4) by (simp add: c_while_stop)
  qed
qed

section \<open>One order\<close>

lemma unat_widen: "unat (ucast (x :: u8) :: u64) = unat x"
proof -
  have "unat x < 2 ^ 64" using unsigned_less[of x, where 'a = nat] by simp
  then show ?thesis by (simp add: unsigned_ucast_eq take_bit_nat_eq_self)
qed

lemma widen_codes:
  "(ucast (x :: u8) :: u64) = 0 \<longleftrightarrow> x = 0" "(ucast x :: u64) = 1 \<longleftrightarrow> x = 1"
  "(ucast x :: u64) = 2 \<longleftrightarrow> x = 2" "(ucast x :: u64) = 3 \<longleftrightarrow> x = 3"
  "(ucast x :: u64) = 4 \<longleftrightarrow> x = 4"
  by (simp_all add: word_unat_eq_iff unat_widen)

lemma widen_count: "(ucast (n :: u32) :: u64) = 0 \<longleftrightarrow> n = 0"
proof -
  have "unat n < 2 ^ 64" using unsigned_less[of n, where 'a = nat] by simp
  then have "unat (ucast n :: u64) = unat n" by (simp add: unsigned_ucast_eq take_bit_nat_eq_self)
  then show ?thesis by (metis unat_eq_zero)
qed

lemma widen_less: "(ucast (x :: u8) :: u64) > 1 \<longleftrightarrow> x > 1" "(ucast x :: u64) > 3 \<longleftrightarrow> x > 3"
  "(ucast x :: u64) > 4 \<longleftrightarrow> x > 4"
  by (simp_all add: word_less_nat_alt unat_widen)

lemma params_of_simps [simp]:
  "q_id (params_of r) = req_id r" "q_account (params_of r) = req_account_id r"
  "q_side (params_of r) = ucast (req_side r)" "q_otype (params_of r) = ucast (req_order_type r)"
  "q_stp (params_of r) = ucast (req_stp_mode r)" "q_price (params_of r) = req_price r"
  "q_qty (params_of r) = req_qty r"
  by (simp_all add: params_of_def)

lemmas hand_api_defs = layer_api_simps ME_order_get_id_def ME_order_get_account_def ME_order_get_side_def
  ME_order_get_remaining_def ME_level_get_price_def ME_level_get_count_def ME_hash_find_def
  ME_hash_remove_def ME_hash_insert_def ME_queue_insert_tail_def ME_queue_remove_def ME_queue_first_def
  ME_queue_next_def ME_order_free_def ME_level_free_def

lemma hand_unlink_eq:
  "gen_unlink (hand_api c e) l x st = Inr st' \<Longrightarrow>
   hand_unlink l x (db st) = Some (db st') \<and> me_ntrades st' = me_ntrades st"
  by (auto simp: gen_unlink_def hand_unlink_def hand_api_defs rbind_eq_Inr of_option_def split: option.splits)

text \<open>Reducing the order and then its level is what the interface does in the other order.\<close>

lemma set_remaining_split:
  assumes "o_inlist m x" and "o_level m x = Some l"
  shows "ME_order_set_remaining x (o_rem m x - f) m =
    set_l_total l (l_total m l - f) (set_o_rem x (o_rem m x - f) m)"
  using assms by (simp add: ME_order_set_remaining_def upd_order_def upd_level_def algebra_simps)

lemma hand_emit_eq:
  "me_emit (hand_api c e) i j p q st = Inr st' \<Longrightarrow>
   db st' = (db st)\<lparr>h_engine := map_option (report_trade
     \<lparr>aggressor_id = j, passive_id = i, trade_price = p, trade_qty = q\<rparr>) (h_engine (db st))\<rparr>"
  by (auto simp: me_emit_def hand_emit_def layer_api_def rbind_eq_Inr split: if_splits)

lemma min_u64_eq: "min_u64 = gen_min_u64"
  by (simp add: fun_eq_iff min_u64_def gen_min_u64_def)

lemma hand_fill_eq:
  assumes run: "gen_fill (hand_api c e) (params_of r) l report rem x st = Inr (rem', p', st')"
    and x: "o_inlist (db st) x" "o_level (db st) x = Some l"
  shows "hand_fill report r l rem x (db st) = Some (rem', p', db st')"
proof -
  let ?m = "db st" and ?f = "gen_min_u64 rem (o_rem (db st) x)"
  let ?m1 = "set_l_total l (l_total ?m l - ?f) (set_o_rem x (o_rem ?m x - ?f) ?m)"
  let ?v = "o_rem ?m x - ?f"
  from run obtain st1 st2 where
    e: "(if report then me_emit (hand_api c e) (o_id ?m1 x) (req_id r) (l_price ?m1 l) ?f (st\<lparr>db := ?m1\<rparr>)
         else Inr (st\<lparr>db := ?m1\<rparr>)) = Inr st1"
    and u: "(if ?v = 0 then gen_unlink (hand_api c e) l x st1 else Inr st1) = Inr st2"
    and out: "rem' = rem - ?f" "p' = PriceLevel_orders_Next (db st1) (Some x)" "st' = st2"
    unfolding gen_fill_def me_sub_def
    by (auto simp: rbind_eq_Inr Let_def hand_api_defs set_remaining_split[OF x] split: if_splits)
  have m1: "(if report then hand_report r l x ?f ?m1 else ?m1) = db st1"
    using e by (cases report) (auto simp: hand_report_def dest!: hand_emit_eq)
  have rem1: "o_rem (db st1) x = ?v" unfolding m1[symmetric] by (simp add: hand_report_def)
  have unlink: "(if ?v = 0 then hand_unlink l x (db st1) else Some (db st1)) = Some (db st2)"
    using u by (auto dest: hand_unlink_eq split: if_splits)
  have m1': "(if report then hand_report r l x ?f (set_l_total l (l_total (set_o_rem x ?v ?m) l - ?f) (set_o_rem x ?v ?m))
      else set_l_total l (l_total (set_o_rem x ?v ?m) l - ?f) (set_o_rem x ?v ?m)) = db st1"
    using m1 by (cases report) simp_all
  show ?thesis
    unfolding hand_fill_def Let_def min_u64_eq m1' rem1 unlink out by simp
qed

lemma u8_le_4: "(x :: u8) \<le> 4 \<Longrightarrow> x = 0 \<or> x = 1 \<or> x = 2 \<or> x = 3 \<or> x = 4"
  using u64_le_4[of "ucast x"] by (simp add: widen_codes word_le_nat_alt unat_widen)

lemma hand_match_order_eq:
  assumes run: "gen_match_order (hand_api c e) (params_of r) l rem x st = Inr (rem', p', st')"
    and x: "o_inlist (db st) x" "o_level (db st) x = Some l" and stp: "req_stp_mode r \<le> 4"
  shows "hand_match_order r l rem x (db st) = Some (rem', p', db st')"
proof -
  let ?self = "req_account_id r \<noteq> 0 \<and> req_account_id r = o_account (db st) x"
  have get: "api_order_get_account (hand_api c e) x (db st) = o_account (db st) x"
    by (simp add: hand_api_defs)
  note run = run[unfolded gen_match_order_def get params_of_simps widen_codes]
  consider (fill) "\<not> ?self \<or> req_stp_mode r = 0" | (new) "?self" "req_stp_mode r = 1"
    | (old) "?self" "req_stp_mode r = 2 \<or> req_stp_mode r = 3" | (decr) "?self" "req_stp_mode r = 4"
    using u8_le_4[OF stp] by blast
  then show ?thesis
  proof cases
    case fill
    then have "\<not> (?self \<and> req_stp_mode r \<noteq> 0)" by blast
    with run have "gen_fill (hand_api c e) (params_of r) l True rem x st = Inr (rem', p', st')" by (simp only: conj_assoc if_False)
    with fill show ?thesis using hand_fill_eq[OF _ x] by (auto simp: hand_match_order_def)
  next
    case new
    then show ?thesis using run by (auto simp: hand_match_order_def)
  next
    case old
    have nx: "api_queue_next (hand_api c e) x (db st) = PriceLevel_orders_Next (db st) (Some x)"
      by (simp add: hand_api_defs)
    from old run[unfolded nx] obtain st1 where "gen_unlink (hand_api c e) l x st = Inr st1" "st' = st1"
      "rem' = (if req_stp_mode r = 3 then 0 else rem)" "p' = PriceLevel_orders_Next (db st) (Some x)"
      by (auto simp: Let_def rbind_eq_Inr)
    then show ?thesis using old by (auto simp: hand_match_order_def Let_def dest: hand_unlink_eq)
  next
    case decr
    with run have "gen_fill (hand_api c e) (params_of r) l False rem x st = Inr (rem', p', st')"
      by (auto split: if_splits)
    with decr show ?thesis using hand_fill_eq[OF _ x] by (auto simp: hand_match_order_def)
  qed
qed

section \<open>One level\<close>

definition queue_inv ::
  "u64 \<Rightarrow> 'u MatchingEngine option \<Rightarrow> lref \<Rightarrow> u64 \<times> oref option \<times> 'u hand matcher \<Rightarrow> bool" where
  "queue_inv c e l = (\<lambda>(rem, p, st). rem = 0 \<or> (\<exists>a. synced (layer_rep (hand_sink c e)) st a \<and>
     p = first_of (s_queue a l) \<and> set (s_queue a l) \<subseteq> s_hash a \<and>
     length (s_trades a) + length (s_queue a l) \<le> unat (s_cap a)))"

lemma queue_inv_step:
  assumes inv: "queue_inv c e l (rem, Some x, st)" and rem: "0 < rem" and stp: "req_stp_mode r \<le> 4"
    and run: "gen_match_order (hand_api c e) (params_of r) l rem x st = Inr (rem', p', st')"
  shows "queue_inv c e l (rem', p', st') \<and> hand_match_order r l rem x (db st) = Some (rem', p', db st')"
proof -
  obtain a where s: "synced (layer_rep (hand_sink c e)) st a" and fst: "Some x = first_of (s_queue a l)"
    and h: "set (s_queue a l) \<subseteq> s_hash a" and room: "length (s_trades a) + length (s_queue a l) \<le> unat (s_cap a)"
    using inv rem by (auto simp: queue_inv_def)
  obtain xs where q: "s_queue a l = x # xs" using fst by (cases "s_queue a l") auto
  have r: "db_rep (db st) a" using s by (simp add: synced_def layer_rep_def)
  note wf = db_repD(1)[OF r]
  have own: "o_inlist (db st) x" "o_level (db st) x = Some l" using db_queue_owner[OF r, of x l] q by simp_all
  have d: "distinct (x # xs)" using store_wfD(7)[OF wf, of l] q by simp
  obtain row where row: "s_orders a x = Some row" using store_wfD(8)[OF wf, of l] q by auto
  have xh: "x \<in> s_hash a" and rm: "length (s_trades a) < unat (s_cap a)" and rem': "rem \<noteq> 0"
    using h room q rem by auto
  obtain ys r' ts where mq: "match_queue (params_of r) (lprice a l) (row # map (orow a) xs) rem = (ys, r', ts)"
    by (metis prod_cases3)
  from s q xh row rm rem' mq have "queue_inv c e l (rem', p', st')"
  proof (cases rule: hand.match_order_law)
    case (stay p1 st1 a' row')
    then show ?thesis using run by (simp add: queue_inv_def)
  next
    case (leave rem1 st1 t1 us)
    let ?a = "add_trades t1 (drop_order l x a)"
    have "first_of xs = first_of (s_queue ?a l)" "set (s_queue ?a l) \<subseteq> s_hash ?a"
      "length (s_trades ?a) + length (s_queue ?a l) \<le> unat (s_cap ?a)"
      using q h d room leave(3) by auto
    then have "queue_inv c e l (rem1, first_of xs, st1)"
      unfolding queue_inv_def prod.case using leave(2) by blast
    then show ?thesis using leave(1) run by simp
  qed
  then show ?thesis using hand_match_order_eq[OF run own stp] by simp
qed

lemma hand_match_queue_eq:
  assumes run: "gen_match_queue (hand_api c e) (params_of r) l n (rem, p, st) = Inr (rem', p', st')"
    and inv: "queue_inv c e l (rem, p, st)" and stp: "req_stp_mode r \<le> 4"
  shows "hand_match_queue r l (rem, p, db st) = Some (rem', p', db st')"
  using while_of_for[where h = "\<lambda>(rem, p, st). (rem, p, db st)" and I = "queue_inv c e l",
      OF run[unfolded gen_match_queue_def] inv,
      where g = "\<lambda>(rem, passive, m). case passive of None \<Rightarrow> None | Some x \<Rightarrow> hand_match_order r l rem x m"
        and c' = "\<lambda>(rem, passive, m). passive \<noteq> None \<and> 0 < rem"]
    queue_inv_step[OF _ _ stp]
  by (force simp: hand_match_queue_def split: option.splits)

section \<open>All levels\<close>

definition book_inv ::
  "u64 \<Rightarrow> 'u MatchingEngine option \<Rightarrow> book \<Rightarrow> u64 \<times> bool \<times> 'u hand matcher \<Rightarrow> bool" where
  "book_inv c e b = (\<lambda>(rem, stop, st). rem = 0 \<or> stop \<or>
     (\<exists>a. synced (layer_rep (hand_sink c e)) st a \<and> tidy a \<and>
        length (s_trades a) + length (level_rows (book_view a b)) \<le> unat (s_cap a)))"

lemma book_view_Cons:
  "s_tree a b = l # ls \<Longrightarrow> book_view a b = (lprice a l, map (orow a) (s_queue a l)) # map (level_view a) ls"
  by (simp add: book_view_def level_view_def)

lemma hand_match_level_eq:
  assumes run: "gen_match_level (hand_api c e) (params_of r) b (rem, False, st) = Inr w"
    and s: "synced (layer_rep (hand_sink c e)) st a" and tidy: "tidy a" and stp: "req_stp_mode r \<le> 4"
    and room: "length (s_trades a) + length (level_rows (book_view a b)) \<le> unat (s_cap a)"
  shows "hand_match_level r b (rem, False, db st) = Some (case w of (rem, stop, st) \<Rightarrow> (rem, stop, db st))"
proof -
  have r: "layer_rep (hand_sink c e) (db st) a" and dr: "db_rep (db st) a"
    using s by (simp_all add: synced_def layer_rep_def)
  note wf = db_repD(1)[OF dr]
  have best: "EngineDb_book_Best b (db st) = Some (case s_tree a b of [] \<Rightarrow> None | l # _ \<Rightarrow> Some l)"
    by (rule db_tree_best[OF dr])
  note run = run[unfolded gen_match_level_def prod.case hand.layer_book_api best of_option_simps rbind_simps]
  show ?thesis
  proof (cases "s_tree a b")
    case Nil
    then show ?thesis using run best by (auto simp: hand_match_level_def)
  next
    case (Cons l ls)
    let ?q = "s_queue a l"
    have l: "l \<in> dom (s_levels a)" using Cons store_wfD(13)[OF wf, of b] by auto
    have first: "PriceLevel_orders_First (db st) (Some l) = first_of ?q"
      using db_queue_first[OF dr l] by (simp add: first_of_def)
    have "queue_inv c e l (rem, first_of ?q, st)"
      using s tidy room book_view_Cons[OF Cons] unfolding queue_inv_def prod.case
      by (intro disjI2 exI[of _ a]) (auto simp: tidy_def queued_def)
    note queue = hand_match_queue_eq[OF _ this stp]
    show ?thesis
    proof (cases "req_order_type r \<noteq> 1 \<and> \<not> price_ok b (l_price (db st) l) (req_price r)")
      case True
      then have "w = (rem, True, st)" using run Cons by (simp add: hand_api_defs widen_codes)
      then show ?thesis using Cons best True by (auto simp: hand_match_level_def)
    next
      case False
      obtain rem' p' st1 n where q: "gen_match_queue (hand_api c e) (params_of r) l n (rem, first_of ?q, st) = Inr (rem', p', st1)"
        and tail: "(if l_n (db st1) l = 0
           then rbind (of_option (EngineDb_book_Remove b (Some l) (db st1)))
             (\<lambda>s. Inr (rem', False, st1\<lparr>db := EngineDb_level_pool_Free (Some l) s\<rparr>))
           else Inr (rem', False, st1)) = Inr w"
        using run Cons False
        by (auto simp: hand_api_defs widen_codes widen_count first rbind_eq_Inr split: if_splits)
      show ?thesis
        using False queue[OF q] tail Cons best first
        by (auto simp: hand_match_level_def rbind_eq_Inr of_option_def split: if_splits option.splits)
    qed
  qed
qed

text \<open>The books do not change while the loop only looks at the best level.\<close>

lemma book_inv_step:
  assumes inv: "book_inv c e b (rem, stop, st)" and go: "0 < rem" "\<not> stop" and stp: "req_stp_mode r \<le> 4"
    and run: "gen_match_level (hand_api c e) (params_of r) b (rem, stop, st) = Inr w"
  shows "book_inv c e b w \<and>
    hand_match_level r b (rem, stop, db st) = Some (case w of (rem, stop, st) \<Rightarrow> (rem, stop, db st))"
proof -
  obtain a where s: "synced (layer_rep (hand_sink c e)) st a" and tidy: "tidy a"
    and room: "length (s_trades a) + length (level_rows (book_view a b)) \<le> unat (s_cap a)"
    using inv go by (auto simp: book_inv_def)
  have run': "gen_match_level (hand_api c e) (params_of r) b (rem, False, st) = Inr w" using run go by simp
  have dr: "db_rep (db st) a" using s by (simp add: synced_def layer_rep_def)
  note wf = db_repD(1)[OF dr]
  have best: "EngineDb_book_Best b (db st) = Some (case s_tree a b of [] \<Rightarrow> None | l # _ \<Rightarrow> Some l)"
    by (rule db_tree_best[OF dr])
  have "book_inv c e b w"
  proof (cases "s_tree a b")
    case Nil
    then have "w = (rem, True, st)" using run' best by (simp add: gen_match_level_def hand.layer_book_api)
    then show ?thesis by (simp add: book_inv_def)
  next
    case (Cons l ls)
    note view = book_view_Cons[OF Cons]
    have l: "l \<in> dom (s_levels a)" using Cons store_wfD(13)[OF wf, of b] by auto
    show ?thesis
    proof (cases "q_otype (params_of r) = 1 \<or> price_ok b (lprice a l) (q_price (params_of r))")
      case False
      moreover have "l_price (db st) l = lprice a l" using levels_repD(2)[OF dr l] by simp
      ultimately have "w = (rem, True, st)"
        using run' best Cons by (simp add: gen_match_level_def hand.layer_book_api hand_api_defs)
      then show ?thesis by (simp add: book_inv_def)
    next
      case True
      obtain ys r' ts where m: "match_queue (params_of r) (lprice a l) (map (orow a) (s_queue a l)) rem = (ys, r', ts)"
        by (metis prod_cases3)
      have rm: "length (s_trades a) + length (s_queue a l) \<le> unat (s_cap a)" using room view by simp
      from hand.match_level_refines[OF s tidy Cons True rm m] obtain st' a' where
        w: "w = (r', False, st')" and s': "synced (layer_rep (hand_sink c e)) st' a'" "tidy a'" "s_cap a' = s_cap a"
          "s_trades a' = s_trades a @ ts"
          "book_view a' = (book_view a)(b := (if ys = [] then [] else [(lprice a l, ys)]) @ map (level_view a) ls)"
        using run' by auto
      have "r' = 0 \<or> length (s_trades a') + length (level_rows (book_view a' b)) \<le> unat (s_cap a')"
        using match_queue_left[OF m] match_queue_trades[OF m] room view s'(3-5) by (cases "ys = []") auto
      then show ?thesis using w s'(1,2) unfolding book_inv_def by auto
    qed
  qed
  with hand_match_level_eq[OF run' s tidy stp room] go show ?thesis by simp
qed

lemma hand_match_levels_eq:
  assumes run: "gen_match_levels (hand_api c e) (params_of r) b n (rem, False, st) = Inr (rem', stop', st')"
    and inv: "book_inv c e b (rem, False, st)" and stp: "req_stp_mode r \<le> 4"
  shows "hand_match_levels r b (rem, False, db st) = Some (rem', stop', db st')"
  using while_of_for[where h = "\<lambda>(rem, p, st). (rem, p, db st)" and I = "book_inv c e b",
      OF run[unfolded gen_match_levels_def] inv,
      where g = "hand_match_level r b" and c' = "\<lambda>(rem, brk, m). 0 < rem \<and> \<not> brk"]
    book_inv_step[OF _ _ _ stp]
  by (force simp: hand_match_levels_def)

section \<open>Resting and the whole call\<close>

lemma hand_enqueue_eq:
  assumes "gen_enqueue (hand_api c e) own isnew l x st = Inr (code, st')"
  shows "hand_enqueue own isnew l x (db st) = Some (code = 0, db st')"
  using assms unfolding gen_enqueue_def hand_enqueue_def
  by (auto simp: hand_api_defs hand.layer_book_api rbind_eq_Inr of_option_def widen_count Let_def
      split: if_splits option.splits)

lemma alloc_flags:
  assumes "EngineDb_order_pool_Alloc m = (Some x, m')"
  shows "\<not> o_inlist m' x"
  using assms by (auto simp: EngineDb_order_pool_Alloc_def Let_def split: option.splits)

lemma hand_fill_row_eq:
  assumes "\<not> o_inlist m x"
  shows "gen_fill_row (hand_api c e) (params_of r) rem x m = hand_fill_row r rem x m"
  using assms
  by (simp add: gen_fill_row_def hand_fill_row_def hand_api_defs ME_order_set_id_def ME_order_set_account_def
      ME_order_set_side_def ME_order_set_stp_mode_def ME_order_set_price_def ME_order_set_qty_def
      ME_order_set_remaining_def Let_def split: option.split)

end
