(* ===== verification/Hand_Refinement.thy ===== *)
theory Hand_Refinement
  imports Hand_Engine System
begin

text \<open>
  The handwritten engine computes the same specification as the generated matcher, below the
  quantity limit and the capacity that only the generated matcher checks.
\<close>

section \<open>Processing\<close>

lemma hand_rest_eq:
  assumes run: "gen_rest (hand_api c e) (params_of r) own rem st = Inr (0, st')"
  shows "hand_rest r own rem (db st) = Some (True, db st')"
proof -
  obtain x m1 where alloc: "EngineDb_order_pool_Alloc (db st) = (Some x, m1)"
    and guard: "\<not> c \<le> order_pool_n (db st)"
    using run by (auto simp: gen_rest_def hand_api_defs split: if_splits option.splits prod.splits)
  let ?m2 = "hand_fill_row r rem x m1"
  note fill = hand_fill_row_eq[OF alloc_flags[OF alloc]]
  obtain found where found: "EngineDb_book_Find own ?m2 (req_price r) = Some found"
    using run alloc guard
    by (auto simp: gen_rest_def hand_api_defs hand.layer_book_api fill rbind_eq_Inr of_option_def Let_def
        split: option.splits)
  show ?thesis
  proof (cases found)
    case (Some l)
    then have "gen_enqueue (hand_api c e) own False l x (st\<lparr>db := ?m2\<rparr>) = Inr (0, st')"
      using run alloc guard found
      by (simp add: gen_rest_def hand_api_defs hand.layer_book_api fill Let_def)
    from hand_enqueue_eq[OF this] show ?thesis using alloc found Some
      by (simp add: hand_rest_def Let_def)
  next
    case None
    obtain l m3 where la: "EngineDb_level_pool_Alloc ?m2 = (Some l, m3)" and lg: "\<not> c \<le> level_pool_n ?m2"
      using run alloc guard found None
      by (auto simp: gen_rest_def hand_api_defs hand.layer_book_api fill Let_def
          split: if_splits option.splits prod.splits)
    obtain m4 where ins: "EngineDb_book_Insert own (Some l) (set_l_price l (req_price r) m3) = Some m4"
      and enq: "gen_enqueue (hand_api c e) own True l x (st\<lparr>db := m4\<rparr>) = Inr (0, st')"
      using run alloc guard found None la lg
      by (auto simp: gen_rest_def hand_api_defs hand.layer_book_api fill Let_def rbind_eq_Inr of_option_def
          ME_level_set_price_def split: option.splits)
    from hand_enqueue_eq[OF enq] show ?thesis using alloc found None la ins
      by (simp add: hand_rest_def Let_def)
  qed
qed

lemma hand_process_side_eq:
  assumes run: "gen_process_side (hand_api c e) b (params_of r) st = Inr (code, st')" and code: "code = 0 \<or> code = 6"
    and s: "synced (layer_rep (hand_sink c e)) st a" and tidy: "tidy a" and stp: "req_stp_mode r \<le> 4"
    and room: "length (s_trades a) + length (level_rows (book_view a b)) \<le> unat (s_cap a)"
  shows "hand_process_side r b (db st) = Some (code = 0, db st')"
proof -
  let ?q = "params_of r"
  have dr: "db_rep (db st) a" using s by (simp add: synced_def layer_rep_def)
  obtain best where best: "EngineDb_book_Best b (db st) = Some best" using db_tree_best[OF dr] by blast
  let ?crossed = "req_order_type r = 3 \<and>
    (case best of None \<Rightarrow> False | Some l \<Rightarrow> price_ok b (l_price (db st) l) (req_price r))"
  have check: "(if q_otype ?q = 3
            then rbind (book_best (hand_api c e) b (db st)) (\<lambda>best.
                 case best of
                   None \<Rightarrow> Inr False
                 | Some best \<Rightarrow> Inr (price_ok b (api_level_get_price (hand_api c e) best (db st)) (q_price ?q)))
            else Inr False) = (Inr ?crossed :: fault + bool)"
    by (cases best) (simp_all add: best hand.layer_book_api hand_api_defs widen_codes)
  have check': "(if req_order_type r = 3
        then do {
          best \<leftarrow> EngineDb_book_Best b (db st);
          Some (case best of None \<Rightarrow> False | Some best \<Rightarrow> price_ok b (l_price (db st) best) (req_price r))
        }
        else Some False) = Some ?crossed"
    by (simp add: best)
  note run = run[unfolded gen_process_side_def check rbind_simps]
  show ?thesis
  proof (cases ?crossed)
    case True
    then show ?thesis using run unfolding hand_process_side_def check' by auto
  next
    case False
    then have no: "?crossed = False" by blast
    have inv: "book_inv c e b (req_qty r, False, st)" using s tidy room unfolding book_inv_def by auto
    obtain n rem stop st1 where m: "gen_match_levels (hand_api c e) ?q b n (req_qty r, False, st) = Inr (rem, stop, st1)"
      and tail: "(if 0 < rem \<and> req_order_type r \<noteq> 2 \<and> req_order_type r \<noteq> 1
         then gen_rest (hand_api c e) ?q (opposite b) rem st1 else Inr (0, st1)) = Inr (code, st')"
      using run False by (auto simp: rbind_eq_Inr widen_codes split: if_splits)
    note m' = hand_match_levels_eq[OF m inv stp]
    have "hand_process_side r b (db st) = (if 0 < rem \<and> req_order_type r \<noteq> 2 \<and> req_order_type r \<noteq> 1
       then hand_rest r (opposite b) rem (db st1) else Some (True, db st1))"
      unfolding hand_process_side_def check' no by (simp add: m')
    moreover have "code = 0"
    proof (rule ccontr)
      assume "code \<noteq> 0"
      then have "gen_rest (hand_api c e) ?q (opposite b) rem st1 = Inr (6, st')" using tail code by (auto split: if_splits)
      then show False
        by (auto simp: gen_rest_def gen_enqueue_def rbind_eq_Inr Let_def split: option.splits prod.splits if_splits)
    qed
    ultimately show ?thesis using tail hand_rest_eq by (auto split: if_splits)
  qed
qed


text \<open>What the outside sees of a state of the handwritten engine.\<close>

definition hand_books :: "'u hand \<Rightarrow> u64 \<Rightarrow> books \<Rightarrow> bool" where
  "hand_books m cap B \<longleftrightarrow> (\<exists>a. db_rep m a \<and> tidy a \<and> s_cap a = cap \<and> book_view a = B \<and> s_trades a = [])"

lemma tidy_hash_find:
  assumes r: "db_rep m a" and tidy: "tidy a"
  shows "\<exists>o'. EngineDb_ind_order_Find m i = Some o' \<and>
    (o' \<noteq> None \<longleftrightarrow> i \<in> r_id ` set (book_rows (book_view a)))"
proof (cases "i \<in> r_id ` set (book_rows (book_view a))")
  case True
  then obtain x where "x \<in> s_hash a" "r_id (orow a x) = i"
    unfolding tidy_ids[OF db_repD(1)[OF r] tidy] by auto
  with db_hash_find_hit[OF r, of x] True show ?thesis by auto
next
  case False
  then have "\<forall>x \<in> s_hash a. r_id (orow a x) \<noteq> i"
    unfolding tidy_ids[OF db_repD(1)[OF r] tidy] by auto
  with db_hash_find_miss[OF r] False show ?thesis by auto
qed

lemma hw_process_refines:
  assumes v: "hand_books m cap B" and ok: "books_ok cap B"
    and spec: "spec_process cap (params_of r) B = (code, B', ts)"
    and qty: "req_qty r \<le> max_qty cap" and room: "code \<noteq> 5"
  shows "\<exists>m'. hw_MatchingEngine_ProcessOrder (Some r) m = Some (code = 0, m') \<and> hand_books m' cap B' \<and>
    h_engine m' = map_option (report_trades ts) (h_engine m)"
proof -
  let ?q = "params_of r" and ?b = "contra (params_of r)" and ?e = "h_engine m"
  obtain a where dr: "db_rep m a" and tidy: "tidy a" and a: "s_cap a = cap" "book_view a = B" "s_trades a = []"
    using v by (auto simp: hand_books_def)
  obtain dup where find: "EngineDb_ind_order_Find m (req_id r) = Some dup"
    and dup: "dup \<noteq> None \<longleftrightarrow> req_id r \<in> r_id ` set (book_rows B)"
    using tidy_hash_find[OF dr tidy] a(2) by blast
  have same: "map_option (report_trades []) ?e = ?e" by (cases ?e) simp_all
  have early: ?thesis if "hw_MatchingEngine_ProcessOrder (Some r) m = Some (False, m)" "code \<noteq> 0" "B' = B" "ts = []"
    using that v same by simp
  let ?bad = "req_qty r = 0 \<or> (req_side r > 1 \<or> req_order_type r > 3 \<or> req_stp_mode r > 4) \<or>
    req_order_type r \<noteq> 1 \<and> req_price r = 0"
  show ?thesis
  proof (cases "?bad \<or> dup \<noteq> None")
    case True
    then have "hw_MatchingEngine_ProcessOrder (Some r) m = Some (False, m)"
      unfolding hw_MatchingEngine_ProcessOrder_def by (auto simp: find)
    moreover have "code \<noteq> 0 \<and> B' = B \<and> ts = []"
      using True spec dup by (auto simp: spec_process_def widen_codes widen_less split: if_splits)
    ultimately show ?thesis using early by blast
  next
    case False
    then have stp: "req_stp_mode r \<le> 4" and ty: "q_otype ?q \<le> 3"
      by (auto simp: not_less widen_less(2)[symmetric])
    have new: "q_id ?q \<notin> r_id ` set (book_rows (book_view a))" using False dup a(2) by simp
    have run: "hw_MatchingEngine_ProcessOrder (Some r) m = hand_process_side r ?b m"
      using False find by (auto simp: hw_MatchingEngine_ProcessOrder_def hand_process_buy_def hand_process_sell_def contra_def widen_codes)
    have side: "spec_side ?b ?q (book_view a) = (code, B', ts)"
      and rm: "q_otype ?q = 0 \<or> q_otype ?q = 3 \<Longrightarrow> length (book_rows (book_view a)) < unat (s_cap a)"
      using spec False qty room new a dup
      by (auto simp: spec_process_def contra_def widen_codes widen_less not_less[symmetric] split: if_splits)
    have s: "synced (layer_rep (hand_sink cap ?e)) \<lparr>db = m, me_ntrades = 0\<rparr> a"
      using dr a same by (simp add: synced_def layer_rep_def hand_sink_def)
    have ok': "books_ok (s_cap a) (book_view a)" and q': "q_qty ?q \<le> max_qty (s_cap a)" using ok qty a by simp_all
    obtain st' a' where g: "gen_process_side (hand_api cap ?e) ?b ?q \<lparr>db = m, me_ntrades = 0\<rparr> = Inr (code, st')"
      and s': "synced (layer_rep (hand_sink cap ?e)) st' a'" "tidy a'" "s_cap a' = s_cap a" "s_trades a' = ts" "book_view a' = B'"
      using hand.process_side_refines[OF s tidy a(3) ok' new rm q' ty side] by blast
    have "code = 0 \<or> code = 6" using side by (auto simp: spec_side_def Let_def split: if_splits prod.splits)
    moreover have "length (s_trades a) + length (level_rows (book_view a ?b)) \<le> unat (s_cap a)"
      using ok' a(3) length_book_rows[of "book_view a" ?b] by (simp add: books_ok_def)
    ultimately have h: "hand_process_side r ?b m = Some (code = 0, db st')"
      using hand_process_side_eq[OF g _ s tidy stp] by simp
    have dr': "db_rep (db st') a'" "h_engine (db st') = map_option (report_trades ts) ?e"
      using s' a by (auto simp: synced_def layer_rep_def hand_sink_def)
    have "db_rep (db st') (a'\<lparr>s_trades := []\<rparr>)" using dr'(1) by (intro db_rep_trades) simp_all
    moreover have "tidy (a'\<lparr>s_trades := []\<rparr>)" "book_view (a'\<lparr>s_trades := []\<rparr>) = B'"
      using s'(2,5) by (auto simp: tidy_def book_view_def level_view_def)
    ultimately have "hand_books (db st') cap B'"
      unfolding hand_books_def using s'(3) a(1) by (intro exI[of _ "a'\<lparr>s_trades := []\<rparr>"]) simp
    then show ?thesis using run h dr'(2) by auto
  qed
qed

section \<open>Cancelling\<close>

lemma hand_cancel_eq:
  assumes run: "gen_cancel_order (hand_api c (h_engine m)) i \<lparr>db = m, me_ntrades = 0\<rparr> = Inr (code, st')"
    and v: "hand_books m c B" and ok: "books_ok c B"
  shows "hw_MatchingEngine_CancelOrder i m = Some (code = 1, db st')"
proof -
  obtain a where dr: "db_rep m a" and tidy: "tidy a" and a: "s_cap a = c" "book_view a = B"
    using v by (auto simp: hand_books_def)
  note wf = db_repD(1)[OF dr]
  obtain o' where find: "EngineDb_ind_order_Find m i = Some o'" using tidy_hash_find[OF dr tidy] by blast
  show ?thesis
  proof (cases o')
    case None
    then show ?thesis using run find
      by (auto simp: gen_cancel_order_def hw_MatchingEngine_CancelOrder_def hand_api_defs Let_def)
  next
    case (Some x)
    have "x \<in> s_hash a"
    proof (rule ccontr)
      assume "x \<notin> s_hash a"
      then have "o' = None \<or> (\<exists>y \<in> s_hash a. o' = Some y)"
        using find db_hash_find_hit[OF dr] db_hash_find_miss[OF dr, of i] by (metis option.inject)
      with Some \<open>x \<notin> s_hash a\<close> show False by auto
    qed
    then have "x \<in> queued a" using tidy by (simp add: tidy_def)
    then obtain b l where l: "l \<in> set (s_tree a b)" "x \<in> set (s_queue a l)"
      by (rule level_of_order[OF wf tidy])
    note own = db_queue_owner[OF dr l(2)]
    have "row_ok c b (lprice a l) (orow a x)" using view_levels_ok(2)[OF _ l] ok a by simp
    moreover have "x \<in> dom (s_orders a)" using l(2) store_wfD(8)[OF wf, of l] by blast
    ultimately have "o_side m x = side_code b" using rows_repD(2)[OF dr] by (simp add: row_ok_def)
    then have sd: "(ucast (o_side m x) :: u8) = 0 \<longleftrightarrow> o_side m x = 0" by (cases b) (simp_all add: side_code_def)
    have owner: "api_order_owner (hand_api c (h_engine m)) x m = Some l"
      by (simp add: hand_api_defs ME_order_owner_def own)
    obtain st1 where u: "gen_unlink (hand_api c (h_engine m)) l x \<lparr>db = m, me_ntrades = 0\<rparr> = Inr st1"
      and tail: "(if l_n (db st1) l = 0
         then rbind (if o_side m x = 0 then of_option (EngineDb_bids_Remove (Some l) (db st1))
                     else of_option (EngineDb_asks_Remove (Some l) (db st1)))
           (\<lambda>s. Inr (1, st1\<lparr>db := EngineDb_level_pool_Free (Some l) s\<rparr>))
         else Inr (1, st1)) = Inr (code, st')"
      using run find Some owner
      by (auto simp: gen_cancel_order_def hand_api_defs rbind_eq_Inr Let_def widen_count ME_bids_remove_def
          ME_asks_remove_def split: if_splits)
    show ?thesis
      using hand_unlink_eq[OF u] tail find Some own sd
      by (auto simp: hw_MatchingEngine_CancelOrder_def Let_def rbind_eq_Inr of_option_def
          split: if_splits option.splits)
  qed
qed

lemma hw_cancel_refines:
  assumes v: "hand_books m cap B" and ok: "books_ok cap B" and spec: "spec_cancel i B = (code, B')"
  shows "\<exists>m'. hw_MatchingEngine_CancelOrder i m = Some (code = 1, m') \<and> hand_books m' cap B' \<and>
    h_engine m' = h_engine m"
proof -
  let ?e = "h_engine m" and ?st = "\<lparr>db = m, me_ntrades = 0\<rparr>"
  have same: "map_option (report_trades []) ?e = ?e" by (cases ?e) simp_all
  have "shows_books (layer_rep (hand_sink cap ?e)) (db ?st) cap B []"
    using v same by (force simp: shows_books_def hand_books_def layer_rep_def hand_sink_def)
  from hand.cancel_order_refines[OF this ok spec] obtain st' where
    g: "gen_cancel_order (hand_api cap ?e) i ?st = Inr (code, st')"
    and s': "shows_books (layer_rep (hand_sink cap ?e)) (db st') cap B' []" by blast
  have "hand_books (db st') cap B'" "h_engine (db st') = ?e"
    using s' same by (auto simp: shows_books_def hand_books_def layer_rep_def hand_sink_def)
  with hand_cancel_eq[OF g v ok] show ?thesis by blast
qed

end
