(* ===== verification/Check_Invariants.thy ===== *)
theory Check_Invariants
  imports Hand_Refinement
begin

text \<open>
  The run-time self check \<^verbatim>\<open>MatchingEngine_CheckInvariants\<close> of
  \<^verbatim>\<open>c/src/matching_engine.c\<close> (lines 305-415), and the proof that it passes on every
  database that represents well-formed books.
\<close>

section \<open>The C functions\<close>

text \<open>
  The loop of \<^verbatim>\<open>validate_price_level\<close>; the inner \<open>None\<close> is its \<^verbatim>\<open>return false\<close>, otherwise the
  result is \<^verbatim>\<open>prev\<close>, \<^verbatim>\<open>sum_qty\<close> and \<^verbatim>\<open>count\<close> after the loop.
\<close>

partial_function (option) validate_orders ::
  "'z machine_scheme \<Rightarrow> lref \<Rightarrow> u8 \<Rightarrow> oref option \<Rightarrow> oref option \<Rightarrow> u64 \<Rightarrow> u32 \<Rightarrow>
   (oref option \<times> u64 \<times> u32) option option" where
  [code]: "validate_orders m lvl expected_side ord prev sum_qty cnt =
     (case ord of
        None \<Rightarrow> Some (Some (prev, sum_qty, cnt))
      | Some x \<Rightarrow>
          if o_prev m x \<noteq> prev then Some None
          else if o_level m x \<noteq> Some lvl then Some None
          else if o_price m x \<noteq> l_price m lvl then Some None
          else if o_side m x \<noteq> ucast expected_side then Some None
          else if o_rem m x = 0 \<or> o_rem m x > o_qty m x then Some None
          else if \<not> o_inlist m x then Some None
          else if \<not> o_inhash m x then Some None
          else do {
            found \<leftarrow> EngineDb_ind_order_Find m (o_id m x);
            if found \<noteq> Some x then Some None
            else validate_orders m lvl expected_side (o_next m x) (Some x) (sum_qty + o_rem m x) (cnt + 1)
          })"

definition validate_price_level ::
  "'z machine_scheme \<Rightarrow> lref option \<Rightarrow> u8 \<Rightarrow> u32 \<Rightarrow> (bool \<times> u32) option" where
  "validate_price_level m lvl expected_side acc =
     (case lvl of
        None \<Rightarrow> Some (False, acc)
      | Some l \<Rightarrow>
          if l_n m l = 0 then Some (False, acc)
          else do {
            r \<leftarrow> validate_orders m l expected_side (l_head m l) None 0 0;
            case r of
              None \<Rightarrow> Some (False, acc)
            | Some (prev, sum_qty, cnt) \<Rightarrow>
                if l_tail m l \<noteq> prev then Some (False, acc)
                else if l_n m l \<noteq> cnt then Some (False, acc)
                else if l_total m l \<noteq> sum_qty then Some (False, acc)
                else Some (True, acc + cnt)
          })"

text \<open>The two accumulators are a pair: nodes and orders.\<close>

partial_function (option) validate_bst ::
  "'z machine_scheme \<Rightarrow> lref option \<Rightarrow> lref option \<Rightarrow> u64 \<Rightarrow> u64 \<Rightarrow> bool \<Rightarrow> bool \<Rightarrow> u8 \<Rightarrow> u32 \<times> u32 \<Rightarrow>
   (bool \<times> u32 \<times> u32) option" where
  [code]: "validate_bst m node parent min_price max_price has_min has_max sd acc =
     (case node of
        None \<Rightarrow> Some (True, acc)
      | Some x \<Rightarrow>
          if l_parent m x \<noteq> parent then Some (False, acc)
          else if \<not> l_intree m x then Some (False, acc)
          else if has_min \<and> l_price m x \<le> min_price then Some (False, acc)
          else if has_max \<and> l_price m x \<ge> max_price then Some (False, acc)
          else do {
            (ok, orders) \<leftarrow> validate_price_level m (Some x) sd (snd acc);
            if \<not> ok then Some (False, fst acc, orders)
            else do {
              (ok, acc) \<leftarrow> validate_bst m (l_left m x) (Some x) min_price (l_price m x) has_min True sd
                (fst acc + 1, orders);
              if \<not> ok then Some (False, acc)
              else validate_bst m (l_right m x) (Some x) (l_price m x) max_price True has_max sd acc
            }
          })"

text \<open>The walk along one bucket; the inner \<open>None\<close> is \<^verbatim>\<open>return false\<close>.\<close>

partial_function (option) validate_chain ::
  "'z machine_scheme \<Rightarrow> oref option \<Rightarrow> u32 \<Rightarrow> u32 option option" where
  [code]: "validate_chain m ord hash_entry_count =
     (case ord of
        None \<Rightarrow> Some (Some hash_entry_count)
      | Some x \<Rightarrow>
          if \<not> o_inhash m x then Some None
          else if \<not> o_inlist m x then Some None
          else if o_level m x = None then Some None
          else validate_chain m (o_hnext m x) (hash_entry_count + 1))"

text \<open>The loop over the buckets, with \<open>k\<close> iterations left from bucket \<open>b\<close> on.\<close>

fun validate_buckets ::
  "'z machine_scheme \<Rightarrow> (u32 \<Rightarrow> oref option) \<Rightarrow> nat \<Rightarrow> u32 \<Rightarrow> u32 \<Rightarrow> u32 option option" where
  "validate_buckets m buckets 0 b cnt = Some (Some cnt)"
| "validate_buckets m buckets (Suc k) b cnt = do {
     r \<leftarrow> validate_chain m (buckets b) cnt;
     case r of None \<Rightarrow> Some None | Some cnt \<Rightarrow> validate_buckets m buckets k (b + 1) cnt
   }"

definition MatchingEngine_CheckInvariants :: "'z machine_scheme \<Rightarrow> bool option" where
  "MatchingEngine_CheckInvariants m = do {
     best_bid \<leftarrow> EngineDb_bids_Best m;
     best_ask \<leftarrow> EngineDb_asks_Best m;
     if (case (best_bid, best_ask) of
           (Some bb, Some ba) \<Rightarrow> l_price m bb \<ge> l_price m ba
         | _ \<Rightarrow> False)
     then Some False
     else do {
       (ok, bids_nodes, bids_orders) \<leftarrow> validate_bst m (bids_root m) None 0 0 False False 0 (0, 0);
       if \<not> ok then Some False
       else if bids_nodes \<noteq> bids_n m then Some False
       else do {
         (ok, asks_nodes, asks_orders) \<leftarrow> validate_bst m (asks_root m) None 0 0 False False 1 (0, 0);
         if \<not> ok then Some False
         else if asks_nodes \<noteq> asks_n m then Some False
         else do {
           let total_resting_orders = bids_orders + asks_orders;
           if ind_order_n m \<noteq> total_resting_orders then Some False
           else if order_pool_n m \<noteq> ucast total_resting_orders then Some False
           else if level_pool_n m \<noteq> ucast (bids_n m + asks_n m) then Some False
           else (case ind_order_buckets m of
               None \<Rightarrow> Some True
             | Some buckets \<Rightarrow> do {
                 r \<leftarrow> validate_buckets m buckets (unat ORDER_HASH_BUCKETS) 0 0;
                 case r of
                   None \<Rightarrow> Some False
                 | Some hash_entry_count \<Rightarrow> Some (hash_entry_count = ind_order_n m)
               })
         }
       }
     }
   }"

section \<open>A level passes\<close>

lemma validate_orders_simps [simp]:
  "validate_orders m lvl sd None prev s n = Some (Some (prev, s, n))"
  by (subst validate_orders.simps) simp

lemma validate_orders_run:
  assumes "dll (o_next m) (o_prev m) p prv xs tail None"
    and "\<forall>x \<in> set xs. o_level m x = Some l \<and> o_price m x = l_price m l \<and> o_side m x = ucast sd \<and>
      o_rem m x \<noteq> 0 \<and> o_rem m x \<le> o_qty m x \<and> o_inlist m x \<and> o_inhash m x \<and>
      EngineDb_ind_order_Find m (o_id m x) = Some (Some x)"
  shows "validate_orders m l sd p prv s n =
    Some (Some (tail, s + sum_list (map (o_rem m) xs), n + of_nat (length xs)))"
  using assms
proof (induction xs arbitrary: p prv s n)
  case Nil
  then show ?case by simp
next
  case (Cons x xs)
  then have p: "p = Some x" "o_prev m x = prv" and rest: "dll (o_next m) (o_prev m) (o_next m x) (Some x) xs tail None"
    by simp_all
  note IH = Cons.IH[OF rest]
  have x: "o_level m x = Some l" "o_price m x = l_price m l" "o_side m x = ucast sd" "o_rem m x \<noteq> 0"
    "\<not> o_rem m x > o_qty m x" "o_inlist m x" "o_inhash m x" "EngineDb_ind_order_Find m (o_id m x) = Some (Some x)"
    using Cons.prems(2) by (auto simp: not_less)
  show ?case
    by (subst validate_orders.simps) (simp add: p x IH Cons.prems(2) algebra_simps)
qed

lemma sum_of_nat: "(of_nat (sum_list (map (\<lambda>x. unat (f x)) xs)) :: u64) = sum_list (map f xs)"
  by (induction xs) simp_all

text \<open>What \<open>validate_price_level\<close> needs of a level.\<close>

definition level_passes :: "'z machine_scheme \<Rightarrow> u8 \<Rightarrow> (lref \<Rightarrow> nat) \<Rightarrow> lref \<Rightarrow> bool" where
  "level_passes m sd len l \<longleftrightarrow>
     (\<forall>acc. validate_price_level m (Some l) sd acc = Some (True, acc + of_nat (len l)))"

definition side_u8 :: "book \<Rightarrow> u8" where
  "side_u8 b = (case b of Bids \<Rightarrow> 0 | Asks \<Rightarrow> 1)"

lemma level_passes:
  assumes r: "db_rep m a" and tidy: "tidy a" and ok: "books_ok (s_cap a) (book_view a)" and l: "l \<in> set (s_tree a b)"
  shows "level_passes m (side_u8 b) (\<lambda>l. length (s_queue a l)) l"
proof -
  note wf = db_repD(1)[OF r]
  have ld: "l \<in> dom (s_levels a)" using l store_wfD(13)[OF wf, of b] by blast
  let ?q = "s_queue a l"
  have q: "order_queue m l ?q" and t: "queue_total m l ?q" using r ld by (rule db_queueD)+
  have ne: "?q \<noteq> []" by (rule view_levels_ok(1)[OF ok l])
  have n: "l_n m l = of_nat (length ?q)" "unat (l_n m l) = length ?q"
    using q db_queue_count[OF r ld] by (simp_all add: order_queue_def)
  then have n0: "l_n m l \<noteq> 0" using ne by (metis length_0_conv unat_0)
  have price: "lprice a l = l_price m l" by (rule tree_lprice[OF r l])
  have "\<forall>x \<in> set ?q. o_level m x = Some l \<and> o_price m x = l_price m l \<and> o_side m x = ucast (side_u8 b) \<and>
      o_rem m x \<noteq> 0 \<and> o_rem m x \<le> o_qty m x \<and> o_inlist m x \<and> o_inhash m x \<and>
      EngineDb_ind_order_Find m (o_id m x) = Some (Some x)"
  proof
    fix x assume x: "x \<in> set ?q"
    then have xd: "x \<in> dom (s_orders a)" and xq: "x \<in> queued a"
      using store_wfD(8)[OF wf, of l] by (auto simp: queued_def)
    then have xh: "x \<in> s_hash a" using tidy by (simp add: tidy_def)
    have row: "orow a x = row_at m x" by (rule rows_repD(2)[OF r xd])
    have "row_ok (s_cap a) b (lprice a l) (row_at m x)" using view_levels_ok(2)[OF ok l x] row by simp
    moreover have "EngineDb_ind_order_Find m (o_id m x) = Some (Some x)"
      using db_hash_find_hit[OF r xh] db_hash_ids[OF r xh] by simp
    ultimately show "o_level m x = Some l \<and> o_price m x = l_price m l \<and> o_side m x = ucast (side_u8 b) \<and>
      o_rem m x \<noteq> 0 \<and> o_rem m x \<le> o_qty m x \<and> o_inlist m x \<and> o_inhash m x \<and>
      EngineDb_ind_order_Find m (o_id m x) = Some (Some x)"
      using db_queue_owner[OF r x] rows_repD(4)[OF r xd] xh price
      by (cases b) (auto simp: row_ok_def side_code_def side_u8_def)
  qed
  then have run: "validate_orders m l (side_u8 b) (l_head m l) None 0 0 =
      Some (Some (l_tail m l, sum_list (map (o_rem m) ?q), of_nat (length ?q)))"
    using validate_orders_run[of m "l_head m l" None ?q "l_tail m l" l "side_u8 b" 0 0] q
    by (simp add: order_queue_def)
  have "l_total m l = of_nat (unat (l_total m l))" by simp
  also have "\<dots> = sum_list (map (o_rem m) ?q)"
    unfolding t[unfolded queue_total_def] by (rule sum_of_nat)
  finally show ?thesis using n0 n(1) run by (simp add: level_passes_def validate_price_level_def)
qed

section \<open>A tree passes\<close>

lemma validate_bst_None [simp]: "validate_bst m None par lo hi hlo hhi sd acc = Some (True, acc)"
  by (subst validate_bst.simps) simp

lemma validate_bst_run:
  assumes "tree_at (l_left m) (l_right m) (l_parent m) node par t"
    and "\<forall>x \<in> set_tree t. l_intree m x \<and> level_passes m sd len x"
    and "sorted_wrt (<) (map (l_price m) (inorder t))"
    and "\<forall>x \<in> set_tree t. (hlo \<longrightarrow> lo < l_price m x) \<and> (hhi \<longrightarrow> l_price m x < hi)"
  shows "validate_bst m node par lo hi hlo hhi sd (n, k) =
    Some (True, n + of_nat (size t), k + of_nat (sum_list (map len (inorder t))))"
  using assms
proof (induction t arbitrary: node par lo hi hlo hhi n k)
  case Leaf
  then show ?case by simp
next
  case (Node tl x tr)
  have p: "node = Some x" "l_parent m x = par" and
    sub: "tree_at (l_left m) (l_right m) (l_parent m) (l_left m x) (Some x) tl"
      "tree_at (l_left m) (l_right m) (l_parent m) (l_right m x) (Some x) tr"
    using Node.prems(1) by simp_all
  have ord: "\<forall>y \<in> set_tree tl. l_price m y < l_price m x" "\<forall>y \<in> set_tree tr. l_price m x < l_price m y"
    "sorted_wrt (<) (map (l_price m) (inorder tl))" "sorted_wrt (<) (map (l_price m) (inorder tr))"
    using Node.prems(3) by (auto simp: sorted_wrt_append)
  have lvl: "validate_price_level m (Some x) sd k = Some (True, k + of_nat (len x))" "l_intree m x"
    using Node.prems(2) by (auto simp: level_passes_def)
  have lo: "\<not> (hlo \<and> l_price m x \<le> lo)" "\<not> (hhi \<and> hi \<le> l_price m x)" using Node.prems(4) by auto
  have L: "validate_bst m (l_left m x) (Some x) lo (l_price m x) hlo True sd (n + 1, k + of_nat (len x)) =
      Some (True, n + 1 + of_nat (size tl), k + of_nat (len x) + of_nat (sum_list (map len (inorder tl))))"
    using Node.prems(2,4) ord by (intro Node.IH(1)[OF sub(1)]) auto
  have R: "validate_bst m (l_right m x) (Some x) (l_price m x) hi True hhi sd (n', k') =
      Some (True, n' + of_nat (size tr), k' + of_nat (sum_list (map len (inorder tr))))" for n' k'
    using Node.prems(2,4) ord by (intro Node.IH(2)[OF sub(2)]) auto
  show ?case
    by (subst validate_bst.simps) (simp add: p lvl lo L R)
qed

section \<open>The hash table passes\<close>

lemma validate_chain_None [simp]: "validate_chain m None cnt = Some (Some cnt)"
  by (subst validate_chain.simps) simp

lemma validate_chain_run:
  "chain (o_hnext m) p xs \<Longrightarrow> \<forall>x \<in> set xs. o_inhash m x \<and> o_inlist m x \<and> o_level m x \<noteq> None \<Longrightarrow>
   validate_chain m p cnt = Some (Some (cnt + of_nat (length xs)))"
proof (induction xs arbitrary: p cnt)
  case (Cons x xs)
  from Cons.prems(1) have p: "p = Some x" and c: "chain (o_hnext m) (o_hnext m x) xs" by simp_all
  show ?case
    using Cons.prems(2) by (subst validate_chain.simps) (simp add: p Cons.IH[OF c])
qed simp

text \<open>The first \<open>n\<close> buckets hold the orders whose ids hash below \<open>n\<close>.\<close>

definition hashed_below :: "'z machine_scheme \<Rightarrow> oref set \<Rightarrow> nat \<Rightarrow> nat \<Rightarrow> oref set" where
  "hashed_below m S b n = {x \<in> S. b \<le> unat (hash_order_id (o_id m x)) \<and> unat (hash_order_id (o_id m x)) < n}"

lemma hashed_below_step:
  assumes "b < n" and "n \<le> 2 ^ 32"
  shows "hashed_below m S b n =
    {x \<in> S. hash_order_id (o_id m x) = of_nat b} \<union> hashed_below m S (Suc b) n"
    and "{x \<in> S. hash_order_id (o_id m x) = of_nat b} \<inter> hashed_below m S (Suc b) n = {}"
proof -
  have "unat (of_nat b :: u32) = b" using assms by (simp add: unat_of_nat)
  then have eq: "(h :: u32) = of_nat b \<longleftrightarrow> unat h = b" for h by (auto simp: word_unat_eq_iff)
  have split: "b \<le> h \<and> h < n \<longleftrightarrow> h = b \<or> Suc b \<le> h \<and> h < n" for h :: nat using assms(1) by auto
  show "hashed_below m S b n =
    {x \<in> S. hash_order_id (o_id m x) = of_nat b} \<union> hashed_below m S (Suc b) n"
    unfolding eq hashed_below_def split by blast
  show "{x \<in> S. hash_order_id (o_id m x) = of_nat b} \<inter> hashed_below m S (Suc b) n = {}"
    unfolding eq hashed_below_def disjoint_iff mem_Collect_eq by (metis not_less_eq_eq order_refl)
qed

lemma validate_buckets_run:
  assumes fin: "finite S" and B: "\<forall>b. \<exists>xs. chain (o_hnext m) (B b) xs \<and> set xs = {x \<in> S. hash_order_id (o_id m x) = b}"
    and flags: "\<forall>x \<in> S. o_inhash m x \<and> o_inlist m x \<and> o_level m x \<noteq> None"
    and n: "b + k \<le> 2 ^ 32"
  shows "validate_buckets m B k (of_nat b) cnt = Some (Some (cnt + of_nat (card (hashed_below m S b (b + k)))))"
  using n
proof (induction k arbitrary: b cnt)
  case 0
  have "hashed_below m S b (b + 0) = {}" by (auto simp: hashed_below_def)
  then show ?case by simp
next
  case (Suc k)
  obtain xs where c: "chain (o_hnext m) (B (of_nat b)) xs" and xs: "set xs = {x \<in> S. hash_order_id (o_id m x) = of_nat b}"
    using B by blast
  have run: "validate_chain m (B (of_nat b)) cnt = Some (Some (cnt + of_nat (length xs)))"
    using flags xs by (intro validate_chain_run[OF c]) auto
  have len: "length xs = card (set xs)" using distinct_card[OF chain_distinct[OF c]] by simp
  have "card (hashed_below m S b (b + Suc k)) = length xs + card (hashed_below m S (Suc b) (Suc b + k))"
  proof -
    have "finite (set xs)" "finite (hashed_below m S (Suc b) (Suc b + k))"
      using fin by (simp_all add: hashed_below_def)
    then show ?thesis
      using hashed_below_step[where b = b and n = "b + Suc k" and m = m and S = S] Suc.prems unfolding len xs
      by (simp add: card_Un_disjoint)
  qed
  then show ?case
    using Suc.IH[of "Suc b" "cnt + of_nat (length xs)"] Suc.prems run
    by (simp add: add.commute[of 1] add.assoc)
qed

lemma validate_buckets_pass:
  assumes h: "hash_rep m S" and B: "ind_order_buckets m = Some B"
    and flags: "\<forall>x \<in> S. o_inhash m x \<and> o_inlist m x \<and> o_level m x \<noteq> None"
  shows "validate_buckets m B (unat ORDER_HASH_BUCKETS) 0 0 = Some (Some (ind_order_n m))"
proof -
  have "hashed_below m S 0 (unat ORDER_HASH_BUCKETS) = S"
    using hash_order_id_bound by (auto simp: hashed_below_def)
  moreover have "finite S" "ind_order_n m = of_nat (card S)"
    and "\<forall>b. \<exists>xs. chain (o_hnext m) (B b) xs \<and> set xs = {x \<in> S. hash_order_id (o_id m x) = b}"
    using h B by (auto simp: hash_rep_def)
  moreover have "0 + unat ORDER_HASH_BUCKETS \<le> 2 ^ 32" by (simp add: ORDER_HASH_BUCKETS_def)
  ultimately show ?thesis
    using validate_buckets_run[of S m B 0 "unat ORDER_HASH_BUCKETS" 0] flags by simp
qed

section \<open>The whole check passes\<close>

lemma validate_tree_pass:
  assumes r: "db_rep m a" and tidy: "tidy a" and ok: "books_ok (s_cap a) (book_view a)"
  shows "validate_bst m (root_of b m) None 0 0 False False (side_u8 b) (0, 0) =
    Some (True, count_of b m, of_nat (length (resting a b)))"
proof -
  have tr: "price_tree m (root_of b m) (tree_order b (s_tree a b))" "count_of b m = of_nat (length (s_tree a b))"
    using db_repD(6)[OF r] by (simp_all add: trees_rep_iff)
  then obtain t where t: "tree_at (l_left m) (l_right m) (l_parent m) (root_of b m) None t"
      "inorder t = tree_order b (s_tree a b)"
      "sorted_wrt (<) (map (l_price m) (inorder t))" "\<forall>x \<in> set (inorder t). l_intree m x"
    unfolding price_tree_def by auto
  have len: "size t = length (s_tree a b)"
    using t(2) by (metis length_inorder length_rev tree_order.simps(1,2) book.exhaust)
  have tot: "sum_list (map (\<lambda>l. length (s_queue a l)) (inorder t)) = length (resting a b)"
    using t(2) by (cases b) (simp_all add: resting_def length_concat comp_def rev_map[symmetric])
  have "set_tree t = set (s_tree a b)" using t(2) by (metis set_inorder set_tree_order)
  then have "\<forall>x \<in> set_tree t. l_intree m x \<and> level_passes m (side_u8 b) (\<lambda>l. length (s_queue a l)) x"
    using t(4) level_passes[OF r tidy ok] by (simp add: set_inorder)
  from validate_bst_run[OF t(1) this t(3), of False 0 False 0 0 0] show ?thesis
    by (simp add: len tot tr(2))
qed

lemma ucast_count: "n \<le> unat c \<Longrightarrow> unat c < 2 ^ 32 \<Longrightarrow> (ucast (of_nat n :: u32) :: u64) = of_nat n" for c :: u64
  by (simp add: word_unat_eq_iff unat_of_nat unsigned_ucast_eq take_bit_eq_mod)

lemma check_invariants_pass:
  assumes r: "db_rep m a" and tidy: "tidy a" and ok: "books_ok (s_cap a) (book_view a)"
  shows "MatchingEngine_CheckInvariants m = Some True"
proof -
  note wf = db_repD(1)[OF r]
  have best: "EngineDb_book_Best b m = Some (case s_tree a b of [] \<Rightarrow> None | l # _ \<Rightarrow> Some l)" for b
    by (rule db_tree_best[OF r])
  have apart: "\<not> l_price m bb \<ge> l_price m ba"
    if "s_tree a Bids = bb # bs" "s_tree a Asks = ba # as" for bb bs ba as
  proof -
    have "lprice a bb < lprice a ba"
      using ok that by (auto simp: books_ok_def uncrossed_def book_view_def level_view_def)
    then show ?thesis using tree_lprice[OF r, of bb Bids] tree_lprice[OF r, of ba Asks] that by simp
  qed
  have bids: "validate_bst m (bids_root m) None 0 0 False False 0 (0, 0) =
      Some (True, bids_n m, of_nat (length (resting a Bids)))"
    and asks: "validate_bst m (asks_root m) None 0 0 False False 1 (0, 0) =
      Some (True, asks_n m, of_nat (length (resting a Asks)))"
    using validate_tree_pass[OF r tidy ok, of Bids] validate_tree_pass[OF r tidy ok, of Asks]
    by (simp_all add: side_u8_def)
  have tot: "card (queued a) = length (resting a Bids) + length (resting a Asks)"
    using distinct_card[OF resting_distinct[OF wf]] tidy_resting[OF wf tidy] by simp
  have h: "hash_rep m (queued a)" using db_repD(4)[OF r] tidy by (simp add: tidy_def)
  then have n: "ind_order_n m = of_nat (length (resting a Bids)) + of_nat (length (resting a Asks))"
    by (simp add: hash_rep_def tot)
  have bids_asks: "bids_n m = of_nat (length (s_tree a Bids))" "asks_n m = of_nat (length (s_tree a Asks))"
    using db_repD(6)[OF r] by (simp_all add: trees_rep_def)
  obtain B where B: "ind_order_buckets m = Some B" using h by (auto simp: hash_rep_def)
  have "order_pool_n m = of_nat (card (dom (s_orders a)))" "level_pool_n m = of_nat (card (dom (s_levels a)))"
    using db_repD(3)[OF r] by (simp_all add: pools_rep_def)
  moreover have "card (dom (s_levels a)) = length (s_tree a Bids) + length (s_tree a Asks)"
    using tree_distinct[OF wf] wf tidy by (simp add: tidy_def store_wf_def card_Un_disjoint distinct_card)
  moreover have "ucast (of_nat (card (dom (s_orders a))) :: u32) = (of_nat (card (dom (s_orders a))) :: u64)"
    "ucast (of_nat (card (dom (s_levels a))) :: u32) = (of_nat (card (dom (s_levels a))) :: u64)"
    using store_wfD(1,4,5)[OF wf] by (simp_all add: ucast_count)
  ultimately have pools: "order_pool_n m = ucast (ind_order_n m)" "level_pool_n m = ucast (bids_n m + asks_n m)"
    using tidy bids_asks by (simp_all add: tidy_def tot n)
  have "validate_buckets m B (unat ORDER_HASH_BUCKETS) 0 0 = Some (Some (ind_order_n m))"
  proof (rule validate_buckets_pass[OF h B], rule ballI)
    fix x assume x: "x \<in> queued a"
    then have xd: "x \<in> dom (s_orders a)" "x \<in> s_hash a" using tidy by (simp_all add: tidy_def)
    obtain b l where "x \<in> set (s_queue a l)" using level_of_order[OF wf tidy x] by blast
    then have "o_level m x = Some l" by (rule db_queue_owner[OF r])
    then show "o_inhash m x \<and> o_inlist m x \<and> o_level m x \<noteq> None"
      using rows_repD[OF r xd(1)] x xd by simp
  qed
  with best[of Bids] best[of Asks] apart bids asks n pools B show ?thesis
    by (cases "s_tree a Bids"; cases "s_tree a Asks")
      (simp_all add: MatchingEngine_CheckInvariants_def)
qed

end
