(* ===== verification/Order_Laws.thy ===== *)
theory Order_Laws
  imports Samples Check_Invariants
begin

text \<open>
  What one processed order does, read off the value-level specification: which code it gets,
  what it may trade with, what stays of it, and what a later cancellation undoes.
\<close>

section \<open>Codes\<close>

lemma spec_side_cases:
  assumes "spec_side b q B = (code, B', ts)"
  obtains (post_only) "q_otype q = 3" "B b \<noteq> []" "price_ok b (fst (hd (B b))) (q_price q)"
      "code = 6" "B' = B" "ts = []"
  | (rest) ls r where "match_levels q b (B b) (q_qty q) = (ls, r, ts)" "0 < r" "q_otype q \<noteq> 1" "q_otype q \<noteq> 2"
      "code = 0" "B' = B(b := ls, opposite b := add_order (opposite b) (q_price q) (new_row q r) (B (opposite b)))"
      "q_otype q = 3 \<longrightarrow> B b = [] \<or> \<not> price_ok b (fst (hd (B b))) (q_price q)"
  | (gone) ls r where "match_levels q b (B b) (q_qty q) = (ls, r, ts)" "r = 0 \<or> q_otype q = 1 \<or> q_otype q = 2"
      "code = 0" "B' = B(b := ls)"
      "q_otype q = 3 \<longrightarrow> B b = [] \<or> \<not> price_ok b (fst (hd (B b))) (q_price q)"
proof -
  obtain ls r us where m: "match_levels q b (B b) (q_qty q) = (ls, r, us)" by (metis prod_cases3)
  have "opposite b \<noteq> b" by (cases b) simp_all
  then show thesis
    using assms m that unfolding spec_side_def Let_def
    by (auto simp: word_gt_0 split: if_splits)
qed

lemma spec_process_cases:
  assumes "spec_process cap q B = (code, B', ts)"
  obtains (bad_type) "code = 2" "B' = B" "ts = []" "q_otype q > 3"
  | (bad_param) "code = 3" "B' = B" "ts = []" "q_otype q \<le> 3"
      "q_side q > 1 \<or> q_stp q > 4 \<or> q_qty q = 0 \<or> q_otype q \<noteq> 1 \<and> q_price q = 0 \<or> q_qty q > max_qty cap"
  | (duplicate) "code = 4" "B' = B" "ts = []" "q_otype q \<le> 3" "q_id q \<in> r_id ` set (book_rows B)"
      "q_side q \<le> 1" "q_stp q \<le> 4" "0 < q_qty q" "q_qty q \<le> max_qty cap" "q_otype q = 1 \<or> 0 < q_price q"
  | (no_room) "code = 5" "B' = B" "ts = []" "q_otype q \<le> 3" "q_id q \<notin> r_id ` set (book_rows B)"
      "q_otype q = 0 \<or> q_otype q = 3" "unat cap \<le> length (book_rows B)"
      "q_side q \<le> 1" "q_stp q \<le> 4" "0 < q_qty q" "q_qty q \<le> max_qty cap" "q_otype q = 1 \<or> 0 < q_price q"
  | (taken) "spec_side (contra q) q B = (code, B', ts)" "q_otype q \<le> 3" "q_id q \<notin> r_id ` set (book_rows B)"
      "\<not> ((q_otype q = 0 \<or> q_otype q = 3) \<and> unat cap \<le> length (book_rows B))"
      "q_side q \<le> 1" "q_stp q \<le> 4" "0 < q_qty q" "q_qty q \<le> max_qty cap" "q_otype q = 1 \<or> 0 < q_price q"
proof -
  have *: "\<not> x > y \<longleftrightarrow> x \<le> y" for x y :: u64 by (rule linorder_not_less)
  have z: "x \<noteq> 0 \<longleftrightarrow> 0 < x" for x :: u64 by (simp add: word_gt_0)
  show thesis
  proof (cases "q_otype q > 3")
    case True
    then show thesis using assms bad_type by (simp add: spec_process_def)
  next
    case t: False
    show thesis
    proof (cases "q_side q > 1 \<or> q_stp q > 4 \<or> q_qty q = 0 \<or> q_otype q \<noteq> 1 \<and> q_price q = 0 \<or> q_qty q > max_qty cap")
      case True
      then show thesis using assms t bad_param by (simp add: spec_process_def *)
    next
      case p: False
      then have ok: "q_side q \<le> 1" "q_stp q \<le> 4" "0 < q_qty q" "q_qty q \<le> max_qty cap" "q_otype q = 1 \<or> 0 < q_price q"
        by (auto simp: * z)
      have rest: "(if q_id q \<in> r_id ` set (book_rows B) then (4, B, [])
          else if (q_otype q = 0 \<or> q_otype q = 3) \<and> unat cap \<le> length (book_rows B) then (5, B, [])
          else spec_side (contra q) q B) = (code, B', ts)"
        using assms t p unfolding spec_process_def contra_def if_not_P[OF t] if_not_P[OF p] by simp
      have t': "q_otype q \<le> 3" using t by (simp add: *)
      show thesis
      proof (cases "q_id q \<in> r_id ` set (book_rows B)")
        case True
        then have "code = 4" "B' = B" "ts = []" using rest by simp_all
        then show thesis using t' True ok by (rule duplicate)
      next
        case new: False
        show thesis
        proof (cases "(q_otype q = 0 \<or> q_otype q = 3) \<and> unat cap \<le> length (book_rows B)")
          case True
          then have "code = 5" "B' = B" "ts = []" using rest new by simp_all
          then show thesis using t' new conjunct1[OF True] conjunct2[OF True] ok by (rule no_room)
        next
          case False
          then have "spec_side (contra q) q B = (code, B', ts)" using rest new by (simp only: if_not_P if_False simp_thms)
          then show thesis using t' new False ok by (rule taken)
        qed
      qed
    qed
  qed
qed

lemma spec_rejects:
  assumes "spec_process cap q B = (code, B', ts)" and "code \<noteq> 0"
  shows "B' = B" "ts = []" "code \<in> {2, 3, 4, 5, 6}"
  using assms(1)
  by (cases rule: spec_process_cases; use assms(2) in \<open>auto elim!: spec_side_cases\<close>)+

section \<open>Trades\<close>

text \<open>No resting order of the opposite book belongs to the taker's account.\<close>

definition no_conflict :: "params \<Rightarrow> books \<Rightarrow> bool" where
  "no_conflict q B \<longleftrightarrow> (\<forall>x \<in> set (level_rows (B (contra q))). \<not> self_trade q x)"

lemma spec_process_trade_bound:
  "spec_process cap q B = (code, B', ts) \<Longrightarrow> length ts \<le> length (level_rows (B (contra q)))"
  using spec_process_trades match_levels_trades by fastforce

lemma spec_post_only:
  assumes "spec_process cap q B = (code, B', ts)" and "books_ok cap B" and "q_otype q = 3"
  shows "ts = [] \<and> B' (contra q) = B (contra q)"
  using assms(1)
proof (cases rule: spec_process_cases)
  case taken
  let ?b = "contra q"
  have lv: "levels_ok cap ?b (B ?b)" using assms(2) by (simp add: books_ok_def)
  have stuck: "ls = B ?b \<and> us = []" if "match_levels q ?b (B ?b) (q_qty q) = (ls, r, us)"
    "B ?b = [] \<or> \<not> price_ok ?b (fst (hd (B ?b))) (q_price q)" for ls r us
  proof (cases "B ?b")
    case (Cons l ks)
    then show ?thesis using that assms(3) by (cases l) simp
  qed (use that in simp)
  have own: "opposite ?b \<noteq> ?b" by (cases ?b) simp_all
  from taken(1) show ?thesis
    by (cases rule: spec_side_cases) (use stuck own assms(3) in auto)
qed simp_all

section \<open>Quantities\<close>

lemma rem_sum_mset: "mset xs = mset ys \<Longrightarrow> rem_sum xs = rem_sum ys"
  unfolding rem_sum_def by (metis mset_map sum_mset_sum_list)

lemma rem_sum_add_order: "rem_sum (level_rows (add_order b p x ls)) = rem_sum (level_rows ls) + unat (r_rem x)"
  using rem_sum_mset[of "level_rows (add_order b p x ls)" "x # level_rows ls"]
  by (simp add: add_order_rows)

lemma new_row_simps [simp]: "r_rem (new_row q v) = v" "r_id (new_row q v) = q_id q" "r_price (new_row q v) = q_price q"
  by (simp_all add: new_row_def)

text \<open>
  Without self-trade prevention: the opposite book loses what was traded; the order's own book
  gains the rest of it, unless the order is of a type that never rests.
\<close>

lemma spec_conserves:
  assumes "spec_process cap q B = (0, B', ts)" and "no_conflict q B"
  shows "rem_sum (level_rows (B (contra q))) = rem_sum (level_rows (B' (contra q))) + traded ts"
    "q_otype q \<in> {0, 3} \<Longrightarrow> rem_sum (level_rows (B' (opposite (contra q)))) + traded ts =
       rem_sum (level_rows (B (opposite (contra q)))) + unat (q_qty q)"
    "q_otype q \<in> {1, 2} \<Longrightarrow> B' (opposite (contra q)) = B (opposite (contra q)) \<and> traded ts \<le> unat (q_qty q)"
proof -
  have cons: "unat (q_qty q) = unat r + traded ts \<and>
      rem_sum (level_rows (B (contra q))) = rem_sum (level_rows ls) + traded ts"
    if "match_levels q (contra q) (B (contra q)) (q_qty q) = (ls, r, ts)" for ls r
    using match_levels_conserves[OF that] assms(2) by (simp add: no_conflict_def)
  have *: "rem_sum (level_rows (B (contra q))) = rem_sum (level_rows (B' (contra q))) + traded ts \<and>
    (q_otype q \<in> {0, 3} \<longrightarrow> rem_sum (level_rows (B' (opposite (contra q)))) + traded ts =
       rem_sum (level_rows (B (opposite (contra q)))) + unat (q_qty q)) \<and>
    (q_otype q \<in> {1, 2} \<longrightarrow> B' (opposite (contra q)) = B (opposite (contra q)) \<and> traded ts \<le> unat (q_qty q))"
    using assms(1)
  proof (cases rule: spec_process_cases)
    case taken
    from taken(1) show ?thesis
    proof (cases rule: spec_side_cases)
      case (rest ls r)
      from cons[OF rest(1)] rest(3,4,6) show ?thesis by (auto simp: rem_sum_add_order)
    next
      case (gone ls r)
      from cons[OF gone(1)] gone(2,4) show ?thesis by auto
    qed simp
  qed simp_all
  then show "rem_sum (level_rows (B (contra q))) = rem_sum (level_rows (B' (contra q))) + traded ts"
    "q_otype q \<in> {0, 3} \<Longrightarrow> rem_sum (level_rows (B' (opposite (contra q)))) + traded ts =
       rem_sum (level_rows (B (opposite (contra q)))) + unat (q_qty q)"
    "q_otype q \<in> {1, 2} \<Longrightarrow> B' (opposite (contra q)) = B (opposite (contra q)) \<and> traded ts \<le> unat (q_qty q)"
    by blast+
qed

text \<open>An order that is not filled has exhausted every level within its limit.\<close>

lemma spec_maximal:
  assumes "spec_process cap q B = (0, B', ts)" and "books_ok cap B" and "no_conflict q B"
    and "traded ts < unat (q_qty q)"
  shows "\<forall>(p, xs) \<in> set (B' (contra q)). q_otype q \<noteq> 1 \<and> \<not> price_ok (contra q) p (q_price q)"
proof -
  have ok': "levels_ok cap (contra q) (B' (contra q))"
    using spec_process_ok[OF assms(2,1)] by (simp add: books_ok_def)
  have done': "B' (contra q) = [] \<or> q_otype q \<noteq> 1 \<and> \<not> price_ok (contra q) (fst (hd (B' (contra q)))) (q_price q)"
    using assms(1)
  proof (cases rule: spec_process_cases)
    case taken
    have left: "r \<noteq> 0" if "match_levels q (contra q) (B (contra q)) (q_qty q) = (ls, r, ts)" for ls r
      using match_levels_conserves[OF that] assms(3,4) by (auto simp: no_conflict_def)
    from taken(1) show ?thesis
    proof (cases rule: spec_side_cases)
      case (rest ls r)
      with match_levels_done[OF rest(1) left[OF rest(1)]] show ?thesis by simp
    next
      case (gone ls r)
      with match_levels_done[OF gone(1) left[OF gone(1)]] show ?thesis by simp
    qed simp
  qed simp_all
  show ?thesis
  proof (cases "B' (contra q) = []")
    case False
    with done' levels_ok_worse[OF ok', of "q_price q"] show ?thesis by (auto simp: case_prod_beta)
  qed simp
qed

section \<open>Resting and cancelling\<close>

lemma add_order_tail: "\<exists>xs. (p, xs @ [x]) \<in> set (add_order b p x ls) \<and> (xs = [] \<or> (p, xs) \<in> set ls)"
proof (induction b p x ls rule: add_order.induct)
  case (1 b p x)
  then show ?case by (intro exI[of _ "[]"]) simp
next
  case (2 b p x p' xs ls)
  then show ?case by (auto intro: exI[of _ "[]"])
qed

lemma cancel_level_other:
  assumes "i \<notin> r_id ` set (level_rows ls)" and "\<forall>(p, xs) \<in> set ls. xs \<noteq> []"
  shows "cancel_level i ls = ls"
  using assms
proof (induction ls)
  case (Cons l ls)
  obtain p xs where l: "l = (p, xs)" by (cases l)
  have "filter (\<lambda>x. r_id x \<noteq> i) xs = xs"
    using Cons.prems(1) unfolding l by (intro filter_True) auto
  moreover have "cancel_level i ls = ls" using Cons.prems by (intro Cons.IH) (auto simp: l)
  ultimately show ?case using Cons.prems(2) by (simp add: l cancel_level_def)
qed (simp add: cancel_level_def)

lemma cancel_add_order:
  assumes "r_id x \<notin> r_id ` set (level_rows ls)" and "\<forall>(p, xs) \<in> set ls. xs \<noteq> []"
  shows "cancel_level (r_id x) (add_order b p x ls) = ls"
  using assms
proof (induction ls)
  case Nil
  then show ?case by (simp add: cancel_level_def)
next
  case (Cons l ls)
  obtain p' xs where l: "l = (p', xs)" by (cases l)
  have "r_id y \<noteq> r_id x" if "y \<in> set xs" for y using Cons.prems(1) that unfolding l by (metis UnI1 image_eqI level_rows_simps(2) set_append)
  then have keep: "filter (\<lambda>y. r_id y \<noteq> r_id x) xs = xs" "xs \<noteq> []"
    using Cons.prems(2) by (simp_all add: filter_True l)
  have ls: "cancel_level (r_id x) ls = ls" "cancel_level (r_id x) (add_order b p x ls) = ls"
    using Cons.prems cancel_level_other[of "r_id x" ls] Cons.IH by (auto simp: l)
  show ?case using keep ls by (simp add: l cancel_level_Cons)
qed

lemma match_levels_idle:
  assumes "match_levels q b ls rem = (ms, r, [])" and "levels_ok cap b ls"
    and "\<forall>x \<in> set (level_rows ls). \<not> self_trade q x"
  shows "ms = ls"
proof (cases ls)
  case (Cons l ks)
  obtain p xs where l: "l = (p, xs)" by (cases l)
  obtain x zs where xs: "xs = x # zs" using assms(2) Cons l by (cases xs) (auto simp: levels_ok_Cons)
  have ns: "\<not> self_trade q x" using assms(3) Cons l xs by simp
  have busy: "us \<noteq> []" if "match_queue q p xs rem = (ys, r', us)" "rem \<noteq> 0" for ys r' us
    using that(1)[unfolded xs] by (cases rule: match_queue_ConsE) (use that(2) ns in \<open>auto simp: fill_trade_def\<close>)
  from assms(1)[unfolded Cons l] show ?thesis
  proof (cases rule: match_levels_ConsE)
    case stop
    then show ?thesis using Cons l by simp
  next
    case (clear r1 ts1 us)
    then show ?thesis using busy[OF clear(3,1)] by simp
  next
    case (keep ys)
    then show ?thesis using busy[OF keep(3,1)] by simp
  qed
qed (use assms in simp)

lemma cancel_undoes:
  assumes "spec_process cap q B = (0, B', [])" and "books_ok cap B" and "no_conflict q B"
    and "q_otype q \<in> {0, 3}"
  shows "spec_cancel (q_id q) B' = (1, B)"
  using assms(1)
proof (cases rule: spec_process_cases)
  case taken
  let ?b = "contra q"
  have lv: "levels_ok cap b (B b)" for b using assms(2) by (simp add: books_ok_def)
  have ne: "\<forall>(p, xs) \<in> set (B b). xs \<noteq> []" for b using lv[of b] by (auto simp: levels_ok_def)
  have new: "q_id q \<notin> r_id ` set (level_rows (B b))" for b
    using taken(3) by (cases b) (auto simp: book_rows_def)
  from taken(1) show ?thesis
  proof (cases rule: spec_side_cases)
    case (rest ls r)
    have idle: "ls = B ?b" using match_levels_idle[OF rest(1) lv] assms(3) by (simp add: no_conflict_def)
    have B': "B' = B(opposite ?b := add_order (opposite ?b) (q_price q) (new_row q r) (B (opposite ?b)))"
      using rest(6) idle by (simp add: fun_eq_iff)
    have "q_id q \<in> r_id ` set (book_rows B')"
    proof (rule image_eqI)
      have "new_row q r \<in> set (level_rows (B' (opposite ?b)))"
        using arg_cong[OF add_order_rows, of set_mset "opposite ?b" "q_price q" "new_row q r" "B (opposite ?b)"]
        by (simp add: B')
      then show "new_row q r \<in> set (book_rows B')" by (simp add: set_book_rows[of _ "opposite ?b"])
    qed simp
    moreover have "cancel_level (q_id q) (B' b) = B b" for b
      using cancel_level_other[OF new ne, of b]
        cancel_add_order[of "new_row q r" "B (opposite ?b)" "opposite ?b" "q_price q"] new ne
      by (cases "b = opposite ?b") (simp_all add: B')
    ultimately show ?thesis by (simp add: spec_cancel_def)
  next
    case (gone ls r)
    have "r \<noteq> 0" using match_levels_conserves[OF gone(1)] assms(3) taken(7)
      by (auto simp: no_conflict_def word_gt_0 unsigned_eq_0_iff)
    then show ?thesis using gone(2) assms(4) by auto
  qed simp
qed simp_all

section \<open>Acceptance\<close>

lemma spec_accepts:
  assumes "spec_process cap q B = (code, B', ts)"
  shows "code = 0 \<longleftrightarrow> q_otype q \<le> 3 \<and> q_side q \<le> 1 \<and> q_stp q \<le> 4 \<and> 0 < q_qty q \<and> q_qty q \<le> max_qty cap \<and>
    (q_otype q = 1 \<or> 0 < q_price q) \<and> q_id q \<notin> r_id ` set (book_rows B) \<and>
    \<not> ((q_otype q = 0 \<or> q_otype q = 3) \<and> unat cap \<le> length (book_rows B)) \<and>
    \<not> (q_otype q = 3 \<and> B (contra q) \<noteq> [] \<and> price_ok (contra q) (fst (hd (B (contra q)))) (q_price q))"
  using assms
proof (cases rule: spec_process_cases)
  case taken
  from taken(1) show ?thesis
    by (cases rule: spec_side_cases) (use taken(2-9) in auto)
qed (auto simp: word_gt_0 not_le)

lemma spec_never_rests:
  assumes "spec_process cap q B = (0, B', ts)" and "books_ok cap B" and "q_otype q \<in> {1, 2}"
  shows "q_id q \<notin> r_id ` set (book_rows B') \<and> B' (opposite (contra q)) = B (opposite (contra q))"
  using assms(1)
proof (cases rule: spec_process_cases)
  case taken
  from taken(1) show ?thesis
  proof (cases rule: spec_side_cases)
    case (gone ls r)
    from match_books_ok(2)[OF assms(2) gone(1)] taken(3) gone(4) show ?thesis by auto
  qed (use assms(3) in auto)
qed simp_all

section \<open>More sample orders\<close>

definition post_only :: "params \<Rightarrow> params" where
  "post_only q = q\<lparr>q_otype := 3\<rparr>"

definition ioc :: "params \<Rightarrow> params" where
  "ioc q = q\<lparr>q_otype := 2\<rparr>"

lemma dup_rejected: "spec_process ME_GLUE_CAPACITY (sell 1 105 9) one_ask = (4, one_ask, [])"
  by (auto simp: sample_simps fun_eq_iff split: book.split)

lemma post_only_rejected: "spec_process ME_GLUE_CAPACITY (post_only (buy 2 101 3)) one_ask = (6, one_ask, [])"
  by (auto simp: post_only_def sample_simps fun_eq_iff split: book.split)

lemma ioc_sweeps:
  "spec_process ME_GLUE_CAPACITY (ioc (buy 2 101 9)) one_ask =
     (0, \<lambda>b. [], [\<lparr>t_maker = 1, t_taker = 2, t_price = 100, t_qty = 5\<rparr>])"
  by (auto simp: ioc_def sample_simps min_def fun_eq_iff split: book.split)

lemma buy_rests:
  "spec_process ME_GLUE_CAPACITY (buy 2 99 3) one_ask = (0, one_ask(Bids := [(99, [new_row (buy 2 99 3) 3])]), [])"
  by (auto simp: sample_simps fun_eq_iff split: book.split)

lemma buy_no_conflict: "no_conflict (buy i p n) one_ask"
  by (simp add: no_conflict_def contra_def sample_simps)

definition careful :: "params \<Rightarrow> params" where
  "careful q = q\<lparr>q_stp := 1\<rparr>"

lemma careful_trades:
  "spec_process ME_GLUE_CAPACITY (careful (buy 2 101 3)) one_ask =
     (0, one_ask(Asks := [(100, [new_row (sell 1 100 5) 2])]), [sold])"
  by (simp add: careful_def sample_simps min_def sold_def fun_eq_iff split: book.split)

section \<open>Who trades and where an order rests\<close>

lemma spec_no_self:
  assumes "spec_process cap q B = (code, B', ts)" and "books_ok cap B" and "t \<in> set ts"
    and "x \<in> set (book_rows B)" and "t_maker t = r_id x"
  shows "\<not> self_trade q x"
proof -
  obtain p xs where p: "(p, xs) \<in> set (B (contra q))" "trade_ok q p xs t"
    using assms(1,3) by (rule spec_trade_ok)
  then obtain y where y: "y \<in> set xs" "t_maker t = r_id y" "\<not> self_trade q y" by (auto simp: trade_ok_def)
  have "y \<in> set (level_rows (B (contra q)))" using p(1) y(1) by (force simp: level_rows_def)
  then have "y \<in> set (book_rows B)" by (simp add: set_book_rows[of B "contra q"])
  moreover have "inj_on r_id (set (book_rows B))" using assms(2) by (simp add: books_ok_def distinct_map)
  ultimately have "x = y" using assms(4,5) y(2) by (metis inj_onD)
  then show ?thesis using y(3) by simp
qed

lemma spec_rests_last:
  assumes "spec_process cap q B = (0, B', ts)" and "books_ok cap B" and "q_id q \<in> r_id ` set (book_rows B')"
  shows "\<exists>xs r. (q_price q, xs @ [new_row q r]) \<in> set (B' (opposite (contra q))) \<and> 0 < r \<and> r \<le> q_qty q \<and>
    (xs = [] \<or> (q_price q, xs) \<in> set (B (opposite (contra q))))"
  using assms(1)
proof (cases rule: spec_process_cases)
  case taken
  from taken(1) show ?thesis
  proof (cases rule: spec_side_cases)
    case (rest ls r)
    from add_order_tail[of "q_price q" "new_row q r" "opposite (contra q)" "B (opposite (contra q))"]
      match_levels_le[OF rest(1)] rest(2) show ?thesis by (auto simp: rest(6))
  next
    case (gone ls r)
    with match_books_ok(2)[OF assms(2) gone(1)] taken(3) assms(3) have False by auto
    then show ?thesis ..
  qed simp
qed simp_all

section \<open>Price-time priority\<close>

text \<open>
  The rows \<open>rows\<close> are taken in turn: those at the front are used up, each in one trade for all
  it has at its price (in none when self-trade prevention applies to it), the next one possibly for a
  part, and the others stay as they were: \<open>stay\<close>.
\<close>

definition whole_deals :: "params \<Rightarrow> order_row list \<Rightarrow> (u64 \<times> u64 \<times> u64) list" where
  "whole_deals q xs = map (\<lambda>x. (r_id x, r_price x, r_rem x)) (filter (\<lambda>x. \<not> self_trade q x) xs)"

definition in_turn :: "params \<Rightarrow> order_row list \<Rightarrow> order_row list \<Rightarrow> trade list \<Rightarrow> bool" where
  "in_turn q rows stay ts \<longleftrightarrow> (let deals = map (\<lambda>t. (t_maker t, t_price t, t_qty t)) ts in
     (\<exists>xs. rows = xs @ stay \<and> deals = whole_deals q xs) \<or>
     (\<exists>xs y zs n. rows = xs @ y # zs \<and> 0 < n \<and> n < r_rem y \<and> stay = y\<lparr>r_rem := r_rem y - n\<rparr> # zs \<and>
        deals = whole_deals q xs @ (if self_trade q y then [] else [(r_id y, r_price y, n)])))"

lemma in_turn_none: "in_turn q rows rows []"
  by (simp add: in_turn_def whole_deals_def)

lemma in_turn_part:
  assumes "0 < n" and "n < r_rem y" and "r_price y = p"
  shows "in_turn q (y # zs) (y\<lparr>r_rem := r_rem y - n\<rparr> # zs) (fill_trade q p y n)"
  unfolding in_turn_def Let_def
  by (rule disjI2, rule exI[of _ "[]"]) (use assms in \<open>auto simp: whole_deals_def fill_trade_def\<close>)

lemma whole_deals_append: "whole_deals q (xs @ ys) = whole_deals q xs @ whole_deals q ys"
  by (simp add: whole_deals_def)

lemma in_turn_after:
  assumes "in_turn q rows stay us" and "map (\<lambda>t. (t_maker t, t_price t, t_qty t)) ts = whole_deals q ws"
  shows "in_turn q (ws @ rows) stay (ts @ us)"
  using assms(1) unfolding in_turn_def Let_def
proof (elim disjE exE conjE)
  fix xs assume "rows = xs @ stay" "map (\<lambda>t. (t_maker t, t_price t, t_qty t)) us = whole_deals q xs"
  then show "(\<exists>vs. ws @ rows = vs @ stay \<and> map (\<lambda>t. (t_maker t, t_price t, t_qty t)) (ts @ us) = whole_deals q vs) \<or>
    (\<exists>vs y zs n. ws @ rows = vs @ y # zs \<and> 0 < n \<and> n < r_rem y \<and> stay = y\<lparr>r_rem := r_rem y - n\<rparr> # zs \<and>
      map (\<lambda>t. (t_maker t, t_price t, t_qty t)) (ts @ us) = whole_deals q vs @ (if self_trade q y then [] else [(r_id y, r_price y, n)]))"
    using assms(2) by (intro disjI1 exI[of _ "ws @ xs"]) (simp add: whole_deals_append)
next
  fix xs y zs n assume "rows = xs @ y # zs" "0 < n" "n < r_rem y" "stay = y\<lparr>r_rem := r_rem y - n\<rparr> # zs"
    "map (\<lambda>t. (t_maker t, t_price t, t_qty t)) us = whole_deals q xs @ (if self_trade q y then [] else [(r_id y, r_price y, n)])"
  then show "(\<exists>vs. ws @ rows = vs @ stay \<and> map (\<lambda>t. (t_maker t, t_price t, t_qty t)) (ts @ us) = whole_deals q vs) \<or>
    (\<exists>vs y zs n. ws @ rows = vs @ y # zs \<and> 0 < n \<and> n < r_rem y \<and> stay = y\<lparr>r_rem := r_rem y - n\<rparr> # zs \<and>
      map (\<lambda>t. (t_maker t, t_price t, t_qty t)) (ts @ us) = whole_deals q vs @ (if self_trade q y then [] else [(r_id y, r_price y, n)]))"
    using assms(2) by (intro disjI2 exI[of _ "ws @ xs"] exI[of _ y] exI[of _ zs] exI[of _ n]) (simp add: whole_deals_append)
qed

lemma in_turn_more: "in_turn q rows stay ts \<Longrightarrow> in_turn q (rows @ zs) (stay @ zs) ts"
  unfolding in_turn_def Let_def by (elim disjE exE conjE) (fastforce, fastforce)

lemma in_turn_all: "in_turn q rows [] ts \<longleftrightarrow> map (\<lambda>t. (t_maker t, t_price t, t_qty t)) ts = whole_deals q rows"
  by (auto simp: in_turn_def Let_def)

lemma match_queue_in_turn:
  "match_queue q p xs rem = (ys, r, ts) \<Longrightarrow> \<forall>x \<in> set xs. r_price x = p \<Longrightarrow> in_turn q xs ys ts"
proof (induction xs arbitrary: rem ts)
  case Nil
  then show ?case by (simp add: in_turn_none)
next
  case (Cons x xs)
  have p: "r_price x = p" "\<forall>x \<in> set xs. r_price x = p" using Cons.prems(2) by simp_all
  have gone: "in_turn q (x # xs) ys (us @ ws)"
    if "in_turn q xs ys ws" "map (\<lambda>t. (t_maker t, t_price t, t_qty t)) us = whole_deals q [x]" for us ws
    using in_turn_after[OF that] by simp
  from Cons.prems(1) show ?case
  proof (cases rule: match_queue_ConsE)
    case stop
    then show ?thesis by (simp add: in_turn_none)
  next
    case drop
    have "in_turn q xs ys ts" by (rule Cons.IH[OF drop(4) p(2)])
    from gone[OF this, of "[]"] show ?thesis using drop by (simp add: whole_deals_def)
  next
    case both
    from gone[of "[]" "[]"] show ?thesis using both by (simp add: whole_deals_def in_turn_none)
  next
    case (full us)
    have "in_turn q xs ys us" by (rule Cons.IH[OF full(4) p(2)])
    from gone[OF this, of "fill_trade q p x (r_rem x)"] show ?thesis using full p by (simp add: whole_deals_def fill_trade_def)
  next
    case part
    have "0 < rem" using part(1) by (simp add: word_gt_0)
    then show ?thesis using in_turn_part[OF _ part(3) p(1), of q xs] part by simp
  qed
qed

lemma match_levels_in_turn:
  "match_levels q b ls rem = (ms, r, ts) \<Longrightarrow> \<forall>(p, xs) \<in> set ls. \<forall>x \<in> set xs. r_price x = p \<Longrightarrow> in_turn q (level_rows ls) (level_rows ms) ts"
proof (induction ls arbitrary: rem ts)
  case Nil
  then show ?case by (simp add: in_turn_none)
next
  case (Cons l ls)
  obtain p xs where l: "l = (p, xs)" by (cases l)
  have px: "\<forall>x \<in> set xs. r_price x = p" "\<forall>(p, xs) \<in> set ls. \<forall>x \<in> set xs. r_price x = p" using Cons.prems(2) by (auto simp: l)
  from Cons.prems(1)[unfolded l] show ?case unfolding l level_rows_simps
  proof (cases rule: match_levels_ConsE)
    case stop
    then show "in_turn q (xs @ level_rows ls) (level_rows ms) ts" by (simp add: in_turn_none)
  next
    case (clear r1 ts1 us)
    have "map (\<lambda>t. (t_maker t, t_price t, t_qty t)) ts1 = whole_deals q xs"
      using match_queue_in_turn[OF clear(3) px(1)] by (simp add: in_turn_all)
    then show "in_turn q (xs @ level_rows ls) (level_rows ms) ts"
      using in_turn_after[OF Cons.IH[OF clear(4) px(2)]] clear(5) by simp
  next
    case (keep ys)
    then show "in_turn q (xs @ level_rows ls) (level_rows ms) ts"
      using in_turn_more[OF match_queue_in_turn[OF keep(3) px(1)], of "level_rows ls"] by simp
  qed
qed

lemma spec_process_in_turn:
  assumes s: "spec_process cap q B = (code, B', ts)" and ok: "books_ok cap B"
  shows "in_turn q (level_rows (B (contra q))) (level_rows (B' (contra q))) ts"
  using s
proof (cases rule: spec_process_cases)
  case taken
  have px: "\<forall>(p, xs) \<in> set (B (contra q)). \<forall>x \<in> set xs. r_price x = p"
    using ok by (fastforce simp: books_ok_def levels_ok_def row_ok_def)
  have own: "opposite (contra q) \<noteq> contra q" by (cases "contra q") simp_all
  from taken(1) show ?thesis
    by (cases rule: spec_side_cases) (use match_levels_in_turn[OF _ px] own in_turn_none in auto)
qed (simp_all add: in_turn_none)

lemma spec_process_best_first:
  assumes s: "spec_process cap q B = (code, B', ts)" and ok: "books_ok cap B"
  shows "sorted_wrt (\<lambda>t u. \<not> better (contra q) (t_price u) (t_price t)) ts"
  using spec_process_trades[OF s]
proof (elim disjE exE)
  fix ms r
  assume "match_levels q (contra q) (B (contra q)) (q_qty q) = (ms, r, ts)"
  moreover have "sorted_wrt (better (contra q)) (map fst (B (contra q)))"
    using ok by (simp add: books_ok_def levels_ok_def)
  ultimately show ?thesis by (rule match_levels_best_first)
qed simp

end
