(* ===== verification/Hand_System.thy ===== *)
theory Hand_System
  imports Order_Laws
begin

text \<open>
  The handwritten engine as a running program: initialisation, the states it reaches below the
  limits that only the generated matcher checks, and the run-time self check on them.
\<close>

section \<open>Initialisation\<close>

lemma engine_more: "machine.more (m' :: 'u hand) = machine.more m \<Longrightarrow> h_engine m' = h_engine m"
  by (cases m'; cases m) simp

lemma hand_init:
  assumes ch: "pool_chunks m ocs lcs" and ok: "\<forall>i. alloc_ok m i" and cap: "unat cap \<le> 500000"
  shows "\<exists>m'. hw_MatchingEngine_Init cb ud m = Some m' \<and> hand_books m' cap (\<lambda>b. []) \<and>
    h_engine m' = map_option
      (\<lambda>e. e\<lparr>total_trades := 0, total_volume := 0, on_trade := cb, user_data := ud\<rparr>) (h_engine m)"
proof -
  obtain m1 fs ls where init: "EngineDb_Init m = Some m1" and f: "fresh_db m1 fs ls"
    and n: "order_pool_total_allocated m1 = ORDER_CHUNK_SIZE" "level_pool_total_allocated m1 = LEVEL_CHUNK_SIZE"
    and more: "machine.more m1 = machine.more m"
    using Init_law[OF ch ok] by blast
  let ?e = "map_option (\<lambda>e. e\<lparr>total_trades := 0, total_volume := 0, on_trade := cb, user_data := ud\<rparr>) (h_engine m)"
  have f': "fresh_db (m1\<lparr>h_engine := ?e\<rparr>) fs ls" using f by (simp add: fresh_db_def)
  have "unat ORDER_CHUNK_SIZE = 5000000" "unat LEVEL_CHUNK_SIZE = 500000"
    by (simp_all add: ORDER_CHUNK_SIZE_def LEVEL_CHUNK_SIZE_def)
  then have "unat cap < 2 ^ 32" "unat cap \<le> length fs" "unat cap \<le> length ls"
    using f n cap by (simp_all add: fresh_db_def)
  from fresh_db_rep[OF f' this] have "hand_books (m1\<lparr>h_engine := ?e\<rparr>) cap (\<lambda>b. [])"
    unfolding hand_books_def
    by (intro exI[of _ "empty_store cap"])
      (auto simp: empty_store_def tidy_def book_view_def queued_def fun_eq_iff)
  then show ?thesis using init engine_more[OF more] by (simp add: hw_MatchingEngine_Init_def)
qed

section \<open>Reachable states\<close>

text \<open>Static storage before \<^verbatim>\<open>main\<close>, with the caller's engine record.\<close>

definition start_hand :: "'u MatchingEngine option \<Rightarrow> 'u hand" where
  "start_hand e =
     \<lparr>ind_order_buckets = None, ind_order_n = 0, bids_root = None, bids_n = 0,
      asks_root = None, asks_n = 0, order_pool_free = None, order_pool_n = 0,
      order_pool_total_allocated = 0, level_pool_free = None, level_pool_n = 0,
      level_pool_total_allocated = 0, order_chunks = None, order_chunks_n = 0,
      order_chunks_cap = 0, level_chunks = None, level_chunks_n = 0, level_chunks_cap = 0,
      order_mem = (\<lambda>_. zero_order), level_mem = (\<lambda>_. zero_level), order_brk = 0, level_brk = 0,
      order_heap = [], level_heap = [], alloc_ok = (\<lambda>_. True), alloc_calls = 0, h_engine = e\<rparr>"

text \<open>
  Runs within a capacity: every order is at most \<open>max_qty cap\<close> and finds fewer than \<open>cap\<close>
  rows in use.  The generated matcher enforces both itself.
\<close>

inductive hand_reachable :: "u64 \<Rightarrow> 'u hand \<Rightarrow> bool" for cap where
  init: "unat cap \<le> 500000 \<Longrightarrow> hw_MatchingEngine_Init cb ud (start_hand e) = Some m \<Longrightarrow> hand_reachable cap m"
| order: "hand_reachable cap m \<Longrightarrow> req_qty r \<le> max_qty cap \<Longrightarrow> order_pool_n m < cap \<Longrightarrow>
    hw_MatchingEngine_ProcessOrder (Some r) m = Some (ok, m') \<Longrightarrow> hand_reachable cap m'"
| cancel: "hand_reachable cap m \<Longrightarrow> hw_MatchingEngine_CancelOrder i m = Some (ok, m') \<Longrightarrow> hand_reachable cap m'"

lemma hand_room:
  assumes "hand_books m cap B" and "order_pool_n m < cap"
  shows "length (book_rows B) < unat cap"
proof -
  obtain a where r: "db_rep m a" and a: "tidy a" "s_cap a = cap" "book_view a = B"
    using assms(1) by (auto simp: hand_books_def)
  note wf = db_repD(1)[OF r]
  have "order_pool_n m = of_nat (length (book_rows B))"
    using db_repD(3)[OF r] tidy_count[OF wf a(1)] a(3) by (simp add: pools_rep_def)
  moreover have "length (book_rows B) \<le> unat cap" using store_wfD(4)[OF wf] tidy_count[OF wf a(1)] a by simp
  ultimately show ?thesis
    using assms(2) small_count[OF _ store_wfD(1)[OF wf], of "length (book_rows B)"] a(2)
    by (simp add: word_less_nat_alt)
qed

lemma hand_order_steps:
  assumes "hand_books m cap B" and "books_ok cap B" and "req_qty r \<le> max_qty cap" and "order_pool_n m < cap"
  obtains code B' ts m' where "spec_process cap (params_of r) B = (code, B', ts)" "code \<noteq> 5"
    "hw_MatchingEngine_ProcessOrder (Some r) m = Some (code = 0, m')" "hand_books m' cap B'" "books_ok cap B'"
    "h_engine m' = map_option (report_trades ts) (h_engine m)"
proof -
  obtain code B' ts where spec: "spec_process cap (params_of r) B = (code, B', ts)" by (metis prod_cases3)
  have "code \<noteq> 5"
    using spec hand_room[OF assms(1,4)] by (auto elim!: spec_process_cases spec_side_cases)
  with hw_process_refines[OF assms(1,2) spec assms(3)] spec_process_ok[OF assms(2) spec] spec that
  show thesis by blast
qed

lemma hand_cancel_steps:
  assumes "hand_books m cap B" and "books_ok cap B"
  obtains code B' m' where "spec_cancel i B = (code, B')"
    "hw_MatchingEngine_CancelOrder i m = Some (code = 1, m')" "hand_books m' cap B'" "books_ok cap B'"
    "h_engine m' = h_engine m"
proof -
  obtain code B' where spec: "spec_cancel i B = (code, B')" by (metis prod.exhaust)
  from hw_cancel_refines[OF assms spec] spec_cancel_ok[OF assms(2) spec] spec that show thesis by blast
qed

lemma hand_reachable_books:
  "hand_reachable cap m \<Longrightarrow> \<exists>B. hand_books m cap B \<and> books_ok cap B"
proof (induction rule: hand_reachable.induct)
  case (init cb ud e m)
  have "pool_chunks (start_hand e) [] []" "\<forall>i. alloc_ok (start_hand e) i"
    by (simp_all add: start_hand_def pool_chunks_def chunk_table_def)
  from hand_init[OF this init(1), of cb ud] init(2) books_ok_empty show ?case by auto
next
  case (order m r ok m')
  then obtain B where "hand_books m cap B" "books_ok cap B" by blast
  from this order(2,3) show ?case
    by (rule hand_order_steps[where r = r]) (use order(4) in auto)
next
  case (cancel m i ok m')
  then obtain B where "hand_books m cap B" "books_ok cap B" by blast
  then show ?case by (rule hand_cancel_steps[where i = i]) (use cancel(2) in auto)
qed

lemma hand_books_check: "hand_books m cap B \<Longrightarrow> books_ok cap B \<Longrightarrow> MatchingEngine_CheckInvariants m = Some True"
  by (auto simp: hand_books_def intro: check_invariants_pass)

lemma adapter_books_db:
  assumes "adapter_books st cap B ts"
  obtains a where "db_rep (db st) a" "tidy a" "s_cap a = cap" "book_view a = B"
  using assms by (auto simp: shows_books_def layer_rep_def)

lemma reachable_db:
  assumes "reachable engine st"
  obtains a where "db_rep (db st) a" "tidy a" "s_cap a = ME_GLUE_CAPACITY"
    "books_ok (s_cap a) (book_view a)"
proof -
  from reachable_good[OF assms] obtain B ts where "adapter_books st ME_GLUE_CAPACITY B ts" "books_ok ME_GLUE_CAPACITY B"
    by (rule good_stateE)
  from this(1) show thesis
    by (rule adapter_books_db) (use that \<open>books_ok ME_GLUE_CAPACITY B\<close> in simp)
qed

section \<open>The books are a function of the memory\<close>

lemma tree_at_unique:
  "tree_at lt rt pt p q t \<Longrightarrow> tree_at lt rt pt p q u \<Longrightarrow> t = u"
proof (induction t arbitrary: p q u)
  case Leaf
  then show ?case by (cases u) auto
next
  case (Node l x r)
  then show ?case by (cases u) auto
qed

lemma view_unique:
  assumes "db_rep m a" and "db_rep m c"
  shows "book_view a = book_view c"
proof
  fix b
  have trees: "price_tree m (root_of b m) (tree_order b (s_tree a b))" "price_tree m (root_of b m) (tree_order b (s_tree c b))"
    using db_repD(6)[OF assms(1)] db_repD(6)[OF assms(2)] by (simp_all add: trees_rep_iff)
  then have "tree_order b (s_tree a b) = tree_order b (s_tree c b)"
    unfolding price_tree_def by (metis tree_at_unique)
  then have tree: "s_tree a b = s_tree c b" by (cases b) simp_all
  have "level_view a l = level_view c l" if l: "l \<in> set (s_tree a b)" for l
  proof -
    have la: "l \<in> dom (s_levels a)" and lc: "l \<in> dom (s_levels c)"
      using l l[unfolded tree] store_wfD(13)[OF db_repD(1)[OF assms(1)], of b]
        store_wfD(13)[OF db_repD(1)[OF assms(2)], of b] by blast+
    have "chain (o_next m) (l_head m l) (s_queue a l)" "chain (o_next m) (l_head m l) (s_queue c l)"
      using db_queueD(1)[OF assms(1) la] db_queueD(1)[OF assms(2) lc] by (auto simp: order_queue_def intro: dll_chain)
    then have q: "s_queue a l = s_queue c l" by (rule chain_unique)
    have "orow a x = orow c x" if "x \<in> set (s_queue a l)" for x
      using that rows_repD(2)[OF assms(1), of x] rows_repD(2)[OF assms(2), of x] q
        store_wfD(8)[OF db_repD(1)[OF assms(1)], of l] store_wfD(8)[OF db_repD(1)[OF assms(2)], of l]
      by (metis subsetD)
    then show ?thesis
      using levels_repD(2)[OF assms(1) la] levels_repD(2)[OF assms(2) lc] q by (simp add: level_view_def)
  qed
  then show "book_view a b = book_view c b" by (simp add: book_view_def tree)
qed

lemma adapter_books_unique: "adapter_books st cap B ts \<Longrightarrow> adapter_books st cap' B' ts' \<Longrightarrow> B = B'"
  by (metis adapter_books_db view_unique)

lemma hand_books_unique: "hand_books m cap B \<Longrightarrow> hand_books m cap' B' \<Longrightarrow> B = B'"
  unfolding hand_books_def by (metis view_unique)

section \<open>A sample run of the handwritten engine\<close>

lemma hand_sample:
  obtains m :: "unit hand" where "hand_reachable 1000 m" "hand_books m 1000 (\<lambda>b. [])" "order_pool_n m < 1000"
    "h_engine m = None"
proof -
  have "pool_chunks (start_hand (None :: unit MatchingEngine option)) [] []" "\<forall>i. alloc_ok (start_hand (None :: unit MatchingEngine option)) i"
    "unat (1000 :: u64) \<le> 500000"
    by (simp_all add: start_hand_def pool_chunks_def chunk_table_def)
  from hand_init[OF this, of None "()"] obtain m where
    m: "hw_MatchingEngine_Init None () (start_hand None) = Some m" "hand_books m 1000 (\<lambda>b. [])" "h_engine m = None"
    by (auto simp: start_hand_def)
  obtain a where r: "db_rep m a" and a: "tidy a" "book_view a = (\<lambda>b. [])"
    using m(2) by (auto simp: hand_books_def)
  have "card (dom (s_orders a)) = 0"
    using tidy_count[OF db_repD(1)[OF r] a(1)] a(2) by (simp add: book_rows_def)
  then have "order_pool_n m = 0" using db_repD(3)[OF r] by (simp add: pools_rep_def)
  moreover have "hand_reachable 1000 m" by (rule hand_reachable.init[OF _ m(1)]) simp
  ultimately show thesis using that[of m] m(2,3) by simp
qed

section \<open>Levels of a store\<close>

lemma level_contents:
  assumes r: "db_rep m s" and ok: "books_ok (s_cap s) (book_view s)" and l: "l \<in> set (s_tree s b)"
  shows "l_price m l = lprice s l" "s_queue s l \<noteq> []"
    "dll (o_next m) (o_prev m) (l_head m l) None (s_queue s l) (l_tail m l) None"
    "unat (l_n m l) = length (s_queue s l)"
    "unat (l_total m l) = sum_list (map (\<lambda>x. unat (o_rem m x)) (s_queue s l))"
    "\<forall>x \<in> set (s_queue s l). o_price m x = lprice s l \<and> 0 < o_rem m x"
proof -
  note wf = db_repD(1)[OF r]
  have ld: "l \<in> dom (s_levels s)" using l store_wfD(13)[OF wf, of b] by blast
  show "l_price m l = lprice s l" using tree_lprice[OF r l] by simp
  show "s_queue s l \<noteq> []" by (rule view_levels_ok(1)[OF ok l])
  show "dll (o_next m) (o_prev m) (l_head m l) None (s_queue s l) (l_tail m l) None"
    using db_queueD(1)[OF r ld] by (simp add: order_queue_def)
  show "unat (l_n m l) = length (s_queue s l)" by (rule db_queue_count[OF r ld])
  show "unat (l_total m l) = sum_list (map (\<lambda>x. unat (o_rem m x)) (s_queue s l))"
    using db_queueD(2)[OF r ld] by (simp add: queue_total_def)
  show "\<forall>x \<in> set (s_queue s l). o_price m x = lprice s l \<and> 0 < o_rem m x"
  proof
    fix x assume x: "x \<in> set (s_queue s l)"
    then have "x \<in> dom (s_orders s)" using store_wfD(8)[OF wf, of l] by blast
    with rows_repD(2)[OF r this] view_levels_ok(2)[OF ok l x]
    show "o_price m x = lprice s l \<and> 0 < o_rem m x" by (simp add: row_ok_def)
  qed
qed

lemma find_level:
  assumes "adapter_books st cap B ts" and "(p, xs) \<in> set (B b)"
  shows "\<exists>l. EngineDb_book_Find b (db st) p = Some (Some l)"
  using assms(1)
proof (rule adapter_books_db)
  fix a assume r: "db_rep (db st) a" and B: "book_view a = B"
  then have "\<exists>l \<in> set (s_tree a b). lprice a l = p"
    using assms(2) by (auto simp: book_view_def level_view_def)
  then have "find (\<lambda>l. lprice a l = p) (s_tree a b) \<noteq> None" by (auto simp: find_None_iff)
  then show ?thesis using db_tree_find[OF r, of b p] by auto
qed

lemma best_level:
  assumes "adapter_books st cap B ts" and "B b \<noteq> []"
  shows "\<exists>l. EngineDb_book_Best b (db st) = Some (Some l)"
  using assms(1)
proof (rule adapter_books_db)
  fix a assume r: "db_rep (db st) a" and B: "book_view a = B"
  then have "s_tree a b \<noteq> []" using assms(2) by (auto simp: book_view_def)
  then show ?thesis using db_tree_best[OF r, of b] by (cases "s_tree a b") simp_all
qed

section \<open>More sample runs\<close>

definition request_of :: "params \<Rightarrow> OrderRequest" where
  "request_of q = \<lparr>req_id = q_id q, req_account_id = q_account q, req_side = ucast (q_side q),
     req_order_type = ucast (q_otype q), req_stp_mode = ucast (q_stp q), req_price = q_price q, req_qty = q_qty q\<rparr>"

lemma request_of_samples [simp]:
  "params_of (request_of (buy i p n)) = buy i p n" "params_of (request_of (sell i p n)) = sell i p n"
  by (simp_all add: params_of_def request_of_def buy_def sell_def)

lemma sample_run_engine:
  obtains e :: "nat MatchingEngine" and st where "reachable (Some e) st"
    "adapter_books st ME_GLUE_CAPACITY one_ask []" "books_ok ME_GLUE_CAPACITY one_ask"
    "total_trades e = 0" "total_volume e = 0" "on_trade e = Some (\<lambda>_. Suc)" "user_data e = 0"
proof -
  let ?e = "\<lparr>total_trades = 7, total_volume = 7, on_trade = None, user_data = 7 :: nat\<rparr>"
  obtain st0 where init: "MatchingEngine_Init (Some ?e) (Some (\<lambda>_. Suc)) 0 start_matcher = Inr (map_option
       (\<lambda>e. e\<lparr>total_trades := 0, total_volume := 0, on_trade := Some (\<lambda>_. Suc), user_data := 0\<rparr>) (Some ?e), st0)"
    and v0: "adapter_books st0 ME_GLUE_CAPACITY (\<lambda>b. []) []"
    by (rule Init_refines[OF start_chunks])
  let ?e0 = "\<lparr>total_trades = 0, total_volume = 0, on_trade = Some (\<lambda>_. Suc), user_data = 0 :: nat\<rparr>"
  have r0: "reachable (Some ?e0) st0" using reachable.init[OF init] by simp
  have "spec_process ME_GLUE_CAPACITY (params_of (request_of (sell 1 100 5))) (\<lambda>b. []) = (0, one_ask, [])"
    by (simp add: sell_rests)
  from v0 books_ok_empty this obtain st1 where run: "MatchingEngine_ProcessOrder (Some ?e0) (Some (request_of (sell 1 100 5))) st0 =
      Inr ((0 :: u64) = 0, map_option (report_trades []) (Some ?e0), st1)"
    and v1: "adapter_books st1 ME_GLUE_CAPACITY one_ask []"
    by (rule ProcessOrder_refines)
  have "reachable (Some ?e0) st1" using reachable.order[OF r0 run] by simp
  then show thesis using that v1 spec_process_ok[OF books_ok_empty sell_rests] by simp
qed

lemma sample_two_sided:
  obtains engine st b a where "reachable (engine :: unit MatchingEngine option) st"
    "EngineDb_bids_Best (db st) = Some (Some b)" "EngineDb_asks_Best (db st) = Some (Some a)"
proof -
  obtain engine st where s: "reachable (engine :: unit MatchingEngine option) st"
    "adapter_books st ME_GLUE_CAPACITY one_ask []" "books_ok ME_GLUE_CAPACITY one_ask" by (rule sample_run)
  have "spec_process ME_GLUE_CAPACITY (params_of (request_of (buy 2 99 3))) one_ask =
      (0, one_ask(Bids := [(99, [new_row (buy 2 99 3) 3])]), [])" by (simp add: buy_rests)
  with s(2,3) obtain st1 where run: "MatchingEngine_ProcessOrder engine (Some (request_of (buy 2 99 3))) st =
      Inr ((0 :: u64) = 0, map_option (report_trades []) engine, st1)"
    and v1: "adapter_books st1 ME_GLUE_CAPACITY (one_ask(Bids := [(99, [new_row (buy 2 99 3) 3])])) []"
    by (rule ProcessOrder_refines)
  from best_level[OF v1, of Bids] best_level[OF v1, of Asks] that reachable.order[OF s(1) run]
  show thesis by (auto simp: one_ask_def)
qed

lemma sell_rests_1000: "spec_process 1000 (sell 1 100 5) (\<lambda>b. []) = (0, one_ask, [])"
  by (auto simp: sample_simps max_qty_def fun_eq_iff split: book.split)

lemma buy_trades_1000:
  "spec_process 1000 (buy 2 101 3) one_ask = (0, one_ask(Asks := [(100, [new_row (sell 1 100 5) 2])]), [sold])"
  by (simp add: sample_simps max_qty_def min_def sold_def fun_eq_iff split: book.split)

lemma hand_sample_ask:
  obtains m :: "unit hand" where "hand_books m 1000 one_ask" "books_ok 1000 one_ask" "order_pool_n m < 1000"
proof -
  obtain m :: "unit hand" where m: "hand_books m 1000 (\<lambda>b. [])" "order_pool_n m < 1000" by (rule hand_sample)
  have "req_qty (request_of (sell 1 100 5)) \<le> max_qty 1000" by (simp add: request_of_def sell_def max_qty_def)
  with m(1) books_ok_empty obtain m' :: "unit hand" where v: "hand_books m' 1000 one_ask" "books_ok 1000 one_ask"
    by (rule hand_order_steps[OF _ _ _ m(2)]) (auto simp: sell_rests_1000)
  obtain a where r: "db_rep m' a" and a: "tidy a" "book_view a = one_ask"
    using v(1) by (auto simp: hand_books_def)
  have "card (dom (s_orders a)) = 1"
    using tidy_count[OF db_repD(1)[OF r] a(1)] a(2) by (simp add: book_rows_def one_ask_def)
  then have "order_pool_n m' < 1000" using db_repD(3)[OF r] by (simp add: pools_rep_def)
  with v show thesis by (rule that)
qed

lemma sample_adapter_ask:
  obtains st where "adapter_books st 1000 one_ask []"
proof -
  obtain s where "adapter_rep s (empty_store 1000)"
    using adapter_init_law[OF start_chunks, of 1000] by auto
  then have "adapter_books (start_matcher\<lparr>db := s\<rparr>) 1000 (\<lambda>b. []) []" using books_empty by simp
  with adapter.process_order_refines[OF _ books_ok_empty sell_rests_1000] that show thesis by blast
qed

end
