(* ===== verification/Engines_Agree.thy ===== *)
theory Engines_Agree
  imports Hand_System
begin

text \<open>
  The handwritten engine (\<^verbatim>\<open>c/src/matching_engine.c\<close>) against its specification, against the
  generated matcher behind the same public functions, and what goes wrong in it beyond the
  quantity bound that only the generated matcher enforces.
\<close>

section \<open>The handwritten engine refines the specification\<close>

text \<open>
  C9: when the quantity is at most \<open>max_qty cap\<close> and fewer than \<open>cap\<close> orders rest, the limits only the
  generated matcher checks, the handwritten \<open>ProcessOrder\<close> returns true
  exactly for the specification's code 0, leaves the books of the specification, well formed,
  and has reported its trades, in order, to the counters and the callback.
\<close>

theorem handwritten_process_spec:
  assumes "hand_books m cap B" and "books_ok cap B"
    and "req_qty r \<le> max_qty cap" and "order_pool_n m < cap"
  shows "\<exists>code B' ts m'. spec_process cap (params_of r) B = (code, B', ts) \<and>
    hw_MatchingEngine_ProcessOrder (Some r) m = Some (code = 0, m') \<and> hand_books m' cap B' \<and> books_ok cap B' \<and>
    h_engine m' = map_option (report_trades ts) (h_engine m)"
  using assms by (rule hand_order_steps[where r = r]) blast

theorem handwritten_process_spec_witness:
  "\<exists>m m' :: unit hand. hw_MatchingEngine_ProcessOrder (Some (request_of (sell 1 100 5))) m = Some (True, m') \<and>
    hand_books m' 1000 one_ask"
proof -
  obtain m :: "unit hand" where m: "hand_books m 1000 (\<lambda>b. [])" "order_pool_n m < 1000" by (rule hand_sample)
  have "req_qty (request_of (sell 1 100 5)) \<le> max_qty 1000" by (simp add: request_of_def sell_def max_qty_def)
  from handwritten_process_spec[OF m(1) books_ok_empty this m(2)] show ?thesis by (auto simp: sell_rests_1000)
qed

text \<open>
  C10: the handwritten \<open>CancelOrder\<close> removes the order with the id, and the level it empties, and
  returns false without a change when no order has the id.
\<close>

theorem handwritten_cancel_spec:
  assumes "hand_books m cap B" and "books_ok cap B"
  shows "\<exists>m'. hw_MatchingEngine_CancelOrder i m = Some (i \<in> r_id ` set (book_rows B), m') \<and>
    hand_books m' cap (\<lambda>b. cancel_level i (B b)) \<and> h_engine m' = h_engine m"
  using assms
proof (rule hand_cancel_steps[where i = i])
  fix code B' m'
  assume spec: "spec_cancel i B = (code, B')" and run: "hw_MatchingEngine_CancelOrder i m = Some (code = 1, m')"
    and v: "hand_books m' cap B'" and e: "h_engine m' = h_engine m"
  show ?thesis
  proof (cases "i \<in> r_id ` set (book_rows B)")
    case True
    then show ?thesis using spec run v e by (auto simp: spec_cancel_def)
  next
    case False
    have "cancel_level i (B b) = B b" for b
      using False assms(2) by (intro cancel_level_other) (cases b; auto simp: book_rows_def books_ok_def levels_ok_def)+
    then show ?thesis using False spec run v e by (auto simp: spec_cancel_def)
  qed
qed

theorem handwritten_cancel_spec_witness:
  "\<exists>m m' :: unit hand. hw_MatchingEngine_CancelOrder 1 m = Some (True, m') \<and> hand_books m' 1000 (\<lambda>b. [])"
proof -
  obtain m :: "unit hand" where m: "hand_books m 1000 one_ask" "books_ok 1000 one_ask" by (rule hand_sample_ask)
  have "1 \<in> r_id ` set (book_rows one_ask)" "(\<lambda>b. cancel_level 1 (one_ask b)) = (\<lambda>b. [])"
    by (auto simp: one_ask_def book_rows_def level_rows_def sell_def new_row_def cancel_level_def fun_eq_iff split: book.split)
  with handwritten_cancel_spec[OF m, of 1] show ?thesis by auto
qed

section \<open>Both engines agree\<close>

text \<open>
  C7: from states that hold the same books and the same engine record, and below the limits,
  the handwritten engine and the generated matcher return the same result, leave the same
  books, and leave the same counters and callback state.
\<close>

theorem engines_agree:
  assumes "adapter_books st cap B ts0" and "hand_books m cap B" and "books_ok cap B"
    and "req_qty r \<le> max_qty cap" and "order_pool_n m < cap"
  shows "\<exists>ok engine' st' m' B'.
    MatchingEngine_ProcessOrder (h_engine m) (Some r) st = Inr (ok, engine', st') \<and>
    hw_MatchingEngine_ProcessOrder (Some r) m = Some (ok, m') \<and> h_engine m' = engine' \<and>
    adapter_books st' cap B' (reported (db st')) \<and> hand_books m' cap B' \<and> books_ok cap B'"
  using assms(2-5)
proof (rule hand_order_steps[where r = r])
  fix code B' ts m'
  assume spec: "spec_process cap (params_of r) B = (code, B', ts)"
    and run: "hw_MatchingEngine_ProcessOrder (Some r) m = Some (code = 0, m')" "hand_books m' cap B'" "books_ok cap B'"
      "h_engine m' = map_option (report_trades ts) (h_engine m)"
  obtain st' where gen: "MatchingEngine_ProcessOrder (h_engine m) (Some r) st =
      Inr (code = 0, map_option (report_trades ts) (h_engine m), st')" and v: "adapter_books st' cap B' ts"
    using ProcessOrder_refines[OF assms(1,3) spec] .
  from gen run v reported_books[OF v] show ?thesis by auto
qed

theorem engines_agree_witness:
  "\<exists>st st' (m :: unit hand) m'. adapter_books st 1000 one_ask [] \<and> hand_books m 1000 one_ask \<and>
    MatchingEngine_ProcessOrder (h_engine m) (Some (request_of (buy 2 101 3))) st = Inr (True, h_engine m', st') \<and>
    hw_MatchingEngine_ProcessOrder (Some (request_of (buy 2 101 3))) m = Some (True, m')"
proof -
  obtain m :: "unit hand" where m: "hand_books m 1000 one_ask" "books_ok 1000 one_ask" "order_pool_n m < 1000"
    by (rule hand_sample_ask)
  obtain st where st: "adapter_books st 1000 one_ask []" by (rule sample_adapter_ask)
  have "req_qty (request_of (buy 2 101 3)) \<le> max_qty 1000" by (simp add: request_of_def buy_def max_qty_def)
  from engines_agree[OF st m(1,2) this m(3)] obtain ok engine' st' m' where
    r: "MatchingEngine_ProcessOrder (h_engine m) (Some (request_of (buy 2 101 3))) st = Inr (ok, engine', st')"
    "hw_MatchingEngine_ProcessOrder (Some (request_of (buy 2 101 3))) m = Some (ok, m')" "h_engine m' = engine'" by blast
  have "ok"
    using ProcessOrder_refines[OF st m(2), of "request_of (buy 2 101 3)" 0 _ _ "h_engine m"] r(1) buy_trades_1000 by auto
  with r st m show ?thesis by auto
qed

section \<open>Beyond the bound\<close>

text \<open>
  C31: the running total of a level is a \<open>64\<close>-bit sum without a guard: two resting orders of
  \<open>2^63\<close> make it zero, and because removal clamps instead of subtracting, it stays zero while an
  order of \<open>2^63\<close> still rests, so it is then wrong even modulo \<open>2^64\<close>.
\<close>

theorem level_total_overflows:
  assumes "\<not> o_inlist m x" and "\<not> o_inlist m y" and "x \<noteq> y" and "l_head m l = None" and "l_tail m l = None"
    and "l_total m l = 0" and "o_rem m x = 2 ^ 63" and "o_rem m y = 2 ^ 63"
  shows "l_total (PriceLevel_orders_InsertTail (Some l) (Some y) (PriceLevel_orders_InsertTail (Some l) (Some x) m)) l = 0 \<and>
    (let m' = PriceLevel_orders_Remove (Some l) (Some x)
       (PriceLevel_orders_InsertTail (Some l) (Some y) (PriceLevel_orders_InsertTail (Some l) (Some x) m))
     in l_total m' l = 0 \<and> l_head m' l = Some y \<and> o_rem m' y = 2 ^ 63)"
  using assms by (simp add: PriceLevel_orders_InsertTail_def PriceLevel_orders_Remove_def Let_def)

theorem level_total_overflows_witness:
  "\<exists>m :: unit hand. l_total (PriceLevel_orders_InsertTail (Some 0) (Some 2) (PriceLevel_orders_InsertTail (Some 0) (Some 1) m)) 0 = 0"
proof -
  define m :: "unit hand" where "m = (start_hand None)\<lparr>order_mem := (\<lambda>_. zero_order\<lparr>remaining_qty := 2 ^ 63\<rparr>)\<rparr>"
  have "\<not> o_inlist m 1" "\<not> o_inlist m 2" "(1 :: oref) \<noteq> 2" "l_head m 0 = None" "l_tail m 0 = None" "l_total m 0 = 0"
    "o_rem m 1 = 2 ^ 63" "o_rem m 2 = 2 ^ 63"
    by (simp_all add: m_def start_hand_def zero_order_def zero_level_def ho_inlist_def hl_head_def hl_tail_def hl_total_def ho_rem_def)
  from level_total_overflows[OF this] show ?thesis by blast
qed

end
