(* ===== verification/Data_Laws.thy ===== *)
theory Data_Laws
  imports Hand_System
begin

text \<open>
  The contracts of the data layer (\<^verbatim>\<open>c/src/matching_engine_gen.c\<close>) on their own, for any
  state: what each container promises to a caller that knows nothing of the matcher, and what
  initialisation does when the allocator fails.
\<close>

section \<open>The hash index\<close>

lemma hash_find_iff:
  assumes "hash_rep m S"
  shows "EngineDb_ind_order_Find m i = Some (if \<exists>x \<in> S. o_id m x = i then Some (THE x. x \<in> S \<and> o_id m x = i) else None)"
proof (cases "\<exists>x \<in> S. o_id m x = i")
  case True
  then obtain x where x: "x \<in> S" "o_id m x = i" by blast
  then have "(THE x. x \<in> S \<and> o_id m x = i) = x"
    using assms by (intro the_equality) (auto simp: hash_rep_def inj_on_def)
  then show ?thesis using ind_order_Find_hit[OF assms x] True by simp
next
  case False
  then show ?thesis using ind_order_Find_miss[OF assms] by auto
qed

lemma hash_find_step:
  assumes "hash_rep m S" and "hash_rep m' S'" and "o_id m' = o_id m"
    and "\<And>x. o_id m x = i \<Longrightarrow> x \<in> S' \<longleftrightarrow> x \<in> S"
  shows "EngineDb_ind_order_Find m' i = EngineDb_ind_order_Find m i"
proof -
  have "x \<in> S' \<and> o_id m x = i \<longleftrightarrow> x \<in> S \<and> o_id m x = i" for x using assms(4) by blast
  then show ?thesis unfolding hash_find_iff[OF assms(1)] hash_find_iff[OF assms(2)] assms(3) Bex_def by simp
qed

text \<open>
  C32: inserting a row with a new id into the hash index makes exactly that id findable, as
  that row, and removing the row afterwards restores every lookup.
\<close>

theorem hash_index_round_trip:
  assumes "hash_rep m S" and "x \<notin> S" and "\<not> o_inhash m x" and "\<forall>y \<in> S. o_id m y \<noteq> o_id m x"
  shows "\<exists>m' m''. EngineDb_ind_order_InsertMaybe (Some x) m = Some (True, m') \<and>
    (\<forall>i. EngineDb_ind_order_Find m' i = (if i = o_id m x then Some (Some x) else EngineDb_ind_order_Find m i)) \<and>
    EngineDb_ind_order_N m' = EngineDb_ind_order_N m + 1 \<and>
    EngineDb_ind_order_Remove (Some x) m' = Some m'' \<and>
    (\<forall>i. EngineDb_ind_order_Find m'' i = EngineDb_ind_order_Find m i)"
proof -
  obtain m' where ins: "EngineDb_ind_order_InsertMaybe (Some x) m = Some (True, m')"
    and h': "hash_rep m' (insert x S)" and st: "hash_step {x} m m'"
    using ind_order_InsertMaybe_law(2)[OF assms(1-3)] assms(4) by blast
  obtain m'' where rem: "EngineDb_ind_order_Remove (Some x) m' = Some m''"
    and h'': "hash_rep m'' (insert x S - {x})" and st': "hash_step (insert x S) m' m''"
    using ind_order_Remove_law[OF h', of x] by blast
  have S: "insert x S - {x} = S" using assms(2) by simp
  have ids: "o_id m' = o_id m" "o_id m'' = o_id m" using st st' by (simp_all add: hash_step_def)
  have new: "EngineDb_ind_order_Find m' i = (if i = o_id m x then Some (Some x) else EngineDb_ind_order_Find m i)" for i
    using ind_order_Find_hit[OF h', of x i] hash_find_step[OF assms(1) h' ids(1), of i] ids(1) by auto
  have old: "EngineDb_ind_order_Find m'' i = EngineDb_ind_order_Find m i" for i
    using hash_find_step[OF assms(1) h''[unfolded S] ids(2)] by simp
  have "finite S" "ind_order_n m = of_nat (card S)" "ind_order_n m' = of_nat (card (insert x S))"
    using assms(1) h' by (simp_all add: hash_rep_def)
  then have "EngineDb_ind_order_N m' = EngineDb_ind_order_N m + 1"
    using assms(2) by (simp add: EngineDb_ind_order_N_def add.commute)
  with ins rem new old show ?thesis by blast
qed

theorem hash_index_round_trip_witness:
  "\<exists>(m :: unit hand) m'. EngineDb_ind_order_InsertMaybe (Some 5) m = Some (True, m') \<and>
    EngineDb_ind_order_Find m' 0 = Some (Some 5) \<and> EngineDb_ind_order_Find m' 1 = Some None"
proof -
  define m :: "unit hand" where "m = (start_hand None)\<lparr>ind_order_buckets := Some (\<lambda>_. None)\<rparr>"
  have h: "hash_rep m {}" by (auto simp: hash_rep_def m_def start_hand_def intro: exI[of _ "[]"])
  have "\<not> o_inhash m 5" "o_id m 5 = 0"
    by (simp_all add: m_def start_hand_def zero_order_def ho_inhash_def ho_id_def)
  with hash_index_round_trip[OF h, of 5] ind_order_Find_miss[OF h, of 1] show ?thesis by force
qed

section \<open>The price trees\<close>

lemma tree_find_iff:
  assumes "price_tree m root xs"
  shows "tree_find m root p = Some (if \<exists>l \<in> set xs. l_price m l = p then Some (THE l. l \<in> set xs \<and> l_price m l = p) else None)"
proof (cases "\<exists>l \<in> set xs. l_price m l = p")
  case True
  then obtain l where l: "l \<in> set xs" "l_price m l = p" by blast
  have inj: "inj_on (l_price m) (set xs)"
    using assms by (metis distinct_map price_tree_def prio.sorted_distinct strict_sorted_iff sorted_map_distinct)
  then have eq: "k = l" if "k \<in> set xs" "l_price m k = p" for k using that l by (metis inj_onD)
  then have "(THE l. l \<in> set xs \<and> l_price m l = p) = l" using l by blast
  moreover have "find (\<lambda>k. l_price m k = p) xs = Some l"
    using l eq by (intro find_unique)
  ultimately show ?thesis using tree_find_law[OF assms, of p] True by simp
next
  case False
  then have "find (\<lambda>k. l_price m k = p) xs = None" by (auto simp: find_None_iff)
  then show ?thesis using tree_find_law[OF assms, of p] False by simp
qed

lemma tree_find_step:
  assumes "price_tree m root xs" and "price_tree m' root' ys" and "l_price m' = l_price m"
    and "\<And>l. l_price m l = p \<Longrightarrow> l \<in> set ys \<longleftrightarrow> l \<in> set xs"
  shows "tree_find m' root' p = tree_find m root p"
proof -
  have "l \<in> set ys \<and> l_price m l = p \<longleftrightarrow> l \<in> set xs \<and> l_price m l = p" for l using assms(4) by blast
  then show ?thesis unfolding tree_find_iff[OF assms(1)] tree_find_iff[OF assms(2)] assms(3) Bex_def by simp
qed

text \<open>
  Inserting a level at a new price into a search tree makes exactly that price findable,
  as that level, and removing the level restores every lookup, whatever the shape of the tree
  and whatever place in it the level had.
\<close>

theorem price_tree_round_trip:
  assumes "price_tree m root xs" and "x \<notin> set xs" and "l_price m x \<notin> l_price m ` set xs"
  shows "\<exists>root' m' root'' m''. tree_insert root (Some x) m = Some (root', m') \<and>
    (\<forall>p. tree_find m' root' p = (if p = l_price m x then Some (Some x) else tree_find m root p)) \<and>
    tree_remove root' (Some x) m' = Some (root'', m'') \<and> (\<forall>p. tree_find m'' root'' p = tree_find m root p)"
proof -
  let ?ys = "ins_by (\<lambda>a b. l_price m a < l_price m b) x xs"
  obtain root' m' where ins: "tree_insert root (Some x) m = Some (root', m')"
    and t': "price_tree m' root' ?ys" and st: "tree_step (insert x (set xs)) m m'"
    using tree_insert_law[OF assms] by blast
  obtain root'' m'' where rem: "tree_remove root' (Some x) m' = Some (root'', m'')"
    and t'': "price_tree m'' root'' (remove1 x ?ys)" and st': "tree_step (set ?ys) m' m''"
    using tree_remove_law[OF t', of x] by auto
  have pr: "l_price m' = l_price m" "l_price m'' = l_price m" using st st' by (simp_all add: tree_step_def)
  have "distinct ?ys" using assms(2) price_tree_distinct[OF assms(1)] by simp
  then have rs: "set (remove1 x ?ys) = set xs" using assms(2) by (simp add: set_remove1_eq)
  have "tree_find m' root' (l_price m x) = Some (Some x)"
  proof -
    have "(THE l. l \<in> set ?ys \<and> l_price m l = l_price m x) = x"
      using assms(3) by (intro the_equality) (auto simp: image_iff)
    then show ?thesis unfolding tree_find_iff[OF t'] pr by auto
  qed
  moreover have "tree_find m' root' p = tree_find m root p" if "p \<noteq> l_price m x" for p
    using that by (intro tree_find_step[OF assms(1) t' pr(1)]) auto
  moreover have "tree_find m'' root'' p = tree_find m root p" for p
    using rs by (intro tree_find_step[OF assms(1) t'' pr(2)]) simp
  ultimately show ?thesis using ins rem by (metis (full_types))
qed

text \<open>The memory right after initialisation, as far as the containers are concerned.\<close>

definition clean_hand :: "unit hand" where
  "clean_hand = (start_hand None)\<lparr>ind_order_buckets := Some (\<lambda>_. None)\<rparr>"

theorem price_tree_round_trip_witness:
  "\<exists>root' m'. tree_insert None (Some 3) clean_hand = Some (root', m') \<and> tree_find m' root' 0 = Some (Some 3) \<and>
    tree_find m' root' 9 = Some None"
proof -
  have t: "price_tree clean_hand None []" by (simp add: price_tree_None)
  have "l_price clean_hand 3 = 0" by (simp add: clean_hand_def start_hand_def zero_level_def hl_price_def)
  with price_tree_round_trip[OF t, of 3] tree_find_law[OF t, of 9] show ?thesis by force
qed

text \<open>
  The best levels are the extremes of the trees: the best bid is the highest and the best
  ask the lowest price, and there is none exactly when the tree is empty.
\<close>

theorem best_is_extreme:
  assumes "price_tree m (bids_root m) xs" and "price_tree m (asks_root m) ys"
  shows "\<exists>b a. EngineDb_bids_Best m = Some b \<and> EngineDb_asks_Best m = Some a \<and>
    (case b of None \<Rightarrow> xs = [] | Some b \<Rightarrow> b \<in> set xs \<and> (\<forall>l \<in> set xs. l_price m l \<le> l_price m b)) \<and>
    (case a of None \<Rightarrow> ys = [] | Some a \<Rightarrow> a \<in> set ys \<and> (\<forall>l \<in> set ys. l_price m a \<le> l_price m l))"
proof -
  have sx: "sorted_wrt (<) (map (l_price m) xs)" and sy: "sorted_wrt (<) (map (l_price m) ys)"
    using assms by (simp_all add: price_tree_def)
  have "case (if xs = [] then None else Some (last xs)) of None \<Rightarrow> xs = []
      | Some b \<Rightarrow> b \<in> set xs \<and> (\<forall>l \<in> set xs. l_price m l \<le> l_price m b)"
    using sx by (cases xs rule: rev_cases) (auto simp: sorted_wrt_append intro: less_imp_le)
  moreover have "case (if ys = [] then None else Some (hd ys)) of None \<Rightarrow> ys = []
      | Some a \<Rightarrow> a \<in> set ys \<and> (\<forall>l \<in> set ys. l_price m a \<le> l_price m l)"
    using sy by (cases ys) (auto intro: less_imp_le)
  ultimately show ?thesis using bids_Best_eq[OF assms(1)] asks_Best_eq[OF assms(2)] by blast
qed

theorem best_is_extreme_witness:
  "\<exists>root' m'. tree_insert None (Some 3) clean_hand = Some (root', m') \<and>
    EngineDb_asks_Best (m'\<lparr>asks_root := root'\<rparr>) = Some (Some 3)"
proof -
  have t: "price_tree clean_hand None []" by (simp add: price_tree_None)
  obtain root' m' where ins: "tree_insert None (Some 3) clean_hand = Some (root', m')" and p: "price_tree m' root' [3]"
    using tree_insert_law[OF t, of 3] by auto
  then have "price_tree (m'\<lparr>asks_root := root', bids_root := None\<rparr>) (asks_root (m'\<lparr>asks_root := root', bids_root := None\<rparr>)) [3]"
    by (simp add: price_tree_def)
  moreover have "price_tree (m'\<lparr>asks_root := root', bids_root := None\<rparr>) (bids_root (m'\<lparr>asks_root := root', bids_root := None\<rparr>)) []"
    by (simp add: price_tree_None)
  ultimately obtain a where "EngineDb_asks_Best (m'\<lparr>asks_root := root', bids_root := None\<rparr>) = Some (Some a)" "a = 3"
    using best_is_extreme by (fastforce split: option.splits)
  moreover have "EngineDb_asks_Best (m'\<lparr>asks_root := root', bids_root := None\<rparr>) = EngineDb_asks_Best (m'\<lparr>asks_root := root'\<rparr>)"
    using asks_Best_eq[of "m'\<lparr>asks_root := root'\<rparr>" "[3]"] asks_Best_eq[of "m'\<lparr>asks_root := root', bids_root := None\<rparr>" "[3]"] p
    by (simp add: price_tree_def)
  ultimately show ?thesis using ins by auto
qed

section \<open>The queue of a level\<close>

text \<open>
  C33: as long as the sum of the remaining quantities is below \<open>2^64\<close> and the queue holds fewer than \<open>2^32 - 1\<close>
  orders before the insertion, the queue of a level is first in, first out, with an exact total: an order inserted at the tail comes after all others; removing any order,
  the first or one in the middle, keeps the order of the rest and the exact total.
\<close>

theorem queue_is_fifo:
  assumes "order_queue m l xs" and "queue_total m l xs" and "\<not> o_inlist m r" and "r \<notin> set xs"
    and "sum_list (map (\<lambda>x. unat (o_rem m x)) (xs @ [r])) < 2 ^ 64" and "length xs < 2 ^ 32 - 1"
    and "m' = PriceLevel_orders_InsertTail (Some l) (Some r) m"
    and "y \<in> set (xs @ [r])" and "m'' = PriceLevel_orders_Remove (Some l) (Some y) m'"
  shows "order_queue m' l (xs @ [r]) \<and> queue_total m' l (xs @ [r]) \<and>
    PriceLevel_orders_First m' (Some l) = Some (hd (xs @ [r])) \<and>
    order_queue m'' l (remove1 y (xs @ [r])) \<and> queue_total m'' l (remove1 y (xs @ [r])) \<and> \<not> o_inlist m'' y"
proof -
  have q: "order_queue m' l (xs @ [r])" and t: "queue_total m' l (xs @ [r])"
    using orders_InsertTail_law[OF assms(1,3,4,7)] assms(2,5) by blast+
  obtain as bs where ys: "xs @ [r] = as @ y # bs" "y \<notin> set as"
    using split_list_first[OF assms(8)] by blast
  have rm: "remove1 y (xs @ [r]) = as @ bs" unfolding ys(1) using ys(2) by (simp add: remove1_append)
  have "length (as @ y # bs) < 2 ^ 32" using assms(6) arg_cong[OF ys(1), of length] by simp
  note R = orders_Remove_law[OF q[unfolded ys(1)] this assms(9)]
  have "PriceLevel_orders_First m' (Some l) = Some (hd (xs @ [r]))"
    using orders_First_law[OF q] by (cases xs) simp_all
  then show ?thesis unfolding rm using q t R(1,4) R(2)[OF t[unfolded ys(1)]] by blast
qed

theorem queue_is_fifo_witness:
  "order_queue (PriceLevel_orders_InsertTail (Some 0) (Some 4) clean_hand) 0 [4] \<and>
    order_queue (PriceLevel_orders_Remove (Some 0) (Some 4) (PriceLevel_orders_InsertTail (Some 0) (Some 4) clean_hand)) 0 []"
proof -
  have "order_queue clean_hand 0 []" "queue_total clean_hand 0 []" "\<not> o_inlist clean_hand 4"
    "sum_list (map (\<lambda>x. unat (o_rem clean_hand x)) ([] @ [4])) < 2 ^ 64"
    by (simp_all add: order_queue_def queue_total_def clean_hand_def start_hand_def zero_level_def zero_order_def
        hl_head_def hl_tail_def hl_n_def hl_total_def ho_inlist_def ho_rem_def)
  from queue_is_fifo[OF this(1-3) _ this(4) _ refl _ refl, of 4] show ?thesis by simp
qed

section \<open>The pools\<close>

text \<open>
  A pool hands out the row that was freed last, once, with its links cleared, and none at
  all when the free list is empty; freeing the row restores the free list and the count.
\<close>

theorem pool_alloc_free:
  assumes "order_free_list m (p # fs)" and "order_pool_n m \<noteq> - 1"
  shows "\<exists>m'. EngineDb_order_pool_Alloc m = (Some p, m') \<and> order_free_list m' fs \<and> p \<notin> set fs \<and>
    \<not> o_inlist m' p \<and> \<not> o_inhash m' p \<and> EngineDb_order_pool_N m' = EngineDb_order_pool_N m + 1 \<and>
    order_free_list (EngineDb_order_pool_Free (Some p) m') (p # fs) \<and>
    EngineDb_order_pool_N (EngineDb_order_pool_Free (Some p) m') = EngineDb_order_pool_N m \<and>
    (fs = [] \<longrightarrow> EngineDb_order_pool_Alloc m' = (None, m'))"
proof -
  obtain m' where a: "EngineDb_order_pool_Alloc m = (Some p, m')" "order_free_list m' fs"
    "order_pool_n m' = order_pool_n m + 1" "\<not> o_inlist m' p" "\<not> o_inhash m' p"
    using order_pool_Alloc_law[OF assms(1)] by blast
  have p: "p \<notin> set fs" using chain_distinct[OF assms(1)] by simp
  have "order_pool_n m + 1 \<noteq> 0" using assms(2) by (metis add_diff_cancel_right' diff_0)
  then have n: "order_pool_n m' > 0" by (simp add: a(3) word_gt_0)
  note F = order_pool_Free_law[OF a(2) p n refl]
  have "fs = [] \<longrightarrow> EngineDb_order_pool_Alloc m' = (None, m')"
    using a(2) order_pool_Alloc_empty by (cases "order_pool_free m'") auto
  then show ?thesis using a p F(1,2) by (auto simp: EngineDb_order_pool_N_def)
qed

theorem pool_alloc_free_witness:
  "\<exists>m'. EngineDb_order_pool_Alloc (clean_hand\<lparr>order_pool_free := Some 7\<rparr>) = (Some 7, m') \<and>
    EngineDb_order_pool_Alloc m' = (None, m')"
proof -
  have "order_free_list (clean_hand\<lparr>order_pool_free := Some 7\<rparr>) [7]" "order_pool_n (clean_hand\<lparr>order_pool_free := Some 7\<rparr>) \<noteq> - 1"
    by (simp_all add: clean_hand_def start_hand_def zero_order_def ho_free_def)
  from pool_alloc_free[OF this] show ?thesis by blast
qed

section \<open>Initialisation and teardown\<close>

text \<open>
  With an allocator that does not fail, initialisation works on any consistent state (a
  second initialisation included): it leaves five million free order rows and half a million
  free level rows, nothing resting, and tearing down then frees each chunk exactly once.
\<close>

theorem init_then_destroy:
  assumes "pool_chunks m ocs lcs" and "\<forall>i. alloc_ok m i"
  shows "\<exists>m' fs ls m''. EngineDb_Init m = Some m' \<and> order_free_list m' fs \<and> level_free_list m' ls \<and>
    length fs = 5000000 \<and> length ls = 500000 \<and> bids_root m' = None \<and> asks_root m' = None \<and>
    EngineDb_ind_order_N m' = 0 \<and> EngineDb_ind_order_Find m' i = Some None \<and>
    EngineDb_Destroy m' = Some m'' \<and> order_chunks m'' = None \<and> level_chunks m'' = None \<and>
    mset (order_heap m'') = mset (order_heap m') - {#order_brk m#} \<and>
    mset (level_heap m'') = mset (level_heap m') - {#level_brk m#}"
proof -
  obtain m' fs ls where init: "EngineDb_Init m = Some m'" and f: "fresh_db m' fs ls"
    and n: "order_pool_total_allocated m' = ORDER_CHUNK_SIZE" "level_pool_total_allocated m' = LEVEL_CHUNK_SIZE"
    and ch: "pool_chunks m' [order_brk m] [level_brk m]"
    using Init_law[OF assms] by blast
  obtain oh lh where d: "EngineDb_Destroy m' = Some (EngineDb.extend zero_EngineDb
      (EngineDb.more (m'\<lparr>order_heap := oh, level_heap := lh\<rparr>)))" (is "_ = Some ?m''")
    and heaps: "mset oh = mset (order_heap m') - {#order_brk m#}" "mset lh = mset (level_heap m') - {#level_brk m#}"
    using Destroy_law[OF ch] by auto
  have v: "order_chunks ?m'' = None" "level_chunks ?m'' = None" "order_heap ?m'' = oh" "level_heap ?m'' = lh"
    by (cases m'; simp add: zero_EngineDb_def EngineDb.extend_def)+
  have "EngineDb_ind_order_Find m' i = Some None" using f by (simp add: fresh_db_def EngineDb_ind_order_Find_def)
  then show ?thesis
    using init f n d v heaps
    by (intro exI[of _ m'] exI[of _ fs] exI[of _ ls] exI[of _ ?m''])
      (simp add: fresh_db_def EngineDb_ind_order_N_def ORDER_CHUNK_SIZE_def LEVEL_CHUNK_SIZE_def)
qed

theorem init_then_destroy_witness:
  "\<exists>m' m''. EngineDb_Init (start_hand (None :: unit MatchingEngine option)) = Some m' \<and>
    EngineDb_Destroy m' = Some m'' \<and> order_chunks m'' = None"
proof -
  have "pool_chunks (start_hand (None :: unit MatchingEngine option)) [] []" "\<forall>i. alloc_ok (start_hand (None :: unit MatchingEngine option)) i"
    by (simp_all add: start_hand_def pool_chunks_def chunk_table_def)
  from init_then_destroy[OF this] show ?thesis by blast
qed

section \<open>Allocation failures\<close>

lemma order_ReserveMem_buckets:
  "EngineDb_order_pool_ReserveMem n m = Some (k, m') \<Longrightarrow> ind_order_buckets m' = ind_order_buckets m"
proof -
  have fold: "ind_order_buckets (fold (\<lambda>i. push_free_order (f i)) is m) = ind_order_buckets m" for f "is" m
    by (induction "is" arbitrary: m) (simp_all add: push_free_order_def)
  have track: "ind_order_buckets m' = ind_order_buckets m" if "track_order_chunk c m = Some m'" for c m m'
    using that by (auto simp: track_order_chunk_def alloc_call_def Let_def split: if_splits bind_splits)
  show "EngineDb_order_pool_ReserveMem n m = Some (k, m') \<Longrightarrow> ind_order_buckets m' = ind_order_buckets m"
    by (auto simp: EngineDb_order_pool_ReserveMem_def alloc_call_def Let_def fold order_calloc_def
        dest!: track split: if_splits bind_splits)
qed

lemma level_ReserveMem_buckets:
  "EngineDb_level_pool_ReserveMem n m = Some (k, m') \<Longrightarrow> ind_order_buckets m' = ind_order_buckets m"
proof -
  have fold: "ind_order_buckets (fold (\<lambda>i. push_free_level (f i)) is m) = ind_order_buckets m" for f "is" m
    by (induction "is" arbitrary: m) (simp_all add: push_free_level_def)
  have track: "ind_order_buckets m' = ind_order_buckets m" if "track_level_chunk c m = Some m'" for c m m'
    using that by (auto simp: track_level_chunk_def alloc_call_def Let_def split: if_splits bind_splits)
  show "EngineDb_level_pool_ReserveMem n m = Some (k, m') \<Longrightarrow> ind_order_buckets m' = ind_order_buckets m"
    by (auto simp: EngineDb_level_pool_ReserveMem_def alloc_call_def Let_def fold level_calloc_def
        dest!: track split: if_splits bind_splits)
qed

text \<open>
  Initialisation does not look at the result of the bucket allocation: when that one
  \<^verbatim>\<open>calloc\<close> fails, \<open>EngineDb_Init\<close> still returns, and the first lookup of any id then
  dereferences the null bucket array.
\<close>

theorem failed_buckets_are_not_reported:
  assumes "pool_chunks m ocs lcs" and "\<not> alloc_ok m (alloc_calls m)" and "EngineDb_Init m = Some m'"
  shows "ind_order_buckets m' = None \<and> EngineDb_ind_order_Find m' i = None"
proof -
  obtain oh lh where d: "EngineDb_Destroy m = Some (EngineDb.extend zero_EngineDb
      (EngineDb.more (m\<lparr>order_heap := oh, level_heap := lh\<rparr>)))" (is "_ = Some ?m0")
    using Destroy_law[OF assms(1)] by blast
  have "\<not> alloc_ok ?m0 (alloc_calls ?m0)"
    using assms(2) by (cases m) (simp add: EngineDb.extend_def)
  then have "ind_order_buckets m' = None"
    using assms(3) unfolding EngineDb_Init_def d
    by (auto simp: alloc_call_def Let_def split: bind_splits
        dest!: order_ReserveMem_buckets level_ReserveMem_buckets)
  then show ?thesis by (simp add: EngineDb_ind_order_Find_def)
qed

theorem failed_buckets_are_not_reported_witness:
  "\<exists>m'. EngineDb_Init ((start_hand (None :: unit MatchingEngine option))\<lparr>alloc_ok := \<lambda>_. False\<rparr>) = Some m' \<and>
    EngineDb_ind_order_Find m' 1 = None"
proof -
  let ?m = "(start_hand (None :: unit MatchingEngine option))\<lparr>alloc_ok := \<lambda>_. False\<rparr>"
  have ch: "pool_chunks ?m [] []" by (simp add: start_hand_def pool_chunks_def chunk_table_def)
  obtain m' where "EngineDb_Init ?m = Some m'"
    by (simp add: EngineDb_Init_def EngineDb_Destroy_def EngineDb_order_pool_ReserveMem_def
        EngineDb_level_pool_ReserveMem_def alloc_call_def start_hand_def zero_EngineDb_def ORDER_CHUNK_SIZE_def LEVEL_CHUNK_SIZE_def Let_def EngineDb.extend_def)
  with failed_buckets_are_not_reported[OF ch _ this, of 1] show ?thesis by auto
qed

text \<open>
  When the array of chunk pointers cannot grow, the chunk just allocated is put to use but
  not recorded: its rows are on the free list, the table that teardown walks does not hold it,
  and teardown leaves it allocated.
\<close>

theorem untracked_chunk_leaks:
  assumes "order_chunks m = None" and "order_chunks_n m = 0" and "order_chunks_cap m = 0" and "level_chunks m = None"
    and "alloc_ok m (alloc_calls m)" and "\<not> alloc_ok m (Suc (alloc_calls m))" and "n \<noteq> 0" and "order_free_list m []"
  shows "\<exists>m'. EngineDb_order_pool_ReserveMem n m = Some (n, m') \<and> order_pool_free m' \<noteq> None \<and>
    order_chunks m' = None \<and> order_heap m' = order_brk m # order_heap m \<and>
    (\<exists>m''. EngineDb_Destroy m' = Some m'' \<and> order_brk m \<in> set (order_heap m''))"
proof -
  let ?m1 = "(order_calloc (unat n) (m\<lparr>alloc_calls := Suc (alloc_calls m)\<rparr>))\<lparr>alloc_calls := Suc (Suc (alloc_calls m))\<rparr>"
  let ?rows = "map (\<lambda>i. order_brk m + i) [0..<unat n]"
  have "order_free_list ?m1 []" using assms(8) by (simp add: order_calloc_def Let_def)
  moreover have "distinct ?rows" "set ?rows \<inter> set [] = {}" by (simp_all add: distinct_map)
  ultimately obtain h q where f: "fold push_free_order ?rows ?m1 = ?m1\<lparr>order_mem := h, order_pool_free := q\<rparr>"
    and c: "chain (ho_free h) q (rev ?rows @ [])"
    using push_free_orders[of ?m1 "[]" ?rows] by blast
  have fold: "fold (\<lambda>i. push_free_order (order_brk m + i)) [0..<unat n] ?m1 = ?m1\<lparr>order_mem := h, order_pool_free := q\<rparr>"
    using f by (simp add: fold_map comp_def)
  have "q \<noteq> None"
  proof
    assume "q = None"
    then have "unat n = 0" using c by simp
    then show False using assms(7) by (simp add: unsigned_eq_0_iff)
  qed
  let ?m' = "(?m1\<lparr>order_mem := h, order_pool_free := q\<rparr>)\<lparr>order_pool_total_allocated := order_pool_total_allocated m + n\<rparr>"
  have run: "EngineDb_order_pool_ReserveMem n m = Some (n, ?m')"
    using assms(2,3,5-7) fold
    by (simp add: EngineDb_order_pool_ReserveMem_def track_order_chunk_def alloc_call_def order_calloc_def Let_def)
  have "order_chunks ?m' = None" "level_chunks ?m' = None" "order_heap ?m' = order_brk m # order_heap m"
    using assms(1,4) by (simp_all add: order_calloc_def Let_def)
  moreover have "\<exists>m''. EngineDb_Destroy ?m' = Some m'' \<and> order_heap m'' = order_heap ?m'"
    using assms(1,4) by (cases m) (simp add: EngineDb_Destroy_def order_calloc_def EngineDb.extend_def Let_def)
  ultimately show ?thesis using run \<open>q \<noteq> None\<close> by (intro exI[of _ ?m']) auto
qed

theorem untracked_chunk_leaks_witness:
  "\<exists>m'. EngineDb_order_pool_ReserveMem 1 ((start_hand (None :: unit MatchingEngine option))\<lparr>alloc_ok := \<lambda>i. i = 0\<rparr>) = Some (1, m') \<and>
    (\<exists>m''. EngineDb_Destroy m' = Some m'' \<and> order_heap m'' \<noteq> [])"
proof -
  let ?m = "(start_hand (None :: unit MatchingEngine option))\<lparr>alloc_ok := \<lambda>i. i = 0\<rparr>"
  have "order_chunks ?m = None" "order_chunks_n ?m = 0" "order_chunks_cap ?m = 0" "level_chunks ?m = None"
    "alloc_ok ?m (alloc_calls ?m)" "\<not> alloc_ok ?m (Suc (alloc_calls ?m))" "(1 :: u64) \<noteq> 0" "order_free_list ?m []"
    by (simp_all add: start_hand_def)
  from untracked_chunk_leaks[OF this] show ?thesis by (metis list.set(1) empty_iff)
qed

end
