(* ===== verification/Cpp_Types.thy ===== *)
theory Cpp_Types
  imports Linked
begin

text \<open>
  The data of the C++ reference engine: \<^verbatim>\<open>cpp_reference/src/types.h\<close>, and the memory it lives
  in.  Orders and levels are objects on a heap; a pointer is an \<open>option\<close> of an address, and an
  address that is not in the heap's domain (never allocated, or deleted) is dangling.  An
  access through a null or dangling pointer, a failed \<^verbatim>\<open>assert\<close> and a signed overflow have no
  defined result: they are \<open>None\<close>.
\<close>

section \<open>Signed 64-bit arithmetic\<close>

text \<open>
  \<^verbatim>\<open>Price\<close> and \<^verbatim>\<open>Quantity\<close> are \<^verbatim>\<open>int64_t\<close>.  They are integers here, and each addition and
  subtraction of the code is checked, because overflow is undefined in C++.
\<close>

definition in64 :: "int \<Rightarrow> bool" where
  "in64 x \<longleftrightarrow> - 9223372036854775808 \<le> x \<and> x \<le> 9223372036854775807"

definition add64 :: "int \<Rightarrow> int \<Rightarrow> int option" where
  "add64 a b = (if in64 (a + b) then Some (a + b) else None)"

definition sub64 :: "int \<Rightarrow> int \<Rightarrow> int option" where
  "sub64 a b = (if in64 (a - b) then Some (a - b) else None)"

section \<open>Enumerations\<close>

datatype Side = BUY | SELL
datatype OrderType = LIMIT | MARKET | MARKET_TO_LIMIT | STOP_LIMIT | STOP_MARKET
datatype TimeInForce = GTC | GTD | IOC | FOK | DAY
datatype OrderStatus = NEW | PARTIALLY_FILLED | FILLED | CANCELLED | REJECTED | EXPIRED | TRIGGERED
datatype STPPolicy = NONE | CANCEL_NEWEST | CANCEL_OLDEST | CANCEL_BOTH | DECREMENT
datatype PostOnlyPolicy = REJECT | REPRICE

fun oppositeSide :: "Side \<Rightarrow> Side" where
  "oppositeSide BUY = SELL"
| "oppositeSide SELL = BUY"

section \<open>Records\<close>

type_synonym oaddr = nat
type_synonym laddr = nat

record CppOrder =
  co_id :: u64
  co_side :: Side
  co_type :: OrderType
  co_tif :: TimeInForce
  co_price :: int
  co_stop :: int
  co_qty :: int
  co_rem :: int
  co_minQty :: int
  co_display :: int
  co_visible :: int
  co_postOnly :: bool
  co_status :: OrderStatus
  co_timestamp :: u64
  co_expire :: u64
  co_stg :: u64
  co_stp :: STPPolicy
  co_prev :: "oaddr option"
  co_next :: "oaddr option"
  co_level :: "laddr option"

text \<open>The default member initialisers.\<close>

definition default_order :: CppOrder where
  "default_order = \<lparr>co_id = 0, co_side = BUY, co_type = LIMIT, co_tif = GTC, co_price = 0, co_stop = 0,
     co_qty = 0, co_rem = 0, co_minQty = 0, co_display = 0, co_visible = 0, co_postOnly = False,
     co_status = NEW, co_timestamp = 0, co_expire = 0, co_stg = 0, co_stp = NONE,
     co_prev = None, co_next = None, co_level = None\<rparr>"

record CppLevel =
  cl_price :: int
  cl_head :: "oaddr option"
  cl_tail :: "oaddr option"

record CppTrade =
  ct_id :: u64
  ct_price :: int
  ct_qty :: int
  ct_aggressor :: u64
  ct_passive :: u64
  ct_side :: Side
  ct_time :: u64

record OrderInput =
  in_id :: u64
  in_side :: Side
  in_type :: OrderType
  in_tif :: TimeInForce
  in_price :: int
  in_stop :: int
  in_qty :: int
  in_minQty :: int
  in_display :: int
  in_postOnly :: bool
  in_expire :: u64
  in_stg :: u64
  in_stp :: STPPolicy

text \<open>
  The calls of the listener, a template parameter whose methods get references to constants
  and return nothing: the engine's only contact with it is the sequence of its calls.
\<close>

datatype CppEvent =
    onOrderAccepted CppOrder
  | onOrderRejected CppOrder string
  | onTrade CppTrade
  | onOrderCancelled CppOrder string
  | onOrderExpired CppOrder
  | onOrderTriggered CppOrder
  | onOrderDecremented CppOrder CppOrder int
  | onOrderRepriced CppOrder int int

section \<open>The heap\<close>

record CppHeap =
  h_orders :: "oaddr \<Rightarrow> CppOrder option"
  h_levels :: "laddr \<Rightarrow> CppLevel option"
  h_obrk :: oaddr
  h_lbrk :: laddr

text \<open>Writing through a pointer.\<close>

definition upd_ord :: "oaddr \<Rightarrow> (CppOrder \<Rightarrow> CppOrder) \<Rightarrow> 'z CppHeap_scheme \<Rightarrow> 'z CppHeap_scheme option" where
  "upd_ord p f s = (case h_orders s p of None \<Rightarrow> None
     | Some r \<Rightarrow> Some (s\<lparr>h_orders := (h_orders s)(p := Some (f r))\<rparr>))"

definition upd_lvl :: "laddr \<Rightarrow> (CppLevel \<Rightarrow> CppLevel) \<Rightarrow> 'z CppHeap_scheme \<Rightarrow> 'z CppHeap_scheme option" where
  "upd_lvl p f s = (case h_levels s p of None \<Rightarrow> None
     | Some l \<Rightarrow> Some (s\<lparr>h_levels := (h_levels s)(p := Some (f l))\<rparr>))"

text \<open>\<^verbatim>\<open>new\<close> and \<^verbatim>\<open>delete\<close>; deleting what is not allocated has no defined result.\<close>

definition new_order :: "'z CppHeap_scheme \<Rightarrow> oaddr \<times> 'z CppHeap_scheme" where
  "new_order s = (h_obrk s, s\<lparr>h_orders := (h_orders s)(h_obrk s := Some default_order), h_obrk := Suc (h_obrk s)\<rparr>)"

definition delete_order :: "oaddr \<Rightarrow> 'z CppHeap_scheme \<Rightarrow> 'z CppHeap_scheme option" where
  "delete_order p s = (if h_orders s p = None then None else Some (s\<lparr>h_orders := (h_orders s)(p := None)\<rparr>))"

definition new_level :: "'z CppHeap_scheme \<Rightarrow> laddr \<times> 'z CppHeap_scheme" where
  "new_level s = (h_lbrk s, s\<lparr>h_levels := (h_levels s)(h_lbrk s := Some \<lparr>cl_price = 0, cl_head = None, cl_tail = None\<rparr>),
     h_lbrk := Suc (h_lbrk s)\<rparr>)"

definition delete_level :: "laddr \<Rightarrow> 'z CppHeap_scheme \<Rightarrow> 'z CppHeap_scheme option" where
  "delete_level p s = (if h_levels s p = None then None else Some (s\<lparr>h_levels := (h_levels s)(p := None)\<rparr>))"

section \<open>The list of a level\<close>

definition lvl_empty :: "'z CppHeap_scheme \<Rightarrow> laddr \<Rightarrow> bool option" where
  "lvl_empty s lv = do { l \<leftarrow> h_levels s lv; Some (cl_head l = None) }"

definition front :: "'z CppHeap_scheme \<Rightarrow> laddr \<Rightarrow> oaddr option option" where
  "front s lv = do { l \<leftarrow> h_levels s lv; Some (cl_head l) }"

definition pushBack :: "laddr \<Rightarrow> oaddr \<Rightarrow> 'z CppHeap_scheme \<Rightarrow> 'z CppHeap_scheme option" where
  "pushBack lv x s = do {
     l \<leftarrow> h_levels s lv;
     s \<leftarrow> upd_ord x (\<lambda>r. r\<lparr>co_prev := cl_tail l, co_next := None, co_level := Some lv\<rparr>) s;
     s \<leftarrow> (case cl_tail l of
             Some t \<Rightarrow> upd_ord t (\<lambda>r. r\<lparr>co_next := Some x\<rparr>) s
           | None \<Rightarrow> upd_lvl lv (\<lambda>l. l\<lparr>cl_head := Some x\<rparr>) s);
     upd_lvl lv (\<lambda>l. l\<lparr>cl_tail := Some x\<rparr>) s
   }"

definition lvl_remove :: "laddr \<Rightarrow> oaddr \<Rightarrow> 'z CppHeap_scheme \<Rightarrow> 'z CppHeap_scheme option" where
  "lvl_remove lv x s = do {
     r \<leftarrow> h_orders s x;
     s \<leftarrow> (case co_prev r of
             Some p \<Rightarrow> upd_ord p (\<lambda>q. q\<lparr>co_next := co_next r\<rparr>) s
           | None \<Rightarrow> upd_lvl lv (\<lambda>l. l\<lparr>cl_head := co_next r\<rparr>) s);
     r \<leftarrow> h_orders s x;
     s \<leftarrow> (case co_next r of
             Some n \<Rightarrow> upd_ord n (\<lambda>q. q\<lparr>co_prev := co_prev r\<rparr>) s
           | None \<Rightarrow> upd_lvl lv (\<lambda>l. l\<lparr>cl_tail := co_prev r\<rparr>) s);
     upd_ord x (\<lambda>r. r\<lparr>co_prev := None, co_next := None, co_level := None\<rparr>) s
   }"

end
