(* ===== verification/Cpp_Engine.thy ===== *)
theory Cpp_Engine
  imports Cpp_Types
begin

text \<open>
  The C++ reference engine: \<^verbatim>\<open>cpp_reference/src/engine.h\<close>, class by class and function by
  function.  Its functions take the state and return it in an \<open>option\<close>; \<open>None\<close> is a run with
  no defined result (see \<^verbatim>\<open>Cpp_Types\<close>) or one that does not end.
\<close>

section \<open>Loops\<close>

text \<open>\<open>while (true)\<close> with a body that goes on (\<open>Inl\<close>) or leaves (\<open>Inr\<close>).\<close>

partial_function (option) loop :: "('s \<Rightarrow> ('s + 'r) option) \<Rightarrow> 's \<Rightarrow> 'r option" where
  [code]: "loop f s = do { r \<leftarrow> f s; case r of Inl s' \<Rightarrow> loop f s' | Inr x \<Rightarrow> Some x }"

lemma loop_simps:
  "f s = None \<Longrightarrow> loop f s = None"
  "f s = Some (Inl s') \<Longrightarrow> loop f s = loop f s'"
  "f s = Some (Inr x) \<Longrightarrow> loop f s = Some x"
  by (subst loop.simps; simp)+

section \<open>The order index\<close>

text \<open>
  \<^verbatim>\<open>slots_\<close> is an array of \<^verbatim>\<open>cap_\<close> pointers: the function is read below the capacity only.
  \<^verbatim>\<open>freeStack_\<close> is the list of its first \<^verbatim>\<open>freeCount_\<close> entries, last pushed first.
\<close>

record OrderIndex =
  ix_slots :: "u64 \<Rightarrow> oaddr option"
  ix_cap :: u32
  ix_count :: u32
  ix_free :: "u64 list"
  ix_nextId :: u64

definition INIT_CAP :: u32 where "INIT_CAP = 1048576"
definition FREE_STACK_CAP :: int where "FREE_STACK_CAP = 1048576"

definition OrderIndex_new :: OrderIndex where
  "OrderIndex_new = \<lparr>ix_slots = \<lambda>_. None, ix_cap = INIT_CAP, ix_count = 0, ix_free = [], ix_nextId = 1\<rparr>"

text \<open>\<^verbatim>\<open>while (nc <= need) nc *= 2;\<close>, which the wrap-around of \<^verbatim>\<open>nc\<close> to zero can make endless.\<close>

partial_function (option) double_until :: "u32 \<Rightarrow> u32 \<Rightarrow> u32 option" where
  [code]: "double_until nc need = (if nc \<le> need then double_until (nc * 2) need else Some nc)"

definition OrderIndex_grow :: "u32 \<Rightarrow> OrderIndex \<Rightarrow> OrderIndex option" where
  "OrderIndex_grow need ix = do {
     nc \<leftarrow> double_until (ix_cap ix) need;
     Some (ix\<lparr>ix_slots := (\<lambda>i. if i < ucast (ix_cap ix) then ix_slots ix i else None), ix_cap := nc\<rparr>)
   }"

definition OrderIndex_size :: "OrderIndex \<Rightarrow> u32" where
  "OrderIndex_size ix = ix_count ix"

definition OrderIndex_get :: "OrderIndex \<Rightarrow> u64 \<Rightarrow> oaddr option" where
  "OrderIndex_get ix i = (if i \<ge> ucast (ix_cap ix) then None else ix_slots ix i)"

definition OrderIndex_has :: "OrderIndex \<Rightarrow> u64 \<Rightarrow> bool" where
  "OrderIndex_has ix i \<longleftrightarrow> OrderIndex_get ix i \<noteq> None"

text \<open>\<^verbatim>\<open>slots_[id] = o\<close>, undefined past the end of the array.\<close>

definition write_slot :: "u64 \<Rightarrow> oaddr option \<Rightarrow> OrderIndex \<Rightarrow> OrderIndex option" where
  "write_slot i p ix = (if i < ucast (ix_cap ix) then Some (ix\<lparr>ix_slots := (ix_slots ix)(i := p)\<rparr>) else None)"

definition OrderIndex_insert :: "u64 \<Rightarrow> oaddr \<Rightarrow> OrderIndex \<Rightarrow> OrderIndex option" where
  "OrderIndex_insert i x ix = do {
     ix \<leftarrow> (if i \<ge> ucast (ix_cap ix) then OrderIndex_grow (ucast i) ix else Some ix);
     ix \<leftarrow> write_slot i (Some x) ix;
     Some (ix\<lparr>ix_count := ix_count ix + 1\<rparr>)
   }"

definition OrderIndex_erase :: "u64 \<Rightarrow> OrderIndex \<Rightarrow> OrderIndex option" where
  "OrderIndex_erase i ix = do {
     ix \<leftarrow> write_slot i None ix;
     let ix = ix\<lparr>ix_count := ix_count ix - 1\<rparr>;
     Some (if int (length (ix_free ix)) < FREE_STACK_CAP then ix\<lparr>ix_free := i # ix_free ix\<rparr> else ix)
   }"

definition OrderIndex_assignId :: "OrderIndex \<Rightarrow> (u64 \<times> OrderIndex) option" where
  "OrderIndex_assignId ix =
     (case ix_free ix of
        i # is \<Rightarrow> Some (i, ix\<lparr>ix_free := is\<rparr>)
      | [] \<Rightarrow> do {
          let i = ix_nextId ix;
          let ix = ix\<lparr>ix_nextId := i + 1\<rparr>;
          ix \<leftarrow> (if i \<ge> ucast (ix_cap ix) then OrderIndex_grow (ucast i) ix else Some ix);
          Some (i, ix)
        })"

text \<open>The live entries in index order, as the destructor visits them; \<open>k\<close> slots are left.\<close>

fun forEachLive_from :: "nat \<Rightarrow> u64 \<Rightarrow> u32 \<Rightarrow> OrderIndex \<Rightarrow> oaddr list" where
  "forEachLive_from 0 i found ix = []"
| "forEachLive_from (Suc k) i found ix =
     (if found < ix_count ix
      then (case ix_slots ix i of
              Some x \<Rightarrow> x # forEachLive_from k (i + 1) (found + 1) ix
            | None \<Rightarrow> forEachLive_from k (i + 1) found ix)
      else [])"

definition forEachLive :: "OrderIndex \<Rightarrow> oaddr list" where
  "forEachLive ix = (if ix_count ix = 0 then [] else forEachLive_from (unat (ix_cap ix)) 0 0 ix)"

section \<open>The engine\<close>

text \<open>
  \<^verbatim>\<open>bids_\<close> and \<^verbatim>\<open>asks_\<close> are ordered maps, here the lists of their entries in iteration order
  (falling prices for bids, rising ones for asks).
\<close>

record CppEngine = CppHeap +
  e_log :: "CppEvent list"
  e_bids :: "(int \<times> laddr) list"
  e_asks :: "(int \<times> laddr) list"
  e_idx :: OrderIndex
  e_stops :: "oaddr list"
  e_trades :: "CppTrade list"
  e_now :: u64
  e_tid :: u64
  e_lastPx :: int
  e_poPol :: PostOnlyPolicy
  e_tick :: int
  e_oA :: u64
  e_oF :: u64
  e_oP :: u64
  e_lA :: u64
  e_lF :: u64
  e_lP :: u64

definition MAX_CASCADE :: nat where "MAX_CASCADE = 10"

definition Engine_new :: "PostOnlyPolicy \<Rightarrow> int \<Rightarrow> CppEngine" where
  "Engine_new pop tickSz =
     \<lparr>h_orders = Map.empty, h_levels = Map.empty, h_obrk = 0, h_lbrk = 0, e_log = [], e_bids = [], e_asks = [],
      e_idx = OrderIndex_new, e_stops = [], e_trades = [], e_now = 0, e_tid = 1, e_lastPx = 0, e_poPol = pop,
      e_tick = tickSz, e_oA = 0, e_oF = 0, e_oP = 0, e_lA = 0, e_lF = 0, e_lP = 0\<rparr>"

text \<open>A call of the listener.\<close>

definition notify :: "CppEvent \<Rightarrow> CppEngine \<Rightarrow> CppEngine" where
  "notify ev s = s\<lparr>e_log := e_log s @ [ev]\<rparr>"

text \<open>The map of one side.\<close>

fun side_map :: "Side \<Rightarrow> CppEngine \<Rightarrow> (int \<times> laddr) list" where
  "side_map BUY s = e_bids s"
| "side_map SELL s = e_asks s"

fun set_side_map :: "Side \<Rightarrow> (int \<times> laddr) list \<Rightarrow> CppEngine \<Rightarrow> CppEngine" where
  "set_side_map BUY m s = s\<lparr>e_bids := m\<rparr>"
| "set_side_map SELL m s = s\<lparr>e_asks := m\<rparr>"

text \<open>The order of a side's map: \<^verbatim>\<open>std::greater\<close> for bids, \<^verbatim>\<open>std::less\<close> for asks.\<close>

fun px_before :: "Side \<Rightarrow> int \<Rightarrow> int \<Rightarrow> bool" where
  "px_before BUY a b \<longleftrightarrow> b < a"
| "px_before SELL a b \<longleftrightarrow> a < b"

fun map_put :: "Side \<Rightarrow> int \<Rightarrow> laddr \<Rightarrow> (int \<times> laddr) list \<Rightarrow> (int \<times> laddr) list" where
  "map_put sd p lv [] = [(p, lv)]"
| "map_put sd p lv ((q, k) # m) =
     (if p = q then (p, lv) # m else if px_before sd p q then (p, lv) # (q, k) # m else (q, k) # map_put sd p lv m)"

definition map_erase :: "int \<Rightarrow> (int \<times> laddr) list \<Rightarrow> (int \<times> laddr) list" where
  "map_erase p m = filter (\<lambda>e. fst e \<noteq> p) m"

subsection \<open>Accessors\<close>

definition bestBid :: "CppEngine \<Rightarrow> int" where
  "bestBid s = (case e_bids s of [] \<Rightarrow> 0 | (p, _) # _ \<Rightarrow> p)"

definition bestAsk :: "CppEngine \<Rightarrow> int" where
  "bestAsk s = (case e_asks s of [] \<Rightarrow> 0 | (p, _) # _ \<Rightarrow> p)"

definition engine_time :: "CppEngine \<Rightarrow> u64" where "engine_time s = e_now s"
definition setTime :: "u64 \<Rightarrow> CppEngine \<Rightarrow> CppEngine" where "setTime t s = s\<lparr>e_now := t\<rparr>"
definition orderCount :: "CppEngine \<Rightarrow> u64" where "orderCount s = ucast (OrderIndex_size (e_idx s))"
definition stopCount :: "CppEngine \<Rightarrow> nat" where "stopCount s = length (e_stops s)"
definition hasOrder :: "CppEngine \<Rightarrow> u64 \<Rightarrow> bool" where "hasOrder s i = OrderIndex_has (e_idx s) i"
definition tradeCount :: "CppEngine \<Rightarrow> u64" where "tradeCount s = e_tid s - 1"
definition activeOrders :: "CppEngine \<Rightarrow> u64" where "activeOrders s = e_oA s - e_oF s"
definition lastTradePrice :: "CppEngine \<Rightarrow> int" where "lastTradePrice s = e_lastPx s"
definition ordersAllocated :: "CppEngine \<Rightarrow> u64" where "ordersAllocated s = e_oA s"
definition ordersFreed :: "CppEngine \<Rightarrow> u64" where "ordersFreed s = e_oF s"
definition peakOrders :: "CppEngine \<Rightarrow> u64" where "peakOrders s = e_oP s"
definition levelsAllocated :: "CppEngine \<Rightarrow> u64" where "levelsAllocated s = e_lA s"
definition levelsFreed :: "CppEngine \<Rightarrow> u64" where "levelsFreed s = e_lF s"
definition peakLevels :: "CppEngine \<Rightarrow> u64" where "peakLevels s = e_lP s"
definition bidLevelCount :: "CppEngine \<Rightarrow> nat" where "bidLevelCount s = length (e_bids s)"
definition askLevelCount :: "CppEngine \<Rightarrow> nat" where "askLevelCount s = length (e_asks s)"
definition activeLevels :: "CppEngine \<Rightarrow> u64" where "activeLevels s = e_lA s - e_lF s"

definition assignId :: "CppEngine \<Rightarrow> (u64 \<times> CppEngine) option" where
  "assignId s = do { (i, ix) \<leftarrow> OrderIndex_assignId (e_idx s); Some (i, s\<lparr>e_idx := ix\<rparr>) }"

subsection \<open>Allocation and the clock\<close>

definition allocOrd :: "CppEngine \<Rightarrow> oaddr \<times> CppEngine" where
  "allocOrd s =
     (let (x, s) = new_order s;
          s = s\<lparr>e_oA := e_oA s + 1\<rparr>;
          a = e_oA s - e_oF s
      in (x, if a > e_oP s then s\<lparr>e_oP := a\<rparr> else s))"

definition freeOrd :: "oaddr \<Rightarrow> CppEngine \<Rightarrow> CppEngine option" where
  "freeOrd x s = do { s \<leftarrow> delete_order x s; Some (s\<lparr>e_oF := e_oF s + 1\<rparr>) }"

definition allocLvl :: "int \<Rightarrow> CppEngine \<Rightarrow> (laddr \<times> CppEngine) option" where
  "allocLvl p s = do {
     let (l, s) = new_level s;
     s \<leftarrow> upd_lvl l (\<lambda>r. r\<lparr>cl_price := p\<rparr>) s;
     let s = s\<lparr>e_lA := e_lA s + 1\<rparr>;
     let a = e_lA s - e_lF s;
     Some (l, if a > e_lP s then s\<lparr>e_lP := a\<rparr> else s)
   }"

definition freeLvl :: "laddr \<Rightarrow> CppEngine \<Rightarrow> CppEngine option" where
  "freeLvl l s = do { s \<leftarrow> delete_level l s; Some (s\<lparr>e_lF := e_lF s + 1\<rparr>) }"

definition tick :: "CppEngine \<Rightarrow> u64 \<times> CppEngine" where
  "tick s = (e_now s + 1, s\<lparr>e_now := e_now s + 1\<rparr>)"

text \<open>\<^verbatim>\<open>idx_.erase(id)\<close> and \<^verbatim>\<open>idx_.insert(id, o)\<close> on the engine.\<close>

definition idx_erase :: "u64 \<Rightarrow> CppEngine \<Rightarrow> CppEngine option" where
  "idx_erase i s = do { ix \<leftarrow> OrderIndex_erase i (e_idx s); Some (s\<lparr>e_idx := ix\<rparr>) }"

definition idx_insert :: "u64 \<Rightarrow> oaddr \<Rightarrow> CppEngine \<Rightarrow> CppEngine option" where
  "idx_insert i x s = do { ix \<leftarrow> OrderIndex_insert i x (e_idx s); Some (s\<lparr>e_idx := ix\<rparr>) }"

text \<open>The pair \<^verbatim>\<open>idx_.erase(o->id); freeOrd(o);\<close>.\<close>

definition drop_ord :: "oaddr \<Rightarrow> CppEngine \<Rightarrow> CppEngine option" where
  "drop_ord x s = do { r \<leftarrow> h_orders s x; s \<leftarrow> idx_erase (co_id r) s; freeOrd x s }"

text \<open>\<^verbatim>\<open>o->status = st; L.onOrderCancelled(*o, why);\<close> and the like.\<close>

definition set_status :: "OrderStatus \<Rightarrow> oaddr \<Rightarrow> CppEngine \<Rightarrow> CppEngine option" where
  "set_status st x s = upd_ord x (\<lambda>r. r\<lparr>co_status := st\<rparr>) s"

definition notify_ord :: "(CppOrder \<Rightarrow> CppEvent) \<Rightarrow> oaddr \<Rightarrow> CppEngine \<Rightarrow> CppEngine option" where
  "notify_ord ev x s = do { r \<leftarrow> h_orders s x; Some (notify (ev r) s) }"

definition cancel_ord :: "string \<Rightarrow> oaddr \<Rightarrow> CppEngine \<Rightarrow> CppEngine option" where
  "cancel_ord why x s = do { s \<leftarrow> set_status CANCELLED x s; notify_ord (\<lambda>r. onOrderCancelled r why) x s }"

subsection \<open>Levels\<close>

definition rmLevel :: "laddr \<Rightarrow> Side \<Rightarrow> CppEngine \<Rightarrow> CppEngine option" where
  "rmLevel lv sd s = do {
     l \<leftarrow> h_levels s lv;
     freeLvl lv (set_side_map sd (map_erase (cl_price l) (side_map sd s)) s)
   }"

definition insertSide :: "Side \<Rightarrow> oaddr \<Rightarrow> CppEngine \<Rightarrow> CppEngine option" where
  "insertSide sd x s = do {
     r \<leftarrow> h_orders s x;
     (lv, s) \<leftarrow> (case map_of (side_map sd s) (co_price r) of
        Some lv \<Rightarrow> Some (lv, s)
      | None \<Rightarrow> do {
          (lv, s) \<leftarrow> allocLvl (co_price r) s;
          Some (lv, set_side_map sd (map_put sd (co_price r) lv (side_map sd s)) s)
        });
     pushBack lv x s
   }"

text \<open>The visible quantity of an order with so much left.\<close>

definition fresh_visible :: "CppOrder \<Rightarrow> int" where
  "fresh_visible r = (if co_display r > 0 then min (co_display r) (co_rem r) else co_rem r)"

definition insertOrder :: "oaddr \<Rightarrow> CppEngine \<Rightarrow> CppEngine option" where
  "insertOrder x s = do {
     s \<leftarrow> upd_ord x (\<lambda>r. r\<lparr>co_visible := fresh_visible r\<rparr>) s;
     r \<leftarrow> h_orders s x;
     insertSide (co_side r) x s
   }"

subsection \<open>Stop orders\<close>

text \<open>\<^verbatim>\<open>stops_[i] = stops_.back(); stops_.pop_back();\<close>\<close>

definition swap_pop :: "nat \<Rightarrow> 'a list \<Rightarrow> 'a list" where
  "swap_pop i xs = butlast (xs[i := last xs])"

fun find_index :: "'a \<Rightarrow> nat \<Rightarrow> 'a list \<Rightarrow> nat option" where
  "find_index x i [] = None"
| "find_index x i (y # ys) = (if y = x then Some i else find_index x (Suc i) ys)"

definition rmStop :: "oaddr \<Rightarrow> CppEngine \<Rightarrow> CppEngine" where
  "rmStop x s = (case find_index x 0 (e_stops s) of
     Some i \<Rightarrow> s\<lparr>e_stops := swap_pop i (e_stops s)\<rparr> | None \<Rightarrow> s)"

text \<open>The trigger condition of a stop order at price \<open>px\<close>.\<close>

definition fires :: "int \<Rightarrow> CppOrder \<Rightarrow> bool" where
  "fires px r \<longleftrightarrow> (if co_side r = BUY then px \<ge> co_stop r else px \<le> co_stop r)"

definition shouldTrigger :: "CppEngine \<Rightarrow> CppOrder \<Rightarrow> bool" where
  "shouldTrigger s r \<longleftrightarrow> (if e_lastPx s = 0 then False else fires (e_lastPx s) r)"

subsection \<open>Predicates\<close>

definition canMatch :: "CppOrder \<Rightarrow> int \<Rightarrow> bool" where
  "canMatch r lvPx \<longleftrightarrow> (if co_price r = 0 then True
     else if co_side r = BUY then co_price r \<ge> lvPx else co_price r \<le> lvPx)"

definition wouldCross :: "CppEngine \<Rightarrow> CppOrder \<Rightarrow> bool" where
  "wouldCross s r \<longleftrightarrow>
     (if co_side r = BUY then (case e_asks s of [] \<Rightarrow> False | (p, _) # _ \<Rightarrow> co_price r \<ge> p)
      else (case e_bids s of [] \<Rightarrow> False | (p, _) # _ \<Rightarrow> co_price r \<le> p))"

definition stpConflict :: "CppOrder \<Rightarrow> CppOrder \<Rightarrow> bool" where
  "stpConflict a b \<longleftrightarrow> co_stg a \<noteq> 0 \<and> co_stg b \<noteq> 0 \<and> co_stg a = co_stg b"

definition validate :: "u64 \<Rightarrow> CppOrder \<Rightarrow> string option" where
  "validate now r =
     (if co_qty r \<le> 0 then Some ''WF1''
      else if co_type r = LIMIT \<and> co_price r \<le> 0 then Some ''WF2''
      else if co_type r = STOP_LIMIT \<and> co_price r \<le> 0 then Some ''WF2A''
      else if co_type r = MARKET_TO_LIMIT \<and> co_price r \<noteq> 0 then Some ''WF2B''
      else if (co_type r = MARKET \<or> co_type r = STOP_MARKET) \<and> co_price r \<noteq> 0 then Some ''WF3''
      else if (co_type r = STOP_LIMIT \<or> co_type r = STOP_MARKET) \<and> co_stop r \<le> 0 then Some ''WF4''
      else if (co_type r = LIMIT \<or> co_type r = MARKET \<or> co_type r = MARKET_TO_LIMIT) \<and> co_stop r \<noteq> 0 then Some ''WF5''
      else if co_tif r = GTD \<and> (co_expire r = 0 \<or> co_expire r \<le> now) then Some ''WF6''
      else if co_tif r \<noteq> GTD \<and> co_expire r \<noteq> 0 then Some ''WF7''
      else if co_type r = MARKET \<and> co_tif r \<noteq> IOC \<and> co_tif r \<noteq> FOK then Some ''WF8''
      else if co_type r = MARKET_TO_LIMIT \<and> co_tif r \<noteq> GTC \<and> co_tif r \<noteq> GTD \<and> co_tif r \<noteq> DAY then Some ''WF8A''
      else if co_display r \<noteq> 0 \<and> (co_display r \<le> 0 \<or> co_display r > co_qty r) then Some ''WF9''
      else if co_display r \<noteq> 0 \<and> co_type r \<noteq> LIMIT then Some ''WF10''
      else if co_postOnly r \<and> co_type r \<noteq> LIMIT then Some ''WF13''
      else if co_postOnly r \<and> (co_tif r = IOC \<or> co_tif r = FOK) then Some ''WF14''
      else if co_postOnly r \<and> (co_type r = MARKET \<or> co_type r = MARKET_TO_LIMIT) then Some ''WF15''
      else if (co_stg r = 0) \<noteq> (co_stp r = NONE) then Some ''WF16''
      else if co_minQty r \<noteq> 0 \<and> (co_minQty r \<le> 0 \<or> co_minQty r > co_qty r) then Some ''WF18''
      else if co_minQty r \<noteq> 0 \<and> co_postOnly r then Some ''WF19''
      else if co_tif r = FOK \<and> co_minQty r \<noteq> 0 then Some ''WF20''
      else None)"

end
