(* ===== verification/Cpp_Match.thy ===== *)
theory Cpp_Match
  imports Cpp_Engine
begin

text \<open>
  The C++ reference engine, continued: quantity checks, self-trade prevention, matching,
  disposal, the stop cascade, and the public entry points of \<^verbatim>\<open>Engine\<close>.
\<close>

section \<open>Quantity checks\<close>

text \<open>
  The inner loop of \<^verbatim>\<open>availQty\<close>: \<open>Inr\<close> is its early \<^verbatim>\<open>return avail\<close>.
\<close>

partial_function (option) avail_level ::
  "CppEngine \<Rightarrow> CppOrder \<Rightarrow> int \<Rightarrow> oaddr option \<Rightarrow> int \<Rightarrow> (int + int) option" where
  [code]: "avail_level s inc thresh p avail =
     (case p of
        None \<Rightarrow> Some (Inl avail)
      | Some x \<Rightarrow> do {
          r \<leftarrow> h_orders s x;
          if stpConflict inc r then avail_level s inc thresh (co_next r) avail
          else do {
            avail \<leftarrow> add64 avail (co_visible r);
            if avail \<ge> thresh then Some (Inr avail)
            else avail_level s inc thresh (co_next r) avail
          }
        })"

fun availQty :: "CppEngine \<Rightarrow> CppOrder \<Rightarrow> (int \<times> laddr) list \<Rightarrow> int \<Rightarrow> int \<Rightarrow> int option" where
  "availQty s inc [] thresh avail = Some avail"
| "availQty s inc ((p, lv) # contra) thresh avail =
     (if \<not> canMatch inc p then Some avail
      else do {
        l \<leftarrow> h_levels s lv;
        r \<leftarrow> avail_level s inc thresh (cl_head l) avail;
        case r of
          Inr avail \<Rightarrow> Some avail
        | Inl avail \<Rightarrow> availQty s inc contra thresh avail
      })"

definition fokCheck :: "CppEngine \<Rightarrow> CppOrder \<Rightarrow> bool option" where
  "fokCheck s r = do {
     a \<leftarrow> availQty s r (side_map (oppositeSide (co_side r)) s) (co_qty r) 0;
     Some (a \<ge> co_qty r)
   }"

definition minQtyCheck :: "CppEngine \<Rightarrow> CppOrder \<Rightarrow> bool option" where
  "minQtyCheck s r = do {
     a \<leftarrow> availQty s r (side_map (oppositeSide (co_side r)) s) (co_minQty r) 0;
     Some (a \<ge> co_minQty r)
   }"

section \<open>Self-trade prevention\<close>

text \<open>\<^verbatim>\<open>rest->level->remove(rest)\<close>.\<close>

definition unlink :: "oaddr \<Rightarrow> CppEngine \<Rightarrow> CppEngine option" where
  "unlink x s = do { r \<leftarrow> h_orders s x; lv \<leftarrow> co_level r; lvl_remove lv x s }"

definition stp_decrement :: "oaddr \<Rightarrow> oaddr \<Rightarrow> CppEngine \<Rightarrow> CppEngine option" where
  "stp_decrement inc rest s = do {
     i \<leftarrow> h_orders s inc;
     r \<leftarrow> h_orders s rest;
     let rq = min (co_rem i) (co_visible r);
     irem \<leftarrow> sub64 (co_rem i) rq;
     s \<leftarrow> upd_ord inc (\<lambda>w. w\<lparr>co_rem := irem\<rparr>) s;
     r \<leftarrow> h_orders s rest;
     rrem \<leftarrow> sub64 (co_rem r) rq;
     rvis \<leftarrow> sub64 (co_visible r) rq;
     s \<leftarrow> upd_ord rest (\<lambda>w. w\<lparr>co_rem := rrem, co_visible := rvis\<rparr>) s;
     s \<leftarrow> upd_ord inc (\<lambda>w. w\<lparr>co_visible := fresh_visible w\<rparr>) s;
     s \<leftarrow> upd_ord inc (\<lambda>w. if co_rem w = 0 then w\<lparr>co_status := CANCELLED\<rparr> else w) s;
     s \<leftarrow> upd_ord rest (\<lambda>w. if co_rem w = 0 then w\<lparr>co_status := CANCELLED\<rparr> else w) s;
     i \<leftarrow> h_orders s inc;
     r \<leftarrow> h_orders s rest;
     let s = notify (onOrderDecremented i r rq) s;
     if co_rem r = 0 then do { s \<leftarrow> unlink rest s; drop_ord rest s }
     else if co_visible r = 0 \<and> co_display r > 0 then do {
       let (t, s) = tick s;
       s \<leftarrow> upd_ord rest (\<lambda>w. w\<lparr>co_visible := min (co_display w) (co_rem w), co_timestamp := t\<rparr>) s;
       lv \<leftarrow> co_level r;
       s \<leftarrow> lvl_remove lv rest s;
       pushBack lv rest s
     }
     else Some s
   }"

definition handleStp :: "oaddr \<Rightarrow> oaddr \<Rightarrow> CppEngine \<Rightarrow> CppEngine option" where
  "handleStp inc rest s = do {
     i \<leftarrow> h_orders s inc;
     case co_stp i of
       CANCEL_NEWEST \<Rightarrow> cancel_ord ''STP_CANCEL_NEWEST'' inc s
     | CANCEL_OLDEST \<Rightarrow> do {
         s \<leftarrow> set_status CANCELLED rest s;
         s \<leftarrow> unlink rest s;
         s \<leftarrow> notify_ord (\<lambda>r. onOrderCancelled r ''STP_CANCEL_OLDEST'') rest s;
         drop_ord rest s
       }
     | CANCEL_BOTH \<Rightarrow> do {
         s \<leftarrow> set_status CANCELLED inc s;
         s \<leftarrow> set_status CANCELLED rest s;
         s \<leftarrow> unlink rest s;
         s \<leftarrow> notify_ord (\<lambda>r. onOrderCancelled r ''STP_CANCEL_BOTH'') inc s;
         s \<leftarrow> notify_ord (\<lambda>r. onOrderCancelled r ''STP_CANCEL_BOTH'') rest s;
         drop_ord rest s
       }
     | DECREMENT \<Rightarrow> stp_decrement inc rest s
     | NONE \<Rightarrow> Some s
   }"

section \<open>Matching\<close>

text \<open>
  The trade of \<open>inc\<close> with \<open>rest\<close>, from the \<^verbatim>\<open>assert\<close> to the end of the inner loop's body.
\<close>

definition fill_rest :: "oaddr \<Rightarrow> laddr \<Rightarrow> oaddr \<Rightarrow> CppEngine \<Rightarrow> CppEngine option" where
  "fill_rest inc lv rest s = do {
     i \<leftarrow> h_orders s inc;
     r \<leftarrow> h_orders s rest;
     let fq = min (co_rem i) (co_visible r);
     if \<not> fq > 0 then None else do {
       let s = s\<lparr>e_trades := e_trades s @
         [\<lparr>ct_id = e_tid s, ct_price = co_price r, ct_qty = fq, ct_aggressor = co_id i, ct_passive = co_id r,
           ct_side = co_side i, ct_time = e_now s\<rparr>], e_tid := e_tid s + 1\<rparr>;
       irem \<leftarrow> sub64 (co_rem i) fq;
       s \<leftarrow> upd_ord inc (\<lambda>w. w\<lparr>co_rem := irem\<rparr>) s;
       r \<leftarrow> h_orders s rest;
       rvis \<leftarrow> sub64 (co_visible r) fq;
       rrem \<leftarrow> sub64 (co_rem r) fq;
       s \<leftarrow> upd_ord rest (\<lambda>w. w\<lparr>co_visible := rvis, co_rem := rrem\<rparr>) s;
       if rvis = 0 \<and> rrem > 0 \<and> co_display r > 0 then do {
         let (t, s) = tick s;
         s \<leftarrow> upd_ord rest (\<lambda>w. w\<lparr>co_visible := min (co_display w) (co_rem w), co_timestamp := t\<rparr>) s;
         s \<leftarrow> lvl_remove lv rest s;
         pushBack lv rest s
       }
       else if rrem = 0 then do {
         s \<leftarrow> set_status FILLED rest s;
         s \<leftarrow> lvl_remove lv rest s;
         drop_ord rest s
       }
       else set_status PARTIALLY_FILLED rest s
     }
   }"

text \<open>
  \<^verbatim>\<open>contra.erase(li); freeLvl(lv);\<close> under \<^verbatim>\<open>if (lv->empty())\<close>; \<open>c\<close> is the opposing side and \<open>p\<close> the
  key under \<^verbatim>\<open>li\<close>.
\<close>

definition erase_if_empty :: "Side \<Rightarrow> int \<Rightarrow> laddr \<Rightarrow> CppEngine \<Rightarrow> CppEngine option" where
  "erase_if_empty c p lv s = do {
     e \<leftarrow> lvl_empty s lv;
     if e then freeLvl lv (set_side_map c (map_erase p (side_map c s)) s) else Some s
   }"

text \<open>
  The inner loop; the flag of the result says that the function returned from inside it.
\<close>

definition match_level_step ::
  "oaddr \<Rightarrow> Side \<Rightarrow> int \<Rightarrow> laddr \<Rightarrow> CppEngine \<Rightarrow> (CppEngine + bool \<times> CppEngine) option" where
  "match_level_step inc c p lv s = do {
     i \<leftarrow> h_orders s inc;
     hd \<leftarrow> front s lv;
     case hd of
       None \<Rightarrow> Some (Inr (False, s))
     | Some rest \<Rightarrow>
         if \<not> co_rem i > 0 then Some (Inr (False, s))
         else do {
           r \<leftarrow> h_orders s rest;
           if stpConflict i r then do {
             s \<leftarrow> handleStp inc rest s;
             i \<leftarrow> h_orders s inc;
             if co_status i = CANCELLED \<or> co_rem i = 0
             then do { s \<leftarrow> erase_if_empty c p lv s; Some (Inr (True, s)) }
             else Some (Inl s)
           }
           else do { s \<leftarrow> fill_rest inc lv rest s; Some (Inl s) }
         }
   }"

definition match_step ::
  "oaddr \<Rightarrow> Side \<Rightarrow> (int \<times> laddr) list \<times> CppEngine \<Rightarrow> ((int \<times> laddr) list \<times> CppEngine + CppEngine) option" where
  "match_step inc c = (\<lambda>(li, s). do {
     i \<leftarrow> h_orders s inc;
     case li of
       [] \<Rightarrow> Some (Inr s)
     | (p, lv) # li \<Rightarrow>
         if \<not> co_rem i > 0 then Some (Inr s)
         else do {
           l \<leftarrow> h_levels s lv;
           if \<not> canMatch i (cl_price l) then Some (Inr s)
           else do {
             (ret, s) \<leftarrow> loop (match_level_step inc c p lv) s;
             if ret then Some (Inr s)
             else do { s \<leftarrow> erase_if_empty c p lv s; Some (Inl (li, s)) }
           }
         }
   })"

definition matchAgainst :: "oaddr \<Rightarrow> Side \<Rightarrow> CppEngine \<Rightarrow> CppEngine option" where
  "matchAgainst inc c s = loop (match_step inc c) (side_map c s, s)"

definition matchOrd :: "oaddr \<Rightarrow> CppEngine \<Rightarrow> CppEngine option" where
  "matchOrd x s = do { r \<leftarrow> h_orders s x; matchAgainst x (oppositeSide (co_side r)) s }"

section \<open>Disposal\<close>

definition dispose :: "oaddr \<Rightarrow> bool \<Rightarrow> CppEngine \<Rightarrow> CppEngine option" where
  "dispose x hasTr s = do {
     r \<leftarrow> h_orders s x;
     if co_rem r = 0 then set_status FILLED x s
     else case co_tif r of
       IOC \<Rightarrow> cancel_ord ''IOC_REMAINDER'' x s
     | FOK \<Rightarrow> None
     | _ \<Rightarrow>
         if co_type r = MARKET then cancel_ord ''MARKET_NO_FULL_FILL'' x s
         else do {
           s \<leftarrow> insertOrder x s;
           set_status (if hasTr then PARTIALLY_FILLED else NEW) x s
         }
   }"

section \<open>Trades out, stops in\<close>

text \<open>The next \<open>k\<close> trades from index \<open>i\<close> on; \<open>eval\<close> is the call of \<^verbatim>\<open>evalStops\<close>, if any.\<close>

fun emit_from :: "(int \<Rightarrow> CppEngine \<Rightarrow> CppEngine option) \<Rightarrow> nat \<Rightarrow> nat \<Rightarrow> CppEngine \<Rightarrow> CppEngine option" where
  "emit_from eval 0 i s = Some s"
| "emit_from eval (Suc k) i s =
     (if i < length (e_trades s)
      then do {
        let t = e_trades s ! i;
        s \<leftarrow> eval (ct_price t) ((notify (onTrade t) s)\<lparr>e_lastPx := ct_price t\<rparr>);
        emit_from eval k (Suc i) s
      }
      else None)"

definition emitAndTrigger :: "(int \<Rightarrow> CppEngine \<Rightarrow> CppEngine option) \<Rightarrow> nat \<Rightarrow> CppEngine \<Rightarrow> CppEngine option" where
  "emitAndTrigger eval start s = emit_from eval (length (e_trades s) - start) start s"

text \<open>The scan of \<^verbatim>\<open>evalStops\<close>: the orders taken out, and the vector without them.\<close>

function scan_stops ::
  "(oaddr \<Rightarrow> CppOrder option) \<Rightarrow> (CppOrder \<Rightarrow> bool) \<Rightarrow> nat \<Rightarrow> oaddr list \<Rightarrow> oaddr list \<Rightarrow> (oaddr list \<times> oaddr list) option" where
  "scan_stops h P i stops trig =
     (if i < length stops
      then do {
        r \<leftarrow> h (stops ! i);
        if P r then scan_stops h P i (swap_pop i stops) (trig @ [stops ! i])
        else scan_stops h P (Suc i) stops trig
      }
      else Some (trig, stops))"
  by pat_completeness auto
termination
  by (relation "measure (\<lambda>(h, P, i, stops, trig). length stops - i)") (auto simp: swap_pop_def)

declare scan_stops.simps [simp del]

text \<open>
  \<^verbatim>\<open>std::sort\<close> by timestamp, modelled by the stable \<open>sort_key\<close>.  \<^verbatim>\<open>std::sort\<close> need not be stable: stop
  orders of equal timestamp, which exist only after \<^verbatim>\<open>setTime\<close> has moved the clock back or it has wrapped around,
  may be triggered in another order by the code.  What is proved of \<open>evalStops\<close> uses of the sorted list only
  that it is a permutation of the triggered orders.
\<close>

definition timestamp_at :: "CppEngine \<Rightarrow> oaddr \<Rightarrow> u64" where
  "timestamp_at s x = (case h_orders s x of None \<Rightarrow> 0 | Some r \<Rightarrow> co_timestamp r)"

text \<open>The body of the last loop of \<^verbatim>\<open>evalStops\<close> up to the call of \<^verbatim>\<open>processActive\<close>.\<close>

definition trigger :: "oaddr \<Rightarrow> CppEngine \<Rightarrow> CppEngine option" where
  "trigger x s = do {
     s \<leftarrow> set_status TRIGGERED x s;
     s \<leftarrow> notify_ord onOrderTriggered x s;
     upd_ord x (\<lambda>r. r\<lparr>co_type := (if co_type r = STOP_LIMIT then LIMIT else MARKET), co_stop := 0\<rparr>) s
   }"

fun run_triggered :: "(oaddr \<Rightarrow> CppEngine \<Rightarrow> CppEngine option) \<Rightarrow> oaddr list \<Rightarrow> CppEngine \<Rightarrow> CppEngine option" where
  "run_triggered active [] s = Some s"
| "run_triggered active (x # xs) s = do { s \<leftarrow> trigger x s; s \<leftarrow> active x s; run_triggered active xs s }"

definition evalStops :: "(oaddr \<Rightarrow> CppEngine \<Rightarrow> CppEngine option) \<Rightarrow> int \<Rightarrow> CppEngine \<Rightarrow> CppEngine option" where
  "evalStops active px s =
     (if e_stops s = [] then Some s
      else do {
        (trig, stops) \<leftarrow> scan_stops (h_orders s) (fires px) 0 (e_stops s) [];
        let s = s\<lparr>e_stops := stops\<rparr>;
        if trig = [] then Some s
        else run_triggered active (sort_key (timestamp_at s) trig) s
      })"

section \<open>Processing\<close>

text \<open>
  \<^verbatim>\<open>processActive\<close> up to its call of \<^verbatim>\<open>emitAndTrigger\<close>: \<open>Inl\<close> when it returned before, otherwise
  the index of the first trade and the saved id.
\<close>

definition active_post_only :: "oaddr \<Rightarrow> CppEngine \<Rightarrow> CppEngine option" where
  "active_post_only x s = do {
     r \<leftarrow> h_orders s x;
     if wouldCross s r \<and> e_poPol s = REJECT
     then do { s \<leftarrow> cancel_ord ''POST_ONLY_WOULD_CROSS'' x s; drop_ord x s }
     else do {
       s \<leftarrow> (if wouldCross s r
             then do {
               px \<leftarrow> (if co_side r = BUY
                      then (case e_asks s of [] \<Rightarrow> None | (p, _) # _ \<Rightarrow> sub64 p (e_tick s))
                      else (case e_bids s of [] \<Rightarrow> None | (p, _) # _ \<Rightarrow> add64 p (e_tick s)));
               s \<leftarrow> upd_ord x (\<lambda>w. w\<lparr>co_price := px\<rparr>) s;
               notify_ord (\<lambda>w. onOrderRepriced w (co_price r) px) x s
             }
             else Some s);
       s \<leftarrow> insertOrder x s;
       set_status NEW x s
     }
   }"

definition active_mtl :: "oaddr \<Rightarrow> CppEngine \<Rightarrow> (CppEngine + CppEngine) option" where
  "active_mtl x s = do {
     let ts = length (e_trades s);
     s \<leftarrow> matchOrd x s;
     if \<not> length (e_trades s) > ts
     then do { s \<leftarrow> cancel_ord ''MTL_NO_LIQUIDITY'' x s; s \<leftarrow> drop_ord x s; Some (Inl s) }
     else do {
       s \<leftarrow> upd_ord x (\<lambda>w. w\<lparr>co_price := ct_price (e_trades s ! ts), co_type := LIMIT,
         co_minQty := (if co_minQty w > 0 then 0 else co_minQty w)\<rparr>) s;
       r \<leftarrow> h_orders s x;
       s \<leftarrow> (if co_rem r > 0 \<and> co_status r \<noteq> CANCELLED then matchOrd x s else Some s);
       r \<leftarrow> h_orders s x;
       s \<leftarrow> (if co_status r \<noteq> CANCELLED then dispose x True s else Some s);
       Some (Inr s)
     }
   }"

definition active_plain :: "oaddr \<Rightarrow> CppEngine \<Rightarrow> CppEngine option" where
  "active_plain x s = do {
     let ts = length (e_trades s);
     s \<leftarrow> matchOrd x s;
     let ht = length (e_trades s) > ts;
     s \<leftarrow> upd_ord x (\<lambda>w. if co_minQty w > 0 \<and> ht then w\<lparr>co_minQty := 0\<rparr> else w) s;
     r \<leftarrow> h_orders s x;
     if co_status r \<noteq> CANCELLED then dispose x ht s else Some s
   }"

definition active_check :: "oaddr \<Rightarrow> CppEngine \<Rightarrow> string option option" where
  "active_check x s = do {
     r \<leftarrow> h_orders s x;
     fok \<leftarrow> (if co_tif r = FOK then fokCheck s r else Some True);
     if \<not> fok then Some (Some ''FOK_NOT_SATISFIABLE'')
     else do {
       mq \<leftarrow> (if co_minQty r > 0 then minQtyCheck s r else Some True);
       Some (if \<not> mq then Some ''MIN_QTY_NOT_SATISFIABLE'' else None)
     }
   }"

text \<open>The end of \<^verbatim>\<open>processActive\<close>, after the stop cascade.\<close>

definition active_close :: "oaddr \<Rightarrow> u64 \<Rightarrow> CppEngine \<Rightarrow> CppEngine option" where
  "active_close x savedId s =
     (if \<not> OrderIndex_has (e_idx s) savedId then Some s
      else do {
        r \<leftarrow> h_orders s x;
        if co_status r = FILLED \<or> co_status r = CANCELLED then drop_ord x s else Some s
      })"

text \<open>\<open>eval\<close> is what \<^verbatim>\<open>emitAndTrigger\<close> calls for each trade at this depth.\<close>

definition active_with :: "(int \<Rightarrow> CppEngine \<Rightarrow> CppEngine option) \<Rightarrow> oaddr \<Rightarrow> CppEngine \<Rightarrow> CppEngine option" where
  "active_with eval x s = do {
     r \<leftarrow> h_orders s x;
     if co_postOnly r then active_post_only x s
     else do {
       err \<leftarrow> active_check x s;
       case err of
         Some why \<Rightarrow> do { s \<leftarrow> cancel_ord why x s; drop_ord x s }
       | None \<Rightarrow> do {
           let ts = length (e_trades s);
           let savedId = co_id r;
           res \<leftarrow> (if co_type r = MARKET_TO_LIMIT then active_mtl x s
                  else do { s \<leftarrow> active_plain x s; Some (Inr s) });
           case res of
             Inl s \<Rightarrow> Some s
           | Inr s \<Rightarrow> do {
               s \<leftarrow> emitAndTrigger eval ts s;
               active_close x savedId s
             }
         }
     }
   }"

text \<open>
  The recursion through the stop cascade.  The argument is what is left of \<open>MAX_CASCADE\<close>: at
  \<^verbatim>\<open>depth\<close> the code has \<open>MAX_CASCADE - depth\<close> of it, and at \<open>0\<close> it does not call \<^verbatim>\<open>evalStops\<close>.
\<close>

primrec processActive :: "nat \<Rightarrow> oaddr \<Rightarrow> CppEngine \<Rightarrow> CppEngine option" where
  "processActive 0 = active_with (\<lambda>px s. Some s)"
| "processActive (Suc d) = active_with (evalStops (processActive d))"

definition process :: "oaddr \<Rightarrow> CppEngine \<Rightarrow> CppEngine option" where
  "process x s = do {
     r \<leftarrow> h_orders s x;
     if co_type r = STOP_LIMIT \<or> co_type r = STOP_MARKET
     then if shouldTrigger s r
          then do { s \<leftarrow> trigger x s; processActive MAX_CASCADE x s }
          else Some (s\<lparr>e_stops := e_stops s @ [x]\<rparr>)
     else processActive MAX_CASCADE x s
   }"

section \<open>Entry points\<close>

definition submitOrder :: "OrderInput \<Rightarrow> CppEngine \<Rightarrow> CppEngine option" where
  "submitOrder inp s =
     (if OrderIndex_has (e_idx s) (in_id inp)
      then Some (notify (onOrderRejected (default_order\<lparr>co_id := in_id inp, co_status := REJECTED\<rparr>) ''DUPLICATE_ORDER_ID'') s)
      else do {
        let (x, s) = allocOrd s;
        let (t, s) = tick s;
        s \<leftarrow> upd_ord x (\<lambda>w. w\<lparr>co_id := in_id inp, co_side := in_side inp, co_type := in_type inp, co_tif := in_tif inp,
          co_price := in_price inp, co_stop := in_stop inp, co_qty := in_qty inp, co_rem := in_qty inp,
          co_minQty := in_minQty inp, co_display := in_display inp, co_postOnly := in_postOnly inp, co_status := NEW,
          co_timestamp := t, co_expire := in_expire inp, co_stg := in_stg inp, co_stp := in_stp inp,
          co_visible := (if in_display inp > 0 then min (in_display inp) (in_qty inp) else in_qty inp)\<rparr>) s;
        r \<leftarrow> h_orders s x;
        case validate (e_now s) r of
          Some err \<Rightarrow> do {
            s \<leftarrow> set_status REJECTED x s;
            s \<leftarrow> notify_ord (\<lambda>w. onOrderRejected w err) x s;
            freeOrd x s
          }
        | None \<Rightarrow> do {
            s \<leftarrow> idx_insert (co_id r) x s;
            s \<leftarrow> notify_ord onOrderAccepted x s;
            process x (s\<lparr>e_trades := []\<rparr>)
          }
      })"

text \<open>\<^verbatim>\<open>lv->remove(o); if (lv->empty()) rmLevel(lv, o->side);\<close>\<close>

definition leave_level :: "laddr \<Rightarrow> oaddr \<Rightarrow> CppEngine \<Rightarrow> CppEngine option" where
  "leave_level lv x s = do {
     s \<leftarrow> lvl_remove lv x s;
     e \<leftarrow> lvl_empty s lv;
     r \<leftarrow> h_orders s x;
     if e then rmLevel lv (co_side r) s else Some s
   }"

definition cancelOrder :: "u64 \<Rightarrow> CppEngine \<Rightarrow> (bool \<times> CppEngine) option" where
  "cancelOrder i s =
     (case OrderIndex_get (e_idx s) i of
        None \<Rightarrow> Some (False, s)
      | Some x \<Rightarrow> do {
          r \<leftarrow> h_orders s x;
          if co_status r \<noteq> NEW \<and> co_status r \<noteq> PARTIALLY_FILLED then Some (False, s)
          else do {
            s \<leftarrow> set_status CANCELLED x s;
            s \<leftarrow> (case co_level r of
                    Some lv \<Rightarrow> leave_level lv x s
                  | None \<Rightarrow> Some (rmStop x s));
            s \<leftarrow> notify_ord (\<lambda>w. onOrderCancelled w ''USER_REQUESTED'') x s;
            s \<leftarrow> drop_ord x s;
            Some (True, s)
          }
        })"

definition amendOrder :: "u64 \<Rightarrow> int \<Rightarrow> int \<Rightarrow> CppEngine \<Rightarrow> (bool \<times> CppEngine) option" where
  "amendOrder i newPx newQty s =
     (case OrderIndex_get (e_idx s) i of
        None \<Rightarrow> Some (False, s)
      | Some x \<Rightarrow> do {
          r \<leftarrow> h_orders s x;
          if co_status r \<noteq> NEW \<and> co_status r \<noteq> PARTIALLY_FILLED then Some (False, s)
          else case co_level r of
            None \<Rightarrow> Some (False, s)
          | Some lv \<Rightarrow> do {
              let pxChg = (newPx > 0 \<and> newPx \<noteq> co_price r);
              let qtyUp = (newQty > 0 \<and> newQty > co_rem r);
              let qtyDn = (newQty > 0 \<and> newQty < co_rem r);
              if qtyDn \<and> \<not> pxChg then do {
                s \<leftarrow> upd_ord x (\<lambda>w. w\<lparr>co_rem := newQty, co_visible := min (co_visible w) newQty\<rparr>) s;
                Some (True, s)
              }
              else if pxChg \<or> qtyUp then do {
                s \<leftarrow> leave_level lv x s;
                s \<leftarrow> upd_ord x (\<lambda>w. if newPx > 0 then w\<lparr>co_price := newPx\<rparr> else w) s;
                s \<leftarrow> upd_ord x (\<lambda>w. if newQty > 0 then w\<lparr>co_rem := newQty\<rparr> else w) s;
                let (t, s) = tick s;
                s \<leftarrow> upd_ord x (\<lambda>w. w\<lparr>co_timestamp := t\<rparr>) s;
                s \<leftarrow> upd_ord x (\<lambda>w. w\<lparr>co_visible := fresh_visible w\<rparr>) s;
                s \<leftarrow> processActive MAX_CASCADE x (s\<lparr>e_trades := []\<rparr>);
                Some (True, s)
              }
              else Some (True, s)
            }
        })"

section \<open>Expiry\<close>

definition shouldExpire :: "u64 \<Rightarrow> CppOrder \<Rightarrow> bool" where
  "shouldExpire t r \<longleftrightarrow> (if co_tif r = DAY then True
     else if co_tif r = GTD \<and> co_expire r > 0 \<and> t \<ge> co_expire r then True else False)"

text \<open>The orders of one level, and of one map, that expire.\<close>

partial_function (option) scan_level :: "CppEngine \<Rightarrow> u64 \<Rightarrow> oaddr option \<Rightarrow> oaddr list \<Rightarrow> oaddr list option" where
  [code]: "scan_level s t p out =
     (case p of
        None \<Rightarrow> Some out
      | Some x \<Rightarrow> do {
          r \<leftarrow> h_orders s x;
          scan_level s t (co_next r) (if shouldExpire t r then out @ [x] else out)
        })"

fun scan_map :: "CppEngine \<Rightarrow> u64 \<Rightarrow> (int \<times> laddr) list \<Rightarrow> oaddr list \<Rightarrow> oaddr list option" where
  "scan_map s t [] out = Some out"
| "scan_map s t ((p, lv) # m) out = do {
     l \<leftarrow> h_levels s lv;
     out \<leftarrow> scan_level s t (cl_head l) out;
     scan_map s t m out
   }"

definition expire_one :: "oaddr \<Rightarrow> CppEngine \<Rightarrow> CppEngine option" where
  "expire_one x s = do {
     s \<leftarrow> set_status EXPIRED x s;
     r \<leftarrow> h_orders s x;
     s \<leftarrow> (case co_level r of None \<Rightarrow> Some s | Some lv \<Rightarrow> leave_level lv x s);
     s \<leftarrow> notify_ord onOrderExpired x s;
     drop_ord x s
   }"

fun expire_all :: "oaddr list \<Rightarrow> CppEngine \<Rightarrow> CppEngine option" where
  "expire_all [] s = Some s"
| "expire_all (x # xs) s = do { s \<leftarrow> expire_one x s; expire_all xs s }"

definition expire_stop_step :: "u64 \<Rightarrow> nat \<times> CppEngine \<Rightarrow> (nat \<times> CppEngine + CppEngine) option" where
  "expire_stop_step t = (\<lambda>(i, s).
     if i < length (e_stops s)
     then do {
       let x = e_stops s ! i;
       r \<leftarrow> h_orders s x;
       if shouldExpire t r
       then do {
         let s = s\<lparr>e_stops := swap_pop i (e_stops s)\<rparr>;
         s \<leftarrow> set_status EXPIRED x s;
         s \<leftarrow> notify_ord onOrderExpired x s;
         s \<leftarrow> drop_ord x s;
         Some (Inl (i, s))
       }
       else Some (Inl (Suc i, s))
     }
     else Some (Inr s))"

definition expireOrders :: "u64 \<Rightarrow> CppEngine \<Rightarrow> CppEngine option" where
  "expireOrders t s = do {
     xs \<leftarrow> scan_map s t (e_bids s) [];
     xs \<leftarrow> scan_map s t (e_asks s) xs;
     s \<leftarrow> expire_all xs s;
     loop (expire_stop_step t) (0, s)
   }"

section \<open>Destruction\<close>

fun free_all :: "oaddr list \<Rightarrow> CppEngine \<Rightarrow> CppEngine option" where
  "free_all [] s = Some s"
| "free_all (x # xs) s = do { s \<leftarrow> freeOrd x s; free_all xs s }"

fun free_levels :: "(int \<times> laddr) list \<Rightarrow> CppEngine \<Rightarrow> CppEngine option" where
  "free_levels [] s = Some s"
| "free_levels ((p, lv) # m) s = do { s \<leftarrow> freeLvl lv s; free_levels m s }"

definition Engine_delete :: "CppEngine \<Rightarrow> CppEngine option" where
  "Engine_delete s = do {
     s \<leftarrow> free_all (forEachLive (e_idx s)) s;
     s \<leftarrow> free_levels (e_bids s) s;
     free_levels (e_asks s) s
   }"

end
