(* ===== verification/Cpp_Laws.thy ===== *)
theory Cpp_Laws
  imports Cpp_Match
begin

text \<open>
  Contracts of the parts of the C++ reference engine, and runs of the whole engine in which
  it does not do what its specification says.
\<close>

section \<open>The list of a level\<close>

text \<open>The links of the orders on the heap, read as functions.\<close>

definition nxt :: "'z CppHeap_scheme \<Rightarrow> oaddr \<Rightarrow> oaddr option" where
  "nxt s p = (case h_orders s p of None \<Rightarrow> None | Some r \<Rightarrow> co_next r)"

definition prv :: "'z CppHeap_scheme \<Rightarrow> oaddr \<Rightarrow> oaddr option" where
  "prv s p = (case h_orders s p of None \<Rightarrow> None | Some r \<Rightarrow> co_prev r)"

text \<open>\<open>level_list s lv xs\<close>: the level is allocated and its list holds the live orders \<open>xs\<close>.\<close>

definition level_list :: "'z CppHeap_scheme \<Rightarrow> laddr \<Rightarrow> oaddr list \<Rightarrow> bool" where
  "level_list s lv xs \<longleftrightarrow> (\<exists>l. h_levels s lv = Some l \<and>
     dll (nxt s) (prv s) (cl_head l) None xs (cl_tail l) None) \<and>
     (\<forall>x \<in> set xs. \<exists>r. h_orders s x = Some r \<and> co_level r = Some lv)"

lemma level_list_distinct: "level_list s lv xs \<Longrightarrow> distinct xs"
  by (auto simp: level_list_def dest: dll_distinct)

lemma level_list_front:
  "level_list s lv xs \<Longrightarrow> front s lv = Some (case xs of [] \<Rightarrow> None | x # _ \<Rightarrow> Some x)"
  by (auto simp: level_list_def front_def dest: dll_first)

lemma level_list_empty: "level_list s lv xs \<Longrightarrow> lvl_empty s lv = Some (xs = [])"
  by (auto simp: level_list_def lvl_empty_def dest: dll_first split: list.splits)

lemma heap_sel [simp]:
  "nxt (s\<lparr>h_levels := k\<rparr>) = nxt s" "prv (s\<lparr>h_levels := k\<rparr>) = prv s"
  by (simp_all add: nxt_def prv_def fun_eq_iff)

lemma links_upd:
  "nxt (s\<lparr>h_orders := h(x := Some r)\<rparr>) = (nxt (s\<lparr>h_orders := h\<rparr>))(x := co_next r)"
  "prv (s\<lparr>h_orders := h(x := Some r)\<rparr>) = (prv (s\<lparr>h_orders := h\<rparr>))(x := co_prev r)"
  by (simp_all add: nxt_def prv_def fun_eq_iff)

lemma pushBack_law:
  assumes l: "level_list s lv xs" and x: "h_orders s x = Some r" "x \<notin> set xs"
  shows "\<exists>s'. pushBack lv x s = Some s' \<and> level_list s' lv (xs @ [x])"
proof -
  obtain k where k: "h_levels s lv = Some k" and d: "dll (nxt s) (prv s) (cl_head k) None xs (cl_tail k) None"
    and live: "\<forall>x \<in> set xs. \<exists>r. h_orders s x = Some r \<and> co_level r = Some lv"
    using l by (auto simp: level_list_def)
  let ?r = "r\<lparr>co_prev := cl_tail k, co_next := None, co_level := Some lv\<rparr>"
  show ?thesis
  proof (cases xs rule: rev_cases)
    case Nil
    then have "cl_tail k = None" "cl_head k = None" using d by simp_all
    then show ?thesis
      using k x(1) by (simp add: pushBack_def upd_ord_def upd_lvl_def level_list_def links_upd Nil)
  next
    case (snoc ys t)
    then have t: "cl_tail k = Some t" using d by (simp add: dll_snoc)
    obtain q where q: "h_orders s t = Some q" "co_level q = Some lv" using live snoc by auto
    have tx: "t \<noteq> x" using x(2) snoc by auto
    let ?s' = "s\<lparr>h_orders := (h_orders s)(x := Some ?r, t := Some (q\<lparr>co_next := Some x\<rparr>)),
      h_levels := (h_levels s)(lv := Some (k\<lparr>cl_tail := Some x\<rparr>))\<rparr>"
    have run: "pushBack lv x s = Some ?s'"
      using k x(1) q tx by (simp add: pushBack_def upd_ord_def upd_lvl_def t)
    have "nxt ?s' = (nxt s)(x := None, t := Some x)" "prv ?s' = (prv s)(x := Some t)"
      using q tx t by (simp_all add: nxt_def prv_def fun_eq_iff)
    moreover have "dll (nxt s) (prv s) (cl_head k) None (ys @ [t]) (Some t) None" using d snoc t by simp
    then have "dll ((nxt s)(x := None, t := Some x)) ((prv s)(x := Some t)) (cl_head k) None ((ys @ [t]) @ [x]) (Some x) None"
      using x(2) snoc by (intro dll_insert_tail) simp_all
    ultimately have "level_list ?s' lv (xs @ [x])"
      using live q x(2) by (auto simp: level_list_def snoc)
    with run show ?thesis by blast
  qed
qed

lemma lvl_remove_law:
  assumes l: "level_list s lv (as @ x # bs)"
  shows "\<exists>s'. lvl_remove lv x s = Some s' \<and> level_list s' lv (as @ bs) \<and>
    (\<exists>r. h_orders s' x = Some r \<and> co_level r = None \<and> co_next r = None \<and> co_prev r = None)"
proof -
  obtain k where k: "h_levels s lv = Some k"
    and d: "dll (nxt s) (prv s) (cl_head k) None (as @ x # bs) (cl_tail k) None"
    and live: "\<forall>x \<in> set (as @ x # bs). \<exists>r. h_orders s x = Some r \<and> co_level r = Some lv"
    using l by (auto simp: level_list_def)
  obtain r where r: "h_orders s x = Some r" using live by auto
  have dist: "distinct (as @ x # bs)" using d by (rule dll_distinct)
  have nx: "nxt s x = co_next r" and pv: "prv s x = co_prev r" using r by (simp_all add: nxt_def prv_def)
  have nr: "co_next r = (case bs of [] \<Rightarrow> None | y # _ \<Rightarrow> Some y)"
    using d nx by (cases bs) (auto simp: dll_append)
  have pr: "co_prev r = (if as = [] then None else Some (last as))"
    using d pv by (cases as rule: rev_cases) (auto simp: dll_append)
  have p: "p \<in> set as" "p \<noteq> x" "\<exists>q. h_orders s p = Some q \<and> co_level q = Some lv" if "co_prev r = Some p" for p
    using that pr dist live by (auto split: if_splits)
  have n: "n \<in> set bs" "n \<noteq> x" "\<exists>q. h_orders s n = Some q \<and> co_level q = Some lv" if "co_next r = Some n" for n
    using that nr dist live by (auto split: list.splits)
  let ?nx = "(case co_prev r of None \<Rightarrow> nxt s | Some q \<Rightarrow> (nxt s)(q := co_next r))(x := None)"
  let ?pv = "(case co_next r of None \<Rightarrow> prv s | Some q \<Rightarrow> (prv s)(q := co_prev r))(x := None)"
  let ?hd = "case co_prev r of None \<Rightarrow> co_next r | Some q \<Rightarrow> cl_head k"
  let ?tl = "case co_next r of None \<Rightarrow> co_prev r | Some q \<Rightarrow> cl_tail k"
  have list: "dll ?nx ?pv ?hd None (as @ bs) ?tl None"
    by (rule dll_unlink[OF d, unfolded nx pv]) (rule refl)+
  have "\<exists>s'. lvl_remove lv x s = Some s' \<and> nxt s' = ?nx \<and> prv s' = ?pv \<and>
      (\<exists>k'. h_levels s' lv = Some k' \<and> cl_head k' = ?hd \<and> cl_tail k' = ?tl) \<and>
      h_orders s' x = Some (r\<lparr>co_prev := None, co_next := None, co_level := None\<rparr>) \<and>
      (\<forall>y. y \<noteq> x \<longrightarrow> map_option co_level (h_orders s' y) = map_option co_level (h_orders s y))"
  proof (cases "co_prev r")
    case pN: None
    show ?thesis
    proof (cases "co_next r")
      case None
      then show ?thesis using r k pN
        by (simp add: lvl_remove_def upd_ord_def upd_lvl_def links_upd nxt_def prv_def fun_eq_iff)
    next
      case (Some n')
      with n[OF this] obtain q where "h_orders s n' = Some q" "n' \<noteq> x" by blast
      then show ?thesis using r k pN Some
        by (simp add: lvl_remove_def upd_ord_def upd_lvl_def nxt_def prv_def fun_eq_iff)
    qed
  next
    case pS: (Some p')
    with p[OF this] obtain q where q: "h_orders s p' = Some q" "p' \<noteq> x" by blast
    show ?thesis
    proof (cases "co_next r")
      case None
      then show ?thesis using r k pS q
        by (simp add: lvl_remove_def upd_ord_def upd_lvl_def nxt_def prv_def fun_eq_iff)
    next
      case (Some n')
      with n[OF this] obtain q' where "h_orders s n' = Some q'" "n' \<noteq> x" by blast
      moreover have "n' \<noteq> p'" using n(1)[OF Some] p(1)[OF pS] dist by auto
      ultimately show ?thesis using r k pS q Some
        by (simp add: lvl_remove_def upd_ord_def upd_lvl_def nxt_def prv_def fun_eq_iff)
    qed
  qed
  then obtain s' k' where run: "lvl_remove lv x s = Some s'" and lk: "nxt s' = ?nx" "prv s' = ?pv"
    and k': "h_levels s' lv = Some k'" "cl_head k' = ?hd" "cl_tail k' = ?tl"
    and x': "h_orders s' x = Some (r\<lparr>co_prev := None, co_next := None, co_level := None\<rparr>)"
    and others: "\<forall>y. y \<noteq> x \<longrightarrow> map_option co_level (h_orders s' y) = map_option co_level (h_orders s y)" by blast
  have "\<exists>r. h_orders s' y = Some r \<and> co_level r = Some lv" if "y \<in> set (as @ bs)" for y
  proof -
    have "y \<noteq> x" using that dist by auto
    moreover have "map_option co_level (h_orders s y) = Some (Some lv)" using live that by auto
    ultimately have "map_option co_level (h_orders s' y) = Some (Some lv)" using others by simp
    then show ?thesis by (cases "h_orders s' y") auto
  qed
  then have "level_list s' lv (as @ bs)" using list lk k' by (simp add: level_list_def)
  with run x' show ?thesis by auto
qed

section \<open>The order index\<close>

lemma double_until_some:
  assumes "unat need < 2 ^ 31" and "nc \<noteq> 0"
  shows "\<exists>r. double_until nc need = Some r \<and> need < r"
  using assms(2)
proof (induction "2 ^ 32 - unat nc" arbitrary: nc rule: less_induct)
  case less
  show ?case
  proof (cases "nc \<le> need")
    case True
    then have "unat nc < 2 ^ 31" using assms(1) by (simp add: word_le_nat_alt)
    then have d: "unat (nc * 2) = unat nc * 2" by (simp add: unat_word_ariths)
    have pos: "0 < unat nc" using less.prems by (simp add: unat_gt_0)
    have "nc * 2 \<noteq> 0" using d pos by auto
    moreover have "2 ^ 32 - unat (nc * 2) < 2 ^ 32 - unat nc" using d pos \<open>unat nc < 2 ^ 31\<close> by simp
    ultimately show ?thesis using less.hyps[of "nc * 2"] True by (subst double_until.simps) simp
  next
    case False
    then show ?thesis unfolding double_until.simps[of nc] if_not_P[OF False] by (simp add: not_le)
  qed
qed

lemma double_until_zero: "double_until 0 need = None"
proof -
  have "False" if "double_until nc n = Some y" "nc = 0" for nc n y
    using that
  proof (induction rule: double_until.raw_induct[rotated 1, consumes 1, case_names 1])
    case (1 f nc n y)
    then show ?case by (auto split: if_splits)
  qed
  then show ?thesis by (cases "double_until 0 need") auto
qed

lemma double_until_big:
  assumes "2 ^ 31 \<le> unat need" and "k \<le> 32"
  shows "double_until (2 ^ k) need = None"
  using assms(2)
proof (induction "32 - k" arbitrary: k)
  case 0
  then have "k = 32" by simp
  then have "(2 :: u32) ^ k = 0" by simp
  then show ?case by (simp only: double_until_zero)
next
  case (Suc j)
  then have k: "k \<le> 31" by simp
  then have "(2 :: nat) ^ k \<le> 2 ^ 31" by (intro power_increasing) simp_all
  moreover from this have "unat (word_of_nat (2 ^ k) :: u32) = 2 ^ k"
    unfolding unsigned_of_nat using k by (simp add: take_bit_nat_eq_self)
  ultimately have "unat ((2 :: u32) ^ k) \<le> unat need" using assms(1) by simp
  then have le: "(2 :: u32) ^ k \<le> need" by (simp add: word_le_nat_alt)
  have "double_until (2 ^ Suc k) need = None" using Suc k by (intro Suc.hyps(1)) simp_all
  then show ?case unfolding double_until.simps[of "2 ^ k"] if_P[OF le] by (simp add: mult.commute)
qed

lemma unat_ucast_u64 [simp]: "unat (ucast (c :: u32) :: u64) = unat c"
proof -
  have "unat c < 2 ^ 32" using unsigned_less[of c, where 'a = nat] by simp
  then show ?thesis unfolding unsigned_ucast_eq by (simp add: take_bit_nat_eq_self)
qed

lemma slot_below_cap:
  assumes "i < (ucast (c :: u32) :: u64)"
  shows "unat i < 2 ^ 32"
proof -
  have "unat i < unat c" using assms by (simp add: word_less_nat_alt)
  also have "unat c < 2 ^ 32" using unsigned_less[of c, where 'a = nat] by simp
  finally show ?thesis .
qed

lemma u64_u32_less:
  "unat i < 2 ^ 32 \<Longrightarrow> (i < (ucast (c :: u32) :: u64)) = ((ucast i :: u32) < c)"
  by (simp add: word_less_nat_alt) (simp add: unsigned_ucast_eq take_bit_nat_eq_self)

text \<open>Making room for an id: the index then reaches it and is otherwise the same.\<close>

lemma room_for_id:
  assumes "ix_cap ix \<noteq> 0" and "unat (i :: u64) < 2 ^ 31"
  shows "\<exists>ix1. (if i \<ge> ucast (ix_cap ix) then OrderIndex_grow (ucast i) ix else Some ix) = Some ix1 \<and>
    (\<forall>j. OrderIndex_get ix1 j = OrderIndex_get ix j) \<and> ix_count ix1 = ix_count ix \<and> i < ucast (ix_cap ix1)"
proof (cases "i \<ge> ucast (ix_cap ix)")
  case True
  have small: "unat (ucast i :: u32) < 2 ^ 31" using assms(2) by (simp add: unsigned_ucast_eq take_bit_eq_mod)
  obtain nc where nc: "double_until (ix_cap ix) (ucast i) = Some nc" "ucast i < nc"
    using double_until_some[OF small assms(1)] by blast
  let ?ix1 = "ix\<lparr>ix_slots := (\<lambda>i. if i < ucast (ix_cap ix) then ix_slots ix i else None), ix_cap := nc\<rparr>"
  have up: "i < ucast nc" using nc(2) assms(2) by (simp add: u64_u32_less)
  have "OrderIndex_get ?ix1 j = OrderIndex_get ix j" for j
  proof (cases "j < ucast (ix_cap ix)")
    case True
    moreover from this have "j < ucast nc" using up \<open>i \<ge> ucast (ix_cap ix)\<close> by simp
    ultimately have "\<not> ucast (ix_cap ix) \<le> j" "\<not> ucast nc \<le> j" by (simp_all add: not_le)
    then show ?thesis using True by (simp add: OrderIndex_get_def)
  next
    case False
    then have "ucast (ix_cap ix) \<le> j" by (simp only: not_less)
    then show ?thesis using False by (simp add: OrderIndex_get_def)
  qed
  moreover have "(if i \<ge> ucast (ix_cap ix) then OrderIndex_grow (ucast i) ix else Some ix) = Some ?ix1"
    using True nc(1) by (simp add: OrderIndex_grow_def)
  ultimately show ?thesis using up by (intro exI[of _ ?ix1]) simp
next
  case False
  then show ?thesis by (intro exI[of _ ix]) simp
qed

text \<open>
  C34: a new id below \<open>2^31\<close> can be inserted into the order index whatever its capacity: the
  index grows when it must, exactly that id becomes live, and erasing it restores the index
  for every id.
\<close>

theorem order_index_round_trip:
  assumes "ix_cap ix \<noteq> 0" and "unat i < 2 ^ 31" and "OrderIndex_get ix i = None"
  shows "\<exists>ix' ix''. OrderIndex_insert i x ix = Some ix' \<and>
    (\<forall>j. OrderIndex_get ix' j = (if j = i then Some x else OrderIndex_get ix j)) \<and>
    ix_count ix' = ix_count ix + 1 \<and> OrderIndex_erase i ix' = Some ix'' \<and>
    (\<forall>j. OrderIndex_get ix'' j = OrderIndex_get ix j) \<and> ix_count ix'' = ix_count ix"
proof -
  obtain ix1 where grown: "(if i \<ge> ucast (ix_cap ix) then OrderIndex_grow (ucast i) ix else Some ix) = Some ix1"
    and same: "\<forall>j. OrderIndex_get ix1 j = OrderIndex_get ix j" "ix_count ix1 = ix_count ix" and lt: "i < ucast (ix_cap ix1)"
    using room_for_id[OF assms(1,2)] by blast
  let ?ix' = "ix1\<lparr>ix_slots := (ix_slots ix1)(i := Some x), ix_count := ix_count ix1 + 1\<rparr>"
  let ?e = "ix1\<lparr>ix_slots := (ix_slots ix1)(i := None)\<rparr>"
  let ?ix'' = "if int (length (ix_free ix1)) < FREE_STACK_CAP then ?e\<lparr>ix_free := i # ix_free ix1\<rparr> else ?e"
  have "OrderIndex_insert i x ix = Some ?ix'" by (simp add: OrderIndex_insert_def grown write_slot_def lt)
  moreover have "OrderIndex_get ?ix' j = (if j = i then Some x else OrderIndex_get ix1 j)" for j
    using lt by (auto simp: OrderIndex_get_def dest: leD)
  then have "OrderIndex_get ?ix' j = (if j = i then Some x else OrderIndex_get ix j)" for j
    by (simp only: same(1))
  moreover have "OrderIndex_erase i ?ix' = Some ?ix''"
    by (simp add: OrderIndex_erase_def write_slot_def lt)
  moreover have "OrderIndex_get ?ix'' j = OrderIndex_get ix j" for j
  proof (cases "j = i")
    case True
    have "OrderIndex_get ?ix'' i = None" by (simp add: OrderIndex_get_def)
    then show ?thesis using assms(3) True by simp
  next
    case False
    then have "OrderIndex_get ?ix'' j = OrderIndex_get ix1 j" by (simp add: OrderIndex_get_def)
    then show ?thesis using same(1) by simp
  qed
  ultimately show ?thesis using same(2) by (intro exI[of _ ?ix'] exI[of _ ?ix'']) simp
qed

theorem order_index_round_trip_witness:
  "\<exists>ix'. OrderIndex_insert 5 3 OrderIndex_new = Some ix' \<and> OrderIndex_get ix' 5 = Some 3 \<and> OrderIndex_get ix' 6 = None"
proof -
  have "ix_cap OrderIndex_new \<noteq> 0" "unat (5 :: u64) < 2 ^ 31" "OrderIndex_get OrderIndex_new 5 = None"
    by (simp_all add: OrderIndex_new_def INIT_CAP_def OrderIndex_get_def)
  from order_index_round_trip[OF this, of 3] obtain ix' where "OrderIndex_insert 5 3 OrderIndex_new = Some ix'"
    "\<forall>j. OrderIndex_get ix' j = (if j = 5 then Some 3 else OrderIndex_get OrderIndex_new j)" by blast
  moreover have "OrderIndex_get OrderIndex_new 6 = None" by (simp add: OrderIndex_new_def OrderIndex_get_def)
  ultimately show ?thesis by (intro exI[of _ ix']) simp
qed

text \<open>
  C35: an id of \<open>2^31\<close> or more cannot be inserted into an index whose capacity is a power of two
  (as the initial one is, and every one grown from it): the doubling loop wraps to zero and
  never ends, or the id is truncated and the write is past the end of the array.
\<close>

theorem large_ids_are_fatal:
  assumes "ix_cap ix = 2 ^ k" and "k < 32" and "2 ^ 31 \<le> unat i" and "OrderIndex_get ix i = None"
    and "i \<ge> ucast (ix_cap ix)"
  shows "OrderIndex_insert i x ix = None"
proof (cases "unat i < 2 ^ 32")
  case True
  then have "unat (ucast i :: u32) = unat i" by (simp add: unsigned_ucast_eq take_bit_eq_mod)
  then have "double_until (ix_cap ix) (ucast i) = None"
    unfolding assms(1) using assms(2,3) by (intro double_until_big) simp_all
  then show ?thesis using assms(5) by (simp add: OrderIndex_insert_def OrderIndex_grow_def)
next
  case False
  then have "\<not> i < (ucast c :: u64)" for c :: u32 using slot_below_cap by blast
  then show ?thesis by (auto simp: OrderIndex_insert_def write_slot_def split: bind_splits)
qed

theorem large_ids_are_fatal_witness:
  "OrderIndex_insert 2147483648 3 OrderIndex_new = None \<and> OrderIndex_insert 4294967296 3 OrderIndex_new = None"
proof -
  have cap: "ix_cap OrderIndex_new = 2 ^ 20" "(20 :: nat) < 32" by (simp_all add: OrderIndex_new_def INIT_CAP_def)
  have "2 ^ 31 \<le> unat (2147483648 :: u64)" "OrderIndex_get OrderIndex_new 2147483648 = None"
    "(2147483648 :: u64) \<ge> ucast (ix_cap OrderIndex_new)" "2 ^ 31 \<le> unat (4294967296 :: u64)"
    "OrderIndex_get OrderIndex_new 4294967296 = None" "(4294967296 :: u64) \<ge> ucast (ix_cap OrderIndex_new)"
    by (simp_all add: OrderIndex_new_def INIT_CAP_def OrderIndex_get_def)
  with large_ids_are_fatal[OF cap] show ?thesis by blast
qed

end
