(* ===== verification/Cpp_Runs.thy ===== *)
theory Cpp_Runs
  imports Cpp_Laws
begin

text \<open>
  What the engine's checks decide, what a rejected order leaves behind, and runs of the whole
  engine in which it does not do what its specification
  (\<^verbatim>\<open>cpp_reference/matching-engine-formal-spec.md\<close>) says.
\<close>

section \<open>The quantity checks\<close>

text \<open>The orders of a list, and what one of them offers to the order \<open>inc\<close>.\<close>

definition ord :: "'z CppHeap_scheme \<Rightarrow> oaddr \<Rightarrow> CppOrder" where
  "ord s x = the (h_orders s x)"

definition offer :: "CppEngine \<Rightarrow> CppOrder \<Rightarrow> oaddr \<Rightarrow> int" where
  "offer s inc x = (if stpConflict inc (ord s x) then 0 else co_visible (ord s x))"

text \<open>What a side offers \<open>inc\<close> within its limit, in the order the check walks it.\<close>

fun offered :: "CppEngine \<Rightarrow> CppOrder \<Rightarrow> (laddr \<Rightarrow> oaddr list) \<Rightarrow> (int \<times> laddr) list \<Rightarrow> oaddr list" where
  "offered s inc f [] = []"
| "offered s inc f ((p, lv) # m) = (if canMatch inc p then f lv @ offered s inc f m else [])"

definition side_ok :: "CppEngine \<Rightarrow> (laddr \<Rightarrow> oaddr list) \<Rightarrow> (int \<times> laddr) list \<Rightarrow> bool" where
  "side_ok s f m \<longleftrightarrow> (\<forall>(p, lv) \<in> set m. level_list s lv (f lv) \<and> (\<forall>x \<in> set (f lv). 0 \<le> co_visible (ord s x)))"

lemma offer_nonneg: "0 \<le> co_visible (ord s x) \<Longrightarrow> 0 \<le> offer s inc x"
  by (simp add: offer_def)

lemma avail_level_sum:
  assumes "chain (nxt s) p xs" and "\<forall>x \<in> set xs. h_orders s x \<noteq> None \<and> 0 \<le> co_visible (ord s x)"
    and "0 \<le> avail" and "avail + (\<Sum>x\<leftarrow>xs. offer s inc x) \<le> 9223372036854775807"
  shows "\<exists>r. avail_level s inc thresh p avail = Some r \<and>
    (case r of Inl a \<Rightarrow> a = avail + (\<Sum>x\<leftarrow>xs. offer s inc x) \<and> (avail < thresh \<longrightarrow> a < thresh)
     | Inr a \<Rightarrow> thresh \<le> a \<and> a \<le> avail + (\<Sum>x\<leftarrow>xs. offer s inc x))"
  using assms
proof (induction xs arbitrary: p avail)
  case Nil
  then show ?case by (subst avail_level.simps) simp
next
  case (Cons x xs)
  obtain r where r: "h_orders s x = Some r" using Cons.prems(2) by auto
  have "nxt s x = co_next r" using r by (simp add: nxt_def)
  then have p: "p = Some x" and c: "chain (nxt s) (co_next r) xs" using Cons.prems(1) by simp_all
  have od: "ord s x = r" using r by (simp add: ord_def)
  have v: "0 \<le> co_visible r" using Cons.prems(2) od by simp
  have rest: "0 \<le> (\<Sum>x\<leftarrow>xs. offer s inc x)"
    using Cons.prems(2) by (intro sum_list_nonneg) (auto intro: offer_nonneg)
  show ?case
  proof (cases "stpConflict inc r")
    case True
    then have z: "offer s inc x = 0" by (simp add: offer_def od)
    from z Cons.IH[OF c, of avail] Cons.prems obtain w where "avail_level s inc thresh (co_next r) avail = Some w"
      "case w of Inl a \<Rightarrow> a = avail + (\<Sum>x\<leftarrow>xs. offer s inc x) \<and> (avail < thresh \<longrightarrow> a < thresh)
       | Inr a \<Rightarrow> thresh \<le> a \<and> a \<le> avail + (\<Sum>x\<leftarrow>xs. offer s inc x)" by auto
    then show ?thesis using True r p z by (subst avail_level.simps) (cases w; simp)
  next
    case False
    then have z: "offer s inc x = co_visible r" by (simp add: offer_def od)
    have a: "add64 avail (co_visible r) = Some (avail + co_visible r)"
      using Cons.prems(3,4) v z rest by (simp add: add64_def in64_def)
    show ?thesis
    proof (cases "thresh \<le> avail + co_visible r")
      case True
      then show ?thesis using False r p a z rest by (subst avail_level.simps) simp
    next
      case lt: False
      from z Cons.IH[OF c, of "avail + co_visible r"] Cons.prems v obtain w
        where "avail_level s inc thresh (co_next r) (avail + co_visible r) = Some w"
        "case w of Inl a \<Rightarrow> a = avail + co_visible r + (\<Sum>x\<leftarrow>xs. offer s inc x) \<and> (avail + co_visible r < thresh \<longrightarrow> a < thresh)
         | Inr a \<Rightarrow> thresh \<le> a \<and> a \<le> avail + co_visible r + (\<Sum>x\<leftarrow>xs. offer s inc x)" by auto
      then show ?thesis using lt False r p z a by (subst avail_level.simps) (cases w; simp)
    qed
  qed
qed

lemma level_list_chain:
  assumes "level_list s lv xs"
  shows "\<exists>l. h_levels s lv = Some l \<and> chain (nxt s) (cl_head l) xs \<and> (\<forall>x \<in> set xs. h_orders s x \<noteq> None)"
  using assms by (fastforce simp: level_list_def dest: dll_chain)

lemma availQty_sum:
  assumes "side_ok s f m" and "0 \<le> avail"
    and "avail + (\<Sum>x\<leftarrow>offered s inc f m. offer s inc x) \<le> 9223372036854775807"
  shows "\<exists>a. availQty s inc m thresh avail = Some a \<and> (thresh \<le> a \<longleftrightarrow>
    thresh \<le> avail + (\<Sum>x\<leftarrow>offered s inc f m. offer s inc x))"
  using assms
proof (induction m arbitrary: avail)
  case (Cons e m)
  obtain p lv where e: "e = (p, lv)" by (cases e)
  show ?case
  proof (cases "canMatch inc p")
    case False
    then show ?thesis by (simp add: e)
  next
    case True
    have lo: "level_list s lv (f lv)" and vis: "\<forall>x \<in> set (f lv). 0 \<le> co_visible (ord s x)" and ok: "side_ok s f m"
      using Cons.prems(1) by (simp_all add: side_ok_def e)
    obtain l where l: "h_levels s lv = Some l" "chain (nxt s) (cl_head l) (f lv)" "\<forall>x \<in> set (f lv). h_orders s x \<noteq> None"
      using level_list_chain[OF lo] by blast
    let ?here = "\<Sum>x\<leftarrow>f lv. offer s inc x" and ?rest = "\<Sum>x\<leftarrow>offered s inc f m. offer s inc x"
    have here: "0 \<le> ?here" using vis by (intro sum_list_nonneg) (auto intro: offer_nonneg)
    have "0 \<le> co_visible (ord s x)" if "x \<in> set (offered s inc f m)" for x
      using that ok by (induction m) (auto simp: side_ok_def split: if_splits)
    then have rest: "0 \<le> ?rest" by (intro sum_list_nonneg) (auto intro: offer_nonneg)
    have "avail + ?here \<le> 9223372036854775807" using Cons.prems(3) rest True by (simp add: e)
    then obtain r where r: "avail_level s inc thresh (cl_head l) avail = Some r"
      "case r of Inl a \<Rightarrow> a = avail + ?here \<and> (avail < thresh \<longrightarrow> a < thresh) | Inr a \<Rightarrow> thresh \<le> a \<and> a \<le> avail + ?here"
      using avail_level_sum[OF l(2) _ Cons.prems(2), of inc thresh] l(3) vis by blast
    show ?thesis
    proof (cases r)
      case (Inl a)
      then show ?thesis
        using r l(1) True Cons.IH[OF ok, of a] Cons.prems here by (simp add: e algebra_simps)
    next
      case (Inr a)
      then show ?thesis using r l(1) True rest by (simp add: e)
    qed
  qed
qed simp

text \<open>
  C37: on a book whose opposite levels are well-formed lists with non-negative visible quantities,
  and when the total of the quantities counted is at most \<open>2^63 - 1\<close>, the fill-or-kill check succeeds exactly when the visible quantities
  of the orders within the limit that do not conflict with the order add up to its quantity.
\<close>

theorem fok_check_is_exact:
  assumes "side_ok s f (side_map (oppositeSide (co_side r)) s)"
    and "(\<Sum>x\<leftarrow>offered s r f (side_map (oppositeSide (co_side r)) s). offer s r x) \<le> 9223372036854775807"
  shows "fokCheck s r = Some (co_qty r \<le> (\<Sum>x\<leftarrow>offered s r f (side_map (oppositeSide (co_side r)) s). offer s r x))"
  using availQty_sum[OF assms(1), of 0 r "co_qty r"] assms(2) by (auto simp: fokCheck_def)

text \<open>A book with two sell orders at 100, the second one of group 9.\<close>

definition two_sells :: CppEngine where
  "two_sells = (let r = default_order\<lparr>co_side := SELL, co_price := 100, co_qty := 5, co_rem := 5, co_visible := 5, co_level := Some 0\<rparr> in
     (Engine_new REJECT 1)\<lparr>h_orders := [0 \<mapsto> r\<lparr>co_id := 1, co_next := Some 1\<rparr>, 1 \<mapsto> r\<lparr>co_id := 2, co_prev := Some 0, co_stg := 9\<rparr>],
       h_levels := [0 \<mapsto> \<lparr>cl_price = 100, cl_head = Some 0, cl_tail = Some 1\<rparr>], e_asks := [(100, 0)]\<rparr>)"

theorem fok_check_is_exact_witness:
  "fokCheck two_sells (default_order\<lparr>co_price := 100, co_qty := 6, co_stg := 9\<rparr>) = Some False \<and>
   fokCheck two_sells (default_order\<lparr>co_price := 100, co_qty := 6, co_stg := 8\<rparr>) = Some True"
proof -
  have ok: "side_ok two_sells (\<lambda>_. [0, 1]) (side_map SELL two_sells)"
    by (simp add: side_ok_def level_list_def two_sells_def Let_def ord_def nxt_def prv_def default_order_def)
  let ?r = "\<lambda>g. default_order\<lparr>co_price := 100, co_qty := 6, co_stg := g\<rparr>"
  have o: "offered two_sells (?r g) (\<lambda>_. [0, 1]) (side_map SELL two_sells) = [0, 1]" for g
    by (simp add: two_sells_def Let_def canMatch_def default_order_def)
  have "fokCheck two_sells (?r g) = Some (6 \<le> offer two_sells (?r g) 0 + offer two_sells (?r g) 1)"
    if "offer two_sells (?r g) 0 + offer two_sells (?r g) 1 \<le> 10" for g
    using fok_check_is_exact[of two_sells "\<lambda>_. [0, 1]" "?r g"] ok o that by (simp add: default_order_def)
  moreover have "offer two_sells (?r 9) 0 = 5" "offer two_sells (?r 9) 1 = 0" "offer two_sells (?r 8) 0 = 5" "offer two_sells (?r 8) 1 = 5"
    by (simp_all add: offer_def ord_def two_sells_def Let_def stpConflict_def default_order_def)
  ultimately show ?thesis by simp
qed

section \<open>Rejected orders\<close>

text \<open>A limit order.\<close>

definition lim :: "u64 \<Rightarrow> Side \<Rightarrow> int \<Rightarrow> int \<Rightarrow> OrderInput" where
  "lim i sd p n = \<lparr>in_id = i, in_side = sd, in_type = LIMIT, in_tif = GTC, in_price = p, in_stop = 0, in_qty = n,
     in_minQty = 0, in_display = 0, in_postOnly = False, in_expire = 0, in_stg = 0, in_stp = NONE\<rparr>"

text \<open>The order \<^verbatim>\<open>submitOrder\<close> builds from its input.\<close>

definition built_order :: "OrderInput \<Rightarrow> u64 \<Rightarrow> CppOrder" where
  "built_order inp t = default_order\<lparr>co_id := in_id inp, co_side := in_side inp, co_type := in_type inp, co_tif := in_tif inp,
     co_price := in_price inp, co_stop := in_stop inp, co_qty := in_qty inp, co_rem := in_qty inp,
     co_minQty := in_minQty inp, co_display := in_display inp, co_postOnly := in_postOnly inp, co_status := NEW,
     co_timestamp := t, co_expire := in_expire inp, co_stg := in_stg inp, co_stp := in_stp inp,
     co_visible := (if in_display inp > 0 then min (in_display inp) (in_qty inp) else in_qty inp)\<rparr>"

text \<open>
  C38: an order that repeats a live id or fails validation is rejected with one call of the
  listener and leaves no trace: the heap, both books, the index, the stops, the trades, the last
  price and the number of live orders are as before.  The counters of allocated and freed orders are
  unchanged for a live id and both one higher after a failed validation, for which an order is
  allocated and freed again; the peak then counts that order too.
\<close>

theorem rejected_submit_leaves_no_trace:
  assumes "hasOrder s (in_id inp) \<or> validate (e_now s + 1) (built_order inp (e_now s + 1)) \<noteq> None"
    and "h_orders s (h_obrk s) = None"
  shows "\<exists>s' r why. submitOrder inp s = Some s' \<and> co_id r = in_id inp \<and> co_status r = REJECTED \<and>
    e_log s' = e_log s @ [onOrderRejected r why] \<and>
    h_orders s' = h_orders s \<and> h_levels s' = h_levels s \<and> e_bids s' = e_bids s \<and> e_asks s' = e_asks s \<and>
    e_idx s' = e_idx s \<and> e_stops s' = e_stops s \<and> e_trades s' = e_trades s \<and> e_lastPx s' = e_lastPx s \<and>
    activeOrders s' = activeOrders s \<and>
    (if hasOrder s (in_id inp)
     then ordersAllocated s' = ordersAllocated s \<and> ordersFreed s' = ordersFreed s \<and> peakOrders s' = peakOrders s
     else ordersAllocated s' = ordersAllocated s + 1 \<and> ordersFreed s' = ordersFreed s + 1 \<and>
       peakOrders s' = max (peakOrders s) (activeOrders s + 1))"
proof (cases "hasOrder s (in_id inp)")
  case True
  then show ?thesis
    by (simp add: submitOrder_def hasOrder_def notify_def activeOrders_def ordersAllocated_def ordersFreed_def peakOrders_def)
next
  case False
  then obtain err where err: "validate (e_now s + 1) (built_order inp (e_now s + 1)) = Some err" using assms(1) by auto
  have "allocOrd s = (h_obrk s, snd (allocOrd s))" "h_orders (snd (allocOrd s)) = (h_orders s)(h_obrk s := Some default_order)"
    "e_now (snd (allocOrd s)) = e_now s" by (simp_all add: allocOrd_def new_order_def Let_def)
  show ?thesis
    using False err assms(2)
    by (simp add: submitOrder_def hasOrder_def allocOrd_def new_order_def tick_def upd_ord_def set_status_def
        notify_ord_def notify_def freeOrd_def delete_order_def activeOrders_def ordersAllocated_def ordersFreed_def
        peakOrders_def Let_def built_order_def fun_upd_idem max_def algebra_simps) auto
qed

theorem rejected_submit_leaves_no_trace_witness:
  "\<exists>s'. submitOrder (lim 7 BUY 100 0) (Engine_new REJECT 1) = Some s' \<and> h_orders s' = Map.empty \<and> activeOrders s' = 0 \<and>
    ordersAllocated s' = 1 \<and> ordersFreed s' = 1 \<and> peakOrders s' = 1"
proof -
  let ?s = "Engine_new REJECT 1"
  have "validate (e_now ?s + 1) (built_order (lim 7 BUY 100 0) (e_now ?s + 1)) \<noteq> None"
    by (simp add: validate_def built_order_def lim_def default_order_def)
  moreover have "h_orders ?s (h_obrk ?s) = None" by (simp add: Engine_new_def)
  moreover have "\<not> hasOrder ?s (in_id (lim 7 BUY 100 0))" by code_simp
  moreover have "h_orders ?s = Map.empty" "activeOrders ?s = 0" "ordersAllocated ?s = 0" "ordersFreed ?s = 0" "peakOrders ?s = 0"
    by (simp_all add: Engine_new_def activeOrders_def ordersAllocated_def ordersFreed_def peakOrders_def)
  ultimately show ?thesis
    using rejected_submit_leaves_no_trace[of ?s "lim 7 BUY 100 0"] by auto
qed

section \<open>Runs of the engine\<close>

fun submit_all :: "OrderInput list \<Rightarrow> CppEngine \<Rightarrow> CppEngine option" where
  "submit_all [] s = Some s"
| "submit_all (x # xs) s = do { s \<leftarrow> submitOrder x s; submit_all xs s }"

text \<open>The trades and cancellations the listener saw.\<close>

fun outcome :: "CppEvent list \<Rightarrow> (string \<times> u64 \<times> int) list" where
  "outcome [] = []"
| "outcome (onTrade t # es) = (''TRADE'', ct_passive t, ct_qty t) # outcome es"
| "outcome (onOrderCancelled r why # es) = (why, co_id r, co_rem r) # outcome es"
| "outcome (_ # es) = outcome es"

definition outcomes :: "OrderInput list \<Rightarrow> PostOnlyPolicy \<Rightarrow> (string \<times> u64 \<times> int) list option" where
  "outcomes xs pol = map_option (\<lambda>s. outcome (e_log s)) (submit_all xs (Engine_new pol 1))"

text \<open>
  A fill-or-kill order that meets an order of its own group after some trades is filled in
  part and then cancelled: the check counts what lies behind the conflicting order.
\<close>

theorem fok_partly_filled:
  "outcomes [lim 1 SELL 100 5, (lim 2 SELL 100 5)\<lparr>in_stg := 9, in_stp := CANCEL_OLDEST\<rparr>, lim 3 SELL 100 5,
     (lim 4 BUY 100 10)\<lparr>in_tif := FOK, in_stg := 9, in_stp := CANCEL_NEWEST\<rparr>] REJECT =
   Some [(''STP_CANCEL_NEWEST'', 4, 5), (''TRADE'', 1, 5)]"
  by code_simp

text \<open>A market-to-limit order stopped by its own group is cancelled twice.\<close>

lemma mtl_cancelled_twice:
  "outcomes [(lim 2 SELL 100 5)\<lparr>in_stg := 9, in_stp := CANCEL_NEWEST\<rparr>,
     (lim 4 BUY 0 10)\<lparr>in_type := MARKET_TO_LIMIT, in_stg := 9, in_stp := CANCEL_NEWEST\<rparr>] REJECT =
   Some [(''STP_CANCEL_NEWEST'', 4, 10), (''MTL_NO_LIQUIDITY'', 4, 10)]"
  by code_simp

text \<open>A repriced post-only order can rest at a price of zero.\<close>

lemma repriced_to_zero:
  "map_option (\<lambda>s. (bestBid s, map fst (e_bids s)))
     (submit_all [lim 1 SELL 1 5, (lim 2 BUY 1 5)\<lparr>in_postOnly := True\<rparr>] (Engine_new REPRICE 1)) = Some (0, [0])"
  by code_simp

end
