(* ===== verification/Cpp_Heap.thy ===== *)
theory Cpp_Heap
  imports Cpp_Runs
begin

text \<open>
  How to reason about runs of the C++ reference engine: total correctness of option-valued
  functions, loops with an index that falls, and what the list operations of a level leave
  alone.
\<close>

section \<open>Runs that return\<close>

text \<open>\<open>wp m Q\<close>: the run \<open>m\<close> returns, with a result that satisfies \<open>Q\<close>.\<close>

definition wp :: "'a option \<Rightarrow> ('a \<Rightarrow> bool) \<Rightarrow> bool" where
  "wp m Q \<longleftrightarrow> (\<exists>x. m = Some x \<and> Q x)"

lemma wp_simps [simp]: "wp (Some x) Q \<longleftrightarrow> Q x" "\<not> wp None Q" "wp (Option.bind m g) Q \<longleftrightarrow> wp m (\<lambda>x. wp (g x) Q)"
  by (auto simp: wp_def split: bind_splits)

lemma wp_mono: "wp m Q \<Longrightarrow> (\<And>x. Q x \<Longrightarrow> R x) \<Longrightarrow> wp m R"
  by (auto simp: wp_def)

lemma wp_seq: "wp m Q \<Longrightarrow> (\<And>x. Q x \<Longrightarrow> wp (g x) R) \<Longrightarrow> wp (Option.bind m g) R"
  by (auto simp: wp_def)

lemma wpD: "wp m Q \<Longrightarrow> m = Some x \<Longrightarrow> Q x"
  by (simp add: wp_def)

lemma wpE: "wp m Q \<Longrightarrow> (\<And>x. m = Some x \<Longrightarrow> Q x \<Longrightarrow> thesis) \<Longrightarrow> thesis"
  by (auto simp: wp_def)

lemma loop_wp:
  assumes step: "\<And>(n :: nat) s. I n s \<Longrightarrow> wp (body s) (\<lambda>r. case r of Inl s' \<Rightarrow> \<exists>k < n. I k s' | Inr x \<Rightarrow> Q x)"
    and start: "I n s"
  shows "wp (loop body s) Q"
  using start
proof (induction n arbitrary: s rule: less_induct)
  case (less n)
  from step[OF less.prems] show ?case
  proof (rule wpE)
    fix r assume r: "body s = Some r" and q: "case r of Inl s' \<Rightarrow> \<exists>k < n. I k s' | Inr x \<Rightarrow> Q x"
    show "wp (loop body s) Q"
    proof (cases r)
      case (Inl s')
      with q obtain k where "k < n" "I k s'" by auto
      then have "wp (loop body s') Q" by (rule less.IH)
      then show ?thesis using loop_simps(2)[of body s s'] r Inl by simp
    next
      case (Inr x)
      then show ?thesis using loop_simps(3)[of body s x] r q by simp
    qed
  qed
qed

section \<open>What the list operations leave alone\<close>

text \<open>An order without its links.\<close>

definition core :: "CppOrder \<Rightarrow> CppOrder" where
  "core r = r\<lparr>co_prev := None, co_next := None, co_level := None\<rparr>"

lemma core_upd [simp]:
  "core (r\<lparr>co_prev := p\<rparr>) = core r" "core (r\<lparr>co_next := p\<rparr>) = core r" "core (r\<lparr>co_level := l\<rparr>) = core r"
  by (simp_all add: core_def)

lemma core_sel:
  assumes "core r = core r'"
  shows "co_id r = co_id r'" "co_side r = co_side r'" "co_type r = co_type r'" "co_tif r = co_tif r'" "co_price r = co_price r'"
    "co_stop r = co_stop r'" "co_qty r = co_qty r'" "co_rem r = co_rem r'" "co_minQty r = co_minQty r'"
    "co_display r = co_display r'" "co_visible r = co_visible r'" "co_postOnly r = co_postOnly r'" "co_status r = co_status r'"
    "co_timestamp r = co_timestamp r'" "co_expire r = co_expire r'" "co_stg r = co_stg r'" "co_stp r = co_stp r'"
  using assms by (cases r; cases r'; simp add: core_def)+

text \<open>Only the two heaps change: no other field of the state does.\<close>

definition heap_only :: "'z CppHeap_scheme \<Rightarrow> 'z CppHeap_scheme \<Rightarrow> bool" where
  "heap_only s s' \<longleftrightarrow> (\<exists>h k. s' = s\<lparr>h_orders := h, h_levels := k\<rparr>)"

lemma heap_only_refl [simp]: "heap_only s s"
  unfolding heap_only_def by (intro exI[of _ "h_orders s"] exI[of _ "h_levels s"]) (cases s; simp)

lemma heap_only_upd [simp]: "heap_only s (s\<lparr>h_orders := h\<rparr>)" "heap_only s (s\<lparr>h_levels := k\<rparr>)"
  unfolding heap_only_def by (intro exI[of _ h] exI[of _ "h_levels s"], cases s, simp)
    (intro exI[of _ "h_orders s"] exI[of _ k], cases s, simp)

lemma heap_only_trans:
  assumes "heap_only s s'" and "heap_only s' s''"
  shows "heap_only s s''"
proof -
  obtain h k ha ka where "s' = s\<lparr>h_orders := h, h_levels := k\<rparr>" "s'' = s'\<lparr>h_orders := ha, h_levels := ka\<rparr>"
    using assms by (auto simp: heap_only_def)
  then show ?thesis unfolding heap_only_def by (intro exI[of _ ha] exI[of _ ka]) simp
qed

definition list_frame :: "laddr \<Rightarrow> oaddr set \<Rightarrow> 'z CppHeap_scheme \<Rightarrow> 'z CppHeap_scheme \<Rightarrow> bool" where
  "list_frame lv X s s' \<longleftrightarrow> heap_only s s' \<and>
     (\<forall>y. y \<notin> X \<longrightarrow> h_orders s' y = h_orders s y) \<and>
     (\<forall>y. map_option core (h_orders s' y) = map_option core (h_orders s y)) \<and>
     (\<forall>k. k \<noteq> lv \<longrightarrow> h_levels s' k = h_levels s k) \<and>
     map_option cl_price (h_levels s' lv) = map_option cl_price (h_levels s lv)"

lemma list_frame_refl: "list_frame lv X s s"
  by (simp add: list_frame_def)

lemma list_frame_trans:
  "list_frame lv X s s' \<Longrightarrow> list_frame lv X s' s'' \<Longrightarrow> list_frame lv X s s''"
  by (auto simp: list_frame_def intro: heap_only_trans)

lemma upd_ord_frame:
  "upd_ord x g s = Some s' \<Longrightarrow> (\<And>r. core (g r) = core r) \<Longrightarrow> x \<in> X \<Longrightarrow> list_frame lv X s s'"
  by (auto simp: upd_ord_def list_frame_def split: option.splits)

lemma upd_lvl_frame:
  "upd_lvl lv g s = Some s' \<Longrightarrow> (\<And>l. cl_price (g l) = cl_price l) \<Longrightarrow> list_frame lv X s s'"
  by (auto simp: upd_lvl_def list_frame_def split: option.splits)

lemma pushBack_frame:
  assumes "pushBack lv x s = Some s'" and "\<And>l t. h_levels s lv = Some l \<Longrightarrow> cl_tail l = Some t \<Longrightarrow> t \<in> X" and "x \<in> X"
  shows "list_frame lv X s s'"
proof -
  obtain l s1 s2 where l: "h_levels s lv = Some l"
    and 1: "upd_ord x (\<lambda>r. r\<lparr>co_prev := cl_tail l, co_next := None, co_level := Some lv\<rparr>) s = Some s1"
    and 2: "(case cl_tail l of Some t \<Rightarrow> upd_ord t (\<lambda>r. r\<lparr>co_next := Some x\<rparr>) s1
       | None \<Rightarrow> upd_lvl lv (\<lambda>l. l\<lparr>cl_head := Some x\<rparr>) s1) = Some s2"
    and 3: "upd_lvl lv (\<lambda>l. l\<lparr>cl_tail := Some x\<rparr>) s2 = Some s'"
    using assms(1) by (auto simp: pushBack_def split: bind_splits)
  have "list_frame lv X s s1" using 1 assms(3) by (auto intro!: upd_ord_frame)
  moreover have "list_frame lv X s1 s2"
  proof (cases "cl_tail l")
    case None
    then show ?thesis using 2 by (auto intro: upd_lvl_frame)
  next
    case (Some t)
    then show ?thesis using 2 assms(2)[OF l] by (auto intro: upd_ord_frame)
  qed
  moreover have "list_frame lv X s2 s'" using 3 by (auto intro!: upd_lvl_frame)
  ultimately show ?thesis by (blast intro: list_frame_trans)
qed

lemma lvl_remove_frame:
  assumes "lvl_remove lv x s = Some s'" and x: "h_orders s x = Some r" "x \<in> X"
    and "\<And>p. co_prev r = Some p \<Longrightarrow> p \<in> X \<and> p \<noteq> x" and "\<And>n. co_next r = Some n \<Longrightarrow> n \<in> X"
  shows "list_frame lv X s s'"
proof -
  obtain s1 r1 s2 where
    1: "(case co_prev r of Some p \<Rightarrow> upd_ord p (\<lambda>q. q\<lparr>co_next := co_next r\<rparr>) s
       | None \<Rightarrow> upd_lvl lv (\<lambda>l. l\<lparr>cl_head := co_next r\<rparr>) s) = Some s1"
    and r1: "h_orders s1 x = Some r1"
    and 2: "(case co_next r1 of Some n \<Rightarrow> upd_ord n (\<lambda>q. q\<lparr>co_prev := co_prev r1\<rparr>) s1
       | None \<Rightarrow> upd_lvl lv (\<lambda>l. l\<lparr>cl_tail := co_prev r1\<rparr>) s1) = Some s2"
    and 3: "upd_ord x (\<lambda>r. r\<lparr>co_prev := None, co_next := None, co_level := None\<rparr>) s2 = Some s'"
    using assms(1) x(1) by (auto simp: lvl_remove_def split: bind_splits)
  have "list_frame lv X s s1"
  proof (cases "co_prev r")
    case None
    then show ?thesis using 1 by (auto intro: upd_lvl_frame)
  next
    case (Some t)
    then show ?thesis using 1 assms(4) by (auto intro: upd_ord_frame)
  qed
  moreover have "r1 = r" using 1 r1 x(1) assms(4)
    by (auto simp: upd_ord_def upd_lvl_def split: option.splits if_splits)
  then have "list_frame lv X s1 s2"
  proof (cases "co_next r")
    case None
    then show ?thesis using 2 \<open>r1 = r\<close> by (auto intro: upd_lvl_frame)
  next
    case (Some t)
    then show ?thesis using 2 \<open>r1 = r\<close> assms(5) by (auto intro: upd_ord_frame)
  qed
  moreover have "list_frame lv X s2 s'" using 3 x(2) by (auto intro!: upd_ord_frame)
  ultimately show ?thesis by (blast intro: list_frame_trans)
qed

end
