(* ===== verification/Cpp_Inv.thy ===== *)
theory Cpp_Inv
  imports Cpp_Heap
begin

text \<open>
  The invariant of the C++ reference engine: what its books, its heap, its order index and its
  counters have to do with each other, and how the elementary operations move between states
  in which it holds for all but a few orders and levels.
\<close>

section \<open>Orders at rest\<close>

definition cpp_max_qty :: int where "cpp_max_qty = 4611686018427387904"

definition base_ok :: "CppOrder \<Rightarrow> bool" where
  "base_ok r \<longleftrightarrow> 0 < co_rem r \<and> co_rem r \<le> cpp_max_qty \<and> 0 < co_qty r \<and> co_qty r \<le> cpp_max_qty \<and>
     0 \<le> co_minQty r \<and> co_minQty r \<le> cpp_max_qty \<and> 0 \<le> co_display r \<and> (co_stg r = 0 \<longleftrightarrow> co_stp r = NONE)"

definition rest_ok :: "Side \<Rightarrow> int \<Rightarrow> CppOrder \<Rightarrow> bool" where
  "rest_ok sd p r \<longleftrightarrow> base_ok r \<and> co_type r = LIMIT \<and> co_side r = sd \<and> co_price r = p \<and> 0 < p \<and>
     co_tif r \<noteq> IOC \<and> co_tif r \<noteq> FOK \<and> 0 < co_visible r \<and> co_visible r \<le> co_rem r \<and>
     (co_display r = 0 \<longrightarrow> co_visible r = co_rem r) \<and> (co_status r = NEW \<or> co_status r = PARTIALLY_FILLED)"

definition stop_ok :: "CppOrder \<Rightarrow> bool" where
  "stop_ok r \<longleftrightarrow> base_ok r \<and> co_rem r = co_qty r \<and> co_status r = NEW \<and> \<not> co_postOnly r \<and>
     (co_type r = STOP_LIMIT \<and> 0 < co_price r \<or> co_type r = STOP_MARKET \<and> co_price r = 0)"

lemma ok_core:
  assumes "core r = core r'"
  shows "base_ok r = base_ok r'" "rest_ok sd p r = rest_ok sd p r'" "stop_ok r = stop_ok r'"
  using core_sel[OF assms] by (simp_all add: base_ok_def rest_ok_def stop_ok_def)

section \<open>The invariant\<close>

text \<open>
  \<open>f\<close> gives the list of each level.  \<open>P\<close> are the live orders that are neither in a level nor
  waiting for a stop price: those in the hands of a running operation.  \<open>E\<close> are the levels that
  may be empty, and \<open>X\<close> the orders whose data may be in between two states.
\<close>

definition cpp_books_ok :: "CppEngine \<Rightarrow> (laddr \<Rightarrow> oaddr list) \<Rightarrow> laddr set \<Rightarrow> bool" where
  "cpp_books_ok s f E \<longleftrightarrow>
     (\<forall>sd. sorted_wrt (px_before sd) (map fst (side_map sd s))) \<and>
     (\<forall>p \<in> fst ` set (e_bids s). \<forall>q \<in> fst ` set (e_asks s). p < q) \<and>
     dom (h_levels s) = snd ` (set (e_bids s) \<union> set (e_asks s)) \<and> (\<forall>lv \<in> dom (h_levels s). lv < h_lbrk s) \<and>
     (\<forall>sd p lv. (p, lv) \<in> set (side_map sd s) \<longrightarrow> level_list s lv (f lv) \<and>
        map_option cl_price (h_levels s lv) = Some p \<and> (f lv = [] \<longrightarrow> lv \<in> E))"

definition orders_ok :: "CppEngine \<Rightarrow> (laddr \<Rightarrow> oaddr list) \<Rightarrow> oaddr set \<Rightarrow> oaddr set \<Rightarrow> bool" where
  "orders_ok s f P X \<longleftrightarrow>
     dom (h_orders s) = (\<Union>lv \<in> dom (h_levels s). set (f lv)) \<union> set (e_stops s) \<union> P \<and>
     (\<forall>x \<in> dom (h_orders s). x < h_obrk s) \<and>
     distinct (e_stops s) \<and> set (e_stops s) \<inter> P = {} \<and> (\<forall>x \<in> set (e_stops s) \<union> P. co_level (ord s x) = None) \<and>
     (\<forall>x \<in> set (e_stops s) - X. stop_ok (ord s x)) \<and>
     (\<forall>sd p lv x. (p, lv) \<in> set (side_map sd s) \<longrightarrow> x \<in> set (f lv) - X \<longrightarrow> rest_ok sd p (ord s x))"

definition index_ok :: "CppEngine \<Rightarrow> bool" where
  "index_ok s \<longleftrightarrow> ix_cap (e_idx s) \<noteq> 0 \<and>
     (\<forall>i x. OrderIndex_get (e_idx s) i = Some x \<longleftrightarrow> h_orders s x \<noteq> None \<and> co_id (ord s x) = i) \<and>
     ix_count (e_idx s) = of_nat (card (dom (h_orders s)))"

definition counts_ok :: "CppEngine \<Rightarrow> bool" where
  "counts_ok s \<longleftrightarrow> e_oA s - e_oF s = of_nat (card (dom (h_orders s))) \<and>
     e_lA s - e_lF s = of_nat (card (dom (h_levels s)))"

definition trades_ok :: "CppEngine \<Rightarrow> bool" where
  "trades_ok s \<longleftrightarrow> (\<forall>t \<in> set (e_trades s). 0 < ct_qty t \<and> 0 < ct_price t)"

definition cpp_inv :: "CppEngine \<Rightarrow> (laddr \<Rightarrow> oaddr list) \<Rightarrow> oaddr set \<Rightarrow> laddr set \<Rightarrow> oaddr set \<Rightarrow> bool" where
  "cpp_inv s f P E X \<longleftrightarrow> cpp_books_ok s f E \<and> orders_ok s f P X \<and> index_ok s \<and> counts_ok s \<and> trades_ok s"

lemmas inv_defs = cpp_inv_def cpp_books_ok_def orders_ok_def index_ok_def counts_ok_def trades_ok_def

subsection \<open>Fields it does not mention\<close>

lemma side_map_fields [simp]:
  "side_map sd (s\<lparr>h_orders := h\<rparr>) = side_map sd s" "side_map sd (s\<lparr>h_levels := k\<rparr>) = side_map sd s"
  "side_map sd (s\<lparr>h_obrk := n\<rparr>) = side_map sd s" "side_map sd (s\<lparr>h_lbrk := n\<rparr>) = side_map sd s"
  "side_map sd (s\<lparr>e_log := l\<rparr>) = side_map sd s" "side_map sd (s\<lparr>e_idx := ix\<rparr>) = side_map sd s"
  "side_map sd (s\<lparr>e_stops := st\<rparr>) = side_map sd s" "side_map sd (s\<lparr>e_trades := ts\<rparr>) = side_map sd s"
  "side_map sd (s\<lparr>e_now := n'\<rparr>) = side_map sd s" "side_map sd (s\<lparr>e_tid := n'\<rparr>) = side_map sd s"
  "side_map sd (s\<lparr>e_lastPx := p\<rparr>) = side_map sd s" "side_map sd (s\<lparr>e_oA := n'\<rparr>) = side_map sd s"
  "side_map sd (s\<lparr>e_oF := n'\<rparr>) = side_map sd s" "side_map sd (s\<lparr>e_oP := n'\<rparr>) = side_map sd s"
  "side_map sd (s\<lparr>e_lA := n'\<rparr>) = side_map sd s" "side_map sd (s\<lparr>e_lF := n'\<rparr>) = side_map sd s"
  "side_map sd (s\<lparr>e_lP := n'\<rparr>) = side_map sd s"
  by (cases sd; simp)+

lemma level_list_same:
  assumes "h_orders s' = h_orders s" and "h_levels s' = h_levels s"
  shows "level_list s' lv xs = level_list s lv xs"
proof -
  have "nxt s' = nxt s" "prv s' = prv s" using assms(1) by (simp_all add: nxt_def prv_def fun_eq_iff)
  then show ?thesis using assms by (simp add: level_list_def)
qed

lemma ord_same: "h_orders s' = h_orders s \<Longrightarrow> ord s' = ord s"
  by (simp add: ord_def fun_eq_iff)

lemma inv_same:
  assumes "h_orders s' = h_orders s" "h_levels s' = h_levels s" "h_obrk s' = h_obrk s" "h_lbrk s' = h_lbrk s"
    "e_bids s' = e_bids s" "e_asks s' = e_asks s" "e_idx s' = e_idx s" "e_stops s' = e_stops s"
    "e_oA s' = e_oA s" "e_oF s' = e_oF s" "e_lA s' = e_lA s" "e_lF s' = e_lF s" "trades_ok s' = trades_ok s"
  shows "cpp_inv s' f P E X = cpp_inv s f P E X"
proof -
  have "side_map sd s' = side_map sd s" for sd using assms(5,6) by (cases sd) simp_all
  then have "cpp_books_ok s' f E = cpp_books_ok s f E" "orders_ok s' f P X = orders_ok s f P X"
    "index_ok s' = index_ok s" "counts_ok s' = counts_ok s"
    by (simp_all only: cpp_books_ok_def orders_ok_def index_ok_def counts_ok_def assms(1-12)
        level_list_same[OF assms(1,2)] ord_same[OF assms(1)])
  then show ?thesis by (simp only: cpp_inv_def assms(13))
qed

lemma inv_fields [simp]:
  "cpp_inv (s\<lparr>e_log := l\<rparr>) f P E X = cpp_inv s f P E X" "cpp_inv (s\<lparr>e_now := n\<rparr>) f P E X = cpp_inv s f P E X"
  "cpp_inv (s\<lparr>e_tid := n\<rparr>) f P E X = cpp_inv s f P E X" "cpp_inv (s\<lparr>e_lastPx := p\<rparr>) f P E X = cpp_inv s f P E X"
  "cpp_inv (s\<lparr>e_oP := n\<rparr>) f P E X = cpp_inv s f P E X" "cpp_inv (s\<lparr>e_lP := n\<rparr>) f P E X = cpp_inv s f P E X"
  by - (rule inv_same; simp add: trades_ok_def)+

lemma inv_notify [simp]: "cpp_inv (notify ev s) f P E X = cpp_inv s f P E X"
  by (simp add: notify_def)

lemma inv_trades:
  "cpp_inv s f P E X \<Longrightarrow> trades_ok (s\<lparr>e_trades := ts\<rparr>) \<Longrightarrow> cpp_inv (s\<lparr>e_trades := ts\<rparr>) f P E X"
  by (subst inv_same[of _ s]) (auto simp: cpp_inv_def inv_same)


lemma inv_weaken:
  assumes "cpp_inv s f P E X" and "E \<subseteq> E'" and "X \<subseteq> X'"
  shows "cpp_inv s f P E' X'"
proof -
  have "cpp_books_ok s f E'" using assms(1,2) unfolding cpp_inv_def cpp_books_ok_def by blast
  moreover have "orders_ok s f P X'" using assms(1,3) unfolding cpp_inv_def orders_ok_def by blast
  ultimately show ?thesis using assms(1) by (simp add: cpp_inv_def)
qed

subsection \<open>What it says\<close>

lemma inv_parts:
  assumes "cpp_inv s f P E X"
  shows "sorted_wrt (px_before sd) (map fst (side_map sd s))"
    and "\<forall>p \<in> fst ` set (e_bids s). \<forall>q \<in> fst ` set (e_asks s). p < q"
    and "dom (h_levels s) = snd ` (set (e_bids s) \<union> set (e_asks s))"
    and "\<forall>lv \<in> dom (h_levels s). lv < h_lbrk s"
    and "dom (h_orders s) = (\<Union>lv \<in> dom (h_levels s). set (f lv)) \<union> set (e_stops s) \<union> P"
    and "\<forall>x \<in> dom (h_orders s). x < h_obrk s"
    and "distinct (e_stops s)" and "set (e_stops s) \<inter> P = {}"
    and "index_ok s" and "counts_ok s" and "trades_ok s"
proof -
  have b: "cpp_books_ok s f E" and o: "orders_ok s f P X" using assms by (simp_all add: cpp_inv_def)
  have "\<forall>sd. sorted_wrt (px_before sd) (map fst (side_map sd s))" using b unfolding cpp_books_ok_def by (elim conjE)
  then show "sorted_wrt (px_before sd) (map fst (side_map sd s))" by (rule spec)
  show "\<forall>p \<in> fst ` set (e_bids s). \<forall>q \<in> fst ` set (e_asks s). p < q"
    "dom (h_levels s) = snd ` (set (e_bids s) \<union> set (e_asks s))" "\<forall>lv \<in> dom (h_levels s). lv < h_lbrk s"
    using b unfolding cpp_books_ok_def by - (elim conjE, assumption)+
  show "dom (h_orders s) = (\<Union>lv \<in> dom (h_levels s). set (f lv)) \<union> set (e_stops s) \<union> P"
    "\<forall>x \<in> dom (h_orders s). x < h_obrk s" "distinct (e_stops s)" "set (e_stops s) \<inter> P = {}"
    using o unfolding orders_ok_def by - (elim conjE, assumption)+
  show "index_ok s" "counts_ok s" "trades_ok s" using assms unfolding cpp_inv_def by - (elim conjE, assumption)+
qed

lemma ex_side: "(\<exists>sd. Q sd) \<longleftrightarrow> Q BUY \<or> Q SELL"
  by (metis Side.exhaust)

lemma side_of_dom:
  assumes "cpp_inv s f P E X"
  shows "lv \<in> dom (h_levels s) \<longleftrightarrow> (\<exists>sd p. (p, lv) \<in> set (side_map sd s))"
proof -
  note inv_parts(3)[OF assms]
  moreover have "lv \<in> snd ` A \<longleftrightarrow> (\<exists>p. (p, lv) \<in> A)" for A :: "(int \<times> laddr) set" by force
  ultimately show ?thesis by (simp only: ex_side side_map.simps Un_iff image_Un)
qed

lemma inv_level:
  assumes "cpp_inv s f P E X" and "(p, lv) \<in> set (side_map sd s)"
  shows "level_list s lv (f lv)" "\<exists>l. h_levels s lv = Some l \<and> cl_price l = p" "f lv = [] \<Longrightarrow> lv \<in> E"
    "x \<in> set (f lv) \<Longrightarrow> \<exists>r. h_orders s x = Some r \<and> co_level r = Some lv"
    "x \<in> set (f lv) \<Longrightarrow> x \<notin> X \<Longrightarrow> rest_ok sd p (ord s x)"
proof -
  have b: "cpp_books_ok s f E" and o: "orders_ok s f P X" using assms(1) by (simp_all add: cpp_inv_def)
  have "\<forall>sd p lv. (p, lv) \<in> set (side_map sd s) \<longrightarrow> level_list s lv (f lv) \<and>
        map_option cl_price (h_levels s lv) = Some p \<and> (f lv = [] \<longrightarrow> lv \<in> E)"
    using b unfolding cpp_books_ok_def by (elim conjE)
  then have l: "level_list s lv (f lv) \<and> map_option cl_price (h_levels s lv) = Some p \<and> (f lv = [] \<longrightarrow> lv \<in> E)"
    using assms(2) by (elim allE impE) assumption
  then show "level_list s lv (f lv)" "f lv = [] \<Longrightarrow> lv \<in> E" by simp_all
  show "\<exists>l. h_levels s lv = Some l \<and> cl_price l = p" using l by auto
  show "x \<in> set (f lv) \<Longrightarrow> \<exists>r. h_orders s x = Some r \<and> co_level r = Some lv" using l by (simp add: level_list_def)
  have "\<forall>sd p lv x. (p, lv) \<in> set (side_map sd s) \<longrightarrow> x \<in> set (f lv) - X \<longrightarrow> rest_ok sd p (ord s x)"
    using o unfolding orders_ok_def by (elim conjE)
  then have "x \<in> set (f lv) - X \<longrightarrow> rest_ok sd p (ord s x)" using assms(2) by blast
  then show "x \<in> set (f lv) \<Longrightarrow> x \<notin> X \<Longrightarrow> rest_ok sd p (ord s x)" by simp
qed

lemma inv_loose:
  assumes "cpp_inv s f P E X" and "x \<in> P \<or> x \<in> set (e_stops s)"
  shows "\<exists>r. h_orders s x = Some r \<and> co_level r = None"
proof -
  have o: "orders_ok s f P X" using assms(1) by (simp add: cpp_inv_def)
  have "x \<in> dom (h_orders s)" using o assms(2) by (auto simp only: orders_ok_def)
  moreover have "co_level (ord s x) = None" using o assms(2) by (auto simp only: orders_ok_def)
  ultimately show ?thesis by (auto simp: ord_def)
qed

lemma inv_stop: "cpp_inv s f P E X \<Longrightarrow> x \<in> set (e_stops s) \<Longrightarrow> x \<notin> X \<Longrightarrow> stop_ok (ord s x)"
  by (simp add: cpp_inv_def orders_ok_def)

lemma inv_live:
  assumes "cpp_inv s f P E X"
  shows "h_orders s x \<noteq> None \<longleftrightarrow> (\<exists>sd p lv. (p, lv) \<in> set (side_map sd s) \<and> x \<in> set (f lv)) \<or> x \<in> set (e_stops s) \<or> x \<in> P"
proof -
  note inv_parts(5)[OF assms]
  then have "x \<in> dom (h_orders s) \<longleftrightarrow> (\<exists>lv \<in> dom (h_levels s). x \<in> set (f lv)) \<or> x \<in> set (e_stops s) \<or> x \<in> P" by auto
  then show ?thesis using side_of_dom[OF assms] by (simp add: domIff) blast
qed

lemma inv_apart:
  assumes "cpp_inv s f P E X" and "(p, lv) \<in> set (side_map sd s)" and "x \<in> set (f lv)"
  shows "x \<notin> P" "x \<notin> set (e_stops s)" "(q, k) \<in> set (side_map sd' s) \<Longrightarrow> k \<noteq> lv \<Longrightarrow> x \<notin> set (f k)"
  using inv_level(4)[OF assms] inv_loose[OF assms(1), of x] inv_level(4)[OF assms(1), of q k sd' x] by auto

lemma inv_clean:
  assumes "cpp_inv s f P E (insert x X)" and "x \<in> set (e_stops s) \<Longrightarrow> stop_ok (ord s x)"
    and "\<And>sd p lv. (p, lv) \<in> set (side_map sd s) \<Longrightarrow> x \<in> set (f lv) \<Longrightarrow> rest_ok sd p (ord s x)"
  shows "cpp_inv s f P E X"
proof -
  have o: "orders_ok s f P (insert x X)" using assms(1) by (simp add: cpp_inv_def)
  have "stop_ok (ord s y)" if "y \<in> set (e_stops s) - X" for y
    using o assms(2) that by (cases "y = x") (simp_all add: orders_ok_def)
  moreover have "rest_ok sd p (ord s y)" if "(p, lv) \<in> set (side_map sd s)" "y \<in> set (f lv) - X" for sd p lv y
    using inv_level(5)[OF assms(1) that(1), of y] assms(3)[OF that(1)] that by (cases "y = x") simp_all
  ultimately have "orders_ok s f P X" using o by (simp add: orders_ok_def)
  then show ?thesis using assms(1) by (simp add: cpp_inv_def)
qed

text \<open>Building it: what has to be shown when the books or the orders change.\<close>

lemma inv_intro:
  assumes "\<And>sd. sorted_wrt (px_before sd) (map fst (side_map sd s))"
    and "\<And>p q. p \<in> fst ` set (e_bids s) \<Longrightarrow> q \<in> fst ` set (e_asks s) \<Longrightarrow> p < q"
    and "dom (h_levels s) = snd ` (set (e_bids s) \<union> set (e_asks s))"
    and "\<And>lv. lv \<in> dom (h_levels s) \<Longrightarrow> lv < h_lbrk s"
    and "\<And>sd p lv. (p, lv) \<in> set (side_map sd s) \<Longrightarrow> level_list s lv (f lv) \<and>
      map_option cl_price (h_levels s lv) = Some p \<and> (f lv = [] \<longrightarrow> lv \<in> E)"
    and "dom (h_orders s) = (\<Union>lv \<in> dom (h_levels s). set (f lv)) \<union> set (e_stops s) \<union> P"
    and "\<And>x. x \<in> dom (h_orders s) \<Longrightarrow> x < h_obrk s"
    and "distinct (e_stops s)" and "set (e_stops s) \<inter> P = {}"
    and "\<And>x. x \<in> set (e_stops s) \<union> P \<Longrightarrow> co_level (ord s x) = None"
    and "\<And>x. x \<in> set (e_stops s) \<Longrightarrow> x \<notin> X \<Longrightarrow> stop_ok (ord s x)"
    and "\<And>sd p lv x. (p, lv) \<in> set (side_map sd s) \<Longrightarrow> x \<in> set (f lv) \<Longrightarrow> x \<notin> X \<Longrightarrow> rest_ok sd p (ord s x)"
    and "index_ok s" and "counts_ok s" and "trades_ok s"
  shows "cpp_inv s f P E X"
proof -
  have "cpp_books_ok s f E" unfolding cpp_books_ok_def by (intro conjI allI ballI impI assms(1-4)) (use assms(5) in blast)+
  moreover have "orders_ok s f P X"
    unfolding orders_ok_def by (intro conjI allI ballI impI assms(6-9)) (use assms(10-12) in blast)+
  ultimately show ?thesis using assms(13-15) unfolding cpp_inv_def by (intro conjI)
qed

subsection \<open>Changing the data of orders\<close>

definition lnk :: "CppOrder \<Rightarrow> oaddr option \<times> oaddr option \<times> laddr option \<times> u64" where
  "lnk r = (co_prev r, co_next r, co_level r, co_id r)"

lemma lnk_eqD:
  assumes "map_option lnk (h y) = map_option lnk (h' y)"
  shows "(h y = None) = (h' y = None)" and "h y = Some r \<Longrightarrow> \<exists>r'. h' y = Some r' \<and> lnk r' = lnk r"
  using assms by (cases "h y"; cases "h' y"; simp)+

lemma inv_data:
  assumes I: "cpp_inv s f P E X" and L: "\<And>y. map_option lnk (h y) = map_option lnk (h_orders s y)"
    and U: "\<And>y. y \<notin> X \<union> P \<Longrightarrow> h y = h_orders s y"
  shows "cpp_inv (s\<lparr>h_orders := h\<rparr>) f P E X"
proof -
  let ?s = "s\<lparr>h_orders := h\<rparr>"
  have dm: "dom h = dom (h_orders s)" using lnk_eqD(1)[of h _ "h_orders s", OF L] by (auto simp: dom_def)
  have same: "co_next (ord ?s y) = co_next (ord s y) \<and> co_prev (ord ?s y) = co_prev (ord s y) \<and>
      co_level (ord ?s y) = co_level (ord s y) \<and> co_id (ord ?s y) = co_id (ord s y)" if "h_orders s y \<noteq> None" for y
    using L[of y] that by (cases "h y") (auto simp: ord_def lnk_def)
  have nn: "(h y = None) = (h_orders s y = None)" for y using lnk_eqD(1)[of h y "h_orders s", OF L] .
  have "nxt ?s y = nxt s y" "prv ?s y = prv s y" for y
    using same[of y] nn[of y] by (auto simp: nxt_def prv_def ord_def split: option.splits)
  then have links: "nxt ?s = nxt s" "prv ?s = prv s" by auto
  have ll: "level_list ?s lv xs" if "level_list s lv xs" for lv xs
  proof -
    have "\<exists>r. h x = Some r \<and> co_level r = Some lv" if "x \<in> set xs" for x
      using \<open>level_list s lv xs\<close> that same[of x] nn[of x] by (auto simp: level_list_def ord_def)
    then show ?thesis using that by (simp add: level_list_def links)
  qed
  have od: "ord ?s y = ord s y" if "y \<notin> X \<union> P" for y using U[OF that] by (simp add: ord_def)
  note pt = inv_parts[OF I]
  show ?thesis
  proof (rule inv_intro)
    fix x assume x: "x \<in> set (e_stops ?s) \<union> P"
    then show "co_level (ord ?s x) = None" using inv_loose[OF I, of x] same[of x] by (auto simp: ord_def)
  next
    fix x assume "x \<in> set (e_stops ?s)" "x \<notin> X"
    moreover from this have "x \<notin> P" using pt(8) by auto
    ultimately show "stop_ok (ord ?s x)" using inv_stop[OF I, of x] od by simp
  next
    fix sd p lv x assume "(p, lv) \<in> set (side_map sd ?s)" "x \<in> set (f lv)" "x \<notin> X"
    then show "rest_ok sd p (ord ?s x)"
      using inv_level(5)[OF I, of p lv sd x] inv_apart(1)[OF I, of p lv sd x] od[of x] by simp
  next
    show "index_ok ?s" using pt(9) nn same by (simp add: index_ok_def dm) (metis (no_types, lifting))
  qed (use pt dm inv_level[OF I] ll in \<open>auto simp: counts_ok_def trades_ok_def\<close>)
qed

end
