(* ===== verification/Cpp_Blocks.thy ===== *)
theory Cpp_Blocks
  imports Cpp_Inv
begin

text \<open>
  The elementary operations of the C++ reference engine on states that satisfy the invariant:
  unlinking and appending an order, a new and an empty level, an order released or created,
  the vector of stop orders.
\<close>

section \<open>Lists\<close>

lemma heap_only_sel:
  assumes "heap_only s (s' :: CppEngine)"
  shows "h_obrk s' = h_obrk s" "h_lbrk s' = h_lbrk s" "e_log s' = e_log s" "e_bids s' = e_bids s" "e_asks s' = e_asks s"
    "e_idx s' = e_idx s" "e_stops s' = e_stops s" "e_trades s' = e_trades s" "e_now s' = e_now s" "e_tid s' = e_tid s"
    "e_lastPx s' = e_lastPx s" "e_poPol s' = e_poPol s" "e_tick s' = e_tick s" "e_oA s' = e_oA s" "e_oF s' = e_oF s"
    "e_lA s' = e_lA s" "e_lF s' = e_lF s" "side_map sd s' = side_map sd s"
  using assms by (auto simp: heap_only_def)

lemma level_list_frame:
  assumes "level_list s lv xs" and "h_levels s' lv = h_levels s lv" and "\<And>x. x \<in> set xs \<Longrightarrow> h_orders s' x = h_orders s x"
  shows "level_list s' lv xs"
proof -
  obtain l where l: "h_levels s lv = Some l" and d: "dll (nxt s) (prv s) (cl_head l) None xs (cl_tail l) None"
    using assms(1) by (auto simp: level_list_def)
  have "dll (nxt s') (prv s') (cl_head l) None xs (cl_tail l) None"
    using d by (subst dll_cong[of xs _ "nxt s" _ "prv s"]) (simp_all add: nxt_def prv_def assms(3))
  then show ?thesis using assms l by (simp add: level_list_def)
qed

lemma level_list_links:
  assumes "level_list s lv (as @ x # bs)" and "h_orders s x = Some r"
  shows "co_prev r = (if as = [] then None else Some (last as))"
    and "co_next r = (case bs of [] \<Rightarrow> None | y # _ \<Rightarrow> Some y)"
proof -
  obtain l where "h_levels s lv = Some l" and d: "dll (nxt s) (prv s) (cl_head l) None (as @ x # bs) (cl_tail l) None"
    using assms(1) by (auto simp: level_list_def)
  have nx: "nxt s x = co_next r" and pv: "prv s x = co_prev r" using assms(2) by (simp_all add: nxt_def prv_def)
  show "co_next r = (case bs of [] \<Rightarrow> None | y # _ \<Rightarrow> Some y)"
    using d nx by (cases bs) (auto simp: dll_append)
  show "co_prev r = (if as = [] then None else Some (last as))"
    using d pv by (cases as rule: rev_cases) (auto simp: dll_append)
qed

lemma level_list_tail:
  assumes "level_list s lv xs" and "h_levels s lv = Some l" and "cl_tail l = Some t"
  shows "t \<in> set xs"
  using assms by (cases xs rule: rev_cases) (auto simp: level_list_def dll_snoc)

text \<open>The frame of a list operation, for orders read through \<open>ord\<close>.\<close>

lemma list_frame_facts:
  assumes "list_frame lv Y s s'"
  shows "y \<notin> Y \<Longrightarrow> h_orders s' y = h_orders s y" "(h_orders s' y = None) = (h_orders s y = None)"
    "core (ord s' y) = core (ord s y)" "k \<noteq> lv \<Longrightarrow> h_levels s' k = h_levels s k"
    "map_option cl_price (h_levels s' k) = map_option cl_price (h_levels s k)" "dom (h_orders s') = dom (h_orders s)"
    "dom (h_levels s') = dom (h_levels s)"
proof -
  have o: "map_option core (h_orders s' y) = map_option core (h_orders s y)" for y using assms by (simp add: list_frame_def)
  have l: "map_option cl_price (h_levels s' k) = map_option cl_price (h_levels s k)" for k
    using assms by (cases "k = lv") (simp_all add: list_frame_def)
  show "y \<notin> Y \<Longrightarrow> h_orders s' y = h_orders s y" "k \<noteq> lv \<Longrightarrow> h_levels s' k = h_levels s k"
    using assms by (simp_all add: list_frame_def)
  have ne: "(h_orders s' y = None) = (h_orders s y = None)" for y using o[of y] by (cases "h_orders s y"; cases "h_orders s' y") simp_all
  then show "(h_orders s' y = None) = (h_orders s y = None)" .
  show "core (ord s' y) = core (ord s y)" using o[of y] by (cases "h_orders s y"; cases "h_orders s' y") (simp_all add: ord_def)
  show "map_option cl_price (h_levels s' k) = map_option cl_price (h_levels s k)" by (rule l)
  show "dom (h_orders s') = dom (h_orders s)" using ne by (simp add: dom_def)
  have "(h_levels s' k = None) = (h_levels s k = None)" for k using l[of k] by (cases "h_levels s k"; cases "h_levels s' k") simp_all
  then show "dom (h_levels s') = dom (h_levels s)" by (simp add: dom_def)
qed

text \<open>A list operation on one level, in general.\<close>

lemma inv_relist:
  assumes I: "cpp_inv s f P E X" and lv: "(p, lv) \<in> set (side_map sd s)"
    and fr: "list_frame lv Y s s'" and Y: "Y \<subseteq> set (f lv) \<union> P" and ll: "level_list s' lv xs"
    and xs: "set xs \<union> P' = set (f lv) \<union> P" and P': "\<And>x. x \<in> P' \<Longrightarrow> co_level (ord s' x) = None"
    and X': "\<And>x. x \<in> set xs \<Longrightarrow> x \<notin> X' \<Longrightarrow> x \<in> set (f lv) \<and> x \<notin> X" "X - X' \<subseteq> set (f lv) \<union> P"
    and E': "\<And>k. k \<noteq> lv \<Longrightarrow> k \<in> E \<Longrightarrow> k \<in> E'" "xs = [] \<Longrightarrow> lv \<in> E'"
  shows "cpp_inv s' (f(lv := xs)) P' E' X'"
proof -
  note pt = inv_parts[OF I]
  note ff = list_frame_facts[OF fr]
  have ho: "heap_only s s'" using fr by (simp add: list_frame_def)
  note hs = heap_only_sel[OF ho]
  have st: "x \<notin> set (f lv) \<union> P" if "x \<in> set (e_stops s)" for x
    using inv_apart(2)[OF I lv, of x] pt(8) that by auto
  have other: "x \<notin> set (f lv) \<union> P" if "(q, k) \<in> set (side_map sd' s)" "x \<in> set (f k)" "k \<noteq> lv" for q k sd' x
    using inv_apart(1,3)[OF I that(1,2)] lv that(3) by blast
  have od: "ord s' x = ord s x" if "x \<notin> set (f lv) \<union> P" for x
  proof -
    have "x \<notin> Y" using that Y by blast
    then show ?thesis by (simp add: ord_def ff(1))
  qed
  show ?thesis
  proof (rule inv_intro)
    fix sd' q k assume k: "(q, k) \<in> set (side_map sd' s')"
    then have k': "(q, k) \<in> set (side_map sd' s)" by (simp add: hs)
    have "level_list s' k ((f(lv := xs)) k)"
    proof (cases "k = lv")
      case False
      moreover have "x \<notin> Y" if "x \<in> set (f k)" for x using other[OF k' that False] Y by blast
      then have "level_list s' k (f k)"
        by (intro level_list_frame[OF inv_level(1)[OF I k']] ff(1,4) False)
      ultimately show ?thesis by simp
    qed (simp add: ll)
    moreover have "(f(lv := xs)) k = [] \<longrightarrow> k \<in> E'" using inv_level(3)[OF I k'] E' by (cases "k = lv") auto
    moreover have "map_option cl_price (h_levels s' k) = Some q" using inv_level(2)[OF I k'] ff(5)[of k] by auto
    ultimately show "level_list s' k ((f(lv := xs)) k) \<and> map_option cl_price (h_levels s' k) = Some q \<and>
      ((f(lv := xs)) k = [] \<longrightarrow> k \<in> E')" by blast
  next
    have "lv \<in> dom (h_levels s)" using side_of_dom[OF I] lv by blast
    then have "(\<Union>k \<in> dom (h_levels s). set ((f(lv := xs)) k)) \<union> P' = (\<Union>k \<in> dom (h_levels s) - {lv}. set (f k)) \<union> (set xs \<union> P')"
      by (auto split: if_splits)
    also have "\<dots> = (\<Union>k \<in> dom (h_levels s). set (f k)) \<union> P"
      using \<open>lv \<in> dom (h_levels s)\<close> unfolding xs by auto
    finally show "dom (h_orders s') = (\<Union>k \<in> dom (h_levels s'). set ((f(lv := xs)) k)) \<union> set (e_stops s') \<union> P'"
      using pt(5) by (simp add: ff hs) blast
  next
    show "set (e_stops s') \<inter> P' = {}" using st xs by (auto simp: hs)
  next
    fix x assume "x \<in> set (e_stops s') \<union> P'"
    then show "co_level (ord s' x) = None"
      using P'[of x] inv_loose[OF I, of x] od[of x] st[of x] by (auto simp: hs ord_def)
  next
    fix x assume "x \<in> set (e_stops s')" "x \<notin> X'"
    then show "stop_ok (ord s' x)" using inv_stop[OF I, of x] od[of x] st[of x] X'(2) by (auto simp: hs)
  next
    fix sd' q k x assume k: "(q, k) \<in> set (side_map sd' s')" and x: "x \<in> set ((f(lv := xs)) k)" "x \<notin> X'"
    from k have k': "(q, k) \<in> set (side_map sd' s)" by (simp add: hs)
    have "x \<in> set (f k) \<and> x \<notin> X"
    proof (cases "k = lv")
      case True
      then show ?thesis using X'(1)[of x] x by simp
    next
      case False
      then show ?thesis using x other[OF k', of x] X'(2) by auto
    qed
    then have "rest_ok sd' q (ord s x)" using inv_level(5)[OF I k'] by blast
    then show "rest_ok sd' q (ord s' x)" using ok_core(2)[OF ff(3)] by blast
  next
    show "index_ok s'" using pt(9) core_sel(1)[OF ff(3)] by (simp add: index_ok_def hs ff(6) ff(2))
  next
    show "counts_ok s'" using pt(10) by (simp add: counts_ok_def hs ff(6,7))
  qed (use pt in \<open>auto simp: hs ff trades_ok_def\<close>)
qed

lemma inv_unlink:
  assumes I: "cpp_inv s f P E X" and lv: "(p, lv) \<in> set (side_map sd s)" and x: "f lv = as @ x # bs"
  shows "wp (lvl_remove lv x s) (\<lambda>s'. cpp_inv s' (f(lv := as @ bs)) (insert x P) (insert lv E) (X - {x}) \<and>
    list_frame lv (set (f lv)) s s')"
proof -
  have l: "level_list s lv (as @ x # bs)" using inv_level(1)[OF I lv] x by simp
  obtain s' where run: "lvl_remove lv x s = Some s'" and l': "level_list s' lv (as @ bs)"
    and out: "\<exists>r. h_orders s' x = Some r \<and> co_level r = None" using lvl_remove_law[OF l] by blast
  obtain r where r: "h_orders s x = Some r" using inv_level(4)[OF I lv, of x] x by auto
  have d: "distinct (as @ x # bs)" using level_list_distinct[OF l] .
  have fr: "list_frame lv (set (f lv)) s s'"
    by (rule lvl_remove_frame[OF run r]) (use d x level_list_links[OF l r] in \<open>auto split: if_splits list.splits\<close>)
  have lev: "co_level (ord s' y) = None" if "y \<in> insert x P" for y
  proof (cases "y = x")
    case True
    then show ?thesis using out by (auto simp: ord_def)
  next
    case False
    then have "y \<in> P" "y \<notin> set (f lv)" using that inv_apart(1)[OF I lv, of y] by auto
    then show ?thesis using inv_loose[OF I, of y] list_frame_facts(1)[OF fr, of y] by (auto simp: ord_def)
  qed
  have "cpp_inv s' (f(lv := as @ bs)) (insert x P) (insert lv E) (X - {x})"
    by (rule inv_relist[OF I lv fr _ l']) (use x lev d in auto)
  with run fr show ?thesis by (simp add: wp_def)
qed

lemma inv_push:
  assumes I: "cpp_inv s f P E X" and lv: "(p, lv) \<in> set (side_map sd s)" and x: "x \<in> P"
  shows "wp (pushBack lv x s) (\<lambda>s'. cpp_inv s' (f(lv := f lv @ [x])) (P - {x}) (E - {lv}) (insert x X) \<and>
    list_frame lv (insert x (set (f lv))) s s')"
proof -
  have l: "level_list s lv (f lv)" using inv_level(1)[OF I lv] .
  obtain r where r: "h_orders s x = Some r" using inv_loose[OF I, of x] x by auto
  have nx: "x \<notin> set (f lv)" using inv_apart(1)[OF I lv] x by blast
  obtain s' where run: "pushBack lv x s = Some s'" and l': "level_list s' lv (f lv @ [x])"
    using pushBack_law[OF l r nx] by blast
  have fr: "list_frame lv (insert x (set (f lv))) s s'"
    by (rule pushBack_frame[OF run]) (use level_list_tail[OF l] in auto)
  have lev: "co_level (ord s' y) = None" if "y \<in> P - {x}" for y
  proof -
    have "y \<in> P" "y \<notin> insert x (set (f lv))" using that inv_apart(1)[OF I lv, of y] by auto
    then show ?thesis using inv_loose[OF I, of y] list_frame_facts(1)[OF fr, of y] by (auto simp: ord_def)
  qed
  have "cpp_inv s' (f(lv := f lv @ [x])) (P - {x}) (E - {lv}) (insert x X)"
    by (rule inv_relist[OF I lv fr _ l']) (use x lev in auto)
  with run fr show ?thesis by (simp add: wp_def)
qed

section \<open>Levels\<close>

lemma px_before_irrefl [simp]: "\<not> px_before sd p p"
  by (cases sd) auto

lemma px_before_total: "p \<noteq> q \<Longrightarrow> \<not> px_before sd p q \<longleftrightarrow> px_before sd q p"
  by (cases sd) auto

lemma px_before_trans: "px_before sd p q \<Longrightarrow> px_before sd q r \<Longrightarrow> px_before sd p r"
  by (cases sd) auto

lemma sorted_keys_distinct: "sorted_wrt (px_before sd) ps \<Longrightarrow> distinct ps"
  by (induction ps) auto

lemma oppositeSide_simps [simp]: "oppositeSide (oppositeSide sd) = sd" "oppositeSide sd \<noteq> sd" "sd \<noteq> oppositeSide sd"
  by (cases sd; simp)+

lemma side_cases: "sd' = sd \<or> sd' = oppositeSide sd"
  by (cases sd; cases sd') simp_all

lemma side_map_set [simp]:
  "side_map sd (set_side_map sd m s) = m" "sd' \<noteq> sd \<Longrightarrow> side_map sd' (set_side_map sd m s) = side_map sd' s"
  by (cases sd; simp) (cases sd; cases sd'; simp)

lemma set_side_map_sel [simp]:
  "h_orders (set_side_map sd m s) = h_orders s" "h_levels (set_side_map sd m s) = h_levels s"
  "h_obrk (set_side_map sd m s) = h_obrk s" "h_lbrk (set_side_map sd m s) = h_lbrk s"
  "e_idx (set_side_map sd m s) = e_idx s" "e_stops (set_side_map sd m s) = e_stops s"
  "e_trades (set_side_map sd m s) = e_trades s" "e_poPol (set_side_map sd m s) = e_poPol s"
  "e_oA (set_side_map sd m s) = e_oA s" "e_oF (set_side_map sd m s) = e_oF s"
  "e_lA (set_side_map sd m s) = e_lA s" "e_lF (set_side_map sd m s) = e_lF s"
  by (cases sd; simp)+

lemma key_unique:
  assumes "cpp_inv s f P E X" and "(p, lv) \<in> set (side_map sd s)" and "(q, k) \<in> set (side_map sd' s)"
  shows "lv = k \<Longrightarrow> p = q \<and> sd = sd'" and "sd = sd' \<Longrightarrow> p = q \<Longrightarrow> lv = k"
proof -
  show "lv = k" if "sd = sd'" "p = q"
    using sorted_keys_distinct[OF inv_parts(1)[OF assms(1), of sd]] assms(2,3) that by (auto dest: eq_key_imp_eq_value)
  assume "lv = k"
  then have "p = q" using inv_level(2)[OF assms(1,2)] inv_level(2)[OF assms(1,3)] by auto
  have lt: "x < y" if "(x, a) \<in> set (e_bids s)" "(y, b) \<in> set (e_asks s)" for x y a b
    by (rule bspec[OF bspec[OF inv_parts(2)[OF assms(1)]]]) (use that in force)+
  have "sd = sd'"
    using assms(2,3) \<open>p = q\<close> lt[of p lv q k] lt[of q k p lv] by (cases sd; cases sd') simp_all
  with \<open>p = q\<close> show "p = q \<and> sd = sd'" by simp
qed

lemma side_map_lookup:
  assumes "cpp_inv s f P E X"
  shows "map_of (side_map sd s) p = Some lv \<longleftrightarrow> (p, lv) \<in> set (side_map sd s)"
  using sorted_keys_distinct[OF inv_parts(1)[OF assms, of sd]] by simp

lemma map_put_set: "p \<notin> fst ` set m \<Longrightarrow> set (map_put sd p lv m) = insert (p, lv) (set m)"
  by (induction m) (auto split: if_splits)

lemma map_put_sorted:
  "p \<notin> fst ` set m \<Longrightarrow> sorted_wrt (px_before sd) (map fst m) \<Longrightarrow> sorted_wrt (px_before sd) (map fst (map_put sd p lv m))"
proof (induction m)
  case (Cons e m)
  obtain q k where e: "e = (q, k)" by (cases e)
  have ne: "p \<noteq> q" "p \<notin> fst ` set m" using Cons.prems(1) e by auto
  have srt: "sorted_wrt (px_before sd) (map fst m)" "\<forall>r \<in> fst ` set m. px_before sd q r" using Cons.prems(2) e by auto
  show ?case
  proof (cases "px_before sd p q")
    case True
    then have "\<forall>r \<in> fst ` set m. px_before sd p r" using srt(2) px_before_trans by blast
    then show ?thesis using True ne srt e by simp
  next
    case False
    then have "px_before sd q p" using ne(1) by (simp add: px_before_total)
    then show ?thesis using False ne srt e Cons.IH by (simp add: map_put_set)
  qed
qed simp

lemma map_erase_set: "set (map_erase p m) = {e \<in> set m. fst e \<noteq> p}"
  by (auto simp: map_erase_def)

lemma map_erase_sorted: "sorted_wrt R (map fst m) \<Longrightarrow> sorted_wrt R (map fst (map_erase p m))"
  by (induction m) (auto simp: map_erase_def)

text \<open>Erasing the first key of a sorted map.\<close>

lemma map_erase_first:
  assumes "sorted_wrt (px_before sd) (map fst ((p, lv) # m))"
  shows "map_erase p ((p, lv) # m) = m"
  using assms by (auto simp: map_erase_def filter_id_conv)

text \<open>What the operations of the books do not touch.\<close>

definition env :: "CppEngine \<Rightarrow> CppEngine \<Rightarrow> bool" where
  "env s s' \<longleftrightarrow> e_stops s' = e_stops s \<and> e_trades s' = e_trades s \<and> e_poPol s' = e_poPol s"

lemma env_refl [simp]: "env s s" by (simp add: env_def)
lemma env_trans: "env s s' \<Longrightarrow> env s' s'' \<Longrightarrow> env s s''" by (simp add: env_def)
lemma env_heap_only: "heap_only s s' \<Longrightarrow> env s s'" by (auto simp: heap_only_def env_def)

text \<open>The clauses about both books, side by side.\<close>

lemma uncrossed_sides:
  "(\<forall>p \<in> fst ` set (e_bids s). \<forall>q \<in> fst ` set (e_asks s). p < q) \<longleftrightarrow>
   (\<forall>sd. \<forall>p \<in> fst ` set (side_map sd s). \<forall>q \<in> fst ` set (side_map (oppositeSide sd) s). px_before (oppositeSide sd) p q)"
proof -
  have all: "(\<forall>sd. Q sd) \<longleftrightarrow> Q BUY \<and> Q SELL" for Q by (metis Side.exhaust)
  show ?thesis by (simp add: all) blast
qed

lemma inv_uncrossed:
  assumes "cpp_inv s f P E X" and "a \<in> fst ` set (side_map sd s)" and "b \<in> fst ` set (side_map (oppositeSide sd) s)"
  shows "px_before (oppositeSide sd) a b"
  using bspec[OF bspec[OF spec[OF inv_parts(2)[OF assms(1), unfolded uncrossed_sides]] assms(2)] assms(3)] .

lemma dom_sides:
  "dom (h_levels s) = snd ` (set (e_bids s) \<union> set (e_asks s)) \<longleftrightarrow>
   (\<forall>lv. lv \<in> dom (h_levels s) \<longleftrightarrow> (\<exists>sd p. (p, lv) \<in> set (side_map sd s)))"
proof -
  have "lv \<in> snd ` A \<longleftrightarrow> (\<exists>p. (p, lv) \<in> A)" for lv and A :: "(int \<times> laddr) set" by force
  then show ?thesis by (simp only: ex_side side_map.simps Un_iff image_Un set_eq_iff)
qed

lemma finite_below: "\<forall>x \<in> A. x < n \<Longrightarrow> finite A" for n :: nat
  by (rule finite_subset[of _ "{..< n}"]) auto

lemma inv_finite:
  assumes "cpp_inv s f P E X"
  shows "finite (dom (h_orders s))" and "finite (dom (h_levels s))"
  using inv_parts(6)[OF assms] inv_parts(4)[OF assms] by (auto intro: finite_below)

lemma card_remove_word:
  assumes "finite A" and "x \<in> A"
  shows "(of_nat (card (A - {x})) :: 'w::len word) = of_nat (card A) - 1"
  by (simp flip: card_Suc_Diff1[OF assms])

text \<open>Levels appear and disappear; the orders stay.\<close>

lemma inv_remap:
  assumes I: "cpp_inv s f P E X"
    and same: "h_orders s' = h_orders s" "e_stops s' = e_stops s" "h_obrk s' = h_obrk s" "e_trades s' = e_trades s"
      "e_idx s' = e_idx s" "e_oA s' = e_oA s" "e_oF s' = e_oF s"
    and srt: "\<And>sd. sorted_wrt (px_before sd) (map fst (side_map sd s'))"
    and unc: "\<And>sd a b. a \<in> fst ` set (side_map sd s') \<Longrightarrow> b \<in> fst ` set (side_map (oppositeSide sd) s') \<Longrightarrow> px_before (oppositeSide sd) a b"
    and dm: "\<And>k. k \<in> dom (h_levels s') \<longleftrightarrow> (\<exists>sd q. (q, k) \<in> set (side_map sd s'))"
    and brk: "\<And>k. k \<in> dom (h_levels s') \<Longrightarrow> k < h_lbrk s'"
    and lev: "\<And>sd q k. (q, k) \<in> set (side_map sd s') \<Longrightarrow>
      (q, k) \<in> set (side_map sd s) \<and> h_levels s' k = h_levels s k \<and> f' k = f k \<and> (k \<in> E \<longrightarrow> k \<in> E') \<or>
      f' k = [] \<and> k \<in> E' \<and> h_levels s' k = Some \<lparr>cl_price = q, cl_head = None, cl_tail = None\<rparr>"
    and un: "(\<Union>k \<in> dom (h_levels s'). set (f' k)) = (\<Union>k \<in> dom (h_levels s). set (f k))"
    and cnt: "e_lA s' - e_lF s' = of_nat (card (dom (h_levels s')))"
  shows "cpp_inv s' f' P E' X"
proof (rule inv_intro)
  note pt = inv_parts[OF I]
  have od: "ord s' = ord s" by (rule ord_same) (rule same)
  have "\<forall>p \<in> fst ` set (e_bids s'). \<forall>q \<in> fst ` set (e_asks s'). p < q" unfolding uncrossed_sides by (intro allI ballI unc)
  then show "\<And>p q. p \<in> fst ` set (e_bids s') \<Longrightarrow> q \<in> fst ` set (e_asks s') \<Longrightarrow> p < q" by blast
  show "dom (h_levels s') = snd ` (set (e_bids s') \<union> set (e_asks s'))" unfolding dom_sides by (intro allI dm)
  show "level_list s' k (f' k) \<and> map_option cl_price (h_levels s' k) = Some q \<and> (f' k = [] \<longrightarrow> k \<in> E')"
    if k: "(q, k) \<in> set (side_map sd s')" for sd q k
    using lev[OF k]
  proof
    assume *: "(q, k) \<in> set (side_map sd s) \<and> h_levels s' k = h_levels s k \<and> f' k = f k \<and> (k \<in> E \<longrightarrow> k \<in> E')"
    then have "(q, k) \<in> set (side_map sd s)" by blast
    from inv_level(1-3)[OF I this] * show ?thesis using level_list_frame[of s k "f k" s'] same(1) by auto
  qed (simp add: level_list_def)
  show "rest_ok sd q (ord s' x)" if "(q, k) \<in> set (side_map sd s')" "x \<in> set (f' k)" "x \<notin> X" for sd q k x
    using lev[OF that(1)] inv_level(5)[OF I, of q k sd x] that by (auto simp: od)
  show "dom (h_orders s') = (\<Union>k \<in> dom (h_levels s'). set (f' k)) \<union> set (e_stops s') \<union> P" using pt(5) by (simp add: same un)
  show "index_ok s'" using pt(9) by (simp add: index_ok_def same od)
  show "counts_ok s'" using pt(10) cnt by (simp add: counts_ok_def same)
  show "co_level (ord s' x) = None" if "x \<in> set (e_stops s') \<union> P" for x
    using inv_loose[OF I, of x] that by (auto simp: od same ord_def)
qed (use inv_parts[OF I] inv_stop[OF I] same ord_same[OF same(1)] srt brk in \<open>auto simp: trades_ok_def\<close>)

lemma inv_new_level:
  assumes I: "cpp_inv s f P E X" and new: "p \<notin> fst ` set (side_map sd s)"
    and apart: "\<And>q. q \<in> fst ` set (side_map (oppositeSide sd) s) \<Longrightarrow> px_before (oppositeSide sd) p q"
  shows "\<exists>lv s1. allocLvl p s = Some (lv, s1) \<and> side_map sd s1 = side_map sd s \<and>
    (let s2 = set_side_map sd (map_put sd p lv (side_map sd s1)) s1 in
       cpp_inv s2 (f(lv := [])) P (insert lv E) X \<and> (p, lv) \<in> set (side_map sd s2) \<and> h_orders s2 = h_orders s \<and>
       env s s2 \<and> e_idx s2 = e_idx s \<and> side_map sd s2 = map_put sd p lv (side_map sd s) \<and>
       side_map (oppositeSide sd) s2 = side_map (oppositeSide sd) s) \<and> lv \<notin> dom (h_levels s)"
proof -
  let ?lv = "h_lbrk s"
  obtain s1 where al: "allocLvl p s = Some (?lv, s1)"
    and h: "h_levels s1 = (h_levels s)(?lv \<mapsto> \<lparr>cl_price = p, cl_head = None, cl_tail = None\<rparr>)" "h_lbrk s1 = Suc ?lv"
      "e_lA s1 = e_lA s + 1" "e_lF s1 = e_lF s" "h_orders s1 = h_orders s" "h_obrk s1 = h_obrk s" "e_bids s1 = e_bids s"
      "e_asks s1 = e_asks s" "e_idx s1 = e_idx s" "e_oA s1 = e_oA s" "e_oF s1 = e_oF s" "e_stops s1 = e_stops s"
      "e_trades s1 = e_trades s" "e_poPol s1 = e_poPol s"
    by (simp add: allocLvl_def new_level_def upd_lvl_def Let_def)
  have sm: "side_map sd' s1 = side_map sd' s" for sd' by (cases sd') (simp_all add: h)
  let ?s2 = "set_side_map sd (map_put sd p ?lv (side_map sd s1)) s1"
  have put: "set (side_map sd ?s2) = insert (p, ?lv) (set (side_map sd s))" by (simp add: sm map_put_set[OF new])
  have opp: "side_map (oppositeSide sd) ?s2 = side_map (oppositeSide sd) s" by (simp add: sm)
  have ent: "(q, k) \<in> set (side_map sd' ?s2) \<longleftrightarrow> (q, k) \<in> set (side_map sd' s) \<or> sd' = sd \<and> q = p \<and> k = ?lv" for sd' q k
    using side_cases[of sd' sd] put by (auto simp: opp)
  note pt = inv_parts[OF I]
  have fresh: "?lv \<notin> dom (h_levels s)" using pt(4) by blast
  have old: "k \<noteq> ?lv" if "(q, k) \<in> set (side_map sd' s)" for q k sd' using that side_of_dom[OF I] fresh by blast
  have "cpp_inv ?s2 (f(?lv := [])) P (insert ?lv E) X"
  proof (rule inv_remap[OF I])
    fix sd'
    show "sorted_wrt (px_before sd') (map fst (side_map sd' ?s2))"
      using side_cases[of sd' sd] pt(1)[of sd'] map_put_sorted[OF new pt(1)[of sd]] by (auto simp: sm)
  next
    fix sd' a b assume ab: "a \<in> fst ` set (side_map sd' ?s2)" "b \<in> fst ` set (side_map (oppositeSide sd') ?s2)"
    have rev: "px_before sd a p" if "a \<in> fst ` set (side_map (oppositeSide sd) s)" using apart[OF that] by (cases sd) simp_all
    consider "sd' = sd" | "sd' = oppositeSide sd" using side_cases[of sd' sd] by blast
    then show "px_before (oppositeSide sd') a b"
    proof cases
      case 1
      then have "a = p \<or> a \<in> fst ` set (side_map sd s)" "b \<in> fst ` set (side_map (oppositeSide sd) s)" using ab put opp by auto
      then show ?thesis using 1 apart inv_uncrossed[OF I, of a sd b] by blast
    next
      case 2
      then have "a \<in> fst ` set (side_map (oppositeSide sd) s)" "b = p \<or> b \<in> fst ` set (side_map sd s)" using ab put opp by auto
      then show ?thesis using 2 rev inv_uncrossed[OF I, of a "oppositeSide sd" b] by auto
    qed
  next
    show "k \<in> dom (h_levels ?s2) \<longleftrightarrow> (\<exists>sd' q. (q, k) \<in> set (side_map sd' ?s2))" for k
      using side_of_dom[OF I, of k] by (simp add: h ent) blast
  next
    fix k assume "k \<in> dom (h_levels ?s2)"
    then have "k = ?lv \<or> k \<in> dom (h_levels s)" by (auto simp: h split: if_splits)
    then have "k < Suc ?lv" using bspec[OF pt(4), of k] by (elim disjE) simp_all
    then show "k < h_lbrk ?s2" by (simp add: h)
  next
    show "(\<Union>k \<in> dom (h_levels ?s2). set ((f(?lv := [])) k)) = (\<Union>k \<in> dom (h_levels s). set (f k))"
    proof -
      have "(\<Union>k \<in> dom (h_levels s). set ((f(?lv := [])) k)) = (\<Union>k \<in> dom (h_levels s). set (f k))"
        by (rule SUP_cong) (use fresh in auto)
      then show ?thesis by (simp add: h)
    qed
  next
    show "e_lA ?s2 - e_lF ?s2 = of_nat (card (dom (h_levels ?s2)))"
      using pt(10) fresh inv_finite(2)[OF I] by (simp add: counts_ok_def h algebra_simps)
  qed (use old in \<open>auto simp: h ent\<close>)
  moreover have "env s ?s2" by (simp add: env_def h)
  ultimately show ?thesis using al sm put opp fresh by (auto simp: Let_def h)
qed

lemma inv_erase_level:
  assumes I: "cpp_inv s f P E X" and lv: "(p, lv) \<in> set (side_map sd s)" and mt: "f lv = []"
  shows "wp (freeLvl lv (set_side_map sd (map_erase p (side_map sd s)) s)) (\<lambda>s'. cpp_inv s' f P (E - {lv}) X \<and>
    h_orders s' = h_orders s \<and> env s s' \<and> e_idx s' = e_idx s \<and> side_map sd s' = map_erase p (side_map sd s) \<and>
    side_map (oppositeSide sd) s' = side_map (oppositeSide sd) s)"
proof -
  let ?m = "set_side_map sd (map_erase p (side_map sd s)) s"
  let ?s = "?m\<lparr>h_levels := (h_levels s)(lv := None), e_lF := e_lF s + 1\<rparr>"
  have live: "lv \<in> dom (h_levels s)" using side_of_dom[OF I] lv by blast
  then have run: "freeLvl lv ?m = Some ?s" by (auto simp: freeLvl_def delete_level_def)
  have ent: "(q, k) \<in> set (side_map sd' ?m) \<longleftrightarrow> (q, k) \<in> set (side_map sd' s) \<and> k \<noteq> lv" for sd' q k
  proof (cases "sd' = sd")
    case True
    then show ?thesis using key_unique[OF I lv, of q k sd] by (auto simp: map_erase_set)
  next
    case False
    then show ?thesis using key_unique(1)[OF I lv, of q k sd'] by auto
  qed
  have sub: "fst ` set (side_map sd' ?s) \<subseteq> fst ` set (side_map sd' s)" for sd'
    by (cases "sd' = sd") (auto simp: map_erase_set)
  note pt = inv_parts[OF I]
  have "cpp_inv ?s f P (E - {lv}) X"
  proof (rule inv_remap[OF I])
    fix sd' show "sorted_wrt (px_before sd') (map fst (side_map sd' ?s))"
      using pt(1)[of sd'] by (cases "sd' = sd") (auto simp: map_erase_sorted)
  next
    fix sd' a b assume "a \<in> fst ` set (side_map sd' ?s)" "b \<in> fst ` set (side_map (oppositeSide sd') ?s)"
    then show "px_before (oppositeSide sd') a b" using sub[of sd'] sub[of "oppositeSide sd'"] inv_uncrossed[OF I, of a sd' b] by blast
  next
    show "k \<in> dom (h_levels ?s) \<longleftrightarrow> (\<exists>sd' q. (q, k) \<in> set (side_map sd' ?s))" for k
    proof -
      have "k \<in> dom (h_levels ?s) \<longleftrightarrow> k \<noteq> lv \<and> k \<in> dom (h_levels s)" by auto
      then show ?thesis using side_of_dom[OF I, of k] by (simp add: ent)
    qed
  next
    show "(\<Union>k \<in> dom (h_levels ?s). set (f k)) = (\<Union>k \<in> dom (h_levels s). set (f k))"
      using mt by (auto split: if_splits)
  next
    show "e_lA ?s - e_lF ?s = of_nat (card (dom (h_levels ?s)))"
      using pt(10) card_remove_word[OF inv_finite(2)[OF I] live, where 'w = 64]
      by (simp add: counts_ok_def algebra_simps)
  qed (use pt(4) in \<open>auto simp: ent\<close>)
  then show ?thesis unfolding run by (simp add: env_def)
qed

section \<open>Orders\<close>

text \<open>An order outside the books and the stops comes or goes.\<close>

lemma inv_orders:
  assumes I: "cpp_inv s f P E X" and x: "x \<notin> set (e_stops s)" "\<And>sd q k. (q, k) \<in> set (side_map sd s) \<Longrightarrow> x \<notin> set (f k)"
    and h: "\<And>y. y \<noteq> x \<Longrightarrow> h_orders s' y = h_orders s y"
    and same: "h_levels s' = h_levels s" "h_lbrk s' = h_lbrk s" "e_bids s' = e_bids s" "e_asks s' = e_asks s" "e_stops s' = e_stops s"
    and brk: "h_obrk s \<le> h_obrk s'" "h_orders s' x \<noteq> None \<Longrightarrow> x < h_obrk s'"
    and P': "P' - {x} = P - {x}" "x \<in> P' \<longleftrightarrow> h_orders s' x \<noteq> None" "x \<in> P' \<Longrightarrow> co_level (ord s' x) = None"
    and rest: "index_ok s'" "counts_ok s'" "trades_ok s'"
  shows "cpp_inv s' f P' E X"
proof (rule inv_intro)
  note pt = inv_parts[OF I]
  have od: "ord s' y = ord s y" if "y \<noteq> x" for y using h[OF that] by (simp add: ord_def)
  have sm: "side_map sd s' = side_map sd s" for sd by (cases sd) (simp_all add: same)
  show "level_list s' k (f k) \<and> map_option cl_price (h_levels s' k) = Some q \<and> (f k = [] \<longrightarrow> k \<in> E)"
    if "(q, k) \<in> set (side_map sd s')" for sd q k
  proof -
    have k: "(q, k) \<in> set (side_map sd s)" using that by (simp add: sm)
    have "y \<noteq> x" if "y \<in> set (f k)" for y using that x(2)[OF k] by auto
    then have "level_list s' k (f k)" by (intro level_list_frame[OF inv_level(1)[OF I k]]) (simp_all add: same h)
    then show ?thesis using inv_level(2,3)[OF I k] by (auto simp: same)
  qed
  show "dom (h_orders s') = (\<Union>k \<in> dom (h_levels s'). set (f k)) \<union> set (e_stops s') \<union> P'"
  proof (rule set_eqI)
    fix y
    have "x \<notin> (\<Union>k \<in> dom (h_levels s). set (f k)) \<union> set (e_stops s)" using x side_of_dom[OF I] by blast
    then show "y \<in> dom (h_orders s') \<longleftrightarrow> y \<in> (\<Union>k \<in> dom (h_levels s'). set (f k)) \<union> set (e_stops s') \<union> P'"
      using arg_cong[OF pt(5), of "\<lambda>A. y \<in> A"] h[of y] P'(1,2) by (cases "y = x") (simp_all add: same domIff, blast+)
  qed
  show "y < h_obrk s'" if "y \<in> dom (h_orders s')" for y
  proof (cases "y = x")
    case False
    then have "y < h_obrk s" using bspec[OF pt(6), of y] that h[of y] by (simp add: domIff)
    then show ?thesis using brk(1) by simp
  qed (use brk(2) that in \<open>simp add: domIff\<close>)
  show "set (e_stops s') \<inter> P' = {}" using pt(8) P'(1) x(1) by (auto simp: same)
  show "co_level (ord s' y) = None" if "y \<in> set (e_stops s') \<union> P'" for y
  proof (cases "y = x")
    case False
    then have "y \<in> P \<or> y \<in> set (e_stops s)" using that P'(1) by (auto simp: same)
    then show ?thesis using inv_loose[OF I, of y] od[OF False] by (auto simp: ord_def)
  qed (use P'(3) that x(1) in \<open>simp add: same\<close>)
  show "stop_ok (ord s' y)" if "y \<in> set (e_stops s')" "y \<notin> X" for y
  proof -
    have "y \<noteq> x" using that x(1) by (auto simp: same)
    then show ?thesis using inv_stop[OF I, of y] that od by (simp add: same)
  qed
  show "rest_ok sd q (ord s' y)" if "(q, k) \<in> set (side_map sd s')" "y \<in> set (f k)" "y \<notin> X" for sd q k y
  proof -
    have k: "(q, k) \<in> set (side_map sd s)" using that(1) by (simp add: sm)
    then have "y \<noteq> x" using that(2) x(2) by auto
    then show ?thesis using inv_level(5)[OF I k that(2,3)] od by simp
  qed
  show "sorted_wrt (px_before sd) (map fst (side_map sd s'))" for sd using pt(1)[of sd] by (simp add: sm)
qed (use inv_parts[OF I] rest same in auto)

text \<open>The order index after an erase and after an insert.\<close>

lemma index_erase:
  assumes "index_ok s" and r: "h_orders s x = Some r" and fin: "finite (dom (h_orders s))"
  shows "\<exists>ix'. OrderIndex_erase (co_id r) (e_idx s) = Some ix' \<and>
    index_ok (s\<lparr>e_idx := ix', h_orders := (h_orders s)(x := None), e_oF := n\<rparr>)"
proof -
  have ix: "ix_cap (e_idx s) \<noteq> 0" and get: "\<And>i y. OrderIndex_get (e_idx s) i = Some y \<longleftrightarrow> h_orders s y \<noteq> None \<and> co_id (ord s y) = i"
    and cnt: "ix_count (e_idx s) = of_nat (card (dom (h_orders s)))" using assms(1) by (simp_all add: index_ok_def)
  have "OrderIndex_get (e_idx s) (co_id r) = Some x" using get[of "co_id r" x] r by (simp add: ord_def)
  then have lt: "co_id r < ucast (ix_cap (e_idx s))" by (simp add: OrderIndex_get_def not_le split: if_splits)
  let ?e = "(e_idx s)\<lparr>ix_slots := (ix_slots (e_idx s))(co_id r := None), ix_count := ix_count (e_idx s) - 1\<rparr>"
  let ?ix = "if int (length (ix_free (e_idx s))) < FREE_STACK_CAP then ?e\<lparr>ix_free := co_id r # ix_free (e_idx s)\<rparr> else ?e"
  let ?s = "s\<lparr>e_idx := ?ix, h_orders := (h_orders s)(x := None), e_oF := n\<rparr>"
  have run: "OrderIndex_erase (co_id r) (e_idx s) = Some ?ix" by (simp add: OrderIndex_erase_def write_slot_def lt Let_def)
  have g: "OrderIndex_get ?ix i = (if i = co_id r then None else OrderIndex_get (e_idx s) i)" for i
    using lt by (auto simp: OrderIndex_get_def)
  have c: "ix_count ?ix = ix_count (e_idx s) - 1" "ix_cap ?ix = ix_cap (e_idx s)" by simp_all
  have "OrderIndex_get ?ix i = Some y \<longleftrightarrow> h_orders ?s y \<noteq> None \<and> co_id (ord ?s y) = i" for i y
    using g[of i] get[of i y] get[of i x] r by (cases "y = x") (auto simp: ord_def)
  moreover have "x \<in> dom (h_orders s)" using r by auto
  note cd = card_remove_word[OF fin this, where 'w = 32]
  ultimately have "index_ok ?s" using ix c cnt cd by (simp add: index_ok_def del: if_split)
  with run show ?thesis by blast
qed

lemma index_insert:
  assumes ix: "index_ok s" and s1: "h_orders s1 = (h_orders s)(x \<mapsto> r)" "e_idx s1 = e_idx s" and x: "h_orders s x = None"
    and i: "unat (co_id r) < 2 ^ 31" "OrderIndex_get (e_idx s) (co_id r) = None" and fin: "finite (dom (h_orders s))"
  shows "\<exists>ix'. OrderIndex_insert (co_id r) x (e_idx s1) = Some ix' \<and> index_ok (s1\<lparr>e_idx := ix'\<rparr>)"
proof -
  let ?i = "co_id r"
  have c: "ix_cap (e_idx s) \<noteq> 0" and get: "\<And>i y. OrderIndex_get (e_idx s) i = Some y \<longleftrightarrow> h_orders s y \<noteq> None \<and> co_id (ord s y) = i"
    and cnt: "ix_count (e_idx s) = of_nat (card (dom (h_orders s)))" using ix by (simp_all add: index_ok_def)
  obtain ix1 where grown: "(if ?i \<ge> ucast (ix_cap (e_idx s)) then OrderIndex_grow (ucast ?i) (e_idx s) else Some (e_idx s)) = Some ix1"
    and same: "\<forall>j. OrderIndex_get ix1 j = OrderIndex_get (e_idx s) j" "ix_count ix1 = ix_count (e_idx s)" and lt: "?i < ucast (ix_cap ix1)"
    using room_for_id[OF c i(1)] by blast
  let ?ix = "ix1\<lparr>ix_slots := (ix_slots ix1)(?i := Some x), ix_count := ix_count ix1 + 1\<rparr>"
  have run: "OrderIndex_insert ?i x (e_idx s1) = Some ?ix" by (simp add: OrderIndex_insert_def grown write_slot_def lt s1)
  have g: "OrderIndex_get ?ix j = (if j = ?i then Some x else OrderIndex_get ix1 j)" for j
    using lt by (auto simp: OrderIndex_get_def dest: leD)
  have "OrderIndex_get ?ix j = Some y \<longleftrightarrow> h_orders s1 y \<noteq> None \<and> co_id (ord s1 y) = j" for j y
    using g[of j] same(1) get[of j y] get[of ?i y] i(2) x s1 by (cases "y = x") (auto simp: ord_def)
  moreover have "ix_cap ?ix \<noteq> 0" using lt by auto
  moreover have "x \<notin> dom (h_orders s)" using x by auto
  ultimately have "index_ok (s1\<lparr>e_idx := ?ix\<rparr>)" using cnt fin same(2) by (simp add: index_ok_def s1 ord_def)
  with run show ?thesis by blast
qed

lemma inv_drop:
  assumes I: "cpp_inv s f P E X" and x: "x \<in> P"
  shows "wp (drop_ord x s) (\<lambda>s'. cpp_inv s' f (P - {x}) E X \<and> h_orders s' = (h_orders s)(x := None) \<and> env s s' \<and>
    (\<forall>sd. side_map sd s' = side_map sd s))"
proof -
  note pt = inv_parts[OF I]
  obtain r where r: "h_orders s x = Some r" using inv_loose[OF I, of x] x by blast
  obtain ix' where er: "OrderIndex_erase (co_id r) (e_idx s) = Some ix'"
    and ok: "index_ok (s\<lparr>e_idx := ix', h_orders := (h_orders s)(x := None), e_oF := e_oF s + 1\<rparr>)"
    using index_erase[OF pt(9) r inv_finite(1)[OF I]] by blast
  let ?s = "s\<lparr>e_idx := ix', h_orders := (h_orders s)(x := None), e_oF := e_oF s + 1\<rparr>"
  have run: "drop_ord x s = Some ?s" by (simp add: drop_ord_def idx_erase_def freeOrd_def delete_order_def r er)
  have sm: "side_map sd ?s = side_map sd s" for sd by (cases sd) simp_all
  have live: "x \<in> dom (h_orders s)" using r by auto
  have "cpp_inv ?s f (P - {x}) E X"
  proof (rule inv_orders[OF I])
    show "x \<notin> set (e_stops s)" using x pt(8) by blast
    show "x \<notin> set (f k)" if "(q, k) \<in> set (side_map sd s)" for sd q k using inv_apart(1)[OF I that, of x] x by blast
    show "counts_ok ?s" using pt(10) card_remove_word[OF inv_finite(1)[OF I] live, where 'w = 64]
      by (simp add: counts_ok_def algebra_simps)
  qed (use ok pt(11) in \<open>auto simp: trades_ok_def\<close>)
  then show ?thesis unfolding run by (simp add: env_def sm)
qed

text \<open>A new order: after its data are written, the index takes it in.\<close>

lemma inv_accept:
  assumes I: "cpp_inv s f P E X"
    and s1: "h_orders s1 = (h_orders s)(h_obrk s \<mapsto> r)" "h_obrk s1 = Suc (h_obrk s)" "e_oA s1 = e_oA s + 1" "e_oF s1 = e_oF s"
      "h_levels s1 = h_levels s" "h_lbrk s1 = h_lbrk s" "e_bids s1 = e_bids s" "e_asks s1 = e_asks s" "e_idx s1 = e_idx s"
      "e_stops s1 = e_stops s" "e_lA s1 = e_lA s" "e_lF s1 = e_lF s" "e_trades s1 = e_trades s"
    and r: "co_level r = None" "unat (co_id r) < 2 ^ 31" "OrderIndex_get (e_idx s) (co_id r) = None"
  shows "wp (idx_insert (co_id r) (h_obrk s) s1) (\<lambda>s'. cpp_inv s' f (insert (h_obrk s) P) E X \<and> (\<exists>ix. s' = s1\<lparr>e_idx := ix\<rparr>))"
proof -
  let ?x = "h_obrk s"
  note pt = inv_parts[OF I]
  have nx: "?x \<notin> dom (h_orders s)" using bspec[OF pt(6), of ?x] by auto
  then have x: "h_orders s ?x = None" by auto
  obtain ix' where ins: "OrderIndex_insert (co_id r) ?x (e_idx s1) = Some ix'" and ok: "index_ok (s1\<lparr>e_idx := ix'\<rparr>)"
    using index_insert[OF pt(9) s1(1,9) x r(2,3) inv_finite(1)[OF I]] by blast
  have "cpp_inv (s1\<lparr>e_idx := ix'\<rparr>) f (insert ?x P) E X"
  proof (rule inv_orders[OF I])
    show "?x \<notin> set (e_stops s)" "\<And>sd q k. (q, k) \<in> set (side_map sd s) \<Longrightarrow> ?x \<notin> set (f k)"
      using x inv_live[OF I, of ?x] by blast+
    show "counts_ok (s1\<lparr>e_idx := ix'\<rparr>)" using pt(10) nx inv_finite(1)[OF I] by (simp add: counts_ok_def s1 algebra_simps)
  qed (use ok pt(11) in \<open>auto simp: s1 trades_ok_def ord_def r(1)\<close>)
  then show ?thesis by (auto simp: idx_insert_def ins)
qed

text \<open>The vector of stop orders.\<close>

lemma inv_stops:
  assumes I: "cpp_inv s f P E X" and st: "set st \<union> P' = set (e_stops s) \<union> P" "distinct st" "set st \<inter> P' = {}"
    and ok: "\<And>x. x \<in> set st \<Longrightarrow> x \<in> P \<Longrightarrow> x \<notin> X \<Longrightarrow> stop_ok (ord s x)"
  shows "cpp_inv (s\<lparr>e_stops := st\<rparr>) f P' E X"
proof -
  let ?s = "s\<lparr>e_stops := st\<rparr>"
  note pt = inv_parts[OF I]
  have od: "ord ?s = ord s" and ll: "level_list ?s k xs = level_list s k xs" for k xs by (simp_all add: ord_def fun_eq_iff level_list_same)
  show ?thesis
  proof (rule inv_intro)
    show "dom (h_orders ?s) = (\<Union>k \<in> dom (h_levels ?s). set (f k)) \<union> set (e_stops ?s) \<union> P'"
      using pt(5) st(1) by (simp add: Un_assoc)
  next
    fix x assume "x \<in> set (e_stops ?s) \<union> P'"
    then have "x \<in> P \<or> x \<in> set (e_stops s)" using st(1) by auto
    then show "co_level (ord ?s x) = None" using inv_loose[OF I, of x] by (auto simp: ord_def)
  next
    fix x assume "x \<in> set (e_stops ?s)" "x \<notin> X"
    moreover from this have "x \<in> P \<or> x \<in> set (e_stops s)" using st(1) by auto
    ultimately show "stop_ok (ord ?s x)" using ok inv_stop[OF I, of x] by (auto simp: od)
  next
    show "index_ok ?s" using pt(9) by (simp add: index_ok_def od)
  qed (use pt st inv_level[OF I] in \<open>auto simp: od ll counts_ok_def trades_ok_def\<close>)
qed

end
