(* ===== verification/Cpp_Leave.thy ===== *)
theory Cpp_Leave
  imports Cpp_Blocks
begin

text \<open>
  Orders that leave the C++ reference engine: cancellation by id, expiry, and the destructor.
  From a state that satisfies the invariant each of them returns, and keeps it.
\<close>

section \<open>Steps\<close>

definition cpp_ok :: "CppEngine \<Rightarrow> (laddr \<Rightarrow> oaddr list) \<Rightarrow> oaddr set \<Rightarrow> bool" where
  "cpp_ok s f P \<longleftrightarrow> cpp_inv s f P {} {}"

lemma upd_ord_some: "h_orders s x = Some r \<Longrightarrow> upd_ord x g s = Some (s\<lparr>h_orders := (h_orders s)(x \<mapsto> g r)\<rparr>)"
  by (simp add: upd_ord_def)

lemma inv_upd:
  assumes "cpp_inv s f P E X" and "h_orders s x = Some r" and "lnk r' = lnk r" and "x \<in> X \<or> x \<in> P"
  shows "cpp_inv (s\<lparr>h_orders := (h_orders s)(x \<mapsto> r')\<rparr>) f P E X"
  by (rule inv_data[OF assms(1)]) (use assms(2-4) in auto)

lemma lnk_fields [simp]:
  "lnk (r\<lparr>co_status := st\<rparr>) = lnk r" "lnk (r\<lparr>co_rem := n\<rparr>) = lnk r" "lnk (r\<lparr>co_visible := n\<rparr>) = lnk r"
  "lnk (r\<lparr>co_price := n\<rparr>) = lnk r" "lnk (r\<lparr>co_type := ty\<rparr>) = lnk r" "lnk (r\<lparr>co_stop := n\<rparr>) = lnk r"
  "lnk (r\<lparr>co_minQty := n\<rparr>) = lnk r" "lnk (r\<lparr>co_timestamp := t\<rparr>) = lnk r"
  by (simp_all add: lnk_def)

text \<open>An order that is live, not a stop and in nobody's hands rests on a level.\<close>

lemma resting_at:
  assumes I: "cpp_inv s f P E X" and r: "h_orders s x = Some r" and "x \<notin> set (e_stops s)" "x \<notin> P"
  shows "\<exists>sd p lv as bs. (p, lv) \<in> set (side_map sd s) \<and> f lv = as @ x # bs \<and> co_level r = Some lv"
proof -
  obtain sd p lv where lv: "(p, lv) \<in> set (side_map sd s)" "x \<in> set (f lv)" using inv_live[OF I, of x] assms(2-4) by auto
  then obtain as bs where "f lv = as @ x # bs" by (auto simp: in_set_conv_decomp)
  moreover have "co_level r = Some lv" using inv_level(4)[OF I lv(1), of x] lv(2) r by auto
  ultimately show ?thesis using lv(1) by blast
qed

text \<open>Leaving a level, which goes when it becomes empty.\<close>

definition shrinks :: "CppEngine \<Rightarrow> CppEngine \<Rightarrow> bool" where
  "shrinks s s' \<longleftrightarrow> (\<forall>sd. set (side_map sd s') \<subseteq> set (side_map sd s))"

lemma shrinks_refl [simp]: "shrinks s s" by (simp add: shrinks_def)

lemma shrinks_trans: "shrinks s s' \<Longrightarrow> shrinks s' s'' \<Longrightarrow> shrinks s s''"
  by (auto simp: shrinks_def)

lemma shrinks_same: "(\<And>sd. side_map sd s' = side_map sd s) \<Longrightarrow> shrinks s s'"
  by (simp add: shrinks_def)

lemma shrinks_erase:
  assumes "side_map sd s' = map_erase p (side_map sd s)" and "side_map (oppositeSide sd) s' = side_map (oppositeSide sd) s"
  shows "shrinks s s'"
  unfolding shrinks_def
proof
  fix sd'
  show "set (side_map sd' s') \<subseteq> set (side_map sd' s)"
    using side_cases[of sd' sd] assms by (auto simp: map_erase_set)
qed

lemma inv_level_clean:
  assumes I: "cpp_inv s f P (insert lv E) X" and "f lv \<noteq> []"
  shows "cpp_inv s f P E X"
proof -
  have "cpp_books_ok s f E"
    unfolding cpp_books_ok_def
  proof (intro conjI allI impI)
    fix sd p k assume k: "(p, k) \<in> set (side_map sd s)"
    then show "level_list s k (f k)" "map_option cl_price (h_levels s k) = Some p" using inv_level[OF I k] by auto
    assume "f k = []"
    then show "k \<in> E" using inv_level(3)[OF I k] assms(2) by auto
  qed (use inv_parts[OF I] in auto)
  then show ?thesis using I by (simp add: cpp_inv_def)
qed

text \<open>The levels that have become empty are gone from the maps.\<close>

definition pruned :: "(laddr \<Rightarrow> oaddr list) \<Rightarrow> CppEngine \<Rightarrow> CppEngine \<Rightarrow> bool" where
  "pruned f s s' \<longleftrightarrow> (\<forall>sd. side_map sd s' = filter (\<lambda>e. f (snd e) \<noteq> []) (side_map sd s))"

lemma pruned_same:
  assumes "\<And>sd q k. (q, k) \<in> set (side_map sd s) \<Longrightarrow> f k \<noteq> []" and "\<And>sd. side_map sd s' = side_map sd s"
  shows "pruned f s s'"
  unfolding pruned_def assms(2)
proof
  fix sd show "side_map sd s = filter (\<lambda>e. f (snd e) \<noteq> []) (side_map sd s)"
    by (rule sym, rule filter_True) (use assms(1) in auto)
qed

lemma pruned_erase:
  assumes I: "cpp_inv s f P {} X" and lv: "(p, lv) \<in> set (side_map sd s)"
    and "side_map sd s' = map_erase p (side_map sd s)" and "side_map (oppositeSide sd) s' = side_map (oppositeSide sd) s"
  shows "pruned (f(lv := [])) s s'"
  unfolding pruned_def
proof
  fix sd'
  have ne: "(f(lv := [])) k \<noteq> [] \<longleftrightarrow> k \<noteq> lv" if "(q, k) \<in> set (side_map sd'' s)" for q k sd''
    using inv_level(3)[OF I that] by auto
  show "side_map sd' s' = filter (\<lambda>e. (f(lv := [])) (snd e) \<noteq> []) (side_map sd' s)"
  proof (cases "sd' = sd")
    case True
    have "(fst e \<noteq> p) = ((f(lv := [])) (snd e) \<noteq> [])" if e: "e \<in> set (side_map sd s)" for e
    proof -
      obtain q k where k: "e = (q, k)" by (cases e)
      then have m: "(q, k) \<in> set (side_map sd s)" using e by simp
      have "q \<noteq> p \<longleftrightarrow> k \<noteq> lv" using key_unique(1,2)[OF I lv m] by metis
      then show ?thesis unfolding k fst_conv snd_conv ne[OF m] .
    qed
    then show ?thesis unfolding True assms(3) map_erase_def by (intro filter_cong refl)
  next
    case False
    then have sd': "sd' = oppositeSide sd" using side_cases by blast
    have "(f(lv := [])) (snd e) \<noteq> []" if e: "e \<in> set (side_map sd' s)" for e
    proof -
      obtain q k where k: "e = (q, k)" by (cases e)
      then have m: "(q, k) \<in> set (side_map sd' s)" using e by simp
      have "k \<noteq> lv" using key_unique(1)[OF I lv m] False by metis
      then show ?thesis unfolding k snd_conv ne[OF m] .
    qed
    then have "filter (\<lambda>e. (f(lv := [])) (snd e) \<noteq> []) (side_map sd' s) = side_map sd' s" by (intro filter_True ballI)
    then show ?thesis unfolding sd' assms(4) by (rule sym)
  qed
qed

lemma leave_level_wp:
  assumes I: "cpp_inv s f P {} X" and lv: "(p, lv) \<in> set (side_map sd s)" and x: "f lv = as @ x # bs"
    and sd: "co_side (ord s x) = sd"
  shows "wp (leave_level lv x s) (\<lambda>s'. (\<exists>f'. cpp_inv s' f' (insert x P) {} (X - {x}) \<and> f' = f(lv := as @ bs) \<and> pruned f' s s') \<and> env s s' \<and> shrinks s s' \<and>
    (\<forall>y. y \<notin> set (f lv) \<longrightarrow> h_orders s' y = h_orders s y) \<and> (\<forall>y. map_option core (h_orders s' y) = map_option core (h_orders s y)))"
proof -
  obtain s1 where run: "lvl_remove lv x s = Some s1" and I1: "cpp_inv s1 (f(lv := as @ bs)) (insert x P) {lv} (X - {x})"
    and fr: "list_frame lv (set (f lv)) s s1"
    using inv_unlink[OF I lv x] by (auto elim: wpE)
  have ho: "heap_only s s1" using fr by (simp add: list_frame_def)
  note hs = heap_only_sel[OF ho]
  have lv1: "(p, lv) \<in> set (side_map sd s1)" using lv by (simp add: hs)
  have e: "lvl_empty s1 lv = Some (as @ bs = [])" using level_list_empty[OF inv_level(1)[OF I1 lv1]] by simp
  obtain r where r: "h_orders s1 x = Some r" using inv_loose[OF I1, of x] by auto
  then have "co_side r = sd" using core_sel(2)[OF list_frame_facts(3)[OF fr, of x]] sd by (simp add: ord_def)
  have frame: "\<forall>y. y \<notin> set (f lv) \<longrightarrow> h_orders s1 y = h_orders s y" "\<forall>y. map_option core (h_orders s1 y) = map_option core (h_orders s y)"
    using fr by (simp_all add: list_frame_def)
  show ?thesis
  proof (cases "as @ bs = []")
    case True
    obtain l where l: "h_levels s1 lv = Some l" "cl_price l = p" using inv_level(2)[OF I1 lv1] by blast
    have I2: "cpp_inv s1 (f(lv := [])) (insert x P) {lv} (X - {x})" using I1 unfolding True .
    have "wp (rmLevel lv sd s1) (\<lambda>s'. cpp_inv s' (f(lv := as @ bs)) (insert x P) {} (X - {x}) \<and> h_orders s' = h_orders s1 \<and>
        env s1 s' \<and> shrinks s1 s' \<and> pruned (f(lv := as @ bs)) s s')"
      unfolding rmLevel_def True using l by (simp, intro wp_mono[OF inv_erase_level[OF I2 lv1 fun_upd_same]])
        (auto intro: shrinks_erase intro!: pruned_erase[OF I lv] simp: hs simp del: fun_upd_apply)
    then obtain s2 where "rmLevel lv sd s1 = Some s2" and "cpp_inv s2 (f(lv := as @ bs)) (insert x P) {} (X - {x})"
      and "h_orders s2 = h_orders s1" "env s1 s2" "shrinks s1 s2" "pruned (f(lv := as @ bs)) s s2" by (auto elim!: wpE)
    then show ?thesis
      using run e r True \<open>co_side r = sd\<close> frame env_trans[OF env_heap_only[OF ho]]
      by (auto simp: leave_level_def shrinks_def hs simp del: fun_upd_apply)
  next
    case False
    have I2: "cpp_inv s1 (f(lv := as @ bs)) (insert x P) {} (X - {x})" by (rule inv_level_clean[OF I1]) (use False in simp)
    have "pruned (f(lv := as @ bs)) s s1"
    proof (rule pruned_same)
      show "(f(lv := as @ bs)) k \<noteq> []" if "(q, k) \<in> set (side_map sd s)" for sd q k
        using inv_level(3)[OF I that] False by (cases "k = lv") auto
    qed (simp add: hs)
    then show ?thesis
      using run e r False frame env_heap_only[OF ho] I2 by (auto simp: leave_level_def shrinks_def hs simp del: fun_upd_apply)
  qed
qed

lemma status_fields [simp]:
  "co_level (r\<lparr>co_status := st\<rparr>) = co_level r" "co_id (r\<lparr>co_status := st\<rparr>) = co_id r" by simp_all

text \<open>What is left when one order has gone: the same orders but it, with the same data.\<close>

definition all_but :: "oaddr \<Rightarrow> CppEngine \<Rightarrow> CppEngine \<Rightarrow> bool" where
  "all_but x s s' \<longleftrightarrow> h_orders s' x = None \<and> (\<forall>y. y \<noteq> x \<longrightarrow> map_option core (h_orders s' y) = map_option core (h_orders s y))"

lemma all_but_dom: "all_but x s s' \<Longrightarrow> h_orders s' y \<noteq> None \<longleftrightarrow> h_orders s y \<noteq> None \<and> y \<noteq> x"
  by (cases "y = x"; cases "h_orders s y"; cases "h_orders s' y") (force simp: all_but_def)+

lemma take_out_wp:
  assumes I: "cpp_inv s f {} {} {}" and lv: "(p, lv) \<in> set (side_map sd s)" and x: "f lv = as @ x # bs"
  shows "wp (do { s \<leftarrow> set_status st x s; s \<leftarrow> leave_level lv x s; s \<leftarrow> notify_ord ev x s; drop_ord x s })
    (\<lambda>s'. (\<exists>f'. cpp_inv s' f' {} {} {} \<and> f' = f(lv := as @ bs) \<and> pruned f' s s') \<and> env s s' \<and> shrinks s s' \<and> all_but x s s')"
proof -
  obtain r where r: "h_orders s x = Some r" using inv_level(4)[OF I lv, of x] x by auto
  let ?s1 = "s\<lparr>h_orders := (h_orders s)(x \<mapsto> r\<lparr>co_status := st\<rparr>)\<rparr>"
  have 1: "set_status st x s = Some ?s1" by (simp add: set_status_def upd_ord_some[OF r])
  have I1: "cpp_inv ?s1 f {} {} {x}" by (rule inv_upd[OF inv_weaken[OF I] r]) auto
  have lv1: "(p, lv) \<in> set (side_map sd ?s1)" using lv by simp
  have "rest_ok sd p r" using inv_level(5)[OF I lv, of x] x r by (simp add: ord_def)
  then have "co_side (ord ?s1 x) = sd" by (simp add: ord_def rest_ok_def)
  from leave_level_wp[OF I1 lv1 x this]
  obtain s2 f2 where 2: "leave_level lv x ?s1 = Some s2" and I2: "cpp_inv s2 f2 {x} {} {}" and f2: "f2 = f(lv := as @ bs)" "pruned f2 ?s1 s2"
    and sh: "shrinks ?s1 s2" "env ?s1 s2"
    and fr: "\<forall>y. map_option core (h_orders s2 y) = map_option core (h_orders ?s1 y)" by (auto elim!: wpE simp del: fun_upd_apply)
  obtain r2 where r2: "h_orders s2 x = Some r2" using inv_loose[OF I2, of x] by auto
  let ?s3 = "notify (ev r2) s2"
  have 3: "notify_ord ev x s2 = Some ?s3" by (simp add: notify_ord_def r2)
  have I3: "cpp_inv ?s3 f2 {x} {} {}" using I2 by simp
  obtain s4 where 4: "drop_ord x ?s3 = Some s4" and I4: "cpp_inv s4 f2 {} {} {}" and h: "h_orders s4 = (h_orders ?s3)(x := None)"
    and e: "env ?s3 s4" "\<forall>sd. side_map sd s4 = side_map sd ?s3"
    using inv_drop[OF I3, of x] by (auto elim!: wpE)
  have "env s s4" using sh(2) e(1) by (simp add: env_def notify_def)
  moreover have "shrinks s s4" using sh(1) e(2) by (simp add: shrinks_def notify_def)
  moreover have "all_but x s s4" using fr by (simp add: all_but_def h notify_def)
  moreover have "pruned f2 s s4" using f2(2) e(2) by (simp add: pruned_def notify_def)
  ultimately show ?thesis using 1 2 3 4 I4 f2(1) by (auto simp del: fun_upd_apply)
qed

section \<open>The vector of stop orders\<close>

lemma swap_pop_set:
  assumes "distinct xs" and "i < length xs"
  shows "distinct (swap_pop i xs)" and "set (swap_pop i xs) = set xs - {xs ! i}" and "length (swap_pop i xs) = length xs - 1"
proof -
  obtain ys z where xs: "xs = ys @ [z]" using assms(2) by (cases xs rule: rev_cases) auto
  have sp: "swap_pop i (ys @ [z]) = (if i = length ys then ys else ys[i := z])" using assms(2) by (simp add: swap_pop_def xs list_update_append)
  show "length (swap_pop i xs) = length xs - 1" by (simp add: swap_pop_def)
  show "distinct (swap_pop i xs)" using assms by (auto simp: sp xs intro: distinct_list_update)
  show "set (swap_pop i xs) = set xs - {xs ! i}"
  proof (cases "i = length ys")
    case True
    then have "swap_pop i xs = ys" using sp xs by simp
    then show ?thesis using assms(1) True xs by simp
  next
    case False
    then have i: "i < length ys" using assms(2) xs by simp
    have "set (ys[i := z]) = insert z (set ys - {ys ! i})" using assms(1) i xs by (simp add: set_update_distinct)
    moreover have "ys ! i \<noteq> z" using assms(1) i xs nth_mem by fastforce
    ultimately show ?thesis using False i by (auto simp: sp xs nth_append)
  qed
qed

lemma find_index_some: "find_index x k xs = Some i \<Longrightarrow> k \<le> i \<and> i - k < length xs \<and> xs ! (i - k) = x"
proof (induction x k xs rule: find_index.induct)
  case (2 x k y ys)
  show ?case
  proof (cases "y = x")
    case False
    then have ih: "Suc k \<le> i \<and> i - Suc k < length ys \<and> ys ! (i - Suc k) = x" using 2 by simp
    then have "i - k = Suc (i - Suc k)" by arith
    then show ?thesis using ih by simp
  qed (use 2 in simp)
qed simp

lemma find_index_none: "find_index x k xs = None \<longleftrightarrow> x \<notin> set xs"
  by (induction x k xs rule: find_index.induct) auto

lemma rmStop_set:
  assumes "distinct (e_stops s)" and "x \<in> set (e_stops s)"
  shows "\<exists>st. (\<forall>h. rmStop x (s\<lparr>h_orders := h\<rparr>) = s\<lparr>h_orders := h, e_stops := st\<rparr>) \<and> distinct st \<and>
    set st = set (e_stops s) - {x}"
proof -
  obtain i where i: "find_index x 0 (e_stops s) = Some i" using assms(2) find_index_none[of x 0 "e_stops s"] by auto
  then have "i < length (e_stops s)" "e_stops s ! i = x" using find_index_some[OF i] by simp_all
  then show ?thesis using swap_pop_set[OF assms(1), of i] i by (auto simp: rmStop_def)
qed

section \<open>Cancellation\<close>

lemma live_status:
  assumes I: "cpp_inv s f {} {} {}" and r: "h_orders s x = Some r"
  shows "co_status r = NEW \<or> co_status r = PARTIALLY_FILLED"
proof (cases "x \<in> set (e_stops s)")
  case True
  then show ?thesis using inv_stop[OF I True] r by (simp add: ord_def stop_ok_def)
next
  case False
  then obtain sd p lv as bs where lv: "(p, lv) \<in> set (side_map sd s)" "f lv = as @ x # bs" using resting_at[OF I r] by auto
  then show ?thesis using inv_level(5)[OF I lv(1), of x] r by (simp add: ord_def rest_ok_def)
qed

lemma take_stop_wp:
  assumes I: "cpp_inv s f {} {} {}" and x: "x \<in> set (e_stops s)" and st': "distinct st'" "set st' = set (e_stops s) - {x}"
  shows "wp (do { s \<leftarrow> set_status st x (s\<lparr>e_stops := st'\<rparr>); s \<leftarrow> notify_ord ev x s; drop_ord x s })
    (\<lambda>s'. cpp_inv s' f {} {} {} \<and> shrinks s s' \<and> all_but x s s' \<and> e_stops s' = st' \<and> e_trades s' = e_trades s \<and> e_poPol s' = e_poPol s)"
proof -
  let ?s1 = "s\<lparr>e_stops := st'\<rparr>"
  obtain r where r: "h_orders s x = Some r" using inv_loose[OF I, of x] x by auto
  have I1: "cpp_inv ?s1 f {x} {} {}" by (rule inv_stops[OF I]) (use x st' in auto)
  let ?s2 = "?s1\<lparr>h_orders := (h_orders ?s1)(x \<mapsto> r\<lparr>co_status := st\<rparr>)\<rparr>"
  have 2: "set_status st x ?s1 = Some ?s2" using r by (simp add: set_status_def upd_ord_some)
  have I2: "cpp_inv ?s2 f {x} {} {}" by (rule inv_upd[OF I1]) (use r in auto)
  let ?s3 = "notify (ev (r\<lparr>co_status := st\<rparr>)) ?s2"
  have 3: "notify_ord ev x ?s2 = Some ?s3" by (simp add: notify_ord_def)
  have I3: "cpp_inv ?s3 f {x} {} {}" using I2 by simp
  obtain s4 where 4: "drop_ord x ?s3 = Some s4" and I4: "cpp_inv s4 f {} {} {}" and h: "h_orders s4 = (h_orders ?s3)(x := None)"
    and e: "env ?s3 s4" "\<forall>sd. side_map sd s4 = side_map sd ?s3"
    using inv_drop[OF I3, of x] by (auto elim!: wpE)
  have "shrinks s s4" using e(2) by (simp add: shrinks_def notify_def)
  moreover have "all_but x s s4" by (simp add: all_but_def h notify_def)
  moreover have "e_stops s4 = st' \<and> e_trades s4 = e_trades s \<and> e_poPol s4 = e_poPol s" using e(1) by (simp add: env_def notify_def)
  ultimately show ?thesis using 2 3 4 I4 by auto
qed

lemma all_but_set_status: "all_but x (s\<lparr>h_orders := (h_orders s)(x \<mapsto> r)\<rparr>) s' \<Longrightarrow> all_but x s s'"
  by (simp add: all_but_def)

text \<open>The index after one order has gone.\<close>

lemma hasOrder_live:
  assumes "cpp_inv s f P E X"
  shows "hasOrder s i \<longleftrightarrow> (\<exists>x r. h_orders s x = Some r \<and> co_id r = i)"
proof -
  have "OrderIndex_get (e_idx s) i = Some x \<longleftrightarrow> h_orders s x \<noteq> None \<and> co_id (ord s x) = i" for x
    using inv_parts(9)[OF assms] by (simp add: index_ok_def)
  then show ?thesis by (auto simp: hasOrder_def OrderIndex_has_def ord_def) blast
qed

text \<open>A resting order has been taken out of its list, and nothing else.\<close>

definition lifted :: "oaddr \<Rightarrow> (laddr \<Rightarrow> oaddr list) \<Rightarrow> CppEngine \<Rightarrow> CppEngine \<Rightarrow> bool" where
  "lifted x f s s' \<longleftrightarrow> (\<exists>f' p lv sd as bs. cpp_inv s' f' {} {} {} \<and> (p, lv) \<in> set (side_map sd s) \<and> f lv = as @ x # bs \<and>
     f' = f(lv := as @ bs) \<and> pruned f' s s' \<and> env s s')"

lemma cancel_full_wp:
  assumes I: "cpp_inv s f {} {} {}"
  shows "wp (cancelOrder i s) (\<lambda>(b, s'). (\<exists>f'. cpp_inv s' f' {} {} {}) \<and> b = hasOrder s i \<and> shrinks s s' \<and> e_poPol s' = e_poPol s \<and>
    (if b then \<exists>x. OrderIndex_get (e_idx s) i = Some x \<and> all_but x s s' \<and> (x \<notin> set (e_stops s) \<longrightarrow> lifted x f s s') else s' = s))"
proof (cases "OrderIndex_get (e_idx s) i")
  case None
  then show ?thesis using I by (auto simp: cancelOrder_def hasOrder_def OrderIndex_has_def)
next
  case (Some x)
  then obtain r where r: "h_orders s x = Some r" using inv_parts(9)[OF I] by (auto simp: index_ok_def)
  have st: "\<not> (co_status r \<noteq> NEW \<and> co_status r \<noteq> PARTIALLY_FILLED)" using live_status[OF I r] by auto
  have has: "hasOrder s i" using Some by (simp add: hasOrder_def OrderIndex_has_def)
  let ?ev = "\<lambda>w. onOrderCancelled w ''USER_REQUESTED''"
  show ?thesis
  proof (cases "x \<in> set (e_stops s)")
    case True
    then have lv: "co_level r = None" using inv_loose[OF I, of x] r by auto
    obtain st' where rm: "distinct st'" "set st' = set (e_stops s) - {x}" "\<And>h. rmStop x (s\<lparr>h_orders := h\<rparr>) = s\<lparr>h_orders := h, e_stops := st'\<rparr>"
      using rmStop_set[OF inv_parts(7)[OF I] True] by blast
    have "set_status CANCELLED x s = Some (s\<lparr>h_orders := (h_orders s)(x \<mapsto> r\<lparr>co_status := CANCELLED\<rparr>)\<rparr>)"
      by (simp add: set_status_def upd_ord_some[OF r])
    moreover note rm(3)
    moreover have "set_status CANCELLED x (s\<lparr>e_stops := st'\<rparr>) =
        Some (s\<lparr>h_orders := (h_orders s)(x \<mapsto> r\<lparr>co_status := CANCELLED\<rparr>), e_stops := st'\<rparr>)"
      using r by (simp add: set_status_def upd_ord_some)
    ultimately show ?thesis using take_stop_wp[OF I True rm(1,2), of CANCELLED ?ev] Some r st lv has True
      by (auto simp: cancelOrder_def elim!: wp_mono)
  next
    case False
    then obtain sd p lv as bs where lv: "(p, lv) \<in> set (side_map sd s)" "f lv = as @ x # bs" "co_level r = Some lv"
      using resting_at[OF I r] by auto
    obtain s' where run: "do { s \<leftarrow> set_status CANCELLED x s; s \<leftarrow> leave_level lv x s; s \<leftarrow> notify_ord ?ev x s; drop_ord x s } = Some s'"
      and I': "cpp_inv s' (f(lv := as @ bs)) {} {} {}" "pruned (f(lv := as @ bs)) s s'" and e: "env s s'" "shrinks s s'" "all_but x s s'"
      using take_out_wp[OF I lv(1,2), of CANCELLED ?ev] by (auto elim!: wpE simp del: fun_upd_apply)
    have "cancelOrder i s = Some (True, s')"
      using run Some r st lv(3) by (auto simp: cancelOrder_def bind_eq_Some_conv simp del: fun_upd_apply)
    moreover have "lifted x f s s'" unfolding lifted_def using lv(1,2) I' e(1) by blast
    ultimately show ?thesis using I'(1) e has Some by (auto simp: env_def simp del: fun_upd_apply)
  qed
qed

lemma cancel_wp:
  assumes I: "cpp_inv s f {} {} {}"
  shows "wp (cancelOrder i s) (\<lambda>(b, s'). (\<exists>f'. cpp_inv s' f' {} {} {}) \<and> b = hasOrder s i \<and> shrinks s s' \<and> e_poPol s' = e_poPol s \<and>
    (if b then \<exists>x. OrderIndex_get (e_idx s) i = Some x \<and> all_but x s s' else s' = s))"
  by (rule wp_mono[OF cancel_full_wp[OF I, of i]]) (auto split: if_splits)

section \<open>Expiry\<close>

lemma scan_level_filter:
  "chain (nxt s) p xs \<Longrightarrow> (\<And>x. x \<in> set xs \<Longrightarrow> h_orders s x \<noteq> None) \<Longrightarrow>
   scan_level s t p out = Some (out @ filter (\<lambda>x. shouldExpire t (ord s x)) xs)"
proof (induction xs arbitrary: p out)
  case Nil
  then show ?case by (subst scan_level.simps) simp
next
  case (Cons x xs)
  obtain r where r: "h_orders s x = Some r" using Cons.prems(2)[of x] by auto
  have "nxt s x = co_next r" using r by (simp add: nxt_def)
  then have c: "p = Some x" "chain (nxt s) (co_next r) xs" using Cons.prems(1) by simp_all
  show ?case using Cons.IH[OF c(2)] Cons.prems(2) r by (subst scan_level.simps) (simp add: c(1) ord_def)
qed

lemma scan_map_filter:
  assumes "\<And>p lv. (p, lv) \<in> set m \<Longrightarrow> level_list s lv (f lv)"
  shows "scan_map s t m out = Some (out @ filter (\<lambda>x. shouldExpire t (ord s x)) (concat (map (f \<circ> snd) m)))"
  using assms
proof (induction m arbitrary: out)
  case (Cons e m)
  obtain p lv where e: "e = (p, lv)" by (cases e)
  obtain l where l: "h_levels s lv = Some l" "chain (nxt s) (cl_head l) (f lv)" "\<forall>x \<in> set (f lv). h_orders s x \<noteq> None"
    using level_list_chain[of s lv "f lv"] Cons.prems e by auto
  have ih: "scan_map s t m out' = Some (out' @ filter (\<lambda>x. shouldExpire t (ord s x)) (concat (map (f \<circ> snd) m)))" for out'
    by (rule Cons.IH) (use Cons.prems e in auto)
  then show ?case using scan_level_filter[OF l(2), of t out] l by (simp add: e comp_def)
qed simp

text \<open>The lists of all levels together hold every order once.\<close>

lemma live_orders_distinct:
  assumes I: "cpp_inv s f P E X"
  shows "distinct (concat (map (f \<circ> snd) (e_bids s @ e_asks s)))"
proof -
  have lists: "distinct (f lv)" if "(p, lv) \<in> set (side_map sd s)" for p lv sd using level_list_distinct[OF inv_level(1)[OF I that]] .
  have one: "distinct (concat (map (f \<circ> snd) m))"
    if "distinct (map fst m)" "\<And>p lv. (p, lv) \<in> set m \<Longrightarrow> (p, lv) \<in> set (side_map sd s)" for m sd
    using that
  proof (induction m)
    case (Cons e m)
    obtain p lv where e: "e = (p, lv)" by (cases e)
    have "set (f lv) \<inter> set (f k) = {}" if "(q, k) \<in> set m" for q k
    proof -
      have "k \<noteq> lv" using key_unique(1)[OF I, of p lv sd q k sd] Cons.prems that by (auto simp: e image_iff)
      then show ?thesis using inv_apart(3)[OF I, of p lv sd _ q k sd] Cons.prems that by (auto simp: e)
    qed
    then have "set (f lv) \<inter> set (concat (map (f \<circ> snd) m)) = {}"
      by (simp add: disjoint_iff) (metis prod.collapse)
    moreover have "distinct (concat (map (f \<circ> snd) m))" by (rule Cons.IH) (use Cons.prems in auto)
    moreover have "distinct (f lv)" using lists[of p lv sd] Cons.prems(2) by (simp add: e)
    ultimately show ?case by (simp add: e comp_def)
  qed simp
  have "set (f lv) \<inter> set (f k) = {}" if "(p, lv) \<in> set (e_bids s)" "(q, k) \<in> set (e_asks s)" for p lv q k
  proof -
    have "k \<noteq> lv" using key_unique(1)[OF I, of p lv BUY q k SELL] that by auto
    then show ?thesis using inv_apart(3)[OF I, of p lv BUY _ q k SELL] that by auto
  qed
  then have "set (concat (map (f \<circ> snd) (e_bids s))) \<inter> set (concat (map (f \<circ> snd) (e_asks s))) = {}"
    by (simp add: disjoint_iff) (metis prod.collapse)
  moreover have "distinct (map fst (e_bids s))" "distinct (map fst (e_asks s))"
    using sorted_keys_distinct[OF inv_parts(1)[OF I, of BUY]] sorted_keys_distinct[OF inv_parts(1)[OF I, of SELL]] by simp_all
  ultimately show ?thesis using one[of "e_bids s" BUY] one[of "e_asks s" SELL] by simp
qed

lemma expire_one_wp:
  assumes I: "cpp_inv s f {} {} {}" and r: "h_orders s x = Some r" and x: "x \<notin> set (e_stops s)"
  shows "wp (expire_one x s) (\<lambda>s'. (\<exists>f'. cpp_inv s' f' {} {} {}) \<and> env s s' \<and> shrinks s s' \<and> all_but x s s')"
proof -
  obtain sd p lv as bs where lv: "(p, lv) \<in> set (side_map sd s)" "f lv = as @ x # bs" "co_level r = Some lv"
    using resting_at[OF I r x] by auto
  have "wp (expire_one x s) (\<lambda>s'. (\<exists>f'. cpp_inv s' f' {} {} {} \<and> f' = f(lv := as @ bs) \<and> pruned f' s s') \<and> env s s' \<and> shrinks s s' \<and> all_but x s s')"
    using take_out_wp[OF I lv(1,2), of EXPIRED onOrderExpired] r lv(3)
    by (simp add: expire_one_def set_status_def upd_ord_some)
  then show ?thesis by (rule wp_mono) blast
qed

lemma expire_all_wp:
  assumes "cpp_inv s f {} {} {}" and "distinct xs" and "\<And>x. x \<in> set xs \<Longrightarrow> h_orders s x \<noteq> None \<and> x \<notin> set (e_stops s)"
  shows "wp (expire_all xs s) (\<lambda>s'. (\<exists>f'. cpp_inv s' f' {} {} {}) \<and> env s s' \<and> shrinks s s' \<and>
    (\<forall>y. map_option core (h_orders s' y) = (if y \<in> set xs then None else map_option core (h_orders s y))))"
  using assms
proof (induction xs arbitrary: s f)
  case (Cons x xs)
  obtain r where r: "h_orders s x = Some r" and nst: "x \<notin> set (e_stops s)" using Cons.prems(3)[of x] by auto
  obtain s1 f1 where 1: "expire_one x s = Some s1" and I1: "cpp_inv s1 f1 {} {} {}" and e: "env s s1" "shrinks s s1" "all_but x s s1"
    using expire_one_wp[OF Cons.prems(1) r nst] by (auto elim!: wpE)
  have "h_orders s1 y \<noteq> None \<and> y \<notin> set (e_stops s1)" if "y \<in> set xs" for y
    using Cons.prems(2,3) that e(1) all_but_dom[OF e(3), of y] by (auto simp: env_def)
  then have "wp (expire_all xs s1) (\<lambda>s'. (\<exists>f'. cpp_inv s' f' {} {} {}) \<and> env s1 s' \<and> shrinks s1 s' \<and>
    (\<forall>y. map_option core (h_orders s' y) = (if y \<in> set xs then None else map_option core (h_orders s1 y))))"
    using Cons.prems(2) by (intro Cons.IH[OF I1]) auto
  then obtain s2 f2 where 2: "expire_all xs s1 = Some s2" and I2: "cpp_inv s2 f2 {} {} {}" and e2: "env s1 s2" "shrinks s1 s2"
    and h: "\<And>y. map_option core (h_orders s2 y) = (if y \<in> set xs then None else map_option core (h_orders s1 y))"
    by (auto elim!: wpE)
  have "map_option core (h_orders s2 y) = (if y \<in> set (x # xs) then None else map_option core (h_orders s y))" for y
    using h[of y] e(3) Cons.prems(2) by (cases "y = x") (simp_all add: all_but_def)
  then show ?case using 1 2 I2 env_trans[OF e(1) e2(1)] shrinks_trans[OF e(2) e2(2)] by auto
qed auto

text \<open>What a call of \<^verbatim>\<open>expireOrders\<close> has done so far: orders have gone only because they were due.\<close>

definition gone_due :: "u64 \<Rightarrow> CppEngine \<Rightarrow> CppEngine \<Rightarrow> bool" where
  "gone_due t s s' \<longleftrightarrow> (\<forall>y. map_option core (h_orders s' y) = map_option core (h_orders s y) \<or>
     h_orders s' y = None \<and> (\<exists>r. h_orders s y = Some r \<and> shouldExpire t r))"

lemma should_core: "core r = core r' \<Longrightarrow> shouldExpire t r = shouldExpire t r'"
  using core_sel[of r r'] by (simp add: shouldExpire_def)

lemma map_core: "map_option core a = map_option core b \<Longrightarrow> b = Some r \<Longrightarrow> \<exists>r'. a = Some r' \<and> core r' = core r"
  by (cases a) auto

lemma gone_due_trans: "gone_due t s s' \<Longrightarrow> gone_due t s' s'' \<Longrightarrow> gone_due t s s''"
  unfolding gone_due_def
proof (rule allI)
  fix y
  assume 1: "\<forall>y. map_option core (h_orders s' y) = map_option core (h_orders s y) \<or> h_orders s' y = None \<and> (\<exists>r. h_orders s y = Some r \<and> shouldExpire t r)"
    and 2: "\<forall>y. map_option core (h_orders s'' y) = map_option core (h_orders s' y) \<or> h_orders s'' y = None \<and> (\<exists>r. h_orders s' y = Some r \<and> shouldExpire t r)"
  show "map_option core (h_orders s'' y) = map_option core (h_orders s y) \<or> h_orders s'' y = None \<and> (\<exists>r. h_orders s y = Some r \<and> shouldExpire t r)"
    using spec[OF 1, of y] spec[OF 2, of y] by (cases "h_orders s y") (auto dest: should_core)
qed

lemma gone_due_step:
  assumes "gone_due t s s1" and "all_but x s1 s2" and "h_orders s1 x = Some r" and "shouldExpire t r"
  shows "gone_due t s s2"
proof (rule gone_due_trans[OF assms(1)])
  show "gone_due t s1 s2"
    unfolding gone_due_def
  proof
    fix y
    show "map_option core (h_orders s2 y) = map_option core (h_orders s1 y) \<or> h_orders s2 y = None \<and> (\<exists>r. h_orders s1 y = Some r \<and> shouldExpire t r)"
      using assms(2-4) by (cases "y = x") (simp_all add: all_but_def)
  qed
qed

lemma swap_pop_before: "j < i \<Longrightarrow> i < length xs \<Longrightarrow> swap_pop i xs ! j = xs ! j"
  by (simp add: swap_pop_def nth_butlast)

definition expiring :: "u64 \<Rightarrow> CppEngine \<Rightarrow> nat \<Rightarrow> CppEngine \<Rightarrow> bool" where
  "expiring t s i s' \<longleftrightarrow> (\<exists>f. cpp_inv s' f {} {} {}) \<and> shrinks s s' \<and> e_poPol s' = e_poPol s \<and> e_trades s' = e_trades s \<and>
     gone_due t s s' \<and> (\<forall>y \<in> set (e_stops s). y \<in> set (e_stops s') \<or> h_orders s' y = None) \<and>
     (\<forall>j < i. j < length (e_stops s') \<longrightarrow> \<not> shouldExpire t (ord s' (e_stops s' ! j)))"

lemma expiring_drop:
  assumes e: "expiring t s i s1" and i: "i < length (e_stops s1)" and r: "h_orders s1 (e_stops s1 ! i) = Some r" "shouldExpire t r"
    and I: "cpp_inv s2 f {} {} {}" and sh: "shrinks s1 s2" and ab: "all_but (e_stops s1 ! i) s1 s2"
    and st: "e_stops s2 = swap_pop i (e_stops s1)" and same: "e_trades s2 = e_trades s1" "e_poPol s2 = e_poPol s1"
  shows "expiring t s i s2"
proof -
  let ?x = "e_stops s1 ! i"
  obtain f1 where I1: "cpp_inv s1 f1 {} {} {}" using e by (auto simp: expiring_def)
  note d = inv_parts(7)[OF I1] and sp = swap_pop_set[OF inv_parts(7)[OF I1] i]
  have "\<not> shouldExpire t (ord s2 (e_stops s2 ! j))" if j: "j < i" for j
  proof -
    let ?y = "e_stops s1 ! j"
    have y: "?y \<noteq> ?x" using d i j by (simp add: nth_eq_iff_index_eq)
    have "?y \<in> set (e_stops s1)" using i j by simp
    then obtain w where w: "h_orders s1 ?y = Some w" using inv_loose[OF I1, of ?y] by auto
    moreover have "\<not> shouldExpire t (ord s1 ?y)" using e i j by (simp add: expiring_def)
    moreover obtain w' where "h_orders s2 ?y = Some w'" "core w' = core w" using map_core[OF _ w, of "h_orders s2 ?y"] ab y by (auto simp: all_but_def)
    ultimately show ?thesis using should_core[of w' w t] j i by (simp add: st swap_pop_before ord_def)
  qed
  moreover have "y \<in> set (e_stops s2) \<or> h_orders s2 y = None" if "y \<in> set (e_stops s)" for y
  proof (cases "y = ?x")
    case True
    then show ?thesis using ab by (simp add: all_but_def)
  next
    case False
    then have "y \<in> set (e_stops s1) \<or> h_orders s1 y = None" using e that by (simp add: expiring_def)
    then show ?thesis using False ab sp(2) by (auto simp: st all_but_def)
  qed
  ultimately show ?thesis
    using e I sh same gone_due_step[OF _ ab r] by (auto simp: expiring_def intro: shrinks_trans)
qed

lemma expire_stops_wp:
  assumes "cpp_inv s f {} {} {}"
  shows "wp (loop (expire_stop_step t) (0, s)) (\<lambda>s'. \<exists>i \<ge> length (e_stops s'). expiring t s i s')"
proof (rule loop_wp[where I = "\<lambda>n (i, s'). n = length (e_stops s') - i \<and> expiring t s i s'"])
  show "case (0, s) of (i, s') \<Rightarrow> length (e_stops s) - 0 = length (e_stops s') - i \<and> expiring t s i s'"
    using assms by (auto simp: expiring_def gone_due_def)
next
  fix n and st :: "nat \<times> CppEngine"
  assume "case st of (i, s') \<Rightarrow> n = length (e_stops s') - i \<and> expiring t s i s'"
  then obtain i s1 where st: "st = (i, s1)" and n: "n = length (e_stops s1) - i" and e: "expiring t s i s1" by (cases st) auto
  obtain f1 where I1: "cpp_inv s1 f1 {} {} {}" using e by (auto simp: expiring_def)
  show "wp (expire_stop_step t st) (\<lambda>r. case r of Inl s' \<Rightarrow> \<exists>k < n. (case s' of (i, s') \<Rightarrow> k = length (e_stops s') - i \<and> expiring t s i s')
    | Inr s' \<Rightarrow> \<exists>i \<ge> length (e_stops s'). expiring t s i s')"
  proof (cases "i < length (e_stops s1)")
    case True
    let ?x = "e_stops s1 ! i"
    have x: "?x \<in> set (e_stops s1)" using True by simp
    obtain r where r: "h_orders s1 ?x = Some r" using inv_loose[OF I1, of ?x] x by auto
    note sp = swap_pop_set[OF inv_parts(7)[OF I1] True]
    show ?thesis
    proof (cases "shouldExpire t r")
      case sx: True
      note take_stop_wp[OF I1 x sp(1,2), of EXPIRED onOrderExpired]
      then show ?thesis using True r sx sp(3) n expiring_drop[OF e True r sx]
        by (auto simp: st expire_stop_step_def Let_def elim!: wp_mono)
    next
      case False
      have "expiring t s (Suc i) s1" using e False r by (auto simp: expiring_def less_Suc_eq ord_def)
      then show ?thesis using True r False n by (auto simp: st expire_stop_step_def)
    qed
  next
    case False
    then have "\<exists>i \<ge> length (e_stops s1). expiring t s i s1" using e by (auto simp: not_less)
    then show ?thesis using False by (simp add: st expire_stop_step_def)
  qed
qed

text \<open>The whole call: exactly the orders that are due go.\<close>

definition only_due :: "u64 \<Rightarrow> CppEngine \<Rightarrow> CppEngine \<Rightarrow> bool" where
  "only_due t s s' \<longleftrightarrow> (\<forall>y. map_option core (h_orders s' y) =
     (case h_orders s y of None \<Rightarrow> None | Some r \<Rightarrow> if shouldExpire t r then None else Some (core r)))"

lemma resting_all: "x \<in> set (concat (map (f \<circ> snd) (e_bids s @ e_asks s))) \<longleftrightarrow> (\<exists>sd p lv. (p, lv) \<in> set (side_map sd s) \<and> x \<in> set (f lv))"
  unfolding ex_side by (simp only: side_map.simps) force

lemma expire_wp:
  assumes I: "cpp_inv s f {} {} {}"
  shows "wp (expireOrders t s) (\<lambda>s'. (\<exists>f'. cpp_inv s' f' {} {} {}) \<and> shrinks s s' \<and> e_poPol s' = e_poPol s \<and> only_due t s s')"
proof -
  let ?all = "concat (map (f \<circ> snd) (e_bids s @ e_asks s))"
  let ?xs = "filter (\<lambda>x. shouldExpire t (ord s x)) ?all"
  have b: "level_list s lv (f lv)" if "(p, lv) \<in> set (e_bids s)" for p lv using inv_level(1)[OF I, of p lv BUY] that by simp
  have a: "level_list s lv (f lv)" if "(p, lv) \<in> set (e_asks s)" for p lv using inv_level(1)[OF I, of p lv SELL] that by simp
  let ?ys = "filter (\<lambda>x. shouldExpire t (ord s x)) (concat (map (f \<circ> snd) (e_bids s)))"
  have scan: "scan_map s t (e_bids s) [] = Some ?ys" "scan_map s t (e_asks s) ?ys = Some ?xs"
    using scan_map_filter[of "e_bids s" s f t "[]", OF b] scan_map_filter[of "e_asks s" s f t, OF a] by simp_all
  have live: "h_orders s x \<noteq> None \<and> x \<notin> set (e_stops s)" if "x \<in> set ?xs" for x
  proof -
    have "x \<in> set ?all" using that unfolding set_filter by (elim CollectE conjE)
    then obtain p lv sd where "(p, lv) \<in> set (side_map sd s)" "x \<in> set (f lv)" unfolding resting_all by blast
    then show ?thesis using inv_level(4)[OF I] inv_apart(2)[OF I] by blast
  qed
  have d: "distinct ?xs" using live_orders_distinct[OF I] by (rule distinct_filter)
  from expire_all_wp[OF I d live]
  obtain s1 f1 where 1: "expire_all ?xs s = Some s1" and I1: "cpp_inv s1 f1 {} {} {}" and e: "env s s1" "shrinks s s1"
    and h: "\<forall>y. map_option core (h_orders s1 y) = (if y \<in> set ?xs then None else map_option core (h_orders s y))"
    by (auto elim!: wpE)
  have run: "expireOrders t s = loop (expire_stop_step t) (0, s1)" unfolding expireOrders_def by (simp only: scan 1 Option.bind.bind_lunit)
  have due: "only_due t s s2" if x: "expiring t s1 i s2" and i: "length (e_stops s2) \<le> i" for i s2
    unfolding only_due_def
  proof
    fix y
    have g: "gone_due t s1 s2" and st: "\<And>z. z \<in> set (e_stops s1) \<Longrightarrow> z \<in> set (e_stops s2) \<or> h_orders s2 z = None"
      and nx: "\<And>z. z \<in> set (e_stops s2) \<Longrightarrow> \<not> shouldExpire t (ord s2 z)" using x i by (auto simp: expiring_def in_set_conv_nth)
    show "map_option core (h_orders s2 y) = (case h_orders s y of None \<Rightarrow> None | Some r \<Rightarrow> if shouldExpire t r then None else Some (core r))"
    proof (cases "h_orders s y")
      case None
      then have "h_orders s1 y = None" using h[rule_format, of y] by (simp split: if_splits)
      then show ?thesis using g None unfolding gone_due_def by (drule_tac spec[of _ y]) auto
    next
      case (Some r)
      show ?thesis
      proof (cases "y \<in> set ?xs")
        case True
        then have "h_orders s1 y = None" "shouldExpire t r" using h[rule_format, of y] Some by (auto simp: ord_def)
        then show ?thesis using g Some unfolding gone_due_def by (drule_tac spec[of _ y]) auto
      next
        case False
        then obtain r1 where r1: "h_orders s1 y = Some r1" "core r1 = core r" using h[rule_format, of y] Some by auto
        consider "h_orders s2 y = None" "shouldExpire t r1" | r2 where "h_orders s2 y = Some r2" "core r2 = core r1"
          using g r1 unfolding gone_due_def by (drule_tac spec[of _ y]) auto
        then show ?thesis
        proof cases
          case 2
          have "\<not> shouldExpire t r"
          proof
            assume sx: "shouldExpire t r"
            then have "\<not> (\<exists>sd p lv. (p, lv) \<in> set (side_map sd s) \<and> y \<in> set (f lv))"
              using False Some resting_all[of y f s] by (auto simp: ord_def simp del: set_concat)
            then have "y \<in> set (e_stops s)" using inv_live[OF I, of y] Some by blast
            then have "y \<in> set (e_stops s1)" using e(1) by (simp add: env_def)
            then have "\<not> shouldExpire t r2" using st nx 2(1) by (fastforce simp: ord_def)
            then show False using sx should_core[of r2 r t] 2(2) r1(2) by simp
          qed
          then show ?thesis using 2 r1(2) Some by simp
        qed (use should_core[of r1 r t] r1(2) Some in simp)
      qed
    qed
  qed
  show ?thesis unfolding run
    by (rule wp_mono[OF expire_stops_wp[OF I1, of t]]) (use e due in \<open>auto simp: env_def expiring_def intro: shrinks_trans\<close>)
qed

section \<open>Destruction\<close>

text \<open>The live entries of \<open>k\<close> slots from \<open>i\<close> on; the walk finds them all, because the count is exact.\<close>

fun live_slots :: "nat \<Rightarrow> u64 \<Rightarrow> OrderIndex \<Rightarrow> oaddr list" where
  "live_slots 0 i ix = []"
| "live_slots (Suc k) i ix = (case ix_slots ix i of Some x \<Rightarrow> x # live_slots k (i + 1) ix | None \<Rightarrow> live_slots k (i + 1) ix)"

lemma forEachLive_from_all:
  "found = of_nat n \<Longrightarrow> ix_count ix = of_nat (n + length (live_slots k i ix)) \<Longrightarrow> n + length (live_slots k i ix) < 2 ^ 32 \<Longrightarrow>
   forEachLive_from k i found ix = live_slots k i ix"
proof (induction k arbitrary: i found n)
  case (Suc k)
  have uf: "unat found = n" using Suc.prems(1,3) by (simp add: unsigned_of_nat take_bit_nat_eq_self)
  have uc: "unat (ix_count ix) = n + length (live_slots (Suc k) i ix)"
    using Suc.prems(3) by (simp add: Suc.prems(2) unsigned_of_nat take_bit_nat_eq_self del: of_nat_add live_slots.simps)
  have lt: "found < ix_count ix \<longleftrightarrow> live_slots (Suc k) i ix \<noteq> []" unfolding word_less_nat_alt uf uc by simp
  show ?case
  proof (cases "ix_slots ix i")
    case None
    then have "forEachLive_from k (i + 1) found ix = live_slots k (i + 1) ix"
      using Suc.prems by (intro Suc.IH[of found n]) simp_all
    then show ?thesis using None lt by simp
  next
    case (Some x)
    then have "forEachLive_from k (i + 1) (found + 1) ix = live_slots k (i + 1) ix"
      using Suc.prems by (intro Suc.IH[of "found + 1" "Suc n"]) (simp_all add: algebra_simps)
    then show ?thesis using Some lt by simp
  qed
qed simp

text \<open>The slots of a state that satisfies the invariant.\<close>

lemma live_slots_elems:
  assumes "unat i + k \<le> unat c" and "unat c < 2 ^ 32"
  shows "x \<in> set (live_slots k i ix) \<longleftrightarrow> (\<exists>j. unat i \<le> unat j \<and> unat j < unat i + k \<and> ix_slots ix j = Some x)"
  using assms(1)
proof (induction k arbitrary: i)
  case (Suc k)
  have u: "unat (i + 1) = unat i + 1" using Suc.prems assms(2) by (simp add: unat_word_ariths)
  have ih: "x \<in> set (live_slots k (i + 1) ix) \<longleftrightarrow> (\<exists>j. unat i + 1 \<le> unat j \<and> unat j < unat i + 1 + k \<and> ix_slots ix j = Some x)"
    using Suc.IH[of "i + 1"] Suc.prems by (simp add: u)
  have split: "unat i \<le> unat j \<and> unat j < unat i + Suc k \<longleftrightarrow> j = i \<or> unat i + 1 \<le> unat j \<and> unat j < unat i + 1 + k" for j
    by (auto simp: le_eq_less_or_eq word_unat_eq_iff)
  have "(\<exists>j. unat i \<le> unat j \<and> unat j < unat i + Suc k \<and> ix_slots ix j = Some x) \<longleftrightarrow>
      ix_slots ix i = Some x \<or> (\<exists>j. unat i + 1 \<le> unat j \<and> unat j < unat i + 1 + k \<and> ix_slots ix j = Some x)"
    by (simp only: conj_assoc[symmetric] split) blast
  then show ?case using ih by (cases "ix_slots ix i") auto
qed simp

lemma live_slots_distinct:
  assumes "unat i + k \<le> unat c" and "unat c < 2 ^ 32"
    and "\<And>a b x. unat a < unat c \<Longrightarrow> unat b < unat c \<Longrightarrow> ix_slots ix a = Some x \<Longrightarrow> ix_slots ix b = Some x \<Longrightarrow> a = b"
  shows "distinct (live_slots k i ix)"
  using assms(1)
proof (induction k arbitrary: i)
  case (Suc k)
  have u: "unat (i + 1) = unat i + 1" using Suc.prems assms(2) by (simp add: unat_word_ariths)
  have ih: "distinct (live_slots k (i + 1) ix)" using Suc.prems by (intro Suc.IH) (simp add: u)
  have "x \<notin> set (live_slots k (i + 1) ix)" if x: "ix_slots ix i = Some x" for x
  proof
    assume "x \<in> set (live_slots k (i + 1) ix)"
    then obtain j where "unat i + 1 \<le> unat j" "unat j < unat i + 1 + k" "ix_slots ix j = Some x"
      using live_slots_elems[of "i + 1" k c x ix] Suc.prems assms(2) by (auto simp: u)
    then show False using assms(3)[of i j x] x Suc.prems by auto
  qed
  then show ?case using ih by (auto split: option.splits)
qed simp

lemma forEachLive_exact:
  assumes I: "cpp_inv s f P E X"
  shows "distinct (forEachLive (e_idx s)) \<and> set (forEachLive (e_idx s)) = dom (h_orders s)"
proof -
  let ?ix = "e_idx s" and ?c = "ix_cap (e_idx s)"
  let ?xs = "live_slots (unat ?c) 0 ?ix"
  have get: "\<And>i x. OrderIndex_get ?ix i = Some x \<longleftrightarrow> h_orders s x \<noteq> None \<and> co_id (ord s x) = i"
    and cnt: "ix_count ?ix = of_nat (card (dom (h_orders s)))" using inv_parts(9)[OF I] by (simp_all add: index_ok_def)
  have cap: "unat ?c < 2 ^ 32" using unsigned_less[of ?c, where 'a = nat] by simp
  have slot: "OrderIndex_get ?ix i = ix_slots ?ix i" if "unat i < unat ?c" for i
    using that by (simp add: OrderIndex_get_def word_le_nat_alt)
  have none: "OrderIndex_get ?ix i = None" if "\<not> unat i < unat ?c" for i
    using that by (simp add: OrderIndex_get_def word_le_nat_alt)
  have el: "set ?xs = dom (h_orders s)"
  proof (rule set_eqI)
    fix x
    have "x \<in> set ?xs \<longleftrightarrow> (\<exists>j. unat j < unat ?c \<and> ix_slots ?ix j = Some x)"
      using live_slots_elems[of 0 "unat ?c" ?c x ?ix] cap by simp
    also have "\<dots> \<longleftrightarrow> (\<exists>j. OrderIndex_get ?ix j = Some x)" using slot none by (metis option.distinct(1))
    finally show "x \<in> set ?xs \<longleftrightarrow> x \<in> dom (h_orders s)" using get by auto
  qed
  have dist: "distinct ?xs"
    by (rule live_slots_distinct[of 0 _ ?c]) (use slot get cap in \<open>auto, metis\<close>)
  have len: "length ?xs = card (dom (h_orders s))" using distinct_card[OF dist] el by simp
  have "length (live_slots k i ?ix) \<le> k" for k i by (induction k arbitrary: i) (auto split: option.splits intro: le_SucI)
  then have small: "length ?xs < 2 ^ 32" using cap by (meson le_less_trans)
  have "forEachLive_from (unat ?c) 0 0 ?ix = ?xs"
    by (rule forEachLive_from_all[of 0 0]) (use cnt len small in simp_all)
  moreover have "?xs = []" if "ix_count ?ix = 0"
  proof -
    have "unat (of_nat (length ?xs) :: u32) = length ?xs" using small by (simp add: unsigned_of_nat take_bit_nat_eq_self)
    then show ?thesis using that cnt len by simp
  qed
  ultimately have "forEachLive ?ix = ?xs" by (simp add: forEachLive_def)
  then show ?thesis using dist el by simp
qed

lemma free_all_wp:
  assumes "distinct xs" and "set xs \<subseteq> dom (h_orders s)"
  shows "wp (free_all xs s) (\<lambda>s'. \<forall>y. h_orders s' y = (if y \<in> set xs then None else h_orders s y)) \<and>
    wp (free_all xs s) (\<lambda>s'. e_oF s' = e_oF s + of_nat (length xs) \<and> e_oA s' = e_oA s \<and> h_levels s' = h_levels s \<and>
      e_lA s' = e_lA s \<and> e_lF s' = e_lF s \<and> e_bids s' = e_bids s \<and> e_asks s' = e_asks s)"
  using assms
proof (induction xs arbitrary: s)
  case (Cons x xs)
  let ?s = "s\<lparr>h_orders := (h_orders s)(x := None), e_oF := e_oF s + 1\<rparr>"
  have run: "freeOrd x s = Some ?s" using Cons.prems(2) by (auto simp: freeOrd_def delete_order_def)
  have sub: "set xs \<subseteq> dom (h_orders ?s)" using Cons.prems by auto
  show ?case using Cons.IH[OF _ sub] Cons.prems(1) run by (auto elim!: wp_mono simp: algebra_simps)
qed simp

lemma free_levels_wp:
  assumes "distinct (map snd m)" and "snd ` set m \<subseteq> dom (h_levels s)"
  shows "wp (free_levels m s) (\<lambda>s'. (\<forall>k. h_levels s' k = (if k \<in> snd ` set m then None else h_levels s k)) \<and>
    e_lF s' = e_lF s + of_nat (length m) \<and> e_lA s' = e_lA s \<and> h_orders s' = h_orders s \<and> e_oA s' = e_oA s \<and> e_oF s' = e_oF s \<and>
    e_asks s' = e_asks s)"
  using assms
proof (induction m arbitrary: s)
  case (Cons e m)
  obtain p lv where e: "e = (p, lv)" by (cases e)
  let ?s = "s\<lparr>h_levels := (h_levels s)(lv := None), e_lF := e_lF s + 1\<rparr>"
  have run: "freeLvl lv s = Some ?s" using Cons.prems(2) by (auto simp: e freeLvl_def delete_level_def)
  have sub: "snd ` set m \<subseteq> dom (h_levels ?s)" using Cons.prems by (force simp: e)
  have "distinct (map snd m)" "lv \<notin> snd ` set m" using Cons.prems(1) by (simp_all add: e)
  from Cons.IH[OF this(1) sub] obtain s' where r: "free_levels m ?s = Some s'"
    and h: "\<And>k. h_levels s' k = (if k \<in> snd ` set m then None else h_levels ?s k)"
    and c: "e_lF s' = e_lF ?s + of_nat (length m)" "e_lA s' = e_lA s" "h_orders s' = h_orders s" "e_oA s' = e_oA s" "e_oF s' = e_oF s"
      "e_asks s' = e_asks s" by (auto elim!: wpE)
  have "h_levels s' k = (if k \<in> snd ` set (e # m) then None else h_levels s k)" for k
    using h[of k] by (cases "k = lv") (simp_all add: e)
  then show ?case using run r c by (simp add: e algebra_simps)
qed simp

lemma delete_wp:
  assumes I: "cpp_inv s f {} {} {}"
  shows "wp (Engine_delete s) (\<lambda>s'. h_orders s' = Map.empty \<and> h_levels s' = Map.empty \<and>
    ordersFreed s' = ordersAllocated s' \<and> levelsFreed s' = levelsAllocated s')"
proof -
  let ?xs = "forEachLive (e_idx s)"
  note xs = forEachLive_exact[OF I]
  have len: "length ?xs = card (dom (h_orders s))" using distinct_card xs by metis
  obtain s1 where 1: "free_all ?xs s = Some s1" and o1: "h_orders s1 = Map.empty"
    and e1: "e_oF s1 = e_oF s + of_nat (length ?xs)" "e_oA s1 = e_oA s" "h_levels s1 = h_levels s" "e_lA s1 = e_lA s" "e_lF s1 = e_lF s"
      "e_bids s1 = e_bids s" "e_asks s1 = e_asks s"
    using free_all_wp[of ?xs s] xs by (force elim!: wpE simp: fun_eq_iff)
  have dl: "dom (h_levels s) = snd ` set (e_bids s) \<union> snd ` set (e_asks s)" using inv_parts(3)[OF I] by (simp add: image_Un)
  have inj: "distinct (map snd m)" if "distinct (map fst m)" "\<And>e. e \<in> set m \<Longrightarrow> e \<in> set (side_map sd s)" for m sd
    using that
  proof (induction m)
    case (Cons e m)
    have "snd e \<noteq> snd e'" if "e' \<in> set m" for e'
      using key_unique(1)[OF I, of "fst e" "snd e" sd "fst e'" "snd e'" sd] Cons.prems that by (cases e; cases e') force
    then show ?case using Cons by auto
  qed simp
  have db: "distinct (map snd (e_bids s))" and da: "distinct (map snd (e_asks s))"
    using inj[of "e_bids s" BUY] inj[of "e_asks s" SELL] sorted_keys_distinct[OF inv_parts(1)[OF I, of BUY]]
      sorted_keys_distinct[OF inv_parts(1)[OF I, of SELL]] by simp_all
  have disj: "snd ` set (e_bids s) \<inter> snd ` set (e_asks s) = {}"
    using key_unique(1)[OF I, of _ _ BUY _ _ SELL] by fastforce
  obtain s2 where 2: "free_levels (e_bids s1) s1 = Some s2" and l2: "\<And>k. h_levels s2 k = (if k \<in> snd ` set (e_bids s) then None else h_levels s k)"
    and e2: "e_lF s2 = e_lF s + of_nat (length (e_bids s))" "e_lA s2 = e_lA s" "h_orders s2 = Map.empty" "e_oA s2 = e_oA s" "e_oF s2 = e_oF s1"
      "e_asks s2 = e_asks s"
    using free_levels_wp[of "e_bids s1" s1] db dl e1 o1 by (auto elim!: wpE)
  have "snd ` set (e_asks s) \<subseteq> dom (h_levels s2)"
  proof
    fix k assume "k \<in> snd ` set (e_asks s)"
    then have "k \<in> dom (h_levels s)" "k \<notin> snd ` set (e_bids s)" using dl disj by blast+
    then show "k \<in> dom (h_levels s2)" using l2[of k] by (simp add: domIff)
  qed
  then obtain s3 where 3: "free_levels (e_asks s2) s2 = Some s3" and l3: "\<And>k. h_levels s3 k = (if k \<in> snd ` set (e_asks s) then None else h_levels s2 k)"
    and e3: "e_lF s3 = e_lF s2 + of_nat (length (e_asks s))" "e_lA s3 = e_lA s" "h_orders s3 = Map.empty" "e_oA s3 = e_oA s" "e_oF s3 = e_oF s1"
    using free_levels_wp[of "e_asks s2" s2] da e2 by (auto elim!: wpE)
  have "h_levels s3 k = None" for k using l3[of k] l2[of k] arg_cong[OF dl, of "\<lambda>A. k \<in> A"] by (simp add: domIff split: if_splits)
  moreover have "card (dom (h_levels s)) = length (e_bids s) + length (e_asks s)"
    unfolding dl using card_Un_disjoint[OF _ _ disj] distinct_card[OF db] distinct_card[OF da] by simp
  ultimately show ?thesis
    using 1 2 3 e1 e2 e3 len inv_parts(10)[OF I]
    by (simp add: Engine_delete_def counts_ok_def ordersFreed_def ordersAllocated_def levelsFreed_def levelsAllocated_def
        fun_eq_iff algebra_simps)
qed

end
