(* ===== verification/Cpp_Lists.thy ===== *)
theory Cpp_Lists
  imports Cpp_Leave
begin

text \<open>
  What matching in the C++ reference engine means, on plain lists: a level is the list of the orders
  in it, a side is the list of its prices and levels, and nothing mentions addresses, links,
  maps, the index or the clock.  The functions are the reference the pointer code is compared with.
\<close>

section \<open>Orders without addresses\<close>

definition shape :: "CppOrder \<Rightarrow> CppOrder" where
  "shape r = (core r)\<lparr>co_timestamp := 0\<rparr>"

lemma shape_sel [simp]:
  "co_id (shape r) = co_id r" "co_side (shape r) = co_side r" "co_type (shape r) = co_type r" "co_tif (shape r) = co_tif r"
  "co_price (shape r) = co_price r" "co_qty (shape r) = co_qty r" "co_rem (shape r) = co_rem r" "co_minQty (shape r) = co_minQty r"
  "co_display (shape r) = co_display r" "co_visible (shape r) = co_visible r" "co_postOnly (shape r) = co_postOnly r"
  "co_status (shape r) = co_status r" "co_stg (shape r) = co_stg r" "co_stp (shape r) = co_stp r"
  by (simp_all add: shape_def core_def)

lemma shape_upd [simp]:
  "shape (r\<lparr>co_rem := n\<rparr>) = (shape r)\<lparr>co_rem := n\<rparr>" "shape (r\<lparr>co_visible := n\<rparr>) = (shape r)\<lparr>co_visible := n\<rparr>"
  "shape (r\<lparr>co_status := st\<rparr>) = (shape r)\<lparr>co_status := st\<rparr>" "shape (r\<lparr>co_price := p\<rparr>) = (shape r)\<lparr>co_price := p\<rparr>"
  "shape (r\<lparr>co_timestamp := t\<rparr>) = shape r"
  by (simp_all add: shape_def core_def)

lemma shape_core: "core r = core r' \<Longrightarrow> shape r = shape r'"
  by (simp add: shape_def)

lemma shape_pred [simp]:
  "canMatch (shape r) = canMatch r" "stpConflict (shape r) = stpConflict r" "stpConflict r (shape r') = stpConflict r r'"
  "fresh_visible (shape r) = fresh_visible r"
  by (simp_all add: fun_eq_iff canMatch_def stpConflict_def fresh_visible_def)

text \<open>The orders of a level, of a side; a trade.\<close>

definition view :: "CppEngine \<Rightarrow> oaddr list \<Rightarrow> CppOrder list" where
  "view s xs = map (\<lambda>x. shape (ord s x)) xs"

lemma view_simps [simp]:
  "view s [] = []" "view s (x # xs) = shape (ord s x) # view s xs" "view s (xs @ ys) = view s xs @ view s ys"
  "view s xs = [] \<longleftrightarrow> xs = []"
  by (simp_all add: view_def)

lemma view_cong: "(\<And>x. x \<in> set xs \<Longrightarrow> core (ord s' x) = core (ord s x)) \<Longrightarrow> view s' xs = view s xs"
  unfolding view_def by (intro map_cong refl shape_core) blast

type_synonym deal = "u64 \<times> int \<times> int"

definition deal_of :: "CppTrade \<Rightarrow> deal" where
  "deal_of t = (ct_passive t, ct_price t, ct_qty t)"

type_synonym side_lists = "(int \<times> CppOrder list) list"

definition side_view :: "CppEngine \<Rightarrow> (laddr \<Rightarrow> oaddr list) \<Rightarrow> (int \<times> laddr) list \<Rightarrow> side_lists" where
  "side_view s f m = map (\<lambda>(p, lv). (p, view s (f lv))) m"

lemma side_view_simps [simp]:
  "side_view s f [] = []" "side_view s f ((p, lv) # m) = (p, view s (f lv)) # side_view s f m"
  by (simp_all add: side_view_def)

text \<open>The book of one side.\<close>

definition cpp_view :: "CppEngine \<Rightarrow> (laddr \<Rightarrow> oaddr list) \<Rightarrow> Side \<Rightarrow> side_lists" where
  "cpp_view s f sd = side_view s f (side_map sd s)"

lemma side_view_core:
  assumes "\<And>p lv y. (p, lv) \<in> set m \<Longrightarrow> f' lv = f lv \<and> (y \<in> set (f lv) \<longrightarrow> core (ord s' y) = core (ord s y))"
  shows "side_view s' f' m = side_view s f m"
proof -
  have "view s' (f' lv) = view s (f lv)" if "(p, lv) \<in> set m" for p lv
  proof -
    have "f' lv = f lv" using assms[OF that] by blast
    then show ?thesis using assms[OF that] by (simp only:) (rule view_cong, blast)
  qed
  then show ?thesis unfolding side_view_def by (intro map_cong refl) auto
qed

text \<open>Only the orders in hand have changed: the books are the same.\<close>

lemma cpp_view_frame:
  assumes I: "cpp_inv s f P E X" and sm: "\<And>sd. side_map sd s' = side_map sd s" and h: "\<And>y. y \<notin> P \<Longrightarrow> h_orders s' y = h_orders s y"
  shows "cpp_view s' f sd = cpp_view s f sd"
  unfolding cpp_view_def sm
proof (rule side_view_core)
  fix p lv y assume lv: "(p, lv) \<in> set (side_map sd s)"
  have "core (ord s' y) = core (ord s y)" if "y \<in> set (f lv)"
    using h[OF inv_apart(1)[OF I lv that]] by (simp add: ord_def)
  then show "f lv = f lv \<and> (y \<in> set (f lv) \<longrightarrow> core (ord s' y) = core (ord s y))" by simp
qed

section \<open>A new order\<close>

fun add_level :: "Side \<Rightarrow> int \<Rightarrow> CppOrder \<Rightarrow> side_lists \<Rightarrow> side_lists" where
  "add_level sd p r [] = [(p, [r])]"
| "add_level sd p r ((q, rs) # m) =
     (if p = q then (q, rs @ [r]) # m else if px_before sd p q then (p, [r]) # (q, rs) # m else (q, rs) # add_level sd p r m)"

lemma px_before_asym: "px_before sd p q \<Longrightarrow> p \<noteq> q \<and> \<not> px_before sd q p"
  by (cases sd) auto

text \<open>
  The order \<open>x\<close> joins the side, while all other orders keep their data from \<open>s\<close> to \<open>s'\<close>.
\<close>

definition same_but :: "oaddr \<Rightarrow> CppEngine \<Rightarrow> CppEngine \<Rightarrow> bool" where
  "same_but x s s' \<longleftrightarrow> (\<forall>y. y \<noteq> x \<longrightarrow> core (ord s' y) = core (ord s y))"

lemma side_view_without:
  assumes t: "same_but x s s'" and m: "\<And>p lv. (p, lv) \<in> set m \<Longrightarrow> f' lv = f lv \<and> x \<notin> set (f lv)"
  shows "side_view s' f' m = side_view s f m"
proof (rule side_view_core)
  fix p lv y assume "(p, lv) \<in> set m"
  then have fl: "f' lv = f lv" and nx: "x \<notin> set (f lv)" using m by blast+
  have "core (ord s' y) = core (ord s y)" if "y \<in> set (f lv)"
    using t nx that unfolding same_but_def by metis
  then show "f' lv = f lv \<and> (y \<in> set (f lv) \<longrightarrow> core (ord s' y) = core (ord s y))" using fl by simp
qed

lemma view_without: "same_but x s s' \<Longrightarrow> x \<notin> set xs \<Longrightarrow> view s' xs = view s xs"
  by (rule view_cong) (auto simp: same_but_def)

lemma add_at_level:
  assumes "(p, lv) \<in> set m" and "sorted_wrt (px_before sd) (map fst m)" and "distinct (map snd m)"
    and "same_but x s s'" and "\<And>q k. (q, k) \<in> set m \<Longrightarrow> x \<notin> set (f k)"
  shows "side_view s' (f(lv := f lv @ [x])) m = add_level sd p (shape (ord s' x)) (side_view s f m)"
  using assms(1-3,5)
proof (induction m)
  case (Cons e m)
  obtain q k where e: "e = (q, k)" by (cases e)
  let ?f = "f(lv := f lv @ [x])"
  have vk: "view s' (f k) = view s (f k)" by (rule view_without[OF assms(4)]) (use Cons.prems(4) e in auto)
  show ?case
  proof (cases "k = lv")
    case True
    have no: "k' \<noteq> lv" if "(q', k') \<in> set m" for q' k' using Cons.prems(3) True that by (force simp: e)
    have "side_view s' ?f m = side_view s f m"
    proof (rule side_view_without[OF assms(4)])
      fix q' k' assume "(q', k') \<in> set m"
      then show "?f k' = f k' \<and> x \<notin> set (f k')" using no[of q' k'] Cons.prems(4)[of q' k'] by simp
    qed
    moreover have "p = q" using Cons.prems(1) no[of p lv] by (auto simp: e True)
    moreover have "view s' (?f k) = view s (f k) @ [shape (ord s' x)]" using vk by (simp add: True)
    ultimately show ?thesis by (simp add: e del: fun_upd_apply)
  next
    case False
    then have m: "(p, lv) \<in> set m" using Cons.prems(1) by (simp add: e)
    then have "px_before sd q p" using Cons.prems(2) by (force simp: e)
    moreover have "side_view s' ?f m = add_level sd p (shape (ord s' x)) (side_view s f m)"
      by (rule Cons.IH[OF m]) (use Cons.prems(2-4) in \<open>auto simp: e\<close>)
    moreover have "view s' (?f k) = view s (f k)" using vk False by simp
    ultimately show ?thesis using px_before_asym[of sd q p] by (simp add: e del: fun_upd_apply)
  qed
qed simp

lemma add_new_level:
  assumes "p \<notin> fst ` set m" and "lv \<notin> snd ` set m" and "same_but x s s'" and "\<And>q k. (q, k) \<in> set m \<Longrightarrow> x \<notin> set (f k)"
  shows "side_view s' (f(lv := [x])) (map_put sd p lv m) = add_level sd p (shape (ord s' x)) (side_view s f m)"
  using assms(1,2,4)
proof (induction m)
  case (Cons e m)
  obtain q k where e: "e = (q, k)" by (cases e)
  let ?f = "f(lv := [x])"
  have ne: "k \<noteq> lv" "p \<noteq> q" using Cons.prems(1,2) by (auto simp: e)
  have "view s' (f k) = view s (f k)" by (rule view_without[OF assms(3)]) (use Cons.prems(3) e in auto)
  then have vk: "view s' (?f k) = view s (f k)" using ne by simp
  have vl: "view s' (?f lv) = [shape (ord s' x)]" by simp
  have "side_view s' ?f m = side_view s f m"
  proof (rule side_view_without[OF assms(3)])
    fix q' k' assume m: "(q', k') \<in> set m"
    then have "k' \<noteq> lv" using Cons.prems(2) by force
    then show "?f k' = f k' \<and> x \<notin> set (f k')" using Cons.prems(3)[of q' k'] m by simp
  qed
  moreover have "side_view s' ?f (map_put sd p lv m) = add_level sd p (shape (ord s' x)) (side_view s f m)"
    by (rule Cons.IH) (use Cons.prems in auto)
  ultimately show ?case using ne vk vl by (simp add: e del: fun_upd_apply)
qed simp

lemma side_addrs_distinct:
  assumes I: "cpp_inv s f P E X"
  shows "distinct (map snd (side_map sd s))"
proof -
  have "distinct (map fst (side_map sd s))" by (rule sorted_keys_distinct[OF inv_parts(1)[OF I, of sd]])
  then have "distinct (side_map sd s)" by (simp add: distinct_map)
  moreover have "inj_on snd (set (side_map sd s))" using key_unique(1)[OF I] by (intro inj_onI) (metis prod.collapse)
  ultimately show ?thesis by (simp add: distinct_map)
qed

section \<open>One level\<close>

text \<open>The first order of the level after a trade for \<open>k\<close>: filled, shown anew at the end, or reduced.\<close>

fun after_fill :: "int \<Rightarrow> CppOrder list \<Rightarrow> CppOrder list" where
  "after_fill k [] = []"
| "after_fill k (r # rs) =
     (if co_rem r - k = 0 then rs
      else if co_visible r - k = 0 \<and> co_display r > 0
      then rs @ [r\<lparr>co_visible := min (co_display r) (co_rem r - k), co_rem := co_rem r - k\<rparr>]
      else r\<lparr>co_visible := co_visible r - k, co_rem := co_rem r - k, co_status := PARTIALLY_FILLED\<rparr> # rs)"

text \<open>The same for a decrement, which leaves the status.\<close>

fun after_decrement :: "int \<Rightarrow> CppOrder list \<Rightarrow> CppOrder list" where
  "after_decrement k [] = []"
| "after_decrement k (r # rs) =
     (if co_rem r - k = 0 then rs
      else if co_visible r - k = 0 \<and> co_display r > 0
      then rs @ [r\<lparr>co_rem := co_rem r - k, co_visible := min (co_display r) (co_rem r - k)\<rparr>]
      else r\<lparr>co_rem := co_rem r - k, co_visible := co_visible r - k\<rparr> # rs)"

text \<open>The policies of the incoming order \<open>i\<close> when it meets an order of its own group.\<close>

fun meet_own :: "CppOrder \<Rightarrow> CppOrder list \<Rightarrow> CppOrder \<times> CppOrder list" where
  "meet_own i [] = (i, [])"
| "meet_own i (r # rs) =
     (case co_stp i of
        NONE \<Rightarrow> (i, r # rs)
      | CANCEL_NEWEST \<Rightarrow> (i\<lparr>co_status := CANCELLED\<rparr>, r # rs)
      | CANCEL_OLDEST \<Rightarrow> (i, rs)
      | CANCEL_BOTH \<Rightarrow> (i\<lparr>co_status := CANCELLED\<rparr>, rs)
      | DECREMENT \<Rightarrow>
          let k = min (co_rem i) (co_visible r); j = i\<lparr>co_rem := co_rem i - k\<rparr>
          in (j\<lparr>co_visible := fresh_visible j, co_status := (if co_rem j = 0 then CANCELLED else co_status j)\<rparr>,
              after_decrement k (r # rs)))"

type_synonym level_state = "CppOrder \<times> CppOrder list \<times> deal list"

definition level_step_spec :: "level_state \<Rightarrow> (level_state + bool \<times> level_state) option" where
  "level_step_spec = (\<lambda>(i, q, ts). Some (case q of
      [] \<Rightarrow> Inr (False, i, q, ts)
    | r # rs \<Rightarrow>
        if \<not> co_rem i > 0 then Inr (False, i, q, ts)
        else if stpConflict i r
        then (let (j, q') = meet_own i q
              in if co_status j = CANCELLED \<or> co_rem j = 0 then Inr (True, j, q', ts) else Inl (j, q', ts))
        else (let k = min (co_rem i) (co_visible r)
              in Inl (i\<lparr>co_rem := co_rem i - k\<rparr>, after_fill k q, ts @ [(co_id r, co_price r, k)]))))"

definition level_spec :: "CppOrder \<Rightarrow> CppOrder list \<Rightarrow> (bool \<times> level_state) option" where
  "level_spec i q = loop level_step_spec (i, q, [])"

section \<open>One side\<close>

type_synonym match_state = "CppOrder \<times> side_lists \<times> deal list"

definition put_level :: "int \<Rightarrow> CppOrder list \<Rightarrow> side_lists \<Rightarrow> side_lists" where
  "put_level p q m = (if q = [] then m else (p, q) # m)"

definition side_step_spec :: "match_state \<Rightarrow> (match_state + match_state) option" where
  "side_step_spec = (\<lambda>(i, b, ts). case b of
      [] \<Rightarrow> Some (Inr (i, b, ts))
    | (p, q) # m \<Rightarrow>
        if \<not> co_rem i > 0 \<or> \<not> canMatch i p then Some (Inr (i, b, ts))
        else do {
          (ret, j, q', us) \<leftarrow> level_spec i q;
          Some ((if ret then Inr else Inl) (j, put_level p q' m, ts @ us))
        })"

definition match_spec :: "CppOrder \<Rightarrow> side_lists \<Rightarrow> match_state option" where
  "match_spec i b = loop side_step_spec (i, b, [])"

end
