(* ===== verification/Cpp_Queue.thy ===== *)
theory Cpp_Queue
  imports Cpp_Lists
begin

text \<open>
  Orders that enter a book of the C++ reference engine, and what happens to the first order of a
  level when an incoming order meets it: it is traded, requeued with a fresh visible part, or
  taken out.
\<close>

section \<open>Coming to rest\<close>

lemma inv_clean_at:
  assumes I: "cpp_inv s f P E (insert x X)" and lv: "(p, lv) \<in> set (side_map sd s)" "x \<in> set (f lv)"
    and ok: "rest_ok sd p (ord s x)"
  shows "cpp_inv s f P E X"
proof (rule inv_clean[OF I])
  show "stop_ok (ord s x)" if "x \<in> set (e_stops s)" using inv_apart(2)[OF I lv] that by blast
  fix sd' q k assume k: "(q, k) \<in> set (side_map sd' s)" "x \<in> set (f k)"
  then have "k = lv" using inv_apart(3)[OF I lv k(1)] by blast
  then show "rest_ok sd' q (ord s x)" using key_unique(1)[OF I lv(1) k(1)] ok by simp
qed

text \<open>No price of the opposite book reaches the price.\<close>

definition clear_of :: "CppEngine \<Rightarrow> Side \<Rightarrow> int \<Rightarrow> bool" where
  "clear_of s sd p \<longleftrightarrow> (\<forall>q \<in> fst ` set (side_map (oppositeSide sd) s). px_before (oppositeSide sd) p q)"

lemma inv_weaken_level: "cpp_inv s f P {} X \<Longrightarrow> cpp_inv s f P {lv} X"
  by (rule inv_weaken) auto

lemma insertSide_wp:
  assumes I: "cpp_inv s f P {} {}" and x: "x \<in> P" and r: "h_orders s x = Some r" and cl: "clear_of s sd (co_price r)"
  shows "wp (insertSide sd x s) (\<lambda>s'. \<exists>f' lv. cpp_inv s' f' (P - {x}) {} {x} \<and> (co_price r, lv) \<in> set (side_map sd s') \<and>
    x \<in> set (f' lv) \<and> env s s' \<and> (\<forall>y \<in> P - {x}. h_orders s' y = h_orders s y) \<and>
    (\<forall>y. map_option core (h_orders s' y) = map_option core (h_orders s y)) \<and>
    side_map (oppositeSide sd) s' = side_map (oppositeSide sd) s \<and>
    (\<forall>t. same_but x s t \<longrightarrow> side_view t f' (side_map sd s') = add_level sd (co_price r) (shape (ord t x)) (cpp_view s f sd) \<and>
       side_view t f' (side_map (oppositeSide sd) s') = cpp_view s f (oppositeSide sd)))"
proof -
  let ?p = "co_price r"
  have nx: "x \<notin> set (f k)" if "(q, k) \<in> set (side_map sd' s)" for q k sd' using inv_apart(1)[OF I that, of x] x by blast
  obtain lv s1 f1 where get: "(case map_of (side_map sd s) ?p of Some lv \<Rightarrow> Some (lv, s)
      | None \<Rightarrow> do { (lv, s) \<leftarrow> allocLvl ?p s; Some (lv, set_side_map sd (map_put sd ?p lv (side_map sd s)) s) }) = Some (lv, s1)"
    and I1: "cpp_inv s1 f1 P {lv} {}" and lv: "(?p, lv) \<in> set (side_map sd s1)" and h: "h_orders s1 = h_orders s" "env s s1"
    and opp: "side_map (oppositeSide sd) s1 = side_map (oppositeSide sd) s"
    and views: "\<And>t. same_but x s t \<Longrightarrow>
      side_view t (f1(lv := f1 lv @ [x])) (side_map sd s1) = add_level sd ?p (shape (ord t x)) (cpp_view s f sd) \<and>
      side_view t (f1(lv := f1 lv @ [x])) (side_map (oppositeSide sd) s) = cpp_view s f (oppositeSide sd)"
  proof (cases "map_of (side_map sd s) ?p")
    case None
    then have new: "?p \<notin> fst ` set (side_map sd s)" by (simp add: map_of_eq_None_iff)
    have cl': "\<And>q. q \<in> fst ` set (side_map (oppositeSide sd) s) \<Longrightarrow> px_before (oppositeSide sd) ?p q" using cl unfolding clear_of_def by blast
    from inv_new_level[OF I new cl'] obtain lv s1 where al: "allocLvl ?p s = Some (lv, s1)" and fr: "lv \<notin> dom (h_levels s)"
      and s2: "let s2 = set_side_map sd (map_put sd ?p lv (side_map sd s1)) s1 in
         cpp_inv s2 (f(lv := [])) P (insert lv {}) {} \<and> (?p, lv) \<in> set (side_map sd s2) \<and> h_orders s2 = h_orders s \<and>
         env s s2 \<and> e_idx s2 = e_idx s \<and> side_map sd s2 = map_put sd ?p lv (side_map sd s) \<and>
         side_map (oppositeSide sd) s2 = side_map (oppositeSide sd) s" and sm: "side_map sd s1 = side_map sd s" by blast
    have fr': "lv \<notin> snd ` set (side_map sd' s)" for sd' using fr side_of_dom[OF I, of lv] by force
    have "side_view t (f(lv := [x])) (map_put sd ?p lv (side_map sd s)) = add_level sd ?p (shape (ord t x)) (cpp_view s f sd) \<and>
        side_view t (f(lv := [x])) (side_map (oppositeSide sd) s) = cpp_view s f (oppositeSide sd)" if t: "same_but x s t" for t
      unfolding cpp_view_def
      by (intro conjI add_new_level[OF new fr' t] side_view_without[OF t]) (use nx fr' in \<open>force+\<close>)
    then show thesis using None s2 sm that[of lv "set_side_map sd (map_put sd ?p lv (side_map sd s1)) s1" "f(lv := [])"] al
      by (simp add: Let_def)
  next
    case (Some k)
    then have "(?p, k) \<in> set (side_map sd s)" using side_map_lookup[OF I] by simp
    moreover have "k \<noteq> k'" if "(q, k') \<in> set (side_map (oppositeSide sd) s)" for q k'
      using key_unique(1)[OF I \<open>(?p, k) \<in> set (side_map sd s)\<close> that] by auto
    then have "side_view t (f(k := f k @ [x])) (side_map sd s) = add_level sd ?p (shape (ord t x)) (cpp_view s f sd) \<and>
        side_view t (f(k := f k @ [x])) (side_map (oppositeSide sd) s) = cpp_view s f (oppositeSide sd)" if t: "same_but x s t" for t
      unfolding cpp_view_def using \<open>(?p, k) \<in> set (side_map sd s)\<close>
      by (intro conjI add_at_level[OF _ inv_parts(1)[OF I] side_addrs_distinct[OF I] t] side_view_without[OF t]) (use nx in auto)
    ultimately show thesis using Some that[of k s f] inv_weaken_level[OF I] by simp
  qed
  have get': "insertSide sd x s = pushBack lv x s1"
    unfolding insertSide_def by (simp only: r get option.case Option.bind.bind_lunit prod.case)
  from inv_push[OF I1 lv x] obtain s2 where 2: "pushBack lv x s1 = Some s2"
    and I2: "cpp_inv s2 (f1(lv := f1 lv @ [x])) (P - {x}) {} {x}" and fr: "list_frame lv (insert x (set (f1 lv))) s1 s2"
    by (auto elim!: wpE)
  have ho: "heap_only s1 s2" using fr by (simp add: list_frame_def)
  have "h_orders s2 y = h_orders s y" if "y \<in> P - {x}" for y
    using list_frame_facts(1)[OF fr, of y] inv_apart(1)[OF I1 lv, of y] that h by auto
  moreover have "map_option core (h_orders s2 y) = map_option core (h_orders s y)" for y
    using fr h(1) by (simp add: list_frame_def)
  moreover have "(?p, lv) \<in> set (side_map sd s2)" using lv heap_only_sel[OF ho] by simp
  moreover have "side_map sd' s2 = side_map sd' s1" for sd' using heap_only_sel[OF ho] by (cases sd') simp_all
  ultimately show ?thesis
    unfolding get' 2 wp_simps using I2 env_trans[OF h(2) env_heap_only[OF ho]]
    by (intro exI[of _ "f1(lv := f1 lv @ [x])"] exI[of _ lv]) (simp add: opp views)
qed

lemma core_ord: "map_option core (h_orders s' y) = map_option core (h_orders s y) \<Longrightarrow> core (ord s' y) = core (ord s y)"
  by (cases "h_orders s y"; cases "h_orders s' y") (auto simp: ord_def)

lemma core_status: "core r = core r' \<Longrightarrow> core (r\<lparr>co_status := st\<rparr>) = core (r'\<lparr>co_status := st\<rparr>)"
  by (cases r; cases r') (simp add: core_def)

lemma core_ids: "map_option core a = map_option core b \<Longrightarrow> map_option co_id a = map_option co_id b"
  by (cases a; cases b) (auto dest: core_sel(1))

text \<open>An order fit to rest.\<close>

definition fit_ok :: "CppOrder \<Rightarrow> bool" where
  "fit_ok r \<longleftrightarrow> base_ok r \<and> co_type r = LIMIT \<and> 0 < co_price r \<and> co_tif r \<noteq> IOC \<and> co_tif r \<noteq> FOK"

lemma fresh_visible_ok:
  assumes "base_ok r"
  shows "0 < fresh_visible r" and "fresh_visible r \<le> co_rem r" and "co_display r = 0 \<Longrightarrow> fresh_visible r = co_rem r"
  using assms by (auto simp: fresh_visible_def base_ok_def)

lemma rest_wp:
  assumes I: "cpp_inv s f P {} {}" and x: "x \<in> P" and r: "h_orders s x = Some r" and fit: "fit_ok r"
    and cl: "clear_of s (co_side r) (co_price r)" and st: "st = NEW \<or> st = PARTIALLY_FILLED"
  shows "wp (do { s \<leftarrow> insertOrder x s; set_status st x s }) (\<lambda>s'. (\<exists>f'. cpp_inv s' f' (P - {x}) {} {} \<and>
      cpp_view s' f' (co_side r) = add_level (co_side r) (co_price r) (shape (r\<lparr>co_visible := fresh_visible r, co_status := st\<rparr>))
        (cpp_view s f (co_side r)) \<and>
      cpp_view s' f' (oppositeSide (co_side r)) = cpp_view s f (oppositeSide (co_side r))) \<and> env s s' \<and>
    (\<forall>y \<in> P - {x}. h_orders s' y = h_orders s y) \<and> (\<forall>y. map_option co_id (h_orders s' y) = map_option co_id (h_orders s y)))"
proof -
  let ?r = "r\<lparr>co_visible := fresh_visible r\<rparr>"
  let ?s = "s\<lparr>h_orders := (h_orders s)(x \<mapsto> ?r)\<rparr>"
  have I1: "cpp_inv ?s f P {} {}" by (rule inv_upd[OF I r]) (use x in auto)
  have cl1: "clear_of ?s (co_side ?r) (co_price ?r)" using cl by (simp add: clear_of_def)
  have r1: "h_orders ?s x = Some ?r" by simp
  have ins: "insertOrder x s = insertSide (co_side r) x ?s" by (simp add: insertOrder_def upd_ord_some[OF r])
  from insertSide_wp[OF I1 x r1 cl1] obtain s2 f2 lv where 2: "insertSide (co_side r) x ?s = Some s2"
    and I2: "cpp_inv s2 f2 (P - {x}) {} {x}" and lv: "(co_price r, lv) \<in> set (side_map (co_side r) s2)" "x \<in> set (f2 lv)"
    and e: "env ?s s2" "\<forall>y \<in> P - {x}. h_orders s2 y = h_orders ?s y"
    and c: "\<forall>y. map_option core (h_orders s2 y) = map_option core (h_orders ?s y)"
    and views: "\<forall>t. same_but x ?s t \<longrightarrow>
      side_view t f2 (side_map (co_side r) s2) = add_level (co_side r) (co_price r) (shape (ord t x)) (cpp_view ?s f (co_side r)) \<and>
      side_view t f2 (side_map (oppositeSide (co_side r)) s2) = cpp_view ?s f (oppositeSide (co_side r))" by (auto elim!: wpE)
  have ids: "map_option co_id (h_orders s2 y) = map_option co_id (h_orders s y)" for y
    using core_ids[OF c[rule_format, of y]] r by simp
  obtain r2 where r2: "h_orders s2 x = Some r2" "core r2 = core ?r" using c[rule_format, of x] by auto
  let ?s3 = "s2\<lparr>h_orders := (h_orders s2)(x \<mapsto> r2\<lparr>co_status := st\<rparr>)\<rparr>"
  have "core (r2\<lparr>co_status := st\<rparr>) = core (?r\<lparr>co_status := st\<rparr>)" using r2(2) by (rule core_status)
  moreover have "rest_ok (co_side r) (co_price r) (?r\<lparr>co_status := st\<rparr>)"
    using fit st fresh_visible_ok[of r] by (auto simp: fit_ok_def rest_ok_def base_ok_def)
  ultimately have "rest_ok (co_side r) (co_price r) (r2\<lparr>co_status := st\<rparr>)" using ok_core(2) by blast
  then have "rest_ok (co_side r) (co_price r) (ord ?s3 x)" by (simp add: ord_def)
  moreover have "cpp_inv ?s3 f2 (P - {x}) {} {x}" by (rule inv_upd[OF I2 r2(1)]) auto
  moreover have "(co_price r, lv) \<in> set (side_map (co_side r) ?s3)" using lv by simp
  ultimately have "cpp_inv ?s3 f2 (P - {x}) {} {}" using lv(2) by (intro inv_clean_at[of ?s3 f2 "P - {x}" "{}" x "{}" "co_price r" lv "co_side r"])
  moreover have "set_status st x s2 = Some ?s3" by (simp add: set_status_def upd_ord_some[OF r2(1)])
  moreover have "map_option co_id (h_orders ?s3 y) = map_option co_id (h_orders s y)" for y using ids[of y] r2(1) by auto
  moreover have "same_but x ?s ?s3" using core_ord[OF c[rule_format]] by (simp add: same_but_def ord_def)
  then have "cpp_view ?s3 f2 (co_side r) = add_level (co_side r) (co_price r) (shape (ord ?s3 x)) (cpp_view ?s f (co_side r))"
    "cpp_view ?s3 f2 (oppositeSide (co_side r)) = cpp_view ?s f (oppositeSide (co_side r))"
    using views by (auto simp: cpp_view_def)
  moreover have "cpp_view ?s f sd = cpp_view s f sd" for sd by (rule cpp_view_frame[OF I]) (use x in auto)
  moreover have "shape (ord ?s3 x) = shape (?r\<lparr>co_status := st\<rparr>)" using shape_core[OF core_status[OF r2(2), of st]] by (simp add: ord_def)
  ultimately show ?thesis using ins 2 e by (auto simp: env_def)
qed

section \<open>The first order of a level\<close>

lemma requeue_wp:
  assumes I: "cpp_inv s f P E {x}" and lv: "(p, lv) \<in> set (side_map sd s)" and x: "f lv = x # xs"
    and ok: "rest_ok sd p (ord s x)"
  shows "wp (do { s \<leftarrow> lvl_remove lv x s; pushBack lv x s }) (\<lambda>s'. cpp_inv s' (f(lv := xs @ [x])) P (insert lv E) {} \<and>
    heap_only s s' \<and> (\<forall>y. y \<notin> set (f lv) \<longrightarrow> h_orders s' y = h_orders s y) \<and>
    (\<forall>y. map_option core (h_orders s' y) = map_option core (h_orders s y)))"
proof -
  have x': "f lv = [] @ x # xs" using x by simp
  from inv_unlink[OF I lv x'] obtain s1 where 1: "lvl_remove lv x s = Some s1"
    and I1: "cpp_inv s1 (f(lv := xs)) (insert x P) (insert lv E) {}" and f1: "list_frame lv (set (f lv)) s s1" by (auto elim!: wpE)
  have h1: "heap_only s s1" using f1 by (simp add: list_frame_def)
  have lv1: "(p, lv) \<in> set (side_map sd s1)" using lv heap_only_sel[OF h1] by simp
  from inv_push[OF I1 lv1, of x] obtain s2 where 2: "pushBack lv x s1 = Some s2"
    and I2: "cpp_inv s2 ((f(lv := xs))(lv := (f(lv := xs)) lv @ [x])) (insert x P - {x}) (insert lv E - {lv}) {x}"
    and f2: "list_frame lv (insert x (set ((f(lv := xs)) lv))) s1 s2" by (auto elim!: wpE)
  have "x \<notin> P" using inv_apart(1)[OF I lv, of x] x by simp
  then have "insert x P - {x} = P" by simp
  moreover have "(f(lv := xs))(lv := (f(lv := xs)) lv @ [x]) = f(lv := xs @ [x])" by simp
  ultimately have "cpp_inv s2 (f(lv := xs @ [x])) P (insert lv E - {lv}) {x}" using I2 by (simp only:)
  then have I3: "cpp_inv s2 (f(lv := xs @ [x])) P (insert lv E) {x}" by (rule inv_weaken) auto
  have h2: "heap_only s1 s2" using f2 by (simp add: list_frame_def)
  have c: "map_option core (h_orders s2 y) = map_option core (h_orders s y)" for y using f1 f2 by (simp add: list_frame_def)
  have "core (ord s2 x) = core (ord s x)" using list_frame_facts(3)[OF f1] list_frame_facts(3)[OF f2] by simp
  then have "rest_ok sd p (ord s2 x)" using ok ok_core(2) by blast
  moreover have "(p, lv) \<in> set (side_map sd s2)" "x \<in> set ((f(lv := xs @ [x])) lv)" using lv1 heap_only_sel[OF h2] by simp_all
  ultimately have "cpp_inv s2 (f(lv := xs @ [x])) P (insert lv E) {}" by (intro inv_clean_at[OF I3])
  moreover have "h_orders s2 y = h_orders s y" if "y \<notin> set (f lv)" for y
    using list_frame_facts(1)[OF f1, of y] list_frame_facts(1)[OF f2, of y] that x by simp
  ultimately show ?thesis using 1 2 c heap_only_trans[OF h1 h2] by simp
qed

text \<open>Taking it out; the calls of the listener in between are arbitrary.\<close>

lemma take_first_wp:
  assumes I: "cpp_inv s f P E {x}" and lv: "(p, lv) \<in> set (side_map sd s)" and x: "f lv = x # xs"
  shows "wp (lvl_remove lv x s) (\<lambda>s1. (\<forall>y. map_option core (h_orders s1 y) = map_option core (h_orders s y)) \<and> heap_only s s1 \<and>
    (\<forall>y. y \<notin> set (f lv) \<longrightarrow> h_orders s1 y = h_orders s y) \<and>
    (\<forall>l. wp (drop_ord x (s1\<lparr>e_log := l\<rparr>)) (\<lambda>s'. cpp_inv s' (f(lv := xs)) P (insert lv E) {} \<and> env s s' \<and>
      (\<forall>sd. side_map sd s' = side_map sd s) \<and> h_orders s' = (h_orders s1)(x := None))))"
proof -
  have x': "f lv = [] @ x # xs" using x by simp
  from inv_unlink[OF I lv x'] obtain s1 where 1: "lvl_remove lv x s = Some s1"
    and I1: "cpp_inv s1 (f(lv := xs)) (insert x P) (insert lv E) {}" and f1: "list_frame lv (set (f lv)) s s1" by (auto elim!: wpE)
  have h1: "heap_only s s1" using f1 by (simp add: list_frame_def)
  have nx: "insert x P - {x} = P" using inv_apart(1)[OF I lv, of x] x by auto
  have "wp (drop_ord x (s1\<lparr>e_log := l\<rparr>)) (\<lambda>s'. cpp_inv s' (f(lv := xs)) P (insert lv E) {} \<and> env s s' \<and>
      (\<forall>sd. side_map sd s' = side_map sd s) \<and> h_orders s' = (h_orders s1)(x := None))" for l
  proof -
    have I2: "cpp_inv (s1\<lparr>e_log := l\<rparr>) (f(lv := xs)) (insert x P) (insert lv E) {}" using I1 by simp
    show ?thesis using inv_drop[OF I2, of x] nx heap_only_sel[OF h1] by (auto simp: env_def elim!: wp_mono)
  qed
  then show ?thesis using 1 f1 h1 by (simp add: list_frame_def)
qed

end
