(* ===== verification/Cpp_Safe.thy ===== *)
theory Cpp_Safe
  imports Cpp_Queue
begin

text \<open>
  Matching in the C++ reference engine: from a state that satisfies the invariant the loops
  end, no access is undefined, and the invariant, the other orders in hand and the quantities
  are kept.
\<close>

section \<open>One step at the front of a level\<close>

text \<open>What matching changes in the incoming order: its quantities and its status.\<close>

definition terms :: "CppOrder \<Rightarrow> CppOrder" where
  "terms r = r\<lparr>co_rem := 0, co_visible := 0, co_status := NEW\<rparr>"

lemma terms_upd [simp]:
  "terms (r\<lparr>co_rem := n\<rparr>) = terms r" "terms (r\<lparr>co_visible := n\<rparr>) = terms r" "terms (r\<lparr>co_status := st\<rparr>) = terms r"
  by (simp_all add: terms_def)

lemma terms_sel:
  assumes "terms r = terms r'"
  shows "co_id r = co_id r'" "co_side r = co_side r'" "co_type r = co_type r'" "co_tif r = co_tif r'" "co_price r = co_price r'"
    "co_qty r = co_qty r'" "co_minQty r = co_minQty r'" "co_display r = co_display r'" "co_postOnly r = co_postOnly r'"
    "co_stg r = co_stg r'" "co_stp r = co_stp r'" "lnk r = lnk r'" "co_level r = co_level r'"
  using assms by (cases r; cases r'; simp add: terms_def lnk_def)+

definition same_ids :: "CppEngine \<Rightarrow> CppEngine \<Rightarrow> bool" where
  "same_ids s s' \<longleftrightarrow> (\<forall>y. h_orders s' y \<noteq> None \<longrightarrow> h_orders s y \<noteq> None \<and> co_id (ord s' y) = co_id (ord s y))"

definition books_same :: "CppEngine \<Rightarrow> CppEngine \<Rightarrow> bool" where
  "books_same s s' \<longleftrightarrow> e_bids s' = e_bids s \<and> e_asks s' = e_asks s \<and> e_stops s' = e_stops s \<and> e_poPol s' = e_poPol s"

lemma books_same_refl [simp]: "books_same s s" by (simp add: books_same_def)
lemma books_same_trans: "books_same s s' \<Longrightarrow> books_same s' s'' \<Longrightarrow> books_same s s''" by (simp add: books_same_def)
lemma books_same_side: "books_same s s' \<Longrightarrow> side_map sd s' = side_map sd s" by (cases sd) (simp_all add: books_same_def)
lemma same_ids_refl [simp]: "same_ids s s" by (simp add: same_ids_def)
lemma same_ids_trans: "same_ids s s' \<Longrightarrow> same_ids s' s'' \<Longrightarrow> same_ids s s''" by (simp add: same_ids_def)

text \<open>
  One step: the list \<open>f lv\<close> of the level becomes \<open>xs'\<close>, the incoming order becomes \<open>i'\<close>, and
  nothing outside the level changes.
\<close>

definition level_step ::
  "oaddr \<Rightarrow> laddr \<Rightarrow> (laddr \<Rightarrow> oaddr list) \<Rightarrow> oaddr set \<Rightarrow> CppEngine \<Rightarrow> CppEngine \<Rightarrow> CppOrder \<Rightarrow> oaddr list \<Rightarrow> bool" where
  "level_step inc lv f P s s' i' xs' \<longleftrightarrow>
     cpp_inv s' (f(lv := xs')) P {lv} {} \<and> set xs' \<subseteq> set (f lv) \<and> length xs' \<le> length (f lv) \<and>
     h_orders s' inc = Some i' \<and> (\<forall>y. y \<notin> insert inc (set (f lv)) \<longrightarrow> h_orders s' y = h_orders s y) \<and>
     same_ids s s' \<and> books_same s s'"

text \<open>The incoming order and the first of the level have new data; then one of three things happens.\<close>

definition new_data ::
  "oaddr \<Rightarrow> oaddr \<Rightarrow> laddr \<Rightarrow> (laddr \<Rightarrow> oaddr list) \<Rightarrow> oaddr set \<Rightarrow> Side \<Rightarrow> int \<Rightarrow> CppEngine \<Rightarrow> CppEngine \<Rightarrow> CppOrder \<Rightarrow> CppOrder \<Rightarrow> bool" where
  "new_data inc x lv f P c p s sk i' r' \<longleftrightarrow> inc \<noteq> x \<and> inc \<in> P \<and> cpp_inv sk f P {lv} {x} \<and> same_ids s sk \<and> books_same s sk \<and>
     (p, lv) \<in> set (side_map c sk) \<and> h_orders sk inc = Some i' \<and> ord sk x = r' \<and>
     (\<forall>y. y \<noteq> inc \<longrightarrow> y \<noteq> x \<longrightarrow> h_orders sk y = h_orders s y)"

lemma new_dataI:
  assumes I: "cpp_inv s f P {lv} {}" and inc: "inc \<in> P" "h_orders s inc = Some i" and lv: "(p, lv) \<in> set (side_map c s)"
    and x: "f lv = x # xs" "h_orders s x = Some r"
    and sk: "h_orders sk = (h_orders s)(inc \<mapsto> i', x \<mapsto> r')" "h_levels sk = h_levels s" "h_obrk sk = h_obrk s" "h_lbrk sk = h_lbrk s"
      "e_bids sk = e_bids s" "e_asks sk = e_asks s" "e_idx sk = e_idx s" "e_stops sk = e_stops s" "e_oA sk = e_oA s" "e_oF sk = e_oF s"
      "e_lA sk = e_lA s" "e_lF sk = e_lF s" "trades_ok sk" "e_poPol sk = e_poPol s"
    and l: "lnk i' = lnk i" "lnk r' = lnk r"
  shows "new_data inc x lv f P c p s sk i' r'"
proof -
  have ne: "inc \<noteq> x" using inv_apart(1)[OF I lv, of x] inc(1) x(1) by auto
  let ?s = "(s\<lparr>h_orders := (h_orders s)(inc \<mapsto> i')\<rparr>)\<lparr>h_orders := (h_orders s)(inc \<mapsto> i', x \<mapsto> r')\<rparr>"
  have "cpp_inv (s\<lparr>h_orders := (h_orders s)(inc \<mapsto> i')\<rparr>) f P {lv} {x}"
    by (rule inv_upd[OF inv_weaken[OF I] inc(2)]) (use inc l in auto)
  from inv_upd[OF this, of x r r'] have "cpp_inv ?s f P {lv} {x}" using x(2) l(2) ne by simp
  moreover have "trades_ok ?s" using inv_parts(11)[OF I] by (simp add: trades_ok_def)
  ultimately have "cpp_inv sk f P {lv} {x}" using inv_same[of sk ?s] sk by simp
  moreover have "same_ids s sk" using inc(2) x(2) l by (auto simp: same_ids_def sk(1) ord_def lnk_def)
  moreover have bs: "books_same s sk" using sk by (simp add: books_same_def)
  moreover have "(p, lv) \<in> set (side_map c sk)" using books_same_side[OF bs] lv by simp
  ultimately show ?thesis using ne inc by (simp add: new_data_def sk(1) ord_def)
qed

lemma books_same_heap_only: "heap_only s s' \<Longrightarrow> books_same s s'"
  by (auto simp: heap_only_def books_same_def)

lemma books_same_env: "env s s' \<Longrightarrow> (\<forall>sd. side_map sd s' = side_map sd s) \<Longrightarrow> books_same s s'"
  using allI[of "\<lambda>sd. side_map sd s' = side_map sd s"] by (auto simp: env_def books_same_def dest: spec[of _ BUY] spec[of _ SELL])

lemma same_ids_core:
  assumes "\<And>y. map_option core (h_orders s' y) = map_option core (h_orders s y)"
  shows "same_ids s s'"
  unfolding same_ids_def
proof (intro allI impI)
  fix y assume "h_orders s' y \<noteq> None"
  then show "h_orders s y \<noteq> None \<and> co_id (ord s' y) = co_id (ord s y)"
    using core_ids[OF assms[of y]] by (cases "h_orders s y") (auto simp: ord_def)
qed

text \<open>The orders of the level behind the first: none of their data change.\<close>

definition tail_same :: "oaddr \<Rightarrow> oaddr list \<Rightarrow> CppEngine \<Rightarrow> CppEngine \<Rightarrow> bool" where
  "tail_same inc xs s s' \<longleftrightarrow> (\<forall>y \<in> set xs. core (ord s' y) = core (ord s y))"

lemma tail_view: "tail_same inc xs s s' \<Longrightarrow> view s' xs = view s xs"
  by (intro view_cong) (simp add: tail_same_def)

lemma view_notify [simp]: "view (notify ev s) xs = view s xs"
proof -
  have "ord (notify ev s) = ord s" by (rule ord_same) (simp add: notify_def)
  then show ?thesis by (simp add: view_def)
qed

lemma rem_visible_swap: "r\<lparr>co_rem := m, co_visible := v\<rparr> = r\<lparr>co_visible := v, co_rem := m\<rparr>"
  by (cases r) simp

lemma new_data_tail:
  assumes "new_data inc x lv f P c p s sk i' r'" and "f lv = x # xs"
  shows "inc \<notin> set (f lv)" and "x \<notin> set xs" and "tail_same inc xs s sk"
proof -
  have I: "cpp_inv sk f P {lv} {x}" and lv: "(p, lv) \<in> set (side_map c sk)" and inc: "inc \<in> P"
    using assms(1) by (simp_all add: new_data_def)
  show "inc \<notin> set (f lv)" using inv_apart(1)[OF I lv] inc by blast
  moreover show "x \<notin> set xs" using level_list_distinct[OF inv_level(1)[OF I lv]] assms(2) by simp
  ultimately show "tail_same inc xs s sk" using assms by (auto simp: tail_same_def new_data_def ord_def)
qed

lemma step_keep:
  assumes nd: "new_data inc x lv f P c p s sk i' r'" and x: "f lv = x # xs" and ok: "rest_ok c p r'"
  shows "level_step inc lv f P s sk i' (x # xs)"
proof -
  have "cpp_inv sk f P {lv} {}"
    by (rule inv_clean_at[of sk f P "{lv}" x "{}" p lv c]) (use nd x ok in \<open>simp_all add: new_data_def\<close>)
  moreover have "f(lv := x # xs) = f" using x by auto
  ultimately show ?thesis using nd x by (auto simp: level_step_def new_data_def)
qed

lemma step_requeue:
  assumes nd: "new_data inc x lv f P c p s sk i' r'" and x: "f lv = x # xs" and ok: "rest_ok c p r'"
  shows "wp (do { s \<leftarrow> lvl_remove lv x sk; pushBack lv x s }) (\<lambda>s'. level_step inc lv f P s s' i' (xs @ [x]) \<and>
    tail_same inc xs s s' \<and> core (ord s' x) = core r' \<and> e_trades s' = e_trades sk)"
proof -
  note nt = new_data_tail[OF nd x]
  have I: "cpp_inv sk f P {lv} {x}" and lv: "(p, lv) \<in> set (side_map c sk)" and r: "ord sk x = r'" using nd by (simp_all add: new_data_def)
  from requeue_wp[OF I lv x] ok obtain s1 s' where run: "lvl_remove lv x sk = Some s1" "pushBack lv x s1 = Some s'"
    and I': "cpp_inv s' (f(lv := xs @ [x])) P {lv} {}" and ho: "heap_only sk s'"
    and out: "\<forall>y. y \<notin> set (f lv) \<longrightarrow> h_orders s' y = h_orders sk y" and c: "\<forall>y. map_option core (h_orders s' y) = map_option core (h_orders sk y)"
    using r by (auto elim!: wpE)
  have oc: "core (ord s' y) = core (ord sk y)" if "h_orders sk y \<noteq> None" for y
    using c[rule_format, of y] that by (auto simp: ord_def)
  have live: "h_orders sk y \<noteq> None" if "y \<in> set (f lv)" for y using inv_level(4)[OF I lv that] by auto
  have "tail_same inc xs s s'" using nt(3) oc live x by (auto simp: tail_same_def)
  moreover have "core (ord s' x) = core r'" using oc[of x] live[of x] x r by simp
  moreover have "level_step inc lv f P s s' i' (xs @ [x])"
    unfolding level_step_def
    using I' nd x out nt(1) same_ids_trans[OF _ same_ids_core[of s' sk]] c books_same_trans[OF _ books_same_heap_only[OF ho]]
    by (auto simp: new_data_def)
  moreover have "e_trades s' = e_trades sk" using heap_only_sel[OF ho] by simp
  ultimately show ?thesis using run by simp
qed

lemma step_take:
  assumes nd: "new_data inc x lv f P c p s sk i' r'" and x: "f lv = x # xs"
  shows "wp (lvl_remove lv x sk) (\<lambda>s1. h_orders s1 inc = Some i' \<and> map_option core (h_orders s1 x) = Some (core r') \<and>
    heap_only sk s1 \<and> (\<forall>l. wp (drop_ord x (s1\<lparr>e_log := l\<rparr>)) (\<lambda>s'. level_step inc lv f P s s' i' xs \<and> tail_same inc xs s s' \<and>
      e_trades s' = e_trades sk)))"
proof -
  note nt = new_data_tail[OF nd x]
  have I: "cpp_inv sk f P {lv} {x}" and lv: "(p, lv) \<in> set (side_map c sk)" and r: "ord sk x = r'" and ne: "inc \<noteq> x"
    using nd by (simp_all add: new_data_def)
  from take_first_wp[OF I lv x] obtain s1 where run: "lvl_remove lv x sk = Some s1"
    and c: "\<forall>y. map_option core (h_orders s1 y) = map_option core (h_orders sk y)" and ho: "heap_only sk s1"
    and out: "\<forall>y. y \<notin> set (f lv) \<longrightarrow> h_orders s1 y = h_orders sk y"
    and dr: "\<forall>l. wp (drop_ord x (s1\<lparr>e_log := l\<rparr>)) (\<lambda>s'. cpp_inv s' (f(lv := xs)) P {lv} {} \<and> env sk s' \<and>
      (\<forall>sd. side_map sd s' = side_map sd sk) \<and> h_orders s' = (h_orders s1)(x := None))" by (auto elim!: wpE)
  have live: "h_orders sk y \<noteq> None" if "y \<in> set (f lv)" for y using inv_level(4)[OF I lv that] by auto
  have "wp (drop_ord x (s1\<lparr>e_log := l\<rparr>)) (\<lambda>s'. level_step inc lv f P s s' i' xs \<and> tail_same inc xs s s' \<and> e_trades s' = e_trades sk)" for l
  proof -
    from dr obtain s' where d: "drop_ord x (s1\<lparr>e_log := l\<rparr>) = Some s'" and I': "cpp_inv s' (f(lv := xs)) P {lv} {}"
      and e: "env sk s'" "\<forall>sd. side_map sd s' = side_map sd sk" and h: "h_orders s' = (h_orders s1)(x := None)" by (auto elim!: wpE)
    have "same_ids sk s1" by (rule same_ids_core) (use c in blast)
    then have "same_ids sk s'" by (auto simp: same_ids_def h ord_def)
    then have ids: "same_ids s s'" using nd same_ids_trans by (auto simp: new_data_def)
    have bs: "books_same s s'" using nd books_same_trans books_same_env[OF e] by (auto simp: new_data_def)
    have "core (ord s' y) = core (ord s y)" if y: "y \<in> set xs" for y
    proof -
      have "y \<noteq> x" "h_orders sk y \<noteq> None" using nt(2) y live[of y] x by auto
      then have "core (ord s' y) = core (ord sk y)" using c[rule_format, of y] by (auto simp: h ord_def)
      then show ?thesis using nt(3) y by (simp add: tail_same_def)
    qed
    then have "tail_same inc xs s s'" by (simp add: tail_same_def)
    moreover have "level_step inc lv f P s s' i' xs"
      unfolding level_step_def using I' ids bs nd x out nt(1) by (auto simp: new_data_def h)
    ultimately show ?thesis using d e(1) by (simp add: env_def)
  qed
  moreover have "h_orders s1 inc = Some i'" using out nt(1) nd by (simp add: new_data_def)
  moreover have "map_option core (h_orders s1 x) = Some (core r')" using c[rule_format, of x] live[of x] x r by (auto simp: ord_def)
  ultimately show ?thesis using run ho by simp
qed

section \<open>Trading with the first order\<close>

definition tot :: "CppEngine \<Rightarrow> CppOrder \<Rightarrow> oaddr list \<Rightarrow> int" where
  "tot s i xs = (\<Sum>y \<leftarrow> xs. offer s i y)"

lemma tot_simps [simp]: "tot s i [] = 0" "tot s i (x # xs) = offer s i x + tot s i xs" "tot s i (xs @ ys) = tot s i xs + tot s i ys"
  by (simp_all add: tot_def)

lemma offer_core: "core (ord s' y) = core (ord s y) \<Longrightarrow> offer s' i y = offer s i y"
  by (simp add: offer_def stpConflict_def core_sel[of "ord s' y" "ord s y"])

lemma tot_tail: "tail_same inc xs s s' \<Longrightarrow> tot s' i xs = tot s i xs"
  unfolding tot_def tail_same_def by (intro arg_cong[of _ _ sum_list] map_cong refl offer_core) blast

lemma tot_nonneg: "(\<And>y. y \<in> set xs \<Longrightarrow> 0 \<le> co_visible (ord s y)) \<Longrightarrow> 0 \<le> tot s i xs"
  unfolding tot_def by (intro sum_list_nonneg) (auto intro: offer_nonneg)

lemma offer_notify [simp]: "offer (notify ev s) i y = offer s i y"
proof -
  have "ord (notify ev s) = ord s" by (rule ord_same) (simp add: notify_def)
  then show ?thesis by (simp add: offer_def)
qed

lemma tot_notify [simp]: "tot (notify ev s) i xs = tot s i xs"
  by (simp add: tot_def)

lemma sub64_some: "0 \<le> b \<Longrightarrow> b \<le> a \<Longrightarrow> a \<le> cpp_max_qty \<Longrightarrow> sub64 a b = Some (a - b)"
  by (simp add: sub64_def in64_def cpp_max_qty_def)

lemma set_status_some: "h_orders s x = Some r \<Longrightarrow> set_status st x s = Some (s\<lparr>h_orders := (h_orders s)(x \<mapsto> r\<lparr>co_status := st\<rparr>)\<rparr>)"
  by (simp add: set_status_def upd_ord_some)

lemma fill_rest_run:
  assumes i: "h_orders s inc = Some i" and r: "h_orders s x = Some r" and ne: "inc \<noteq> x"
    and k: "min (co_rem i) (co_visible r) = k" "0 < k"
    and sb: "sub64 (co_rem i) k = Some n" "sub64 (co_visible r) k = Some v" "sub64 (co_rem r) k = Some m"
    and s1: "s1 = s\<lparr>e_trades := e_trades s @ [\<lparr>ct_id = e_tid s, ct_price = co_price r, ct_qty = k, ct_aggressor = co_id i,
      ct_passive = co_id r, ct_side = co_side i, ct_time = e_now s\<rparr>], e_tid := e_tid s + 1,
      h_orders := (h_orders s)(inc \<mapsto> i\<lparr>co_rem := n\<rparr>, x \<mapsto> r\<lparr>co_visible := v, co_rem := m\<rparr>)\<rparr>"
  shows "fill_rest inc lv x s =
    (if v = 0 \<and> m > 0 \<and> co_display r > 0
     then do {
       s \<leftarrow> lvl_remove lv x (s1\<lparr>e_now := e_now s + 1, h_orders := (h_orders s1)
         (x \<mapsto> r\<lparr>co_rem := m, co_visible := min (co_display r) m, co_timestamp := e_now s + 1\<rparr>)\<rparr>);
       pushBack lv x s
     }
     else if m = 0
     then do {
       s \<leftarrow> lvl_remove lv x (s1\<lparr>h_orders := (h_orders s1)(x \<mapsto> r\<lparr>co_visible := v, co_rem := m, co_status := FILLED\<rparr>)\<rparr>);
       drop_ord x s
     }
     else Some (s1\<lparr>h_orders := (h_orders s1)(x \<mapsto> r\<lparr>co_visible := v, co_rem := m, co_status := PARTIALLY_FILLED\<rparr>)\<rparr>))"
proof -
  have "0 < co_rem i" "0 < co_visible r" using k by auto
  then show ?thesis using i r ne k sb by (simp add: fill_rest_def upd_ord_def Let_def s1 set_status_def tick_def)
qed

lemma fill_wp:
  assumes I: "cpp_inv s f P {lv} {}" and inc: "inc \<in> P" "h_orders s inc = Some i" and lv: "(p, lv) \<in> set (side_map c s)"
    and x: "f lv = x # xs" and q: "0 < co_rem i" "co_rem i \<le> cpp_max_qty" and nc: "\<not> stpConflict i (ord s x)"
  shows "wp (fill_rest inc lv x s) (\<lambda>s'. \<exists>xs' t. 0 < ct_qty t \<and> ct_qty t \<le> co_rem i \<and>
    level_step inc lv f P s s' (i\<lparr>co_rem := co_rem i - ct_qty t\<rparr>) xs' \<and> tot s i (f lv) - ct_qty t \<le> tot s' i xs' \<and>
    e_trades s' = e_trades s @ [t] \<and> ct_price t = p \<and> ct_aggressor t = co_id i \<and> ct_side t = co_side i \<and>
    ct_passive t = co_id (ord s x) \<and> ct_qty t = min (co_rem i) (co_visible (ord s x)) \<and>
    view s' xs' = after_fill (ct_qty t) (view s (f lv)))"
proof -
  obtain r where r: "h_orders s x = Some r" using inv_level(4)[OF I lv, of x] x by auto
  have or: "ord s x = r" using r by (simp add: ord_def)
  have ok: "rest_ok c p r" using inv_level(5)[OF I lv, of x] x or by simp
  then have b: "0 < co_rem r" "co_rem r \<le> cpp_max_qty" "0 < co_visible r" "co_visible r \<le> co_rem r" "co_display r = 0 \<Longrightarrow> co_visible r = co_rem r"
    "co_price r = p" "0 < p" "0 \<le> co_display r" by (simp_all add: rest_ok_def base_ok_def)
  define k where k': "k = min (co_rem i) (co_visible r)"
  note k = k'[symmetric]
  let ?t = "\<lparr>ct_id = e_tid s, ct_price = co_price r, ct_qty = k, ct_aggressor = co_id i, ct_passive = co_id r,
    ct_side = co_side i, ct_time = e_now s\<rparr>"
  let ?i = "i\<lparr>co_rem := co_rem i - k\<rparr>"
  let ?r = "r\<lparr>co_visible := co_visible r - k, co_rem := co_rem r - k\<rparr>"
  have n: "0 < k" "k \<le> co_rem i" "k \<le> co_visible r" "k \<le> co_rem r" using q b by (auto simp: k')
  have ne: "inc \<noteq> x" using inv_apart(1)[OF I lv, of x] inc(1) x(1) by auto
  have sb: "sub64 (co_rem i) k = Some (co_rem i - k)" "sub64 (co_visible r) k = Some (co_visible r - k)"
    "sub64 (co_rem r) k = Some (co_rem r - k)" using n b q by (auto intro!: sub64_some)
  have tr: "trades_ok s" using inv_parts(11)[OF I] .
  define s1 where "s1 = s\<lparr>e_trades := e_trades s @ [?t], e_tid := e_tid s + 1, h_orders := (h_orders s)(inc \<mapsto> ?i, x \<mapsto> ?r)\<rparr>"
  note run = fill_rest_run[OF inc(2) r ne k n(1) sb s1_def, of lv]
  have off: "offer s i x = co_visible r" using nc or by (simp add: offer_def)
  let ?goal = "\<lambda>s'. \<exists>xs' t. 0 < ct_qty t \<and> ct_qty t \<le> co_rem i \<and>
    level_step inc lv f P s s' (i\<lparr>co_rem := co_rem i - ct_qty t\<rparr>) xs' \<and> tot s i (f lv) - ct_qty t \<le> tot s' i xs' \<and>
    e_trades s' = e_trades s @ [t] \<and> ct_price t = p \<and> ct_aggressor t = co_id i \<and> ct_side t = co_side i \<and>
    ct_passive t = co_id (ord s x) \<and> ct_qty t = min (co_rem i) (co_visible (ord s x)) \<and>
    view s' xs' = after_fill (ct_qty t) (view s (f lv))"
  have goalI: "?goal s'" if "level_step inc lv f P s s' ?i xs'" "tot s i (f lv) - k \<le> tot s' i xs'" "e_trades s' = e_trades s @ [?t]"
    "view s' xs' = after_fill k (view s (f lv))" for s' xs'
    using that n b or by (intro exI[of _ xs'] exI[of _ ?t]) (simp add: k')
  consider (again) "co_visible r - k = 0 \<and> co_rem r - k > 0 \<and> co_display r > 0"
    | (gone) "co_rem r - k = 0" | (part) "co_rem r - k \<noteq> 0" "\<not> (co_visible r - k = 0 \<and> co_rem r - k > 0 \<and> co_display r > 0)" by linarith
  then show ?thesis
  proof cases
    case again
    let ?v = "min (co_display r) (co_rem r - k)"
    let ?r2 = "?r\<lparr>co_visible := ?v, co_timestamp := e_now s + 1\<rparr>"
    let ?s2 = "s1\<lparr>e_now := e_now s + 1, h_orders := (h_orders s)(inc \<mapsto> ?i, x \<mapsto> ?r2)\<rparr>"
    have nd: "new_data inc x lv f P c p s ?s2 ?i ?r2"
      by (rule new_dataI[OF I inc lv x r]) (use tr b n in \<open>simp_all add: s1_def trades_ok_def lnk_def\<close>)
    have ok2: "rest_ok c p ?r2" using ok again by (simp add: rest_ok_def base_ok_def)
    have "fill_rest inc lv x s = do { s \<leftarrow> lvl_remove lv x ?s2; pushBack lv x s }"
      using again unfolding run by (simp add: s1_def)
    moreover have "?goal s'" if st: "level_step inc lv f P s s' ?i (xs @ [x])" "tail_same inc xs s s'" "core (ord s' x) = core ?r2"
      "e_trades s' = e_trades ?s2" for s'
    proof (rule goalI[OF st(1)])
      have "offer s' i x = ?v" using nc or core_sel[OF st(3)] by (auto simp: offer_def stpConflict_def)
      then show "tot s i (f lv) - k \<le> tot s' i (xs @ [x])" using tot_tail[OF st(2)] off again b x by simp
      have "shape (ord s' x) = shape ?r2" by (rule shape_core) (rule st(3))
      then show "view s' (xs @ [x]) = after_fill k (view s (f lv))" using tail_view[OF st(2)] again x or by (simp add: rem_visible_swap)
    qed (use st(4) in \<open>simp add: s1_def\<close>)
    ultimately show ?thesis using step_requeue[OF nd x ok2] by (auto elim!: wp_mono)
  next
    case gone
    let ?r2 = "?r\<lparr>co_status := FILLED\<rparr>"
    let ?s2 = "s1\<lparr>h_orders := (h_orders s)(inc \<mapsto> ?i, x \<mapsto> ?r2)\<rparr>"
    have nd: "new_data inc x lv f P c p s ?s2 ?i ?r2"
      by (rule new_dataI[OF I inc lv x r]) (use tr b n in \<open>simp_all add: s1_def trades_ok_def lnk_def\<close>)
    have go: "fill_rest inc lv x s = do { s \<leftarrow> lvl_remove lv x ?s2; drop_ord x s }"
      using gone unfolding run by (simp add: s1_def)
    have "?goal s'" if st: "level_step inc lv f P s s' ?i xs" "tail_same inc xs s s'" "e_trades s' = e_trades ?s2" for s'
    proof (rule goalI[OF st(1)])
      show "tot s i (f lv) - k \<le> tot s' i xs" using tot_tail[OF st(2)] off gone b x by simp
      show "view s' xs = after_fill k (view s (f lv))" using tail_view[OF st(2)] gone x or by simp
    qed (use st(3) in \<open>simp add: s1_def\<close>)
    note goal = this
    from step_take[OF nd x] obtain s3 where 3: "lvl_remove lv x ?s2 = Some s3"
      and dr: "\<forall>l. wp (drop_ord x (s3\<lparr>e_log := l\<rparr>)) (\<lambda>s'. level_step inc lv f P s s' ?i xs \<and> tail_same inc xs s s' \<and>
        e_trades s' = e_trades ?s2)" by (auto elim!: wpE)
    have "wp (drop_ord x (s3\<lparr>e_log := e_log s3\<rparr>)) ?goal" by (rule wp_mono[OF spec[OF dr]]) (elim conjE, rule goal)
    then show ?thesis unfolding go by (simp add: 3)
  next
    case part
    let ?r2 = "?r\<lparr>co_status := PARTIALLY_FILLED\<rparr>"
    let ?s2 = "s1\<lparr>h_orders := (h_orders s)(inc \<mapsto> ?i, x \<mapsto> ?r2)\<rparr>"
    have nd: "new_data inc x lv f P c p s ?s2 ?i ?r2"
      by (rule new_dataI[OF I inc lv x r]) (use tr b n in \<open>simp_all add: s1_def trades_ok_def lnk_def\<close>)
    have vis: "0 < co_visible r - k"
    proof (rule ccontr)
      assume "\<not> 0 < co_visible r - k"
      then have z: "co_visible r = k" using n(3) by linarith
      then have "co_display r = 0" using part n(4) b(8) by linarith
      then show False using b(5) z part(1) by linarith
    qed
    moreover have "0 < co_rem r - k" using part(1) n(4) by linarith
    ultimately have ok2: "rest_ok c p ?r2" using ok n(1) by (simp add: rest_ok_def base_ok_def del: min_less_iff_conj)
    have go: "fill_rest inc lv x s = Some ?s2"
      using part(1) vis unfolding run by (simp add: s1_def)
    have "?goal ?s2"
    proof (rule goalI[OF step_keep[OF nd x ok2]])
      have "offer ?s2 i x = co_visible r - k" using nc or by (auto simp: offer_def ord_def stpConflict_def)
      then show "tot s i (f lv) - k \<le> tot ?s2 i (x # xs)" using tot_tail[OF new_data_tail(3)[OF nd x]] off x by simp
      have "shape (ord ?s2 x) = shape ?r2" by (simp add: ord_def)
      then show "view ?s2 (x # xs) = after_fill k (view s (f lv))"
        using tail_view[OF new_data_tail(3)[OF nd x]] part(1) vis x or by simp
    qed (simp add: s1_def)
    then show ?thesis unfolding go by simp
  qed
qed

section \<open>Self-trade prevention\<close>

text \<open>What the policies promise: the incoming order is cancelled, or there is less of it or of the level.\<close>

definition stp_step ::
  "oaddr \<Rightarrow> laddr \<Rightarrow> (laddr \<Rightarrow> oaddr list) \<Rightarrow> oaddr set \<Rightarrow> CppEngine \<Rightarrow> CppOrder \<Rightarrow> CppEngine \<Rightarrow> CppOrder \<Rightarrow> oaddr list \<Rightarrow> bool" where
  "stp_step inc lv f P s i s' i' xs' \<longleftrightarrow> level_step inc lv f P s s' i' xs' \<and> terms i' = terms i \<and>
     meet_own (shape i) (view s (f lv)) = (shape i', view s' xs') \<and>
     tot s' i xs' = tot s i (f lv) \<and> e_trades s' = e_trades s \<and> 0 \<le> co_rem i' \<and> co_rem i' \<le> co_rem i \<and>
     (co_stp i \<noteq> DECREMENT \<longrightarrow> co_rem i' = co_rem i) \<and>
     (co_status i' = CANCELLED \<or> co_status i' = co_status i \<and> 0 < co_rem i' \<and> (co_rem i' < co_rem i \<or> length xs' < length (f lv)))"

lemma fresh_status: "(if b then w\<lparr>co_status := st\<rparr> else w) = w\<lparr>co_status := (if b then st else co_status w)\<rparr>"
  by simp

lemma stp_cancel_wp:
  assumes I: "cpp_inv s f P {lv} {}" and inc: "inc \<in> P" "h_orders s inc = Some i" and lv: "(p, lv) \<in> set (side_map c s)"
    and x: "f lv = x # xs" and q: "0 < co_rem i" and cf: "stpConflict i (ord s x)" and pol: "co_stp i \<noteq> NONE" "co_stp i \<noteq> DECREMENT"
  shows "wp (handleStp inc x s) (\<lambda>s'. \<exists>i' xs'. stp_step inc lv f P s i s' i' xs')"
proof -
  obtain r where r: "h_orders s x = Some r" and rl: "co_level r = Some lv" using inv_level(4)[OF I lv, of x] x by auto
  have or: "ord s x = r" using r by (simp add: ord_def)
  have ok: "rest_ok c p r" using inv_level(5)[OF I lv, of x] x or by simp
  have ne: "inc \<noteq> x" using inv_apart(1)[OF I lv, of x] inc(1) x(1) by auto
  have tr: "trades_ok s" using inv_parts(11)[OF I] .
  have off: "offer s i x = 0" using cf by (simp add: offer_def)
  let ?ic = "i\<lparr>co_status := CANCELLED\<rparr>" and ?rc = "r\<lparr>co_status := CANCELLED\<rparr>"
  show ?thesis
  proof (cases "co_stp i")
    case CANCEL_NEWEST
    let ?s1 = "s\<lparr>h_orders := (h_orders s)(inc \<mapsto> ?ic)\<rparr>"
    have nd: "new_data inc x lv f P c p s ?s1 ?ic r"
      by (rule new_dataI[OF I inc lv x r]) (use tr ne r in \<open>auto simp: trades_ok_def lnk_def\<close>)
    have st: "level_step inc lv f P s ?s1 ?ic (x # xs)" using step_keep[OF nd x ok] .
    let ?s2 = "notify (onOrderCancelled ?ic ''STP_CANCEL_NEWEST'') ?s1"
    have "level_step inc lv f P s ?s2 ?ic (x # xs)"
      using st by (auto simp: level_step_def notify_def same_ids_def books_same_def ord_def)
    moreover have "offer ?s1 i x = 0" using cf ne r or by (simp add: offer_def ord_def)
    then have "tot ?s2 i (x # xs) = tot s i (f lv)" using tot_tail[OF new_data_tail(3)[OF nd x]] off x by simp
    moreover have "ord ?s1 x = r" using ne r by (simp add: ord_def)
    then have "view ?s1 (x # xs) = view s (x # xs)" using tail_view[OF new_data_tail(3)[OF nd x]] or by simp
    then have "view ?s2 (x # xs) = view s (x # xs)" unfolding view_notify .
    then have "meet_own (shape i) (view s (f lv)) = (shape ?ic, view ?s2 (x # xs))" using x CANCEL_NEWEST by simp
    ultimately have "stp_step inc lv f P s i ?s2 ?ic (x # xs)" using q by (simp add: stp_step_def notify_def)
    moreover have "handleStp inc x s = Some ?s2"
      by (simp add: handleStp_def inc(2) CANCEL_NEWEST cancel_ord_def set_status_some notify_ord_def)
    ultimately show ?thesis by auto
  next
    case CANCEL_OLDEST
    let ?s1 = "s\<lparr>h_orders := (h_orders s)(x \<mapsto> ?rc)\<rparr>"
    have nd: "new_data inc x lv f P c p s ?s1 i ?rc"
      by (rule new_dataI[OF I inc lv x r]) (use tr ne inc in \<open>auto simp: trades_ok_def lnk_def\<close>)
    from step_take[OF nd x] obtain s1 where 1: "lvl_remove lv x ?s1 = Some s1" and x1: "map_option core (h_orders s1 x) = Some (core ?rc)"
      and dr: "\<forall>l. wp (drop_ord x (s1\<lparr>e_log := l\<rparr>)) (\<lambda>s'. level_step inc lv f P s s' i xs \<and> tail_same inc xs s s' \<and> e_trades s' = e_trades ?s1)"
      by (auto elim!: wpE)
    obtain r1 where r1: "h_orders s1 x = Some r1" using x1 by auto
    have "stp_step inc lv f P s i s' i xs" if "level_step inc lv f P s s' i xs" "tail_same inc xs s s'" "e_trades s' = e_trades ?s1" for s'
      using that tot_tail[OF that(2)] tail_view[OF that(2)] off x q CANCEL_OLDEST by (simp add: stp_step_def)
    then have "wp (drop_ord x (notify (onOrderCancelled r1 ''STP_CANCEL_OLDEST'') s1)) (\<lambda>s'. \<exists>i' xs'. stp_step inc lv f P s i s' i' xs')"
      unfolding notify_def using dr by (blast intro: wp_mono)
    then show ?thesis
      by (simp add: handleStp_def inc(2) CANCEL_OLDEST set_status_some[OF r] unlink_def rl 1 notify_ord_def r1)
  next
    case CANCEL_BOTH
    let ?s1 = "s\<lparr>h_orders := (h_orders s)(inc \<mapsto> ?ic, x \<mapsto> ?rc)\<rparr>"
    have nd: "new_data inc x lv f P c p s ?s1 ?ic ?rc"
      by (rule new_dataI[OF I inc lv x r]) (use tr ne inc in \<open>auto simp: trades_ok_def lnk_def\<close>)
    from step_take[OF nd x] obtain s1 where 1: "lvl_remove lv x ?s1 = Some s1" and x1: "map_option core (h_orders s1 x) = Some (core ?rc)"
      and i1: "h_orders s1 inc = Some ?ic"
      and dr: "\<forall>l. wp (drop_ord x (s1\<lparr>e_log := l\<rparr>)) (\<lambda>s'. level_step inc lv f P s s' ?ic xs \<and> tail_same inc xs s s' \<and> e_trades s' = e_trades ?s1)"
      by (auto elim!: wpE)
    obtain r1 where r1: "h_orders s1 x = Some r1" using x1 by auto
    have "stp_step inc lv f P s i s' ?ic xs" if "level_step inc lv f P s s' ?ic xs" "tail_same inc xs s s'" "e_trades s' = e_trades ?s1" for s'
      using that tot_tail[OF that(2)] tail_view[OF that(2)] off x q CANCEL_BOTH by (simp add: stp_step_def)
    then have "wp (drop_ord x (s1\<lparr>e_log := l\<rparr>)) (\<lambda>s'. \<exists>i' xs'. stp_step inc lv f P s i s' i' xs')" for l
      using dr by (blast intro: wp_mono)
    then show ?thesis
      using r ne by (simp add: handleStp_def inc(2) CANCEL_BOTH set_status_some unlink_def rl 1 notify_ord_def r1 i1 notify_def)
  qed (use pol in simp_all)
qed

text \<open>Decrementing both orders by the smaller of what they show.\<close>

lemma decrement_run:
  assumes i: "h_orders s inc = Some i" and r: "h_orders s x = Some r" "co_level r = Some lv" and ne: "inc \<noteq> x"
    and k: "min (co_rem i) (co_visible r) = k"
    and sb: "sub64 (co_rem i) k = Some n" "sub64 (co_visible r) k = Some v" "sub64 (co_rem r) k = Some m"
    and i': "i' = i\<lparr>co_rem := n, co_visible := fresh_visible (i\<lparr>co_rem := n\<rparr>), co_status := (if n = 0 then CANCELLED else co_status i)\<rparr>"
    and r': "r' = r\<lparr>co_rem := m, co_visible := v, co_status := (if m = 0 then CANCELLED else co_status r)\<rparr>"
    and s1: "s1 = notify (onOrderDecremented i' r' k) (s\<lparr>h_orders := (h_orders s)(inc \<mapsto> i', x \<mapsto> r')\<rparr>)"
  shows "stp_decrement inc x s =
    (if m = 0 then do { s \<leftarrow> lvl_remove lv x s1; drop_ord x s }
     else if v = 0 \<and> co_display r > 0
     then do {
       s \<leftarrow> lvl_remove lv x (s1\<lparr>e_now := e_now s + 1, h_orders := (h_orders s1)
         (x \<mapsto> r'\<lparr>co_visible := min (co_display r) m, co_timestamp := e_now s + 1\<rparr>)\<rparr>);
       pushBack lv x s
     }
     else Some s1)"
proof -
  have e: "fresh_visible (i\<lparr>co_rem := n\<rparr>) = fresh_visible (i\<lparr>co_rem := n, co_visible := w\<rparr>)" for w by (simp add: fresh_visible_def)
  have "stp_decrement inc x s =
    (if co_rem r' = 0 then do { s \<leftarrow> unlink x s1; drop_ord x s }
     else if co_visible r' = 0 \<and> co_display r' > 0 then do {
       let (t, s) = tick s1;
       s \<leftarrow> upd_ord x (\<lambda>w. w\<lparr>co_visible := min (co_display w) (co_rem w), co_timestamp := t\<rparr>) s;
       lv \<leftarrow> co_level r';
       s \<leftarrow> lvl_remove lv x s;
       pushBack lv x s
     }
     else Some s1)"
    using i r ne k sb unfolding i' r' s1
    by (cases "n = 0"; cases "m = 0"; simp add: stp_decrement_def upd_ord_def Let_def e)
  then show ?thesis
    using ne r(2) by (simp add: r' s1 unlink_def tick_def upd_ord_def notify_def)
qed

lemma stp_decrement_wp:
  assumes I: "cpp_inv s f P {lv} {}" and inc: "inc \<in> P" "h_orders s inc = Some i" and lv: "(p, lv) \<in> set (side_map c s)"
    and x: "f lv = x # xs" and q: "0 < co_rem i" "co_rem i \<le> cpp_max_qty" and cf: "stpConflict i (ord s x)" and pol: "co_stp i = DECREMENT"
  shows "wp (handleStp inc x s) (\<lambda>s'. \<exists>i' xs'. stp_step inc lv f P s i s' i' xs')"
proof -
  obtain r where r: "h_orders s x = Some r" and rl: "co_level r = Some lv" using inv_level(4)[OF I lv, of x] x by auto
  have or: "ord s x = r" using r by (simp add: ord_def)
  have ok: "rest_ok c p r" using inv_level(5)[OF I lv, of x] x or by simp
  then have b: "0 < co_rem r" "co_rem r \<le> cpp_max_qty" "0 < co_visible r" "co_visible r \<le> co_rem r" "co_display r = 0 \<Longrightarrow> co_visible r = co_rem r"
    "0 \<le> co_display r" by (simp_all add: rest_ok_def base_ok_def)
  have ne: "inc \<noteq> x" using inv_apart(1)[OF I lv, of x] inc(1) x(1) by auto
  have tr: "trades_ok s" using inv_parts(11)[OF I] .
  define k where k': "k = min (co_rem i) (co_visible r)"
  note k = k'[symmetric]
  have n: "0 < k" "k \<le> co_rem i" "k \<le> co_visible r" "k \<le> co_rem r" using q b by (auto simp: k')
  have sb: "sub64 (co_rem i) k = Some (co_rem i - k)" "sub64 (co_visible r) k = Some (co_visible r - k)"
    "sub64 (co_rem r) k = Some (co_rem r - k)" using n b q by (auto intro!: sub64_some)
  define i' where "i' = i\<lparr>co_rem := co_rem i - k, co_visible := fresh_visible (i\<lparr>co_rem := co_rem i - k\<rparr>),
    co_status := (if co_rem i - k = 0 then CANCELLED else co_status i)\<rparr>"
  define r' where "r' = r\<lparr>co_rem := co_rem r - k, co_visible := co_visible r - k,
    co_status := (if co_rem r - k = 0 then CANCELLED else co_status r)\<rparr>"
  define s1 where "s1 = notify (onOrderDecremented i' r' k) (s\<lparr>h_orders := (h_orders s)(inc \<mapsto> i', x \<mapsto> r')\<rparr>)"
  note run = decrement_run[OF inc(2) r rl ne k sb i'_def r'_def s1_def]
  have hs: "handleStp inc x s = stp_decrement inc x s" by (simp add: handleStp_def inc(2) pol)
  have off: "offer s i x = 0" using cf by (simp add: offer_def)
  have noff: "offer s' i x = 0" if "co_stg (ord s' x) = co_stg r" for s' :: CppEngine
    using cf or that by (simp add: offer_def stpConflict_def)
  have mo: "meet_own (shape i) (view s (f lv)) = (shape i', after_decrement k (shape r # view s xs))"
    using x or by (simp add: pol i'_def Let_def k fresh_visible_def)
  have stepI: "stp_step inc lv f P s i s' i' xs'"
    if "level_step inc lv f P s s' i' xs'" "tot s' i xs' = tot s i (f lv)" "e_trades s' = e_trades s"
      "view s' xs' = after_decrement k (shape r # view s xs)" for s' xs'
    unfolding stp_step_def mo that(4) using that(1-3) n q(1) by (simp add: i'_def pol)
  consider (gone) "co_rem r - k = 0" | (again) "co_rem r - k \<noteq> 0" "co_visible r - k = 0 \<and> co_display r > 0"
    | (part) "co_rem r - k \<noteq> 0" "\<not> (co_visible r - k = 0 \<and> co_display r > 0)" by blast
  then show ?thesis
  proof cases
    case gone
    have nd: "new_data inc x lv f P c p s s1 i' r'"
      by (rule new_dataI[OF I inc lv x r]) (use tr in \<open>simp_all add: s1_def notify_def trades_ok_def lnk_def i'_def r'_def\<close>)
    from step_take[OF nd x] obtain s3 where 3: "lvl_remove lv x s1 = Some s3"
      and dr: "\<forall>l. wp (drop_ord x (s3\<lparr>e_log := l\<rparr>)) (\<lambda>s'. level_step inc lv f P s s' i' xs \<and> tail_same inc xs s s' \<and>
        e_trades s' = e_trades s1)" by (auto elim!: wpE)
    have fin: "stp_step inc lv f P s i s' i' xs" if "level_step inc lv f P s s' i' xs" "tail_same inc xs s s'" "e_trades s' = e_trades s1" for s'
      using that tot_tail[OF that(2)] tail_view[OF that(2)] off x gone by (intro stepI) (simp_all add: s1_def notify_def)
    have "wp (drop_ord x (s3\<lparr>e_log := e_log s3\<rparr>)) (\<lambda>s'. \<exists>i' xs'. stp_step inc lv f P s i s' i' xs')"
      by (rule wp_mono[OF spec[OF dr]]) (blast intro: fin)
    then show ?thesis using gone 3 by (simp add: hs run)
  next
    case again
    let ?r2 = "r'\<lparr>co_visible := min (co_display r) (co_rem r - k), co_timestamp := e_now s + 1\<rparr>"
    let ?s2 = "s1\<lparr>e_now := e_now s + 1, h_orders := (h_orders s1)(x \<mapsto> ?r2)\<rparr>"
    have nd: "new_data inc x lv f P c p s ?s2 i' ?r2"
      by (rule new_dataI[OF I inc lv x r]) (use tr in \<open>simp_all add: s1_def notify_def trades_ok_def lnk_def i'_def r'_def\<close>)
    have ok2: "rest_ok c p ?r2" using ok again n by (auto simp: rest_ok_def base_ok_def r'_def)
    have fin: "stp_step inc lv f P s i s' i' (xs @ [x])" if st: "level_step inc lv f P s s' i' (xs @ [x])" "tail_same inc xs s s'"
      "core (ord s' x) = core ?r2" "e_trades s' = e_trades ?s2" for s'
      using st tot_tail[OF st(2)] tail_view[OF st(2)] shape_core[OF st(3)] off noff[of s'] core_sel(16)[OF st(3)] x again
      by (intro stepI) (simp_all add: s1_def notify_def r'_def)
    have "wp (do { s \<leftarrow> lvl_remove lv x ?s2; pushBack lv x s }) (\<lambda>s'. \<exists>i' xs'. stp_step inc lv f P s i s' i' xs')"
      by (rule wp_mono[OF step_requeue[OF nd x ok2]]) (blast intro: fin)
    then show ?thesis using again by (simp add: hs run)
  next
    case part
    have nd: "new_data inc x lv f P c p s s1 i' r'"
      by (rule new_dataI[OF I inc lv x r]) (use tr in \<open>simp_all add: s1_def notify_def trades_ok_def lnk_def i'_def r'_def\<close>)
    have vis: "0 < co_visible r - k"
    proof (rule ccontr)
      assume "\<not> 0 < co_visible r - k"
      then have z: "co_visible r = k" using n(3) by linarith
      then have "co_display r = 0" using part b(6) by linarith
      then show False using b(5) z part(1) by linarith
    qed
    then have ok2: "rest_ok c p r'" using ok n part by (auto simp: rest_ok_def base_ok_def r'_def)
    have "tot s1 i (x # xs) = tot s i (f lv)"
      using tot_tail[OF new_data_tail(3)[OF nd x]] off noff[of s1] nd x by (simp add: new_data_def r'_def)
    moreover have "view s1 (x # xs) = after_decrement k (shape r # view s xs)"
      using tail_view[OF new_data_tail(3)[OF nd x]] nd part(1) vis by (simp add: new_data_def r'_def)
    ultimately have "stp_step inc lv f P s i s1 i' (x # xs)"
      by (intro stepI step_keep[OF nd x ok2]) (simp_all add: s1_def notify_def)
    then show ?thesis using part by (auto simp: hs run)
  qed
qed

lemma stp_wp:
  assumes "cpp_inv s f P {lv} {}" and "inc \<in> P" "h_orders s inc = Some i" and "(p, lv) \<in> set (side_map c s)"
    and "f lv = x # xs" and "0 < co_rem i" "co_rem i \<le> cpp_max_qty" and "stpConflict i (ord s x)" and "co_stp i \<noteq> NONE"
  shows "wp (handleStp inc x s) (\<lambda>s'. \<exists>i' xs'. stp_step inc lv f P s i s' i' xs')"
proof (cases "co_stp i = DECREMENT")
  case True
  then show ?thesis using stp_decrement_wp[OF assms(1-8)] by blast
next
  case False
  then show ?thesis using stp_cancel_wp[OF assms(1-6,8,9)] by blast
qed

end
