(* ===== verification/Cpp_Loops.thy ===== *)
theory Cpp_Loops
  imports Cpp_Safe
begin

text \<open>
  The two loops of \<^verbatim>\<open>matchAgainst\<close>: they end, and what they leave.
\<close>

section \<open>What matching promises\<close>

text \<open>Outside the opposite book and the incoming order \<open>inc\<close> nothing changes; the book only loses.\<close>

definition mframe :: "oaddr \<Rightarrow> Side \<Rightarrow> oaddr set \<Rightarrow> CppEngine \<Rightarrow> CppEngine \<Rightarrow> bool" where
  "mframe inc c P s s' \<longleftrightarrow> (\<forall>y \<in> P - {inc}. h_orders s' y = h_orders s y) \<and> same_ids s s' \<and> e_stops s' = e_stops s \<and>
     e_poPol s' = e_poPol s \<and> side_map (oppositeSide c) s' = side_map (oppositeSide c) s \<and>
     set (side_map c s') \<subseteq> set (side_map c s)"

lemma mframe_refl [simp]: "mframe inc c P s s" by (simp add: mframe_def)

lemma mframe_trans: "mframe inc c P s s' \<Longrightarrow> mframe inc c P s' s'' \<Longrightarrow> mframe inc c P s s''"
  unfolding mframe_def using same_ids_trans by fastforce

text \<open>The trades of the order \<open>i\<close>, which take it from \<open>a\<close> to \<open>b\<close>.\<close>

definition trades_of :: "CppOrder \<Rightarrow> int \<Rightarrow> int \<Rightarrow> CppTrade list \<Rightarrow> bool" where
  "trades_of i a b ts \<longleftrightarrow>
     (\<forall>t \<in> set ts. 0 < ct_qty t \<and> ct_aggressor t = co_id i \<and> ct_side t = co_side i \<and> canMatch i (ct_price t)) \<and>
     b + (\<Sum>t \<leftarrow> ts. ct_qty t) \<le> a \<and> (co_stp i \<noteq> DECREMENT \<longrightarrow> b + (\<Sum>t \<leftarrow> ts. ct_qty t) = a)"

lemma trades_of_nil [simp]: "trades_of i a a []" by (simp add: trades_of_def)

lemma trades_of_append: "trades_of i a b ts \<Longrightarrow> trades_of i b d us \<Longrightarrow> trades_of i a d (ts @ us)"
  by (auto simp: trades_of_def)

lemma canMatch_terms:
  assumes "terms i' = terms i"
  shows "canMatch i' = canMatch i"
  by (simp add: fun_eq_iff canMatch_def terms_sel(2,5)[OF assms])

lemma trades_of_terms:
  assumes "terms i' = terms i"
  shows "trades_of i' a b ts = trades_of i a b ts"
  by (simp add: trades_of_def canMatch_terms[OF assms] terms_sel(1,2,11)[OF assms])

lemma offer_terms:
  assumes "terms i' = terms i"
  shows "offer s i' x = offer s i x"
  by (simp add: offer_def stpConflict_def terms_sel(10)[OF assms])

lemma tot_same:
  assumes "h_orders s' = h_orders s"
  shows "tot s' i xs = tot s i xs"
  by (simp only: tot_def offer_def ord_same[OF assms])

lemma tot_terms:
  assumes "terms i' = terms i"
  shows "tot s i' xs = tot s i xs"
  by (simp add: tot_def offer_terms[OF assms])

lemma offered_terms:
  assumes "terms i' = terms i"
  shows "offered s i' f m = offered s i f m"
  by (induction m) (auto simp: canMatch_terms[OF assms])

section \<open>The inner loop\<close>

lemma level_step_trans:
  assumes "level_step inc lv f P s s1 i1 xs1" and "level_step inc lv (f(lv := xs1)) P s1 s2 i2 xs2"
  shows "level_step inc lv f P s s2 i2 xs2"
  using assms same_ids_trans books_same_trans unfolding level_step_def by (auto 0 3)

lemma level_step_refl:
  assumes "cpp_inv s f P {lv} {}" and "h_orders s inc = Some i"
  shows "level_step inc lv f P s s i (f lv)"
  using assms by (simp add: level_step_def)

text \<open>The state of the inner loop: the level is \<open>xs\<close>, the incoming order \<open>i\<close>.\<close>

definition in_level ::
  "oaddr \<Rightarrow> laddr \<Rightarrow> (laddr \<Rightarrow> oaddr list) \<Rightarrow> oaddr set \<Rightarrow> CppEngine \<Rightarrow> CppOrder \<Rightarrow> CppEngine \<Rightarrow> CppOrder \<Rightarrow> oaddr list \<Rightarrow> bool" where
  "in_level inc lv f P s0 i0 s i xs \<longleftrightarrow> level_step inc lv f P s0 s i xs \<and> terms i = terms i0 \<and> 0 \<le> co_rem i \<and>
     (\<exists>ts. e_trades s = e_trades s0 @ ts \<and> trades_of i0 (co_rem i0) (co_rem i) ts) \<and>
     co_rem i - tot s i0 xs \<le> co_rem i0 - tot s0 i0 (f lv)"

text \<open>The run is in step with a run of the list functions that ends in \<open>A\<close>; or that run has ended.\<close>

definition tracks :: "(bool \<times> level_state) option \<Rightarrow> CppEngine \<Rightarrow> CppEngine \<Rightarrow> CppOrder \<Rightarrow> oaddr list \<Rightarrow> bool" where
  "tracks A s0 s i xs \<longleftrightarrow> (\<exists>ts. e_trades s = e_trades s0 @ ts \<and>
     loop level_step_spec (shape i, view s xs, map deal_of ts) = A)"

definition ended :: "(bool \<times> level_state) option \<Rightarrow> bool \<Rightarrow> CppEngine \<Rightarrow> CppEngine \<Rightarrow> CppOrder \<Rightarrow> oaddr list \<Rightarrow> bool" where
  "ended A ret s0 s i xs \<longleftrightarrow> (\<exists>ts. e_trades s = e_trades s0 @ ts \<and> A = Some (ret, shape i, view s xs, map deal_of ts))"

lemma level_loop:
  "loop level_step_spec (i, [], ts) = Some (False, i, [], ts)"
  "\<not> co_rem i > 0 \<Longrightarrow> loop level_step_spec (i, q, ts) = Some (False, i, q, ts)"
  "co_rem i > 0 \<Longrightarrow> stpConflict i r \<Longrightarrow> meet_own i (r # rs) = (j, q') \<Longrightarrow>
     loop level_step_spec (i, r # rs, ts) =
       (if co_status j = CANCELLED \<or> co_rem j = 0 then Some (True, j, q', ts) else loop level_step_spec (j, q', ts))"
  "co_rem i > 0 \<Longrightarrow> \<not> stpConflict i r \<Longrightarrow> k = min (co_rem i) (co_visible r) \<Longrightarrow>
     loop level_step_spec (i, r # rs, ts) =
       loop level_step_spec (i\<lparr>co_rem := co_rem i - k\<rparr>, after_fill k (r # rs), ts @ [(co_id r, co_price r, k)])"
proof -
  show "loop level_step_spec (i, [], ts) = Some (False, i, [], ts)"
    by (rule loop_simps(3)) (simp add: level_step_spec_def)
  show "loop level_step_spec (i, q, ts) = Some (False, i, q, ts)" if "\<not> co_rem i > 0"
    by (rule loop_simps(3)) (use that in \<open>simp add: level_step_spec_def split: list.splits\<close>)
  show "loop level_step_spec (i, r # rs, ts) =
       (if co_status j = CANCELLED \<or> co_rem j = 0 then Some (True, j, q', ts) else loop level_step_spec (j, q', ts))"
    if c: "co_rem i > 0" "stpConflict i r" "meet_own i (r # rs) = (j, q')"
  proof (cases "co_status j = CANCELLED \<or> co_rem j = 0")
    case True
    then have "level_step_spec (i, r # rs, ts) = Some (Inr (True, j, q', ts))"
      using c by (simp add: level_step_spec_def del: meet_own.simps)
    from loop_simps(3)[of level_step_spec, OF this] show ?thesis using True by simp
  next
    case False
    then have "level_step_spec (i, r # rs, ts) = Some (Inl (j, q', ts))"
      using c by (simp add: level_step_spec_def del: meet_own.simps)
    from loop_simps(2)[of level_step_spec, OF this] show ?thesis using False by simp
  qed
  show "loop level_step_spec (i, r # rs, ts) =
       loop level_step_spec (i\<lparr>co_rem := co_rem i - k\<rparr>, after_fill k (r # rs), ts @ [(co_id r, co_price r, k)])"
    if c: "co_rem i > 0" "\<not> stpConflict i r" "k = min (co_rem i) (co_visible r)"
  proof -
    have "level_step_spec (i, r # rs, ts) = Some (Inl (i\<lparr>co_rem := co_rem i - k\<rparr>, after_fill k (r # rs), ts @ [(co_id r, co_price r, k)]))"
      using c(1,2) unfolding c(3) by (simp add: level_step_spec_def Let_def del: after_fill.simps)
    from loop_simps(2)[of level_step_spec, OF this] show ?thesis .
  qed
qed

definition inner_post ::
  "(bool \<times> level_state) option \<Rightarrow> oaddr \<Rightarrow> laddr \<Rightarrow> (laddr \<Rightarrow> oaddr list) \<Rightarrow> oaddr set \<Rightarrow> CppEngine \<Rightarrow> CppOrder \<Rightarrow> Side \<Rightarrow> int \<Rightarrow>
   bool \<times> CppEngine \<Rightarrow> bool" where
  "inner_post A inc lv f P s0 i0 c p = (\<lambda>(ret, s'). \<exists>s i xs. in_level inc lv f P s0 i0 s i xs \<and> ended A ret s0 s i xs \<and>
     (if ret then co_status i = CANCELLED \<and> erase_if_empty c p lv s = Some s'
      else s' = s \<and> co_status i = co_status i0 \<and> (xs = [] \<or> co_rem i = 0)))"

lemma erase_if_empty_wp:
  assumes I: "cpp_inv s f P {lv} {}" and lv: "(p, lv) \<in> set (side_map c s)"
  shows "wp (erase_if_empty c p lv s) (\<lambda>s'. cpp_inv s' f P {} {} \<and> h_orders s' = h_orders s \<and> env s s' \<and>
    side_map (oppositeSide c) s' = side_map (oppositeSide c) s \<and>
    side_map c s' = (if f lv = [] then map_erase p (side_map c s) else side_map c s))"
proof -
  have e: "lvl_empty s lv = Some (f lv = [])" using level_list_empty[OF inv_level(1)[OF I lv]] .
  show ?thesis
  proof (cases "f lv = []")
    case True
    then show ?thesis using inv_erase_level[OF I lv True] e by (auto simp: erase_if_empty_def elim!: wp_mono)
  next
    case False
    then show ?thesis using inv_level_clean[OF I False] e by (simp add: erase_if_empty_def)
  qed
qed

lemma in_level_side: "in_level inc lv f P s0 i0 s i xs \<Longrightarrow> side_map sd s = side_map sd s0"
  by (auto simp: in_level_def level_step_def intro: books_same_side)

lemma inner_step:
  assumes st: "in_level inc lv f P s0 i0 s i xs" and inc: "inc \<in> P" and lv: "(p, lv) \<in> set (side_map c s0)"
    and q: "co_rem i0 \<le> cpp_max_qty" and stp: "co_stg i0 = 0 \<longleftrightarrow> co_stp i0 = NONE" and cm: "canMatch i0 p"
    and status: "co_status i = co_status i0" and tk: "tracks A s0 s i xs"
  shows "wp (match_level_step inc c p lv s) (\<lambda>r. case r of
    Inl s' \<Rightarrow> \<exists>i' xs'. in_level inc lv f P s0 i0 s' i' xs' \<and> tracks A s0 s' i' xs' \<and> co_status i' = co_status i0 \<and>
      nat (co_rem i') + length xs' < nat (co_rem i) + length xs
    | Inr x \<Rightarrow> inner_post A inc lv f P s0 i0 c p x)"
proof -
  let ?f = "f(lv := xs)"
  from st have I: "cpp_inv s ?f P {lv} {}" and i: "h_orders s inc = Some i" and t: "terms i = terms i0" and ge: "0 \<le> co_rem i"
    and ls: "level_step inc lv f P s0 s i xs" by (simp_all add: in_level_def level_step_def)
  from st obtain ts where ts: "e_trades s = e_trades s0 @ ts" "trades_of i0 (co_rem i0) (co_rem i) ts"
    and sl: "co_rem i - tot s i0 xs \<le> co_rem i0 - tot s0 i0 (f lv)" by (auto simp: in_level_def)
  have lv1: "(p, lv) \<in> set (side_map c s)" using lv in_level_side[OF st] by simp
  have le: "co_rem i \<le> cpp_max_qty"
  proof -
    have "0 \<le> (\<Sum>t \<leftarrow> ts. ct_qty t)" using ts(2) by (intro sum_list_nonneg) (auto simp: trades_of_def)
    then show ?thesis using ts(2) q by (simp add: trades_of_def)
  qed
  have fr: "front s lv = Some (case xs of [] \<Rightarrow> None | x # _ \<Rightarrow> Some x)" using level_list_front[OF inv_level(1)[OF I lv1]] by simp
  show ?thesis
  proof (cases "xs = [] \<or> \<not> co_rem i > 0")
    case True
    have "ended A False s0 s i xs"
      using tk True level_loop(1)[of "shape i"] level_loop(2)[of "shape i" "view s xs"] by (auto simp: tracks_def ended_def)
    then have "inner_post A inc lv f P s0 i0 c p (False, s)" using True st status ge by (auto simp: inner_post_def)
    then show ?thesis using True fr i by (auto simp: match_level_step_def split: list.splits)
  next
    case False
    then obtain x ys where xs: "xs = x # ys" and pos: "co_rem i > 0" by (cases xs) auto
    have x: "?f lv = x # ys" by (simp add: xs)
    obtain r where r: "h_orders s x = Some r" using inv_level(4)[OF I lv1, of x] x by auto
    then have or: "ord s x = r" by (simp add: ord_def)
    show ?thesis
    proof (cases "stpConflict i r")
      case True
      then have "co_stg i \<noteq> 0" by (simp add: stpConflict_def)
      then have np: "co_stp i \<noteq> NONE" using stp terms_sel[OF t] by simp
      have "stpConflict i (ord s x)" using True or by simp
      from stp_wp[OF I inc i lv1 x pos le this np] obtain s' i' xs' where run: "handleStp inc x s = Some s'"
        and sp: "stp_step inc lv ?f P s i s' i' xs'" by (blast elim!: wpE)
      have i': "h_orders s' inc = Some i'" using sp by (simp add: stp_step_def level_step_def)
      have "trades_of i0 (co_rem i) (co_rem i') []"
        using sp terms_sel[OF t] by (auto simp: stp_step_def trades_of_def)
      from trades_of_append[OF ts(2) this] have tr: "trades_of i0 (co_rem i0) (co_rem i') ts" by simp
      have et: "e_trades s' = e_trades s" and mo: "meet_own (shape i) (shape r # view s ys) = (shape i', view s' xs')"
        using sp x or by (simp_all add: stp_step_def del: meet_own.simps)
      have tr': "A = (if co_status i' = CANCELLED \<or> co_rem i' = 0 then Some (True, shape i', view s' xs', map deal_of ts)
          else loop level_step_spec (shape i', view s' xs', map deal_of ts))"
        using tk ts(1) level_loop(3)[OF _ _ mo] pos True by (simp add: tracks_def xs or)
      have lvl: "in_level inc lv f P s0 i0 s' i' xs'"
        using sp level_step_trans[OF ls, of s' i' xs'] ts(1) tr sl t tot_terms[OF t] by (auto simp: stp_step_def in_level_def)
      show ?thesis
      proof (cases "co_status i' = CANCELLED \<or> co_rem i' = 0")
        case True
        have I': "cpp_inv s' (f(lv := xs')) P {lv} {}" using lvl by (simp add: in_level_def level_step_def)
        have lv': "(p, lv) \<in> set (side_map c s')" using lv in_level_side[OF lvl] by simp
        obtain s'' where e: "erase_if_empty c p lv s' = Some s''" using erase_if_empty_wp[OF I' lv'] by (auto elim: wpE)
        have "co_status i' = CANCELLED" using sp True by (auto simp: stp_step_def)
        moreover have "ended A True s0 s' i' xs'" using tr' True et ts(1) by (simp add: ended_def)
        ultimately have "inner_post A inc lv f P s0 i0 c p (True, s'')" using lvl e by (auto simp: inner_post_def)
        then show ?thesis
          using fr i xs pos r \<open>stpConflict i r\<close> run i' True e by (simp add: match_level_step_def)
      next
        case no: False
        then have "co_status i' = co_status i0" "nat (co_rem i') + length xs' < nat (co_rem i) + length xs"
          using sp status pos by (auto simp: stp_step_def level_step_def)
        moreover have "tracks A s0 s' i' xs'" using tr' no et ts(1) by (simp add: tracks_def)
        ultimately show ?thesis using fr i xs pos r True run i' no lvl by (auto simp: match_level_step_def)
      qed
    next
      case False
      then have "\<not> stpConflict i (ord s x)" using or by simp
      from fill_wp[OF I inc i lv1 x pos le this] obtain s' xs' t' where run: "fill_rest inc lv x s = Some s'"
        and q': "0 < ct_qty t'" "ct_qty t' \<le> co_rem i" and l': "level_step inc lv ?f P s s' (i\<lparr>co_rem := co_rem i - ct_qty t'\<rparr>) xs'"
        and tt: "tot s i (?f lv) - ct_qty t' \<le> tot s' i xs'" and e: "e_trades s' = e_trades s @ [t']" "ct_price t' = p"
          "ct_aggressor t' = co_id i" "ct_side t' = co_side i" "ct_passive t' = co_id (ord s x)"
        and k': "ct_qty t' = min (co_rem i) (co_visible (ord s x))" and v': "view s' xs' = after_fill (ct_qty t') (view s (?f lv))"
        by (blast elim!: wpE)
      let ?i' = "i\<lparr>co_rem := co_rem i - ct_qty t'\<rparr>"
      have "trades_of i0 (co_rem i) (co_rem ?i') [t']" using e q' terms_sel[OF t] cm by (simp add: trades_of_def)
      from trades_of_append[OF ts(2) this] have tr: "trades_of i0 (co_rem i0) (co_rem ?i') (ts @ [t'])" .
      have "in_level inc lv f P s0 i0 s' ?i' xs'"
        unfolding in_level_def using level_step_trans[OF ls l'] ts(1) tr sl t tot_terms[OF t] q' tt e(1)
        by (auto intro: exI[of _ "ts @ [t']"])
      moreover have "tracks A s0 s' ?i' xs'"
      proof -
        have "deal_of t' = (co_id r, co_price r, ct_qty t')" using e or inv_level(5)[OF I lv1, of x] x by (simp add: deal_of_def rest_ok_def)
        then have "loop level_step_spec (shape ?i', view s' xs', map deal_of (ts @ [t'])) = A"
          using tk ts(1) level_loop(4)[of "shape i" "shape r" "ct_qty t'" "view s ys"] pos False k' v' x or
          by (simp add: tracks_def xs del: after_fill.simps)
        then show ?thesis using ts(1) e(1) by (auto simp: tracks_def)
      qed
      moreover have "length xs' \<le> length xs" using l' by (simp add: level_step_def)
      then have "nat (co_rem ?i') + length xs' < nat (co_rem i) + length xs" using q' by simp
      ultimately have "\<exists>i' xs'. in_level inc lv f P s0 i0 s' i' xs' \<and> tracks A s0 s' i' xs' \<and> co_status i' = co_status i0 \<and>
          nat (co_rem i') + length xs' < nat (co_rem i) + length xs" using status by (intro exI[of _ ?i'] exI[of _ xs']) simp
      then show ?thesis using fr i xs pos r False run by (simp add: match_level_step_def)
    qed
  qed
qed

lemma inner_loop_wp:
  assumes I: "cpp_inv s0 f P {lv} {}" and i0: "h_orders s0 inc = Some i0" "0 \<le> co_rem i0" "co_rem i0 \<le> cpp_max_qty"
    and inc: "inc \<in> P" and lv: "(p, lv) \<in> set (side_map c s0)"
    and stp: "co_stg i0 = 0 \<longleftrightarrow> co_stp i0 = NONE" and cm: "canMatch i0 p" and A: "level_spec (shape i0) (view s0 (f lv)) = A"
  shows "wp (loop (match_level_step inc c p lv) s0) (inner_post A inc lv f P s0 i0 c p)"
proof (rule loop_wp[where I = "\<lambda>n s. \<exists>i xs. in_level inc lv f P s0 i0 s i xs \<and> tracks A s0 s i xs \<and> co_status i = co_status i0 \<and> n = nat (co_rem i) + length xs"])
  have "in_level inc lv f P s0 i0 s0 i0 (f lv)" using level_step_refl[OF I i0(1)] i0 by (auto simp: in_level_def)
  moreover have "tracks A s0 s0 i0 (f lv)" using A by (simp add: tracks_def level_spec_def)
  ultimately show "\<exists>i xs. in_level inc lv f P s0 i0 s0 i xs \<and> tracks A s0 s0 i xs \<and> co_status i = co_status i0 \<and> nat (co_rem i0) + length (f lv) = nat (co_rem i) + length xs"
    by blast
next
  fix n s assume "\<exists>i xs. in_level inc lv f P s0 i0 s i xs \<and> tracks A s0 s i xs \<and> co_status i = co_status i0 \<and> n = nat (co_rem i) + length xs"
  then obtain i xs where st: "in_level inc lv f P s0 i0 s i xs" "co_status i = co_status i0" "n = nat (co_rem i) + length xs"
    and tk: "tracks A s0 s i xs" by blast
  show "wp (match_level_step inc c p lv s) (\<lambda>r. case r of
      Inl s' \<Rightarrow> \<exists>k < n. \<exists>i xs. in_level inc lv f P s0 i0 s' i xs \<and> tracks A s0 s' i xs \<and> co_status i = co_status i0 \<and> k = nat (co_rem i) + length xs
      | Inr x \<Rightarrow> inner_post A inc lv f P s0 i0 c p x)"
    by (rule wp_mono[OF inner_step[OF st(1) inc lv i0(3) stp cm st(2) tk]]) (auto simp: st(3) split: sum.splits)
qed

section \<open>The outer loop\<close>

text \<open>What the opposite book offers the order, and when it offers nothing more.\<close>

definition reach :: "CppEngine \<Rightarrow> CppOrder \<Rightarrow> (laddr \<Rightarrow> oaddr list) \<Rightarrow> (int \<times> laddr) list \<Rightarrow> int" where
  "reach s i f m = tot s i (offered s i f m)"

definition exhausted :: "CppOrder \<Rightarrow> (int \<times> laddr) list \<Rightarrow> bool" where
  "exhausted i m \<longleftrightarrow> (case m of [] \<Rightarrow> True | (p, _) # _ \<Rightarrow> \<not> canMatch i p)"

lemma reach_simps [simp]:
  "reach s i f [] = 0"
  "reach s i f ((p, lv) # m) = (if canMatch i p then tot s i (f lv) + reach s i f m else 0)"
  by (simp_all add: reach_def)

lemma reach_exhausted: "exhausted i m \<Longrightarrow> reach s i f m = 0"
  by (cases m) (auto simp: exhausted_def)

lemma reach_terms:
  assumes "terms i' = terms i"
  shows "reach s i' f m = reach s i f m"
  by (simp add: reach_def tot_terms[OF assms] offered_terms[OF assms])

lemma side_view_cong:
  assumes "\<And>p lv. (p, lv) \<in> set m \<Longrightarrow> f' lv = f lv \<and> (\<forall>y \<in> set (f lv). ord s' y = ord s y)"
  shows "side_view s' f' m = side_view s f m"
  unfolding side_view_def view_def by (intro map_cong refl) (use assms in auto)

lemma reach_cong:
  assumes "\<And>p lv. (p, lv) \<in> set m \<Longrightarrow> f' lv = f lv \<and> (\<forall>y \<in> set (f lv). ord s' y = ord s y)"
  shows "reach s' i f' m = reach s i f m"
  using assms
proof (induction m)
  case (Cons e m)
  obtain p lv where e: "e = (p, lv)" by (cases e)
  have "tot s' i (f lv) = tot s i (f lv)"
    unfolding tot_def by (intro arg_cong[of _ _ sum_list] map_cong refl) (use Cons.prems[of p lv] e in \<open>auto simp: offer_def\<close>)
  moreover have "f' lv = f lv" using Cons.prems[of p lv] e by simp
  moreover have "reach s' i f' m = reach s i f m" by (rule Cons.IH) (use Cons.prems e in auto)
  ultimately show ?case using e by simp
qed simp

text \<open>The state of the outer loop.\<close>

definition in_match ::
  "oaddr \<Rightarrow> Side \<Rightarrow> oaddr set \<Rightarrow> int \<Rightarrow> CppEngine \<Rightarrow> CppOrder \<Rightarrow> CppEngine \<Rightarrow> CppOrder \<Rightarrow> (laddr \<Rightarrow> oaddr list) \<Rightarrow> bool" where
  "in_match inc c P K s0 i0 s i f \<longleftrightarrow> cpp_inv s f P {} {} \<and> co_rem i - reach s i0 f (side_map c s) \<le> K \<and>
     mframe inc c P s0 s \<and> h_orders s inc = Some i \<and> terms i = terms i0 \<and> 0 \<le> co_rem i \<and>
     (\<exists>ts. e_trades s = e_trades s0 @ ts \<and> trades_of i0 (co_rem i0) (co_rem i) ts)"

text \<open>The run is in step with \<^const>\<open>match_spec\<close>, which ends with \<open>fst B\<close>, or that has ended; the own
  side is \<open>snd B\<close> all the time.\<close>

definition side_tracks :: "match_state option \<times> side_lists \<Rightarrow> Side \<Rightarrow> CppEngine \<Rightarrow> CppEngine \<Rightarrow> CppOrder \<Rightarrow> (laddr \<Rightarrow> oaddr list) \<Rightarrow> bool" where
  "side_tracks B c s0 s i f \<longleftrightarrow> (\<exists>ts. e_trades s = e_trades s0 @ ts \<and>
     loop side_step_spec (shape i, side_view s f (side_map c s), map deal_of ts) = fst B) \<and>
     side_view s f (side_map (oppositeSide c) s) = snd B"

definition side_ended :: "match_state option \<times> side_lists \<Rightarrow> Side \<Rightarrow> CppEngine \<Rightarrow> CppEngine \<Rightarrow> CppOrder \<Rightarrow> (laddr \<Rightarrow> oaddr list) \<Rightarrow> bool" where
  "side_ended B c s0 s i f \<longleftrightarrow> (\<exists>ts. e_trades s = e_trades s0 @ ts \<and>
     fst B = Some (shape i, side_view s f (side_map c s), map deal_of ts)) \<and> side_view s f (side_map (oppositeSide c) s) = snd B"

lemma side_loop:
  "b = [] \<or> \<not> co_rem i > 0 \<or> \<not> canMatch i (fst (hd b)) \<Longrightarrow> loop side_step_spec (i, b, ts) = Some (i, b, ts)"
  "co_rem i > 0 \<Longrightarrow> canMatch i p \<Longrightarrow> level_spec i q = Some (ret, j, q', us) \<Longrightarrow>
     loop side_step_spec (i, (p, q) # m, ts) =
       (if ret then Some (j, put_level p q' m, ts @ us) else loop side_step_spec (j, put_level p q' m, ts @ us))"
proof -
  show "loop side_step_spec (i, b, ts) = Some (i, b, ts)" if "b = [] \<or> \<not> co_rem i > 0 \<or> \<not> canMatch i (fst (hd b))"
    by (rule loop_simps(3)) (use that in \<open>auto simp: side_step_spec_def split: list.splits\<close>)
  show "loop side_step_spec (i, (p, q) # m, ts) =
       (if ret then Some (j, put_level p q' m, ts @ us) else loop side_step_spec (j, put_level p q' m, ts @ us))"
    if "co_rem i > 0" "canMatch i p" "level_spec i q = Some (ret, j, q', us)"
  proof -
    have "side_step_spec (i, (p, q) # m, ts) = Some ((if ret then Inr else Inl) (j, put_level p q' m, ts @ us))"
      using that by (simp add: side_step_spec_def)
    then show ?thesis
      using loop_simps(2,3)[of side_step_spec "(i, (p, q) # m, ts)" "(j, put_level p q' m, ts @ us)"] by (cases ret) simp_all
  qed
qed

definition match_post ::
  "match_state option \<times> side_lists \<Rightarrow> oaddr \<Rightarrow> Side \<Rightarrow> oaddr set \<Rightarrow> int \<Rightarrow> CppEngine \<Rightarrow> CppOrder \<Rightarrow> CppEngine \<Rightarrow> bool" where
  "match_post B inc c P K s0 i0 s \<longleftrightarrow> (\<exists>i f. in_match inc c P K s0 i0 s i f \<and> side_ended B c s0 s i f \<and>
     (co_status i = CANCELLED \<or> co_status i = co_status i0 \<and> (co_rem i = 0 \<or> exhausted i0 (side_map c s))))"

text \<open>One level, from before the inner loop to after the possible erase.\<close>

lemma level_to_match:
  assumes I: "cpp_inv s f P {} {}" and sm: "side_map c s = (p, lv) # li" and inc: "inc \<in> P" and cm: "canMatch i0 p"
    and i: "h_orders s inc = Some i" "terms i = terms i0" and K: "co_rem i - reach s i0 f (side_map c s) \<le> K"
    and lev: "in_level inc lv f P s i s1 i1 xs" and er: "erase_if_empty c p lv s1 = Some s2"
  shows "cpp_inv s2 (f(lv := xs)) P {} {} \<and> co_rem i1 - reach s2 i0 (f(lv := xs)) (side_map c s2) \<le> K \<and>
    side_view s2 (f(lv := xs)) (side_map c s2) = put_level p (view s1 xs) (side_view s f li) \<and>
    side_view s2 (f(lv := xs)) (side_map (oppositeSide c) s2) = side_view s f (side_map (oppositeSide c) s) \<and> mframe inc c P s s2 \<and>
    h_orders s2 inc = Some i1 \<and> side_map c s2 = (if xs = [] then li else (p, lv) # li) \<and> e_trades s2 = e_trades s1"
proof -
  let ?f = "f(lv := xs)"
  have I1: "cpp_inv s1 ?f P {lv} {}" and i1: "h_orders s1 inc = Some i1" and bs: "books_same s s1" and ids: "same_ids s s1"
    and out: "\<And>y. y \<notin> insert inc (set (f lv)) \<Longrightarrow> h_orders s1 y = h_orders s y" and sub: "set xs \<subseteq> set (f lv)"
    and sl: "co_rem i1 - tot s1 i xs \<le> co_rem i - tot s i (f lv)"
    using lev by (auto simp: in_level_def level_step_def)
  have lv: "(p, lv) \<in> set (side_map c s)" by (simp add: sm)
  have lv1: "(p, lv) \<in> set (side_map c s1)" using books_same_side[OF bs] by (simp add: sm)
  from erase_if_empty_wp[OF I1 lv1] er have I2: "cpp_inv s2 ?f P {} {}" and h2: "h_orders s2 = h_orders s1" and e2: "env s1 s2"
    and opp: "side_map (oppositeSide c) s2 = side_map (oppositeSide c) s1"
    and sd: "side_map c s2 = (if xs = [] then map_erase p (side_map c s1) else side_map c s1)" by (auto elim!: wpE)
  have "map_erase p ((p, lv) # li) = li" by (rule map_erase_first[of c]) (use inv_parts(1)[OF I, of c] sm in simp)
  then have sm2: "side_map c s2 = (if xs = [] then li else (p, lv) # li)" using sd books_same_side[OF bs] sm by simp
  have od2: "ord s2 = ord s1" by (rule ord_same) (rule h2)
  have other: "?f k = f k \<and> (\<forall>y \<in> set (f k). ord s2 y = ord s y)" if k: "(q, k) \<in> set (side_map sd s)" "k \<noteq> lv" for q k sd
  proof -
    have "ord s2 y = ord s y" if "y \<in> set (f k)" for y
    proof -
      have "y \<notin> set (f lv)" "y \<noteq> inc" using inv_apart[OF I k(1) that] lv k(2) inc by blast+
      then show ?thesis using out[of y] by (simp add: od2 ord_def)
    qed
    then show ?thesis using k(2) by simp
  qed
  have below: "k \<noteq> lv" "(q, k) \<in> set (side_map c s)" if "(q, k) \<in> set li" for q k
  proof -
    show k: "(q, k) \<in> set (side_map c s)" using that by (simp add: sm)
    have "distinct (map fst (side_map c s))" using sorted_keys_distinct[OF inv_parts(1)[OF I]] by simp
    then have "q \<noteq> p" using that by (force simp: sm)
    then show "k \<noteq> lv" using key_unique(1)[OF I k lv] by blast
  qed
  have rest: "reach s2 i0 ?f li = reach s i0 f li" by (rule reach_cong) (rule other[OF below(2,1)])
  have v: "side_view s2 ?f li = side_view s f li" by (rule side_view_cong) (rule other[OF below(2,1)])
  have "view s2 xs = view s1 xs" by (simp add: view_def od2)
  then have "side_view s2 ?f (side_map c s2) = put_level p (view s1 xs) (side_view s f li)" using v by (cases "xs = []") (simp_all add: sm2 put_level_def)
  moreover have "side_view s2 ?f (side_map (oppositeSide c) s2) = side_view s f (side_map (oppositeSide c) s)"
  proof -
    have "k \<noteq> lv" if "(q, k) \<in> set (side_map (oppositeSide c) s)" for q k using key_unique(1)[OF I that lv] by auto
    then have "side_view s2 ?f (side_map (oppositeSide c) s) = side_view s f (side_map (oppositeSide c) s)"
      by (intro side_view_cong) (use other in blast)
    then show ?thesis using opp books_same_side[OF bs] by simp
  qed
  moreover have "tot s2 i0 xs = tot s1 i xs" using tot_terms[OF i(2)] tot_same[OF h2] by simp
  moreover have "tot s i0 (f lv) = tot s i (f lv)" using tot_terms[OF i(2)] by simp
  ultimately have views: "side_view s2 ?f (side_map c s2) = put_level p (view s1 xs) (side_view s f li)"
      "side_view s2 ?f (side_map (oppositeSide c) s2) = side_view s f (side_map (oppositeSide c) s)"
    and "co_rem i1 - reach s2 i0 ?f (side_map c s2) \<le> K"
    using sl K rest cm by (auto simp: sm sm2)
  moreover have "mframe inc c P s s2"
  proof -
    have "h_orders s2 y = h_orders s y" if "y \<in> P - {inc}" for y
      using that out[of y] inv_apart(1)[OF I lv, of y] by (auto simp: h2)
    moreover have "same_ids s s2" using ids by (auto simp: same_ids_def h2 od2)
    moreover have "e_stops s2 = e_stops s" "e_poPol s2 = e_poPol s" using bs e2 by (simp_all add: books_same_def env_def)
    moreover have "side_map (oppositeSide c) s2 = side_map (oppositeSide c) s" using opp books_same_side[OF bs] by simp
    moreover have "set (side_map c s2) \<subseteq> set (side_map c s)" by (auto simp: sm2 sm)
    ultimately show ?thesis by (simp add: mframe_def)
  qed
  ultimately show ?thesis using I2 i1 h2 sm2 e2 views by (auto simp: env_def)
qed

lemma outer_step:
  assumes st: "in_match inc c P K s0 i0 s i f" and status: "co_status i = co_status i0" and tk: "side_tracks B c s0 s i f"
    and li: "li = side_map c s \<or> co_rem i = 0" and inc: "inc \<in> P"
    and q: "co_rem i0 \<le> cpp_max_qty" and stp: "co_stg i0 = 0 \<longleftrightarrow> co_stp i0 = NONE"
  shows "wp (match_step inc c (li, s)) (\<lambda>r. case r of
    Inl (li', s') \<Rightarrow> length li' < length li \<and>
      (\<exists>i' f'. in_match inc c P K s0 i0 s' i' f' \<and> side_tracks B c s0 s' i' f' \<and> co_status i' = co_status i0 \<and> (li' = side_map c s' \<or> co_rem i' = 0))
    | Inr s' \<Rightarrow> match_post B inc c P K s0 i0 s')"
proof -
  from st obtain ts where I: "cpp_inv s f P {} {}" and K: "co_rem i - reach s i0 f (side_map c s) \<le> K"
    and fr: "mframe inc c P s0 s" and i: "h_orders s inc = Some i" "terms i = terms i0" "0 \<le> co_rem i"
    and ts: "e_trades s = e_trades s0 @ ts" "trades_of i0 (co_rem i0) (co_rem i) ts" by (auto simp: in_match_def)
  have le: "co_rem i \<le> cpp_max_qty"
  proof -
    have "0 \<le> (\<Sum>t \<leftarrow> ts. ct_qty t)" using ts(2) by (intro sum_list_nonneg) (auto simp: trades_of_def)
    then show ?thesis using ts(2) q by (simp add: trades_of_def)
  qed
  have cm: "canMatch i = canMatch i0" by (rule canMatch_terms) (rule i(2))
  have tk': "loop side_step_spec (shape i, side_view s f (side_map c s), map deal_of ts) = fst B"
    using tk ts(1) by (auto simp: side_tracks_def)
  have stop: "match_post B inc c P K s0 i0 s" if o: "co_rem i = 0 \<or> exhausted i0 (side_map c s)"
  proof -
    have "side_view s f (side_map c s) = [] \<or> \<not> co_rem (shape i) > 0 \<or> \<not> canMatch (shape i) (fst (hd (side_view s f (side_map c s))))"
      using o cm by (cases "side_map c s") (auto simp: exhausted_def)
    from side_loop(1)[OF this] have "side_ended B c s0 s i f" using tk tk' ts(1) by (auto simp: side_ended_def side_tracks_def)
    then show ?thesis using st status o unfolding match_post_def by blast
  qed
  show ?thesis
  proof (cases li)
    case Nil
    then have "co_rem i = 0 \<or> exhausted i0 (side_map c s)" using li by (auto simp: exhausted_def)
    then show ?thesis using Nil i(1) stop by (simp add: match_step_def)
  next
    case (Cons e li')
    obtain p lv where e: "e = (p, lv)" by (cases e)
    show ?thesis
    proof (cases "co_rem i > 0")
      case False
      then show ?thesis using Cons e i stop by (simp add: match_step_def)
    next
      case pos: True
      then have sm: "side_map c s = (p, lv) # li'" using li Cons e by simp
      then have lv: "(p, lv) \<in> set (side_map c s)" by simp
      obtain l where l: "h_levels s lv = Some l" "cl_price l = p" using inv_level(2)[OF I lv] by blast
      show ?thesis
      proof (cases "canMatch i0 p")
        case False
        then have "exhausted i0 (side_map c s)" by (simp add: sm exhausted_def)
        then show ?thesis using Cons e i pos l cm False stop by (simp add: match_step_def)
      next
        case True
        have stp': "co_stg i = 0 \<longleftrightarrow> co_stp i = NONE" using stp terms_sel[OF i(2)] by simp
        have cm': "canMatch i p" using True cm by simp
        obtain ret s1 where run: "loop (match_level_step inc c p lv) s = Some (ret, s1)" and post: "inner_post (level_spec (shape i) (view s (f lv))) inc lv f P s i c p (ret, s1)"
          using inner_loop_wp[OF inv_weaken_level[OF I] i(1,3) le inc lv stp' cm' refl] by (auto elim!: wpE)
        from post obtain s1' i1 xs where lev: "in_level inc lv f P s i s1' i1 xs"
          and lsp: "ended (level_spec (shape i) (view s (f lv))) ret s s1' i1 xs"
          and ends: "if ret then co_status i1 = CANCELLED \<and> erase_if_empty c p lv s1' = Some s1
            else s1 = s1' \<and> co_status i1 = co_status i \<and> (xs = [] \<or> co_rem i1 = 0)" by (auto simp: inner_post_def)
        have "\<exists>s2. erase_if_empty c p lv s1' = Some s2"
        proof -
          have "cpp_inv s1' (f(lv := xs)) P {lv} {}" using lev by (simp add: in_level_def level_step_def)
          moreover have "(p, lv) \<in> set (side_map c s1')" using lv in_level_side[OF lev] by simp
          ultimately show ?thesis using erase_if_empty_wp by (blast elim: wpE)
        qed
        then obtain s2 where er: "erase_if_empty c p lv s1' = Some s2" by blast
        note lm = level_to_match[OF I sm inc True i(1,2) K lev er]
        obtain us where us: "e_trades s1' = e_trades s @ us" "trades_of i (co_rem i) (co_rem i1) us" and t1: "terms i1 = terms i" "0 \<le> co_rem i1"
          using lev by (auto simp: in_level_def)
        have "trades_of i0 (co_rem i0) (co_rem i1) (ts @ us)"
          using trades_of_append[OF ts(2)] us(2) trades_of_terms[OF i(2)] by simp
        then have im: "in_match inc c P K s0 i0 s2 i1 (f(lv := xs))"
          unfolding in_match_def using lm mframe_trans[OF fr] t1 i(2) us(1) ts(1) by auto
        have "level_spec (shape i) (view s (f lv)) = Some (ret, shape i1, view s1' xs, map deal_of us)"
          using lsp us(1) by (auto simp: ended_def)
        note sl = side_loop(2)[OF _ _ this, of p "side_view s f li'" "map deal_of ts"]
        have B: "fst B = (if ret then Some (shape i1, side_view s2 (f(lv := xs)) (side_map c s2), map deal_of (ts @ us))
            else loop side_step_spec (shape i1, side_view s2 (f(lv := xs)) (side_map c s2), map deal_of (ts @ us)))"
          unfolding conjunct1[OF conjunct2[OF conjunct2[OF lm]]] using sl tk' pos cm' by (cases ret) (simp_all add: sm)
        have own: "side_view s2 (f(lv := xs)) (side_map (oppositeSide c) s2) = snd B" using lm tk by (simp add: side_tracks_def)
        have tr2: "e_trades s2 = e_trades s0 @ (ts @ us)" using lm us(1) ts(1) by simp
        show ?thesis
        proof (cases ret)
          case True
          have "side_ended B c s0 s2 i1 (f(lv := xs))" unfolding side_ended_def using B True own tr2 by auto
          then have "match_post B inc c P K s0 i0 s1" using ends im er True unfolding match_post_def by auto
          then show ?thesis using Cons e i(1) pos l cm' run True by (simp add: match_step_def)
        next
          case False
          have "side_tracks B c s0 s2 i1 (f(lv := xs))" unfolding side_tracks_def using B False own tr2 by auto
          moreover have "li' = side_map c s2 \<or> co_rem i1 = 0" using False ends lm by (cases "xs = []") auto
          ultimately show ?thesis using Cons e i(1) pos l cm' run False ends er im status by (auto simp: match_step_def)
        qed
      qed
    qed
  qed
qed

lemma matchAgainst_wp:
  assumes I: "cpp_inv s f P {} {}" and i: "h_orders s inc = Some i" "0 \<le> co_rem i" "co_rem i \<le> cpp_max_qty" and inc: "inc \<in> P"
    and stp: "co_stg i = 0 \<longleftrightarrow> co_stp i = NONE" and K: "co_rem i - reach s i f (side_map c s) \<le> K"
    and B: "B = (match_spec (shape i) (side_view s f (side_map c s)), side_view s f (side_map (oppositeSide c) s))"
  shows "wp (matchAgainst inc c s) (match_post B inc c P K s i)"
  unfolding matchAgainst_def
proof (rule loop_wp[where I = "\<lambda>n (li, s'). n = length li \<and>
    (\<exists>i' f'. in_match inc c P K s i s' i' f' \<and> side_tracks B c s s' i' f' \<and> co_status i' = co_status i \<and> (li = side_map c s' \<or> co_rem i' = 0))"])
  have "in_match inc c P K s i s i f" using I i K by (auto simp: in_match_def)
  moreover have "side_tracks B c s s i f" by (simp add: side_tracks_def B match_spec_def)
  ultimately show "case (side_map c s, s) of (li, s') \<Rightarrow> length (side_map c s) = length li \<and>
    (\<exists>i' f'. in_match inc c P K s i s' i' f' \<and> side_tracks B c s s' i' f' \<and> co_status i' = co_status i \<and> (li = side_map c s' \<or> co_rem i' = 0))" by auto
next
  fix n and st :: "(int \<times> laddr) list \<times> CppEngine"
  obtain li s' where st: "st = (li, s')" by (cases st)
  assume "case st of (li, s') \<Rightarrow> n = length li \<and>
    (\<exists>i' f'. in_match inc c P K s i s' i' f' \<and> side_tracks B c s s' i' f' \<and> co_status i' = co_status i \<and> (li = side_map c s' \<or> co_rem i' = 0))"
  then obtain i' f' where "n = length li" "in_match inc c P K s i s' i' f'" "side_tracks B c s s' i' f'" "co_status i' = co_status i" "li = side_map c s' \<or> co_rem i' = 0"
    by (auto simp: st)
  then show "wp (match_step inc c st) (\<lambda>r. case r of
      Inl st' \<Rightarrow> \<exists>k < n. case st' of (li, s') \<Rightarrow> k = length li \<and>
        (\<exists>i' f'. in_match inc c P K s i s' i' f' \<and> side_tracks B c s s' i' f' \<and> co_status i' = co_status i \<and> (li = side_map c s' \<or> co_rem i' = 0))
      | Inr x \<Rightarrow> match_post B inc c P K s i x)"
    unfolding st by (intro wp_mono[OF outer_step[OF _ _ _ _ inc i(3) stp]]) (auto split: sum.splits)
qed

end
