(* ===== verification/Cpp_Active.thy ===== *)
theory Cpp_Active
  imports Cpp_Loops
begin

text \<open>
  The steps of \<^verbatim>\<open>processActive\<close> around matching: the quantity checks, disposal, post-only and
  market-to-limit orders.
\<close>

section \<open>Orders that can be processed\<close>

definition active_ok :: "CppOrder \<Rightarrow> bool" where
  "active_ok r \<longleftrightarrow> base_ok r \<and> co_status r \<noteq> CANCELLED \<and>
     (co_type r = LIMIT \<and> 0 < co_price r \<or> (co_type r = MARKET \<or> co_type r = MARKET_TO_LIMIT) \<and> co_price r = 0) \<and>
     (co_tif r = FOK \<longrightarrow> co_rem r \<le> co_qty r) \<and>
     (co_postOnly r \<longrightarrow> co_type r = LIMIT \<and> co_tif r \<noteq> IOC \<and> co_tif r \<noteq> FOK) \<and>
     (co_type r = MARKET_TO_LIMIT \<longrightarrow> co_tif r \<noteq> IOC \<and> co_tif r \<noteq> FOK)"

text \<open>
  What a step keeps: the invariant with the orders \<open>P\<close> in hand, those orders as they are, and no new
  order or id; trades are only added.
\<close>

definition keeps :: "oaddr set \<Rightarrow> CppEngine \<Rightarrow> CppEngine \<Rightarrow> bool" where
  "keeps P s s' \<longleftrightarrow> (\<exists>f. cpp_inv s' f P {} {}) \<and> (\<forall>y \<in> P. h_orders s' y = h_orders s y) \<and> same_ids s s' \<and>
     e_poPol s' = e_poPol s \<and> (\<exists>ts. e_trades s' = e_trades s @ ts)"

lemma keeps_trans: "keeps P s s' \<Longrightarrow> keeps P s' s'' \<Longrightarrow> keeps P s s''"
  unfolding keeps_def using same_ids_trans by fastforce

section \<open>The quantity checks\<close>

text \<open>With a threshold and visible quantities below \<open>cpp_max_qty\<close> the sum cannot overflow.\<close>

lemma avail_level_bounded:
  assumes "chain (nxt s) p xs" and "\<forall>x \<in> set xs. h_orders s x \<noteq> None \<and> 0 \<le> co_visible (ord s x) \<and> co_visible (ord s x) \<le> cpp_max_qty"
    and "0 \<le> avail" "avail < thresh" "thresh \<le> cpp_max_qty"
  shows "\<exists>r. avail_level s inc thresh p avail = Some r \<and>
    (case r of Inl a \<Rightarrow> a = avail + tot s inc xs \<and> a < thresh | Inr a \<Rightarrow> thresh \<le> a \<and> thresh \<le> avail + tot s inc xs)"
  using assms
proof (induction xs arbitrary: p avail)
  case Nil
  then show ?case by (subst avail_level.simps) simp
next
  case (Cons x xs)
  obtain r where r: "h_orders s x = Some r" using Cons.prems(2) by auto
  have "nxt s x = co_next r" using r by (simp add: nxt_def)
  then have p: "p = Some x" and c: "chain (nxt s) (co_next r) xs" using Cons.prems(1) by simp_all
  have od: "ord s x = r" using r by (simp add: ord_def)
  have v: "0 \<le> co_visible r" "co_visible r \<le> cpp_max_qty" using Cons.prems(2) od by auto
  have rest: "0 \<le> tot s inc xs" using Cons.prems(2) by (intro tot_nonneg) auto
  have vs: "\<forall>x \<in> set xs. h_orders s x \<noteq> None \<and> 0 \<le> co_visible (ord s x) \<and> co_visible (ord s x) \<le> cpp_max_qty" using Cons.prems(2) by auto
  show ?case
  proof (cases "stpConflict inc r")
    case True
    then have z: "offer s inc x = 0" by (simp add: offer_def od)
    have "avail_level s inc thresh p avail = avail_level s inc thresh (co_next r) avail"
      using True r p by (subst avail_level.simps) simp
    moreover have "tot s inc (x # xs) = tot s inc xs" using z by simp
    ultimately show ?thesis using Cons.IH[OF c vs Cons.prems(3-5)] by (simp only:)
  next
    case False
    then have z: "offer s inc x = co_visible r" by (simp add: offer_def od)
    have a: "add64 avail (co_visible r) = Some (avail + co_visible r)"
      using Cons.prems(3-5) v by (simp add: add64_def in64_def cpp_max_qty_def)
    show ?thesis
    proof (cases "thresh \<le> avail + co_visible r")
      case True
      then show ?thesis using False r p a z rest by (subst avail_level.simps) simp
    next
      case lt: False
      have "avail_level s inc thresh p avail = avail_level s inc thresh (co_next r) (avail + co_visible r)"
        using lt False r p a by (subst avail_level.simps) simp
      moreover have "avail + tot s inc (x # xs) = avail + co_visible r + tot s inc xs" using z by simp
      moreover have "0 \<le> avail + co_visible r" "avail + co_visible r < thresh" using Cons.prems(3) v lt by simp_all
      ultimately show ?thesis using Cons.IH[OF c vs, of "avail + co_visible r"] Cons.prems(5) by (simp only:)
    qed
  qed
qed

lemma visible_bounds:
  assumes I: "cpp_inv s f P {} {}" and "(p, lv) \<in> set (side_map sd s)" and "x \<in> set (f lv)"
  shows "0 \<le> co_visible (ord s x)" and "co_visible (ord s x) \<le> cpp_max_qty"
  using inv_level(5)[OF assms] by (auto simp: rest_ok_def base_ok_def)

lemma offered_elem: "y \<in> set (offered s inc f m) \<Longrightarrow> \<exists>q k. (q, k) \<in> set m \<and> y \<in> set (f k)"
proof (induction m)
  case (Cons e m)
  obtain p lv where e: "e = (p, lv)" by (cases e)
  then show ?case using Cons by (cases "canMatch inc p"; simp; blast)
qed simp

lemma availQty_exact:
  assumes I: "cpp_inv s f P {} {}" and "set m \<subseteq> set (side_map sd s)" and "0 \<le> avail" "avail < thresh" "thresh \<le> cpp_max_qty"
  shows "\<exists>a. availQty s inc m thresh avail = Some a \<and> (thresh \<le> a \<longleftrightarrow> thresh \<le> avail + reach s inc f m)"
  using assms(2-5)
proof (induction m arbitrary: avail)
  case (Cons e m)
  obtain p lv where e: "e = (p, lv)" by (cases e)
  then have lv: "(p, lv) \<in> set (side_map sd s)" and sub: "set m \<subseteq> set (side_map sd s)" using Cons.prems(1) by auto
  have nn: "0 \<le> reach s inc f m"
    unfolding reach_def
  proof (rule tot_nonneg)
    fix y assume "y \<in> set (offered s inc f m)"
    then obtain q k where "(q, k) \<in> set m" "y \<in> set (f k)" using offered_elem by blast
    then show "0 \<le> co_visible (ord s y)" using visible_bounds(1)[OF I, of q k sd y] sub by auto
  qed
  show ?case
  proof (cases "canMatch inc p")
    case False
    then show ?thesis using Cons.prems by (simp add: e)
  next
    case True
    obtain l where l: "h_levels s lv = Some l" "chain (nxt s) (cl_head l) (f lv)" "\<forall>x \<in> set (f lv). h_orders s x \<noteq> None"
      using level_list_chain[OF inv_level(1)[OF I lv]] by blast
    have "\<forall>x \<in> set (f lv). h_orders s x \<noteq> None \<and> 0 \<le> co_visible (ord s x) \<and> co_visible (ord s x) \<le> cpp_max_qty"
      using l(3) visible_bounds[OF I lv] by blast
    from avail_level_bounded[OF l(2) this Cons.prems(2-4), of inc] obtain r where r: "avail_level s inc thresh (cl_head l) avail = Some r"
      "case r of Inl a \<Rightarrow> a = avail + tot s inc (f lv) \<and> a < thresh | Inr a \<Rightarrow> thresh \<le> a \<and> thresh \<le> avail + tot s inc (f lv)" by blast
    have t: "0 \<le> tot s inc (f lv)" using visible_bounds[OF I lv] by (intro tot_nonneg) blast
    show ?thesis
    proof (cases r)
      case (Inl a)
      then show ?thesis using r l(1) True Cons.IH[OF sub, of a] Cons.prems t by (simp add: e algebra_simps)
    next
      case (Inr a)
      then show ?thesis using r l(1) True nn by (simp add: e)
    qed
  qed
qed simp

lemma active_check_wp:
  assumes I: "cpp_inv s f P {} {}" and r: "h_orders s x = Some r" and ok: "base_ok r"
  shows "wp (active_check x s) (\<lambda>err. err = None \<longrightarrow> co_tif r = FOK \<longrightarrow> co_qty r \<le> reach s r f (side_map (oppositeSide (co_side r)) s))"
proof -
  let ?c = "oppositeSide (co_side r)"
  have q: "0 < co_qty r" "co_qty r \<le> cpp_max_qty" "0 \<le> co_minQty r" "co_minQty r \<le> cpp_max_qty" using ok by (simp_all add: base_ok_def)
  have fok: "fokCheck s r = Some (co_qty r \<le> reach s r f (side_map ?c s))"
    using availQty_exact[OF I, of "side_map ?c s" ?c 0 "co_qty r" r] q by (auto simp: fokCheck_def)
  have mq: "wp (minQtyCheck s r) (\<lambda>_. True)" if "co_minQty r > 0"
    using availQty_exact[OF I, of "side_map ?c s" ?c 0 "co_minQty r" r] q that by (auto simp: minQtyCheck_def)
  show ?thesis using r fok mq by (auto simp: active_check_def elim!: wp_mono)
qed

section \<open>After matching\<close>

text \<open>What the list functions make of the order \<open>r\<close> and the opposite side; and the own side.\<close>

definition run_of :: "CppEngine \<Rightarrow> (laddr \<Rightarrow> oaddr list) \<Rightarrow> CppOrder \<Rightarrow> match_state option \<times> side_lists" where
  "run_of s f r = (match_spec (shape r) (side_view s f (side_map (oppositeSide (co_side r)) s)), side_view s f (side_map (co_side r) s))"

lemma matchOrd_wp:
  assumes I: "cpp_inv s f P {} {}" and x: "x \<in> P" and r: "h_orders s x = Some r" and q: "0 \<le> co_rem r" "co_rem r \<le> cpp_max_qty"
    and stp: "co_stg r = 0 \<longleftrightarrow> co_stp r = NONE" and K: "co_rem r - reach s r f (side_map (oppositeSide (co_side r)) s) \<le> K"
  shows "wp (matchOrd x s) (match_post (run_of s f r) x (oppositeSide (co_side r)) P K s r)"
  using matchAgainst_wp[OF I r q x stp K refl] r by (simp add: matchOrd_def run_of_def)

lemma match_postE:
  assumes "match_post B x c P K s r s'"
  obtains f i ts where "cpp_inv s' f P {} {}" "h_orders s' x = Some i" "terms i = terms r" "0 \<le> co_rem i" "co_rem i \<le> co_rem r"
    "mframe x c P s s'" "e_trades s' = e_trades s @ ts" "trades_of r (co_rem r) (co_rem i) ts"
    "co_rem i - reach s' r f (side_map c s') \<le> K"
    "co_status i = CANCELLED \<or> co_status i = co_status r \<and> (co_rem i = 0 \<or> exhausted r (side_map c s'))"
    "side_ended B c s s' i f"
proof -
  from assms obtain i f ts where *: "cpp_inv s' f P {} {}" "h_orders s' x = Some i" "terms i = terms r" "0 \<le> co_rem i"
    "mframe x c P s s'" "e_trades s' = e_trades s @ ts" "trades_of r (co_rem r) (co_rem i) ts"
    "co_rem i - reach s' r f (side_map c s') \<le> K"
    "co_status i = CANCELLED \<or> co_status i = co_status r \<and> (co_rem i = 0 \<or> exhausted r (side_map c s'))"
    "side_ended B c s s' i f" by (auto simp: match_post_def in_match_def)
  have "0 \<le> (\<Sum>t \<leftarrow> ts. ct_qty t)" using *(7) by (intro sum_list_nonneg) (auto simp: trades_of_def)
  then have "co_rem i \<le> co_rem r" using *(7) by (simp add: trades_of_def)
  then show thesis using that * by blast
qed

text \<open>A book that offers an order nothing is out of its price's way.\<close>

lemma exhausted_clear:
  assumes I: "cpp_inv s f P E X" and ex: "exhausted r (side_map (oppositeSide (co_side r)) s)" and p: "co_price r \<noteq> 0"
  shows "clear_of s (co_side r) (co_price r)"
proof (cases "side_map (oppositeSide (co_side r)) s")
  case Nil
  then show ?thesis by (simp add: clear_of_def)
next
  case (Cons e m)
  let ?c = "oppositeSide (co_side r)"
  have "\<not> canMatch r (fst e)" using ex Cons by (cases e) (simp add: exhausted_def)
  then have first: "px_before ?c (co_price r) (fst e)" using p by (cases "co_side r") (auto simp: canMatch_def split: if_splits)
  have "sorted_wrt (px_before ?c) (map fst (e # m))" using inv_parts(1)[OF I, of ?c] Cons by simp
  then have "\<forall>q \<in> fst ` set m. px_before ?c (fst e) q" by simp
  then show ?thesis using first px_before_trans[OF first] by (auto simp: clear_of_def Cons)
qed

text \<open>
  The order \<open>x\<close> is settled: it rests, or is filled or cancelled and still in hand.
\<close>

definition settled :: "oaddr \<Rightarrow> oaddr set \<Rightarrow> CppEngine \<Rightarrow> CppEngine \<Rightarrow> bool" where
  "settled x P s s' \<longleftrightarrow>
     (\<exists>f. cpp_inv s' f (P - {x}) {} {} \<or> cpp_inv s' f P {} {} \<and> (co_status (ord s' x) = FILLED \<or> co_status (ord s' x) = CANCELLED)) \<and>
     (\<forall>y \<in> P - {x}. h_orders s' y = h_orders s y) \<and> same_ids s s' \<and> e_poPol s' = e_poPol s \<and>
     (\<exists>ts. e_trades s' = e_trades s @ ts)"

lemma same_ids_opt:
  assumes "\<And>y. map_option co_id (h_orders s' y) = map_option co_id (h_orders s y)"
  shows "same_ids s s'"
  unfolding same_ids_def
proof (intro allI impI)
  fix y assume "h_orders s' y \<noteq> None"
  then show "h_orders s y \<noteq> None \<and> co_id (ord s' y) = co_id (ord s y)"
    using assms[of y] by (cases "h_orders s y") (auto simp: ord_def)
qed

lemma status_settled:
  assumes I: "cpp_inv s f P {} {}" and x: "x \<in> P" and r: "h_orders s x = Some r" and st: "st = FILLED \<or> st = CANCELLED"
  shows "settled x P s (s\<lparr>h_orders := (h_orders s)(x \<mapsto> r\<lparr>co_status := st\<rparr>)\<rparr>)"
proof -
  let ?s = "s\<lparr>h_orders := (h_orders s)(x \<mapsto> r\<lparr>co_status := st\<rparr>)\<rparr>"
  have "cpp_inv ?s f P {} {}" by (rule inv_upd[OF I r]) (use x in auto)
  moreover have "co_status (ord ?s x) = FILLED \<or> co_status (ord ?s x) = CANCELLED" using st by (auto simp: ord_def)
  moreover have "same_ids s ?s" by (rule same_ids_opt) (use r in auto)
  ultimately show ?thesis by (auto simp: settled_def)
qed

lemma settled_notify: "settled x P s s' \<Longrightarrow> settled x P s (notify ev s')"
  by (auto simp: settled_def notify_def same_ids_def ord_def)

lemma cancel_settled:
  assumes I: "cpp_inv s f P {} {}" and x: "x \<in> P" and r: "h_orders s x = Some r"
  shows "wp (cancel_ord why x s) (settled x P s)"
  using settled_notify[OF status_settled[OF I x r, of CANCELLED]]
  by (simp add: cancel_ord_def set_status_some[OF r] notify_ord_def)

lemma dispose_wp:
  assumes I: "cpp_inv s f P {} {}" and x: "x \<in> P" and r: "h_orders s x = Some r"
    and ok: "co_rem r \<noteq> 0 \<Longrightarrow> base_ok r" and fok: "co_tif r = FOK \<Longrightarrow> co_rem r = 0"
    and ty: "co_type r = LIMIT \<and> 0 < co_price r \<or> co_type r = MARKET"
    and ex: "co_rem r \<noteq> 0 \<Longrightarrow> exhausted r (side_map (oppositeSide (co_side r)) s)"
  shows "wp (dispose x ht s) (settled x P s)"
proof -
  consider (filled) "co_rem r = 0" | (dead) why where "co_rem r \<noteq> 0" "dispose x ht s = cancel_ord why x s"
    | (live) "co_rem r \<noteq> 0" "co_tif r \<noteq> IOC" "co_tif r \<noteq> FOK" "co_type r \<noteq> MARKET"
    using fok r by (cases "co_tif r"; cases "co_type r = MARKET") (auto simp: dispose_def)
  then show ?thesis
  proof cases
    case filled
    then show ?thesis using status_settled[OF I x r, of FILLED] r by (simp add: dispose_def set_status_some)
  next
    case dead
    then show ?thesis using cancel_settled[OF I x r] by simp
  next
    case live
    have fit: "fit_ok r" using live ok ty by (simp add: fit_ok_def)
    have cl: "clear_of s (co_side r) (co_price r)" using exhausted_clear[OF I ex[OF live(1)]] fit by (simp add: fit_ok_def)
    have run: "dispose x ht s = do { s \<leftarrow> insertOrder x s; set_status (if ht then PARTIALLY_FILLED else NEW) x s }"
      using live r by (cases "co_tif r") (simp_all add: dispose_def)
    have st: "(if ht then PARTIALLY_FILLED else NEW) = NEW \<or> (if ht then PARTIALLY_FILLED else NEW) = PARTIALLY_FILLED" by simp
    show ?thesis
      unfolding run by (rule wp_mono[OF rest_wp[OF I x r fit cl st]]) (auto simp: settled_def env_def intro: same_ids_opt)
  qed
qed

section \<open>The ways through \<^verbatim>\<open>processActive\<close>\<close>

lemma settled_after:
  assumes fr: "mframe x c P s s1" and tr: "e_trades s1 = e_trades s @ ts" and st: "settled x P s1 s2"
  shows "settled x P s s2"
proof -
  have "\<forall>y \<in> P - {x}. h_orders s2 y = h_orders s y" using fr st by (simp add: mframe_def settled_def)
  moreover have "same_ids s s2" using fr st same_ids_trans by (auto simp: mframe_def settled_def)
  ultimately show ?thesis using fr st tr by (auto simp: mframe_def settled_def)
qed

lemma cancelled_settled:
  assumes "cpp_inv s' f P {} {}" and "mframe x c P s s'" and "e_trades s' = e_trades s @ ts"
    and "h_orders s' x = Some i" "co_status i = CANCELLED"
  shows "settled x P s s'"
  using assms by (auto simp: settled_def mframe_def ord_def)

lemma base_ok_after:
  assumes "base_ok r" and "terms i = terms r" and "0 < co_rem i" "co_rem i \<le> co_rem r"
  shows "base_ok i"
  using assms terms_sel[OF assms(2)] by (simp add: base_ok_def)

lemma exhausted_cong:
  assumes "co_price i = co_price r" and "co_side i = co_side r"
  shows "exhausted i m = exhausted r m"
proof -
  have "canMatch i = canMatch r" by (rule ext) (simp only: canMatch_def assms)
  then show ?thesis by (simp only: exhausted_def)
qed

lemma active_plain_wp:
  assumes I: "cpp_inv s f P {} {}" and x: "x \<in> P" and r: "h_orders s x = Some r" and ok: "active_ok r"
    and ty: "co_type r \<noteq> MARKET_TO_LIMIT"
    and fok: "co_tif r = FOK \<Longrightarrow> co_qty r \<le> reach s r f (side_map (oppositeSide (co_side r)) s)"
  shows "wp (active_plain x s) (settled x P s)"
proof -
  let ?c = "oppositeSide (co_side r)"
  let ?K = "co_rem r - reach s r f (side_map ?c s)"
  have b: "base_ok r" and q: "0 \<le> co_rem r" "co_rem r \<le> cpp_max_qty" and stp: "co_stg r = 0 \<longleftrightarrow> co_stp r = NONE"
    using ok by (simp_all add: active_ok_def base_ok_def)
  from matchOrd_wp[OF I x r q stp order_refl] obtain s1 where 1: "matchOrd x s = Some s1" and mp: "match_post (run_of s f r) x ?c P ?K s r s1"
    by (auto elim: wpE)
  from mp obtain f1 i ts where I1: "cpp_inv s1 f1 P {} {}" and i: "h_orders s1 x = Some i" "terms i = terms r" "0 \<le> co_rem i" "co_rem i \<le> co_rem r"
    and fr: "mframe x ?c P s s1" and tr: "e_trades s1 = e_trades s @ ts" and K: "co_rem i - reach s1 r f1 (side_map ?c s1) \<le> ?K"
    and st: "co_status i = CANCELLED \<or> co_status i = co_status r \<and> (co_rem i = 0 \<or> exhausted r (side_map ?c s1))"
    by (rule match_postE) blast
  let ?ht = "length (e_trades s1) > length (e_trades s)"
  let ?g = "\<lambda>w. if co_minQty w > 0 \<and> ?ht then w\<lparr>co_minQty := 0\<rparr> else w"
  let ?i = "?g i"
  let ?s2 = "s1\<lparr>h_orders := (h_orders s1)(x \<mapsto> ?i)\<rparr>"
  have l: "lnk ?i = lnk i" by (simp add: lnk_def)
  have I2: "cpp_inv ?s2 f1 P {} {}" by (rule inv_upd[OF I1 i(1) l]) (use x in simp)
  have i2: "h_orders ?s2 x = Some ?i" by simp
  have fields: "co_rem ?i = co_rem i" "co_status ?i = co_status i" "co_side ?i = co_side r" "co_price ?i = co_price r" "co_tif ?i = co_tif r"
    "co_type ?i = co_type r" using terms_sel[OF i(2)] by simp_all
  have fr2: "mframe x ?c P s ?s2"
    using fr i(1) l by (auto simp: mframe_def same_ids_def ord_def lnk_def)
  have tr2: "e_trades ?s2 = e_trades s @ ts" using tr by simp
  have run: "active_plain x s = (if co_status ?i \<noteq> CANCELLED then dispose x ?ht ?s2 else Some ?s2)"
    by (simp add: active_plain_def 1 upd_ord_some[OF i(1)] Let_def)
  show ?thesis
  proof (cases "co_status ?i = CANCELLED")
    case True
    then show ?thesis unfolding run using cancelled_settled[OF I2 fr2 tr2 i2] by simp
  next
    case False
    then have ex: "co_rem i = 0 \<or> exhausted r (side_map ?c s1)" using st fields(2) by auto
    have "wp (dispose x ?ht ?s2) (settled x P ?s2)"
    proof (rule dispose_wp[OF I2 x i2])
      show "base_ok ?i" if "co_rem ?i \<noteq> 0"
        using base_ok_after[OF b i(2)] i(3,4) that fields(1) by (auto simp: base_ok_def)
      show "co_rem ?i = 0" if "co_tif ?i = FOK"
      proof (rule ccontr)
        assume "co_rem ?i \<noteq> 0"
        then have "reach s1 r f1 (side_map ?c s1) = 0" using ex fields(1) by (auto intro: reach_exhausted)
        moreover have "co_rem r \<le> co_qty r" "co_qty r \<le> reach s r f (side_map ?c s)"
          using that ok fok fields(5) by (simp_all add: active_ok_def)
        ultimately show False using K i(3) \<open>co_rem ?i \<noteq> 0\<close> fields(1) by linarith
      qed
      show "co_type ?i = LIMIT \<and> 0 < co_price ?i \<or> co_type ?i = MARKET" using ok ty fields by (auto simp: active_ok_def)
      show "exhausted ?i (side_map (oppositeSide (co_side ?i)) ?s2)" if "co_rem ?i \<noteq> 0"
        using ex that fields exhausted_cong[of ?i r] by simp
    qed
    then have "wp (dispose x ?ht ?s2) (settled x P s)" by (rule wp_mono) (rule settled_after[OF fr2 tr2])
    then show ?thesis unfolding run if_P[OF False] .
  qed
qed

text \<open>A market-to-limit order that found nothing is gone; otherwise it is settled like a limit order.\<close>

definition mtl_post :: "oaddr \<Rightarrow> oaddr set \<Rightarrow> CppEngine \<Rightarrow> CppEngine + CppEngine \<Rightarrow> bool" where
  "mtl_post x P s res \<longleftrightarrow> (case res of Inl s' \<Rightarrow> keeps (P - {x}) s s' | Inr s' \<Rightarrow> settled x P s s')"

lemma cancel_and_drop:
  assumes I: "cpp_inv s f P {} {}" and x: "x \<in> P" and r: "h_orders s x = Some r"
  shows "wp (do { s \<leftarrow> cancel_ord why x s; drop_ord x s }) (keeps (P - {x}) s)"
proof -
  let ?r = "r\<lparr>co_status := CANCELLED\<rparr>"
  let ?s = "notify (onOrderCancelled ?r why) (s\<lparr>h_orders := (h_orders s)(x \<mapsto> ?r)\<rparr>)"
  have 1: "cancel_ord why x s = Some ?s" by (simp add: cancel_ord_def set_status_some[OF r] notify_ord_def)
  have "cpp_inv (s\<lparr>h_orders := (h_orders s)(x \<mapsto> ?r)\<rparr>) f P {} {}" by (rule inv_upd[OF I r]) (use x in auto)
  then have "cpp_inv ?s f P {} {}" by simp
  from inv_drop[OF this x] obtain s' where 2: "drop_ord x ?s = Some s'" and I': "cpp_inv s' f (P - {x}) {} {}"
    and h: "h_orders s' = (h_orders ?s)(x := None)" and e: "env ?s s'" by (auto elim!: wpE)
  have "same_ids s s'" by (auto simp: same_ids_def h notify_def ord_def)
  moreover have "\<forall>y \<in> P - {x}. h_orders s' y = h_orders s y" by (simp add: h notify_def)
  moreover have "e_poPol s' = e_poPol s" "e_trades s' = e_trades s" using e by (simp_all add: env_def notify_def)
  ultimately have "keeps (P - {x}) s s'" using I' by (auto simp: keeps_def)
  then show ?thesis using 1 2 by simp
qed

lemma keeps_after: "mframe x c P s s1 \<Longrightarrow> e_trades s1 = e_trades s @ ts \<Longrightarrow> keeps (P - {x}) s1 s2 \<Longrightarrow> keeps (P - {x}) s s2"
  using same_ids_trans by (auto simp: keeps_def mframe_def)

lemma active_mtl_wp:
  assumes I: "cpp_inv s f P {} {}" and x: "x \<in> P" and r: "h_orders s x = Some r" and ok: "active_ok r"
    and ty: "co_type r = MARKET_TO_LIMIT"
  shows "wp (active_mtl x s) (mtl_post x P s)"
proof -
  let ?c = "oppositeSide (co_side r)"
  let ?ts = "length (e_trades s)"
  have b: "base_ok r" and q: "0 \<le> co_rem r" "co_rem r \<le> cpp_max_qty" and stp: "co_stg r = 0 \<longleftrightarrow> co_stp r = NONE"
    and tif: "co_tif r \<noteq> FOK" "co_tif r \<noteq> IOC" using ok ty by (simp_all add: active_ok_def base_ok_def)
  from matchOrd_wp[OF I x r q stp order_refl] obtain s1 K where 1: "matchOrd x s = Some s1" and mp: "match_post (run_of s f r) x ?c P K s r s1"
    by (auto elim: wpE)
  from mp obtain f1 i ts where I1: "cpp_inv s1 f1 P {} {}" and i: "h_orders s1 x = Some i" "terms i = terms r" "0 \<le> co_rem i" "co_rem i \<le> co_rem r"
    and fr: "mframe x ?c P s s1" and tr: "e_trades s1 = e_trades s @ ts" and to: "trades_of r (co_rem r) (co_rem i) ts"
    by (rule match_postE) blast
  show ?thesis
  proof (cases "ts = []")
    case True
    have "wp (do { s \<leftarrow> cancel_ord ''MTL_NO_LIQUIDITY'' x s1; drop_ord x s }) (keeps (P - {x}) s)"
      by (rule wp_mono[OF cancel_and_drop[OF I1 x i(1)]]) (rule keeps_after[OF fr tr])
    then show ?thesis using 1 tr True by (simp add: active_mtl_def mtl_post_def Let_def)
  next
    case False
    define px where "px = ct_price (e_trades s1 ! ?ts)"
    have "?ts < length (e_trades s1)" using tr False by simp
    then have "e_trades s1 ! ?ts \<in> set (e_trades s1)" by (rule nth_mem)
    then have px: "0 < px" using inv_parts(11)[OF I1] unfolding px_def trades_ok_def by blast
    define j where "j = i\<lparr>co_price := px, co_type := LIMIT, co_minQty := (if co_minQty i > 0 then 0 else co_minQty i)\<rparr>"
    let ?s2 = "s1\<lparr>h_orders := (h_orders s1)(x \<mapsto> j)\<rparr>"
    have l: "lnk j = lnk i" by (simp add: lnk_def j_def)
    have I2: "cpp_inv ?s2 f1 P {} {}" by (rule inv_upd[OF I1 i(1) l]) (use x in simp)
    have j2: "h_orders ?s2 x = Some j" by simp
    have jf: "co_side j = co_side r" "co_rem j = co_rem i" "co_price j = px" "co_type j = LIMIT" "co_tif j = co_tif r" "co_stg j = co_stg r"
      "co_stp j = co_stp r" "co_status j = co_status i" using terms_sel[OF i(2)] by (simp_all add: j_def)
    have fr2: "mframe x ?c P s ?s2" using fr i(1) l by (auto simp: mframe_def same_ids_def ord_def lnk_def)
    have jb: "base_ok j" if "co_rem j \<noteq> 0"
      using base_ok_after[OF b i(2)] i(3,4) that by (auto simp: base_ok_def j_def)
    have fin: "wp (do { r \<leftarrow> h_orders s3 x; s \<leftarrow> (if co_status r \<noteq> CANCELLED then dispose x True s3 else Some s3); Some (Inr s) }) (mtl_post x P s)"
      if I3: "cpp_inv s3 f3 P {} {}" and k: "h_orders s3 x = Some k" "terms k = terms j" "0 \<le> co_rem k" "co_rem k \<le> co_rem j"
        and fr3: "mframe x ?c P s s3" and tr3: "e_trades s3 = e_trades s @ us"
        and ex: "co_status k = CANCELLED \<or> co_rem k = 0 \<or> exhausted j (side_map ?c s3)" for s3 f3 k us
    proof (cases "co_status k = CANCELLED")
      case True
      then show ?thesis using k cancelled_settled[OF I3 fr3 tr3 k(1)] by (simp add: mtl_post_def)
    next
      case False
      note kf = terms_sel[OF k(2)]
      have "wp (dispose x True s3) (settled x P s3)"
      proof (rule dispose_wp[OF I3 x k(1)])
        show "base_ok k" if "co_rem k \<noteq> 0" using base_ok_after[OF _ k(2)] jb k(3,4) that by simp
        show "co_rem k = 0" if "co_tif k = FOK" using that kf jf tif by simp
        show "co_type k = LIMIT \<and> 0 < co_price k \<or> co_type k = MARKET" using kf jf px by simp
        show "exhausted k (side_map (oppositeSide (co_side k)) s3)" if "co_rem k \<noteq> 0"
          using ex False that kf jf exhausted_cong[of k j] by simp
      qed
      then have "wp (dispose x True s3) (settled x P s)" by (rule wp_mono) (rule settled_after[OF fr3 tr3])
      then show ?thesis using k(1) False by (simp add: mtl_post_def)
    qed
    have "wp (do { s \<leftarrow> (if co_rem j > 0 \<and> co_status j \<noteq> CANCELLED then matchOrd x ?s2 else Some ?s2); r \<leftarrow> h_orders s x;
        s \<leftarrow> (if co_status r \<noteq> CANCELLED then dispose x True s else Some s); Some (Inr s) }) (mtl_post x P s)"
    proof (cases "co_rem j > 0 \<and> co_status j \<noteq> CANCELLED")
      case True
      have qj: "0 \<le> co_rem j" "co_rem j \<le> cpp_max_qty" and sj: "co_stg j = 0 \<longleftrightarrow> co_stp j = NONE" using True i(4) q jf stp by simp_all
      from matchOrd_wp[OF I2 x j2 qj sj order_refl] obtain s3 K where 3: "matchOrd x ?s2 = Some s3" and mp3: "match_post (run_of ?s2 f1 j) x (oppositeSide (co_side j)) P K ?s2 j s3"
        by (auto elim: wpE)
      from mp3 obtain f3 k us where I3: "cpp_inv s3 f3 P {} {}" and k: "h_orders s3 x = Some k" "terms k = terms j" "0 \<le> co_rem k" "co_rem k \<le> co_rem j"
        and fr3: "mframe x (oppositeSide (co_side j)) P ?s2 s3" and tr3: "e_trades s3 = e_trades ?s2 @ us"
        and st3: "co_status k = CANCELLED \<or> co_status k = co_status j \<and> (co_rem k = 0 \<or> exhausted j (side_map (oppositeSide (co_side j)) s3))"
        by (rule match_postE) blast
      have fr3': "mframe x ?c P s s3" using mframe_trans[OF fr2] fr3 jf(1) by simp
      have tr3': "e_trades s3 = e_trades s @ (ts @ us)" using tr3 tr by simp
      have ex3: "co_status k = CANCELLED \<or> co_rem k = 0 \<or> exhausted j (side_map ?c s3)" using st3 jf(1) by auto
      show ?thesis using fin[OF I3 k fr3' tr3' ex3] True 3 by simp
    next
      case False
      have tr2: "e_trades ?s2 = e_trades s @ ts" using tr by simp
      have ex2: "co_status j = CANCELLED \<or> co_rem j = 0 \<or> exhausted j (side_map ?c ?s2)" using False jf(2) i(3) by auto
      have "0 \<le> co_rem j" using jf(2) i(3) by simp
      from fin[OF I2 j2 refl this order_refl fr2 tr2 ex2] show ?thesis unfolding if_not_P[OF False] by simp
    qed
    moreover have c: "(length (e_trades s1) > ?ts) = True" using tr False by simp
    have up: "upd_ord x (\<lambda>w. w\<lparr>co_price := ct_price (e_trades s1 ! ?ts), co_type := LIMIT,
        co_minQty := (if co_minQty w > 0 then 0 else co_minQty w)\<rparr>) s1 = Some ?s2"
      by (simp add: upd_ord_some[OF i(1)] j_def px_def)
    have "active_mtl x s = do { s \<leftarrow> (if co_rem j > 0 \<and> co_status j \<noteq> CANCELLED then matchOrd x ?s2 else Some ?s2); r \<leftarrow> h_orders s x;
        s \<leftarrow> (if co_status r \<noteq> CANCELLED then dispose x True s else Some s); Some (Inr s) }"
      by (simp only: active_mtl_def Let_def 1 Option.bind.bind_lunit c not_True_eq_False if_False up j2)
    ultimately show ?thesis by (simp only:)
  qed
qed

lemma wouldCross_exhausted: "co_price r \<noteq> 0 \<Longrightarrow> \<not> wouldCross s r \<longleftrightarrow> exhausted r (side_map (oppositeSide (co_side r)) s)"
  by (cases "co_side r") (auto simp: wouldCross_def exhausted_def canMatch_def split: list.splits)

lemma active_post_only_wp:
  assumes I: "cpp_inv s f P {} {}" and x: "x \<in> P" and r: "h_orders s x = Some r" and ok: "active_ok r" and po: "co_postOnly r"
    and pol: "e_poPol s = REJECT"
  shows "wp (active_post_only x s) (keeps (P - {x}) s)"
proof (cases "wouldCross s r")
  case True
  then show ?thesis using cancel_and_drop[OF I x r, of "''POST_ONLY_WOULD_CROSS''"] r pol by (simp add: active_post_only_def)
next
  case False
  have fit: "fit_ok r" using ok po by (auto simp: active_ok_def fit_ok_def)
  then have "co_price r \<noteq> 0" by (simp add: fit_ok_def)
  then have cl: "clear_of s (co_side r) (co_price r)"
    using exhausted_clear[OF I] wouldCross_exhausted[of r s] False by blast
  have "wp (do { s \<leftarrow> insertOrder x s; set_status NEW x s }) (keeps (P - {x}) s)"
    by (rule wp_mono[OF rest_wp[OF I x r fit cl]]) (auto simp: keeps_def env_def intro: same_ids_opt)
  then show ?thesis using r False by (simp add: active_post_only_def)
qed

end
