(* ===== verification/Cpp_Cascade.thy ===== *)
theory Cpp_Cascade
  imports Cpp_Active
begin

text \<open>
  The stop cascade of the C++ reference engine.  \<^verbatim>\<open>processActive\<close> calls \<^verbatim>\<open>evalStops\<close> for each trade,
  and \<^verbatim>\<open>evalStops\<close> calls \<^verbatim>\<open>processActive\<close> for each order it triggers.  Each relies on a contract of
  the other; the contracts are locales, and every depth of the cascade interprets them.
\<close>

section \<open>The two contracts\<close>

locale processes_orders =
  fixes act :: "oaddr \<Rightarrow> CppEngine \<Rightarrow> CppEngine option"
  assumes act_keeps: "cpp_inv s f P {} {} \<Longrightarrow> e_poPol s = REJECT \<Longrightarrow> x \<in> P \<Longrightarrow> active_ok (ord s x) \<Longrightarrow>
    wp (act x s) (keeps (P - {x}) s)"

locale evaluates_stops =
  fixes eval :: "int \<Rightarrow> CppEngine \<Rightarrow> CppEngine option"
  assumes eval_keeps: "cpp_inv s f P {} {} \<Longrightarrow> e_poPol s = REJECT \<Longrightarrow> wp (eval px s) (keeps P s)"

lemma keeps_refl: "cpp_inv s f P {} {} \<Longrightarrow> keeps P s s"
  by (auto simp: keeps_def)

lemma keeps_inv: "keeps P s s' \<Longrightarrow> \<exists>f. cpp_inv s' f P {} {}"
  by (simp add: keeps_def)

section \<open>Evaluating the stops\<close>

text \<open>The scan takes the firing orders out of the vector, each once.\<close>

lemma scan_stops_wp:
  assumes "distinct stops" and "distinct trig" and "set trig \<inter> set stops = {}" and "\<And>x. x \<in> set stops \<Longrightarrow> h x \<noteq> None"
  shows "wp (scan_stops h Q i stops trig) (\<lambda>(trig', st'). distinct trig' \<and> distinct st' \<and> set trig' \<inter> set st' = {} \<and>
    set trig' \<union> set st' = set trig \<union> set stops)"
  using assms
proof (induction h Q i stops trig rule: scan_stops.induct)
  case (1 h Q i stops trig)
  show ?case
  proof (cases "i < length stops")
    case False
    then show ?thesis using "1.prems" by (subst scan_stops.simps) simp
  next
    case True
    let ?x = "stops ! i"
    have x: "?x \<in> set stops" using True by simp
    obtain r where r: "h ?x = Some r" using "1.prems"(4)[OF x] by auto
    note sp = swap_pop_set[OF "1.prems"(1) True]
    show ?thesis
    proof (cases "Q r")
      case fire: True
      have "wp (scan_stops h Q i (swap_pop i stops) (trig @ [?x])) (\<lambda>(trig', st'). distinct trig' \<and> distinct st' \<and> set trig' \<inter> set st' = {} \<and>
          set trig' \<union> set st' = set (trig @ [?x]) \<union> set (swap_pop i stops))"
        by (rule "1.IH"(1)[OF True r fire]) (use "1.prems" sp x in auto)
      moreover have "set (trig @ [?x]) \<union> set (swap_pop i stops) = set trig \<union> set stops" using sp x by auto
      ultimately show ?thesis using True r fire by (subst scan_stops.simps) simp
    next
      case no: False
      have "wp (scan_stops h Q (Suc i) stops trig) (\<lambda>(trig', st'). distinct trig' \<and> distinct st' \<and> set trig' \<inter> set st' = {} \<and>
          set trig' \<union> set st' = set trig \<union> set stops)"
        by (rule "1.IH"(2)[OF True r no]) (use "1.prems" in auto)
      then show ?thesis using True r no by (subst scan_stops.simps) simp
    qed
  qed
qed

text \<open>A stop order that fires becomes one that can be processed.\<close>

lemma trigger_wp:
  assumes I: "cpp_inv s f P {} {}" and x: "x \<in> P" and ok: "stop_ok (ord s x)"
  shows "wp (trigger x s) (\<lambda>s'. cpp_inv s' f P {} {} \<and> active_ok (ord s' x) \<and> (\<forall>y. y \<noteq> x \<longrightarrow> h_orders s' y = h_orders s y) \<and>
    same_ids s s' \<and> e_poPol s' = e_poPol s \<and> e_trades s' = e_trades s)"
proof -
  obtain r where r: "h_orders s x = Some r" using inv_loose[OF I, of x] x by auto
  let ?a = "r\<lparr>co_status := TRIGGERED\<rparr>"
  let ?b = "?a\<lparr>co_type := (if co_type r = STOP_LIMIT then LIMIT else MARKET), co_stop := 0\<rparr>"
  let ?s = "(notify (onOrderTriggered ?a) s)\<lparr>h_orders := (h_orders s)(x \<mapsto> ?b)\<rparr>"
  have run: "trigger x s = Some ?s"
    by (simp add: trigger_def set_status_some[OF r] notify_ord_def notify_def upd_ord_def)
  have "cpp_inv (notify (onOrderTriggered ?a) s) f P {} {}" using I by simp
  from inv_upd[OF this, of x r ?b] have I': "cpp_inv ?s f P {} {}" using r x by (simp add: notify_def lnk_def)
  moreover have "active_ok (ord ?s x)" using ok r by (auto simp: ord_def stop_ok_def active_ok_def base_ok_def)
  moreover have "same_ids s ?s" by (rule same_ids_opt) (use r in \<open>simp add: notify_def\<close>)
  ultimately show ?thesis unfolding run by (simp add: notify_def)
qed

lemma keeps_step:
  assumes "\<forall>y \<in> P. h_orders s1 y = h_orders s y" and "same_ids s s1" and "e_poPol s1 = e_poPol s" and "e_trades s1 = e_trades s @ ts"
    and "keeps P s1 s2"
  shows "keeps P s s2"
  using assms same_ids_trans by (auto simp: keeps_def)

context processes_orders begin

lemma run_triggered_keeps:
  assumes "cpp_inv s f P {} {}" and "e_poPol s = REJECT" and "distinct xs" and "set xs \<subseteq> P" and "\<And>y. y \<in> set xs \<Longrightarrow> stop_ok (ord s y)"
  shows "wp (run_triggered act xs s) (keeps (P - set xs) s)"
  using assms
proof (induction xs arbitrary: s f P)
  case Nil
  then show ?case by (auto intro: keeps_refl)
next
  case (Cons x xs)
  have x: "x \<in> P" "stop_ok (ord s x)" using Cons.prems(4,5) by auto
  from trigger_wp[OF Cons.prems(1) x] obtain s1 where 1: "trigger x s = Some s1" and I1: "cpp_inv s1 f P {} {}"
    and a: "active_ok (ord s1 x)" and o: "\<forall>y. y \<noteq> x \<longrightarrow> h_orders s1 y = h_orders s y" and k1: "same_ids s s1" "e_poPol s1 = e_poPol s" "e_trades s1 = e_trades s"
    by (auto elim!: wpE)
  have "e_poPol s1 = REJECT" using k1 Cons.prems(2) by simp
  from act_keeps[OF I1 this x(1) a] obtain s2 where 2: "act x s1 = Some s2" and k2: "keeps (P - {x}) s1 s2" by (auto elim: wpE)
  have k12: "keeps (P - {x}) s s2" by (rule keeps_step[OF _ k1(1,2) _ k2, of "[]"]) (use o k1(3) in auto)
  obtain f2 where I2: "cpp_inv s2 f2 (P - {x}) {} {}" using keeps_inv[OF k2] by blast
  have "ord s2 y = ord s y" if "y \<in> set xs" for y
  proof -
    have "y \<in> P - {x}" using that Cons.prems(3,4) by auto
    then show ?thesis using k12 by (simp add: keeps_def ord_def)
  qed
  then have "wp (run_triggered act xs s2) (keeps (P - {x} - set xs) s2)"
    using Cons.prems k12 by (intro Cons.IH[OF I2]) (auto simp: keeps_def)
  moreover have "P - {x} - set xs = P - set (x # xs)" by auto
  moreover have "keeps (P - set (x # xs)) s s'" if "keeps (P - set (x # xs)) s2 s'" for s'
    using that k12 same_ids_trans by (auto simp: keeps_def)
  ultimately show ?case using 1 2 by (auto elim: wp_mono)
qed

lemma evalStops_keeps:
  assumes I: "cpp_inv s f P {} {}" and pol: "e_poPol s = REJECT"
  shows "wp (evalStops act px s) (keeps P s)"
proof (cases "e_stops s = []")
  case True
  then show ?thesis using keeps_refl[OF I] by (simp add: evalStops_def)
next
  case False
  note pt = inv_parts[OF I]
  have live: "h_orders s x \<noteq> None" if "x \<in> set (e_stops s)" for x using inv_loose[OF I, of x] that by auto
  from scan_stops_wp[OF pt(7), of "[]" "h_orders s" "fires px" 0] live
  obtain trig st where scan: "scan_stops (h_orders s) (fires px) 0 (e_stops s) [] = Some (trig, st)"
    and d: "distinct trig" "distinct st" "set trig \<inter> set st = {}" "set trig \<union> set st = set (e_stops s)" by (auto elim!: wpE)
  let ?s = "s\<lparr>e_stops := st\<rparr>"
  let ?P = "P \<union> set trig"
  have dis: "set trig \<inter> P = {}" using d(4) pt(8) by auto
  have I': "cpp_inv ?s f ?P {} {}" by (rule inv_stops[OF I]) (use d pt(8) in auto)
  have ids: "same_ids s ?s" by (rule same_ids_opt) simp
  show ?thesis
  proof (cases "trig = []")
    case True
    then have "keeps P s ?s" using I' ids by (auto simp: keeps_def)
    then show ?thesis using False scan True by (simp add: evalStops_def)
  next
    case ne: False
    let ?xs = "sort_key (timestamp_at ?s) trig"
    have ok: "stop_ok (ord ?s y)" if "y \<in> set ?xs" for y
      using inv_stop[OF I, of y] that d(4) by (auto simp: ord_def)
    have pol': "e_poPol ?s = REJECT" and dx: "distinct ?xs" and sub: "set ?xs \<subseteq> ?P" using pol d(1) by auto
    have "wp (run_triggered act ?xs ?s) (keeps (?P - set ?xs) ?s)" by (rule run_triggered_keeps[OF I' pol' dx sub ok])
    moreover have "?P - set ?xs = P" using dis by auto
    ultimately have "wp (run_triggered act ?xs ?s) (keeps P ?s)" by simp
    then have "wp (run_triggered act ?xs ?s) (keeps P s)" by (rule wp_mono) (rule keeps_step[OF _ ids, of _ "[]"]; simp)
    then show ?thesis using False scan ne by (simp add: evalStops_def Let_def)
  qed
qed

end

section \<open>Processing an order\<close>

context evaluates_stops begin

lemma emit_keeps:
  assumes "cpp_inv s f P {} {}" and "e_poPol s = REJECT" and "i + k \<le> length (e_trades s)"
  shows "wp (emit_from eval k i s) (keeps P s)"
  using assms
proof (induction k arbitrary: i s f)
  case 0
  then show ?case by (auto intro: keeps_refl)
next
  case (Suc k)
  let ?t = "e_trades s ! i"
  let ?s = "(notify (onTrade ?t) s)\<lparr>e_lastPx := ct_price ?t\<rparr>"
  have lt: "i < length (e_trades s)" using Suc.prems(3) by simp
  have I1: "cpp_inv ?s f P {} {}" and pol: "e_poPol ?s = REJECT" using Suc.prems by (simp_all add: notify_def)
  have ids: "same_ids s ?s" by (rule same_ids_opt) (simp add: notify_def)
  from eval_keeps[OF I1 pol] obtain s1 where 1: "eval (ct_price ?t) ?s = Some s1" and k1: "keeps P ?s s1" by (auto elim: wpE)
  have k1': "keeps P s s1" by (rule keeps_step[OF _ ids, of _ "[]"]) (use k1 in \<open>simp_all add: notify_def\<close>)
  obtain f1 where I2: "cpp_inv s1 f1 P {} {}" using keeps_inv[OF k1] by blast
  have "wp (emit_from eval k (Suc i) s1) (keeps P s1)"
    using Suc.prems k1' by (intro Suc.IH[OF I2]) (auto simp: keeps_def)
  then have "wp (emit_from eval k (Suc i) s1) (keeps P s)" by (rule wp_mono) (rule keeps_trans[OF k1'])
  then show ?case using 1 lt by (simp add: Let_def)
qed

text \<open>The end: an order that is still in hand is filled or cancelled, and is released.\<close>

lemma close_keeps:
  assumes st: "settled x P s s1" and x: "x \<in> P" and r: "h_orders s x = Some r" and pol: "e_poPol s = REJECT"
    and I: "cpp_inv s f P {} {}"
  shows "wp (do { s \<leftarrow> emitAndTrigger eval (length (e_trades s)) s1; active_close x (co_id r) s }) (keeps (P - {x}) s)"
proof -
  obtain ts where tr: "e_trades s1 = e_trades s @ ts" using st by (auto simp: settled_def)
  have pol1: "e_poPol s1 = REJECT" and ids1: "same_ids s s1" and fr1: "\<forall>y \<in> P - {x}. h_orders s1 y = h_orders s y"
    using st pol by (simp_all add: settled_def)
  have only: "y = x" if "h_orders s' y \<noteq> None" "co_id (ord s' y) = co_id r" "same_ids s s'" for s' y
  proof -
    have "h_orders s y \<noteq> None" "co_id (ord s y) = co_id r" using that by (auto simp: same_ids_def)
    moreover have "h_orders s x \<noteq> None" "co_id (ord s x) = co_id r" using r by (simp_all add: ord_def)
    ultimately show ?thesis using inv_parts(9)[OF I] unfolding index_ok_def by (metis option.inject)
  qed
  have after: "wp (active_close x (co_id r) s2) Q"
    if I2: "cpp_inv s2 f2 Q' {} {}" and ids: "same_ids s s2" and gone: "h_orders s2 x = None \<Longrightarrow> Q s2"
      and live: "\<And>q. h_orders s2 x = Some q \<Longrightarrow> wp (if co_status q = FILLED \<or> co_status q = CANCELLED then drop_ord x s2 else Some s2) Q"
    for s2 f2 Q' Q
  proof (cases "OrderIndex_has (e_idx s2) (co_id r)")
    case True
    then obtain y q where "h_orders s2 y = Some q" "co_id q = co_id r" using hasOrder_live[OF I2, of "co_id r"] by (auto simp: hasOrder_def)
    then have "h_orders s2 x = Some q" using only[of s2 y] ids by (simp add: ord_def)
    then show ?thesis using True live by (simp add: active_close_def)
  next
    case False
    have "h_orders s2 x = None"
    proof (rule ccontr)
      assume "h_orders s2 x \<noteq> None"
      then obtain q where q: "h_orders s2 x = Some q" by blast
      then have "co_id q = co_id r" using ids r by (auto simp: same_ids_def ord_def)
      then show False using hasOrder_live[OF I2, of "co_id r"] q False by (auto simp: hasOrder_def)
    qed
    then show ?thesis using False gone by (simp add: active_close_def)
  qed
  have em: "wp (emitAndTrigger eval (length (e_trades s)) s1) (keeps P' s1)" if "cpp_inv s1 f1 P' {} {}" for f1 P'
    unfolding emitAndTrigger_def by (rule emit_keeps[OF that pol1]) (simp add: tr)
  from st consider (rests) f1 where "cpp_inv s1 f1 (P - {x}) {} {}"
    | (over) f1 where "cpp_inv s1 f1 P {} {}" "co_status (ord s1 x) = FILLED \<or> co_status (ord s1 x) = CANCELLED"
    by (auto simp: settled_def)
  then show ?thesis
  proof cases
    case rests
    from em[OF rests] obtain s2 where 2: "emitAndTrigger eval (length (e_trades s)) s1 = Some s2" and k: "keeps (P - {x}) s1 s2" by (auto elim: wpE)
    have k2: "keeps (P - {x}) s s2" by (rule keeps_step[OF fr1 ids1 _ tr k]) (simp add: pol pol1)
    obtain f2 where I2: "cpp_inv s2 f2 (P - {x}) {} {}" using keeps_inv[OF k2] by blast
    have ids2: "same_ids s s2" using k2 by (simp add: keeps_def)
    have alive: "\<not> (co_status q = FILLED \<or> co_status q = CANCELLED)" if q: "h_orders s2 x = Some q" for q
    proof (cases "x \<in> set (e_stops s2)")
      case True
      then show ?thesis using inv_stop[OF I2, of x] q by (simp add: ord_def stop_ok_def)
    next
      case False
      then obtain sd p lv as bs where lv: "(p, lv) \<in> set (side_map sd s2)" "f2 lv = as @ x # bs" using resting_at[OF I2 q] by auto
      then show ?thesis using inv_level(5)[OF I2 lv(1), of x] q by (auto simp: ord_def rest_ok_def)
    qed
    have "wp (active_close x (co_id r) s2) (keeps (P - {x}) s)"
      by (rule after[OF I2 ids2]) (use k2 alive in auto)
    then show ?thesis by (simp add: 2)
  next
    case over
    from em[OF over(1)] obtain s2 where 2: "emitAndTrigger eval (length (e_trades s)) s1 = Some s2" and k: "keeps P s1 s2" by (auto elim: wpE)
    obtain f2 where I2: "cpp_inv s2 f2 P {} {}" using keeps_inv[OF k] by blast
    have ids2: "same_ids s s2" using k ids1 same_ids_trans by (auto simp: keeps_def)
    have same: "ord s2 x = ord s1 x" using k x by (simp add: keeps_def ord_def)
    have fr2: "\<forall>y \<in> P - {x}. h_orders s2 y = h_orders s y" using k fr1 by (simp add: keeps_def)
    have dr: "wp (drop_ord x s2) (keeps (P - {x}) s)"
    proof -
      from inv_drop[OF I2 x] obtain s3 where 3: "drop_ord x s2 = Some s3" and I3: "cpp_inv s3 f2 (P - {x}) {} {}"
        and h: "h_orders s3 = (h_orders s2)(x := None)" and e: "env s2 s3" by (auto elim!: wpE)
      have "same_ids s2 s3" by (auto simp: same_ids_def h ord_def)
      then have "same_ids s s3" using ids2 same_ids_trans by blast
      then show ?thesis using 3 I3 h e fr2 k tr pol pol1 by (auto simp: keeps_def env_def)
    qed
    have "h_orders s2 x \<noteq> None" using inv_loose[OF I2, of x] x by auto
    then have "wp (active_close x (co_id r) s2) (keeps (P - {x}) s)"
      by (intro after[OF I2 ids2]) (use dr over(2) same in \<open>auto simp: ord_def\<close>)
    then show ?thesis by (simp add: 2)
  qed
qed

lemma active_with_keeps:
  assumes I: "cpp_inv s f P {} {}" and pol: "e_poPol s = REJECT" and x: "x \<in> P" and ok: "active_ok (ord s x)"
  shows "wp (active_with eval x s) (keeps (P - {x}) s)"
proof -
  obtain r where r: "h_orders s x = Some r" using inv_loose[OF I, of x] x by auto
  have ok': "active_ok r" and b: "base_ok r" using ok r by (simp_all add: ord_def active_ok_def)
  show ?thesis
  proof (cases "co_postOnly r")
    case True
    then show ?thesis using active_post_only_wp[OF I x r ok' True pol] r by (simp add: active_with_def)
  next
    case False
    from active_check_wp[OF I r b] obtain err where c: "active_check x s = Some err"
      and fok: "err = None \<Longrightarrow> co_tif r = FOK \<Longrightarrow> co_qty r \<le> reach s r f (side_map (oppositeSide (co_side r)) s)" by (auto elim: wpE)
    show ?thesis
    proof (cases err)
      case (Some why)
      then show ?thesis using cancel_and_drop[OF I x r, of why] r False c by (simp add: active_with_def)
    next
      case None
      let ?res = "if co_type r = MARKET_TO_LIMIT then active_mtl x s else do { s \<leftarrow> active_plain x s; Some (Inr s) }"
      have "wp ?res (mtl_post x P s)"
        using active_mtl_wp[OF I x r ok'] active_plain_wp[OF I x r ok' _ fok[OF None]] by (auto simp: mtl_post_def)
      then obtain res where 1: "?res = Some res" and post: "mtl_post x P s res" by (rule wpE)
      have "active_with eval x s = (case res of Inl s \<Rightarrow> Some s
          | Inr s' \<Rightarrow> do { s \<leftarrow> emitAndTrigger eval (length (e_trades s)) s'; active_close x (co_id r) s })"
        using r False c None 1 by (simp add: active_with_def Let_def del: if_split)
      then show ?thesis
        using post close_keeps[OF _ x r pol I] by (cases res) (simp_all add: mtl_post_def)
    qed
  qed
qed

end

section \<open>Every depth\<close>

lemma evaluates_nothing: "evaluates_stops (\<lambda>px s. Some s)"
  by unfold_locales (auto intro: keeps_refl)

lemma processes_of_evaluates: "evaluates_stops eval \<Longrightarrow> processes_orders (active_with eval)"
  by unfold_locales (rule evaluates_stops.active_with_keeps)

lemma evaluates_of_processes: "processes_orders act \<Longrightarrow> evaluates_stops (evalStops act)"
  by unfold_locales (rule processes_orders.evalStops_keeps)

lemma processActive_processes: "processes_orders (processActive d)"
proof (induction d)
  case 0
  show ?case using processes_of_evaluates[OF evaluates_nothing] by simp
next
  case (Suc d)
  then show ?case using processes_of_evaluates[OF evaluates_of_processes] by simp
qed

interpretation cascade: processes_orders "processActive d" for d
  by (rule processActive_processes)

interpretation stops_at: evaluates_stops "evalStops (processActive d)" for d
  by (rule evaluates_of_processes) (rule processActive_processes)

section \<open>The dispatch on the type\<close>

definition incoming_ok :: "CppOrder \<Rightarrow> bool" where
  "incoming_ok r \<longleftrightarrow> (if co_type r = STOP_LIMIT \<or> co_type r = STOP_MARKET then stop_ok r else active_ok r)"

lemma process_keeps:
  assumes I: "cpp_inv s f P {} {}" and pol: "e_poPol s = REJECT" and x: "x \<in> P" and ok: "incoming_ok (ord s x)"
  shows "wp (process x s) (keeps (P - {x}) s)"
proof -
  obtain r where r: "h_orders s x = Some r" using inv_loose[OF I, of x] x by auto
  then have or: "ord s x = r" by (simp add: ord_def)
  show ?thesis
  proof (cases "co_type r = STOP_LIMIT \<or> co_type r = STOP_MARKET")
    case False
    then have "active_ok (ord s x)" using ok or by (simp add: incoming_ok_def)
    then show ?thesis using cascade.act_keeps[OF I pol x] r False by (simp add: process_def)
  next
    case True
    then have st: "stop_ok (ord s x)" using ok or by (simp add: incoming_ok_def)
    show ?thesis
    proof (cases "shouldTrigger s r")
      case fire: True
      from trigger_wp[OF I x st] obtain s1 where 1: "trigger x s = Some s1" and I1: "cpp_inv s1 f P {} {}" and a: "active_ok (ord s1 x)"
        and o: "\<forall>y. y \<noteq> x \<longrightarrow> h_orders s1 y = h_orders s y" and k: "same_ids s s1" "e_poPol s1 = e_poPol s" "e_trades s1 = e_trades s"
        by (auto elim!: wpE)
      have pol1: "e_poPol s1 = REJECT" using k pol by simp
      have "wp (processActive MAX_CASCADE x s1) (keeps (P - {x}) s)"
        by (rule wp_mono[OF cascade.act_keeps[OF I1 pol1 x a]]) (rule keeps_step[OF _ k(1,2), of _ "[]"], use o k(3) in auto)
      then show ?thesis using r True fire 1 by (simp add: process_def)
    next
      case False
      let ?s = "s\<lparr>e_stops := e_stops s @ [x]\<rparr>"
      have nx: "x \<notin> set (e_stops s)" using inv_parts(8)[OF I] x by auto
      have "cpp_inv ?s f (P - {x}) {} {}"
        by (rule inv_stops[OF I]) (use inv_parts(7,8)[OF I] x nx st in auto)
      moreover have "same_ids s ?s" by (rule same_ids_opt) simp
      ultimately have "keeps (P - {x}) s ?s" by (auto simp: keeps_def)
      then show ?thesis using r True False by (simp add: process_def)
    qed
  qed
qed

end
