(* ===== verification/Cpp_System.thy ===== *)
theory Cpp_System
  imports Cpp_Cascade
begin

text \<open>
  The C++ reference engine as its callers see it: every entry point from every reachable state.
\<close>

section \<open>Submission\<close>

lemma if_Some_None: "(if c then Some e else r) = None \<longleftrightarrow> \<not> c \<and> r = None"
  by simp

lemma validate_incoming:
  assumes v: "validate now r = None" and q: "co_rem r = co_qty r" "co_qty r \<le> cpp_max_qty" "co_status r = NEW"
  shows "incoming_ok r"
proof -
  note w = v[unfolded validate_def if_Some_None]
  have "\<not> co_qty r \<le> 0" "\<not> (co_display r \<noteq> 0 \<and> (co_display r \<le> 0 \<or> co_display r > co_qty r))"
    "\<not> (co_stg r = 0) \<noteq> (co_stp r = NONE)" "\<not> (co_minQty r \<noteq> 0 \<and> (co_minQty r \<le> 0 \<or> co_minQty r > co_qty r))"
    using w by - (elim conjE, assumption)+
  then have b: "base_ok r" using q by (auto simp: base_ok_def)
  have "\<not> (co_type r = LIMIT \<and> co_price r \<le> 0)" "\<not> (co_type r = STOP_LIMIT \<and> co_price r \<le> 0)"
    "\<not> (co_type r = MARKET_TO_LIMIT \<and> co_price r \<noteq> 0)" "\<not> ((co_type r = MARKET \<or> co_type r = STOP_MARKET) \<and> co_price r \<noteq> 0)"
    "\<not> (co_type r = MARKET_TO_LIMIT \<and> co_tif r \<noteq> GTC \<and> co_tif r \<noteq> GTD \<and> co_tif r \<noteq> DAY)"
    "\<not> (co_postOnly r \<and> co_type r \<noteq> LIMIT)" "\<not> (co_postOnly r \<and> (co_tif r = IOC \<or> co_tif r = FOK))"
    using w by - (elim conjE, assumption)+
  then show ?thesis
    using b q by (cases "co_type r") (auto simp: incoming_ok_def active_ok_def stop_ok_def)
qed

text \<open>The state in which the new order is built.\<close>

definition with_new :: "OrderInput \<Rightarrow> CppEngine \<Rightarrow> CppEngine" where
  "with_new inp s = (snd (allocOrd s))\<lparr>e_now := e_now s + 1,
     h_orders := (h_orders s)(h_obrk s \<mapsto> built_order inp (e_now s + 1))\<rparr>"

lemma with_new_sel:
  "h_orders (with_new inp s) = (h_orders s)(h_obrk s \<mapsto> built_order inp (e_now s + 1))"
  "h_obrk (with_new inp s) = Suc (h_obrk s)" "e_oA (with_new inp s) = e_oA s + 1" "e_oF (with_new inp s) = e_oF s"
  "h_levels (with_new inp s) = h_levels s" "h_lbrk (with_new inp s) = h_lbrk s" "e_bids (with_new inp s) = e_bids s"
  "e_asks (with_new inp s) = e_asks s" "e_idx (with_new inp s) = e_idx s" "e_stops (with_new inp s) = e_stops s"
  "e_lA (with_new inp s) = e_lA s" "e_lF (with_new inp s) = e_lF s" "e_trades (with_new inp s) = e_trades s"
  "e_poPol (with_new inp s) = e_poPol s" "e_now (with_new inp s) = e_now s + 1"
  by (simp_all add: with_new_def allocOrd_def new_order_def Let_def)

lemma submit_run:
  assumes "\<not> hasOrder s (in_id inp)"
  shows "submitOrder inp s =
    (let x = h_obrk s; r = built_order inp (e_now s + 1); s1 = with_new inp s in
     case validate (e_now s + 1) r of
       Some err \<Rightarrow> do { s \<leftarrow> set_status REJECTED x s1; s \<leftarrow> notify_ord (\<lambda>w. onOrderRejected w err) x s; freeOrd x s }
     | None \<Rightarrow> do { s \<leftarrow> idx_insert (co_id r) x s1; s \<leftarrow> notify_ord onOrderAccepted x s; process x (s\<lparr>e_trades := []\<rparr>) })"
  using assms
  by (simp add: submitOrder_def hasOrder_def with_new_def allocOrd_def new_order_def tick_def upd_ord_def Let_def built_order_def
      split: option.splits)

text \<open>What every call leaves: the invariant, and no new id but the one that was handed in.\<close>

definition settles :: "u64 set \<Rightarrow> CppEngine \<Rightarrow> CppEngine \<Rightarrow> bool" where
  "settles new s s' \<longleftrightarrow> (\<exists>f. cpp_inv s' f {} {} {}) \<and> e_poPol s' = e_poPol s \<and>
     (\<forall>i. hasOrder s' i \<longrightarrow> hasOrder s i \<or> i \<in> new)"

lemma settles_keeps:
  assumes I: "cpp_inv s f P {} {}" and k: "keeps {} s s'"
  shows "\<exists>f. cpp_inv s' f {} {} {}" "hasOrder s' i \<Longrightarrow> hasOrder s i" "e_poPol s' = e_poPol s"
proof -
  show "\<exists>f. cpp_inv s' f {} {} {}" "e_poPol s' = e_poPol s" using k by (simp_all add: keeps_def)
  then obtain f' where I': "cpp_inv s' f' {} {} {}" by blast
  assume "hasOrder s' i"
  then obtain x r where x: "h_orders s' x = Some r" "co_id r = i" using hasOrder_live[OF I'] by blast
  have "h_orders s x \<noteq> None \<and> co_id (ord s x) = co_id (ord s' x)" using k x(1) by (simp add: keeps_def same_ids_def)
  then obtain w where "h_orders s x = Some w" "co_id w = i" using x by (auto simp: ord_def)
  then show "hasOrder s i" using hasOrder_live[OF I] by blast
qed

lemma fresh_order:
  assumes "cpp_inv s f P E X"
  shows "h_orders s (h_obrk s) = None" "h_obrk s \<notin> set (e_stops s)" "(q, k) \<in> set (side_map sd s) \<Longrightarrow> h_obrk s \<notin> set (f k)" "h_obrk s \<notin> P"
proof -
  show *: "h_orders s (h_obrk s) = None" using bspec[OF inv_parts(6)[OF assms], of "h_obrk s"] by auto
  show "h_obrk s \<notin> set (e_stops s)" "(q, k) \<in> set (side_map sd s) \<Longrightarrow> h_obrk s \<notin> set (f k)" "h_obrk s \<notin> P"
    using * inv_live[OF assms, of "h_obrk s"] by blast+
qed

text \<open>A rejected order is gone when the call returns.\<close>

lemma submit_rejected_wp:
  assumes I: "cpp_inv s f {} {} {}"
  shows "wp (let x = h_obrk s in do { s \<leftarrow> set_status REJECTED x (with_new inp s); s \<leftarrow> notify_ord ev x s; freeOrd x s })
    (\<lambda>s'. settles {} s s' \<and> cpp_inv s' f {} {} {} \<and> h_orders s' = h_orders s \<and> (\<forall>sd. side_map sd s' = side_map sd s) \<and> env s s')"
proof -
  let ?x = "h_obrk s"
  let ?r = "(built_order inp (e_now s + 1))\<lparr>co_status := REJECTED\<rparr>"
  let ?s1 = "notify (ev ?r) ((with_new inp s)\<lparr>h_orders := (h_orders s)(?x \<mapsto> ?r)\<rparr>)"
  let ?s = "?s1\<lparr>h_orders := h_orders s, e_oF := e_oF s + 1\<rparr>"
  note new = fresh_order[OF I] and pt = inv_parts[OF I]
  have run: "do { s \<leftarrow> set_status REJECTED ?x (with_new inp s); s \<leftarrow> notify_ord ev ?x s; freeOrd ?x s } = Some ?s"
    using new(1) by (simp add: set_status_def upd_ord_def notify_ord_def notify_def freeOrd_def delete_order_def with_new_sel fun_upd_idem)
  have od: "ord ?s = ord s" by (rule ord_same) simp
  have ix: "h_orders ?s = h_orders s" "e_idx ?s = e_idx s" by (simp_all add: notify_def with_new_sel)
  have "cpp_inv ?s f {} {} {}"
  proof (rule inv_orders[OF I new(2,3)])
    show "index_ok ?s" using pt(9) unfolding index_ok_def od ix .
    show "counts_ok ?s" using pt(10) by (simp add: counts_ok_def notify_def with_new_sel)
    show "trades_ok ?s" using pt(11) by (simp add: trades_ok_def notify_def with_new_sel)
  qed (use new(1) in \<open>simp_all add: notify_def with_new_sel\<close>)
  moreover have "side_map sd ?s = side_map sd s" for sd by (cases sd) (simp_all add: notify_def with_new_sel)
  ultimately show ?thesis unfolding Let_def run by (auto simp: settles_def env_def notify_def with_new_sel hasOrder_def)
qed

text \<open>An accepted order is in the index and in hand when it is processed.\<close>

lemma accept_run:
  assumes I: "cpp_inv s f {} {} {}" and id: "unat (in_id inp) < 2 ^ 31" "\<not> hasOrder s (in_id inp)"
  obtains s2 where "(let x = h_obrk s in do { s \<leftarrow> idx_insert (in_id inp) x (with_new inp s); s \<leftarrow> notify_ord onOrderAccepted x s;
      process x (s\<lparr>e_trades := []\<rparr>) }) = process (h_obrk s) s2"
    and "cpp_inv s2 f {h_obrk s} {} {}" and "h_orders s2 = (h_orders s)(h_obrk s \<mapsto> built_order inp (e_now s + 1))"
    and "e_poPol s2 = e_poPol s" and "e_stops s2 = e_stops s" and "e_trades s2 = []" and "\<And>sd. side_map sd s2 = side_map sd s"
proof -
  let ?x = "h_obrk s"
  let ?r = "built_order inp (e_now s + 1)"
  have bo: "co_id ?r = in_id inp" "co_level ?r = None" by (simp_all add: built_order_def default_order_def)
  have "OrderIndex_get (e_idx s) (co_id ?r) = None" using id(2) bo(1) by (simp add: hasOrder_def OrderIndex_has_def)
  from inv_accept[OF I with_new_sel(1-13) bo(2) _ this] id(1) bo(1)
  obtain ix where 1: "idx_insert (in_id inp) ?x (with_new inp s) = Some ((with_new inp s)\<lparr>e_idx := ix\<rparr>)"
    and I1: "cpp_inv ((with_new inp s)\<lparr>e_idx := ix\<rparr>) f {?x} {} {}" by (auto elim!: wpE)
  let ?s1 = "(with_new inp s)\<lparr>e_idx := ix\<rparr>"
  let ?s2 = "(notify (onOrderAccepted ?r) ?s1)\<lparr>e_trades := []\<rparr>"
  have 2: "notify_ord onOrderAccepted ?x ?s1 = Some (notify (onOrderAccepted ?r) ?s1)" by (simp add: notify_ord_def with_new_sel)
  have I2: "cpp_inv ?s2 f {?x} {} {}" by (rule inv_trades) (use I1 in \<open>simp_all add: trades_ok_def\<close>)
  have "side_map sd ?s2 = side_map sd s" for sd by (cases sd) (simp_all add: notify_def with_new_sel)
  then show thesis by (intro that[of ?s2]) (simp_all add: 1 2 I2, simp_all add: notify_def with_new_sel)
qed

lemma submit_accepted_wp:
  assumes I: "cpp_inv s f {} {} {}" and pol: "e_poPol s = REJECT" and id: "unat (in_id inp) < 2 ^ 31" "\<not> hasOrder s (in_id inp)"
    and q: "in_qty inp \<le> cpp_max_qty" and v: "validate (e_now s + 1) (built_order inp (e_now s + 1)) = None"
  shows "wp (let x = h_obrk s in do { s \<leftarrow> idx_insert (in_id inp) x (with_new inp s); s \<leftarrow> notify_ord onOrderAccepted x s;
      process x (s\<lparr>e_trades := []\<rparr>) }) (settles {in_id inp} s)"
proof -
  let ?x = "h_obrk s"
  let ?r = "built_order inp (e_now s + 1)"
  have bo: "co_id ?r = in_id inp" "co_rem ?r = co_qty ?r" "co_qty ?r = in_qty inp" "co_status ?r = NEW"
    by (simp_all add: built_order_def default_order_def)
  obtain s2 where run: "(let x = h_obrk s in do { s \<leftarrow> idx_insert (in_id inp) x (with_new inp s); s \<leftarrow> notify_ord onOrderAccepted x s;
      process x (s\<lparr>e_trades := []\<rparr>) }) = process ?x s2"
    and I2: "cpp_inv s2 f {?x} {} {}" and h: "h_orders s2 = (h_orders s)(?x \<mapsto> ?r)" and e: "e_poPol s2 = e_poPol s" "e_stops s2 = e_stops s"
      "e_trades s2 = []" by (rule accept_run[OF I id])
  have or: "ord s2 ?x = ?r" by (simp add: ord_def h)
  have ok: "incoming_ok (ord s2 ?x)" unfolding or by (rule validate_incoming[OF v]) (use q bo in simp_all)
  have pol2: "e_poPol s2 = REJECT" using pol e by simp
  have ids: "hasOrder s i" if new: "hasOrder s2 i" and ne: "i \<noteq> in_id inp" for i
  proof -
    obtain y w where y: "h_orders s2 y = Some w" "co_id w = i" using iffD1[OF hasOrder_live[OF I2] new] by (elim exE conjE)
    then have "h_orders s y = Some w" using ne bo(1) by (auto simp: h split: if_splits)
    then show ?thesis using hasOrder_live[OF I] y(2) by blast
  qed
  show ?thesis unfolding run
  proof (rule wp_mono[OF process_keeps[OF I2 pol2 _ ok]])
    fix s' assume "keeps ({?x} - {?x}) s2 s'"
    then have k: "keeps {} s2 s'" by simp
    note sk = settles_keeps[OF I2 k]
    show "settles {in_id inp} s s'" using sk(1,3) sk(2) ids e by (auto simp: settles_def)
  qed simp
qed

theorem submit_wp:
  assumes I: "cpp_inv s f {} {} {}" and "e_poPol s = REJECT" and "unat (in_id inp) < 2 ^ 31" and "in_qty inp \<le> cpp_max_qty"
  shows "wp (submitOrder inp s) (settles {in_id inp} s)"
proof (cases "hasOrder s (in_id inp)")
  case True
  then show ?thesis using I by (auto simp: submitOrder_def hasOrder_def settles_def notify_def)
next
  case False
  have mono: "settles {} s s' \<Longrightarrow> settles {in_id inp} s s'" for s' by (auto simp: settles_def)
  have id: "co_id (built_order inp (e_now s + 1)) = in_id inp" by (simp add: built_order_def)
  show ?thesis
  proof (cases "validate (e_now s + 1) (built_order inp (e_now s + 1))")
    case None
    show ?thesis unfolding submit_run[OF False] Let_def None option.case id
      by (rule submit_accepted_wp[OF I assms(2,3) False assms(4) None, unfolded Let_def])
  next
    case (Some err)
    show ?thesis unfolding submit_run[OF False] Let_def Some option.case
      by (rule wp_mono[OF submit_rejected_wp[OF I, unfolded Let_def]]) (blast intro: mono)
  qed
qed

section \<open>Amendment\<close>

text \<open>An order with a new price, a new quantity and a new place in time.\<close>

definition amended :: "int \<Rightarrow> int \<Rightarrow> u64 \<Rightarrow> CppOrder \<Rightarrow> CppOrder" where
  "amended px q t r = (let r = (if px > 0 then r\<lparr>co_price := px\<rparr> else r); r = (if q > 0 then r\<lparr>co_rem := q\<rparr> else r);
     r = r\<lparr>co_timestamp := t\<rparr> in r\<lparr>co_visible := fresh_visible r\<rparr>)"

lemma amended_ok:
  assumes "rest_ok sd p r" and "q \<le> cpp_max_qty" and "core r = core w"
  shows "active_ok (amended px q t w)" and "lnk (amended px q t w) = lnk w"
proof -
  have "rest_ok sd p w" using assms(1) ok_core(2)[OF assms(3)] by simp
  then show "active_ok (amended px q t w)" using assms(2) by (auto simp: amended_def Let_def rest_ok_def active_ok_def base_ok_def)
  show "lnk (amended px q t w) = lnk w" by (simp add: amended_def Let_def)
qed

lemma amend_requeue_wp:
  assumes I: "cpp_inv s f {} {} {}" and pol: "e_poPol s = REJECT" and lv: "(p, lv) \<in> set (side_map sd s)" and x: "f lv = as @ x # bs"
    and q: "q \<le> cpp_max_qty"
  shows "wp (do { s \<leftarrow> leave_level lv x s; s \<leftarrow> upd_ord x (\<lambda>w. if px > 0 then w\<lparr>co_price := px\<rparr> else w) s;
      s \<leftarrow> upd_ord x (\<lambda>w. if q > 0 then w\<lparr>co_rem := q\<rparr> else w) s; let (t, s) = tick s; s \<leftarrow> upd_ord x (\<lambda>w. w\<lparr>co_timestamp := t\<rparr>) s;
      s \<leftarrow> upd_ord x (\<lambda>w. w\<lparr>co_visible := fresh_visible w\<rparr>) s; s \<leftarrow> processActive MAX_CASCADE x (s\<lparr>e_trades := []\<rparr>); Some (True, s) })
    (\<lambda>(b, s'). b \<and> settles {} s s')"
proof -
  obtain r where r: "h_orders s x = Some r" using inv_level(4)[OF I lv, of x] x by auto
  have rok: "rest_ok sd p r" using inv_level(5)[OF I lv, of x] x r by (simp add: ord_def)
  then have "co_side (ord s x) = sd" using r by (simp add: ord_def rest_ok_def)
  from leave_level_wp[OF I lv x this] obtain s2 f2 where 2: "leave_level lv x s = Some s2" and I2: "cpp_inv s2 f2 {x} {} {}"
    and e: "env s s2" and fr: "\<forall>y. map_option core (h_orders s2 y) = map_option core (h_orders s y)" by (auto elim!: wpE)
  obtain w where w: "h_orders s2 x = Some w" and co: "core r = core w" using fr[rule_format, of x] r by auto
  let ?w = "amended px q (e_now s2 + 1) w"
  let ?s3 = "s2\<lparr>e_now := e_now s2 + 1, h_orders := (h_orders s2)(x \<mapsto> ?w), e_trades := []\<rparr>"
  have "cpp_inv (s2\<lparr>e_now := e_now s2 + 1\<rparr>) f2 {x} {} {}" using I2 by simp
  from inv_upd[OF this, of x w ?w] w amended_ok(2)[OF rok q co]
  have "cpp_inv (s2\<lparr>e_now := e_now s2 + 1, h_orders := (h_orders s2)(x \<mapsto> ?w)\<rparr>) f2 {x} {} {}" by simp
  then have I3: "cpp_inv ?s3 f2 {x} {} {}" by (intro inv_trades) (simp_all add: trades_ok_def)
  have act: "active_ok (ord ?s3 x)" using amended_ok(1)[OF rok q co] by (simp add: ord_def)
  have pol3: "e_poPol ?s3 = REJECT" using e pol by (simp add: env_def)
  from cascade.act_keeps[OF I3 pol3 _ act] obtain s4 where 4: "processActive MAX_CASCADE x ?s3 = Some s4" and k: "keeps {} ?s3 s4"
    by (auto elim!: wpE)
  have ids: "hasOrder ?s3 i \<Longrightarrow> hasOrder s i" for i
  proof -
    have "map_option co_id (h_orders ?s3 y) = map_option co_id (h_orders s y)" for y
      using core_ids[OF fr[rule_format, of y]] amended_ok(2)[OF rok q co] w by (auto simp: lnk_def)
    then have "same_ids s ?s3" by (rule same_ids_opt)
    moreover assume "hasOrder ?s3 i"
    then obtain y v where "h_orders ?s3 y = Some v" "co_id v = i" using iffD1[OF hasOrder_live[OF I3]] by blast
    ultimately obtain u where "h_orders s y = Some u" "co_id u = i" unfolding same_ids_def by (force simp: ord_def)
    then show "hasOrder s i" using hasOrder_live[OF I] by blast
  qed
  have "settles {} s s4" using settles_keeps[OF I3 k] ids e by (auto simp: settles_def env_def)
  then show ?thesis using 2 4 w by (cases "px > 0"; cases "q > 0") (simp_all add: upd_ord_def tick_def amended_def Let_def)
qed

text \<open>A smaller quantity keeps the place in the queue.\<close>

lemma amend_down_inv:
  assumes I: "cpp_inv s f {} {} {}" and lv: "(p, lv) \<in> set (side_map sd s)" and x: "x \<in> set (f lv)" and r: "h_orders s x = Some r"
    and q: "0 < q" "q < co_rem r"
  shows "cpp_inv (s\<lparr>h_orders := (h_orders s)(x \<mapsto> r\<lparr>co_rem := q, co_visible := min (co_visible r) q\<rparr>)\<rparr>) f {} {} {}" (is "cpp_inv ?s f {} {} {}")
proof -
  have rok: "rest_ok sd p r" using inv_level(5)[OF I lv x] r by (simp add: ord_def)
  have I1: "cpp_inv ?s f {} {} {x}" by (rule inv_upd[OF inv_weaken[OF I] r]) auto
  have "rest_ok sd p (r\<lparr>co_rem := q, co_visible := min (co_visible r) q\<rparr>)" using rok q by (auto simp: rest_ok_def base_ok_def)
  then have ok: "rest_ok sd p (ord ?s x)" by (simp add: ord_def)
  have lv': "(p, lv) \<in> set (side_map sd ?s)" using lv by simp
  show "cpp_inv ?s f {} {} {}" by (rule inv_clean_at[OF I1 lv' x ok])
qed

lemma amend_down_wp:
  assumes "cpp_inv s f {} {} {}" and "(p, lv) \<in> set (side_map sd s)" and "x \<in> set (f lv)" and "h_orders s x = Some r"
    and "0 < q" "q < co_rem r"
  shows "settles {} s (s\<lparr>h_orders := (h_orders s)(x \<mapsto> r\<lparr>co_rem := q, co_visible := min (co_visible r) q\<rparr>)\<rparr>)"
  using amend_down_inv[OF assms] by (auto simp: settles_def hasOrder_def)

lemma amend_wp:
  assumes I: "cpp_inv s f {} {} {}" and pol: "e_poPol s = REJECT" and q: "newQty \<le> cpp_max_qty"
  shows "wp (amendOrder i newPx newQty s) (\<lambda>(b, s'). settles {} s s')"
proof (cases "OrderIndex_get (e_idx s) i")
  case None
  then show ?thesis using I by (auto simp: amendOrder_def settles_def)
next
  case (Some x)
  then obtain r where r: "h_orders s x = Some r" using inv_parts(9)[OF I] by (auto simp: index_ok_def)
  have same: "settles {} s s" using I by (auto simp: settles_def)
  show ?thesis
  proof (cases "co_level r")
    case None
    then show ?thesis using Some r same by (auto simp: amendOrder_def)
  next
    case (Some l)
    then have "x \<notin> set (e_stops s)" using inv_loose[OF I, of x] r by auto
    then obtain sd p lv as bs where lv: "(p, lv) \<in> set (side_map sd s)" "f lv = as @ x # bs" "co_level r = Some lv"
      using resting_at[OF I r] by auto
    note st = live_status[OF I r]
    show ?thesis
      using amend_requeue_wp[OF I pol lv(1,2) q, of newPx] amend_down_wp[OF I lv(1) _ r, of newQty] lv(2,3) r st same \<open>OrderIndex_get (e_idx s) i = Some x\<close>
      by (auto simp: amendOrder_def Let_def upd_ord_def elim!: wp_mono)
  qed
qed

section \<open>Ids and the clock\<close>

lemma inv_index:
  assumes I: "cpp_inv s f P E X" and get: "\<forall>j. OrderIndex_get ix j = OrderIndex_get (e_idx s) j"
    and "ix_count ix = ix_count (e_idx s)" and "ix_cap ix \<noteq> 0"
  shows "cpp_inv (s\<lparr>e_idx := ix\<rparr>) f P E X"
proof -
  let ?s = "s\<lparr>e_idx := ix\<rparr>"
  have od: "ord ?s = ord s" and ll: "level_list ?s = level_list s" by (rule ord_same, simp) (intro ext level_list_same, simp_all)
  have "index_ok ?s" using inv_parts(9)[OF I] get assms(3,4) by (simp add: index_ok_def od)
  then show ?thesis using I by (simp add: cpp_inv_def cpp_books_ok_def orders_ok_def counts_ok_def trades_ok_def od ll)
qed

lemma assignId_wp:
  assumes I: "cpp_inv s f {} {} {}" and id: "unat (ix_nextId (e_idx s)) < 2 ^ 31"
  shows "wp (assignId s) (\<lambda>(i, s'). settles {} s s')"
proof -
  have cap: "ix_cap (e_idx s) \<noteq> 0" using inv_parts(9)[OF I] by (simp add: index_ok_def)
  have done': "settles {} s (s\<lparr>e_idx := ix\<rparr>)" if "\<forall>j. OrderIndex_get ix j = OrderIndex_get (e_idx s) j"
    "ix_count ix = ix_count (e_idx s)" "ix_cap ix \<noteq> 0" for ix
    using inv_index[OF I that] that(1) by (auto simp: settles_def hasOrder_def OrderIndex_has_def)
  show ?thesis
  proof (cases "ix_free (e_idx s)")
    case Nil
    let ?ix = "(e_idx s)\<lparr>ix_nextId := ix_nextId (e_idx s) + 1\<rparr>"
    obtain ix1 where g: "(if ix_nextId (e_idx s) \<ge> ucast (ix_cap ?ix) then OrderIndex_grow (ucast (ix_nextId (e_idx s))) ?ix else Some ?ix) = Some ix1"
      and same: "\<forall>j. OrderIndex_get ix1 j = OrderIndex_get ?ix j" "ix_count ix1 = ix_count ?ix" and lt: "ix_nextId (e_idx s) < ucast (ix_cap ix1)"
      using room_for_id[of ?ix, OF _ id] cap by auto
    have "ix_cap ix1 \<noteq> 0" using lt by auto
    then have "settles {} s (s\<lparr>e_idx := ix1\<rparr>)" using same by (intro done') (simp_all add: OrderIndex_get_def)
    then show ?thesis using Nil g by (simp add: assignId_def OrderIndex_assignId_def Let_def)
  next
    case (Cons i js)
    then show ?thesis using done'[of "(e_idx s)\<lparr>ix_free := js\<rparr>"] cap by (simp add: assignId_def OrderIndex_assignId_def OrderIndex_get_def)
  qed
qed

section \<open>Sessions\<close>

text \<open>The calls of the public interface that change the engine.\<close>

datatype CppCall = Submit OrderInput | Cancel u64 | Amend u64 int int | Expire u64 | SetTime u64 | AssignId

fun cpp_call :: "CppCall \<Rightarrow> CppEngine \<Rightarrow> CppEngine option" where
  "cpp_call (Submit inp) s = submitOrder inp s"
| "cpp_call (Cancel i) s = map_option snd (cancelOrder i s)"
| "cpp_call (Amend i px q) s = map_option snd (amendOrder i px q s)"
| "cpp_call (Expire t) s = expireOrders t s"
| "cpp_call (SetTime t) s = Some (setTime t s)"
| "cpp_call AssignId s = map_option snd (assignId s)"

text \<open>The bounds within which the calls are safe: ids below \<open>2 ^ 31\<close> and quantities up to \<open>2 ^ 62\<close>.\<close>

fun within :: "CppCall \<Rightarrow> CppEngine \<Rightarrow> bool" where
  "within (Submit inp) s \<longleftrightarrow> unat (in_id inp) < 2 ^ 31 \<and> in_qty inp \<le> cpp_max_qty"
| "within (Amend i px q) s \<longleftrightarrow> q \<le> cpp_max_qty"
| "within AssignId s \<longleftrightarrow> unat (ix_nextId (e_idx s)) < 2 ^ 31"
| "within _ s \<longleftrightarrow> True"

inductive cpp_reachable :: "CppEngine \<Rightarrow> bool" where
  cpp_init: "cpp_reachable (Engine_new REJECT tk)"
| cpp_step: "cpp_reachable s \<Longrightarrow> within c s \<Longrightarrow> cpp_call c s = Some s' \<Longrightarrow> cpp_reachable s'"

lemma new_inv: "cpp_inv (Engine_new REJECT tk) f {} {} {}"
proof -
  have sm: "side_map sd (Engine_new REJECT tk) = []" for sd by (cases sd) (simp_all add: Engine_new_def)
  have h: "h_orders (Engine_new REJECT tk) = Map.empty" "h_levels (Engine_new REJECT tk) = Map.empty" "e_bids (Engine_new REJECT tk) = []"
    "e_asks (Engine_new REJECT tk) = []" "e_stops (Engine_new REJECT tk) = []" by (simp_all add: Engine_new_def)
  show ?thesis
    by (rule inv_intro) (simp_all add: sm h index_ok_def counts_ok_def trades_ok_def,
        simp_all add: Engine_new_def OrderIndex_new_def OrderIndex_get_def INIT_CAP_def)
qed

text \<open>The ids a call may bring in.\<close>

fun call_ids :: "CppCall \<Rightarrow> u64 set" where
  "call_ids (Submit inp) = {in_id inp}"
| "call_ids _ = {}"

lemma shrink_settles:
  assumes I: "cpp_inv s f {} {} {}" and I': "cpp_inv s' f' {} {} {}" and "e_poPol s' = e_poPol s"
    and h: "\<And>y r. h_orders s' y = Some r \<Longrightarrow> \<exists>r0. h_orders s y = Some r0 \<and> core r0 = core r"
  shows "settles {} s s'"
proof -
  have "hasOrder s i" if i: "hasOrder s' i" for i
  proof -
    obtain y r where "h_orders s' y = Some r" "co_id r = i" using iffD1[OF hasOrder_live[OF I'] i] by blast
    then show ?thesis using h[of y r] hasOrder_live[OF I, of i] core_sel(1) by metis
  qed
  then show ?thesis using I' assms(3) by (auto simp: settles_def)
qed

lemma call_wp:
  assumes I: "cpp_inv s f {} {} {}" and pol: "e_poPol s = REJECT" and w: "within c s"
  shows "wp (cpp_call c s) (settles (call_ids c) s)"
proof (cases c)
  case (Submit inp)
  then show ?thesis using submit_wp[OF I pol, of inp] w by simp
next
  case (Cancel i)
  obtain b s' f' where run: "cancelOrder i s = Some (b, s')" and I': "cpp_inv s' f' {} {} {}" and p: "e_poPol s' = e_poPol s"
    and alt: "if b then \<exists>x. OrderIndex_get (e_idx s) i = Some x \<and> all_but x s s' else s' = s"
    using cancel_wp[OF I, of i] by (auto elim!: wpE)
  have "\<exists>r0. h_orders s y = Some r0 \<and> core r0 = core r" if y: "h_orders s' y = Some r" for y r
  proof (cases b)
    case True
    then obtain x where "all_but x s s'" using alt by auto
    then have "y \<noteq> x" "\<forall>z. z \<noteq> x \<longrightarrow> map_option core (h_orders s' z) = map_option core (h_orders s z)" using y by (auto simp: all_but_def)
    then have "map_option core (h_orders s y) = map_option core (h_orders s' y)" by simp
    then show ?thesis using map_core[OF _ y, of "h_orders s y"] by simp
  qed (use alt y in simp)
  then show ?thesis using shrink_settles[OF I I' p] by (simp add: Cancel run)
next
  case (Amend i px q)
  then show ?thesis using amend_wp[OF I pol, of q i px] w by (auto elim!: wpE)
next
  case (Expire t)
  obtain s' f' where run: "expireOrders t s = Some s'" and I': "cpp_inv s' f' {} {} {}" and p: "e_poPol s' = e_poPol s"
    and d: "only_due t s s'" using expire_wp[OF I, of t] by (auto elim!: wpE)
  have "\<exists>r0. h_orders s y = Some r0 \<and> core r0 = core r" if y: "h_orders s' y = Some r" for y r
    using d y unfolding only_due_def by (drule_tac spec[of _ y]) (auto split: option.splits if_splits)
  then show ?thesis using shrink_settles[OF I I' p] by (simp add: Expire run)
next
  case (SetTime t)
  have "settles {} s (setTime t s)" using I by (auto simp: settles_def setTime_def hasOrder_def)
  then show ?thesis by (simp add: SetTime)
next
  case AssignId
  then show ?thesis using assignId_wp[OF I] w by (auto elim!: wpE)
qed

lemma reachable_inv: "cpp_reachable s \<Longrightarrow> (\<exists>f. cpp_inv s f {} {} {}) \<and> e_poPol s = REJECT"
proof (induction rule: cpp_reachable.induct)
  case (cpp_init tk)
  show ?case using new_inv by (auto simp: Engine_new_def)
next
  case (cpp_step s c s')
  then obtain f where "cpp_inv s f {} {} {}" "e_poPol s = REJECT" by blast
  then have "settles (call_ids c) s s'" using call_wp cpp_step.hyps wpD by metis
  then show ?case using cpp_step.IH by (auto simp: settles_def)
qed

lemma reachableE:
  assumes "cpp_reachable s"
  obtains f where "cpp_inv s f {} {} {}" and "e_poPol s = REJECT"
  using reachable_inv[OF assms] by blast

end
