(* ===== verification/Cpp_Contract.thy ===== *)
theory Cpp_Contract
  imports Cpp_System
begin

text \<open>
  What the C++ reference engine promises: the properties of every session that stays within the
  bounds of \<^verbatim>\<open>Cpp_System\<close>.
\<close>

section \<open>A session for the examples\<close>

text \<open>A sell order for 5 at 100 on an empty engine.\<close>

lemma one_sell_run:
  "map_option (\<lambda>s. (hasOrder s 1, e_asks s, e_bids s)) (submitOrder (lim 1 SELL 100 5) (Engine_new REJECT 1)) = Some (True, [(100, 0)], [])"
  by code_simp

lemma within_lim: "unat i < 2 ^ 31 \<Longrightarrow> n \<le> cpp_max_qty \<Longrightarrow> within (Submit (lim i sd p n)) s"
  by (simp add: lim_def)

lemma one_sell:
  obtains s where "submitOrder (lim 1 SELL 100 5) (Engine_new REJECT 1) = Some s" and "cpp_reachable s" and "hasOrder s 1"
    and "e_asks s = [(100, 0)]" and "e_bids s = []"
proof -
  obtain s where s: "submitOrder (lim 1 SELL 100 5) (Engine_new REJECT 1) = Some s" "hasOrder s 1" "e_asks s = [(100, 0)]" "e_bids s = []"
    using one_sell_run by auto
  have "within (Submit (lim 1 SELL 100 5)) (Engine_new REJECT 1)" by (rule within_lim) (simp_all add: cpp_max_qty_def)
  from cpp_step[OF cpp_init this] have "cpp_reachable s" using s(1) by simp
  then show ?thesis using that s by blast
qed

section \<open>Every call returns\<close>

text \<open>
  C19: from every reachable state each call within the bounds returns (no null dereference, no signed
  overflow, no write outside the index, no endless loop), the state it leaves is reachable again,
  and the only new id there can be is the one that was submitted.
\<close>

theorem cpp_calls_return:
  assumes "cpp_reachable s" and "within c s"
  shows "\<exists>s'. cpp_call c s = Some s' \<and> cpp_reachable s' \<and> (\<forall>i. hasOrder s' i \<longrightarrow> hasOrder s i \<or> i \<in> call_ids c)"
proof -
  obtain f where "cpp_inv s f {} {} {}" "e_poPol s = REJECT" using assms(1) by (rule reachableE)
  from call_wp[OF this assms(2)] obtain s' where "cpp_call c s = Some s'" "settles (call_ids c) s s'" by (rule wpE)
  then show ?thesis using cpp_step[OF assms] by (auto simp: settles_def)
qed

theorem cpp_calls_return_witness:
  "\<exists>s s'. cpp_reachable s \<and> hasOrder s 1 \<and> submitOrder (lim 2 BUY 100 7) s = Some s' \<and> cpp_reachable s'"
proof -
  obtain s where s: "cpp_reachable s" "hasOrder s 1" by (rule one_sell)
  have "within (Submit (lim 2 BUY 100 7)) s" by (rule within_lim) (simp_all add: cpp_max_qty_def)
  from cpp_calls_return[OF s(1) this] s show ?thesis by auto
qed

section \<open>The destructor\<close>

text \<open>
  C29: destroying the engine in a reachable state frees every order and every level exactly once: the
  destructor returns, both heaps are empty, and what was freed equals what was allocated.
\<close>

theorem destructor_frees_everything:
  assumes "cpp_reachable s"
  shows "\<exists>s'. Engine_delete s = Some s' \<and> h_orders s' = Map.empty \<and> h_levels s' = Map.empty \<and>
    ordersFreed s' = ordersAllocated s' \<and> levelsFreed s' = levelsAllocated s'"
proof -
  obtain f where "cpp_inv s f {} {} {}" using assms by (rule reachableE)
  from delete_wp[OF this] show ?thesis by (auto elim: wpE)
qed

theorem destructor_frees_everything_witness:
  "\<exists>s s'. hasOrder s 1 \<and> Engine_delete s = Some s' \<and> h_orders s' = Map.empty"
proof -
  obtain s where s: "cpp_reachable s" "hasOrder s 1" by (rule one_sell)
  from destructor_frees_everything[OF s(1)] s(2) show ?thesis by blast
qed

section \<open>The shape of the state\<close>

definition well_formed :: "CppEngine \<Rightarrow> (laddr \<Rightarrow> oaddr list) \<Rightarrow> bool" where
  "well_formed s f \<longleftrightarrow>
     (\<forall>sd p lv. (p, lv) \<in> set (side_map sd s) \<longrightarrow> f lv \<noteq> [] \<and> level_list s lv (f lv) \<and> (\<forall>x \<in> set (f lv). rest_ok sd p (ord s x))) \<and>
     distinct (e_stops s) \<and> (\<forall>x \<in> set (e_stops s). stop_ok (ord s x)) \<and>
     dom (h_levels s) = snd ` (set (e_bids s) \<union> set (e_asks s)) \<and>
     dom (h_orders s) = (\<Union>lv \<in> dom (h_levels s). set (f lv)) \<union> set (e_stops s) \<and>
     (\<forall>i x. OrderIndex_get (e_idx s) i = Some x \<longleftrightarrow> h_orders s x \<noteq> None \<and> co_id (ord s x) = i) \<and>
     activeOrders s = of_nat (card (dom (h_orders s))) \<and> activeLevels s = of_nat (card (dom (h_levels s)))"

lemma well_formedD:
  assumes "well_formed s f"
  shows "(p, lv) \<in> set (side_map sd s) \<Longrightarrow> x \<in> set (f lv) \<Longrightarrow> rest_ok sd p (ord s x)"
    and "dom (h_levels s) = snd ` (set (e_bids s) \<union> set (e_asks s))"
    and "dom (h_orders s) = (\<Union>lv \<in> dom (h_levels s). set (f lv)) \<union> set (e_stops s)"
    and "OrderIndex_get (e_idx s) i = Some x \<Longrightarrow> h_orders s x \<noteq> None"
proof -
  note w = assms[unfolded well_formed_def]
  have l: "\<forall>sd p lv. (p, lv) \<in> set (side_map sd s) \<longrightarrow> f lv \<noteq> [] \<and> level_list s lv (f lv) \<and> (\<forall>x \<in> set (f lv). rest_ok sd p (ord s x))"
    and g: "\<forall>i x. OrderIndex_get (e_idx s) i = Some x \<longleftrightarrow> h_orders s x \<noteq> None \<and> co_id (ord s x) = i" using w by - (elim conjE, assumption)+
  show "(p, lv) \<in> set (side_map sd s) \<Longrightarrow> x \<in> set (f lv) \<Longrightarrow> rest_ok sd p (ord s x)" using l by blast
  show "OrderIndex_get (e_idx s) i = Some x \<Longrightarrow> h_orders s x \<noteq> None" using g by blast
  show "dom (h_levels s) = snd ` (set (e_bids s) \<union> set (e_asks s))"
    "dom (h_orders s) = (\<Union>lv \<in> dom (h_levels s). set (f lv)) \<union> set (e_stops s)" using w by - (elim conjE, assumption)+
qed

text \<open>
  C20: the data type of a reachable engine.  Each level of a book holds a non-empty doubly linked list of
  limit orders of its side and price with a visible quantity between 1 and the remaining one;
  the vector of stops holds distinct untouched stop orders; the heap holds these levels and
  orders and nothing else; the index finds exactly the live orders by their ids; and the
  allocation counters tell the numbers of both.
\<close>

theorem reachable_well_formed:
  assumes "cpp_reachable s"
  shows "\<exists>f. well_formed s f"
proof -
  obtain f where I: "cpp_inv s f {} {} {}" using assms by (rule reachableE)
  note pt = inv_parts[OF I]
  have "well_formed s f"
    unfolding well_formed_def
  proof (intro conjI allI impI)
    fix sd p lv assume lv: "(p, lv) \<in> set (side_map sd s)"
    show "f lv \<noteq> []" "level_list s lv (f lv)" "\<forall>x \<in> set (f lv). rest_ok sd p (ord s x)" using inv_level(1,3,5)[OF I lv] by auto
  next
    show "\<forall>x \<in> set (e_stops s). stop_ok (ord s x)" using inv_stop[OF I] by auto
    show "dom (h_orders s) = (\<Union>lv \<in> dom (h_levels s). set (f lv)) \<union> set (e_stops s)" using pt(5) by simp
    show "OrderIndex_get (e_idx s) i = Some x \<longleftrightarrow> h_orders s x \<noteq> None \<and> co_id (ord s x) = i" for i x
      using pt(9) unfolding index_ok_def by simp
    show "activeOrders s = of_nat (card (dom (h_orders s)))" "activeLevels s = of_nat (card (dom (h_levels s)))"
      using pt(10) unfolding counts_ok_def activeOrders_def activeLevels_def by - (elim conjE, assumption)+
  qed (use pt(3,7) in simp_all)
  then show ?thesis by blast
qed

theorem reachable_well_formed_witness:
  "\<exists>(s :: CppEngine) x. e_asks s = [(100, 0)] \<and> rest_ok SELL 100 (ord s x) \<and> OrderIndex_get (e_idx s) 1 = Some x"
proof -
  obtain s where run: "submitOrder (lim 1 SELL 100 5) (Engine_new REJECT 1) = Some s"
    and s: "cpp_reachable s" "hasOrder s 1" "e_asks s = [(100, 0)]" "e_bids s = []" by (rule one_sell)
  have "map_option e_stops (submitOrder (lim 1 SELL 100 5) (Engine_new REJECT 1)) = Some []" by code_simp
  then have st: "e_stops s = []" using run by simp
  obtain x where x: "OrderIndex_get (e_idx s) 1 = Some x" using s(2) by (auto simp: hasOrder_def OrderIndex_has_def)
  obtain f where w: "well_formed s f" using reachable_well_formed[OF s(1)] by blast
  have "dom (h_orders s) = set (f 0)" unfolding well_formedD(2,3)[OF w] s(3,4) st by simp
  then have "x \<in> set (f 0)" using well_formedD(4)[OF w x] by auto
  then have "rest_ok SELL 100 (ord s x)" by (intro well_formedD(1)[OF w]) (simp add: s(3))
  then show ?thesis using s(3) x by blast
qed

section \<open>The books\<close>

text \<open>
  C23: in a reachable state the prices of both books are positive, bestBid and bestAsk are the
  extreme prices of their books, and every bid is below every ask: the book never crosses and
  never locks.
\<close>

theorem cpp_book_never_crosses:
  assumes "cpp_reachable s"
  shows "(\<forall>p \<in> fst ` set (e_bids s). 0 < p \<and> p \<le> bestBid s) \<and> (\<forall>q \<in> fst ` set (e_asks s). 0 < q \<and> bestAsk s \<le> q) \<and>
    (e_bids s \<noteq> [] \<longrightarrow> e_asks s \<noteq> [] \<longrightarrow> bestBid s < bestAsk s)"
proof -
  obtain f where I: "cpp_inv s f {} {} {}" using assms by (rule reachableE)
  have pos: "0 < p" if p: "p \<in> fst ` set (side_map sd s)" for p sd
  proof -
    obtain lv where lv: "(p, lv) \<in> set (side_map sd s)" using p by auto
    then obtain x where "x \<in> set (f lv)" using inv_level(3)[OF I lv] by (cases "f lv") auto
    then show ?thesis using inv_level(5)[OF I lv] by (simp add: rest_ok_def)
  qed
  have best: "p = q \<or> px_before sd q p" if "p \<in> fst ` set (side_map sd s)" "side_map sd s = (q, lv) # m" for p q lv m sd
    using inv_parts(1)[OF I, of sd] that by auto
  have b: "0 < p \<and> p \<le> bestBid s" if "p \<in> fst ` set (e_bids s)" for p
    using pos[of p BUY] best[of p BUY] that by (cases "e_bids s") (force simp: bestBid_def)+
  have a: "0 < q \<and> bestAsk s \<le> q" if "q \<in> fst ` set (e_asks s)" for q
    using pos[of q SELL] best[of q SELL] that by (cases "e_asks s") (force simp: bestAsk_def)+
  have "bestBid s < bestAsk s" if "e_bids s \<noteq> []" "e_asks s \<noteq> []"
    using inv_parts(2)[OF I] that by (cases "e_bids s"; cases "e_asks s") (auto simp: bestBid_def bestAsk_def)
  with a b show ?thesis by blast
qed

theorem cpp_book_never_crosses_witness:
  "\<exists>s. hasOrder s 1 \<and> bestAsk s = 100 \<and> (\<forall>p \<in> fst ` set (e_bids s). 0 < p \<and> p \<le> bestBid s) \<and> (e_bids s \<noteq> [] \<longrightarrow> bestBid s < 100)"
proof -
  obtain s where s: "cpp_reachable s" "hasOrder s 1" "e_asks s = [(100, 0)]" by (rule one_sell)
  then show ?thesis using cpp_book_never_crosses[OF s(1)] by (intro exI[of _ s]) (simp add: bestAsk_def)
qed

section \<open>Orders can leave\<close>

lemma hasOrder_id:
  assumes "cpp_inv s f P E X"
  shows "hasOrder s i \<longleftrightarrow> (\<exists>y. map_option co_id (h_orders s y) = Some i)"
  unfolding hasOrder_live[OF assms] by auto

lemma all_but_ids:
  assumes I: "cpp_inv s f P E X" and "OrderIndex_get (e_idx s) i = Some x" and ab: "all_but x s s'"
  shows "map_option co_id (h_orders s y) = Some i \<longleftrightarrow> y = x"
    and "map_option co_id (h_orders s' y) = (if y = x then None else map_option co_id (h_orders s y))"
proof -
  have get: "OrderIndex_get (e_idx s) i = Some y \<longleftrightarrow> h_orders s y \<noteq> None \<and> co_id (ord s y) = i" for y
    using inv_parts(9)[OF I] by (simp add: index_ok_def)
  have "h_orders s y \<noteq> None \<and> co_id (ord s y) = i \<longleftrightarrow> x = y" using get[of y] assms(2) by simp
  then show "map_option co_id (h_orders s y) = Some i \<longleftrightarrow> y = x" by (cases "h_orders s y") (auto simp: ord_def)
  show "map_option co_id (h_orders s' y) = (if y = x then None else map_option co_id (h_orders s y))"
    using ab core_ids[of "h_orders s' y" "h_orders s y"] by (simp add: all_but_def)
qed

text \<open>
  C26: cancelling the id of a live order in a reachable state succeeds, makes this id free and leaves
  every other id, with its order's data, as it was; for any other id the call returns false
  and changes nothing.
\<close>

theorem cancel_removes_exactly:
  assumes "cpp_reachable s"
  shows "\<exists>s'. cancelOrder i s = Some (hasOrder s i, s') \<and> \<not> hasOrder s' i \<and> (\<forall>j. j \<noteq> i \<longrightarrow> hasOrder s' j = hasOrder s j) \<and>
    (\<forall>y r. h_orders s y = Some r \<longrightarrow> co_id r \<noteq> i \<longrightarrow> map_option core (h_orders s' y) = Some (core r)) \<and>
    (\<not> hasOrder s i \<longrightarrow> s' = s)"
proof -
  obtain f where I: "cpp_inv s f {} {} {}" using assms by (rule reachableE)
  obtain b s' f' where run: "cancelOrder i s = Some (b, s')" and I': "cpp_inv s' f' {} {} {}" and b: "b = hasOrder s i"
    and alt: "if b then \<exists>x. OrderIndex_get (e_idx s) i = Some x \<and> all_but x s s' else s' = s"
    using cancel_wp[OF I, of i] by (auto elim!: wpE)
  show ?thesis
  proof (cases b)
    case False
    then have "map_option core (h_orders s' y) = Some (core r)" if "h_orders s y = Some r" for y r using alt that by simp
    then show ?thesis using run b alt False by (intro exI[of _ s']) auto
  next
    case True
    then obtain x where x: "OrderIndex_get (e_idx s) i = Some x" "all_but x s s'" using alt by auto
    note other = all_but_ids[OF I x(1,2)]
    have "hasOrder s' j \<longleftrightarrow> hasOrder s j \<and> j \<noteq> i" for j
    proof -
      have "map_option co_id (h_orders s' y) = Some j \<longleftrightarrow> map_option co_id (h_orders s y) = Some j \<and> j \<noteq> i" for y
        using other(1)[of y] other(2)[of y] by (cases "y = x") auto
      then show ?thesis unfolding hasOrder_id[OF I'] hasOrder_id[OF I] by blast
    qed
    moreover have "map_option core (h_orders s' y) = Some (core r)" if y: "h_orders s y = Some r" "co_id r \<noteq> i" for y r
    proof -
      have "y \<noteq> x" using other(1)[of x] y by auto
      then have "map_option core (h_orders s' y) = map_option core (h_orders s y)" using x(2) by (simp add: all_but_def)
      then show ?thesis using y(1) by simp
    qed
    ultimately show ?thesis using run b True by (intro exI[of _ s']) auto
  qed
qed

theorem cancel_removes_exactly_witness:
  "\<exists>s s'. hasOrder s 1 \<and> cancelOrder 1 s = Some (True, s') \<and> \<not> hasOrder s' 1"
proof -
  obtain s where s: "cpp_reachable s" "hasOrder s 1" by (rule one_sell)
  from cancel_removes_exactly[OF s(1), of 1] s(2) show ?thesis by auto
qed

text \<open>The calls of a session, one after the other.\<close>

fun cpp_calls :: "CppCall list \<Rightarrow> CppEngine \<Rightarrow> CppEngine option" where
  "cpp_calls [] s = Some s"
| "cpp_calls (c # cs) s = do { s \<leftarrow> cpp_call c s; cpp_calls cs s }"

lemma empty_of_no_orders:
  assumes I: "cpp_inv s f {} {} {}" and "\<And>i. \<not> hasOrder s i"
  shows "h_orders s = Map.empty" "e_bids s = [] \<and> e_asks s = [] \<and> e_stops s = []" "activeOrders s = 0 \<and> activeLevels s = 0"
proof -
  show h: "h_orders s = Map.empty"
  proof
    fix y
    show "h_orders s y = None"
    proof (rule ccontr)
      assume "h_orders s y \<noteq> None"
      then obtain r where "h_orders s y = Some r" by blast
      then show False using assms(2)[of "co_id r"] hasOrder_live[OF I, of "co_id r"] by blast
    qed
  qed
  have "\<not> (p, lv) \<in> set (side_map sd s)" for p lv sd
  proof
    assume lv: "(p, lv) \<in> set (side_map sd s)"
    then obtain x where "x \<in> set (f lv)" using inv_level(3)[OF I lv] by (cases "f lv") auto
    then show False using inv_level(4)[OF I lv] h by simp
  qed
  then have "set (side_map sd s) = {}" for sd by (intro equals0I) (metis prod.collapse)
  then have sm: "side_map sd s = []" for sd by simp
  moreover have "set (e_stops s) = {}" using inv_loose[OF I] h by fastforce
  ultimately show b: "e_bids s = [] \<and> e_asks s = [] \<and> e_stops s = []" 
    using sm[of BUY, unfolded side_map.simps] sm[of SELL, unfolded side_map.simps] by simp
  have "dom (h_levels s) = {}" using inv_parts(3)[OF I] b by simp
  then have "h_levels s = Map.empty" by simp
  then show "activeOrders s = 0 \<and> activeLevels s = 0" using inv_parts(10)[OF I] h by (simp add: counts_ok_def activeOrders_def activeLevels_def)
qed

text \<open>
  C27: the engine can always be drained.  From every reachable state some cancellations, all of them
  successful calls, lead to a state without any live order: both books and the vector of stops
  are empty and no order or level is allocated any more.
\<close>

theorem engine_can_be_drained:
  assumes "cpp_reachable s"
  shows "\<exists>is s'. cpp_calls (map Cancel is) s = Some s' \<and> cpp_reachable s' \<and> h_orders s' = Map.empty \<and>
    e_bids s' = [] \<and> e_asks s' = [] \<and> e_stops s' = [] \<and> activeOrders s' = 0 \<and> activeLevels s' = 0"
  using assms
proof (induction "card (dom (h_orders s))" arbitrary: s rule: less_induct)
  case less
  obtain f where I: "cpp_inv s f {} {} {}" using less.prems by (rule reachableE)
  show ?case
  proof (cases "\<exists>i. hasOrder s i")
    case False
    then show ?thesis using empty_of_no_orders[OF I] less.prems by (intro exI[of _ "[]"] exI[of _ s]) auto
  next
    case True
    then obtain i where i: "hasOrder s i" by blast
    obtain s1 x where run: "cancelOrder i s = Some (True, s1)" and x: "OrderIndex_get (e_idx s) i = Some x" "all_but x s s1"
      using cancel_wp[OF I, of i] i by (auto elim!: wpE)
    have c: "cpp_call (Cancel i) s = Some s1" by (simp add: run)
    have r1: "cpp_reachable s1" by (rule cpp_step[OF less.prems _ c]) simp
    have "h_orders s x \<noteq> None" using x(1) inv_parts(9)[OF I] unfolding index_ok_def by blast
    moreover have "dom (h_orders s1) = dom (h_orders s) - {x}" using all_but_dom[OF x(2)] by auto
    ultimately have "card (dom (h_orders s1)) < card (dom (h_orders s))"
      using card_Diff1_less[OF inv_finite(1)[OF I], of x] by (simp add: domIff)
    from less.hyps[OF this r1] obtain "is" s' where "cpp_calls (map Cancel is) s1 = Some s'" and rest: "cpp_reachable s' \<and>
      h_orders s' = Map.empty \<and> e_bids s' = [] \<and> e_asks s' = [] \<and> e_stops s' = [] \<and> activeOrders s' = 0 \<and> activeLevels s' = 0" by blast
    then have "cpp_calls (map Cancel (i # is)) s = Some s'" using c by (simp del: cpp_call.simps)
    then show ?thesis using rest by blast
  qed
qed

theorem engine_can_be_drained_witness:
  "\<exists>s is s'. hasOrder s 1 \<and> cpp_calls (map Cancel is) s = Some s' \<and> e_asks s' = []"
proof -
  obtain s where s: "cpp_reachable s" "hasOrder s 1" by (rule one_sell)
  from engine_can_be_drained[OF s(1)] s(2) show ?thesis by blast
qed

section \<open>Expiry\<close>

text \<open>
  C28: expireOrders at time t removes exactly the orders that are due, day orders and those
  good till a date that t has reached, from the books and from the vector of stops, and keeps
  every other order with its data and its id.
\<close>

theorem expiry_is_exact:
  assumes "cpp_reachable s"
  shows "\<exists>s'. expireOrders t s = Some s' \<and>
    (\<forall>y. map_option core (h_orders s' y) =
       (case h_orders s y of None \<Rightarrow> None | Some r \<Rightarrow> if shouldExpire t r then None else Some (core r))) \<and>
    (\<forall>i. hasOrder s' i \<longleftrightarrow> (\<exists>x r. h_orders s x = Some r \<and> co_id r = i \<and> \<not> shouldExpire t r))"
proof -
  obtain f where I: "cpp_inv s f {} {} {}" using assms by (rule reachableE)
  from expire_wp[OF I, of t] obtain s' f' where run: "expireOrders t s = Some s'" and I': "cpp_inv s' f' {} {} {}"
    and d: "only_due t s s'" by (auto elim!: wpE)
  have "map_option co_id (h_orders s' y) = Some i \<longleftrightarrow> (\<exists>r. h_orders s y = Some r \<and> co_id r = i \<and> \<not> shouldExpire t r)" for y i
  proof -
    have e: "map_option core (h_orders s' y) = (case h_orders s y of None \<Rightarrow> None | Some r \<Rightarrow> if shouldExpire t r then None else Some (core r))"
      using d unfolding only_due_def by (rule spec)
    consider "h_orders s' y = None" "\<forall>r. h_orders s y = Some r \<longrightarrow> shouldExpire t r"
      | r q where "h_orders s y = Some r" "\<not> shouldExpire t r" "h_orders s' y = Some q" "core q = core r"
      using e by (cases "h_orders s y") (auto split: if_splits)
    then show ?thesis by cases (auto dest: core_sel(1))
  qed
  then have "hasOrder s' i \<longleftrightarrow> (\<exists>x r. h_orders s x = Some r \<and> co_id r = i \<and> \<not> shouldExpire t r)" for i
    unfolding hasOrder_id[OF I'] by simp
  then show ?thesis using run d[unfolded only_due_def] by (intro exI[of _ s'] conjI allI) blast+
qed

theorem expiry_is_exact_witness:
  "\<exists>s s'. cpp_reachable s \<and> hasOrder s 1 \<and> expireOrders 50 s = Some s' \<and> \<not> hasOrder s' 1"
proof -
  let ?inp = "(lim 1 SELL 100 5)\<lparr>in_tif := DAY\<rparr>"
  have "map_option (\<lambda>s. map_option (\<lambda>r. (co_id r, co_tif r)) (h_orders s 0)) (submitOrder ?inp (Engine_new REJECT 1)) = Some (Some (1, DAY))"
    by code_simp
  then obtain s r where s: "submitOrder ?inp (Engine_new REJECT 1) = Some s" and r: "h_orders s 0 = Some r" "co_id r = 1" "co_tif r = DAY"
    by auto
  have w: "within (Submit ?inp) (Engine_new REJECT 1)" by (simp add: lim_def cpp_max_qty_def)
  from cpp_step[OF cpp_init w] have re: "cpp_reachable s" using s by simp
  obtain f where I: "cpp_inv s f {} {} {}" using re by (rule reachableE)
  have only: "x = 0" if "h_orders s x = Some q" "co_id q = 1" for x q
  proof -
    have "OrderIndex_get (e_idx s) 1 = Some x" "OrderIndex_get (e_idx s) 1 = Some 0"
      using inv_parts(9)[OF I] that r by (simp_all add: index_ok_def ord_def)
    then show ?thesis by simp
  qed
  from expiry_is_exact[OF re, of 50] obtain s' where s': "expireOrders 50 s = Some s'"
    and e: "\<forall>i. hasOrder s' i \<longleftrightarrow> (\<exists>x r. h_orders s x = Some r \<and> co_id r = i \<and> \<not> shouldExpire 50 r)" by blast
  have "shouldExpire 50 q" if "h_orders s x = Some q" "co_id q = 1" for x q
    using only[OF that] that r by (simp add: shouldExpire_def)
  then have "\<not> hasOrder s' 1" using e by blast
  moreover have "hasOrder s 1" using hasOrder_live[OF I] r by blast
  ultimately show ?thesis using re s' by blast
qed

section \<open>Matching\<close>

text \<open>
  C25: what matchOrd does with an order in hand.  It returns; the new trades are for positive quantities
  at prices within the limit of the order and bear its id and side; without the DECREMENT policy what is
  left of the order and what was traded add up to what there was; and it stops only when the
  order is filled, was cancelled by self-trade prevention, or finds no level within its limit.
  Its own side of the book and the other orders in hand are as before.
\<close>

theorem matching_contract:
  assumes I: "cpp_inv s f P {} {}" and x: "x \<in> P" and r: "h_orders s x = Some r" and ok: "base_ok r"
  shows "\<exists>s' i ts f'. matchOrd x s = Some s' \<and> cpp_inv s' f' P {} {} \<and> h_orders s' x = Some i \<and> e_trades s' = e_trades s @ ts \<and>
    (\<forall>t \<in> set ts. 0 < ct_qty t \<and> canMatch r (ct_price t) \<and> ct_aggressor t = co_id r \<and> ct_side t = co_side r) \<and>
    0 \<le> co_rem i \<and> co_rem i + (\<Sum>t \<leftarrow> ts. ct_qty t) \<le> co_rem r \<and>
    (co_stp r \<noteq> DECREMENT \<longrightarrow> co_rem i + (\<Sum>t \<leftarrow> ts. ct_qty t) = co_rem r) \<and>
    (co_status i = CANCELLED \<or> co_rem i = 0 \<or>
      (case side_map (oppositeSide (co_side r)) s' of [] \<Rightarrow> True | (p, _) # _ \<Rightarrow> \<not> canMatch r p)) \<and>
    side_map (co_side r) s' = side_map (co_side r) s \<and> (\<forall>y \<in> P - {x}. h_orders s' y = h_orders s y)"
proof -
  have q: "0 \<le> co_rem r" "co_rem r \<le> cpp_max_qty" "co_stg r = 0 \<longleftrightarrow> co_stp r = NONE" using ok by (simp_all add: base_ok_def)
  let ?c = "oppositeSide (co_side r)"
  from matchOrd_wp[OF I x r q order_refl] obtain s' where run: "matchOrd x s = Some s'"
    and post: "match_post (run_of s f r) x ?c P (co_rem r - reach s r f (side_map ?c s)) s r s'" by (rule wpE)
  from post show ?thesis
  proof (rule match_postE)
    fix f' i ts
    assume I': "cpp_inv s' f' P {} {}" and i: "h_orders s' x = Some i" "0 \<le> co_rem i" and fr: "mframe x ?c P s s'"
      and ts: "e_trades s' = e_trades s @ ts" "trades_of r (co_rem r) (co_rem i) ts"
      and fin: "co_status i = CANCELLED \<or> co_status i = co_status r \<and> (co_rem i = 0 \<or> exhausted r (side_map ?c s'))"
    have tr: "\<forall>t \<in> set ts. 0 < ct_qty t \<and> canMatch r (ct_price t) \<and> ct_aggressor t = co_id r \<and> ct_side t = co_side r"
      "co_rem i + (\<Sum>t \<leftarrow> ts. ct_qty t) \<le> co_rem r" "co_stp r \<noteq> DECREMENT \<longrightarrow> co_rem i + (\<Sum>t \<leftarrow> ts. ct_qty t) = co_rem r"
      using ts(2) by (simp_all add: trades_of_def)
    have own: "side_map (co_side r) s' = side_map (co_side r) s" "\<forall>y \<in> P - {x}. h_orders s' y = h_orders s y"
      using fr by (simp_all add: mframe_def)
    have "co_status i = CANCELLED \<or> co_rem i = 0 \<or> (case side_map ?c s' of [] \<Rightarrow> True | (p, _) # _ \<Rightarrow> \<not> canMatch r p)"
      using fin unfolding exhausted_def by blast
    then show ?thesis using run I' i ts(1) tr own by (intro exI[of _ s'] exI[of _ i] exI[of _ ts] exI[of _ f'] conjI)
  qed
qed

text \<open>A buy order for 7 is in hand while the sell order for 5 rests.\<close>

lemma buy_in_hand:
  obtains s f where "cpp_inv s f {1} {} {}" and "h_orders s 1 = Some (built_order (lim 2 BUY 100 7) 2)" and "e_asks s = [(100, 0)]"
proof -
  obtain s0 where run: "submitOrder (lim 1 SELL 100 5) (Engine_new REJECT 1) = Some s0"
    and s0: "cpp_reachable s0" "hasOrder s0 1" "e_asks s0 = [(100, 0)]" "e_bids s0 = []" by (rule one_sell)
  obtain f where I: "cpp_inv s0 f {} {} {}" using s0(1) by (rule reachableE)
  let ?r = "built_order (lim 2 BUY 100 7) (e_now s0 + 1)"
  have "map_option (\<lambda>s. (h_obrk s, e_now s, OrderIndex_get (e_idx s) 2)) (submitOrder (lim 1 SELL 100 5) (Engine_new REJECT 1)) =
      Some (1, 1, None)" by code_simp
  then have facts: "h_obrk s0 = 1" "e_now s0 = 1" "OrderIndex_get (e_idx s0) 2 = None" using run by simp_all
  have r: "co_level ?r = None" "co_id ?r = 2" by (simp_all add: built_order_def default_order_def lim_def)
  then have "unat (co_id ?r) < 2 ^ 31" "OrderIndex_get (e_idx s0) (co_id ?r) = None" using facts by simp_all
  note acc = inv_accept[OF I with_new_sel(1-13) r(1) this]
  from acc
  obtain ix where "cpp_inv ((with_new (lim 2 BUY 100 7) s0)\<lparr>e_idx := ix\<rparr>) f {1} {} {}" by (auto simp: facts elim!: wpE)
  then show ?thesis using that s0(3) by (simp add: with_new_sel facts)
qed

theorem matching_contract_witness:
  "\<exists>s s' ts. e_asks s = [(100, 0)] \<and> matchOrd 1 s = Some s' \<and> e_trades s' = e_trades s @ ts \<and> (\<forall>t \<in> set ts. ct_aggressor t = 2)"
proof -
  obtain s f where s: "cpp_inv s f {1} {} {}" "h_orders s 1 = Some (built_order (lim 2 BUY 100 7) 2)" "e_asks s = [(100, 0)]"
    by (rule buy_in_hand)
  let ?r = "built_order (lim 2 BUY 100 7) 2"
  have "base_ok ?r" "co_id ?r = 2" by (simp_all add: base_ok_def built_order_def default_order_def lim_def cpp_max_qty_def)
  with matching_contract[OF s(1) _ s(2)] s(3) show ?thesis by fastforce
qed

end
