(* ===== verification/Cpp_Refines.thy ===== *)
theory Cpp_Refines
  imports Cpp_Contract
begin

text \<open>
  Submission to the C++ reference engine on plain lists: a pair of books without addresses, what an
  incoming order does to them, and the proof that the code on its pointers, maps and index does
  the same.
\<close>

section \<open>The abstract engine\<close>

type_synonym cpp_books = "Side \<Rightarrow> side_lists"

text \<open>What a side offers to an order, which the quantity checks compare with its demand.\<close>

fun offer_spec :: "CppOrder \<Rightarrow> side_lists \<Rightarrow> int" where
  "offer_spec r [] = 0"
| "offer_spec r ((p, q) # m) =
     (if canMatch r p then (\<Sum>w \<leftarrow> q. if stpConflict r w then 0 else co_visible w) + offer_spec r m else 0)"

definition ready_spec :: "CppOrder \<Rightarrow> side_lists \<Rightarrow> bool" where
  "ready_spec r b \<longleftrightarrow> (co_tif r = FOK \<longrightarrow> co_qty r \<le> offer_spec r b) \<and> (co_minQty r > 0 \<longrightarrow> co_minQty r \<le> offer_spec r b)"

text \<open>The order after matching: it rests or it is gone; \<open>ht\<close> says whether it has traded.\<close>

definition rest_spec :: "CppOrder \<Rightarrow> bool \<Rightarrow> side_lists \<Rightarrow> side_lists" where
  "rest_spec r ht own =
     (let w = (if co_minQty r > 0 \<and> ht then r\<lparr>co_minQty := 0\<rparr> else r) in
      if co_status w = CANCELLED \<or> co_rem w = 0 \<or> co_tif w = IOC \<or> co_type w = MARKET then own
      else add_level (co_side w) (co_price w)
        (w\<lparr>co_visible := fresh_visible w, co_status := (if ht then PARTIALLY_FILLED else NEW)\<rparr>) own)"

definition plain_spec :: "CppOrder \<Rightarrow> cpp_books \<Rightarrow> (cpp_books \<times> deal list) option" where
  "plain_spec r B = do {
     (i, b, ts) \<leftarrow> match_spec r (B (oppositeSide (co_side r)));
     Some (B(oppositeSide (co_side r) := b, co_side r := rest_spec i (ts \<noteq> []) (B (co_side r))), ts)
   }"

text \<open>A market-to-limit order takes the price of its first trade as its limit.\<close>

definition mtl_spec :: "CppOrder \<Rightarrow> cpp_books \<Rightarrow> (cpp_books \<times> deal list) option" where
  "mtl_spec r B = do {
     (i, b, ts) \<leftarrow> match_spec r (B (oppositeSide (co_side r)));
     case ts of
       [] \<Rightarrow> Some (B(oppositeSide (co_side r) := b), [])
     | (_, px, _) # _ \<Rightarrow> do {
         let j = i\<lparr>co_price := px, co_type := LIMIT, co_minQty := (if co_minQty i > 0 then 0 else co_minQty i)\<rparr>;
         (k, b, us) \<leftarrow> (if co_rem j > 0 \<and> co_status j \<noteq> CANCELLED then match_spec j b else Some (j, b, []));
         Some (B(oppositeSide (co_side r) := b, co_side r := rest_spec k True (B (co_side r))), ts @ us)
       }
   }"

text \<open>
  An accepted order that is not a stop order.  A post-only order that would trade is dropped: this is the
  policy \<open>REJECT\<close>; the policy \<open>REPRICE\<close> has no specification here.
\<close>

definition take_spec :: "CppOrder \<Rightarrow> cpp_books \<Rightarrow> (cpp_books \<times> deal list) option" where
  "take_spec r B = (let c = oppositeSide (co_side r) in
     if co_postOnly r
     then Some (if B c \<noteq> [] \<and> canMatch r (fst (hd (B c))) then B
                else B(co_side r := rest_spec r False (B (co_side r))), [])
     else if \<not> ready_spec r (B c) then Some (B, [])
     else if co_type r = MARKET_TO_LIMIT then mtl_spec r B else plain_spec r B)"

text \<open>The whole of \<^verbatim>\<open>submitOrder\<close> at time \<open>now\<close>: whether it accepts, the books, the trades.\<close>

definition book_ids :: "cpp_books \<Rightarrow> u64 set" where
  "book_ids B = co_id ` set (concat (map snd (B BUY)) @ concat (map snd (B SELL)))"

definition submit_spec :: "u64 \<Rightarrow> OrderInput \<Rightarrow> cpp_books \<Rightarrow> (bool \<times> cpp_books \<times> deal list) option" where
  "submit_spec now inp B =
     (if in_id inp \<in> book_ids B \<or> validate (now + 1) (built_order inp (now + 1)) \<noteq> None then Some (False, B, [])
      else map_option (Pair True) (take_spec (shape (built_order inp (now + 1))) B))"

text \<open>The books that a state stands for.\<close>

definition cpp_rep :: "CppEngine \<Rightarrow> cpp_books \<Rightarrow> bool" where
  "cpp_rep s B \<longleftrightarrow> (\<exists>f. cpp_inv s f {} {} {} \<and> (\<forall>sd. cpp_view s f sd = B sd))"

section \<open>The quantity checks\<close>

lemma offer_view: "(\<Sum>w \<leftarrow> view s xs. if stpConflict r w then 0 else co_visible w) = tot s r xs"
  by (induction xs) (simp_all add: offer_def)

lemma offer_spec_view: "offer_spec (shape r) (side_view s f m) = reach s r f m"
proof (induction m)
  case (Cons e m)
  obtain p lv where "e = (p, lv)" by (cases e)
  then show ?case using Cons by (simp add: offer_view)
qed simp

lemma active_check_exact:
  assumes I: "cpp_inv s f P {} {}" and r: "h_orders s x = Some r" and ok: "base_ok r"
  shows "wp (active_check x s) (\<lambda>err. err = None \<longleftrightarrow> ready_spec (shape r) (cpp_view s f (oppositeSide (co_side r))))"
proof -
  let ?c = "oppositeSide (co_side r)"
  have q: "0 < co_qty r" "co_qty r \<le> cpp_max_qty" "0 \<le> co_minQty r" "co_minQty r \<le> cpp_max_qty" using ok by (simp_all add: base_ok_def)
  have fok: "fokCheck s r = Some (co_qty r \<le> reach s r f (side_map ?c s))"
    using availQty_exact[OF I, of "side_map ?c s" ?c 0 "co_qty r" r] q by (auto simp: fokCheck_def)
  have mq: "minQtyCheck s r = Some (co_minQty r \<le> reach s r f (side_map ?c s))" if "co_minQty r > 0"
    using availQty_exact[OF I, of "side_map ?c s" ?c 0 "co_minQty r" r] q that by (auto simp: minQtyCheck_def)
  show ?thesis using r fok mq by (auto simp: active_check_def ready_spec_def cpp_view_def offer_spec_view)
qed

section \<open>Settled on lists\<close>

text \<open>
  The order \<open>x\<close> with the id \<open>n\<close> rests, or is filled or cancelled and in hand; the books are \<open>B\<close>.
\<close>

definition lists_settled :: "oaddr \<Rightarrow> u64 \<Rightarrow> cpp_books \<Rightarrow> deal list \<Rightarrow> CppEngine \<Rightarrow> bool" where
  "lists_settled x n B ts s \<longleftrightarrow>
     (\<exists>f. (cpp_inv s f {} {} {} \<or> cpp_inv s f {x} {} {} \<and> (co_status (ord s x) = FILLED \<or> co_status (ord s x) = CANCELLED)) \<and>
        (\<forall>sd. cpp_view s f sd = B sd)) \<and>
     e_stops s = [] \<and> map deal_of (e_trades s) = ts \<and> (\<exists>q. h_orders s x = Some q \<and> co_id q = n)"

lemma cpp_view_notify [simp]: "cpp_view (notify ev s) f sd = cpp_view s f sd"
  by (cases sd) (simp_all add: cpp_view_def side_view_def notify_def[symmetric], simp_all add: notify_def)

lemma cpp_view_hand:
  assumes I: "cpp_inv s f {x} {} {}"
  shows "cpp_view (s\<lparr>h_orders := (h_orders s)(x \<mapsto> r)\<rparr>) f sd = cpp_view s f sd"
  by (rule cpp_view_frame[OF I]) simp_all

lemma status_lists:
  assumes I: "cpp_inv s f {x} {} {}" and r: "h_orders s x = Some r" and st: "st = FILLED \<or> st = CANCELLED"
    and B: "\<And>sd. cpp_view s f sd = B sd" and tr: "e_stops s = []" "map deal_of (e_trades s) = ts"
  shows "wp (set_status st x s) (lists_settled x (co_id r) B ts)" and "wp (cancel_ord why x s) (lists_settled x (co_id r) B ts)"
proof -
  let ?s = "\<lambda>st. s\<lparr>h_orders := (h_orders s)(x \<mapsto> r\<lparr>co_status := st\<rparr>)\<rparr>"
  have *: "lists_settled x (co_id r) B ts (?s st)" if "st = FILLED \<or> st = CANCELLED" for st
  proof -
    have "cpp_inv (?s st) f {x} {} {}" by (rule inv_upd[OF I r]) auto
    moreover have "co_status (ord (?s st) x) = st" by (simp add: ord_def)
    ultimately show ?thesis using that tr B cpp_view_hand[OF I] unfolding lists_settled_def by auto
  qed
  show "wp (set_status st x s) (lists_settled x (co_id r) B ts)" using *[OF st] by (simp add: set_status_some[OF r])
  have "lists_settled x n B ts (notify ev t)" if "lists_settled x n B ts t" for n ev t
    using that by (auto simp: lists_settled_def) (auto simp: notify_def ord_def)
  then show "wp (cancel_ord why x s) (lists_settled x (co_id r) B ts)"
    using *[of CANCELLED] by (simp add: cancel_ord_def set_status_some[OF r] notify_ord_def)
qed

text \<open>The order \<open>x\<close> joins its side.\<close>

lemma rest_lists:
  assumes I: "cpp_inv s f {x} {} {}" and r: "h_orders s x = Some r" and fit: "fit_ok r"
    and cl: "clear_of s (co_side r) (co_price r)" and st: "st = NEW \<or> st = PARTIALLY_FILLED" and B: "\<And>sd. cpp_view s f sd = B sd"
    and L: "L = add_level (co_side r) (co_price r) (shape (r\<lparr>co_visible := fresh_visible r, co_status := st\<rparr>)) (B (co_side r))"
  shows "wp (do { s \<leftarrow> insertOrder x s; set_status st x s }) (\<lambda>s'. \<exists>f' q. cpp_inv s' f' {} {} {} \<and>
    (\<forall>sd. cpp_view s' f' sd = (B(co_side r := L)) sd) \<and> env s s' \<and> h_orders s' x = Some q \<and> co_id q = co_id r)"
proof (rule wp_mono[OF rest_wp[OF I _ r fit cl st]], unfold B L[symmetric] Diff_cancel)
  fix s' assume "(\<exists>f'. cpp_inv s' f' {} {} {} \<and> cpp_view s' f' (co_side r) = L \<and>
      cpp_view s' f' (oppositeSide (co_side r)) = B (oppositeSide (co_side r))) \<and> env s s' \<and>
    (\<forall>y \<in> {}. h_orders s' y = h_orders s y) \<and> (\<forall>y. map_option co_id (h_orders s' y) = map_option co_id (h_orders s y))"
  then obtain f' where I': "cpp_inv s' f' {} {} {}" and own: "cpp_view s' f' (co_side r) = L"
    and opp: "cpp_view s' f' (oppositeSide (co_side r)) = B (oppositeSide (co_side r))" and e: "env s s'"
    and id: "map_option co_id (h_orders s' x) = map_option co_id (h_orders s x)" by blast
  have "cpp_view s' f' sd = (B(co_side r := L)) sd" for sd using own opp by (cases sd; cases "co_side r") simp_all
  moreover obtain q where "h_orders s' x = Some q" "co_id q = co_id r" using id r by auto
  ultimately show "\<exists>f' q. cpp_inv s' f' {} {} {} \<and> (\<forall>sd. cpp_view s' f' sd = (B(co_side r := L)) sd) \<and> env s s' \<and>
      h_orders s' x = Some q \<and> co_id q = co_id r" using I' e by blast
qed simp

lemma dispose_lists:
  assumes I: "cpp_inv s f {x} {} {}" and r: "h_orders s x = Some r"
    and ok: "co_rem r \<noteq> 0 \<Longrightarrow> base_ok r" and fok: "co_tif r = FOK \<Longrightarrow> co_rem r = 0"
    and ty: "co_type r = LIMIT \<and> 0 < co_price r \<or> co_type r = MARKET" and nc: "co_status r \<noteq> CANCELLED"
    and ex: "co_rem r \<noteq> 0 \<Longrightarrow> exhausted r (side_map (oppositeSide (co_side r)) s)"
    and B: "\<And>sd. cpp_view s f sd = B sd" and tr: "e_stops s = []" "map deal_of (e_trades s) = ts"
    and mq: "ht \<Longrightarrow> co_minQty r \<le> 0"
  shows "wp (dispose x ht s) (lists_settled x (co_id r) (B(co_side r := rest_spec (shape r) ht (B (co_side r)))) ts)"
proof -
  note sl = status_lists[OF I r _ _ tr]
  consider (filled) "co_rem r = 0" | (dead) why where "co_rem r \<noteq> 0" "dispose x ht s = cancel_ord why x s" "co_tif r = IOC \<or> co_type r = MARKET"
    | (live) "co_rem r \<noteq> 0" "co_tif r \<noteq> IOC" "co_tif r \<noteq> FOK" "co_type r \<noteq> MARKET"
    using fok r by (cases "co_tif r"; cases "co_type r = MARKET") (auto simp: dispose_def)
  then show ?thesis
  proof cases
    case filled
    then show ?thesis using sl(1)[of FILLED B] B r nc by (simp add: dispose_def rest_spec_def Let_def)
  next
    case dead
    then show ?thesis using sl(2)[of CANCELLED B] B by (auto simp: rest_spec_def Let_def)
  next
    case live
    let ?st = "if ht then PARTIALLY_FILLED else NEW"
    have fit: "fit_ok r" using live ok ty by (simp add: fit_ok_def)
    have cl: "clear_of s (co_side r) (co_price r)" using exhausted_clear[OF I ex[OF live(1)]] fit by (simp add: fit_ok_def)
    have run: "dispose x ht s = do { s \<leftarrow> insertOrder x s; set_status ?st x s }"
      using live r by (cases "co_tif r") (simp_all add: dispose_def)
    have st: "?st = NEW \<or> ?st = PARTIALLY_FILLED" by simp
    have "rest_spec (shape r) ht (B (co_side r)) =
        add_level (co_side r) (co_price r) (shape (r\<lparr>co_visible := fresh_visible r, co_status := ?st\<rparr>)) (B (co_side r))"
      using live nc mq by (auto simp: rest_spec_def Let_def)
    from rest_lists[OF I r fit cl st B this] show ?thesis unfolding run
      by (rule wp_mono) (use tr in \<open>auto simp: lists_settled_def env_def\<close>)
  qed
qed

section \<open>Without stop orders\<close>

text \<open>Trades are reported and no stop fires.\<close>

lemma emit_quiet:
  assumes "\<And>px t. e_stops t = [] \<Longrightarrow> eval px t = Some t" and "e_stops s = []" and "i + k \<le> length (e_trades s)"
  shows "\<exists>l px. emit_from eval k i s = Some (s\<lparr>e_log := l, e_lastPx := px\<rparr>)"
  using assms(2,3)
proof (induction k arbitrary: i s)
  case 0
  have "s = s\<lparr>e_log := e_log s, e_lastPx := e_lastPx s\<rparr>" by simp
  then show ?case unfolding emit_from.simps by metis
next
  case (Suc k)
  let ?s = "(notify (onTrade (e_trades s ! i)) s)\<lparr>e_lastPx := ct_price (e_trades s ! i)\<rparr>"
  have "\<exists>l px. emit_from eval k (Suc i) ?s = Some (?s\<lparr>e_log := l, e_lastPx := px\<rparr>)"
    by (rule Suc.IH) (use Suc.prems in \<open>simp_all add: notify_def\<close>)
  then show ?case using Suc.prems assms(1)[of ?s] by (auto simp: Let_def notify_def)
qed

lemma settled_quiet: "lists_settled x n B ts s \<Longrightarrow> lists_settled x n B ts (s\<lparr>e_log := l, e_lastPx := px\<rparr>)"
proof -
  have "cpp_inv (s\<lparr>e_log := l, e_lastPx := px\<rparr>) f P {} {} = cpp_inv s f P {} {}" for f P by simp
  moreover have "cpp_view (s\<lparr>e_log := l, e_lastPx := px\<rparr>) f sd = cpp_view s f sd" for f sd
  proof -
    have "ord (s\<lparr>e_log := l, e_lastPx := px\<rparr>) = ord s" by (rule ord_same) simp
    then show ?thesis by (cases sd) (simp_all add: cpp_view_def side_view_def view_def)
  qed
  ultimately show "lists_settled x n B ts s \<Longrightarrow> ?thesis" by (simp add: lists_settled_def ord_def)
qed

lemma cpp_view_all_but_hand:
  assumes "cpp_inv s f {x} {} {}" and "h_orders s' = (h_orders s)(x := None)" and "\<And>sd. side_map sd s' = side_map sd s"
  shows "cpp_view s' f sd = cpp_view s f sd"
  by (rule cpp_view_frame[OF assms(1)]) (use assms(2,3) in simp_all)

definition lists_done :: "cpp_books \<Rightarrow> deal list \<Rightarrow> CppEngine \<Rightarrow> bool" where
  "lists_done B ts s \<longleftrightarrow> cpp_rep s B \<and> e_stops s = [] \<and> map deal_of (e_trades s) = ts"

lemma drop_lists:
  assumes I: "cpp_inv s f {x} {} {}" and B: "\<And>sd. cpp_view s f sd = B sd" and e: "e_stops s = []" "map deal_of (e_trades s) = ts"
  shows "wp (drop_ord x s) (lists_done B ts)"
proof -
  from inv_drop[OF I, of x] obtain s' where 1: "drop_ord x s = Some s'" and I': "cpp_inv s' f {} {} {}"
    and h: "h_orders s' = (h_orders s)(x := None)" and env: "env s s'" and sm: "\<And>sd. side_map sd s' = side_map sd s" by (auto elim!: wpE)
  have "cpp_rep s' B" using I' cpp_view_all_but_hand[OF I h sm] B unfolding cpp_rep_def by auto
  then show ?thesis using 1 env e by (simp add: env_def lists_done_def)
qed

lemma cancel_drop_lists:
  assumes I: "cpp_inv s f {x} {} {}" and r: "h_orders s x = Some r"
    and B: "\<And>sd. cpp_view s f sd = B sd" and e: "e_stops s = []" "map deal_of (e_trades s) = ts"
  shows "wp (do { s \<leftarrow> cancel_ord why x s; drop_ord x s }) (lists_done B ts)"
proof -
  let ?r = "r\<lparr>co_status := CANCELLED\<rparr>"
  let ?s = "notify (onOrderCancelled ?r why) (s\<lparr>h_orders := (h_orders s)(x \<mapsto> ?r)\<rparr>)"
  have 1: "cancel_ord why x s = Some ?s" by (simp add: cancel_ord_def set_status_some[OF r] notify_ord_def)
  have "cpp_inv (s\<lparr>h_orders := (h_orders s)(x \<mapsto> ?r)\<rparr>) f {x} {} {}" by (rule inv_upd[OF I r]) auto
  then have "cpp_inv ?s f {x} {} {}" by simp
  moreover have "cpp_view ?s f sd = B sd" for sd using cpp_view_hand[OF I] B by simp
  ultimately have "wp (drop_ord x ?s) (lists_done B ts)" by (rule drop_lists) (use e in \<open>simp_all add: notify_def\<close>)
  then show ?thesis using 1 by simp
qed

lemma close_lists:
  assumes st: "lists_settled x n B ts s"
  shows "wp (active_close x n s) (lists_done B ts)"
proof -
  from st obtain f q where alt: "cpp_inv s f {} {} {} \<or> cpp_inv s f {x} {} {} \<and> (co_status (ord s x) = FILLED \<or> co_status (ord s x) = CANCELLED)"
    and B: "\<And>sd. cpp_view s f sd = B sd" and e: "e_stops s = []" "map deal_of (e_trades s) = ts" and q: "h_orders s x = Some q" "co_id q = n"
    unfolding lists_settled_def by blast
  have has: "OrderIndex_has (e_idx s) n" if "cpp_inv s f P {} {}" for P
    using hasOrder_live[OF that, of n] q by (auto simp: hasOrder_def)
  from alt show ?thesis
  proof
    assume I: "cpp_inv s f {} {} {}"
    obtain sd p lv as bs where lv: "(p, lv) \<in> set (side_map sd s)" "f lv = as @ x # bs" using resting_at[OF I q(1)] e by auto
    then have "\<not> (co_status q = FILLED \<or> co_status q = CANCELLED)" using inv_level(5)[OF I lv(1), of x] q by (auto simp: ord_def rest_ok_def)
    moreover have "cpp_rep s B" using I B by (auto simp: cpp_rep_def)
    ultimately show ?thesis using has[OF I] q e by (simp add: active_close_def lists_done_def)
  next
    assume *: "cpp_inv s f {x} {} {} \<and> (co_status (ord s x) = FILLED \<or> co_status (ord s x) = CANCELLED)"
    then have I: "cpp_inv s f {x} {} {}" by blast
    show ?thesis using drop_lists[OF I B e] has[OF I] q * by (auto simp: active_close_def ord_def)
  qed
qed

text \<open>The end of \<^verbatim>\<open>processActive\<close>: the reports, and the release of an order that is over.\<close>

lemma finish_lists:
  assumes st: "lists_settled x n B ts s" and ev: "\<And>px t. e_stops t = [] \<Longrightarrow> eval px t = Some t"
  shows "wp (do { s \<leftarrow> emitAndTrigger eval 0 s; active_close x n s }) (lists_done B ts)"
proof -
  have "e_stops s = []" using st by (simp add: lists_settled_def)
  from emit_quiet[of eval s 0 "length (e_trades s)", OF ev this] obtain l px where
    "emit_from eval (length (e_trades s)) 0 s = Some (s\<lparr>e_log := l, e_lastPx := px\<rparr>)" by auto
  then show ?thesis using close_lists[OF settled_quiet[OF st]] by (simp add: emitAndTrigger_def)
qed

section \<open>Matching\<close>

text \<open>The order \<open>x\<close>, which was \<open>r\<close>, is matched as the list functions say; it is \<open>i\<close> then.\<close>

lemma match_lists:
  assumes I: "cpp_inv s f {x} {} {}" and r: "h_orders s x = Some r" and q: "0 \<le> co_rem r" "co_rem r \<le> cpp_max_qty"
    and stp: "co_stg r = 0 \<longleftrightarrow> co_stp r = NONE" and B: "\<And>sd. cpp_view s f sd = B sd" and tr: "map deal_of (e_trades s) = ts"
  obtains s' f' i b us where "matchOrd x s = Some s'" and "cpp_inv s' f' {x} {} {}" and "h_orders s' x = Some i" and "terms i = terms r"
    and "0 \<le> co_rem i" and "co_rem i \<le> co_rem r" and "e_stops s' = e_stops s" and "map deal_of (e_trades s') = ts @ us"
    and "match_spec (shape r) (B (oppositeSide (co_side r))) = Some (shape i, b, us)"
    and "\<And>sd. cpp_view s' f' sd = (B(oppositeSide (co_side r) := b)) sd"
    and "length (e_trades s') > length (e_trades s) \<longleftrightarrow> us \<noteq> []" and "\<exists>vs. e_trades s' = e_trades s @ vs \<and> map deal_of vs = us"
    and "co_rem i - reach s' r f' (side_map (oppositeSide (co_side r)) s') \<le> co_rem r - reach s r f (side_map (oppositeSide (co_side r)) s)"
    and "co_status i = CANCELLED \<or> co_status i = co_status r \<and> (co_rem i = 0 \<or> exhausted r (side_map (oppositeSide (co_side r)) s'))"
proof -
  let ?c = "oppositeSide (co_side r)"
  let ?K = "co_rem r - reach s r f (side_map ?c s)"
  from matchOrd_wp[OF I _ r q stp order_refl] obtain s' where run: "matchOrd x s = Some s'"
    and mp: "match_post (run_of s f r) x ?c {x} ?K s r s'" by (auto elim: wpE)
  from mp obtain f' i where *: "cpp_inv s' f' {x} {} {}" "h_orders s' x = Some i" "terms i = terms r" "0 \<le> co_rem i" "co_rem i \<le> co_rem r"
    "mframe x ?c {x} s s'" "co_rem i - reach s' r f' (side_map ?c s') \<le> ?K"
    "co_status i = CANCELLED \<or> co_status i = co_status r \<and> (co_rem i = 0 \<or> exhausted r (side_map ?c s'))"
    and se: "side_ended (run_of s f r) ?c s s' i f'" by (rule match_postE) blast
  from se obtain vs where vs: "e_trades s' = e_trades s @ vs"
    "match_spec (shape r) (cpp_view s f ?c) = Some (shape i, cpp_view s' f' ?c, map deal_of vs)"
    and own: "cpp_view s' f' (oppositeSide ?c) = cpp_view s f (co_side r)"
    by (auto simp: side_ended_def run_of_def cpp_view_def)
  have bv: "cpp_view s' f' sd = (B(?c := cpp_view s' f' ?c)) sd" for sd
    using own B by (cases sd; cases "co_side r") auto
  show thesis
  proof (rule that[OF run *(1-5) _ _ _ bv _ _ *(7,8)])
    show "e_stops s' = e_stops s" using *(6) by (simp add: mframe_def)
    show "map deal_of (e_trades s') = ts @ map deal_of vs" using vs(1) tr by simp
    show "match_spec (shape r) (B ?c) = Some (shape i, cpp_view s' f' ?c, map deal_of vs)" using vs(2) B by simp
    show "length (e_trades s') > length (e_trades s) \<longleftrightarrow> map deal_of vs \<noteq> []" using vs(1) by simp
    show "\<exists>ws. e_trades s' = e_trades s @ ws \<and> map deal_of ws = map deal_of vs" using vs(1) by blast
  qed
qed

lemma shape_min [simp]: "shape (r\<lparr>co_minQty := n\<rparr>) = (shape r)\<lparr>co_minQty := n\<rparr>"
  by (simp add: shape_def core_def)

lemma rest_spec_min:
  "rest_spec (shape (r\<lparr>co_minQty := (if co_minQty r > 0 \<and> ht then 0 else co_minQty r)\<rparr>)) ht own = rest_spec (shape r) ht own"
  by (cases "co_minQty r > 0"; cases ht) (simp_all add: rest_spec_def Let_def fresh_visible_def)

lemma rest_spec_cancelled: "co_status r = CANCELLED \<Longrightarrow> rest_spec (shape r) ht own = own"
  by (simp add: rest_spec_def Let_def)

lemma own_same: "B(oppositeSide sd := b, sd := B sd) = B(oppositeSide sd := b)"
  by (rule ext) (cases sd; simp)

lemma active_plain_lists:
  assumes I: "cpp_inv s f {x} {} {}" and r: "h_orders s x = Some r" and ok: "active_ok r" and ty: "co_type r \<noteq> MARKET_TO_LIMIT"
    and fok: "co_tif r = FOK \<Longrightarrow> co_qty r \<le> reach s r f (side_map (oppositeSide (co_side r)) s)"
    and B: "\<And>sd. cpp_view s f sd = B sd" and e: "e_stops s = []" "e_trades s = []"
  shows "wp (active_plain x s) (\<lambda>s'. \<exists>B' ts. plain_spec (shape r) B = Some (B', ts) \<and> lists_settled x (co_id r) B' ts s')"
proof -
  let ?c = "oppositeSide (co_side r)"
  have b: "base_ok r" and q: "0 \<le> co_rem r" "co_rem r \<le> cpp_max_qty" and stp: "co_stg r = 0 \<longleftrightarrow> co_stp r = NONE"
    using ok by (simp_all add: active_ok_def base_ok_def)
  have tr0: "map deal_of (e_trades s) = []" using e by simp
  obtain s1 f1 i b' us where 1: "matchOrd x s = Some s1" and I1: "cpp_inv s1 f1 {x} {} {}"
    and i: "h_orders s1 x = Some i" "terms i = terms r" "0 \<le> co_rem i" "co_rem i \<le> co_rem r" and st1: "e_stops s1 = e_stops s"
    and tr1: "map deal_of (e_trades s1) = [] @ us" and ms: "match_spec (shape r) (B ?c) = Some (shape i, b', us)"
    and B1: "\<And>sd. cpp_view s1 f1 sd = (B(?c := b')) sd" and ht: "length (e_trades s1) > length (e_trades s) \<longleftrightarrow> us \<noteq> []"
    and "\<exists>vs. e_trades s1 = e_trades s @ vs \<and> map deal_of vs = us"
    and K: "co_rem i - reach s1 r f1 (side_map ?c s1) \<le> co_rem r - reach s r f (side_map ?c s)"
    and st: "co_status i = CANCELLED \<or> co_status i = co_status r \<and> (co_rem i = 0 \<or> exhausted r (side_map ?c s1))"
    by (rule match_lists[OF I r q stp B tr0], rule that)
  let ?i = "i\<lparr>co_minQty := (if co_minQty i > 0 \<and> us \<noteq> [] then 0 else co_minQty i)\<rparr>"
  let ?s2 = "s1\<lparr>h_orders := (h_orders s1)(x \<mapsto> ?i)\<rparr>"
  note tf = terms_sel[OF i(2)]
  have I2: "cpp_inv ?s2 f1 {x} {} {}" by (rule inv_upd[OF I1 i(1)]) (auto simp: lnk_def)
  have i2: "h_orders ?s2 x = Some ?i" by simp
  have B2: "cpp_view ?s2 f1 sd = (B(?c := b')) sd" for sd using cpp_view_hand[OF I1] B1 by simp
  have e2: "e_stops ?s2 = []" "map deal_of (e_trades ?s2) = us" using st1 e tr1 by simp_all
  have up: "upd_ord x (\<lambda>w. if co_minQty w > 0 \<and> us \<noteq> [] then w\<lparr>co_minQty := 0\<rparr> else w) s1 = Some ?s2"
    unfolding upd_ord_some[OF i(1)] by (cases "co_minQty i > 0"; cases "us = []") simp_all
  have sti: "co_status ?i = co_status i" by simp
  have run: "active_plain x s = (if co_status i \<noteq> CANCELLED then dispose x (us \<noteq> []) ?s2 else Some ?s2)"
    by (simp only: active_plain_def Let_def 1 Option.bind.bind_lunit up i2 ht sti)
  have ps: "plain_spec (shape r) B = Some (B(?c := b', co_side r := rest_spec (shape ?i) (us \<noteq> []) (B (co_side r))), us)"
    unfolding rest_spec_min using ms by (simp add: plain_spec_def)
  have own: "(B(?c := b')) (co_side r) = B (co_side r)" by (cases "co_side r") simp_all
  have "wp (active_plain x s) (lists_settled x (co_id ?i) (B(?c := b', co_side r := rest_spec (shape ?i) (us \<noteq> []) (B (co_side r)))) us)"
  proof (cases "co_status i = CANCELLED")
    case True
    have "(B(?c := b', co_side r := rest_spec (shape ?i) (us \<noteq> []) (B (co_side r)))) = B(?c := b')"
      unfolding rest_spec_min rest_spec_cancelled[OF True] by (rule own_same)
    moreover have "lists_settled x (co_id ?i) (B(?c := b')) us ?s2"
      using I2 B2 e2 i2 True by (auto simp: lists_settled_def ord_def)
    ultimately show ?thesis unfolding run using True by simp
  next
    case False
    then have ex: "co_rem i = 0 \<or> exhausted r (side_map ?c s1)" using st by auto
    have "wp (dispose x (us \<noteq> []) ?s2) (lists_settled x (co_id ?i)
        ((B(?c := b'))(co_side ?i := rest_spec (shape ?i) (us \<noteq> []) ((B(?c := b')) (co_side ?i)))) us)"
    proof (rule dispose_lists[OF I2 i2 _ _ _ _ _ B2 e2])
      show "base_ok ?i" if "co_rem ?i \<noteq> 0"
        using base_ok_after[OF b i(2)] i(3,4) that by (auto simp: base_ok_def)
      show "co_rem ?i = 0" if "co_tif ?i = FOK"
      proof (rule ccontr)
        assume "co_rem ?i \<noteq> 0"
        then have "reach s1 r f1 (side_map ?c s1) = 0" using ex by (auto intro: reach_exhausted)
        moreover have "co_rem r \<le> co_qty r" "co_qty r \<le> reach s r f (side_map ?c s)"
          using that ok fok tf by (simp_all add: active_ok_def)
        ultimately show False using K i(3) \<open>co_rem ?i \<noteq> 0\<close> by simp
      qed
      show "co_type ?i = LIMIT \<and> 0 < co_price ?i \<or> co_type ?i = MARKET" using ok ty tf by (auto simp: active_ok_def)
      show "co_status ?i \<noteq> CANCELLED" using False by simp
      show "exhausted ?i (side_map (oppositeSide (co_side ?i)) ?s2)" if "co_rem ?i \<noteq> 0"
        using ex that tf exhausted_cong[of ?i r] by simp
      show "co_minQty ?i \<le> 0" if "us \<noteq> []" using that by simp
    qed
    then show ?thesis unfolding run using False tf own by simp
  qed
  then show ?thesis by (rule wp_mono) (use ps tf in auto)
qed

definition mtl_lists :: "oaddr \<Rightarrow> u64 \<Rightarrow> cpp_books \<Rightarrow> deal list \<Rightarrow> CppEngine + CppEngine \<Rightarrow> bool" where
  "mtl_lists x n B ts res \<longleftrightarrow> (case res of Inl s \<Rightarrow> lists_done B ts s | Inr s \<Rightarrow> lists_settled x n B ts s)"

text \<open>The last step of a market-to-limit order, which is a limit order \<open>k\<close> by then.\<close>

lemma mtl_finish:
  assumes I: "cpp_inv s f {x} {} {}" and k: "h_orders s x = Some k" and b: "co_rem k \<noteq> 0 \<Longrightarrow> base_ok k"
    and tif: "co_tif k \<noteq> FOK" and ty: "co_type k = LIMIT" "0 < co_price k" "co_minQty k \<le> 0"
    and ex: "co_status k = CANCELLED \<or> co_rem k = 0 \<or> exhausted k (side_map (oppositeSide (co_side k)) s)"
    and B: "\<And>sd. cpp_view s f sd = B sd" and e: "e_stops s = []" "map deal_of (e_trades s) = ts"
  shows "wp (do { r \<leftarrow> h_orders s x; s \<leftarrow> (if co_status r \<noteq> CANCELLED then dispose x True s else Some s); Some (Inr s) })
    (mtl_lists x (co_id k) (B(co_side k := rest_spec (shape k) True (B (co_side k)))) ts)"
proof (cases "co_status k = CANCELLED")
  case True
  then have "lists_settled x (co_id k) (B(co_side k := rest_spec (shape k) True (B (co_side k)))) ts s"
    using I k B e by (auto simp: lists_settled_def ord_def rest_spec_cancelled)
  then show ?thesis using k True by (simp add: mtl_lists_def)
next
  case False
  have "wp (dispose x True s) (lists_settled x (co_id k) (B(co_side k := rest_spec (shape k) True (B (co_side k)))) ts)"
    by (rule dispose_lists[OF I k b _ _ False _ B e]) (use tif ty ex False in auto)
  then show ?thesis using k False by (simp add: mtl_lists_def)
qed

lemma active_mtl_lists:
  assumes I: "cpp_inv s f {x} {} {}" and r: "h_orders s x = Some r" and ok: "active_ok r" and ty: "co_type r = MARKET_TO_LIMIT"
    and B: "\<And>sd. cpp_view s f sd = B sd" and e: "e_stops s = []" "e_trades s = []"
  shows "wp (active_mtl x s) (\<lambda>res. \<exists>B' ts. mtl_spec (shape r) B = Some (B', ts) \<and> mtl_lists x (co_id r) B' ts res)"
proof -
  let ?c = "oppositeSide (co_side r)"
  have b: "base_ok r" and q: "0 \<le> co_rem r" "co_rem r \<le> cpp_max_qty" and stp: "co_stg r = 0 \<longleftrightarrow> co_stp r = NONE"
    and tif: "co_tif r \<noteq> FOK" "co_tif r \<noteq> IOC" using ok ty by (simp_all add: active_ok_def base_ok_def)
  have tr0: "map deal_of (e_trades s) = []" using e by simp
  obtain s1 f1 i b' us where 1: "matchOrd x s = Some s1" and I1: "cpp_inv s1 f1 {x} {} {}"
    and i: "h_orders s1 x = Some i" "terms i = terms r" "0 \<le> co_rem i" "co_rem i \<le> co_rem r" and st1: "e_stops s1 = e_stops s"
    and tr1: "map deal_of (e_trades s1) = [] @ us" and ms: "match_spec (shape r) (B ?c) = Some (shape i, b', us)"
    and B1: "\<And>sd. cpp_view s1 f1 sd = (B(?c := b')) sd" and ht: "length (e_trades s1) > length (e_trades s) \<longleftrightarrow> us \<noteq> []"
    and vs: "\<exists>vs. e_trades s1 = e_trades s @ vs \<and> map deal_of vs = us"
    and "co_rem i - reach s1 r f1 (side_map ?c s1) \<le> co_rem r - reach s r f (side_map ?c s)"
    and "co_status i = CANCELLED \<or> co_status i = co_status r \<and> (co_rem i = 0 \<or> exhausted r (side_map ?c s1))"
    by (rule match_lists[OF I r q stp B tr0], rule that)
  note tf = terms_sel[OF i(2)]
  have e1: "e_stops s1 = []" "map deal_of (e_trades s1) = us" using st1 tr1 e by simp_all
  show ?thesis
  proof (cases us)
    case Nil
    have "mtl_spec (shape r) B = Some (B(?c := b'), [])" using ms Nil by (simp add: mtl_spec_def)
    moreover have "wp (do { s \<leftarrow> cancel_ord ''MTL_NO_LIQUIDITY'' x s1; drop_ord x s }) (lists_done (B(?c := b')) [])"
      by (rule cancel_drop_lists[OF I1 i(1) B1 e1(1)]) (simp add: e1 Nil)
    ultimately show ?thesis using 1 ht Nil by (simp add: active_mtl_def Let_def mtl_lists_def)
  next
    case (Cons u us')
    obtain mk px n where u: "u = (mk, px, n)" by (cases u)
    obtain v vs' where v: "e_trades s1 = v # vs'" using vs e Cons by (cases "e_trades s1") auto
    then have px: "ct_price (e_trades s1 ! 0) = px" "0 < px"
      using e1(2) Cons u inv_parts(11)[OF I1] by (auto simp: deal_of_def trades_ok_def)
    define j where "j = i\<lparr>co_price := px, co_type := LIMIT, co_minQty := (if co_minQty i > 0 then 0 else co_minQty i)\<rparr>"
    let ?s2 = "s1\<lparr>h_orders := (h_orders s1)(x \<mapsto> j)\<rparr>"
    have sj: "shape j = (shape i)\<lparr>co_price := px, co_type := LIMIT, co_minQty := (if co_minQty i > 0 then 0 else co_minQty i)\<rparr>"
      by (simp add: j_def shape_def core_def)
    have jf: "co_side j = co_side r" "co_rem j = co_rem i" "co_price j = px" "co_type j = LIMIT" "co_tif j = co_tif r" "co_stg j = co_stg r"
      "co_stp j = co_stp r" "co_status j = co_status i" "co_minQty j \<le> 0" "co_id j = co_id r" using tf by (simp_all add: j_def)
    have I2: "cpp_inv ?s2 f1 {x} {} {}" by (rule inv_upd[OF I1 i(1)]) (auto simp: lnk_def j_def)
    have j2: "h_orders ?s2 x = Some j" by simp
    have B2: "cpp_view ?s2 f1 sd = (B(?c := b')) sd" for sd using cpp_view_hand[OF I1] B1 by simp
    have e2: "e_stops ?s2 = []" "map deal_of (e_trades ?s2) = us" using e1 by simp_all
    have jb: "base_ok j" if "co_rem j \<noteq> 0" using base_ok_after[OF b i(2)] i(3,4) that by (auto simp: base_ok_def j_def)
    have own: "(B(?c := b')) (co_side r) = B (co_side r)" for b' by (cases "co_side r") simp_all
    have up: "upd_ord x (\<lambda>w. w\<lparr>co_price := ct_price (e_trades s1 ! length (e_trades s)), co_type := LIMIT,
        co_minQty := (if co_minQty w > 0 then 0 else co_minQty w)\<rparr>) s1 = Some ?s2"
      using px e by (simp add: upd_ord_some[OF i(1)] j_def)
    have run: "active_mtl x s = do { s \<leftarrow> (if co_rem j > 0 \<and> co_status j \<noteq> CANCELLED then matchOrd x ?s2 else Some ?s2); r \<leftarrow> h_orders s x;
        s \<leftarrow> (if co_status r \<noteq> CANCELLED then dispose x True s else Some s); Some (Inr s) }"
      using ht Cons by (simp only: active_mtl_def Let_def 1 Option.bind.bind_lunit up j2) simp
    have spec: "mtl_spec (shape r) B = do { (k, b, us') \<leftarrow> (if co_rem j > 0 \<and> co_status j \<noteq> CANCELLED then match_spec (shape j) b' else Some (shape j, b', []));
        Some (B(?c := b, co_side r := rest_spec k True (B (co_side r))), us @ us') }"
      by (simp only: mtl_spec_def Let_def shape_sel ms Option.bind.bind_lunit prod.case Cons u list.case sj[symmetric])
    show ?thesis
    proof (cases "co_rem j > 0 \<and> co_status j \<noteq> CANCELLED")
      case True
      have qj: "0 \<le> co_rem j" "co_rem j \<le> cpp_max_qty" and sj: "co_stg j = 0 \<longleftrightarrow> co_stp j = NONE" using True i(4) q jf stp by simp_all
      obtain s3 f3 k b3 ws where 3: "matchOrd x ?s2 = Some s3" and I3: "cpp_inv s3 f3 {x} {} {}"
        and k: "h_orders s3 x = Some k" "terms k = terms j" "0 \<le> co_rem k" "co_rem k \<le> co_rem j" and st3: "e_stops s3 = e_stops ?s2"
        and tr3: "map deal_of (e_trades s3) = us @ ws"
        and ms3: "match_spec (shape j) ((B(?c := b')) (oppositeSide (co_side j))) = Some (shape k, b3, ws)"
        and B3: "\<And>sd. cpp_view s3 f3 sd = ((B(?c := b'))(oppositeSide (co_side j) := b3)) sd"
        and "length (e_trades s3) > length (e_trades ?s2) \<longleftrightarrow> ws \<noteq> []"
        and "\<exists>vs. e_trades s3 = e_trades ?s2 @ vs \<and> map deal_of vs = ws"
        and "co_rem k - reach s3 j f3 (side_map (oppositeSide (co_side j)) s3) \<le> co_rem j - reach ?s2 j f1 (side_map (oppositeSide (co_side j)) ?s2)"
        and ex: "co_status k = CANCELLED \<or> co_status k = co_status j \<and> (co_rem k = 0 \<or> exhausted j (side_map (oppositeSide (co_side j)) s3))"
        by (rule match_lists[OF I2 j2 qj sj B2 e2(2)], rule that)
      note kf = terms_sel[OF k(2)]
      have B3': "cpp_view s3 f3 sd = (B(?c := b3)) sd" for sd using B3 jf by simp
      have e3: "e_stops s3 = []" "map deal_of (e_trades s3) = us @ ws" using st3 e1 tr3 by simp_all
      have kb: "base_ok k" if "co_rem k \<noteq> 0" using base_ok_after[OF jb k(2)] k(3,4) that by simp
      have ex3: "co_status k = CANCELLED \<or> co_rem k = 0 \<or> exhausted k (side_map (oppositeSide (co_side k)) s3)"
        using ex kf jf exhausted_cong[of k j] by auto
      have sp: "mtl_spec (shape r) B = Some (B(?c := b3, co_side r := rest_spec (shape k) True (B (co_side r))), us @ ws)"
        unfolding spec if_P[OF True] using ms3 jf by simp
      have fin: "wp (do { r \<leftarrow> h_orders s3 x; s \<leftarrow> (if co_status r \<noteq> CANCELLED then dispose x True s3 else Some s3); Some (Inr s) })
        (mtl_lists x (co_id k) ((B(?c := b3))(co_side k := rest_spec (shape k) True ((B(?c := b3)) (co_side k)))) (us @ ws))"
        by (rule mtl_finish[OF I3 k(1) kb _ _ _ _ ex3 B3' e3]) (use jf kf tif px in simp_all)
      have kr: "co_side k = co_side r" "co_id k = co_id r" using kf jf by simp_all
      have run3: "active_mtl x s = do { r \<leftarrow> h_orders s3 x; s \<leftarrow> (if co_status r \<noteq> CANCELLED then dispose x True s3 else Some s3); Some (Inr s) }"
        unfolding run if_P[OF True] 3 Option.bind.bind_lunit ..
      show ?thesis unfolding run3 by (rule wp_mono[OF fin]) (simp only: sp kr own, blast)
    next
      case False
      have "co_status j = CANCELLED \<or> co_rem j = 0 \<or> exhausted j (side_map (oppositeSide (co_side j)) ?s2)" using False jf(2) i(3) by auto
      then have fin: "wp (do { r \<leftarrow> h_orders ?s2 x; s \<leftarrow> (if co_status r \<noteq> CANCELLED then dispose x True ?s2 else Some ?s2); Some (Inr s) })
        (mtl_lists x (co_id j) ((B(?c := b'))(co_side j := rest_spec (shape j) True ((B(?c := b')) (co_side j)))) us)"
        by (intro mtl_finish[OF I2 j2 jb _ _ _ _ _ B2 e2]) (use jf tif px in simp_all)
      have run2: "active_mtl x s = do { r \<leftarrow> h_orders ?s2 x; s \<leftarrow> (if co_status r \<noteq> CANCELLED then dispose x True ?s2 else Some ?s2); Some (Inr s) }"
        unfolding run if_not_P[OF False] Option.bind.bind_lunit ..
      have sp: "mtl_spec (shape r) B = Some (B(?c := b', co_side r := rest_spec (shape j) True (B (co_side r))), us)"
        unfolding spec if_not_P[OF False] by simp
      show ?thesis unfolding run2 by (rule wp_mono[OF fin]) (simp only: sp jf(1,10) own, blast)
    qed
  qed
qed

section \<open>Submission\<close>

lemma add_level_fresh:
  "co_status r \<noteq> CANCELLED \<Longrightarrow> co_rem r \<noteq> 0 \<Longrightarrow> co_type r = LIMIT \<Longrightarrow> co_tif r \<noteq> IOC \<Longrightarrow>
   rest_spec (shape r) False own = add_level (co_side r) (co_price r) (shape (r\<lparr>co_visible := fresh_visible r, co_status := NEW\<rparr>)) own"
  by (simp add: rest_spec_def Let_def)

lemma wouldCross_view:
  assumes "co_price r \<noteq> 0"
  shows "wouldCross s r \<longleftrightarrow> (let b = cpp_view s f (oppositeSide (co_side r)) in b \<noteq> [] \<and> canMatch r (fst (hd b)))"
proof -
  have "wouldCross s r \<longleftrightarrow> \<not> exhausted r (side_map (oppositeSide (co_side r)) s)" using wouldCross_exhausted[OF assms] by blast
  then show ?thesis by (cases "side_map (oppositeSide (co_side r)) s") (auto simp: exhausted_def cpp_view_def side_view_def)
qed

lemma post_only_lists:
  assumes I: "cpp_inv s f {x} {} {}" and r: "h_orders s x = Some r" and ok: "active_ok r" and po: "co_postOnly r"
    and pol: "e_poPol s = REJECT" and B: "\<And>sd. cpp_view s f sd = B sd" and e: "e_stops s = []" "e_trades s = []"
  shows "wp (active_post_only x s) (\<lambda>s'. \<exists>B' ts. take_spec (shape r) B = Some (B', ts) \<and> lists_done B' ts s')"
proof -
  let ?c = "oppositeSide (co_side r)"
  have fit: "fit_ok r" using ok po by (auto simp: active_ok_def fit_ok_def)
  then have p: "co_price r \<noteq> 0" by (simp add: fit_ok_def)
  have wc: "wouldCross s r \<longleftrightarrow> B ?c \<noteq> [] \<and> canMatch (shape r) (fst (hd (B ?c)))"
    using wouldCross_view[OF p, of s f] B by (simp add: Let_def)
  show ?thesis
  proof (cases "wouldCross s r")
    case True
    then have "take_spec (shape r) B = Some (B, [])" using wc po by (simp add: take_spec_def)
    moreover have "wp (do { s \<leftarrow> cancel_ord ''POST_ONLY_WOULD_CROSS'' x s; drop_ord x s }) (lists_done B [])"
      by (rule cancel_drop_lists[OF I r B e(1)]) (simp add: e)
    ultimately show ?thesis using True r pol by (simp add: active_post_only_def)
  next
    case False
    let ?B = "B(co_side r := rest_spec (shape r) False (B (co_side r)))"
    have cl: "clear_of s (co_side r) (co_price r)"
      using exhausted_clear[OF I] wouldCross_exhausted[OF p, of s] False p by blast
    have sp: "take_spec (shape r) B = Some (?B, [])" using False wc po by (auto simp: take_spec_def Let_def)
    have "rest_spec (shape r) False (B (co_side r)) =
        add_level (co_side r) (co_price r) (shape (r\<lparr>co_visible := fresh_visible r, co_status := NEW\<rparr>)) (B (co_side r))"
      using add_level_fresh[of r] fit ok by (simp add: fit_ok_def base_ok_def active_ok_def)
    from rest_lists[OF I r fit cl disjI1[OF refl] B this]
    have "wp (do { s \<leftarrow> insertOrder x s; set_status NEW x s }) (lists_done ?B [])"
      by (rule wp_mono) (use e in \<open>auto simp: lists_done_def cpp_rep_def env_def\<close>)
    then show ?thesis using sp r False by (simp add: active_post_only_def)
  qed
qed

lemma active_with_lists:
  assumes I: "cpp_inv s f {x} {} {}" and r: "h_orders s x = Some r" and ok: "active_ok r"
    and pol: "e_poPol s = REJECT" and B: "\<And>sd. cpp_view s f sd = B sd" and e: "e_stops s = []" "e_trades s = []"
    and ev: "\<And>px t. e_stops t = [] \<Longrightarrow> eval px t = Some t"
  shows "wp (active_with eval x s) (\<lambda>s'. \<exists>B' ts. take_spec (shape r) B = Some (B', ts) \<and> lists_done B' ts s')"
proof (cases "co_postOnly r")
  case True
  then show ?thesis using post_only_lists[OF I r ok True pol B e] r by (simp add: active_with_def)
next
  case False
  let ?c = "oppositeSide (co_side r)"
  have b: "base_ok r" using ok by (simp add: active_ok_def)
  from active_check_exact[OF I r b] obtain err where c: "active_check x s = Some err" and rdy: "err = None \<longleftrightarrow> ready_spec (shape r) (B ?c)"
    unfolding B by (auto elim: wpE)
  show ?thesis
  proof (cases err)
    case (Some why)
    then have "take_spec (shape r) B = Some (B, [])" using rdy False by (simp add: take_spec_def)
    moreover have "wp (do { s \<leftarrow> cancel_ord why x s; drop_ord x s }) (lists_done B [])"
      by (rule cancel_drop_lists[OF I r B e(1)]) (simp add: e)
    ultimately show ?thesis using r False c Some by (simp add: active_with_def)
  next
    case None
    let ?res = "if co_type r = MARKET_TO_LIMIT then active_mtl x s else do { s \<leftarrow> active_plain x s; Some (Inr s) }"
    have rd: "ready_spec (shape r) (B ?c)" using rdy None by simp
    then have sp: "take_spec (shape r) B = (if co_type r = MARKET_TO_LIMIT then mtl_spec (shape r) B else plain_spec (shape r) B)"
      using False by (simp add: take_spec_def)
    have fok: "co_qty r \<le> reach s r f (side_map ?c s)" if "co_tif r = FOK"
      using rd that by (simp add: ready_spec_def B[symmetric] cpp_view_def offer_spec_view)
    have "wp ?res (\<lambda>res. \<exists>B' ts. take_spec (shape r) B = Some (B', ts) \<and> mtl_lists x (co_id r) B' ts res)"
    proof (cases "co_type r = MARKET_TO_LIMIT")
      case True
      then show ?thesis using active_mtl_lists[OF I r ok True B e] sp by simp
    next
      case ty: False
      show ?thesis using active_plain_lists[OF I r ok ty fok B e] sp ty by (simp add: mtl_lists_def)
    qed
    then obtain res B' ts where 1: "?res = Some res" and spec: "take_spec (shape r) B = Some (B', ts)" and post: "mtl_lists x (co_id r) B' ts res"
      by (auto elim!: wpE)
    have "active_with eval x s = (case res of Inl s \<Rightarrow> Some s
        | Inr s' \<Rightarrow> do { s \<leftarrow> emitAndTrigger eval (length (e_trades s)) s'; active_close x (co_id r) s })"
      using r False c None 1 by (simp add: active_with_def Let_def del: if_split)
    then have "wp (active_with eval x s) (lists_done B' ts)"
      using post finish_lists[OF _ ev, of x "co_id r" B' ts] e by (cases res) (simp_all add: mtl_lists_def)
    then show ?thesis by (rule wp_mono) (use spec in blast)
  qed
qed

lemma evalStops_none: "e_stops t = [] \<Longrightarrow> evalStops act px t = Some t"
  by (simp add: evalStops_def)

lemma processActive_lists:
  assumes "cpp_inv s f {x} {} {}" and "h_orders s x = Some r" and "active_ok r"
    and "e_poPol s = REJECT" and "\<And>sd. cpp_view s f sd = B sd" and "e_stops s = []" "e_trades s = []"
  shows "wp (processActive MAX_CASCADE x s) (\<lambda>s'. \<exists>B' ts. take_spec (shape r) B = Some (B', ts) \<and> lists_done B' ts s')"
proof -
  obtain d where d: "MAX_CASCADE = Suc d" by (simp add: MAX_CASCADE_def)
  have "processActive MAX_CASCADE x s = active_with (evalStops (processActive d)) x s" by (simp only: d processActive.simps)
  then show ?thesis using active_with_lists[OF assms, of "evalStops (processActive d)"] evalStops_none by simp
qed

lemma process_lists:
  assumes "cpp_inv s f {x} {} {}" and "h_orders s x = Some r" and "active_ok r"
    and "e_poPol s = REJECT" and "\<And>sd. cpp_view s f sd = B sd" and "e_stops s = []" "e_trades s = []"
  shows "wp (process x s) (\<lambda>s'. \<exists>B' ts. take_spec (shape r) B = Some (B', ts) \<and> lists_done B' ts s')"
proof -
  have "co_type r \<noteq> STOP_LIMIT" "co_type r \<noteq> STOP_MARKET" using assms(3) by (auto simp: active_ok_def)
  then have "process x s = processActive MAX_CASCADE x s" using assms(2) by (simp add: process_def)
  then show ?thesis using processActive_lists[OF assms] by simp
qed

text \<open>The ids in the books are the live ids when there are no stop orders.\<close>

lemma side_ids: "co_id ` set (concat (map snd (side_view s f m))) = (\<lambda>x. co_id (ord s x)) ` (\<Union>(p, lv) \<in> set m. set (f lv))"
proof (induction m)
  case (Cons l m)
  obtain p lv where l: "l = (p, lv)" by (cases l)
  have "co_id ` set (view s (f lv)) = (\<lambda>x. co_id (ord s x)) ` set (f lv)" by (simp add: view_def image_image)
  then show ?case using Cons by (simp only: l side_view_simps list.map snd_conv concat.simps set_append image_Un list.set UN_insert prod.case)
qed simp

lemma rep_ids:
  assumes I: "cpp_inv s f {} {} {}" and B: "\<And>sd. cpp_view s f sd = B sd" and e: "e_stops s = []"
  shows "hasOrder s i \<longleftrightarrow> i \<in> book_ids B"
proof -
  have ids: "book_ids B = (\<lambda>x. co_id (ord s x)) ` ((\<Union>(p, lv) \<in> set (side_map BUY s). set (f lv)) \<union> (\<Union>(p, lv) \<in> set (side_map SELL s). set (f lv)))"
    unfolding book_ids_def B[symmetric] cpp_view_def set_append image_Un side_ids ..
  show ?thesis
  proof
    assume "hasOrder s i"
    then obtain x r where x: "h_orders s x = Some r" "co_id r = i" using hasOrder_live[OF I] by blast
    obtain sd p lv as bs where "(p, lv) \<in> set (side_map sd s)" "f lv = as @ x # bs" using resting_at[OF I x(1)] e by auto
    then have "x \<in> (\<Union>(p, lv) \<in> set (side_map sd s). set (f lv))" by force
    moreover have "i = co_id (ord s x)" using x by (simp add: ord_def)
    ultimately show "i \<in> book_ids B" unfolding ids by (cases sd) blast+
  next
    assume "i \<in> book_ids B"
    then obtain sd p lv x where x: "(p, lv) \<in> set (side_map sd s)" "x \<in> set (f lv)" "i = co_id (ord s x)" unfolding ids by blast
    then have "h_orders s x \<noteq> None" using level_list_chain[OF inv_level(1)[OF I x(1)]] by blast
    then obtain r where "h_orders s x = Some r" by blast
    then show "hasOrder s i" using hasOrder_live[OF I] x(3) by (simp add: ord_def) blast
  qed
qed

text \<open>Everything \<^verbatim>\<open>submitOrder\<close> does, on lists.\<close>

lemma cpp_view_same:
  assumes "h_orders s' = h_orders s" and "\<And>sd. side_map sd s' = side_map sd s"
  shows "cpp_view s' f sd = cpp_view s f sd"
  unfolding cpp_view_def assms(2) by (rule side_view_core) (simp add: ord_def assms(1))

lemma submit_lists:
  assumes I: "cpp_inv s f {} {} {}" and B: "\<And>sd. cpp_view s f sd = B sd" and pol: "e_poPol s = REJECT" and e: "e_stops s = []"
    and w: "within (Submit inp) s" and ty: "in_type inp \<noteq> STOP_LIMIT" "in_type inp \<noteq> STOP_MARKET"
  shows "\<exists>s' ok B' ts. submitOrder inp s = Some s' \<and> submit_spec (e_now s) inp B = Some (ok, B', ts) \<and> cpp_rep s' B' \<and>
    e_stops s' = [] \<and> (if ok then map deal_of (e_trades s') = ts else e_trades s' = e_trades s)"
proof -
  let ?t = "e_now s + 1"
  let ?r = "built_order inp ?t"
  note ids = rep_ids[OF I B e]
  have id: "co_id ?r = in_id inp" by (simp add: built_order_def)
  consider (dup) "hasOrder s (in_id inp)" | (bad) err where "\<not> hasOrder s (in_id inp)" "validate ?t ?r = Some err"
    | (good) "\<not> hasOrder s (in_id inp)" "validate ?t ?r = None" by (cases "validate ?t ?r") auto
  then show ?thesis
  proof cases
    case dup
    have "submit_spec (e_now s) inp B = Some (False, B, [])" using ids dup by (simp add: submit_spec_def)
    moreover have "cpp_rep (notify ev s) B" "e_stops (notify ev s) = []" "e_trades (notify ev s) = e_trades s" for ev
      using I B e by (auto simp: cpp_rep_def) (simp_all add: notify_def)
    moreover have "\<exists>ev. submitOrder inp s = Some (notify ev s)" using dup by (auto simp: submitOrder_def hasOrder_def)
    ultimately show ?thesis by auto
  next
    case bad
    have sp: "submit_spec (e_now s) inp B = Some (False, B, [])" using bad by (simp add: submit_spec_def)
    obtain s' where run: "submitOrder inp s = Some s'" and I': "cpp_inv s' f {} {} {}" and h: "h_orders s' = h_orders s"
      and sm: "\<And>sd. side_map sd s' = side_map sd s" and env: "env s s'"
      using submit_rejected_wp[OF I, of inp "\<lambda>w. onOrderRejected w err"]
      unfolding submit_run[OF bad(1)] Let_def bad(2) option.case by (auto elim!: wpE)
    have "cpp_rep s' B" using I' cpp_view_same[OF h sm] B unfolding cpp_rep_def by auto
    then show ?thesis using run sp env e by (auto simp: env_def)
  next
    case good
    let ?x = "h_obrk s"
    have idb: "unat (in_id inp) < 2 ^ 31" and q: "in_qty inp \<le> cpp_max_qty" using w by simp_all
    obtain s2 where run: "(let x = h_obrk s in do { s \<leftarrow> idx_insert (in_id inp) x (with_new inp s); s \<leftarrow> notify_ord onOrderAccepted x s;
        process x (s\<lparr>e_trades := []\<rparr>) }) = process ?x s2"
      and I2: "cpp_inv s2 f {?x} {} {}" and h: "h_orders s2 = (h_orders s)(?x \<mapsto> ?r)" and e2: "e_poPol s2 = e_poPol s" "e_stops s2 = e_stops s"
        "e_trades s2 = []" and sm: "\<And>sd. side_map sd s2 = side_map sd s" by (rule accept_run[OF I idb good(1)], rule that)
    have bo: "co_rem ?r = co_qty ?r" "co_qty ?r = in_qty inp" "co_status ?r = NEW" "co_type ?r = in_type inp"
      by (simp_all add: built_order_def default_order_def)
    have "incoming_ok ?r" by (rule validate_incoming[OF good(2)]) (use q bo in simp_all)
    then have ok: "active_ok ?r" using ty bo by (simp add: incoming_ok_def)
    have B2: "cpp_view s2 f sd = B sd" for sd
      unfolding B[symmetric] cpp_view_def sm
      by (rule side_view_core) (use fresh_order(3)[OF I] in \<open>auto simp: ord_def h\<close>)
    have x: "h_orders s2 ?x = Some ?r" by (simp add: h)
    from process_lists[OF I2 x ok _ B2] obtain s' B' ts where s': "process ?x s2 = Some s'"
      and sp: "take_spec (shape ?r) B = Some (B', ts)" and d: "lists_done B' ts s'" using e2 pol e by (auto elim!: wpE)
    have "submitOrder inp s = Some s'"
      unfolding submit_run[OF good(1)] Let_def good(2) option.case id using run s' by (simp add: Let_def)
    moreover have "submit_spec (e_now s) inp B = Some (True, B', ts)" using ids good sp by (simp add: submit_spec_def)
    ultimately show ?thesis using d by (auto simp: lists_done_def)
  qed
qed

section \<open>Cancellation\<close>

definition drop_id :: "u64 \<Rightarrow> side_lists \<Rightarrow> side_lists" where
  "drop_id i L = filter (\<lambda>l. snd l \<noteq> []) (map (\<lambda>(p, q). (p, filter (\<lambda>r. co_id r \<noteq> i) q)) L)"

text \<open>Everything \<^verbatim>\<open>cancelOrder\<close> does, on lists.\<close>

definition cancel_spec :: "u64 \<Rightarrow> cpp_books \<Rightarrow> bool \<times> cpp_books" where
  "cancel_spec i B = (if i \<in> book_ids B then (True, \<lambda>sd. drop_id i (B sd)) else (False, B))"

lemma prune_view:
  assumes "\<And>p lv. (p, lv) \<in> set m \<Longrightarrow> view s' (f' lv) = filter (\<lambda>r. co_id r \<noteq> i) (view s (f lv))"
  shows "side_view s' f' (filter (\<lambda>e. f' (snd e) \<noteq> []) m) = drop_id i (side_view s f m)"
  using assms
proof (induction m)
  case (Cons e m)
  obtain p lv where e: "e = (p, lv)" by (cases e)
  have v: "view s' (f' lv) = filter (\<lambda>r. co_id r \<noteq> i) (view s (f lv))" by (rule Cons.prems[of p]) (simp add: e)
  have "f' lv = [] \<longleftrightarrow> filter (\<lambda>r. co_id r \<noteq> i) (view s (f lv)) = []" using v by (metis view_simps(4))
  moreover have "side_view s' f' (filter (\<lambda>e. f' (snd e) \<noteq> []) m) = drop_id i (side_view s f m)"
  proof (rule Cons.IH)
    fix q k assume "(q, k) \<in> set m"
    then have "(q, k) \<in> set (e # m)" by simp
    then show "view s' (f' k) = filter (\<lambda>r. co_id r \<noteq> i) (view s (f k))" by (rule Cons.prems)
  qed
  ultimately show ?case using v by (simp add: e drop_id_def)
qed (simp add: drop_id_def)

lemma filter_view:
  assumes "\<And>y. y \<in> set xs \<Longrightarrow> y \<noteq> x \<Longrightarrow> core (ord s' y) = core (ord s y)" and "\<And>y. y \<in> set xs \<Longrightarrow> co_id (ord s y) = i \<longleftrightarrow> y = x"
  shows "view s' (filter (\<lambda>y. y \<noteq> x) xs) = filter (\<lambda>r. co_id r \<noteq> i) (view s xs)"
  using assms by (induction xs) (auto intro: shape_core)

text \<open>The order \<open>x\<close> with the id \<open>i\<close> has left its level; the others have their data.\<close>

lemma pruned_views:
  assumes I: "cpp_inv s f {} {} {}" and ix: "OrderIndex_get (e_idx s) i = Some x" and same: "\<And>y. y \<noteq> x \<Longrightarrow> core (ord s' y) = core (ord s y)"
    and lv: "(p, lv) \<in> set (side_map sd s)" "f lv = as @ x # bs" and f': "f' = f(lv := as @ bs)" and pr: "pruned f' s s'"
  shows "cpp_view s' f' sd' = drop_id i (cpp_view s f sd')"
proof -
  have ids: "co_id (ord s y) = i \<longleftrightarrow> y = x" if "h_orders s y \<noteq> None" for y
    using inv_parts(9)[OF I] ix that unfolding index_ok_def by (metis option.inject)
  have "view s' (f' k) = filter (\<lambda>r. co_id r \<noteq> i) (view s (f k))" if k: "(q, k) \<in> set (side_map sd' s)" for q k sd'
  proof -
    have "f' k = filter (\<lambda>y. y \<noteq> x) (f k)"
    proof (cases "k = lv")
      case True
      have "distinct (f lv)" by (rule level_list_distinct[OF inv_level(1)[OF I lv(1)]])
      then have "x \<notin> set as" "x \<notin> set bs" by (simp_all add: lv(2))
      then have "filter (\<lambda>y. y \<noteq> x) as = as" "filter (\<lambda>y. y \<noteq> x) bs = bs" by (auto intro!: filter_True)
      then show ?thesis by (simp add: f' True lv(2))
    next
      case False
      then have "x \<notin> set (f k)" using inv_apart(3)[OF I lv(1), of x q k sd'] k lv(2) by auto
      then have "filter (\<lambda>y. y \<noteq> x) (f k) = f k" by (auto intro!: filter_True)
      then show ?thesis using False by (simp add: f')
    qed
    moreover have "\<And>y. y \<in> set (f k) \<Longrightarrow> h_orders s y \<noteq> None" using level_list_chain[OF inv_level(1)[OF I k]] by blast
    ultimately show ?thesis using filter_view[of "f k" x s' s i] same ids by simp
  qed
  then show ?thesis using pr prune_view[of "side_map sd' s" s' f' i s f] unfolding cpp_view_def pruned_def by metis
qed

lemma lifted_views:
  assumes I: "cpp_inv s f {} {} {}" and ix: "OrderIndex_get (e_idx s) i = Some x" and ab: "all_but x s s'" and lf: "lifted x f s s'"
  shows "\<exists>f'. cpp_inv s' f' {} {} {} \<and> (\<forall>sd. cpp_view s' f' sd = drop_id i (cpp_view s f sd))"
proof -
  from lf obtain f' p lv sd as bs where I': "cpp_inv s' f' {} {} {}" and lv: "(p, lv) \<in> set (side_map sd s)" "f lv = as @ x # bs"
    and f': "f' = f(lv := as @ bs)" and pr: "pruned f' s s'" unfolding lifted_def by blast
  have "core (ord s' y) = core (ord s y)" if "y \<noteq> x" for y by (rule core_ord) (use ab that in \<open>simp add: all_but_def\<close>)
  then show ?thesis using I' pruned_views[OF I ix _ lv f' pr] by blast
qed

lemma cancel_lists:
  assumes I: "cpp_inv s f {} {} {}" and B: "\<And>sd. cpp_view s f sd = B sd" and e: "e_stops s = []"
  shows "\<exists>s'. cancelOrder i s = Some (fst (cancel_spec i B), s') \<and> cpp_rep s' (snd (cancel_spec i B)) \<and> e_stops s' = [] \<and>
    e_poPol s' = e_poPol s"
proof -
  obtain b s' f0 where run: "cancelOrder i s = Some (b, s')" and b: "b = hasOrder s i" and pol: "e_poPol s' = e_poPol s"
    and alt: "if b then \<exists>x. OrderIndex_get (e_idx s) i = Some x \<and> all_but x s s' \<and> (x \<notin> set (e_stops s) \<longrightarrow> lifted x f s s') else s' = s"
    using cancel_full_wp[OF I, of i] by (auto elim!: wpE)
  have b': "b \<longleftrightarrow> i \<in> book_ids B" using b rep_ids[OF I B e] by simp
  show ?thesis
  proof (cases b)
    case True
    then obtain x where x: "OrderIndex_get (e_idx s) i = Some x" "all_but x s s'" "lifted x f s s'" using alt e by auto
    have "e_stops s' = []" using x(3) e by (auto simp: lifted_def env_def)
    moreover have "cpp_rep s' (\<lambda>sd. drop_id i (B sd))" using lifted_views[OF I x] unfolding cpp_rep_def B .
    ultimately show ?thesis using run b' True pol by (simp add: cancel_spec_def)
  next
    case False
    then show ?thesis using run b' alt I B e by (auto simp: cancel_spec_def cpp_rep_def)
  qed
qed

text \<open>A new engine has empty books.\<close>

lemma new_rep: "cpp_rep (Engine_new REJECT tk) (\<lambda>_. [])"
proof -
  have "cpp_inv (Engine_new REJECT tk) (\<lambda>_. []) {} {} {}" by (rule new_inv)
  moreover have "cpp_view (Engine_new REJECT tk) (\<lambda>_. []) sd = []" for sd by (cases sd) (simp_all add: cpp_view_def Engine_new_def)
  ultimately show ?thesis by (auto simp: cpp_rep_def)
qed

end
