(* ===== verification/Cpp_Agree.thy ===== *)
theory Cpp_Agree
  imports Cpp_Refines Engines_Agree
begin

text \<open>
  The C++ reference engine against the specification that the two C engines are proved to
  compute: on the orders that all of them know, they make the same trades and leave the same books.
\<close>

section \<open>Requests and books on both sides\<close>

definition cpp_side :: "u64 \<Rightarrow> Side" where
  "cpp_side c = (if c = 0 then BUY else SELL)"

definition cpp_policy :: "u64 \<Rightarrow> STPPolicy" where
  "cpp_policy c = (if c = 0 then NONE else if c = 1 then CANCEL_NEWEST else if c = 2 then CANCEL_OLDEST
     else if c = 3 then CANCEL_BOTH else DECREMENT)"

text \<open>The four order types of the C engines: limit, market, immediate-or-cancel and post-only.\<close>

definition cpp_input :: "params \<Rightarrow> OrderInput" where
  "cpp_input q = \<lparr>in_id = q_id q, in_side = cpp_side (q_side q), in_type = (if q_otype q = 1 then MARKET else LIMIT),
     in_tif = (if q_otype q = 1 \<or> q_otype q = 2 then IOC else GTC),
     in_price = (if q_otype q = 1 then 0 else uint (q_price q)), in_stop = 0, in_qty = uint (q_qty q), in_minQty = 0,
     in_display = 0, in_postOnly = (q_otype q = 3), in_expire = 0, in_stg = q_account q, in_stp = cpp_policy (q_stp q)\<rparr>"

text \<open>
  The requests both can express: known codes, an account exactly with a policy, and numbers that fit into the
  signed integers of the C++ engine.
\<close>

definition both_know :: "params \<Rightarrow> bool" where
  "both_know q \<longleftrightarrow> q_otype q \<le> 3 \<and> q_side q \<le> 1 \<and> q_stp q \<le> 4 \<and> (q_account q = 0 \<longleftrightarrow> q_stp q = 0) \<and>
     uint (q_price q) < 2 ^ 63 \<and> uint (q_qty q) \<le> cpp_max_qty \<and> unat (q_id q) < 2 ^ 31"

definition same_order :: "u64 \<Rightarrow> CppOrder \<Rightarrow> order_row \<Rightarrow> bool" where
  "same_order p r x \<longleftrightarrow> co_id r = r_id x \<and> co_price r = uint p \<and> co_rem r = uint (r_rem x) \<and>
     co_visible r = uint (r_rem x) \<and> co_display r = 0 \<and> co_stg r = r_account x"

definition same_levels :: "side_lists \<Rightarrow> levels \<Rightarrow> bool" where
  "same_levels L ls \<longleftrightarrow> list_all2 (\<lambda>(p, q) (w, xs). p = uint w \<and> list_all2 (same_order w) q xs) L ls"

fun cpp_book :: "book \<Rightarrow> Side" where
  "cpp_book Bids = BUY"
| "cpp_book Asks = SELL"

definition same_books :: "cpp_books \<Rightarrow> books \<Rightarrow> bool" where
  "same_books L B \<longleftrightarrow> (\<forall>b. same_levels (L (cpp_book b)) (B b))"

definition deal_of_trade :: "trade \<Rightarrow> deal" where
  "deal_of_trade t = (t_maker t, uint (t_price t), uint (t_qty t))"

text \<open>The incoming order \<open>i\<close> of the request \<open>q\<close> with \<open>rem\<close> to fill.\<close>

definition takes :: "params \<Rightarrow> CppOrder \<Rightarrow> u64 \<Rightarrow> bool" where
  "takes q i rem \<longleftrightarrow> co_id i = q_id q \<and> co_side i = cpp_side (q_side q) \<and>
     co_type i = (if q_otype q = 1 then MARKET else LIMIT) \<and> co_tif i = (if q_otype q = 1 \<or> q_otype q = 2 then IOC else GTC) \<and>
     co_price i = (if q_otype q = 1 then 0 else uint (q_price q)) \<and> co_rem i = uint rem \<and> co_minQty i = 0 \<and> co_display i = 0 \<and>
     co_stg i = q_account q \<and> co_stp i = cpp_policy (q_stp q) \<and> co_status i = NEW"

definition over :: "CppOrder \<Rightarrow> bool" where
  "over i \<longleftrightarrow> co_status i = CANCELLED \<or> co_rem i = 0"

section \<open>One level\<close>

lemma uint_min: "uint (min a b) = min (uint a) (uint b)"
  by (simp add: min_def word_le_def)

lemma uint_minus: "b \<le> a \<Longrightarrow> uint (a - b) = uint a - uint b"
  by (rule uint_minus_simple_alt[THEN iffD1])

lemma uint_pos: "uint (a :: u64) > 0 \<longleftrightarrow> a \<noteq> 0"
  by (metis uint_0_iff uint_ge_0 order_less_le)

lemma conflict_iff:
  assumes "both_know q" and "takes q i rem" and "same_order p c x"
  shows "stpConflict i c \<longleftrightarrow> self_trade q x"
  using assms by (auto simp: stpConflict_def self_trade_def both_know_def takes_def same_order_def)

lemma fill_same:
  assumes "same_order p c x" and "list_all2 (same_order p) Q xs" and "f \<le> r_rem x"
  shows "list_all2 (same_order p) (after_fill (uint f) (c # Q)) (if r_rem x - f = 0 then xs else x\<lparr>r_rem := r_rem x - f\<rparr> # xs)"
    and "list_all2 (same_order p) (after_decrement (uint f) (c # Q)) (if r_rem x - f = 0 then xs else x\<lparr>r_rem := r_rem x - f\<rparr> # xs)"
proof -
  have "uint (r_rem x) - uint f = 0 \<longleftrightarrow> r_rem x - f = 0" using uint_minus[OF assms(3)] by (metis uint_0_iff)
  then show "list_all2 (same_order p) (after_fill (uint f) (c # Q)) (if r_rem x - f = 0 then xs else x\<lparr>r_rem := r_rem x - f\<rparr> # xs)"
    "list_all2 (same_order p) (after_decrement (uint f) (c # Q)) (if r_rem x - f = 0 then xs else x\<lparr>r_rem := r_rem x - f\<rparr> # xs)"
    using assms uint_minus[OF assms(3)] by (simp_all add: same_order_def)
qed

lemma match_queue_step:
  assumes "rem \<noteq> 0" and "\<not> (self_trade q x \<and> q_stp q \<in> {1, 2, 3})"
  shows "match_queue q p (x # xs) rem = (let f = min rem (r_rem x); ts = fill_trade q p x f in
     if r_rem x - f = 0 then let (ys, r, us) = match_queue q p xs (rem - f) in (ys, r, ts @ us)
     else (x\<lparr>r_rem := r_rem x - f\<rparr> # xs, rem - f, ts))"
  using assms by (auto simp: fill_trade_def Let_def split: prod.splits)

lemma over_step: "over i \<Longrightarrow> co_rem i \<noteq> 0 \<Longrightarrow> co_status i = CANCELLED"
  by (simp add: over_def)

lemma takes_rem: "takes q i rem \<Longrightarrow> rem' = rem - f \<Longrightarrow> f \<le> rem \<Longrightarrow> takes q (i\<lparr>co_rem := co_rem i - uint f\<rparr>) rem'"
  by (simp add: takes_def uint_minus)

lemma takes_over: "takes q j r \<Longrightarrow> over j \<Longrightarrow> r = 0"
proof -
  assume "takes q j r" and "over j"
  then have "uint r = 0" by (auto simp: takes_def over_def)
  then show "r = 0" by (simp only: uint_0_iff)
qed

lemma takes_shown: "takes q i r \<Longrightarrow> \<not> b \<Longrightarrow> takes q (i\<lparr>co_visible := v, co_status := (if b then CANCELLED else co_status i)\<rparr>) r"
  by (simp add: takes_def)

text \<open>Where both are after a level: the order goes on with \<open>r\<close>, or the C++ code has returned and nothing is left.\<close>

definition level_agrees :: "params \<Rightarrow> u64 \<Rightarrow> order_row list \<times> u64 \<times> trade list \<Rightarrow> deal list \<Rightarrow> (bool \<times> level_state) option \<Rightarrow> bool" where
  "level_agrees q p = (\<lambda>(ys, r, us) ts res. \<exists>ret j Q. res = Some (ret, j, Q, ts @ map deal_of_trade us) \<and>
     list_all2 (same_order p) Q ys \<and> (if ret then over j \<and> r = 0 else takes q j r) \<and> (Q \<noteq> [] \<longrightarrow> r = 0))"

lemma level_loop_agrees:
  assumes q: "both_know q"
  shows "list_all2 (same_order p) Q xs \<Longrightarrow> takes q i rem \<Longrightarrow>
    level_agrees q p (match_queue q p xs rem) ts (loop level_step_spec (i, Q, ts))"
proof (induction xs arbitrary: Q i rem ts)
  case Nil
  then show ?case by (auto simp: level_loop(1) level_agrees_def)
next
  case (Cons x xs)
  obtain c Q' where Q: "Q = c # Q'" and c: "same_order p c x" and rest: "list_all2 (same_order p) Q' xs"
    using Cons.prems(1) by (auto simp: list_all2_Cons2)
  have rem: "co_rem i = uint rem" and st: "co_status i = NEW" using Cons.prems(2) by (simp_all add: takes_def)
  show ?case
  proof (cases "rem = 0")
    case True
    then show ?thesis using Cons.prems rem by (auto simp: level_loop(2) level_agrees_def)
  next
    case False
    have pos: "co_rem i > 0" using False rem uint_pos by simp
    note conf = conflict_iff[OF q Cons.prems(2) c]
    have stp: "co_stp i = cpp_policy (q_stp q)" using Cons.prems(2) by (simp add: takes_def)
    show ?thesis
    proof (cases "self_trade q x \<and> q_stp q \<in> {1, 2, 3}")
      case True
      then have sc: "stpConflict i c" using conf by simp
      from True consider (newest) "q_stp q = 1" | (oldest) "q_stp q = 2" | (both) "q_stp q = 3" by auto
      then show ?thesis
      proof cases
        case newest
        then have "meet_own i (c # Q') = (i\<lparr>co_status := CANCELLED\<rparr>, c # Q')" using stp by (simp add: cpp_policy_def)
        from level_loop(3)[OF pos sc this] show ?thesis
          using newest True False Cons.prems(1) by (auto simp: Q level_agrees_def over_def)
      next
        case oldest
        then have "meet_own i (c # Q') = (i, Q')" using stp by (simp add: cpp_policy_def)
        from level_loop(3)[OF pos sc this] show ?thesis
          using oldest True False Cons.IH[OF rest Cons.prems(2)] st pos by (simp add: Q)
      next
        case both
        then have "meet_own i (c # Q') = (i\<lparr>co_status := CANCELLED\<rparr>, Q')" using stp by (simp add: cpp_policy_def)
        from level_loop(3)[OF pos sc this] show ?thesis
          using both True False rest by (auto simp: Q level_agrees_def over_def)
      qed
    next
      case nst: False
      let ?f = "min rem (r_rem x)"
      let ?ts = "fill_trade q p x ?f"
      have k: "min (co_rem i) (co_visible c) = uint ?f" using rem c by (simp add: same_order_def uint_min)
      have fx: "?f \<le> r_rem x" "?f \<le> rem" by simp_all
      note fs = fill_same[OF c rest fx(1)]
      define D where "D = (if self_trade q x then after_decrement (uint ?f) (c # Q') else after_fill (uint ?f) (c # Q'))"
      have D: "list_all2 (same_order p) D (if r_rem x - ?f = 0 then xs else x\<lparr>r_rem := r_rem x - ?f\<rparr> # xs)"
        unfolding D_def by (cases "self_trade q x") (simp_all only: if_True if_False fs)
      have part: "rem - ?f = 0" if "r_rem x - ?f \<noteq> 0" using that by (auto simp: min_def split: if_splits)
      text \<open>One step of the C++ loop, whichever way the quantity goes.\<close>
      obtain j where j: "takes q j (rem - ?f) \<or> over j \<and> rem - ?f = 0"
        and step: "loop level_step_spec (i, c # Q', ts) = (if over j \<and> self_trade q x then Some (True, j, D, ts @ map deal_of_trade ?ts)
          else loop level_step_spec (j, D, ts @ map deal_of_trade ?ts))" and nov: "\<not> (over j \<and> self_trade q x) \<Longrightarrow> takes q j (rem - ?f)"
      proof (cases "self_trade q x")
        case own: True
        then have sc: "stpConflict i c" using conf by simp
        have "co_stp i = DECREMENT"
        proof -
          have "q_stp q \<noteq> 0" using own by (simp add: self_trade_def)
          then show ?thesis using nst own stp by (simp add: cpp_policy_def)
        qed
        let ?d = "i\<lparr>co_rem := co_rem i - uint ?f\<rparr>"
        let ?j = "?d\<lparr>co_visible := fresh_visible ?d, co_status := (if co_rem ?d = 0 then CANCELLED else co_status ?d)\<rparr>"
        have m: "meet_own i (c # Q') = (?j, D)" using \<open>co_stp i = DECREMENT\<close> own k
          by (simp add: D_def Let_def del: after_decrement.simps)
        have t0: "takes q ?d (rem - ?f)" by (rule takes_rem[OF Cons.prems(2) refl fx(2)])
        have "co_rem ?d = uint (rem - ?f)" using t0 by (simp add: takes_def)
        then have z: "co_rem ?d = 0 \<longleftrightarrow> rem - ?f = 0" by (metis uint_0_iff)
        have ov: "over ?j \<longleftrightarrow> co_status ?j = CANCELLED \<or> co_rem ?j = 0" by (simp only: over_def)
        have ov': "over ?j \<longleftrightarrow> rem - ?f = 0" using z st by (auto simp: over_def)
        have nt: "takes q ?j (rem - ?f)" if "\<not> over ?j"
          by (rule takes_shown[OF t0]) (use that ov' z in blast)
        show thesis
        proof (rule that[of ?j])
          show "takes q ?j (rem - ?f) \<or> over ?j \<and> rem - ?f = 0" using nt ov' by blast
          show "loop level_step_spec (i, c # Q', ts) = (if over ?j \<and> self_trade q x then Some (True, ?j, D, ts @ map deal_of_trade ?ts)
              else loop level_step_spec (?j, D, ts @ map deal_of_trade ?ts))"
            unfolding level_loop(3)[OF pos sc m] ov[symmetric] using own by (simp add: fill_trade_def)
          show "takes q ?j (rem - ?f)" if "\<not> (over ?j \<and> self_trade q x)" using nt own that by blast
        qed
      next
        case other: False
        then have sc: "\<not> stpConflict i c" using conf by simp
        let ?j = "i\<lparr>co_rem := co_rem i - uint ?f\<rparr>"
        have t: "takes q ?j (rem - ?f)" by (rule takes_rem[OF Cons.prems(2) refl fx(2)])
        have ts: "map deal_of_trade ?ts = [(co_id c, co_price c, uint ?f)]"
          using other c by (simp add: fill_trade_def deal_of_trade_def same_order_def)
        show thesis
        proof (rule that[of ?j])
          show "takes q ?j (rem - ?f) \<or> over ?j \<and> rem - ?f = 0" using t by blast
          show "loop level_step_spec (i, c # Q', ts) = (if over ?j \<and> self_trade q x then Some (True, ?j, D, ts @ map deal_of_trade ?ts)
              else loop level_step_spec (?j, D, ts @ map deal_of_trade ?ts))"
            unfolding ts level_loop(4)[OF pos sc k[symmetric]] using other by (simp add: D_def del: after_fill.simps)
          show "takes q ?j (rem - ?f)" by (rule t)
        qed
      qed
      note spec = match_queue_step[OF False nst, of p xs, unfolded Let_def]
      show ?thesis
      proof (cases "r_rem x - ?f = 0")
        case gone: True
        then have D': "list_all2 (same_order p) D xs" using D by simp
        obtain ys r us where m: "match_queue q p xs (rem - ?f) = (ys, r, us)" by (metis prod_cases3)
        have mq: "match_queue q p (x # xs) rem = (ys, r, ?ts @ us)" using spec gone m by simp
        show ?thesis
        proof (cases "over j \<and> self_trade q x")
          case True
          then have z: "rem - ?f = 0"
            using j True takes_over by blast
          then have "ys = xs" "r = 0" "us = []" using m by simp_all
          then show ?thesis using True D' step mq by (auto simp: Q level_agrees_def)
        next
          case False
          have "level_agrees q p (ys, r, us) (ts @ map deal_of_trade ?ts) (loop level_step_spec (j, D, ts @ map deal_of_trade ?ts))"
            using Cons.IH[OF D' nov[OF False]] m by metis
          then show ?thesis unfolding Q mq step if_not_P[OF False] by (auto simp: level_agrees_def)
        qed
      next
        case stays: False
        note z = part[OF stays]
        have mq: "match_queue q p (x # xs) rem = (x\<lparr>r_rem := r_rem x - ?f\<rparr> # xs, 0, ?ts)" using spec stays z by simp
        have D': "list_all2 (same_order p) D (x\<lparr>r_rem := r_rem x - ?f\<rparr> # xs)" using D stays by simp
        show ?thesis
        proof (cases "over j \<and> self_trade q x")
          case True
          then show ?thesis using D' step mq by (auto simp: Q level_agrees_def)
        next
          case False
          have t: "takes q j 0" using nov[OF False] z by simp
          then have "\<not> co_rem j > 0" by (simp add: takes_def)
          from level_loop(2)[OF this] show ?thesis
            unfolding Q mq step if_not_P[OF False] using D' t by (auto simp: level_agrees_def)
        qed
      qed
    qed
  qed
qed

section \<open>One side\<close>

text \<open>The book a request meets.\<close>

definition meets :: "params \<Rightarrow> book" where
  "meets q = (if q_side q = 0 then Asks else Bids)"

lemma canMatch_price_ok:
  assumes "takes q i rem" and "q_otype q = 1 \<or> q_price q \<noteq> 0"
  shows "canMatch i (uint w) \<longleftrightarrow> q_otype q = 1 \<or> price_ok (meets q) w (q_price q)"
proof -
  have "uint (q_price q) \<noteq> 0" if "q_price q \<noteq> 0" using that by (simp only: uint_0_iff not_False_eq_True)
  then show ?thesis using assms by (auto simp: takes_def canMatch_def cpp_side_def meets_def word_le_def)
qed

lemma same_levels_simps [simp]:
  "same_levels [] ls \<longleftrightarrow> ls = []" "same_levels L [] \<longleftrightarrow> L = []"
  "same_levels ((p, Q) # L) ((w, xs) # ls) \<longleftrightarrow> p = uint w \<and> list_all2 (same_order w) Q xs \<and> same_levels L ls"
  by (simp_all add: same_levels_def)

lemma same_levels_ConsE:
  assumes "same_levels L ((w, xs) # ls)"
  obtains Q L' where "L = (uint w, Q) # L'" and "list_all2 (same_order w) Q xs" and "same_levels L' ls"
  using assms by (cases L) (auto simp: same_levels_def)

definition side_agrees :: "params \<Rightarrow> levels \<times> u64 \<times> trade list \<Rightarrow> deal list \<Rightarrow> match_state option \<Rightarrow> bool" where
  "side_agrees q = (\<lambda>(ms, r, us) ts res. \<exists>j L. res = Some (j, L, ts @ map deal_of_trade us) \<and> same_levels L ms \<and>
     (takes q j r \<or> over j \<and> r = 0))"

lemma side_loop_agrees:
  assumes q: "both_know q" and pr: "q_otype q = 1 \<or> q_price q \<noteq> 0"
  shows "same_levels L ls \<Longrightarrow> takes q i rem \<Longrightarrow> side_agrees q (match_levels q (meets q) ls rem) ts (loop side_step_spec (i, L, ts))"
proof (induction ls arbitrary: L i rem ts)
  case Nil
  then show ?case by (simp add: side_loop(1) side_agrees_def)
next
  case (Cons l ls)
  obtain w xs where l: "l = (w, xs)" by (cases l)
  obtain Q L' where L: "L = (uint w, Q) # L'" "list_all2 (same_order w) Q xs" "same_levels L' ls"
    using Cons.prems(1) unfolding l by (rule same_levels_ConsE)
  have rem: "co_rem i = uint rem" using Cons.prems(2) by (simp add: takes_def)
  note cm = canMatch_price_ok[OF Cons.prems(2) pr, of w]
  show ?case
  proof (cases "rem = 0 \<or> q_otype q \<noteq> 1 \<and> \<not> price_ok (meets q) w (q_price q)")
    case True
    then have "L = [] \<or> \<not> co_rem i > 0 \<or> \<not> canMatch i (fst (hd L))" using rem cm by (auto simp: L(1))
    from side_loop(1)[OF this] show ?thesis using True Cons.prems by (auto simp: l side_agrees_def)
  next
    case False
    then have pos: "co_rem i > 0" and can: "canMatch i (uint w)" using rem cm uint_pos by simp_all
    obtain ys r us where m: "match_queue q w xs rem = (ys, r, us)" by (metis prod_cases3)
    from level_loop_agrees[OF q L(2) Cons.prems(2), of "[]"] m obtain ret j Q' where
      lv: "level_spec i Q = Some (ret, j, Q', map deal_of_trade us)" and Q': "list_all2 (same_order w) Q' ys"
      and after: "if ret then over j \<and> r = 0 else takes q j r" and full: "Q' \<noteq> [] \<longrightarrow> r = 0"
      by (auto simp: level_agrees_def level_spec_def)
    have e: "Q' = [] \<longleftrightarrow> ys = []" using Q' by auto
    have pl: "same_levels (put_level (uint w) Q' L') (if ys = [] then ls else (w, ys) # ls)"
      using Q' L(3) e by (simp add: put_level_def)
    note step = side_loop(2)[OF pos can lv, of L' ts]
    have ml: "match_levels q (meets q) (l # ls) rem = (if ys = [] then (let (ms, r', vs) = match_levels q (meets q) ls r in (ms, r', us @ vs))
        else ((w, ys) # ls, r, us))" using False m by (auto simp: l)
    show ?thesis
    proof (cases "ys = [] \<and> \<not> ret")
      case True
      then have "put_level (uint w) Q' L' = L'" "takes q j r" using e after by (simp_all add: put_level_def)
      then have "side_agrees q (match_levels q (meets q) ls r) (ts @ map deal_of_trade us) (loop side_step_spec (i, L, ts))"
        using Cons.IH[OF L(3)] True step by (simp add: L(1))
      then show ?thesis using ml True by (auto simp: side_agrees_def split: prod.splits)
    next
      case stop: False
      have r: "r = 0" using stop full e after by (auto split: if_splits)
      have "loop side_step_spec (i, L, ts) = Some (j, put_level (uint w) Q' L', ts @ map deal_of_trade us)"
      proof (cases ret)
        case True
        then show ?thesis using step by (simp add: L(1))
      next
        case False
        then have "\<not> co_rem j > 0" using after r by (simp add: takes_def)
        then show ?thesis using step False side_loop(1) by (simp add: L(1))
      qed
      moreover have "match_levels q (meets q) (l # ls) rem = (if ys = [] then ls else (w, ys) # ls, 0, us)" using ml r by simp
      moreover have "takes q j 0 \<or> over j" using after r by (cases ret) simp_all
      ultimately show ?thesis using pl by (auto simp: side_agrees_def)
    qed
  qed
qed

section \<open>An order that rests\<close>

lemma px_better: "px_before (cpp_book b) (uint p) (uint w) \<longleftrightarrow> better b p w"
  by (cases b) (simp_all add: word_less_def)

lemma add_agrees:
  assumes "same_levels L ls" and "same_order p r x"
  shows "same_levels (add_level (cpp_book b) (uint p) r L) (add_order b p x ls)"
  using assms(1)
proof (induction ls arbitrary: L)
  case Nil
  then show ?case using assms(2) by simp
next
  case (Cons l ls)
  obtain w xs where l: "l = (w, xs)" by (cases l)
  obtain Q L' where "L = (uint w, Q) # L'" "list_all2 (same_order w) Q xs" "same_levels L' ls"
    using Cons.prems unfolding l by (rule same_levels_ConsE)
  then show ?case using Cons.IH[of L'] assms(2) px_better[of b p w] by (auto simp: l list_all2_appendI word_uint_eq_iff[symmetric])
qed

lemma side_of_meets:
  "cpp_side (q_side q) = cpp_book (opposite (meets q))" "oppositeSide (cpp_side (q_side q)) = cpp_book (meets q)"
  "oppositeSide (cpp_book (opposite b)) = cpp_book b"
  by (simp_all add: cpp_side_def meets_def) (cases b; simp)

definition rests :: "params \<Rightarrow> u64 \<Rightarrow> bool" where
  "rests q r \<longleftrightarrow> 0 < r \<and> q_otype q \<noteq> 2 \<and> q_otype q \<noteq> 1"

lemma rest_agrees:
  assumes "takes q i r \<or> over i \<and> r = 0" and L: "same_levels L ls"
  shows "same_levels (rest_spec i ht L) (if rests q r then add_order (opposite (meets q)) (q_price q) (new_row q r) ls else ls)"
proof (cases "rests q r")
  case True
  then have t: "takes q i r" and rem: "co_rem i \<noteq> 0" using assms(1) uint_pos[of r] by (auto simp: rests_def takes_def word_gt_0)
  let ?i = "i\<lparr>co_visible := fresh_visible i, co_status := (if ht then PARTIALLY_FILLED else NEW)\<rparr>"
  have "rest_spec i ht L = add_level (cpp_book (opposite (meets q))) (uint (q_price q)) ?i L"
    using t rem True by (simp add: rest_spec_def takes_def rests_def Let_def side_of_meets)
  moreover have "same_order (q_price q) ?i (new_row q r)"
    using t True by (simp add: same_order_def takes_def new_row_def rests_def fresh_visible_def)
  ultimately show ?thesis using add_agrees[OF L] True by simp
next
  case False
  have "rest_spec i ht L = L"
  proof (cases "over i")
    case True
    then show ?thesis by (auto simp: rest_spec_def over_def Let_def)
  next
    case no: False
    then have "takes q i r" using assms(1) by blast
    then show ?thesis using False no by (auto simp: rest_spec_def takes_def rests_def over_def Let_def word_gt_0 uint_0_iff)
  qed
  then show ?thesis using L False by simp
qed

section \<open>A request\<close>

lemma row_ids:
  assumes "same_levels L ls"
  shows "co_id ` set (concat (map snd L)) = r_id ` set (level_rows ls)"
  using assms
proof (induction ls arbitrary: L)
  case (Cons l ls)
  obtain w xs where l: "l = (w, xs)" by (cases l)
  obtain Q L' where L: "L = (uint w, Q) # L'" "list_all2 (same_order w) Q xs" "same_levels L' ls"
    using Cons.prems unfolding l by (rule same_levels_ConsE)
  have "map co_id Q = map r_id xs" using L(2) by (induction rule: list_all2_induct) (simp_all add: same_order_def)
  then have "co_id ` set Q = r_id ` set xs" by (metis list.set_map)
  then show ?case using Cons.IH[OF L(3)] by (simp add: L(1) l level_rows_def image_Un)
qed (simp add: level_rows_def)

lemma same_ids_books: "same_books L B \<Longrightarrow> book_ids L = r_id ` set (book_rows B)"
  using row_ids[of "L BUY" "B Bids"] row_ids[of "L SELL" "B Asks"] by (auto simp: book_ids_def book_rows_def same_books_def all_books[where b = Bids] image_Un)

lemma same_books_upd:
  assumes "same_books L B" and "same_levels K ks"
  shows "same_books (L(cpp_book b := K)) (B(b := ks))"
  using assms by (auto simp: same_books_def) (metis (full_types) book.exhaust cpp_book.simps Side.distinct(1))+

lemma same_books_at: "same_books L B \<Longrightarrow> same_levels (L (cpp_book b)) (B b)"
  by (simp add: same_books_def)

abbreviation built :: "u64 \<Rightarrow> params \<Rightarrow> CppOrder" where
  "built t q \<equiv> built_order (cpp_input q) t"

lemma built_sel:
  "co_side (built t q) = cpp_side (q_side q)" "co_postOnly (built t q) \<longleftrightarrow> q_otype q = 3" "co_type (built t q) = (if q_otype q = 1 then MARKET else LIMIT)"
  "co_tif (built t q) \<noteq> FOK" "co_minQty (built t q) = 0" "co_type (built t q) \<noteq> MARKET_TO_LIMIT"
  by (simp_all add: built_order_def cpp_input_def)

lemma built_takes: "takes q (shape (built t q)) (q_qty q)"
  by (simp add: takes_def built_order_def cpp_input_def)

lemma built_valid:
  assumes "both_know q"
  shows "validate t (built t q) = None \<longleftrightarrow> q_qty q \<noteq> 0 \<and> (q_otype q = 1 \<or> q_price q \<noteq> 0)"
proof -
  have "uint (q_qty q) > 0 \<longleftrightarrow> q_qty q \<noteq> 0" "uint (q_price q) > 0 \<longleftrightarrow> q_price q \<noteq> 0" by (rule uint_pos)+
  moreover have "cpp_policy (q_stp q) = NONE \<longleftrightarrow> q_account q = 0" using assms by (auto simp: cpp_policy_def both_know_def)
  ultimately show ?thesis
    by (auto simp: validate_def built_order_def cpp_input_def default_order_def not_less[symmetric] split: if_splits)
qed

lemma take_agrees:
  assumes q: "both_know q" and pr: "q_otype q = 1 \<or> q_price q \<noteq> 0" and LB: "same_books L B"
    and sp: "spec_side (meets q) q B = (code, B', us)"
  shows "\<exists>L'. take_spec (shape (built t q)) L = Some (L', map deal_of_trade us) \<and> same_books L' B'"
proof -
  let ?r = "shape (built t q)"
  let ?b = "meets q"
  note bs = built_sel[where t = t and q = q]
  have c: "oppositeSide (co_side ?r) = cpp_book ?b" "co_side ?r = cpp_book (opposite ?b)" using bs side_of_meets by simp_all
  have ne: "cpp_book (opposite ?b) \<noteq> cpp_book ?b" by (cases ?b) simp_all
  have own: "same_levels (L (cpp_book (opposite ?b))) (B (opposite ?b))" and opp: "same_levels (L (cpp_book ?b)) (B ?b)"
    using LB by (rule same_books_at)+
  obtain ms r vs where m: "match_levels q ?b (B ?b) (q_qty q) = (ms, r, vs)" by (metis prod_cases3)
  show ?thesis
  proof (cases "q_otype q = 3")
    case po: True
    have head: "L (cpp_book ?b) \<noteq> [] \<and> canMatch ?r (fst (hd (L (cpp_book ?b)))) \<longleftrightarrow> B ?b \<noteq> [] \<and> price_ok ?b (fst (hd (B ?b))) (q_price q)"
    proof (cases "B ?b")
      case Nil
      then show ?thesis using opp by simp
    next
      case (Cons l ls)
      obtain w xs where l: "l = (w, xs)" by (cases l)
      obtain Q L' where "L (cpp_book ?b) = (uint w, Q) # L'" using opp unfolding Cons l by (rule same_levels_ConsE)
      then show ?thesis using canMatch_price_ok[OF built_takes pr, of t w] po by (simp add: Cons l)
    qed
    show ?thesis
    proof (cases "B ?b \<noteq> [] \<and> price_ok ?b (fst (hd (B ?b))) (q_price q)")
      case True
      then have "take_spec ?r L = Some (L, [])" "B' = B" "us = []" using head po bs c sp by (auto simp: take_spec_def spec_side_def)
      then show ?thesis using LB by simp
    next
      case False
      then have "match_levels q ?b (B ?b) (q_qty q) = (B ?b, q_qty q, [])" using po by (cases "B ?b") auto
      then have B': "B' = B(opposite ?b := (if rests q (q_qty q) then add_order (opposite ?b) (q_price q) (new_row q (q_qty q)) (B (opposite ?b))
          else B (opposite ?b)))" "us = []"
        using sp False po by (auto simp: spec_side_def rests_def Let_def split: if_splits)
      have "take_spec ?r L = Some (L(cpp_book (opposite ?b) := rest_spec ?r False (L (cpp_book (opposite ?b)))), [])"
        using head False po bs c by (auto simp: take_spec_def)
      moreover note same_books_upd[OF LB rest_agrees[OF disjI1[OF built_takes[where t = t and q = q]] own, of False]]
      ultimately show ?thesis using B' by auto
    qed
  next
    case no: False
    have "take_spec ?r L = plain_spec ?r L" using no bs by (simp add: take_spec_def ready_spec_def)
    moreover from side_loop_agrees[OF q pr opp built_takes[where t = t and q = q], of "[]"] m obtain j K where
      run: "match_spec ?r (L (cpp_book ?b)) = Some (j, K, map deal_of_trade vs)" and K: "same_levels K ms" and j: "takes q j r \<or> over j \<and> r = 0"
      by (auto simp: side_agrees_def match_spec_def)
    ultimately have ts: "take_spec ?r L = Some (L(cpp_book ?b := K, cpp_book (opposite ?b) := rest_spec j (vs \<noteq> []) (L (cpp_book (opposite ?b)))),
        map deal_of_trade vs)" using c by (simp add: plain_spec_def)
    have B': "B' = B(?b := ms, opposite ?b := (if rests q r then add_order (opposite ?b) (q_price q) (new_row q r) (B (opposite ?b)) else B (opposite ?b)))"
      "us = vs"
      using sp m no by (simp_all add: spec_side_def rests_def Let_def split: if_splits) (auto simp: fun_upd_idem_iff)
    show ?thesis unfolding ts B'
      using same_books_upd[OF same_books_upd[OF LB K] rest_agrees[OF j own, of "vs \<noteq> []"]] by blast
  qed
qed

text \<open>The specification accepts a request, with the codes 0 and 6, exactly when the C++ code does.\<close>

lemma submit_agrees:
  assumes q: "both_know q" and LB: "same_books L B" and room: "length (book_rows B) < unat cap" and qty: "q_qty q \<le> max_qty cap"
    and sp: "spec_process cap q B = (code, B', us)"
  shows "\<exists>L'. submit_spec now (cpp_input q) L = Some (code = 0 \<or> code = 6, L', map deal_of_trade us) \<and> same_books L' B'"
proof -
  have id: "in_id (cpp_input q) = q_id q" by (simp add: cpp_input_def)
  note ids = same_ids_books[OF LB] and val = built_valid[OF q, where t = "now + 1"]
  have k: "q_otype q \<le> 3" "q_side q \<le> 1" "q_stp q \<le> 4" using q by (simp_all add: both_know_def)
  show ?thesis
  proof (cases "q_id q \<in> r_id ` set (book_rows B) \<or> q_qty q = 0 \<or> q_otype q \<noteq> 1 \<and> q_price q = 0")
    case True
    then have "code = 3 \<or> code = 4" "B' = B" "us = []" using sp k qty by (auto simp: spec_process_def not_less split: if_splits)
    moreover have "submit_spec now (cpp_input q) L = Some (False, L, [])" using True ids val by (auto simp: submit_spec_def id)
    ultimately show ?thesis using LB by auto
  next
    case False
    then have sp': "spec_side (meets q) q B = (code, B', us)"
      using sp k qty room by (auto simp: spec_process_def meets_def not_less split: if_splits)
    then have "code = 0 \<or> code = 6" by (auto simp: spec_side_def Let_def split: if_splits prod.splits)
    moreover have "submit_spec now (cpp_input q) L = map_option (Pair True) (take_spec (shape (built (now + 1) q)) L)"
      using False ids val by (auto simp: submit_spec_def id)
    ultimately show ?thesis using take_agrees[OF q _ LB sp', of "now + 1"] False by auto
  qed
qed

end
