(* ===== verification/Engine_Sessions.thy ===== *)
theory Engine_Sessions
  imports Cpp_Agree
begin

text \<open>
  Whole sessions on all three engines: the generated matcher behind the public functions, the
  handwritten engine and the C++ reference engine.  What a session is and that an engine which
  follows the specification call by call follows it through the session is stated once, in the
  locale \<open>order_engine\<close>; each engine is an interpretation of it.
\<close>

section \<open>Sessions\<close>

datatype SessionCall = Place OrderRequest | Withdraw u64

text \<open>What the caller sees: the trades of an order, whether a withdrawal found the order.\<close>

datatype SessionReply = Traded "deal list" | Withdrawn bool

fun run_calls ::
  "(OrderRequest \<Rightarrow> 's \<Rightarrow> (deal list \<times> 's) option) \<Rightarrow> (u64 \<Rightarrow> 's \<Rightarrow> (bool \<times> 's) option) \<Rightarrow>
   SessionCall list \<Rightarrow> 's \<Rightarrow> (SessionReply list \<times> 's) option" where
  "run_calls place withdraw [] s = Some ([], s)"
| "run_calls place withdraw (Place r # cs) s = do {
     (ts, s) \<leftarrow> place r s;
     (os, s) \<leftarrow> run_calls place withdraw cs s;
     Some (Traded ts # os, s)
   }"
| "run_calls place withdraw (Withdraw i # cs) s = do {
     (b, s) \<leftarrow> withdraw i s;
     (os, s) \<leftarrow> run_calls place withdraw cs s;
     Some (Withdrawn b # os, s)
   }"

fun spec_calls :: "SessionCall list \<Rightarrow> books \<Rightarrow> SessionReply list \<times> books" where
  "spec_calls [] B = ([], B)"
| "spec_calls (Place r # cs) B =
     (let (code, B, ts) = spec_process ME_GLUE_CAPACITY (params_of r) B; (os, B) = spec_calls cs B
      in (Traded (map deal_of_trade ts) # os, B))"
| "spec_calls (Withdraw i # cs) B =
     (let (code, B) = spec_cancel i B; (os, B) = spec_calls cs B in (Withdrawn (code = 1) # os, B))"

text \<open>
  The handwritten engine has no limit of its own on the number of resting orders but the row pool of
  its first chunk; the bound is the smaller of the limits.
\<close>

definition session_room :: nat where "session_room = 500000"

definition order_ok :: "OrderRequest \<Rightarrow> bool" where
  "order_ok r \<longleftrightarrow> both_know (params_of r) \<and> req_qty r \<le> max_qty ME_GLUE_CAPACITY"

fun call_ok :: "SessionCall \<Rightarrow> bool" where
  "call_ok (Place r) \<longleftrightarrow> order_ok r"
| "call_ok (Withdraw i) \<longleftrightarrow> True"

section \<open>The books grow by one order at most\<close>

lemma spec_process_rows:
  assumes ok: "books_ok cap B" and s: "spec_process cap q B = (code, B', ts)"
  shows "length (book_rows B') \<le> Suc (length (book_rows B))"
proof -
  let ?b = "meets q"
  obtain ms r us where m: "match_levels q ?b (B ?b) (q_qty q) = (ms, r, us)" by (metis prod_cases3)
  have len: "length (book_rows (B(?b := ms))) \<le> length (book_rows B)" by (rule match_books_ok(3)[OF ok m])
  have add: "length (book_rows (C(c := add_order c p x (C c)))) = Suc (length (book_rows C))" for C :: books and c p x
  proof -
    have "length (level_rows (add_order c p x (C c))) = Suc (length (level_rows (C c)))"
      using arg_cong[OF add_order_rows[of c p x "C c"], of size] by simp
    then show ?thesis by (simp add: length_book_rows[of _ c])
  qed
  consider "B' = B" | "spec_side ?b q B = (code, B', ts)" using s by (auto simp: spec_process_def meets_def split: if_splits)
  then show ?thesis
  proof cases
    case 2
    then consider "B' = B" | "B' = B(?b := ms)"
      | "B' = (B(?b := ms))(opposite ?b := add_order (opposite ?b) (q_price q) (new_row q r) ((B(?b := ms)) (opposite ?b)))"
      using m by (auto simp: spec_side_def Let_def split: if_splits)
    then show ?thesis using len add[of "B(?b := ms)" "opposite ?b"] by cases (simp_all del: fun_upd_apply)
  qed simp
qed

lemma spec_cancel_rows: "spec_cancel i B = (code, B') \<Longrightarrow> length (book_rows B') \<le> length (book_rows B)"
  by (auto simp: spec_cancel_def book_rows_def cancel_level_rows intro!: add_mono split: if_splits)

section \<open>An engine that follows the specification\<close>

locale order_engine =
  fixes holds :: "'s \<Rightarrow> books \<Rightarrow> bool"
    and place :: "OrderRequest \<Rightarrow> 's \<Rightarrow> (deal list \<times> 's) option"
    and withdraw :: "u64 \<Rightarrow> 's \<Rightarrow> (bool \<times> 's) option"
  assumes place_law: "\<lbrakk>holds s B; books_ok ME_GLUE_CAPACITY B; length (book_rows B) < session_room; order_ok r;
      spec_process ME_GLUE_CAPACITY (params_of r) B = (code, B', ts)\<rbrakk> \<Longrightarrow>
      \<exists>s'. place r s = Some (map deal_of_trade ts, s') \<and> holds s' B'"
    and withdraw_law: "\<lbrakk>holds s B; books_ok ME_GLUE_CAPACITY B; length (book_rows B) \<le> session_room; spec_cancel i B = (code, B')\<rbrakk> \<Longrightarrow>
      \<exists>s'. withdraw i s = Some (code = 1, s') \<and> holds s' B'"
begin

theorem session_follows:
  assumes "holds s B" and "books_ok ME_GLUE_CAPACITY B" and "\<forall>c \<in> set cs. call_ok c"
    and "length (book_rows B) + length cs \<le> session_room"
  shows "\<exists>s'. run_calls place withdraw cs s = Some (fst (spec_calls cs B), s') \<and> holds s' (snd (spec_calls cs B)) \<and>
    books_ok ME_GLUE_CAPACITY (snd (spec_calls cs B))"
  using assms
proof (induction cs arbitrary: s B)
  case Nil
  then show ?case by simp
next
  case (Cons c cs)
  show ?case
  proof (cases c)
    case (Place r)
    obtain code B1 ts where sp: "spec_process ME_GLUE_CAPACITY (params_of r) B = (code, B1, ts)" by (metis prod_cases3)
    obtain s1 where run: "place r s = Some (map deal_of_trade ts, s1)" and h: "holds s1 B1"
      using place_law[OF Cons.prems(1,2) _ _ sp] Cons.prems(3,4) Place by auto
    have ok: "books_ok ME_GLUE_CAPACITY B1" by (rule spec_process_ok[OF Cons.prems(2) sp])
    have room: "length (book_rows B1) + length cs \<le> session_room"
      using spec_process_rows[OF Cons.prems(2) sp] Cons.prems(4) by simp
    obtain s2 where "run_calls place withdraw cs s1 = Some (fst (spec_calls cs B1), s2)" "holds s2 (snd (spec_calls cs B1))"
      "books_ok ME_GLUE_CAPACITY (snd (spec_calls cs B1))" using Cons.IH[OF h ok _ room] Cons.prems(3) by auto
    then show ?thesis using run sp Place by (simp add: split_beta)
  next
    case (Withdraw i)
    obtain code B1 where sp: "spec_cancel i B = (code, B1)" by (metis prod.exhaust)
    obtain s1 where run: "withdraw i s = Some (code = 1, s1)" and h: "holds s1 B1"
      using withdraw_law[OF Cons.prems(1,2) _ sp] Cons.prems(4) by auto
    have ok: "books_ok ME_GLUE_CAPACITY B1" by (rule spec_cancel_ok[OF Cons.prems(2) sp])
    have room: "length (book_rows B1) + length cs \<le> session_room" using spec_cancel_rows[OF sp] Cons.prems(4) by simp
    obtain s2 where "run_calls place withdraw cs s1 = Some (fst (spec_calls cs B1), s2)" "holds s2 (snd (spec_calls cs B1))"
      "books_ok ME_GLUE_CAPACITY (snd (spec_calls cs B1))" using Cons.IH[OF h ok _ room] Cons.prems(3) by auto
    then show ?thesis using run sp Withdraw by (simp add: split_beta)
  qed
qed

end

section \<open>The C++ reference engine\<close>

definition cpp_holds :: "CppEngine \<Rightarrow> books \<Rightarrow> bool" where
  "cpp_holds s B \<longleftrightarrow> (\<exists>L. cpp_rep s L \<and> same_books L B) \<and> e_stops s = [] \<and> e_poPol s = REJECT"

text \<open>The trades of an order that is not rejected; a rejected one leaves those of the order before.\<close>

definition cpp_place :: "OrderRequest \<Rightarrow> CppEngine \<Rightarrow> (deal list \<times> CppEngine) option" where
  "cpp_place r s = (let inp = cpp_input (params_of r) in do {
     s' \<leftarrow> submitOrder inp s;
     Some (if hasOrder s (in_id inp) \<or> validate (e_now s + 1) (built_order inp (e_now s + 1)) \<noteq> None then []
           else map deal_of (e_trades s'), s')
   })"

lemma cpp_place_follows:
  assumes "cpp_holds s B" and "length (book_rows B) < unat cap" and "both_know (params_of r)" "req_qty r \<le> max_qty cap"
    and sp: "spec_process cap (params_of r) B = (code, B', ts)"
  shows "\<exists>s'. cpp_place r s = Some (map deal_of_trade ts, s') \<and> cpp_holds s' B'"
proof -
  let ?q = "params_of r"
  obtain L f where I: "cpp_inv s f {} {} {}" and L: "\<And>sd. cpp_view s f sd = L sd" and LB: "same_books L B"
    and e: "e_stops s = []" and pol: "e_poPol s = REJECT" using assms(1) by (auto simp: cpp_holds_def cpp_rep_def)
  have q: "both_know ?q" "q_qty ?q \<le> max_qty cap" using assms(3,4) by (simp_all add: params_of_def)
  have w: "within (Submit (cpp_input ?q)) s" using q(1) by (simp add: both_know_def cpp_input_def)
  have ty: "in_type (cpp_input ?q) \<noteq> STOP_LIMIT" "in_type (cpp_input ?q) \<noteq> STOP_MARKET" by (simp_all add: cpp_input_def)
  from submit_agrees[OF q(1) LB assms(2) q(2) sp] obtain L' where
    spec: "submit_spec (e_now s) (cpp_input ?q) L = Some (code = 0 \<or> code = 6, L', map deal_of_trade ts)" and LB': "same_books L' B'" by blast
  from submit_lists[OF I L pol e w ty] spec obtain s' where run: "submitOrder (cpp_input ?q) s = Some s'" and rep: "cpp_rep s' L'"
    and e': "e_stops s' = []" and tr: "if code = 0 \<or> code = 6 then map deal_of (e_trades s') = map deal_of_trade ts else e_trades s' = e_trades s"
    by auto
  have "e_poPol s' = REJECT" using submit_wp[OF I pol, of "cpp_input ?q"] w run pol by (auto simp: settles_def)
  then have h: "cpp_holds s' B'" using rep LB' e' by (auto simp: cpp_holds_def)
  have acc: "hasOrder s (in_id (cpp_input ?q)) \<or> validate (e_now s + 1) (built_order (cpp_input ?q) (e_now s + 1)) \<noteq> None \<longleftrightarrow>
      \<not> (code = 0 \<or> code = 6)"
    using spec rep_ids[OF I L e] by (auto simp: submit_spec_def split: if_splits)
  have none: "ts = []" if "\<not> (code = 0 \<or> code = 6)"
    using sp that by (auto simp: spec_process_def spec_side_def Let_def split: if_splits prod.splits)
  have "cpp_place r s = Some (map deal_of_trade ts, s')"
    unfolding cpp_place_def Let_def run acc Option.bind.bind_lunit using tr none by simp
  then show ?thesis using h by blast
qed

lemma drop_agrees:
  assumes "same_levels L ls"
  shows "same_levels (drop_id i L) (cancel_level i ls)"
  using assms
proof (induction ls arbitrary: L)
  case Nil
  then show ?case by (simp add: drop_id_def cancel_level_def)
next
  case (Cons l ls)
  obtain w xs where l: "l = (w, xs)" by (cases l)
  obtain Q L' where L: "L = (uint w, Q) # L'" "list_all2 (same_order w) Q xs" "same_levels L' ls"
    using Cons.prems unfolding l by (rule same_levels_ConsE)
  have f: "list_all2 (same_order w) (filter (\<lambda>r. co_id r \<noteq> i) Q) (filter (\<lambda>x. r_id x \<noteq> i) xs)"
    using L(2) by (induction rule: list_all2_induct) (simp_all add: same_order_def)
  then have "filter (\<lambda>r. co_id r \<noteq> i) Q = [] \<longleftrightarrow> filter (\<lambda>x. r_id x \<noteq> i) xs = []" by auto
  moreover have "drop_id i L = (if filter (\<lambda>r. co_id r \<noteq> i) Q = [] then drop_id i L' else (uint w, filter (\<lambda>r. co_id r \<noteq> i) Q) # drop_id i L')"
    "cancel_level i (l # ls) = (if filter (\<lambda>x. r_id x \<noteq> i) xs = [] then cancel_level i ls else (w, filter (\<lambda>x. r_id x \<noteq> i) xs) # cancel_level i ls)"
    by (simp_all add: L(1) l drop_id_def cancel_level_def)
  ultimately show ?case using Cons.IH[OF L(3)] f by simp
qed

lemma cpp_withdraw_follows:
  assumes "cpp_holds s B" and sp: "spec_cancel i B = (code, B')"
  shows "\<exists>s'. cancelOrder i s = Some (code = 1, s') \<and> cpp_holds s' B'"
proof -
  obtain L f where I: "cpp_inv s f {} {} {}" and L: "\<And>sd. cpp_view s f sd = L sd" and LB: "same_books L B"
    and e: "e_stops s = []" and pol: "e_poPol s = REJECT" using assms(1) by (auto simp: cpp_holds_def cpp_rep_def)
  have c: "fst (cancel_spec i L) = (code = 1)" "same_books (snd (cancel_spec i L)) B'"
    using sp same_ids_books[OF LB] LB drop_agrees by (auto simp: cancel_spec_def spec_cancel_def same_books_def split: if_splits)
  from cancel_lists[OF I L e, of i] c pol show ?thesis by (auto simp: cpp_holds_def)
qed

interpretation cpp_session: order_engine cpp_holds cpp_place cancelOrder
proof
  show "\<exists>s'. cpp_place r s = Some (map deal_of_trade ts, s') \<and> cpp_holds s' B'"
    if "cpp_holds s B" "books_ok ME_GLUE_CAPACITY B" "length (book_rows B) < session_room" "order_ok r"
      "spec_process ME_GLUE_CAPACITY (params_of r) B = (code, B', ts)" for s B r code B' ts
    using that by (intro cpp_place_follows[of s B ME_GLUE_CAPACITY]) (simp_all add: order_ok_def session_room_def glue_limit)
  show "\<exists>s'. cancelOrder i s = Some (code = 1, s') \<and> cpp_holds s' B'"
    if "cpp_holds s B" "spec_cancel i B = (code, B')" for s B i code B'
    using that by (rule cpp_withdraw_follows)
qed

section \<open>The two C engines\<close>

text \<open>A caller whose callback keeps every trade.\<close>

definition keep_event :: "TradeEvent \<Rightarrow> TradeEvent list \<Rightarrow> TradeEvent list" where
  "keep_event t us = us @ [t]"

definition deal_of_event :: "TradeEvent \<Rightarrow> deal" where
  "deal_of_event t = (passive_id t, uint (trade_price t), uint (trade_qty t))"

definition events :: "TradeEvent list MatchingEngine option \<Rightarrow> TradeEvent list" where
  "events e = (case e of None \<Rightarrow> [] | Some e \<Rightarrow> user_data e)"

definition new_deals :: "TradeEvent list MatchingEngine option \<Rightarrow> TradeEvent list MatchingEngine option \<Rightarrow> deal list" where
  "new_deals e e' = map deal_of_event (drop (length (events e)) (events e'))"

definition records :: "TradeEvent list MatchingEngine option \<Rightarrow> bool" where
  "records e \<longleftrightarrow> (\<exists>e'. e = Some e' \<and> on_trade e' = Some keep_event)"

lemma fold_keep: "fold (keep_event \<circ> event_of) ts us = us @ map event_of ts"
  by (induction ts arbitrary: us) (simp_all add: keep_event_def)

lemma report_keeps:
  assumes "records e"
  shows "records (map_option (report_trades ts) e)" and "new_deals e (map_option (report_trades ts) e) = map deal_of_trade ts"
proof -
  obtain e' where e': "e = Some e'" "on_trade e' = Some keep_event" using assms by (auto simp: records_def)
  show "records (map_option (report_trades ts) e)" using e' by (simp add: records_def report_trades_counters)
  show "new_deals e (map_option (report_trades ts) e) = map deal_of_trade ts"
    using e' report_trades_counters(4)[OF e'(2), of ts]
    by (simp add: new_deals_def events_def fold_keep deal_of_event_def deal_of_trade_def event_of_def)
qed

lemma new_deals_same [simp]: "new_deals e e = []"
  by (simp add: new_deals_def)

subsection \<open>The generated matcher\<close>

type_synonym gen_state = "TradeEvent list MatchingEngine option \<times> adapter matcher"

definition gen_place :: "OrderRequest \<Rightarrow> gen_state \<Rightarrow> (deal list \<times> gen_state) option" where
  "gen_place r = (\<lambda>(e, st). case MatchingEngine_ProcessOrder e (Some r) st of
     Inl _ \<Rightarrow> None | Inr (ok, e', st') \<Rightarrow> Some (new_deals e e', (e', st')))"

definition gen_withdraw :: "u64 \<Rightarrow> gen_state \<Rightarrow> (bool \<times> gen_state) option" where
  "gen_withdraw i = (\<lambda>(e, st). case MatchingEngine_CancelOrder e i st of Inl _ \<Rightarrow> None | Inr (b, st') \<Rightarrow> Some (b, (e, st')))"

definition gen_holds :: "gen_state \<Rightarrow> books \<Rightarrow> bool" where
  "gen_holds = (\<lambda>(e, st) B. records e \<and> (\<exists>ts. adapter_books st ME_GLUE_CAPACITY B ts))"

interpretation gen_session: order_engine gen_holds gen_place gen_withdraw
proof
  show "\<exists>s'. gen_place r s = Some (map deal_of_trade ts, s') \<and> gen_holds s' B'"
    if h: "gen_holds s B" and ok: "books_ok ME_GLUE_CAPACITY B" and sp: "spec_process ME_GLUE_CAPACITY (params_of r) B = (code, B', ts)"
    for s B r code B' ts
  proof -
    obtain e st us where s: "s = (e, st)" "records e" "adapter_books st ME_GLUE_CAPACITY B us" using h by (auto simp: gen_holds_def)
    obtain st' where "MatchingEngine_ProcessOrder e (Some r) st = Inr (code = 0, map_option (report_trades ts) e, st')"
      "adapter_books st' ME_GLUE_CAPACITY B' ts" using ProcessOrder_refines[OF s(3) ok sp] .
    then show ?thesis using report_keeps[OF s(2), of ts] s(1) by (auto simp: gen_place_def gen_holds_def)
  qed
  show "\<exists>s'. gen_withdraw i s = Some (code = 1, s') \<and> gen_holds s' B'"
    if h: "gen_holds s B" and ok: "books_ok ME_GLUE_CAPACITY B" and sp: "spec_cancel i B = (code, B')" for s B i code B'
  proof -
    obtain e st us where s: "s = (e, st)" "records e" "adapter_books st ME_GLUE_CAPACITY B us" using h by (auto simp: gen_holds_def)
    obtain st' where "MatchingEngine_CancelOrder e i st = Inr (code = 1, st')" "adapter_books st' ME_GLUE_CAPACITY B' []"
      using CancelOrder_refines[OF s(3) ok sp] .
    then show ?thesis using s by (auto simp: gen_withdraw_def gen_holds_def)
  qed
qed

subsection \<open>The handwritten engine\<close>

definition hand_place :: "OrderRequest \<Rightarrow> TradeEvent list hand \<Rightarrow> (deal list \<times> TradeEvent list hand) option" where
  "hand_place r m = do {
     (ok, m') \<leftarrow> hw_MatchingEngine_ProcessOrder (Some r) m;
     Some (new_deals (h_engine m) (h_engine m'), m')
   }"

definition hand_holds :: "TradeEvent list hand \<Rightarrow> books \<Rightarrow> bool" where
  "hand_holds m B \<longleftrightarrow> records (h_engine m) \<and> hand_books m (of_nat session_room) B"

text \<open>Both limits let the orders of a session through, so the specification does not see which one holds.\<close>

lemma room_limits:
  "unat (of_nat session_room :: u64) = session_room" "max_qty ME_GLUE_CAPACITY \<le> max_qty (of_nat session_room)"
proof -
  show "unat (of_nat session_room :: u64) = session_room" by (simp add: session_room_def)
  show "max_qty ME_GLUE_CAPACITY \<le> max_qty (of_nat session_room)"
    unfolding glue_limit(1) by (simp add: max_qty_def session_room_def)
qed

lemma spec_process_room:
  assumes "length (book_rows B) < session_room" and "order_ok r"
  shows "spec_process (of_nat session_room) (params_of r) B = spec_process ME_GLUE_CAPACITY (params_of r) B"
proof -
  have "q_qty (params_of r) \<le> max_qty ME_GLUE_CAPACITY" using assms(2) by (simp add: order_ok_def params_of_def)
  then have "\<not> q_qty (params_of r) > max_qty ME_GLUE_CAPACITY" "\<not> q_qty (params_of r) > max_qty (of_nat session_room)"
    using room_limits(2) by simp_all
  moreover have "\<not> unat ME_GLUE_CAPACITY \<le> length (book_rows B)" "\<not> unat (of_nat session_room :: u64) \<le> length (book_rows B)"
    using assms(1) by (simp_all add: session_room_def glue_limit)
  ultimately show ?thesis by (simp add: spec_process_def)
qed

lemma books_ok_room:
  assumes ok: "books_ok ME_GLUE_CAPACITY B" and "length (book_rows B) \<le> session_room"
  shows "books_ok (of_nat session_room) B"
proof -
  have "row_ok (of_nat session_room) b p x" if "row_ok ME_GLUE_CAPACITY b p x" for b p x
    using that room_limits(2) by (auto simp: row_ok_def)
  then have "levels_ok (of_nat session_room) b (B b)" for b
    using ok unfolding books_ok_def levels_ok_def by fast
  then show ?thesis using ok assms(2) room_limits(1) by (simp add: books_ok_def)
qed

lemma hand_count:
  assumes "hand_books m cap B" and "length (book_rows B) < unat cap"
  shows "order_pool_n m < cap"
proof -
  obtain a where r: "db_rep m a" and a: "tidy a" "s_cap a = cap" "book_view a = B"
    using assms(1) by (auto simp: hand_books_def)
  have "order_pool_n m = of_nat (length (book_rows B))"
    using db_repD(3)[OF r] tidy_count[OF db_repD(1)[OF r] a(1)] a(3) by (simp add: pools_rep_def)
  moreover have "unat (of_nat (length (book_rows B)) :: u64) = length (book_rows B)"
    using assms(2) unat_u64[of cap] by (simp add: unat_of_nat)
  ultimately show ?thesis using assms(2) by (simp add: word_less_nat_alt)
qed

interpretation hand_session: order_engine hand_holds hand_place hw_MatchingEngine_CancelOrder
proof
  show "\<exists>m'. hand_place r m = Some (map deal_of_trade ts, m') \<and> hand_holds m' B'"
    if h: "hand_holds m B" and ok: "books_ok ME_GLUE_CAPACITY B" and room: "length (book_rows B) < session_room" and r: "order_ok r"
      and sp: "spec_process ME_GLUE_CAPACITY (params_of r) B = (code, B', ts)" for m B r code B' ts
  proof -
    have e: "records (h_engine m)" and v: "hand_books m (of_nat session_room) B" using h by (simp_all add: hand_holds_def)
    have "req_qty r \<le> max_qty (of_nat session_room)" using r room_limits(2) by (auto simp: order_ok_def)
    moreover have "order_pool_n m < of_nat session_room" using hand_count[OF v] room room_limits(1) by simp
    moreover have "books_ok (of_nat session_room) B" using books_ok_room[OF ok] room by simp
    ultimately obtain m' where "hw_MatchingEngine_ProcessOrder (Some r) m = Some (code = 0, m')" "hand_books m' (of_nat session_room) B'"
      "h_engine m' = map_option (report_trades ts) (h_engine m)"
      using hand_order_steps[OF v, of r] spec_process_room[OF room r] sp by (metis prod.inject)
    then show ?thesis using report_keeps[OF e, of ts] by (simp add: hand_place_def hand_holds_def)
  qed
  show "\<exists>m'. hw_MatchingEngine_CancelOrder i m = Some (code = 1, m') \<and> hand_holds m' B'"
    if h: "hand_holds m B" and ok: "books_ok ME_GLUE_CAPACITY B" and room: "length (book_rows B) \<le> session_room"
      and sp: "spec_cancel i B = (code, B')" for m B i code B'
  proof -
    have e: "records (h_engine m)" and v: "hand_books m (of_nat session_room) B" using h by (simp_all add: hand_holds_def)
    obtain m' where "hw_MatchingEngine_CancelOrder i m = Some (code = 1, m')" "hand_books m' (of_nat session_room) B'" "h_engine m' = h_engine m"
      using hand_cancel_steps[OF v books_ok_room[OF ok room], of i] sp by (metis prod.inject)
    then show ?thesis using e by (simp add: hand_holds_def)
  qed
qed

section \<open>All three engines agree\<close>

lemma cpp_starts: "cpp_holds (Engine_new REJECT tk) (\<lambda>b. [])"
  using new_rep[of tk] by (auto simp: cpp_holds_def same_books_def Engine_new_def)

lemma gen_starts:
  obtains g where "MatchingEngine_Init (Some e) (Some keep_event) [] start_matcher = Inr g" and "gen_holds g (\<lambda>b. [])"
proof -
  obtain st where "MatchingEngine_Init (Some e) (Some keep_event) [] start_matcher = Inr (map_option
       (\<lambda>e. e\<lparr>total_trades := 0, total_volume := 0, on_trade := Some keep_event, user_data := []\<rparr>) (Some e), st)"
    "adapter_books st ME_GLUE_CAPACITY (\<lambda>b. []) []" by (rule Init_refines[OF start_chunks])
  then show thesis by (intro that) (auto simp: gen_holds_def records_def)
qed

lemma hand_starts:
  obtains m where "hw_MatchingEngine_Init (Some keep_event) [] (start_hand (Some e)) = Some m" and "hand_holds m (\<lambda>b. [])"
proof -
  have "pool_chunks (start_hand (Some e)) [] []" "\<forall>i. alloc_ok (start_hand (Some e)) i" "unat (of_nat session_room :: u64) \<le> 500000"
    by (simp_all add: start_hand_def pool_chunks_def chunk_table_def session_room_def)
  from hand_init[OF this, of "Some keep_event" "[]"] show thesis
    by (auto intro: that simp: hand_holds_def records_def start_hand_def)
qed

text \<open>
  C4: from the start, every session of up to 500000 calls, orders and cancellations in any sequence, whose
  orders satisfy \<open>call_ok\<close> (known codes for type, side and self-trade mode, an account exactly with a self-trade mode,
  a price below \<open>2^63\<close>, an id below \<open>2^31\<close>, a quantity up to \<open>max_qty\<close> of the capacity of the generated matcher) gets the
  same answers from the generated matcher, the handwritten engine and the C++ reference engine: the
  same trades, with their makers, prices and quantities, for every order, and the same success of
  every cancellation.  They are the answers of the specification, and the three engines hold
  the same books at the end.
\<close>

theorem all_engines_agree:
  assumes "\<forall>c \<in> set cs. call_ok c" and "length cs \<le> 500000"
  shows "\<exists>g0 m0 outs g m s B.
    MatchingEngine_Init (Some e) (Some keep_event) [] start_matcher = Inr g0 \<and>
    hw_MatchingEngine_Init (Some keep_event) [] (start_hand (Some e)) = Some m0 \<and>
    run_calls gen_place gen_withdraw cs g0 = Some (outs, g) \<and>
    run_calls hand_place hw_MatchingEngine_CancelOrder cs m0 = Some (outs, m) \<and>
    run_calls cpp_place cancelOrder cs (Engine_new REJECT tk) = Some (outs, s) \<and>
    (outs, B) = spec_calls cs (\<lambda>b. []) \<and> gen_holds g B \<and> hand_holds m B \<and> cpp_holds s B"
proof -
  obtain g0 where g0: "MatchingEngine_Init (Some e) (Some keep_event) [] start_matcher = Inr g0" "gen_holds g0 (\<lambda>b. [])" by (rule gen_starts)
  obtain m0 where m0: "hw_MatchingEngine_Init (Some keep_event) [] (start_hand (Some e)) = Some m0" "hand_holds m0 (\<lambda>b. [])" by (rule hand_starts)
  have room: "length (book_rows (\<lambda>b. [])) + length cs \<le> session_room" using assms(2) by (simp add: book_rows_def level_rows_def session_room_def)
  note f = books_ok_empty assms(1) room
  from gen_session.session_follows[OF g0(2) f] hand_session.session_follows[OF m0(2) f] cpp_session.session_follows[OF cpp_starts f, of tk] g0(1) m0(1)
  show ?thesis by (metis prod.collapse)
qed

definition own_order :: "u64 \<Rightarrow> u8 \<Rightarrow> u64 \<Rightarrow> u8 \<Rightarrow> u64 \<Rightarrow> u64 \<Rightarrow> OrderRequest" where
  "own_order i sd acc stp p n = \<lparr>req_id = i, req_account_id = acc, req_side = sd, req_order_type = 0, req_stp_mode = stp,
     req_price = p, req_qty = n\<rparr>"

text \<open>A sale, a purchase of a part, an order of the seller itself that cancels his resting order, a cancellation.\<close>

definition sample_session :: "SessionCall list" where
  "sample_session = [Place (own_order 1 1 7 1 100 5), Place (own_order 2 0 8 1 101 3), Place (own_order 3 0 7 2 100 4), Withdraw 3, Withdraw 1]"

lemma sample_session_run:
  "fst (spec_calls sample_session (\<lambda>b. [])) = [Traded [], Traded [(1, 100, 3)], Traded [], Withdrawn True, Withdrawn False]"
  by (simp add: sample_session_def own_order_def params_of_def sample_simps min_def spec_cancel_def cancel_level_def deal_of_trade_def)

theorem all_engines_agree_witness:
  "\<exists>g0 m0 g m s. run_calls gen_place gen_withdraw sample_session g0 = Some ([Traded [], Traded [(1, 100, 3)], Traded [], Withdrawn True, Withdrawn False], g) \<and>
    run_calls hand_place hw_MatchingEngine_CancelOrder sample_session m0 = Some ([Traded [], Traded [(1, 100, 3)], Traded [], Withdrawn True, Withdrawn False], m) \<and>
    run_calls cpp_place cancelOrder sample_session (Engine_new REJECT 1) = Some ([Traded [], Traded [(1, 100, 3)], Traded [], Withdrawn True, Withdrawn False], s)"
proof -
  have "\<forall>c \<in> set sample_session. call_ok c"
    unfolding sample_session_def
    by (simp add: own_order_def order_ok_def both_know_def params_of_def glue_limit cpp_max_qty_def)
  moreover have "length sample_session \<le> 500000" by (simp add: sample_session_def)
  ultimately show ?thesis
    using all_engines_agree[of sample_session undefined 1] sample_session_run by (metis fst_conv)
qed

end
