(* ===== verification/Cpp_Priority.thy ===== *)
theory Cpp_Priority
  imports Cpp_Refines
begin

text \<open>
  What the list functions say about the engine: price priority of its trades, and the refinement
  of the code by the list functions as a property of its own.
\<close>

section \<open>Better prices first\<close>

lemma loop_partial:
  assumes "loop step s = Some r" and "Inv s" and "\<And>s s'. Inv s \<Longrightarrow> step s = Some (Inl s') \<Longrightarrow> Inv s'"
    and "\<And>s r. Inv s \<Longrightarrow> step s = Some (Inr r) \<Longrightarrow> Q r"
  shows "Q r"
  using assms
proof (induction step s r rule: loop.raw_induct[rotated 1, consumes 1, case_names 1])
  case (1 lp step s r)
  obtain c where c: "step s = Some c" using "1.prems"(1) "1.hyps" by (cases "step s") auto
  show ?case
  proof (cases c)
    case (Inl s')
    then have "lp step s' = Some r" using "1.hyps" c by simp
    then show ?thesis using "1.IH"[of step s' r] "1.prems" c Inl by blast
  next
    case (Inr x)
    then show ?thesis using "1.hyps" "1.prems" c by auto
  qed
qed

definition priced :: "int \<Rightarrow> CppOrder list \<Rightarrow> bool" where
  "priced p q \<longleftrightarrow> (\<forall>r \<in> set q. co_price r = p)"

lemma priced_steps:
  assumes "priced p q"
  shows "priced p (after_fill k q)" and "priced p (after_decrement k q)" and "priced p (snd (meet_own i q))"
proof -
  show f: "priced p (after_fill k q)" "priced p (after_decrement k q)" for k
    using assms by (cases q; auto simp: priced_def)+
  show "priced p (snd (meet_own i q))"
    using assms f(2) by (cases q; cases "co_stp i") (auto simp: priced_def Let_def simp del: after_decrement.simps)
qed

lemma level_prices:
  assumes "level_spec i q = Some (ret, j, q', us)" and "priced p q"
  shows "priced p q' \<and> (\<forall>t \<in> set us. fst (snd t) = p)"
proof -
  let ?I = "\<lambda>(i, q, ts). priced p q \<and> (\<forall>t \<in> set ts. fst (snd t) = p)"
  have "(\<lambda>(ret, s). ?I s) (ret, j, q', us)"
    using assms(1) unfolding level_spec_def
  proof (rule loop_partial[where Inv = ?I])
    show "?I (i, q, [])" using assms(2) by simp
    fix s :: level_state
    obtain i q ts where s: "s = (i, q, ts)" by (cases s)
    have pr: "priced p (after_fill k q)" "priced p (snd (meet_own i q))" if "priced p q" for k using priced_steps that by blast+
    show "?I s'" if "?I s" "level_step_spec s = Some (Inl s')" for s'
      using that pr unfolding s level_step_spec_def
      by (cases q) (auto simp: Let_def priced_def split: if_splits prod.splits simp del: after_fill.simps meet_own.simps)
    show "(\<lambda>(ret, s). ?I s) r" if "?I s" "level_step_spec s = Some (Inr r)" for r
      using that pr unfolding s level_step_spec_def
      by (cases q) (auto simp: Let_def split: if_splits prod.splits simp del: after_fill.simps meet_own.simps)
  qed
  then show ?thesis by simp
qed

text \<open>A side as the engine keeps it; trades against it, the best first; none passes over a better level.\<close>

definition side_sorted :: "Side \<Rightarrow> side_lists \<Rightarrow> bool" where
  "side_sorted c b \<longleftrightarrow> sorted_wrt (px_before c) (map fst b) \<and> (\<forall>(p, q) \<in> set b. priced p q)"

definition best_first :: "Side \<Rightarrow> deal list \<Rightarrow> bool" where
  "best_first c ts \<longleftrightarrow> sorted_wrt (\<lambda>t u. \<not> px_before c (fst (snd u)) (fst (snd t))) ts"

definition none_better :: "Side \<Rightarrow> side_lists \<Rightarrow> deal list \<Rightarrow> bool" where
  "none_better c b ts \<longleftrightarrow> (\<forall>p \<in> fst ` set b. \<forall>t \<in> set ts. \<not> px_before c p (fst (snd t)))"

lemma best_first_append:
  "best_first c (ts @ us) \<longleftrightarrow> best_first c ts \<and> best_first c us \<and> (\<forall>t \<in> set ts. \<forall>u \<in> set us. \<not> px_before c (fst (snd u)) (fst (snd t)))"
  by (auto simp: best_first_def sorted_wrt_append)

lemma join_prices:
  assumes "best_first c ts" and nb: "none_better c b ts" and "best_first c us" and nd: "none_better c d us"
    and sub: "fst ` set d \<subseteq> fst ` set b" and us: "\<forall>t \<in> set us. fst (snd t) \<in> fst ` set b"
  shows "best_first c (ts @ us)" and "none_better c d (ts @ us)"
proof -
  have later: "\<not> px_before c p (fst (snd t))" if "t \<in> set ts" "p \<in> fst ` set b" for t p
    using nb that unfolding none_better_def by (elim ballE) auto
  have "\<not> px_before c (fst (snd u)) (fst (snd t))" if "t \<in> set ts" "u \<in> set us" for t u
    using later[OF that(1) bspec[OF us that(2)]] .
  then show "best_first c (ts @ us)" using assms(1,3) by (simp add: best_first_append)
  show "none_better c d (ts @ us)"
    unfolding none_better_def
  proof (intro ballI)
    fix p t assume p: "p \<in> fst ` set d" and t: "t \<in> set (ts @ us)"
    show "\<not> px_before c p (fst (snd t))"
    proof (cases "t \<in> set ts")
      case True
      show ?thesis by (rule later[OF True subsetD[OF sub p]])
    next
      case False
      then have "t \<in> set us" using t by simp
      with nd p show ?thesis unfolding none_better_def by (elim ballE) auto
    qed
  qed
qed

lemma best_first_same: "\<forall>t \<in> set ts. fst (snd t) = p \<Longrightarrow> best_first c ts"
  by (induction ts) (auto simp: best_first_def)

lemma side_step_prices:
  assumes ok: "side_sorted c ((p, q) # m)" and "none_better c ((p, q) # m) ts" "best_first c ts" and lv: "level_spec i q = Some (ret, j, q', us)"
  shows "side_sorted c (put_level p q' m) \<and> none_better c (put_level p q' m) (ts @ us) \<and> best_first c (ts @ us) \<and>
    fst ` set (put_level p q' m) \<subseteq> fst ` set ((p, q) # m) \<and> (\<forall>t \<in> set us. fst (snd t) = p)"
proof -
  have pr: "priced p q'" "\<forall>t \<in> set us. fst (snd t) = p" using level_prices[OF lv] ok by (auto simp: side_sorted_def)
  have before: "px_before c p p'" if "p' \<in> fst ` set m" for p' using ok that by (auto simp: side_sorted_def)
  have sub: "fst ` set (put_level p q' m) \<subseteq> insert p (fst ` set m)" by (auto simp: put_level_def)
  have "\<not> px_before c p' (fst (snd t))" if "p' \<in> insert p (fst ` set m)" "t \<in> set us" for p' t
    using that pr(2) before px_before_asym[of c p p'] by auto
  then have "none_better c (put_level p q' m) us" using sub unfolding none_better_def by blast
  moreover have "fst ` set (put_level p q' m) \<subseteq> fst ` set ((p, q) # m)" using sub by simp
  moreover have "\<forall>t \<in> set us. fst (snd t) \<in> fst ` set ((p, q) # m)" using pr(2) by simp
  ultimately have nb: "best_first c (ts @ us)" "none_better c (put_level p q' m) (ts @ us)"
    using join_prices[OF assms(3,2) best_first_same[OF pr(2)]] by blast+
  moreover have "side_sorted c (put_level p q' m)" using ok pr(1) by (simp add: side_sorted_def put_level_def)
  ultimately show ?thesis using nb sub pr(2) by simp
qed

lemma match_prices:
  assumes "match_spec i b = Some (j, b', ts)" and "side_sorted c b"
  shows "side_sorted c b' \<and> none_better c b' ts \<and> best_first c ts \<and> fst ` set b' \<subseteq> fst ` set b \<and> (\<forall>t \<in> set ts. fst (snd t) \<in> fst ` set b)"
proof -
  let ?I = "\<lambda>(i, d, ts). side_sorted c d \<and> none_better c d ts \<and> best_first c ts \<and> fst ` set d \<subseteq> fst ` set b \<and> (\<forall>t \<in> set ts. fst (snd t) \<in> fst ` set b)"
  have step: "?I s'" if I: "?I s" and r: "side_step_spec s = Some r" and s': "r = Inl s' \<or> r = Inr s'" for s s' r
  proof -
    obtain i d ts where s: "s = (i, d, ts)" by (cases s)
    show ?thesis
    proof (cases "\<exists>p q m. d = (p, q) # m \<and> co_rem i > 0 \<and> canMatch i p")
      case True
      then obtain p q m where d: "d = (p, q) # m" and go: "co_rem i > 0" "canMatch i p" by blast
      obtain ret j q' us where lv: "level_spec i q = Some (ret, j, q', us)" and res: "r = (if ret then Inr else Inl) (j, put_level p q' m, ts @ us)"
        using r go by (auto simp: s d side_step_spec_def bind_eq_Some_conv)
      have "s' = (j, put_level p q' m, ts @ us)" using s' res by (cases ret) auto
      moreover have i: "side_sorted c ((p, q) # m)" "none_better c ((p, q) # m) ts" "best_first c ts" "fst ` set ((p, q) # m) \<subseteq> fst ` set b"
        "\<forall>t \<in> set ts. fst (snd t) \<in> fst ` set b" using I unfolding s d prod.case by blast+
      note f = side_step_prices[OF i(1-3) lv]
      have "fst ` set (put_level p q' m) \<subseteq> fst ` set b" using f i(4) by (meson subset_trans)
      moreover have "\<forall>t \<in> set (ts @ us). fst (snd t) \<in> fst ` set b" using f i(4,5) by auto
      ultimately show ?thesis using f by simp
    next
      case False
      then have "r = Inr s" using r by (cases d) (auto simp: s side_step_spec_def split: if_splits)
      then show ?thesis using s' I by auto
    qed
  qed
  have "?I (j, b', ts)"
    using assms(1) unfolding match_spec_def
  proof (rule loop_partial[where Inv = ?I])
    show "?I (i, b, [])" using assms(2) by (simp add: none_better_def best_first_def)
    show "?I s'" if "?I s" "side_step_spec s = Some (Inl s')" for s s' using step[OF that] by blast
    show "?I r" if "?I s" "side_step_spec s = Some (Inr r)" for s r using step[OF that] by blast
  qed
  then show ?thesis by simp
qed

lemma take_prices:
  assumes tk: "take_spec r B = Some (B', ts)" and ok: "side_sorted c (B c)" and c: "c = oppositeSide (co_side r)"
  shows "best_first c ts \<and> none_better c (B' c) ts"
proof -
  have ne: "co_side r \<noteq> c" "c \<noteq> co_side r" using c by (cases "co_side r"; simp)+
  have empty: "best_first c []" "none_better c b []" for b by (simp_all add: best_first_def none_better_def)
  consider "ts = []" | "plain_spec r B = Some (B', ts)" | "mtl_spec r B = Some (B', ts)"
    using tk by (auto simp: take_spec_def Let_def split: if_splits)
  then show ?thesis
  proof cases
    case 2
    then obtain i b where "match_spec r (B c) = Some (i, b, ts)" "B' c = b"
      using ne by (auto simp: plain_spec_def c[symmetric] bind_eq_Some_conv)
    then show ?thesis using match_prices[OF _ ok] by blast
  next
    case 3
    then obtain i b us where m: "match_spec r (B c) = Some (i, b, us)"
      and rest: "(case us of [] \<Rightarrow> Some (B(c := b), [])
        | (_, px, _) # _ \<Rightarrow> do {
            let j = i\<lparr>co_price := px, co_type := LIMIT, co_minQty := (if co_minQty i > 0 then 0 else co_minQty i)\<rparr>;
            (k, b, vs) \<leftarrow> (if co_rem j > 0 \<and> co_status j \<noteq> CANCELLED then match_spec j b else Some (j, b, []));
            Some (B(c := b, co_side r := rest_spec k True (B (co_side r))), us @ vs)
          }) = Some (B', ts)"
      unfolding mtl_spec_def c[symmetric] by (auto simp: bind_eq_Some_conv)
    note mp = match_prices[OF m ok]
    show ?thesis
    proof (cases us)
      case Nil
      then show ?thesis using rest empty by auto
    next
      case (Cons u us')
      obtain mk px n where u: "u = (mk, px, n)" by (cases u)
      let ?j = "i\<lparr>co_price := px, co_type := LIMIT, co_minQty := (if co_minQty i > 0 then 0 else co_minQty i)\<rparr>"
      obtain b2 vs k where two: "(if co_rem ?j > 0 \<and> co_status ?j \<noteq> CANCELLED then match_spec ?j b else Some (?j, b, [])) = Some (k, b2, vs)"
        and out: "B' = B(c := b2, co_side r := rest_spec k True (B (co_side r)))" "ts = us @ vs"
        using rest unfolding Cons u list.case prod.case Let_def bind_eq_Some_conv by (auto simp del: fun_upd_apply)
      have "side_sorted c b2 \<and> none_better c b2 vs \<and> best_first c vs \<and> fst ` set b2 \<subseteq> fst ` set b \<and> (\<forall>t \<in> set vs. fst (snd t) \<in> fst ` set b)"
      proof (cases "co_rem ?j > 0 \<and> co_status ?j \<noteq> CANCELLED")
        case True
        have "match_spec ?j b = Some (k, b2, vs)" using two unfolding if_P[OF True] .
        from match_prices[OF this conjunct1[OF mp]] show ?thesis .
      next
        case False
        have "b2 = b" "vs = []" using two unfolding if_not_P[OF False] by simp_all
        then show ?thesis using mp empty by simp
      qed
      then have f: "none_better c b2 vs" "best_first c vs" "fst ` set b2 \<subseteq> fst ` set b" "\<forall>t \<in> set vs. fst (snd t) \<in> fst ` set b"
        by - (elim conjE, assumption)+
      have g: "best_first c us" "none_better c b us" using mp by - (elim conjE, assumption)+
      have B': "B' c = b2" using out(1) ne by simp
      have "best_first c (us @ vs)" "none_better c (B' c) (us @ vs)"
        using join_prices[OF g f(2,1,3,4)] by (simp_all only: B')
      then show ?thesis using out(2) by simp
    qed
  qed (use empty in simp)
qed

section \<open>Properties of the code\<close>

lemma view_keys: "map fst (cpp_view s f c) = map fst (side_map c s)"
  by (simp add: cpp_view_def side_view_def split_beta comp_def)

lemma rep_sorted:
  assumes I: "cpp_inv s f {} {} {}"
  shows "side_sorted c (cpp_view s f c)"
  unfolding side_sorted_def
proof (intro conjI)
  show "sorted_wrt (px_before c) (map fst (cpp_view s f c))" unfolding view_keys by (rule inv_parts(1)[OF I])
  show "\<forall>(p, q) \<in> set (cpp_view s f c). priced p q"
  proof (intro ballI, clarify)
    fix p q assume "(p, q) \<in> set (cpp_view s f c)"
    then obtain lv where lv: "(p, lv) \<in> set (side_map c s)" "q = view s (f lv)" by (auto simp: cpp_view_def side_view_def)
    have "co_price (ord s x) = p" if "x \<in> set (f lv)" for x using inv_level(5)[OF I lv(1), of x] that by (simp add: rest_ok_def)
    then show "priced p q" by (simp add: lv(2) priced_def view_def)
  qed
qed

text \<open>
  C21: \<^verbatim>\<open>submitOrder\<close> refines the list functions under the policy \<open>REJECT\<close> for post-only orders: from a state that
  stands for the books \<open>B\<close> and has no stop order waiting, for an order that is not a stop order, with an id below \<open>2^31\<close>
  and a quantity up to \<open>2^62\<close>, it returns, accepts exactly when \<open>submit_spec\<close> does, has made its trades in its order, and leaves a
  state that stands for its books.  This covers limit, market, market-to-limit and post-only orders, every time in force,
  minimum and displayed quantities and self-trade prevention.
\<close>

theorem submission_refines_lists:
  assumes "cpp_rep s B" and "e_poPol s = REJECT" and "e_stops s = []" and "within (Submit inp) s"
    and "in_type inp \<noteq> STOP_LIMIT" and "in_type inp \<noteq> STOP_MARKET"
  shows "\<exists>s' ok B' ts. submitOrder inp s = Some s' \<and> submit_spec (e_now s) inp B = Some (ok, B', ts) \<and> cpp_rep s' B' \<and>
    e_stops s' = [] \<and> (if ok then map deal_of (e_trades s') = ts else e_trades s' = e_trades s)"
proof -
  obtain f where "cpp_inv s f {} {} {}" "\<And>sd. cpp_view s f sd = B sd" using assms(1) by (auto simp: cpp_rep_def)
  from submit_lists[OF this assms(2-6)] show ?thesis .
qed

text \<open>A sale of 10 that shows 4, and a purchase of 6 at the same price.\<close>

definition iceberg :: OrderInput where
  "iceberg = (lim 1 SELL 100 10)\<lparr>in_display := 4\<rparr>"

definition iceberg_left :: "int \<Rightarrow> int \<Rightarrow> CppOrder" where
  "iceberg_left n v = default_order\<lparr>co_id := 1, co_side := SELL, co_price := 100, co_qty := 10, co_rem := n, co_display := 4, co_visible := v\<rparr>"

lemma iceberg_rests:
  "map_option (\<lambda>(ok, B, ts). (ok, B BUY, B SELL, ts)) (submit_spec 0 iceberg (\<lambda>_. [])) = Some (True, [], [(100, [iceberg_left 10 4])], [])"
  by code_simp

lemma iceberg_trades:
  "map_option (\<lambda>(ok, B, ts). (ok, B SELL, ts)) (submit_spec 1 (lim 2 BUY 100 6) ((\<lambda>_. [])(SELL := [(100, [iceberg_left 10 4])]))) =
     Some (True, [(100, [(iceberg_left 4 2)\<lparr>co_status := PARTIALLY_FILLED\<rparr>])], [(1, 100, 4), (1, 100, 2)])"
  by code_simp

theorem submission_refines_lists_witness:
  "\<exists>s s' B'. submitOrder (lim 2 BUY 100 6) s = Some s' \<and> cpp_rep s' B' \<and>
    B' SELL = [(100, [(iceberg_left 4 2)\<lparr>co_status := PARTIALLY_FILLED\<rparr>])] \<and> map deal_of (e_trades s') = [(1, 100, 4), (1, 100, 2)]"
proof -
  let ?s0 = "Engine_new REJECT 1"
  have s0: "e_poPol ?s0 = REJECT" "e_stops ?s0 = []" "e_now ?s0 = 0" by (simp_all add: Engine_new_def)
  have w: "within (Submit iceberg) s" "within (Submit (lim 2 BUY 100 6)) s" for s by (simp_all add: iceberg_def lim_def cpp_max_qty_def)
  have ty: "in_type iceberg \<noteq> STOP_LIMIT" "in_type iceberg \<noteq> STOP_MARKET" "in_type (lim 2 BUY 100 6) \<noteq> STOP_LIMIT" "in_type (lim 2 BUY 100 6) \<noteq> STOP_MARKET"
    by (simp_all add: iceberg_def lim_def)
  from submission_refines_lists[OF new_rep s0(1,2) w(1) ty(1,2)] obtain s1 ok B1 ts where
    1: "submitOrder iceberg ?s0 = Some s1" and sp1: "submit_spec 0 iceberg (\<lambda>_. []) = Some (ok, B1, ts)" and r1: "cpp_rep s1 B1" "e_stops s1 = []"
    using s0(3) by auto
  have "map_option (\<lambda>s. (e_now s, e_poPol s)) (submitOrder iceberg ?s0) = Some (1, REJECT)" by code_simp
  then have n1: "e_now s1 = 1" "e_poPol s1 = REJECT" using 1 by simp_all
  have "B1 BUY = []" "B1 SELL = [(100, [iceberg_left 10 4])]" using iceberg_rests sp1 by simp_all
  then have B1: "B1 = (\<lambda>_. [])(SELL := [(100, [iceberg_left 10 4])])"
  proof -
    assume b: "B1 BUY = []" "B1 SELL = [(100, [iceberg_left 10 4])]"
    show ?thesis
    proof
      fix sd show "B1 sd = ((\<lambda>_. [])(SELL := [(100, [iceberg_left 10 4])])) sd" using b by (cases sd) simp_all
    qed
  qed
  from submission_refines_lists[OF r1(1) n1(2) r1(2) w(2) ty(3,4)] obtain s2 ok2 B2 us where
    2: "submitOrder (lim 2 BUY 100 6) s1 = Some s2" and sp2: "submit_spec 1 (lim 2 BUY 100 6) B1 = Some (ok2, B2, us)" and r2: "cpp_rep s2 B2"
    and tr: "if ok2 then map deal_of (e_trades s2) = us else e_trades s2 = e_trades s1"
    unfolding n1(1) by blast
  have "ok2" "B2 SELL = [(100, [(iceberg_left 4 2)\<lparr>co_status := PARTIALLY_FILLED\<rparr>])]" "us = [(1, 100, 4), (1, 100, 2)]"
    using iceberg_trades sp2 by (simp_all add: B1)
  moreover from this have "map deal_of (e_trades s2) = [(1, 100, 4), (1, 100, 2)]" using tr by simp
  ultimately show ?thesis using 2 r2 by (intro exI[of _ s1] exI[of _ s2] exI[of _ B2] conjI)
qed

text \<open>
  C24: in every reachable state in which no stop order waits, the trades of an accepted order that is not a stop order,
  with an id below \<open>2^31\<close> and a quantity up to \<open>2^62\<close>, come best price first, and when
  \<^verbatim>\<open>submitOrder\<close> returns no level is left on the side it traded with that is better than any of its trades.
\<close>

theorem cpp_best_price_first:
  assumes "cpp_reachable s" and "e_stops s = []" and "within (Submit inp) s" and "in_type inp \<noteq> STOP_LIMIT" and "in_type inp \<noteq> STOP_MARKET"
    and "\<not> hasOrder s (in_id inp)" and "validate (e_now s + 1) (built_order inp (e_now s + 1)) = None" and c: "c = oppositeSide (in_side inp)"
  shows "\<exists>s'. submitOrder inp s = Some s' \<and>
    sorted_wrt (\<lambda>t u. \<not> px_before c (ct_price u) (ct_price t)) (e_trades s') \<and>
    (\<forall>p \<in> fst ` set (side_map c s'). \<forall>t \<in> set (e_trades s'). \<not> px_before c p (ct_price t))"
proof -
  obtain f where I: "cpp_inv s f {} {} {}" and pol: "e_poPol s = REJECT" using assms(1) by (rule reachableE)
  define B where "B = cpp_view s f"
  from submit_lists[OF I _ pol assms(2-5), of B] obtain s' ok B' ts where run: "submitOrder inp s = Some s'"
    and sp: "submit_spec (e_now s) inp B = Some (ok, B', ts)" and rep: "cpp_rep s' B'"
    and tr: "if ok then map deal_of (e_trades s') = ts else e_trades s' = e_trades s" by (auto simp: B_def)
  let ?r = "built_order inp (e_now s + 1)"
  have "in_id inp \<notin> book_ids B" using assms(6) rep_ids[OF I _ assms(2), of B] by (simp add: B_def)
  then have ok: "ok" and tk: "take_spec (shape ?r) B = Some (B', ts)" using sp assms(7) by (auto simp: submit_spec_def)
  have "co_side (shape ?r) = in_side inp" by (simp add: built_order_def)
  then have p: "best_first c ts" "none_better c (B' c) ts" using take_prices[OF tk, of c] rep_sorted[OF I, of c] c by (simp_all add: B_def)
  have ts: "ts = map deal_of (e_trades s')" using tr ok by simp
  obtain f' where "cpp_view s' f' c = B' c" using rep by (auto simp: cpp_rep_def)
  then have "map fst (side_map c s') = map fst (B' c)" using view_keys[of s' f' c] by simp
  then have keys: "fst ` set (B' c) = fst ` set (side_map c s')" by (metis list.set_map)
  have px: "fst (snd (deal_of t)) = ct_price t" for t by (simp add: deal_of_def)
  have "sorted_wrt (\<lambda>t u. \<not> px_before c (ct_price u) (ct_price t)) (e_trades s')"
    using p(1) unfolding ts best_first_def sorted_wrt_map px .
  moreover have "\<not> px_before c k (ct_price t)" if "k \<in> fst ` set (side_map c s')" "t \<in> set (e_trades s')" for k t
  proof -
    have "deal_of t \<in> set ts" using that(2) by (simp add: ts)
    from bspec[OF bspec[OF p(2)[unfolded none_better_def keys] that(1)] this] show ?thesis unfolding px .
  qed
  ultimately show ?thesis using run by blast
qed

theorem cpp_best_price_first_witness:
  "\<exists>s s'. submitOrder (lim 3 BUY 100 7) s = Some s' \<and> map ct_price (e_trades s') = [99, 100] \<and>
    sorted_wrt (\<lambda>t u. \<not> px_before SELL (ct_price u) (ct_price t)) (e_trades s')"
proof -
  obtain s1 where s1: "submitOrder (lim 1 SELL 100 5) (Engine_new REJECT 1) = Some s1" "cpp_reachable s1" by (rule one_sell)
  have "map_option (\<lambda>s. (e_stops s, hasOrder s 3, e_now s, map_option (\<lambda>s. map ct_price (e_trades s)) (submitOrder (lim 3 BUY 100 7) s)))
      (do { s \<leftarrow> submitOrder (lim 1 SELL 100 5) (Engine_new REJECT 1); submitOrder (lim 2 SELL 99 5) s }) = Some ([], False, 2, Some [99, 100])"
    by code_simp
  then obtain s2 where s2: "submitOrder (lim 2 SELL 99 5) s1 = Some s2" "e_stops s2 = []" "\<not> hasOrder s2 3" "e_now s2 = 2"
    "map_option (\<lambda>s. map ct_price (e_trades s)) (submitOrder (lim 3 BUY 100 7) s2) = Some [99, 100]" using s1(1) by auto
  have "within (Submit (lim 2 SELL 99 5)) s1" by (rule within_lim) (simp_all add: cpp_max_qty_def)
  from cpp_step[OF s1(2) this] have r2: "cpp_reachable s2" using s2(1) by simp
  have w: "within (Submit (lim 3 BUY 100 7)) s2" by (rule within_lim) (simp_all add: cpp_max_qty_def)
  have "validate (e_now s2 + 1) (built_order (lim 3 BUY 100 7) (e_now s2 + 1)) = None"
    by (simp add: s2(4) validate_def built_order_def lim_def default_order_def)
  with cpp_best_price_first[OF r2 s2(2) w _ _ _ _ refl] s2(3,5) show ?thesis by (force simp: lim_def)
qed

end
