(* ===== verification/Cpp_Amend.thy ===== *)
theory Cpp_Amend
  imports Cpp_Refines
begin

text \<open>
  Amendment in the C++ reference engine on plain lists: a smaller quantity is taken in place, any
  other change takes the order out and submits what it has become, with a new place in time.
\<close>

section \<open>The abstract operation\<close>

definition all_rows :: "cpp_books \<Rightarrow> CppOrder list" where
  "all_rows B = concat (map snd (B BUY)) @ concat (map snd (B SELL))"

text \<open>The order with the id \<open>i\<close> keeps its place with less quantity.\<close>

definition reduce_id :: "u64 \<Rightarrow> int \<Rightarrow> side_lists \<Rightarrow> side_lists" where
  "reduce_id i n L = map (\<lambda>(p, q). (p, map (\<lambda>r. if co_id r = i then r\<lparr>co_rem := n, co_visible := min (co_visible r) n\<rparr> else r) q)) L"

text \<open>What the order is when it comes back.\<close>

definition renewed :: "int \<Rightarrow> int \<Rightarrow> CppOrder \<Rightarrow> CppOrder" where
  "renewed px n r = (let w = r\<lparr>co_price := (if px > 0 then px else co_price r), co_rem := (if n > 0 then n else co_rem r)\<rparr>
     in w\<lparr>co_visible := fresh_visible w\<rparr>)"

text \<open>
  Whether the order is live, the books, and the trades if it was matched anew.  Like \<open>take_spec\<close>, on
  which it rests, it describes post-only orders under the policy \<open>REJECT\<close>.
\<close>

definition amend_spec :: "u64 \<Rightarrow> int \<Rightarrow> int \<Rightarrow> cpp_books \<Rightarrow> (bool \<times> cpp_books \<times> deal list option) option" where
  "amend_spec i px n B =
     (case find (\<lambda>r. co_id r = i) (all_rows B) of
        None \<Rightarrow> Some (False, B, None)
      | Some r \<Rightarrow>
          if 0 < n \<and> n < co_rem r \<and> \<not> (px > 0 \<and> px \<noteq> co_price r) then Some (True, \<lambda>sd. reduce_id i n (B sd), None)
          else if px > 0 \<and> px \<noteq> co_price r \<or> co_rem r < n
          then map_option (\<lambda>(B', ts). (True, B', Some ts)) (take_spec (renewed px n r) (\<lambda>sd. drop_id i (B sd)))
          else Some (True, B, None))"

section \<open>The order in the lists\<close>

lemma find_only: "r \<in> set rs \<Longrightarrow> P r \<Longrightarrow> (\<And>w. w \<in> set rs \<Longrightarrow> P w \<Longrightarrow> w = r) \<Longrightarrow> find P rs = Some r"
proof (induction rs)
  case (Cons a rs)
  show ?case
  proof (cases "P a")
    case True
    then have "a = r" by (intro Cons.prems(3)) simp_all
    then show ?thesis using True by simp
  next
    case False
    then have r: "r \<in> set rs" using Cons.prems(1,2) by auto
    have "find P rs = Some r"
    proof (rule Cons.IH[OF r Cons.prems(2)])
      fix w assume "w \<in> set rs" "P w"
      then show "w = r" by (intro Cons.prems(3)) simp_all
    qed
    then show ?thesis using False by simp
  qed
qed simp

lemma book_ids_rows: "book_ids B = co_id ` set (all_rows B)"
  by (simp add: book_ids_def all_rows_def)

lemma view_rows:
  assumes "\<And>sd. cpp_view s f sd = B sd"
  shows "w \<in> set (all_rows B) \<longleftrightarrow> (\<exists>sd p lv y. (p, lv) \<in> set (side_map sd s) \<and> y \<in> set (f lv) \<and> w = shape (ord s y))"
proof -
  have side: "w \<in> set (concat (map snd (side_view s f m))) \<longleftrightarrow> (\<exists>p lv y. (p, lv) \<in> set m \<and> y \<in> set (f lv) \<and> w = shape (ord s y))" for m
    by (force simp: side_view_def view_def)
  have "w \<in> set (all_rows B) \<longleftrightarrow> (\<exists>sd. w \<in> set (concat (map snd (B sd))))"
    by (simp only: all_rows_def set_append Un_iff) (metis Side.exhaust)
  then show ?thesis unfolding assms[symmetric] cpp_view_def side by blast
qed

lemma find_row:
  assumes I: "cpp_inv s f {} {} {}" and B: "\<And>sd. cpp_view s f sd = B sd" and lv: "(p, lv) \<in> set (side_map sd s)" "x \<in> set (f lv)"
    and ix: "OrderIndex_get (e_idx s) i = Some x"
  shows "find (\<lambda>r. co_id r = i) (all_rows B) = Some (shape (ord s x))"
proof (rule find_only)
  have ids: "co_id (ord s y) = i \<longleftrightarrow> y = x" if "h_orders s y \<noteq> None" for y
    using inv_parts(9)[OF I] ix that unfolding index_ok_def by (metis option.inject)
  have live: "h_orders s y \<noteq> None" if "(q, k) \<in> set (side_map sd' s)" "y \<in> set (f k)" for q k sd' y
    using level_list_chain[OF inv_level(1)[OF I that(1)]] that(2) by blast
  show "shape (ord s x) \<in> set (all_rows B)" unfolding view_rows[OF B] using lv by blast
  show "co_id (shape (ord s x)) = i" using ids[OF live[OF lv]] by simp
  show "w = shape (ord s x)" if w: "w \<in> set (all_rows B)" "co_id w = i" for w
  proof -
    obtain sd' q k y where y: "(q, k) \<in> set (side_map sd' s)" "y \<in> set (f k)" "w = shape (ord s y)" using w(1) unfolding view_rows[OF B] by blast
    then show ?thesis using ids[OF live[OF y(1,2)]] w(2) by simp
  qed
qed

section \<open>In place\<close>

lemma reduce_view:
  assumes I: "cpp_inv s f {} {} {}" and r: "h_orders s x = Some r" and ix: "OrderIndex_get (e_idx s) i = Some x"
  shows "cpp_view (s\<lparr>h_orders := (h_orders s)(x \<mapsto> r\<lparr>co_rem := n, co_visible := min (co_visible r) n\<rparr>)\<rparr>) f sd = reduce_id i n (cpp_view s f sd)"
    (is "cpp_view ?s f sd = _")
proof -
  have ids: "co_id (ord s y) = i \<longleftrightarrow> y = x" if "h_orders s y \<noteq> None" for y
    using inv_parts(9)[OF I] ix that unfolding index_ok_def by (metis option.inject)
  have one: "shape (ord ?s y) = (let w = shape (ord s y) in if co_id w = i then w\<lparr>co_rem := n, co_visible := min (co_visible w) n\<rparr> else w)"
    if "h_orders s y \<noteq> None" for y
    using ids[OF that] r by (cases "y = x") (simp_all add: ord_def)
  have lev: "view ?s (f lv) = map (\<lambda>w. if co_id w = i then w\<lparr>co_rem := n, co_visible := min (co_visible w) n\<rparr> else w) (view s (f lv))"
    if "(p, lv) \<in> set (side_map sd s)" for p lv
    using one level_list_chain[OF inv_level(1)[OF I that]] by (auto simp: view_def Let_def)
  show ?thesis using lev by (auto simp: cpp_view_def side_view_def reduce_id_def)
qed

section \<open>Anew\<close>

lemma shape_amended: "shape (amended px n t r) = renewed px n (shape r)"
  by (simp add: amended_def renewed_def Let_def shape_def core_def fresh_visible_def)

lemma renewed_core: "core r = core w \<Longrightarrow> shape (amended px n t w) = renewed px n (shape r)"
  unfolding shape_amended by (simp only: shape_core[of r w])

lemma requeue_lists:
  assumes I: "cpp_inv s f {} {} {}" and B: "\<And>sd. cpp_view s f sd = B sd" and pol: "e_poPol s = REJECT" and e: "e_stops s = []"
    and lv: "(p, lv) \<in> set (side_map sd s)" "f lv = as @ x # bs" and q: "n \<le> cpp_max_qty" and ix: "OrderIndex_get (e_idx s) i = Some x"
  shows "wp (do { s \<leftarrow> leave_level lv x s; s \<leftarrow> upd_ord x (\<lambda>w. if px > 0 then w\<lparr>co_price := px\<rparr> else w) s;
      s \<leftarrow> upd_ord x (\<lambda>w. if n > 0 then w\<lparr>co_rem := n\<rparr> else w) s; let (t, s) = tick s; s \<leftarrow> upd_ord x (\<lambda>w. w\<lparr>co_timestamp := t\<rparr>) s;
      s \<leftarrow> upd_ord x (\<lambda>w. w\<lparr>co_visible := fresh_visible w\<rparr>) s; s \<leftarrow> processActive MAX_CASCADE x (s\<lparr>e_trades := []\<rparr>); Some (True, s) })
    (\<lambda>(b, s'). b \<and> (\<exists>B' ts. take_spec (renewed px n (shape (ord s x))) (\<lambda>sd. drop_id i (B sd)) = Some (B', ts) \<and> lists_done B' ts s'))"
proof -
  obtain r where r: "h_orders s x = Some r" using inv_level(4)[OF I lv(1), of x] lv(2) by auto
  have rok: "rest_ok sd p r" using inv_level(5)[OF I lv(1), of x] lv(2) r by (simp add: ord_def)
  then have "co_side (ord s x) = sd" using r by (simp add: ord_def rest_ok_def)
  from leave_level_wp[OF I lv this] obtain s2 f2 where 2: "leave_level lv x s = Some s2" and I2: "cpp_inv s2 f2 {x} {} {}"
    and f2: "f2 = f(lv := as @ bs)" and pr: "pruned f2 s s2"
    and env: "env s s2" and fr: "\<forall>y. map_option core (h_orders s2 y) = map_option core (h_orders s y)" by (auto elim!: wpE)
  obtain w where w: "h_orders s2 x = Some w" and co: "core r = core w" using fr[rule_format, of x] r by auto
  have B2: "cpp_view s2 f2 sd = drop_id i (B sd)" for sd
    unfolding B[symmetric] by (rule pruned_views[OF I ix _ lv f2 pr]) (rule core_ord, use fr in blast)
  let ?w = "amended px n (e_now s2 + 1) w"
  let ?s = "s2\<lparr>e_now := e_now s2 + 1, h_orders := (h_orders s2)(x \<mapsto> ?w), e_trades := []\<rparr>"
  have "cpp_inv (s2\<lparr>e_now := e_now s2 + 1\<rparr>) f2 {x} {} {}" using I2 by simp
  from inv_upd[OF this, of x w ?w] w amended_ok(2)[OF rok q co]
  have "cpp_inv (s2\<lparr>e_now := e_now s2 + 1, h_orders := (h_orders s2)(x \<mapsto> ?w)\<rparr>) f2 {x} {} {}" by simp
  then have I3: "cpp_inv ?s f2 {x} {} {}" by (intro inv_trades) (simp_all add: trades_ok_def)
  have B3: "cpp_view ?s f2 sd = drop_id i (B sd)" for sd
    unfolding B2[symmetric] by (rule cpp_view_frame[OF I2]) simp_all
  have x3: "h_orders ?s x = Some ?w" by simp
  have act: "active_ok ?w" by (rule amended_ok(1)[OF rok q co])
  have e3: "e_poPol ?s = REJECT" "e_stops ?s = []" "e_trades ?s = []" using env pol e by (simp_all add: env_def)
  from processActive_lists[OF I3 x3 act e3(1) B3 e3(2,3)] obtain s4 B' ts where 4: "processActive MAX_CASCADE x ?s = Some s4"
    and sp: "take_spec (shape ?w) (\<lambda>sd. drop_id i (B sd)) = Some (B', ts)" and d: "lists_done B' ts s4" by (auto elim!: wpE)
  have "take_spec (renewed px n (shape (ord s x))) (\<lambda>sd. drop_id i (B sd)) = Some (B', ts)"
    using sp renewed_core[OF co] r by (simp add: ord_def)
  then show ?thesis using 2 4 w d by (cases "px > 0"; cases "n > 0") (simp_all add: upd_ord_def tick_def amended_def Let_def)
qed

section \<open>The whole operation\<close>

lemma amend_lists:
  assumes I: "cpp_inv s f {} {} {}" and B: "\<And>sd. cpp_view s f sd = B sd" and pol: "e_poPol s = REJECT" and e: "e_stops s = []"
    and q: "n \<le> cpp_max_qty"
  shows "wp (amendOrder i px n s) (\<lambda>(ok, s'). \<exists>B' ts. amend_spec i px n B = Some (ok, B', ts) \<and> cpp_rep s' B' \<and> e_stops s' = [] \<and>
    (case ts of None \<Rightarrow> e_trades s' = e_trades s | Some us \<Rightarrow> map deal_of (e_trades s') = us))"
proof (cases "OrderIndex_get (e_idx s) i")
  case None
  then have "i \<notin> book_ids B" using rep_ids[OF I B e, of i] by (simp add: hasOrder_def OrderIndex_has_def)
  then have "find (\<lambda>r. co_id r = i) (all_rows B) = None" by (auto simp: book_ids_rows find_None_iff)
  moreover have "cpp_rep s B" using I B by (auto simp: cpp_rep_def)
  ultimately show ?thesis using None e by (simp add: amendOrder_def amend_spec_def)
next
  case (Some x)
  then obtain r where r: "h_orders s x = Some r" using inv_parts(9)[OF I] by (auto simp: index_ok_def)
  obtain sd p lv as bs where lv: "(p, lv) \<in> set (side_map sd s)" "f lv = as @ x # bs" "co_level r = Some lv"
    using resting_at[OF I r] e by auto
  have xs: "x \<in> set (f lv)" by (simp add: lv(2))
  have o: "ord s x = r" using r by (simp add: ord_def)
  note fnd = find_row[OF I B lv(1) xs Some, unfolded o]
  have sp: "amend_spec i px n B =
     (if 0 < n \<and> n < co_rem r \<and> \<not> (px > 0 \<and> px \<noteq> co_price r) then Some (True, \<lambda>sd. reduce_id i n (B sd), None)
      else if px > 0 \<and> px \<noteq> co_price r \<or> co_rem r < n
      then map_option (\<lambda>(B', ts). (True, B', Some ts)) (take_spec (renewed px n (shape r)) (\<lambda>sd. drop_id i (B sd)))
      else Some (True, B, None))"
    unfolding amend_spec_def fnd option.case shape_sel ..
  have pos: "0 < co_rem r" using inv_level(5)[OF I lv(1) xs] o by (simp add: rest_ok_def base_ok_def)
  note st = live_status[OF I r]
  consider (down) "0 < n \<and> n < co_rem r \<and> \<not> (px > 0 \<and> px \<noteq> co_price r)"
    | (anew) "\<not> (0 < n \<and> n < co_rem r \<and> \<not> (px > 0 \<and> px \<noteq> co_price r))" "px > 0 \<and> px \<noteq> co_price r \<or> co_rem r < n"
    | (none) "\<not> (0 < n \<and> n < co_rem r \<and> \<not> (px > 0 \<and> px \<noteq> co_price r))" "\<not> (px > 0 \<and> px \<noteq> co_price r \<or> co_rem r < n)"
    by blast
  then show ?thesis
  proof cases
    case down
    let ?s = "s\<lparr>h_orders := (h_orders s)(x \<mapsto> r\<lparr>co_rem := n, co_visible := min (co_visible r) n\<rparr>)\<rparr>"
    have "cpp_inv ?s f {} {} {}" using amend_down_inv[OF I lv(1) xs r] down by simp
    moreover have "cpp_view ?s f sd = reduce_id i n (B sd)" for sd using reduce_view[OF I r Some] B by simp
    ultimately have "cpp_rep ?s (\<lambda>sd. reduce_id i n (B sd))" unfolding cpp_rep_def by blast
    moreover have "amendOrder i px n s = Some (True, ?s)"
      using Some r lv(3) st down by (auto simp: amendOrder_def Let_def upd_ord_def)
    ultimately show ?thesis using sp down e by simp
  next
    case anew
    have run: "amendOrder i px n s = do { s \<leftarrow> leave_level lv x s; s \<leftarrow> upd_ord x (\<lambda>w. if px > 0 then w\<lparr>co_price := px\<rparr> else w) s;
      s \<leftarrow> upd_ord x (\<lambda>w. if n > 0 then w\<lparr>co_rem := n\<rparr> else w) s; let (t, s) = tick s; s \<leftarrow> upd_ord x (\<lambda>w. w\<lparr>co_timestamp := t\<rparr>) s;
      s \<leftarrow> upd_ord x (\<lambda>w. w\<lparr>co_visible := fresh_visible w\<rparr>) s; s \<leftarrow> processActive MAX_CASCADE x (s\<lparr>e_trades := []\<rparr>); Some (True, s) }"
      using Some r lv(3) st anew pos by (auto simp: amendOrder_def Let_def)
    show ?thesis unfolding run
      by (rule wp_mono[OF requeue_lists[OF I B pol e lv(1,2) q Some]])
        (use sp anew o in \<open>auto simp: lists_done_def\<close>)
  next
    case none
    have "cpp_rep s B" using I B by (auto simp: cpp_rep_def)
    moreover have "amendOrder i px n s = Some (True, s)"
      using Some r lv(3) st none pos by (auto simp: amendOrder_def Let_def)
    ultimately show ?thesis using sp[unfolded if_not_P[OF none(1)] if_not_P[OF none(2)]] e by simp
  qed
qed

text \<open>
  C22: \<^verbatim>\<open>amendOrder\<close> refines \<open>amend_spec\<close>: under the policy \<open>REJECT\<close> for post-only orders, with no stop order
  waiting and a new quantity up to \<open>2^62\<close>, it returns and succeeds exactly for ids in the books;
  a smaller quantity at the same price changes the order in its place; a new price or a larger quantity takes it out
  and matches what it has become like a new order; anything else changes nothing.
\<close>

theorem amendment_refines_lists:
  assumes "cpp_rep s B" and "e_poPol s = REJECT" and "e_stops s = []" and "within (Amend i px n) s"
  shows "\<exists>ok s' B' ts. amendOrder i px n s = Some (ok, s') \<and> amend_spec i px n B = Some (ok, B', ts) \<and> (ok \<longleftrightarrow> i \<in> book_ids B) \<and>
    cpp_rep s' B' \<and> e_stops s' = [] \<and> (case ts of None \<Rightarrow> e_trades s' = e_trades s | Some us \<Rightarrow> map deal_of (e_trades s') = us)"
proof -
  obtain f where I: "cpp_inv s f {} {} {}" and B: "\<And>sd. cpp_view s f sd = B sd" using assms(1) by (auto simp: cpp_rep_def)
  have "n \<le> cpp_max_qty" using assms(4) by simp
  from amend_lists[OF I B assms(2,3) this, of i px] obtain ok s' B' ts where run: "amendOrder i px n s = Some (ok, s')"
    and sp: "amend_spec i px n B = Some (ok, B', ts)" and rest: "cpp_rep s' B'" "e_stops s' = []"
      "case ts of None \<Rightarrow> e_trades s' = e_trades s | Some us \<Rightarrow> map deal_of (e_trades s') = us" by (auto elim!: wpE)
  have "ok \<longleftrightarrow> find (\<lambda>r. co_id r = i) (all_rows B) \<noteq> None"
    using sp by (auto simp: amend_spec_def split: option.splits if_splits)
  then have "ok \<longleftrightarrow> i \<in> book_ids B" by (auto simp: find_None_iff book_ids_rows)
  then show ?thesis using run sp rest by blast
qed

text \<open>A sale of 10 at 100 and a purchase of 7 at 90, which is amended to 12 at 100.\<close>

definition plain_row :: "u64 \<Rightarrow> Side \<Rightarrow> int \<Rightarrow> int \<Rightarrow> CppOrder" where
  "plain_row i sd p n = default_order\<lparr>co_id := i, co_side := sd, co_price := p, co_qty := n, co_rem := n, co_visible := n\<rparr>"

definition two_rows :: cpp_books where
  "two_rows = (\<lambda>_. [])(SELL := [(100, [plain_row 1 SELL 100 10])], BUY := [(90, [plain_row 2 BUY 90 7])])"

lemma sides_ext: "B BUY = C BUY \<Longrightarrow> B SELL = C SELL \<Longrightarrow> B = C" for B C :: "Side \<Rightarrow> 'a"
  by (rule ext) (metis Side.exhaust)

lemma two_rows_specs:
  "map_option (\<lambda>(ok, B, ts). (ok, B BUY, B SELL)) (submit_spec 0 (lim 1 SELL 100 10) (\<lambda>_. [])) = Some (True, [], [(100, [plain_row 1 SELL 100 10])])"
  "map_option (\<lambda>(ok, B, ts). (ok, B BUY, B SELL)) (submit_spec 1 (lim 2 BUY 90 7) ((\<lambda>_. [])(SELL := [(100, [plain_row 1 SELL 100 10])]))) =
     Some (True, [(90, [plain_row 2 BUY 90 7])], [(100, [plain_row 1 SELL 100 10])])"
  "map_option (\<lambda>(ok, B, ts). (ok, B BUY, B SELL, ts)) (amend_spec 2 100 12 two_rows) =
     Some (True, [(100, [(plain_row 2 BUY 100 7)\<lparr>co_rem := 2, co_visible := 2, co_status := PARTIALLY_FILLED\<rparr>])], [], Some [(1, 100, 10)])"
  by code_simp+

lemma two_rows_run:
  "map_option (\<lambda>s. (e_now s, e_poPol s)) (submitOrder (lim 1 SELL 100 10) (Engine_new REJECT 1)) = Some (1, REJECT)"
  "map_option e_poPol (Option.bind (submitOrder (lim 1 SELL 100 10) (Engine_new REJECT 1)) (submitOrder (lim 2 BUY 90 7))) = Some REJECT"
  by code_simp+

lemma two_rows_state:
  obtains s where "cpp_rep s two_rows" and "e_poPol s = REJECT" and "e_stops s = []"
proof -
  let ?s0 = "Engine_new REJECT 1" and ?B1 = "(\<lambda>_. [])(SELL := [(100, [plain_row 1 SELL 100 10])]) :: cpp_books"
  have s0: "e_poPol ?s0 = REJECT" "e_stops ?s0 = []" "e_now ?s0 = 0" by (simp_all add: Engine_new_def)
  have w: "within (Submit (lim 1 SELL 100 10)) s" "within (Submit (lim 2 BUY 90 7)) s" for s by (simp_all add: lim_def cpp_max_qty_def)
  have ty: "in_type (lim i sd p n) \<noteq> STOP_LIMIT" "in_type (lim i sd p n) \<noteq> STOP_MARKET" for i sd p n by (simp_all add: lim_def)
  obtain f0 where f0: "cpp_inv ?s0 f0 {} {} {}" "\<And>sd. cpp_view ?s0 f0 sd = []" using new_rep by (auto simp: cpp_rep_def)
  from submit_lists[OF f0 s0(1,2) w(1) ty] obtain s1 ok1 B1 ts1 where 1: "submitOrder (lim 1 SELL 100 10) ?s0 = Some s1"
    and sp1: "submit_spec 0 (lim 1 SELL 100 10) (\<lambda>_. []) = Some (ok1, B1, ts1)" and r1: "cpp_rep s1 B1" "e_stops s1 = []"
    using s0(3) by auto
  have "B1 = ?B1" by (rule sides_ext) (use two_rows_specs(1) sp1 in simp_all)
  then obtain f1 where f1: "cpp_inv s1 f1 {} {} {}" "\<And>sd. cpp_view s1 f1 sd = ?B1 sd" using r1(1) unfolding cpp_rep_def by blast
  have n1: "e_now s1 = 1" "e_poPol s1 = REJECT" using two_rows_run(1) 1 by simp_all
  from submit_lists[OF f1 n1(2) r1(2) w(2) ty] obtain s2 ok2 B2 ts2 where 2: "submitOrder (lim 2 BUY 90 7) s1 = Some s2"
    and sp2: "submit_spec 1 (lim 2 BUY 90 7) ?B1 = Some (ok2, B2, ts2)" and r2: "cpp_rep s2 B2" "e_stops s2 = []"
    unfolding n1(1) by blast
  have "B2 = two_rows" unfolding two_rows_def by (rule sides_ext) (use two_rows_specs(2) sp2 in simp_all)
  moreover have "e_poPol s2 = REJECT" using two_rows_run(2) 1 2 by simp
  ultimately show thesis using that r2 by blast
qed

theorem amendment_refines_lists_witness:
  "\<exists>s s' B'. cpp_rep s two_rows \<and> amendOrder 2 100 12 s = Some (True, s') \<and> cpp_rep s' B' \<and> B' SELL = [] \<and>
    B' BUY = [(100, [(plain_row 2 BUY 100 7)\<lparr>co_rem := 2, co_visible := 2, co_status := PARTIALLY_FILLED\<rparr>])] \<and>
    map deal_of (e_trades s') = [(1, 100, 10)]"
proof -
  obtain s where s: "cpp_rep s two_rows" "e_poPol s = REJECT" "e_stops s = []" by (rule two_rows_state)
  have w: "within (Amend 2 100 12) s" by (simp add: cpp_max_qty_def)
  from amendment_refines_lists[OF s w] obtain ok s' B' ts where run: "amendOrder 2 100 12 s = Some (ok, s')"
    and sp: "amend_spec 2 100 12 two_rows = Some (ok, B', ts)" and rep: "cpp_rep s' B'"
    and tr: "case ts of None \<Rightarrow> e_trades s' = e_trades s | Some us \<Rightarrow> map deal_of (e_trades s') = us" by blast
  have "ok" "B' SELL = []" "ts = Some [(1, 100, 10)]"
    "B' BUY = [(100, [(plain_row 2 BUY 100 7)\<lparr>co_rem := 2, co_visible := 2, co_status := PARTIALLY_FILLED\<rparr>])]"
    using two_rows_specs(3) sp by simp_all
  moreover from this have "map deal_of (e_trades s') = [(1, 100, 10)]" using tr by simp
  ultimately show ?thesis using s(1) run rep by (intro exI[of _ s] exI[of _ s'] exI[of _ B']) simp
qed

end
