(* ===== verification/Decimal.thy ===== *)
theory Decimal
  imports Main
begin

text \<open>
  Decimal printing, as \<^verbatim>\<open>std::to_string\<close> and the \<^verbatim>\<open>%u\<close>, \<^verbatim>\<open>%d\<close> and \<^verbatim>\<open>%llu\<close> of \<^verbatim>\<open>printf\<close> do it.
\<close>

text \<open>Decimal digits, most significant first.\<close>

fun digits :: "nat \<Rightarrow> nat list" where
  "digits n = (if n < 10 then [n] else digits (n div 10) @ [n mod 10])"

declare digits.simps [simp del]

definition digit_char :: "nat \<Rightarrow> char" where
  "digit_char d = char_of (48 + d)"

definition to_string :: "int \<Rightarrow> string" where
  "to_string i = (if i < 0 then ''-'' else []) @ map digit_char (digits (nat \<bar>i\<bar>))"

lemma digits_less: "d \<in> set (digits n) \<Longrightarrow> d < 10"
  by (induction n rule: digits.induct) (subst (asm) (2) digits.simps; auto split: if_splits)

lemma digits_value: "foldl (\<lambda>a d. a * 10 + int d) 0 (digits n) = int n"
proof (induction n rule: digits.induct)
  case (1 n)
  show ?case
  proof (cases "n < 10")
    case True
    then show ?thesis by (subst digits.simps) simp
  next
    case False
    then have "foldl (\<lambda>a d. a * 10 + int d) 0 (digits n) = int (n div 10) * 10 + int (n mod 10)"
      using 1 by (subst digits.simps) simp
    then show ?thesis by (metis of_nat_add of_nat_mult of_nat_numeral div_mult_mod_eq)
  qed
qed

end
