(* ===== verification/Harness_Json.thy ===== *)
theory Harness_Json
  imports Cpp_Types Decimal
begin

text \<open>
  The JSON reader of the conformance harness,
  \<^verbatim>\<open>cpp_reference/tools/conformance/conformance_harness.cpp\<close>.  A position is an index into the
  text; reading the text at its length gives the null character, as \<^verbatim>\<open>std::string\<close> promises, and
  reading beyond it has no defined result.  A failed \<^verbatim>\<open>assert\<close> and a signed overflow have none
  either.
\<close>

section \<open>Values\<close>

text \<open>\<^verbatim>\<open>JVal\<close> with the one member its tag says is in use; the others have their defaults.\<close>

datatype JVal = JNUL | JBOOL bool | JINT int | JSTR string | JARR "JVal list" | JOBJ "(string \<times> JVal) list"

fun jfield :: "JVal \<Rightarrow> string \<Rightarrow> JVal" where
  "jfield (JOBJ fs) key = (case map_of fs key of Some v \<Rightarrow> v | None \<Rightarrow> JNUL)"
| "jfield _ key = JNUL"

text \<open>\<^verbatim>\<open>operator[](int)\<close>, undefined outside the array.\<close>

fun jindex :: "JVal \<Rightarrow> nat \<Rightarrow> JVal option" where
  "jindex (JARR vs) i = (if i < length vs then Some (vs ! i) else None)"
| "jindex _ i = None"

fun jsize :: "JVal \<Rightarrow> nat" where
  "jsize (JARR vs) = length vs"
| "jsize (JOBJ fs) = length fs"
| "jsize _ = 0"

definition isNull :: "JVal \<Rightarrow> bool" where
  "isNull v \<longleftrightarrow> v = JNUL"

fun asInt :: "JVal \<Rightarrow> int" where
  "asInt (JINT i) = i"
| "asInt _ = 0"

fun asStr :: "JVal \<Rightarrow> string" where
  "asStr (JSTR s) = s"
| "asStr _ = []"

fun asBool :: "JVal \<Rightarrow> bool" where
  "asBool (JBOOL b) = b"
| "asBool _ = False"

section \<open>The reader\<close>

text \<open>\<^verbatim>\<open>s[p]\<close>\<close>

definition char_at :: "string \<Rightarrow> nat \<Rightarrow> char option" where
  "char_at s p = (if p < length s then Some (s ! p) else if p = length s then Some (CHR 0x00) else None)"

function skipWS :: "string \<Rightarrow> nat \<Rightarrow> nat" where
  "skipWS s p = (if p < length s \<and> (s ! p = CHR '' '' \<or> s ! p = CHR 0x09 \<or> s ! p = CHR 0x0A \<or> s ! p = CHR 0x0D)
     then skipWS s (Suc p) else p)"
  by pat_completeness auto
termination by (relation "measure (\<lambda>(s, p). length s - p)") auto

declare skipWS.simps [simp del]

text \<open>The end of a string: a backslash skips the character after it.\<close>

function scan_str :: "string \<Rightarrow> nat \<Rightarrow> nat" where
  "scan_str s p = (if p < length s \<and> s ! p \<noteq> CHR 0x22
     then scan_str s (if s ! p = CHR 0x5C then Suc (Suc p) else Suc p) else p)"
  by pat_completeness auto
termination by (relation "measure (\<lambda>(s, p). length s - p)") auto

declare scan_str.simps [simp del]

text \<open>The end of a key, a loop without a bound.\<close>

partial_function (option) key_end :: "string \<Rightarrow> nat \<Rightarrow> nat option" where
  [code]: "key_end s p = do { c \<leftarrow> char_at s p; if c \<noteq> CHR 0x22 then key_end s (Suc p) else Some p }"

definition is_digit :: "char \<Rightarrow> bool" where
  "is_digit c \<longleftrightarrow> 48 \<le> (of_char c :: nat) \<and> (of_char c :: nat) \<le> 57"

definition mul64 :: "int \<Rightarrow> int \<Rightarrow> int option" where
  "mul64 a b = (if in64 (a * b) then Some (a * b) else None)"

partial_function (option) read_digits :: "string \<Rightarrow> nat \<Rightarrow> int \<Rightarrow> (int \<times> nat) option" where
  [code]: "read_digits s p acc =
     (if p < length s \<and> is_digit (s ! p)
      then do {
        acc \<leftarrow> mul64 acc 10;
        acc \<leftarrow> add64 acc (int (of_char (s ! p)) - 48);
        read_digits s (Suc p) acc
      }
      else Some (acc, p))"

definition read_number :: "string \<Rightarrow> nat \<Rightarrow> (JVal \<times> nat) option" where
  "read_number s p = do {
     let neg = (s ! p = CHR ''-'');
     (i, p) \<leftarrow> read_digits s (if neg then Suc p else p) 0;
     Some (JINT (if neg then - i else i), p)
   }"

text \<open>
  The recursion of \<^verbatim>\<open>parseJSON\<close>: a value, or the rest of an object or array with what has been
  read of it.
\<close>

datatype job = Value | Fields "(string \<times> JVal) list" | Elements "JVal list"

partial_function (option) parse_at :: "job \<Rightarrow> string \<Rightarrow> nat \<Rightarrow> (JVal \<times> nat) option" where
  [code]: "parse_at j s p =
     (case j of
        Value \<Rightarrow>
          (let p = skipWS s p in
           if p \<ge> length s then Some (JNUL, p)
           else if s ! p = CHR 0x22
           then (let e = scan_str s (Suc p) in Some (JSTR (take (e - Suc p) (drop (Suc p) s)), Suc e))
           else if s ! p = CHR ''{''
           then (let p = skipWS s (Suc p) in do {
             c \<leftarrow> char_at s p;
             if c = CHR ''}'' then Some (JOBJ [], Suc p) else parse_at (Fields []) s p })
           else if s ! p = CHR ''[''
           then (let p = skipWS s (Suc p) in do {
             c \<leftarrow> char_at s p;
             if c = CHR '']'' then Some (JARR [], Suc p) else parse_at (Elements []) s p })
           else if take 4 (drop p s) = ''null'' then Some (JNUL, p + 4)
           else if take 4 (drop p s) = ''true'' then Some (JBOOL True, p + 4)
           else if take 5 (drop p s) = ''false'' then Some (JBOOL False, p + 5)
           else read_number s p)
      | Fields fs \<Rightarrow>
          (let p = skipWS s p in do {
             c \<leftarrow> char_at s p;
             if c \<noteq> CHR 0x22 then None else do {
               e \<leftarrow> key_end s (Suc p);
               let key = take (e - Suc p) (drop (Suc p) s);
               let p = skipWS s (Suc e);
               c \<leftarrow> char_at s p;
               if c \<noteq> CHR '':'' then None else do {
                 (v, p) \<leftarrow> parse_at Value s (Suc p);
                 let p = skipWS s p;
                 c \<leftarrow> char_at s p;
                 if c = CHR ''}'' then Some (JOBJ (fs @ [(key, v)]), Suc p)
                 else if c \<noteq> CHR '','' then None
                 else parse_at (Fields (fs @ [(key, v)])) s (Suc p)
               }
             }
           })
      | Elements vs \<Rightarrow> do {
          (v, p) \<leftarrow> parse_at Value s p;
          let p = skipWS s p;
          c \<leftarrow> char_at s p;
          if c = CHR '']'' then Some (JARR (vs @ [v]), Suc p)
          else if c \<noteq> CHR '','' then None
          else parse_at (Elements (vs @ [v])) s (Suc p)
        })"

definition parseJSON :: "string \<Rightarrow> nat \<Rightarrow> (JVal \<times> nat) option" where
  "parseJSON s p = parse_at Value s p"

section \<open>Printing\<close>

fun comma :: "string list \<Rightarrow> string" where
  "comma [] = []"
| "comma [x] = x"
| "comma (x # y # zs) = x @ '','' @ comma (y # zs)"

text \<open>
  A compact printer, the reference for the reader.  It belongs to the model, no printer is in the
  sources; it does not escape quotes and backslashes, so it is used for values without them.
\<close>

fun show_json :: "JVal \<Rightarrow> string" where
  "show_json JNUL = ''null''"
| "show_json (JBOOL b) = (if b then ''true'' else ''false'')"
| "show_json (JINT i) = to_string i"
| "show_json (JSTR s) = [CHR 0x22] @ s @ [CHR 0x22]"
| "show_json (JARR vs) = ''['' @ comma (map show_json vs) @ '']''"
| "show_json (JOBJ fs) = ''{'' @ comma (map (\<lambda>(k, v). [CHR 0x22] @ k @ [CHR 0x22, CHR '':''] @ show_json v) fs) @ ''}''"

text \<open>Values the reader can represent: no quotes or backslashes in strings, numbers of 64 bits.\<close>

fun plain :: "JVal \<Rightarrow> bool" where
  "plain (JINT i) \<longleftrightarrow> \<bar>i\<bar> \<le> 9223372036854775807"
| "plain (JSTR s) \<longleftrightarrow> CHR 0x22 \<notin> set s \<and> CHR 0x5C \<notin> set s"
| "plain (JARR vs) \<longleftrightarrow> (\<forall>v \<in> set vs. plain v)"
| "plain (JOBJ fs) \<longleftrightarrow> (\<forall>(k, v) \<in> set fs. CHR 0x22 \<notin> set k \<and> plain v)"
| "plain _ \<longleftrightarrow> True"

section \<open>Reading what was printed\<close>

lemma drop_at:
  assumes "drop p s = c # r"
  shows "p < length s" "s ! p = c" "char_at s p = Some c" "drop (Suc p) s = r"
proof -
  show lt: "p < length s" using assms by (cases "p < length s") auto
  then have "drop p s = s ! p # drop (Suc p) s" by (rule Cons_nth_drop_Suc[symmetric])
  with assms show "s ! p = c" "drop (Suc p) s = r" by simp_all
  then show "char_at s p = Some c" using lt by (simp add: char_at_def)
qed

lemma drop_past: "drop p s = a @ r \<Longrightarrow> drop (p + length a) s = r"
  by (metis append_eq_conv_conj drop_drop add.commute)

lemma skipWS_id:
  "drop p s = c # r \<Longrightarrow> c \<notin> {CHR '' '', CHR 0x09, CHR 0x0A, CHR 0x0D} \<Longrightarrow> skipWS s p = p"
  by (subst skipWS.simps) (simp add: drop_at)

lemma scan_str_end:
  "drop p s = cs @ CHR 0x22 # r \<Longrightarrow> CHR 0x22 \<notin> set cs \<Longrightarrow> CHR 0x5C \<notin> set cs \<Longrightarrow> scan_str s p = p + length cs"
proof (induction cs arbitrary: p)
  case Nil
  then show ?case by (subst scan_str.simps) (simp add: drop_at[of p s "CHR 0x22" r])
next
  case (Cons c cs)
  then have d: "drop p s = c # (cs @ CHR 0x22 # r)" by simp
  have "scan_str s (Suc p) = Suc p + length cs" using Cons drop_at(4)[OF d] by simp
  then show ?case using Cons.prems drop_at[OF d] by (subst scan_str.simps) auto
qed

lemma key_end_end:
  "drop p s = cs @ CHR 0x22 # r \<Longrightarrow> CHR 0x22 \<notin> set cs \<Longrightarrow> key_end s p = Some (p + length cs)"
proof (induction cs arbitrary: p)
  case Nil
  then show ?case by (subst key_end.simps) (simp add: drop_at(3)[of p s "CHR 0x22" r])
next
  case (Cons c cs)
  then have d: "drop p s = c # (cs @ CHR 0x22 # r)" by simp
  have "key_end s (Suc p) = Some (Suc p + length cs)" using Cons drop_at(4)[OF d] by simp
  then show ?case using Cons.prems drop_at(3)[OF d] by (subst key_end.simps) auto
qed

lemma digit_char_read [simp]: "d < 10 \<Longrightarrow> is_digit (digit_char d) \<and> (of_char (digit_char d) :: nat) = 48 + d"
  by (simp add: is_digit_def digit_char_def of_char_of take_bit_eq_mod)

definition no_digit :: "string \<Rightarrow> bool" where
  "no_digit r \<longleftrightarrow> (case r of [] \<Rightarrow> True | c # _ \<Rightarrow> \<not> is_digit c)"

lemma digits_mono: "0 \<le> a \<Longrightarrow> a \<le> foldl (\<lambda>a d. a * 10 + int d) a ds"
proof (induction ds arbitrary: a)
  case (Cons d ds)
  have "a * 10 + int d \<le> foldl (\<lambda>a d. a * 10 + int d) (a * 10 + int d) ds" using Cons.prems by (intro Cons.IH) simp
  then show ?case using Cons.prems by simp
qed simp

lemma read_digits_end:
  assumes "drop p s = map digit_char ds @ r" and "no_digit r" and "\<forall>d \<in> set ds. d < 10" and "0 \<le> acc"
    and "foldl (\<lambda>a d. a * 10 + int d) acc ds \<le> 9223372036854775807"
  shows "read_digits s p acc = Some (foldl (\<lambda>a d. a * 10 + int d) acc ds, p + length ds)"
  using assms
proof (induction ds arbitrary: p acc)
  case Nil
  then show ?case
    by (cases r) (subst read_digits.simps; auto simp: no_digit_def drop_at)+
next
  case (Cons d ds)
  then have dr: "drop p s = digit_char d # (map digit_char ds @ r)" by simp
  let ?a = "acc * 10 + int d"
  have "?a \<le> 9223372036854775807" using digits_mono[of ?a ds] Cons.prems(4,5) by simp
  then have "mul64 acc 10 = Some (acc * 10)" "add64 (acc * 10) (int d) = Some ?a"
    using Cons.prems(4) by (simp_all add: mul64_def add64_def in64_def)
  moreover have "read_digits s (Suc p) ?a = Some (foldl (\<lambda>a d. a * 10 + int d) ?a ds, Suc p + length ds)"
    using Cons.prems drop_at(4)[OF dr] by (intro Cons.IH) simp_all
  ultimately show ?case using drop_at[OF dr] Cons.prems(3) by (subst read_digits.simps) simp
qed

lemma digit_no_mark:
  "is_digit c \<Longrightarrow> c \<notin> {CHR '' '', CHR 0x09, CHR 0x0A, CHR 0x0D, CHR 0x22, CHR ''{'', CHR ''['', CHR ''n'', CHR ''t'', CHR ''f'', CHR ''-''}"
  by (auto simp: is_digit_def)

lemma read_number_end:
  assumes "drop p s = to_string i @ r" and "no_digit r" and "\<bar>i\<bar> \<le> 9223372036854775807"
  shows "read_number s p = Some (JINT i, p + length (to_string i))"
proof -
  let ?ds = "digits (nat \<bar>i\<bar>)"
  have ds: "\<forall>d \<in> set ?ds. d < 10" by (auto intro: digits_less)
  have v: "foldl (\<lambda>a d. a * 10 + int d) 0 ?ds = \<bar>i\<bar>" by (simp add: digits_value)
  show ?thesis
  proof (cases "i < 0")
    case True
    then have d: "drop p s = CHR ''-'' # (map digit_char ?ds @ r)" using assms(1) by (simp add: to_string_def)
    have "read_digits s (Suc p) 0 = Some (\<bar>i\<bar>, Suc p + length ?ds)"
      using read_digits_end[OF drop_at(4)[OF d] assms(2) ds, of 0] v assms(3) by simp
    then show ?thesis using drop_at(2)[OF d] True by (simp add: read_number_def to_string_def)
  next
    case False
    then have d: "drop p s = map digit_char ?ds @ r" using assms(1) by (simp add: to_string_def)
    obtain a ds where c: "?ds = a # ds" by (cases ?ds) (auto simp: digits.simps[of "nat \<bar>i\<bar>"] split: if_splits)
    then have "s ! p = digit_char a" using d by (intro drop_at(2)[where r = "map digit_char ds @ r"]) simp
    moreover have "digit_char a \<noteq> CHR ''-''" using ds c digit_no_mark[of "digit_char a"] by auto
    moreover have "read_digits s p 0 = Some (\<bar>i\<bar>, p + length ?ds)"
      using read_digits_end[OF d assms(2) ds, of 0] v assms(3) by simp
    ultimately show ?thesis using False by (simp add: read_number_def to_string_def)
  qed
qed

lemma to_string_head: "\<exists>c cs. to_string i = c # cs \<and> (c = CHR ''-'' \<or> is_digit c)"
proof (cases "i < 0")
  case False
  obtain a ds where c: "digits (nat \<bar>i\<bar>) = a # ds"
    by (cases "digits (nat \<bar>i\<bar>)") (auto simp: digits.simps[of "nat \<bar>i\<bar>"] split: if_splits)
  then have "a < 10" using digits_less[of a "nat \<bar>i\<bar>"] by simp
  then show ?thesis using False c by (simp add: to_string_def)
qed (simp add: to_string_def)

text \<open>One step of the reader, with a character the dispatch looks at.\<close>

lemma parse_number:
  assumes d: "drop p s = to_string i @ r" and r: "no_digit r" and i: "\<bar>i\<bar> \<le> 9223372036854775807"
  shows "parse_at Value s p = Some (JINT i, p + length (to_string i))"
proof -
  obtain c cs where c: "to_string i = c # cs" "c = CHR ''-'' \<or> is_digit c" using to_string_head by blast
  then have dr: "drop p s = c # (cs @ r)" using d by simp
  have m: "c \<notin> {CHR '' '', CHR 0x09, CHR 0x0A, CHR 0x0D, CHR 0x22, CHR ''{'', CHR ''['', CHR ''n'', CHR ''t'', CHR ''f''}"
    using c(2)
  proof
    assume "is_digit c"
    then show ?thesis using digit_no_mark[of c] by simp
  qed simp
  then have "skipWS s p = p" by (intro skipWS_id[OF dr]) simp
  then show ?thesis
    using drop_at(1,2)[OF dr] m read_number_end[OF assms] by (subst parse_at.simps) (simp add: dr)
qed

lemma parse_string:
  assumes "drop p s = CHR 0x22 # cs @ CHR 0x22 # r" and "CHR 0x22 \<notin> set cs" "CHR 0x5C \<notin> set cs"
  shows "parse_at Value s p = Some (JSTR cs, p + length cs + 2)"
proof -
  note d = drop_at[OF assms(1)]
  have "skipWS s p = p" by (rule skipWS_id[OF assms(1)]) simp
  moreover have "scan_str s (Suc p) = Suc p + length cs" using scan_str_end[OF d(4)] assms by simp
  ultimately have "parse_at Value s p = Some (JSTR (take (length cs) (drop (Suc p) s)), Suc (Suc p + length cs))"
    using d(1,2) by (subst parse_at.simps) (simp add: Let_def)
  then show ?thesis unfolding d(4) by simp
qed

lemma parse_word:
  "drop p s = ''null'' @ r \<Longrightarrow> parse_at Value s p = Some (JNUL, p + 4)"
  "drop p s = ''true'' @ r \<Longrightarrow> parse_at Value s p = Some (JBOOL True, p + 4)"
  "drop p s = ''false'' @ r \<Longrightarrow> parse_at Value s p = Some (JBOOL False, p + 5)"
proof -
  have d: "parse_at Value s p = (if take 4 (c # cs) = ''null'' then Some (JNUL, p + 4)
      else if take 4 (c # cs) = ''true'' then Some (JBOOL True, p + 4)
      else if take 5 (c # cs) = ''false'' then Some (JBOOL False, p + 5) else read_number s p)"
    if "drop p s = c # cs" "c \<notin> {CHR '' '', CHR 0x09, CHR 0x0A, CHR 0x0D, CHR 0x22, CHR ''{'', CHR ''[''}" for c cs
    using skipWS_id[OF that(1)] drop_at(1,2)[OF that(1)] that by (subst parse_at.simps) simp
  show "drop p s = ''null'' @ r \<Longrightarrow> parse_at Value s p = Some (JNUL, p + 4)" by (simp add: d)
  show "drop p s = ''true'' @ r \<Longrightarrow> parse_at Value s p = Some (JBOOL True, p + 4)" by (simp add: d)
  show "drop p s = ''false'' @ r \<Longrightarrow> parse_at Value s p = Some (JBOOL False, p + 5)" by (simp add: d)
qed

lemma show_head: "\<exists>c cs. show_json v = c # cs \<and> c \<notin> {CHR '' '', CHR 0x09, CHR 0x0A, CHR 0x0D, CHR '']''}"
proof (cases v)
  case (JINT i)
  obtain c cs where c: "to_string i = c # cs" "c = CHR ''-'' \<or> is_digit c" using to_string_head by blast
  from c(2) have "c \<notin> {CHR '' '', CHR 0x09, CHR 0x0A, CHR 0x0D, CHR '']''}"
  proof
    assume "is_digit c"
    then show ?thesis by (auto simp: is_digit_def)
  qed simp
  with c(1) JINT show ?thesis by simp
qed auto

lemma comma_head:
  "vs \<noteq> [] \<Longrightarrow> \<exists>c cs. comma (map show_json vs) = c # cs \<and> c \<notin> {CHR '' '', CHR 0x09, CHR 0x0A, CHR 0x0D, CHR '']''}"
proof -
  assume "vs \<noteq> []"
  then obtain v ws where vs: "vs = v # ws" by (cases vs) auto
  then show ?thesis using show_head[of v] by (cases ws) auto
qed

text \<open>\<open>reads s v\<close>: wherever \<open>v\<close> is printed in \<open>s\<close>, the reader gets it back.\<close>

definition reads :: "string \<Rightarrow> JVal \<Rightarrow> bool" where
  "reads s v \<longleftrightarrow> (\<forall>p r. drop p s = show_json v @ r \<and> no_digit r \<longrightarrow>
     parse_at Value s p = Some (v, p + length (show_json v)))"

lemma readsD: "reads s v \<Longrightarrow> drop p s = show_json v @ r \<Longrightarrow> no_digit r \<Longrightarrow>
    parse_at Value s p = Some (v, p + length (show_json v))"
  by (simp add: reads_def)

lemma no_digit_mark [simp]:
  "no_digit (CHR '','' # r)" "no_digit (CHR '']'' # r)" "no_digit (CHR ''}'' # r)" "no_digit []"
  by (simp_all add: no_digit_def is_digit_def)

lemma parse_elements:
  "\<forall>v \<in> set vs. reads s v \<Longrightarrow> vs \<noteq> [] \<Longrightarrow> drop p s = comma (map show_json vs) @ CHR '']'' # r \<Longrightarrow>
   parse_at (Elements acc) s p = Some (JARR (acc @ vs), p + length (comma (map show_json vs)) + 1)"
proof (induction vs arbitrary: p acc)
  case (Cons v vs)
  let ?q = "p + length (show_json v)"
  show ?case
  proof (cases vs)
    case Nil
    then have dr: "drop p s = show_json v @ CHR '']'' # r" using Cons.prems(3) by simp
    have v: "parse_at Value s p = Some (v, ?q)" using Cons.prems(1) by (intro readsD[OF _ dr]) simp_all
    note e = drop_past[OF dr]
    have "skipWS s ?q = ?q" by (rule skipWS_id[OF e]) simp
    then show ?thesis using v drop_at(3)[OF e] Nil by (subst parse_at.simps) simp
  next
    case (Cons w ws)
    let ?rest = "comma (map show_json vs) @ CHR '']'' # r"
    have dr: "drop p s = show_json v @ CHR '','' # ?rest" using Cons.prems(3) Cons by simp
    have v: "parse_at Value s p = Some (v, ?q)" using Cons.prems(1) by (intro readsD[OF _ dr]) simp_all
    note e = drop_past[OF dr]
    have sk: "skipWS s ?q = ?q" by (rule skipWS_id[OF e]) simp
    have "parse_at (Elements (acc @ [v])) s (Suc ?q) = Some (JARR ((acc @ [v]) @ vs), Suc ?q + length (comma (map show_json vs)) + 1)"
      using Cons.prems(1) Cons drop_at(4)[OF e] by (intro Cons.IH) simp_all
    then show ?thesis using v drop_at(3)[OF e] sk Cons by (subst parse_at.simps) simp
  qed
qed simp

definition show_field :: "string \<times> JVal \<Rightarrow> string" where
  "show_field = (\<lambda>(k, v). [CHR 0x22] @ k @ [CHR 0x22, CHR '':''] @ show_json v)"

lemma parse_field:
  assumes dr: "drop p s = show_field (k, v) @ c # r" and k: "CHR 0x22 \<notin> set k" and v: "reads s v" and c: "c \<in> {CHR '','', CHR ''}''}"
  shows "parse_at (Fields fs) s p =
    (if c = CHR ''}'' then Some (JOBJ (fs @ [(k, v)]), p + length (show_field (k, v)) + 1)
     else parse_at (Fields (fs @ [(k, v)])) s (p + length (show_field (k, v)) + 1))"
proof -
  have d1: "drop p s = CHR 0x22 # (k @ CHR 0x22 # (CHR '':'' # (show_json v @ c # r)))"
    using dr by (simp add: show_field_def)
  note d2 = drop_at(4)[OF d1]
  let ?e = "Suc p + length k"
  note d3 = drop_past[OF d2]
  note d4 = drop_at(4)[OF d3]
  note d5 = drop_at(4)[OF d4]
  let ?q = "Suc (Suc ?e) + length (show_json v)"
  note d6 = drop_past[OF d5]
  have nd: "no_digit (c # r)" using c by auto
  have s1: "skipWS s p = p" by (rule skipWS_id[OF d1]) simp
  have s2: "skipWS s (Suc ?e) = Suc ?e" by (rule skipWS_id[OF d4]) simp
  have s3: "skipWS s ?q = ?q" using c by (intro skipWS_id[OF d6]) auto
  have ke: "key_end s (Suc p) = Some ?e" by (rule key_end_end[OF d2 k])
  have key: "take (?e - Suc p) (drop (Suc p) s) = k" unfolding d2 by simp
  have val: "parse_at Value s (Suc (Suc ?e)) = Some (v, ?q)" by (rule readsD[OF v d5 nd])
  have len: "p + length (show_field (k, v)) + 1 = Suc ?q" by (simp add: show_field_def)
  have step: "parse_at (Fields fs) s p = (if c = CHR ''}'' then Some (JOBJ (fs @ [(k, v)]), Suc ?q)
     else if c \<noteq> CHR '','' then None else parse_at (Fields (fs @ [(k, v)])) s (Suc ?q))"
    unfolding parse_at.simps[of "Fields fs"] job.case Let_def s1 drop_at(3)[OF d1]
    by (simp only: s1 drop_at(3)[OF d1] ke key s2 drop_at(3)[OF d4] val s3 drop_at(3)[OF d6] bind.bind_lunit prod.case simp_thms if_False)
  show ?thesis unfolding step len using c by auto
qed

lemma parse_fields:
  "\<forall>(k, v) \<in> set gs. CHR 0x22 \<notin> set k \<and> reads s v \<Longrightarrow> gs \<noteq> [] \<Longrightarrow>
   drop p s = comma (map show_field gs) @ CHR ''}'' # r \<Longrightarrow>
   parse_at (Fields fs) s p = Some (JOBJ (fs @ gs), p + length (comma (map show_field gs)) + 1)"
proof (induction gs arbitrary: p fs)
  case (Cons g gs)
  obtain k v where g: "g = (k, v)" by (cases g)
  have kv: "CHR 0x22 \<notin> set k" "reads s v" using Cons.prems(1) g by auto
  show ?case
  proof (cases gs)
    case Nil
    then have dr: "drop p s = show_field (k, v) @ CHR ''}'' # r" using Cons.prems(3) g by simp
    show ?thesis using parse_field[OF dr kv] Nil g by simp
  next
    case (Cons w ws)
    let ?rest = "comma (map show_field gs) @ CHR ''}'' # r"
    have dr: "drop p s = show_field (k, v) @ CHR '','' # ?rest" using Cons.prems(3) Cons g by simp
    let ?q = "p + length (show_field (k, v)) + 1"
    have "drop ?q s = ?rest" using drop_at(4)[OF drop_past[OF dr]] by simp
    then have "parse_at (Fields (fs @ [(k, v)])) s ?q = Some (JOBJ ((fs @ [(k, v)]) @ gs), ?q + length (comma (map show_field gs)) + 1)"
      using Cons.prems(1) Cons by (intro Cons.IH) auto
    then show ?thesis using parse_field[OF dr kv] Cons g by simp
  qed
qed simp

lemma parse_open:
  assumes "drop p s = c # e # r" and "c = CHR ''['' \<or> c = CHR ''{''" and "e \<notin> {CHR '' '', CHR 0x09, CHR 0x0A, CHR 0x0D}"
  shows "parse_at Value s p = (if c = CHR ''['' then if e = CHR '']'' then Some (JARR [], p + 2) else parse_at (Elements []) s (Suc p)
     else if e = CHR ''}'' then Some (JOBJ [], p + 2) else parse_at (Fields []) s (Suc p))"
proof -
  note d = drop_at[OF assms(1)] and d' = drop_at[OF drop_at(4)[OF assms(1)]]
  have "skipWS s p = p" using assms(2) by (intro skipWS_id[OF assms(1)]) auto
  moreover have "skipWS s (Suc p) = Suc p" using assms(3) by (intro skipWS_id[OF d(4)]) auto
  ultimately show ?thesis using d(1,2) d'(3) assms(2) by (subst parse_at.simps) auto
qed

lemma reads_plain: "plain v \<Longrightarrow> reads s v"
proof (induction v)
  case JNUL
  show ?case unfolding reads_def using parse_word(1) by fastforce
next
  case (JBOOL b)
  show ?case unfolding reads_def using parse_word(2,3) by (cases b) fastforce+
next
  case (JINT i)
  then show ?case unfolding reads_def using parse_number by simp
next
  case (JSTR cs)
  then show ?case unfolding reads_def using parse_string[of _ s cs] by simp
next
  case (JARR vs)
  show ?case unfolding reads_def
  proof (intro allI impI)
    fix p r assume a: "drop p s = show_json (JARR vs) @ r \<and> no_digit r"
    show "parse_at Value s p = Some (JARR vs, p + length (show_json (JARR vs)))"
    proof (cases "vs = []")
      case True
      then show ?thesis using a parse_open[of p s "CHR ''[''" "CHR '']''" r] by simp
    next
      case False
      then obtain c cs where c: "comma (map show_json vs) = c # cs"
        "c \<notin> {CHR '' '', CHR 0x09, CHR 0x0A, CHR 0x0D, CHR '']''}" using comma_head by blast
      have d: "drop p s = CHR ''['' # c # (cs @ CHR '']'' # r)" using a c(1) by simp
      have "parse_at (Elements []) s (Suc p) = Some (JARR ([] @ vs), Suc p + length (comma (map show_json vs)) + 1)"
        using JARR False drop_at(4)[OF d] c(1) by (intro parse_elements[where r = r]) simp_all
      then show ?thesis using parse_open[OF d] c by simp
    qed
  qed
next
  case (JOBJ fs)
  have f: "show_json (JOBJ fs) = ''{'' @ comma (map show_field fs) @ ''}''" by (simp add: show_field_def)
  show ?case unfolding reads_def
  proof (intro allI impI)
    fix p r assume a: "drop p s = show_json (JOBJ fs) @ r \<and> no_digit r"
    show "parse_at Value s p = Some (JOBJ fs, p + length (show_json (JOBJ fs)))"
    proof (cases "fs = []")
      case True
      then show ?thesis using a parse_open[of p s "CHR ''{''" "CHR ''}''" r] by simp
    next
      case False
      then obtain cs where c: "comma (map show_field fs) = CHR 0x22 # cs"
        by (cases fs; cases "tl fs") (auto simp: show_field_def split: prod.splits)
      have d: "drop p s = CHR ''{'' # CHR 0x22 # (cs @ CHR ''}'' # r)" using a c f by simp
      have "reads s v \<and> CHR 0x22 \<notin> set k" if "(k, v) \<in> set fs" for k v
        using JOBJ.IH[OF that, of v] JOBJ.prems that by auto
      then have "parse_at (Fields []) s (Suc p) = Some (JOBJ ([] @ fs), Suc p + length (comma (map show_field fs)) + 1)"
        using False drop_at(4)[OF d] c by (intro parse_fields[where r = r]) auto
      then show ?thesis using parse_open[OF d] f by simp
    qed
  qed
qed

text \<open>
  C39: reading what \<open>show_json\<close> prints of a value anywhere in a text gives the value back and stops right
  behind it: for numbers of magnitude up to \<open>2^63 - 1\<close>, strings without quotes and backslashes, keys without quotes,
  and arrays and objects of these, nested to any depth, when what follows does not start with a digit.
\<close>

theorem json_round_trip:
  assumes "plain v" and "no_digit rest"
  shows "parseJSON (pre @ show_json v @ rest) (length pre) = Some (v, length pre + length (show_json v))"
  unfolding parseJSON_def by (rule readsD[OF reads_plain[OF assms(1)] _ assms(2)]) simp

theorem json_round_trip_witness:
  "parseJSON ''{\"fills\":[-12,null]}'' 0 = Some (JOBJ [(''fills'', JARR [JINT (-12), JNUL])], 20)"
proof -
  let ?v = "JOBJ [(''fills'', JARR [JINT (-12), JNUL])]"
  have "plain ?v" "no_digit []" by simp_all
  from json_round_trip[OF this, of "[]"] have "parseJSON (show_json ?v) 0 = Some (?v, length (show_json ?v))" by simp
  moreover have "show_json ?v = ''{\"fills\":[-12,null]}''" by code_simp
  ultimately show ?thesis by simp
qed

end
