(* ===== verification/Harness_Replay.thy ===== *)
theory Harness_Replay
  imports Harness_Json Cpp_Match
begin

text \<open>
  The rest of the conformance harness
  (\<^verbatim>\<open>cpp_reference/tools/conformance/conformance_harness.cpp\<close>): the projected state, the two
  listeners, the comparisons, and the replay of a trace against the C++ engine.  Counters are
  integers without a bound; a run has none of the \<open>2^31\<close> steps that would overflow them.
\<close>

section \<open>Projected state\<close>

text \<open>\<^verbatim>\<open>(int)x\<close>: the low 32 bits, signed.\<close>

definition to_int :: "int \<Rightarrow> int" where
  "to_int x = signed_take_bit 31 x"

record OrderEntry =
  oe_id :: int
  oe_rem :: int
  oe_vis :: int

record LevelEntry =
  le_price :: int
  le_orders :: "OrderEntry list"

record FillEntry =
  fe_aggressor :: int
  fe_passive :: int
  fe_price :: int
  fe_qty :: int

record ProjectedState =
  ps_bids :: "LevelEntry list"
  ps_asks :: "LevelEntry list"
  ps_fills :: "FillEntry list"
  ps_lastPx :: int
  ps_orders :: int
  ps_stops :: int

definition fill_of :: "CppTrade \<Rightarrow> FillEntry" where
  "fill_of t = \<lparr>fe_aggressor = to_int (uint (ct_aggressor t)), fe_passive = to_int (uint (ct_passive t)),
     fe_price = to_int (ct_price t), fe_qty = to_int (ct_qty t)\<rparr>"

text \<open>\<^verbatim>\<open>engine.orderCount() - engine.stopCount()\<close> and \<^verbatim>\<open>engine.stopCount()\<close>, cast to \<^verbatim>\<open>int\<close>.\<close>

definition book_count :: "CppEngine \<Rightarrow> int" where
  "book_count s = to_int (uint (orderCount s - of_nat (stopCount s)))"

definition stop_count :: "CppEngine \<Rightarrow> int" where
  "stop_count s = to_int (int (stopCount s))"

definition projectState :: "CppEngine \<Rightarrow> CppTrade list \<Rightarrow> ProjectedState" where
  "projectState s trades = \<lparr>ps_bids = [], ps_asks = [], ps_fills = map fill_of trades,
     ps_lastPx = to_int (lastTradePrice s), ps_orders = book_count s, ps_stops = stop_count s\<rparr>"

section \<open>Listeners\<close>

record ConformanceListener =
  cf_trades :: "CppTrade list"
  cf_accepted :: "u64 list"
  cf_rejected :: "(u64 \<times> string) list"
  cf_cancelled :: "(u64 \<times> string) list"
  cf_triggered :: "u64 list"

fun conformance_event :: "CppEvent \<Rightarrow> ConformanceListener \<Rightarrow> ConformanceListener" where
  "conformance_event (onOrderAccepted r) l = l\<lparr>cf_accepted := cf_accepted l @ [co_id r]\<rparr>"
| "conformance_event (onOrderRejected r why) l = l\<lparr>cf_rejected := cf_rejected l @ [(co_id r, why)]\<rparr>"
| "conformance_event (onTrade t) l = l\<lparr>cf_trades := cf_trades l @ [t]\<rparr>"
| "conformance_event (onOrderCancelled r why) l = l\<lparr>cf_cancelled := cf_cancelled l @ [(co_id r, why)]\<rparr>"
| "conformance_event (onOrderTriggered r) l = l\<lparr>cf_triggered := cf_triggered l @ [co_id r]\<rparr>"
| "conformance_event _ l = l"

definition conformance_clear :: "ConformanceListener \<Rightarrow> ConformanceListener" where
  "conformance_clear l = l\<lparr>cf_trades := [], cf_accepted := [], cf_rejected := [], cf_cancelled := [], cf_triggered := []\<rparr>"

text \<open>
  \<^verbatim>\<open>TrackingListener\<close> keeps the trades since its last \<^verbatim>\<open>clearStep\<close>; \<open>tracked\<close> is what it holds
  after the calls \<open>es\<close> when it held \<open>ts\<close>.
\<close>

fun tracked :: "CppEvent list \<Rightarrow> CppTrade list \<Rightarrow> CppTrade list" where
  "tracked [] ts = ts"
| "tracked (onTrade t # es) ts = tracked es (ts @ [t])"
| "tracked (_ # es) ts = tracked es ts"

section \<open>Shadow book\<close>

record SOrder =
  so_id :: int
  so_rem :: int
  so_vis :: int
  so_side :: Side
  so_price :: int

definition onFilled :: "int \<Rightarrow> SOrder list \<Rightarrow> SOrder list" where
  "onFilled i os = filter (\<lambda>s. so_id s \<noteq> i) os"

definition onCancelled :: "int \<Rightarrow> SOrder list \<Rightarrow> SOrder list" where
  "onCancelled i os = onFilled i os"

definition onResting :: "int \<Rightarrow> Side \<Rightarrow> int \<Rightarrow> int \<Rightarrow> int \<Rightarrow> SOrder list \<Rightarrow> SOrder list" where
  "onResting i sd p n v os = filter (\<lambda>s. so_id s \<noteq> i) os @ [\<lparr>so_id = i, so_rem = n, so_vis = v, so_side = sd, so_price = p\<rparr>]"

fun onPartialFill :: "int \<Rightarrow> int \<Rightarrow> int \<Rightarrow> SOrder list \<Rightarrow> SOrder list" where
  "onPartialFill i n v [] = []"
| "onPartialFill i n v (s # os) = (if so_id s = i then s\<lparr>so_rem := n, so_vis := v\<rparr> # os else s # onPartialFill i n v os)"

text \<open>\<^verbatim>\<open>byPrice[o.price].push_back(...)\<close> on a map ordered as the side's book is.\<close>

fun by_price :: "Side \<Rightarrow> int \<Rightarrow> OrderEntry \<Rightarrow> (int \<times> OrderEntry list) list \<Rightarrow> (int \<times> OrderEntry list) list" where
  "by_price sd p e [] = [(p, [e])]"
| "by_price sd p e ((q, es) # m) = (if p = q then (q, es @ [e]) # m
     else if px_before sd p q then (p, [e]) # (q, es) # m else (q, es) # by_price sd p e m)"

definition group_side :: "Side \<Rightarrow> SOrder list \<Rightarrow> LevelEntry list" where
  "group_side sd os = map (\<lambda>(p, es). \<lparr>le_price = to_int p, le_orders = es\<rparr>)
     (fold (\<lambda>s. by_price sd (so_price s) \<lparr>oe_id = so_id s, oe_rem = so_rem s, oe_vis = so_vis s\<rparr>)
       (filter (\<lambda>s. so_side s = sd) os) [])"

definition getBids :: "SOrder list \<Rightarrow> LevelEntry list" where
  "getBids os = group_side BUY os"

definition getAsks :: "SOrder list \<Rightarrow> LevelEntry list" where
  "getAsks os = group_side SELL os"

section \<open>Comparison\<close>

datatype DivClass = MATCH | BUG | SKIP

record Divergence =
  dv_step :: int
  dv_action :: string
  dv_field :: string
  dv_expected :: string
  dv_actual :: string
  dv_cls :: DivClass

definition bug :: "int \<Rightarrow> string \<Rightarrow> string \<Rightarrow> string \<Rightarrow> string \<Rightarrow> Divergence" where
  "bug step action field e a = \<lparr>dv_step = step, dv_action = action, dv_field = field, dv_expected = e,
     dv_actual = a, dv_cls = BUG\<rparr>"

fun joined :: "string \<Rightarrow> string list \<Rightarrow> string" where
  "joined sep [] = []"
| "joined sep [x] = x"
| "joined sep (x # y # zs) = x @ sep @ joined sep (y # zs)"

definition entry_str :: "OrderEntry \<Rightarrow> string" where
  "entry_str e = to_string (oe_id e) @ '' r='' @ to_string (oe_rem e) @ '' v='' @ to_string (oe_vis e) @ ''}''"

definition levelsToStr :: "LevelEntry list \<Rightarrow> string" where
  "levelsToStr ls = ''['' @ joined '', '' (map (\<lambda>l. to_string (le_price l) @ '':['' @
     joined '','' (map (\<lambda>e. ''{'' @ entry_str e) (le_orders l)) @ '']'') ls) @ '']''"

definition fillToStr :: "FillEntry \<Rightarrow> string" where
  "fillToStr f = ''{'' @ to_string (fe_aggressor f) @ ''x'' @ to_string (fe_passive f) @ '' @'' @
     to_string (fe_price f) @ '' q='' @ to_string (fe_qty f) @ ''}''"

definition fillsToStr :: "FillEntry list \<Rightarrow> string" where
  "fillsToStr fs = ''['' @ joined '', '' (map fillToStr fs) @ '']''"

text \<open>The innermost loop of \<^verbatim>\<open>compareLevels\<close>, over two lists of the same length.\<close>

fun compare_entries :: "int \<Rightarrow> string \<Rightarrow> string \<Rightarrow> nat \<Rightarrow> OrderEntry list \<Rightarrow> OrderEntry list \<Rightarrow> Divergence list" where
  "compare_entries step action fld j (e # es) (a # as) =
     (if oe_id e \<noteq> oe_id a \<or> oe_rem e \<noteq> oe_rem a \<or> oe_vis e \<noteq> oe_vis a
      then [bug step action (fld @ ''['' @ to_string (int j) @ '']'') (''{id='' @ entry_str e) (''{id='' @ entry_str a)] else [])
     @ compare_entries step action fld (Suc j) es as"
| "compare_entries step action fld j _ _ = []"

fun compare_level_list :: "int \<Rightarrow> string \<Rightarrow> string \<Rightarrow> nat \<Rightarrow> LevelEntry list \<Rightarrow> LevelEntry list \<Rightarrow> Divergence list" where
  "compare_level_list step action sd i (e # es) (a # as) =
     (if le_price e \<noteq> le_price a
      then [bug step action (sd @ ''['' @ to_string (int i) @ ''].price'') (to_string (le_price e)) (to_string (le_price a))]
      else if length (le_orders e) \<noteq> length (le_orders a)
      then [bug step action (sd @ ''['' @ to_string (le_price e) @ ''].orderCount'')
              (to_string (int (length (le_orders e)))) (to_string (int (length (le_orders a))))]
      else compare_entries step action (sd @ ''['' @ to_string (le_price e) @ '']'') 0 (le_orders e) (le_orders a))
     @ compare_level_list step action sd (Suc i) es as"
| "compare_level_list step action sd i _ _ = []"

definition compareLevels ::
  "LevelEntry list \<Rightarrow> LevelEntry list \<Rightarrow> int \<Rightarrow> string \<Rightarrow> string \<Rightarrow> Divergence list \<Rightarrow> bool \<times> Divergence list" where
  "compareLevels expected act step action sd divs =
     (if length expected \<noteq> length act
      then (False, divs @ [bug step action (sd @ ''.levelCount'') (to_string (int (length expected))) (to_string (int (length act))),
              bug step action (sd @ ''.expected'') (levelsToStr expected) (levelsToStr act)])
      else (let ds = compare_level_list step action sd 0 expected act in (ds = [], divs @ ds)))"

fun compare_fill_list :: "int \<Rightarrow> string \<Rightarrow> nat \<Rightarrow> FillEntry list \<Rightarrow> FillEntry list \<Rightarrow> Divergence list" where
  "compare_fill_list step action i (e # es) (a # as) =
     (if e \<noteq> a then [bug step action (''fills['' @ to_string (int i) @ '']'') (fillToStr e) (fillToStr a)] else [])
     @ compare_fill_list step action (Suc i) es as"
| "compare_fill_list step action i _ _ = []"

definition compareFills :: "FillEntry list \<Rightarrow> FillEntry list \<Rightarrow> int \<Rightarrow> string \<Rightarrow> Divergence list \<Rightarrow> bool \<times> Divergence list" where
  "compareFills expected act step action divs =
     (if length expected \<noteq> length act
      then (False, divs @ [bug step action ''fills.count'' (to_string (int (length expected))) (to_string (int (length act))),
              bug step action ''fills.expected'' (fillsToStr expected) (fillsToStr act)])
      else (let ds = compare_fill_list step action 0 expected act in (ds = [], divs @ ds)))"

section \<open>Expected state and inputs\<close>

text \<open>\<^verbatim>\<open>for (i = 0; i < jarr.size(); i++) ... jarr[i]\<close>, undefined on a non-empty object.\<close>

fun elements :: "JVal \<Rightarrow> JVal list option" where
  "elements (JARR vs) = Some vs"
| "elements (JOBJ fs) = (if fs = [] then Some [] else None)"
| "elements _ = Some []"

definition int_field :: "JVal \<Rightarrow> string \<Rightarrow> int" where
  "int_field v key = to_int (asInt (jfield v key))"

definition entry_of_json :: "JVal \<Rightarrow> OrderEntry" where
  "entry_of_json v = \<lparr>oe_id = int_field v ''id'', oe_rem = int_field v ''remainingQty'', oe_vis = int_field v ''visibleQty''\<rparr>"

fun levels_of_json :: "JVal list \<Rightarrow> LevelEntry list option" where
  "levels_of_json [] = Some []"
| "levels_of_json (v # vs) = do {
     os \<leftarrow> elements (jfield v ''orders'');
     ls \<leftarrow> levels_of_json vs;
     Some (\<lparr>le_price = int_field v ''price'', le_orders = map entry_of_json os\<rparr> # ls)
   }"

definition parseLevels :: "JVal \<Rightarrow> LevelEntry list option" where
  "parseLevels jarr = do { vs \<leftarrow> elements jarr; levels_of_json vs }"

definition fill_of_json :: "JVal \<Rightarrow> FillEntry" where
  "fill_of_json v = \<lparr>fe_aggressor = int_field v ''aggressorId'', fe_passive = int_field v ''passiveId'',
     fe_price = int_field v ''price'', fe_qty = int_field v ''quantity''\<rparr>"

definition parseFills :: "JVal \<Rightarrow> FillEntry list option" where
  "parseFills jarr = do { vs \<leftarrow> elements jarr; Some (map fill_of_json vs) }"

text \<open>The number under a key, or the default 0 when it is null.\<close>

definition int_or_0 :: "JVal \<Rightarrow> string \<Rightarrow> int" where
  "int_or_0 v key = (if isNull (jfield v key) then 0 else asInt (jfield v key))"

definition order_id_of :: "JVal \<Rightarrow> u64" where
  "order_id_of params = word_of_int (asInt (jfield params ''id''))"

definition mapParams :: "JVal \<Rightarrow> OrderInput" where
  "mapParams params =
     (let ot = asStr (jfield params ''orderType''); tif = asStr (jfield params ''timeInForce'');
          sp = asStr (jfield params ''stpPolicy'')
      in \<lparr>in_id = order_id_of params,
          in_side = (if asStr (jfield params ''side'') = ''BUY'' then BUY else SELL),
          in_type = (if ot = ''LIMIT'' then LIMIT else if ot = ''MARKET'' then MARKET else if ot = ''MTL'' then MARKET_TO_LIMIT
            else if ot = ''STOP_LIMIT'' then STOP_LIMIT else if ot = ''STOP_MARKET'' then STOP_MARKET else LIMIT),
          in_tif = (if tif = ''GTC'' then GTC else if tif = ''IOC'' then IOC else if tif = ''FOK'' then FOK
            else if tif = ''DAY'' then DAY else GTC),
          in_price = int_or_0 params ''price'', in_stop = int_or_0 params ''stopPrice'',
          in_qty = asInt (jfield params ''quantity''), in_minQty = int_or_0 params ''minQty'',
          in_display = int_or_0 params ''displayQty'', in_postOnly = asBool (jfield params ''postOnly''),
          in_expire = 0,
          in_stg = (if asStr (jfield params ''stpGroup'') = ''G1'' then 1 else 0),
          in_stp = (if sp = ''CANCEL_NEWEST'' then CANCEL_NEWEST else if sp = ''CANCEL_OLDEST'' then CANCEL_OLDEST
            else if sp = ''CANCEL_BOTH'' then CANCEL_BOTH else if sp = ''DECREMENT'' then DECREMENT else NONE)\<rparr>)"

section \<open>Replay\<close>

record TraceResult =
  tr_id :: string
  tr_steps :: int
  tr_submitted :: int
  tr_fills :: int
  tr_cancels :: int
  tr_amends :: int
  tr_bookMatches :: int
  tr_fillMatches :: int
  tr_ltpMatches :: int
  tr_divs :: "Divergence list"
  tr_bugs :: int

text \<open>The calls of the engine for one step, and the counters they bump.\<close>

definition dispatch :: "string \<Rightarrow> JVal \<Rightarrow> CppEngine \<times> TraceResult \<Rightarrow> (CppEngine \<times> TraceResult) option" where
  "dispatch action params = (\<lambda>(s, r).
     if action = ''SubmitOrder''
     then do { s \<leftarrow> submitOrder (mapParams params) s; Some (s, r\<lparr>tr_submitted := tr_submitted r + 1\<rparr>) }
     else if action = ''CancelOrder''
     then do { (ok, s) \<leftarrow> cancelOrder (order_id_of params) s; Some (s, r\<lparr>tr_cancels := tr_cancels r + 1\<rparr>) }
     else if action = ''AmendOrder''
     then do {
       (ok, s) \<leftarrow> amendOrder (order_id_of params) (int_or_0 params ''newPrice'') (int_or_0 params ''newQty'') s;
       Some (s, r\<lparr>tr_amends := tr_amends r + 1\<rparr>) }
     else if action = ''TimeAdvance''
     then do { s \<leftarrow> expireOrders (engine_time s + 1) s; Some (s, r) }
     else Some (s, r))"

definition found_bug :: "Divergence \<Rightarrow> TraceResult \<Rightarrow> TraceResult" where
  "found_bug d r = r\<lparr>tr_divs := tr_divs r @ [d], tr_bugs := tr_bugs r + 1\<rparr>"

definition check_fills :: "int \<Rightarrow> string \<Rightarrow> JVal \<Rightarrow> CppTrade list \<Rightarrow> TraceResult \<Rightarrow> TraceResult option" where
  "check_fills si action v trades r =
     (if isNull v then Some r
      else do {
        expected \<leftarrow> parseFills v;
        let act = map fill_of trades;
        let r = r\<lparr>tr_fills := tr_fills r + int (length act)\<rparr>;
        let (ok, divs) = compareFills expected act si action (tr_divs r);
        let r = r\<lparr>tr_divs := divs\<rparr>;
        Some (if ok then r\<lparr>tr_fillMatches := tr_fillMatches r + 1\<rparr> else r\<lparr>tr_bugs := tr_bugs r + 1\<rparr>)
      })"

definition check_price :: "int \<Rightarrow> string \<Rightarrow> JVal \<Rightarrow> CppEngine \<Rightarrow> TraceResult \<Rightarrow> TraceResult" where
  "check_price si action v s r =
     (if isNull v then r
      else if to_int (asInt v) = to_int (lastTradePrice s) then r\<lparr>tr_ltpMatches := tr_ltpMatches r + 1\<rparr>
      else found_bug (bug si action ''lastTradePrice'' (to_string (to_int (asInt v))) (to_string (to_int (lastTradePrice s)))) r)"

definition check_count :: "int \<Rightarrow> string \<Rightarrow> JVal \<Rightarrow> CppEngine \<Rightarrow> TraceResult \<Rightarrow> TraceResult" where
  "check_count si action v s r =
     (if isNull v then r
      else if to_int (asInt v) \<noteq> book_count s
      then found_bug (bug si action ''orderCount'' (to_string (to_int (asInt v))) (to_string (book_count s))) r
      else r\<lparr>tr_bookMatches := tr_bookMatches r + 1\<rparr>)"

definition check_stops :: "int \<Rightarrow> string \<Rightarrow> JVal \<Rightarrow> CppEngine \<Rightarrow> TraceResult \<Rightarrow> TraceResult" where
  "check_stops si action v s r =
     (if isNull v then r
      else if to_int (asInt v) \<noteq> stop_count s
      then found_bug (bug si action ''stopCount'' (to_string (to_int (asInt v))) (to_string (stop_count s))) r
      else r)"

definition replay_step :: "int \<Rightarrow> JVal \<Rightarrow> CppEngine \<times> TraceResult \<Rightarrow> (CppEngine \<times> TraceResult) option" where
  "replay_step si step = (\<lambda>(s, r). do {
     let action = asStr (jfield step ''action'');
     let expected = jfield step ''projected_state'';
     let n = length (e_log s);
     (s, r) \<leftarrow> dispatch action (jfield step ''params'') (s, r);
     r \<leftarrow> check_fills si action (jfield step ''fills'') (tracked (drop n (e_log s)) []) r;
     let r = check_price si action (jfield expected ''lastTradePrice'') s r;
     let r = check_count si action (jfield expected ''orderCount'') s r;
     let r = check_stops si action (jfield expected ''stopCount'') s r;
     Some (s, r)
   })"

fun replay_steps :: "int \<Rightarrow> JVal list \<Rightarrow> CppEngine \<times> TraceResult \<Rightarrow> (CppEngine \<times> TraceResult) option" where
  "replay_steps si [] sr = Some sr"
| "replay_steps si (v # vs) sr = do { sr \<leftarrow> replay_step si v sr; replay_steps (si + 1) vs sr }"

fun replay_seed :: "JVal list \<Rightarrow> CppEngine \<times> TraceResult \<Rightarrow> (CppEngine \<times> TraceResult) option" where
  "replay_seed [] sr = Some sr"
| "replay_seed (v # vs) sr = do {
     s \<leftarrow> submitOrder (mapParams v) (fst sr);
     replay_seed vs (s, (snd sr)\<lparr>tr_submitted := tr_submitted (snd sr) + 1\<rparr>)
   }"

definition seed_orders :: "JVal \<Rightarrow> JVal list" where
  "seed_orders trace = (case jfield (jfield trace ''metadata'') ''seed'' of JARR vs \<Rightarrow> vs | _ \<Rightarrow> [])"

definition replayTrace :: "JVal \<Rightarrow> TraceResult option" where
  "replayTrace trace = do {
     let r = \<lparr>tr_id = asStr (jfield (jfield trace ''metadata'') ''trace_id''), tr_steps = 0, tr_submitted = 0, tr_fills = 0,
       tr_cancels = 0, tr_amends = 0, tr_bookMatches = 0, tr_fillMatches = 0, tr_ltpMatches = 0, tr_divs = [], tr_bugs = 0\<rparr>;
     (s, r) \<leftarrow> replay_seed (seed_orders trace) (Engine_new REJECT 1, r);
     let r = r\<lparr>tr_steps := to_int (int (jsize (jfield trace ''steps'')))\<rparr>;
     steps \<leftarrow> elements (jfield trace ''steps'');
     (s, r) \<leftarrow> replay_steps 1 steps (s, r);
     Some r
   }"

section \<open>What a passing trace means\<close>

text \<open>
  The reference: run the seed and the steps on the engine alone, and ask of every step that each
  expectation the trace states is met.
\<close>

definition run_step :: "JVal \<Rightarrow> CppEngine \<Rightarrow> CppEngine option" where
  "run_step step s =
     (let action = asStr (jfield step ''action''); params = jfield step ''params'' in
      if action = ''SubmitOrder'' then submitOrder (mapParams params) s
      else if action = ''CancelOrder'' then map_option snd (cancelOrder (order_id_of params) s)
      else if action = ''AmendOrder''
      then map_option snd (amendOrder (order_id_of params) (int_or_0 params ''newPrice'') (int_or_0 params ''newQty'') s)
      else if action = ''TimeAdvance'' then expireOrders (engine_time s + 1) s
      else Some s)"

definition expects :: "JVal \<Rightarrow> string \<Rightarrow> int \<Rightarrow> bool" where
  "expects v key i \<longleftrightarrow> isNull (jfield v key) \<or> to_int (asInt (jfield v key)) = i"

definition met :: "JVal \<Rightarrow> CppTrade list \<Rightarrow> CppEngine \<Rightarrow> bool" where
  "met step trades s \<longleftrightarrow>
     (isNull (jfield step ''fills'') \<or> parseFills (jfield step ''fills'') = Some (map fill_of trades)) \<and>
     (let ps = projectState s trades; e = jfield step ''projected_state'' in
      expects e ''lastTradePrice'' (ps_lastPx ps) \<and> expects e ''orderCount'' (ps_orders ps) \<and> expects e ''stopCount'' (ps_stops ps))"

fun conforms :: "JVal list \<Rightarrow> CppEngine \<Rightarrow> bool" where
  "conforms [] s \<longleftrightarrow> True"
| "conforms (v # vs) s \<longleftrightarrow> (case run_step v s of
     None \<Rightarrow> False
   | Some s' \<Rightarrow> met v (tracked (drop (length (e_log s)) (e_log s')) []) s' \<and> conforms vs s')"

lemma compare_fill_list_empty:
  "length es = length as \<Longrightarrow> compare_fill_list step action i es as = [] \<longleftrightarrow> es = as"
  by (induction es as arbitrary: i rule: list_induct2) auto

lemma compareFills_ok:
  "compareFills es as step action divs = (ok, divs') \<Longrightarrow>
   (ok \<longleftrightarrow> es = as) \<and> (ok \<longrightarrow> divs' = divs) \<and> (\<not> ok \<longrightarrow> divs' \<noteq> [])"
  by (auto simp: compareFills_def Let_def compare_fill_list_empty split: if_splits)

text \<open>The counter of bugs is zero exactly when no divergence is recorded.\<close>

definition consistent :: "TraceResult \<Rightarrow> bool" where
  "consistent r \<longleftrightarrow> 0 \<le> tr_bugs r \<and> (tr_bugs r = 0 \<longleftrightarrow> tr_divs r = [])"

text \<open>A check with outcome \<open>ok\<close>: it keeps a clean result clean exactly when it succeeds.\<close>

definition checked :: "TraceResult \<Rightarrow> TraceResult \<Rightarrow> bool \<Rightarrow> bool" where
  "checked r r' ok \<longleftrightarrow> (consistent r \<longrightarrow> consistent r' \<and> (tr_bugs r' = 0 \<longleftrightarrow> tr_bugs r = 0 \<and> ok))"

lemma checked_trans: "checked r r' a \<Longrightarrow> checked r' r'' b \<Longrightarrow> checked r r'' (a \<and> b)"
  by (auto simp: checked_def)

lemma checked_refl [simp]: "checked r r True"
  by (simp add: checked_def)

lemma checked_bug: "checked r (found_bug d r) False"
  by (auto simp: checked_def consistent_def found_bug_def)

lemma checked_price: "checked r (check_price si a (jfield e k) s r) (expects e k (to_int (lastTradePrice s)))"
  by (auto simp: check_price_def expects_def checked_bug) (auto simp: checked_def consistent_def)

lemma checked_count: "checked r (check_count si a (jfield e k) s r) (expects e k (book_count s))"
  by (auto simp: check_count_def expects_def checked_bug) (auto simp: checked_def consistent_def)

lemma checked_stops: "checked r (check_stops si a (jfield e k) s r) (expects e k (stop_count s))"
  by (auto simp: check_stops_def expects_def checked_bug)

lemma checked_fills:
  assumes "check_fills si a v ts r = Some r'"
  shows "checked r r' (isNull v \<or> parseFills v = Some (map fill_of ts))"
proof (cases "isNull v")
  case True
  then show ?thesis using assms by (auto simp: check_fills_def checked_def)
next
  case False
  then obtain es where es: "parseFills v = Some es" using assms by (auto simp: check_fills_def split: bind_splits)
  obtain ok divs where c: "compareFills es (map fill_of ts) si a (tr_divs r) = (ok, divs)" by fastforce
  from compareFills_ok[OF c] False es assms c show ?thesis
    by (cases ok) (auto simp: check_fills_def Let_def checked_def consistent_def)
qed

lemma dispatch_run:
  assumes "dispatch (asStr (jfield v ''action'')) (jfield v ''params'') (s, r) = Some (s', r')"
  shows "run_step v s = Some s' \<and> checked r r' True"
proof -
  have bump: "checked r (r\<lparr>tr_submitted := n\<rparr>) True" "checked r (r\<lparr>tr_cancels := n\<rparr>) True"
    "checked r (r\<lparr>tr_amends := n\<rparr>) True" for n
    by (auto simp: checked_def consistent_def)
  show ?thesis using assms unfolding dispatch_def run_step_def Let_def
    by (auto simp: bump split: if_splits bind_splits)
qed

lemma step_met:
  assumes "replay_step si v (s, r) = Some (s', r')"
  shows "run_step v s = Some s' \<and> checked r r' (met v (tracked (drop (length (e_log s)) (e_log s')) []) s')"
proof -
  let ?a = "asStr (jfield v ''action'')" and ?e = "jfield v ''projected_state''"
  let ?ts = "tracked (drop (length (e_log s)) (e_log s')) []"
  obtain r1 r2 where d: "dispatch ?a (jfield v ''params'') (s, r) = Some (s', r1)"
    and f: "check_fills si ?a (jfield v ''fills'') ?ts r1 = Some r2"
    and r': "r' = check_stops si ?a (jfield ?e ''stopCount'') s' (check_count si ?a (jfield ?e ''orderCount'') s'
      (check_price si ?a (jfield ?e ''lastTradePrice'') s' r2))"
    using assms by (auto simp: replay_step_def Let_def split: bind_splits)
  note run = dispatch_run[OF d]
  have "checked r r' (((((True \<and> (isNull (jfield v ''fills'') \<or> parseFills (jfield v ''fills'') = Some (map fill_of ?ts))) \<and>
      expects ?e ''lastTradePrice'' (to_int (lastTradePrice s'))) \<and> expects ?e ''orderCount'' (book_count s')) \<and>
      expects ?e ''stopCount'' (stop_count s')))"
    unfolding r' by (intro checked_trans[OF _ checked_stops] checked_trans[OF _ checked_count] checked_trans[OF _ checked_price]
      checked_trans[OF conjunct2[OF run] checked_fills[OF f]])
  then show ?thesis using run by (simp add: met_def projectState_def Let_def conj_assoc)
qed

lemma steps_conform:
  "replay_steps si vs (s, r) = Some (s', r') \<Longrightarrow> checked r r' (conforms vs s)"
proof (induction vs arbitrary: si s r)
  case Nil
  then show ?case by (simp add: checked_def)
next
  case (Cons v vs)
  then obtain s1 r1 where v: "replay_step si v (s, r) = Some (s1, r1)"
    and vs: "replay_steps (si + 1) vs (s1, r1) = Some (s', r')" by (auto split: bind_splits)
  from step_met[OF v] have "run_step v s = Some s1"
    "checked r r1 (met v (tracked (drop (length (e_log s)) (e_log s1)) []) s1)" by simp_all
  then show ?case using checked_trans[OF _ Cons.IH[OF vs]] by simp
qed

fun submit_seed :: "JVal list \<Rightarrow> CppEngine \<Rightarrow> CppEngine option" where
  "submit_seed [] s = Some s"
| "submit_seed (v # vs) s = do { s \<leftarrow> submitOrder (mapParams v) s; submit_seed vs s }"

lemma seed_run: "replay_seed vs (s, r) = Some (s', r') \<Longrightarrow> submit_seed vs s = Some s' \<and> checked r r' True"
proof (induction vs arbitrary: s r)
  case Nil
  then show ?case by (simp add: checked_def)
next
  case (Cons v vs)
  then obtain s1 where s1: "submitOrder (mapParams v) s = Some s1"
    and vs: "replay_seed vs (s1, r\<lparr>tr_submitted := tr_submitted r + 1\<rparr>) = Some (s', r')" by (auto split: bind_splits)
  have "checked r (r\<lparr>tr_submitted := tr_submitted r + 1\<rparr>) True" by (auto simp: checked_def consistent_def)
  with Cons.IH[OF vs] s1 show ?case using checked_trans by fastforce
qed

text \<open>
  When the harness finishes the replay of a trace, it counts no bug exactly when it recorded
  no divergence, and exactly when the engine, run on the seed and the steps alone, met every
  expectation on fills, last price, resting orders and pending stops that the trace states.
\<close>

theorem replay_verdict_is_conformance:
  assumes "replayTrace trace = Some r"
  shows "\<exists>s steps. submit_seed (seed_orders trace) (Engine_new REJECT 1) = Some s \<and>
    elements (jfield trace ''steps'') = Some steps \<and>
    0 \<le> tr_bugs r \<and> (tr_bugs r = 0 \<longleftrightarrow> conforms steps s) \<and> (tr_bugs r = 0 \<longleftrightarrow> tr_divs r = [])"
proof -
  let ?r = "\<lparr>tr_id = asStr (jfield (jfield trace ''metadata'') ''trace_id''), tr_steps = 0, tr_submitted = 0, tr_fills = 0,
    tr_cancels = 0, tr_amends = 0, tr_bookMatches = 0, tr_fillMatches = 0, tr_ltpMatches = 0, tr_divs = [], tr_bugs = 0\<rparr>"
  let ?n = "to_int (int (jsize (jfield trace ''steps'')))"
  obtain s r1 steps s' where seed: "replay_seed (seed_orders trace) (Engine_new REJECT 1, ?r) = Some (s, r1)"
    and steps: "elements (jfield trace ''steps'') = Some steps" "replay_steps 1 steps (s, r1\<lparr>tr_steps := ?n\<rparr>) = Some (s', r)"
    using assms by (auto simp: replayTrace_def Let_def split: bind_splits)
  have "checked ?r r1 True" using seed_run[OF seed] by simp
  moreover have "consistent ?r" by (simp add: consistent_def)
  ultimately have "consistent (r1\<lparr>tr_steps := ?n\<rparr>)" "tr_bugs (r1\<lparr>tr_steps := ?n\<rparr>) = 0"
    by (auto simp: checked_def consistent_def)
  with steps_conform[OF steps(2)] have "consistent r" "tr_bugs r = 0 \<longleftrightarrow> conforms steps s"
    by (auto simp: checked_def)
  then show ?thesis using seed_run[OF seed] steps(1) by (auto simp: consistent_def)
qed

text \<open>A trace of one order that trades with nothing, and the same with a wrong expectation.\<close>

definition tiny_trace :: "int \<Rightarrow> JVal" where
  "tiny_trace n = JOBJ [(''steps'', JARR [JOBJ [(''action'', JSTR ''SubmitOrder''),
     (''params'', JOBJ [(''id'', JINT 1), (''side'', JSTR ''BUY''), (''orderType'', JSTR ''LIMIT''),
       (''timeInForce'', JSTR ''GTC''), (''price'', JINT 100), (''quantity'', JINT 5)]),
     (''fills'', JARR []), (''projected_state'', JOBJ [(''lastTradePrice'', JINT 0), (''orderCount'', JINT n)])]])]"

lemma tiny_trace_runs:
  "map_option tr_bugs (replayTrace (tiny_trace 1)) = Some 0" "map_option tr_bugs (replayTrace (tiny_trace 2)) = Some 1"
  by code_simp+

theorem replay_verdict_is_conformance_witness:
  "\<exists>steps. elements (jfield (tiny_trace 1) ''steps'') = Some steps \<and> conforms steps (Engine_new REJECT 1)"
proof -
  obtain r where r: "replayTrace (tiny_trace 1) = Some r" "tr_bugs r = 0"
    using tiny_trace_runs(1) by auto
  have "seed_orders (tiny_trace 1) = []" by (simp add: seed_orders_def tiny_trace_def)
  with replay_verdict_is_conformance[OF r(1)] r(2) show ?thesis by auto
qed

end
