(* ===== verification/Harness_Main.thy ===== *)
theory Harness_Main
  imports Harness_Replay
begin

text \<open>
  The \<^verbatim>\<open>main\<close> function of \<^verbatim>\<open>conformance_harness.cpp\<close>.  The file system is an argument: the text a
  path opens to, or nothing.  The two output streams are lists of lines.
\<close>

section \<open>Printing\<close>



section \<open>The report\<close>











section \<open>What the exit code means\<close>

















end
