(* ===== verification/Amcc_Hash.thy ===== *)
theory Amcc_Hash
  imports Linked
begin

text \<open>
  The generated hash index \<^verbatim>\<open>scripts/gen/thash_gen.c\<close>.  The rows are the caller's; the index
  links them into eight chains and every walk along a chain takes at most eight steps.
  Row arguments are valid pointers, as the functions dereference them without a test.
\<close>

section \<open>Data\<close>

record item_row =
  ir_id :: u32
  ir_qty :: u32
  ind_item_next :: "nat option"
  ind_item_inhash :: bool

text \<open>The global \<^verbatim>\<open>g_ItemDb\<close> with the memory its pointers lead to; only buckets below 8 are read.\<close>

record ItemDb =
  item_rows :: "nat \<Rightarrow> item_row"
  ind_item_buckets :: "u32 \<Rightarrow> nat option"
  ind_item_n :: u32

definition upd_item :: "nat \<Rightarrow> (item_row \<Rightarrow> item_row) \<Rightarrow> ItemDb \<Rightarrow> ItemDb" where
  "upd_item r f s = s\<lparr>item_rows := (item_rows s)(r := f (item_rows s r))\<rparr>"

definition set_bucket :: "u32 \<Rightarrow> nat option \<Rightarrow> ItemDb \<Rightarrow> ItemDb" where
  "set_bucket b p s = s\<lparr>ind_item_buckets := (ind_item_buckets s)(b := p)\<rparr>"

text \<open>\<^verbatim>\<open>key & 7u\<close>\<close>

definition item_bucket :: "u32 \<Rightarrow> u32" where
  "item_bucket key = and key 7"

section \<open>Operations\<close>

definition ItemDb_ind_item_Init :: "ItemDb \<Rightarrow> ItemDb" where
  "ItemDb_ind_item_Init s =
     s\<lparr>ind_item_buckets := (\<lambda>b. if b < 8 then None else ind_item_buckets s b), ind_item_n := 0\<rparr>"

text \<open>The loop of \<^verbatim>\<open>Find\<close>, with its argument steps to go.\<close>

fun find_steps :: "nat \<Rightarrow> ItemDb \<Rightarrow> u32 \<Rightarrow> nat option \<Rightarrow> nat option \<Rightarrow> nat option" where
  "find_steps 0 s key p hit = hit"
| "find_steps (Suc k) s key p hit =
     (if hit = None
      then (case p of
              None \<Rightarrow> find_steps k s key p hit
            | Some q \<Rightarrow> find_steps k s key (ind_item_next (item_rows s q))
                (if ir_id (item_rows s q) = key then Some q else hit))
      else find_steps k s key p hit)"

definition ItemDb_ind_item_Find :: "u32 \<Rightarrow> ItemDb \<Rightarrow> nat option" where
  "ItemDb_ind_item_Find key s = find_steps 8 s key (ind_item_buckets s (item_bucket key)) None"

definition ItemDb_ind_item_InsertMaybe :: "nat \<Rightarrow> ItemDb \<Rightarrow> bool \<times> ItemDb" where
  "ItemDb_ind_item_InsertMaybe row s =
     (if \<not> ind_item_inhash (item_rows s row)
      then (let p = ItemDb_ind_item_Find (ir_id (item_rows s row)) s
            in if p = None
               then (let b = item_bucket (ir_id (item_rows s row));
                         s = upd_item row (\<lambda>r. r\<lparr>ind_item_next := ind_item_buckets s b\<rparr>) s;
                         s = upd_item row (\<lambda>r. r\<lparr>ind_item_inhash := True\<rparr>) s;
                         s = set_bucket b (Some row) s
                     in (True, s\<lparr>ind_item_n := ind_item_n s + 1\<rparr>))
               else (False, s))
      else (False, s))"

text \<open>The loop of \<^verbatim>\<open>Remove\<close>: it does not stop at the row, and keeps the predecessor it saw.\<close>

fun prev_steps :: "nat \<Rightarrow> ItemDb \<Rightarrow> nat \<Rightarrow> nat option \<Rightarrow> nat option \<Rightarrow> nat option" where
  "prev_steps 0 s row p prev = prev"
| "prev_steps (Suc k) s row p prev =
     (case p of
        None \<Rightarrow> prev_steps k s row p prev
      | Some q \<Rightarrow> prev_steps k s row (ind_item_next (item_rows s q))
          (if ind_item_next (item_rows s q) = Some row then Some q else prev))"

definition ItemDb_ind_item_Remove :: "nat \<Rightarrow> ItemDb \<Rightarrow> ItemDb" where
  "ItemDb_ind_item_Remove row s =
     (if ind_item_inhash (item_rows s row)
      then (let b = item_bucket (ir_id (item_rows s row));
                prev = prev_steps 8 s row (ind_item_buckets s b) None;
                nx = ind_item_next (item_rows s row);
                s = (case prev of
                       Some q \<Rightarrow> upd_item q (\<lambda>r. r\<lparr>ind_item_next := nx\<rparr>) s
                     | None \<Rightarrow> set_bucket b nx s);
                s = upd_item row (\<lambda>r. r\<lparr>ind_item_next := None\<rparr>) s;
                s = upd_item row (\<lambda>r. r\<lparr>ind_item_inhash := False\<rparr>) s
            in s\<lparr>ind_item_n := ind_item_n s - 1\<rparr>)
      else s)"

definition ItemDb_ind_item_N :: "ItemDb \<Rightarrow> u32" where
  "ItemDb_ind_item_N s = ind_item_n s"

section \<open>What the walks compute\<close>

definition item_next :: "ItemDb \<Rightarrow> nat \<Rightarrow> nat option" where
  "item_next s r = ind_item_next (item_rows s r)"

definition item_id :: "ItemDb \<Rightarrow> nat \<Rightarrow> u32" where
  "item_id s r = ir_id (item_rows s r)"

definition item_in :: "ItemDb \<Rightarrow> nat \<Rightarrow> bool" where
  "item_in s r = ind_item_inhash (item_rows s r)"

lemma find_steps_hit: "find_steps k s key p (Some h) = Some h"
  by (induction k arbitrary: p) simp_all

lemma find_steps_chain:
  "chain (item_next s) p xs \<Longrightarrow> find_steps k s key p None = find (\<lambda>q. item_id s q = key) (take k xs)"
proof (induction k arbitrary: p xs)
  case (Suc k)
  then show ?case
    by (cases xs) (auto simp: find_steps_hit item_next_def item_id_def Suc.IH[where xs = "[]", simplified])
qed simp

lemma chain_next_in_tl: "chain nx p xs \<Longrightarrow> y \<in> set xs \<Longrightarrow> nx y = Some r \<Longrightarrow> r \<in> set (tl xs)"
proof (induction xs arbitrary: p)
  case (Cons x xs)
  show ?case
  proof (cases "y = x")
    case True
    with Cons.prems show ?thesis by (auto simp: chain_Some)
  next
    case False
    with Cons.prems have "r \<in> set (tl xs)" by (intro Cons.IH[of "nx x"]) auto
    then show ?thesis using list.set_sel(2) by (cases xs) auto
  qed
qed simp

lemma prev_steps_none:
  "chain (item_next s) p xs \<Longrightarrow> row \<notin> set (tl xs) \<Longrightarrow> prev_steps k s row p prev = prev"
proof (induction k arbitrary: p xs)
  case (Suc k)
  show ?case
  proof (cases xs)
    case Nil
    then show ?thesis using Suc.prems Suc.IH[of None "[]"] by simp
  next
    case (Cons x ys)
    have "item_next s x \<noteq> Some row" using chain_next_in_tl[OF Suc.prems(1), of x row] Suc.prems(2) Cons by auto
    moreover have "row \<notin> set (tl ys)" using Suc.prems(2) Cons by (cases ys) auto
    then have "prev_steps k s row (item_next s x) prev = prev"
      using Suc.prems(1) Cons by (intro Suc.IH[of _ ys]) auto
    ultimately show ?thesis using Suc.prems(1) Cons by (simp add: item_next_def)
  qed
qed simp

lemma prev_steps_chain:
  "chain (item_next s) p (as @ q # row # bs) \<Longrightarrow> length as < k \<Longrightarrow> prev_steps k s row p prev = Some q"
proof (induction as arbitrary: p k prev)
  case Nil
  then obtain j where k: "k = Suc j" by (cases k) auto
  have "distinct (q # row # bs)" using Nil.prems(1) unfolding append_Nil by (rule chain_distinct)
  moreover have "chain (item_next s) (Some row) (row # bs)" and "p = Some q" and "item_next s q = Some row"
    using Nil.prems(1) by auto
  ultimately show ?case
    using prev_steps_none[of s "Some row" "row # bs" row j "Some q"] by (simp add: k item_next_def)
next
  case (Cons a as)
  then obtain j where "k = Suc j" by (cases k) auto
  with Cons show ?case by (auto simp: item_next_def)
qed

section \<open>The table\<close>

text \<open>
  \<open>item_table s f\<close>: bucket \<open>b\<close> holds exactly the rows \<open>f b\<close>, which hash there, carry distinct
  ids and are at most eight; the rows in the index are the ones marked.
\<close>

definition item_table :: "ItemDb \<Rightarrow> (u32 \<Rightarrow> nat list) \<Rightarrow> bool" where
  "item_table s f \<longleftrightarrow>
     (\<forall>b < 8. chain (item_next s) (ind_item_buckets s b) (f b) \<and> length (f b) \<le> 8 \<and> distinct (map (item_id s) (f b))) \<and>
     (\<forall>b < 8. \<forall>x \<in> set (f b). item_in s x \<and> item_bucket (item_id s x) = b) \<and>
     (\<forall>x. item_in s x \<longrightarrow> x \<in> set (f (item_bucket (item_id s x))))"

lemma item_bucket_less [simp]: "item_bucket key < 8"
proof -
  have "item_bucket key \<le> 7" unfolding item_bucket_def by (rule word_and_le1)
  then show ?thesis by (simp add: word_less_nat_alt word_le_nat_alt)
qed

lemma item_tableD:
  assumes "item_table s f"
  shows "b < 8 \<Longrightarrow> chain (item_next s) (ind_item_buckets s b) (f b)"
    and "b < 8 \<Longrightarrow> length (f b) \<le> 8"
    and "b < 8 \<Longrightarrow> distinct (map (item_id s) (f b))"
    and "b < 8 \<Longrightarrow> x \<in> set (f b) \<Longrightarrow> item_in s x \<and> item_bucket (item_id s x) = b"
    and "item_in s x \<Longrightarrow> x \<in> set (f (item_bucket (item_id s x)))"
  using assms by (auto simp: item_table_def)

lemma Find_table:
  "item_table s f \<Longrightarrow> ItemDb_ind_item_Find key s = find (\<lambda>q. item_id s q = key) (f (item_bucket key))"
  by (simp add: ItemDb_ind_item_Find_def find_steps_chain[OF item_tableD(1)] item_tableD(2))

lemma Find_marked:
  assumes t: "item_table s f" and x: "item_in s x"
  shows "ItemDb_ind_item_Find (item_id s x) s = Some x"
proof -
  let ?xs = "f (item_bucket (item_id s x))"
  have "inj_on (item_id s) (set ?xs)" using item_tableD(3)[OF t] by (simp add: distinct_map)
  then show ?thesis unfolding Find_table[OF t]
    by (intro find_unique item_tableD(5)[OF t x]) (auto dest: inj_onD intro: item_tableD(5)[OF t x])
qed

lemma Find_Some: "item_table s f \<Longrightarrow> ItemDb_ind_item_Find key s = Some x \<longleftrightarrow> item_in s x \<and> item_id s x = key"
proof
  assume t: "item_table s f" and "ItemDb_ind_item_Find key s = Some x"
  then show "item_in s x \<and> item_id s x = key"
    using item_tableD(4)[OF t item_bucket_less, of x key] by (auto simp: Find_table find_Some_iff)
qed (auto intro: Find_marked)

text \<open>How the updates show in the views.\<close>

lemma item_views [simp]:
  "item_next (upd_item r (\<lambda>w. w\<lparr>ind_item_next := p\<rparr>) s) = (item_next s)(r := p)"
  "item_next (upd_item r (\<lambda>w. w\<lparr>ind_item_inhash := i\<rparr>) s) = item_next s"
  "item_in (upd_item r (\<lambda>w. w\<lparr>ind_item_next := p\<rparr>) s) = item_in s"
  "item_in (upd_item r (\<lambda>w. w\<lparr>ind_item_inhash := i\<rparr>) s) = (item_in s)(r := i)"
  "item_id (upd_item r (\<lambda>w. w\<lparr>ind_item_next := p\<rparr>) s) = item_id s"
  "item_id (upd_item r (\<lambda>w. w\<lparr>ind_item_inhash := i\<rparr>) s) = item_id s"
  "item_next (set_bucket b p s) = item_next s" "item_in (set_bucket b p s) = item_in s" "item_id (set_bucket b p s) = item_id s"
  "item_next (s\<lparr>ind_item_n := n\<rparr>) = item_next s" "item_in (s\<lparr>ind_item_n := n\<rparr>) = item_in s" "item_id (s\<lparr>ind_item_n := n\<rparr>) = item_id s"
  "ind_item_buckets (upd_item r g s) = ind_item_buckets s" "ind_item_n (upd_item r g s) = ind_item_n s"
  "ind_item_buckets (set_bucket b p s) = (ind_item_buckets s)(b := p)" "ind_item_n (set_bucket b p s) = ind_item_n s"
  by (auto simp: item_next_def item_in_def item_id_def upd_item_def set_bucket_def fun_eq_iff)

lemma InsertMaybe_table:
  assumes t: "item_table s f" and r: "\<not> item_in s r" "ItemDb_ind_item_Find (item_id s r) s = None"
    and room: "length (f (item_bucket (item_id s r))) < 8"
  shows "\<exists>s'. ItemDb_ind_item_InsertMaybe r s = (True, s') \<and>
    item_table s' (f(item_bucket (item_id s r) := r # f (item_bucket (item_id s r)))) \<and>
    item_id s' = item_id s \<and> item_in s' = (item_in s)(r := True) \<and> ind_item_n s' = ind_item_n s + 1"
proof -
  let ?b = "item_bucket (item_id s r)"
  let ?s1 = "upd_item r (\<lambda>w. w\<lparr>ind_item_next := ind_item_buckets s ?b\<rparr>) s"
  let ?s' = "(set_bucket ?b (Some r) (upd_item r (\<lambda>w. w\<lparr>ind_item_inhash := True\<rparr>) ?s1))\<lparr>ind_item_n := ind_item_n s + 1\<rparr>"
  have new: "r \<notin> set (f b)" if "b < 8" for b using item_tableD(4)[OF t that] r(1) by blast
  have fresh: "item_id s x \<noteq> item_id s r" if "x \<in> set (f ?b)" for x
    using that r(2) unfolding Find_table[OF t] find_None_iff by blast
  have run: "ItemDb_ind_item_InsertMaybe r s = (True, ?s')"
    using r by (simp add: ItemDb_ind_item_InsertMaybe_def item_in_def[symmetric] item_id_def[symmetric] Let_def)
  have "item_table ?s' (f(?b := r # f ?b))"
    unfolding item_table_def
  proof (intro conjI allI impI ballI)
    fix b :: u32 assume b: "b < 8"
    show "chain (item_next ?s') (ind_item_buckets ?s' b) ((f(?b := r # f ?b)) b)"
      using item_tableD(1)[OF t b] new[OF b] by (cases "b = ?b") simp_all
    show "length ((f(?b := r # f ?b)) b) \<le> 8" using item_tableD(2)[OF t b] room by simp
    show "distinct (map (item_id ?s') ((f(?b := r # f ?b)) b))"
      using item_tableD(3)[OF t b] fresh by (auto dest: sym)
    fix x assume x: "x \<in> set ((f(?b := r # f ?b)) b)"
    show "item_in ?s' x" "item_bucket (item_id ?s' x) = b"
      using x item_tableD(4)[OF t b, of x] by (auto split: if_splits)
  next
    fix x assume "item_in ?s' x"
    then show "x \<in> set ((f(?b := r # f ?b)) (item_bucket (item_id ?s' x)))"
      using item_tableD(5)[OF t, of x] by (auto split: if_splits)
  qed
  with run show ?thesis by (intro exI[of _ ?s']) simp
qed

lemma Remove_table:
  assumes t: "item_table s f" and r: "item_in s r"
  shows "item_table (ItemDb_ind_item_Remove r s) (f(item_bucket (item_id s r) := remove1 r (f (item_bucket (item_id s r))))) \<and>
    item_id (ItemDb_ind_item_Remove r s) = item_id s \<and>
    item_in (ItemDb_ind_item_Remove r s) = (item_in s)(r := False) \<and>
    ind_item_n (ItemDb_ind_item_Remove r s) = ind_item_n s - 1"
proof -
  let ?b = "item_bucket (item_id s r)"
  let ?f = "f(?b := remove1 r (f ?b))"
  let ?s' = "ItemDb_ind_item_Remove r s"
  let ?nx = "item_next s r"
  have c: "chain (item_next s) (ind_item_buckets s ?b) (f ?b)" and len: "length (f ?b) \<le> 8"
    using item_tableD(1,2)[OF t] by simp_all
  obtain as bs where f: "f ?b = as @ r # bs" using item_tableD(5)[OF t r] by (auto simp: in_set_conv_decomp)
  have d: "distinct (as @ r # bs)" using chain_distinct[OF c] f by simp
  then have rem: "remove1 r (f ?b) = as @ bs" by (simp add: f remove1_append)
  have far: "r \<notin> set (f b)" if "b < 8" "b \<noteq> ?b" for b using item_tableD(4)[OF t that(1)] that(2) by blast
  have other: "q \<notin> set (f b)" if "q \<in> set (f ?b)" "b < 8" "b \<noteq> ?b" for q b
    using item_tableD(4)[OF t that(2), of q] item_tableD(4)[OF t item_bucket_less that(1)] that(3) by auto
  have chains: "item_id ?s' = item_id s \<and> item_in ?s' = (item_in s)(r := False) \<and> ind_item_n ?s' = ind_item_n s - 1 \<and>
    (\<forall>b < 8. chain (item_next ?s') (ind_item_buckets ?s' b) (?f b))"
  proof (cases as rule: rev_cases)
    case Nil
    then have none: "prev_steps 8 s r (ind_item_buckets s ?b) None = None"
      using d f by (intro prev_steps_none[OF c]) simp
    have tail: "chain (item_next s) ?nx bs" using c f Nil by simp
    have "chain (item_next ?s') (ind_item_buckets ?s' b) (?f b)" if b: "b < 8" for b
      using item_tableD(1)[OF t b] tail d far[OF b] rem none r Nil
      by (simp add: ItemDb_ind_item_Remove_def item_in_def[symmetric] item_id_def[symmetric] item_next_def[symmetric] Let_def)
    then show ?thesis using none r
      by (simp add: ItemDb_ind_item_Remove_def item_in_def[symmetric] item_id_def[symmetric] item_next_def[symmetric] Let_def)
  next
    case (snoc ys q)
    then have some: "prev_steps 8 s r (ind_item_buckets s ?b) None = Some q"
      using c f len by (intro prev_steps_chain[where as = ys and bs = bs]) simp_all
    have s': "item_next ?s' = (item_next s)(q := ?nx, r := None)" "ind_item_buckets ?s' = ind_item_buckets s"
      using some r
      by (simp_all add: ItemDb_ind_item_Remove_def item_in_def[symmetric] item_id_def[symmetric] item_next_def[symmetric] Let_def)
    have "chain (item_next ?s') (ind_item_buckets ?s' b) (?f b)" if b: "b < 8" for b
    proof (cases "b = ?b")
      case True
      have "chain (item_next s) (ind_item_buckets s ?b) (ys @ q # r # bs)" using c f snoc by simp
      then have "chain (item_next ?s') (ind_item_buckets s ?b) (ys @ q # bs)"
        by (rule chain_unlink) (simp add: s')
      then show ?thesis using True rem snoc by (simp add: s')
    next
      case False
      have "q \<notin> set (f b)" using other[of q, OF _ b False] f snoc by simp
      then show ?thesis using item_tableD(1)[OF t b] far[OF b False] False by (simp add: s')
    qed
    then show ?thesis using some r
      by (simp add: ItemDb_ind_item_Remove_def item_in_def[symmetric] item_id_def[symmetric] item_next_def[symmetric] Let_def)
  qed
  have "item_table ?s' ?f"
    unfolding item_table_def
  proof (intro conjI allI impI ballI)
    fix b :: u32 assume b: "b < 8"
    show "chain (item_next ?s') (ind_item_buckets ?s' b) (?f b)" using chains b by blast
    show "length (?f b) \<le> 8" using item_tableD(2)[OF t b] by (auto simp: length_remove1)
    show "distinct (map (item_id ?s') (?f b))"
      using item_tableD(3)[OF t b] chains by (auto simp: distinct_map intro: inj_on_subset[OF _ set_remove1_subset])
    fix x assume x: "x \<in> set (?f b)"
    then have "x \<in> set (f b)" "x \<noteq> r" using far[OF b] d rem f by (auto split: if_splits)
    then show "item_in ?s' x" "item_bucket (item_id ?s' x) = b"
      using item_tableD(4)[OF t b, of x] chains by simp_all
  next
    fix x assume "item_in ?s' x"
    then show "x \<in> set (?f (item_bucket (item_id ?s' x)))"
      using item_tableD(5)[OF t, of x] chains f rem by (auto split: if_splits)
  qed
  with chains show ?thesis by simp
qed

section \<open>Properties\<close>

lemma Init_table: "\<forall>r. \<not> item_in s r \<Longrightarrow> item_table (ItemDb_ind_item_Init s) (\<lambda>_. [])"
  by (simp add: item_table_def ItemDb_ind_item_Init_def item_in_def)

lemma Remove_find:
  assumes t: "item_table s f" and x: "item_in s x"
  shows "ItemDb_ind_item_Find key (ItemDb_ind_item_Remove x s) =
      (if key = item_id s x then None else ItemDb_ind_item_Find key s) \<and>
    ind_item_n (ItemDb_ind_item_Remove x s) = ind_item_n s - 1"
proof -
  let ?s' = "ItemDb_ind_item_Remove x s"
  note rt = Remove_table[OF t x]
  have only: "y = x" if "item_in s y" "item_id s y = item_id s x" for y
    using Find_marked[OF t x] Find_marked[OF t that(1)] that(2) by simp
  have "ItemDb_ind_item_Find key ?s' = Some y \<longleftrightarrow> (if key = item_id s x then None else ItemDb_ind_item_Find key s) = Some y" for y
    using rt only[of y] by (auto simp: Find_Some[OF conjunct1[OF rt]] Find_Some[OF t])
  then show ?thesis using rt by (metis option.exhaust)
qed

text \<open>
  C36: in a table whose buckets hold at most eight rows, inserting an unmarked row with a new id
  into a bucket with room makes exactly that id findable; removing any row of the resulting
  table makes exactly its id unfindable; and the count follows.
\<close>

theorem thash_round_trip:
  assumes t: "item_table s f" and r: "\<not> item_in s r" "ItemDb_ind_item_Find (item_id s r) s = None"
    and room: "length (f (item_bucket (item_id s r))) < 8"
  shows "\<exists>s'. ItemDb_ind_item_InsertMaybe r s = (True, s') \<and>
    (\<forall>key. ItemDb_ind_item_Find key s' = (if key = item_id s r then Some r else ItemDb_ind_item_Find key s)) \<and>
    ItemDb_ind_item_N s' = ItemDb_ind_item_N s + 1 \<and>
    (\<forall>x key. item_in s' x \<longrightarrow>
      ItemDb_ind_item_Find key (ItemDb_ind_item_Remove x s') =
        (if key = item_id s x then None else ItemDb_ind_item_Find key s') \<and>
      ItemDb_ind_item_N (ItemDb_ind_item_Remove x s') = ItemDb_ind_item_N s)"
proof -
  obtain s' where run: "ItemDb_ind_item_InsertMaybe r s = (True, s')"
    and t': "item_table s' (f(item_bucket (item_id s r) := r # f (item_bucket (item_id s r))))"
    and id: "item_id s' = item_id s" and mark: "item_in s' = (item_in s)(r := True)" and n: "ind_item_n s' = ind_item_n s + 1"
    using InsertMaybe_table[OF assms] by blast
  have "ItemDb_ind_item_Find key s' = (if key = item_id s r then Some r else ItemDb_ind_item_Find key s)" for key
  proof (cases "key = item_id s r")
    case True
    then show ?thesis using Find_Some[OF t', of key r] id mark by simp
  next
    case False
    then have "ItemDb_ind_item_Find key s' = Some x \<longleftrightarrow> ItemDb_ind_item_Find key s = Some x" for x
      using id mark by (auto simp: Find_Some[OF t] Find_Some[OF t'])
    with False show ?thesis by (cases "ItemDb_ind_item_Find key s"; cases "ItemDb_ind_item_Find key s'") auto
  qed
  moreover have "ItemDb_ind_item_Find key (ItemDb_ind_item_Remove x s') =
        (if key = item_id s x then None else ItemDb_ind_item_Find key s') \<and>
      ItemDb_ind_item_N (ItemDb_ind_item_Remove x s') = ItemDb_ind_item_N s" if x: "item_in s' x" for x key
    using Remove_find[OF t' x] id n by (simp add: ItemDb_ind_item_N_def)
  ultimately show ?thesis using run n by (auto simp: ItemDb_ind_item_N_def)
qed

text \<open>A table of rows with the ids \<open>8 * r\<close>, all in bucket 0; row 20 has the id of row 0.\<close>

definition clash_rows :: ItemDb where
  "clash_rows = \<lparr>item_rows = (\<lambda>r. \<lparr>ir_id = (if r = 20 then 0 else 8 * of_nat r), ir_qty = 0, ind_item_next = None,
     ind_item_inhash = False\<rparr>), ind_item_buckets = \<lambda>_. None, ind_item_n = 0\<rparr>"

fun insert_items :: "nat list \<Rightarrow> ItemDb \<Rightarrow> ItemDb" where
  "insert_items [] s = s"
| "insert_items (r # rs) s = insert_items rs (snd (ItemDb_ind_item_InsertMaybe r s))"

theorem thash_round_trip_witness:
  "\<exists>s'. ItemDb_ind_item_InsertMaybe 3 (ItemDb_ind_item_Init clash_rows) = (True, s') \<and>
    ItemDb_ind_item_Find 24 s' = Some 3 \<and> ItemDb_ind_item_Find 24 (ItemDb_ind_item_Remove 3 s') = None"
proof -
  let ?s = "ItemDb_ind_item_Init clash_rows"
  have "item_table ?s (\<lambda>_. [])" by (rule Init_table) (simp add: item_in_def clash_rows_def)
  moreover have "\<not> item_in ?s 3" "item_id ?s 3 = 24"
    by (simp_all add: item_in_def item_id_def clash_rows_def ItemDb_ind_item_Init_def)
  moreover have "ItemDb_ind_item_Find (item_id ?s 3) ?s = None"
    using Find_table[OF calculation(1)] by simp
  ultimately obtain s' where s': "ItemDb_ind_item_InsertMaybe 3 ?s = (True, s')"
    "ItemDb_ind_item_Find 24 s' = Some 3"
    "item_in s' 3 \<Longrightarrow> ItemDb_ind_item_Find 24 (ItemDb_ind_item_Remove 3 s') = None"
    using thash_round_trip[of ?s "\<lambda>_. []" 3] by auto
  moreover have "item_in s' 3" using s'(1) \<open>\<not> item_in ?s 3\<close>
    by (auto simp: ItemDb_ind_item_InsertMaybe_def item_in_def upd_item_def set_bucket_def Let_def split: if_splits)
  ultimately show ?thesis by blast
qed

text \<open>
  With ten rows in one bucket the eight-step walks no longer reach the end of the chain: an
  indexed id is not found, its id is accepted a second time, and removing its row empties the
  bucket while the count still says nine.
\<close>

theorem thash_crowded_bucket:
  "let s = insert_items [0, 1, 2, 3, 4, 5, 6, 7, 8, 9] (ItemDb_ind_item_Init clash_rows);
       s' = ItemDb_ind_item_Remove 0 s
   in ItemDb_ind_item_N s = 10 \<and> ind_item_inhash (item_rows s 0) \<and> ItemDb_ind_item_Find 0 s = None \<and>
      fst (ItemDb_ind_item_InsertMaybe 20 s) \<and>
      ItemDb_ind_item_Find 72 s = Some 9 \<and> ItemDb_ind_item_N s' = 9 \<and> ind_item_buckets s' 0 = None \<and>
      ItemDb_ind_item_Find 72 s' = None"
  by code_simp

end
