(* ===== verification/Amcc_List.thy ===== *)
theory Amcc_List
  imports Linked
begin

text \<open>
  The generated list \<^verbatim>\<open>scripts/gen/llist_gen.c\<close>: rows of the caller linked both ways, inserted at
  the head and removed anywhere.
\<close>

section \<open>Data and operations\<close>

record task_row =
  task_id :: u64
  zdl_todo_next :: "nat option"
  zdl_todo_prev :: "nat option"
  zdl_todo_inlist :: bool

text \<open>The global \<^verbatim>\<open>g_TaskDb\<close> with the memory its pointers lead to.\<close>

record TaskDb =
  task_rows :: "nat \<Rightarrow> task_row"
  zdl_todo_head :: "nat option"
  zdl_todo_n :: u32

definition upd_task :: "nat \<Rightarrow> (task_row \<Rightarrow> task_row) \<Rightarrow> TaskDb \<Rightarrow> TaskDb" where
  "upd_task r f s = s\<lparr>task_rows := (task_rows s)(r := f (task_rows s r))\<rparr>"

definition TaskDb_zdl_todo_Init :: "TaskDb \<Rightarrow> TaskDb" where
  "TaskDb_zdl_todo_Init s = s\<lparr>zdl_todo_head := None, zdl_todo_n := 0\<rparr>"

definition TaskDb_zdl_todo_Insert :: "nat \<Rightarrow> TaskDb \<Rightarrow> TaskDb" where
  "TaskDb_zdl_todo_Insert row s =
     (if \<not> zdl_todo_inlist (task_rows s row)
      then (let old = zdl_todo_head s;
                s = upd_task row (\<lambda>r. r\<lparr>zdl_todo_prev := None, zdl_todo_next := old, zdl_todo_inlist := True\<rparr>) s;
                s = (case old of Some q \<Rightarrow> upd_task q (\<lambda>r. r\<lparr>zdl_todo_prev := Some row\<rparr>) s | None \<Rightarrow> s)
            in s\<lparr>zdl_todo_head := Some row, zdl_todo_n := zdl_todo_n s + 1\<rparr>)
      else s)"

definition TaskDb_zdl_todo_Remove :: "nat \<Rightarrow> TaskDb \<Rightarrow> TaskDb" where
  "TaskDb_zdl_todo_Remove row s =
     (if zdl_todo_inlist (task_rows s row)
      then (let prev = zdl_todo_prev (task_rows s row);
                nx = zdl_todo_next (task_rows s row);
                s = (case prev of
                       Some q \<Rightarrow> upd_task q (\<lambda>r. r\<lparr>zdl_todo_next := nx\<rparr>) s
                     | None \<Rightarrow> s\<lparr>zdl_todo_head := nx\<rparr>);
                s = (case nx of Some q \<Rightarrow> upd_task q (\<lambda>r. r\<lparr>zdl_todo_prev := prev\<rparr>) s | None \<Rightarrow> s);
                s = upd_task row (\<lambda>r. r\<lparr>zdl_todo_next := None, zdl_todo_prev := None, zdl_todo_inlist := False\<rparr>) s
            in s\<lparr>zdl_todo_n := zdl_todo_n s - 1\<rparr>)
      else s)"

definition TaskDb_zdl_todo_First :: "TaskDb \<Rightarrow> nat option" where
  "TaskDb_zdl_todo_First s = zdl_todo_head s"

definition TaskDb_zdl_todo_Next :: "nat \<Rightarrow> TaskDb \<Rightarrow> nat option" where
  "TaskDb_zdl_todo_Next row s = zdl_todo_next (task_rows s row)"

definition TaskDb_zdl_todo_Prev :: "nat \<Rightarrow> TaskDb \<Rightarrow> nat option" where
  "TaskDb_zdl_todo_Prev row s = zdl_todo_prev (task_rows s row)"

definition TaskDb_zdl_todo_InLlistQ :: "nat \<Rightarrow> TaskDb \<Rightarrow> bool" where
  "TaskDb_zdl_todo_InLlistQ row s = zdl_todo_inlist (task_rows s row)"

definition TaskDb_zdl_todo_EmptyQ :: "TaskDb \<Rightarrow> bool" where
  "TaskDb_zdl_todo_EmptyQ s \<longleftrightarrow> zdl_todo_head s = None"

definition TaskDb_zdl_todo_N :: "TaskDb \<Rightarrow> u32" where
  "TaskDb_zdl_todo_N s = zdl_todo_n s"

section \<open>The list\<close>

text \<open>\<open>todo_list s xs\<close>: the list is \<open>xs\<close>, first row first, and exactly its rows are marked.\<close>

definition todo_list :: "TaskDb \<Rightarrow> nat list \<Rightarrow> bool" where
  "todo_list s xs \<longleftrightarrow>
     (\<exists>b. dll (\<lambda>r. TaskDb_zdl_todo_Next r s) (\<lambda>r. TaskDb_zdl_todo_Prev r s) (zdl_todo_head s) None xs b None) \<and>
     (\<forall>r. TaskDb_zdl_todo_InLlistQ r s \<longleftrightarrow> r \<in> set xs) \<and> zdl_todo_n s = of_nat (length xs)"

lemma todo_views [simp]:
  "zdl_todo_next (task_rows s r) = TaskDb_zdl_todo_Next r s"
  "zdl_todo_prev (task_rows s r) = TaskDb_zdl_todo_Prev r s"
  "zdl_todo_inlist (task_rows s r) = TaskDb_zdl_todo_InLlistQ r s"
  "zdl_todo_head (upd_task q f s) = zdl_todo_head s" "zdl_todo_n (upd_task q f s) = zdl_todo_n s"
  "TaskDb_zdl_todo_Next r (s\<lparr>zdl_todo_head := h\<rparr>) = TaskDb_zdl_todo_Next r s"
  "TaskDb_zdl_todo_Prev r (s\<lparr>zdl_todo_head := h\<rparr>) = TaskDb_zdl_todo_Prev r s"
  "TaskDb_zdl_todo_InLlistQ r (s\<lparr>zdl_todo_head := h\<rparr>) = TaskDb_zdl_todo_InLlistQ r s"
  "TaskDb_zdl_todo_Next r (s\<lparr>zdl_todo_n := n\<rparr>) = TaskDb_zdl_todo_Next r s"
  "TaskDb_zdl_todo_Prev r (s\<lparr>zdl_todo_n := n\<rparr>) = TaskDb_zdl_todo_Prev r s"
  "TaskDb_zdl_todo_InLlistQ r (s\<lparr>zdl_todo_n := n\<rparr>) = TaskDb_zdl_todo_InLlistQ r s"
  by (simp_all add: TaskDb_zdl_todo_Next_def TaskDb_zdl_todo_Prev_def TaskDb_zdl_todo_InLlistQ_def upd_task_def)

lemma todo_upd [simp]:
  "TaskDb_zdl_todo_Next r (upd_task q f s) = (if r = q then zdl_todo_next (f (task_rows s q)) else TaskDb_zdl_todo_Next r s)"
  "TaskDb_zdl_todo_Prev r (upd_task q f s) = (if r = q then zdl_todo_prev (f (task_rows s q)) else TaskDb_zdl_todo_Prev r s)"
  "TaskDb_zdl_todo_InLlistQ r (upd_task q f s) =
     (if r = q then zdl_todo_inlist (f (task_rows s q)) else TaskDb_zdl_todo_InLlistQ r s)"
  by (simp_all add: TaskDb_zdl_todo_Next_def TaskDb_zdl_todo_Prev_def TaskDb_zdl_todo_InLlistQ_def upd_task_def
      del: todo_views)

lemma Insert_todo:
  assumes l: "todo_list s xs" and r: "r \<notin> set xs"
  shows "todo_list (TaskDb_zdl_todo_Insert r s) (r # xs)"
proof -
  let ?nx = "\<lambda>r. TaskDb_zdl_todo_Next r s" and ?pv = "\<lambda>r. TaskDb_zdl_todo_Prev r s"
  let ?s' = "TaskDb_zdl_todo_Insert r s"
  obtain b where d: "dll ?nx ?pv (zdl_todo_head s) None xs b None"
    and marks: "\<forall>r. TaskDb_zdl_todo_InLlistQ r s \<longleftrightarrow> r \<in> set xs" and n: "zdl_todo_n s = of_nat (length xs)"
    using l by (auto simp: todo_list_def)
  show ?thesis
  proof (cases xs)
    case Nil
    then show ?thesis using d marks n by (simp add: TaskDb_zdl_todo_Insert_def todo_list_def Let_def)
  next
    case (Cons q ys)
    then have h: "zdl_todo_head s = Some q" using d by simp
    have dist: "distinct xs" using d by (rule dll_distinct)
    have links: "(\<lambda>x. TaskDb_zdl_todo_Next x ?s') = ?nx(r := Some q)" "(\<lambda>x. TaskDb_zdl_todo_Prev x ?s') = ?pv(r := None, q := Some r)"
      using marks r h Cons by (auto simp: TaskDb_zdl_todo_Insert_def Let_def fun_eq_iff)
    have "dll ?nx (?pv(q := Some r)) (Some q) (Some r) xs b None"
      using d dist h unfolding Cons by (intro dll_first_prev[where a = None]) simp_all
    moreover have "?pv(r := None, q := Some r) = ?pv(q := Some r, r := None)" using r Cons by (auto intro: fun_upd_twist)
    ultimately have "dll (?nx(r := Some q)) (?pv(r := None, q := Some r)) (Some r) None (r # xs) b None"
      using r Cons by simp
    moreover have "\<forall>x. TaskDb_zdl_todo_InLlistQ x ?s' \<longleftrightarrow> x \<in> set (r # xs)" "zdl_todo_n ?s' = of_nat (length (r # xs))"
      "zdl_todo_head ?s' = Some r"
      using marks r h n by (auto simp: TaskDb_zdl_todo_Insert_def Let_def)
    ultimately show ?thesis unfolding todo_list_def links by auto
  qed
qed

lemma Remove_todo:
  assumes l: "todo_list s (as @ r # bs)"
  shows "todo_list (TaskDb_zdl_todo_Remove r s) (as @ bs)"
proof -
  let ?nx = "\<lambda>r. TaskDb_zdl_todo_Next r s" and ?pv = "\<lambda>r. TaskDb_zdl_todo_Prev r s"
  let ?s' = "TaskDb_zdl_todo_Remove r s"
  obtain b where d: "dll ?nx ?pv (zdl_todo_head s) None (as @ r # bs) b None"
    and marks: "\<forall>x. TaskDb_zdl_todo_InLlistQ x s \<longleftrightarrow> x \<in> set (as @ r # bs)"
    and n: "zdl_todo_n s = of_nat (length (as @ r # bs))"
    using l by (auto simp: todo_list_def)
  have dist: "distinct (as @ r # bs)" using d by (rule dll_distinct)
  let ?nx' = "(case ?pv r of None \<Rightarrow> ?nx | Some q \<Rightarrow> ?nx(q := ?nx r))(r := None)"
  let ?pv' = "(case ?nx r of None \<Rightarrow> ?pv | Some q \<Rightarrow> ?pv(q := ?pv r))(r := None)"
  let ?h = "case ?pv r of None \<Rightarrow> ?nx r | Some q \<Rightarrow> zdl_todo_head s"
  have "dll ?nx' ?pv' ?h None (as @ bs) (case ?nx r of None \<Rightarrow> ?pv r | Some q \<Rightarrow> b) None"
    by (rule dll_unlink[OF d refl refl refl refl])
  moreover have "(\<lambda>x. TaskDb_zdl_todo_Next x ?s') = ?nx'" "(\<lambda>x. TaskDb_zdl_todo_Prev x ?s') = ?pv'" "zdl_todo_head ?s' = ?h"
    using marks by (auto simp: TaskDb_zdl_todo_Remove_def Let_def fun_eq_iff split: option.splits)
  moreover have "TaskDb_zdl_todo_InLlistQ x ?s' \<longleftrightarrow> x \<in> set (as @ bs)" for x
    using marks dist by (auto simp: TaskDb_zdl_todo_Remove_def Let_def split: option.splits)
  moreover have "zdl_todo_n ?s' = of_nat (length (as @ bs))"
    using marks n by (simp add: TaskDb_zdl_todo_Remove_def Let_def split: option.splits)
  ultimately show ?thesis unfolding todo_list_def by auto
qed

text \<open>
  Inserting an unlisted row puts it first, inserting a listed one changes nothing, removing a
  row takes exactly it out and keeps the order of the others, removing an unlisted one changes
  nothing; first row, emptiness and count are those of the list.
\<close>

theorem llist_operations:
  assumes "todo_list s xs"
  shows "todo_list (TaskDb_zdl_todo_Insert r s) (if r \<in> set xs then xs else r # xs) \<and>
    todo_list (TaskDb_zdl_todo_Remove r s) (remove1 r xs) \<and>
    TaskDb_zdl_todo_First s = (case xs of [] \<Rightarrow> None | x # _ \<Rightarrow> Some x) \<and>
    (TaskDb_zdl_todo_EmptyQ s \<longleftrightarrow> xs = []) \<and> TaskDb_zdl_todo_N s = of_nat (length xs)"
proof -
  obtain b where d: "dll (\<lambda>r. TaskDb_zdl_todo_Next r s) (\<lambda>r. TaskDb_zdl_todo_Prev r s) (zdl_todo_head s) None xs b None"
    and marks: "TaskDb_zdl_todo_InLlistQ r s \<longleftrightarrow> r \<in> set xs"
    using assms by (auto simp: todo_list_def)
  have "todo_list (TaskDb_zdl_todo_Insert r s) (if r \<in> set xs then xs else r # xs)"
  proof (cases "r \<in> set xs")
    case True
    then show ?thesis using assms marks by (simp add: TaskDb_zdl_todo_Insert_def)
  next
    case False
    then show ?thesis using Insert_todo[OF assms] by simp
  qed
  moreover have "todo_list (TaskDb_zdl_todo_Remove r s) (remove1 r xs)"
  proof (cases "r \<in> set xs")
    case True
    then obtain as bs where xs: "xs = as @ r # bs" by (auto simp: in_set_conv_decomp)
    have "distinct xs" using d by (rule dll_distinct)
    then have "remove1 r xs = as @ bs" by (simp add: xs remove1_append)
    then show ?thesis using Remove_todo assms xs by simp
  next
    case False
    then show ?thesis using assms marks by (simp add: TaskDb_zdl_todo_Remove_def remove1_idem)
  qed
  moreover have "TaskDb_zdl_todo_First s = (case xs of [] \<Rightarrow> None | x # _ \<Rightarrow> Some x)" "TaskDb_zdl_todo_EmptyQ s \<longleftrightarrow> xs = []"
    using dll_first[OF d] by (simp_all add: TaskDb_zdl_todo_First_def TaskDb_zdl_todo_EmptyQ_def split: list.splits)
  moreover have "TaskDb_zdl_todo_N s = of_nat (length xs)" using assms by (simp add: todo_list_def TaskDb_zdl_todo_N_def)
  ultimately show ?thesis by simp
qed

definition no_tasks :: TaskDb where
  "no_tasks = \<lparr>task_rows = (\<lambda>_. \<lparr>task_id = 0, zdl_todo_next = None, zdl_todo_prev = None, zdl_todo_inlist = False\<rparr>),
     zdl_todo_head = None, zdl_todo_n = 0\<rparr>"

theorem llist_operations_witness:
  "TaskDb_zdl_todo_First (TaskDb_zdl_todo_Remove 2 (TaskDb_zdl_todo_Insert 2 (TaskDb_zdl_todo_Insert 1 no_tasks))) = Some 1"
proof -
  have "todo_list no_tasks []"
    by (simp add: todo_list_def no_tasks_def TaskDb_zdl_todo_InLlistQ_def del: todo_views)
  with llist_operations[of no_tasks "[]" 1] have "todo_list (TaskDb_zdl_todo_Insert 1 no_tasks) [1]" by simp
  with llist_operations[of _ "[1]" 2]
  have "todo_list (TaskDb_zdl_todo_Insert 2 (TaskDb_zdl_todo_Insert 1 no_tasks)) [2, 1]" by fastforce
  with llist_operations[of _ "[2, 1]" 2]
  have "todo_list (TaskDb_zdl_todo_Remove 2 (TaskDb_zdl_todo_Insert 2 (TaskDb_zdl_todo_Insert 1 no_tasks))) [1]" by fastforce
  with llist_operations[of _ "[1]"] show ?thesis by fastforce
qed

end
