(* ===== verification/Amcc_Table.thy ===== *)
theory Amcc_Table
  imports Prelude
begin

text \<open>
  The generated keyed table \<^verbatim>\<open>scripts/gen/orders_gen.c\<close>: an array of four rows searched from the
  front; a row that is not occupied is free.
\<close>

section \<open>Data and operations\<close>

record order_row_table =
  or_id :: u64
  or_price :: u64
  or_qty :: u64
  or_occupied :: bool

text \<open>The global array \<^verbatim>\<open>g_order\<close> is a list of length 4; a pointer into it is an index.\<close>

text \<open>\<^verbatim>\<open>for (_i = i; _i < i + k; ++_i)\<close>, left at the first row with \<open>P\<close>.\<close>

fun first_row :: "(order_row_table \<Rightarrow> bool) \<Rightarrow> nat \<Rightarrow> nat \<Rightarrow> order_row_table list \<Rightarrow> nat option" where
  "first_row P 0 i g = None"
| "first_row P (Suc k) i g = (if P (g ! i) then Some i else first_row P k (Suc i) g)"

definition order_Find :: "u64 \<Rightarrow> order_row_table list \<Rightarrow> nat option" where
  "order_Find key g = first_row (\<lambda>r. or_occupied r \<and> or_id r = key) 4 0 g"

definition order_InsertMaybe :: "u64 \<Rightarrow> u64 \<Rightarrow> u64 \<Rightarrow> order_row_table list \<Rightarrow> bool \<times> order_row_table list" where
  "order_InsertMaybe key p n g =
     (case order_Find key g of
        Some i \<Rightarrow> (True, g[i := (g ! i)\<lparr>or_price := p, or_qty := n\<rparr>])
      | None \<Rightarrow>
          (case first_row (\<lambda>r. \<not> or_occupied r) 4 0 g of
             Some j \<Rightarrow> (True, g[j := (g ! j)\<lparr>or_occupied := True, or_id := key, or_price := p, or_qty := n\<rparr>])
           | None \<Rightarrow> (False, g)))"

definition order_Remove :: "u64 \<Rightarrow> order_row_table list \<Rightarrow> bool \<times> order_row_table list" where
  "order_Remove key g =
     (case order_Find key g of
        Some i \<Rightarrow> (True, g[i := (g ! i)\<lparr>or_occupied := False\<rparr>])
      | None \<Rightarrow> (False, g))"

section \<open>The table as a map\<close>

lemma first_row_Some:
  "first_row P k i g = Some j \<longleftrightarrow> i \<le> j \<and> j < i + k \<and> P (g ! j) \<and> (\<forall>l. i \<le> l \<and> l < j \<longrightarrow> \<not> P (g ! l))"
proof (induction k arbitrary: i)
  case (Suc k)
  show ?case
  proof (cases "P (g ! i)")
    case True
    then show ?thesis by (auto simp: le_less)
  next
    case False
    then have "(i \<le> j \<and> P (g ! j) \<and> (\<forall>l. i \<le> l \<and> l < j \<longrightarrow> \<not> P (g ! l))) \<longleftrightarrow>
        Suc i \<le> j \<and> P (g ! j) \<and> (\<forall>l. Suc i \<le> l \<and> l < j \<longrightarrow> \<not> P (g ! l))"
      by (metis Suc_le_eq le_neq_implies_less le_SucI less_imp_le)
    with False Suc.IH[of "Suc i"] show ?thesis by auto
  qed
qed simp

lemma first_row_None: "first_row P k i g = None \<longleftrightarrow> (\<forall>j. i \<le> j \<and> j < i + k \<longrightarrow> \<not> P (g ! j))"
proof (induction k arbitrary: i)
  case (Suc k)
  have "(\<forall>j. i \<le> j \<and> j < i + Suc k \<longrightarrow> \<not> P (g ! j)) \<longleftrightarrow> \<not> P (g ! i) \<and> (\<forall>j. Suc i \<le> j \<and> j < Suc i + k \<longrightarrow> \<not> P (g ! j))"
    by (metis Suc_le_eq add_Suc_right add_Suc le_neq_implies_less less_imp_le le_add1 le_imp_less_Suc order_refl)
  with Suc.IH[of "Suc i"] show ?case by simp
qed auto

text \<open>Occupied rows have distinct ids.\<close>

definition row_for :: "u64 \<Rightarrow> order_row_table list \<Rightarrow> nat \<Rightarrow> bool" where
  "row_for key g i \<longleftrightarrow> i < 4 \<and> or_occupied (g ! i) \<and> or_id (g ! i) = key"

definition table_ok :: "order_row_table list \<Rightarrow> bool" where
  "table_ok g \<longleftrightarrow> length g = 4 \<and> (\<forall>key i j. row_for key g i \<and> row_for key g j \<longrightarrow> i = j)"

text \<open>The price and quantity stored for an id.\<close>

definition table_map :: "order_row_table list \<Rightarrow> u64 \<Rightarrow> (u64 \<times> u64) option" where
  "table_map g key = map_option (\<lambda>i. (or_price (g ! i), or_qty (g ! i))) (order_Find key g)"

lemma Find_row: "table_ok g \<Longrightarrow> order_Find key g = Some i \<longleftrightarrow> row_for key g i"
  unfolding order_Find_def first_row_Some table_ok_def row_for_def
  by (auto dest: less_trans)

lemma Find_no_row: "table_ok g \<Longrightarrow> order_Find key g = None \<longleftrightarrow> (\<forall>i. \<not> row_for key g i)"
  using Find_row[of g key] by (cases "order_Find key g") fastforce+

lemma table_map_row: "table_ok g \<Longrightarrow> row_for key g i \<Longrightarrow> table_map g key = Some (or_price (g ! i), or_qty (g ! i))"
  by (simp add: table_map_def Find_row[THEN iffD2])

lemma table_map_no_row: "table_ok g \<Longrightarrow> (\<And>i. \<not> row_for key g i) \<Longrightarrow> table_map g key = None"
  by (simp add: table_map_def Find_no_row[THEN iffD2])

text \<open>A row that is written: what the other ids see.\<close>

lemma row_for_update:
  "length g = 4 \<Longrightarrow> i < 4 \<Longrightarrow> row_for key (g[i := r]) j \<longleftrightarrow>
     (if j = i then or_occupied r \<and> or_id r = key else row_for key g j)"
  by (auto simp: row_for_def nth_list_update)

lemma table_update:
  assumes t: "table_ok g" and i: "i < 4" and r: "or_occupied r \<Longrightarrow> \<forall>j. row_for (or_id r) g j \<longrightarrow> j = i"
  shows "table_ok (g[i := r]) \<and>
    table_map (g[i := r]) key =
      (if or_occupied r \<and> or_id r = key then Some (or_price r, or_qty r)
       else if row_for key g i then None else table_map g key)"
proof -
  have len: "length g = 4" using t by (simp add: table_ok_def)
  have ok: "table_ok (g[i := r])"
    using t r row_for_update[OF len i] by (auto simp: table_ok_def split: if_splits)
  have "table_map (g[i := r]) key =
      (if or_occupied r \<and> or_id r = key then Some (or_price r, or_qty r)
       else if row_for key g i then None else table_map g key)"
  proof (cases "or_occupied r \<and> or_id r = key")
    case True
    then have "row_for key (g[i := r]) i" using row_for_update[OF len i] by simp
    then show ?thesis using table_map_row[OF ok] True i len by simp
  next
    case False
    show ?thesis
    proof (cases "\<exists>j. j \<noteq> i \<and> row_for key g j")
      case True
      then obtain j where j: "j \<noteq> i" "row_for key g j" by blast
      then have "row_for key (g[i := r]) j" "\<not> row_for key g i"
        using row_for_update[OF len i] t by (auto simp: table_ok_def)
      then show ?thesis using table_map_row[OF ok] table_map_row[OF t j(2)] False j(1) by auto
    next
      case only: False
      then have "table_map (g[i := r]) key = None"
        using False row_for_update[OF len i] by (intro table_map_no_row[OF ok]) auto
      moreover have "table_map g key = None" if "\<not> row_for key g i"
        using only that by (intro table_map_no_row[OF t]) auto
      ultimately show ?thesis using False by simp
    qed
  qed
  with ok show ?thesis by simp
qed

lemma row_for_other: "row_for key g i \<Longrightarrow> k \<noteq> key \<Longrightarrow> \<not> row_for k g i"
  by (simp add: row_for_def)

lemma Remove_map:
  assumes t: "table_ok g"
  shows "table_ok (snd (order_Remove key g)) \<and> (fst (order_Remove key g) \<longleftrightarrow> table_map g key \<noteq> None) \<and>
    table_map (snd (order_Remove key g)) = (table_map g)(key := None)"
proof (cases "order_Find key g")
  case None
  then have "table_map g key = None" by (simp add: table_map_def)
  with None show ?thesis using t by (simp add: order_Remove_def fun_upd_idem)
next
  case (Some i)
  then have r: "row_for key g i" using Find_row[OF t] by simp
  then have i: "i < 4" by (simp add: row_for_def)
  show ?thesis
    using Some table_update[OF t i, of "(g ! i)\<lparr>or_occupied := False\<rparr>"] table_map_row[OF t r] r row_for_other[OF r]
    by (simp add: order_Remove_def fun_eq_iff)
qed

lemma InsertMaybe_map:
  assumes t: "table_ok g"
  shows "table_ok (snd (order_InsertMaybe key p n g)) \<and>
    (fst (order_InsertMaybe key p n g) \<longleftrightarrow> table_map g key \<noteq> None \<or> (\<exists>r \<in> set g. \<not> or_occupied r)) \<and>
    table_map (snd (order_InsertMaybe key p n g)) =
      (if fst (order_InsertMaybe key p n g) then (table_map g)(key \<mapsto> (p, n)) else table_map g)"
proof (cases "order_Find key g")
  case (Some i)
  then have r: "row_for key g i" using Find_row[OF t] by simp
  then have i: "i < 4" and u: "\<forall>j. row_for key g j \<longrightarrow> j = i" using t by (auto simp: row_for_def table_ok_def)
  let ?r = "(g ! i)\<lparr>or_price := p, or_qty := n\<rparr>"
  have "or_occupied ?r" "or_id ?r = key" using r by (simp_all add: row_for_def)
  then show ?thesis
    using Some table_update[OF t i, of ?r] u table_map_row[OF t r] row_for_other[OF r]
    by (simp add: order_InsertMaybe_def fun_eq_iff)
next
  case None
  then have none: "table_map g key = None" and nr: "\<not> row_for key g i" for i
    using Find_no_row[OF t] by (simp_all add: table_map_def)
  show ?thesis
  proof (cases "first_row (\<lambda>r. \<not> or_occupied r) 4 0 g")
    case free: None
    then have "\<forall>r \<in> set g. or_occupied r" using t by (auto simp: table_ok_def first_row_None in_set_conv_nth)
    then show ?thesis using None none t free by (simp add: order_InsertMaybe_def)
  next
    case (Some i)
    then have i: "i < 4" and fr: "\<not> or_occupied (g ! i)" by (auto simp: first_row_Some)
    then have "\<exists>r \<in> set g. \<not> or_occupied r" using t nth_mem by (fastforce simp: table_ok_def)
    moreover have "\<not> row_for k g i" for k using fr by (simp add: row_for_def)
    ultimately show ?thesis
      using Some None table_update[OF t i, of "(g ! i)\<lparr>or_occupied := True, or_id := key, or_price := p, or_qty := n\<rparr>"] nr
      by (simp add: order_InsertMaybe_def fun_eq_iff)
  qed
qed

text \<open>
  As a map from ids to price and quantity, the table stores what is inserted (replacing an
  older entry), refuses a new id exactly when its four rows are taken, and forgets exactly what
  is removed, reporting whether it was there.
\<close>

theorem orders_table_is_a_map:
  assumes t: "table_ok g"
  shows "table_ok (snd (order_InsertMaybe key p n g)) \<and> table_ok (snd (order_Remove key g)) \<and>
    (fst (order_InsertMaybe key p n g) \<longleftrightarrow> table_map g key \<noteq> None \<or> (\<exists>r \<in> set g. \<not> or_occupied r)) \<and>
    table_map (snd (order_InsertMaybe key p n g)) =
      (if fst (order_InsertMaybe key p n g) then (table_map g)(key \<mapsto> (p, n)) else table_map g) \<and>
    (fst (order_Remove key g) \<longleftrightarrow> table_map g key \<noteq> None) \<and>
    table_map (snd (order_Remove key g)) = (table_map g)(key := None)"
  using InsertMaybe_map[OF t] Remove_map[OF t] by blast

definition empty_table :: "order_row_table list" where
  "empty_table = replicate 4 \<lparr>or_id = 0, or_price = 0, or_qty = 0, or_occupied = False\<rparr>"

theorem orders_table_is_a_map_witness:
  "table_map (snd (order_Remove 7 (snd (order_InsertMaybe 7 100 5 empty_table)))) 7 = None \<and>
   table_map (snd (order_InsertMaybe 7 100 5 empty_table)) 7 = Some (100, 5)"
proof -
  have t: "table_ok empty_table"
    by (auto simp: table_ok_def row_for_def empty_table_def)
  have fr: "\<exists>r \<in> set empty_table. \<not> or_occupied r" by (simp add: empty_table_def)
  note i = orders_table_is_a_map[OF t, of 7 100 5]
  then have t': "table_ok (snd (order_InsertMaybe 7 100 5 empty_table))" by blast
  have "table_map (snd (order_InsertMaybe 7 100 5 empty_table)) 7 = Some (100, 5)" using i fr by simp
  moreover from orders_table_is_a_map[OF t', of 7 0 0]
  have "table_map (snd (order_Remove 7 (snd (order_InsertMaybe 7 100 5 empty_table)))) 7 = None" by simp
  ultimately show ?thesis by simp
qed

end
