(* ===== verification/Amcc_Pool.thy ===== *)
theory Amcc_Pool
  imports Linked
begin

text \<open>
  The generated pool \<^verbatim>\<open>scripts/gen/pool_gen.c\<close>: an array of four rows with a free list threaded
  through them.
\<close>

record order_row_pool =
  pr_id :: u64
  pr_price :: u64
  pr_qty :: u64
  pr_freenext :: "nat option"

text \<open>The rows by index; a pointer to \<^verbatim>\<open>g_OrderDb.row[i]\<close> is \<open>Some i\<close>.\<close>

record OrderDb_pool =
  db_row :: "nat \<Rightarrow> order_row_pool"
  row_free :: "nat option"
  row_n :: u32

definition set_freenext :: "nat \<Rightarrow> nat option \<Rightarrow> OrderDb_pool \<Rightarrow> OrderDb_pool" where
  "set_freenext i p s = s\<lparr>db_row := (db_row s)(i := (db_row s i)\<lparr>pr_freenext := p\<rparr>)\<rparr>"

fun init_rows :: "nat \<Rightarrow> nat \<Rightarrow> nat option \<Rightarrow> OrderDb_pool \<Rightarrow> nat option \<times> OrderDb_pool" where
  "init_rows 0 i prev s = (prev, s)"
| "init_rows (Suc k) i prev s = init_rows k (Suc i) (Some i) (set_freenext i prev s)"

definition OrderDb_row_Init :: "OrderDb_pool \<Rightarrow> OrderDb_pool" where
  "OrderDb_row_Init s = (let (prev, s) = init_rows 4 0 None s in s\<lparr>row_free := prev, row_n := 0\<rparr>)"

definition OrderDb_row_Alloc :: "OrderDb_pool \<Rightarrow> nat option \<times> OrderDb_pool" where
  "OrderDb_row_Alloc s =
     (case row_free s of
        Some h \<Rightarrow> (Some h, s\<lparr>row_free := pr_freenext (db_row s h), row_n := row_n s + 1\<rparr>)
      | None \<Rightarrow> (None, s))"

definition OrderDb_row_Free :: "nat \<Rightarrow> OrderDb_pool \<Rightarrow> OrderDb_pool" where
  "OrderDb_row_Free p s =
     (let s = set_freenext p (row_free s) s in s\<lparr>row_free := Some p, row_n := row_n s - 1\<rparr>)"

definition OrderDb_row_N :: "OrderDb_pool \<Rightarrow> u32" where
  "OrderDb_row_N s = row_n s"

section \<open>The free list\<close>

text \<open>\<open>pool_list s xs\<close>: the free rows are \<open>xs\<close>, next one first, all of the array, the rest counted.\<close>

definition pool_list :: "OrderDb_pool \<Rightarrow> nat list \<Rightarrow> bool" where
  "pool_list s xs \<longleftrightarrow> chain (\<lambda>i. pr_freenext (db_row s i)) (row_free s) xs \<and> set xs \<subseteq> {..<4} \<and>
     row_n s = of_nat (4 - length xs)"

lemma pool_list_init: "pool_list (OrderDb_row_Init s) [3, 2, 1, 0]"
  by (simp add: pool_list_def OrderDb_row_Init_def set_freenext_def numeral_eq_Suc)

lemma pool_list_alloc:
  assumes "pool_list s xs"
  shows "case xs of
      [] \<Rightarrow> OrderDb_row_Alloc s = (None, s)
    | x # ys \<Rightarrow> fst (OrderDb_row_Alloc s) = Some x \<and> pool_list (snd (OrderDb_row_Alloc s)) ys"
proof (cases xs)
  case Nil
  then show ?thesis using assms by (simp add: pool_list_def OrderDb_row_Alloc_def)
next
  case (Cons x ys)
  have "distinct xs" using assms by (auto simp: pool_list_def dest: chain_distinct)
  then have "length xs \<le> 4" using assms card_mono[of "{..<4}" "set xs"] by (simp add: pool_list_def distinct_card)
  then have "(of_nat (4 - length xs) :: u32) + 1 = of_nat (4 - length ys)"
    using Cons by (simp add: Suc_diff_le flip: of_nat_Suc)
  then show ?thesis using assms Cons by (simp add: pool_list_def OrderDb_row_Alloc_def)
qed

lemma pool_list_free:
  assumes p: "pool_list s xs" and x: "x < 4" "x \<notin> set xs"
  shows "pool_list (OrderDb_row_Free x s) (x # xs)"
proof -
  have c: "chain (\<lambda>i. pr_freenext (db_row s i)) (row_free s) xs" using p by (simp add: pool_list_def)
  have "(\<lambda>i. pr_freenext (db_row (OrderDb_row_Free x s) i)) = (\<lambda>i. pr_freenext (db_row s i))(x := row_free s)"
    by (simp add: OrderDb_row_Free_def set_freenext_def Let_def fun_eq_iff)
  then have "chain (\<lambda>i. pr_freenext (db_row (OrderDb_row_Free x s) i)) (Some x) (x # xs)" using c x(2) by simp
  moreover have "card (set (x # xs)) \<le> card {..<4 :: nat}" using p x by (intro card_mono) (auto simp: pool_list_def)
  then have "length xs < 4" using chain_distinct[OF c] x(2) by (simp add: distinct_card)
  then have "(of_nat (4 - length xs) :: u32) - 1 = of_nat (4 - length (x # xs))" by (simp add: of_nat_diff)
  ultimately show ?thesis using p x(1)
    by (simp add: pool_list_def OrderDb_row_Free_def set_freenext_def Let_def)
qed

end
