(* ===== verification/Amcc_Array.thy ===== *)
theory Amcc_Array
  imports Prelude
begin

text \<open>
  The smaller generated structures: the append-only array \<^verbatim>\<open>lary_gen.c\<close>, the heap stub
  \<^verbatim>\<open>bheap_gen.c\<close>, the bounded string \<^verbatim>\<open>smallstr_gen.c\<close>, the up pointer \<^verbatim>\<open>upptr_gen.c\<close> and the
  tree stub \<^verbatim>\<open>atree_gen.c\<close>, all in \<^verbatim>\<open>scripts/gen\<close>.
\<close>

section \<open>Append-only array\<close>

record order_row_array =
  ar_id :: u64
  ar_price :: u64
  ar_qty :: u64

text \<open>Only elements below 1024 are reached; a pointer to an element is its index.\<close>

record OrderDb_array =
  orders_elems :: "u32 \<Rightarrow> order_row_array"
  orders_n :: u32

definition OrderDb_orders_Init :: "OrderDb_array \<Rightarrow> OrderDb_array" where
  "OrderDb_orders_Init s = s\<lparr>orders_n := 0\<rparr>"

definition OrderDb_orders_N :: "OrderDb_array \<Rightarrow> u32" where
  "OrderDb_orders_N s = orders_n s"

definition OrderDb_orders_EmptyQ :: "OrderDb_array \<Rightarrow> bool" where
  "OrderDb_orders_EmptyQ s \<longleftrightarrow> orders_n s = 0"

definition OrderDb_orders_AllocMaybe :: "OrderDb_array \<Rightarrow> u32 option \<times> OrderDb_array" where
  "OrderDb_orders_AllocMaybe s =
     (let i = orders_n s in if i < 1024 then (Some i, s\<lparr>orders_n := i + 1\<rparr>) else (None, s))"

definition OrderDb_orders_Alloc :: "OrderDb_array \<Rightarrow> u32 option \<times> OrderDb_array" where
  "OrderDb_orders_Alloc s =
     (let i = orders_n s in if i < 1024 then (Some i, s\<lparr>orders_n := i + 1\<rparr>) else (None, s))"

definition OrderDb_orders_qFind :: "u32 \<Rightarrow> OrderDb_array \<Rightarrow> u32 option" where
  "OrderDb_orders_qFind i s = (if i < orders_n s then Some i else None)"

text \<open>The count never passes the array, so every index found is inside it.\<close>

definition array_ok :: "OrderDb_array \<Rightarrow> bool" where
  "array_ok s \<longleftrightarrow> orders_n s \<le> 1024"

lemma array_ok_alloc: "array_ok s \<Longrightarrow> array_ok (snd (OrderDb_orders_Alloc s))"
  by (simp add: array_ok_def OrderDb_orders_Alloc_def Let_def inc_le)

lemma qFind_inside: "array_ok s \<Longrightarrow> OrderDb_orders_qFind i s = Some j \<Longrightarrow> j < 1024"
  by (auto simp: array_ok_def OrderDb_orders_qFind_def split: if_splits)

section \<open>Heap stub\<close>

record timer_row =
  timer_id :: u64
  bh_active_idx :: u32
  bh_active_inheap :: bool

record TimerDb =
  timer_rows :: "nat \<Rightarrow> timer_row"
  bh_active_elems :: "u32 \<Rightarrow> nat option"
  bh_active_n :: u32

definition TimerDb_bh_active_Init :: "TimerDb \<Rightarrow> TimerDb" where
  "TimerDb_bh_active_Init s = s\<lparr>bh_active_n := 0\<rparr>"

definition TimerDb_bh_active_N :: "TimerDb \<Rightarrow> u32" where
  "TimerDb_bh_active_N s = bh_active_n s"

definition TimerDb_bh_active_EmptyQ :: "TimerDb \<Rightarrow> bool" where
  "TimerDb_bh_active_EmptyQ s \<longleftrightarrow> bh_active_n s = 0"

definition TimerDb_bh_active_InBheapQ :: "nat \<Rightarrow> TimerDb \<Rightarrow> bool" where
  "TimerDb_bh_active_InBheapQ r s \<longleftrightarrow> bh_active_inheap (timer_rows s r)"

definition TimerDb_bh_active_First :: "TimerDb \<Rightarrow> nat option" where
  "TimerDb_bh_active_First s = (if bh_active_n s \<noteq> 0 then bh_active_elems s 0 else None)"

section \<open>Bounded string\<close>

text \<open>The array \<^verbatim>\<open>ch\<close> has 17 bytes.\<close>

record name_row =
  name_id :: u64
  ch :: "u8 list"
  n_ch :: u8

definition name_row_ch_Init :: "name_row \<Rightarrow> name_row" where
  "name_row_ch_Init r = r\<lparr>n_ch := 0\<rparr>"

definition name_row_ch_N :: "name_row \<Rightarrow> u8" where
  "name_row_ch_N r = n_ch r"

definition name_row_ch_Max :: u32 where
  "name_row_ch_Max = 16"

definition name_row_ch_Add :: "u8 \<Rightarrow> name_row \<Rightarrow> name_row" where
  "name_row_ch_Add c r =
     (let i = (ucast (n_ch r) :: u32)
      in if i < 16 then r\<lparr>ch := (ch r)[unat i := c], n_ch := ucast (i + 1)\<rparr> else r)"

definition name_text :: "name_row \<Rightarrow> u8 list" where
  "name_text r = take (unat (n_ch r)) (ch r)"

definition name_ok :: "name_row \<Rightarrow> bool" where
  "name_ok r \<longleftrightarrow> length (ch r) = 17 \<and> n_ch r \<le> 16"

lemma name_text_add:
  assumes "name_ok r"
  shows "name_ok (name_row_ch_Add c r) \<and>
    name_text (name_row_ch_Add c r) = (if length (name_text r) < 16 then name_text r @ [c] else name_text r)"
proof -
  let ?n = "unat (n_ch r)"
  have n: "?n \<le> 16" and len: "length (ch r) = 17" using assms by (simp_all add: name_ok_def word_le_nat_alt)
  have i: "unat (ucast (n_ch r) :: u32) = ?n"
    unfolding unsigned_ucast_eq using n by (simp add: take_bit_nat_eq_self)
  have l: "length (name_text r) = ?n" using n len by (simp add: name_text_def)
  show ?thesis
  proof (cases "?n < 16")
    case True
    then have lt: "(ucast (n_ch r) :: u32) < 16" using i by (simp add: word_less_nat_alt)
    have "unat (ucast (n_ch r) + 1 :: u32) = Suc ?n" using True i by (simp add: unat_word_ariths)
    then have n': "unat (ucast (ucast (n_ch r) + 1 :: u32) :: u8) = Suc ?n"
      unfolding unsigned_ucast_eq using True by (simp add: take_bit_nat_eq_self)
    show ?thesis
      using True lt i n' len l
      by (simp add: name_row_ch_Add_def name_ok_def name_text_def word_le_nat_alt take_Suc_conv_app_nth)
  next
    case False
    then have "\<not> (ucast (n_ch r) :: u32) < 16" using i by (simp add: word_less_nat_alt)
    then show ?thesis using False assms l by (simp add: name_row_ch_Add_def)
  qed
qed

section \<open>Up pointer\<close>

record level_row =
  lr_price :: u64

record child_row =
  cr_id :: u64
  p_level :: "nat option"

definition child_row_p_level_Init :: "child_row \<Rightarrow> child_row" where
  "child_row_p_level_Init r = r\<lparr>p_level := None\<rparr>"

definition child_row_p_level_Get :: "child_row \<Rightarrow> nat option" where
  "child_row_p_level_Get r = p_level r"

definition child_row_p_level_Set :: "nat option \<Rightarrow> child_row \<Rightarrow> child_row" where
  "child_row_p_level_Set p r = r\<lparr>p_level := p\<rparr>"

definition child_row_p_level_Q :: "child_row \<Rightarrow> bool" where
  "child_row_p_level_Q r \<longleftrightarrow> p_level r \<noteq> None"

section \<open>Tree stub\<close>

record price_level =
  pl_price :: u64
  bids_parent :: "nat option"
  bids_left :: "nat option"
  bids_right :: "nat option"
  bids_intree :: bool

record BookDb =
  tree_rows :: "nat \<Rightarrow> price_level"
  bids_root :: "nat option"
  bids_n :: u32

definition BookDb_bids_Init :: "BookDb \<Rightarrow> BookDb" where
  "BookDb_bids_Init s = s\<lparr>bids_root := None, bids_n := 0\<rparr>"

definition BookDb_bids_N :: "BookDb \<Rightarrow> u32" where
  "BookDb_bids_N s = bids_n s"

definition BookDb_bids_EmptyQ :: "BookDb \<Rightarrow> bool" where
  "BookDb_bids_EmptyQ s \<longleftrightarrow> bids_n s = 0"

definition BookDb_bids_InAtreeQ :: "nat \<Rightarrow> BookDb \<Rightarrow> bool" where
  "BookDb_bids_InAtreeQ r s \<longleftrightarrow> bids_intree (tree_rows s r)"

definition BookDb_bids_First :: "BookDb \<Rightarrow> nat option" where
  "BookDb_bids_First s = bids_root s"

definition BookDb_bids_Last :: "BookDb \<Rightarrow> nat option" where
  "BookDb_bids_Last s = bids_root s"

text \<open>The key is not looked at.\<close>

definition BookDb_bids_Find :: "u32 \<Rightarrow> BookDb \<Rightarrow> nat option" where
  "BookDb_bids_Find key s = bids_root s"

end
