(* ===== verification/Amcc_Drivers.thy ===== *)
theory Amcc_Drivers
  imports Amcc_Hash Amcc_List Amcc_Table Amcc_Pool Amcc_Array Decimal "HOL-Library.Monad_Syntax"
begin

text \<open>
  The programs \<^verbatim>\<open>scripts/*_driver.c\<close> that exercise the generated structures.  A program is the
  sequence of its statements over the globals and the locals it uses; what it prints is a list of
  lines, to be compared with \<^verbatim>\<open>scripts/*_expected.txt\<close>.
\<close>

section \<open>Programs\<close>

type_synonym 's stmt = "'s \<Rightarrow> (string list \<times> 's) option"

fun run_stmts :: "'s stmt list \<Rightarrow> 's \<Rightarrow> (string list \<times> 's) option" where
  "run_stmts [] s = Some ([], s)"
| "run_stmts (c # cs) s = do { (a, s) \<leftarrow> c s; (b, s) \<leftarrow> run_stmts cs s; Some (a @ b, s) }"

text \<open>A statement that prints nothing, one that prints a line, and one that prints a result.\<close>

definition act :: "('s \<Rightarrow> 's) \<Rightarrow> 's stmt" where
  "act f s = Some ([], f s)"

definition say :: "('s \<Rightarrow> string) \<Rightarrow> 's stmt" where
  "say f s = Some ([f s], s)"

definition say_result :: "('s \<Rightarrow> bool \<times> 's) \<Rightarrow> 's stmt" where
  "say_result f s = (let (b, s) = f s in Some ([if b then ''1'' else ''0''], s))"

definition pb :: "bool \<Rightarrow> string" where
  "pb b = (if b then ''1'' else ''0'')"

definition pu :: "'a :: len word \<Rightarrow> string" where
  "pu w = to_string (uint w)"

section \<open>The linked list\<close>

text \<open>The rows \<^verbatim>\<open>a\<close>, \<^verbatim>\<open>b\<close>, \<^verbatim>\<open>c\<close> on the stack of \<^verbatim>\<open>main\<close>, and the zero global.\<close>

definition task_abc :: TaskDb where
  "task_abc = \<lparr>task_rows = (\<lambda>r. \<lparr>task_id = of_nat (r + 1), zdl_todo_next = None, zdl_todo_prev = None, zdl_todo_inlist = False\<rparr>),
     zdl_todo_head = None, zdl_todo_n = 0\<rparr>"

partial_function (option) chain_ids :: "TaskDb \<Rightarrow> nat option \<Rightarrow> string option" where
  [code]: "chain_ids s p = (case p of
     None \<Rightarrow> Some []
   | Some q \<Rightarrow> do { l \<leftarrow> chain_ids s (TaskDb_zdl_todo_Next q s); Some (pu (task_id (task_rows s q)) @ '' '' @ l) })"

definition chain_stmt :: "TaskDb stmt" where
  "chain_stmt s = do { l \<leftarrow> chain_ids s (TaskDb_zdl_todo_First s); Some ([l @ ''| '' @ pu (TaskDb_zdl_todo_N s)], s) }"

definition llist_main :: "TaskDb stmt list" where
  "llist_main = (let a = 0; b = 1; c = 2 in
    [act TaskDb_zdl_todo_Init,
     say (\<lambda>s. pb (TaskDb_zdl_todo_EmptyQ s)), say (\<lambda>s. pu (TaskDb_zdl_todo_N s)), say (\<lambda>s. pb (TaskDb_zdl_todo_First s = None)),
     act (TaskDb_zdl_todo_Insert a), act (TaskDb_zdl_todo_Insert b), act (TaskDb_zdl_todo_Insert c), chain_stmt,
     say (\<lambda>s. pb (TaskDb_zdl_todo_EmptyQ s)), say (\<lambda>s. pb (TaskDb_zdl_todo_InLlistQ a s)),
     say (\<lambda>s. pb (TaskDb_zdl_todo_Prev c s = None)), say (\<lambda>s. pb (TaskDb_zdl_todo_Prev b s = Some c)),
     say (\<lambda>s. pb (TaskDb_zdl_todo_Prev a s = Some b)), say (\<lambda>s. pb (TaskDb_zdl_todo_Next a s = None)),
     act (TaskDb_zdl_todo_Insert b), chain_stmt,
     act (TaskDb_zdl_todo_Remove b), chain_stmt,
     say (\<lambda>s. pb (TaskDb_zdl_todo_InLlistQ b s)), say (\<lambda>s. pb (TaskDb_zdl_todo_Prev a s = Some c)),
     act (TaskDb_zdl_todo_Remove b), chain_stmt,
     act (TaskDb_zdl_todo_Remove c), chain_stmt, say (\<lambda>s. pb (TaskDb_zdl_todo_Prev a s = None)),
     act (TaskDb_zdl_todo_Remove a), chain_stmt, say (\<lambda>s. pb (TaskDb_zdl_todo_EmptyQ s)),
     act (TaskDb_zdl_todo_Insert a), act (TaskDb_zdl_todo_Insert b), act (TaskDb_zdl_todo_Insert c),
     act (TaskDb_zdl_todo_Remove c), chain_stmt,
     act (TaskDb_zdl_todo_Insert c), act (TaskDb_zdl_todo_Remove c), chain_stmt])"

lemma llist_output:
  "map_option fst (run_stmts llist_main task_abc) = Some
     [''1'', ''0'', ''1'', ''3 2 1 | 3'', ''0'', ''1'', ''1'', ''1'', ''1'', ''1'', ''3 2 1 | 3'', ''3 1 | 2'', ''0'', ''1'', ''3 1 | 2'',
      ''1 | 1'', ''1'', ''| 0'', ''1'', ''2 1 | 2'', ''2 1 | 2'']"
  by code_simp

section \<open>The hash index\<close>

text \<open>The rows \<^verbatim>\<open>a\<close>, \<^verbatim>\<open>b\<close>, \<^verbatim>\<open>c\<close>, \<^verbatim>\<open>d\<close> and \<^verbatim>\<open>dup\<close>.\<close>

definition item_abcd :: ItemDb where
  "item_abcd = (let row = (\<lambda>i q. \<lparr>ir_id = i, ir_qty = q, ind_item_next = None, ind_item_inhash = False\<rparr>) in
     \<lparr>item_rows = (\<lambda>_. row 0 0)(0 := row 1 100, 1 := row 9 200, 2 := row 17 300, 3 := row 2 400, 4 := row 9 999),
      ind_item_buckets = (\<lambda>_. None), ind_item_n = 0\<rparr>)"

definition pf :: "u32 \<Rightarrow> ItemDb stmt" where
  "pf k = say (\<lambda>s. case ItemDb_ind_item_Find k s of
     Some r \<Rightarrow> pu (ir_id (item_rows s r)) @ '':'' @ pu (ir_qty (item_rows s r)) | None \<Rightarrow> ''-'')"

definition thash_main :: "ItemDb stmt list" where
  "thash_main = (let a = 0; b = 1; c = 2; d = 3; dup = 4; n = say (\<lambda>s. pu (ItemDb_ind_item_N s));
      insert = (\<lambda>r. say_result (ItemDb_ind_item_InsertMaybe r)); remove = (\<lambda>r. act (ItemDb_ind_item_Remove r)) in
    [act ItemDb_ind_item_Init, n, pf 1,
     insert a, insert b, insert c, insert d, n,
     pf 1, pf 9, pf 17, pf 2, pf 5, pf 25,
     insert dup, n, pf 9,
     insert a, n,
     remove c, n, pf 17, pf 9, pf 1,
     insert c, remove b, n, pf 9, pf 17, pf 1,
     remove a, n, pf 1, pf 17,
     remove a, n,
     insert a, n, pf 1])"

lemma thash_output:
  "map_option fst (run_stmts thash_main item_abcd) = Some
     [''0'', ''-'', ''1'', ''1'', ''1'', ''1'', ''4'', ''1:100'', ''9:200'', ''17:300'', ''2:400'', ''-'', ''-'', ''0'', ''4'', ''9:200'',
      ''0'', ''4'', ''3'', ''-'', ''9:200'', ''1:100'', ''1'', ''3'', ''-'', ''17:300'', ''1:100'', ''2'', ''-'', ''17:300'', ''2'',
      ''1'', ''3'', ''1:100'']"
  by code_simp

section \<open>The keyed table\<close>

definition pfound :: "u64 \<Rightarrow> order_row_table list stmt" where
  "pfound k = say (\<lambda>g. pb (order_Find k g \<noteq> None))"

definition pfield :: "u64 \<Rightarrow> nat \<Rightarrow> order_row_table list stmt" where
  "pfield k which = say (\<lambda>g. case order_Find k g of
     None \<Rightarrow> ''absent'' | Some i \<Rightarrow> pu (if which = 0 then or_price (g ! i) else or_qty (g ! i)))"

definition orders_main :: "order_row_table list stmt list" where
  "orders_main = (let insert = (\<lambda>i p n. say_result (order_InsertMaybe i p n)); remove = (\<lambda>i. say_result (order_Remove i)) in
    [insert 7 100 5, pfound 7, pfield 7 0, pfield 7 1, pfound 8, remove 7, pfound 7, pfield 7 0,
     insert 1 10 1, insert 2 20 2, insert 3 30 3, insert 4 40 4, insert 5 50 5, remove 2, insert 5 50 5, pfield 5 0])"

lemma orders_output:
  "map_option fst (run_stmts orders_main (replicate 4 \<lparr>or_id = 0, or_price = 0, or_qty = 0, or_occupied = False\<rparr>)) = Some
     [''1'', ''1'', ''100'', ''5'', ''0'', ''1'', ''0'', ''absent'', ''1'', ''1'', ''1'', ''1'', ''0'', ''1'', ''1'', ''50'']"
  by code_simp

section \<open>The row pool\<close>

text \<open>The global with the five pointers of \<^verbatim>\<open>main\<close>.\<close>

record pool_frame =
  pool_db :: OrderDb_pool
  pa :: "nat option"
  pb_ptr :: "nat option"
  pc :: "nat option"
  pd :: "nat option"
  pe :: "nat option"

definition alloc_to :: "(nat option \<Rightarrow> pool_frame \<Rightarrow> pool_frame) \<Rightarrow> pool_frame stmt" where
  "alloc_to upd s = (let (p, g) = OrderDb_row_Alloc (pool_db s) in Some ([pb (p \<noteq> None)], upd p (s\<lparr>pool_db := g\<rparr>)))"

text \<open>\<^verbatim>\<open>p->price = v\<close> and \<^verbatim>\<open>printf(p->price)\<close>.\<close>

definition store_price :: "(pool_frame \<Rightarrow> nat option) \<Rightarrow> u64 \<Rightarrow> pool_frame stmt" where
  "store_price ptr v s = do {
     p \<leftarrow> ptr s;
     Some ([], s\<lparr>pool_db := (pool_db s)\<lparr>db_row := (db_row (pool_db s))(p := (db_row (pool_db s) p)\<lparr>pr_price := v\<rparr>)\<rparr>\<rparr>)
   }"

definition say_price :: "(pool_frame \<Rightarrow> nat option) \<Rightarrow> pool_frame stmt" where
  "say_price ptr s = do { p \<leftarrow> ptr s; Some ([pu (pr_price (db_row (pool_db s) p))], s) }"

definition free_ptr :: "(pool_frame \<Rightarrow> nat option) \<Rightarrow> pool_frame stmt" where
  "free_ptr ptr s = do { p \<leftarrow> ptr s; Some ([], s\<lparr>pool_db := OrderDb_row_Free p (pool_db s)\<rparr>) }"

definition pool_main :: "pool_frame stmt list" where
  "pool_main = (let n = say (\<lambda>s. pu (OrderDb_row_N (pool_db s))) in
    [act (\<lambda>s. s\<lparr>pool_db := OrderDb_row_Init (pool_db s)\<rparr>), n,
     alloc_to (\<lambda>p s. s\<lparr>pa := p\<rparr>), alloc_to (\<lambda>p s. s\<lparr>pb_ptr := p\<rparr>), alloc_to (\<lambda>p s. s\<lparr>pc := p\<rparr>), alloc_to (\<lambda>p s. s\<lparr>pd := p\<rparr>), n,
     alloc_to (\<lambda>p s. s\<lparr>pe := p\<rparr>),
     say (\<lambda>s. pb (pa s \<noteq> pb_ptr s \<and> pb_ptr s \<noteq> pc s \<and> pc s \<noteq> pd s \<and> pa s \<noteq> pd s)),
     store_price pa 111, store_price pb_ptr 222, store_price pc 333, store_price pd 444, say_price pa,
     free_ptr pb_ptr, n,
     alloc_to (\<lambda>p s. s\<lparr>pe := p\<rparr>), say (\<lambda>s. pb (pe s = pb_ptr s)), n,
     say_price pa, say_price pd])"

definition pool_start :: pool_frame where
  "pool_start = \<lparr>pool_db = \<lparr>db_row = (\<lambda>_. \<lparr>pr_id = 0, pr_price = 0, pr_qty = 0, pr_freenext = None\<rparr>), row_free = None, row_n = 0\<rparr>,
     pa = None, pb_ptr = None, pc = None, pd = None, pe = None\<rparr>"

lemma pool_output:
  "map_option fst (run_stmts pool_main pool_start) = Some
     [''0'', ''1'', ''1'', ''1'', ''1'', ''4'', ''0'', ''1'', ''111'', ''3'', ''1'', ''1'', ''4'', ''111'', ''444'']"
  by code_simp

section \<open>The up pointer\<close>

text \<open>The four structs of \<^verbatim>\<open>main\<close>; the parents have the addresses 0 and 1.\<close>

record upptr_frame =
  parents :: "level_row list"
  kid :: child_row
  other :: child_row

definition upptr_main :: "upptr_frame stmt list" where
  "upptr_main = (let parent_a = Some 0; parent_b = Some 1; init = act (\<lambda>s. s\<lparr>kid := child_row_p_level_Init (kid s)\<rparr>);
      set_p = (\<lambda>p. act (\<lambda>s. s\<lparr>kid := child_row_p_level_Set p (kid s)\<rparr>)) in
    [init,
     say (\<lambda>s. pb (child_row_p_level_Get (kid s) = None)), say (\<lambda>s. pb (child_row_p_level_Q (kid s))), say (\<lambda>s. pb (cr_id (kid s) = 7)),
     set_p parent_a,
     say (\<lambda>s. pb (child_row_p_level_Get (kid s) = parent_a)), say (\<lambda>s. pb (child_row_p_level_Q (kid s))),
     set_p parent_b, say (\<lambda>s. pb (child_row_p_level_Get (kid s) = parent_b)),
     act (\<lambda>s. s\<lparr>other := child_row_p_level_Init (other s)\<rparr>), set_p parent_a,
     say (\<lambda>s. pb (child_row_p_level_Get (other s) = None)), say (\<lambda>s. pb (cr_id (kid s) = 7 \<and> cr_id (other s) = 9)),
     say (\<lambda>s. pb (map lr_price (parents s) = [100, 200])),
     init, init, say (\<lambda>s. pb (child_row_p_level_Q (kid s)))])"

lemma upptr_output:
  "map_option fst (run_stmts upptr_main \<lparr>parents = [\<lparr>lr_price = 100\<rparr>, \<lparr>lr_price = 200\<rparr>], kid = \<lparr>cr_id = 7, p_level = Some 1\<rparr>,
     other = \<lparr>cr_id = 9, p_level = None\<rparr>\<rparr>) = Some [''1'', ''0'', ''1'', ''1'', ''1'', ''1'', ''1'', ''1'', ''1'', ''0'']"
  by code_simp

section \<open>The bounded string\<close>

text \<open>\<^verbatim>\<open>show\<close> reads the first \<open>n\<close> of 17 bytes.\<close>

definition show_stmt :: "string \<Rightarrow> name_row stmt" where
  "show_stmt tag r = (let n = unat (name_row_ch_N r) in
     if n \<le> length (ch r)
     then Some ([tag @ '' n='' @ pu (name_row_ch_N r) @ '' abs='' @ [CHR 0x22] @ map (\<lambda>c. char_of (unat c)) (take n (ch r)) @ [CHR 0x22]], r)
     else None)"

definition add_char :: "char \<Rightarrow> name_row stmt" where
  "add_char c = act (name_row_ch_Add (of_char c))"

text \<open>\<^verbatim>\<open>memset(&row, 0xEE, sizeof row)\<close>\<close>

definition junk_row :: name_row where
  "junk_row = \<lparr>name_id = 0xEEEEEEEEEEEEEEEE, ch = replicate 17 0xEE, n_ch = 0xEE\<rparr>"

definition smallstr_main :: "name_row stmt list" where
  "smallstr_main =
     [act (\<lambda>r. junk_row), act name_row_ch_Init, show_stmt ''init  '', say (\<lambda>r. ''max    '' @ pu name_row_ch_Max),
      add_char CHR ''a'', show_stmt ''add a '', add_char CHR ''b'', show_stmt ''add b '', add_char CHR ''c'', show_stmt ''add c ''] @
     map (\<lambda>i. act (name_row_ch_Add (of_nat (48 + i mod 10)))) [0..<13] @
     [show_stmt ''full  '', add_char CHR ''Z'', show_stmt ''add Z '', say (\<lambda>r. ''dead   '' @ pu (ch r ! 16)),
      act name_row_ch_Init, show_stmt ''reinit'']"

definition quoted :: "string \<Rightarrow> string" where
  "quoted s = [CHR 0x22] @ s @ [CHR 0x22]"

text \<open>One addition, and the bytes of \<^verbatim>\<open>memset\<close> one by one.\<close>

lemma add_step:
  "name_row_ch_Add c \<lparr>name_id = i, ch = cs, n_ch = n\<rparr> =
     (if n < 16 then \<lparr>name_id = i, ch = cs[unat n := c], n_ch = n + 1\<rparr> else \<lparr>name_id = i, ch = cs, n_ch = n\<rparr>)"
proof -
  have u: "unat (ucast n :: u32) = unat n"
    unfolding unsigned_ucast_eq using unsigned_less[of n, where 'a = nat] by (simp add: take_bit_nat_eq_self)
  then have lt: "(ucast n :: u32) < 16 \<longleftrightarrow> n < 16" by (simp add: word_less_nat_alt)
  have "(ucast (ucast n + 1 :: u32) :: u8) = n + 1" if "n < 16"
  proof -
    have "unat n < 16" using that by (simp add: word_less_nat_alt)
    then have "unat (ucast n + 1 :: u32) = Suc (unat n)" "unat (n + 1) = Suc (unat n)" using u by (simp_all add: unat_word_ariths)
    moreover have "unat (ucast (ucast n + 1 :: u32) :: u8) = take_bit 8 (unat (ucast n + 1 :: u32))"
      unfolding unsigned_ucast_eq by simp
    ultimately have "unat (ucast (ucast n + 1 :: u32) :: u8) = unat (n + 1)"
      using \<open>unat n < 16\<close> by (simp add: take_bit_nat_eq_self)
    then show ?thesis by (simp add: word_unat_eq_iff)
  qed
  then show ?thesis using u lt by (simp add: name_row_ch_Add_def Let_def)
qed

lemma junk_bytes: "junk_row = \<lparr>name_id = 0xEEEEEEEEEEEEEEEE, ch = [0xEE, 0xEE, 0xEE, 0xEE, 0xEE, 0xEE, 0xEE, 0xEE, 0xEE,
    0xEE, 0xEE, 0xEE, 0xEE, 0xEE, 0xEE, 0xEE, 0xEE], n_ch = 0xEE\<rparr>"
  by (simp add: junk_row_def numeral_eq_Suc)

lemma smallstr_output:
  "map_option fst (run_stmts smallstr_main r) = Some
     [''init   n=0 abs='' @ quoted [], ''max    16'', ''add a  n=1 abs='' @ quoted ''a'', ''add b  n=2 abs='' @ quoted ''ab'',
      ''add c  n=3 abs='' @ quoted ''abc'', ''full   n=16 abs='' @ quoted ''abc0123456789012'', ''add Z  n=16 abs='' @ quoted ''abc0123456789012'',
      ''dead   238'', ''reinit n=0 abs='' @ quoted []]"
  by (simp add: smallstr_main_def junk_bytes name_row_ch_Init_def act_def say_def add_char_def add_step show_stmt_def name_row_ch_N_def
      name_row_ch_Max_def quoted_def pu_def to_string_def digits.simps digit_char_def upt_rec) code_simp

end
