(* ===== verification/Spec2Isabelle.thy ===== *)
theory Spec2Isabelle
  imports Engines_Agree Data_Laws Engine_Sessions Cpp_Priority Cpp_Amend Harness_Main Amcc_Drivers
begin

text \<open>
  A model of the matching engines of this repository and proofs about them.

  \<^bold>\<open>The program.\<close>  The C engine is \<^verbatim>\<open>src/c\<close>: a handwritten data layer
  (\<^verbatim>\<open>matching_engine_gen.c\<close>: row pools, a hash index of orders, a queue per price level, two price
  trees), a matcher that is generated from a Lean proof (\<^verbatim>\<open>gen/matcher.c\<close>) and reaches the data
  layer only through the functions of \<^verbatim>\<open>gen/engine_db.h\<close>, the adapter that implements these
  functions (\<^verbatim>\<open>gen/engine_db_adapter.c\<close>), the public functions over it
  (\<^verbatim>\<open>gen/matcher_glue.c\<close>), and an older handwritten engine with the same public functions
  (\<^verbatim>\<open>src/matching_engine.c\<close>).  The C++ reference engine (\<^verbatim>\<open>cpp_reference/src\<close>) has more order
  types and its own heap of orders and levels; a harness (\<^verbatim>\<open>cpp_reference/tools/conformance\<close>)
  replays traces against it.  \<^verbatim>\<open>scripts/gen\<close> holds small structures printed by a generator.

  \<^bold>\<open>Theories.\<close>

  \<^item> \<^verbatim>\<open>Prelude\<close>, \<^verbatim>\<open>Linked\<close>, \<^verbatim>\<open>Linked_Tree\<close>: words, faults, chains, doubly linked
    segments and trees over field functions, shared by every component.
  \<^item> \<^verbatim>\<open>Machine\<close>: the structs of \<^verbatim>\<open>matching_engine_gen.h\<close> as records of field functions and the
    memory they live in; \<^verbatim>\<open>Pools\<close>, \<^verbatim>\<open>Hash_Index\<close>, \<^verbatim>\<open>Order_Queue\<close>, \<^verbatim>\<open>Price_Tree\<close>: the functions
    \<^verbatim>\<open>EngineDb_*\<close>, \<^verbatim>\<open>PriceLevel_orders_*\<close> and \<^verbatim>\<open>tree_*\<close>, each with its representation predicate and
    the law of every operation.  \<^verbatim>\<open>Data_Laws\<close> states the laws as properties of their own.
  \<^item> \<^verbatim>\<open>Engine_Db\<close>: the contract of \<^verbatim>\<open>engine_db.h\<close> as the record \<open>engine_api\<close> and the locales
    \<open>row_store\<close>, \<open>indexed_store\<close> and \<open>engine_db\<close> that state what its functions promise about an
    abstract store.  \<^verbatim>\<open>Store_Rep\<close> and \<^verbatim>\<open>Data_Layer\<close> show once that the data layer keeps the
    promises; \<^verbatim>\<open>Adapter\<close> and \<^verbatim>\<open>Hand_Engine\<close> interpret the locale for the generated matcher and for
    the handwritten engine.
  \<^item> \<^verbatim>\<open>Book\<close>: the specification, on plain values: books as sorted lists of levels, and what an
    order, a cancellation and a fill do to them.  \<^verbatim>\<open>Order_Laws\<close>: what follows for one order.
  \<^item> \<^verbatim>\<open>Gen_Matcher\<close>: the generated matcher over any \<open>engine_api\<close>, each loop with its bound and each
    arithmetic step with its trap.  \<^verbatim>\<open>Views\<close>, \<^verbatim>\<open>Refinement\<close>: it computes the specification and never
    traps over any store that keeps the contract.  \<^verbatim>\<open>Glue\<close>, \<^verbatim>\<open>System\<close>, \<^verbatim>\<open>Samples\<close>: the public
    functions, the states they reach from initialisation, and runs for the witnesses.
  \<^item> \<^verbatim>\<open>Hand_Engine\<close>, \<^verbatim>\<open>Hand_Refinement\<close>, \<^verbatim>\<open>Hand_System\<close>, \<^verbatim>\<open>Check_Invariants\<close>: the handwritten
    engine, the same specification for it below the quantity and capacity limits only the generated
    matcher checks, its reachable states, and the run-time self check.  \<^verbatim>\<open>Engines_Agree\<close> compares
    the two.
  \<^item> \<^verbatim>\<open>Cpp_Types\<close>, \<^verbatim>\<open>Cpp_Engine\<close>, \<^verbatim>\<open>Cpp_Match\<close>: \<^verbatim>\<open>types.h\<close> and every member function of
    \<^verbatim>\<open>engine.h\<close>; \<^verbatim>\<open>Cpp_Laws\<close>: the level list and the order index; \<^verbatim>\<open>Cpp_Runs\<close>: the quantity check,
    rejected orders, and runs that break the written specification.
  \<^item> \<^verbatim>\<open>Cpp_Heap\<close>, \<^verbatim>\<open>Cpp_Inv\<close>, \<^verbatim>\<open>Cpp_Blocks\<close>: total correctness of runs in an \<open>option\<close>, the invariant
    of the C++ engine (books, heap, index, counters), and the steps that keep it.  \<^verbatim>\<open>Cpp_Leave\<close>:
    cancellation, expiry and destruction; \<^verbatim>\<open>Cpp_Queue\<close>, \<^verbatim>\<open>Cpp_Safe\<close>, \<^verbatim>\<open>Cpp_Loops\<close>, \<^verbatim>\<open>Cpp_Active\<close>: the
    matching loops and the steps around them; \<^verbatim>\<open>Cpp_Cascade\<close>: the mutual recursion with the stop
    orders, as two locales that every depth of the cascade interprets; \<^verbatim>\<open>Cpp_System\<close>: the entry
    points and the reachable states; \<^verbatim>\<open>Cpp_Contract\<close>: what the engine promises its callers.
  \<^item> \<^verbatim>\<open>Cpp_Lists\<close>, \<^verbatim>\<open>Cpp_Refines\<close>, \<^verbatim>\<open>Cpp_Amend\<close>: the C++ engine on plain lists (\<open>match_spec\<close>,
    \<open>submit_spec\<close>, \<open>cancel_spec\<close>, \<open>amend_spec\<close>), and the proof that the code on its heap of orders and
    levels, its maps and its index computes them; \<^verbatim>\<open>Cpp_Priority\<close>: price priority, read off the lists.
  \<^item> \<^verbatim>\<open>Cpp_Agree\<close>, \<^verbatim>\<open>Engine_Sessions\<close>: the list engine of C++ does what the specification of the C
    engines says on the orders both know; sessions of calls, the locale \<open>order_engine\<close> of an engine
    that follows the specification call by call, and its interpretation by all three engines.
  \<^item> \<^verbatim>\<open>Decimal\<close>: decimal printing.  \<^verbatim>\<open>Harness_Json\<close>, \<^verbatim>\<open>Harness_Replay\<close>, \<^verbatim>\<open>Harness_Main\<close>:
    \<^verbatim>\<open>conformance_harness.cpp\<close>: the JSON reader, the comparison and the replay of a trace against the
    model of the C++ engine, and \<^verbatim>\<open>main\<close> with the file system as an argument.
  \<^item> \<^verbatim>\<open>Amcc_Hash\<close>, \<^verbatim>\<open>Amcc_List\<close>, \<^verbatim>\<open>Amcc_Table\<close>, \<^verbatim>\<open>Amcc_Pool\<close>, \<^verbatim>\<open>Amcc_Array\<close>: the files of
    \<^verbatim>\<open>scripts/gen\<close>.  \<^verbatim>\<open>Amcc_Drivers\<close>: the programs \<^verbatim>\<open>scripts/*_driver.c\<close> that exercise them, evaluated
    to the lines of \<^verbatim>\<open>scripts/*_expected.txt\<close>.

  \<^bold>\<open>How code is modelled.\<close>  Rows are addresses and a pointer is an \<open>option\<close> of one.  Integers of
  the C code are words of their width; \<^verbatim>\<open>Price\<close> and \<^verbatim>\<open>Quantity\<close> of the C++ code are integers
  whose sums are checked, because their overflow is undefined.  \<open>None\<close> is a run without a defined
  result (a null or dangling access, a failed \<^verbatim>\<open>assert\<close>, an endless loop).  The generated matcher
  can also stop on purpose; its results are in \<open>fault + 'a\<close>.  Calls of a listener or callback are
  the sequence of their arguments; the callback of the C engine is an argument of the model that
  changes the user data only.  The memory allocator of the data layer is a stream of answers, any
  of which may be a failure in the model of its functions.

  \<^bold>\<open>Assumptions.\<close>  The reachable states of both C engines (\<open>reachable\<close>, \<open>hand_reachable\<close>) start from a memory whose
  allocations all succeed (\<open>alloc_ok\<close> is constantly true in \<open>start_adapter\<close> and \<open>start_hand\<close>): the code ignores
  a failed allocation of the bucket array, and the next lookup then dereferences null
  (\<^verbatim>\<open>Data_Laws\<close>).  Everything said of reachable states of the C engines is under this assumption, as
  are the sessions in which the engines are compared.  \<^verbatim>\<open>std::sort\<close> in \<^verbatim>\<open>evalStops\<close> is modelled by a
  stable sort.  The code's sort may order stop orders of equal time in any way, and times
  can be equal after \<^verbatim>\<open>setTime\<close> has moved the clock back; the proofs do not depend on the order, as
  \<open>run_triggered_keeps\<close> of \<^verbatim>\<open>Cpp_Cascade\<close> holds for the triggered orders in any order.

  \<^bold>\<open>Bounds.\<close>  The loops of the generated matcher run at most capacity + 1 times, as in the code;
  \<open>calls_return\<close> shows that this is enough in every reachable state.  Loops that follow pointers
  are partial functions without a bound, so that each law that gives \<open>Some\<close> also says that the
  loop ends.  The stop cascade of the C++ engine recurses over what is left of \<open>MAX_CASCADE\<close>.
  Its reachable states are those of sessions with ids below \<open>2^31\<close>, quantities up to \<open>2^62\<close> and
  the policy \<open>REJECT\<close> for post-only orders: beyond these bounds the index hangs or is overrun, sums
  can overflow, and repricing can leave the range of valid prices, as the properties, lemmas and findings tell.
  The refinements to lists and the price priority of the C++ engine hold while no stop order waits, and the
  list specifications of post-only orders describe the policy \<open>REJECT\<close> only.  The three engines are compared on sessions
  of at most 500000 calls, the number of levels in the first chunk of the data layer, with ids below
  \<open>2^31\<close>, prices below \<open>2^63\<close>, quantities up to the limit of the generated matcher, and an account
  exactly when there is a self-trade policy.

  \<^bold>\<open>What is shown.\<close>  In this file: every call of the public functions on a reachable state returns;
  the generated matcher computes the specification for orders and cancellations; trades match
  resting orders in price-time priority (the opposite orders are used up from the front of the best
  level, and none is skipped), conserve quantity, never pair an account with itself
  under self-trade prevention, and leave no order that could still match; rejected orders change
  nothing; resting orders queue at the tail and cancelling restores the books; counters and
  callbacks reflect the trades; the run-time self check succeeds, prices do not cross and level
  totals are exact in every reachable state.  \<^verbatim>\<open>Engines_Agree\<close>: the handwritten engine meets the
  same specification and both engines agree; beyond the limits a level total overflows.
  \<^verbatim>\<open>Data_Laws\<close>: round trips and extremes of the data structures, initialisation and teardown, and
  two ways in which a failed allocation goes wrong.  \<^verbatim>\<open>Cpp_Laws\<close> and \<^verbatim>\<open>Cpp_Runs\<close>: round trip of
  the order index below \<open>2^31\<close> and its failure from there on, exactness of the fill-or-kill check,
  no trace of a rejected order, and a fill-or-kill order that is filled in part.  \<^verbatim>\<open>Cpp_Contract\<close>: in
  every reachable state of the C++ engine each call returns, the state is well formed (exact heap,
  index and counters), the book is uncrossed, matching respects limits and quantities and stops
  only for a reason, cancellation and expiry remove exactly what they should, the engine can be
  drained, and its destructor frees everything once.
  \<^verbatim>\<open>Cpp_Priority\<close> and \<^verbatim>\<open>Cpp_Amend\<close>: submission and amendment compute their specifications on lists
  (icebergs, minimum quantities, fill-or-kill, market-to-limit, post-only under \<open>REJECT\<close> and self-trade
  prevention included), and trades come best price first.  \<^verbatim>\<open>Engine_Sessions\<close>: the generated matcher, the
  handwritten engine and the C++ engine give the same answers to every session and end with the same
  books.
  \<^verbatim>\<open>Harness_Json\<close>, \<^verbatim>\<open>Harness_Replay\<close> and \<^verbatim>\<open>Harness_Main\<close>: a value printed by \<open>show_json\<close>, a compact
  printer of the model (no printer is in the sources), is read back; a trace passes
  exactly when the engine meets every expectation in it, and the exit code is that of the traces that
  could be read.  The theories of \<^verbatim>\<open>scripts/gen\<close>: the hash index
  with at most eight rows in a bucket and its failure with ten, the list, and the keyed table.

  \<^bold>\<open>Not modelled.\<close>  The benchmarks and profilers: they time the modelled functions on random workloads,
  with more resting orders than one chunk of levels, and print the times.  Tests and the random shadow
  test, which call the modelled functions; the compiler probes of CMake; the Lean and TLA+
  developments; \<^verbatim>\<open>thash-self\<close>, \<^verbatim>\<open>thash-nested\<close> and \<^verbatim>\<open>llist-nested\<close>, whose function bodies are those of
  \<^verbatim>\<open>thash\<close> and \<^verbatim>\<open>llist\<close>; \<^verbatim>\<open>tpool\<close>, which uses members its structs do not declare.  Stop orders and
  expiry have an invariant, totality and the laws in \<^verbatim>\<open>Cpp_Contract\<close>, but no specification on lists, and neither has the policy \<open>REPRICE\<close>: its branch is in the model
  (\<open>active_post_only\<close>) and runs of it are evaluated, no refinement covers it.
\<close>

section \<open>The public functions on reachable states\<close>

text \<open>
  C1: in every state the program can reach with memory allocations that succeed, processing any request (also a null one) and
  cancelling any id return: the matcher never traps, the adapter never aborts, no null pointer
  is dereferenced, and no loop runs forever or into its bound.
\<close>

theorem calls_return:
  assumes "reachable engine st"
  shows "(\<exists>ok engine' st'. MatchingEngine_ProcessOrder engine req st = Inr (ok, engine', st')) \<and>
    (\<exists>ok st'. MatchingEngine_CancelOrder engine i st = Inr (ok, st'))"
proof -
  have g: "good_state st" using assms by (rule reachable_good)
  from good_order[OF g] good_cancel[OF g] show ?thesis by metis
qed

theorem calls_return_witness:
  "\<exists>(engine :: unit MatchingEngine option) st.
     (\<exists>ok engine' st'. MatchingEngine_ProcessOrder engine None st = Inr (ok, engine', st')) \<and>
     (\<exists>ok st'. MatchingEngine_CancelOrder engine 1 st = Inr (ok, st'))"
proof -
  obtain engine st where "reachable (engine :: unit MatchingEngine option) st" by (rule sample_run)
  from calls_return[OF this, of None 1] show ?thesis by blast
qed

text \<open>
  C2: the generated matcher on the handwritten data layer computes exactly the value-level
  specification: the code it returns, the trades in the sink and the books it leaves are those
  of \<open>spec_process\<close>, and the books stay well formed (sorted levels, no empty level, unique
  ids, positive remainders, uncrossed, within capacity).
\<close>

theorem process_order_spec:
  assumes "adapter_books st cap B ts0" and "books_ok cap B"
  shows "\<exists>code B' st'. gen_process_order adapter_api q st = Inr (code, st') \<and>
    spec_process cap q B = (code, B', reported (db st')) \<and>
    adapter_books st' cap B' (reported (db st')) \<and> books_ok cap B'"
proof -
  obtain code B' ts where spec: "spec_process cap q B = (code, B', ts)" by (metis prod_cases3)
  obtain st' where run: "gen_process_order adapter_api q st = Inr (code, st')"
    using adapter.process_order_refines[OF assms spec] by blast
  from order_runs[OF assms run] run show ?thesis by blast
qed

theorem process_order_spec_witness:
  "\<exists>st st'. gen_process_order adapter_api (buy 2 101 3) st = Inr (0, st') \<and> reported (db st') = [sold] \<and>
     adapter_books st' ME_GLUE_CAPACITY (one_ask(Asks := [(100, [new_row (sell 1 100 5) 2])])) [sold]"
proof -
  obtain st st' where "adapter_books st ME_GLUE_CAPACITY one_ask []" "books_ok ME_GLUE_CAPACITY one_ask"
    by (rule sample_trade)
  from process_order_spec[OF this, of "buy 2 101 3"] show ?thesis
    unfolding buy_trades prod.inject by metis
qed

text \<open>
  C3: cancelling computes the specification: a resting id is removed from its level and the
  level from its tree when that empties it (code 1), an unknown id changes nothing (code 7).
\<close>

theorem cancel_order_spec:
  assumes "adapter_books st cap B ts0" and "books_ok cap B"
  shows "\<exists>st'. gen_cancel_order adapter_api i st = Inr (fst (spec_cancel i B), st') \<and>
    adapter_books st' cap (snd (spec_cancel i B)) [] \<and> books_ok cap (snd (spec_cancel i B))"
  using adapter.cancel_order_refines[OF assms, of i "fst (spec_cancel i B)" "snd (spec_cancel i B)"]
    spec_cancel_ok[OF assms(2), of i "fst (spec_cancel i B)" "snd (spec_cancel i B)"] by simp

theorem cancel_order_spec_witness:
  "\<exists>st st'. gen_cancel_order adapter_api 1 st = Inr (1, st') \<and>
     adapter_books st' ME_GLUE_CAPACITY (\<lambda>b. []) []"
proof -
  obtain st where "adapter_books st ME_GLUE_CAPACITY one_ask []" "books_ok ME_GLUE_CAPACITY one_ask"
    using sample_run by blast
  moreover have "spec_cancel 1 one_ask = (1, \<lambda>b. [])"
    by (auto simp: spec_cancel_def cancel_level_def sample_simps fun_eq_iff split: book.split)
  ultimately show ?thesis using cancel_order_spec[of st ME_GLUE_CAPACITY one_ask "[]" 1] by auto
qed

section \<open>What the reported trades satisfy\<close>

text \<open>
  C5: every reported trade is between the incoming order and an order that rested in the
  opposite book, at the resting price, within the incoming limit (unless it is a market
  order), for a positive quantity no larger than what rested.
\<close>

theorem trades_match_resting_orders:
  assumes "adapter_books st cap B ts0" and "books_ok cap B"
    and "gen_process_order adapter_api q st = Inr (code, st')" and "t \<in> set (reported (db st'))"
  shows "\<exists>(p, xs) \<in> set (B (contra q)). \<exists>x \<in> set xs. t_maker t = r_id x \<and> t_taker t = q_id q \<and>
    t_price t = p \<and> (q_otype q = 1 \<or> price_ok (contra q) p (q_price q)) \<and>
    0 < t_qty t \<and> t_qty t \<le> r_rem x"
proof -
  obtain B' where spec: "spec_process cap q B = (code, B', reported (db st'))"
    using order_runs[OF assms(1-3)] by blast
  obtain p xs where p: "(p, xs) \<in> set (B (contra q))" "trade_ok q p xs t"
    "q_otype q = 1 \<or> price_ok (contra q) p (q_price q)"
    using spec assms(4) by (rule spec_trade_ok)
  have "\<forall>x \<in> set xs. 0 < r_rem x" using assms(2) p(1) by (fastforce simp: books_ok_def levels_ok_def row_ok_def)
  with p show ?thesis by (fastforce simp: trade_ok_def)
qed

theorem trades_match_resting_orders_witness:
  "\<exists>st st'. gen_process_order adapter_api (buy 2 101 3) st = Inr (0, st') \<and> sold \<in> set (reported (db st')) \<and>
    (\<exists>(p, xs) \<in> set (one_ask (contra (buy 2 101 3))). \<exists>x \<in> set xs. t_maker sold = r_id x \<and>
      t_taker sold = q_id (buy 2 101 3) \<and> t_price sold = p \<and>
      (q_otype (buy 2 101 3) = 1 \<or> price_ok (contra (buy 2 101 3)) p (q_price (buy 2 101 3))) \<and>
      0 < t_qty sold \<and> t_qty sold \<le> r_rem x)"
proof -
  obtain st st' where s: "adapter_books st ME_GLUE_CAPACITY one_ask []" "books_ok ME_GLUE_CAPACITY one_ask"
    "gen_process_order adapter_api (buy 2 101 3) st = Inr (0, st')" "reported (db st') = [sold]"
    by (rule sample_trade)
  then have "sold \<in> set (reported (db st'))" by simp
  from trades_match_resting_orders[OF s(1-3) this] this s(3) show ?thesis by blast
qed

text \<open>
  C6: price-time priority.  The resting orders of the opposite book, best level first and oldest
  first within a level, are taken in turn: those at the front are used up completely, each in one trade
  at its price for all it has left (in none where self-trade prevention removes it); at most the next
  one loses a part; all others stay untouched and do not trade.  So every order ahead of one that
  trades is used up, no order or level is skipped, and no trade is followed by one at a better price.
\<close>

theorem trades_in_priority_order:
  assumes "adapter_books st cap B ts0" and "books_ok cap B"
    and "gen_process_order adapter_api q st = Inr (code, st')"
  shows "\<exists>B'. adapter_books st' cap B' (reported (db st')) \<and>
    in_turn q (level_rows (B (contra q))) (level_rows (B' (contra q))) (reported (db st')) \<and>
    sorted_wrt (\<lambda>t u. \<not> better (contra q) (t_price u) (t_price t)) (reported (db st'))"
proof -
  obtain B' where s: "spec_process cap q B = (code, B', reported (db st'))"
    and b: "adapter_books st' cap B' (reported (db st'))" using order_runs[OF assms] by blast
  from b spec_process_in_turn[OF s assms(2)] spec_process_best_first[OF s assms(2)] show ?thesis by blast
qed

theorem trades_in_priority_order_witness:
  "\<exists>st st' B'. gen_process_order adapter_api (buy 2 101 3) st = Inr (0, st') \<and> reported (db st') = [sold] \<and>
    adapter_books st' ME_GLUE_CAPACITY B' [sold] \<and>
    in_turn (buy 2 101 3) (level_rows (one_ask (contra (buy 2 101 3)))) (level_rows (B' (contra (buy 2 101 3)))) [sold] \<and>
    sorted_wrt (\<lambda>t u. \<not> better (contra (buy 2 101 3)) (t_price u) (t_price t)) [sold]"
proof -
  obtain st st' where s: "adapter_books st ME_GLUE_CAPACITY one_ask []" "books_ok ME_GLUE_CAPACITY one_ask"
    "gen_process_order adapter_api (buy 2 101 3) st = Inr (0, st')" "reported (db st') = [sold]"
    by (rule sample_trade)
  from trades_in_priority_order[OF s(1-3)] s(3,4) show ?thesis by auto
qed

section \<open>Acceptance and rejection\<close>

text \<open>
  C15: an order is accepted (code 0) exactly when its type, side, self-trade mode, quantity and
  price are in range, its id is not resting, a resting type finds the table not full, and a
  post-only order does not reach the opposite best price.
\<close>

theorem accepted_iff_valid:
  assumes "adapter_books st cap B ts0" and "books_ok cap B"
    and "gen_process_order adapter_api q st = Inr (code, st')"
  shows "code = 0 \<longleftrightarrow> q_otype q \<le> 3 \<and> q_side q \<le> 1 \<and> q_stp q \<le> 4 \<and> 0 < q_qty q \<and> q_qty q \<le> max_qty cap \<and>
    (q_otype q = 1 \<or> 0 < q_price q) \<and> q_id q \<notin> r_id ` set (book_rows B) \<and>
    \<not> ((q_otype q = 0 \<or> q_otype q = 3) \<and> unat cap \<le> length (book_rows B)) \<and>
    \<not> (q_otype q = 3 \<and> B (contra q) \<noteq> [] \<and> price_ok (contra q) (fst (hd (B (contra q)))) (q_price q))"
proof -
  obtain B' where "spec_process cap q B = (code, B', reported (db st'))"
    using order_runs[OF assms] by blast
  then show ?thesis by (rule spec_accepts)
qed

theorem accepted_iff_valid_witness:
  "\<exists>st st'. gen_process_order adapter_api (buy 2 101 3) st = Inr (0, st') \<and>
    q_id (buy 2 101 3) \<notin> r_id ` set (book_rows one_ask)"
proof -
  obtain st st' where s: "adapter_books st ME_GLUE_CAPACITY one_ask []" "books_ok ME_GLUE_CAPACITY one_ask"
    "gen_process_order adapter_api (buy 2 101 3) st = Inr (0, st')" by (rule sample_trade)
  from accepted_iff_valid[OF s] s(3) show ?thesis by blast
qed

text \<open>
  C16: a rejected order has one of the five error codes and leaves no trade and no change of
  the books behind.
\<close>

theorem rejected_changes_nothing:
  assumes "adapter_books st cap B ts0" and "books_ok cap B"
    and "gen_process_order adapter_api q st = Inr (code, st')" and "code \<noteq> 0"
  shows "code \<in> {2, 3, 4, 5, 6} \<and> reported (db st') = [] \<and> adapter_books st' cap B []"
proof -
  obtain B' where r: "spec_process cap q B = (code, B', reported (db st'))"
    "adapter_books st' cap B' (reported (db st'))"
    using order_runs[OF assms(1-3)] by blast
  from spec_rejects[OF r(1) assms(4)] r(2) show ?thesis by simp
qed

theorem rejected_changes_nothing_witness:
  "\<exists>st st'. gen_process_order adapter_api (sell 1 105 9) st = Inr (4, st') \<and>
    adapter_books st' ME_GLUE_CAPACITY one_ask []"
proof -
  obtain st where s: "adapter_books st ME_GLUE_CAPACITY one_ask []" "books_ok ME_GLUE_CAPACITY one_ask"
    using sample_run by blast
  obtain st' where run: "gen_process_order adapter_api (sell 1 105 9) st = Inr (4, st')"
    using adapter.process_order_refines[OF s dup_rejected] by blast
  from rejected_changes_nothing[OF s run] run show ?thesis by auto
qed

text \<open>
  A post-only order never trades and never touches the opposite book.
\<close>

theorem post_only_never_trades:
  assumes "adapter_books st cap B ts0" and "books_ok cap B" and "q_otype q = 3"
    and "gen_process_order adapter_api q st = Inr (code, st')"
  shows "reported (db st') = [] \<and> (\<exists>B'. adapter_books st' cap B' [] \<and> B' (contra q) = B (contra q))"
proof -
  obtain B' where r: "spec_process cap q B = (code, B', reported (db st'))"
    "adapter_books st' cap B' (reported (db st'))"
    using order_runs[OF assms(1,2,4)] by blast
  from spec_post_only[OF r(1) assms(2,3)] r(2) show ?thesis by auto
qed

theorem post_only_never_trades_witness:
  "\<exists>st st'. gen_process_order adapter_api (post_only (buy 2 101 3)) st = Inr (6, st') \<and> reported (db st') = []"
proof -
  obtain st where s: "adapter_books st ME_GLUE_CAPACITY one_ask []" "books_ok ME_GLUE_CAPACITY one_ask"
    using sample_run by blast
  obtain st' where run: "gen_process_order adapter_api (post_only (buy 2 101 3)) st = Inr (6, st')"
    using adapter.process_order_refines[OF s post_only_rejected] by blast
  from post_only_never_trades[OF s _ run] run show ?thesis by (auto simp: post_only_def)
qed

text \<open>
  An accepted market or immediate-or-cancel order is not in the books afterwards, and its
  own side of the book is as before.
\<close>

theorem market_and_ioc_never_rest:
  assumes "adapter_books st cap B ts0" and "books_ok cap B" and "q_otype q \<in> {1, 2}"
    and "gen_process_order adapter_api q st = Inr (0, st')"
  shows "\<exists>B'. adapter_books st' cap B' (reported (db st')) \<and> q_id q \<notin> r_id ` set (book_rows B') \<and>
    B' (opposite (contra q)) = B (opposite (contra q))"
proof -
  obtain B' where r: "spec_process cap q B = (0, B', reported (db st'))"
    "adapter_books st' cap B' (reported (db st'))"
    using order_runs[OF assms(1,2,4)] by blast
  from spec_never_rests[OF r(1) assms(2,3)] r(2) show ?thesis by blast
qed

theorem market_and_ioc_never_rest_witness:
  "\<exists>st st' B'. gen_process_order adapter_api (ioc (buy 2 101 9)) st = Inr (0, st') \<and>
    adapter_books st' ME_GLUE_CAPACITY B' (reported (db st')) \<and> 2 \<notin> r_id ` set (book_rows B')"
proof -
  obtain st where s: "adapter_books st ME_GLUE_CAPACITY one_ask []" "books_ok ME_GLUE_CAPACITY one_ask"
    using sample_run by blast
  obtain st' where run: "gen_process_order adapter_api (ioc (buy 2 101 9)) st = Inr (0, st')"
    using adapter.process_order_refines[OF s ioc_sweeps] by blast
  have "q_otype (ioc (buy 2 101 9)) \<in> {1, 2}" "q_id (ioc (buy 2 101 9)) = 2" by (simp_all add: ioc_def buy_def)
  with market_and_ioc_never_rest[OF s _ run] run show ?thesis by auto
qed

section \<open>Quantities and priority\<close>

text \<open>
  C11: quantity is conserved.  If an order is accepted and self-trade prevention applies to no order on the
  other side, what the opposite book loses is exactly what the reported trades say; a resting type
  adds exactly the untraded rest to its own book, another type leaves that book alone; sums are over natural numbers, so nothing
  wraps around.
\<close>

theorem quantity_conserved:
  assumes "adapter_books st cap B ts0" and "books_ok cap B" and "no_conflict q B"
    and "gen_process_order adapter_api q st = Inr (0, st')"
  shows "\<exists>B'. adapter_books st' cap B' (reported (db st')) \<and>
    rem_sum (level_rows (B (contra q))) = rem_sum (level_rows (B' (contra q))) + traded (reported (db st')) \<and>
    (if q_otype q = 0 \<or> q_otype q = 3
     then rem_sum (level_rows (B' (opposite (contra q)))) + traded (reported (db st')) =
       rem_sum (level_rows (B (opposite (contra q)))) + unat (q_qty q)
     else B' (opposite (contra q)) = B (opposite (contra q)) \<and> traded (reported (db st')) \<le> unat (q_qty q))"
proof -
  obtain B' where r: "spec_process cap q B = (0, B', reported (db st'))"
    "adapter_books st' cap B' (reported (db st'))"
    using order_runs[OF assms(1,2,4)] by blast
  have "q_otype q \<le> 3" using spec_accepts[OF r(1)] by simp
  then have "q_otype q = 0 \<or> q_otype q = 1 \<or> q_otype q = 2 \<or> q_otype q = 3" by (rule u64_le_3)
  with spec_conserves[OF r(1) assms(3)] r(2) show ?thesis by (intro exI[of _ B']) auto
qed

theorem quantity_conserved_witness:
  "\<exists>st st' B'. gen_process_order adapter_api (buy 2 101 3) st = Inr (0, st') \<and>
    adapter_books st' ME_GLUE_CAPACITY B' (reported (db st')) \<and> traded (reported (db st')) = 3 \<and>
    rem_sum (level_rows (one_ask Asks)) = rem_sum (level_rows (B' Asks)) + traded (reported (db st'))"
proof -
  obtain st st' where s: "adapter_books st ME_GLUE_CAPACITY one_ask []" "books_ok ME_GLUE_CAPACITY one_ask"
    "gen_process_order adapter_api (buy 2 101 3) st = Inr (0, st')" "reported (db st') = [sold]"
    by (rule sample_trade)
  have "no_conflict (buy 2 101 3) one_ask" "contra (buy 2 101 3) = Asks" "traded [sold] = 3"
    by (rule buy_no_conflict, simp_all add: contra_def buy_def traded_def sold_def)
  with quantity_conserved[OF s(1,2) _ s(3)] s(3,4) show ?thesis by metis
qed

text \<open>
  C12: matching is maximal.  If self-trade prevention applies to no order on the other side, an
  accepted order that did not trade its whole quantity leaves no opposite level that its limit
  would still accept (and a market order leaves none at all).
\<close>

theorem matching_is_maximal:
  assumes "adapter_books st cap B ts0" and "books_ok cap B" and "no_conflict q B"
    and "gen_process_order adapter_api q st = Inr (0, st')" and "traded (reported (db st')) < unat (q_qty q)"
  shows "\<exists>B'. adapter_books st' cap B' (reported (db st')) \<and>
    (\<forall>(p, xs) \<in> set (B' (contra q)). q_otype q \<noteq> 1 \<and> \<not> price_ok (contra q) p (q_price q))"
proof -
  obtain B' where r: "spec_process cap q B = (0, B', reported (db st'))"
    "adapter_books st' cap B' (reported (db st'))"
    using order_runs[OF assms(1,2,4)] by blast
  from spec_maximal[OF r(1) assms(2,3,5)] r(2) show ?thesis by blast
qed

theorem matching_is_maximal_witness:
  "\<exists>st st' B'. gen_process_order adapter_api (buy 2 99 3) st = Inr (0, st') \<and> reported (db st') = [] \<and>
    adapter_books st' ME_GLUE_CAPACITY B' [] \<and> (\<forall>(p, xs) \<in> set (B' Asks). \<not> p \<le> 99)"
proof -
  obtain st where s: "adapter_books st ME_GLUE_CAPACITY one_ask []" "books_ok ME_GLUE_CAPACITY one_ask"
    using sample_run by blast
  obtain st' where run: "gen_process_order adapter_api (buy 2 99 3) st = Inr (0, st')"
    and v: "adapter_books st' ME_GLUE_CAPACITY (one_ask(Bids := [(99, [new_row (buy 2 99 3) 3])])) []"
    using adapter.process_order_refines[OF s buy_rests] by blast
  have k: "contra (buy 2 99 3) = Asks" "q_price (buy 2 99 3) = 99" "q_qty (buy 2 99 3) = 3" "traded [] = 0"
    by (simp_all add: contra_def buy_def traded_def)
  note none = reported_books[OF v]
  have "traded (reported (db st')) < unat (q_qty (buy 2 99 3))" using k by (simp add: none)
  from matching_is_maximal[OF s buy_no_conflict run this] obtain B' where
    "adapter_books st' ME_GLUE_CAPACITY B' []" "\<forall>(p, xs) \<in> set (B' Asks). \<not> p \<le> 99"
    unfolding none k by auto
  with run none show ?thesis by blast
qed

text \<open>
  C13: self-trade prevention.  With a nonzero account and a prevention mode, no reported trade
  is with an order of the same account.
\<close>

theorem no_self_trade:
  assumes "adapter_books st cap B ts0" and "books_ok cap B"
    and "gen_process_order adapter_api q st = Inr (code, st')"
    and "q_account q \<noteq> 0" and "q_stp q \<noteq> 0"
    and "t \<in> set (reported (db st'))" and "x \<in> set (book_rows B)" and "t_maker t = r_id x"
  shows "r_account x \<noteq> q_account q"
proof -
  obtain B' where r: "spec_process cap q B = (code, B', reported (db st'))"
    using order_runs[OF assms(1-3)] by blast
  from spec_no_self[OF this assms(2,6,7,8)] assms(4,5) show ?thesis by (auto simp: self_trade_def)
qed

theorem no_self_trade_witness:
  "\<exists>st st'. gen_process_order adapter_api (buy 2 101 3) st = Inr (0, st') \<and> reported (db st') = [sold] \<and>
    adapter_books st ME_GLUE_CAPACITY one_ask [] \<and>
    (\<exists>st1. gen_process_order adapter_api (careful (buy 2 101 3)) st = Inr (0, st1) \<and> reported (db st1) = [sold] \<and>
      r_account (new_row (sell 1 100 5) 5) \<noteq> q_account (careful (buy 2 101 3)))"
proof -
  obtain st st' where s: "adapter_books st ME_GLUE_CAPACITY one_ask []" "books_ok ME_GLUE_CAPACITY one_ask"
    "gen_process_order adapter_api (buy 2 101 3) st = Inr (0, st')" "reported (db st') = [sold]"
    by (rule sample_trade)
  obtain st1 where run: "gen_process_order adapter_api (careful (buy 2 101 3)) st = Inr (0, st1)"
    and v: "adapter_books st1 ME_GLUE_CAPACITY (one_ask(Asks := [(100, [new_row (sell 1 100 5) 2])])) [sold]"
    using adapter.process_order_refines[OF s(1,2) careful_trades] by blast
  note rep = reported_books[OF v]
  have "sold \<in> set (reported (db st1))" by (simp add: rep)
  moreover have "q_account (careful (buy 2 101 3)) \<noteq> 0" "q_stp (careful (buy 2 101 3)) \<noteq> 0"
    by (simp_all add: careful_def buy_def)
  moreover have "new_row (sell 1 100 5) 5 \<in> set (book_rows one_ask)" "t_maker sold = r_id (new_row (sell 1 100 5) 5)"
    by (simp_all add: one_ask_def book_rows_def level_rows_def sold_def sell_def)
  ultimately have "r_account (new_row (sell 1 100 5) 5) \<noteq> q_account (careful (buy 2 101 3))"
    using no_self_trade[OF s(1,2) run] by blast
  with s run rep show ?thesis by blast
qed

text \<open>
  Time priority at entry.  An accepted limit or post-only order that is in the books
  afterwards is the last one of the level at its price, behind every order that rested there,
  with a positive remainder.
\<close>

theorem rests_at_the_tail:
  assumes "adapter_books st cap B ts0" and "books_ok cap B"
    and "gen_process_order adapter_api q st = Inr (0, st')" and "q_otype q = 0 \<or> q_otype q = 3"
  shows "\<exists>B'. adapter_books st' cap B' (reported (db st')) \<and>
    (q_id q \<in> r_id ` set (book_rows B') \<longrightarrow>
      (\<exists>xs r. (q_price q, xs @ [new_row q r]) \<in> set (B' (opposite (contra q))) \<and> 0 < r \<and> r \<le> q_qty q \<and>
        (xs = [] \<or> (q_price q, xs) \<in> set (B (opposite (contra q))))))"
proof -
  obtain B' where r: "spec_process cap q B = (0, B', reported (db st'))"
    "adapter_books st' cap B' (reported (db st'))"
    using order_runs[OF assms(1-3)] by blast
  from spec_rests_last[OF r(1) assms(2)] r(2) show ?thesis by blast
qed

theorem rests_at_the_tail_witness:
  "\<exists>st st' B' xs r. gen_process_order adapter_api (buy 2 99 3) st = Inr (0, st') \<and>
    adapter_books st' ME_GLUE_CAPACITY B' [] \<and> (99, xs @ [new_row (buy 2 99 3) r]) \<in> set (B' Bids)"
proof -
  obtain st where s: "adapter_books st ME_GLUE_CAPACITY one_ask []" "books_ok ME_GLUE_CAPACITY one_ask"
    using sample_run by blast
  obtain st' where run: "gen_process_order adapter_api (buy 2 99 3) st = Inr (0, st')"
    and v: "adapter_books st' ME_GLUE_CAPACITY (one_ask(Bids := [(99, [new_row (buy 2 99 3) 3])])) []"
    using adapter.process_order_refines[OF s buy_rests] by blast
  have k: "contra (buy 2 99 3) = Asks" "q_price (buy 2 99 3) = 99" "q_id (buy 2 99 3) = 2"
    "q_otype (buy 2 99 3) = 0 \<or> q_otype (buy 2 99 3) = 3"
    by (simp_all add: contra_def buy_def)
  note none = reported_books[OF v]
  obtain B' where B': "adapter_books st' ME_GLUE_CAPACITY B' []" and
    tail: "2 \<in> r_id ` set (book_rows B') \<longrightarrow> (\<exists>xs r. (99, xs @ [new_row (buy 2 99 3) r]) \<in> set (B' Bids))"
    using rests_at_the_tail[OF s run k(4)] unfolding none k by auto
  have "B' = one_ask(Bids := [(99, [new_row (buy 2 99 3) 3])])" by (rule adapter_books_unique[OF B' v])
  then have "2 \<in> r_id ` set (book_rows B')" by (simp add: book_rows_def level_rows_def k)
  with tail run B' show ?thesis by blast
qed

section \<open>Cancelling undoes resting\<close>

text \<open>
  C14: round trip.  An accepted order of a resting type that traded nothing, when self-trade prevention
  applied to no order on the other side, is undone by cancelling its id: the code is 1 and the books
  are the ones before it.
\<close>

theorem cancel_undoes_order:
  assumes "adapter_books st cap B ts0" and "books_ok cap B" and "no_conflict q B"
    and "q_otype q = 0 \<or> q_otype q = 3"
    and "gen_process_order adapter_api q st = Inr (0, st')" and "reported (db st') = []"
  shows "\<exists>st''. gen_cancel_order adapter_api (q_id q) st' = Inr (1, st'') \<and> adapter_books st'' cap B []"
proof -
  obtain B' where r: "spec_process cap q B = (0, B', [])" "adapter_books st' cap B' []" "books_ok cap B'"
    using order_runs[OF assms(1,2,5)] unfolding assms(6) by blast
  have "spec_cancel (q_id q) B' = (1, B)" using cancel_undoes[OF r(1) assms(2,3)] assms(4) by simp
  with r show ?thesis using adapter.cancel_order_refines by blast
qed

theorem cancel_undoes_order_witness:
  "\<exists>st st' st''. gen_process_order adapter_api (buy 2 99 3) st = Inr (0, st') \<and>
    gen_cancel_order adapter_api 2 st' = Inr (1, st'') \<and> adapter_books st'' ME_GLUE_CAPACITY one_ask []"
proof -
  obtain st where s: "adapter_books st ME_GLUE_CAPACITY one_ask []" "books_ok ME_GLUE_CAPACITY one_ask"
    using sample_run by blast
  obtain st' where run: "gen_process_order adapter_api (buy 2 99 3) st = Inr (0, st')"
    and v: "adapter_books st' ME_GLUE_CAPACITY (one_ask(Bids := [(99, [new_row (buy 2 99 3) 3])])) []"
    using adapter.process_order_refines[OF s buy_rests] by blast
  have "q_otype (buy 2 99 3) = 0 \<or> q_otype (buy 2 99 3) = 3" "q_id (buy 2 99 3) = 2" by (simp_all add: buy_def)
  with cancel_undoes_order[OF s buy_no_conflict _ run reported_books[OF v]] run show ?thesis by auto
qed

section \<open>The public functions, their counters and their callback\<close>

text \<open>
  C17: on every reachable state the result is true exactly for code 0, and the engine counters
  grow by the number of reported trades and by their total quantity (modulo \<open>2^64\<close>); the
  callback sees one event per trade, in order.
\<close>

theorem counters_match_trades:
  assumes "reachable (Some e) st"
    and "MatchingEngine_ProcessOrder (Some e) (Some r) st = Inr (ok, engine', st')"
  shows "\<exists>e'. engine' = Some e' \<and>
    total_trades e' = total_trades e + of_nat (length (reported (db st'))) \<and>
    total_volume e' = total_volume e + of_nat (traded (reported (db st'))) \<and> on_trade e' = on_trade e \<and>
    (\<forall>f. on_trade e = Some f \<longrightarrow> user_data e' = fold (f \<circ> event_of) (reported (db st')) (user_data e))"
proof -
  from reachable_good[OF assms(1)] obtain B ts0 where v: "adapter_books st ME_GLUE_CAPACITY B ts0"
    and ok: "books_ok ME_GLUE_CAPACITY B" by (rule good_stateE)
  obtain code B' ts where spec: "spec_process ME_GLUE_CAPACITY (params_of r) B = (code, B', ts)" by (metis prod_cases3)
  obtain st1 where "MatchingEngine_ProcessOrder (Some e) (Some r) st =
      Inr (code = 0, map_option (report_trades ts) (Some e), st1)" and v1: "adapter_books st1 ME_GLUE_CAPACITY B' ts"
    using ProcessOrder_refines[OF v ok spec] .
  with assms(2) have "engine' = Some (report_trades ts e)" "reported (db st') = ts"
    using reported_books[OF v1] by simp_all
  then show ?thesis by (simp add: report_trades_counters)
qed

theorem counters_match_trades_witness:
  "\<exists>(e :: nat MatchingEngine) e' st st'. reachable (Some e) st \<and> total_trades e = 0 \<and>
    MatchingEngine_ProcessOrder (Some e) (Some (request_of (buy 2 101 3))) st = Inr (True, Some e', st') \<and>
    reported (db st') = [sold] \<and> total_trades e' = 1 \<and> total_volume e' = 3 \<and> user_data e' = 1"
proof -
  obtain e :: "nat MatchingEngine" and st where s: "reachable (Some e) st"
    "adapter_books st ME_GLUE_CAPACITY one_ask []" "books_ok ME_GLUE_CAPACITY one_ask"
    and e: "total_trades e = 0" "total_volume e = 0" "on_trade e = Some (\<lambda>_. Suc)" "user_data e = 0"
    by (rule sample_run_engine)
  have spec: "spec_process ME_GLUE_CAPACITY (params_of (request_of (buy 2 101 3))) one_ask =
      (0, one_ask(Asks := [(100, [new_row (sell 1 100 5) 2])]), [sold])" by (simp add: buy_trades)
  obtain st' where run: "MatchingEngine_ProcessOrder (Some e) (Some (request_of (buy 2 101 3))) st =
      Inr ((0 :: u64) = 0, map_option (report_trades [sold]) (Some e), st')"
    and v: "adapter_books st' ME_GLUE_CAPACITY (one_ask(Asks := [(100, [new_row (sell 1 100 5) 2])])) [sold]"
    using ProcessOrder_refines[OF s(2,3) spec] .
  from counters_match_trades[OF s(1) run] reported_books[OF v] e obtain e' where
    "map_option (report_trades [sold]) (Some e) = Some e'" "total_trades e' = 1" "total_volume e' = 3" "user_data e' = 1"
    by (auto simp: traded_def sold_def)
  with run s(1) e(1) reported_books[OF v] show ?thesis by auto
qed

section \<open>The run-time self check and what it checks\<close>

text \<open>
  C8: \<open>MatchingEngine_CheckInvariants\<close> returns true in every state reachable with memory allocations
  that succeed: the links of
  queues and trees, the prices, the sums and counts of every level, the hash index and both
  pools agree.  It does not run into a null or dangling link either.
\<close>

theorem invariants_hold_when_reachable:
  assumes "reachable engine st"
  shows "MatchingEngine_CheckInvariants (db st) = Some True"
  using assms by (rule reachable_db) (rule check_invariants_pass)

theorem invariants_hold_when_reachable_witness:
  "\<exists>(engine :: unit MatchingEngine option) st. adapter_books st ME_GLUE_CAPACITY one_ask [] \<and>
    MatchingEngine_CheckInvariants (db st) = Some True"
proof -
  obtain engine st where "reachable (engine :: unit MatchingEngine option) st"
    "adapter_books st ME_GLUE_CAPACITY one_ask []" by (rule sample_run)
  with invariants_hold_when_reachable show ?thesis by blast
qed



text \<open>
  The best prices do not cross: in every reachable state the root of each tree leads to
  the best level of its book, and the best bid is below the best ask.
\<close>

theorem best_prices_do_not_cross:
  assumes "reachable engine st"
    and "EngineDb_bids_Best (db st) = Some (Some b)" and "EngineDb_asks_Best (db st) = Some (Some a)"
  shows "l_price (db st) b < l_price (db st) a"
  using assms(1)
proof (rule reachable_db)
  fix s assume r: "db_rep (db st) s" and ok: "books_ok (s_cap s) (book_view s)"
  obtain bs as where "s_tree s Bids = b # bs" "s_tree s Asks = a # as"
    using assms(2,3) db_tree_best[OF r, of Bids] db_tree_best[OF r, of Asks]
    by (auto split: list.splits)
  with ok tree_lprice[OF r, of b Bids] tree_lprice[OF r, of a Asks] show ?thesis
    by (auto simp: books_ok_def uncrossed_def book_view_def level_view_def)
qed

theorem best_prices_do_not_cross_witness:
  "\<exists>(engine :: unit MatchingEngine option) st b a. reachable engine st \<and>
    EngineDb_bids_Best (db st) = Some (Some b) \<and> EngineDb_asks_Best (db st) = Some (Some a) \<and>
    l_price (db st) b < l_price (db st) a"
proof -
  obtain engine st b a where "reachable (engine :: unit MatchingEngine option) st"
    "EngineDb_bids_Best (db st) = Some (Some b)" "EngineDb_asks_Best (db st) = Some (Some a)"
    by (rule sample_two_sided)
  with best_prices_do_not_cross show ?thesis by blast
qed

text \<open>
  C30: the totals are exact: a level found in either tree of a reachable state has the price it
  was looked up by, a nonempty queue, and a running total and a count equal to the sum and the
  length of that queue as natural numbers, so neither has wrapped around.
\<close>

theorem level_totals_are_exact:
  assumes "reachable engine st" and "EngineDb_book_Find b (db st) p = Some (Some l)"
  shows "l_price (db st) l = p \<and> (\<exists>xs. xs \<noteq> [] \<and>
    dll (o_next (db st)) (o_prev (db st)) (l_head (db st) l) None xs (l_tail (db st) l) None \<and>
    unat (l_n (db st) l) = length xs \<and>
    unat (l_total (db st) l) = sum_list (map (\<lambda>x. unat (o_rem (db st) x)) xs) \<and>
    (\<forall>x \<in> set xs. o_price (db st) x = p \<and> 0 < o_rem (db st) x))"
  using assms(1)
proof (rule reachable_db)
  fix s assume r: "db_rep (db st) s" and cap: "s_cap s = ME_GLUE_CAPACITY" and ok: "books_ok (s_cap s) (book_view s)"
  have "find (\<lambda>l. lprice s l = p) (s_tree s b) = Some l" using assms(2) db_tree_find[OF r, of b p] by simp
  then have l: "l \<in> set (s_tree s b)" and p: "lprice s l = p" by (auto simp: find_Some_iff)
  from level_contents[OF r ok l] p show ?thesis by (simp add: exI[of _ "s_queue s l"])
qed

theorem level_totals_are_exact_witness:
  "\<exists>(engine :: unit MatchingEngine option) st l. reachable engine st \<and>
    EngineDb_book_Find Asks (db st) 100 = Some (Some l) \<and> l_price (db st) l = 100"
proof -
  obtain engine st where s: "reachable (engine :: unit MatchingEngine option) st"
    and v: "adapter_books st ME_GLUE_CAPACITY one_ask []" by (rule sample_run)
  obtain l where l: "EngineDb_book_Find Asks (db st) 100 = Some (Some l)"
    using find_level[OF v, of 100 _ Asks] by (auto simp: one_ask_def)
  from level_totals_are_exact[OF s l] s l show ?thesis by blast
qed

end
